(* ===== verification/Prelude.thy ===== *)
theory Prelude
  imports Main "HOL-Library.Word" "HOL-Library.List_Lexorder" "HOL-Library.Sublist"
begin

text \<open>
  Shared material of the vcdb development: byte strings, the fixed-width integers of the
  C++ sources, their layout in the memory of a little-endian host (the only layout the
  code supports without byte swapping, \<^verbatim>\<open>src/src/util/endian.h\<close>), and generic
  lemmas on the lexicographic order of byte strings, which is the order in which the
  storage engine keeps its keys.

  C++ integer types are modelled as follows. \<^verbatim>\<open>uint16_t\<close> and \<^verbatim>\<open>uint64_t\<close> are
  words, so that arithmetic wraps. \<^verbatim>\<open>int\<close> and \<^verbatim>\<open>int64_t\<close> are integers of type
  \<open>int\<close>: a conversion from \<^verbatim>\<open>uint64_t\<close> is \<open>sint\<close> and a conversion to it is
  \<open>word_of_int\<close>; signed overflow is undefined in C++ and is not given a value here.
\<close>

unbundle bit_operations_syntax

named_theorems codec_simps \<open>length and layout equations of the encoders\<close>

type_synonym byte = "8 word"
type_synonym bytes = "8 word list"
type_synonym u16 = "16 word"
type_synonym u64 = "64 word"

abbreviation UINT64_MAX :: u64 where
  "UINT64_MAX \<equiv> - 1"

abbreviation UINT16_MAX :: u16 where
  "UINT16_MAX \<equiv> - 1"

abbreviation INT64_MAX :: int where
  "INT64_MAX \<equiv> 9223372036854775807"

abbreviation INT64_MIN :: int where
  "INT64_MIN \<equiv> - 9223372036854775808"

abbreviation INT_MAX :: int where
  "INT_MAX \<equiv> 2147483647"

lemma unat_UINT64_MAX [simp]: "unat UINT64_MAX = 18446744073709551615"
  using unat_sub [of 0 "UINT64_MAX"] by (simp add: unsigned_minus_1_eq_mask mask_eq_exp_minus_1)

definition int64 :: "int \<Rightarrow> bool" where
  "int64 x \<longleftrightarrow> INT64_MIN \<le> x \<and> x \<le> INT64_MAX"

lemma sint_word_of_int64: "int64 x \<Longrightarrow> sint (word_of_int x :: u64) = x"
  by (simp add: int64_def sint_sbintrunc' signed_take_bit_int_eq_self)

lemma int64_sint [simp]: "int64 (sint (w :: u64))"
  using sint_range_size [of w] by (simp add: int64_def size_word_def)

section \<open>Fixed-width big- and little-endian numerals\<close>

fun be_encode :: "nat \<Rightarrow> nat \<Rightarrow> bytes" where
  "be_encode 0 x = []"
| "be_encode (Suc n) x = be_encode n (x div 256) @ [word_of_nat (x mod 256)]"

fun be_decode :: "bytes \<Rightarrow> nat" where
  "be_decode [] = 0"
| "be_decode (b # bs) = unat b * 256 ^ length bs + be_decode bs"

definition le_encode :: "nat \<Rightarrow> nat \<Rightarrow> bytes" where
  "le_encode n x = rev (be_encode n x)"

definition le_decode :: "bytes \<Rightarrow> nat" where
  "le_decode bs = be_decode (rev bs)"

lemma length_be_encode [simp]: "length (be_encode n x) = n"
  by (induction n arbitrary: x) auto

lemma length_le_encode [simp]: "length (le_encode n x) = n"
  by (simp add: le_encode_def)

lemma be_decode_append:
  "be_decode (xs @ ys) = be_decode xs * 256 ^ length ys + be_decode ys"
  by (induction xs) (auto simp: algebra_simps power_add)

lemma be_decode_encode: "be_decode (be_encode n x) = x mod 256 ^ n"
proof (induction n arbitrary: x)
  case 0
  then show ?case by simp
next
  case (Suc n)
  have "x mod 256 ^ Suc n = (x div 256 mod 256 ^ n) * 256 + x mod 256"
    by (simp add: mod_mult2_eq mult.commute)
  moreover have "x mod 256 < (256::nat)" by simp
  ultimately show ?case
    by (simp add: be_decode_append Suc.IH unat_of_nat)
qed

lemma be_decode_less: "be_decode bs < 256 ^ length bs"
proof (induction bs)
  case Nil
  then show ?case by simp
next
  case (Cons b bs)
  have "unat b < 256" using unsigned_less [of b] by simp
  then have le: "(unat b + 1) * 256 ^ length bs \<le> 256 * 256 ^ length bs"
    by (intro mult_le_mono1) simp
  have "unat b * 256 ^ length bs + be_decode bs < (unat b + 1) * 256 ^ length bs"
    using Cons by (simp add: algebra_simps)
  from order_less_le_trans [OF this le] show ?case by simp
qed

lemma be_encode_decode: "length bs = n \<Longrightarrow> be_encode n (be_decode bs) = bs"
proof (induction n arbitrary: bs)
  case 0
  then show ?case by simp
next
  case (Suc n)
  then obtain ys y where bs: "bs = ys @ [y]" "length ys = n"
    by (metis length_Suc_conv_rev)
  have "unat y < 256" using unsigned_less [of y] by simp
  with bs Suc.IH [of ys] show ?case
    by (simp add: be_decode_append)
qed

lemma be_encode_inj:
  "x < 256 ^ n \<Longrightarrow> y < 256 ^ n \<Longrightarrow> be_encode n x = be_encode n y \<longleftrightarrow> x = y"
  by (metis be_decode_encode mod_less)

lemma le_decode_encode: "le_decode (le_encode n x) = x mod 256 ^ n"
  by (simp add: le_decode_def le_encode_def be_decode_encode)

lemma le_encode_decode: "length bs = n \<Longrightarrow> le_encode n (le_decode bs) = bs"
  by (simp add: le_decode_def le_encode_def be_encode_decode)

lemma le_decode_less: "le_decode bs < 256 ^ length bs"
  using be_decode_less [of "rev bs"] by (simp add: le_decode_def)

section \<open>Host integers in memory and byte swapping\<close>

text \<open>
  \<open>raw16 w\<close> and \<open>raw64 w\<close> are the bytes at \<^verbatim>\<open>(char *) &w\<close>; \<open>load16\<close> and
  \<open>load64\<close> read an integer from memory, as \<^verbatim>\<open>*(uint64_t *) p\<close> does. On a
  little-endian host \<^verbatim>\<open>htobe16\<close>, \<^verbatim>\<open>be16toh\<close> and their 64-bit versions reverse the
  bytes.
\<close>

definition raw16 :: "u16 \<Rightarrow> bytes" where
  "raw16 w = le_encode 2 (unat w)"

definition raw64 :: "u64 \<Rightarrow> bytes" where
  "raw64 w = le_encode 8 (unat w)"

definition load16 :: "bytes \<Rightarrow> u16" where
  "load16 bs = word_of_nat (le_decode (take 2 bs))"

definition load64 :: "bytes \<Rightarrow> u64" where
  "load64 bs = word_of_nat (le_decode (take 8 bs))"

definition htobe16 :: "u16 \<Rightarrow> u16" where
  "htobe16 w = word_of_nat (be_decode (raw16 w))"

definition htobe64 :: "u64 \<Rightarrow> u64" where
  "htobe64 w = word_of_nat (be_decode (raw64 w))"

definition be16toh :: "u16 \<Rightarrow> u16" where
  "be16toh w = word_of_nat (be_decode (raw16 w))"

definition be64toh :: "u64 \<Rightarrow> u64" where
  "be64toh w = word_of_nat (be_decode (raw64 w))"

lemma unat_u16_less: "unat (w :: u16) < 65536"
  using unsigned_less [of w] by simp

lemma unat_u64_less: "unat (w :: u64) < 18446744073709551616"
  using unsigned_less [of w] by simp

lemma length_raw [simp, codec_simps]: "length (raw16 v) = 2" "length (raw64 w) = 8"
  by (simp_all add: raw16_def raw64_def)

lemma raw16_htobe16: "raw16 (htobe16 w) = be_encode 2 (unat w)"
proof -
  have "be_decode (raw16 w) < 65536"
    using be_decode_less [of "raw16 w"] by simp
  then have "unat (word_of_nat (be_decode (raw16 w)) :: u16) = be_decode (raw16 w)"
    by (simp add: unat_of_nat)
  then have "raw16 (htobe16 w) = rev (raw16 w)"
    using be_encode_decode [of "raw16 w" 2]
    by (simp add: htobe16_def raw16_def [of "word_of_nat _"] le_encode_def)
  then show ?thesis by (simp add: raw16_def le_encode_def)
qed

lemma raw64_htobe64: "raw64 (htobe64 w) = be_encode 8 (unat w)"
proof -
  have "be_decode (raw64 w) < 18446744073709551616"
    using be_decode_less [of "raw64 w"] by simp
  then have "unat (word_of_nat (be_decode (raw64 w)) :: u64) = be_decode (raw64 w)"
    by (simp add: unat_of_nat)
  then have "raw64 (htobe64 w) = rev (raw64 w)"
    using be_encode_decode [of "raw64 w" 8]
    by (simp add: htobe64_def raw64_def [of "word_of_nat _"] le_encode_def)
  then show ?thesis by (simp add: raw64_def le_encode_def)
qed

lemma be16toh_load16: "length bs \<ge> 2 \<Longrightarrow> be16toh (load16 bs) = word_of_nat (be_decode (take 2 bs))"
proof -
  assume len: "length bs \<ge> 2"
  then have l2: "length (take 2 bs) = 2" by simp
  have "le_decode (take 2 bs) < 65536"
    using le_decode_less [of "take 2 bs"] l2 by simp
  then have "raw16 (load16 bs) = take 2 bs"
    using le_encode_decode [OF l2] by (simp add: raw16_def load16_def unat_of_nat)
  then show ?thesis by (simp add: be16toh_def)
qed

lemma be64toh_load64: "length bs \<ge> 8 \<Longrightarrow> be64toh (load64 bs) = word_of_nat (be_decode (take 8 bs))"
proof -
  assume len: "length bs \<ge> 8"
  then have l8: "length (take 8 bs) = 8" by simp
  have "le_decode (take 8 bs) < 18446744073709551616"
    using le_decode_less [of "take 8 bs"] l8 by simp
  then have "raw64 (load64 bs) = take 8 bs"
    using le_encode_decode [OF l8] by (simp add: raw64_def load64_def unat_of_nat)
  then show ?thesis by (simp add: be64toh_def)
qed

lemma be16toh_load16_encode [simp]: "be16toh (load16 (raw16 (htobe16 w) @ r)) = w"
  by (simp add: be16toh_load16 raw16_htobe16 be_decode_encode unat_u16_less)

lemma be64toh_load64_encode [simp]: "be64toh (load64 (raw64 (htobe64 w) @ r)) = w"
  by (simp add: be64toh_load64 raw64_htobe64 be_decode_encode unat_u64_less)

lemma load64_raw64 [simp]: "load64 (raw64 w @ r) = w" "load64 (raw64 w) = w"
  by (simp_all add: load64_def raw64_def le_decode_encode unat_u64_less)

lemma raw64_inj [simp]: "raw64 v = raw64 w \<longleftrightarrow> v = w"
  by (metis load64_raw64(2))

lemma htobe64_inj [simp]: "htobe64 v = htobe64 w \<longleftrightarrow> v = w"
  by (metis be64toh_load64_encode)

lemma htobe16_inj [simp]: "htobe16 v = htobe16 w \<longleftrightarrow> v = w"
  by (metis be16toh_load16_encode)

lemma raw16_htobe16_inj [simp]: "raw16 (htobe16 v) = raw16 (htobe16 w) \<longleftrightarrow> v = w"
  by (metis be16toh_load16_encode append_Nil2)

lemma raw64_htobe64_inj [simp]: "raw64 (htobe64 v) = raw64 (htobe64 w) \<longleftrightarrow> v = w"
  by (metis be64toh_load64_encode append_Nil2)

section \<open>Lexicographic order of byte strings\<close>

lemma lex_append_same [simp]: "(p @ x < p @ y) = (x < (y :: 'a :: linorder list))"
  by (induction p) auto

lemma lex_append_same_le [simp]: "(p @ x \<le> p @ y) = (x \<le> (y :: 'a :: linorder list))"
  by (induction p) auto

lemma lex_prefix_le [simp]: "p \<le> p @ (x :: 'a :: linorder list)"
  by (induction p) auto

lemma lex_append_less:
  "length p = length q \<Longrightarrow> p < q \<Longrightarrow> p @ x < q @ (y :: 'a :: linorder list)"
  by (induction p q rule: list_induct2) auto

text \<open>
  The keys that start with a given prefix form an interval: everything at or above the
  prefix that does not start with it is above every key that does.
\<close>

lemma lex_above_prefix:
  "(p :: 'a :: linorder list) \<le> k \<Longrightarrow> \<not> prefix p k \<Longrightarrow> p @ x < k"
  by (induction p arbitrary: k) (auto simp: le_less, case_tac k, auto)

lemma lex_below_prefix:
  "k < (p :: 'a :: linorder list) \<Longrightarrow> k < p @ x"
  by (metis lex_prefix_le order_less_le_trans)

text \<open>Big-endian numerals of one width are ordered as the numbers are.\<close>

lemma be_decode_mono:
  "length xs = length ys \<Longrightarrow> (xs < ys) = (be_decode xs < be_decode ys)"
proof (induction xs ys rule: list_induct2)
  case Nil
  then show ?case by simp
next
  case (Cons x xs y ys)
  let ?M = "256 ^ length ys :: nat"
  have b: "be_decode xs < ?M" "be_decode ys < ?M"
    using be_decode_less [of xs] be_decode_less [of ys] Cons.hyps by simp_all
  have step: "a * ?M + c < d * ?M + e" if "a < d" "c < ?M" for a c d e :: nat
  proof -
    have "(a + 1) * ?M \<le> d * ?M" using that by (intro mult_le_mono1) simp
    with that show ?thesis by (simp add: algebra_simps)
  qed
  consider "x < y" | "x = y" | "y < x" by fastforce
  then show ?case
  proof cases
    case 1
    then have "unat x < unat y" by (simp add: word_less_nat_alt)
    then show ?thesis using 1 Cons.hyps step [OF _ b(1), of "unat x" "unat y"] by simp
  next
    case 2
    then show ?thesis using Cons by simp
  next
    case 3
    then have "unat y < unat x" by (simp add: word_less_nat_alt)
    then have "\<not> be_decode (x # xs) < be_decode (y # ys)"
      using Cons.hyps step [OF _ b(2), of "unat y" "unat x" "be_decode xs"] by simp
    then show ?thesis using 3 by auto
  qed
qed

lemma be_encode_less:
  "x < 256 ^ n \<Longrightarrow> y < 256 ^ n \<Longrightarrow> be_encode n x < be_encode n y \<longleftrightarrow> x < y"
  by (simp add: be_decode_mono be_decode_encode)

section \<open>Slices of lists\<close>

text \<open>The elements from \<open>start\<close> to \<open>end\<close>, both inclusive, with negative positions from the end.\<close>

definition list_slice :: "'a list \<Rightarrow> int \<Rightarrow> int \<Rightarrow> 'a list" where
  "list_slice xs start stop =
     (let n = int (length xs);
          a = max 0 (if start < 0 then n + start else start);
          to = min (n - 1) (if stop < 0 then n + stop else stop)
      in take (nat (to - a + 1)) (drop (nat a) xs))"

end
