(* ===== verification/Codec.thy ===== *)
theory Codec
  imports Prelude
begin

text \<open>
  The key and value codec: \<^verbatim>\<open>src/src/codec/util.h\<close> (tag bytes, score coding),
  \<^verbatim>\<open>src/src/codec/error.h\<close> (return codes), \<^verbatim>\<open>src/src/codec/kv/encode.cpp\<close>,
  \<^verbatim>\<open>src/src/codec/kv/decode.cpp\<close> and the \<^verbatim>\<open>Decoder\<close> class of
  \<^verbatim>\<open>src/src/util/bytes.h\<close>. Encoders build byte strings; decoders read them through
  a cursor, modelled as the bytes that remain. The lemmas show that decoding inverts
  encoding, that encoders are injective on keys shorter than 65536 bytes, that keys of
  different kinds never coincide, and that the encodings of list positions, deadlines
  and scores are ordered as the numbers they stand for.
\<close>

section \<open>Return codes and tags\<close>

definition STORAGE_ERR :: int where "STORAGE_ERR = -2"
definition WRONG_TYPE_ERR :: int where "WRONG_TYPE_ERR = -3"
definition MKEY_DECODEC_ERR :: int where "MKEY_DECODEC_ERR = -4"
definition INT_OVERFLOW :: int where "INT_OVERFLOW = -6"
definition INVALID_INT :: int where "INVALID_INT = -8"
definition INVALID_INCR_LEN :: int where "INVALID_INCR_LEN = -10"
definition STRING_OVERMAX :: int where "STRING_OVERMAX = -11"
definition INDEX_OUT_OF_RANGE :: int where "INDEX_OUT_OF_RANGE = -12"
definition INVALID_METAVAL :: int where "INVALID_METAVAL = -13"
definition INVALID_EX_TIME :: int where "INVALID_EX_TIME = -15"

lemmas return_codes [simp] =
  STORAGE_ERR_def WRONG_TYPE_ERR_def MKEY_DECODEC_ERR_def INT_OVERFLOW_def INVALID_INT_def
  INVALID_INCR_LEN_def STRING_OVERMAX_def INDEX_OUT_OF_RANGE_def INVALID_METAVAL_def
  INVALID_EX_TIME_def

definition KEY_DELETE_MASK :: byte where "KEY_DELETE_MASK = 68"
definition KEY_ENABLED_MASK :: byte where "KEY_ENABLED_MASK = 69"
definition POS_TYPE :: nat where "POS_TYPE = 0"
definition POS_DEL :: nat where "POS_DEL = 3"
definition META :: byte where "META = 77"
definition KV :: byte where "KV = 107"
definition HSIZE :: byte where "HSIZE = 72"
definition ZSIZE :: byte where "ZSIZE = 90"
definition SSIZE :: byte where "SSIZE = 83"
definition LSIZE :: byte where "LSIZE = 76"
definition ITEM :: byte where "ITEM = 83"
definition ZSCORE :: byte where "ZSCORE = 122"
definition ESCORE :: byte where "ESCORE = 84"
definition EKEY :: byte where "EKEY = 69"
definition DELETE :: byte where "DELETE = KEY_DELETE_MASK"

lemmas tags = KEY_DELETE_MASK_def KEY_ENABLED_MASK_def META_def KV_def HSIZE_def ZSIZE_def
  SSIZE_def LSIZE_def ITEM_def ZSCORE_def ESCORE_def EKEY_def DELETE_def

lemma masks_differ [simp]:
  "KEY_DELETE_MASK \<noteq> KEY_ENABLED_MASK" "KEY_ENABLED_MASK \<noteq> KEY_DELETE_MASK"
  by (simp_all add: tags)

lemma meta_types_differ [simp]:
  "HSIZE \<noteq> SSIZE" "HSIZE \<noteq> ZSIZE" "HSIZE \<noteq> LSIZE" "HSIZE \<noteq> KV"
  "SSIZE \<noteq> HSIZE" "SSIZE \<noteq> ZSIZE" "SSIZE \<noteq> LSIZE" "SSIZE \<noteq> KV"
  "ZSIZE \<noteq> HSIZE" "ZSIZE \<noteq> SSIZE" "ZSIZE \<noteq> LSIZE" "ZSIZE \<noteq> KV"
  "LSIZE \<noteq> HSIZE" "LSIZE \<noteq> SSIZE" "LSIZE \<noteq> ZSIZE" "LSIZE \<noteq> KV"
  "KV \<noteq> HSIZE" "KV \<noteq> SSIZE" "KV \<noteq> ZSIZE" "KV \<noteq> LSIZE"
  by (simp_all add: tags)

lemma kinds_differ [simp]:
  "META \<noteq> ITEM" "META \<noteq> ZSCORE" "META \<noteq> ESCORE" "META \<noteq> EKEY" "META \<noteq> DELETE"
  "ITEM \<noteq> META" "ITEM \<noteq> ZSCORE" "ITEM \<noteq> ESCORE" "ITEM \<noteq> EKEY" "ITEM \<noteq> DELETE"
  "ZSCORE \<noteq> META" "ZSCORE \<noteq> ITEM" "ZSCORE \<noteq> ESCORE" "ZSCORE \<noteq> EKEY" "ZSCORE \<noteq> DELETE"
  "ESCORE \<noteq> META" "ESCORE \<noteq> ITEM" "ESCORE \<noteq> ZSCORE" "ESCORE \<noteq> EKEY" "ESCORE \<noteq> DELETE"
  "EKEY \<noteq> META" "EKEY \<noteq> ITEM" "EKEY \<noteq> ZSCORE" "EKEY \<noteq> ESCORE" "EKEY \<noteq> DELETE"
  "DELETE \<noteq> META" "DELETE \<noteq> ITEM" "DELETE \<noteq> ZSCORE" "DELETE \<noteq> ESCORE" "DELETE \<noteq> EKEY"
  by (simp_all add: tags)

section \<open>Scores\<close>

text \<open>
  A \<^verbatim>\<open>double\<close> is represented by its 64-bit pattern, which is what \<^verbatim>\<open>alias_cast\<close>
  yields.
\<close>

definition encodeScore :: "u64 \<Rightarrow> u64" where
  "encodeScore it =
     (if drop_bit 63 it = 1 then it XOR UINT64_MAX else it OR push_bit 63 1)"

definition decodeScore :: "u64 \<Rightarrow> u64" where
  "decodeScore c =
     (if drop_bit 63 c = 1 then c AND NOT (push_bit 63 1) else c XOR UINT64_MAX)"

section \<open>Encoders\<close>

definition encode_meta_key :: "bytes \<Rightarrow> bytes" where
  "encode_meta_key key = [META] @ key"

definition encode_key_internal :: "byte \<Rightarrow> bytes \<Rightarrow> bytes \<Rightarrow> u16 \<Rightarrow> bytes" where
  "encode_key_internal type key field version =
     [type] @ raw16 (htobe16 (word_of_nat (length key))) @ key @ raw16 (htobe16 version) @ field"

definition encode_hash_key :: "bytes \<Rightarrow> bytes \<Rightarrow> u16 \<Rightarrow> bytes" where
  "encode_hash_key key field version = encode_key_internal ITEM key field version"

definition encode_set_key :: "bytes \<Rightarrow> bytes \<Rightarrow> u16 \<Rightarrow> bytes" where
  "encode_set_key key member version = encode_key_internal ITEM key member version"

definition encode_zset_key :: "bytes \<Rightarrow> bytes \<Rightarrow> u16 \<Rightarrow> bytes" where
  "encode_zset_key key member version = encode_key_internal ITEM key member version"

definition encode_zscore_prefix :: "bytes \<Rightarrow> u16 \<Rightarrow> bytes" where
  "encode_zscore_prefix key version = encode_key_internal ZSCORE key [] version"

definition encode_eset_key :: "bytes \<Rightarrow> bytes" where
  "encode_eset_key member = [EKEY] @ member"

definition encode_zscore_key :: "bytes \<Rightarrow> bytes \<Rightarrow> u64 \<Rightarrow> u16 \<Rightarrow> bytes" where
  "encode_zscore_key key field score version =
     [ZSCORE] @ raw16 (htobe16 (word_of_nat (length key))) @ key @ raw16 (htobe16 version) @
     raw64 (htobe64 (encodeScore score)) @ field"

definition encode_escore_key :: "bytes \<Rightarrow> u64 \<Rightarrow> bytes" where
  "encode_escore_key member score = [ESCORE] @ raw64 (htobe64 score) @ member"

definition update_list_key :: "bytes \<Rightarrow> u64 \<Rightarrow> bytes" where
  "update_list_key old seq = take (length old - 8) old @ raw64 (htobe64 seq)"

definition encode_list_key :: "bytes \<Rightarrow> u64 \<Rightarrow> u16 \<Rightarrow> bytes" where
  "encode_list_key key seq version =
     [ITEM] @ raw16 (htobe16 (word_of_nat (length key))) @ key @ raw16 (htobe16 version) @
     raw64 (htobe64 seq)"

definition encode_kv_val :: "bytes \<Rightarrow> u16 \<Rightarrow> byte \<Rightarrow> bytes" where
  "encode_kv_val val version del = [KV] @ raw16 (htobe16 version) @ [del] @ val"

definition encode_meta_val_internal :: "byte \<Rightarrow> u64 \<Rightarrow> u16 \<Rightarrow> byte \<Rightarrow> bytes" where
  "encode_meta_val_internal type len version del =
     [type] @ raw16 (htobe16 version) @ [del] @ raw64 (htobe64 len)"

definition encode_hash_meta_val :: "u64 \<Rightarrow> u16 \<Rightarrow> byte \<Rightarrow> bytes" where
  "encode_hash_meta_val len version del = encode_meta_val_internal HSIZE len version del"

definition encode_set_meta_val :: "u64 \<Rightarrow> u16 \<Rightarrow> byte \<Rightarrow> bytes" where
  "encode_set_meta_val len version del = encode_meta_val_internal SSIZE len version del"

definition encode_zset_meta_val :: "u64 \<Rightarrow> u16 \<Rightarrow> byte \<Rightarrow> bytes" where
  "encode_zset_meta_val len version del = encode_meta_val_internal ZSIZE len version del"

definition encode_list_meta_val :: "u64 \<Rightarrow> u64 \<Rightarrow> u64 \<Rightarrow> u16 \<Rightarrow> byte \<Rightarrow> bytes" where
  "encode_list_meta_val len left right version del =
     [LSIZE] @ raw16 (htobe16 version) @ [del] @ raw64 (htobe64 len) @
     raw64 (htobe64 left) @ raw64 (htobe64 right)"

definition encode_delete_key :: "bytes \<Rightarrow> u16 \<Rightarrow> bytes" where
  "encode_delete_key key version =
     [KEY_DELETE_MASK] @ raw16 (htobe16 (word_of_nat (length key))) @ key @
     raw16 (htobe16 version)"

section \<open>The Decoder cursor\<close>

definition Decoder_skip :: "nat \<Rightarrow> bytes \<Rightarrow> bytes option" where
  "Decoder_skip n d = (if length d < n then None else Some (drop n d))"

definition read_uint16 :: "bytes \<Rightarrow> (u16 \<times> bytes) option" where
  "read_uint16 d = (if length d < 2 then None else Some (load16 d, drop 2 d))"

definition read_uint64 :: "bytes \<Rightarrow> (u64 \<times> bytes) option" where
  "read_uint64 d = (if length d < 8 then None else Some (load64 d, drop 8 d))"

definition read_16_data :: "bytes \<Rightarrow> (bytes \<times> bytes) option" where
  "read_16_data d =
     (if length d < 2 then None
      else let len = unat (be16toh (load16 d)); d = drop 2 d in
        if length d < len then None else Some (take len d, drop len d))"

definition read_data :: "bytes \<Rightarrow> bytes \<times> bytes" where
  "read_data d = (d, [])"

section \<open>Decoders of keys\<close>

record ItemKey =
  ik_version :: u16
  ik_key :: bytes
  ik_field :: bytes

record ZScoreItemKey =
  zk_version :: u16
  zk_key :: bytes
  zk_field :: bytes
  zk_score :: u64

record ListItemKey =
  lk_version :: u16
  lk_key :: bytes
  lk_seq :: u64

record EScoreItemKey =
  ek_field :: bytes
  ek_score :: int

record DeleteKey =
  dk_type :: byte
  dk_version :: u16
  dk_key :: bytes

text \<open>\<open>None\<close> is the return value -1; the caller then ignores the object.\<close>

definition DecodeMetaKey :: "bytes \<Rightarrow> bytes option" where
  "DecodeMetaKey str =
     (case Decoder_skip 1 str of None \<Rightarrow> None
      | Some d \<Rightarrow> if str ! POS_TYPE \<noteq> META then None else Some (fst (read_data d)))"

definition DecodeItemKey :: "bytes \<Rightarrow> ItemKey option" where
  "DecodeItemKey str =
     (case Decoder_skip 1 str of None \<Rightarrow> None
      | Some d \<Rightarrow> if str ! POS_TYPE \<noteq> ITEM then None else
     (case read_16_data d of None \<Rightarrow> None
      | Some (key, d) \<Rightarrow>
     (case read_uint16 d of None \<Rightarrow> None
      | Some (version, d) \<Rightarrow>
        Some \<lparr>ik_version = be16toh version, ik_key = key, ik_field = fst (read_data d)\<rparr>)))"

definition DecodeZScoreItemKey :: "bytes \<Rightarrow> ZScoreItemKey option" where
  "DecodeZScoreItemKey str =
     (case Decoder_skip 1 str of None \<Rightarrow> None
      | Some d \<Rightarrow> if str ! POS_TYPE \<noteq> ZSCORE then None else
     (case read_16_data d of None \<Rightarrow> None
      | Some (key, d) \<Rightarrow>
     (case read_uint16 d of None \<Rightarrow> None
      | Some (version, d) \<Rightarrow>
     (case read_uint64 d of None \<Rightarrow> None
      | Some (tscore, d) \<Rightarrow>
        Some \<lparr>zk_version = be16toh version, zk_key = key, zk_field = fst (read_data d),
              zk_score = decodeScore (be64toh tscore)\<rparr>))))"

definition DecodeListItemKey :: "bytes \<Rightarrow> ListItemKey option" where
  "DecodeListItemKey str =
     (case Decoder_skip 1 str of None \<Rightarrow> None
      | Some d \<Rightarrow> if str ! POS_TYPE \<noteq> ITEM then None else
     (case read_16_data d of None \<Rightarrow> None
      | Some (key, d) \<Rightarrow>
     (case read_uint16 d of None \<Rightarrow> None
      | Some (version, d) \<Rightarrow>
     (case read_uint64 d of None \<Rightarrow> None
      | Some (seq, d) \<Rightarrow>
        Some \<lparr>lk_version = be16toh version, lk_key = key, lk_seq = be64toh seq\<rparr>))))"

definition DecodeEScoreItemKey :: "bytes \<Rightarrow> EScoreItemKey option" where
  "DecodeEScoreItemKey str =
     (case Decoder_skip 1 str of None \<Rightarrow> None
      | Some d \<Rightarrow> if str ! POS_TYPE \<noteq> ESCORE then None else
     (case read_uint64 d of None \<Rightarrow> None
      | Some (tscore, d) \<Rightarrow>
        Some \<lparr>ek_field = fst (read_data d), ek_score = sint (be64toh tscore)\<rparr>))"

definition DecodeDeleteKey :: "bytes \<Rightarrow> DeleteKey option" where
  "DecodeDeleteKey str =
     (case Decoder_skip 1 str of None \<Rightarrow> None
      | Some d \<Rightarrow> if str ! POS_TYPE \<noteq> KEY_DELETE_MASK then None else
     (case read_16_data d of None \<Rightarrow> None
      | Some (key, d) \<Rightarrow>
     (case read_uint16 d of None \<Rightarrow> None
      | Some (version, d) \<Rightarrow>
        Some \<lparr>dk_type = str ! POS_TYPE, dk_version = be16toh version, dk_key = key\<rparr>)))"

section \<open>Decoders of meta values\<close>

text \<open>
  The decoders fill the object they are called on field by field; an early return leaves
  the later fields as they were. \<open>mv_type\<close> is uninitialised in the class and is never
  read before it is set.
\<close>

record KvMetaVal =
  kv_type :: byte
  kv_del :: byte
  kv_version :: u16
  kv_value :: bytes

record MetaVal =
  mv_type :: byte
  mv_del :: byte
  mv_version :: u16
  mv_length :: u64

record ListMetaVal = MetaVal +
  left_seq :: u64
  right_seq :: u64

definition KvMetaVal_init :: KvMetaVal where
  "KvMetaVal_init = \<lparr>kv_type = 0, kv_del = 0, kv_version = 0, kv_value = []\<rparr>"

definition MetaVal_init :: MetaVal where
  "MetaVal_init = \<lparr>mv_type = 0, mv_del = KEY_ENABLED_MASK, mv_version = 0, mv_length = 0\<rparr>"

definition ListMetaVal_init :: ListMetaVal where
  "ListMetaVal_init = \<lparr>mv_type = 0, mv_del = KEY_ENABLED_MASK, mv_version = 0, mv_length = 0,
     left_seq = 0, right_seq = UINT64_MAX\<rparr>"

definition KvDecodeMetaVal :: "bytes \<Rightarrow> bool \<Rightarrow> KvMetaVal \<Rightarrow> int \<times> KvMetaVal" where
  "KvDecodeMetaVal str skip_val kv =
     (case Decoder_skip 1 str of None \<Rightarrow> (-1, kv)
      | Some d \<Rightarrow> let kv = kv\<lparr>kv_type := str ! POS_TYPE\<rparr> in
     (case read_uint16 d of None \<Rightarrow> (-1, kv)
      | Some (version, d) \<Rightarrow> let kv = kv\<lparr>kv_version := be16toh version\<rparr> in
     (case Decoder_skip 1 d of None \<Rightarrow> (-1, kv)
      | Some d \<Rightarrow> let kv = kv\<lparr>kv_del := str ! POS_DEL\<rparr> in
        if kv_del kv \<noteq> KEY_DELETE_MASK \<and> kv_del kv \<noteq> KEY_ENABLED_MASK then (-1, kv)
        else if kv_del kv = KEY_DELETE_MASK then (0, kv)
        else if kv_type kv \<noteq> KV then (WRONG_TYPE_ERR, kv)
        else if skip_val then (0, kv)
        else (0, kv\<lparr>kv_value := fst (read_data d)\<rparr>))))"

definition DecodeMetaVal :: "bytes \<Rightarrow> MetaVal \<Rightarrow> int \<times> MetaVal" where
  "DecodeMetaVal str mv =
     (case Decoder_skip 1 str of None \<Rightarrow> (-1, mv)
      | Some d \<Rightarrow> let mv = mv\<lparr>mv_type := str ! POS_TYPE\<rparr> in
     (case read_uint16 d of None \<Rightarrow> (-1, mv)
      | Some (version, d) \<Rightarrow> let mv = mv\<lparr>mv_version := be16toh version\<rparr> in
     (case Decoder_skip 1 d of None \<Rightarrow> (-1, mv)
      | Some d \<Rightarrow> let mv = mv\<lparr>mv_del := str ! POS_DEL\<rparr> in
        if mv_del mv \<noteq> KEY_DELETE_MASK \<and> mv_del mv \<noteq> KEY_ENABLED_MASK then (-1, mv)
        else if mv_del mv = KEY_DELETE_MASK then (0, mv)
        else if mv_type mv \<noteq> HSIZE \<and> mv_type mv \<noteq> SSIZE \<and> mv_type mv \<noteq> ZSIZE
        then (WRONG_TYPE_ERR, mv)
        else (case read_uint64 d of None \<Rightarrow> (-1, mv)
              | Some (len, d) \<Rightarrow> (0, mv\<lparr>mv_length := be64toh len\<rparr>)))))"

definition ListDecodeMetaVal :: "bytes \<Rightarrow> ListMetaVal \<Rightarrow> int \<times> ListMetaVal" where
  "ListDecodeMetaVal str lv =
     (case Decoder_skip 1 str of None \<Rightarrow> (-1, lv)
      | Some d \<Rightarrow> let lv = lv\<lparr>mv_type := str ! POS_TYPE\<rparr> in
     (case read_uint16 d of None \<Rightarrow> (-1, lv)
      | Some (version, d) \<Rightarrow> let lv = lv\<lparr>mv_version := be16toh version\<rparr> in
     (case Decoder_skip 1 d of None \<Rightarrow> (-1, lv)
      | Some d \<Rightarrow> let lv = lv\<lparr>mv_del := str ! POS_DEL\<rparr> in
        if mv_del lv \<noteq> KEY_DELETE_MASK \<and> mv_del lv \<noteq> KEY_ENABLED_MASK then (-1, lv)
        else if mv_del lv = KEY_DELETE_MASK then (0, lv)
        else if mv_type lv \<noteq> LSIZE then (WRONG_TYPE_ERR, lv)
        else
     (case read_uint64 d of None \<Rightarrow> (-1, lv)
      | Some (len, d) \<Rightarrow> let lv = lv\<lparr>mv_length := be64toh len\<rparr> in
     (case read_uint64 d of None \<Rightarrow> (-1, lv)
      | Some (l, d) \<Rightarrow> let lv = lv\<lparr>left_seq := be64toh l\<rparr> in
     (case read_uint64 d of None \<Rightarrow> (-1, lv)
      | Some (r, d) \<Rightarrow> (0, lv\<lparr>right_seq := be64toh r\<rparr>)))))))"


section \<open>Layout facts\<close>

abbreviation long_enough :: "bytes \<Rightarrow> bool" where
  "long_enough key \<equiv> length key < 65536"

lemma encode_key_internal_prefix:
  "encode_key_internal t key field v = encode_key_internal t key [] v @ field"
  by (simp add: encode_key_internal_def)

lemma list_key_is_item_key:
  "encode_list_key key seq v = encode_key_internal ITEM key (raw64 (htobe64 seq)) v"
  by (simp add: encode_list_key_def encode_key_internal_def)

lemma zscore_key_is_internal_key:
  "encode_zscore_key key field score v =
     encode_key_internal ZSCORE key (raw64 (htobe64 (encodeScore score)) @ field) v"
  by (simp add: encode_zscore_key_def encode_key_internal_def)

lemma delete_key_is_internal_key:
  "encode_delete_key key v = encode_key_internal DELETE key [] v"
  by (simp add: encode_delete_key_def encode_key_internal_def DELETE_def)

lemmas internal_keys = encode_hash_key_def encode_set_key_def encode_zset_key_def
  encode_zscore_prefix_def list_key_is_item_key zscore_key_is_internal_key
  delete_key_is_internal_key

lemma unat_key_length: "long_enough key \<Longrightarrow> unat (word_of_nat (length key) :: u16) = length key"
  by (simp add: unat_of_nat)

lemma encode_key_internal_inj:
  assumes "long_enough k" "long_enough k'"
  shows "encode_key_internal t k f v = encode_key_internal t' k' f' v' \<longleftrightarrow>
    t = t' \<and> k = k' \<and> f = f' \<and> v = v'" (is "?l = ?r")
proof
  assume ?l
  then have t: "t = t'"
    and "raw16 (htobe16 (word_of_nat (length k))) @ k @ raw16 (htobe16 v) @ f =
      raw16 (htobe16 (word_of_nat (length k'))) @ k' @ raw16 (htobe16 v') @ f'"
    by (simp_all add: encode_key_internal_def)
  then have len: "(word_of_nat (length k) :: u16) = word_of_nat (length k')"
    and rest: "k @ raw16 (htobe16 v) @ f = k' @ raw16 (htobe16 v') @ f'"
    by simp_all
  from len have "length k = length k'"
    using unat_key_length assms by metis
  with rest t show ?r by simp
next
  assume ?r
  then show ?l by simp
qed

lemma internal_key_kind: "encode_key_internal t k f v = s \<Longrightarrow> hd s = t"
  by (auto simp: encode_key_internal_def)

lemma encode_meta_key_inj [simp]: "encode_meta_key k = encode_meta_key k' \<longleftrightarrow> k = k'"
  by (simp add: encode_meta_key_def)

lemma encode_eset_key_inj [simp]: "encode_eset_key k = encode_eset_key k' \<longleftrightarrow> k = k'"
  by (simp add: encode_eset_key_def)

lemma encode_escore_key_inj [simp]:
  "encode_escore_key k s = encode_escore_key k' s' \<longleftrightarrow> k = k' \<and> s = s'"
  by (auto simp: encode_escore_key_def)

lemma hd_keys [simp]:
  "hd (encode_meta_key k) = META" "hd (encode_eset_key k) = EKEY"
  "hd (encode_escore_key k s) = ESCORE" "hd (encode_key_internal t k f v) = t"
  by (simp_all add: encode_meta_key_def encode_eset_key_def encode_escore_key_def
      encode_key_internal_def)

lemma keys_nonempty [simp]:
  "encode_meta_key k \<noteq> []" "encode_eset_key k \<noteq> []" "encode_escore_key k s \<noteq> []"
  "encode_key_internal t k f v \<noteq> []" "[] \<noteq> encode_meta_key k" "[] \<noteq> encode_eset_key k"
  "[] \<noteq> encode_escore_key k s" "[] \<noteq> encode_key_internal t k f v"
  by (simp_all add: encode_meta_key_def encode_eset_key_def encode_escore_key_def
      encode_key_internal_def)

text \<open>Keys of different kinds never coincide: the first byte tells them apart.\<close>

lemma keys_disjoint [simp]:
  "encode_meta_key a \<noteq> encode_eset_key b" "encode_eset_key b \<noteq> encode_meta_key a"
  "encode_meta_key a \<noteq> encode_escore_key b s" "encode_escore_key b s \<noteq> encode_meta_key a"
  "encode_eset_key a \<noteq> encode_escore_key b s" "encode_escore_key b s \<noteq> encode_eset_key a"
  "t \<noteq> META \<Longrightarrow> encode_meta_key a \<noteq> encode_key_internal t k f v"
  "t \<noteq> META \<Longrightarrow> encode_key_internal t k f v \<noteq> encode_meta_key a"
  "t \<noteq> EKEY \<Longrightarrow> encode_eset_key a \<noteq> encode_key_internal t k f v"
  "t \<noteq> EKEY \<Longrightarrow> encode_key_internal t k f v \<noteq> encode_eset_key a"
  "t \<noteq> ESCORE \<Longrightarrow> encode_escore_key a s \<noteq> encode_key_internal t k f v"
  "t \<noteq> ESCORE \<Longrightarrow> encode_key_internal t k f v \<noteq> encode_escore_key a s"
  "t \<noteq> t' \<Longrightarrow> encode_key_internal t k f v \<noteq> encode_key_internal t' k' f' v'"
  by (auto dest: arg_cong [where f = hd])

lemma delete_key_disjoint [simp]:
  "t \<noteq> DELETE \<Longrightarrow> encode_key_internal t k f v \<noteq> encode_delete_key k' v'"
  "t \<noteq> DELETE \<Longrightarrow> encode_delete_key k' v' \<noteq> encode_key_internal t k f v"
  "encode_meta_key a \<noteq> encode_delete_key k' v'" "encode_delete_key k' v' \<noteq> encode_meta_key a"
  "encode_eset_key a \<noteq> encode_delete_key k' v'" "encode_delete_key k' v' \<noteq> encode_eset_key a"
  "encode_escore_key a s \<noteq> encode_delete_key k' v'" "encode_delete_key k' v' \<noteq> encode_escore_key a s"
  by (simp_all add: delete_key_is_internal_key)

lemma encode_key_internal_field_inj [simp]:
  "encode_key_internal t key f v = encode_key_internal t key f' v \<longleftrightarrow> f = f'"
  by (simp add: encode_key_internal_def)

lemma update_list_key_encode: "update_list_key (encode_list_key key s v) s' = encode_list_key key s' v"
  by (simp add: update_list_key_def list_key_is_item_key
      encode_key_internal_prefix [where field = "raw64 w" for w])

section \<open>Decoding inverts encoding\<close>

lemma read_16_data_encode:
  "long_enough key \<Longrightarrow> read_16_data (raw16 (htobe16 (word_of_nat (length key))) @ key @ d) = Some (key, d)"
  by (simp add: read_16_data_def unat_key_length)

lemma read_uint16_encode: "read_uint16 (raw16 w @ d) = Some (load16 (raw16 w @ d), d)"
  "read_uint16 (raw16 w) = Some (load16 (raw16 w), [])"
  by (simp_all add: read_uint16_def)

lemma read_uint64_encode: "read_uint64 (raw64 w @ d) = Some (load64 (raw64 w @ d), d)"
  "read_uint64 (raw64 w) = Some (load64 (raw64 w), [])"
  by (simp_all add: read_uint64_def)

lemmas be64toh_raw [simp] = be64toh_load64_encode [where r = "[]", simplified]
lemmas be16toh_raw [simp] = be16toh_load16_encode [where r = "[]", simplified]

lemmas decoder_simps = Decoder_skip_def read_16_data_encode read_uint16_encode
  read_uint64_encode read_data_def POS_TYPE_def POS_DEL_def

lemma DecodeMetaKey_encode [simp]: "DecodeMetaKey (encode_meta_key key) = Some key"
  by (simp add: DecodeMetaKey_def encode_meta_key_def decoder_simps)

lemma DecodeItemKey_encode [simp]:
  "long_enough key \<Longrightarrow> DecodeItemKey (encode_key_internal ITEM key f v) =
     Some \<lparr>ik_version = v, ik_key = key, ik_field = f\<rparr>"
  by (simp add: DecodeItemKey_def encode_key_internal_def decoder_simps)

lemma DecodeItemKey_other [simp]:
  "s \<noteq> [] \<Longrightarrow> hd s \<noteq> ITEM \<Longrightarrow> DecodeItemKey s = None"
  by (cases s) (auto simp: DecodeItemKey_def decoder_simps)

lemma DecodeZScoreItemKey_encode:
  "long_enough key \<Longrightarrow> DecodeZScoreItemKey (encode_zscore_key key f score v) =
     Some \<lparr>zk_version = v, zk_key = key, zk_field = f, zk_score = decodeScore (encodeScore score)\<rparr>"
  by (simp add: DecodeZScoreItemKey_def encode_zscore_key_def decoder_simps)

lemma DecodeListItemKey_encode:
  "long_enough key \<Longrightarrow> DecodeListItemKey (encode_list_key key seq v) =
     Some \<lparr>lk_version = v, lk_key = key, lk_seq = seq\<rparr>"
  by (simp add: DecodeListItemKey_def encode_list_key_def decoder_simps)

lemma DecodeEScoreItemKey_encode [simp]:
  "DecodeEScoreItemKey (encode_escore_key m s) = Some \<lparr>ek_field = m, ek_score = sint s\<rparr>"
  by (simp add: DecodeEScoreItemKey_def encode_escore_key_def decoder_simps)

lemma DecodeDeleteKey_encode [simp]:
  "long_enough key \<Longrightarrow> DecodeDeleteKey (encode_delete_key key v) =
     Some \<lparr>dk_type = KEY_DELETE_MASK, dk_version = v, dk_key = key\<rparr>"
  by (simp add: DecodeDeleteKey_def encode_delete_key_def decoder_simps)

lemma str_pos_del:
  "(raw16 w @ del # r) ! 2 = del" "(raw16 w @ del # r) ! Suc (Suc 0) = del"
  by (simp_all add: nth_append)

lemma DecodeMetaVal_encode:
  "DecodeMetaVal (encode_meta_val_internal t n v KEY_ENABLED_MASK) mv =
     (let mv' = mv\<lparr>mv_type := t, mv_version := v, mv_del := KEY_ENABLED_MASK\<rparr> in
      if t \<noteq> HSIZE \<and> t \<noteq> SSIZE \<and> t \<noteq> ZSIZE then (WRONG_TYPE_ERR, mv')
      else (0, mv'\<lparr>mv_length := n\<rparr>))"
  by (simp add: DecodeMetaVal_def encode_meta_val_internal_def decoder_simps str_pos_del Let_def)

lemma DecodeMetaVal_deleted:
  "DecodeMetaVal (t # raw16 (htobe16 v) @ KEY_DELETE_MASK # r) mv =
     (0, mv\<lparr>mv_type := t, mv_version := v, mv_del := KEY_DELETE_MASK\<rparr>)"
  by (simp add: DecodeMetaVal_def decoder_simps str_pos_del Let_def)

lemma ListDecodeMetaVal_encode:
  "ListDecodeMetaVal (encode_list_meta_val n l r v KEY_ENABLED_MASK) lv =
     (0, lv\<lparr>mv_type := LSIZE, mv_del := KEY_ENABLED_MASK, mv_version := v, mv_length := n,
            left_seq := l, right_seq := r\<rparr>)"
  by (simp add: ListDecodeMetaVal_def encode_list_meta_val_def decoder_simps str_pos_del Let_def)

lemma ListDecodeMetaVal_deleted:
  "ListDecodeMetaVal (t # raw16 (htobe16 v) @ KEY_DELETE_MASK # r) lv =
     (0, lv\<lparr>mv_type := t, mv_version := v, mv_del := KEY_DELETE_MASK\<rparr>)"
  by (simp add: ListDecodeMetaVal_def decoder_simps str_pos_del Let_def)

lemma KvDecodeMetaVal_encode:
  "KvDecodeMetaVal (encode_kv_val val v KEY_ENABLED_MASK) False kv =
     (0, kv\<lparr>kv_type := KV, kv_del := KEY_ENABLED_MASK, kv_version := v, kv_value := val\<rparr>)"
  by (simp add: KvDecodeMetaVal_def encode_kv_val_def decoder_simps str_pos_del Let_def)

lemma KvDecodeMetaVal_deleted:
  "KvDecodeMetaVal (t # raw16 (htobe16 v) @ KEY_DELETE_MASK # r) b kv =
     (0, kv\<lparr>kv_type := t, kv_version := v, kv_del := KEY_DELETE_MASK\<rparr>)"
  by (simp add: KvDecodeMetaVal_def decoder_simps str_pos_del Let_def)

text \<open>A decoded item key is the encoding of its parts: the decoder loses nothing.\<close>

lemma raw16_htobe16_be16toh_load16:
  "length d \<ge> 2 \<Longrightarrow> raw16 (htobe16 (be16toh (load16 d))) = take 2 d"
proof -
  assume "length d \<ge> 2"
  moreover have "be_decode (take 2 d) < 65536"
    using be_decode_less [of "take 2 d"] \<open>length d \<ge> 2\<close> by (simp add: min_absorb2)
  ultimately show ?thesis
    using be_encode_decode [of "take 2 d" 2]
    by (simp add: raw16_htobe16 be16toh_load16 unat_of_nat)
qed

lemma read_16_data_Some:
  assumes "read_16_data d = Some (key, r)"
  shows "long_enough key \<and> d = raw16 (htobe16 (word_of_nat (length key))) @ key @ r"
proof -
  let ?n = "be16toh (load16 d)"
  from assms have len: "length d \<ge> 2" "unat ?n \<le> length (drop 2 d)"
    and kr: "key = take (unat ?n) (drop 2 d)" "r = drop (unat ?n) (drop 2 d)"
    by (auto simp: read_16_data_def Let_def split: if_splits)
  then have "length key = unat ?n" by simp
  then have "raw16 (htobe16 (word_of_nat (length key))) = take 2 d"
    using raw16_htobe16_be16toh_load16 [OF len(1)] by simp
  moreover have "key @ r = drop 2 d" unfolding kr by (rule append_take_drop_id)
  ultimately show ?thesis
    using \<open>length key = unat ?n\<close> unat_u16_less [of ?n] by (metis append_take_drop_id)
qed

lemma DecodeItemKey_Some:
  assumes "DecodeItemKey s = Some r"
  shows "s = encode_key_internal ITEM (ik_key r) (ik_field r) (ik_version r) \<and> long_enough (ik_key r)"
proof -
  from assms obtain key d' version d'' where
    "s \<noteq> []" "s ! 0 = ITEM" and
    d: "read_16_data (drop 1 s) = Some (key, d')" and
    v: "read_uint16 d' = Some (version, d'')" and
    r: "r = \<lparr>ik_version = be16toh version, ik_key = key, ik_field = d''\<rparr>"
    by (auto simp: DecodeItemKey_def Decoder_skip_def read_data_def POS_TYPE_def
        split: option.splits if_splits prod.splits)
  then have s: "s = ITEM # drop 1 s" by (cases s) auto
  from v have "raw16 (htobe16 (be16toh version)) @ d'' = d'"
    using raw16_htobe16_be16toh_load16 [of d'] by (auto simp: read_uint16_def split: if_splits)
  with read_16_data_Some [OF d] s show ?thesis
    by (simp add: r encode_key_internal_def)
qed


section \<open>The score coding\<close>

lemma bit_top_mask:
  "bit (9223372036854775808 :: nat) n \<longleftrightarrow> n = 63"
  "bit (9223372036854775808 :: int) n \<longleftrightarrow> n = 63"
  "bit (9223372036854775808 :: u64) n \<longleftrightarrow> n = 63"
proof -
  have "(9223372036854775808 :: nat) = push_bit 63 1"
    "(9223372036854775808 :: int) = push_bit 63 1"
    "(9223372036854775808 :: u64) = push_bit 63 1" by simp_all
  then show "bit (9223372036854775808 :: nat) n \<longleftrightarrow> n = 63"
    "bit (9223372036854775808 :: int) n \<longleftrightarrow> n = 63"
    "bit (9223372036854775808 :: u64) n \<longleftrightarrow> n = 63"
    by (simp_all only: bit_push_bit_iff) (auto simp: bit_1_iff bit_Suc_0_iff)
qed

lemma top_bit: "drop_bit 63 (w :: u64) = 1 \<longleftrightarrow> bit w 63"
  and top_bit_le: "bit (w :: u64) 63 \<longleftrightarrow> 9223372036854775808 \<le> unat w"
proof -
  have d: "unat (drop_bit 63 w) = unat w div 9223372036854775808"
    by (simp only: unat_drop_bit_eq) (simp add: drop_bit_eq_div)
  have "unat w div 9223372036854775808 = 1 \<longleftrightarrow> 9223372036854775808 \<le> unat w"
    using unat_u64_less [of w] by arith
  moreover have "unat w div 9223372036854775808 = 0 \<longleftrightarrow> \<not> 9223372036854775808 \<le> unat w"
    by (simp add: div_eq_0_iff not_le)
  moreover have "bit w 63 \<longleftrightarrow> odd (unat w div 9223372036854775808)"
    using bit_unsigned_iff [of w 63, where 'a = nat] by (simp add: bit_iff_odd)
  moreover have "drop_bit 63 w = 1 \<longleftrightarrow> unat (drop_bit 63 w) = 1"
    by (simp add: word_unat_eq_iff)
  ultimately show "drop_bit 63 w = 1 \<longleftrightarrow> bit w 63"
    "bit w 63 \<longleftrightarrow> 9223372036854775808 \<le> unat w"
    using d by (metis odd_one even_zero)+
qed

lemma decode_encodeScore: "decodeScore (encodeScore w) = w"
  by (rule bit_word_eqI) (auto simp: decodeScore_def encodeScore_def top_bit bit_simps bit_top_mask)

lemma encode_decodeScore: "encodeScore (decodeScore w) = w"
  by (rule bit_word_eqI) (auto simp: decodeScore_def encodeScore_def top_bit bit_simps bit_top_mask)

lemma unat_encodeScore:
  "unat (encodeScore w) =
    (if 9223372036854775808 \<le> unat w then 18446744073709551615 - unat w
     else unat w + 9223372036854775808)"
proof (cases "9223372036854775808 \<le> unat w")
  case True
  have "w XOR - 1 = - 1 - w" by (simp add: not_eq_complement minus_equation_iff )
  moreover have "unat (- 1 - w) = 18446744073709551615 - unat w"
    by (subst unat_sub) (simp_all add: unat_UINT64_MAX)
  ultimately show ?thesis using True top_bit_le by (simp add: encodeScore_def top_bit)
next
  case False
  then have "w AND 9223372036854775808 = 0"
    using top_bit_le [of w] top_bit [of w] by (intro bit_word_eqI) (auto simp: bit_simps bit_top_mask)
  then have "w OR 9223372036854775808 = w + 9223372036854775808"
    by (simp add: disjunctive_add_eq_or)
  moreover have "unat (w + 9223372036854775808) = unat w + 9223372036854775808"
    using False by (simp add: unat_word_ariths)
  ultimately show ?thesis using False top_bit_le by (simp add: encodeScore_def top_bit)
qed

text \<open>
  The order of doubles by sign and magnitude, on bit patterns: negative numbers below
  positive ones, negative ones in reverse order of magnitude.
\<close>

definition score_less :: "u64 \<Rightarrow> u64 \<Rightarrow> bool" where
  "score_less a b =
     (if bit a 63 then (if bit b 63 then b < a else True)
      else (if bit b 63 then False else a < b))"

lemma encodeScore_less: "encodeScore a < encodeScore b \<longleftrightarrow> score_less a b"
  using unat_u64_less [of a] unat_u64_less [of b]
  by (auto simp: score_less_def top_bit_le word_less_nat_alt unat_encodeScore)

lemma encodeScore_inj [simp]: "encodeScore a = encodeScore b \<longleftrightarrow> a = b"
  by (metis decode_encodeScore)

section \<open>Order of encoded keys\<close>

lemma raw64_htobe64_less: "raw64 (htobe64 v) < raw64 (htobe64 w) \<longleftrightarrow> v < w"
  by (simp add: raw64_htobe64 be_encode_less unat_u64_less word_less_nat_alt)

lemma raw64_append_less:
  "raw64 (htobe64 v) @ x < raw64 (htobe64 w) @ y \<longleftrightarrow> v < w \<or> v = w \<and> x < y"
proof -
  consider "v < w" | "v = w" | "w < v" by fastforce
  then show ?thesis
  proof cases
    case 1
    then show ?thesis by (simp add: lex_append_less raw64_htobe64_less)
  next
    case 2
    then show ?thesis by simp
  next
    case 3
    then have "raw64 (htobe64 w) @ y < raw64 (htobe64 v) @ x"
      by (simp add: lex_append_less raw64_htobe64_less)
    then show ?thesis using 3 by auto
  qed
qed

lemma list_key_less: "encode_list_key k s v < encode_list_key k s' v \<longleftrightarrow> s < s'"
  by (simp add: encode_list_key_def raw64_htobe64_less)

lemma escore_key_less:
  "encode_escore_key m s < encode_escore_key m' s' \<longleftrightarrow> s < s' \<or> s = s' \<and> m < m'"
  by (simp add: encode_escore_key_def raw64_append_less)

lemma zscore_key_less:
  "encode_zscore_key k m s v < encode_zscore_key k m' s' v \<longleftrightarrow>
     score_less s s' \<or> s = s' \<and> m < m'"
  by (simp add: encode_zscore_key_def raw64_append_less encodeScore_less)

text \<open>Keys of 65536 bytes and more lose their length: the last 65536 bytes read as a version and the beginning of a field.\<close>

lemma internal_long_key_collision:
  assumes "length key \<ge> 65536"
  shows "encode_key_internal t key f v =
    encode_key_internal t (take (length key - 65536) key)
      (drop (length key - 65534) key @ raw16 (htobe16 v) @ f) (be16toh (load16 (drop (length key - 65536) key)))"
proof -
  let ?n = "length key - 65536" and ?w = "drop (length key - 65536) key"
  have "length key - 65534 = 2 + ?n" using assms by simp
  then have "drop (length key - 65534) key = drop 2 ?w" by (simp add: drop_drop)
  moreover have "key = take ?n key @ take 2 ?w @ drop 2 ?w" by (metis append_take_drop_id)
  moreover have "take 2 ?w = raw16 (htobe16 (be16toh (load16 ?w)))"
    using assms by (simp add: raw16_htobe16_be16toh_load16)
  ultimately have key: "key = take ?n key @ raw16 (htobe16 (be16toh (load16 ?w))) @ drop (length key - 65534) key" by simp
  have "(word_of_nat (length key) :: u16) = word_of_nat (?n + 65536)" using assms by simp
  also have "\<dots> = word_of_nat ?n" unfolding of_nat_add by simp
  finally have "(word_of_nat (length key) :: u16) = word_of_nat ?n" .
  then show ?thesis unfolding encode_key_internal_def
    by (subst (2) key) (simp add: min_def)
qed

section \<open>Properties\<close>

text \<open>
  Item keys round trip in both directions. For a key shorter than 65536 bytes the
  decoder returns the key, field and version that were encoded, and any string the decoder
  accepts is the encoding of what it returns.
\<close>

theorem item_key_roundtrip:
  "(long_enough key \<longrightarrow> DecodeItemKey (encode_hash_key key f v) =
      Some \<lparr>ik_version = v, ik_key = key, ik_field = f\<rparr>) \<and>
   (DecodeItemKey s = Some r \<longrightarrow> encode_hash_key (ik_key r) (ik_field r) (ik_version r) = s)"
  using DecodeItemKey_Some [of s r] by (simp add: encode_hash_key_def)

theorem item_key_roundtrip_witness:
  "DecodeItemKey (encode_hash_key [107] [102] 7) = Some \<lparr>ik_version = 7, ik_key = [107], ik_field = [102]\<rparr> \<and>
   encode_hash_key [107] [102] 7 = [83, 0, 1, 107, 0, 7, 102]"
proof -
  let ?s = "[83, 0, 1, 107, 0, 7, 102] :: bytes"
  have "DecodeItemKey ?s = Some \<lparr>ik_version = 7, ik_key = [107], ik_field = [102]\<rparr>"
    by code_simp
  with item_key_roundtrip [of "[107]" "[102]" 7 ?s "\<lparr>ik_version = 7, ik_key = [107], ik_field = [102]\<rparr>"]
  show ?thesis by simp
qed

text \<open>
  C27: The physical order of score keys is the order of a sorted set. Under one key and
  version, score keys compare byte by byte as their scores do by sign and magnitude (the
  order of IEEE doubles other than NaN, with -0 below +0), and by member when the scores
  are equal; decoding gives the score and the member back, bit for bit.
\<close>

theorem zscore_key_order:
  "(encode_zscore_key k m s v < encode_zscore_key k m' s' v \<longleftrightarrow>
      score_less s s' \<or> s = s' \<and> m < m') \<and>
   decodeScore (encodeScore s) = s \<and> encodeScore (decodeScore s) = s \<and>
   (long_enough k \<longrightarrow> DecodeZScoreItemKey (encode_zscore_key k m s v) =
      Some \<lparr>zk_version = v, zk_key = k, zk_field = m, zk_score = s\<rparr>)"
  by (simp add: zscore_key_less decode_encodeScore encode_decodeScore DecodeZScoreItemKey_encode)

text \<open>The scores are the bit patterns of -2.0 and 1.0.\<close>

theorem zscore_key_order_witness:
  "encode_zscore_key [107] [98] 0xC000000000000000 0 < encode_zscore_key [107] [97] 0x3FF0000000000000 0 \<and>
   DecodeZScoreItemKey (encode_zscore_key [107] [97] 0x3FF0000000000000 0) =
     Some \<lparr>zk_version = 0, zk_key = [107], zk_field = [97], zk_score = 0x3FF0000000000000\<rparr>"
proof -
  have "score_less 0xC000000000000000 0x3FF0000000000000" by (simp add: score_less_def)
  with zscore_key_order [of "[107]" "[98]" "0xC000000000000000" 0 "[97]" "0x3FF0000000000000"]
    zscore_key_order [of "[107]" "[97]" "0x3FF0000000000000" 0]
  show ?thesis by simp
qed

text \<open>
  C40: The length of a key is stored in 16 bits. Every item key of every key of 65536 bytes or more is also an item
  key of another key, the one that lacks the last 65536 bytes: an item of one is an item of the other.
\<close>

theorem long_key_collision:
  assumes "length key \<ge> 65536"
  shows "encode_hash_key key f v =
    encode_hash_key (take (length key - 65536) key)
      (drop (length key - 65534) key @ raw16 (htobe16 v) @ f) (be16toh (load16 (drop (length key - 65536) key)))"
  unfolding encode_hash_key_def by (rule internal_long_key_collision [OF assms])

theorem long_key_collision_witness:
  "encode_hash_key (replicate 65536 0) [102] 1 = encode_hash_key [] (replicate 65534 0 @ raw16 (htobe16 1) @ [102]) 0"
proof -
  have "be16toh (load16 (replicate 65536 0)) = 0"
  proof -
    have "replicate 65536 (0 :: byte) = replicate 2 0 @ replicate 65534 0" unfolding replicate_add [symmetric] by simp
    moreover have "raw16 (htobe16 0) = replicate 2 0" by (simp add: raw16_htobe16 numeral_2_eq_2)
    ultimately show ?thesis using be16toh_load16_encode [of 0 "replicate 65534 0"] by simp
  qed
  then show ?thesis using long_key_collision [of "replicate 65536 0" "[102]" 1] by simp
qed

end
