(* ===== verification/RocksDB.thy ===== *)
theory RocksDB
  imports Prelude "HOL-Library.AList"
begin

text \<open>
  The storage engine. RocksDB is a third-party library: the model takes it as a
  parameter, a record of the operations the sources call (\<^verbatim>\<open>DB::Get\<close>,
  \<^verbatim>\<open>DB::Write\<close>, \<^verbatim>\<open>DB::NewIterator\<close> and the iterator's methods), over an arbitrary
  type of database states. What the code relies on is stated as locales over that
  record: \<open>rocksdb_laws\<close> (a read returns what was stored, a batch is applied in order
  and as a whole, a failed write changes nothing), \<open>rocksdb_healthy\<close> (no I/O error
  occurs), \<open>rocksdb_iter\<close> and \<open>rocksdb_rev\<close> (an iterator walks over the entries in key
  order) and \<open>rocksdb_range\<close> (ranges of keys can be dropped). An in-memory engine
  interprets all of them, so that they can hold together.
\<close>

section \<open>The operations the sources call\<close>

datatype get_result = GetOk bytes | GetNotFound | GetError

datatype write_op = Put bytes bytes | Delete bytes

type_synonym batch = "write_op list"

record ('db, 'it) rocksdb =
  db_Get :: "'db \<Rightarrow> bytes \<Rightarrow> get_result"
  db_Write :: "'db \<Rightarrow> batch \<Rightarrow> bool \<times> 'db"
  db_DeleteFilesInRange :: "'db \<Rightarrow> bytes \<Rightarrow> bytes \<Rightarrow> 'db"
  db_DeleteRange :: "'db \<Rightarrow> bytes \<Rightarrow> bytes \<Rightarrow> 'db"
  db_NewIterator :: "'db \<Rightarrow> 'it"
  it_Seek :: "'it \<Rightarrow> bytes \<Rightarrow> 'it"
  it_SeekToFirst :: "'it \<Rightarrow> 'it"
  it_SeekToLast :: "'it \<Rightarrow> 'it"
  it_Next :: "'it \<Rightarrow> 'it"
  it_Prev :: "'it \<Rightarrow> 'it"
  it_Valid :: "'it \<Rightarrow> bool"
  it_key :: "'it \<Rightarrow> bytes"
  it_value :: "'it \<Rightarrow> bytes"

section \<open>Contents of a database\<close>

type_synonym contents = "bytes \<rightharpoonup> bytes"

fun apply_op :: "write_op \<Rightarrow> contents \<Rightarrow> contents" where
  "apply_op (Put k v) m = m(k \<mapsto> v)"
| "apply_op (Delete k) m = m(k := None)"

definition apply_batch :: "batch \<Rightarrow> contents \<Rightarrow> contents" where
  "apply_batch b m = fold apply_op b m"

definition sorted_entries :: "contents \<Rightarrow> (bytes \<times> bytes) list" where
  "sorted_entries m = map (\<lambda>k. (k, the (m k))) (sorted_list_of_set (dom m))"

fun op_key :: "write_op \<Rightarrow> bytes" where
  "op_key (Put k v) = k"
| "op_key (Delete k) = k"

declare apply_op.simps [simp del]

lemma apply_op_simps [simp]:
  "apply_op (Put k v) m = m(k \<mapsto> v)" "apply_op (Delete k) m = m(k := None)"
  by (rule apply_op.simps)+

lemma apply_batch_simps [simp]:
  "apply_batch [] m = m"
  "apply_batch (x # b) m = apply_batch b (apply_op x m)"
  "apply_batch (b @ c) m = apply_batch c (apply_batch b m)"
  by (simp_all add: apply_batch_def)

text \<open>A key that no operation of the batch names keeps its value.\<close>

lemma apply_op_other: "k \<noteq> op_key x \<Longrightarrow> apply_op x m k = m k"
  by (cases x) auto

lemma apply_batch_other: "k \<notin> op_key ` set b \<Longrightarrow> apply_batch b m k = m k"
proof (induction b arbitrary: m)
  case (Cons x b)
  then show ?case using apply_op_other [of k x m] by simp
qed simp

lemma apply_batch_cong: "m k = m' k \<Longrightarrow> apply_batch b m k = apply_batch b m' k"
proof (induction b arbitrary: m m')
  case (Cons x b)
  then have "apply_op x m k = apply_op x m' k" by (cases x) auto
  from Cons.IH [of "apply_op x m" "apply_op x m'", OF this] show ?case by simp
qed simp

lemma apply_batch_deletes:
  "apply_batch (map Delete ks) m k = (if k \<in> set ks then None else m k)"
  by (induction ks arbitrary: m) auto

lemma finite_dom_apply_op: "finite (dom m) \<Longrightarrow> finite (dom (apply_op x m))"
  by (cases x) auto

lemma finite_dom_apply_batch: "finite (dom m) \<Longrightarrow> finite (dom (apply_batch b m))"
  by (induction b arbitrary: m) (auto simp: finite_dom_apply_op)

lemma set_sorted_entries: "finite (dom m) \<Longrightarrow> set (sorted_entries m) = {(k, v). m k = Some v}"
  by (auto simp: sorted_entries_def image_iff domIff)

lemma map_fst_sorted_entries: "map fst (sorted_entries m) = sorted_list_of_set (dom m)"
  by (simp add: sorted_entries_def comp_def)

section \<open>What the code relies on\<close>

locale rocksdb_laws =
  fixes R :: "('db, 'it) rocksdb" and view :: "'db \<Rightarrow> contents"
  assumes Get_ok: "db_Get R db k = GetOk v \<Longrightarrow> view db k = Some v"
    and Get_not_found: "db_Get R db k = GetNotFound \<Longrightarrow> view db k = None"
    and Write_ok: "db_Write R db b = (True, db') \<Longrightarrow> view db' = apply_batch b (view db)"
    and Write_error: "db_Write R db b = (False, db') \<Longrightarrow> view db' = view db"

locale rocksdb_healthy = rocksdb_laws +
  assumes Get_no_error: "db_Get R db k \<noteq> GetError"
    and Write_no_error: "fst (db_Write R db b)"
begin

lemma Get_view: "db_Get R db k = (case view db k of None \<Rightarrow> GetNotFound | Some v \<Rightarrow> GetOk v)"
  using Get_ok [of db k] Get_not_found [of db k] Get_no_error [of db k]
  by (cases "db_Get R db k") auto

lemma Write_view: "view (snd (db_Write R db b)) = apply_batch b (view db)"
  using Write_ok [of db b "snd (db_Write R db b)"] Write_no_error [of db b]
  by (simp add: prod_eq_iff)

end

locale rocksdb_iter = rocksdb_healthy R view
  for R :: "('db, 'it) rocksdb" and view :: "'db \<Rightarrow> contents" +
  fixes fwd :: "'it \<Rightarrow> (bytes \<times> bytes) list"
  assumes finite_view: "finite (dom (view db))"
    and Seek_fwd: "fwd (it_Seek R (db_NewIterator R db) k) =
      filter (\<lambda>e. k \<le> fst e) (sorted_entries (view db))"
    and Valid_fwd: "it_Valid R it \<longleftrightarrow> fwd it \<noteq> []"
    and Next_fwd: "fwd it \<noteq> [] \<Longrightarrow> fwd (it_Next R it) = tl (fwd it)"
    and entry_fwd: "fwd it \<noteq> [] \<Longrightarrow> (it_key R it, it_value R it) = hd (fwd it)"

text \<open>
  Walking backwards: \<open>bwd it\<close> holds the entries from the position of a valid iterator
  down to the first one.
\<close>

locale rocksdb_rev = rocksdb_iter R view fwd
  for R :: "('db, 'it) rocksdb" and view :: "'db \<Rightarrow> contents" and fwd +
  fixes bwd :: "'it \<Rightarrow> (bytes \<times> bytes) list"
  assumes Seek_bwd: "it_Valid R (it_Seek R (db_NewIterator R db) k) \<Longrightarrow>
      tl (bwd (it_Seek R (db_NewIterator R db) k)) =
      rev (filter (\<lambda>e. fst e < k) (sorted_entries (view db)))"
    and SeekToLast_bwd: "bwd (it_SeekToLast R (it_Seek R (db_NewIterator R db) k)) =
      rev (sorted_entries (view db))"
    and Valid_bwd: "it_Valid R it \<longleftrightarrow> bwd it \<noteq> []"
    and Prev_bwd: "bwd it \<noteq> [] \<Longrightarrow> bwd (it_Prev R it) = tl (bwd it)"
    and entry_bwd: "bwd it \<noteq> [] \<Longrightarrow> (it_key R it, it_value R it) = hd (bwd it)"

text \<open>
  Emptying a range of keys: \<^verbatim>\<open>DeleteFilesInRange\<close> drops whole files and so some of the
  keys of the range, \<^verbatim>\<open>DeleteRange\<close> drops all of them.
\<close>

locale rocksdb_range = rocksdb_iter R view fwd
  for R :: "('db, 'it) rocksdb" and view :: "'db \<Rightarrow> contents" and fwd +
  assumes DeleteFilesInRange_view: "\<exists>D \<subseteq> {b..<e}. view (db_DeleteFilesInRange R db b e) = view db |` (- D)"
    and DeleteRange_view: "view (db_DeleteRange R db b e) = view db |` (- {b..<e})"
    and SeekToFirst_fwd: "fwd (it_SeekToFirst R (db_NewIterator R db)) = sorted_entries (view db)"

section \<open>An in-memory engine\<close>

text \<open>
  An association list, written from the left of the batch to the right; an iterator is
  the sorted list of entries split at its position.
\<close>

fun mem_apply :: "write_op \<Rightarrow> (bytes \<times> bytes) list \<Rightarrow> (bytes \<times> bytes) list" where
  "mem_apply (Put k v) m = AList.update k v m"
| "mem_apply (Delete k) m = AList.delete k m"

definition mem_entries :: "(bytes \<times> bytes) list \<Rightarrow> (bytes \<times> bytes) list" where
  "mem_entries m = sort_key fst (AList.clearjunk m)"

definition mem_rocksdb ::
  "((bytes \<times> bytes) list, (bytes \<times> bytes) list \<times> (bytes \<times> bytes) list) rocksdb" where
  "mem_rocksdb = \<lparr>
     db_Get = (\<lambda>m k. case map_of m k of None \<Rightarrow> GetNotFound | Some v \<Rightarrow> GetOk v),
     db_Write = (\<lambda>m b. (True, fold mem_apply b m)),
     db_DeleteFilesInRange = (\<lambda>m begin end. m),
     db_DeleteRange = (\<lambda>m begin end. filter (\<lambda>e. \<not> (begin \<le> fst e \<and> fst e < end)) m),
     db_NewIterator = (\<lambda>m. ([], mem_entries m)),
     it_Seek = (\<lambda>(pre, suf) k. (rev (filter (\<lambda>e. fst e < k) (rev pre @ suf)),
                                 filter (\<lambda>e. k \<le> fst e) (rev pre @ suf))),
     it_SeekToFirst = (\<lambda>(pre, suf). ([], rev pre @ suf)),
     it_SeekToLast = (\<lambda>(pre, suf). case rev suf @ pre of [] \<Rightarrow> ([], []) | e # es \<Rightarrow> (es, [e])),
     it_Next = (\<lambda>(pre, suf). (take 1 suf @ pre, tl suf)),
     it_Prev = (\<lambda>(pre, suf). case pre of [] \<Rightarrow> (rev suf, []) | e # es \<Rightarrow> (es, e # suf)),
     it_Valid = (\<lambda>(pre, suf). suf \<noteq> []),
     it_key = (\<lambda>(pre, suf). case suf of [] \<Rightarrow> [] | e # _ \<Rightarrow> fst e),
     it_value = (\<lambda>(pre, suf). case suf of [] \<Rightarrow> [] | e # _ \<Rightarrow> snd e)\<rparr>"

lemma map_of_mem_apply: "map_of (fold mem_apply b m) = apply_batch b (map_of m)"
proof (induction b arbitrary: m)
  case (Cons x b)
  have "map_of (mem_apply x m) = apply_op x (map_of m)"
    by (cases x) (simp_all add: update_conv' delete_conv')
  with Cons show ?case by simp
qed simp

lemma mem_entries_sorted: "mem_entries m = sorted_entries (map_of m)"
proof -
  let ?c = "AList.clearjunk m"
  have d: "distinct (map fst ?c)" by (rule distinct_clearjunk)
  have keys: "map fst (mem_entries m) = sorted_list_of_set (dom (map_of m))"
  proof -
    have "sorted (map fst (mem_entries m))" by (simp add: mem_entries_def)
    moreover have "distinct (map fst (mem_entries m))"
    proof -
      have "distinct ?c" using d distinct_map by blast
      then have "distinct (mem_entries m)" by (simp add: mem_entries_def)
      moreover have "inj_on fst (set (mem_entries m))"
        using d by (simp add: mem_entries_def distinct_map)
      ultimately show ?thesis by (simp add: distinct_map)
    qed
    moreover have "set (map fst (mem_entries m)) = dom (map_of m)"
      by (simp add: mem_entries_def dom_map_of_conv_image_fst dom_clearjunk)
    ultimately show ?thesis
      by (metis sorted_list_of_set.idem_if_sorted_distinct)
  qed
  have vals: "e \<in> set (mem_entries m) \<Longrightarrow> e = (fst e, the (map_of m (fst e)))" for e
    using d by (metis (no_types) map_of_clearjunk map_of_is_SomeI mem_entries_def option.sel
        prod.collapse set_sort)
  have "mem_entries m = map (\<lambda>k. (k, the (map_of m k))) (map fst (mem_entries m))"
    by (simp add: comp_def) (metis (no_types, lifting) map_idI vals)
  then show ?thesis by (simp add: keys sorted_entries_def)
qed

interpretation mem: rocksdb_iter mem_rocksdb map_of snd
proof (unfold_locales, goal_cases)
  case (8 db k)
  show ?case by (simp add: mem_rocksdb_def mem_entries_sorted)
qed (auto simp: mem_rocksdb_def map_of_mem_apply finite_dom_map_of hd_conv_nth
    split: option.splits prod.splits list.splits)

definition mem_bwd :: "(bytes \<times> bytes) list \<times> (bytes \<times> bytes) list \<Rightarrow> (bytes \<times> bytes) list" where
  "mem_bwd = (\<lambda>(pre, suf). case suf of [] \<Rightarrow> [] | e # _ \<Rightarrow> e # pre)"

lemma partition_sorted_entries:
  "filter (\<lambda>e. fst e < k) (sorted_entries m) @ filter (\<lambda>e. k \<le> fst e) (sorted_entries m) =
   sorted_entries m"
proof -
  have "filter (\<lambda>x. x < k) xs @ filter (\<lambda>x. k \<le> x) xs = xs" if "sorted xs" for xs :: "bytes list"
    using that
  proof (induction xs)
    case (Cons x xs)
    show ?case
    proof (cases "x < k")
      case True
      with Cons show ?thesis by simp
    next
      case False
      then have "\<forall>y \<in> set xs. k \<le> y" using Cons.prems by auto
      then have "filter (\<lambda>x. x < k) xs = []" "filter (\<lambda>x. k \<le> x) xs = xs"
        by (auto simp: filter_empty_conv)
      with False show ?thesis by simp
    qed
  qed simp
  from this [of "sorted_list_of_set (dom m)"] have
    "map (\<lambda>k. (k, the (m k))) (filter (\<lambda>x. x < k) (sorted_list_of_set (dom m)) @
      filter (\<lambda>x. k \<le> x) (sorted_list_of_set (dom m))) = sorted_entries m"
    by (simp add: sorted_entries_def)
  then show ?thesis by (simp add: sorted_entries_def filter_map comp_def)
qed

interpretation memr: rocksdb_rev mem_rocksdb map_of snd mem_bwd
proof (unfold_locales, goal_cases)
  case (2 db k)
  let ?a = "filter (\<lambda>e. fst e < k) (mem_entries db)" and ?b = "filter (\<lambda>e. k \<le> fst e) (mem_entries db)"
  have "mem_bwd (it_SeekToLast mem_rocksdb (rev ?a, ?b)) = rev (?a @ ?b)"
    by (simp add: mem_rocksdb_def mem_bwd_def split: list.split)
  then show ?case
    using partition_sorted_entries [of k "map_of db"] by (simp add: mem_rocksdb_def mem_entries_sorted)
qed (auto simp: mem_rocksdb_def mem_bwd_def mem_entries_sorted split: list.splits)

interpretation memd: rocksdb_range mem_rocksdb map_of snd
proof (unfold_locales, goal_cases)
  case (1 b e db)
  then show ?case by (intro exI [of _ "{}"]) (simp add: mem_rocksdb_def restrict_map_def)
next
  case (2 db b e)
  have "map_of (filter (\<lambda>x. \<not> (b \<le> fst x \<and> fst x < e)) xs) = map_of xs |` (- {b..<e})" for xs :: "(bytes \<times> bytes) list"
    by (induction xs) (auto simp: fun_eq_iff restrict_map_def)
  then show ?case by (simp add: mem_rocksdb_def)
next
  case (3 db)
  show ?case by (simp add: mem_rocksdb_def mem_entries_sorted)
qed

text \<open>The in-memory engine with one unreadable key.\<close>

definition faulty_rocksdb :: "bytes \<Rightarrow>
    ((bytes \<times> bytes) list, (bytes \<times> bytes) list \<times> (bytes \<times> bytes) list) rocksdb" where
  "faulty_rocksdb bad = mem_rocksdb\<lparr>db_Get := (\<lambda>m k. if k = bad then GetError else db_Get mem_rocksdb m k)\<rparr>"

lemma faulty_rocksdb_laws: "rocksdb_laws (faulty_rocksdb bad) map_of"
proof (unfold_locales, goal_cases)
  case (1 db k v)
  then show ?case using mem.Get_ok [of db k v] by (simp add: faulty_rocksdb_def split: if_splits)
next
  case (2 db k)
  then show ?case using mem.Get_not_found [of db k] by (simp add: faulty_rocksdb_def split: if_splits)
next
  case (3 db b db')
  then show ?case using mem.Write_ok [of db b db'] by (simp add: faulty_rocksdb_def)
next
  case (4 db b db')
  then show ?case using mem.Write_error [of db b db'] by (simp add: faulty_rocksdb_def)
qed

end
