(* ===== verification/SortedSet.thy ===== *)
theory SortedSet
  imports Prelude "HOL-Library.Product_Lexorder"
begin

text \<open>
  The in-memory index of pending expirations, \<^verbatim>\<open>src/src/util/sorted_set.h\<close>: a
  \<^verbatim>\<open>std::set\<close> of items ordered by score and key, and a \<^verbatim>\<open>std::map\<close> from keys to
  iterators into it. An iterator is modelled by the item it points to; the set is a
  strictly sorted list. The locale \<open>deadline_index\<close> is the contract the expiration
  handler relies on: a finite map from keys to scores with access to its least and
  greatest score.
\<close>

type_synonym Item = "int \<times> bytes"

record SortedSet =
  existed :: "bytes \<rightharpoonup> Item"
  sorted_set :: "Item list"

section \<open>Operations\<close>

definition SS_init :: SortedSet where
  "SS_init = \<lparr>existed = Map.empty, sorted_set = []\<rparr>"

fun set_insert :: "Item \<Rightarrow> Item list \<Rightarrow> Item list" where
  "set_insert x [] = [x]"
| "set_insert x (y # ys) =
     (if x < y then x # y # ys else if y < x then y # set_insert x ys else y # ys)"

definition SS_size :: "SortedSet \<Rightarrow> nat" where
  "SS_size ss = length (sorted_set ss)"

definition SS_empty :: "SortedSet \<Rightarrow> bool" where
  "SS_empty ss \<longleftrightarrow> SS_size ss = 0"

definition SS_add :: "SortedSet \<Rightarrow> bytes \<Rightarrow> int \<Rightarrow> int \<times> SortedSet" where
  "SS_add ss key score =
     (case existed ss key of
        None \<Rightarrow>
          (1, ss\<lparr>sorted_set := set_insert (score, key) (sorted_set ss),
                 existed := (existed ss)(key \<mapsto> (score, key))\<rparr>)
      | Some item \<Rightarrow>
          if fst item = score then (0, ss)
          else (0, ss\<lparr>sorted_set := set_insert (score, key) (remove1 item (sorted_set ss)),
                      existed := (existed ss)(key \<mapsto> (score, key))\<rparr>))"

definition SS_del :: "SortedSet \<Rightarrow> bytes \<Rightarrow> int \<times> SortedSet" where
  "SS_del ss key =
     (case existed ss key of
        None \<Rightarrow> (0, ss)
      | Some item \<Rightarrow>
          (1, ss\<lparr>sorted_set := remove1 item (sorted_set ss),
                 existed := (existed ss)(key := None)\<rparr>))"

definition SS_front :: "SortedSet \<Rightarrow> (bytes \<times> int) option" where
  "SS_front ss = (case sorted_set ss of [] \<Rightarrow> None | item # _ \<Rightarrow> Some (snd item, fst item))"

definition SS_back :: "SortedSet \<Rightarrow> (bytes \<times> int) option" where
  "SS_back ss =
     (if sorted_set ss = [] then None
      else let item = last (sorted_set ss) in Some (snd item, fst item))"

definition SS_max_score :: "SortedSet \<Rightarrow> int" where
  "SS_max_score ss = (case SS_back ss of None \<Rightarrow> 0 | Some (key, score) \<Rightarrow> score)"

definition SS_pop_front :: "SortedSet \<Rightarrow> int \<times> SortedSet" where
  "SS_pop_front ss =
     (case sorted_set ss of
        [] \<Rightarrow> (0, ss)
      | item # rest \<Rightarrow> (1, ss\<lparr>existed := (existed ss)(snd item := None), sorted_set := rest\<rparr>))"

definition SS_pop_back :: "SortedSet \<Rightarrow> int \<times> SortedSet" where
  "SS_pop_back ss =
     (if sorted_set ss = [] then (0, ss)
      else let item = last (sorted_set ss) in
        (1, ss\<lparr>existed := (existed ss)(snd item := None), sorted_set := butlast (sorted_set ss)\<rparr>))"

definition SS_clear :: "SortedSet \<Rightarrow> SortedSet" where
  "SS_clear ss = ss\<lparr>existed := Map.empty, sorted_set := []\<rparr>"

section \<open>The representation invariant and the abstract map\<close>

definition SS_inv :: "SortedSet \<Rightarrow> bool" where
  "SS_inv ss \<longleftrightarrow> sorted_wrt (<) (sorted_set ss) \<and>
     (\<forall>k item. existed ss k = Some item \<longrightarrow> item \<in> set (sorted_set ss) \<and> snd item = k) \<and>
     (\<forall>item \<in> set (sorted_set ss). existed ss (snd item) = Some item)"

definition SS_map :: "SortedSet \<Rightarrow> bytes \<rightharpoonup> int" where
  "SS_map ss k = map_option fst (existed ss k)"

lemma set_set_insert [simp]: "set (set_insert x ys) = insert x (set ys)"
  by (induction ys) auto

lemma sorted_set_insert: "sorted_wrt (<) ys \<Longrightarrow> sorted_wrt (<) (set_insert x ys)"
proof (induction ys)
  case (Cons y ys)
  then show ?case by (auto simp del: less_prod_def' intro: less_trans)
qed simp

lemma sorted_remove1: "sorted_wrt (<) (ys :: Item list) \<Longrightarrow> sorted_wrt (<) (remove1 x ys)"
proof (induction ys)
  case (Cons y ys)
  then show ?case using set_remove1_subset [of x ys] by auto
qed simp

lemma strict_sorted_distinct: "sorted_wrt (<) (ys :: Item list) \<Longrightarrow> distinct ys"
  by (induction ys) auto

lemma set_remove1_strict:
  "sorted_wrt (<) (ys :: Item list) \<Longrightarrow> set (remove1 x ys) = set ys - {x}"
  by (simp add: strict_sorted_distinct)

lemma SS_invD:
  assumes "SS_inv ss"
  shows "sorted_wrt (<) (sorted_set ss)"
    and "existed ss k = Some item \<Longrightarrow> item \<in> set (sorted_set ss)"
    and "existed ss k = Some item \<Longrightarrow> snd item = k"
    and "item \<in> set (sorted_set ss) \<Longrightarrow> existed ss (snd item) = Some item"
  using assms unfolding SS_inv_def by blast+

lemma SS_invI:
  assumes "sorted_wrt (<) (sorted_set ss)"
    and "\<And>k item. existed ss k = Some item \<Longrightarrow> item \<in> set (sorted_set ss) \<and> snd item = k"
    and "\<And>item. item \<in> set (sorted_set ss) \<Longrightarrow> existed ss (snd item) = Some item"
  shows "SS_inv ss"
  using assms unfolding SS_inv_def by blast

lemma SS_map_item: "SS_inv ss \<Longrightarrow> SS_map ss k = Some s \<longleftrightarrow> (s, k) \<in> set (sorted_set ss)"
  using SS_invD(2,3) [of ss k] SS_invD(4) [of ss "(s, k)"]
  by (auto simp: SS_map_def)

lemma SS_inv_init: "SS_inv SS_init"
  by (simp add: SS_inv_def SS_init_def)

lemma SS_inv_clear: "SS_inv (SS_clear ss)"
  by (simp add: SS_inv_def SS_clear_def)

text \<open>Replacing the entry of one key: the common shape of insertion, update and deletion.\<close>

lemma SS_inv_upd:
  assumes inv: "SS_inv ss"
    and s: "sorted_wrt (<) S"
    and S: "set S = {i \<in> set (sorted_set ss). snd i \<noteq> key} \<union> set_option x"
    and x: "\<And>i. x = Some i \<Longrightarrow> snd i = key"
  shows "SS_inv (ss\<lparr>sorted_set := S, existed := (existed ss)(key := x)\<rparr>)"
proof (rule SS_invI)
  fix k item
  assume "existed (ss\<lparr>sorted_set := S, existed := (existed ss)(key := x)\<rparr>) k = Some item"
  then show "item \<in> set (sorted_set (ss\<lparr>sorted_set := S, existed := (existed ss)(key := x)\<rparr>))
      \<and> snd item = k"
    using S x SS_invD(2,3) [OF inv, of k item] by (auto split: if_splits)
next
  fix item
  assume "item \<in> set (sorted_set (ss\<lparr>sorted_set := S, existed := (existed ss)(key := x)\<rparr>))"
  then show "existed (ss\<lparr>sorted_set := S, existed := (existed ss)(key := x)\<rparr>) (snd item) = Some item"
    using S x [of item] SS_invD(4) [OF inv, of item] by auto
qed (simp add: s)

lemma SS_others:
  assumes inv: "SS_inv ss"
  shows "existed ss key = None \<Longrightarrow> {i \<in> set (sorted_set ss). snd i \<noteq> key} = set (sorted_set ss)"
    and "existed ss key = Some item \<Longrightarrow>
      {i \<in> set (sorted_set ss). snd i \<noteq> key} = set (sorted_set ss) - {item}"
  using SS_invD(2,3,4) [OF inv] by fastforce+

lemma SS_inv_add:
  assumes inv: "SS_inv ss"
  shows "SS_inv (snd (SS_add ss key score))"
  using SS_inv_upd [OF inv, of "set_insert (score, key) S" key "Some (score, key)" for S]
    SS_others [OF inv, of key] SS_invD(1) [OF inv] inv
  by (auto simp: SS_add_def sorted_set_insert sorted_remove1 set_remove1_strict
      split: option.splits)

lemma SS_map_add: "SS_map (snd (SS_add ss key score)) = (SS_map ss)(key \<mapsto> score)"
  by (auto simp: SS_map_def SS_add_def split: option.splits)

lemma SS_inv_del:
  assumes inv: "SS_inv ss"
  shows "SS_inv (snd (SS_del ss key))"
  using SS_inv_upd [OF inv, of _ key None] SS_others [OF inv, of key] SS_invD(1) [OF inv] inv
  by (auto simp: SS_del_def sorted_remove1 set_remove1_strict split: option.splits)

lemma SS_map_del: "SS_map (snd (SS_del ss key)) = (SS_map ss)(key := None)"
  by (auto simp: SS_map_def SS_del_def split: option.splits)

lemma SS_pop_front_del:
  "SS_inv ss \<Longrightarrow> SS_front ss = Some (key, score) \<Longrightarrow> snd (SS_pop_front ss) = snd (SS_del ss key)"
  using SS_invD(4) [of ss "(score, key)"]
  by (auto simp: SS_front_def SS_pop_front_def SS_del_def split: list.splits option.splits)

lemma SS_back_in: "SS_back ss = Some (key, score) \<Longrightarrow> (score, key) \<in> set (sorted_set ss)"
  using last_in_set [of "sorted_set ss"] by (auto simp: SS_back_def Let_def split: if_splits)

lemma remove1_last: "distinct xs \<Longrightarrow> xs \<noteq> [] \<Longrightarrow> remove1 (last xs) xs = butlast xs"
  by (metis append_butlast_last_id distinct_append distinct.simps(2) list.set_intros(1)
      remove1.simps(2) append_Nil2 remove1_append disjoint_iff not_Cons_self2)

lemma SS_pop_back_del:
  assumes inv: "SS_inv ss" and bk: "SS_back ss = Some (key, score)"
  shows "snd (SS_pop_back ss) = snd (SS_del ss key)"
proof -
  from bk have ne: "sorted_set ss \<noteq> []" and l: "last (sorted_set ss) = (score, key)"
    by (auto simp: SS_back_def Let_def split: if_splits)
  from SS_invD(4) [OF inv SS_back_in [OF bk]] have "existed ss key = Some (score, key)"
    by simp
  moreover have "distinct (sorted_set ss)"
    using inv strict_sorted_distinct by (auto simp: SS_inv_def)
  ultimately show ?thesis using ne l remove1_last [of "sorted_set ss"]
    by (simp add: SS_pop_back_def SS_del_def)
qed

lemma SS_front_least:
  "SS_inv ss \<Longrightarrow> SS_front ss = Some (key, score) \<Longrightarrow>
   SS_map ss key = Some score \<and> (\<forall>k s. SS_map ss k = Some s \<longrightarrow> score \<le> s)"
  using SS_invD(1) [of ss] by (fastforce simp: SS_map_item SS_front_def split: list.splits)

lemma SS_front_None: "SS_inv ss \<Longrightarrow> SS_front ss = None \<longleftrightarrow> SS_map ss = Map.empty"
proof -
  assume inv: "SS_inv ss"
  have "SS_map ss = Map.empty \<longleftrightarrow> (\<forall>k s. SS_map ss k \<noteq> Some s)"
    by (auto simp: fun_eq_iff)
  also have "\<dots> \<longleftrightarrow> sorted_set ss = []"
    by (simp add: SS_map_item [OF inv]) (metis last_in_set list.set(1) empty_iff surj_pair)
  finally show ?thesis by (simp add: SS_front_def split: list.splits)
qed

lemma SS_back_greatest:
  assumes inv: "SS_inv ss" and bk: "SS_back ss = Some (key, score)"
  shows "SS_map ss key = Some score \<and> (\<forall>k s. SS_map ss k = Some s \<longrightarrow> s \<le> score)"
proof -
  from bk have ne: "sorted_set ss \<noteq> []" and l: "last (sorted_set ss) = (score, key)"
    by (auto simp: SS_back_def Let_def split: if_splits)
  have "x \<le> last xs" if "sorted_wrt (<) xs" "x \<in> set xs" for x and xs :: "Item list"
    using that by (induction xs) (auto split: if_splits intro: order.strict_implies_order)
  then have "\<And>x. x \<in> set (sorted_set ss) \<Longrightarrow> x \<le> (score, key)"
    using inv l by (metis SS_inv_def)
  then show ?thesis
    using SS_back_in [OF bk] by (fastforce simp: SS_map_item [OF inv])
qed

section \<open>The contract of the index\<close>

locale deadline_index =
  fixes add :: "'s \<Rightarrow> bytes \<Rightarrow> int \<Rightarrow> 's" and del :: "'s \<Rightarrow> bytes \<Rightarrow> 's"
    and front :: "'s \<Rightarrow> (bytes \<times> int) option" and pop_front :: "'s \<Rightarrow> 's"
    and pop_back :: "'s \<Rightarrow> 's" and scores :: "'s \<Rightarrow> bytes \<rightharpoonup> int" and invar :: "'s \<Rightarrow> bool"
  assumes inv_add: "invar s \<Longrightarrow> invar (add s k x)"
    and scores_add: "invar s \<Longrightarrow> scores (add s k x) = (scores s)(k \<mapsto> x)"
    and inv_del: "invar s \<Longrightarrow> invar (del s k)"
    and scores_del: "invar s \<Longrightarrow> scores (del s k) = (scores s)(k := None)"
    and front_least: "invar s \<Longrightarrow> front s = Some (k, x) \<Longrightarrow>
      scores s k = Some x \<and> (\<forall>k' x'. scores s k' = Some x' \<longrightarrow> x \<le> x')"
    and front_None: "invar s \<Longrightarrow> front s = None \<longleftrightarrow> scores s = Map.empty"
    and pop_front: "invar s \<Longrightarrow> front s = Some (k, x) \<Longrightarrow> pop_front s = del s k"
    and pop_back: "invar s \<Longrightarrow> scores s \<noteq> Map.empty \<Longrightarrow>
      \<exists>k x. scores s k = Some x \<and> (\<forall>k' x'. scores s k' = Some x' \<longrightarrow> x' \<le> x) \<and> pop_back s = del s k"
begin

lemma pop_front_scores:
  "invar s \<Longrightarrow> front s = Some (k, x) \<Longrightarrow> invar (pop_front s) \<and> scores (pop_front s) = (scores s)(k := None)"
  by (simp add: pop_front inv_del scores_del)

lemma pop_back_submap:
  "invar s \<Longrightarrow> scores s \<noteq> Map.empty \<Longrightarrow> invar (pop_back s) \<and> scores (pop_back s) \<subseteq>\<^sub>m scores s"
  using pop_back [of s] by (auto simp: inv_del scores_del map_le_def split: if_splits)

end

interpretation ss: deadline_index
  "\<lambda>s k x. snd (SS_add s k x)" "\<lambda>s k. snd (SS_del s k)" SS_front "\<lambda>s. snd (SS_pop_front s)"
  "\<lambda>s. snd (SS_pop_back s)" SS_map SS_inv
proof (unfold_locales, goal_cases)
  case (8 s)
  then have "SS_front s \<noteq> None" by (simp add: SS_front_None)
  then have "sorted_set s \<noteq> []" by (auto simp: SS_front_def split: list.splits)
  then obtain k x where b: "SS_back s = Some (k, x)"
    by (auto simp: SS_back_def Let_def)
  from SS_back_greatest [OF 8(1) b] SS_pop_back_del [OF 8(1) b] show ?case by blast
qed (simp_all add: SS_inv_add SS_map_add SS_inv_del SS_map_del SS_front_least SS_front_None
    SS_pop_front_del)

end
