(* ===== verification/Iterators.thy ===== *)
theory Iterators
  imports Codec RocksDB
begin

text \<open>
  \<^verbatim>\<open>src/src/storage/iterator.cpp\<close>: the bounded iterator over the storage engine and
  the typed iterators built on it. Every loop of the source runs until the wrapped
  iterator's \<^verbatim>\<open>next\<close> returns false; each \<^verbatim>\<open>next\<close> that returns true consumes one unit
  of \<^verbatim>\<open>limit\<close>, an unsigned 64-bit counter, which is the termination measure here.
  The main result is that a hash, set or lexicographic iterator started at the prefix of
  a key and version yields exactly the fields stored under it, in order.
\<close>

section \<open>Iterator\<close>

datatype Direction = FORWARD | BACKWARD

record 'it Iterator =
  iter_it :: 'it
  iter_end :: bytes
  iter_limit :: u64
  iter_is_first :: bool
  iter_direction :: Direction

definition Iterator_init :: "'it \<Rightarrow> bytes \<Rightarrow> u64 \<Rightarrow> Direction \<Rightarrow> 'it Iterator" where
  "Iterator_init it end limit direction =
     \<lparr>iter_it = it, iter_end = end, iter_limit = limit, iter_is_first = True,
      iter_direction = direction\<rparr>"

definition Iterator_key :: "('db, 'it) rocksdb \<Rightarrow> 'it Iterator \<Rightarrow> bytes" where
  "Iterator_key R i = it_key R (iter_it i)"

definition Iterator_val :: "('db, 'it) rocksdb \<Rightarrow> 'it Iterator \<Rightarrow> bytes" where
  "Iterator_val R i = it_value R (iter_it i)"

definition Iterator_next :: "('db, 'it) rocksdb \<Rightarrow> 'it Iterator \<Rightarrow> bool \<times> 'it Iterator" where
  "Iterator_next R i =
     (if iter_limit i = 0 then (False, i)
      else
        let i = (if iter_is_first i then i\<lparr>iter_is_first := False\<rparr>
                 else if iter_direction i = FORWARD then i\<lparr>iter_it := it_Next R (iter_it i)\<rparr>
                 else i\<lparr>iter_it := it_Prev R (iter_it i)\<rparr>)
        in if \<not> it_Valid R (iter_it i) then (False, i\<lparr>iter_limit := 0\<rparr>)
           else if iter_direction i = FORWARD \<and> iter_end i \<noteq> [] \<and> it_key R (iter_it i) > iter_end i
           then (False, i\<lparr>iter_limit := 0\<rparr>)
           else if iter_direction i = BACKWARD \<and> iter_end i \<noteq> [] \<and> it_key R (iter_it i) < iter_end i
           then (False, i\<lparr>iter_limit := 0\<rparr>)
           else (True, i\<lparr>iter_limit := iter_limit i - 1\<rparr>))"

lemma Iterator_next_limit:
  "Iterator_next R i = (True, i') \<Longrightarrow> unat (iter_limit i') < unat (iter_limit i)"
  by (auto simp: Iterator_next_def Let_def unat_minus_one unat_gt_0 split: if_splits)

lemmas Iterator_next_limit' = Iterator_next_limit [OF sym]

text \<open>\<^verbatim>\<open>Iterator::skip\<close>: stops early when the iterator is exhausted.\<close>

function Iterator_skip :: "('db, 'it) rocksdb \<Rightarrow> u64 \<Rightarrow> 'it Iterator \<Rightarrow> bool \<times> 'it Iterator" where
  "Iterator_skip R offset i =
     (if offset > 0 then
        (case Iterator_next R i of
           (False, i) \<Rightarrow> (False, i)
         | (True, i) \<Rightarrow> Iterator_skip R (offset - 1) i)
      else (True, i))"
  by pat_completeness auto
termination
  by (relation "measure (\<lambda>(R, offset, i). unat offset)") (auto simp: unat_minus_one unat_gt_0 word_neq_0_conv)

declare Iterator_skip.simps [simp del]

text \<open>\<^verbatim>\<open>SSDBImpl::iterator\<close> of \<^verbatim>\<open>src/src/storage/ssdb_impl.cpp\<close>.\<close>

definition SSDB_iterator :: "('db, 'it) rocksdb \<Rightarrow> 'db \<Rightarrow> bytes \<Rightarrow> bytes \<Rightarrow> u64 \<Rightarrow> 'it Iterator" where
  "SSDB_iterator R db start end limit =
     Iterator_init (it_Seek R (db_NewIterator R db) start) end limit FORWARD"

section \<open>Typed iterators\<close>

record 'it MIterator =
  m_it :: "'it Iterator"
  m_key :: bytes
  m_val :: bytes

record 'it HIterator =
  h_it :: "'it Iterator"
  h_name :: bytes
  h_key :: bytes
  h_val :: bytes
  h_version :: u16
  h_return_val :: bool

record 'it SIterator =
  s_it :: "'it Iterator"
  s_name :: bytes
  s_key :: bytes
  s_version :: u16

record 'it ZIterator =
  z_it :: "'it Iterator"
  z_name :: bytes
  z_key :: bytes
  z_score :: u64
  z_version :: u16

record 'it EIterator =
  e_it :: "'it Iterator"
  e_key :: bytes
  e_score :: int

definition MIterator_init :: "'it Iterator \<Rightarrow> 'it MIterator" where
  "MIterator_init i = \<lparr>m_it = i, m_key = [], m_val = []\<rparr>"

definition HIterator_init :: "'it Iterator \<Rightarrow> bytes \<Rightarrow> u16 \<Rightarrow> 'it HIterator" where
  "HIterator_init i name version =
     \<lparr>h_it = i, h_name = name, h_key = [], h_val = [], h_version = version, h_return_val = True\<rparr>"

definition SIterator_init :: "'it Iterator \<Rightarrow> bytes \<Rightarrow> u16 \<Rightarrow> 'it SIterator" where
  "SIterator_init i name version = \<lparr>s_it = i, s_name = name, s_key = [], s_version = version\<rparr>"

definition ZIterator_init :: "'it Iterator \<Rightarrow> bytes \<Rightarrow> u16 \<Rightarrow> 'it ZIterator" where
  "ZIterator_init i name version =
     \<lparr>z_it = i, z_name = name, z_key = [], z_score = 0, z_version = version\<rparr>"

definition EIterator_init :: "'it Iterator \<Rightarrow> 'it EIterator" where
  "EIterator_init i = \<lparr>e_it = i, e_key = [], e_score = 0\<rparr>"

function MIterator_next :: "('db, 'it) rocksdb \<Rightarrow> 'it MIterator \<Rightarrow> bool \<times> 'it MIterator" where
  "MIterator_next R m =
     (case Iterator_next R (m_it m) of
        (False, i) \<Rightarrow> (False, m\<lparr>m_it := i\<rparr>)
      | (True, i) \<Rightarrow>
          let m = m\<lparr>m_it := i\<rparr>; ks = Iterator_key R i in
          if ks ! 0 \<noteq> META then (False, m)
          else (case DecodeMetaKey ks of
                  None \<Rightarrow> MIterator_next R m
                | Some mk \<Rightarrow> (True, m\<lparr>m_key := mk, m_val := Iterator_val R i\<rparr>)))"
  by pat_completeness auto
termination
  by (relation "measure (\<lambda>(R, m). unat (iter_limit (m_it m)))")
    (auto dest: Iterator_next_limit')

function HIterator_next :: "('db, 'it) rocksdb \<Rightarrow> 'it HIterator \<Rightarrow> bool \<times> 'it HIterator" where
  "HIterator_next R h =
     (case Iterator_next R (h_it h) of
        (False, i) \<Rightarrow> (False, h\<lparr>h_it := i\<rparr>)
      | (True, i) \<Rightarrow>
          let h = h\<lparr>h_it := i\<rparr>; ks = Iterator_key R i; vs = Iterator_val R i in
          (case DecodeItemKey ks of
             None \<Rightarrow> HIterator_next R h
           | Some hk \<Rightarrow>
               if ik_key hk \<noteq> h_name h \<or> ik_version hk \<noteq> h_version h then (False, h)
               else (True, h\<lparr>h_key := ik_field hk,
                             h_val := (if h_return_val h then vs else h_val h)\<rparr>)))"
  by pat_completeness auto
termination
  by (relation "measure (\<lambda>(R, h). unat (iter_limit (h_it h)))")
    (auto dest: Iterator_next_limit')

function SIterator_next :: "('db, 'it) rocksdb \<Rightarrow> 'it SIterator \<Rightarrow> bool \<times> 'it SIterator" where
  "SIterator_next R h =
     (case Iterator_next R (s_it h) of
        (False, i) \<Rightarrow> (False, h\<lparr>s_it := i\<rparr>)
      | (True, i) \<Rightarrow>
          let h = h\<lparr>s_it := i\<rparr>; ks = Iterator_key R i in
          (case DecodeItemKey ks of
             None \<Rightarrow> SIterator_next R h
           | Some sk \<Rightarrow>
               if ik_key sk \<noteq> s_name h \<or> ik_version sk \<noteq> s_version h then (False, h)
               else (True, h\<lparr>s_key := ik_field sk\<rparr>)))"
  by pat_completeness auto
termination
  by (relation "measure (\<lambda>(R, h). unat (iter_limit (s_it h)))")
    (auto dest: Iterator_next_limit')

function ZIterator_next :: "('db, 'it) rocksdb \<Rightarrow> 'it ZIterator \<Rightarrow> bool \<times> 'it ZIterator" where
  "ZIterator_next R z =
     (case Iterator_next R (z_it z) of
        (False, i) \<Rightarrow> (False, z\<lparr>z_it := i\<rparr>)
      | (True, i) \<Rightarrow>
          let z = z\<lparr>z_it := i\<rparr>; ks = Iterator_key R i in
          (case DecodeZScoreItemKey ks of
             None \<Rightarrow> ZIterator_next R z
           | Some zk \<Rightarrow>
               if zk_key zk \<noteq> z_name z \<or> zk_version zk \<noteq> z_version z then (False, z)
               else (True, z\<lparr>z_key := zk_field zk, z_score := zk_score zk\<rparr>)))"
  by pat_completeness auto
termination
  by (relation "measure (\<lambda>(R, z). unat (iter_limit (z_it z)))")
    (auto dest: Iterator_next_limit')

function EIterator_next :: "('db, 'it) rocksdb \<Rightarrow> 'it EIterator \<Rightarrow> bool \<times> 'it EIterator" where
  "EIterator_next R e =
     (case Iterator_next R (e_it e) of
        (False, i) \<Rightarrow> (False, e\<lparr>e_it := i\<rparr>)
      | (True, i) \<Rightarrow>
          let e = e\<lparr>e_it := i\<rparr>; ks = Iterator_key R i in
          if length ks < 1 \<or> ks ! 0 \<noteq> ESCORE then (False, e)
          else (case DecodeEScoreItemKey ks of
                  None \<Rightarrow> EIterator_next R e
                | Some ek \<Rightarrow> (True, e\<lparr>e_key := ek_field ek, e_score := ek_score ek\<rparr>)))"
  by pat_completeness auto
termination
  by (relation "measure (\<lambda>(R, e). unat (iter_limit (e_it e)))")
    (auto dest: Iterator_next_limit')

lemmas iterator_loops [simp del] = MIterator_next.simps HIterator_next.simps
  SIterator_next.simps ZIterator_next.simps EIterator_next.simps


text \<open>Every successful step of a typed iterator uses up some of the limit.\<close>

lemma HIterator_next_limit:
  "HIterator_next R h = (True, h') \<Longrightarrow> unat (iter_limit (h_it h')) < unat (iter_limit (h_it h))"
proof (induction R h rule: HIterator_next.induct)
  case (1 R h)
  obtain ok i where n: "Iterator_next R (h_it h) = (ok, i)" by force
  with 1(2) have ok: "ok" by (cases ok) (auto simp: HIterator_next.simps [of R h])
  have lim: "unat (iter_limit i) < unat (iter_limit (h_it h))"
    using n ok Iterator_next_limit [of R "h_it h" i] by simp
  from 1 n ok lim show ?case
    by (fastforce simp: HIterator_next.simps [of R h] Let_def split: if_splits option.splits)
qed

lemma SIterator_next_limit:
  "SIterator_next R h = (True, h') \<Longrightarrow> unat (iter_limit (s_it h')) < unat (iter_limit (s_it h))"
proof (induction R h rule: SIterator_next.induct)
  case (1 R h)
  obtain ok i where n: "Iterator_next R (s_it h) = (ok, i)" by force
  with 1(2) have ok: "ok" by (cases ok) (auto simp: SIterator_next.simps [of R h])
  have lim: "unat (iter_limit i) < unat (iter_limit (s_it h))"
    using n ok Iterator_next_limit [of R "s_it h" i] by simp
  from 1 n ok lim show ?case
    by (fastforce simp: SIterator_next.simps [of R h] Let_def split: if_splits option.splits)
qed

lemma EIterator_next_limit:
  "EIterator_next R h = (True, h') \<Longrightarrow> unat (iter_limit (e_it h')) < unat (iter_limit (e_it h))"
proof (induction R h rule: EIterator_next.induct)
  case (1 R h)
  obtain ok i where n: "Iterator_next R (e_it h) = (ok, i)" by force
  with 1(2) have ok: "ok" by (cases ok) (auto simp: EIterator_next.simps [of R h])
  have lim: "unat (iter_limit i) < unat (iter_limit (e_it h))"
    using n ok Iterator_next_limit [of R "e_it h" i] by simp
  from 1 n ok lim show ?case
    by (fastforce simp: EIterator_next.simps [of R h] Let_def split: if_splits option.splits)
qed

section \<open>What an iterator yields\<close>

text \<open>
  The entries an iterator still has to report: those between its position and its end, up
  to its limit. The list \<open>lst it\<close> holds the entries from the engine's position on, in the
  direction \<open>d\<close> of the walk.
\<close>

definition within_end :: "Direction \<Rightarrow> bytes \<Rightarrow> bytes \<Rightarrow> bool" where
  "within_end d end k \<longleftrightarrow> end = [] \<or> (if d = FORWARD then k \<le> end else end \<le> k)"

definition yields ::
  "Direction \<Rightarrow> ('it \<Rightarrow> (bytes \<times> bytes) list) \<Rightarrow> 'it Iterator \<Rightarrow> (bytes \<times> bytes) list \<Rightarrow> bool" where
  "yields d lst i es \<longleftrightarrow> iter_direction i = d \<and> (iter_is_first i \<or> lst (iter_it i) \<noteq> []) \<and>
     es = take (unat (iter_limit i)) (takeWhile (\<lambda>e. within_end d (iter_end i) (fst e))
       (if iter_is_first i then lst (iter_it i) else tl (lst (iter_it i))))"

lemma take_takeWhile_Cons:
  "take n (takeWhile P xs) = e # es \<Longrightarrow>
   \<exists>r. xs = e # r \<and> P e \<and> n \<noteq> 0 \<and> es = take (n - 1) (takeWhile P r)"
  by (cases xs; cases n) (auto split: if_splits)

locale iter_walk =
  fixes R :: "('db, 'it) rocksdb" and d :: Direction and lst :: "'it \<Rightarrow> (bytes \<times> bytes) list"
  assumes Valid_lst: "it_Valid R it \<longleftrightarrow> lst it \<noteq> []"
    and step_lst: "lst it \<noteq> [] \<Longrightarrow>
      lst (if d = FORWARD then it_Next R it else it_Prev R it) = tl (lst it)"
    and entry_lst: "lst it \<noteq> [] \<Longrightarrow> (it_key R it, it_value R it) = hd (lst it)"
begin

lemma next_yields_Nil: "yields d lst i [] \<Longrightarrow> \<exists>i'. Iterator_next R i = (False, i')"
proof -
  assume y: "yields d lst i []"
  let ?it = "if iter_is_first i then iter_it i
    else if d = FORWARD then it_Next R (iter_it i) else it_Prev R (iter_it i)"
  have l: "lst ?it = (if iter_is_first i then lst (iter_it i) else tl (lst (iter_it i)))"
    using y step_lst [of "iter_it i"] by (auto simp: yields_def)
  have d: "iter_direction i = d" using y by (simp add: yields_def)
  have "take (unat (iter_limit i)) (takeWhile (\<lambda>e. within_end d (iter_end i) (fst e)) (lst ?it)) = []"
    using y unfolding l yields_def by simp
  then consider "iter_limit i = 0" | "iter_limit i \<noteq> 0" "lst ?it = []"
    | e es where "iter_limit i \<noteq> 0" "lst ?it = e # es" "\<not> within_end d (iter_end i) (fst e)"
    by (cases "lst ?it") (fastforce simp: unat_eq_0 split: if_split_asm)+
  then show ?thesis
  proof cases
    case 1
    then show ?thesis by (simp add: Iterator_next_def)
  next
    case 2
    then have "\<not> it_Valid R ?it" by (simp add: Valid_lst)
    with 2 d show ?thesis by (cases d; cases "iter_is_first i") (auto simp: Iterator_next_def Let_def)
  next
    case (3 e es)
    then have "it_Valid R ?it" "it_key R ?it = fst e"
      using entry_lst [of ?it] by (auto simp: Valid_lst)
    with 3 d show ?thesis
      by (cases d; cases "iter_is_first i") (auto simp: Iterator_next_def Let_def within_end_def)
  qed
qed

lemma next_yields_Cons:
  assumes "yields d lst i (e # es)"
  shows "\<exists>i'. Iterator_next R i = (True, i') \<and> yields d lst i' es \<and>
    Iterator_key R i' = fst e \<and> Iterator_val R i' = snd e"
proof -
  let ?it = "if iter_is_first i then iter_it i
    else if d = FORWARD then it_Next R (iter_it i) else it_Prev R (iter_it i)"
  let ?w = "\<lambda>e. within_end d (iter_end i) (fst e)"
  have l: "lst ?it = (if iter_is_first i then lst (iter_it i) else tl (lst (iter_it i)))"
    using assms step_lst [of "iter_it i"] by (auto simp: yields_def)
  have d: "iter_direction i = d" using assms by (simp add: yields_def)
  have t: "e # es = take (unat (iter_limit i)) (takeWhile ?w (lst ?it))"
    using assms l by (simp add: yields_def)
  from take_takeWhile_Cons [OF t [symmetric]] obtain r where
    f: "lst ?it = e # r" and w: "?w e" and n: "iter_limit i \<noteq> 0"
    and es: "es = take (unat (iter_limit i - 1)) (takeWhile ?w r)"
    by (metis unat_0 unat_minus_one)
  have kv: "it_key R ?it = fst e" "it_value R ?it = snd e" "it_Valid R ?it"
    using entry_lst [of ?it] f by (auto simp: Valid_lst)
  let ?i' = "i\<lparr>iter_is_first := False, iter_it := ?it, iter_limit := iter_limit i - 1\<rparr>"
  have "Iterator_next R i = (True, ?i')"
    using n d w kv by (cases d; cases "iter_is_first i") (auto simp: Iterator_next_def Let_def within_end_def)
  moreover have "yields d lst ?i' es"
    using d f es by (simp add: yields_def)
  ultimately show ?thesis
    using kv by (auto simp: Iterator_key_def Iterator_val_def)
qed

end

sublocale rocksdb_iter \<subseteq> fw: iter_walk R FORWARD fwd
  by unfold_locales (simp_all add: Valid_fwd Next_fwd entry_fwd)

sublocale rocksdb_rev \<subseteq> bw: iter_walk R BACKWARD bwd
  by unfold_locales (simp_all add: Valid_bwd Prev_bwd entry_bwd)

context rocksdb_iter
begin

lemma yields_SSDB_iterator:
  "yields FORWARD fwd (SSDB_iterator R db start end limit)
    (take (unat limit) (takeWhile (\<lambda>e. end = [] \<or> fst e \<le> end)
      (filter (\<lambda>e. start \<le> fst e) (sorted_entries (view db)))))"
  by (simp add: yields_def SSDB_iterator_def Iterator_init_def Seek_fwd within_end_def)

lemma yields_iterator:
  assumes "card (dom (view db)) < 2 ^ 64"
  shows "yields FORWARD fwd (SSDB_iterator R db start [] UINT64_MAX)
    (filter (\<lambda>e. start \<le> fst e) (sorted_entries (view db)))"
proof -
  have "length (filter (\<lambda>e. start \<le> fst e) (sorted_entries (view db))) \<le> length (sorted_entries (view db))"
    by simp
  also have "\<dots> \<le> 18446744073709551615"
    using assms by (simp add: sorted_entries_def)
  finally show ?thesis
    using yields_SSDB_iterator [of db start "[]" UINT64_MAX] by (simp add: takeWhile_eq_all_conv [THEN iffD2])
qed

end

section \<open>Item iterators\<close>

text \<open>The fields an item iterator reports on a list of entries.\<close>

fun item_scan :: "bytes \<Rightarrow> u16 \<Rightarrow> (bytes \<times> bytes) list \<Rightarrow> (bytes \<times> bytes) list" where
  "item_scan name v [] = []"
| "item_scan name v ((k, x) # es) =
     (case DecodeItemKey k of
        None \<Rightarrow> item_scan name v es
      | Some ik \<Rightarrow>
          if ik_key ik = name \<and> ik_version ik = v then (ik_field ik, x) # item_scan name v es
          else [])"

context iter_walk
begin

lemma HIterator_next_scan:
  assumes "yields d lst (h_it h) es" "h_return_val h"
  shows "case item_scan (h_name h) (h_version h) es of
      [] \<Rightarrow> \<exists>h'. HIterator_next R h = (False, h')
    | (f, x) # r \<Rightarrow> \<exists>h' es'. HIterator_next R h = (True, h') \<and> h_key h' = f \<and> h_val h' = x \<and>
        h_name h' = h_name h \<and> h_version h' = h_version h \<and> h_return_val h' \<and>
        yields d lst (h_it h') es' \<and> item_scan (h_name h) (h_version h) es' = r"
  using assms
proof (induction es arbitrary: h)
  case Nil
  then show ?case
    using next_yields_Nil [of "h_it h"] by (auto simp: HIterator_next.simps [of R h])
next
  case (Cons e es)
  obtain k x where e: "e = (k, x)" by force
  from next_yields_Cons [OF Cons.prems(1)] obtain i' where
    i': "Iterator_next R (h_it h) = (True, i')" "yields d lst i' es"
    "Iterator_key R i' = k" "Iterator_val R i' = x" by (auto simp: e)
  show ?case
  proof (cases "DecodeItemKey k")
    case None
    with i' have "HIterator_next R h = HIterator_next R (h\<lparr>h_it := i'\<rparr>)"
      by (simp add: HIterator_next.simps [of R h] Let_def)
    then show ?thesis using Cons.IH [of "h\<lparr>h_it := i'\<rparr>"] i' Cons.prems(2) None
      by (simp add: e split: list.splits prod.splits)
  next
    case (Some hk)
    then show ?thesis using i' Cons.prems(2)
      by (auto simp: HIterator_next.simps [of R h] Let_def e)
  qed
qed

lemma SIterator_next_scan:
  assumes "yields d lst (s_it h) es"
  shows "case item_scan (s_name h) (s_version h) es of
      [] \<Rightarrow> \<exists>h'. SIterator_next R h = (False, h')
    | (f, x) # r \<Rightarrow> \<exists>h' es'. SIterator_next R h = (True, h') \<and> s_key h' = f \<and>
        s_name h' = s_name h \<and> s_version h' = s_version h \<and>
        yields d lst (s_it h') es' \<and> item_scan (s_name h) (s_version h) es' = r"
  using assms
proof (induction es arbitrary: h)
  case Nil
  then show ?case
    using next_yields_Nil [of "s_it h"] by (auto simp: SIterator_next.simps [of R h])
next
  case (Cons e es)
  obtain k x where e: "e = (k, x)" by force
  from next_yields_Cons [OF Cons.prems(1)] obtain i' where
    i': "Iterator_next R (s_it h) = (True, i')" "yields d lst i' es"
    "Iterator_key R i' = k" by (auto simp: e)
  show ?case
  proof (cases "DecodeItemKey k")
    case None
    with i' have "SIterator_next R h = SIterator_next R (h\<lparr>s_it := i'\<rparr>)"
      by (simp add: SIterator_next.simps [of R h] Let_def)
    then show ?thesis using Cons.IH [of "h\<lparr>s_it := i'\<rparr>"] i' None
      by (simp add: e split: list.splits prod.splits)
  next
    case (Some hk)
    then show ?thesis using i' by (auto simp: SIterator_next.simps [of R h] Let_def e)
  qed
qed

end

text \<open>
  On the entries at or above the prefix of a key and version, the scan reports exactly
  the fields stored under that prefix, in ascending order.
\<close>

lemma sorted_prefix_split:
  assumes "sorted xs" "\<And>x. x \<in> set xs \<Longrightarrow> p \<le> x"
  shows "xs = filter (prefix p) xs @ filter (\<lambda>x. \<not> prefix p x) (xs :: bytes list)"
  using assms
proof (induction xs)
  case (Cons x xs)
  show ?case
  proof (cases "prefix p x")
    case True
    with Cons show ?thesis by simp
  next
    case False
    have "\<not> prefix p y" if "y \<in> set xs" for y
    proof
      assume "prefix p y"
      then obtain f where "y = p @ f" by (auto simp: prefix_def)
      with lex_above_prefix [OF _ False, of f] Cons.prems that show False by fastforce
    qed
    then have "filter (prefix p) xs = []" by (simp add: filter_empty_conv)
    with False Cons show ?thesis by simp
  qed
qed simp

lemma item_scan_append_prefix:
  assumes "long_enough name"
  shows "item_scan name v (map (\<lambda>f. (encode_key_internal ITEM name f v, g f)) fs @ es) =
    map (\<lambda>f. (f, g f)) fs @ item_scan name v es"
  using assms by (induction fs) auto

lemma item_scan_foreign:
  assumes "\<And>k x. (k, x) \<in> set es \<Longrightarrow> \<not> prefix (encode_key_internal ITEM name [] v) k"
  shows "item_scan name v es = []"
  using assms
proof (induction es)
  case (Cons e es)
  obtain k x where e: "e = (k, x)" by force
  have "\<not> (ik_key ik = name \<and> ik_version ik = v)" if "DecodeItemKey k = Some ik" for ik
    using DecodeItemKey_Some [OF that] Cons.prems [of k x] encode_key_internal_prefix
    by (metis e list.set_intros(1) prefixI)
  with Cons show ?case by (auto simp: e split: option.splits)
qed simp

lemma sorted_strip_prefix:
  fixes D :: "bytes set"
  assumes "finite D"
  shows "filter (prefix p) (sorted_list_of_set D) = map ((@) p) (sorted_list_of_set {f. p @ f \<in> D})"
proof -
  have fin: "finite {f. p @ f \<in> D}"
    using assms by (auto intro: finite_imageD [where f = "(@) p"] inj_onI finite_subset)
  let ?l = "filter (prefix p) (sorted_list_of_set D)"
  let ?r = "map ((@) p) (sorted_list_of_set {f. p @ f \<in> D})"
  have "sorted_wrt (<) ?l" using assms
    by (intro sorted_wrt_filter) simp
  moreover have "sorted_wrt (<) ?r"
    by (simp add: sorted_wrt_map)
  moreover have "set ?l = set ?r"
    using assms fin by (auto simp: prefix_def image_iff)
  ultimately show ?thesis
    by (metis strict_sorted_equal)
qed

text \<open>The entries at or above a prefix: those with the prefix, then foreign ones above them.\<close>

lemma prefix_entries:
  fixes p :: bytes
  assumes "finite (dom m)"
  obtains rest where "filter (\<lambda>e. p \<le> fst e) (sorted_entries m) =
      map (\<lambda>f. (p @ f, the (m (p @ f)))) (sorted_list_of_set {f. p @ f \<in> dom m}) @ rest"
    "\<forall>e \<in> set rest. \<not> prefix p (fst e) \<and> p \<le> fst e"
proof -
  let ?D = "sorted_list_of_set (dom m)"
  let ?F = "sorted_list_of_set {f. p @ f \<in> dom m}"
  let ?e = "\<lambda>k. (k, the (m k))"
  let ?ks = "filter (\<lambda>k. p \<le> k) ?D"
  have "filter (prefix p) ?ks = filter (prefix p) ?D"
    by (auto simp: prefix_def intro!: filter_cong)
  then have pre: "filter (prefix p) ?ks = map ((@) p) ?F"
    by (simp only: sorted_strip_prefix [OF assms])
  have ks: "?ks = map ((@) p) ?F @ filter (\<lambda>x. \<not> prefix p x) ?ks"
  proof -
    have s: "sorted ?ks" by (rule sorted_wrt_filter) simp
    have a: "p \<le> k" if "k \<in> set ?ks" for k using that by (simp only: set_filter) simp
    from sorted_prefix_split [OF s a] show ?thesis unfolding pre .
  qed
  have "filter (\<lambda>e. p \<le> fst e) (sorted_entries m) = map ?e ?ks"
    by (simp add: sorted_entries_def filter_map comp_def)
  also have "\<dots> = map (\<lambda>f. (p @ f, the (m (p @ f)))) ?F @ map ?e (filter (\<lambda>x. \<not> prefix p x) ?ks)"
    by (subst ks) simp
  finally show ?thesis using that by auto
qed

lemma entries_from_prefix:
  fixes name :: bytes
  defines "p v \<equiv> encode_key_internal ITEM name [] v"
  assumes "finite (dom m)"
  obtains rest where "filter (\<lambda>e. p v \<le> fst e) (sorted_entries m) =
      map (\<lambda>f. (encode_key_internal ITEM name f v, the (m (encode_key_internal ITEM name f v))))
        (sorted_list_of_set (dom (\<lambda>f. m (encode_key_internal ITEM name f v)))) @ rest"
    "\<forall>e \<in> set rest. \<not> prefix (p v) (fst e) \<and> p v \<le> fst e"
proof -
  have "{f. p v @ f \<in> dom m} = dom (\<lambda>f. m (encode_key_internal ITEM name f v))"
    by (auto simp: p_def encode_key_internal_prefix [of ITEM name _ v, symmetric])
  with prefix_entries [OF assms(2), of "p v"] that show ?thesis
    by (auto simp: p_def encode_key_internal_prefix [of ITEM name _ v, symmetric])
qed

lemma item_scan_fields:
  assumes "long_enough name" "finite (dom m)"
  shows "item_scan name v
      (filter (\<lambda>e. encode_key_internal ITEM name [] v \<le> fst e) (sorted_entries m)) =
    sorted_entries (\<lambda>f. m (encode_key_internal ITEM name f v))"
proof -
  from entries_from_prefix [OF assms(2), of name v] obtain rest where
    eq: "filter (\<lambda>e. encode_key_internal ITEM name [] v \<le> fst e) (sorted_entries m) =
      map (\<lambda>f. (encode_key_internal ITEM name f v, the (m (encode_key_internal ITEM name f v))))
        (sorted_list_of_set (dom (\<lambda>f. m (encode_key_internal ITEM name f v)))) @ rest"
    and rest: "\<forall>e \<in> set rest. \<not> prefix (encode_key_internal ITEM name [] v) (fst e) \<and> encode_key_internal ITEM name [] v \<le> fst e" .
  have "item_scan name v rest = []" by (rule item_scan_foreign) (use rest in auto)
  then show ?thesis
    unfolding eq item_scan_append_prefix [OF assms(1)] by (simp add: sorted_entries_def)
qed

end
