(* ===== verification/Store.thy ===== *)
theory Store
  imports Codec RocksDB SortedSet Iterators
begin

text \<open>
  The state of \<^verbatim>\<open>SSDBImpl\<close> (\<^verbatim>\<open>src/src/storage/ssdb_impl.h\<close>) together with that of its
  \<^verbatim>\<open>ExpirationHandler\<close> (\<^verbatim>\<open>src/src/storage/ttl.h\<close>), the commit of a write batch,
  the raw operations, and the index of deadlines (\<^verbatim>\<open>src/src/storage/t_eset.cpp\<close>): for
  every key with a deadline, one entry from the key to the deadline and one from the
  deadline and the key to nothing. The lemmas show that the two directions of that index
  agree after every update and that no other key is touched.

  The per-key record locks are not part of the state: every operation below is one
  critical section of the source, and the model composes whole operations.
\<close>

record 'db ssdb =
  ldb :: 'db
  expire_enable :: bool
  first_timeout :: int
  fast_keys :: SortedSet
  tasks :: "bytes list"

text \<open>An in-memory store with nothing in it.\<close>

definition empty_store :: "(bytes \<times> bytes) list ssdb" where
  "empty_store = \<lparr>ldb = [], expire_enable = True, first_timeout = INT64_MAX, fast_keys = SS_init, tasks = []\<rparr>"

section \<open>Commit and raw operations\<close>

definition CommitBatch :: "('db, 'it) rocksdb \<Rightarrow> 'db ssdb \<Rightarrow> batch \<Rightarrow> bool \<times> 'db ssdb" where
  "CommitBatch R s updates =
     (case db_Write R (ldb s) updates of (ok, db) \<Rightarrow> (ok, s\<lparr>ldb := db\<rparr>))"

definition raw_set :: "('db, 'it) rocksdb \<Rightarrow> 'db ssdb \<Rightarrow> bytes \<Rightarrow> bytes \<Rightarrow> int \<times> 'db ssdb" where
  "raw_set R s key val =
     (case CommitBatch R s [Put key val] of (ok, s) \<Rightarrow> if \<not> ok then (-1, s) else (1, s))"

definition raw_del :: "('db, 'it) rocksdb \<Rightarrow> 'db ssdb \<Rightarrow> bytes \<Rightarrow> int \<times> 'db ssdb" where
  "raw_del R s key =
     (case CommitBatch R s [Delete key] of (ok, s) \<Rightarrow> if \<not> ok then (-1, s) else (1, s))"

definition raw_get :: "('db, 'it) rocksdb \<Rightarrow> 'db ssdb \<Rightarrow> bytes \<Rightarrow> int \<times> bytes" where
  "raw_get R s key =
     (case db_Get R (ldb s) key of
        GetNotFound \<Rightarrow> (0, []) | GetError \<Rightarrow> (-1, []) | GetOk v \<Rightarrow> (1, v))"

section \<open>The index of deadlines\<close>

text \<open>
  A stored deadline is read as \<^verbatim>\<open>*((uint64_t *) str_score.data())\<close>, which assumes a
  value of at least eight bytes; every value written is one.
\<close>

definition eget :: "('db, 'it) rocksdb \<Rightarrow> 'db ssdb \<Rightarrow> bytes \<Rightarrow> int \<times> int" where
  "eget R s key =
     (case db_Get R (ldb s) (encode_eset_key key) of
        GetNotFound \<Rightarrow> (0, 0)
      | GetError \<Rightarrow> (-1, 0)
      | GetOk str_score \<Rightarrow> (1, sint (load64 str_score)))"

definition edel_one :: "('db, 'it) rocksdb \<Rightarrow> 'db ssdb \<Rightarrow> bytes \<Rightarrow> batch \<Rightarrow> int \<times> batch" where
  "edel_one R s key batch =
     (case eget R s key of (found, old_ts) \<Rightarrow>
        if found = -1 then (-1, batch)
        else if found = 0 then (0, batch)
        else (1, batch @ [Delete (encode_escore_key key (word_of_int old_ts)),
                          Delete (encode_eset_key key)]))"

definition eset_one :: "('db, 'it) rocksdb \<Rightarrow> 'db ssdb \<Rightarrow> bytes \<Rightarrow> batch \<Rightarrow> int \<Rightarrow> int \<times> batch" where
  "eset_one R s key batch ts_ms =
     (case eget R s key of (found, old_ts) \<Rightarrow>
        if found = -1 then (-1, batch)
        else if found \<noteq> 0 \<and> found \<noteq> 1 then (-1, batch)
        else
          let batch = (if found = 1 \<and> old_ts \<noteq> ts_ms
                       then batch @ [Delete (encode_escore_key key (word_of_int old_ts))]
                       else batch)
          in (1, batch @ [Put (encode_eset_key key) (raw64 (word_of_int ts_ms)),
                          Put (encode_escore_key key (word_of_int ts_ms)) []]))"

definition check_meta_key :: "('db, 'it) rocksdb \<Rightarrow> 'db ssdb \<Rightarrow> bytes \<Rightarrow> int" where
  "check_meta_key R s key =
     (case db_Get R (ldb s) (encode_meta_key key) of
        GetNotFound \<Rightarrow> 0
      | GetError \<Rightarrow> -1
      | GetOk meta_val \<Rightarrow>
          if length meta_val \<ge> 4 then (if meta_val ! 3 = KEY_DELETE_MASK then 0 else 1) else -1)"

section \<open>Versions and ownership of keys\<close>

text \<open>
  Every meta value carries a version. A deleted key that is written again continues with
  the next version, wrapping at 16 bits; the items of older versions are left to the
  background task. The sources repeat this computation in every reader of meta values.
\<close>

definition next_version :: "u16 \<Rightarrow> u16" where
  "next_version version = (if version = UINT16_MAX then 0 else version + 1)"

lemma next_version_succ: "next_version v = v + 1"
  by (simp add: next_version_def)

text \<open>
  \<open>absent m key w\<close>: the key does not exist and its next incarnation has version \<open>w\<close>.
  \<open>no_items m key w\<close>: nothing is stored under that version.
\<close>

definition absent :: "contents \<Rightarrow> bytes \<Rightarrow> u16 \<Rightarrow> bool" where
  "absent m key w \<longleftrightarrow>
     m (encode_meta_key key) = None \<and> w = 0 \<or>
     (\<exists>t v r. m (encode_meta_key key) = Some (t # raw16 (htobe16 v) @ KEY_DELETE_MASK # r) \<and>
        w = next_version v)"

definition no_items :: "contents \<Rightarrow> bytes \<Rightarrow> u16 \<Rightarrow> bool" where
  "no_items m key w \<longleftrightarrow> (\<forall>f. m (encode_key_internal ITEM key f w) = None)"

definition fresh :: "contents \<Rightarrow> bytes \<Rightarrow> bool" where
  "fresh m key \<longleftrightarrow> (\<forall>w. absent m key w \<longrightarrow> no_items m key w)"

text \<open>The items of a key at a version, as a map from fields to values.\<close>

definition item_map :: "bytes \<Rightarrow> u16 \<Rightarrow> contents \<Rightarrow> contents" where
  "item_map key v m = (\<lambda>f. m (encode_key_internal ITEM key f v))"

lemma no_items_item_map: "no_items m key w \<longleftrightarrow> item_map key w m = Map.empty"
  by (auto simp: no_items_def item_map_def fun_eq_iff)

lemma item_map_put [simp]:
  "item_map key v (m(encode_key_internal ITEM key f v \<mapsto> x)) = (item_map key v m)(f \<mapsto> x)"
  "item_map key v (m(encode_key_internal ITEM key f v := None)) = (item_map key v m)(f := None)"
  by (auto simp: item_map_def)

lemma item_map_other [simp]:
  "item_map key v (m(encode_meta_key k := x)) = item_map key v m"
  "item_map key v (m(encode_delete_key k w := x)) = item_map key v m"
  "item_map key v (m(encode_eset_key k := x)) = item_map key v m"
  by (auto simp: item_map_def)

text \<open>The physical keys that belong to a logical key; different keys own different ones.\<close>

definition own_keys :: "bytes \<Rightarrow> bytes set" where
  "own_keys key = {encode_meta_key key, encode_eset_key key} \<union>
     range (encode_escore_key key) \<union>
     {encode_key_internal t key f v | t f v. t = ITEM \<or> t = ZSCORE \<or> t = DELETE}"

lemma own_keysI [simp, intro]:
  "encode_meta_key key \<in> own_keys key" "encode_eset_key key \<in> own_keys key"
  "encode_escore_key key ts \<in> own_keys key"
  "t = ITEM \<or> t = ZSCORE \<or> t = DELETE \<Longrightarrow> encode_key_internal t key f v \<in> own_keys key"
  by (auto simp: own_keys_def)

lemma own_keys_delete [simp, intro]: "encode_delete_key key v \<in> own_keys key"
  by (simp add: delete_key_is_internal_key)

lemma own_keys_disjoint:
  assumes "key \<noteq> key'" "long_enough key" "long_enough key'"
  shows "own_keys key \<inter> own_keys key' = {}"
  using assms encode_key_internal_inj [of key key']
  by (auto simp: own_keys_def)

definition touches_only :: "bytes \<Rightarrow> contents \<Rightarrow> contents \<Rightarrow> bool" where
  "touches_only key m m' \<longleftrightarrow> (\<forall>k. k \<notin> own_keys key \<longrightarrow> m' k = m k)"

lemma touches_only_batch:
  "op_key ` set b \<subseteq> own_keys key \<Longrightarrow> touches_only key m (apply_batch b m)"
  by (auto simp: touches_only_def intro: apply_batch_other)

section \<open>Consistency of the index\<close>

definition expiry_wf :: "contents \<Rightarrow> bool" where
  "expiry_wf m \<longleftrightarrow>
     (\<forall>k v. m (encode_eset_key k) = Some v \<longrightarrow>
        (\<exists>ts. v = raw64 ts \<and> m (encode_escore_key k ts) \<noteq> None)) \<and>
     (\<forall>k ts. m (encode_escore_key k ts) \<noteq> None \<longrightarrow> m (encode_eset_key k) = Some (raw64 ts))"

abbreviation expiry_key :: "bytes \<Rightarrow> bool" where
  "expiry_key k \<equiv> k \<noteq> [] \<and> (hd k = EKEY \<or> hd k = ESCORE)"

lemma expiry_key_simps [simp]:
  "expiry_key (encode_eset_key k)" "expiry_key (encode_escore_key k ts)"
  by (simp_all add: encode_eset_key_def encode_escore_key_def)

lemma expiry_wf_ekey:
  "expiry_wf m \<Longrightarrow> m (encode_eset_key k) = Some v \<Longrightarrow>
   \<exists>ts. v = raw64 ts \<and> m (encode_escore_key k ts) \<noteq> None"
  by (simp add: expiry_wf_def)

lemma expiry_wf_set:
  assumes "expiry_wf m"
    and "\<And>ts'. m (encode_escore_key k ts') \<noteq> None \<Longrightarrow> ts' \<noteq> ts \<Longrightarrow> ts' = old"
  shows "expiry_wf ((if old \<noteq> ts then m(encode_escore_key k old := None) else m)
    (encode_eset_key k \<mapsto> raw64 ts, encode_escore_key k ts \<mapsto> x))"
proof -
  have "m (encode_escore_key k ts') = None" if "ts' \<noteq> ts" "ts' \<noteq> old" for ts'
    using assms(2) that by blast
  with assms(1) show ?thesis unfolding expiry_wf_def by auto
qed

lemma expiry_wf_del:
  assumes "expiry_wf m" "m (encode_eset_key k) = Some (raw64 ts)"
  shows "expiry_wf (m(encode_escore_key k ts := None, encode_eset_key k := None))"
proof -
  have "m (encode_escore_key k ts') = None" if "ts' \<noteq> ts" for ts'
    using assms that unfolding expiry_wf_def by (metis option.inject raw64_inj)
  with assms show ?thesis unfolding expiry_wf_def by auto
qed

lemma expiry_wf_cong:
  "(\<And>k. expiry_key k \<Longrightarrow> m k = m' k) \<Longrightarrow> expiry_wf m = expiry_wf m'"
  by (simp add: expiry_wf_def)

context rocksdb_healthy
begin

lemma CommitBatch_view:
  "CommitBatch R s b = (True, s\<lparr>ldb := snd (db_Write R (ldb s) b)\<rparr>)"
  using Write_no_error [of "ldb s" b]
  by (cases "db_Write R (ldb s) b") (simp add: CommitBatch_def)

lemma view_CommitBatch:
  "fst (CommitBatch R s b)" "view (ldb (snd (CommitBatch R s b))) = apply_batch b (view (ldb s))"
  by (simp_all add: CommitBatch_view Write_view)

lemma eget_view:
  "eget R s key = (case view (ldb s) (encode_eset_key key) of
     None \<Rightarrow> (0, 0) | Some v \<Rightarrow> (1, sint (load64 v)))"
  by (simp add: eget_def Get_view split: option.splits)

lemma edel_one_view:
  assumes "expiry_wf (view (ldb s))"
  shows "apply_batch (snd (edel_one R s key b)) m =
    (case view (ldb s) (encode_eset_key key) of None \<Rightarrow> apply_batch b m
     | Some v \<Rightarrow> (apply_batch b m)(encode_escore_key key (load64 v) := None,
                                    encode_eset_key key := None))"
  by (simp add: edel_one_def eget_view split: option.splits)

lemma eset_one_view:
  assumes "int64 ts"
  shows "fst (eset_one R s key b ts) = 1 \<and>
    apply_batch (snd (eset_one R s key b ts)) m =
    (let m = apply_batch b m in
     (case view (ldb s) (encode_eset_key key) of None \<Rightarrow> m
      | Some v \<Rightarrow> if load64 v \<noteq> word_of_int ts then m(encode_escore_key key (load64 v) := None) else m)
       (encode_eset_key key \<mapsto> raw64 (word_of_int ts),
        encode_escore_key key (word_of_int ts) \<mapsto> []))"
  using assms sint_word_of_int64 [OF assms]
  by (auto simp: eset_one_def eget_view Let_def split: option.splits)

lemma eset_one_wf:
  assumes wf: "expiry_wf (view (ldb s))" and ts: "int64 ts"
    and same: "\<And>k. expiry_key k \<Longrightarrow> apply_batch b m k = view (ldb s) k"
  shows "expiry_wf (apply_batch (snd (eset_one R s key b ts)) m)"
proof -
  let ?m = "apply_batch b m" and ?t = "word_of_int ts :: u64"
  have wf': "expiry_wf ?m" using wf same expiry_wf_cong by metis
  have e: "?m (encode_eset_key key) = view (ldb s) (encode_eset_key key)"
    by (rule same) simp
  show ?thesis
  proof (cases "view (ldb s) (encode_eset_key key)")
    case None
    have "\<And>ts'. ?m (encode_escore_key key ts') = None"
      using wf' None e unfolding expiry_wf_def by (metis not_None_eq)
    then show ?thesis
      using expiry_wf_set [OF wf', of key ?t ?t] eset_one_view [OF ts, of s key b m] None
      by (simp add: Let_def)
  next
    case (Some v)
    then obtain old where v: "v = raw64 old"
      using expiry_wf_ekey [OF wf] by blast
    have "\<And>ts'. ?m (encode_escore_key key ts') \<noteq> None \<Longrightarrow> ts' = old"
      using wf' Some e v unfolding expiry_wf_def by (metis option.inject raw64_inj)
    then show ?thesis
      using expiry_wf_set [OF wf', of key ?t old] eset_one_view [OF ts, of s key b m] Some v
      by (auto simp: Let_def)
  qed
qed

lemma edel_one_wf:
  assumes wf: "expiry_wf (view (ldb s))"
    and same: "\<And>k. expiry_key k \<Longrightarrow> apply_batch b m k = view (ldb s) k"
  shows "expiry_wf (apply_batch (snd (edel_one R s key b)) m)"
proof -
  let ?m = "apply_batch b m"
  have wf': "expiry_wf ?m" using wf same expiry_wf_cong by metis
  have e: "?m (encode_eset_key key) = view (ldb s) (encode_eset_key key)"
    by (rule same) simp
  show ?thesis
  proof (cases "view (ldb s) (encode_eset_key key)")
    case None
    then show ?thesis using wf' edel_one_view [OF wf, of key b m] by simp
  next
    case (Some v)
    then obtain old where v: "v = raw64 old"
      using expiry_wf_ekey [OF wf] by blast
    then show ?thesis
      using expiry_wf_del [OF wf', of key old] e edel_one_view [OF wf, of key b m] Some by simp
  qed
qed

end

end
