(* ===== verification/Expiration.thy ===== *)
theory Expiration
  imports Store
begin

text \<open>
  Deadlines and deletion of keys: the \<^verbatim>\<open>ExpirationHandler\<close> of
  \<^verbatim>\<open>src/src/storage/ttl.cpp\<close> and the deletion primitives of
  \<^verbatim>\<open>src/src/storage/t_kv.cpp\<close> it calls. \<^verbatim>\<open>time_ms()\<close> is an argument of the
  operations that read the clock, one argument per reading. Deleting a key only marks
  its meta value and leaves a delete key for the background task.

  The locale \<open>expiration_canceller\<close> is what the data types rely on when they drop a
  key's deadline inside a batch of their own.
\<close>

section \<open>Cancelling a deadline\<close>

definition cancelExpiration ::
  "('db, 'it) rocksdb \<Rightarrow> 'db ssdb \<Rightarrow> bytes \<Rightarrow> batch \<Rightarrow> int \<times> batch \<times> 'db ssdb" where
  "cancelExpiration R s key batch =
     (if \<not> expire_enable s then (1, batch, s)
      else
        let s = s\<lparr>fast_keys := snd (SS_del (fast_keys s) key)\<rparr>
        in case edel_one R s key batch of (ret, batch) \<Rightarrow> (ret, batch, s))"

section \<open>Deleting a key\<close>

text \<open>The callers guarantee a meta value of at least four bytes.\<close>

definition mark_key_deleted ::
  "('db, 'it) rocksdb \<Rightarrow> 'db ssdb \<Rightarrow> bytes \<Rightarrow> batch \<Rightarrow> bytes \<Rightarrow> bytes \<Rightarrow>
     int \<times> batch \<times> bytes \<times> 'db ssdb" where
  "mark_key_deleted R s key batch meta_key meta_val =
     (if meta_val ! POS_DEL = KEY_ENABLED_MASK then
        let meta_val = meta_val[POS_DEL := KEY_DELETE_MASK];
            version = be16toh (load16 (drop 1 meta_val));
            del_key = encode_delete_key key version;
            batch = batch @ [Put meta_key meta_val, Put del_key []]
        in case cancelExpiration R s key batch of (_, batch, s) \<Rightarrow> (1, batch, meta_val, s)
      else if meta_val ! POS_DEL = KEY_DELETE_MASK then (0, batch, meta_val, s)
      else (MKEY_DECODEC_ERR, batch, meta_val, s))"

definition del_key_internal ::
  "('db, 'it) rocksdb \<Rightarrow> 'db ssdb \<Rightarrow> bytes \<Rightarrow> batch \<Rightarrow> int \<times> batch \<times> 'db ssdb" where
  "del_key_internal R s key batch =
     (let meta_key = encode_meta_key key in
      case db_Get R (ldb s) meta_key of
        GetNotFound \<Rightarrow> (0, batch, s)
      | GetError \<Rightarrow> (STORAGE_ERR, batch, s)
      | GetOk meta_val \<Rightarrow>
          if length meta_val \<ge> 4 then
            (case mark_key_deleted R s key batch meta_key meta_val of
               (ret, batch, _, s) \<Rightarrow> (ret, batch, s))
          else (MKEY_DECODEC_ERR, batch, s))"

definition del :: "('db, 'it) rocksdb \<Rightarrow> 'db ssdb \<Rightarrow> bytes \<Rightarrow> int \<times> 'db ssdb" where
  "del R s key =
     (case del_key_internal R s key [] of (ret, batch, s) \<Rightarrow>
        if ret \<le> 0 then (ret, s)
        else (case CommitBatch R s batch of (ok, s) \<Rightarrow>
                if \<not> ok then (STORAGE_ERR, s) else (1, s)))"

text \<open>The keys come from a \<^verbatim>\<open>std::set\<close>: the list is in ascending order.\<close>

fun multi_del_loop ::
  "('db, 'it) rocksdb \<Rightarrow> bytes list \<Rightarrow> batch \<Rightarrow> int \<Rightarrow> 'db ssdb \<Rightarrow> int \<times> batch \<times> int \<times> 'db ssdb" where
  "multi_del_loop R [] batch num s = (1, batch, num, s)"
| "multi_del_loop R (key # keys) batch num s =
     (case del_key_internal R s key batch of (iret, batch, s) \<Rightarrow>
        if iret < 0 then (iret, batch, num, s)
        else multi_del_loop R keys batch (num + iret) s)"

definition multi_del ::
  "('db, 'it) rocksdb \<Rightarrow> 'db ssdb \<Rightarrow> bytes list \<Rightarrow> int \<Rightarrow> int \<times> int \<times> 'db ssdb" where
  "multi_del R s distinct_keys num =
     (case multi_del_loop R distinct_keys [] num s of (ret, batch, num, s) \<Rightarrow>
        if ret < 0 then (ret, num, s)
        else (case CommitBatch R s batch of (ok, s) \<Rightarrow>
                if \<not> ok then (STORAGE_ERR, num, s) else (1, num, s)))"

section \<open>The expiration handler\<close>

datatype TimeUnit = Second | Millisecond

definition BATCH_SIZE :: nat where "BATCH_SIZE = 1000"

definition convert2ms :: "int \<Rightarrow> TimeUnit \<Rightarrow> int \<times> int" where
  "convert2ms ttl tu =
     (case tu of
        Second \<Rightarrow> if INT64_MAX div 1000 \<le> ttl then (INVALID_EX_TIME, ttl) else (1, ttl * 1000)
      | Millisecond \<Rightarrow> if INT64_MAX \<le> ttl then (INVALID_EX_TIME, ttl) else (1, ttl))"

definition insertFastKey :: "'db ssdb \<Rightarrow> bytes \<Rightarrow> int \<Rightarrow> 'db ssdb" where
  "insertFastKey s key pexpireat_ms =
     (let s = (if pexpireat_ms < first_timeout s then s\<lparr>first_timeout := pexpireat_ms\<rparr> else s) in
      if \<not> SS_empty (fast_keys s) \<and> pexpireat_ms \<le> SS_max_score (fast_keys s) then
        let fk = snd (SS_add (fast_keys s) key pexpireat_ms);
            fk = (if SS_size fk > BATCH_SIZE then snd (SS_pop_back fk) else fk)
        in s\<lparr>fast_keys := fk\<rparr>
      else s\<lparr>fast_keys := snd (SS_del (fast_keys s) key)\<rparr>)"

definition expireAt ::
  "('db, 'it) rocksdb \<Rightarrow> int \<Rightarrow> 'db ssdb \<Rightarrow> bytes \<Rightarrow> int \<Rightarrow> batch \<Rightarrow> bool \<Rightarrow> int \<times> batch \<times> 'db ssdb" where
  "expireAt R now s key pexpireat_ms batch lock =
     (if \<not> expire_enable s then (1, batch, s)
      else if pexpireat_ms \<le> now then
        (case del_key_internal R s key batch of (ret, batch, s) \<Rightarrow>
           if lock \<and> ret \<ge> 0 then
             (case CommitBatch R s batch of (ok, s) \<Rightarrow>
                if \<not> ok then (STORAGE_ERR, batch, s) else (2, batch, s))
           else (2, batch, s))
      else
        let ret = (if lock then check_meta_key R s key else 1) in
        if ret \<le> 0 then (ret, batch, s)
        else
          (case eset_one R s key batch pexpireat_ms of (ret, batch) \<Rightarrow>
             if ret \<le> 0 then (ret, batch, s)
             else
               let s = insertFastKey s key pexpireat_ms in
               if lock then
                 (case CommitBatch R s batch of (ok, s) \<Rightarrow>
                    if \<not> ok then (STORAGE_ERR, batch, s) else (2, batch, s))
               else (2, batch, s)))"

definition expire ::
  "('db, 'it) rocksdb \<Rightarrow> int \<Rightarrow> int \<Rightarrow> 'db ssdb \<Rightarrow> bytes \<Rightarrow> int \<Rightarrow> TimeUnit \<Rightarrow> int \<times> 'db ssdb" where
  "expire R now1 now2 s key ttl tu =
     (case convert2ms ttl tu of (ret, ttl) \<Rightarrow>
        if ret < 0 then (ret, s)
        else
          let pexpireat = now1 + ttl
          in case expireAt R now2 s key pexpireat [] True of (ret, _, s) \<Rightarrow> (ret, s))"

definition persist :: "('db, 'it) rocksdb \<Rightarrow> 'db ssdb \<Rightarrow> bytes \<Rightarrow> int \<times> 'db ssdb" where
  "persist R s key =
     (if \<not> expire_enable s then (1, s)
      else if first_timeout s \<noteq> INT64_MAX then
        (case cancelExpiration R s key [] of (ret, batch, s) \<Rightarrow>
           if ret \<ge> 0 then
             (case CommitBatch R s batch of (ok, s) \<Rightarrow> if \<not> ok then (-1, s) else (ret, s))
           else (ret, s))
      else (0, s))"

definition pttl :: "('db, 'it) rocksdb \<Rightarrow> int \<Rightarrow> 'db ssdb \<Rightarrow> bytes \<Rightarrow> TimeUnit \<Rightarrow> int" where
  "pttl R now s key tu =
     (if \<not> expire_enable s then 1
      else if check_meta_key R s key \<le> 0 then -2
      else
        (case eget R s key of (ret, ex) \<Rightarrow>
           if ret = 1 then
             let ttl = ex - now in
             if ttl < 0 then -2
             else (case tu of Second \<Rightarrow> (ttl + 500) div 1000 | Millisecond \<Rightarrow> ttl)
           else -1))"

subsection \<open>The expiration loop\<close>

function load_expiration_loop :: "('db, 'it) rocksdb \<Rightarrow> 'it EIterator \<Rightarrow> SortedSet \<Rightarrow> SortedSet" where
  "load_expiration_loop R e fk =
     (case EIterator_next R e of
        (False, _) \<Rightarrow> fk
      | (True, e) \<Rightarrow> load_expiration_loop R e (snd (SS_add fk (e_key e) (e_score e))))"
  by pat_completeness auto
termination
  by (relation "measure (\<lambda>(R, e, fk). unat (iter_limit (e_it e)))")
    (auto dest: EIterator_next_limit [OF sym])

declare load_expiration_loop.simps [simp del]

definition load_expiration_keys_from_db :: "('db, 'it) rocksdb \<Rightarrow> 'db ssdb \<Rightarrow> nat \<Rightarrow> 'db ssdb" where
  "load_expiration_keys_from_db R s num =
     (let it = EIterator_init (SSDB_iterator R (ldb s) [ESCORE] [] (word_of_nat num))
      in s\<lparr>fast_keys := load_expiration_loop R it (fast_keys s)\<rparr>)"

text \<open>
  The inner loop of \<^verbatim>\<open>_expire_loop\<close>: it takes due keys off the front of the index
  until one is not due or the counter passes 101. \<open>clock i\<close> is the \<open>i\<close>-th reading of the
  clock; the collected keys form a \<^verbatim>\<open>std::set\<close>.
\<close>

function expire_collect ::
  "(nat \<Rightarrow> int) \<Rightarrow> nat \<Rightarrow> bytes list \<Rightarrow> 'db ssdb \<Rightarrow> bytes list \<times> 'db ssdb" where
  "expire_collect clock count keys s =
     (case SS_front (fast_keys s) of
        None \<Rightarrow> (keys, s)
      | Some (key, score) \<Rightarrow>
          let s = s\<lparr>first_timeout := score\<rparr>;
              count = Suc count;
              latency = clock count - score
          in if latency \<ge> 0 then
               let keys = List.insort_insert key keys;
                   s = s\<lparr>fast_keys := snd (SS_pop_front (fast_keys s))\<rparr>
               in if count > 101 then (keys, s) else expire_collect clock count keys s
             else (keys, s))"
  by pat_completeness auto
termination
  by (relation "measure (\<lambda>(clock, count, keys, s). 102 - count)") auto

declare expire_collect.simps [simp del]

definition expire_loop :: "('db, 'it) rocksdb \<Rightarrow> (nat \<Rightarrow> int) \<Rightarrow> 'db ssdb \<Rightarrow> 'db ssdb" where
  "expire_loop R clock s =
     (let needLoad = SS_empty (fast_keys s);
          s = (if needLoad then load_expiration_keys_from_db R s BATCH_SIZE else s)
      in if needLoad \<and> SS_empty (fast_keys s) then s\<lparr>first_timeout := INT64_MAX\<rparr>
         else (case expire_collect clock 0 [] s of (keys, s) \<Rightarrow>
                 case multi_del R s keys 0 of (_, _, s) \<Rightarrow> s))"


section \<open>The contract the data types rely on\<close>

locale expiration_canceller =
  fixes cancel :: "'s \<Rightarrow> bytes \<Rightarrow> batch \<Rightarrow> int \<times> batch \<times> 's" and db_of :: "'s \<Rightarrow> 'db"
  assumes cancel_appends: "\<exists>dels. fst (snd (cancel s k b)) = b @ map Delete dels \<and>
      set dels \<subseteq> insert (encode_eset_key k) (range (encode_escore_key k))"
    and cancel_db: "db_of (snd (snd (cancel s k b))) = db_of s"
begin

lemma cancel_frame:
  assumes "\<not> expiry_key k'"
  shows "apply_batch (fst (snd (cancel s k b))) m k' = apply_batch b m k'"
proof -
  from cancel_appends [of s k b] obtain dels where
    d: "fst (snd (cancel s k b)) = b @ map Delete dels"
      "set dels \<subseteq> insert (encode_eset_key k) (range (encode_escore_key k))" by blast
  have "k' \<notin> insert (encode_eset_key k) (range (encode_escore_key k))"
    using assms expiry_key_simps [of k] by auto
  with d have "k' \<notin> set dels" by blast
  with d show ?thesis by (simp add: apply_batch_deletes)
qed

lemma cancel_owned:
  assumes "op_key ` set b \<subseteq> own_keys k"
  shows "op_key ` set (fst (snd (cancel s k b))) \<subseteq> own_keys k"
proof -
  from cancel_appends [of s k b] obtain dels where
    d: "fst (snd (cancel s k b)) = b @ map Delete dels"
      "set dels \<subseteq> insert (encode_eset_key k) (range (encode_escore_key k))" by blast
  then have "set dels \<subseteq> own_keys k" by auto
  with d assms show ?thesis by (auto simp: image_Un image_image)
qed


end

interpretation ce: expiration_canceller "cancelExpiration R" ldb
  for R :: "('db, 'it) rocksdb"
proof (unfold_locales, goal_cases)
  case (1 s k b)
  have "\<exists>dels. snd (edel_one R s k b) = b @ map Delete dels \<and>
      set dels \<subseteq> insert (encode_eset_key k) (range (encode_escore_key k))" for s
  proof (cases "eget R s k")
    case (Pair found old)
    let ?d = "[encode_escore_key k (word_of_int old), encode_eset_key k]"
    have "snd (edel_one R s k b) = b @ map Delete [] \<or>
        snd (edel_one R s k b) = b @ map Delete ?d"
      by (simp add: edel_one_def Pair)
    moreover have "set ?d \<subseteq> insert (encode_eset_key k) (range (encode_escore_key k))" by simp
    ultimately show ?thesis by (metis empty_subsetI list.set(1))
  qed
  then show ?case
    by (auto simp: cancelExpiration_def Let_def split: prod.splits) (metis snd_conv)
next
  case (2 s k b)
  then show ?case by (simp add: cancelExpiration_def Let_def split: prod.splits)
qed

section \<open>Deleting a key\<close>

definition live :: "contents \<Rightarrow> bytes \<Rightarrow> bool" where
  "live m key \<longleftrightarrow> (\<exists>v. m (encode_meta_key key) = Some v \<and> length v \<ge> 4 \<and> v ! POS_DEL = KEY_ENABLED_MASK)"

definition meta_wf :: "contents \<Rightarrow> bytes \<Rightarrow> bool" where
  "meta_wf m key \<longleftrightarrow> (\<forall>v. m (encode_meta_key key) = Some v \<longrightarrow>
     length v \<ge> 4 \<and> (v ! POS_DEL = KEY_ENABLED_MASK \<or> v ! POS_DEL = KEY_DELETE_MASK))"

definition meta_version :: "bytes \<Rightarrow> u16" where
  "meta_version v = be16toh (load16 (drop 1 v))"

lemma meta_version_upd [simp]: "length v \<ge> 4 \<Longrightarrow> meta_version (v[POS_DEL := x]) = meta_version v"
  by (simp add: meta_version_def load16_def POS_DEL_def drop_update_swap numeral_2_eq_2
      numeral_3_eq_3 take_update_cancel)

context rocksdb_healthy
begin

lemma del_key_internal_absent:
  assumes "\<not> live (view (ldb s)) key" "meta_wf (view (ldb s)) key"
  shows "del_key_internal R s key b = (0, b, s)"
  using assms
  by (cases "view (ldb s) (encode_meta_key key)")
    (auto simp: del_key_internal_def Get_view live_def meta_wf_def mark_key_deleted_def Let_def)

lemma del_key_internal_live:
  assumes "view (ldb s) (encode_meta_key key) = Some v" "length v \<ge> 4"
    "v ! POS_DEL = KEY_ENABLED_MASK"
  shows "\<exists>b' s'. del_key_internal R s key b = (1, b', s') \<and> ldb s' = ldb s \<and>
    (\<forall>m k. \<not> expiry_key k \<longrightarrow> apply_batch b' m k =
       ((apply_batch b m)(encode_meta_key key \<mapsto> v[POS_DEL := KEY_DELETE_MASK],
                           encode_delete_key key (meta_version v) \<mapsto> [])) k)"
proof -
  let ?b = "b @ [Put (encode_meta_key key) (v[POS_DEL := KEY_DELETE_MASK]),
    Put (encode_delete_key key (meta_version v)) []]"
  obtain r b' s' where c: "cancelExpiration R s key ?b = (r, b', s')" by (metis prod_cases3)
  have "del_key_internal R s key b = (1, b', s')"
    using assms c meta_version_upd [OF assms(2), of KEY_DELETE_MASK]
    by (simp add: del_key_internal_def Get_view mark_key_deleted_def Let_def meta_version_def)
  moreover have "ldb s' = ldb s" using ce.cancel_db [of R s key ?b] c by simp
  moreover have "\<forall>m k. \<not> expiry_key k \<longrightarrow> apply_batch b' m k = apply_batch ?b m k"
    using ce.cancel_frame [of _ R s key ?b] c by simp
  ultimately show ?thesis by simp
qed

lemma del_live:
  assumes "view (ldb s) (encode_meta_key key) = Some v" "length v \<ge> 4"
    "v ! POS_DEL = KEY_ENABLED_MASK"
  shows "\<exists>s'. del R s key = (1, s') \<and>
    (\<forall>k. \<not> expiry_key k \<longrightarrow> view (ldb s') k =
       ((view (ldb s))(encode_meta_key key \<mapsto> v[POS_DEL := KEY_DELETE_MASK],
                        encode_delete_key key (meta_version v) \<mapsto> [])) k)"
proof -
  from del_key_internal_live [OF assms, of "[]"] obtain b' s' where
    d: "del_key_internal R s key [] = (1, b', s')" "ldb s' = ldb s"
      "\<And>m k. \<not> expiry_key k \<Longrightarrow> apply_batch b' m k =
       (m(encode_meta_key key \<mapsto> v[POS_DEL := KEY_DELETE_MASK],
          encode_delete_key key (meta_version v) \<mapsto> [])) k"
    by auto
  then show ?thesis
    by (simp add: del_def CommitBatch_view Write_view)
qed

lemma del_absent:
  assumes "\<not> live (view (ldb s)) key" "meta_wf (view (ldb s)) key"
  shows "del R s key = (0, s)"
  using del_key_internal_absent [OF assms] by (simp add: del_def)

text \<open>
  The data types delete a key whose last item goes by writing a deleted meta value in a
  batch of their own and cancelling the deadline.
\<close>

lemma cancel_deleted:
  assumes "cancelExpiration R s key b = (x, b', s')" "op_key ` set b \<subseteq> own_keys key"
    "apply_batch b m (encode_meta_key key) = Some (t # raw16 (htobe16 v) @ KEY_DELETE_MASK # r)"
  shows "ldb s' = ldb s" "absent (apply_batch b' m) key (next_version v)"
    "touches_only key m (apply_batch b' m)"
proof -
  show "ldb s' = ldb s" using ce.cancel_db [of R s key b] assms(1) by simp
  show "absent (apply_batch b' m) key (next_version v)"
    using ce.cancel_frame [of "encode_meta_key key" R s key b m] assms by (auto simp: absent_def)
  show "touches_only key m (apply_batch b' m)"
    using ce.cancel_owned [OF assms(2), of R s] assms(1) touches_only_batch by simp
qed

end

end
