(* ===== verification/Collection.thy ===== *)
theory Collection
  imports Expiration
begin

text \<open>
  What hashes and sets have in common (\<^verbatim>\<open>t_hash.cpp\<close>, \<^verbatim>\<open>t_set.cpp\<close>): a meta value with
  the number of items, and the items under the key and the version. The locale
  \<open>collection\<close> states what the two types promise of the reader of the meta value and of
  the update of its counter; the lemma \<open>commit_incr_rep\<close> shows once for all writers that
  the counter and the items stay consistent: the counter is the number of items, and a
  key without items does not exist.
\<close>

section \<open>Definitions\<close>

text \<open>
  Every writer ends with the same statements: the result of the counter update decides
  between an error, 0 (the collection is gone) and 1, and the batch is committed.
\<close>

definition commit_incr :: "('db, 'it) rocksdb \<Rightarrow> int \<times> batch \<times> 'db ssdb \<Rightarrow> int \<times> 'db ssdb" where
  "commit_incr R = (\<lambda>(iret, batch, s).
     if iret < 0 then (iret, s)
     else
       let ret = (if iret = 0 then 0 else 1)
       in case CommitBatch R s batch of (ok, s) \<Rightarrow> if \<not> ok then (STORAGE_ERR, s) else (ret, s))"

text \<open>
  The collection \<open>h\<close>, a map from fields to values, is stored under \<open>key\<close> with version \<open>v\<close>
  and a meta value of kind \<open>tag\<close>.
\<close>

definition coll_at :: "byte \<Rightarrow> contents \<Rightarrow> bytes \<Rightarrow> u16 \<Rightarrow> contents \<Rightarrow> bool" where
  "coll_at tag m key v h \<longleftrightarrow> finite (dom h) \<and> h \<noteq> Map.empty \<and> card (dom h) < 2 ^ 63 \<and>
     m (encode_meta_key key) =
       Some (encode_meta_val_internal tag (word_of_nat (card (dom h))) v KEY_ENABLED_MASK) \<and>
     item_map key v m = h"

definition coll_rep :: "byte \<Rightarrow> contents \<Rightarrow> bytes \<Rightarrow> contents \<Rightarrow> bool" where
  "coll_rep tag m key h \<longleftrightarrow> h = Map.empty \<and> (\<exists>w. absent m key w) \<or> (\<exists>v. coll_at tag m key v h)"

text \<open>A version at which items may be added: that of the collection, or a fresh one.\<close>

definition coll_cur :: "byte \<Rightarrow> contents \<Rightarrow> bytes \<Rightarrow> u16 \<Rightarrow> contents \<Rightarrow> bool" where
  "coll_cur tag m key v h \<longleftrightarrow>
     coll_at tag m key v h \<or> h = Map.empty \<and> absent m key v \<and> no_items m key v"

definition coll_meta :: "contents \<Rightarrow> u16 \<Rightarrow> MetaVal \<Rightarrow> bool" where
  "coll_meta h v mv \<longleftrightarrow> mv_length mv = word_of_nat (card (dom h)) \<and> mv_version mv = v"

section \<open>Basic facts\<close>

lemma coll_rep_cur:
  assumes "coll_rep tag m key h" "h = Map.empty \<longrightarrow> fresh m key"
  obtains v where "coll_cur tag m key v h"
  using assms by (auto simp: coll_rep_def coll_cur_def fresh_def)

lemma coll_curD:
  assumes "coll_cur tag m key v h"
  shows "finite (dom h)" "card (dom h) < 2 ^ 63" "item_map key v m = h"
  using assms by (auto simp: coll_cur_def coll_at_def no_items_item_map)

lemma coll_rep_nonempty: "coll_rep tag m key h \<Longrightarrow> h \<noteq> Map.empty \<Longrightarrow> \<exists>v. coll_at tag m key v h"
  by (auto simp: coll_rep_def)

lemma coll_rep_absent: "coll_rep tag m key Map.empty \<Longrightarrow> \<exists>w. absent m key w"
  by (auto simp: coll_rep_def coll_at_def)

lemma card_word_0: "finite (dom h) \<Longrightarrow> card (dom h) < 2 ^ 63 \<Longrightarrow>
  (word_of_nat (card (dom h)) :: u64) = 0 \<longleftrightarrow> h = Map.empty"
  by (auto simp: word_of_nat_eq_0_iff dest!: dvd_imp_le)

text \<open>The arithmetic of the counters: a 64-bit length plus a signed increment.\<close>

lemma uint_pos_sint: "0 < sint (w :: u64) \<Longrightarrow> uint w = sint w"
proof -
  assume pos: "0 < sint w"
  have range: "uint w < 18446744073709551616" "0 \<le> uint w" using uint_lt2p [of w] by simp_all
  have "uint w \<le> INT64_MAX"
  proof (rule ccontr)
    assume "\<not> uint w \<le> INT64_MAX"
    then have "sint (word_of_int (uint w - 18446744073709551616) :: u64) = uint w - 18446744073709551616"
      using range by (intro sint_word_of_int64) (simp add: int64_def)
    moreover have "(18446744073709551616 :: u64) = 0" by simp
    ultimately show False using pos range by simp
  qed
  then show ?thesis using sint_word_of_int64 [of "uint w"] by (simp add: int64_def order_trans [OF _ uint_ge_0])
qed

lemma counter_arith:
  fixes w :: u64
  assumes "0 < sint w" "n \<noteq> 0" "- sint w < n" "int64 (sint w + n)"
  shows "\<not> (n < 0 \<and> w < word_of_int (- n))"
    "(if n > 0 then w + word_of_int n else w - word_of_int (- n)) = w + word_of_int n"
    "w + word_of_int n \<noteq> 0"
proof -
  have w: "uint w = sint w" "int64 (sint w)" using assms(1) uint_pos_sint by simp_all
  have "uint (word_of_int (- n) :: u64) = - n" if "n < 0"
    using that w(2) assms(3) by (subst uint_word_of_int) (auto simp: int64_def intro!: mod_pos_pos_trivial)
  with w assms(3) show "\<not> (n < 0 \<and> w < word_of_int (- n))" by (auto simp: word_less_def simp del: of_int_minus)
  show "(if n > 0 then w + word_of_int n else w - word_of_int (- n)) = w + word_of_int n" by simp
  have "sint (word_of_int (sint w + n) :: u64) = sint w + n"
    using assms(4) by (rule sint_word_of_int64)
  then have "sint (w + word_of_int n) = sint w + n" by simp
  with assms(3) show "w + word_of_int n \<noteq> 0" by auto
qed

lemma counter_arith_0:
  fixes w :: u64
  assumes "0 < sint w" "n = - sint w"
  shows "w \<noteq> 0" "n < 0" "\<not> w < word_of_int (- n)" "w - word_of_int (- n) = 0"
  using assms by auto

text \<open>
  Batches that only write items of a key, or the score entries of a sorted set, leave its
  meta value alone.
\<close>

definition item_keys :: "bytes \<Rightarrow> u16 \<Rightarrow> bytes set" where
  "item_keys key v = {encode_key_internal t key f v | t f. t = ITEM \<or> t = ZSCORE}"

lemma item_keysI [simp, intro]:
  "encode_key_internal ITEM key f v \<in> item_keys key v"
  "encode_key_internal ZSCORE key f v \<in> item_keys key v"
  by (auto simp: item_keys_def)

definition item_batch :: "bytes \<Rightarrow> u16 \<Rightarrow> batch \<Rightarrow> bool" where
  "item_batch key v b \<longleftrightarrow> op_key ` set b \<subseteq> item_keys key v"

lemma item_batch_simps [simp]:
  "item_batch key v []"
  "item_batch key v (b @ c) \<longleftrightarrow> item_batch key v b \<and> item_batch key v c"
  "item_batch key v (x # b) \<longleftrightarrow> op_key x \<in> item_keys key v \<and> item_batch key v b"
  by (auto simp: item_batch_def)

lemma item_batch_owned: "item_batch key v b \<Longrightarrow> op_key ` set b \<subseteq> own_keys key"
  by (auto simp: item_batch_def item_keys_def)

lemma item_batch_meta:
  "item_batch key v b \<Longrightarrow> apply_batch b m (encode_meta_key k) = m (encode_meta_key k)"
  by (rule apply_batch_other) (auto simp: item_batch_def item_keys_def)

lemma item_batch_absent: "item_batch key v b \<Longrightarrow> absent (apply_batch b m) key w = absent m key w"
  by (simp add: absent_def item_batch_meta)

section \<open>The contract\<close>

locale collection = rocksdb_healthy R view
  for R :: "('db, 'it) rocksdb" and view :: "'db \<Rightarrow> contents" +
  fixes tag :: byte
    and get :: "'db ssdb \<Rightarrow> bytes \<Rightarrow> int \<times> MetaVal"
    and incr :: "'db ssdb \<Rightarrow> bytes \<Rightarrow> batch \<Rightarrow> MetaVal \<Rightarrow> int \<Rightarrow> int \<times> batch \<times> 'db ssdb"
  assumes get_absent: "absent (view (ldb s)) key w \<Longrightarrow>
      \<exists>mv. get s (encode_meta_key key) = (0, mv) \<and> coll_meta Map.empty w mv"
    and get_at: "coll_at tag (view (ldb s)) key v h \<Longrightarrow>
      \<exists>mv. get s (encode_meta_key key) = (1, mv) \<and> coll_meta h v mv"
    and incr_first: "mv_length mv = 0 \<Longrightarrow> n > 0 \<Longrightarrow> incr s key b mv n =
      (1, b @ [Put (encode_meta_key key)
        (encode_meta_val_internal tag (word_of_int n) (mv_version mv) KEY_ENABLED_MASK)], s)"
    and incr_same: "incr s key b mv 0 = (if mv_length mv = 0 then 0 else 1, b, s)"
    and incr_more: "mv_length mv \<noteq> 0 \<Longrightarrow> n \<noteq> 0 \<Longrightarrow> - sint (mv_length mv) < n \<Longrightarrow>
      0 < sint (mv_length mv) \<Longrightarrow> int64 (sint (mv_length mv) + n) \<Longrightarrow>
      incr s key b mv n = (1, b @ [Put (encode_meta_key key) (encode_meta_val_internal tag
        (mv_length mv + word_of_int n) (mv_version mv) KEY_ENABLED_MASK)], s)"
    and incr_last: "0 < sint (mv_length mv) \<Longrightarrow> n = - sint (mv_length mv) \<Longrightarrow>
      \<exists>x b' s'. cancelExpiration R s key (b @ [Put (encode_delete_key key (mv_version mv)) [],
          Put (encode_meta_key key)
            (encode_meta_val_internal tag (mv_length mv) (mv_version mv) KEY_DELETE_MASK)]) = (x, b', s') \<and>
        incr s key b mv n = (0, b', s')"
begin

lemma get_cur:
  assumes "coll_cur tag (view (ldb s)) key v h"
  shows "\<exists>mv. get s (encode_meta_key key) = (if h = Map.empty then 0 else 1, mv) \<and> coll_meta h v mv"
  using assms get_absent [of s key v] get_at [of s key v h] by (auto simp: coll_cur_def coll_at_def)

lemma sint_card: "card (dom h) < 2 ^ 63 \<Longrightarrow>
  sint (word_of_nat (card (dom h)) :: u64) = int (card (dom h))"
  using sint_word_of_int64 [of "int (card (dom h))"] by (simp add: int64_def)

text \<open>
  A writer that reaches the items \<open>h'\<close> and adds the difference to the counter stores \<open>h'\<close>
  at the same version, or, when nothing is left, deletes the key; it writes the items as its
  batch says.
\<close>

lemma commit_incr_at:
  assumes cur: "coll_cur tag (view (ldb s)) key v h" and mv: "coll_meta h v mv"
    and ib: "item_batch key v b" and h': "item_map key v (apply_batch b (view (ldb s))) = h'"
    and fin: "finite (dom h')" "card (dom h') < 2 ^ 63"
    and n: "n = int (card (dom h')) - int (card (dom h))"
  shows "\<exists>s'. commit_incr R (incr s key b mv n) = (if h' = Map.empty then 0 else 1, s') \<and>
    (if h' = Map.empty then \<exists>w. absent (view (ldb s')) key w else coll_at tag (view (ldb s')) key v h') \<and>
    touches_only key (view (ldb s)) (view (ldb s')) \<and>
    (\<forall>x \<in> item_keys key v. view (ldb s') x = apply_batch b (view (ldb s)) x)"
proof -
  let ?m = "view (ldb s)" and ?k = "encode_meta_key key"
  note hD = coll_curD [OF cur]
  have len: "mv_length mv = 0 \<longleftrightarrow> h = Map.empty" "sint (mv_length mv) = int (card (dom h))"
    and ver: "mv_version mv = v"
    using mv card_word_0 [OF hD(1,2)] sint_card [OF hD(2)] by (auto simp: coll_meta_def)
  have card0: "card (dom h) = 0 \<longleftrightarrow> h = Map.empty" "card (dom h') = 0 \<longleftrightarrow> h' = Map.empty"
    using hD(1) fin(1) by auto
  have ik: "x \<in> item_keys key v \<Longrightarrow> x \<noteq> ?k \<and> x \<noteq> encode_delete_key key w \<and> \<not> expiry_key x" for x w
    by (auto simp: item_keys_def)
  let ?b = "b @ [Put ?k (encode_meta_val_internal tag (word_of_nat (card (dom h'))) v KEY_ENABLED_MASK)]"
  have put: ?thesis if "incr s key b mv n = (1, ?b, s)" "h' \<noteq> Map.empty"
  proof -
    let ?s = "s\<lparr>ldb := snd (db_Write R (ldb s) ?b)\<rparr>"
    have "coll_at tag (view (ldb ?s)) key v h'"
      using fin that(2) h' by (simp add: coll_at_def Write_view)
    moreover have "touches_only key ?m (view (ldb ?s))"
      using touches_only_batch [of ?b key ?m] item_batch_owned [OF ib] by (simp add: Write_view)
    ultimately show ?thesis using that ik
      by (intro exI [of _ ?s]) (simp add: commit_incr_def CommitBatch_view Let_def Write_view)
  qed
  have keep: ?thesis if "incr s key b mv n = (if h' = Map.empty then 0 else 1, b, s)"
    "if h' = Map.empty then \<exists>w. absent (apply_batch b ?m) key w else coll_at tag (apply_batch b ?m) key v h'"
    using that touches_only_batch [OF item_batch_owned [OF ib], of ?m]
    by (simp add: commit_incr_def CommitBatch_view Let_def Write_view)
  consider "n = 0" | "n \<noteq> 0" "h = Map.empty" | "n \<noteq> 0" "h \<noteq> Map.empty" "h' \<noteq> Map.empty"
    | "n \<noteq> 0" "h \<noteq> Map.empty" "h' = Map.empty" by blast
  then show ?thesis
  proof cases
    case 1
    then have same: "h' = Map.empty \<longleftrightarrow> h = Map.empty" "card (dom h') = card (dom h)"
      using n card0 by auto
    have "if h' = Map.empty then \<exists>w. absent (apply_batch b ?m) key w else coll_at tag (apply_batch b ?m) key v h'"
      using cur same h' fin item_batch_meta [OF ib] item_batch_absent [OF ib]
      by (auto simp: coll_cur_def coll_at_def)
    with 1 same len show ?thesis using keep by (auto simp: incr_same)
  next
    case 2
    then have "n = int (card (dom h'))" "h' \<noteq> Map.empty" "0 < n" using n card0 by auto
    then show ?thesis using put incr_first [of mv n s key b] len 2 ver by simp
  next
    case 3
    have eq: "mv_length mv + word_of_int n = word_of_nat (card (dom h'))"
      using n mv by (simp add: coll_meta_def)
    have "card (dom h') > 0" "card (dom h) > 0" using card0 3 by auto
    then have "incr s key b mv n = (1, ?b, s)"
      using incr_more [of mv n s key b] 3 len fin(2) n ver eq by (simp add: int64_def)
    then show ?thesis using put 3 by blast
  next
    case 4
    then have "n = - sint (mv_length mv)" "0 < sint (mv_length mv)" using n len card0 by auto
    from incr_last [OF this(2,1), of s key b] obtain x b' s' where
      c: "cancelExpiration R s key (b @ [Put (encode_delete_key key v) [],
        Put ?k (encode_meta_val_internal tag (mv_length mv) v KEY_DELETE_MASK)]) = (x, b', s')"
      "incr s key b mv n = (0, b', s')" using ver by auto
    note del = cancel_deleted [OF c(1), unfolded encode_meta_val_internal_def, of ?m tag v]
    have "apply_batch b' ?m x = apply_batch b ?m x" if "x \<in> item_keys key v" for x
      using ce.cancel_frame [of x R s key "b @ [Put (encode_delete_key key v) [],
        Put ?k (encode_meta_val_internal tag (mv_length mv) v KEY_DELETE_MASK)]" ?m] c(1) ik [OF that] by simp
    with c(2) 4 show ?thesis
      using del item_batch_owned [OF ib]
      by (auto simp: commit_incr_def CommitBatch_view Write_view Let_def)
  qed
qed

lemma commit_incr_rep:
  assumes "coll_cur tag (view (ldb s)) key v h" "coll_meta h v mv"
    "item_batch key v b" "item_map key v (apply_batch b (view (ldb s))) = h'"
    "finite (dom h')" "card (dom h') < 2 ^ 63" "n = int (card (dom h')) - int (card (dom h))"
  shows "\<exists>s'. commit_incr R (incr s key b mv n) = (if h' = Map.empty then 0 else 1, s') \<and>
    coll_rep tag (view (ldb s')) key h' \<and> touches_only key (view (ldb s)) (view (ldb s'))"
  using commit_incr_at [OF assms] by (auto simp: coll_rep_def split: if_splits)

end

end
