(* ===== verification/Strings.thy ===== *)
theory Strings
  imports Prelude
begin

text \<open>
  Decimal strings (\<^verbatim>\<open>src/src/util/strings.h\<close>): \<open>string2ll\<close> parses a 64-bit integer and \<open>str\<close>
  prints one. The counters of the string and hash types store integers in this form.
  The theorem shows that the parser accepts exactly the strings the printer produces.
\<close>

section \<open>Operations\<close>

fun dec_digits :: "nat \<Rightarrow> bytes" where
  "dec_digits n = (if n < 10 then [48 + word_of_nat n]
     else dec_digits (n div 10) @ [48 + word_of_nat (n mod 10)])"

declare dec_digits.simps [simp del]

text \<open>\<^verbatim>\<open>snprintf\<close> with \<^verbatim>\<open>PRId64\<close>; the buffer of 21 bytes holds every 64-bit integer.\<close>

definition str_int64 :: "int \<Rightarrow> bytes" where
  "str_int64 v = (if v < 0 then 45 # dec_digits (nat (- v)) else dec_digits (nat v))"

definition digit :: "byte \<Rightarrow> bool" where
  "digit c \<longleftrightarrow> 48 \<le> c \<and> c \<le> 57"

text \<open>The loop of \<^verbatim>\<open>string2ll\<close>: the value and the bytes not used, or nothing on overflow.\<close>

fun string2ll_loop :: "bytes \<Rightarrow> u64 \<Rightarrow> (u64 \<times> bytes) option" where
  "string2ll_loop [] v = Some (v, [])"
| "string2ll_loop (c # p) v =
     (if digit c then
        if v > UINT64_MAX div 10 then None
        else
          let v = v * 10 in
          if v > UINT64_MAX - ucast (c - 48) then None
          else string2ll_loop p (v + ucast (c - 48))
      else Some (v, c # p))"

definition string2ll :: "bytes \<Rightarrow> int option" where
  "string2ll s =
     (if s = [] then None
      else if length s = 1 \<and> s ! 0 = 48 then Some 0
      else
        let (negative, p) = (if s ! 0 = 45 then (True, tl s) else (False, s)) in
        if p = [] then None
        else if p ! 0 \<ge> 49 \<and> p ! 0 \<le> 57 then
          (case string2ll_loop (tl p) (ucast (p ! 0 - 48)) of
             None \<Rightarrow> None
           | Some (v, rest) \<Rightarrow>
               if rest \<noteq> [] then None
               else if negative then
                 if v > 9223372036854775808 then None else Some (sint (- v))
               else
                 if v > 9223372036854775807 then None else Some (sint v))
        else if p ! 0 = 48 \<and> length s = 1 then Some 0
        else None)"

section \<open>The value of a digit string\<close>

definition dval :: "nat \<Rightarrow> bytes \<Rightarrow> nat" where
  "dval a cs = fold (\<lambda>c a. a * 10 + (unat c - 48)) cs a"

lemma dval_simps [simp]: "dval a [] = a" "dval a (c # cs) = dval (a * 10 + (unat c - 48)) cs"
  "dval a (cs @ [c]) = dval a cs * 10 + (unat c - 48)"
  by (simp_all add: dval_def)

lemma digit_unat: "digit c \<longleftrightarrow> 48 \<le> unat c \<and> unat c \<le> 57"
  by (simp add: digit_def word_le_nat_alt)

lemma digit_value: "digit c \<Longrightarrow> unat (ucast (c - 48) :: u64) = unat c - 48"
  using unsigned_less [of "c - 48", where 'a = nat]
  by (auto simp: digit_unat unsigned_ucast_eq unat_sub word_le_nat_alt take_bit_nat_eq_self_iff)

lemma dval_ge: "a \<le> dval a cs"
proof (induction cs arbitrary: a)
  case (Cons c cs)
  from Cons [of "a * 10 + (unat c - 48)"] show ?case by simp
qed simp

lemma string2ll_loop_exact:
  "string2ll_loop cs v = Some (w, []) \<longleftrightarrow>
     (\<forall>c \<in> set cs. digit c) \<and> dval (unat v) cs < 2 ^ 64 \<and> unat w = dval (unat v) cs"
proof (induction cs arbitrary: v)
  case Nil
  then show ?case using unat_u64_less [of v] by (auto simp: word_unat_eq_iff)
next
  case (Cons c cs)
  show ?case
  proof (cases "digit c")
    case True
    let ?d = "ucast (c - 48) :: u64"
    define e where "e = unat c - 48"
    have d: "unat ?d = e" "e \<le> 9" using True digit_value by (auto simp: digit_unat e_def)
    have step: "dval (unat v) (c # cs) = dval (unat v * 10 + e) cs" by (simp add: e_def)
    have q: "v > UINT64_MAX div 10 \<longleftrightarrow> unat v > 1844674407370955161"
      by (simp add: word_less_nat_alt unat_div_distrib)
    show ?thesis
    proof (cases "unat v > 1844674407370955161")
      case True
      with q dval_ge [of "unat v * 10 + e" cs] \<open>digit c\<close> show ?thesis unfolding step by simp
    next
      case False
      then have m: "unat (v * 10) = unat v * 10" by (simp add: unat_word_ariths)
      have "unat (UINT64_MAX - ?d) = 18446744073709551615 - unat ?d"
        by (subst unat_sub) simp_all
      then have o: "v * 10 > UINT64_MAX - ?d \<longleftrightarrow> unat v * 10 + e \<ge> 18446744073709551616"
        unfolding word_less_nat_alt m using d by arith
      show ?thesis
      proof (cases "unat v * 10 + e \<ge> 18446744073709551616")
        case True
        with False q o dval_ge [of "unat v * 10 + e" cs] \<open>digit c\<close> show ?thesis
          unfolding step by simp
      next
        case no: False
        then have "unat (v * 10 + ?d) = unat v * 10 + e"
          using m d by (simp add: unat_word_ariths)
        with Cons.IH [of "v * 10 + ?d"] False q o no \<open>digit c\<close> show ?thesis
          unfolding step by simp
      qed
    qed
  qed simp
qed

section \<open>Printing and parsing\<close>

lemma digit_byte: "n < 10 \<Longrightarrow> unat (48 + word_of_nat n :: byte) = 48 + n"
  by (simp add: unat_word_ariths unat_of_nat)

lemma dec_digits_canonical:
  "\<exists>c cs. dec_digits n = c # cs \<and> digit c \<and> (\<forall>c \<in> set cs. digit c) \<and>
     dval (unat c - 48) cs = n \<and> (n > 0 \<longrightarrow> unat c \<noteq> 48) \<and> (n = 0 \<longrightarrow> c = 48 \<and> cs = [])"
proof (induction n rule: dec_digits.induct)
  case (1 n)
  show ?case
  proof (cases "n < 10")
    case True
    then show ?thesis
      using digit_byte [of n] by (auto simp: dec_digits.simps [of n] digit_unat)
  next
    case False
    let ?d = "48 + word_of_nat (n mod 10) :: byte"
    from 1 [OF False] False obtain c cs where
      "dec_digits (n div 10) = c # cs" "digit c" "\<forall>c \<in> set cs. digit c"
      "dval (unat c - 48) cs = n div 10" "unat c \<noteq> 48" by (auto simp: div_greater_zero_iff)
    moreover have "unat ?d = 48 + n mod 10" by (rule digit_byte) simp
    ultimately show ?thesis
      using False by (auto simp: dec_digits.simps [of n] digit_unat)
  qed
qed

lemma dec_digits_dval:
  assumes "digit c" "unat c \<noteq> 48" "\<forall>c \<in> set cs. digit c"
  shows "dec_digits (dval (unat c - 48) cs) = c # cs \<and> dval (unat c - 48) cs > 0"
  using assms(3)
proof (induction cs rule: rev_induct)
  case Nil
  then show ?case
    using assms by (auto simp: dec_digits.simps [of "unat c - 48"] digit_unat of_nat_diff)
next
  case (snoc d cs)
  let ?n = "dval (unat c - 48) cs"
  from snoc have IH: "dec_digits ?n = c # cs" "?n > 0" by auto
  have d: "48 \<le> unat d" "unat d \<le> 57" using snoc by (auto simp: digit_unat)
  then have "unat d - 48 < 10" by arith
  then have "(?n * 10 + (unat d - 48)) div 10 = ?n" "(?n * 10 + (unat d - 48)) mod 10 = unat d - 48"
    by (simp_all only: div_mult_self3 mod_mult_self3 mod_less div_less)
  then have "dec_digits (?n * 10 + (unat d - 48)) = dec_digits ?n @ [48 + word_of_nat (unat d - 48)]"
    using IH(2) by (subst dec_digits.simps) simp
  moreover have "48 + word_of_nat (unat d - 48) = d" using d by (simp add: of_nat_diff)
  ultimately show ?case using IH by simp
qed

lemma sint_small: "uint (v :: u64) \<le> 9223372036854775807 \<Longrightarrow> sint v = uint v"
  using sint_word_of_int64 [of "uint v"] uint_ge_0 [of v] by (simp add: int64_def)

lemma sint_neg_small: "uint (v :: u64) \<le> 9223372036854775808 \<Longrightarrow> sint (- v) = - uint v"
  using sint_word_of_int64 [of "- uint v"] uint_ge_0 [of v] by (simp add: int64_def)

lemma first_digit: "c \<ge> 49 \<and> c \<le> 57 \<longleftrightarrow> digit c \<and> unat c \<noteq> (48 :: nat)"
  by (auto simp: digit_unat word_le_nat_alt)

text \<open>The digits after the sign: exactly the canonical forms of positive numbers.\<close>

lemma string2ll_loop_dec:
  "(c \<ge> 49 \<and> c \<le> 57) \<and> string2ll_loop cs (ucast (c - 48)) = Some (v, []) \<longleftrightarrow>
   unat v > 0 \<and> c # cs = dec_digits (unat v)" (is "?l \<longleftrightarrow> ?r")
proof
  assume l: ?l
  then have c: "digit c" "unat c \<noteq> 48" by (auto simp: first_digit)
  with l have "\<forall>c \<in> set cs. digit c" "unat v = dval (unat c - 48) cs"
    by (simp_all add: string2ll_loop_exact digit_value)
  with dec_digits_dval [OF c] show ?r by simp
next
  assume ?r
  with dec_digits_canonical [of "unat v"]
  have c: "digit c" "\<forall>c \<in> set cs. digit c" "dval (unat c - 48) cs = unat v" "unat c \<noteq> 48"
    by auto
  then show ?l
    using unat_u64_less [of v] by (simp add: string2ll_loop_exact digit_value first_digit)
qed

lemma dec_digits_hd: "\<exists>c cs. dec_digits n = c # cs \<and> c \<noteq> 45 \<and> (n > 0 \<longrightarrow> c \<noteq> 48)"
  using dec_digits_canonical [of n] by (fastforce simp: digit_unat)

lemma dec_digits_0: "dec_digits 0 = [48]"
  by (simp add: dec_digits.simps)

lemma string2ll_iff: "string2ll s = Some x \<longleftrightarrow> int64 x \<and> s = str_int64 x"
proof
  assume s: "string2ll s = Some x"
  consider "s = [48]" | c cs v where "s = 45 # c # cs" "(c \<ge> 49 \<and> c \<le> 57)"
      "string2ll_loop cs (ucast (c - 48)) = Some (v, [])" "\<not> v > 9223372036854775808" "x = sint (- v)"
    | c cs v where "s = c # cs" "(c \<ge> 49 \<and> c \<le> 57)"
      "string2ll_loop cs (ucast (c - 48)) = Some (v, [])" "\<not> v > 9223372036854775807" "x = sint v"
    using s by (cases s; cases "tl s")
      (auto simp: string2ll_def Let_def split: if_splits option.splits prod.splits)
  then show "int64 x \<and> s = str_int64 x"
  proof cases
    case 1
    with s show ?thesis by (simp add: string2ll_def int64_def str_int64_def dec_digits_0)
  next
    case (2 c cs v)
    then have "uint v \<le> 9223372036854775808" by (simp add: word_less_def)
    moreover have d: "0 < unat v" "c # cs = dec_digits (unat v)"
      using 2 string2ll_loop_dec [of c cs v] by auto
    then have "0 < uint v" by (metis unat_eq_nat_uint zero_less_nat_eq)
    ultimately show ?thesis using 2 d(2) sint_neg_small [of v]
      by (simp add: str_int64_def int64_def)
  next
    case (3 c cs v)
    then have "uint v \<le> 9223372036854775807" by (simp add: word_less_def)
    moreover have d: "c # cs = dec_digits (unat v)"
      using 3 string2ll_loop_dec [of c cs v] by auto
    moreover have "int64 x" using 3 by simp
    ultimately show ?thesis using 3 sint_small [of v] by (simp add: str_int64_def)
  qed
next
  assume x: "int64 x \<and> s = str_int64 x"
  let ?v = "word_of_int \<bar>x\<bar> :: u64"
  have u: "uint ?v = \<bar>x\<bar>" using x by (auto simp: int64_def uint_word_of_int intro!: mod_pos_pos_trivial)
  then have v: "unat ?v = nat \<bar>x\<bar>" by (simp add: unat_eq_nat_uint)
  consider "x = 0" | "x > 0" | "x < 0" by linarith
  then show "string2ll s = Some x"
  proof cases
    case 1
    with x show ?thesis by (simp add: str_int64_def dec_digits_0 string2ll_def)
  next
    case 2
    from dec_digits_hd [of "nat x"] obtain c cs where c: "dec_digits (nat x) = c # cs" "c \<noteq> 45" "c \<noteq> 48"
      using 2 by auto
    with string2ll_loop_dec [of c cs ?v] v 2 have "(c \<ge> 49 \<and> c \<le> 57)"
      "string2ll_loop cs (ucast (c - 48)) = Some (?v, [])" by auto
    with c x 2 u sint_small [of ?v] show ?thesis
      by (auto simp: string2ll_def str_int64_def word_less_def int64_def)
  next
    case 3
    from dec_digits_hd [of "nat (- x)"] obtain c cs where c: "dec_digits (nat (- x)) = c # cs" by auto
    with string2ll_loop_dec [of c cs ?v] v 3 have "(c \<ge> 49 \<and> c \<le> 57)"
      "string2ll_loop cs (ucast (c - 48)) = Some (?v, [])" by auto
    with c x 3 u sint_neg_small [of ?v] show ?thesis
      by (auto simp: string2ll_def str_int64_def word_less_def int64_def)
  qed
qed

section \<open>Properties\<close>

text \<open>
  C28: Integers round trip through their decimal form, and the parser is strict: it
  accepts exactly the strings that \<open>str\<close> prints for 64-bit integers (no leading zeros, no
  plus sign, no \<open>-0\<close>, no blanks, nothing out of range).
\<close>

theorem string2ll_exact: "string2ll s = Some x \<longleftrightarrow> int64 x \<and> s = str_int64 x"
  by (rule string2ll_iff)

end
