(* ===== verification/THash.thy ===== *)
theory THash
  imports Collection Strings
begin

text \<open>
  The hash type, \<^verbatim>\<open>src/src/storage/t_hash.cpp\<close> and \<^verbatim>\<open>t_hash.h\<close>. A hash is a meta value with
  the number of fields and one item per field. The abstract value of a key is a finite map
  from fields to values (\<open>hash_rep\<close>); every operation is shown to implement its effect on
  that map. \<^verbatim>\<open>hincrbyfloat\<close> computes on long doubles and is not modelled; \<^verbatim>\<open>hscan\<close> works on
  the cursor service and is left out with it.
\<close>

section \<open>Operations\<close>

definition GetHashMetaVal :: "('db, 'it) rocksdb \<Rightarrow> 'db ssdb \<Rightarrow> bytes \<Rightarrow> int \<times> MetaVal" where
  "GetHashMetaVal R s meta_key =
     (let hv = MetaVal_init in
      case db_Get R (ldb s) meta_key of
        GetNotFound \<Rightarrow>
          (0, hv\<lparr>mv_length := 0, mv_del := KEY_ENABLED_MASK, mv_type := HSIZE, mv_version := 0\<rparr>)
      | GetError \<Rightarrow> (STORAGE_ERR, hv)
      | GetOk meta_val \<Rightarrow>
          (case DecodeMetaVal meta_val hv of (ret, hv) \<Rightarrow>
             if ret < 0 then (ret, hv)
             else if mv_del hv = KEY_DELETE_MASK then
               (0, hv\<lparr>mv_version := next_version (mv_version hv), mv_length := 0,
                      mv_del := KEY_ENABLED_MASK\<rparr>)
             else if mv_type hv \<noteq> HSIZE then (WRONG_TYPE_ERR, hv)
             else (1, hv)))"

definition GetHashItemValInternal :: "('db, 'it) rocksdb \<Rightarrow> 'db ssdb \<Rightarrow> bytes \<Rightarrow> int \<times> bytes" where
  "GetHashItemValInternal R s item_key =
     (case db_Get R (ldb s) item_key of
        GetNotFound \<Rightarrow> (0, []) | GetError \<Rightarrow> (STORAGE_ERR, []) | GetOk val \<Rightarrow> (1, val))"

definition incr_hsize ::
  "('db, 'it) rocksdb \<Rightarrow> 'db ssdb \<Rightarrow> bytes \<Rightarrow> batch \<Rightarrow> bytes \<Rightarrow> MetaVal \<Rightarrow> int \<Rightarrow> int \<times> batch \<times> 'db ssdb" where
  "incr_hsize R s name batch size_key hv incr =
     (if mv_length hv = 0 then
        if incr > 0 then
          let meta_val = encode_hash_meta_val (word_of_int incr) (mv_version hv) KEY_ENABLED_MASK
          in (1, batch @ [Put size_key meta_val], s)
        else if incr = 0 then (0, batch, s)
        else (INVALID_INCR_LEN, batch, s)
      else if incr = 0 then (1, batch, s)
      else if incr < 0 \<and> mv_length hv < word_of_int (- incr) then (INVALID_INCR_LEN, batch, s)
      else
        let len = (if incr > 0 then mv_length hv + word_of_int incr
                   else mv_length hv - word_of_int (- incr))
        in if len = 0 then
             let del_key = encode_delete_key name (mv_version hv);
                 meta_val = encode_hash_meta_val (mv_length hv) (mv_version hv) KEY_DELETE_MASK;
                 batch = batch @ [Put del_key [], Put size_key meta_val]
             in case cancelExpiration R s name batch of (_, batch, s) \<Rightarrow> (0, batch, s)
           else
             let meta_val = encode_hash_meta_val len (mv_version hv) KEY_ENABLED_MASK
             in (1, batch @ [Put size_key meta_val], s))"

definition hset_one ::
  "('db, 'it) rocksdb \<Rightarrow> 'db ssdb \<Rightarrow> batch \<Rightarrow> MetaVal \<Rightarrow> bool \<Rightarrow> bytes \<Rightarrow> bytes \<Rightarrow> bytes \<Rightarrow> int \<times> batch" where
  "hset_one R s batch hv check_exists name key val =
     (let hkey = encode_hash_key name key (mv_version hv) in
      if check_exists then
        (case GetHashItemValInternal R s hkey of (ret, dbval) \<Rightarrow>
           if ret < 0 then (ret, batch)
           else if ret = 0 then (1, batch @ [Put hkey val])
           else (0, if dbval \<noteq> val then batch @ [Put hkey val] else batch))
      else (1, batch @ [Put hkey val]))"

text \<open>
  \<^verbatim>\<open>hsetCommon\<close> tests \<^verbatim>\<open>added < 0\<close> on the pointer \<^verbatim>\<open>added\<close> instead of the number it points
  to; the test is never true, and an error of \<^verbatim>\<open>hset_one\<close> reaches the counter.
\<close>

definition hsetCommon ::
  "('db, 'it) rocksdb \<Rightarrow> 'db ssdb \<Rightarrow> bytes \<Rightarrow> bytes \<Rightarrow> bytes \<Rightarrow> int \<Rightarrow> bool \<Rightarrow> int \<times> int \<times> 'db ssdb" where
  "hsetCommon R s name key val added nx =
     (let meta_key = encode_meta_key name in
      case GetHashMetaVal R s meta_key of (ret, hv) \<Rightarrow>
        if ret < 0 then (ret, added, s)
        else
          let probe = (if nx \<and> ret = 1
                       then fst (GetHashItemValInternal R s (encode_hash_key name key (mv_version hv)))
                       else 0)
          in if probe = 1 then (1, 0, s)
             else if probe < 0 then (probe, added, s)
             else
               (case hset_one R s [] hv (\<not> nx) name key val of (added, batch) \<Rightarrow>
                  case commit_incr R (incr_hsize R s name batch meta_key hv added) of
                    (ret, s) \<Rightarrow> (ret, added, s)))"

definition hset :: "('db, 'it) rocksdb \<Rightarrow> 'db ssdb \<Rightarrow> bytes \<Rightarrow> bytes \<Rightarrow> bytes \<Rightarrow> int \<Rightarrow> int \<times> int \<times> 'db ssdb" where
  "hset R s name key val added = hsetCommon R s name key val added False"

definition hsetnx :: "('db, 'it) rocksdb \<Rightarrow> 'db ssdb \<Rightarrow> bytes \<Rightarrow> bytes \<Rightarrow> bytes \<Rightarrow> int \<Rightarrow> int \<times> int \<times> 'db ssdb" where
  "hsetnx R s name key val added = hsetCommon R s name key val added True"

text \<open>
  A \<^verbatim>\<open>std::map\<close> of fields and values is an association list in ascending order of the
  fields, a \<^verbatim>\<open>std::set\<close> an ascending list.
\<close>

fun hmset_loop ::
  "('db, 'it) rocksdb \<Rightarrow> 'db ssdb \<Rightarrow> MetaVal \<Rightarrow> bool \<Rightarrow> bytes \<Rightarrow> (bytes \<times> bytes) list \<Rightarrow> int \<Rightarrow> batch \<Rightarrow>
     int \<times> int \<times> batch" where
  "hmset_loop R s hv check_exists name [] n_added batch = (0, n_added, batch)"
| "hmset_loop R s hv check_exists name ((key, val) # kvs) n_added batch =
     (case hset_one R s batch hv check_exists name key val of (added, batch) \<Rightarrow>
        if added < 0 then (added, n_added, batch)
        else hmset_loop R s hv check_exists name kvs (if added > 0 then n_added + added else n_added) batch)"

definition hmsetNoLock ::
  "('db, 'it) rocksdb \<Rightarrow> 'db ssdb \<Rightarrow> bytes \<Rightarrow> (bytes \<times> bytes) list \<Rightarrow> bool \<Rightarrow> int \<times> 'db ssdb" where
  "hmsetNoLock R s name kvs check_exists =
     (let meta_key = encode_meta_key name in
      case GetHashMetaVal R s meta_key of (ret, hv) \<Rightarrow>
        if ret < 0 then (ret, s)
        else
          (case hmset_loop R s hv check_exists name kvs 0 [] of (err, n_added, batch) \<Rightarrow>
             if err < 0 then (err, s)
             else commit_incr R (incr_hsize R s name batch meta_key hv n_added)))"

definition hmset :: "('db, 'it) rocksdb \<Rightarrow> 'db ssdb \<Rightarrow> bytes \<Rightarrow> (bytes \<times> bytes) list \<Rightarrow> int \<times> 'db ssdb" where
  "hmset R s name kvs = hmsetNoLock R s name kvs True"

fun hdel_loop ::
  "('db, 'it) rocksdb \<Rightarrow> 'db ssdb \<Rightarrow> MetaVal \<Rightarrow> bytes \<Rightarrow> bytes list \<Rightarrow> int \<Rightarrow> batch \<Rightarrow> int \<times> int \<times> batch" where
  "hdel_loop R s hv name [] deleted batch = (0, deleted, batch)"
| "hdel_loop R s hv name (key # flds) deleted batch =
     (let hkey = encode_hash_key name key (mv_version hv) in
      case GetHashItemValInternal R s hkey of (ret, _) \<Rightarrow>
        if ret < 0 then (ret, deleted, batch)
        else if ret = 1 then hdel_loop R s hv name flds (deleted + 1) (batch @ [Delete hkey])
        else hdel_loop R s hv name flds deleted batch)"

definition hdel ::
  "('db, 'it) rocksdb \<Rightarrow> 'db ssdb \<Rightarrow> bytes \<Rightarrow> bytes list \<Rightarrow> int \<Rightarrow> int \<times> int \<times> 'db ssdb" where
  "hdel R s name flds deleted =
     (let meta_key = encode_meta_key name in
      case GetHashMetaVal R s meta_key of (ret, hv) \<Rightarrow>
        if ret \<noteq> 1 then (ret, deleted, s)
        else
          (case hdel_loop R s hv name flds deleted [] of (err, deleted, batch) \<Rightarrow>
             if err < 0 then (err, deleted, s)
             else (case commit_incr R (incr_hsize R s name batch meta_key hv (- deleted)) of
                     (ret, s) \<Rightarrow> (ret, deleted, s))))"

text \<open>
  \<^verbatim>\<open>hincrCommon\<close> takes the arithmetic as a lambda: from the old value and whether there is
  one it appends to the batch and returns 1, or a negative error.
\<close>

definition hincrCommon ::
  "('db, 'it) rocksdb \<Rightarrow> 'db ssdb \<Rightarrow> bytes \<Rightarrow> bytes \<Rightarrow>
     (batch \<Rightarrow> MetaVal \<Rightarrow> bytes \<Rightarrow> int \<Rightarrow> int \<times> 'v \<times> batch) \<Rightarrow> 'v \<Rightarrow> int \<times> 'v \<times> 'db ssdb" where
  "hincrCommon R s name key lambda new_val =
     (let meta_key = encode_meta_key name in
      case GetHashMetaVal R s meta_key of (ret, hv) \<Rightarrow>
        if ret < 0 then (ret, new_val, s)
        else
          (case (if ret > 0 then GetHashItemValInternal R s (encode_hash_key name key (mv_version hv))
                 else (ret, [])) of (ret, old) \<Rightarrow>
             if ret < 0 then (ret, new_val, s)
             else
               (case lambda [] hv old ret of (added, new_val, batch) \<Rightarrow>
                  if added < 0 then (added, new_val, s)
                  else
                    let added = (if ret = 1 then 0 else added)
                    in case commit_incr R (incr_hsize R s name batch meta_key hv added) of
                         (ret, s) \<Rightarrow> (ret, new_val, s))))"

definition hincr ::
  "('db, 'it) rocksdb \<Rightarrow> 'db ssdb \<Rightarrow> bytes \<Rightarrow> bytes \<Rightarrow> int \<Rightarrow> int \<Rightarrow> int \<times> int \<times> 'db ssdb" where
  "hincr R s name key by new_val =
     hincrCommon R s name key
       (\<lambda>batch hv old ret.
          let store = (\<lambda>new_val. case hset_one R s batch hv False name key (str_int64 new_val) of
                         (added, batch) \<Rightarrow> (added, new_val, batch))
          in if ret = 0 then store by
             else
               (case string2ll old of
                  None \<Rightarrow> (INVALID_INT, new_val, batch)
                | Some oldvalue \<Rightarrow>
                    if by < 0 \<and> oldvalue < 0 \<and> by < INT64_MIN - oldvalue \<or>
                       by > 0 \<and> oldvalue > 0 \<and> by > INT64_MAX - oldvalue
                    then (INT_OVERFLOW, new_val, batch)
                    else store (oldvalue + by)))
       new_val"

definition hsize :: "('db, 'it) rocksdb \<Rightarrow> 'db ssdb \<Rightarrow> bytes \<Rightarrow> u64 \<Rightarrow> int \<times> u64" where
  "hsize R s name sz =
     (case GetHashMetaVal R s (encode_meta_key name) of (ret, hv) \<Rightarrow>
        if ret \<noteq> 1 then (ret, sz) else (1, mv_length hv))"

fun hmget_loop ::
  "('db, 'it) rocksdb \<Rightarrow> 'db ssdb \<Rightarrow> MetaVal \<Rightarrow> bytes \<Rightarrow> bytes list \<Rightarrow> contents \<Rightarrow> int \<times> contents" where
  "hmget_loop R s hv name [] resMap = (1, resMap)"
| "hmget_loop R s hv name (reqKey # reqKeys) resMap =
     (case GetHashItemValInternal R s (encode_hash_key name reqKey (mv_version hv)) of (ret, val) \<Rightarrow>
        if ret = 1 then hmget_loop R s hv name reqKeys (resMap(reqKey \<mapsto> val))
        else if ret = 0 then hmget_loop R s hv name reqKeys resMap
        else (ret, resMap))"

definition hmget :: "('db, 'it) rocksdb \<Rightarrow> 'db ssdb \<Rightarrow> bytes \<Rightarrow> bytes list \<Rightarrow> contents \<Rightarrow> int \<times> contents" where
  "hmget R s name reqKeys resMap =
     (case GetHashMetaVal R s (encode_meta_key name) of (ret, hv) \<Rightarrow>
        if ret \<noteq> 1 then (ret, resMap) else hmget_loop R s hv name reqKeys resMap)"

definition hget :: "('db, 'it) rocksdb \<Rightarrow> 'db ssdb \<Rightarrow> bytes \<Rightarrow> bytes \<Rightarrow> bytes \<times> bool \<Rightarrow> int \<times> bytes \<times> bool" where
  "hget R s name key val =
     (case GetHashMetaVal R s (encode_meta_key name) of (ret, hv) \<Rightarrow>
        if ret \<noteq> 1 then (ret, val)
        else
          (case GetHashItemValInternal R s (encode_hash_key name key (mv_version hv)) of (ret, x) \<Rightarrow>
             if ret = 0 then (1, fst val, False)
             else if ret > 0 then (1, x, True)
             else (1, fst val, snd val)))"

definition hscan_internal :: "('db, 'it) rocksdb \<Rightarrow> 'db ssdb \<Rightarrow> bytes \<Rightarrow> u16 \<Rightarrow> 'it HIterator" where
  "hscan_internal R s name version =
     HIterator_init (SSDB_iterator R (ldb s) (encode_hash_key name [] version) [] UINT64_MAX) name version"

function hgetall_loop ::
  "('db, 'it) rocksdb \<Rightarrow> 'it HIterator \<Rightarrow> bool \<Rightarrow> bool \<Rightarrow> bytes list \<Rightarrow> bytes list" where
  "hgetall_loop R it save_key save_value list =
     (case HIterator_next R it of
        (False, _) \<Rightarrow> list
      | (True, it) \<Rightarrow>
          hgetall_loop R it save_key save_value
            (list @ (if save_key then [h_key it] else []) @ (if save_value then [h_val it] else [])))"
  by pat_completeness auto
termination
  by (relation "measure (\<lambda>(R, it, _, _, _). unat (iter_limit (h_it it)))")
    (auto dest: HIterator_next_limit [OF sym])

declare hgetall_loop.simps [simp del]

definition hgetall ::
  "('db, 'it) rocksdb \<Rightarrow> 'db ssdb \<Rightarrow> bytes \<Rightarrow> bool \<Rightarrow> bool \<Rightarrow> int \<times> bytes list" where
  "hgetall R s name save_key save_value =
     (case GetHashMetaVal R s (encode_meta_key name) of (ret, hv) \<Rightarrow>
        if ret \<noteq> 1 then (ret, [])
        else (1, hgetall_loop R (hscan_internal R s name (mv_version hv)) save_key save_value []))"

section \<open>Hashes are collections\<close>

abbreviation hash_rep :: "contents \<Rightarrow> bytes \<Rightarrow> contents \<Rightarrow> bool" where
  "hash_rep \<equiv> coll_rep HSIZE"

sublocale rocksdb_healthy \<subseteq> hc: collection R view HSIZE "GetHashMetaVal R"
    "\<lambda>s key b mv n. incr_hsize R s key b (encode_meta_key key) mv n"
proof (unfold_locales, goal_cases)
  case (1 s key w)
  then show ?case
    by (auto simp: absent_def GetHashMetaVal_def Get_view Let_def coll_meta_def DecodeMetaVal_deleted)
next
  case (2 s key v h)
  then show ?case
    by (auto simp: coll_at_def GetHashMetaVal_def Get_view Let_def coll_meta_def DecodeMetaVal_encode)
next
  case (3 mv n s key b)
  then show ?case by (simp add: incr_hsize_def encode_hash_meta_val_def)
next
  case (4 s key b mv)
  then show ?case by (simp add: incr_hsize_def)
next
  case (5 mv n s key b)
  from counter_arith [OF 5(4,2,3,5)] 5(1,2) show ?case
    by (simp add: incr_hsize_def encode_hash_meta_val_def Let_def)
next
  case (6 mv n s key b)
  from counter_arith_0 [OF 6] 6 show ?case
    by (auto simp: incr_hsize_def encode_hash_meta_val_def Let_def split: prod.splits)
qed

section \<open>Effect of the operations\<close>

lemma item_map_hash [simp]:
  "item_map name v (m(encode_hash_key name f v \<mapsto> x)) = (item_map name v m)(f \<mapsto> x)"
  "item_map name v (m(encode_hash_key name f v := None)) = (item_map name v m)(f := None)"
  by (simp_all add: encode_hash_key_def)

lemma item_batch_hash [simp]:
  "encode_hash_key name f v \<in> item_keys name v"
  by (simp add: encode_hash_key_def)

context rocksdb_healthy
begin

lemma GetHashItemVal_view:
  "GetHashItemValInternal R s (encode_hash_key name f v) =
     (case item_map name v (view (ldb s)) f of None \<Rightarrow> (0, []) | Some x \<Rightarrow> (1, x))"
  by (simp add: GetHashItemValInternal_def Get_view item_map_def encode_hash_key_def split: option.splits)

text \<open>One field: what \<open>hset_one\<close> appends to a batch, and what it reports.\<close>

lemma hset_one_item:
  assumes "mv_version hv = v" "item_batch name v b"
    "item_map name v (apply_batch b (view (ldb s))) f = item_map name v (view (ldb s)) f"
  shows "\<exists>b'. hset_one R s b hv c name f x =
      (if c \<and> f \<in> dom (item_map name v (view (ldb s))) then 0 else 1, b') \<and>
    item_batch name v b' \<and>
    item_map name v (apply_batch b' (view (ldb s))) =
      (item_map name v (apply_batch b (view (ldb s))))(f \<mapsto> x)"
  using assms
  by (auto simp: hset_one_def Let_def GetHashItemVal_view fun_upd_idem split: option.splits)

lemma hset_rep:
  assumes rep: "hash_rep (view (ldb s)) name h" "h = Map.empty \<longrightarrow> fresh (view (ldb s)) name"
    and len: "Suc (card (dom h)) < 2 ^ 63" and nx: "nx \<longrightarrow> f \<notin> dom h"
  shows "\<exists>s'. hsetCommon R s name f x a nx = (1, if f \<in> dom h then 0 else 1, s') \<and>
    hash_rep (view (ldb s')) name (h(f \<mapsto> x)) \<and> touches_only name (view (ldb s)) (view (ldb s'))"
proof -
  obtain v where cur: "coll_cur HSIZE (view (ldb s)) name v h"
    using coll_rep_cur [OF rep] by blast
  note hD = coll_curD [OF cur]
  from hc.get_cur [OF cur] obtain hv where
    hv: "GetHashMetaVal R s (encode_meta_key name) = (if h = Map.empty then 0 else 1, hv)"
      "coll_meta h v hv" by blast
  then have ver: "mv_version hv = v" by (simp add: coll_meta_def)
  let ?n = "if \<not> nx \<and> f \<in> dom h then 0 else 1 :: int"
  from hset_one_item [OF ver, of name "[]" s f "\<not> nx" x] hD(3) obtain b where
    b: "hset_one R s [] hv (\<not> nx) name f x = (?n, b)"
      "item_batch name v b" "item_map name v (apply_batch b (view (ldb s))) = h(f \<mapsto> x)" by auto
  have n: "?n = int (card (dom (h(f \<mapsto> x)))) - int (card (dom h))"
    using hD(1) nx by (auto simp: card_insert_if)
  have "finite (dom (h(f \<mapsto> x)))" "card (dom (h(f \<mapsto> x))) < 2 ^ 63"
    using hD(1) len by (auto simp: card_insert_if)
  from hc.commit_incr_rep [OF cur hv(2) b(2,3) this n] show ?thesis
    using b(1) hv(1) ver nx hD(3)
    by (auto simp: hsetCommon_def Let_def GetHashItemVal_view split: option.splits)
qed

lemma hsetnx_existing:
  assumes "hash_rep (view (ldb s)) name h" "f \<in> dom h"
  shows "hsetCommon R s name f x a True = (1, 0, s)"
proof -
  from assms obtain v where at: "coll_at HSIZE (view (ldb s)) name v h"
    using coll_rep_nonempty by fastforce
  with hc.get_at [OF at] assms(2) show ?thesis
    by (auto simp: hsetCommon_def Let_def GetHashItemVal_view coll_meta_def coll_at_def)
qed

subsection \<open>Several fields\<close>

lemma hmset_loop_items:
  assumes "mv_version hv = v" "item_map name v (view (ldb s)) = h" "distinct (map fst kvs)"
    "item_batch name v b" "item_map name v (apply_batch b (view (ldb s))) = g"
    "\<And>k. k \<in> fst ` set kvs \<Longrightarrow> g k = h k"
  shows "\<exists>b'. hmset_loop R s hv True name kvs a b = (0, a + int (card (fst ` set kvs - dom h)), b') \<and>
    item_batch name v b' \<and> item_map name v (apply_batch b' (view (ldb s))) = g ++ map_of kvs"
  using assms(3-6)
proof (induction kvs arbitrary: a b g)
  case (Cons kv kvs)
  obtain f x where kv: "kv = (f, x)" by force
  have same: "item_map name v (apply_batch b (view (ldb s))) f = item_map name v (view (ldb s)) f"
    using Cons.prems(3,4) assms(2) by (simp add: kv)
  from hset_one_item [OF assms(1) Cons.prems(2) same, of True x] obtain b1 where
    b1: "hset_one R s b hv True name f x = (if f \<in> dom h then 0 else 1, b1)"
      "item_batch name v b1" "item_map name v (apply_batch b1 (view (ldb s))) = g(f \<mapsto> x)"
    using assms(2) Cons.prems(3) by auto
  have eq: "\<And>k. k \<in> fst ` set kvs \<Longrightarrow> (g(f \<mapsto> x)) k = h k"
    using Cons.prems(1,4) by (auto simp: kv)
  have d: "distinct (map fst kvs)" "f \<notin> fst ` set kvs" using Cons.prems(1) by (auto simp: kv)
  let ?a = "if f \<in> dom h then a else a + 1"
  from Cons.IH [OF d(1) b1(2,3) eq, of ?a] obtain b2 where
    b2: "hmset_loop R s hv True name kvs ?a b1 = (0, ?a + int (card (fst ` set kvs - dom h)), b2)"
      "item_batch name v b2"
      "item_map name v (apply_batch b2 (view (ldb s))) = g(f \<mapsto> x) ++ map_of kvs" by blast
  have e1: "?a + int (card (fst ` set kvs - dom h)) = a + int (card (fst ` set (kv # kvs) - dom h))"
    using d(2) by (auto simp: kv insert_Diff_if)
  have "map_of kvs f = None" using d(2) by (simp add: map_of_eq_None_iff)
  then have e2: "g(f \<mapsto> x) ++ map_of kvs = g ++ map_of (kv # kvs)"
    by (auto simp: kv map_add_def fun_eq_iff split: option.splits)
  have loop: "hmset_loop R s hv True name (kv # kvs) a b = hmset_loop R s hv True name kvs ?a b1"
    by (simp add: kv b1(1))
  from b2 [unfolded e1 e2] show ?case unfolding loop by blast
qed simp

lemma hmset_rep:
  assumes rep: "hash_rep (view (ldb s)) name h" "h = Map.empty \<longrightarrow> fresh (view (ldb s)) name"
    and kvs: "distinct (map fst kvs)" and len: "card (dom h) + length kvs < 2 ^ 63"
  shows "\<exists>s'. hmset R s name kvs = (if h ++ map_of kvs = Map.empty then 0 else 1, s') \<and>
    hash_rep (view (ldb s')) name (h ++ map_of kvs) \<and> touches_only name (view (ldb s)) (view (ldb s'))"
proof -
  obtain v where cur: "coll_cur HSIZE (view (ldb s)) name v h"
    using coll_rep_cur [OF rep] by blast
  note hD = coll_curD [OF cur]
  from hc.get_cur [OF cur] obtain hv where
    hv: "GetHashMetaVal R s (encode_meta_key name) = (if h = Map.empty then 0 else 1, hv)"
      "coll_meta h v hv" by blast
  then have ver: "mv_version hv = v" by (simp add: coll_meta_def)
  have h0: "item_map name v (apply_batch [] (view (ldb s))) = h" using hD(3) by simp
  from hmset_loop_items [OF ver hD(3) kvs _ h0, of 0] obtain b where
    b: "hmset_loop R s hv True name kvs 0 [] = (0, int (card (fst ` set kvs - dom h)), b)"
      "item_batch name v b" "item_map name v (apply_batch b (view (ldb s))) = h ++ map_of kvs" by auto
  let ?K = "fst ` set kvs"
  have dom: "dom (h ++ map_of kvs) = ?K \<union> dom h" by (simp add: dom_map_of_conv_image_fst)
  have "card (?K \<union> dom h) = card (?K - dom h) + card (dom h)"
    using card_Un_disjoint [of "?K - dom h" "dom h"] hD(1) by (simp add: Un_Diff_cancel2 Int_commute)
  then have n: "int (card (?K - dom h)) = int (card (dom (h ++ map_of kvs))) - int (card (dom h))"
    unfolding dom by simp
  have "card (?K - dom h) \<le> card ?K" by (intro card_mono) auto
  also have "card ?K \<le> length kvs" using card_image_le [of "set kvs" fst] card_length [of kvs] by simp
  finally have "card (?K - dom h) \<le> length kvs" .
  then have "finite (dom (h ++ map_of kvs))" "card (dom (h ++ map_of kvs)) < 2 ^ 63"
    using hD(1) len n by (auto simp: finite_dom_map_of)
  from hc.commit_incr_rep [OF cur hv(2) b(2,3) this n] show ?thesis
    using b(1) hv(1) by (auto simp: hmset_def hmsetNoLock_def Let_def)
qed

lemma hdel_loop_items:
  assumes "mv_version hv = v" "item_map name v (view (ldb s)) = h" "distinct flds"
    "item_batch name v b" "item_map name v (apply_batch b (view (ldb s))) = g"
  shows "\<exists>b'. hdel_loop R s hv name flds a b = (0, a + int (card (set flds \<inter> dom h)), b') \<and>
    item_batch name v b' \<and> item_map name v (apply_batch b' (view (ldb s))) = g |` (- (set flds \<inter> dom h))"
  using assms(3-5)
proof (induction flds arbitrary: a b g)
  case (Cons f flds)
  show ?case
  proof (cases "f \<in> dom h")
    case True
    let ?b = "b @ [Delete (encode_hash_key name f v)]"
    have "item_map name v (apply_batch ?b (view (ldb s))) = g(f := None)" "item_batch name v ?b"
      using Cons.prems by auto
    moreover have "distinct flds" using Cons.prems(1) by simp
    ultimately obtain b' where
      "hdel_loop R s hv name flds (a + 1) ?b = (0, a + 1 + int (card (set flds \<inter> dom h)), b')"
      "item_batch name v b'"
      "item_map name v (apply_batch b' (view (ldb s))) = g(f := None) |` (- (set flds \<inter> dom h))"
      using Cons.IH [of ?b _ "a + 1"] by blast
    moreover have "g(f := None) |` (- (set flds \<inter> dom h)) = g |` (- (set (f # flds) \<inter> dom h))"
      using True by (auto simp: restrict_map_def fun_eq_iff)
    ultimately show ?thesis
      using True Cons.prems(1) assms(1,2) by (auto simp: Let_def GetHashItemVal_view Int_insert_left)
  next
    case False
    with Cons.IH [OF _ Cons.prems(2,3), of a] Cons.prems(1) assms(1,2) show ?thesis
      by (auto simp: Let_def GetHashItemVal_view Int_insert_left domIff split: option.splits)
  qed
qed (simp add: restrict_map_def)

lemma hdel_rep:
  assumes rep: "hash_rep (view (ldb s)) name h" and flds: "distinct flds"
  shows "if h = Map.empty then hdel R s name flds 0 = (0, 0, s)
    else \<exists>s'. hdel R s name flds 0 =
        (if dom h \<subseteq> set flds then 0 else 1, int (card (set flds \<inter> dom h)), s') \<and>
      hash_rep (view (ldb s')) name (h |` (- set flds)) \<and>
      touches_only name (view (ldb s)) (view (ldb s'))"
proof (cases "h = Map.empty")
  case True
  with rep obtain w where "absent (view (ldb s)) name w" using coll_rep_absent by blast
  from hc.get_absent [OF this] True show ?thesis by (auto simp: hdel_def Let_def)
next
  case False
  with rep obtain v where at: "coll_at HSIZE (view (ldb s)) name v h"
    using coll_rep_nonempty by blast
  then have cur: "coll_cur HSIZE (view (ldb s)) name v h" by (simp add: coll_cur_def)
  note hD = coll_curD [OF cur]
  from hc.get_at [OF at] obtain hv where
    hv: "GetHashMetaVal R s (encode_meta_key name) = (1, hv)" "coll_meta h v hv" by blast
  then have ver: "mv_version hv = v" by (simp add: coll_meta_def)
  have h0: "item_map name v (apply_batch [] (view (ldb s))) = h" using hD(3) by simp
  let ?h = "h |` (- (set flds \<inter> dom h))"
  have h': "?h = h |` (- set flds)" by (auto simp: restrict_map_def fun_eq_iff)
  from hdel_loop_items [OF ver hD(3) flds _ h0, of 0] obtain b where
    b: "hdel_loop R s hv name flds 0 [] = (0, int (card (set flds \<inter> dom h)), b)"
      "item_batch name v b" "item_map name v (apply_batch b (view (ldb s))) = ?h" by auto
  have dom: "dom ?h = dom h - (set flds \<inter> dom h)" by auto
  have "card (dom h - (set flds \<inter> dom h)) = card (dom h) - card (set flds \<inter> dom h)"
    using hD(1) by (intro card_Diff_subset) auto
  moreover have "card (set flds \<inter> dom h) \<le> card (dom h)" using hD(1) by (intro card_mono) auto
  ultimately have n: "- int (card (set flds \<inter> dom h)) = int (card (dom ?h)) - int (card (dom h))"
    by (simp only: dom)
  have "finite (dom ?h)" "card (dom ?h) < 2 ^ 63"
    using hD(1,2) n by auto
  have e: "?h = Map.empty \<longleftrightarrow> dom h \<subseteq> set flds"
    using dom_eq_empty_conv [of ?h] unfolding dom by blast
  from hc.commit_incr_rep [OF cur hv(2) b(2,3) \<open>finite (dom ?h)\<close> \<open>card (dom ?h) < 2 ^ 63\<close> n]
  obtain s' where c: "commit_incr R (incr_hsize R s name b (encode_meta_key name) hv
      (- int (card (set flds \<inter> dom h)))) = (if dom h \<subseteq> set flds then 0 else 1, s')"
    "hash_rep (view (ldb s')) name ?h" "touches_only name (view (ldb s)) (view (ldb s'))"
    unfolding e by blast
  from b(1) hv(1) False c(1,3) c(2) [unfolded h'] show ?thesis
    by (simp add: hdel_def Let_def)
qed

end

subsection \<open>Counters\<close>

lemma add_overflow:
  assumes "int64 x" "int64 y"
  shows "(y < 0 \<and> x < 0 \<and> y < INT64_MIN - x \<or> y > 0 \<and> x > 0 \<and> y > INT64_MAX - x) \<longleftrightarrow>
    \<not> int64 (x + y)"
  using assms by (auto simp: int64_def)

context rocksdb_healthy
begin

lemma hincr_store:
  assumes cur: "coll_cur HSIZE (view (ldb s)) name v h" and hv: "coll_meta h v hv"
    and len: "Suc (card (dom h)) < 2 ^ 63"
  shows "\<exists>b s'. hset_one R s [] hv False name f x = (1, b) \<and>
    commit_incr R (incr_hsize R s name b (encode_meta_key name) hv (if f \<in> dom h then 0 else 1)) = (1, s') \<and>
    hash_rep (view (ldb s')) name (h(f \<mapsto> x)) \<and> touches_only name (view (ldb s)) (view (ldb s'))"
proof -
  note hD = coll_curD [OF cur]
  have ver: "mv_version hv = v" using hv by (simp add: coll_meta_def)
  from hset_one_item [OF ver, of name "[]" s f False x] hD(3) obtain b where
    b: "hset_one R s [] hv False name f x = (1, b)"
      "item_batch name v b" "item_map name v (apply_batch b (view (ldb s))) = h(f \<mapsto> x)" by auto
  have n: "(if f \<in> dom h then 0 else 1) = int (card (dom (h(f \<mapsto> x)))) - int (card (dom h))"
    using hD(1) by (auto simp: card_insert_if)
  have "finite (dom (h(f \<mapsto> x)))" "card (dom (h(f \<mapsto> x))) < 2 ^ 63"
    using hD(1) len by (auto simp: card_insert_if)
  from hc.commit_incr_rep [OF cur hv b(2,3) this n] b(1) show ?thesis by auto
qed

lemma hincr_rep:
  assumes rep: "hash_rep (view (ldb s)) name h" "h = Map.empty \<longrightarrow> fresh (view (ldb s)) name"
    and len: "Suc (card (dom h)) < 2 ^ 63" and "by": "int64 by"
  shows "case (case h f of None \<Rightarrow> Some 0 | Some x \<Rightarrow> string2ll x) of
      None \<Rightarrow> hincr R s name f by a = (INVALID_INT, a, s)
    | Some old \<Rightarrow>
        if \<not> int64 (old + by) then hincr R s name f by a = (INT_OVERFLOW, a, s)
        else \<exists>s'. hincr R s name f by a = (1, old + by, s') \<and>
          hash_rep (view (ldb s')) name (h(f \<mapsto> str_int64 (old + by))) \<and>
          touches_only name (view (ldb s)) (view (ldb s'))"
proof -
  obtain v where cur: "coll_cur HSIZE (view (ldb s)) name v h"
    using coll_rep_cur [OF rep] by blast
  from hc.get_cur [OF cur] obtain hv where
    hv: "GetHashMetaVal R s (encode_meta_key name) = (if h = Map.empty then 0 else 1, hv)"
      "coll_meta h v hv" by blast
  then have ver: "mv_version hv = v" by (simp add: coll_meta_def)
  note store = hincr_store [OF cur hv(2) len, of f]
  show ?thesis
  proof (cases "h f")
    case None
    with store [of "str_int64 by"] hv(1) ver coll_curD(3) [OF cur] "by" show ?thesis
      by (auto simp: hincr_def hincrCommon_def Let_def GetHashItemVal_view domIff)
  next
    case (Some x)
    then have ne: "h \<noteq> Map.empty" by auto
    have item: "GetHashItemValInternal R s (encode_hash_key name f v) = (1, x)"
      using coll_curD(3) [OF cur] Some by (simp add: GetHashItemVal_view)
    show ?thesis
    proof (cases "string2ll x")
      case None
      with Some hv(1) ne item ver show ?thesis
        by (simp add: hincr_def hincrCommon_def Let_def)
    next
      case (Some old)
      then have "int64 old" by (simp add: string2ll_iff)
      note ov = add_overflow [OF this "by"]
      show ?thesis
      proof (cases "int64 (old + by)")
        case True
        with Some \<open>h f = Some x\<close> hv(1) ne item ver store [of "str_int64 (old + by)"] ov show ?thesis
          by (auto simp: hincr_def hincrCommon_def Let_def domIff)
      next
        case False
        with Some \<open>h f = Some x\<close> hv(1) ne item ver ov show ?thesis
          by (simp add: hincr_def hincrCommon_def Let_def)
      qed
    qed
  qed
qed

subsection \<open>Readers\<close>

lemma hash_rep_cases:
  assumes "hash_rep (view (ldb s)) name h"
  obtains hv where "h = Map.empty" "GetHashMetaVal R s (encode_meta_key name) = (0, hv)"
  | v hv where "h \<noteq> Map.empty" "coll_at HSIZE (view (ldb s)) name v h" "coll_meta h v hv"
      "item_map name v (view (ldb s)) = h" "GetHashMetaVal R s (encode_meta_key name) = (1, hv)"
proof (cases "h = Map.empty")
  case True
  with assms obtain w where "absent (view (ldb s)) name w" using coll_rep_absent by blast
  from hc.get_absent [OF this] True that(1) show ?thesis by blast
next
  case False
  with assms obtain v where at: "coll_at HSIZE (view (ldb s)) name v h"
    using coll_rep_nonempty by blast
  with hc.get_at [OF at] False that(2) show ?thesis by (auto simp: coll_at_def)
qed

lemma hsize_rep:
  assumes "hash_rep (view (ldb s)) name h"
  shows "hsize R s name 0 = (if h = Map.empty then 0 else 1, word_of_nat (card (dom h)))"
  using assms by (rule hash_rep_cases) (auto simp: hsize_def coll_meta_def)

lemma hget_rep:
  assumes "hash_rep (view (ldb s)) name h"
  shows "hget R s name f ([], False) =
    (if h = Map.empty then 0 else 1, case h f of None \<Rightarrow> ([], False) | Some x \<Rightarrow> (x, True))"
  using assms
  by (rule hash_rep_cases) (auto simp: hget_def coll_meta_def GetHashItemVal_view split: option.splits)

lemma hmget_loop_items:
  assumes "mv_version hv = v" "item_map name v (view (ldb s)) = h"
  shows "hmget_loop R s hv name ks g = (1, g ++ (h |` set ks))"
proof (induction ks arbitrary: g)
  case (Cons k ks)
  show ?case
  proof (cases "h k")
    case None
    have "h |` set (k # ks) = h |` set ks" using None by (auto simp: restrict_map_def fun_eq_iff)
    with None Cons assms show ?thesis by (simp add: GetHashItemVal_view)
  next
    case (Some x)
    have "g(k \<mapsto> x) ++ (h |` set ks) = g ++ (h |` set (k # ks))"
      using Some by (auto simp: restrict_map_def map_add_def fun_eq_iff split: option.splits)
    moreover have "hmget_loop R s hv name ks (g(k \<mapsto> x)) = (1, g(k \<mapsto> x) ++ (h |` set ks))"
      by (rule Cons)
    ultimately show ?thesis using Some assms by (simp add: GetHashItemVal_view)
  qed
qed simp

lemma hmget_rep:
  assumes "hash_rep (view (ldb s)) name h"
  shows "hmget R s name ks Map.empty = (if h = Map.empty then 0 else 1, h |` set ks)"
  using assms
  by (rule hash_rep_cases) (auto simp: hmget_def coll_meta_def hmget_loop_items restrict_map_def)

end

context rocksdb_iter
begin

lemma hgetall_loop_scan:
  assumes "yields FORWARD fwd (h_it it) es" "h_return_val it" "item_scan (h_name it) (h_version it) es = l"
  shows "hgetall_loop R it sk sv out =
    out @ concat (map (\<lambda>(f, x). (if sk then [f] else []) @ (if sv then [x] else [])) l)"
  using assms
proof (induction l arbitrary: it es out)
  case Nil
  with fw.HIterator_next_scan [OF Nil(1,2)] show ?case by (auto simp: hgetall_loop.simps [of R it])
next
  case (Cons e l)
  obtain f x where e: "e = (f, x)" by force
  from fw.HIterator_next_scan [OF Cons.prems(1,2)] Cons.prems(3) obtain it' es' where
    "HIterator_next R it = (True, it')" "h_key it' = f" "h_val it' = x"
    "h_name it' = h_name it" "h_version it' = h_version it" "h_return_val it'"
    "yields FORWARD fwd (h_it it') es'" "item_scan (h_name it) (h_version it) es' = l"
    by (auto simp: e)
  with Cons.IH [of it' es'] show ?case by (simp add: e hgetall_loop.simps [of R it])
qed

lemma hgetall_rep:
  assumes "hash_rep (view (ldb s)) name h" "long_enough name" "card (dom (view (ldb s))) < 2 ^ 64"
  shows "hgetall R s name sk sv = (if h = Map.empty then 0 else 1,
    concat (map (\<lambda>(f, x). (if sk then [f] else []) @ (if sv then [x] else [])) (sorted_entries h)))"
  using assms(1)
proof (rule hash_rep_cases)
  fix v hv
  assume A: "h \<noteq> Map.empty" "coll_meta h v hv" "item_map name v (view (ldb s)) = h"
    "GetHashMetaVal R s (encode_meta_key name) = (1, hv)"
  let ?it = "hscan_internal R s name v" and ?p = "encode_key_internal ITEM name [] v"
  let ?es = "filter (\<lambda>e. ?p \<le> fst e) (sorted_entries (view (ldb s)))"
  have "yields FORWARD fwd (h_it ?it) ?es"
    using yields_iterator [OF assms(3), of ?p]
    by (simp add: hscan_internal_def HIterator_init_def encode_hash_key_def)
  moreover have "item_scan name v ?es = sorted_entries h"
    using item_scan_fields [OF assms(2) finite_view, of v "ldb s"] A(3) by (simp add: item_map_def)
  ultimately have "hgetall_loop R ?it sk sv [] =
      concat (map (\<lambda>(f, x). (if sk then [f] else []) @ (if sv then [x] else [])) (sorted_entries h))"
    using hgetall_loop_scan [of ?it ?es "sorted_entries h"]
    by (simp add: hscan_internal_def HIterator_init_def)
  with A show ?thesis by (simp add: hgetall_def coll_meta_def)
qed (simp add: hgetall_def sorted_entries_def)

end

section \<open>Properties\<close>

text \<open>A database with the hash that maps the field \<open>f\<close> to \<open>7\<close> and \<open>g\<close> to \<open>x\<close> under the key \<open>h\<close>.\<close>

definition hash_example :: "(bytes \<times> bytes) list ssdb" where
  "hash_example = empty_store\<lparr>ldb :=
     [(encode_meta_key [104], encode_hash_meta_val 2 0 KEY_ENABLED_MASK),
      (encode_hash_key [104] [102] 0, [55]), (encode_hash_key [104] [103] 0, [120])]\<rparr>"

definition hash_example_map :: contents where
  "hash_example_map = map_of [([102], [55]), ([103], [120])]"

lemma hash_example_map:
  "dom hash_example_map = {[102], [103]}" "hash_example_map [102] = Some [55]"
  "hash_example_map [103] = Some [120]" "hash_example_map \<noteq> Map.empty"
  "card (dom hash_example_map) = 2"
  by (auto simp: hash_example_map_def fun_eq_iff split: if_splits)

lemma hash_example_rep: "hash_rep (map_of (ldb hash_example)) [104] hash_example_map"
proof -
  have "item_map [104] 0 (map_of (ldb hash_example)) = hash_example_map"
    by (auto simp: hash_example_def item_map_def encode_hash_key_def hash_example_map_def fun_eq_iff)
  then have "coll_at HSIZE (map_of (ldb hash_example)) [104] 0 hash_example_map"
    using hash_example_map
    by (simp add: coll_at_def hash_example_def encode_hash_meta_val_def)
  then show ?thesis by (auto simp: coll_rep_def)
qed

text \<open>
  C6: \<open>hset\<close> binds a field to a value and reports whether the field is new; \<open>hsetnx\<close> does so
  only for a new field and otherwise changes nothing. The stored counter stays the number
  of fields, and no physical key of another logical key changes.
\<close>

theorem hash_set_correct:
  assumes "rocksdb_healthy R view" "hash_rep (view (ldb s)) name h"
    "h = Map.empty \<longrightarrow> fresh (view (ldb s)) name" "Suc (card (dom h)) < 2 ^ 63"
  shows "(\<exists>s'. hset R s name f x a = (1, if f \<in> dom h then 0 else 1, s') \<and>
      hash_rep (view (ldb s')) name (h(f \<mapsto> x)) \<and> touches_only name (view (ldb s)) (view (ldb s'))) \<and>
    (if f \<in> dom h then hsetnx R s name f x a = (1, 0, s)
     else \<exists>s'. hsetnx R s name f x a = (1, 1, s') \<and>
       hash_rep (view (ldb s')) name (h(f \<mapsto> x)) \<and> touches_only name (view (ldb s)) (view (ldb s')))"
  using rocksdb_healthy.hset_rep [OF assms, of False f x a]
    rocksdb_healthy.hset_rep [OF assms, of True f x a]
    rocksdb_healthy.hsetnx_existing [OF assms(1,2), of f x a]
  by (simp add: hset_def hsetnx_def)

theorem hash_set_correct_witness:
  "(\<exists>s'. hset mem_rocksdb hash_example [104] [97] [98] 0 = (1, 1, s') \<and>
      hash_rep (map_of (ldb s')) [104] (hash_example_map([97] \<mapsto> [98]))) \<and>
   hsetnx mem_rocksdb hash_example [104] [102] [98] 0 = (1, 0, hash_example)"
  using hash_set_correct [OF mem.rocksdb_healthy_axioms hash_example_rep, of "[97]" "[98]" 0]
    hash_set_correct [OF mem.rocksdb_healthy_axioms hash_example_rep, of "[102]" "[98]" 0]
    hash_example_map
  by auto

text \<open>
  \<open>hmset\<close> binds all given fields at once: the new hash is the old one overridden by the
  given bindings.
\<close>

theorem hash_mset_correct:
  assumes "rocksdb_healthy R view" "hash_rep (view (ldb s)) name h"
    "h = Map.empty \<longrightarrow> fresh (view (ldb s)) name"
    "distinct (map fst kvs)" "card (dom h) + length kvs < 2 ^ 63"
  shows "\<exists>s'. hmset R s name kvs = (if h ++ map_of kvs = Map.empty then 0 else 1, s') \<and>
    hash_rep (view (ldb s')) name (h ++ map_of kvs) \<and> touches_only name (view (ldb s)) (view (ldb s'))"
  by (rule rocksdb_healthy.hmset_rep [OF assms])

theorem hash_mset_correct_witness:
  "\<exists>s'. hmset mem_rocksdb hash_example [104] [([97], [98]), ([102], [99])] = (1, s') \<and>
     hash_rep (map_of (ldb s')) [104] (hash_example_map ++ map_of [([97], [98]), ([102], [99])])"
  using hash_mset_correct [OF mem.rocksdb_healthy_axioms hash_example_rep,
      of "[([97], [98]), ([102], [99])]"] hash_example_map
  by auto

text \<open>
  \<open>hdel\<close> removes the given fields and reports how many there were; removing the last
  field deletes the key (result 0).
\<close>

theorem hash_del_correct:
  assumes "rocksdb_healthy R view" "hash_rep (view (ldb s)) name h" "distinct flds"
  shows "if h = Map.empty then hdel R s name flds 0 = (0, 0, s)
    else \<exists>s'. hdel R s name flds 0 =
        (if dom h \<subseteq> set flds then 0 else 1, int (card (set flds \<inter> dom h)), s') \<and>
      hash_rep (view (ldb s')) name (h |` (- set flds)) \<and>
      touches_only name (view (ldb s)) (view (ldb s'))"
  by (rule rocksdb_healthy.hdel_rep [OF assms])

theorem hash_del_correct_witness:
  "\<exists>s'. hdel mem_rocksdb hash_example [104] [[102], [105]] 0 = (1, 1, s') \<and>
     hash_rep (map_of (ldb s')) [104] (hash_example_map |` (- {[102], [105]}))"
  using hash_del_correct [OF mem.rocksdb_healthy_axioms hash_example_rep, of "[[102], [105]]"]
    hash_example_map
  by (auto simp: insert_Diff_if Int_insert_left)

text \<open>
  \<open>hincr\<close> adds to the decimal counter in a field, an absent field counting as 0. A
  value that is not a 64-bit decimal is \<open>INVALID_INT\<close>, a sum out of the 64-bit range is
  \<open>INT_OVERFLOW\<close>, both without a change.
\<close>

theorem hash_incr_correct:
  assumes "rocksdb_healthy R view" "hash_rep (view (ldb s)) name h"
    "h = Map.empty \<longrightarrow> fresh (view (ldb s)) name" "Suc (card (dom h)) < 2 ^ 63" "int64 by"
  shows "case (case h f of None \<Rightarrow> Some 0 | Some x \<Rightarrow> string2ll x) of
      None \<Rightarrow> hincr R s name f by a = (INVALID_INT, a, s)
    | Some old \<Rightarrow>
        if \<not> int64 (old + by) then hincr R s name f by a = (INT_OVERFLOW, a, s)
        else \<exists>s'. hincr R s name f by a = (1, old + by, s') \<and>
          hash_rep (view (ldb s')) name (h(f \<mapsto> str_int64 (old + by))) \<and>
          touches_only name (view (ldb s)) (view (ldb s'))"
  by (rule rocksdb_healthy.hincr_rep [OF assms])

theorem hash_incr_correct_witness:
  "(\<exists>s'. hincr mem_rocksdb hash_example [104] [102] 5 0 = (1, 12, s')) \<and>
   hincr mem_rocksdb hash_example [104] [103] 5 0 = (INVALID_INT, 0, hash_example) \<and>
   hincr mem_rocksdb hash_example [104] [102] INT64_MAX 0 = (INT_OVERFLOW, 0, hash_example)"
proof -
  have s: "string2ll [55] = Some 7" "string2ll [120] = None" by code_simp+
  note i = hash_incr_correct [OF mem.rocksdb_healthy_axioms hash_example_rep]
  show ?thesis
    using i [of 5 "[102]" 0] i [of 5 "[103]" 0] i [of INT64_MAX "[102]" 0] s hash_example_map
    by (auto simp: int64_def)
qed

text \<open>
  Reading a hash: \<open>hget\<close> and \<open>hmget\<close> look fields up, \<open>hsize\<close> is their number.
\<close>

theorem hash_read_correct:
  assumes "rocksdb_healthy R view" "hash_rep (view (ldb s)) name h"
  shows "hget R s name f ([], False) = (if h = Map.empty then 0 else 1,
      case h f of None \<Rightarrow> ([], False) | Some x \<Rightarrow> (x, True)) \<and>
    hmget R s name ks Map.empty = (if h = Map.empty then 0 else 1, h |` set ks) \<and>
    hsize R s name 0 = (if h = Map.empty then 0 else 1, word_of_nat (card (dom h)))"
  using rocksdb_healthy.hget_rep [OF assms] rocksdb_healthy.hmget_rep [OF assms]
    rocksdb_healthy.hsize_rep [OF assms]
  by simp

theorem hash_read_correct_witness:
  "hget mem_rocksdb hash_example [104] [102] ([], False) = (1, [55], True) \<and>
   hsize mem_rocksdb hash_example [104] 0 = (1, 2)"
  using hash_read_correct [OF mem.rocksdb_healthy_axioms hash_example_rep, of "[102]"]
    hash_example_map
  by (auto simp: card_insert_if)

text \<open>
  \<open>hgetall\<close> returns every field with its value exactly once, in ascending order of the
  fields: the scan over the shared key space finds all items of this key and version and
  stops before any other.
\<close>

theorem hash_getall_correct:
  assumes "rocksdb_iter R view fwd" "hash_rep (view (ldb s)) name h" "long_enough name"
    "card (dom (view (ldb s))) < 2 ^ 64"
  shows "hgetall R s name sk sv = (if h = Map.empty then 0 else 1,
    concat (map (\<lambda>(f, x). (if sk then [f] else []) @ (if sv then [x] else [])) (sorted_entries h)))"
  by (rule rocksdb_iter.hgetall_rep [OF assms])

theorem hash_getall_correct_witness:
  "hgetall mem_rocksdb hash_example [104] True True = (1, [[102], [55], [103], [120]])"
proof -
  have "sorted_list_of_set {[102], [103 :: byte]} = [[102], [103]]"
    by (simp add: sorted_list_of_set_insert insort_key.simps)
  then have "sorted_entries hash_example_map = [([102], [55]), ([103], [120])]"
    by (simp add: sorted_entries_def hash_example_map)
  moreover have "card (dom (map_of (ldb hash_example))) \<le> 3"
    using card_image_le [of "set (ldb hash_example)" fst] card_length [of "ldb hash_example"]
    by (simp add: dom_map_of_conv_image_fst hash_example_def)
  ultimately show ?thesis
    using hash_getall_correct [OF mem.rocksdb_iter_axioms hash_example_rep, of True True]
      hash_example_map by simp
qed

text \<open>
  A read error inside \<open>hset\<close> corrupts the counter. \<open>hsetCommon\<close> compares the pointer
  \<open>added\<close> with 0 instead of the number it points to, so when the engine fails to read the
  field, the error code -2 is added to the number of fields, committed, and the call
  reports success.
\<close>

theorem hash_set_read_error:
  assumes "rocksdb_laws R view" "\<And>b. fst (db_Write R (ldb s) b)"
    "db_Get R (ldb s) (encode_meta_key name) = GetOk (encode_hash_meta_val n v KEY_ENABLED_MASK)"
    "db_Get R (ldb s) (encode_hash_key name f v) = GetError" "2 < n"
  shows "\<exists>s'. hset R s name f x a = (1, -2, s') \<and>
    view (ldb s') (encode_meta_key name) = Some (encode_hash_meta_val (n - 2) v KEY_ENABLED_MASK)"
proof -
  let ?b = "[Put (encode_meta_key name) (encode_hash_meta_val (n - 2) v KEY_ENABLED_MASK)]"
  have n: "n \<noteq> 0" "\<not> n < 2" "n - 2 \<noteq> 0" using assms(5) by (auto simp: not_less less_imp_le)
  obtain hv where hv: "GetHashMetaVal R s (encode_meta_key name) = (1, hv)" "mv_length hv = n" "mv_version hv = v"
    using assms(3)
    by (auto simp: GetHashMetaVal_def Let_def encode_hash_meta_val_def DecodeMetaVal_encode)
  obtain db where db: "db_Write R (ldb s) ?b = (True, db)" using assms(2) [of ?b] by (metis prod.collapse)
  from rocksdb_laws.Write_ok [OF assms(1) db]
  have "view db (encode_meta_key name) = Some (encode_hash_meta_val (n - 2) v KEY_ENABLED_MASK)" by simp
  moreover have "hset R s name f x a = (1, -2, s\<lparr>ldb := db\<rparr>)"
    using hv n db assms(4)
    by (simp add: hset_def hsetCommon_def Let_def hset_one_def GetHashItemValInternal_def incr_hsize_def
        commit_incr_def CommitBatch_def)
  ultimately show ?thesis by simp
qed

theorem hash_set_read_error_witness:
  "\<exists>s'. hset (faulty_rocksdb (encode_hash_key [104] [97] 0))
      (empty_store\<lparr>ldb := [(encode_meta_key [104], encode_hash_meta_val 3 0 KEY_ENABLED_MASK)]\<rparr>)
      [104] [97] [98] 0 = (1, -2, s') \<and>
    map_of (ldb s') (encode_meta_key [104]) = Some (encode_hash_meta_val 1 0 KEY_ENABLED_MASK)"
proof -
  let ?R = "faulty_rocksdb (encode_hash_key [104] [97] 0)"
  let ?s = "empty_store\<lparr>ldb := [(encode_meta_key [104], encode_hash_meta_val 3 0 KEY_ENABLED_MASK)]\<rparr>"
  have "db_Get ?R (ldb ?s) (encode_meta_key [104]) = GetOk (encode_hash_meta_val 3 0 KEY_ENABLED_MASK)"
    "db_Get ?R (ldb ?s) (encode_hash_key [104] [97] 0) = GetError"
    by (simp_all add: faulty_rocksdb_def mem_rocksdb_def encode_hash_key_def)
  moreover have "fst (db_Write ?R (ldb ?s) b)" for b by (simp add: faulty_rocksdb_def mem_rocksdb_def)
  ultimately show ?thesis
    using hash_set_read_error [OF faulty_rocksdb_laws, of "encode_hash_key [104] [97] 0" ?s "[104]" 3 0 "[97]" "[98]" 0]
    by simp
qed

end
