(* ===== verification/TSet.thy ===== *)
theory TSet
  imports Collection
begin

text \<open>
  The set type, \<^verbatim>\<open>src/src/storage/t_set.cpp\<close> and \<^verbatim>\<open>t_set.h\<close>. A set is a meta value with the
  number of members and one item with an empty value per member. The abstract value of a
  key is a finite set of byte strings (\<open>set_rep\<close>). \<^verbatim>\<open>rand()\<close> is an argument of the
  operations that draw members; \<^verbatim>\<open>sscan\<close> works on the cursor service and is left out
  with it.
\<close>

section \<open>Operations\<close>

definition GetSetMetaVal :: "('db, 'it) rocksdb \<Rightarrow> 'db ssdb \<Rightarrow> bytes \<Rightarrow> int \<times> MetaVal" where
  "GetSetMetaVal R s meta_key =
     (let sv = MetaVal_init in
      case db_Get R (ldb s) meta_key of
        GetNotFound \<Rightarrow>
          (0, sv\<lparr>mv_length := 0, mv_del := KEY_ENABLED_MASK, mv_type := HSIZE, mv_version := 0\<rparr>)
      | GetError \<Rightarrow> (STORAGE_ERR, sv)
      | GetOk meta_val \<Rightarrow>
          (case DecodeMetaVal meta_val sv of (ret, sv) \<Rightarrow>
             if ret < 0 then (ret, sv)
             else if mv_del sv = KEY_DELETE_MASK then
               (0, sv\<lparr>mv_version := next_version (mv_version sv), mv_length := 0,
                      mv_del := KEY_ENABLED_MASK\<rparr>)
             else if mv_type sv \<noteq> SSIZE then (WRONG_TYPE_ERR, sv)
             else (1, sv)))"

definition GetSetItemValInternal :: "('db, 'it) rocksdb \<Rightarrow> 'db ssdb \<Rightarrow> bytes \<Rightarrow> int" where
  "GetSetItemValInternal R s item_key =
     (case db_Get R (ldb s) item_key of
        GetNotFound \<Rightarrow> 0 | GetError \<Rightarrow> STORAGE_ERR | GetOk val \<Rightarrow> 1)"

definition incr_ssize ::
  "('db, 'it) rocksdb \<Rightarrow> 'db ssdb \<Rightarrow> bytes \<Rightarrow> batch \<Rightarrow> MetaVal \<Rightarrow> bytes \<Rightarrow> int \<Rightarrow> int \<times> batch \<times> 'db ssdb" where
  "incr_ssize R s key batch sv meta_key incr =
     (if mv_length sv = 0 then
        if incr > 0 then
          let meta_val = encode_set_meta_val (word_of_int incr) (mv_version sv) KEY_ENABLED_MASK
          in (1, batch @ [Put meta_key meta_val], s)
        else if incr = 0 then (0, batch, s)
        else (INVALID_INCR_LEN, batch, s)
      else if incr = 0 then (1, batch, s)
      else if incr < 0 \<and> mv_length sv < word_of_int (- incr) then (INVALID_INCR_LEN, batch, s)
      else
        let len = (if incr > 0 then mv_length sv + word_of_int incr
                   else mv_length sv - word_of_int (- incr))
        in if len = 0 then
             let del_key = encode_delete_key key (mv_version sv);
                 meta_val = encode_set_meta_val (mv_length sv) (mv_version sv) KEY_DELETE_MASK;
                 batch = batch @ [Put del_key [], Put meta_key meta_val]
             in case cancelExpiration R s key batch of (_, batch, s) \<Rightarrow> (0, batch, s)
           else
             let meta_val = encode_set_meta_val len (mv_version sv) KEY_ENABLED_MASK
             in (1, batch @ [Put meta_key meta_val], s))"

fun sadd_loop ::
  "('db, 'it) rocksdb \<Rightarrow> 'db ssdb \<Rightarrow> MetaVal \<Rightarrow> bytes \<Rightarrow> int \<Rightarrow> bytes list \<Rightarrow> int \<Rightarrow> batch \<Rightarrow>
     int \<times> int \<times> batch" where
  "sadd_loop R s sv key ret [] num batch = (0, num, batch)"
| "sadd_loop R s sv key ret (member # mem_set) num batch =
     (let item_key = encode_set_key key member (mv_version sv) in
      if ret = 0 then sadd_loop R s sv key ret mem_set (num + 1) (batch @ [Put item_key []])
      else
        let st = GetSetItemValInternal R s item_key
        in if st < 0 then (st, num, batch)
           else if st = 1 then sadd_loop R s sv key ret mem_set num batch
           else sadd_loop R s sv key ret mem_set (num + 1) (batch @ [Put item_key []]))"

definition saddNoLock ::
  "('db, 'it) rocksdb \<Rightarrow> 'db ssdb \<Rightarrow> bytes \<Rightarrow> bytes list \<Rightarrow> int \<Rightarrow> int \<times> int \<times> 'db ssdb" where
  "saddNoLock R s key mem_set num =
     (let meta_key = encode_meta_key key in
      case GetSetMetaVal R s meta_key of (ret, sv) \<Rightarrow>
        if ret < 0 then (ret, num, s)
        else
          (case sadd_loop R s sv key ret mem_set 0 [] of (err, num, batch) \<Rightarrow>
             if err < 0 then (err, num, s)
             else (case commit_incr R (incr_ssize R s key batch sv meta_key num) of
                     (ret, s) \<Rightarrow> (ret, num, s))))"

definition sadd :: "('db, 'it) rocksdb \<Rightarrow> 'db ssdb \<Rightarrow> bytes \<Rightarrow> bytes list \<Rightarrow> int \<Rightarrow> int \<times> int \<times> 'db ssdb" where
  "sadd R s key mem_set num = saddNoLock R s key mem_set num"

text \<open>\<^verbatim>\<open>srem\<close> gets the whole request: the members start at position 2.\<close>

fun srem_loop ::
  "('db, 'it) rocksdb \<Rightarrow> 'db ssdb \<Rightarrow> MetaVal \<Rightarrow> bytes \<Rightarrow> bytes list \<Rightarrow> int \<Rightarrow> batch \<Rightarrow> int \<times> int \<times> batch" where
  "srem_loop R s sv key [] num batch = (0, num, batch)"
| "srem_loop R s sv key (member # members) num batch =
     (let hkey = encode_set_key key member (mv_version sv);
          st = GetSetItemValInternal R s hkey
      in if st = 1 then srem_loop R s sv key members (num + 1) (batch @ [Delete hkey])
         else if st < 0 then (st, num, batch)
         else srem_loop R s sv key members num batch)"

definition srem ::
  "('db, 'it) rocksdb \<Rightarrow> 'db ssdb \<Rightarrow> bytes \<Rightarrow> bytes list \<Rightarrow> int \<times> int \<times> 'db ssdb" where
  "srem R s key members =
     (let meta_key = encode_meta_key key in
      case GetSetMetaVal R s meta_key of (ret, sv) \<Rightarrow>
        if ret \<noteq> 1 then (ret, 0, s)
        else
          (case srem_loop R s sv key (drop 2 members) 0 [] of (err, num, batch) \<Rightarrow>
             if err < 0 then (err, num, s)
             else (case commit_incr R (incr_ssize R s key batch sv meta_key (- 1 * num)) of
                     (ret, s) \<Rightarrow> (ret, num, s))))"

definition scard :: "('db, 'it) rocksdb \<Rightarrow> 'db ssdb \<Rightarrow> bytes \<Rightarrow> int \<times> u64" where
  "scard R s key =
     (case GetSetMetaVal R s (encode_meta_key key) of (ret, sv) \<Rightarrow>
        if ret < 0 then (ret, 0) else (ret, mv_length sv))"

definition sismember :: "('db, 'it) rocksdb \<Rightarrow> 'db ssdb \<Rightarrow> bytes \<Rightarrow> bytes \<Rightarrow> bool \<Rightarrow> int \<times> bool" where
  "sismember R s key member ismember =
     (case GetSetMetaVal R s (encode_meta_key key) of (ret, sv) \<Rightarrow>
        if ret < 0 then (ret, ismember)
        else if ret = 1 then
          let ret = GetSetItemValInternal R s (encode_set_key key member (mv_version sv))
          in if ret < 0 then (ret, ismember) else if ret = 0 then (1, False) else (1, True)
        else (1, False))"

definition sscan_internal :: "('db, 'it) rocksdb \<Rightarrow> 'db ssdb \<Rightarrow> bytes \<Rightarrow> u16 \<Rightarrow> 'it SIterator" where
  "sscan_internal R s name version =
     SIterator_init (SSDB_iterator R (ldb s) (encode_set_key name [] version) [] UINT64_MAX) name version"

function smembers_loop :: "('db, 'it) rocksdb \<Rightarrow> 'it SIterator \<Rightarrow> bytes list \<Rightarrow> bytes list" where
  "smembers_loop R it members =
     (case SIterator_next R it of
        (False, _) \<Rightarrow> members
      | (True, it) \<Rightarrow> smembers_loop R it (members @ [s_key it]))"
  by pat_completeness auto
termination
  by (relation "measure (\<lambda>(R, it, _). unat (iter_limit (s_it it)))")
    (auto dest: SIterator_next_limit [OF sym])

declare smembers_loop.simps [simp del]

definition smembers :: "('db, 'it) rocksdb \<Rightarrow> 'db ssdb \<Rightarrow> bytes \<Rightarrow> int \<times> bytes list" where
  "smembers R s key =
     (case GetSetMetaVal R s (encode_meta_key key) of (ret, sv) \<Rightarrow>
        if ret \<noteq> 1 then (ret, [])
        else (1, smembers_loop R (sscan_internal R s key (mv_version sv)) []))"

text \<open>
  The loop \<^verbatim>\<open>for (i = 0; found < cnt && it->next(); ++i)\<close> of \<^verbatim>\<open>srandmember\<close> and
  \<^verbatim>\<open>spop\<close>, which skips the first \<open>start_index\<close> members.
\<close>

function take_loop ::
  "('db, 'it) rocksdb \<Rightarrow> 'it SIterator \<Rightarrow> u64 \<Rightarrow> u64 \<Rightarrow> int \<Rightarrow> int \<Rightarrow> bytes list \<Rightarrow> bytes list" where
  "take_loop R it i start_index cnt found members =
     (if found < cnt then
        (case SIterator_next R it of
           (False, _) \<Rightarrow> members
         | (True, it) \<Rightarrow>
             if i < start_index then take_loop R it (i + 1) start_index cnt found members
             else take_loop R it (i + 1) start_index cnt (found + 1) (members @ [s_key it]))
      else members)"
  by pat_completeness auto
termination
  by (relation "measure (\<lambda>(R, it, _, _, _, _, _). unat (iter_limit (s_it it)))")
    (auto dest: SIterator_next_limit [OF sym])

declare take_loop.simps [simp del]

text \<open>
  How many members are taken and where the loop starts, from the number wanted, the
  length and the random number; \<open>None\<close> when the source returns \<^verbatim>\<open>INVALID_INT\<close>. The source
  compares the signed count with the unsigned length.
\<close>

definition draw_window :: "int \<Rightarrow> u64 \<Rightarrow> nat \<Rightarrow> (int \<times> u64) option" where
  "draw_window cnt len rnd =
     (if word_of_int cnt \<ge> len then Some (sint len, 0)
      else if cnt > INT_MAX then None
      else
        let start_index_max = len - word_of_int cnt + 1;
            start_index_max = (if start_index_max > 100 then 100 else start_index_max)
        in Some (cnt, word_of_nat rnd mod start_index_max))"

fun full_repeats ::
  "('db, 'it) rocksdb \<Rightarrow> 'db ssdb \<Rightarrow> bytes \<Rightarrow> u16 \<Rightarrow> nat \<Rightarrow> bytes list \<Rightarrow> bytes list" where
  "full_repeats R s key version 0 members = members"
| "full_repeats R s key version (Suc n) members =
     full_repeats R s key version n (smembers_loop R (sscan_internal R s key version) members)"

text \<open>The repeat count is \<^verbatim>\<open>int(cnt / length)\<close>, truncated to 32 bits.\<close>

definition srandmember :: "('db, 'it) rocksdb \<Rightarrow> nat \<Rightarrow> 'db ssdb \<Rightarrow> bytes \<Rightarrow> int \<Rightarrow> int \<times> bytes list" where
  "srandmember R rnd s key cnt =
     (case GetSetMetaVal R s (encode_meta_key key) of (ret, sv) \<Rightarrow>
        if ret \<noteq> 1 then (ret, [])
        else
          let it = sscan_internal R s key (mv_version sv);
              (cnt, members) =
                (if cnt < 0 then
                   let cnt = - cnt;
                       full_repeat = sint (ucast (word_of_int cnt div mv_length sv) :: 32 word)
                   in (sint (word_of_int cnt - word_of_int full_repeat * mv_length sv),
                       full_repeats R s key (mv_version sv) (nat full_repeat) [])
                 else (cnt, []))
          in if mv_length sv = 0 then (0, members)
             else (case draw_window cnt (mv_length sv) rnd of
                     None \<Rightarrow> (INVALID_INT, members)
                   | Some (cnt, start_index) \<Rightarrow> (1, take_loop R it 0 start_index cnt 0 members)))"

definition spop ::
  "('db, 'it) rocksdb \<Rightarrow> nat \<Rightarrow> 'db ssdb \<Rightarrow> bytes \<Rightarrow> int \<Rightarrow> int \<times> bytes list \<times> 'db ssdb" where
  "spop R rnd s key popcnt =
     (let meta_key = encode_meta_key key in
      case GetSetMetaVal R s meta_key of (ret, sv) \<Rightarrow>
        if ret \<noteq> 1 then (ret, [], s)
        else
          let it = sscan_internal R s key (mv_version sv) in
          if popcnt < 0 then (INDEX_OUT_OF_RANGE, [], s)
          else if mv_length sv = 0 then (0, [], s)
          else
            (case draw_window popcnt (mv_length sv) rnd of
               None \<Rightarrow> (INVALID_INT, [], s)
             | Some (popcnt, start_index) \<Rightarrow>
                 let members = take_loop R it 0 start_index popcnt 0 [];
                     batch = map (\<lambda>m. Delete (encode_set_key key m (mv_version sv))) members
                 in case commit_incr R (incr_ssize R s key batch sv meta_key (- int (length members))) of
                      (ret, s) \<Rightarrow> (ret, members, s)))"

section \<open>Sets are collections\<close>

text \<open>A set as a map to empty values.\<close>

definition chi :: "bytes set \<Rightarrow> contents" where
  "chi S = (\<lambda>f. if f \<in> S then Some [] else None)"

lemma chi_simps [simp]:
  "dom (chi S) = S" "chi S = Map.empty \<longleftrightarrow> S = {}" "(chi S)(f \<mapsto> []) = chi (insert f S)"
  "(chi S)(f := None) = chi (S - {f})" "chi S f = None \<longleftrightarrow> f \<notin> S"
  by (auto simp: chi_def fun_eq_iff split: if_splits)

definition set_rep :: "contents \<Rightarrow> bytes \<Rightarrow> bytes set \<Rightarrow> bool" where
  "set_rep m key S \<longleftrightarrow> coll_rep SSIZE m key (chi S)"

sublocale rocksdb_healthy \<subseteq> sc: collection R view SSIZE "GetSetMetaVal R"
    "\<lambda>s key b mv n. incr_ssize R s key b mv (encode_meta_key key) n"
proof (unfold_locales, goal_cases)
  case (1 s key w)
  then show ?case
    by (auto simp: absent_def GetSetMetaVal_def Get_view Let_def coll_meta_def DecodeMetaVal_deleted)
next
  case (2 s key v h)
  then show ?case
    by (auto simp: coll_at_def GetSetMetaVal_def Get_view Let_def coll_meta_def DecodeMetaVal_encode)
next
  case (3 mv n s key b)
  then show ?case by (simp add: incr_ssize_def encode_set_meta_val_def)
next
  case (4 s key b mv)
  then show ?case by (simp add: incr_ssize_def)
next
  case (5 mv n s key b)
  from counter_arith [OF 5(4,2,3,5)] 5(1,2) show ?case
    by (simp add: incr_ssize_def encode_set_meta_val_def Let_def)
next
  case (6 mv n s key b)
  from counter_arith_0 [OF 6] 6 show ?case
    by (auto simp: incr_ssize_def encode_set_meta_val_def Let_def split: prod.splits)
qed

section \<open>Effect of the operations\<close>

lemma chi_mem: "x \<in> S \<Longrightarrow> chi S x = Some []"
  by (simp add: chi_def)

lemma chi_empty: "chi {} = Map.empty"
  by (simp add: chi_def)

lemma item_map_set [simp]:
  "item_map name v (m(encode_set_key name f v \<mapsto> x)) = (item_map name v m)(f \<mapsto> x)"
  "item_map name v (m(encode_set_key name f v := None)) = (item_map name v m)(f := None)"
  by (simp_all add: encode_set_key_def)

lemma item_batch_set [simp]:
  "encode_set_key name f v \<in> item_keys name v"
  by (simp add: encode_set_key_def)

lemma set_rep_cur:
  assumes "set_rep m key S" "S = {} \<longrightarrow> fresh m key"
  obtains v where "coll_cur SSIZE m key v (chi S)"
  using coll_rep_cur [of SSIZE m key "chi S"] assms by (auto simp: set_rep_def)

context rocksdb_healthy
begin

lemma GetSetItemVal_view:
  "GetSetItemValInternal R s (encode_set_key name f v) =
     (if item_map name v (view (ldb s)) f = None then 0 else 1)"
  by (simp add: GetSetItemValInternal_def Get_view item_map_def encode_set_key_def split: option.splits)

lemma set_rep_cases:
  assumes "set_rep (view (ldb s)) key S"
  obtains sv where "S = {}" "GetSetMetaVal R s (encode_meta_key key) = (0, sv)" "mv_length sv = 0"
  | v sv where "S \<noteq> {}" "coll_cur SSIZE (view (ldb s)) key v (chi S)" "coll_meta (chi S) v sv"
      "GetSetMetaVal R s (encode_meta_key key) = (1, sv)"
proof (cases "S = {}")
  case True
  with assms have "coll_rep SSIZE (view (ldb s)) key Map.empty"
    by (simp add: set_rep_def chi_empty)
  then obtain w where "absent (view (ldb s)) key w" using coll_rep_absent by blast
  from sc.get_absent [OF this] True that(1) show ?thesis by (auto simp: coll_meta_def)
next
  case False
  with assms obtain v where at: "coll_at SSIZE (view (ldb s)) key v (chi S)"
    using coll_rep_nonempty [of SSIZE "view (ldb s)" key "chi S"] by (auto simp: set_rep_def)
  with sc.get_at [OF at] False that(2) show ?thesis by (auto simp: coll_cur_def)
qed

text \<open>The writers of sets, from the items they reach to the new set.\<close>

lemma set_commit:
  assumes cur: "coll_cur SSIZE (view (ldb s)) key v (chi S)" and sv: "coll_meta (chi S) v sv"
    and b: "item_batch key v b" "item_map key v (apply_batch b (view (ldb s))) = chi S'"
    and fin: "finite S'" "card S' < 2 ^ 63" and n: "n = int (card S') - int (card S)"
  shows "\<exists>s'. commit_incr R (incr_ssize R s key b sv (encode_meta_key key) n) = (if S' = {} then 0 else 1, s') \<and>
    set_rep (view (ldb s')) key S' \<and> touches_only key (view (ldb s)) (view (ldb s'))"
  using sc.commit_incr_rep [OF cur sv b, of n] fin n by (simp add: set_rep_def)

lemma sadd_loop_items:
  assumes "mv_version sv = v" "item_map key v (view (ldb s)) = chi S" "ret = 0 \<longrightarrow> S = {}"
    "distinct ms" "item_batch key v b" "item_map key v (apply_batch b (view (ldb s))) = chi T"
  shows "\<exists>b'. sadd_loop R s sv key ret ms a b = (0, a + int (card (set ms - S)), b') \<and>
    item_batch key v b' \<and> item_map key v (apply_batch b' (view (ldb s))) = chi (T \<union> (set ms - S))"
  using assms(4-6)
proof (induction ms arbitrary: a b T)
  case (Cons x ms)
  let ?k = "encode_set_key key x v"
  show ?case
  proof (cases "x \<in> S")
    case True
    with Cons.IH [OF _ Cons.prems(2,3), of a] Cons.prems(1) assms(1-3) show ?thesis
      by (auto simp: Let_def GetSetItemVal_view insert_Diff_if)
  next
    case False
    let ?b = "b @ [Put ?k []]"
    have "item_batch key v ?b" "item_map key v (apply_batch ?b (view (ldb s))) = chi (insert x T)"
      using Cons.prems(2,3) by simp_all
    moreover have "distinct ms" using Cons.prems(1) by simp
    ultimately obtain b' where b': "sadd_loop R s sv key ret ms (a + 1) ?b =
        (0, a + 1 + int (card (set ms - S)), b')" "item_batch key v b'"
      "item_map key v (apply_batch b' (view (ldb s))) = chi (insert x T \<union> (set ms - S))"
      using Cons.IH [of ?b "insert x T" "a + 1"] by blast
    have "sadd_loop R s sv key ret (x # ms) a b = sadd_loop R s sv key ret ms (a + 1) ?b"
      using False assms(1,2) by (simp add: Let_def GetSetItemVal_view)
    moreover have "insert x T \<union> (set ms - S) = T \<union> (set (x # ms) - S)" using False by auto
    ultimately show ?thesis
      using b' False Cons.prems(1) by (simp add: insert_Diff_if)
  qed
qed simp

lemma sadd_rep:
  assumes rep: "set_rep (view (ldb s)) key S" "S = {} \<longrightarrow> fresh (view (ldb s)) key"
    and ms: "distinct ms" and len: "card S + length ms < 2 ^ 63"
  shows "\<exists>s'. sadd R s key ms a = (if S \<union> set ms = {} then 0 else 1, int (card (set ms - S)), s') \<and>
    set_rep (view (ldb s')) key (S \<union> set ms) \<and> touches_only key (view (ldb s)) (view (ldb s'))"
proof -
  obtain v where cur: "coll_cur SSIZE (view (ldb s)) key v (chi S)"
    using set_rep_cur [OF rep] by blast
  note hD = coll_curD [OF cur, unfolded chi_simps]
  from sc.get_cur [OF cur] obtain sv where
    sv: "GetSetMetaVal R s (encode_meta_key key) = (if S = {} then 0 else 1, sv)" "coll_meta (chi S) v sv"
    by auto
  then have ver: "mv_version sv = v" by (simp add: coll_meta_def)
  let ?r = "if S = {} then 0 else 1 :: int"
  have r: "?r = 0 \<longrightarrow> S = {}" and e: "S \<union> (set ms - S) = S \<union> set ms" by auto
  have h0: "item_map key v (apply_batch [] (view (ldb s))) = chi S" using hD(3) by simp
  obtain b where
    b: "sadd_loop R s sv key ?r ms 0 [] = (0, 0 + int (card (set ms - S)), b)"
      "item_batch key v b" "item_map key v (apply_batch b (view (ldb s))) = chi (S \<union> set ms)"
    using sadd_loop_items [OF ver hD(3) r ms _ h0, of 0] unfolding e by auto
  have "card (S \<union> set ms) = card S + card (set ms - S)"
    using card_Un_disjoint [of S "set ms - S"] hD(1) by simp
  moreover have "card (set ms - S) \<le> length ms"
    using card_mono [of "set ms" "set ms - S"] card_length [of ms] by simp
  ultimately have "finite (S \<union> set ms)" "card (S \<union> set ms) < 2 ^ 63"
    "int (card (set ms - S)) = int (card (S \<union> set ms)) - int (card S)" using hD(1) len by auto
  from set_commit [OF cur sv(2) b(2,3) this] b(1) sv(1) show ?thesis
    by (auto simp: sadd_def saddNoLock_def Let_def)
qed

lemma srem_loop_items:
  assumes "mv_version sv = v" "item_map key v (view (ldb s)) = chi S"
    "distinct ms" "item_batch key v b" "item_map key v (apply_batch b (view (ldb s))) = chi T"
  shows "\<exists>b'. srem_loop R s sv key ms a b = (0, a + int (card (set ms \<inter> S)), b') \<and>
    item_batch key v b' \<and> item_map key v (apply_batch b' (view (ldb s))) = chi (T - (set ms \<inter> S))"
  using assms(3-5)
proof (induction ms arbitrary: a b T)
  case (Cons x ms)
  let ?k = "encode_set_key key x v"
  show ?case
  proof (cases "x \<in> S")
    case False
    with Cons.IH [OF _ Cons.prems(2,3), of a] Cons.prems(1) assms(1,2) show ?thesis
      by (auto simp: Let_def GetSetItemVal_view Int_insert_left)
  next
    case True
    let ?b = "b @ [Delete ?k]"
    have "item_batch key v ?b" "item_map key v (apply_batch ?b (view (ldb s))) = chi (T - {x})"
      using Cons.prems(2,3) by simp_all
    moreover have "distinct ms" using Cons.prems(1) by simp
    ultimately obtain b' where b': "srem_loop R s sv key ms (a + 1) ?b =
        (0, a + 1 + int (card (set ms \<inter> S)), b')" "item_batch key v b'"
      "item_map key v (apply_batch b' (view (ldb s))) = chi (T - {x} - (set ms \<inter> S))"
      using Cons.IH [of ?b "T - {x}" "a + 1"] by blast
    have "srem_loop R s sv key (x # ms) a b = srem_loop R s sv key ms (a + 1) ?b"
      using True assms(1,2) by (simp add: Let_def GetSetItemVal_view)
    moreover have "T - {x} - (set ms \<inter> S) = T - (set (x # ms) \<inter> S)" using True by auto
    ultimately show ?thesis
      using b' True Cons.prems(1) by (simp add: Int_insert_left)
  qed
qed simp

lemma set_remove_card:
  assumes "finite S" "card S < 2 ^ 63" "D \<subseteq> S"
  shows "finite (S - D)" "card (S - D) < 2 ^ 63" "- int (card D) = int (card (S - D)) - int (card S)"
proof -
  have f: "finite D" using assms finite_subset by blast
  show "finite (S - D)" using assms(1) by simp
  have "card (S - D) = card S - card D" "card D \<le> card S"
    using card_Diff_subset [OF f assms(3)] card_mono [OF assms(1,3)] by auto
  with assms(2) show "card (S - D) < 2 ^ 63" "- int (card D) = int (card (S - D)) - int (card S)"
    by auto
qed

lemma srem_rep:
  assumes rep: "set_rep (view (ldb s)) key S" and ms: "distinct (drop 2 args)"
  shows "if S = {} then srem R s key args = (0, 0, s)
    else \<exists>s'. srem R s key args =
        (if S \<subseteq> set (drop 2 args) then 0 else 1, int (card (set (drop 2 args) \<inter> S)), s') \<and>
      set_rep (view (ldb s')) key (S - set (drop 2 args)) \<and>
      touches_only key (view (ldb s)) (view (ldb s'))"
  using rep
proof (rule set_rep_cases)
  fix v sv
  assume A: "S \<noteq> {}" "coll_cur SSIZE (view (ldb s)) key v (chi S)" "coll_meta (chi S) v sv"
    "GetSetMetaVal R s (encode_meta_key key) = (1, sv)"
  let ?ms = "drop 2 args"
  note hD = coll_curD [OF A(2), unfolded chi_simps]
  have ver: "mv_version sv = v" using A(3) by (simp add: coll_meta_def)
  have d: "S - (set ?ms \<inter> S) = S - set ?ms" by auto
  have h0: "item_map key v (apply_batch [] (view (ldb s))) = chi S" using hD(3) by simp
  obtain b where
    b: "srem_loop R s sv key ?ms 0 [] = (0, 0 + int (card (set ?ms \<inter> S)), b)"
      "item_batch key v b" "item_map key v (apply_batch b (view (ldb s))) = chi (S - (set ?ms \<inter> S))"
    using srem_loop_items [OF ver hD(3) ms _ h0, of 0] by auto
  from set_commit [OF A(2,3) b(2,3) set_remove_card [OF hD(1,2) Int_lower2]] d obtain s' where
    "commit_incr R (incr_ssize R s key b sv (encode_meta_key key) (- int (card (set ?ms \<inter> S)))) =
       (if S - set ?ms = {} then 0 else 1, s')"
    "set_rep (view (ldb s')) key (S - set ?ms)" "touches_only key (view (ldb s)) (view (ldb s'))"
    by auto
  with b(1) A(1,4) show ?thesis by (simp add: srem_def Let_def Diff_eq_empty_iff)
qed (simp add: srem_def Let_def)

lemma scard_rep:
  assumes "set_rep (view (ldb s)) key S"
  shows "scard R s key = (if S = {} then 0 else 1, word_of_nat (card S))"
  using assms by (rule set_rep_cases) (auto simp: scard_def coll_meta_def)

lemma sismember_rep:
  assumes "set_rep (view (ldb s)) key S"
  shows "sismember R s key x a = (1, x \<in> S)"
  using assms
proof (rule set_rep_cases)
  fix v sv
  assume "coll_cur SSIZE (view (ldb s)) key v (chi S)" "coll_meta (chi S) v sv"
    "GetSetMetaVal R s (encode_meta_key key) = (1, sv)"
  with coll_curD(3) [OF this(1)] show ?thesis
    by (simp add: sismember_def coll_meta_def GetSetItemVal_view Let_def)
qed (simp add: sismember_def)

end

subsection \<open>Drawing members\<close>

context rocksdb_iter
begin

lemma smembers_loop_scan:
  assumes "yields FORWARD fwd (s_it it) es" "item_scan (s_name it) (s_version it) es = l"
  shows "smembers_loop R it out = out @ map fst l"
  using assms
proof (induction l arbitrary: it es out)
  case Nil
  with fw.SIterator_next_scan [OF Nil(1)] show ?case by (auto simp: smembers_loop.simps [of R it])
next
  case (Cons e l)
  obtain f x where e: "e = (f, x)" by force
  from fw.SIterator_next_scan [OF Cons.prems(1)] Cons.prems(2) obtain it' es' where
    "SIterator_next R it = (True, it')" "s_key it' = f" "s_name it' = s_name it"
    "s_version it' = s_version it" "yields FORWARD fwd (s_it it') es'"
    "item_scan (s_name it) (s_version it) es' = l"
    by (auto simp: e)
  with Cons.IH [of it' es'] show ?case by (simp add: e smembers_loop.simps [of R it])
qed

lemma take_loop_scan:
  assumes "yields FORWARD fwd (s_it it) es" "item_scan (s_name it) (s_version it) es = l"
    "unat i + length l < 2 ^ 64"
  shows "take_loop R it i start cnt found out =
    out @ take (nat (cnt - found)) (drop (unat start - unat i) (map fst l))"
  using assms
proof (induction l arbitrary: it es i found out)
  case Nil
  with fw.SIterator_next_scan [OF Nil(1)] show ?case by (auto simp: take_loop.simps [of R it])
next
  case (Cons e l)
  obtain f x where e: "e = (f, x)" by force
  from fw.SIterator_next_scan [OF Cons.prems(1)] Cons.prems(2) obtain it' es' where
    it': "SIterator_next R it = (True, it')" "s_key it' = f" "s_name it' = s_name it"
    "s_version it' = s_version it" "yields FORWARD fwd (s_it it') es'"
    "item_scan (s_name it) (s_version it) es' = l"
    by (auto simp: e)
  have i: "unat (i + 1) = unat i + 1" using Cons.prems(3) by (simp add: unat_word_ariths)
  note IH = Cons.IH [of it' es' "i + 1"]
  show ?case
  proof (cases "found < cnt")
    case True
    show ?thesis
    proof (cases "i < start")
      case less: True
      then have "unat start - unat i = Suc (unat start - unat (i + 1))"
        using i by (simp add: word_less_nat_alt)
      with True less IH [of found out] it' Cons.prems(3) i show ?thesis
        by (simp add: take_loop.simps [of R it] e)
    next
      case False
      then have "unat start - unat i = 0" "unat start - unat (i + 1) = 0"
        using i by (simp_all add: word_less_nat_alt)
      moreover have "nat (cnt - found) = Suc (nat (cnt - (found + 1)))" using True by simp
      ultimately show ?thesis
        using True False IH [of "found + 1" "out @ [f]"] it' Cons.prems(3) i
        by (simp add: take_loop.simps [of R it] e)
    qed
  qed (simp add: take_loop.simps [of R it])
qed

lemma sscan_items:
  assumes "item_map key v (view (ldb s)) = chi S" "long_enough key" "card (dom (view (ldb s))) < 2 ^ 64"
  shows "\<exists>es. yields FORWARD fwd (s_it (sscan_internal R s key v)) es \<and>
    item_scan key v es = map (\<lambda>x. (x, [])) (sorted_list_of_set S)"
    "s_name (sscan_internal R s key v) = key" "s_version (sscan_internal R s key v) = v"
    "card S < 2 ^ 64"
proof -
  let ?p = "encode_key_internal ITEM key [] v"
  let ?es = "filter (\<lambda>e. ?p \<le> fst e) (sorted_entries (view (ldb s)))"
  have y: "yields FORWARD fwd (s_it (sscan_internal R s key v)) ?es"
    using yields_iterator [OF assms(3), of ?p]
    by (simp add: sscan_internal_def SIterator_init_def encode_set_key_def)
  have "sorted_entries (chi S) = map (\<lambda>x. (x, [])) (sorted_list_of_set S)"
    by (cases "finite S") (auto simp: sorted_entries_def chi_mem)
  then have i: "item_scan key v ?es = map (\<lambda>x. (x, [])) (sorted_list_of_set S)"
    using item_scan_fields [OF assms(2) finite_view, of v "ldb s"] assms(1) by (simp add: item_map_def)
  from y i show "\<exists>es. yields FORWARD fwd (s_it (sscan_internal R s key v)) es \<and>
    item_scan key v es = map (\<lambda>x. (x, [])) (sorted_list_of_set S)" by blast
  show "s_name (sscan_internal R s key v) = key" "s_version (sscan_internal R s key v) = v"
    by (simp_all add: sscan_internal_def SIterator_init_def)
  have "(\<lambda>f. encode_key_internal ITEM key f v) ` S \<subseteq> dom (view (ldb s))"
    using assms(1) by (auto simp: item_map_def chi_def fun_eq_iff domIff split: if_splits)
  from card_mono [OF finite_view this] assms(3) show "card S < 2 ^ 64"
    by (simp add: card_image inj_on_def)
qed

lemma smembers_loop_set:
  assumes "item_map key v (view (ldb s)) = chi S" "long_enough key" "card (dom (view (ldb s))) < 2 ^ 64"
  shows "smembers_loop R (sscan_internal R s key v) out = out @ sorted_list_of_set S"
  using sscan_items [OF assms] smembers_loop_scan [of "sscan_internal R s key v"]
  by (fastforce simp: comp_def)

lemma take_loop_set:
  assumes "item_map key v (view (ldb s)) = chi S" "long_enough key" "card (dom (view (ldb s))) < 2 ^ 64"
  shows "take_loop R (sscan_internal R s key v) 0 start cnt 0 out =
    out @ take (nat cnt) (drop (unat start) (sorted_list_of_set S))"
  using sscan_items [OF assms] take_loop_scan [of "sscan_internal R s key v" _ _ 0 start cnt 0 out]
  by (fastforce simp: comp_def)

lemma smembers_rep:
  assumes "set_rep (view (ldb s)) key S" "long_enough key" "card (dom (view (ldb s))) < 2 ^ 64"
  shows "smembers R s key = (if S = {} then 0 else 1, sorted_list_of_set S)"
  using assms(1)
proof (rule set_rep_cases)
  fix v sv
  assume A: "S \<noteq> {}" "coll_cur SSIZE (view (ldb s)) key v (chi S)" "coll_meta (chi S) v sv"
    "GetSetMetaVal R s (encode_meta_key key) = (1, sv)"
  from smembers_loop_set [OF coll_curD(3) [OF A(2)] assms(2,3), of "[]"] A show ?thesis
    by (simp add: smembers_def coll_meta_def)
qed (simp add: smembers_def)

end

lemma draw_window_ok:
  assumes "n < 2 ^ 63" "0 < n" "0 \<le> cnt" "int64 cnt"
  shows "case draw_window cnt (word_of_nat n) rnd of
      None \<Rightarrow> INT_MAX < cnt \<and> cnt < int n
    | Some (c, start) \<Rightarrow> c = min cnt (int n) \<and> unat start + nat c \<le> n \<and>
        \<not> (INT_MAX < cnt \<and> cnt < int n)"
proof -
  let ?n = "word_of_nat n :: u64"
  have un: "unat ?n = n" using assms(1) by (simp add: unat_of_nat)
  have uc: "unat (word_of_int cnt :: u64) = nat cnt"
    using assms(3,4) by (simp add: unat_eq_nat_uint uint_word_of_int int64_def)
  have ge: "word_of_int cnt \<ge> ?n \<longleftrightarrow> int n \<le> cnt"
    using un uc assms(3) by (simp add: word_le_nat_alt nat_le_iff) linarith
  have sn: "sint ?n = int n"
    using sint_word_of_int64 [of "int n"] assms(1) by (simp add: int64_def)
  show ?thesis
  proof (cases "int n \<le> cnt")
    case True
    with ge sn show ?thesis by (simp add: draw_window_def min_def)
  next
    case False
    let ?m = "?n - word_of_int cnt + 1"
    have "unat (?n - word_of_int cnt) = n - nat cnt"
      using False un uc assms(3) by (subst unat_sub) (auto simp: word_le_nat_alt)
    then have um: "unat ?m = n - nat cnt + 1"
      using assms(1) by (simp add: unat_word_ariths)
    let ?k = "if ?m > 100 then 100 else ?m"
    have k: "unat ?k \<le> n - nat cnt + 1" "unat ?k > 0"
      using um by (auto simp: word_less_nat_alt)
    have "unat (word_of_nat rnd :: u64) mod unat ?k < unat ?k"
      using k(2) by (rule mod_less_divisor)
    then have "unat (word_of_nat rnd mod ?k) < n - nat cnt + 1"
      unfolding unat_mod_distrib using k(1) by (rule less_le_trans)
    with False ge assms(3) show ?thesis
      by (auto simp: draw_window_def Let_def min_def)
  qed
qed

text \<open>The members a window selects are distinct members, as many as asked for.\<close>

lemma window_members:
  assumes "finite S" "start + c \<le> card S" "ms = take c (drop start (sorted_list_of_set S))"
  shows "distinct ms" "set ms \<subseteq> S" "length ms = c"
  using assms set_take_subset [of c "drop start (sorted_list_of_set S)"]
    set_drop_subset [of start "sorted_list_of_set S"]
  by (auto simp: min_def)

lemma map_delete_items:
  assumes "item_map key v m = chi S"
  shows "item_batch key v (map (\<lambda>x. Delete (encode_set_key key x v)) ms)"
    "item_map key v (apply_batch (map (\<lambda>x. Delete (encode_set_key key x v)) ms) m) = chi (S - set ms)"
  using assms
proof (induction ms arbitrary: m S)
  case (Cons x ms)
  { case 1 then show ?case using Cons.IH(1) by simp }
  { case 2
    then have "item_map key v (m(encode_set_key key x v := None)) = chi (S - {x})" by simp
    then have "item_map key v (apply_batch (map (\<lambda>x. Delete (encode_set_key key x v)) ms)
        (m(encode_set_key key x v := None))) = chi (S - {x} - set ms)" by (rule Cons.IH(2))
    moreover have "S - {x} - set ms = S - set (x # ms)" by auto
    ultimately show ?case by simp }
qed simp_all

context rocksdb_iter
begin

lemma spop_rep:
  assumes rep: "set_rep (view (ldb s)) key S" and key: "long_enough key" "card (dom (view (ldb s))) < 2 ^ 64"
    and cnt: "0 \<le> cnt" "int64 cnt"
  shows "if S = {} then spop R rnd s key cnt = (0, [], s)
    else if INT_MAX < cnt \<and> cnt < int (card S) then spop R rnd s key cnt = (INVALID_INT, [], s)
    else \<exists>ms s'. spop R rnd s key cnt = (if int (card S) \<le> cnt then 0 else 1, ms, s') \<and>
      distinct ms \<and> set ms \<subseteq> S \<and> int (length ms) = min cnt (int (card S)) \<and>
      set_rep (view (ldb s')) key (S - set ms) \<and> touches_only key (view (ldb s)) (view (ldb s'))"
  using rep
proof (rule set_rep_cases)
  fix v sv
  assume A: "S \<noteq> {}" "coll_cur SSIZE (view (ldb s)) key v (chi S)" "coll_meta (chi S) v sv"
    "GetSetMetaVal R s (encode_meta_key key) = (1, sv)"
  note hD = coll_curD [OF A(2), unfolded chi_simps]
  have sv: "mv_version sv = v" "mv_length sv = word_of_nat (card S)" "mv_length sv \<noteq> 0"
    using A(1,3) card_word_0 [of "chi S"] hD by (auto simp: coll_meta_def)
  have "0 < card S" using A(1) hD(1) by (simp add: card_gt_0_iff)
  note win = draw_window_ok [OF hD(2) this cnt, of rnd]
  show ?thesis
  proof (cases "draw_window cnt (word_of_nat (card S)) rnd")
    case None
    with win A sv cnt show ?thesis by (simp add: spop_def Let_def)
  next
    case (Some p)
    obtain c start where p: "p = (c, start)" by force
    with Some win have c: "c = min cnt (int (card S))" "unat start + nat c \<le> card S" by auto
    define ms where "ms = take (nat c) (drop (unat start) (sorted_list_of_set S))"
    note m = window_members [OF hD(1) c(2) ms_def]
    have loop: "take_loop R (sscan_internal R s key v) 0 start c 0 [] = ms"
      using take_loop_set [OF hD(3) key, of start c "[]"] by (simp add: ms_def)
    let ?b = "map (\<lambda>x. Delete (encode_set_key key x v)) ms"
    have card: "card (set ms) = length ms" using m(1) by (rule distinct_card)
    have len: "int (length ms) = min cnt (int (card S))" using m(3) c(1) cnt(1) by simp
    have all: "S - set ms = {} \<longleftrightarrow> int (card S) \<le> cnt"
    proof
      assume "S - set ms = {}"
      then have "S = set ms" using m(2) by blast
      then show "int (card S) \<le> cnt" using card len by simp
    next
      assume "int (card S) \<le> cnt"
      then have "card (set ms) = card S" using card len by simp
      then show "S - set ms = {}" using card_subset_eq [OF hD(1) m(2)] by simp
    qed
    obtain s' where "commit_incr R (incr_ssize R s key ?b sv (encode_meta_key key) (- int (length ms))) =
        (if int (card S) \<le> cnt then 0 else 1, s')"
      "set_rep (view (ldb s')) key (S - set ms)" "touches_only key (view (ldb s)) (view (ldb s'))"
      using set_commit [OF A(2,3) map_delete_items [OF hD(3)] set_remove_card [OF hD(1,2) m(2)]]
      unfolding all card by blast
    moreover have "\<not> (INT_MAX < cnt \<and> cnt < int (card S))" using Some p win by auto
    ultimately show ?thesis
      using A(1,4) sv cnt(1) Some p loop m(1,2) len
      by (auto simp: spop_def Let_def)
  qed
qed (simp add: spop_def Let_def)

end

text \<open>The number of full rounds and what is left of a negative count.\<close>

lemma repeat_count:
  assumes "N \<le> 2147483647" "0 < n" "n < 2 ^ 63"
  defines "q \<equiv> word_of_int (int N) div word_of_nat n :: u64"
  shows "sint (ucast q :: 32 word) = int (N div n)"
    "sint (word_of_int (int N) - word_of_int (int (N div n)) * word_of_nat n :: u64) = int (N mod n)"
proof -
  have "unat (word_of_int (int N) :: u64) = N" "unat (word_of_nat n :: u64) = n"
    using assms(1,3) by (simp_all add: unat_of_nat)
  then have uq: "unat q = N div n" by (simp add: unat_div_distrib q_def)
  have "N div n \<le> 2147483647" using assms(1) div_le_dividend le_trans by blast
  then have "sint (word_of_int (int (N div n)) :: 32 word) = int (N div n)"
    by (simp add: sint_sbintrunc' signed_take_bit_int_eq_self del: of_int_of_nat_eq)
  then show "sint (ucast q :: 32 word) = int (N div n)"
    using of_nat_unat [of q, where 'a = "32 word"] unfolding uq by simp
  have "int (N mod n) = int N - int (N div n) * int n"
    by (metis add_diff_cancel_left' div_mult_mod_eq of_nat_add of_nat_mult)
  then have "word_of_int (int N) - word_of_int (int (N div n)) * word_of_nat n = (word_of_int (int (N mod n)) :: u64)"
    by simp
  moreover have "N mod n < n" using assms(2) by auto
  ultimately show "sint (word_of_int (int N) - word_of_int (int (N div n)) * word_of_nat n :: u64) = int (N mod n)"
    using sint_word_of_int64 [of "int (N mod n)"] assms(3) by (simp add: int64_def)
qed

context rocksdb_iter
begin

lemma full_repeats_set:
  assumes "item_map key v (view (ldb s)) = chi S" "long_enough key" "card (dom (view (ldb s))) < 2 ^ 64"
  shows "full_repeats R s key v k out = out @ concat (replicate k (sorted_list_of_set S))"
  by (induction k arbitrary: out) (simp_all add: smembers_loop_set [OF assms])

lemma srandmember_draw:
  assumes S: "item_map key v (view (ldb s)) = chi S" "finite S" "card S < 2 ^ 63" "S \<noteq> {}"
    and key: "long_enough key" "card (dom (view (ldb s))) < 2 ^ 64"
    and cnt: "0 \<le> cnt" "int64 cnt" "\<not> (INT_MAX < cnt \<and> cnt < int (card S))"
  obtains c start where "draw_window cnt (word_of_nat (card S)) rnd = Some (c, start)"
    "\<And>out. \<exists>ms. take_loop R (sscan_internal R s key v) 0 start c 0 out = out @ ms \<and>
       distinct ms \<and> set ms \<subseteq> S \<and> int (length ms) = min cnt (int (card S))"
proof -
  have "0 < card S" using S(2,4) by (simp add: card_gt_0_iff)
  note win = draw_window_ok [OF S(3) this cnt(1,2), of rnd]
  with cnt(3) obtain c start where d: "draw_window cnt (word_of_nat (card S)) rnd = Some (c, start)"
    by (cases "draw_window cnt (word_of_nat (card S)) rnd") auto
  with win have c: "c = min cnt (int (card S))" "unat start + nat c \<le> card S" by auto
  note m = window_members [OF S(2) c(2) refl]
  have "\<exists>ms. take_loop R (sscan_internal R s key v) 0 start c 0 out = out @ ms \<and>
      distinct ms \<and> set ms \<subseteq> S \<and> int (length ms) = min cnt (int (card S))" for out
    using take_loop_set [OF S(1) key, of start c out] m c(1) cnt(1) by auto
  with d show ?thesis by (rule that)
qed

lemma srandmember_rep:
  assumes rep: "set_rep (view (ldb s)) key S" and key: "long_enough key" "card (dom (view (ldb s))) < 2 ^ 64"
    and cnt: "int64 cnt" "- INT_MAX \<le> cnt"
  shows "if S = {} then srandmember R rnd s key cnt = (0, [])
    else if cnt < 0 then \<exists>ms. srandmember R rnd s key cnt = (1, ms) \<and> set ms \<subseteq> S \<and> int (length ms) = - cnt
    else if INT_MAX < cnt \<and> cnt < int (card S) then srandmember R rnd s key cnt = (INVALID_INT, [])
    else \<exists>ms. srandmember R rnd s key cnt = (1, ms) \<and>
      distinct ms \<and> set ms \<subseteq> S \<and> int (length ms) = min cnt (int (card S))"
  using rep
proof (rule set_rep_cases)
  fix v sv
  assume A: "S \<noteq> {}" "coll_cur SSIZE (view (ldb s)) key v (chi S)" "coll_meta (chi S) v sv"
    "GetSetMetaVal R s (encode_meta_key key) = (1, sv)"
  note hD = coll_curD [OF A(2), unfolded chi_simps]
  have sv: "mv_version sv = v" "mv_length sv = word_of_nat (card S)" "mv_length sv \<noteq> 0"
    using A(1,3) card_word_0 [of "chi S"] hD by (auto simp: coll_meta_def)
  note draw = srandmember_draw [OF hD(3,1,2) A(1) key]
  show ?thesis
  proof (cases "cnt < 0")
    case False
    show ?thesis
    proof (cases "INT_MAX < cnt \<and> cnt < int (card S)")
      case True
      have "0 < card S" using A(1) hD(1) by (simp add: card_gt_0_iff)
      from draw_window_ok [OF hD(2) this _ cnt(1), of rnd] True
      have "draw_window cnt (word_of_nat (card S)) rnd = None"
        by (cases "draw_window cnt (word_of_nat (card S)) rnd") auto
      with True False A(1,4) sv show ?thesis by (simp add: srandmember_def Let_def)
    next
      case small: False
      from draw [of cnt rnd] False cnt(1) small obtain c start ms where
        "draw_window cnt (word_of_nat (card S)) rnd = Some (c, start)"
        "take_loop R (sscan_internal R s key v) 0 start c 0 [] = ms" "distinct ms" "set ms \<subseteq> S"
        "int (length ms) = min cnt (int (card S))" by (metis append_Nil not_less)
      with False small A(1,4) sv show ?thesis by (simp add: srandmember_def Let_def)
    qed
  next
    case True
    define N where "N = nat (- cnt)"
    define n where "n = card S"
    have N: "- cnt = int N" "N \<le> 2147483647" using True cnt(2) by (auto simp: N_def)
    have n: "0 < n" "n < 2 ^ 63" using A(1) hD(1,2) by (simp_all add: card_gt_0_iff n_def)
    note rc = repeat_count [OF N(2) n]
    have "N mod n < n" using n(1) by auto
    have "int64 (int (N mod n))" "\<not> (INT_MAX < int (N mod n) \<and> int (N mod n) < int (card S))"
      using order_trans [OF mod_less_eq_dividend [of N n] N(2)] by (auto simp: int64_def)
    from draw [OF _ this, of rnd] obtain c start where
      d: "draw_window (int (N mod n)) (word_of_nat (card S)) rnd = Some (c, start)"
      "\<And>out. \<exists>ms. take_loop R (sscan_internal R s key v) 0 start c 0 out = out @ ms \<and>
        distinct ms \<and> set ms \<subseteq> S \<and> int (length ms) = min (int (N mod n)) (int (card S))" by auto
    let ?out = "concat (replicate (N div n) (sorted_list_of_set S))"
    from d(2) [of ?out] obtain ms where
      ms: "take_loop R (sscan_internal R s key v) 0 start c 0 ?out = ?out @ ms" "set ms \<subseteq> S"
        "int (length ms) = min (int (N mod n)) (int (card S))" by blast
    have run: "srandmember R rnd s key cnt = (1, ?out @ ms)"
      using True A(4) sv(3) ms(1) d(1) full_repeats_set [OF hD(3) key, of "N div n" "[]"]
      unfolding srandmember_def Let_def A(4) prod.case sv(1,2) N(1) rc [unfolded n_def] n_def
      by simp
    have "length ?out = N div n * n" by (simp add: length_concat sum_list_replicate n_def)
    then have "length (?out @ ms) = N"
      using ms(3) \<open>N mod n < n\<close> by (simp add: n_def min_def)
    moreover have "set (?out @ ms) \<subseteq> S" using ms(2) hD(1) by auto
    ultimately show ?thesis using True A(1) run N(1) by auto
  qed
qed (simp add: srandmember_def)

end

subsection \<open>A member named twice\<close>

context rocksdb_healthy
begin

lemma srem_twice:
  assumes rep: "set_rep (view (ldb s)) key S" and S: "card S = 2" "x \<in> S"
  shows "\<exists>s'. srem R s key [c, key, x, x] = (0, 2, s') \<and> scard R s' key = (0, 0)"
  using rep
proof (rule set_rep_cases)
  fix v sv
  assume A: "S \<noteq> {}" "coll_cur SSIZE (view (ldb s)) key v (chi S)" "coll_meta (chi S) v sv"
    "GetSetMetaVal R s (encode_meta_key key) = (1, sv)"
  note hD = coll_curD [OF A(2), unfolded chi_simps]
  have sv: "mv_version sv = v" "mv_length sv = 2" using A(3) S(1) by (simp_all add: coll_meta_def)
  let ?k = "encode_set_key key x v" let ?b = "[Delete ?k, Delete ?k]"
  have loop: "srem_loop R s sv key [x, x] 0 [] = (0, 2, ?b)"
    using S(2) sv hD(3) by (simp add: Let_def GetSetItemVal_view)
  have "sint (mv_length sv) = 2" by (simp add: sv)
  then obtain y b' s' where c: "cancelExpiration R s key (?b @ [Put (encode_delete_key key v) [],
        Put (encode_meta_key key) (encode_meta_val_internal SSIZE (mv_length sv) v KEY_DELETE_MASK)]) = (y, b', s')"
      "incr_ssize R s key ?b sv (encode_meta_key key) (- 2) = (0, b', s')"
    using sc.incr_last [of sv "- 2" s key ?b] sv(1) by auto
  note del = cancel_deleted [OF c(1), unfolded encode_meta_val_internal_def, of "view (ldb s)" SSIZE v]
  let ?s = "s'\<lparr>ldb := snd (db_Write R (ldb s') b')\<rparr>"
  have "srem R s key [c, key, x, x] = (0, 2, ?s)"
    using A(4) loop c(2) by (simp add: srem_def Let_def commit_incr_def CommitBatch_view)
  moreover have "absent (view (ldb ?s)) key (next_version v)"
    using del(1,2) by (simp add: Write_view encode_set_key_def)
  from sc.get_absent [OF this] have "scard R ?s key = (0, 0)"
    by (auto simp: scard_def coll_meta_def)
  ultimately show ?thesis by blast
qed (use S in simp)

end

section \<open>Properties\<close>

text \<open>A database with the set of \<open>a\<close> and \<open>b\<close> under the key \<open>s\<close>.\<close>

definition set_example :: "(bytes \<times> bytes) list ssdb" where
  "set_example = empty_store\<lparr>ldb :=
     [(encode_meta_key [115], encode_set_meta_val 2 0 KEY_ENABLED_MASK),
      (encode_set_key [115] [97] 0, []), (encode_set_key [115] [98] 0, [])]\<rparr>"

lemma set_example_rep: "set_rep (map_of (ldb set_example)) [115] {[97], [98]}"
proof -
  have "item_map [115] 0 (map_of (ldb set_example)) = chi {[97], [98]}"
    by (auto simp: set_example_def item_map_def encode_set_key_def chi_def fun_eq_iff)
  then have "coll_at SSIZE (map_of (ldb set_example)) [115] 0 (chi {[97], [98]})"
    by (simp add: coll_at_def set_example_def encode_set_meta_val_def)
  then show ?thesis by (auto simp: coll_rep_def set_rep_def)
qed

lemma set_example_size: "card (dom (map_of (ldb set_example))) < 2 ^ 64"
proof -
  have "card (dom (map_of (ldb set_example))) \<le> 3"
    using card_image_le [of "set (ldb set_example)" fst] card_length [of "ldb set_example"]
    by (simp add: dom_map_of_conv_image_fst set_example_def)
  then show ?thesis by simp
qed

text \<open>
  C7: \<open>sadd\<close> adds the given members and reports how many are new; the stored counter stays
  the number of members and no physical key of another logical key changes.
\<close>

theorem set_add_correct:
  assumes "rocksdb_healthy R view" "set_rep (view (ldb s)) key S" "S = {} \<longrightarrow> fresh (view (ldb s)) key"
    "distinct ms" "card S + length ms < 2 ^ 63"
  shows "\<exists>s'. sadd R s key ms a = (if S \<union> set ms = {} then 0 else 1, int (card (set ms - S)), s') \<and>
    set_rep (view (ldb s')) key (S \<union> set ms) \<and> touches_only key (view (ldb s)) (view (ldb s'))"
  by (rule rocksdb_healthy.sadd_rep [OF assms])

theorem set_add_correct_witness:
  "\<exists>s'. sadd mem_rocksdb set_example [115] [[97], [99]] 0 = (1, 1, s') \<and>
     set_rep (map_of (ldb s')) [115] {[97], [98], [99]}"
proof -
  have "{[97], [98 :: byte]} \<union> set [[97], [99]] = {[97], [98], [99]}" by auto
  then show ?thesis
    using set_add_correct [OF mem.rocksdb_healthy_axioms set_example_rep, of "[[97], [99]]" 0] by auto
qed

text \<open>
  \<open>srem\<close> removes the members named from position 2 of the request on and reports how
  many there were, if no member is named twice; removing the last one deletes the key.
\<close>

theorem set_rem_correct:
  assumes "rocksdb_healthy R view" "set_rep (view (ldb s)) key S" "distinct (drop 2 args)"
  shows "if S = {} then srem R s key args = (0, 0, s)
    else \<exists>s'. srem R s key args =
        (if S \<subseteq> set (drop 2 args) then 0 else 1, int (card (set (drop 2 args) \<inter> S)), s') \<and>
      set_rep (view (ldb s')) key (S - set (drop 2 args)) \<and>
      touches_only key (view (ldb s)) (view (ldb s'))"
  by (rule rocksdb_healthy.srem_rep [OF assms])

theorem set_rem_correct_witness:
  "\<exists>s'. srem mem_rocksdb set_example [115] [[0], [115], [97], [99]] = (1, 1, s') \<and>
     set_rep (map_of (ldb s')) [115] {[98]}"
proof -
  have "{[97], [98 :: byte]} - {[97], [99]} = {[98]}" "{[97], [99 :: byte]} \<inter> {[97], [98]} = {[97]}" by auto
  then show ?thesis
    using set_rem_correct [OF mem.rocksdb_healthy_axioms set_example_rep, of "[[0], [115], [97], [99]]"]
    by auto
qed

text \<open>
  A member named twice in \<open>srem\<close> is counted twice, because the loop looks members up in
  the database and not in the batch. On a set of two members, removing one of them under
  its name given twice reports two removals and deletes the whole set.
\<close>

theorem set_rem_duplicate:
  assumes "rocksdb_healthy R view" "set_rep (view (ldb s)) key S" "card S = 2" "x \<in> S"
  shows "\<exists>s'. srem R s key [c, key, x, x] = (0, 2, s') \<and> scard R s' key = (0, 0)"
  by (rule rocksdb_healthy.srem_twice [OF assms])

theorem set_rem_duplicate_witness:
  "\<exists>s'. srem mem_rocksdb set_example [115] [[0], [115], [97], [97]] = (0, 2, s') \<and>
     scard mem_rocksdb s' [115] = (0, 0)"
  using set_rem_duplicate [OF mem.rocksdb_healthy_axioms set_example_rep, of "[97]" "[0]"] by simp

text \<open>
  Reading a set: \<open>sismember\<close> is membership, \<open>scard\<close> the number of members, and
  \<open>smembers\<close> lists every member exactly once, in ascending order.
\<close>

theorem set_read_correct:
  assumes "rocksdb_iter R view fwd" "set_rep (view (ldb s)) key S" "long_enough key"
    "card (dom (view (ldb s))) < 2 ^ 64"
  shows "sismember R s key x a = (1, x \<in> S) \<and>
    scard R s key = (if S = {} then 0 else 1, word_of_nat (card S)) \<and>
    smembers R s key = (if S = {} then 0 else 1, sorted_list_of_set S)"
proof -
  have h: "rocksdb_healthy R view" using assms(1) by (simp add: rocksdb_iter_def)
  show ?thesis
    using rocksdb_healthy.sismember_rep [OF h assms(2)] rocksdb_healthy.scard_rep [OF h assms(2)]
      rocksdb_iter.smembers_rep [OF assms] by simp
qed

theorem set_read_correct_witness:
  "smembers mem_rocksdb set_example [115] = (1, [[97], [98]]) \<and> scard mem_rocksdb set_example [115] = (1, 2)"
proof -
  have "sorted_list_of_set {[97], [98 :: byte]} = [[97], [98]]" by simp
  then show ?thesis
    using set_read_correct [OF mem.rocksdb_iter_axioms set_example_rep _ set_example_size, of "[97]" False]
    by simp
qed

text \<open>
  \<open>spop\<close> with a count removes exactly that many distinct members, or all of them,
  whatever the random number, returns them, and keeps the others.
\<close>

theorem set_pop_correct:
  assumes "rocksdb_iter R view fwd" "set_rep (view (ldb s)) key S" "long_enough key"
    "card (dom (view (ldb s))) < 2 ^ 64" "0 \<le> cnt" "int64 cnt"
  shows "if S = {} then spop R rnd s key cnt = (0, [], s)
    else if INT_MAX < cnt \<and> cnt < int (card S) then spop R rnd s key cnt = (INVALID_INT, [], s)
    else \<exists>ms s'. spop R rnd s key cnt = (if int (card S) \<le> cnt then 0 else 1, ms, s') \<and>
      distinct ms \<and> set ms \<subseteq> S \<and> int (length ms) = min cnt (int (card S)) \<and>
      set_rep (view (ldb s')) key (S - set ms) \<and> touches_only key (view (ldb s)) (view (ldb s'))"
  by (rule rocksdb_iter.spop_rep [OF assms])

theorem set_pop_correct_witness:
  "\<exists>ms s'. spop mem_rocksdb 4 set_example [115] 1 = (1, ms, s') \<and> length ms = 1 \<and>
     set ms \<subseteq> {[97], [98]} \<and> set_rep (map_of (ldb s')) [115] ({[97], [98]} - set ms)"
  using set_pop_correct [OF mem.rocksdb_iter_axioms set_example_rep _ set_example_size, of 1 4]
  by (auto simp: int64_def)

text \<open>
  \<open>srandmember\<close> returns as many members as asked for: distinct ones for a positive
  count (all of them when there are not enough), and exactly the given number, with
  repetitions, for a negative count.
\<close>

theorem set_randmember_correct:
  assumes "rocksdb_iter R view fwd" "set_rep (view (ldb s)) key S" "long_enough key"
    "card (dom (view (ldb s))) < 2 ^ 64" "int64 cnt" "- INT_MAX \<le> cnt"
  shows "if S = {} then srandmember R rnd s key cnt = (0, [])
    else if cnt < 0 then \<exists>ms. srandmember R rnd s key cnt = (1, ms) \<and> set ms \<subseteq> S \<and> int (length ms) = - cnt
    else if INT_MAX < cnt \<and> cnt < int (card S) then srandmember R rnd s key cnt = (INVALID_INT, [])
    else \<exists>ms. srandmember R rnd s key cnt = (1, ms) \<and>
      distinct ms \<and> set ms \<subseteq> S \<and> int (length ms) = min cnt (int (card S))"
  by (rule rocksdb_iter.srandmember_rep [OF assms])

theorem set_randmember_correct_witness:
  "\<exists>ms. srandmember mem_rocksdb 1 set_example [115] (-5) = (1, ms) \<and> length ms = 5"
  using set_randmember_correct [OF mem.rocksdb_iter_axioms set_example_rep _ set_example_size, of "-5" 1]
  by (auto simp: int64_def)

end
