(* ===== verification/TList.thy ===== *)
theory TList
  imports Expiration
begin

text \<open>
  The list type, \<^verbatim>\<open>src/src/storage/t_list.cpp\<close>. A list is a window of consecutive
  64-bit sequence numbers, from \<open>left_seq\<close> to \<open>right_seq\<close>, that wraps around at both
  ends; the meta value holds the length and the two ends, and each element is stored
  under its sequence number. The abstract value of a key is a list of byte strings
  (\<open>list_rep\<close>), and every operation is shown to implement its effect on that list.
\<close>

section \<open>Operations\<close>

datatype LIST_POSITION = HEAD | TAIL

definition GetListItemValInternal ::
  "('db, 'it) rocksdb \<Rightarrow> 'db ssdb \<Rightarrow> bytes \<Rightarrow> int \<times> bytes" where
  "GetListItemValInternal R s item_key =
     (case db_Get R (ldb s) item_key of
        GetNotFound \<Rightarrow> (0, []) | GetError \<Rightarrow> (-1, []) | GetOk val \<Rightarrow> (1, val))"

definition EncodeValueListMeta :: "ListMetaVal \<Rightarrow> bytes" where
  "EncodeValueListMeta lv =
     encode_list_meta_val (mv_length lv) (left_seq lv) (right_seq lv) (mv_version lv) (mv_del lv)"

definition getSeqByIndex :: "int \<Rightarrow> ListMetaVal \<Rightarrow> u64" where
  "getSeqByIndex index lv =
     (if left_seq lv > right_seq lv then
        if index \<ge> 0 then
          let u = word_of_int index in
          if UINT64_MAX - left_seq lv \<ge> u then left_seq lv + u
          else u + left_seq lv - UINT64_MAX - 1
        else
          let u = word_of_int (- index - 1) in
          if right_seq lv \<ge> u then right_seq lv - u
          else UINT64_MAX - u + right_seq lv + 1
      else
        if index \<ge> 0 then left_seq lv + word_of_int index
        else right_seq lv - word_of_int (- index - 1))"

definition GetListMetaVal :: "('db, 'it) rocksdb \<Rightarrow> 'db ssdb \<Rightarrow> bytes \<Rightarrow> int \<times> ListMetaVal" where
  "GetListMetaVal R s meta_key =
     (let lv = ListMetaVal_init in
      case db_Get R (ldb s) meta_key of
        GetNotFound \<Rightarrow>
          (0, lv\<lparr>left_seq := 0, right_seq := UINT64_MAX, mv_length := 0,
                 mv_del := KEY_ENABLED_MASK, mv_version := 0\<rparr>)
      | GetError \<Rightarrow> (STORAGE_ERR, lv)
      | GetOk meta_val \<Rightarrow>
          (case ListDecodeMetaVal meta_val lv of (ret, lv) \<Rightarrow>
             if ret < 0 then (ret, lv)
             else if mv_del lv = KEY_DELETE_MASK then
               (0, lv\<lparr>mv_version := next_version (mv_version lv), left_seq := 0,
                      right_seq := UINT64_MAX, mv_length := 0, mv_del := KEY_ENABLED_MASK\<rparr>)
             else if mv_type lv \<noteq> LSIZE then (WRONG_TYPE_ERR, lv)
             else (1, lv)))"

definition LIndex :: "('db, 'it) rocksdb \<Rightarrow> 'db ssdb \<Rightarrow> bytes \<Rightarrow> int \<Rightarrow> int \<times> bytes \<times> bool" where
  "LIndex R s key index =
     (case GetListMetaVal R s (encode_meta_key key) of (ret, lv) \<Rightarrow>
        if ret = 1 then
          let sequence = getSeqByIndex index lv;
              item_key = encode_list_key key sequence (mv_version lv)
          in case GetListItemValInternal R s item_key of (ret, val) \<Rightarrow> (ret, val, ret > 0)
        else (ret, [], False))"

definition LLen :: "('db, 'it) rocksdb \<Rightarrow> 'db ssdb \<Rightarrow> bytes \<Rightarrow> int \<times> u64" where
  "LLen R s key =
     (case GetListMetaVal R s (encode_meta_key key) of (ret, lv) \<Rightarrow>
        (ret, if ret = 1 then mv_length lv else 0))"

definition doListPop ::
  "('db, 'it) rocksdb \<Rightarrow> 'db ssdb \<Rightarrow> bytes \<Rightarrow> batch \<Rightarrow> ListMetaVal \<Rightarrow> bytes \<Rightarrow> LIST_POSITION \<Rightarrow>
     int \<times> (bytes \<times> bool) \<times> 'db ssdb" where
  "doListPop R s key batch lv meta_key lp =
     (let item_seq = (case lp of HEAD \<Rightarrow> left_seq lv | TAIL \<Rightarrow> right_seq lv);
          last_item_key = encode_list_key key item_seq (mv_version lv)
      in case GetListItemValInternal R s last_item_key of (ret, val) \<Rightarrow>
        if ret = 1 then
          let len = mv_length lv - 1;
              lv = (case lp of
                      HEAD \<Rightarrow> lv\<lparr>left_seq := (if item_seq < UINT64_MAX then item_seq + 1 else 0)\<rparr>
                    | TAIL \<Rightarrow> lv\<lparr>right_seq := (if item_seq = 0 then UINT64_MAX else item_seq - 1)\<rparr>);
              (ret, batch, s) =
                (if len = 0 then
                   let batch = batch @ [Delete last_item_key];
                       del_key = encode_delete_key key (mv_version lv);
                       size_val = encode_list_meta_val (mv_length lv) 0 0 (mv_version lv) KEY_DELETE_MASK;
                       batch = batch @ [Put meta_key size_val, Put del_key []]
                   in case cancelExpiration R s key batch of (_, batch, s) \<Rightarrow> (0, batch, s)
                 else
                   let lv = lv\<lparr>mv_length := len\<rparr>
                   in (ret, batch @ [Put meta_key (EncodeValueListMeta lv), Delete last_item_key], s))
          in case CommitBatch R s batch of (ok, s) \<Rightarrow>
               if \<not> ok then (STORAGE_ERR, (val, True), s) else (ret, (val, True), s)
        else (ret, (val, False), s))"

definition list_pop_end ::
  "LIST_POSITION \<Rightarrow> ('db, 'it) rocksdb \<Rightarrow> 'db ssdb \<Rightarrow> bytes \<Rightarrow> int \<times> (bytes \<times> bool) \<times> 'db ssdb" where
  "list_pop_end lp R s key =
     (let meta_key = encode_meta_key key in
      case GetListMetaVal R s meta_key of (ret, lv) \<Rightarrow>
        if ret \<noteq> 1 then (ret, ([], False), s)
        else if mv_length lv = 0 then (0, ([], False), s)
        else doListPop R s key [] lv meta_key lp)"

definition LPop :: "('db, 'it) rocksdb \<Rightarrow> 'db ssdb \<Rightarrow> bytes \<Rightarrow> int \<times> (bytes \<times> bool) \<times> 'db ssdb" where
  "LPop R s key = list_pop_end HEAD R s key"

definition RPop :: "('db, 'it) rocksdb \<Rightarrow> 'db ssdb \<Rightarrow> bytes \<Rightarrow> int \<times> (bytes \<times> bool) \<times> 'db ssdb" where
  "RPop R s key = list_pop_end TAIL R s key"

fun list_push_loop ::
  "bytes \<Rightarrow> u16 \<Rightarrow> LIST_POSITION \<Rightarrow> bytes list \<Rightarrow> u64 \<Rightarrow> batch \<Rightarrow> u64 \<times> batch" where
  "list_push_loop key version lp [] item_seq batch = (item_seq, batch)"
| "list_push_loop key version lp (val # vals) item_seq batch =
     (let item_seq = (case lp of
                        HEAD \<Rightarrow> if item_seq > 0 then item_seq - 1 else UINT64_MAX
                      | TAIL \<Rightarrow> if item_seq < UINT64_MAX then item_seq + 1 else 0);
          item_key = encode_list_key key item_seq version
      in list_push_loop key version lp vals item_seq (batch @ [Put item_key val]))"

definition doListPush ::
  "('db, 'it) rocksdb \<Rightarrow> 'db ssdb \<Rightarrow> bytes \<Rightarrow> batch \<Rightarrow> bytes list \<Rightarrow> nat \<Rightarrow> bytes \<Rightarrow> ListMetaVal \<Rightarrow>
     LIST_POSITION \<Rightarrow> int \<times> ListMetaVal \<times> 'db ssdb" where
  "doListPush R s key batch val offset meta_key lv lp =
     (let num = int (length val) - int offset in
      if num \<le> 0 then (-1, lv, s)
      else if mv_length lv > UINT64_MAX - word_of_int num then (-1, lv, s)
      else
        let len = mv_length lv + word_of_int num;
            item_seq = (case lp of HEAD \<Rightarrow> left_seq lv | TAIL \<Rightarrow> right_seq lv);
            (item_seq, batch) = list_push_loop key (mv_version lv) lp (drop offset val) item_seq batch;
            lv = lv\<lparr>mv_length := len\<rparr>;
            lv = (case lp of HEAD \<Rightarrow> lv\<lparr>left_seq := item_seq\<rparr> | TAIL \<Rightarrow> lv\<lparr>right_seq := item_seq\<rparr>);
            batch = batch @ [Put meta_key (EncodeValueListMeta lv)]
        in case CommitBatch R s batch of (ok, s) \<Rightarrow>
             if \<not> ok then (STORAGE_ERR, lv, s) else (1, lv, s))"

text \<open>
  \<^verbatim>\<open>LPush\<close> and \<^verbatim>\<open>RPush\<close> differ only in the end they push to, as do \<^verbatim>\<open>LPushX\<close> and
  \<^verbatim>\<open>RPushX\<close>, which refuse a key that does not exist.
\<close>

definition list_push_end ::
  "LIST_POSITION \<Rightarrow> ('db, 'it) rocksdb \<Rightarrow> 'db ssdb \<Rightarrow> bytes \<Rightarrow> bytes list \<Rightarrow> nat \<Rightarrow> int \<times> u64 \<times> 'db ssdb" where
  "list_push_end lp R s key val offset =
     (let meta_key = encode_meta_key key in
      case GetListMetaVal R s meta_key of (ret, lv) \<Rightarrow>
        if ret < 0 then (ret, 0, s)
        else (case doListPush R s key [] val offset meta_key lv lp of
                (ret, lv, s) \<Rightarrow> (ret, mv_length lv, s)))"

definition list_pushx_end ::
  "LIST_POSITION \<Rightarrow> ('db, 'it) rocksdb \<Rightarrow> 'db ssdb \<Rightarrow> bytes \<Rightarrow> bytes list \<Rightarrow> nat \<Rightarrow> int \<times> u64 \<times> 'db ssdb" where
  "list_pushx_end lp R s key val offset =
     (let meta_key = encode_meta_key key in
      case GetListMetaVal R s meta_key of (ret, lv) \<Rightarrow>
        if ret < 0 then (ret, 0, s)
        else if ret = 0 then (0, 0, s)
        else (case doListPush R s key [] val offset meta_key lv lp of
                (ret, lv, s) \<Rightarrow> (ret, mv_length lv, s)))"

definition LPush :: "('db, 'it) rocksdb \<Rightarrow> 'db ssdb \<Rightarrow> bytes \<Rightarrow> bytes list \<Rightarrow> nat \<Rightarrow> int \<times> u64 \<times> 'db ssdb" where
  "LPush R s key val offset = list_push_end HEAD R s key val offset"

definition RPush :: "('db, 'it) rocksdb \<Rightarrow> 'db ssdb \<Rightarrow> bytes \<Rightarrow> bytes list \<Rightarrow> nat \<Rightarrow> int \<times> u64 \<times> 'db ssdb" where
  "RPush R s key val offset = list_push_end TAIL R s key val offset"

definition LPushX :: "('db, 'it) rocksdb \<Rightarrow> 'db ssdb \<Rightarrow> bytes \<Rightarrow> bytes list \<Rightarrow> nat \<Rightarrow> int \<times> u64 \<times> 'db ssdb" where
  "LPushX R s key val offset = list_pushx_end HEAD R s key val offset"

definition RPushX :: "('db, 'it) rocksdb \<Rightarrow> 'db ssdb \<Rightarrow> bytes \<Rightarrow> bytes list \<Rightarrow> nat \<Rightarrow> int \<times> u64 \<times> 'db ssdb" where
  "RPushX R s key val offset = list_pushx_end TAIL R s key val offset"

definition LSet :: "('db, 'it) rocksdb \<Rightarrow> 'db ssdb \<Rightarrow> bytes \<Rightarrow> int \<Rightarrow> bytes \<Rightarrow> int \<times> 'db ssdb" where
  "LSet R s key index val =
     (let meta_key = encode_meta_key key in
      case GetListMetaVal R s meta_key of (ret, lv) \<Rightarrow>
        if ret \<noteq> 1 then (ret, s)
        else
          let (max_negative_index, max_index) =
                (if mv_length lv < UINT64_MAX div 2
                 then (sint (- mv_length lv), sint (mv_length lv - 1))
                 else (INT64_MIN, INT64_MAX))
          in if index > max_index \<or> index < max_negative_index then (INDEX_OUT_OF_RANGE, s)
             else
               let seq = getSeqByIndex index lv;
                   item_key = encode_list_key key seq (mv_version lv)
               in case CommitBatch R s [Put item_key val] of (ok, s) \<Rightarrow>
                    if \<not> ok then (STORAGE_ERR, s) else (1, s))"

text \<open>The two loops of \<^verbatim>\<open>ltrim\<close> run \<open>ltrim\<close> and \<open>rtrim\<close> times.\<close>

fun ltrim_left_loop :: "bytes \<Rightarrow> nat \<Rightarrow> ListMetaVal \<Rightarrow> u64 \<Rightarrow> batch \<Rightarrow> ListMetaVal \<times> u64 \<times> batch" where
  "ltrim_left_loop key 0 lv deleted batch = (lv, deleted, batch)"
| "ltrim_left_loop key (Suc n) lv deleted batch =
     (let item_key = encode_list_key key (left_seq lv) (mv_version lv)
      in ltrim_left_loop key n
           (lv\<lparr>left_seq := (if left_seq lv = UINT64_MAX then 0 else left_seq lv + 1)\<rparr>)
           (deleted + 1) (batch @ [Delete item_key]))"

fun ltrim_right_loop :: "bytes \<Rightarrow> nat \<Rightarrow> ListMetaVal \<Rightarrow> u64 \<Rightarrow> batch \<Rightarrow> ListMetaVal \<times> u64 \<times> batch" where
  "ltrim_right_loop key 0 lv deleted batch = (lv, deleted, batch)"
| "ltrim_right_loop key (Suc n) lv deleted batch =
     (let item_key = encode_list_key key (right_seq lv) (mv_version lv)
      in ltrim_right_loop key n
           (lv\<lparr>right_seq := (if right_seq lv = 0 then UINT64_MAX else right_seq lv - 1)\<rparr>)
           (deleted + 1) (batch @ [Delete item_key]))"

definition ltrim :: "('db, 'it) rocksdb \<Rightarrow> 'db ssdb \<Rightarrow> bytes \<Rightarrow> int \<Rightarrow> int \<Rightarrow> int \<times> 'db ssdb" where
  "ltrim R s key start end =
     (let meta_key = encode_meta_key key in
      case GetListMetaVal R s meta_key of (ret, lv) \<Rightarrow>
        if ret \<noteq> 1 then (ret, s)
        else
          let llen = sint (mv_length lv);
              start = (if start < 0 then llen + start else start);
              end = (if end < 0 then llen + end else end);
              start = (if start < 0 then 0 else start);
              (lt, rt) =
                (if start > end \<or> start \<ge> llen then (mv_length lv, 0)
                 else
                   let end = (if end \<ge> llen then llen - 1 else end)
                   in (getSeqByIndex start lv - left_seq lv, right_seq lv - getSeqByIndex end lv));
              (lv, deleted, batch) = ltrim_left_loop key (unat lt) lv 0 [];
              (lv, deleted, batch) = ltrim_right_loop key (unat rt) lv deleted batch;
              lv = lv\<lparr>mv_length := mv_length lv - deleted\<rparr>;
              (ret, batch, s) =
                (if mv_length lv = 0 then
                   let del_key = encode_delete_key key (mv_version lv);
                       size_val = encode_list_meta_val (mv_length lv) 0 0 (mv_version lv) KEY_DELETE_MASK;
                       batch = batch @ [Put meta_key size_val, Put del_key []]
                   in case cancelExpiration R s key batch of (_, batch, s) \<Rightarrow> (0, batch, s)
                 else (ret, batch @ [Put meta_key (EncodeValueListMeta lv)], s))
          in case CommitBatch R s batch of (ok, s) \<Rightarrow>
               if \<not> ok then (STORAGE_ERR, s) else (ret, s))"

fun lrange_loop ::
  "('db, 'it) rocksdb \<Rightarrow> 'db ssdb \<Rightarrow> bytes \<Rightarrow> u16 \<Rightarrow> nat \<Rightarrow> u64 \<Rightarrow> bytes list \<Rightarrow> int \<times> bytes list" where
  "lrange_loop R s key version 0 cur_seq out = (1, out)"
| "lrange_loop R s key version (Suc n) cur_seq out =
     (case GetListItemValInternal R s (encode_list_key key cur_seq version) of (ret, val) \<Rightarrow>
        if ret \<noteq> 1 then (-1, [])
        else lrange_loop R s key version n
               (if cur_seq = UINT64_MAX then 0 else cur_seq + 1) (out @ [val]))"

definition lrange :: "('db, 'it) rocksdb \<Rightarrow> 'db ssdb \<Rightarrow> bytes \<Rightarrow> int \<Rightarrow> int \<Rightarrow> int \<times> bytes list" where
  "lrange R s key start end =
     (case GetListMetaVal R s (encode_meta_key key) of (ret, lv) \<Rightarrow>
        if ret \<noteq> 1 then (ret, [])
        else
          let llen = sint (mv_length lv);
              start = (if start < 0 then llen + start else start);
              end = (if end < 0 then llen + end else end);
              start = (if start < 0 then 0 else start)
          in if start > end \<or> start \<ge> llen then (1, [])
             else
               let end = (if end \<ge> llen then llen - 1 else end);
                   rangelen = end - start + 1
               in lrange_loop R s key (mv_version lv) (nat rangelen) (getSeqByIndex start lv) [])"

section \<open>Windows of sequence numbers\<close>

abbreviation seq_bytes :: "u64 \<Rightarrow> bytes" where
  "seq_bytes q \<equiv> raw64 (htobe64 q)"

fun list_window :: "u64 \<Rightarrow> bytes list \<Rightarrow> contents" where
  "list_window l [] = Map.empty"
| "list_window l (x # xs) = (list_window (l + 1) xs)(seq_bytes l \<mapsto> x)"

declare list_window.simps [simp del]

lemma list_window_simps [simp]:
  "list_window l [] = Map.empty"
  "list_window l (x # xs) = (list_window (l + 1) xs)(seq_bytes l \<mapsto> x)"
  by (rule list_window.simps)+

lemma seq_bytes_inj [simp]: "seq_bytes q = seq_bytes q' \<longleftrightarrow> q = q'"
  by (metis raw64_htobe64_less less_irrefl linorder_neqE)

lemma list_window_nth:
  "length xs < 2 ^ 64 \<Longrightarrow>
   list_window l xs (seq_bytes q) = (if unat (q - l) < length xs then Some (xs ! unat (q - l)) else None)"
proof (induction xs arbitrary: l)
  case (Cons x xs)
  show ?case
  proof (cases "q = l")
    case False
    then have "unat (q - l) = Suc (unat (q - (l + 1)))"
      using unat_minus_one [of "q - l"] unat_gt_0 [of "q - l"] by (simp add: diff_diff_eq)
    with Cons False show ?thesis by simp
  qed simp
qed simp

lemma list_window_snoc:
  "length xs < 2 ^ 64 - 1 \<Longrightarrow>
   list_window l (xs @ [x]) = (list_window l xs)(seq_bytes (l + word_of_nat (length xs)) \<mapsto> x)"
proof (induction xs arbitrary: l)
  case (Cons y xs)
  have "word_of_nat (Suc (length xs)) \<noteq> (0 :: u64)"
    using Cons.prems by (simp only: word_of_nat_eq_0_iff) (auto dest: dvd_imp_le)
  then have "l \<noteq> l + 1 + word_of_nat (length xs)" by (simp add: add.assoc)
  with Cons show ?case by (auto simp: fun_eq_iff add.assoc)
qed simp

lemma list_window_tl:
  assumes "length xs < 2 ^ 64 - 1"
  shows "(list_window l (x # xs))(seq_bytes l := None) = list_window (l + 1) xs"
  using assms list_window_nth [of xs "l + 1" l] by (auto simp: fun_upd_idem)

lemma list_window_butlast:
  assumes "length xs < 2 ^ 64 - 1"
  shows "(list_window l (xs @ [x]))(seq_bytes (l + word_of_nat (length xs)) := None) = list_window l xs"
  using assms list_window_nth [of xs l "l + word_of_nat (length xs)"]
  by (simp add: list_window_snoc fun_upd_idem unat_of_nat)

lemma list_window_update:
  "length xs < 2 ^ 64 \<Longrightarrow> i < length xs \<Longrightarrow>
   list_window l (xs[i := y]) = (list_window l xs)(seq_bytes (l + word_of_nat i) \<mapsto> y)"
proof (induction xs arbitrary: l i)
  case (Cons x xs)
  show ?case
  proof (cases i)
    case (Suc j)
    have "word_of_nat (Suc j) \<noteq> (0 :: u64)"
      using Cons.prems Suc by (simp only: word_of_nat_eq_0_iff) (auto dest: dvd_imp_le)
    then have "l \<noteq> l + 1 + word_of_nat j" by (simp add: add.assoc)
    with Cons Suc show ?thesis by (auto simp: fun_eq_iff add.assoc)
  qed (auto simp: fun_eq_iff)
qed simp

lemma getSeqByIndex_eq:
  "getSeqByIndex i lv =
     (if i \<ge> 0 then left_seq lv + word_of_int i else right_seq lv + 1 + word_of_int i)"
  by (simp add: getSeqByIndex_def Let_def)


section \<open>Abstraction\<close>

definition list_at :: "contents \<Rightarrow> bytes \<Rightarrow> u16 \<Rightarrow> u64 \<Rightarrow> bytes list \<Rightarrow> bool" where
  "list_at m key v l xs \<longleftrightarrow> xs \<noteq> [] \<and> length xs < 2 ^ 63 - 1 \<and>
     m (encode_meta_key key) = Some (encode_list_meta_val (word_of_nat (length xs)) l
       (l + word_of_nat (length xs) - 1) v KEY_ENABLED_MASK) \<and>
     item_map key v m = list_window l xs"

definition list_rep :: "contents \<Rightarrow> bytes \<Rightarrow> bytes list \<Rightarrow> bool" where
  "list_rep m key xs \<longleftrightarrow> xs = [] \<and> (\<exists>w. absent m key w) \<or> (\<exists>v l. list_at m key v l xs)"

text \<open>The meta value of a list at version \<open>v\<close> that starts at \<open>l\<close> and has \<open>n\<close> elements.\<close>

definition list_meta :: "nat \<Rightarrow> u64 \<Rightarrow> u16 \<Rightarrow> ListMetaVal \<Rightarrow> bool" where
  "list_meta n l v lv \<longleftrightarrow> mv_length lv = word_of_nat n \<and> left_seq lv = l \<and>
     right_seq lv = l + word_of_nat n - 1 \<and> mv_version lv = v \<and> mv_del lv = KEY_ENABLED_MASK"

lemma list_metaD:
  assumes "list_meta n l v lv"
  shows "mv_length lv = word_of_nat n" "left_seq lv = l" "right_seq lv = l + word_of_nat n - 1"
    "mv_version lv = v" "mv_del lv = KEY_ENABLED_MASK"
  using assms by (simp_all add: list_meta_def)

lemma list_atI:
  assumes "list_meta (length xs) l v lv" "xs \<noteq> []" "length xs < 2 ^ 63 - 1"
    "m (encode_meta_key key) = Some (EncodeValueListMeta lv)" "item_map key v m = list_window l xs"
  shows "list_at m key v l xs"
  using assms by (simp add: list_at_def EncodeValueListMeta_def list_metaD [OF assms(1)])

context rocksdb_healthy
begin

lemma GetListMetaVal_absent:
  assumes "absent (view (ldb s)) key w"
  shows "\<exists>lv. GetListMetaVal R s (encode_meta_key key) = (0, lv) \<and> list_meta 0 0 w lv"
  using assms
  by (auto simp: absent_def GetListMetaVal_def Get_view Let_def list_meta_def ListDecodeMetaVal_deleted)

lemma GetListMetaVal_at:
  assumes "list_at (view (ldb s)) key v l xs"
  shows "\<exists>lv. GetListMetaVal R s (encode_meta_key key) = (1, lv) \<and> list_meta (length xs) l v lv"
  using assms
  by (auto simp: list_at_def GetListMetaVal_def Get_view Let_def list_meta_def ListDecodeMetaVal_encode)

lemma GetListItemVal_view:
  "GetListItemValInternal R s (encode_list_key key q v) =
     (case item_map key v (view (ldb s)) (seq_bytes q) of None \<Rightarrow> (0, []) | Some x \<Rightarrow> (1, x))"
  by (simp add: GetListItemValInternal_def Get_view item_map_def list_key_is_item_key split: option.splits)

end


subsection \<open>Pushing\<close>

fun push_side :: "LIST_POSITION \<Rightarrow> bytes list \<Rightarrow> bytes list \<Rightarrow> bytes list" where
  "push_side HEAD vals xs = rev vals @ xs"
| "push_side TAIL vals xs = xs @ vals"

text \<open>The first sequence number of the window after \<open>n\<close> more elements.\<close>

fun push_left :: "LIST_POSITION \<Rightarrow> nat \<Rightarrow> u64 \<Rightarrow> u64" where
  "push_left HEAD n l = l - word_of_nat n"
| "push_left TAIL n l = l"

fun end_seq :: "LIST_POSITION \<Rightarrow> nat \<Rightarrow> u64 \<Rightarrow> u64" where
  "end_seq HEAD n l = l"
| "end_seq TAIL n l = l + word_of_nat n - 1"

lemma length_push_side [simp]: "length (push_side lp vals xs) = length vals + length xs"
  by (cases lp) auto

lemma list_push_loop_window:
  assumes "length xs + length vals < 2 ^ 64"
    "item_map key v (apply_batch b m) = list_window l xs"
    "list_push_loop key v lp vals (end_seq lp (length xs) l) b = (q, b')"
  shows "q = end_seq lp (length xs + length vals) (push_left lp (length vals) l) \<and>
    item_map key v (apply_batch b' m) =
      list_window (push_left lp (length vals) l) (push_side lp vals xs)"
  using assms
proof (induction vals arbitrary: xs l b)
  case Nil
  then show ?case by (cases lp) auto
next
  case (Cons x vals)
  show ?case
  proof (cases lp)
    case HEAD
    from Cons.prems(3) HEAD have loop: "list_push_loop key v HEAD vals (l - 1)
        (b @ [Put (encode_list_key key (l - 1) v) x]) = (q, b')"
      by (auto simp: Let_def word_gt_0 split: if_splits)
    have win: "item_map key v (apply_batch (b @ [Put (encode_list_key key (l - 1) v) x]) m) =
        list_window (l - 1) (x # xs)"
      by (simp add: list_key_is_item_key Cons.prems(2))
    from Cons.IH [OF _ win] loop Cons.prems(1) HEAD show ?thesis
      by (simp add: diff_diff_eq)
  next
    case TAIL
    let ?q = "l + word_of_nat (length xs)"
    have "?q - 1 < UINT64_MAX \<or> ?q = 0"
      using word_order.not_eq_extremum [of "?q - 1"] by auto
    with Cons.prems(3) TAIL have loop: "list_push_loop key v TAIL vals ?q
        (b @ [Put (encode_list_key key ?q v) x]) = (q, b')"
      by (auto simp: Let_def split: if_splits)
    have win: "item_map key v (apply_batch (b @ [Put (encode_list_key key ?q v) x]) m) =
        list_window l (xs @ [x])"
      using Cons.prems(1) by (simp add: list_key_is_item_key list_window_snoc Cons.prems(2))
    from Cons.IH [OF _ win] loop Cons.prems(1) TAIL show ?thesis
      by (simp add: add.assoc)
  qed
qed


lemma list_push_loop_owned:
  "op_key ` set b \<subseteq> own_keys key \<Longrightarrow> list_push_loop key v lp vals q b = (q', b') \<Longrightarrow>
   op_key ` set b' \<subseteq> own_keys key"
proof (induction vals arbitrary: q b)
  case (Cons x vals)
  show ?case
    by (rule Cons.IH [OF _ Cons.prems(2) [unfolded list_push_loop.simps Let_def]])
      (use Cons.prems(1) in \<open>simp add: list_key_is_item_key\<close>)
qed simp

lemma push_no_overflow:
  assumes "a + b < 2 ^ 63 - 1"
  shows "\<not> (word_of_nat a :: u64) > UINT64_MAX - word_of_nat b"
proof -
  have "unat (UINT64_MAX - word_of_nat b) = 18446744073709551615 - b"
    using assms by (subst unat_sub) (simp_all add: unat_of_nat)
  with assms show ?thesis by (simp add: word_less_nat_alt unat_of_nat)
qed

context rocksdb_healthy
begin

lemma doListPush_at:
  assumes lv: "list_meta (length xs) l v lv"
    and win: "item_map key v (view (ldb s)) = list_window l xs"
    and off: "offset < length vals"
    and len: "length xs + (length vals - offset) < 2 ^ 63 - 1"
  shows "\<exists>lv' s' l'. doListPush R s key [] vals offset (encode_meta_key key) lv lp = (1, lv', s') \<and>
    mv_length lv' = word_of_nat (length xs + (length vals - offset)) \<and>
    list_at (view (ldb s')) key v l' (push_side lp (drop offset vals) xs) \<and>
    touches_only key (view (ldb s)) (view (ldb s'))"
proof -
  let ?vs = "drop offset vals"
  define n where "n = length vals - offset"
  have n: "length ?vs = n" "n > 0" using off by (simp_all add: n_def)
  let ?l = "push_left lp n l"
  obtain q b where loop: "list_push_loop key v lp ?vs (end_seq lp (length xs) l) [] = (q, b)"
    by fastforce
  from list_push_loop_window [OF _ _ loop, of "view (ldb s)"] win len n
  have q: "q = end_seq lp (length xs + n) ?l"
    and w: "item_map key v (apply_batch b (view (ldb s))) = list_window ?l (push_side lp ?vs xs)"
    by auto
  have num: "int (length vals) - int offset = int n" using off by (simp add: n_def)
  let ?lv = "lv\<lparr>mv_length := word_of_nat (length xs + n)\<rparr>"
  let ?lv' = "case lp of HEAD \<Rightarrow> ?lv\<lparr>left_seq := q\<rparr> | TAIL \<Rightarrow> ?lv\<lparr>right_seq := q\<rparr>"
  let ?b = "b @ [Put (encode_meta_key key) (EncodeValueListMeta ?lv')]"
  let ?s = "s\<lparr>ldb := snd (db_Write R (ldb s) ?b)\<rparr>"
  have meta: "list_meta (length (push_side lp ?vs xs)) ?l v ?lv'"
    using lv q n by (cases lp) (auto simp: list_meta_def add.commute)
  have e: "(case lp of HEAD \<Rightarrow> left_seq lv | TAIL \<Rightarrow> right_seq lv) = end_seq lp (length xs) l"
    using lv by (cases lp) (auto simp: list_meta_def)
  have len_eq: "mv_length lv + word_of_int (int n) = word_of_nat (length xs + n)"
    using lv by (simp add: list_metaD)
  have "doListPush R s key [] vals offset (encode_meta_key key) lv lp = (1, ?lv', ?s)"
    using n loop push_no_overflow [OF len [folded n_def]] lv
    unfolding doListPush_def Let_def num e len_eq
    by (simp add: list_metaD CommitBatch_view)
  moreover have "list_at (view (ldb ?s)) key v ?l (push_side lp ?vs xs)"
    using w len n by (intro list_atI [OF meta]) (cases lp; auto simp: Write_view)+
  moreover have "touches_only key (view (ldb s)) (view (ldb ?s))"
    using list_push_loop_owned [OF _ loop] touches_only_batch [of ?b key "view (ldb s)"]
    by (simp add: Write_view)
  moreover have "mv_length ?lv' = word_of_nat (length xs + n)" by (cases lp) simp_all
  ultimately show ?thesis unfolding n_def by blast
qed

end


text \<open>Pushing at either end, to a key that is absent or holds a list.\<close>

context rocksdb_healthy
begin

lemma list_push_end_rep:
  assumes "list_rep (view (ldb s)) key xs" "xs = [] \<longrightarrow> fresh (view (ldb s)) key"
    "offset < length vals" "length xs + (length vals - offset) < 2 ^ 63 - 1"
  shows "\<exists>s'. list_push_end lp R s key vals offset =
      (1, word_of_nat (length xs + (length vals - offset)), s') \<and>
    list_rep (view (ldb s')) key (push_side lp (drop offset vals) xs) \<and>
    touches_only key (view (ldb s)) (view (ldb s'))"
proof -
  obtain lv ret l v where
    meta: "GetListMetaVal R s (encode_meta_key key) = (ret, lv)" "\<not> ret < 0"
      "list_meta (length xs) l v lv" "item_map key v (view (ldb s)) = list_window l xs"
  proof (cases "\<exists>v l. list_at (view (ldb s)) key v l xs")
    case True
    then obtain v l where at: "list_at (view (ldb s)) key v l xs" by blast
    from GetListMetaVal_at [OF at] at show ?thesis
      by (auto simp: list_at_def intro: that)
  next
    case False
    with assms(1) obtain w where w: "xs = []" "absent (view (ldb s)) key w"
      by (auto simp: list_rep_def)
    with assms(2) have "item_map key w (view (ldb s)) = Map.empty"
      by (simp add: fresh_def no_items_item_map)
    with GetListMetaVal_absent [OF w(2)] w(1) show ?thesis by (auto intro: that)
  qed
  from doListPush_at [OF meta(3,4) assms(3,4), of lp] obtain lv' s' l' where
    "doListPush R s key [] vals offset (encode_meta_key key) lv lp = (1, lv', s')"
    "mv_length lv' = word_of_nat (length xs + (length vals - offset))"
    "list_at (view (ldb s')) key v l' (push_side lp (drop offset vals) xs)"
    "touches_only key (view (ldb s)) (view (ldb s'))" by blast
  with meta(1,2) show ?thesis
    by (auto simp: list_push_end_def list_rep_def Let_def)
qed

lemma list_pushx_end_rep:
  assumes "list_rep (view (ldb s)) key xs"
    "offset < length vals" "length xs + (length vals - offset) < 2 ^ 63 - 1"
  shows "if xs = [] then list_pushx_end lp R s key vals offset = (0, 0, s)
    else list_pushx_end lp R s key vals offset = list_push_end lp R s key vals offset"
proof (cases "xs = []")
  case True
  with assms(1) obtain w where "absent (view (ldb s)) key w"
    by (auto simp: list_rep_def list_at_def)
  from GetListMetaVal_absent [OF this] True show ?thesis
    by (auto simp: list_pushx_end_def Let_def)
next
  case False
  with assms(1) obtain v l where "list_at (view (ldb s)) key v l xs"
    by (auto simp: list_rep_def)
  from GetListMetaVal_at [OF this] False show ?thesis
    by (auto simp: list_pushx_end_def list_push_end_def Let_def)
qed

end


subsection \<open>Popping\<close>

fun popped :: "LIST_POSITION \<Rightarrow> bytes list \<Rightarrow> bytes" where
  "popped HEAD xs = hd xs"
| "popped TAIL xs = last xs"

fun pop_rest :: "LIST_POSITION \<Rightarrow> bytes list \<Rightarrow> bytes list" where
  "pop_rest HEAD xs = tl xs"
| "pop_rest TAIL xs = butlast xs"

fun pop_left :: "LIST_POSITION \<Rightarrow> u64 \<Rightarrow> u64" where
  "pop_left HEAD l = l + 1"
| "pop_left TAIL l = l"

lemma length_pop_rest [simp]: "length (pop_rest lp xs) = length xs - 1"
  by (cases lp) auto

lemma list_window_pop:
  assumes "xs \<noteq> []" "length xs < 2 ^ 63 - 1"
  shows "list_window l xs (seq_bytes (end_seq lp (length xs) l)) = Some (popped lp xs)"
    "(list_window l xs)(seq_bytes (end_seq lp (length xs) l) := None) =
       list_window (pop_left lp l) (pop_rest lp xs)"
proof -
  show "list_window l xs (seq_bytes (end_seq lp (length xs) l)) = Some (popped lp xs)"
  proof (cases lp)
    case HEAD
    with assms show ?thesis by (cases xs) auto
  next
    case TAIL
    with assms show ?thesis by (cases xs rule: rev_cases) (auto simp: list_window_snoc)
  qed
  show "(list_window l xs)(seq_bytes (end_seq lp (length xs) l) := None) =
      list_window (pop_left lp l) (pop_rest lp xs)"
  proof (cases lp)
    case HEAD
    with assms list_window_tl [of "tl xs" l "hd xs"] show ?thesis by (cases xs) auto
  next
    case TAIL
    with assms list_window_butlast [of "butlast xs" l "last xs"] show ?thesis
      by (cases xs rule: rev_cases) auto
  qed
qed

lemma next_seq: "(if q < UINT64_MAX then q + 1 else 0) = q + (1 :: u64)"
  using word_order.not_eq_extremum [of q] by auto

lemma prev_seq: "(if q = 0 then UINT64_MAX else q - 1) = q - (1 :: u64)"
  by simp

context rocksdb_healthy
begin

lemma doListPop_at:
  assumes at: "list_at (view (ldb s)) key v l xs" and lv: "list_meta (length xs) l v lv"
  shows "\<exists>s'. doListPop R s key [] lv (encode_meta_key key) lp =
      (if length xs = 1 then 0 else 1, (popped lp xs, True), s') \<and>
    list_rep (view (ldb s')) key (pop_rest lp xs) \<and>
    touches_only key (view (ldb s)) (view (ldb s'))"
proof -
  let ?m = "view (ldb s)" and ?q = "end_seq lp (length xs) l" and ?n = "length xs - 1"
  let ?i = "encode_key_internal ITEM key (seq_bytes ?q) v" and ?k = "encode_meta_key key"
  have xs: "xs \<noteq> []" "length xs < 2 ^ 63 - 1" and win: "item_map key v ?m = list_window l xs"
    using at by (auto simp: list_at_def)
  note pop = list_window_pop [OF xs, of l lp]
  have e: "(case lp of HEAD \<Rightarrow> left_seq lv | TAIL \<Rightarrow> right_seq lv) = ?q"
    using lv by (cases lp) (auto simp: list_metaD)
  have get: "GetListItemValInternal R s (encode_list_key key ?q v) = (1, popped lp xs)"
    by (simp add: GetListItemVal_view win pop(1))
  have len: "mv_length lv - 1 = word_of_nat ?n"
    using lv xs by (simp add: list_metaD of_nat_diff Suc_leI)
  have len0: "word_of_nat ?n = (0 :: u64) \<longleftrightarrow> length xs = 1"
    using xs by (cases xs) (auto simp: word_of_nat_eq_0_iff dest!: dvd_imp_le)
  let ?lv = "case lp of HEAD \<Rightarrow> lv\<lparr>left_seq := ?q + 1\<rparr> | TAIL \<Rightarrow> lv\<lparr>right_seq := ?q - 1\<rparr>"
  have ver: "mv_version ?lv = v" "mv_version lv = v" "mv_length ?lv = mv_length lv"
    using lv by (cases lp; simp add: list_metaD)+
  show ?thesis
  proof (cases "length xs = 1")
    case True
    let ?b = "[Delete ?i, Put ?k (encode_list_meta_val (mv_length lv) 0 0 v KEY_DELETE_MASK),
      Put (encode_delete_key key v) []]"
    obtain r b s' where c: "cancelExpiration R s key ?b = (r, b, s')" by (metis prod_cases3)
    note del = cancel_deleted [OF c, unfolded encode_list_meta_val_def, of ?m LSIZE v]
    let ?s = "s'\<lparr>ldb := snd (db_Write R (ldb s') b)\<rparr>"
    have "doListPop R s key [] lv ?k lp = (0, (popped lp xs, True), ?s)"
      using True c unfolding doListPop_def Let_def e ver get next_seq prev_seq len len0
      by (simp add: list_key_is_item_key ver CommitBatch_view)
    moreover have "list_rep (view (ldb ?s)) key (pop_rest lp xs)"
      using True del(1,2) length_pop_rest [of lp xs]
      by (auto simp: list_rep_def Write_view simp del: length_pop_rest)
    moreover have "touches_only key ?m (view (ldb ?s))"
      using del(1,3) by (simp add: Write_view)
    ultimately show ?thesis using True by auto
  next
    case False
    with xs have "length xs > 1" by (cases xs) auto
    then have rest: "pop_rest lp xs \<noteq> []"
      using length_pop_rest [of lp xs] by (metis diff_is_0_eq list.size(3) not_le)
    let ?lv' = "?lv\<lparr>mv_length := word_of_nat ?n\<rparr>"
    let ?b = "[Put ?k (EncodeValueListMeta ?lv'), Delete ?i]"
    let ?s = "s\<lparr>ldb := snd (db_Write R (ldb s) ?b)\<rparr>"
    have "doListPop R s key [] lv ?k lp = (1, (popped lp xs, True), ?s)"
      using False unfolding doListPop_def Let_def e ver get next_seq prev_seq len len0
      by (simp add: list_key_is_item_key ver CommitBatch_view)
    moreover have meta: "list_meta (length (pop_rest lp xs)) (pop_left lp l) v ?lv'"
      using lv xs by (cases lp) (auto simp: list_meta_def of_nat_diff Suc_leI)
    have "list_at (view (ldb ?s)) key v (pop_left lp l) (pop_rest lp xs)"
      using rest xs pop(2) by (intro list_atI [OF meta]) (auto simp: Write_view win)
    moreover have "touches_only key ?m (view (ldb ?s))"
      using touches_only_batch [of ?b key ?m] by (simp add: Write_view)
    ultimately show ?thesis using False by (auto simp: list_rep_def)
  qed
qed

end


context rocksdb_healthy
begin

lemma list_pop_end_rep:
  assumes "list_rep (view (ldb s)) key xs"
  shows "if xs = [] then list_pop_end lp R s key = (0, ([], False), s)
    else \<exists>s'. list_pop_end lp R s key = (if length xs = 1 then 0 else 1, (popped lp xs, True), s') \<and>
      list_rep (view (ldb s')) key (pop_rest lp xs) \<and>
      touches_only key (view (ldb s)) (view (ldb s'))"
proof (cases "xs = []")
  case True
  with assms obtain w where "absent (view (ldb s)) key w"
    by (auto simp: list_rep_def list_at_def)
  from GetListMetaVal_absent [OF this] True show ?thesis
    by (auto simp: list_pop_end_def Let_def)
next
  case False
  with assms obtain v l where at: "list_at (view (ldb s)) key v l xs"
    by (auto simp: list_rep_def)
  then have "word_of_nat (length xs) \<noteq> (0 :: u64)"
    by (auto simp: list_at_def word_of_nat_eq_0_iff dest!: dvd_imp_le)
  with GetListMetaVal_at [OF at] doListPop_at [OF at, of _ lp] False show ?thesis
    by (auto simp: list_pop_end_def Let_def list_metaD)
qed

end


subsection \<open>Indexing\<close>

text \<open>Negative indexes count from the end.\<close>

definition list_index :: "bytes list \<Rightarrow> int \<Rightarrow> nat option" where
  "list_index xs i =
     (let j = (if i < 0 then int (length xs) + i else i) in
      if 0 \<le> j \<and> j < int (length xs) then Some (nat j) else None)"

lemma list_window_index:
  assumes lv: "list_meta (length xs) l v lv" and len: "length xs < 2 ^ 63 - 1" and i: "int64 i"
  shows "list_window l xs (seq_bytes (getSeqByIndex i lv)) = map_option ((!) xs) (list_index xs i)"
    "list_index xs i = Some j \<Longrightarrow> getSeqByIndex i lv = l + word_of_nat j"
proof -
  let ?j = "if i < 0 then int (length xs) + i else i"
  have seq: "getSeqByIndex i lv = l + word_of_int ?j"
    using lv by (simp add: getSeqByIndex_eq list_metaD add.assoc)
  then show "list_index xs i = Some j \<Longrightarrow> getSeqByIndex i lv = l + word_of_nat j"
    by (auto simp: list_index_def Let_def split: if_splits)
  have "unat (word_of_int ?j :: u64) < length xs \<longleftrightarrow> 0 \<le> ?j \<and> ?j < int (length xs)"
    and "0 \<le> ?j \<Longrightarrow> ?j < int (length xs) \<Longrightarrow> unat (word_of_int ?j :: u64) = nat ?j"
  proof -
    have u: "unat (word_of_int ?j :: u64) = nat (?j mod 2 ^ 64)"
      by (simp add: unat_eq_nat_uint uint_word_of_int)
    show "unat (word_of_int ?j :: u64) = nat ?j" if "0 \<le> ?j" "?j < int (length xs)"
      using u that len by simp
    show "unat (word_of_int ?j :: u64) < length xs \<longleftrightarrow> 0 \<le> ?j \<and> ?j < int (length xs)"
    proof (cases "0 \<le> ?j")
      case True
      then have "?j mod 2 ^ 64 = ?j" using i len by (auto simp: int64_def)
      with u True show ?thesis by (simp add: nat_less_iff)
    next
      case False
      have "?j mod 2 ^ 64 = ?j + 2 ^ 64"
        using False i len mod_pos_pos_trivial [of "?j + 2 ^ 64" "2 ^ 64"] by (auto simp: int64_def)
      with u False len i show ?thesis by (auto simp: int64_def nat_less_iff)
    qed
  qed
  then show "list_window l xs (seq_bytes (getSeqByIndex i lv)) = map_option ((!) xs) (list_index xs i)"
    using len by (auto simp: list_window_nth seq list_index_def Let_def)
qed


context rocksdb_healthy
begin

lemma list_rep_cases:
  assumes "list_rep (view (ldb s)) key xs"
  obtains w lv where "xs = []" "absent (view (ldb s)) key w" "list_meta 0 0 w lv"
      "GetListMetaVal R s (encode_meta_key key) = (0, lv)"
  | v l lv where "xs \<noteq> []" "list_at (view (ldb s)) key v l xs" "list_meta (length xs) l v lv"
      "length xs < 2 ^ 63 - 1" "item_map key v (view (ldb s)) = list_window l xs"
      "GetListMetaVal R s (encode_meta_key key) = (1, lv)"
proof (cases "xs = []")
  case True
  with assms obtain w where "absent (view (ldb s)) key w"
    by (auto simp: list_rep_def list_at_def)
  with GetListMetaVal_absent [OF this] True show ?thesis using that(1) by blast
next
  case False
  with assms obtain v l where "list_at (view (ldb s)) key v l xs"
    by (auto simp: list_rep_def)
  with GetListMetaVal_at [OF this] False show ?thesis
    using that(2) by (auto simp: list_at_def)
qed

lemma LLen_rep:
  assumes "list_rep (view (ldb s)) key xs"
  shows "LLen R s key = (if xs = [] then 0 else 1, word_of_nat (length xs))"
  using assms by (rule list_rep_cases) (auto simp: LLen_def list_metaD)

lemma LIndex_rep:
  assumes "list_rep (view (ldb s)) key xs" "int64 i"
  shows "LIndex R s key i =
    (case list_index xs i of None \<Rightarrow> (0, [], False) | Some j \<Rightarrow> (1, xs ! j, True))"
  using assms(1)
proof (rule list_rep_cases)
  fix v l lv
  assume "list_meta (length xs) l v lv" "length xs < 2 ^ 63 - 1"
    "item_map key v (view (ldb s)) = list_window l xs"
    "GetListMetaVal R s (encode_meta_key key) = (1, lv)"
  with list_window_index(1) [OF this(1) _ assms(2)] show ?thesis
    by (auto simp: LIndex_def Let_def GetListItemVal_view list_metaD split: option.splits)
next
  assume "xs = []"
  then show ?thesis if "GetListMetaVal R s (encode_meta_key key) = (0, lv)" for lv
    using that by (auto simp: LIndex_def list_index_def Let_def)
qed

lemma LSet_bounds:
  assumes "list_meta (length xs) l v lv" "length xs < 2 ^ 63 - 1"
  shows "mv_length lv < UINT64_MAX div 2" "sint (- mv_length lv) = - int (length xs)"
    "sint (mv_length lv - 1) = int (length xs) - 1"
proof -
  have "unat (UINT64_MAX div 2) = 9223372036854775807"
    by (simp add: unat_div_distrib)
  with assms show "mv_length lv < UINT64_MAX div 2"
    by (simp add: word_less_nat_alt list_metaD unat_of_nat)
  show "sint (- mv_length lv) = - int (length xs)"
    using sint_word_of_int64 [of "- int (length xs)"] assms
    by (simp add: list_metaD int64_def)
  show "sint (mv_length lv - 1) = int (length xs) - 1"
    using sint_word_of_int64 [of "int (length xs) - 1"] assms
    by (simp add: list_metaD int64_def)
qed

lemma LSet_rep:
  assumes "list_rep (view (ldb s)) key xs" "int64 i"
  shows "if xs = [] then LSet R s key i val = (0, s)
    else case list_index xs i of
      None \<Rightarrow> LSet R s key i val = (INDEX_OUT_OF_RANGE, s)
    | Some j \<Rightarrow> \<exists>s'. LSet R s key i val = (1, s') \<and> list_rep (view (ldb s')) key (xs[j := val]) \<and>
        touches_only key (view (ldb s)) (view (ldb s'))"
  using assms(1)
proof (rule list_rep_cases)
  fix v l lv
  assume A: "xs \<noteq> []" "list_at (view (ldb s)) key v l xs" "list_meta (length xs) l v lv"
    "length xs < 2 ^ 63 - 1" "item_map key v (view (ldb s)) = list_window l xs"
    "GetListMetaVal R s (encode_meta_key key) = (1, lv)"
  have range: "(i > int (length xs) - 1 \<or> i < - int (length xs)) \<longleftrightarrow> list_index xs i = None"
    by (auto simp: list_index_def Let_def)
  show ?thesis
  proof (cases "list_index xs i")
    case None
    with A LSet_bounds [OF A(3,4)] range show ?thesis
      by (simp add: LSet_def Let_def)
  next
    case (Some j)
    then have j: "j < length xs" by (auto simp: list_index_def Let_def split: if_splits)
    let ?b = "[Put (encode_key_internal ITEM key (seq_bytes (l + word_of_nat j)) v) val]"
    let ?s = "s\<lparr>ldb := snd (db_Write R (ldb s) ?b)\<rparr>"
    have "LSet R s key i val = (1, ?s)"
      using A Some LSet_bounds [OF A(3,4)] range list_window_index(2) [OF A(3) _ assms(2) Some]
      by (auto simp: LSet_def Let_def list_metaD list_key_is_item_key CommitBatch_view)
    moreover have "list_at (view (ldb ?s)) key v l (xs[j := val])"
      using A(2,5) j by (auto simp: list_at_def Write_view list_window_update)
    moreover have "touches_only key (view (ldb s)) (view (ldb ?s))"
      using touches_only_batch [of ?b key "view (ldb s)"] by (simp add: Write_view)
    ultimately show ?thesis using Some A(1) by (auto simp: list_rep_def)
  qed
qed (simp add: LSet_def Let_def)

end


subsection \<open>Ranges\<close>

lemma succ_seq: "(if q = UINT64_MAX then 0 else q + 1) = q + (1 :: u64)"
  by simp

lemma index_nat: "i < length xs \<Longrightarrow> list_index xs (int i) = Some i"
  by (simp add: list_index_def)

lemma seq_nat:
  assumes "list_meta (length xs) l v lv" "0 \<le> i"
  shows "getSeqByIndex i lv = l + word_of_nat (nat i)"
  using assms by (simp add: getSeqByIndex_eq list_metaD)

context rocksdb_healthy
begin

lemma lrange_loop_take:
  assumes "item_map key v (view (ldb s)) = list_window l xs" "length xs < 2 ^ 63 - 1"
    "i + n \<le> length xs"
  shows "lrange_loop R s key v n (l + word_of_nat i) out = (1, out @ take n (drop i xs))"
  using assms(3)
proof (induction n arbitrary: i out)
  case (Suc n)
  from Suc.prems assms(2) have "unat (word_of_nat i :: u64) = i" by (simp add: unat_of_nat)
  with Suc.prems assms(1,2) have "GetListItemValInternal R s (encode_list_key key (l + word_of_nat i) v) = (1, xs ! i)"
    by (simp add: GetListItemVal_view list_window_nth)
  moreover have "take (Suc n) (drop i xs) = xs ! i # take n (drop (Suc i) xs)"
    using Suc.prems by (simp add: Cons_nth_drop_Suc [symmetric])
  ultimately show ?case
    using Suc.IH [of "Suc i" "out @ [xs ! i]"] Suc.prems
    unfolding lrange_loop.simps succ_seq by (simp add: add.assoc add.commute [of 1])
qed simp

lemma lrange_rep:
  assumes "list_rep (view (ldb s)) key xs"
  shows "lrange R s key start stop = (if xs = [] then 0 else 1, list_slice xs start stop)"
  using assms
proof (rule list_rep_cases)
  fix v l lv
  assume A: "xs \<noteq> []" "list_meta (length xs) l v lv"
    "length xs < 2 ^ 63 - 1" "item_map key v (view (ldb s)) = list_window l xs"
    "GetListMetaVal R s (encode_meta_key key) = (1, lv)"
  define n where "n = int (length xs)"
  define a where "a = max 0 (if start < 0 then n + start else start)"
  define e where "e = (if stop < 0 then n + stop else stop)"
  have llen: "sint (mv_length lv) = n"
    using A(2,3) sint_word_of_int64 [of n] by (simp add: list_metaD int64_def n_def)
  have st: "(if (if start < 0 then n + start else start) < 0 then 0
      else if start < 0 then n + start else start) = a"
    by (simp add: a_def)
  have sl: "list_slice xs start stop = take (nat (min (n - 1) e - a + 1)) (drop (nat a) xs)"
    by (simp add: list_slice_def Let_def n_def a_def e_def)
  show ?thesis
  proof (cases "a > e \<or> a \<ge> n")
    case True
    then have "list_slice xs start stop = []"
      unfolding sl by (auto simp: n_def)
    with True A(1,5) show ?thesis
      unfolding lrange_def Let_def A(5) prod.case llen st e_def [symmetric] by simp
  next
    case False
    have cnt: "nat a + nat (min (n - 1) e - a + 1) \<le> length xs"
      using False by (auto simp: n_def a_def)
    have clip: "(if n \<le> e then n - 1 else e) = min (n - 1) e" by auto
    have "a \<ge> 0" by (simp add: a_def)
    from lrange_loop_take [OF A(4,3) cnt, of "[]"] False A(1) show ?thesis
      unfolding lrange_def Let_def A(5) sl prod.case llen st e_def [symmetric] clip
        seq_nat [OF A(2) \<open>a \<ge> 0\<close>] list_metaD(4) [OF A(2)] by simp
  qed
qed (simp add: lrange_def list_slice_def)

end


subsection \<open>Trimming\<close>

lemma ltrim_left_loop_window:
  assumes "n \<le> length xs" "length xs < 2 ^ 63 - 1" "mv_version lv = v"
    "item_map key v (apply_batch b m) = list_window (left_seq lv) xs" "op_key ` set b \<subseteq> own_keys key"
  shows "\<exists>b'. ltrim_left_loop key n lv d b =
      (lv\<lparr>left_seq := left_seq lv + word_of_nat n\<rparr>, d + word_of_nat n, b') \<and>
    item_map key v (apply_batch b' m) = list_window (left_seq lv + word_of_nat n) (drop n xs) \<and>
    op_key ` set b' \<subseteq> own_keys key"
  using assms
proof (induction n arbitrary: xs lv d b)
  case (Suc n)
  let ?lv = "lv\<lparr>left_seq := left_seq lv + 1\<rparr>"
  let ?b = "b @ [Delete (encode_list_key key (left_seq lv) (mv_version lv))]"
  from Suc.prems(1) obtain x ys where xs: "xs = x # ys" by (cases xs) auto
  have "item_map key v (apply_batch ?b m) = list_window (left_seq ?lv) ys"
    using Suc.prems(2,3,4) list_window_tl [of ys "left_seq lv" x]
    by (simp add: xs list_key_is_item_key del: list_window_simps)
  from Suc.IH [OF _ _ _ this, of "d + 1"] Suc.prems xs obtain b' where
    "ltrim_left_loop key n ?lv (d + 1) ?b =
      (?lv\<lparr>left_seq := left_seq ?lv + word_of_nat n\<rparr>, d + 1 + word_of_nat n, b')"
    "item_map key v (apply_batch b' m) = list_window (left_seq ?lv + word_of_nat n) (drop n ys)"
    "op_key ` set b' \<subseteq> own_keys key" by (auto simp: list_key_is_item_key)
  then show ?case
    unfolding ltrim_left_loop.simps Let_def succ_seq by (simp add: xs add.assoc)
qed auto

lemma ltrim_right_loop_window:
  assumes "n \<le> length xs" "length xs < 2 ^ 63 - 1" "mv_version lv = v"
    "right_seq lv = l + word_of_nat (length xs) - 1"
    "item_map key v (apply_batch b m) = list_window l xs" "op_key ` set b \<subseteq> own_keys key"
  shows "\<exists>b'. ltrim_right_loop key n lv d b =
      (lv\<lparr>right_seq := right_seq lv - word_of_nat n\<rparr>, d + word_of_nat n, b') \<and>
    item_map key v (apply_batch b' m) = list_window l (take (length xs - n) xs) \<and>
    op_key ` set b' \<subseteq> own_keys key"
  using assms
proof (induction n arbitrary: xs lv d b)
  case (Suc n)
  let ?lv = "lv\<lparr>right_seq := right_seq lv - 1\<rparr>"
  let ?b = "b @ [Delete (encode_list_key key (right_seq lv) (mv_version lv))]"
  from Suc.prems(1) obtain x ys where xs: "xs = ys @ [x]" by (cases xs rule: rev_cases) auto
  have "item_map key v (apply_batch ?b m) = list_window l ys"
    using Suc.prems(2-5) list_window_butlast [of ys l x]
    by (simp add: xs list_key_is_item_key)
  from Suc.IH [OF _ _ _ _ this, of ?lv "d + 1"] Suc.prems xs obtain b' where
    "ltrim_right_loop key n ?lv (d + 1) ?b =
      (?lv\<lparr>right_seq := right_seq ?lv - word_of_nat n\<rparr>, d + 1 + word_of_nat n, b')"
    "item_map key v (apply_batch b' m) = list_window l (take (length ys - n) ys)"
    "op_key ` set b' \<subseteq> own_keys key" by (auto simp: list_key_is_item_key)
  then show ?case
    unfolding ltrim_right_loop.simps Let_def prev_seq by (simp add: xs diff_diff_eq add.assoc)
qed auto


text \<open>How many elements each loop removes.\<close>

lemma ltrim_counts:
  assumes lv: "list_meta (length xs) l v lv" and xs: "xs \<noteq> []" "length xs < 2 ^ 63 - 1"
    and n: "n = int (length xs)"
    and a: "a = max 0 (if start < 0 then n + start else start)"
    and e: "e = (if stop < 0 then n + stop else stop)"
  obtains i j where "i + j \<le> length xs"
    "list_slice xs start stop = take (length xs - i - j) (drop i xs)"
    "(if a > e \<or> a \<ge> n then (mv_length lv, 0)
      else (getSeqByIndex a lv - left_seq lv, right_seq lv - getSeqByIndex (if e \<ge> n then n - 1 else e) lv)) =
     (word_of_nat i, word_of_nat j)"
proof -
  have sl: "list_slice xs start stop = take (nat (min (n - 1) e - a + 1)) (drop (nat a) xs)"
    by (simp add: list_slice_def Let_def n a e)
  have a0: "a \<ge> 0" by (simp add: a)
  show ?thesis
  proof (cases "a > e \<or> a \<ge> n")
    case True
    then have "list_slice xs start stop = []" unfolding sl by (auto simp: n)
    with True show ?thesis using that [of "length xs" 0] lv by (simp add: list_metaD)
  next
    case False
    let ?e = "if e \<ge> n then n - 1 else e"
    have e0: "0 \<le> ?e" "?e < n" "a \<le> ?e" using False a0 xs by (auto simp: n)
    let ?i = "nat a" and ?j = "length xs - 1 - nat ?e"
    have "?i + ?j \<le> length xs" using e0 a0 by (simp add: n)
    moreover have "length xs - ?i - ?j = nat (min (n - 1) e - a + 1)"
      using e0 a0 by (auto simp: n min_def split: if_splits)
    moreover have "word_of_nat (length xs) - 1 - word_of_nat (nat ?e) = (word_of_nat ?j :: u64)"
      using e0 xs by (simp add: of_nat_diff Suc_leI n nat_less_iff Suc_le_eq del: of_nat_nat)
    then have "right_seq lv - getSeqByIndex ?e lv = word_of_nat ?j"
      unfolding seq_nat [OF lv e0(1)] list_metaD [OF lv] by (simp add: algebra_simps)
    moreover have "getSeqByIndex a lv - left_seq lv = word_of_nat ?i"
      unfolding seq_nat [OF lv a0] list_metaD [OF lv] by simp
    ultimately show ?thesis using that [of ?i ?j] False sl by simp
  qed
qed


text \<open>Both loops together: what is left of the window and of the meta value.\<close>

lemma ltrim_loops:
  assumes meta: "list_meta (length xs) l v lv" and len: "length xs < 2 ^ 63 - 1"
    and win: "item_map key v m = list_window l xs" and ij: "i + j \<le> length xs"
  obtains lv1 lv2 b1 b2 where
    "ltrim_left_loop key i lv 0 [] = (lv1, word_of_nat i, b1)"
    "ltrim_right_loop key j lv1 (word_of_nat i) b1 = (lv2, word_of_nat (i + j), b2)"
    "mv_length lv2 - word_of_nat (i + j) = word_of_nat (length xs - i - j)"
    "mv_version lv2 = v"
    "list_meta (length xs - i - j) (l + word_of_nat i) v
       (lv2\<lparr>mv_length := word_of_nat (length xs - i - j)\<rparr>)"
    "item_map key v (apply_batch b2 m) =
       list_window (l + word_of_nat i) (take (length xs - i - j) (drop i xs))"
    "op_key ` set b2 \<subseteq> own_keys key"
proof -
  note lv = list_metaD [OF meta]
  let ?l = "l + word_of_nat i" and ?n = "length xs - i - j"
  let ?lv1 = "lv\<lparr>left_seq := ?l\<rparr>"
  obtain b1 where b1: "ltrim_left_loop key i lv 0 [] = (?lv1, word_of_nat i, b1)"
      "item_map key v (apply_batch b1 m) = list_window ?l (drop i xs)"
      "op_key ` set b1 \<subseteq> own_keys key"
    using ltrim_left_loop_window [of i xs lv v key "[]" m 0] len win ij lv by auto
  let ?lv2 = "?lv1\<lparr>right_seq := right_seq lv - word_of_nat j\<rparr>"
  have r: "right_seq ?lv1 = ?l + word_of_nat (length (drop i xs)) - 1"
    using ij by (simp add: lv of_nat_diff)
  have p: "j \<le> length (drop i xs)" "length (drop i xs) < 2 ^ 63 - 1" "mv_version ?lv1 = v"
    using ij len lv by auto
  obtain b2 where b2: "ltrim_right_loop key j ?lv1 (word_of_nat i) b1 = (?lv2, word_of_nat (i + j), b2)"
      "item_map key v (apply_batch b2 m) = list_window ?l (take ?n (drop i xs))"
      "op_key ` set b2 \<subseteq> own_keys key"
    using ltrim_right_loop_window [OF p r b1(2,3), of "word_of_nat i"] by auto
  show ?thesis
    using ij by (intro that [OF b1(1) b2(1) _ _ _ b2(2,3)])
      (simp_all add: list_meta_def lv of_nat_diff diff_diff_eq)
qed

context rocksdb_healthy
begin

lemma ltrim_at:
  assumes at: "xs \<noteq> []" "list_meta (length xs) l v lv" "length xs < 2 ^ 63 - 1"
    "item_map key v (view (ldb s)) = list_window l xs"
    "GetListMetaVal R s (encode_meta_key key) = (1, lv)"
  shows "\<exists>s'. ltrim R s key start stop = (if list_slice xs start stop = [] then 0 else 1, s') \<and>
      list_rep (view (ldb s')) key (list_slice xs start stop) \<and>
      touches_only key (view (ldb s)) (view (ldb s'))"
proof -
  let ?m = "view (ldb s)" and ?k = "encode_meta_key key" and ?ys = "list_slice xs start stop"
  define n where "n = int (length xs)"
  define a where "a = max 0 (if start < 0 then n + start else start)"
  define e where "e = (if stop < 0 then n + stop else stop)"
  have llen: "sint (mv_length lv) = n"
    using at(2,3) sint_word_of_int64 [of n] by (simp add: list_metaD int64_def n_def)
  have st: "(if (if start < 0 then n + start else start) < 0 then 0
      else if start < 0 then n + start else start) = a"
    by (simp add: a_def)
  obtain i j where ij: "i + j \<le> length xs" and sl: "?ys = take (length xs - i - j) (drop i xs)"
    and cnt: "(if a > e \<or> a \<ge> n then (mv_length lv, 0)
      else (getSeqByIndex a lv - left_seq lv, right_seq lv - getSeqByIndex (if e \<ge> n then n - 1 else e) lv)) =
     (word_of_nat i, word_of_nat j)"
    using ltrim_counts [OF at(2,1,3) n_def a_def e_def] by blast
  have uij: "unat (word_of_nat i :: u64) = i" "unat (word_of_nat j :: u64) = j"
    using ij at(3) by (simp_all add: unat_of_nat)
  obtain lv1 lv2 b1 b2 where loops: "ltrim_left_loop key i lv 0 [] = (lv1, word_of_nat i, b1)"
    "ltrim_right_loop key j lv1 (word_of_nat i) b1 = (lv2, word_of_nat (i + j), b2)"
    and len: "mv_length lv2 - word_of_nat (i + j) = word_of_nat (length xs - i - j)"
    and ver: "mv_version lv2 = v"
    and lm: "list_meta (length xs - i - j) (l + word_of_nat i) v
       (lv2\<lparr>mv_length := word_of_nat (length xs - i - j)\<rparr>)"
    and win: "item_map key v (apply_batch b2 ?m) =
       list_window (l + word_of_nat i) (take (length xs - i - j) (drop i xs))"
    and own: "op_key ` set b2 \<subseteq> own_keys key"
    by (rule ltrim_loops [OF at(2,3,4) ij])
  have lsl: "length xs - i - j = length ?ys" using ij by (simp add: sl)
  have len0: "word_of_nat (length ?ys) = (0 :: u64) \<longleftrightarrow> ?ys = []"
    using at(3) lsl by (auto simp: word_of_nat_eq_0_iff dest!: dvd_imp_le)
  note run = ltrim_def Let_def at(5) prod.case llen st e_def [symmetric] cnt uij loops
  show ?thesis
  proof (cases "?ys = []")
    case True
    let ?b = "b2 @ [Put ?k (encode_list_meta_val 0 0 0 v KEY_DELETE_MASK), Put (encode_delete_key key v) []]"
    obtain r b s' where c: "cancelExpiration R s key ?b = (r, b, s')" by (metis prod_cases3)
    note del = cancel_deleted [OF c, unfolded encode_list_meta_val_def, of ?m LSIZE v]
    have "ltrim R s key start stop = (0, s'\<lparr>ldb := snd (db_Write R (ldb s') b)\<rparr>)"
      using True c len lsl unfolding run by (simp add: ver CommitBatch_view)
    with True del own show ?thesis by (auto simp: list_rep_def Write_view)
  next
    case False
    let ?b = "b2 @ [Put ?k (EncodeValueListMeta (lv2\<lparr>mv_length := word_of_nat (length ?ys)\<rparr>))]"
    let ?s = "s\<lparr>ldb := snd (db_Write R (ldb s) ?b)\<rparr>"
    have "ltrim R s key start stop = (1, ?s)"
      using False len len0 lsl unfolding run by (simp add: CommitBatch_view)
    moreover have "list_at (view (ldb ?s)) key v (l + word_of_nat i) ?ys"
      using False win lsl at(3) sl
      by (intro list_atI [OF lm [unfolded lsl]]) (auto simp: Write_view)
    moreover have "touches_only key ?m (view (ldb ?s))"
      using touches_only_batch [of ?b key ?m] own by (simp add: Write_view)
    ultimately show ?thesis using False by (auto simp: list_rep_def)
  qed
qed

lemma ltrim_rep:
  assumes "list_rep (view (ldb s)) key xs"
  shows "if xs = [] then ltrim R s key start stop = (0, s)
    else \<exists>s'. ltrim R s key start stop = (if list_slice xs start stop = [] then 0 else 1, s') \<and>
      list_rep (view (ldb s')) key (list_slice xs start stop) \<and>
      touches_only key (view (ldb s)) (view (ldb s'))"
  using assms
  by (rule list_rep_cases) (use ltrim_at in \<open>simp_all add: ltrim_def Let_def\<close>)

end

section \<open>A list is a double-ended queue\<close>

text \<open>
  The contract of a double-ended queue: \<open>rep s xs\<close> relates a state to its contents, \<open>ready\<close>
  says that an empty queue may be filled, and \<open>cap\<close> bounds the length.
\<close>

primrec drain :: "('s \<Rightarrow> 'a option \<times> 's) \<Rightarrow> nat \<Rightarrow> 's \<Rightarrow> 'a option list" where
  "drain pop 0 s = []"
| "drain pop (Suc n) s = fst (pop s) # drain pop n (snd (pop s))"

locale deque =
  fixes rep :: "'s \<Rightarrow> 'a list \<Rightarrow> bool" and ready :: "'s \<Rightarrow> bool" and cap :: nat
    and pushl :: "'a \<Rightarrow> 's \<Rightarrow> 's" and pushr :: "'a \<Rightarrow> 's \<Rightarrow> 's"
    and popl :: "'s \<Rightarrow> 'a option \<times> 's" and popr :: "'s \<Rightarrow> 'a option \<times> 's"
  assumes pushl_rep: "rep s xs \<Longrightarrow> xs = [] \<longrightarrow> ready s \<Longrightarrow> Suc (length xs) < cap \<Longrightarrow> rep (pushl x s) (x # xs)"
    and pushr_rep: "rep s xs \<Longrightarrow> xs = [] \<longrightarrow> ready s \<Longrightarrow> Suc (length xs) < cap \<Longrightarrow> rep (pushr x s) (xs @ [x])"
    and popl_rep: "rep s (x # xs) \<Longrightarrow> fst (popl s) = Some x \<and> rep (snd (popl s)) xs"
    and popr_rep: "rep s (xs @ [x]) \<Longrightarrow> fst (popr s) = Some x \<and> rep (snd (popr s)) xs"
begin

lemma fold_pushr:
  "rep s xs \<Longrightarrow> xs = [] \<longrightarrow> ready s \<Longrightarrow> length xs + length vs < cap \<Longrightarrow>
   rep (fold pushr vs s) (xs @ vs)"
proof (induction vs arbitrary: s xs)
  case (Cons v vs)
  have "rep (pushr v s) (xs @ [v])" using pushr_rep Cons.prems by simp
  with Cons.IH [of "pushr v s" "xs @ [v]"] Cons.prems show ?case by simp
qed simp

lemma fold_pushl:
  "rep s xs \<Longrightarrow> xs = [] \<longrightarrow> ready s \<Longrightarrow> length xs + length vs < cap \<Longrightarrow>
   rep (fold pushl vs s) (rev vs @ xs)"
proof (induction vs arbitrary: s xs)
  case (Cons v vs)
  have "rep (pushl v s) (v # xs)" using pushl_rep Cons.prems by simp
  with Cons.IH [of "pushl v s" "v # xs"] Cons.prems show ?case by simp
qed simp

lemma drain_popl: "rep s (vs @ xs) \<Longrightarrow> drain popl (length vs) s = map Some vs"
  by (induction vs arbitrary: s) (simp_all add: popl_rep)

lemma drain_popr: "rep s (xs @ rev vs) \<Longrightarrow> drain popr (length vs) s = map Some vs"
proof (induction vs arbitrary: s)
  case (Cons v vs)
  from popr_rep [of s "xs @ rev vs" v] Cons show ?case by simp
qed simp

lemma queue:
  "rep s xs \<Longrightarrow> xs = [] \<longrightarrow> ready s \<Longrightarrow> length xs + length vs < cap \<Longrightarrow>
   drain popl (length xs + length vs) (fold pushr vs s) = map Some (xs @ vs)"
  using drain_popl [of _ "xs @ vs" "[]"] fold_pushr [of s xs vs] by simp

lemma stack:
  "rep s xs \<Longrightarrow> xs = [] \<longrightarrow> ready s \<Longrightarrow> length xs + length vs < cap \<Longrightarrow>
   drain popl (length vs) (fold pushl vs s) = map Some (rev vs)"
  using drain_popl [of _ "rev vs" xs] fold_pushl [of s xs vs] by simp

lemma queue_from_left:
  "rep s xs \<Longrightarrow> xs = [] \<longrightarrow> ready s \<Longrightarrow> length xs + length vs < cap \<Longrightarrow>
   drain popr (length xs + length vs) (fold pushl vs s) = map Some (rev xs @ vs)"
  using drain_popr [of _ "[]" "rev xs @ vs"] fold_pushl [of s xs vs] by simp

end

text \<open>The queue operations of a list key, one element at a time.\<close>

definition list_push1 :: "LIST_POSITION \<Rightarrow> ('db, 'it) rocksdb \<Rightarrow> bytes \<Rightarrow> bytes \<Rightarrow> 'db ssdb \<Rightarrow> 'db ssdb" where
  "list_push1 lp R key x s =
     (case lp of HEAD \<Rightarrow> snd (snd (LPush R s key [x] 0)) | TAIL \<Rightarrow> snd (snd (RPush R s key [x] 0)))"

definition list_pop1 :: "LIST_POSITION \<Rightarrow> ('db, 'it) rocksdb \<Rightarrow> bytes \<Rightarrow> 'db ssdb \<Rightarrow> bytes option \<times> 'db ssdb" where
  "list_pop1 lp R key s =
     (case (case lp of HEAD \<Rightarrow> LPop R s key | TAIL \<Rightarrow> RPop R s key) of
        (_, (x, ok), s) \<Rightarrow> (if ok then Some x else None, s))"

lemma list_push1_end: "list_push1 lp R key x s = snd (snd (list_push_end lp R s key [x] 0))"
  by (cases lp) (simp_all add: list_push1_def LPush_def RPush_def)

lemma list_pop1_end:
  "list_pop1 lp R key s = (case list_pop_end lp R s key of
     (_, (x, ok), s) \<Rightarrow> (if ok then Some x else None, s))"
  by (cases lp) (simp_all add: list_pop1_def LPop_def RPop_def)

sublocale rocksdb_healthy \<subseteq> listq: deque "\<lambda>s. list_rep (view (ldb s)) key"
    "\<lambda>s. fresh (view (ldb s)) key" "2 ^ 63 - 1"
    "list_push1 HEAD R key" "list_push1 TAIL R key" "list_pop1 HEAD R key" "list_pop1 TAIL R key"
  for key :: bytes
proof (unfold_locales, goal_cases)
  case (1 s xs x)
  with list_push_end_rep [of s key xs 0 "[x]" HEAD] show ?case by (auto simp: list_push1_end)
next
  case (2 s xs x)
  with list_push_end_rep [of s key xs 0 "[x]" TAIL] show ?case by (auto simp: list_push1_end)
next
  case (3 s x xs)
  with list_pop_end_rep [of s key "x # xs" HEAD] show ?case by (auto simp: list_pop1_end)
next
  case (4 s xs x)
  with list_pop_end_rep [of s key "xs @ [x]" TAIL] show ?case by (auto simp: list_pop1_end)
qed

context rocksdb_healthy
begin

lemmas list_queue = listq.queue
lemmas list_stack = listq.stack

end

section \<open>Properties\<close>

text \<open>A database that holds the list \<open>[a, b]\<close> under the key \<open>k\<close>, as the bytes 97, 98 and 107.\<close>

definition list_example :: "(bytes \<times> bytes) list ssdb" where
  "list_example = \<lparr>ldb = [(encode_meta_key [107], encode_list_meta_val 2 0 1 0 KEY_ENABLED_MASK),
       (encode_list_key [107] 0 0, [97]), (encode_list_key [107] 1 0, [98])],
     expire_enable = True, first_timeout = INT64_MAX, fast_keys = SS_init, tasks = []\<rparr>"

lemma list_example_rep: "list_rep (map_of (ldb list_example)) [107] [[97], [98]]"
proof -
  have "list_at (map_of (ldb list_example)) [107] 0 0 [[97], [98]]"
    by (auto simp: list_at_def list_example_def item_map_def list_key_is_item_key fun_eq_iff)
  then show ?thesis by (auto simp: list_rep_def)
qed

lemma empty_store_list: "list_rep (map_of (ldb empty_store)) key []" "fresh (map_of (ldb empty_store)) key"
  by (auto simp: list_rep_def absent_def fresh_def no_items_def empty_store_def)

text \<open>
  C5: Pushing. On a key that holds the list \<open>xs\<close> (or is absent, \<open>xs = []\<close>, with nothing
  stored under its next version), \<open>LPush\<close> puts the values in front one by one and \<open>RPush\<close>
  appends them; both report the new length, and no physical key of another logical key
  changes. The sequence numbers wrap around on the way.
\<close>

theorem list_push_correct:
  assumes "rocksdb_healthy R view" "list_rep (view (ldb s)) key xs"
    "xs = [] \<longrightarrow> fresh (view (ldb s)) key"
    "offset < length vals" "length xs + (length vals - offset) < 2 ^ 63 - 1"
  shows "(\<exists>s'. LPush R s key vals offset = (1, word_of_nat (length xs + (length vals - offset)), s') \<and>
      list_rep (view (ldb s')) key (rev (drop offset vals) @ xs) \<and>
      touches_only key (view (ldb s)) (view (ldb s'))) \<and>
    (\<exists>s'. RPush R s key vals offset = (1, word_of_nat (length xs + (length vals - offset)), s') \<and>
      list_rep (view (ldb s')) key (xs @ drop offset vals) \<and>
      touches_only key (view (ldb s)) (view (ldb s')))"
  using rocksdb_healthy.list_push_end_rep [OF assms, of HEAD]
    rocksdb_healthy.list_push_end_rep [OF assms, of TAIL]
  by (simp add: LPush_def RPush_def)

theorem list_push_correct_witness:
  "\<exists>s'. LPush mem_rocksdb empty_store [107] [[0], [97], [98]] 1 = (1, 2, s') \<and>
     list_rep (map_of (ldb s')) [107] [[98], [97]]"
  using list_push_correct [OF mem.rocksdb_healthy_axioms empty_store_list(1), of "[107]" 1 "[[0], [97], [98]]"]
    empty_store_list(2)
  by auto

text \<open>
  Popping. \<open>LPop\<close> and \<open>RPop\<close> return the first and the last element and leave the rest;
  on a key that holds nothing they change nothing and report no element. Popping the only
  element deletes the key (result 0 instead of 1).
\<close>

theorem list_pop_correct:
  assumes "rocksdb_healthy R view" "list_rep (view (ldb s)) key xs"
  shows "if xs = [] then LPop R s key = (0, ([], False), s) \<and> RPop R s key = (0, ([], False), s)
    else (\<exists>s'. LPop R s key = (if length xs = 1 then 0 else 1, (hd xs, True), s') \<and>
        list_rep (view (ldb s')) key (tl xs) \<and> touches_only key (view (ldb s)) (view (ldb s'))) \<and>
      (\<exists>s'. RPop R s key = (if length xs = 1 then 0 else 1, (last xs, True), s') \<and>
        list_rep (view (ldb s')) key (butlast xs) \<and> touches_only key (view (ldb s)) (view (ldb s')))"
  using rocksdb_healthy.list_pop_end_rep [OF assms, of HEAD]
    rocksdb_healthy.list_pop_end_rep [OF assms, of TAIL]
  by (cases "xs = []"; cases "length xs = 1") (simp_all add: LPop_def RPop_def)

theorem list_pop_correct_witness:
  "\<exists>s'. RPop mem_rocksdb list_example [107] = (1, ([98], True), s') \<and>
     list_rep (map_of (ldb s')) [107] [[97]]"
  using list_pop_correct [OF mem.rocksdb_healthy_axioms list_example_rep] by auto

text \<open>
  Reading. \<open>LLen\<close> is the length, \<open>LIndex\<close> the element at a position, negative positions
  counting from the end, and not found outside the list for every 64-bit index; \<open>lrange\<close>
  returns the elements between two positions.
\<close>

theorem list_read_correct:
  assumes "rocksdb_healthy R view" "list_rep (view (ldb s)) key xs" "int64 i"
  shows "LLen R s key = (if xs = [] then 0 else 1, word_of_nat (length xs)) \<and>
    LIndex R s key i =
      (case list_index xs i of None \<Rightarrow> (0, [], False) | Some j \<Rightarrow> (1, xs ! j, True)) \<and>
    lrange R s key start stop = (if xs = [] then 0 else 1, list_slice xs start stop)"
  using rocksdb_healthy.LLen_rep [OF assms(1,2)] rocksdb_healthy.LIndex_rep [OF assms]
    rocksdb_healthy.lrange_rep [OF assms(1,2)]
  by simp

theorem list_read_correct_witness:
  "LIndex mem_rocksdb list_example [107] (-1) = (1, [98], True) \<and>
   lrange mem_rocksdb list_example [107] (-1) 7 = (1, [[98]])"
  using list_read_correct [OF mem.rocksdb_healthy_axioms list_example_rep, of "-1" "-1" 7]
  by (simp add: int64_def list_index_def list_slice_def)

text \<open>
  \<open>LSet\<close> replaces the element at a position of the list, refuses a position outside
  with \<open>INDEX_OUT_OF_RANGE\<close> and an absent key with 0, both without a change.
\<close>

theorem list_set_correct:
  assumes "rocksdb_healthy R view" "list_rep (view (ldb s)) key xs" "int64 i"
  shows "if xs = [] then LSet R s key i val = (0, s)
    else case list_index xs i of
      None \<Rightarrow> LSet R s key i val = (INDEX_OUT_OF_RANGE, s)
    | Some j \<Rightarrow> \<exists>s'. LSet R s key i val = (1, s') \<and> list_rep (view (ldb s')) key (xs[j := val]) \<and>
        touches_only key (view (ldb s)) (view (ldb s'))"
  by (rule rocksdb_healthy.LSet_rep [OF assms])

theorem list_set_correct_witness:
  "(\<exists>s'. LSet mem_rocksdb list_example [107] (-1) [99] = (1, s') \<and>
      list_rep (map_of (ldb s')) [107] [[97], [99]]) \<and>
   LSet mem_rocksdb list_example [107] 2 [99] = (INDEX_OUT_OF_RANGE, list_example)"
  using list_set_correct [OF mem.rocksdb_healthy_axioms list_example_rep, of "-1" "[99]"]
    list_set_correct [OF mem.rocksdb_healthy_axioms list_example_rep, of 2 "[99]"]
  by (auto simp: int64_def list_index_def)

text \<open>
  \<open>ltrim\<close> keeps exactly the elements between two positions, and deletes the key when
  none is left (result 0).
\<close>

theorem list_trim_correct:
  assumes "rocksdb_healthy R view" "list_rep (view (ldb s)) key xs"
  shows "if xs = [] then ltrim R s key start stop = (0, s)
    else \<exists>s'. ltrim R s key start stop = (if list_slice xs start stop = [] then 0 else 1, s') \<and>
      list_rep (view (ldb s')) key (list_slice xs start stop) \<and>
      touches_only key (view (ldb s)) (view (ldb s'))"
  by (rule rocksdb_healthy.ltrim_rep [OF assms])

theorem list_trim_correct_witness:
  "\<exists>s'. ltrim mem_rocksdb list_example [107] 0 (-2) = (1, s') \<and>
     list_rep (map_of (ldb s')) [107] [[97]]"
  using list_trim_correct [OF mem.rocksdb_healthy_axioms list_example_rep, of 0 "-2"]
  by (auto simp: list_slice_def)

text \<open>
  A list is a queue and a stack. Values pushed at the tail one by one come out of the
  head in the order they went in, behind what was there; values pushed at the head come
  out of the head in reverse order.
\<close>

theorem list_queue_stack:
  assumes "rocksdb_healthy R view" "list_rep (view (ldb s)) key xs"
    "xs = [] \<longrightarrow> fresh (view (ldb s)) key" "length xs + length vs < 2 ^ 63 - 1"
  shows "drain (list_pop1 HEAD R key) (length xs + length vs) (fold (list_push1 TAIL R key) vs s) =
      map Some (xs @ vs) \<and>
    drain (list_pop1 HEAD R key) (length vs) (fold (list_push1 HEAD R key) vs s) =
      map Some (rev vs)"
  using rocksdb_healthy.list_queue [OF assms] rocksdb_healthy.list_stack [OF assms] by blast

theorem list_queue_stack_witness:
  "drain (list_pop1 HEAD mem_rocksdb [107]) 4 (fold (list_push1 TAIL mem_rocksdb [107]) [[1], [2]] list_example) =
     [Some [97], Some [98], Some [1], Some [2]]"
proof -
  have four: "(4 :: nat) = Suc (Suc (Suc (Suc 0)))" by simp
  show ?thesis
    using list_queue_stack [OF mem.rocksdb_healthy_axioms list_example_rep, of "[[1], [2]]"]
    unfolding four by (simp del: drain.simps)
qed

end
