(* ===== verification/Deadlines.thy ===== *)
theory Deadlines
  imports Expiration
begin

text \<open>
  What the expiration handler guarantees. The abstract state is the map from keys to
  deadlines; the concrete one is the index in the database together with the bounded
  in-memory set \<^verbatim>\<open>fast_keys\<close> and \<^verbatim>\<open>first_timeout\<close>. The invariant \<open>index_ok\<close>
  says that the in-memory set holds true deadlines, that no key outside it is due earlier
  than one inside it, and that \<^verbatim>\<open>first_timeout\<close> is a lower bound of all deadlines.
  Setting, removing and reading deadlines refine the map, and the expiration loop deletes
  only keys that are due and, called often enough, all of them.
\<close>

section \<open>Deadlines\<close>

definition deadline :: "contents \<Rightarrow> bytes \<rightharpoonup> int" where
  "deadline m k = map_option (\<lambda>v. sint (load64 v)) (m (encode_eset_key k))"

definition index_ok :: "(bytes \<rightharpoonup> int) \<Rightarrow> 'db ssdb \<Rightarrow> bool" where
  "index_ok D s \<longleftrightarrow> SS_inv (fast_keys s) \<and> SS_map (fast_keys s) \<subseteq>\<^sub>m D \<and>
     (\<forall>k t k' t'. D k = Some t \<longrightarrow> SS_map (fast_keys s) k = None \<longrightarrow>
        SS_map (fast_keys s) k' = Some t' \<longrightarrow> t' \<le> t) \<and>
     (\<forall>k t. D k = Some t \<longrightarrow> first_timeout s \<le> t)"

definition escore_wf :: "contents \<Rightarrow> bool" where
  "escore_wf m \<longleftrightarrow> (\<forall>x. x \<in> dom m \<longrightarrow> x \<noteq> [] \<longrightarrow> hd x = ESCORE \<longrightarrow> (\<exists>k ts. x = encode_escore_key k ts))"

definition exp_inv :: "contents \<Rightarrow> 'db ssdb \<Rightarrow> bool" where
  "exp_inv m s \<longleftrightarrow> expire_enable s \<and> expiry_wf m \<and> escore_wf m \<and> index_ok (deadline m) s \<and>
     (\<forall>k t. deadline m k = Some t \<longrightarrow> 0 \<le> t \<and> t < INT64_MAX \<and> live m k)"

lemma exp_invD:
  assumes "exp_inv m s"
  shows "expire_enable s" "expiry_wf m" "index_ok (deadline m) s" "escore_wf m"
    "deadline m k = Some t \<Longrightarrow> 0 \<le> t" "deadline m k = Some t \<Longrightarrow> t < INT64_MAX"
    "deadline m k = Some t \<Longrightarrow> live m k"
  using assms unfolding exp_inv_def by blast+

lemma escore_wf_upd:
  "escore_wf m \<Longrightarrow> escore_wf (m(x := None))"
  "escore_wf m \<Longrightarrow> escore_wf (m(encode_escore_key k ts := y))"
  "escore_wf m \<Longrightarrow> escore_wf (m(encode_eset_key k := y))"
  by (auto simp: escore_wf_def encode_eset_key_def EKEY_def ESCORE_def split: if_splits)

lemma escore_wf_cong: "(\<And>x. expiry_key x \<Longrightarrow> m x = m' x) \<Longrightarrow> escore_wf m \<longleftrightarrow> escore_wf m'"
  unfolding escore_wf_def dom_def by (metis (no_types, lifting) mem_Collect_eq)

lemma index_okD:
  assumes "index_ok D s"
  shows "SS_inv (fast_keys s)" "SS_map (fast_keys s) k = Some t \<Longrightarrow> D k = Some t"
    "D k = Some t \<Longrightarrow> SS_map (fast_keys s) k = None \<Longrightarrow> SS_map (fast_keys s) k' = Some t' \<Longrightarrow> t' \<le> t"
    "D k = Some t \<Longrightarrow> first_timeout s \<le> t"
proof -
  have i: "SS_inv (fast_keys s)" "SS_map (fast_keys s) \<subseteq>\<^sub>m D"
    "\<forall>k t k' t'. D k = Some t \<longrightarrow> SS_map (fast_keys s) k = None \<longrightarrow>
      SS_map (fast_keys s) k' = Some t' \<longrightarrow> t' \<le> t"
    "\<forall>k t. D k = Some t \<longrightarrow> first_timeout s \<le> t"
    using assms unfolding index_ok_def by blast+
  show "SS_inv (fast_keys s)" by (rule i(1))
  show "SS_map (fast_keys s) k = Some t \<Longrightarrow> D k = Some t"
    using i(2) unfolding map_le_def by (metis domI)
  show "D k = Some t \<Longrightarrow> SS_map (fast_keys s) k = None \<Longrightarrow> SS_map (fast_keys s) k' = Some t' \<Longrightarrow> t' \<le> t"
    using i(3) by blast
  show "D k = Some t \<Longrightarrow> first_timeout s \<le> t" using i(4) by blast
qed

lemma index_okI:
  assumes "SS_inv (fast_keys s)" "\<And>k t. SS_map (fast_keys s) k = Some t \<Longrightarrow> D k = Some t"
    "\<And>k t k' t'. D k = Some t \<Longrightarrow> SS_map (fast_keys s) k = None \<Longrightarrow>
       SS_map (fast_keys s) k' = Some t' \<Longrightarrow> t' \<le> t"
    "\<And>k t. D k = Some t \<Longrightarrow> first_timeout s \<le> t"
  shows "index_ok D s"
  using assms unfolding index_ok_def map_le_def by (auto simp: dom_def)

subsection \<open>The in-memory part\<close>

lemma index_ok_lower: "index_ok D s \<Longrightarrow> t \<le> first_timeout s \<Longrightarrow> index_ok D (s\<lparr>first_timeout := t\<rparr>)"
  unfolding index_ok_def by fastforce

lemma index_ok_cancel:
  assumes "index_ok D s"
  shows "index_ok (D(k := None)) (s\<lparr>fast_keys := snd (SS_del (fast_keys s) k)\<rparr>)"
  using index_okD [OF assms]
  by (intro index_okI) (auto simp: ss.inv_del SS_map_del split: if_splits)

lemma SS_empty_map: "SS_inv ss \<Longrightarrow> SS_empty ss \<longleftrightarrow> SS_map ss = Map.empty"
proof -
  assume "SS_inv ss"
  have "SS_empty ss \<longleftrightarrow> SS_front ss = None"
    by (auto simp: SS_empty_def SS_size_def SS_front_def split: list.splits)
  with SS_front_None [OF \<open>SS_inv ss\<close>] show ?thesis by simp
qed

lemma SS_max_score_map:
  assumes "SS_inv ss" "\<not> SS_empty ss"
  shows "\<exists>k. SS_map ss k = Some (SS_max_score ss)"
    and "SS_map ss k' = Some t \<Longrightarrow> t \<le> SS_max_score ss"
proof -
  from assms(2) have ne: "sorted_set ss \<noteq> []"
    by (auto simp: SS_empty_def SS_size_def)
  then obtain k x where b: "SS_back ss = Some (k, x)" by (auto simp: SS_back_def Let_def)
  then have "SS_max_score ss = x" by (simp add: SS_max_score_def)
  with SS_back_greatest [OF assms(1) b]
  show "\<exists>k. SS_map ss k = Some (SS_max_score ss)" "SS_map ss k' = Some t \<Longrightarrow> t \<le> SS_max_score ss"
    by auto
qed

lemma index_ok_pop_back:
  assumes "index_ok D s" "SS_map (fast_keys s) \<noteq> Map.empty"
  shows "index_ok D (s\<lparr>fast_keys := snd (SS_pop_back (fast_keys s))\<rparr>)"
proof -
  note i = index_okD [OF assms(1)]
  from ss.pop_back [OF i(1) assms(2)] obtain k x where
    k: "SS_map (fast_keys s) k = Some x" "\<And>k' x'. SS_map (fast_keys s) k' = Some x' \<Longrightarrow> x' \<le> x"
    "snd (SS_pop_back (fast_keys s)) = snd (SS_del (fast_keys s) k)" by blast
  show ?thesis
  proof (rule index_okI)
    fix k1 t k' t'
    assume a: "D k1 = Some t"
      "SS_map (fast_keys (s\<lparr>fast_keys := snd (SS_pop_back (fast_keys s))\<rparr>)) k1 = None"
      "SS_map (fast_keys (s\<lparr>fast_keys := snd (SS_pop_back (fast_keys s))\<rparr>)) k' = Some t'"
    then have t': "SS_map (fast_keys s) k' = Some t'" by (auto simp: k SS_map_del split: if_splits)
    show "t' \<le> t"
    proof (cases "k1 = k")
      case True
      then have "t = x" using i(2) [OF k(1)] a(1) by simp
      then show ?thesis using k(2) [OF t'] by simp
    next
      case False
      then have "SS_map (fast_keys s) k1 = None" using a(2) by (simp add: k SS_map_del)
      with i(3) [OF a(1) _ t'] show ?thesis by blast
    qed
  qed (use i in \<open>auto simp: k ss.inv_del SS_map_del split: if_splits\<close>)
qed

lemma index_ok_add:
  assumes "index_ok D s" "\<not> SS_empty (fast_keys s)" "t \<le> SS_max_score (fast_keys s)" "first_timeout s \<le> t"
  shows "index_ok (D(k \<mapsto> t)) (s\<lparr>fast_keys := snd (SS_add (fast_keys s) k t)\<rparr>)"
proof -
  note i = index_okD [OF assms(1)]
  note mx = SS_max_score_map [OF i(1) assms(2)]
  show ?thesis
  proof (rule index_okI)
    fix k1 t1 k' t'
    assume a: "(D(k \<mapsto> t)) k1 = Some t1"
      "SS_map (fast_keys (s\<lparr>fast_keys := snd (SS_add (fast_keys s) k t)\<rparr>)) k1 = None"
      "SS_map (fast_keys (s\<lparr>fast_keys := snd (SS_add (fast_keys s) k t)\<rparr>)) k' = Some t'"
    then have k1: "D k1 = Some t1" "SS_map (fast_keys s) k1 = None" by (auto simp: SS_map_add split: if_splits)
    from mx(1) have "SS_max_score (fast_keys s) \<le> t1" using i(3) [OF k1] by blast
    moreover have "t' \<le> SS_max_score (fast_keys s)"
      using a(3) mx(2) [of k' t'] assms(3) by (auto simp: SS_map_add split: if_splits)
    ultimately show "t' \<le> t1" by simp
  qed (use i assms(4) in \<open>auto simp: ss.inv_add SS_map_add split: if_splits\<close>)
qed

lemma index_ok_insert:
  assumes "index_ok D s"
  shows "index_ok (D(k \<mapsto> t)) (insertFastKey s k t)"
proof -
  define s1 where "s1 = (if t < first_timeout s then s\<lparr>first_timeout := t\<rparr> else s)"
  have i: "index_ok D s1" using assms index_ok_lower [OF assms, of t] by (simp add: s1_def)
  have ft: "first_timeout s1 \<le> t" by (simp add: s1_def)
  let ?fk = "snd (SS_add (fast_keys s1) k t)"
  have ins: "insertFastKey s k t =
    (if \<not> SS_empty (fast_keys s1) \<and> t \<le> SS_max_score (fast_keys s1)
     then s1\<lparr>fast_keys := if SS_size ?fk > BATCH_SIZE then snd (SS_pop_back ?fk) else ?fk\<rparr>
     else s1\<lparr>fast_keys := snd (SS_del (fast_keys s1) k)\<rparr>)"
    unfolding insertFastKey_def Let_def s1_def by (rule refl)
  show ?thesis
  proof (cases "\<not> SS_empty (fast_keys s1) \<and> t \<le> SS_max_score (fast_keys s1)")
    case True
    have a: "index_ok (D(k \<mapsto> t)) (s1\<lparr>fast_keys := ?fk\<rparr>)"
      using index_ok_add [OF i _ _ ft] True by blast
    have "SS_map ?fk \<noteq> Map.empty" by (auto simp: SS_map_add fun_eq_iff)
    with index_ok_pop_back [OF a] have
      "index_ok (D(k \<mapsto> t)) (s1\<lparr>fast_keys := snd (SS_pop_back ?fk)\<rparr>)" by simp
    with a True show ?thesis unfolding ins by simp
  next
    case False
    let ?s' = "s1\<lparr>fast_keys := snd (SS_del (fast_keys s1) k)\<rparr>"
    note j = index_okD [OF i]
    have "index_ok (D(k \<mapsto> t)) ?s'"
    proof (rule index_okI)
      fix k1 t1 k' t'
      assume a: "(D(k \<mapsto> t)) k1 = Some t1" "SS_map (fast_keys ?s') k1 = None"
        "SS_map (fast_keys ?s') k' = Some t'"
      then have t': "SS_map (fast_keys s1) k' = Some t'" by (auto simp: SS_map_del split: if_splits)
      then have "SS_map (fast_keys s1) \<noteq> Map.empty" by (metis option.distinct(1))
      then have ne: "\<not> SS_empty (fast_keys s1)" using SS_empty_map [OF j(1)] by blast
      then have "t' \<le> t" using False SS_max_score_map(2) [OF j(1) ne t'] by auto
      then show "t' \<le> t1"
        using a(1,2) j(3) [of k1 t1 k' t'] t' by (auto simp: SS_map_del split: if_splits)
    qed (use j ft in \<open>auto simp: ss.inv_del SS_map_del split: if_splits\<close>)
    then show ?thesis unfolding ins if_not_P [OF False] .
  qed
qed

lemma insertFastKey_frame [simp]:
  "ldb (insertFastKey s k t) = ldb s" "expire_enable (insertFastKey s k t) = expire_enable s"
  by (simp_all add: insertFastKey_def Let_def)

section \<open>Setting, removing and reading deadlines\<close>

lemma deadline_simps [simp]:
  "deadline (m(encode_eset_key k \<mapsto> v)) = (deadline m)(k \<mapsto> sint (load64 v))"
  "deadline (m(encode_eset_key k := None)) = (deadline m)(k := None)"
  "deadline (m(encode_escore_key k ts := x)) = deadline m"
  "deadline (m(encode_meta_key k := x)) = deadline m"
  "deadline (m(encode_delete_key k w := x)) = deadline m"
  "deadline (m(encode_key_internal ITEM k f w := x)) = deadline m"
  by (auto simp: deadline_def fun_eq_iff)

lemma live_simps [simp]:
  "live (m(encode_eset_key k' := x)) k \<longleftrightarrow> live m k"
  "live (m(encode_escore_key k' ts := x)) k \<longleftrightarrow> live m k"
  "live (m(encode_delete_key k' w := x)) k \<longleftrightarrow> live m k"
  by (auto simp: live_def)

lemma deadline_cong: "(\<And>k. expiry_key k \<Longrightarrow> m k = m' k) \<Longrightarrow> deadline m = deadline m'"
  by (simp add: deadline_def fun_eq_iff)

lemma deadline_None_iff: "deadline m k = None \<longleftrightarrow> m (encode_eset_key k) = None"
  by (simp add: deadline_def)

text \<open>What the removal of a deadline does to the contents.\<close>

definition drop_deadline :: "contents \<Rightarrow> bytes \<Rightarrow> contents \<Rightarrow> contents" where
  "drop_deadline m0 k m = (case m0 (encode_eset_key k) of None \<Rightarrow> m
     | Some v \<Rightarrow> m(encode_escore_key k (load64 v) := None, encode_eset_key k := None))"

lemma drop_deadline_other: "\<not> expiry_key x \<Longrightarrow> drop_deadline m0 k m x = m x"
  using expiry_key_simps [of k] by (auto simp: drop_deadline_def split: option.splits)

lemma deadline_drop:
  "(\<And>k. deadline m k = deadline m0 k) \<Longrightarrow> deadline (drop_deadline m0 k m) = (deadline m0)(k := None)"
  using deadline_None_iff [of m k] deadline_None_iff [of m0 k]
  by (auto simp: drop_deadline_def fun_eq_iff split: option.splits)

lemma live_drop [simp]: "live (drop_deadline m0 k m) k' \<longleftrightarrow> live m k'"
  by (simp add: drop_deadline_def split: option.splits)

lemma drop_deadline_wf:
  assumes "expiry_wf m0" "\<And>x. expiry_key x \<Longrightarrow> m x = m0 x"
  shows "expiry_wf (drop_deadline m0 k m)"
proof (cases "m0 (encode_eset_key k)")
  case (Some x)
  have wf: "expiry_wf m" using assms expiry_wf_cong by metis
  from Some obtain ts where x: "x = raw64 ts" "m (encode_eset_key k) = Some (raw64 ts)"
    using assms(2) [of "encode_eset_key k"] expiry_wf_ekey [OF assms(1), of k x] by auto
  from expiry_wf_del [OF wf x(2)] Some x(1) show ?thesis by (simp add: drop_deadline_def)
next
  case None
  then show ?thesis using assms expiry_wf_cong [of m m0] by (simp add: drop_deadline_def)
qed

context rocksdb_healthy
begin

lemma cancel_effect:
  assumes "expire_enable s" "expiry_wf (view (ldb s))" "index_ok D s"
  shows "\<exists>b' s'. cancelExpiration R s k b = (if deadline (view (ldb s)) k = None then 0 else 1, b', s') \<and>
    ldb s' = ldb s \<and> expire_enable s' \<and> first_timeout s' = first_timeout s \<and> index_ok (D(k := None)) s' \<and>
    (\<forall>m. apply_batch b' m = drop_deadline (view (ldb s)) k (apply_batch b m))"
proof -
  let ?s = "s\<lparr>fast_keys := snd (SS_del (fast_keys s) k)\<rparr>"
  have "cancelExpiration R s k b =
    (if deadline (view (ldb s)) k = None then 0 else 1, snd (edel_one R ?s k b), ?s)"
    using assms by (simp add: cancelExpiration_def Let_def edel_one_def eget_view deadline_None_iff
        split: option.splits)
  moreover have "apply_batch (snd (edel_one R ?s k b)) m = drop_deadline (view (ldb s)) k (apply_batch b m)" for m
    using edel_one_view [of ?s k b m] assms by (simp add: drop_deadline_def split: option.splits)
  ultimately show ?thesis using index_ok_cancel [OF assms(3), of k] assms(1) by auto
qed

lemma exp_inv_drop:
  assumes "exp_inv (view (ldb s)) s" "index_ok ((deadline (view (ldb s)))(k := None)) s'" "expire_enable s'"
    "\<And>x. expiry_key x \<Longrightarrow> m x = view (ldb s) x" "\<And>k'. k' \<noteq> k \<Longrightarrow> live (view (ldb s)) k' \<Longrightarrow> live m k'"
  shows "exp_inv (drop_deadline (view (ldb s)) k m) s'"
proof -
  let ?v = "view (ldb s)"
  have d: "deadline (drop_deadline ?v k m) = (deadline ?v)(k := None)"
    using deadline_cong [of m ?v] assms(4) by (intro deadline_drop) auto
  have "expiry_wf (drop_deadline ?v k m)"
    using assms(1,4) by (intro drop_deadline_wf) (auto simp: exp_inv_def)
  moreover have "escore_wf (drop_deadline ?v k m)"
    using assms(1,4) escore_wf_cong [of m ?v]
    by (auto simp: exp_inv_def drop_deadline_def intro!: escore_wf_upd split: option.splits)
  ultimately show ?thesis using d assms by (auto simp: exp_inv_def)
qed

lemma persist_effect:
  assumes "exp_inv (view (ldb s)) s"
  shows "\<exists>s'. persist R s k = (if deadline (view (ldb s)) k = None then 0 else 1, s') \<and>
    view (ldb s') = drop_deadline (view (ldb s)) k (view (ldb s)) \<and> exp_inv (view (ldb s')) s'"
proof (cases "first_timeout s = INT64_MAX")
  case True
  have "deadline (view (ldb s)) k = None"
  proof (cases "deadline (view (ldb s)) k")
    case (Some t)
    then have "t < INT64_MAX" "first_timeout s \<le> t"
      using assms index_okD(4) unfolding exp_inv_def by blast+
    with True show ?thesis by simp
  qed
  with True assms show ?thesis
    by (auto simp: persist_def exp_inv_def drop_deadline_def deadline_None_iff)
next
  case False
  from cancel_effect [OF exp_invD(1,2,3) [OF assms], of k "[]"] obtain b' s' where
    c: "cancelExpiration R s k [] = (if deadline (view (ldb s)) k = None then 0 else 1, b', s')"
      "ldb s' = ldb s" "expire_enable s'" "index_ok ((deadline (view (ldb s)))(k := None)) s'"
      "\<And>m. apply_batch b' m = drop_deadline (view (ldb s)) k m" by auto
  let ?s' = "snd (CommitBatch R s' b')"
  have e: "expire_enable s" using assms by (simp add: exp_inv_def)
  have "persist R s k = (if deadline (view (ldb s)) k = None then 0 else 1, ?s')"
    using e False c(1) by (simp add: persist_def CommitBatch_view)
  moreover have v: "view (ldb ?s') = drop_deadline (view (ldb s)) k (view (ldb s))"
    using c by (simp add: view_CommitBatch)
  moreover have "index_ok ((deadline (view (ldb s)))(k := None)) ?s'" "expire_enable ?s'"
    using c(3,4) by (simp_all add: CommitBatch_view index_ok_def)
  ultimately show ?thesis
    using exp_inv_drop [OF assms, of k ?s' "view (ldb s)"] by auto
qed

end

text \<open>What setting a deadline does to the contents.\<close>

definition set_deadline :: "contents \<Rightarrow> bytes \<Rightarrow> int \<Rightarrow> contents \<Rightarrow> contents" where
  "set_deadline m0 k t m =
     (case m0 (encode_eset_key k) of None \<Rightarrow> m
      | Some v \<Rightarrow> if load64 v \<noteq> word_of_int t then m(encode_escore_key k (load64 v) := None) else m)
     (encode_eset_key k \<mapsto> raw64 (word_of_int t), encode_escore_key k (word_of_int t) \<mapsto> [])"

lemma set_deadline_other: "\<not> expiry_key x \<Longrightarrow> set_deadline m0 k t m x = m x"
  using expiry_key_simps [of k] by (auto simp: set_deadline_def split: option.splits)

lemma deadline_set: "int64 t \<Longrightarrow> deadline (set_deadline m0 k t m) = (deadline m)(k \<mapsto> t)"
  by (auto simp: set_deadline_def sint_word_of_int64 fun_eq_iff split: option.splits)

lemma live_set [simp]: "live (set_deadline m0 k t m) k' \<longleftrightarrow> live m k'"
  by (simp add: set_deadline_def split: option.splits)

text \<open>What the logical deletion of a key does to the contents.\<close>

definition kill :: "contents \<Rightarrow> bytes \<Rightarrow> contents \<Rightarrow> contents" where
  "kill m0 k m = (let v = the (m0 (encode_meta_key k)) in
     drop_deadline m0 k (m(encode_meta_key k \<mapsto> v[POS_DEL := KEY_DELETE_MASK],
                           encode_delete_key k (meta_version v) \<mapsto> [])))"

lemma live_kill: "live m k \<Longrightarrow> live (kill m0 k' m) k \<longleftrightarrow> k' \<noteq> k"
  if "live m0 k'" for m0 :: contents
  using that by (auto simp: kill_def Let_def live_def drop_deadline_other POS_DEL_def KEY_DELETE_MASK_def
      KEY_ENABLED_MASK_def encode_meta_key_def META_def EKEY_def ESCORE_def encode_delete_key_def DELETE_def)

context rocksdb_healthy
begin

lemma exp_inv_set:
  assumes "exp_inv (view (ldb s)) s" "index_ok ((deadline (view (ldb s)))(k \<mapsto> t)) s'" "expire_enable s'"
    "0 \<le> t" "t < INT64_MAX" "live m k"
    "\<And>x. expiry_key x \<Longrightarrow> m x = view (ldb s) x" "\<And>k'. live (view (ldb s)) k' \<Longrightarrow> live m k'"
  shows "exp_inv (set_deadline (view (ldb s)) k t m) s'"
proof -
  let ?v = "view (ldb s)"
  have i: "int64 t" using assms(4,5) by (simp add: int64_def)
  have d: "deadline (set_deadline ?v k t m) = (deadline ?v)(k \<mapsto> t)"
    using deadline_cong [of m ?v] assms(7) by (simp add: deadline_set [OF i])
  have wf: "expiry_wf ?v" using assms(1) by (simp add: exp_inv_def)
  have "expiry_wf (apply_batch (snd (eset_one R s k [] t)) m)"
    using assms(7) by (intro eset_one_wf wf i) simp
  then have "expiry_wf (set_deadline ?v k t m)"
    using eset_one_view [OF i, of s k "[]" m] by (simp add: set_deadline_def Let_def)
  moreover have "escore_wf (set_deadline ?v k t m)"
    using assms(1,7) escore_wf_cong [of m ?v]
    by (auto simp: exp_inv_def set_deadline_def intro!: escore_wf_upd split: option.splits)
  ultimately show ?thesis using d assms by (auto simp: exp_inv_def)
qed

lemma eset_effect:
  assumes "int64 t"
  shows "\<exists>b'. eset_one R s k b t = (1, b') \<and>
    (\<forall>m. apply_batch b' m = set_deadline (view (ldb s)) k t (apply_batch b m))"
proof (intro exI conjI allI)
  show "eset_one R s k b t = (1, snd (eset_one R s k b t))"
    using eset_one_view [OF assms, of s k b] by (simp add: prod_eq_iff)
  show "apply_batch (snd (eset_one R s k b t)) m = set_deadline (view (ldb s)) k t (apply_batch b m)" for m
    using eset_one_view [OF assms, of s k b m] by (simp add: set_deadline_def Let_def)
qed

lemma expireAt_future:
  assumes "exp_inv (view (ldb s)) s" "now < t" "0 \<le> t" "t < INT64_MAX"
  shows "\<exists>b'. expireAt R now s k t b False = (2, b', insertFastKey s k t) \<and>
    (\<forall>m. apply_batch b' m = set_deadline (view (ldb s)) k t (apply_batch b m))"
  using eset_effect [of t s k b] assms by (auto simp: expireAt_def exp_inv_def int64_def Let_def)

lemma expireAt_future_locked:
  assumes "exp_inv (view (ldb s)) s" "now < t" "0 \<le> t" "t < INT64_MAX" "meta_wf (view (ldb s)) k"
  shows "if live (view (ldb s)) k then
      \<exists>b s'. expireAt R now s k t [] True = (2, b, s') \<and>
        view (ldb s') = set_deadline (view (ldb s)) k t (view (ldb s)) \<and> exp_inv (view (ldb s')) s'
    else expireAt R now s k t [] True = (0, [], s)"
proof -
  have i: "int64 t" using assms by (simp add: int64_def)
  have e: "expire_enable s" "index_ok (deadline (view (ldb s))) s" using assms(1) by (auto simp: exp_inv_def)
  have c: "check_meta_key R s k = (if live (view (ldb s)) k then 1 else 0)"
    using assms(5) by (auto simp: check_meta_key_def Get_view live_def meta_wf_def POS_DEL_def
        KEY_DELETE_MASK_def KEY_ENABLED_MASK_def split: option.splits)
  from eset_effect [OF i, of s k "[]"] obtain b' where b': "eset_one R s k [] t = (1, b')"
    "\<And>m. apply_batch b' m = set_deadline (view (ldb s)) k t m" by auto
  let ?s' = "snd (CommitBatch R (insertFastKey s k t) b')"
  have v: "view (ldb ?s') = set_deadline (view (ldb s)) k t (view (ldb s))"
    by (simp add: view_CommitBatch b')
  have ix: "index_ok ((deadline (view (ldb s)))(k \<mapsto> t)) ?s'"
    using index_ok_insert [OF e(2), of k t] by (simp add: CommitBatch_view index_ok_def)
  show ?thesis
  proof (cases "live (view (ldb s)) k")
    case True
    then have "expireAt R now s k t [] True = (2, b', ?s')"
      using assms(2) e b' c by (simp add: expireAt_def Let_def CommitBatch_view)
    moreover have "exp_inv (view (ldb ?s')) ?s'"
      unfolding v using e(1) True
      by (intro exp_inv_set [OF assms(1) ix _ assms(3,4)]) (auto simp: CommitBatch_view)
    ultimately show ?thesis using True v by auto
  next
    case False
    then show ?thesis using assms(2) e c by (simp add: expireAt_def Let_def)
  qed
qed

lemma del_key_internal_effect:
  assumes "expire_enable s" "expiry_wf (view (ldb s))" "index_ok D s" "live (view (ldb s)) k"
  shows "\<exists>b' s'. del_key_internal R s k b = (1, b', s') \<and> ldb s' = ldb s \<and> expire_enable s' \<and>
    first_timeout s' = first_timeout s \<and> index_ok (D(k := None)) s' \<and>
    (\<forall>m. apply_batch b' m = kill (view (ldb s)) k (apply_batch b m))"
proof -
  from assms(4) obtain v where v: "view (ldb s) (encode_meta_key k) = Some v" "length v \<ge> 4"
    "v ! POS_DEL = KEY_ENABLED_MASK" by (auto simp: live_def)
  let ?b = "b @ [Put (encode_meta_key k) (v[POS_DEL := KEY_DELETE_MASK]),
    Put (encode_delete_key k (meta_version v)) []]"
  from cancel_effect [OF assms(1,2,3), of k ?b] obtain r b' s' where
    c: "cancelExpiration R s k ?b = (r, b', s')" "ldb s' = ldb s" "expire_enable s'"
      "first_timeout s' = first_timeout s"
      "index_ok (D(k := None)) s'"
      "\<And>m. apply_batch b' m = drop_deadline (view (ldb s)) k (apply_batch ?b m)" by blast
  have "del_key_internal R s k b = (1, b', s')"
    using v c(1) meta_version_upd [OF v(2), of KEY_DELETE_MASK]
    by (simp add: del_key_internal_def Get_view mark_key_deleted_def Let_def meta_version_def)
  with c v show ?thesis by (simp add: kill_def)
qed

lemma multi_del_loop_effect:
  assumes "expire_enable s" "expiry_wf (view (ldb s))" "index_ok D s"
    "\<And>k. k \<in> set ks \<Longrightarrow> live (view (ldb s)) k"
  shows "\<exists>b' s'. multi_del_loop R ks b n s = (1, b', n + int (length ks), s') \<and> ldb s' = ldb s \<and>
    expire_enable s' \<and> first_timeout s' = first_timeout s \<and> index_ok (D |` (- set ks)) s' \<and>
    (\<forall>m. apply_batch b' m = fold (kill (view (ldb s))) ks (apply_batch b m))"
  using assms
proof (induction ks arbitrary: b n s D)
  case (Cons k ks)
  from del_key_internal_effect [OF Cons.prems(1,2,3), of k b] Cons.prems(4) obtain b1 s1 where
    1: "del_key_internal R s k b = (1, b1, s1)" "ldb s1 = ldb s" "expire_enable s1"
      "first_timeout s1 = first_timeout s" "index_ok (D(k := None)) s1"
      "\<And>m. apply_batch b1 m = kill (view (ldb s)) k (apply_batch b m)" by auto
  define E where "E = D(k := None)"
  have i: "index_ok E s1" using 1(5) by (simp add: E_def)
  have l: "\<And>k. k \<in> set ks \<Longrightarrow> live (view (ldb s1)) k" using Cons.prems(4) 1(2) by simp
  have w: "expiry_wf (view (ldb s1))" using Cons.prems(2) 1(2) by simp
  from Cons.IH [OF 1(3) w i l, of b1 "n + 1"] obtain b' s' where
    2: "multi_del_loop R ks b1 (n + 1) s1 = (1, b', n + 1 + int (length ks), s')" "ldb s' = ldb s1"
      "expire_enable s'" "first_timeout s' = first_timeout s1" "index_ok (E |` (- set ks)) s'"
      "\<And>m. apply_batch b' m = fold (kill (view (ldb s1))) ks (apply_batch b1 m)" by blast
  have "E |` (- set ks) = D |` (- set (k # ks))"
    by (auto simp: restrict_map_def fun_eq_iff E_def)
  with 1 2 show ?case by (auto simp: add.assoc)
qed (simp add: restrict_map_def)

end

subsection \<open>Deleting several keys\<close>

lemma fold_kill_meta:
  "fold (kill m0) ks m (encode_meta_key k) =
    (if k \<in> set ks then Some ((the (m0 (encode_meta_key k)))[POS_DEL := KEY_DELETE_MASK]) else m (encode_meta_key k))"
proof (induction ks arbitrary: m)
  case (Cons a ks)
  have "kill m0 a m (encode_meta_key k) =
    (if k = a then Some ((the (m0 (encode_meta_key k)))[POS_DEL := KEY_DELETE_MASK]) else m (encode_meta_key k))"
    by (auto simp: kill_def Let_def drop_deadline_def split: option.splits)
  with Cons show ?case by auto
qed simp

lemma fold_kill_data:
  "x \<noteq> [] \<Longrightarrow> hd x \<notin> {META, DELETE, EKEY, ESCORE} \<Longrightarrow> fold (kill m0) ks m x = m x"
proof (induction ks arbitrary: m)
  case (Cons a ks)
  have "kill m0 a m x = m x"
    using Cons.prems by (auto simp: kill_def Let_def drop_deadline_other encode_meta_key_def encode_delete_key_def
        DELETE_def KEY_DELETE_MASK_def)
  with Cons show ?case by auto
qed simp

lemma kill_expiry:
  assumes "expiry_wf m" "escore_wf m" "m (encode_eset_key k) = m0 (encode_eset_key k)"
  shows "expiry_wf (kill m0 k m)" "escore_wf (kill m0 k m)" "deadline (kill m0 k m) = (deadline m)(k := None)"
    "k' \<noteq> k \<Longrightarrow> kill m0 k m (encode_eset_key k') = m (encode_eset_key k')"
proof -
  define n where "n = (let v = the (m0 (encode_meta_key k)) in
    m(encode_meta_key k \<mapsto> v[POS_DEL := KEY_DELETE_MASK], encode_delete_key k (meta_version v) \<mapsto> []))"
  have nm: "n x = m x" if "expiry_key x" for x
    using that by (auto simp: n_def Let_def encode_meta_key_def encode_delete_key_def META_def
        KEY_DELETE_MASK_def EKEY_def ESCORE_def)
  have kn: "kill m0 k m = drop_deadline m0 k n" by (simp add: kill_def n_def Let_def)
  have wf: "expiry_wf n" "escore_wf n" "deadline n = deadline m"
    using assms(1,2) nm expiry_wf_cong [of n m] escore_wf_cong [of n m] deadline_cong [of n m] by auto
  have e: "n (encode_eset_key k) = m0 (encode_eset_key k)" using assms(3) nm by simp
  show "escore_wf (kill m0 k m)"
    unfolding kn drop_deadline_def using wf(2) by (auto intro: escore_wf_upd split: option.splits)
  show "kill m0 k m (encode_eset_key k') = m (encode_eset_key k')" if "k' \<noteq> k"
    unfolding kn drop_deadline_def using that nm by (auto split: option.splits)
  show "expiry_wf (kill m0 k m)"
  proof (cases "m0 (encode_eset_key k)")
    case (Some x)
    then obtain ts where "x = raw64 ts" using expiry_wf_ekey [OF wf(1), of k x] e by auto
    then show ?thesis unfolding kn using expiry_wf_del [OF wf(1), of k ts] Some e
      by (simp add: drop_deadline_def)
  qed (simp add: kn drop_deadline_def wf)
  show "deadline (kill m0 k m) = (deadline m)(k := None)"
    unfolding kn using e wf(3) deadline_None_iff [of n k]
    by (auto simp: drop_deadline_def fun_eq_iff split: option.splits)
qed

lemma fold_kill_expiry:
  assumes "expiry_wf m" "escore_wf m" "distinct ks"
    "\<And>k. k \<in> set ks \<Longrightarrow> m (encode_eset_key k) = m0 (encode_eset_key k)"
  shows "expiry_wf (fold (kill m0) ks m) \<and> escore_wf (fold (kill m0) ks m) \<and>
    deadline (fold (kill m0) ks m) = deadline m |` (- set ks)"
  using assms
proof (induction ks arbitrary: m)
  case (Cons a ks)
  note k = kill_expiry [OF Cons.prems(1,2), of a m0]
  have a: "m (encode_eset_key a) = m0 (encode_eset_key a)" using Cons.prems(4) by simp
  have "\<And>k. k \<in> set ks \<Longrightarrow> kill m0 a m (encode_eset_key k) = m0 (encode_eset_key k)"
    using k(4) [OF a] Cons.prems(3,4) by (metis distinct.simps(2) list.set_intros(2))
  from Cons.IH [OF k(1) [OF a] k(2) [OF a] _ this] Cons.prems(3) k(3) [OF a]
  show ?case by (auto simp: restrict_map_def fun_eq_iff)
qed (simp add: restrict_map_def)

lemma fold_kill_live:
  assumes "k \<notin> set ks"
  shows "live (fold (kill m0) ks m) k \<longleftrightarrow> live m k"
  using assms by (simp add: live_def fold_kill_meta)

lemma fold_kill_dead:
  assumes "k \<in> set ks" "live m0 k"
  shows "\<not> live (fold (kill m0) ks m) k"
  using assms by (auto simp: live_def fold_kill_meta POS_DEL_def KEY_DELETE_MASK_def KEY_ENABLED_MASK_def)

section \<open>The expiration loop\<close>

text \<open>Collecting due keys takes entries off the front of the in-memory set.\<close>

definition earliest :: "(bytes \<rightharpoonup> int) \<Rightarrow> bytes \<Rightarrow> bool" where
  "earliest D k \<longleftrightarrow> (\<exists>t. D k = Some t \<and> (\<forall>k' t'. D k' = Some t' \<longrightarrow> t \<le> t'))"

lemma index_ok_front:
  assumes "index_ok D s" "SS_front (fast_keys s) = Some (k, x)"
  shows "D k = Some x" "D k' = Some t \<Longrightarrow> x \<le> t"
    "index_ok (D(k := None)) (s\<lparr>first_timeout := x, fast_keys := snd (SS_pop_front (fast_keys s))\<rparr>)"
    "index_ok D (s\<lparr>first_timeout := x\<rparr>)"
proof -
  note i = index_okD [OF assms(1)]
  note f = ss.front_least [OF i(1) assms(2)]
  show "D k = Some x" using f i(2) by blast
  have least: "x \<le> t'" if "D k1 = Some t'" for k1 t'
  proof (cases "SS_map (fast_keys s) k1")
    case None
    then show ?thesis using i(3) [OF that, of k x] f by blast
  next
    case (Some u)
    then have "u = t'" using i(2) that by fastforce
    then show ?thesis using f Some by blast
  qed
  then show "D k' = Some t \<Longrightarrow> x \<le> t" by blast
  have pf: "snd (SS_pop_front (fast_keys s)) = snd (SS_del (fast_keys s) k)"
    using ss.pop_front [OF i(1) assms(2)] .
  have "index_ok (D(k := None)) (s\<lparr>fast_keys := snd (SS_del (fast_keys s) k)\<rparr>)"
    by (rule index_ok_cancel [OF assms(1)])
  then show "index_ok (D(k := None)) (s\<lparr>first_timeout := x, fast_keys := snd (SS_pop_front (fast_keys s))\<rparr>)"
    unfolding pf index_ok_def using least by (auto split: if_splits)
  show "index_ok D (s\<lparr>first_timeout := x\<rparr>)"
    using assms(1) least unfolding index_ok_def by simp
qed

lemma expire_collect_effect:
  assumes "expire_collect clock n ks s = (ks', s')" "index_ok D s" "sorted ks" "distinct ks"
    "\<forall>k \<in> set ks. D k = None"
  shows "\<exists>C. set ks' = set ks \<union> C \<and> distinct ks' \<and> sorted ks' \<and> index_ok (D |` (- C)) s' \<and>
    ldb s' = ldb s \<and> expire_enable s' = expire_enable s \<and>
    first_timeout s' \<in> insert (first_timeout s) (ran D) \<and> (\<forall>k \<in> C. \<exists>t i. D k = Some t \<and> t \<le> clock i) \<and>
    (SS_front (fast_keys s) \<noteq> None \<longrightarrow>
       C = {} \<and> (\<forall>k t. D k = Some t \<longrightarrow> clock (Suc n) < t) \<or> (\<exists>k \<in> C. earliest D k))"
  using assms
proof (induction clock n ks s arbitrary: D ks' s' rule: expire_collect.induct)
  case (1 clock n ks s)
  show ?case
  proof (cases "SS_front (fast_keys s)")
    case None
    then show ?thesis using 1 by (intro exI [of _ "{}"]) (auto simp: expire_collect.simps [of clock n ks s] restrict_map_def)
  next
    case (Some p)
    obtain k x where p: "p = (k, x)" by force
    note fr = index_ok_front [OF 1(3) Some [unfolded p]]
    let ?s = "s\<lparr>first_timeout := x, fast_keys := snd (SS_pop_front (fast_keys s))\<rparr>"
    let ?ks = "List.insort_insert k ks"
    show ?thesis
    proof (cases "x \<le> clock (Suc n)")
      case False
      then have r: "ks' = ks" "s' = s\<lparr>first_timeout := x\<rparr>"
        using 1(2) Some p by (auto simp: expire_collect.simps [of clock n ks s] Let_def)
      have "D |` (- {}) = D" by (simp add: restrict_map_def)
      then show ?thesis using r fr(4) False fr(2) ranI [of D, OF fr(1)] 1(4,5)
        by (intro exI [of _ "{}"]) fastforce
    next
      case due: True
      define E where "E = D(k := None)"
      have E: "index_ok E ?s" using fr(3) by (simp add: E_def)
      have ks: "sorted ?ks" "distinct ?ks" "set ?ks = insert k (set ks)"
        using 1(4,5) by (simp_all add: sorted_insort_insert distinct_insort_insert set_insort_insert)
      have kD: "\<exists>t i. D k = Some t \<and> t \<le> clock i" using fr(1) due by blast
      have kE: "earliest D k" unfolding earliest_def using fr(1,2) by blast
      have C: "(D |` (- insert k C)) = E |` (- C)" for C by (auto simp: E_def restrict_map_def fun_eq_iff)
      show ?thesis
      proof (cases "Suc n > 101")
        case True
        then have r: "ks' = ?ks" "s' = ?s"
          using 1(2) Some p due by (auto simp: expire_collect.simps [of clock n ks s] Let_def)
        have "E |` (- {}) = E" by (simp add: restrict_map_def)
        then show ?thesis using r ks E kD kE ranI [of D, OF fr(1)] C [of "{}"]
          by (intro exI [of _ "{k}"]) auto
      next
        case False
        then have r: "expire_collect clock (Suc n) ?ks ?s = (ks', s')"
          using 1(2) Some p due by (simp add: expire_collect.simps [of clock n ks s] Let_def)
        have nd: "\<forall>k \<in> set ?ks. E k = None" using 1(6) ks(3) by (auto simp: E_def)
        have "\<exists>C. set ks' = set ?ks \<union> C \<and> distinct ks' \<and> sorted ks' \<and> index_ok (E |` (- C)) s' \<and>
            ldb s' = ldb ?s \<and> expire_enable s' = expire_enable ?s \<and>
            first_timeout s' \<in> insert (first_timeout ?s) (ran E) \<and> (\<forall>k \<in> C. \<exists>t i. E k = Some t \<and> t \<le> clock i) \<and>
            (SS_front (fast_keys ?s) \<noteq> None \<longrightarrow>
               C = {} \<and> (\<forall>k t. E k = Some t \<longrightarrow> clock (Suc (Suc n)) < t) \<or> (\<exists>k \<in> C. earliest E k))"
          using 1(1) [OF Some p [symmetric] refl refl refl _ refl refl, of ks' s' E] due False r E ks nd by simp
        then obtain C where C1: "set ks' = set ?ks \<union> C" "distinct ks'" "sorted ks'" "index_ok (E |` (- C)) s'"
            "ldb s' = ldb ?s" "expire_enable s' = expire_enable ?s"
            "\<forall>k \<in> C. \<exists>t i. E k = Some t \<and> t \<le> clock i"
            "first_timeout s' \<in> insert (first_timeout ?s) (ran E)" by blast
        have "ran E \<subseteq> ran D" by (auto simp: E_def ran_def split: if_splits)
        then have "first_timeout s' \<in> ran D" using C1(8) fr(1) by (auto intro: ranI)
        moreover
        have "\<forall>k' \<in> insert k C. \<exists>t i. D k' = Some t \<and> t \<le> clock i"
          using C1(7) kD by (auto simp: E_def split: if_splits)
        ultimately show ?thesis using C1 C [of C] ks(3) kE by (intro exI [of _ "insert k C"]) auto
      qed
    qed
  qed
qed

subsection \<open>Loading deadlines from the database\<close>

fun escore_scan :: "(bytes \<times> bytes) list \<Rightarrow> (bytes \<times> int) list" where
  "escore_scan [] = []"
| "escore_scan ((k, x) # es) =
     (if k = [] \<or> hd k \<noteq> ESCORE then []
      else case DecodeEScoreItemKey k of
             None \<Rightarrow> escore_scan es
           | Some ek \<Rightarrow> (ek_field ek, ek_score ek) # escore_scan es)"

context iter_walk
begin

lemma EIterator_next_scan:
  assumes "yields d lst (e_it e) es"
  shows "case escore_scan es of
      [] \<Rightarrow> \<exists>e'. EIterator_next R e = (False, e')
    | (k, t) # r \<Rightarrow> \<exists>e' es'. EIterator_next R e = (True, e') \<and> e_key e' = k \<and> e_score e' = t \<and>
        yields d lst (e_it e') es' \<and> escore_scan es' = r"
  using assms
proof (induction es arbitrary: e)
  case Nil
  then show ?case
    using next_yields_Nil [of "e_it e"] by (auto simp: EIterator_next.simps [of R e])
next
  case (Cons a es)
  obtain k x where a: "a = (k, x)" by force
  from next_yields_Cons [OF Cons.prems] obtain i' where
    i': "Iterator_next R (e_it e) = (True, i')" "yields d lst i' es"
    "Iterator_key R i' = k" by (auto simp: a)
  have hd: "length k < 1 \<or> k ! 0 \<noteq> ESCORE \<longleftrightarrow> k = [] \<or> hd k \<noteq> ESCORE" by (cases k) auto
  show ?case
  proof (cases "k = [] \<or> hd k \<noteq> ESCORE")
    case True
    with i' hd show ?thesis by (simp add: EIterator_next.simps [of R e] Let_def a)
  next
    case False
    show ?thesis
    proof (cases "DecodeEScoreItemKey k")
      case None
      with i' False hd have "EIterator_next R e = EIterator_next R (e\<lparr>e_it := i'\<rparr>)"
        by (simp add: EIterator_next.simps [of R e] Let_def)
      then show ?thesis using Cons.IH [of "e\<lparr>e_it := i'\<rparr>"] i' None False
        by (simp add: a split: list.splits prod.splits)
    next
      case (Some ek)
      then show ?thesis using i' False hd by (auto simp: EIterator_next.simps [of R e] Let_def a)
    qed
  qed
qed

lemma load_expiration_loop_scan:
  assumes "yields d lst (e_it e) es"
  shows "load_expiration_loop R e fk = fold (\<lambda>(k, t) fk. snd (SS_add fk k t)) (escore_scan es) fk"
  using assms
proof (induction "escore_scan es" arbitrary: e es fk)
  case Nil
  with EIterator_next_scan [OF Nil.prems] show ?case
    by (auto simp: load_expiration_loop.simps [of R e])
next
  case (Cons p ps)
  obtain k t where p: "p = (k, t)" by force
  from EIterator_next_scan [OF Cons.prems] Cons.hyps(2) p obtain e' es' where
    e': "EIterator_next R e = (True, e')" "e_key e' = k" "e_score e' = t"
      "yields d lst (e_it e') es'" "escore_scan es' = ps" by (auto split: list.splits)
  have "load_expiration_loop R e fk = load_expiration_loop R e' (snd (SS_add fk k t))"
    using e' by (simp add: load_expiration_loop.simps [of R e])
  with Cons.hyps(1) [OF e'(5) [symmetric] e'(4)] e'(5) Cons.hyps(2) [symmetric] p show ?case by simp
qed

end

lemma fold_SS_add:
  assumes "SS_inv fk" "\<And>k t. (k, t) \<in> set L \<Longrightarrow> D k = Some t"
  shows "SS_inv (fold (\<lambda>(k, t) fk. snd (SS_add fk k t)) L fk)"
    "SS_map (fold (\<lambda>(k, t) fk. snd (SS_add fk k t)) L fk) k =
      (if k \<in> fst ` set L then D k else SS_map fk k)"
proof -
  have "SS_inv (fold (\<lambda>(k, t) fk. snd (SS_add fk k t)) L fk) \<and>
    SS_map (fold (\<lambda>(k, t) fk. snd (SS_add fk k t)) L fk) k = (if k \<in> fst ` set L then D k else SS_map fk k)"
    using assms
  proof (induction L arbitrary: fk)
    case (Cons p L)
    obtain a t where p: "p = (a, t)" by force
    have "SS_inv (snd (SS_add fk a t))" using Cons.prems(1) by (rule ss.inv_add)
    moreover have "\<And>k t. (k, t) \<in> set L \<Longrightarrow> D k = Some t" using Cons.prems(2) by simp
    moreover have "D a = Some t" using Cons.prems(2) p by simp
    ultimately show ?case using Cons.IH [of "snd (SS_add fk a t)"] p by (simp add: SS_map_add)
  qed simp
  then show "SS_inv (fold (\<lambda>(k, t) fk. snd (SS_add fk k t)) L fk)"
    "SS_map (fold (\<lambda>(k, t) fk. snd (SS_add fk k t)) L fk) k = (if k \<in> fst ` set L then D k else SS_map fk k)"
    by blast+
qed

definition escore_keys :: "contents \<Rightarrow> bytes list" where
  "escore_keys m = filter (prefix [ESCORE]) (sorted_list_of_set (dom m))"

lemma escore_scan_keys:
  assumes "\<And>x. x \<in> set ks \<Longrightarrow> \<exists>k ts. x = encode_escore_key k ts"
    "\<And>x. x \<in> set ls \<Longrightarrow> \<not> prefix [ESCORE] x"
  shows "escore_scan (map (\<lambda>k. (k, g k)) (ks @ ls)) =
    map (\<lambda>x. case the (DecodeEScoreItemKey x) of ek \<Rightarrow> (ek_field ek, ek_score ek)) ks"
  using assms
proof (induction ks)
  case Nil
  then show ?case by (cases ls; cases "hd ls") (auto simp: prefix_def)
next
  case (Cons x ks)
  from Cons.prems(1) [of x] obtain k ts where "x = encode_escore_key k ts" by auto
  moreover have "hd (encode_escore_key k ts) = ESCORE" "encode_escore_key k ts \<noteq> []"
    by (simp_all add: encode_escore_key_def)
  ultimately show ?case using Cons by simp
qed

lemma escore_entries_split:
  "map fst (filter (\<lambda>e. [ESCORE] \<le> fst e) (sorted_entries m)) =
    escore_keys m @ filter (\<lambda>x. \<not> prefix [ESCORE] x) (filter (\<lambda>x. [ESCORE] \<le> x) (sorted_list_of_set (dom m)))"
proof -
  let ?xs = "filter (\<lambda>x. [ESCORE] \<le> x) (sorted_list_of_set (dom m))"
  have "sorted ?xs" by (rule sorted_wrt_filter) simp
  then have a: "?xs = filter (prefix [ESCORE]) ?xs @ filter (\<lambda>x. \<not> prefix [ESCORE] x) ?xs"
    by (rule sorted_prefix_split) simp
  have b: "filter (prefix [ESCORE]) ?xs = escore_keys m"
    by (auto simp: escore_keys_def prefix_def intro!: filter_cong)
  have c: "map fst (filter (\<lambda>e. [ESCORE] \<le> fst e) (sorted_entries m)) = ?xs"
    by (simp add: sorted_entries_def filter_map comp_def)
  show ?thesis unfolding c using a unfolding b .
qed

lemma word_le_sint:
  fixes a b :: u64
  assumes "0 \<le> sint a" "0 \<le> sint b" "a \<le> b"
  shows "sint a \<le> sint b"
proof -
  have "uint w = sint w" if "0 \<le> sint w" for w :: u64
  proof -
    have "uint w = uint (word_of_int (sint w) :: u64)" by simp
    also have "\<dots> = sint w mod 18446744073709551616" by (simp only: uint_word_of_int) simp
    also have "\<dots> = sint w"
      using that int64_sint [of w] by (simp add: int64_def)
    finally show ?thesis .
  qed
  with assms show ?thesis by (metis word_le_def)
qed

lemma escore_keys_facts:
  assumes "expiry_wf m" "escore_wf m" "finite (dom m)"
  shows "sorted_wrt (<) (escore_keys m)"
    "x \<in> set (escore_keys m) \<Longrightarrow> \<exists>k ts. x = encode_escore_key k ts \<and> deadline m k = Some (sint ts)"
    "deadline m k = Some t \<Longrightarrow> \<exists>ts. t = sint ts \<and> encode_escore_key k ts \<in> set (escore_keys m)"
proof -
  show "sorted_wrt (<) (escore_keys m)"
    unfolding escore_keys_def using assms(3) by (intro sorted_wrt_filter) simp
  show "\<exists>k ts. x = encode_escore_key k ts \<and> deadline m k = Some (sint ts)" if "x \<in> set (escore_keys m)"
  proof -
    from that assms(3) have x: "x \<in> dom m" "x \<noteq> []" "hd x = ESCORE" by (auto simp: escore_keys_def prefix_def)
    with assms(2) obtain k ts where k: "x = encode_escore_key k ts" unfolding escore_wf_def by blast
    with x(1) have "m (encode_eset_key k) = Some (raw64 ts)" using assms(1) unfolding expiry_wf_def by blast
    with k show ?thesis by (auto simp: deadline_def)
  qed
  show "\<exists>ts. t = sint ts \<and> encode_escore_key k ts \<in> set (escore_keys m)" if "deadline m k = Some t"
  proof -
    from that obtain v where "m (encode_eset_key k) = Some v" "t = sint (load64 v)" by (auto simp: deadline_def)
    with expiry_wf_ekey [OF assms(1)] obtain ts where "t = sint ts" "m (encode_escore_key k ts) \<noteq> None"
      by fastforce
    then show ?thesis using assms(3)
      by (intro exI [of _ ts]) (auto simp: escore_keys_def encode_escore_key_def prefix_def)
  qed
qed

context rocksdb_iter
begin

lemma load_effect:
  assumes "exp_inv (view (ldb s)) s" "SS_empty (fast_keys s)"
  shows "\<exists>fk. load_expiration_keys_from_db R s BATCH_SIZE = s\<lparr>fast_keys := fk\<rparr> \<and>
    index_ok (deadline (view (ldb s))) (s\<lparr>fast_keys := fk\<rparr>) \<and>
    (SS_empty fk \<longleftrightarrow> deadline (view (ldb s)) = Map.empty)"
proof -
  let ?m = "view (ldb s)" and ?D = "deadline (view (ldb s))"
  let ?A = "escore_keys ?m" and ?n = "1000 :: nat"
  let ?dec = "\<lambda>x. case the (DecodeEScoreItemKey x) of ek \<Rightarrow> (ek_field ek, ek_score ek)"
  note inv = exp_invD [OF assms(1)]
  note A = escore_keys_facts [OF inv(2,4) finite_view]
  define L where "L = map ?dec (take ?n ?A)"
  define fk where "fk = fold (\<lambda>(k, t) fk. snd (SS_add fk k t)) L (fast_keys s)"
  let ?es = "take ?n (filter (\<lambda>e. [ESCORE] \<le> fst e) (sorted_entries ?m))"
  let ?B = "filter (\<lambda>x. \<not> prefix [ESCORE] x) (filter (\<lambda>x. [ESCORE] \<le> x) (sorted_list_of_set (dom ?m)))"
  have "map fst ?es = take ?n ?A @ take (?n - length ?A) ?B"
    using escore_entries_split [of ?m] by (simp add: take_map [symmetric])
  moreover have "?es = map (\<lambda>k. (k, the (?m k))) (map fst ?es)"
  proof -
    have "e = (fst e, the (?m (fst e)))" if "e \<in> set ?es" for e
      using that by (auto dest!: in_set_takeD simp: sorted_entries_def)
    then show ?thesis by (simp add: comp_def) (metis (no_types, lifting) map_idI)
  qed
  ultimately have es: "?es = map (\<lambda>k. (k, the (?m k))) (take ?n ?A @ take (?n - length ?A) ?B)" by simp
  have "escore_scan ?es = L"
    unfolding es L_def using A(2) by (intro escore_scan_keys) (fastforce dest: in_set_takeD)+
  moreover have "yields FORWARD fwd (SSDB_iterator R (ldb s) [ESCORE] [] (word_of_nat BATCH_SIZE)) ?es"
    using yields_SSDB_iterator [of "ldb s" "[ESCORE]" "[]" "word_of_nat BATCH_SIZE"]
    by (simp add: BATCH_SIZE_def takeWhile_eq_all_conv [THEN iffD2])
  ultimately have load: "load_expiration_keys_from_db R s BATCH_SIZE = s\<lparr>fast_keys := fk\<rparr>"
    using fw.load_expiration_loop_scan [of "EIterator_init (SSDB_iterator R (ldb s) [ESCORE] [] (word_of_nat BATCH_SIZE))"]
    by (simp add: load_expiration_keys_from_db_def fk_def EIterator_init_def)
  have LD: "?D k = Some t" if "(k, t) \<in> set L" for k t
    using that A(2) by (fastforce simp: L_def dest: in_set_takeD)
  have e0: "SS_map (fast_keys s) = Map.empty" using assms(2) SS_empty_map index_okD(1) [OF inv(3)] by blast
  have fk: "SS_inv fk" "SS_map fk k = (if k \<in> fst ` set L then ?D k else None)" for k
    using fold_SS_add [OF index_okD(1) [OF inv(3)] LD, of L] e0 unfolding fk_def by simp_all
  have inL: "\<exists>ts'. encode_escore_key k ts' \<in> set (take ?n ?A) \<and> ?D k = Some (sint ts')" if "k \<in> fst ` set L" for k
    using that A(2) by (fastforce simp: L_def dest: in_set_takeD)
  have "index_ok ?D (s\<lparr>fast_keys := fk\<rparr>)"
  proof (rule index_okI)
    fix k t k' t'
    assume a: "?D k = Some t" "SS_map (fast_keys (s\<lparr>fast_keys := fk\<rparr>)) k = None"
      "SS_map (fast_keys (s\<lparr>fast_keys := fk\<rparr>)) k' = Some t'"
    then have kL: "k \<notin> fst ` set L" and k'L: "k' \<in> fst ` set L" and Dk': "?D k' = Some t'"
      by (auto simp: fk(2) split: if_splits)
    from inL [OF k'L] Dk' obtain ts' where
      k': "encode_escore_key k' ts' \<in> set (take ?n ?A)" "t' = sint ts'" by auto
    from A(3) [OF a(1)] obtain ts where k: "encode_escore_key k ts \<in> set ?A" "t = sint ts" by blast
    have "encode_escore_key k ts \<notin> set (take ?n ?A)"
      using kL by (force simp: L_def image_iff)
    with k(1) have "encode_escore_key k ts \<in> set (drop ?n ?A)"
      by (metis Un_iff append_take_drop_id set_append)
    with k'(1) have "encode_escore_key k' ts' < encode_escore_key k ts"
      using A(1) by (metis append_take_drop_id sorted_wrt_append)
    then have "ts' \<le> ts" by (auto simp: escore_key_less)
    then show "t' \<le> t" unfolding k k'
      using inv(5) [OF a(1)] inv(5) [OF Dk'] k k' by (intro word_le_sint) auto
  qed (use fk inv(3) index_okD(4) in \<open>auto split: if_splits\<close>)
  moreover have "SS_empty fk \<longleftrightarrow> ?D = Map.empty"
  proof
    assume "SS_empty fk"
    then have "fst ` set L = {}" using fk(1) fk(2) LD unfolding SS_empty_map [OF fk(1)]
      by (metis (no_types, lifting) equals0I image_iff option.distinct(1) prod.collapse)
    then have "?A = []" by (simp add: L_def)
    then show "?D = Map.empty" using A(3) by (metis empty_iff list.set(1) not_None_eq ext)
  next
    assume "?D = Map.empty"
    then show "SS_empty fk" unfolding SS_empty_map [OF fk(1)] by (auto simp: fk(2) fun_eq_iff)
  qed
  ultimately show ?thesis using load by blast
qed

lemma expire_loop_effect:
  assumes inv: "exp_inv (view (ldb s)) s"
  shows "\<exists>ks. distinct ks \<and> view (ldb (expire_loop R clock s)) = fold (kill (view (ldb s))) ks (view (ldb s)) \<and>
    exp_inv (view (ldb (expire_loop R clock s))) (expire_loop R clock s) \<and>
    (\<forall>k \<in> set ks. \<exists>t i. deadline (view (ldb s)) k = Some t \<and> t \<le> clock i) \<and>
    (ks = [] \<and> (\<forall>k t. deadline (view (ldb s)) k = Some t \<longrightarrow> clock 1 < t) \<or>
     (\<exists>k \<in> set ks. earliest (deadline (view (ldb s))) k))"
proof -
  let ?m = "view (ldb s)" and ?D = "deadline (view (ldb s))"
  note i = exp_invD [OF inv]
  define s1 where "s1 = (if SS_empty (fast_keys s) then load_expiration_keys_from_db R s BATCH_SIZE else s)"
  have s1: "index_ok ?D s1" "ldb s1 = ldb s" "expire_enable s1"
    "SS_empty (fast_keys s) \<and> SS_empty (fast_keys s1) \<longleftrightarrow> SS_empty (fast_keys s) \<and> ?D = Map.empty"
    using load_effect [OF inv] i(1,3) by (auto simp: s1_def)
  have def: "expire_loop R clock s =
    (if SS_empty (fast_keys s) \<and> SS_empty (fast_keys s1) then s1\<lparr>first_timeout := INT64_MAX\<rparr>
     else case expire_collect clock 0 [] s1 of (keys, s) \<Rightarrow> case multi_del R s keys 0 of (_, _, s) \<Rightarrow> s)"
    unfolding expire_loop_def Let_def s1_def ..
  show ?thesis
  proof (cases "SS_empty (fast_keys s) \<and> SS_empty (fast_keys s1)")
    case True
    then have e: "?D = Map.empty" using s1(4) by blast
    have l: "expire_loop R clock s = s1\<lparr>first_timeout := INT64_MAX\<rparr>"
      using True by (simp add: def)
    have "index_ok ?D (s1\<lparr>first_timeout := INT64_MAX\<rparr>)"
      using s1(1) unfolding index_ok_def e by simp
    then show ?thesis unfolding l using inv s1(2,3) e by (intro exI [of _ "[]"]) (auto simp: exp_inv_def)
  next
    case False
    obtain ks s2 where c: "expire_collect clock 0 [] s1 = (ks, s2)" by force
    have ne: "SS_front (fast_keys s1) \<noteq> None"
      using False index_okD(1) [OF s1(1)] SS_front_None SS_empty_map by (metis s1_def)
    from expire_collect_effect [OF c s1(1)] ne have ks: "distinct ks" "index_ok (?D |` (- set ks)) s2"
      "ldb s2 = ldb s" "expire_enable s2" "\<forall>k \<in> set ks. \<exists>t i. ?D k = Some t \<and> t \<le> clock i"
      "ks = [] \<and> (\<forall>k t. ?D k = Some t \<longrightarrow> clock 1 < t) \<or> (\<exists>k \<in> set ks. earliest ?D k)" using s1(2,3) by auto
    have live: "\<And>k. k \<in> set ks \<Longrightarrow> live (view (ldb s2)) k" using ks(3,5) i(7) by metis
    have "expiry_wf (view (ldb s2))" using ks(3) i(2) by simp
    from multi_del_loop_effect [OF ks(4) this ks(2) live, of ks "[]" 0] obtain b s3 where
      d: "multi_del_loop R ks [] 0 s2 = (1, b, int (length ks), s3)" "ldb s3 = ldb s2" "expire_enable s3"
        "index_ok (?D |` (- set ks)) s3" "\<And>m. apply_batch b m = fold (kill ?m) ks m"
      using ks(3) by (auto simp: Int_absorb)
    have l: "expire_loop R clock s = s3\<lparr>ldb := snd (db_Write R (ldb s3) b)\<rparr>"
      using d(1) unfolding def if_not_P [OF False] c by (simp add: multi_del_def CommitBatch_view)
    have v: "view (ldb (expire_loop R clock s)) = fold (kill ?m) ks ?m"
      using d(2,5) ks(3) by (simp add: l Write_view)
    have f: "expiry_wf (fold (kill ?m) ks ?m)" "escore_wf (fold (kill ?m) ks ?m)"
      "deadline (fold (kill ?m) ks ?m) = ?D |` (- set ks)"
      using fold_kill_expiry [OF i(2,4) ks(1)] by auto
    have "index_ok (?D |` (- set ks)) (expire_loop R clock s)" "expire_enable (expire_loop R clock s)"
      using d(3,4) unfolding l index_ok_def by simp_all
    then have "exp_inv (fold (kill ?m) ks ?m) (expire_loop R clock s)"
      using f i(5,6,7) by (auto simp: exp_inv_def restrict_map_def fold_kill_live split: if_splits)
    with v ks show ?thesis by auto
  qed
qed

end

subsection \<open>The expiration thread\<close>

text \<open>
  One turn of the thread's loop: it does nothing while \<^verbatim>\<open>first_timeout\<close> lies in the
  future; \<open>clock 0\<close> is the reading that decides this.
\<close>

definition expire_thread_turn :: "('db, 'it) rocksdb \<Rightarrow> (nat \<Rightarrow> int) \<Rightarrow> 'db ssdb \<Rightarrow> 'db ssdb" where
  "expire_thread_turn R clock s = (if first_timeout s > clock 0 then s else expire_loop R clock s)"

definition due :: "contents \<Rightarrow> int \<Rightarrow> bytes set" where
  "due m now = {k. \<exists>t. deadline m k = Some t \<and> t \<le> now}"

text \<open>Nothing but keys due at \<open>now\<close> has changed, and what lost its deadline is gone.\<close>

definition only_expired :: "int \<Rightarrow> contents \<Rightarrow> contents \<Rightarrow> bool" where
  "only_expired now m m' \<longleftrightarrow>
     (\<forall>k. k \<notin> due m now \<longrightarrow> deadline m' k = deadline m k \<and> m' (encode_meta_key k) = m (encode_meta_key k)) \<and>
     (\<forall>k. deadline m' k = deadline m k \<and> m' (encode_meta_key k) = m (encode_meta_key k) \<or>
        deadline m' k = None \<and> \<not> live m' k) \<and>
     (\<forall>x. x \<noteq> [] \<longrightarrow> hd x \<notin> {META, DELETE, EKEY, ESCORE} \<longrightarrow> m' x = m x)"

lemma only_expired_refl: "only_expired now m m"
  by (simp add: only_expired_def)

lemma only_expired_trans:
  assumes "only_expired now m m'" "only_expired now m' m''"
  shows "only_expired now m m''"
proof -
  have 1: "k \<notin> due m now \<Longrightarrow> k \<notin> due m' now" for k
    using assms(1) by (auto simp: only_expired_def due_def)
  have 2: "deadline m' k = None \<Longrightarrow> \<not> live m' k \<Longrightarrow> deadline m'' k = None \<and> \<not> live m'' k" for k
  proof -
    assume a: "deadline m' k = None" "\<not> live m' k"
    then have "k \<notin> due m' now" by (simp add: due_def)
    with a assms(2) show ?thesis unfolding only_expired_def live_def by metis
  qed
  have a: "\<And>k. k \<notin> due m now \<Longrightarrow> deadline m' k = deadline m k \<and> m' (encode_meta_key k) = m (encode_meta_key k)"
    "\<And>k. deadline m' k = deadline m k \<and> m' (encode_meta_key k) = m (encode_meta_key k) \<or>
      deadline m' k = None \<and> \<not> live m' k"
    "\<And>x. x \<noteq> [] \<Longrightarrow> hd x \<notin> {META, DELETE, EKEY, ESCORE} \<Longrightarrow> m' x = m x"
    using assms(1) unfolding only_expired_def by blast+
  have b: "\<And>k. k \<notin> due m' now \<Longrightarrow> deadline m'' k = deadline m' k \<and> m'' (encode_meta_key k) = m' (encode_meta_key k)"
    "\<And>k. deadline m'' k = deadline m' k \<and> m'' (encode_meta_key k) = m' (encode_meta_key k) \<or>
      deadline m'' k = None \<and> \<not> live m'' k"
    "\<And>x. x \<noteq> [] \<Longrightarrow> hd x \<notin> {META, DELETE, EKEY, ESCORE} \<Longrightarrow> m'' x = m' x"
    using assms(2) unfolding only_expired_def by blast+
  show ?thesis
    unfolding only_expired_def using a(1,3) b(1,3) 1 by (metis a(2) b(2) 2)
qed

lemma live_meta: "m' (encode_meta_key k) = m (encode_meta_key k) \<Longrightarrow> live m' k \<longleftrightarrow> live m k"
  by (simp add: live_def)

context rocksdb_iter
begin

lemma finite_due: "finite (due (view db) now)"
proof -
  have "encode_eset_key ` due (view db) now \<subseteq> dom (view db)"
    by (auto simp: due_def deadline_def)
  then show ?thesis
    using finite_view [of db] by (metis (no_types, lifting) finite_imageD finite_subset inj_onI encode_eset_key_inj)
qed

lemma thread_turn_effect:
  assumes inv: "exp_inv (view (ldb s)) s" and clk: "\<And>i. now \<le> clock i" "\<And>i. clock i \<le> now'"
  defines "s' \<equiv> expire_thread_turn R clock s"
  shows "exp_inv (view (ldb s')) s'" "only_expired now' (view (ldb s)) (view (ldb s'))"
    "due (view (ldb s')) now \<subset> due (view (ldb s)) now \<or> due (view (ldb s)) now = {} \<and> due (view (ldb s')) now = {}"
proof -
  let ?m = "view (ldb s)"
  note i = exp_invD [OF inv]
  have "exp_inv (view (ldb s')) s' \<and> only_expired now' ?m (view (ldb s')) \<and>
    (due (view (ldb s')) now \<subset> due ?m now \<or> due ?m now = {} \<and> due (view (ldb s')) now = {})"
  proof (cases "first_timeout s > clock 0")
    case True
    then have "due ?m now = {}"
      using index_okD(4) [OF i(3)] clk(1) [of 0] by (fastforce simp: due_def)
    with True inv show ?thesis by (simp add: s'_def expire_thread_turn_def only_expired_refl)
  next
    case False
    then have s': "s' = expire_loop R clock s" by (simp add: s'_def expire_thread_turn_def)
    from expire_loop_effect [OF inv, of clock] obtain ks where
      ks: "distinct ks" "view (ldb s') = fold (kill ?m) ks ?m" "exp_inv (view (ldb s')) s'"
        "\<And>k. k \<in> set ks \<Longrightarrow> \<exists>t i. deadline ?m k = Some t \<and> t \<le> clock i"
        "ks = [] \<and> (\<forall>k t. deadline ?m k = Some t \<longrightarrow> clock 1 < t) \<or> (\<exists>k \<in> set ks. earliest (deadline ?m) k)"
      unfolding s' by blast
    have D: "deadline (view (ldb s')) = deadline ?m |` (- set ks)"
      using fold_kill_expiry [OF i(2,4) ks(1)] by (simp add: ks(2))
    have d: "set ks \<subseteq> due ?m now'" using ks(4) clk(2) by (fastforce simp: due_def intro: order_trans)
    have lv: "live ?m k" if "k \<in> set ks" for k using ks(4) [OF that] i(7) by blast
    have "only_expired now' ?m (view (ldb s'))"
      using d lv D by (auto simp: only_expired_def ks(2) fold_kill_meta fold_kill_data fold_kill_dead
          restrict_map_def)
    moreover have "due (view (ldb s')) now = due ?m now - set ks"
      by (auto simp: due_def D restrict_map_def split: if_splits)
    moreover have "due ?m now = {} \<or> due ?m now \<inter> set ks \<noteq> {}"
      using ks(5) clk(1) [of 1] unfolding due_def earliest_def by fastforce
    ultimately show ?thesis using ks(3) by auto
  qed
  then show "exp_inv (view (ldb s')) s'" "only_expired now' ?m (view (ldb s'))"
    "due (view (ldb s')) now \<subset> due ?m now \<or> due ?m now = {} \<and> due (view (ldb s')) now = {}" by blast+
qed

lemma expire_thread_effect:
  assumes "exp_inv (view (ldb s)) s" "\<And>c i. c \<in> set cs \<Longrightarrow> now \<le> c i" "\<And>c i. c \<in> set cs \<Longrightarrow> c i \<le> now'"
    "card (due (view (ldb s)) now) \<le> length cs"
  defines "s' \<equiv> fold (expire_thread_turn R) cs s"
  shows "exp_inv (view (ldb s')) s' \<and> only_expired now' (view (ldb s)) (view (ldb s')) \<and>
    due (view (ldb s')) now = {}"
  using assms(1-4) unfolding s'_def
proof (induction cs arbitrary: s)
  case Nil
  then show ?case using finite_due [of "ldb s" now] by (simp add: only_expired_refl)
next
  case (Cons c cs)
  let ?s = "expire_thread_turn R c s"
  note t = thread_turn_effect [OF Cons.prems(1), of now c now']
  have c: "\<And>i. now \<le> c i" "\<And>i. c i \<le> now'" using Cons.prems(2,3) by simp_all
  have "card (due (view (ldb ?s)) now) \<le> length cs"
    using t(3) [OF c]
  proof
    assume "due (view (ldb ?s)) now \<subset> due (view (ldb s)) now"
    from psubset_card_mono [OF finite_due this] Cons.prems(4) show ?thesis by simp
  qed simp
  from Cons.IH [OF t(1) [OF c] _ _ this] Cons.prems(2,3) have
    ih: "exp_inv (view (ldb (fold (expire_thread_turn R) cs ?s))) (fold (expire_thread_turn R) cs ?s)"
      "only_expired now' (view (ldb ?s)) (view (ldb (fold (expire_thread_turn R) cs ?s)))"
      "due (view (ldb (fold (expire_thread_turn R) cs ?s))) now = {}" by auto
  with only_expired_trans [OF t(2) [OF c] ih(2)] show ?case by simp
qed

end

context rocksdb_healthy
begin

lemma expireAt_past_locked:
  assumes inv: "exp_inv (view (ldb s)) s" and "t \<le> now" "live (view (ldb s)) k"
  shows "\<exists>b s'. expireAt R now s k t [] True = (2, b, s') \<and> view (ldb s') = kill (view (ldb s)) k (view (ldb s)) \<and>
    exp_inv (view (ldb s')) s'"
proof -
  let ?m = "view (ldb s)"
  note i = exp_invD [OF inv]
  from del_key_internal_effect [OF i(1,2,3) assms(3), of "[]"] obtain b s1 where
    d: "del_key_internal R s k [] = (1, b, s1)" "ldb s1 = ldb s" "expire_enable s1"
      "index_ok ((deadline ?m)(k := None)) s1" "\<And>m. apply_batch b m = kill ?m k m" by auto
  let ?s' = "snd (CommitBatch R s1 b)"
  have v: "view (ldb ?s') = kill ?m k ?m" using d by (simp add: view_CommitBatch)
  note k = kill_expiry [OF i(2,4), of k ?m]
  have "index_ok ((deadline ?m)(k := None)) ?s'" "expire_enable ?s'"
    using d by (simp_all add: CommitBatch_view index_ok_def)
  then have "exp_inv (view (ldb ?s')) ?s'"
    unfolding v exp_inv_def using k i(5,6,7) live_kill [OF assms(3)] by auto
  moreover have "expireAt R now s k t [] True = (2, b, ?s')"
    using i(1) assms(2) d(1) by (simp add: expireAt_def CommitBatch_view)
  ultimately show ?thesis using v by blast
qed

lemma pttl_deadline:
  assumes "expire_enable s" "meta_wf (view (ldb s)) k"
  shows "pttl R now s k tu =
    (if \<not> live (view (ldb s)) k then -2
     else case deadline (view (ldb s)) k of None \<Rightarrow> -1
       | Some t \<Rightarrow> if t < now then -2
                 else case tu of Second \<Rightarrow> (t - now + 500) div 1000 | Millisecond \<Rightarrow> t - now)"
proof -
  have "check_meta_key R s k = (if live (view (ldb s)) k then 1 else 0)"
    using assms(2) by (auto simp: check_meta_key_def Get_view live_def meta_wf_def POS_DEL_def
        KEY_DELETE_MASK_def KEY_ENABLED_MASK_def split: option.splits)
  then show ?thesis
    using assms(1) by (auto simp: pttl_def eget_view deadline_def Let_def split: option.splits)
qed

end

section \<open>Properties\<close>

text \<open>The time to live in milliseconds, and which times to live EXPIRE and PEXPIRE refuse.\<close>

definition ttl_millis :: "int \<Rightarrow> TimeUnit \<Rightarrow> int" where
  "ttl_millis ttl tu = (case tu of Second \<Rightarrow> 1000 * ttl | Millisecond \<Rightarrow> ttl)"

definition ttl_refused :: "int \<Rightarrow> TimeUnit \<Rightarrow> bool" where
  "ttl_refused ttl tu \<longleftrightarrow> (case tu of Second \<Rightarrow> ttl \<ge> 9223372036854775 | Millisecond \<Rightarrow> ttl \<ge> 9223372036854775807)"

lemma convert2ms_spec: "convert2ms ttl tu = (if ttl_refused ttl tu then (INVALID_EX_TIME, ttl) else (1, ttl_millis ttl tu))"
  by (simp add: convert2ms_def ttl_refused_def ttl_millis_def split: TimeUnit.split)


text \<open>A store with the string key \<open>k\<close>, due at time 5, and one without deadlines.\<close>

definition expire_example :: "(bytes \<times> bytes) list ssdb" where
  "expire_example = empty_store\<lparr>first_timeout := 0,
     ldb := [(encode_meta_key [107], encode_kv_val [118] 0 KEY_ENABLED_MASK),
             (encode_eset_key [107], raw64 5), (encode_escore_key [107] 5, [])]\<rparr>"

lemma expire_example_facts:
  "deadline (map_of (ldb expire_example)) = [[107] \<mapsto> 5]"
  "live (map_of (ldb expire_example)) [107]" "meta_wf (map_of (ldb expire_example)) [107]"
proof -
  let ?m = "map_of (ldb expire_example)"
  have m: "?m = [encode_meta_key [107] \<mapsto> encode_kv_val [118] 0 KEY_ENABLED_MASK,
      encode_eset_key [107] \<mapsto> raw64 5, encode_escore_key [107] 5 \<mapsto> []]"
    by (auto simp: expire_example_def fun_eq_iff)
  have e: "deadline Map.empty = Map.empty" by (auto simp: deadline_def)
  show d: "deadline ?m = [[107] \<mapsto> 5]" unfolding m by (simp add: e)
  show l: "live ?m [107]" unfolding m
    by (simp add: live_def encode_kv_val_def POS_DEL_def str_pos_del)
  show "meta_wf ?m [107]" using l unfolding m by (simp add: live_def meta_wf_def)
qed

lemma expire_example_inv: "exp_inv (map_of (ldb expire_example)) expire_example"
proof -
  let ?m = "map_of (ldb expire_example)"
  have m: "?m = [encode_meta_key [107] \<mapsto> encode_kv_val [118] 0 KEY_ENABLED_MASK,
      encode_eset_key [107] \<mapsto> raw64 5, encode_escore_key [107] 5 \<mapsto> []]"
    by (auto simp: expire_example_def fun_eq_iff)
  have "expiry_wf ?m" unfolding m by (auto simp: expiry_wf_def split: if_splits)
  moreover have "escore_wf ?m" unfolding m
    by (auto simp: escore_wf_def encode_meta_key_def encode_eset_key_def META_def EKEY_def ESCORE_def split: if_splits)
  moreover have "index_ok [[107] \<mapsto> 5] expire_example"
    using SS_inv_init
    by (auto simp: index_ok_def expire_example_def empty_store_def SS_map_def SS_init_def map_le_def
        split: if_splits)
  ultimately show ?thesis
    using expire_example_facts by (auto simp: exp_inv_def expire_example_def empty_store_def)
qed


text \<open>
  PERSIST and TTL. PERSIST removes the deadline of its key and reports whether there was
  one; TTL answers -2 for a key that does not exist or is past its deadline, -1 for a key
  without one, and otherwise the remaining time in the unit asked for.
\<close>

theorem persist_ttl_correct:
  assumes "rocksdb_healthy R view" "exp_inv (view (ldb s)) s" "meta_wf (view (ldb s)) k"
  shows "(\<exists>s'. persist R s k = (if deadline (view (ldb s)) k = None then 0 else 1, s') \<and>
      exp_inv (view (ldb s')) s' \<and> deadline (view (ldb s')) = (deadline (view (ldb s)))(k := None) \<and>
      (\<forall>x. \<not> expiry_key x \<longrightarrow> view (ldb s') x = view (ldb s) x)) \<and>
    pttl R now s k tu =
      (if \<not> live (view (ldb s)) k then -2
       else case deadline (view (ldb s)) k of None \<Rightarrow> -1
         | Some t \<Rightarrow> if t < now then -2
                   else case tu of Second \<Rightarrow> (t - now + 500) div 1000 | Millisecond \<Rightarrow> t - now)"
  using rocksdb_healthy.persist_effect [OF assms(1,2), of k]
    rocksdb_healthy.pttl_deadline [OF assms(1) exp_invD(1) [OF assms(2)] assms(3), of now tu]
    deadline_drop [of "view (ldb s)" "view (ldb s)" k]
  by (auto simp: drop_deadline_other)

theorem persist_ttl_correct_witness:
  "(\<exists>s'. persist mem_rocksdb expire_example [107] = (1, s') \<and> deadline (map_of (ldb s')) = Map.empty) \<and>
   pttl mem_rocksdb 2 expire_example [107] Millisecond = 3"
  using persist_ttl_correct [OF mem.rocksdb_healthy_axioms expire_example_inv expire_example_facts(3), of 2 Millisecond]
    expire_example_facts
  by auto

text \<open>
  C30: The expiration thread. Whatever the clock shows in each turn, as long as it lies between
  \<open>now\<close> and \<open>now'\<close>, as many turns as there are due keys are enough: every key due at \<open>now\<close>
  has been deleted, no key that is not due at \<open>now'\<close> has been touched, and the index stays
  consistent.
\<close>

theorem expire_thread_correct:
  assumes "rocksdb_iter R view fwd" "exp_inv (view (ldb s)) s"
    "\<forall>c \<in> set cs. \<forall>i. now \<le> c i \<and> c i \<le> now'" "card (due (view (ldb s)) now) \<le> length cs"
    "s' = fold (expire_thread_turn R) cs s"
  shows "exp_inv (view (ldb s')) s' \<and> only_expired now' (view (ldb s)) (view (ldb s')) \<and>
    due (view (ldb s')) now = {} \<and> (\<forall>k \<in> due (view (ldb s)) now. \<not> live (view (ldb s')) k)"
proof -
  have e: "exp_inv (view (ldb s')) s'" "only_expired now' (view (ldb s)) (view (ldb s'))"
    "due (view (ldb s')) now = {}"
    using rocksdb_iter.expire_thread_effect [OF assms(1,2), of cs now now'] assms(3-5) by auto
  have "\<not> live (view (ldb s')) k" if "k \<in> due (view (ldb s)) now" for k
  proof -
    have "deadline (view (ldb s')) k \<noteq> deadline (view (ldb s)) k"
      using that e(3) by (auto simp: due_def)
    then show ?thesis using e(2) unfolding only_expired_def by blast
  qed
  with e show ?thesis by blast
qed

theorem expire_thread_correct_witness:
  "\<not> live (map_of (ldb (expire_thread_turn mem_rocksdb (\<lambda>_. 7) expire_example))) [107]"
proof -
  have "due (map_of (ldb expire_example)) 7 = {[107]}"
    by (auto simp: due_def expire_example_facts split: if_splits)
  with expire_thread_correct [OF mem.rocksdb_iter_axioms expire_example_inv, of "[\<lambda>_. 7]" 7 7]
  show ?thesis by simp
qed

text \<open>
  C31: Collecting due keys and deleting them are two critical sections, and the second does
  not look at the deadlines again. A client that removes the deadline of a collected key in
  between gets a success reply, and the key is deleted all the same.
\<close>

theorem expire_race:
  assumes "rocksdb_healthy R view" "exp_inv (view (ldb s)) s"
    "expire_collect clock 0 [] s = (ks, s1)" "k \<in> set ks"
  shows "\<exists>s2 s3. persist R s1 k = (1, s2) \<and> live (view (ldb s2)) k \<and> deadline (view (ldb s2)) k = None \<and>
    multi_del R s2 ks 0 = (1, int (length ks), s3) \<and> \<not> live (view (ldb s3)) k"
proof -
  let ?m = "view (ldb s)" and ?D = "deadline (view (ldb s))"
  note i = exp_invD [OF assms(2)]
  from expire_collect_effect [OF assms(3) i(3)] have c: "distinct ks" "index_ok (?D |` (- set ks)) s1"
    "ldb s1 = ldb s" "expire_enable s1" "\<forall>k \<in> set ks. \<exists>t i. ?D k = Some t \<and> t \<le> clock i"
    "first_timeout s1 \<in> insert (first_timeout s) (ran ?D)"
    using i(1) by auto
  have lv: "\<And>k. k \<in> set ks \<Longrightarrow> live ?m k" and k: "?D k \<noteq> None" using c(5) i(7) assms(4) by force+
  have "first_timeout s < INT64_MAX"
    using k index_okD(4) [OF i(3)] i(6) by fastforce
  then have ft: "first_timeout s1 \<noteq> INT64_MAX"
    using c(6) i(6) by (fastforce simp: ran_def)
  from rocksdb_healthy.cancel_effect [OF assms(1) c(4) _ c(2), of k "[]"] i(2) c(3) k obtain b2 s2 where
    2: "cancelExpiration R s1 k [] = (1, b2, s2)" "ldb s2 = ldb s" "expire_enable s2"
      "index_ok ((?D |` (- set ks))(k := None)) s2" "\<And>m. apply_batch b2 m = drop_deadline ?m k m" by auto
  let ?s2 = "snd (CommitBatch R s2 b2)"
  have p: "persist R s1 k = (1, ?s2)"
    using c(4) ft 2(1) by (simp add: persist_def rocksdb_healthy.CommitBatch_view [OF assms(1)])
  have v: "view (ldb ?s2) = drop_deadline ?m k ?m"
    using 2 by (simp add: rocksdb_healthy.view_CommitBatch [OF assms(1)])
  have s2: "expire_enable ?s2" "index_ok ((?D |` (- set ks))(k := None)) ?s2"
    using 2(3,4) by (simp_all add: rocksdb_healthy.CommitBatch_view [OF assms(1)] index_ok_def)
  have lv2: "\<And>k. k \<in> set ks \<Longrightarrow> live (view (ldb ?s2)) k" using lv by (simp add: v)
  have "expiry_wf (view (ldb ?s2))" unfolding v by (rule drop_deadline_wf [OF i(2)]) simp
  from rocksdb_healthy.multi_del_loop_effect [OF assms(1) s2(1) this s2(2) lv2, of ks "[]" 0]
  obtain b3 s3 where 3: "multi_del_loop R ks [] 0 ?s2 = (1, b3, int (length ks), s3)" "ldb s3 = ldb ?s2"
    "\<And>m. apply_batch b3 m = fold (kill (view (ldb ?s2))) ks m" by auto
  have "multi_del R ?s2 ks 0 = (1, int (length ks), snd (CommitBatch R s3 b3))"
    using 3(1) by (simp add: multi_del_def rocksdb_healthy.CommitBatch_view [OF assms(1)])
  moreover have "\<not> live (view (ldb (snd (CommitBatch R s3 b3)))) k"
    using 3(2,3) fold_kill_dead [OF assms(4) lv2 [OF assms(4)]]
    by (simp add: rocksdb_healthy.view_CommitBatch [OF assms(1)])
  moreover have "deadline (view (ldb ?s2)) k = None"
    using deadline_drop [of ?m ?m k] by (simp add: v)
  ultimately show ?thesis using p lv2 [OF assms(4)] by blast
qed

theorem expire_race_witness:
  "\<exists>s s1 s2 s3. expire_collect (\<lambda>_. 7) 0 [] s = ([[107]], s1) \<and>
     persist mem_rocksdb s1 [107] = (1, s2) \<and> live (map_of (ldb s2)) [107] \<and>
     deadline (map_of (ldb s2)) [107] = None \<and>
     multi_del mem_rocksdb s2 [[107]] 0 = (1, 1, s3) \<and> \<not> live (map_of (ldb s3)) [107]"
proof -
  let ?s = "expire_example\<lparr>fast_keys := snd (SS_add SS_init [107] 5)\<rparr>"
  let ?s1 = "?s\<lparr>first_timeout := 5, fast_keys := SS_init\<rparr>"
  have f: "snd (SS_add SS_init [107] 5) = \<lparr>existed = [[107] \<mapsto> (5, [107])], sorted_set = [(5, [107])]\<rparr>"
    by (simp add: SS_add_def SS_init_def)
  have "index_ok [[107] \<mapsto> 5] ?s"
    using SS_inv_init
    by (intro index_okI)
      (auto simp: SS_map_add SS_inv_add expire_example_def empty_store_def SS_map_def SS_init_def split: if_splits)
  then have inv: "exp_inv (map_of (ldb ?s)) ?s"
    using expire_example_inv expire_example_facts(1) by (simp add: exp_inv_def)
  have c: "expire_collect (\<lambda>_. 7) 0 [] ?s = ([[107]], ?s1)"
  proof -
    have "(existed \<lparr>existed = [[107] \<mapsto> (5, [107])], sorted_set = [(5, [107])]\<rparr>)([107] := None) = existed SS_init"
      by (simp add: SS_init_def)
    then have "expire_collect (\<lambda>_. 7) 0 [] ?s = expire_collect (\<lambda>_. 7) (Suc 0) [[107]] ?s1"
      unfolding f by (simp add: expire_collect.simps [of _ 0] SS_front_def SS_pop_front_def SS_init_def
          insort_insert_key_def Let_def)
    also have "\<dots> = ([[107]], ?s1)"
      by (simp add: expire_collect.simps [of _ "Suc 0"] SS_front_def SS_init_def)
    finally show ?thesis .
  qed
  from expire_race [OF mem.rocksdb_healthy_axioms inv c, of "[107]"] c show ?thesis by fastforce
qed

end
