(* ===== verification/TKv.thy ===== *)
theory TKv
  imports Deadlines Strings
begin

unbundle bit_operations_syntax

text \<open>
  String values: \<^verbatim>\<open>src/src/storage/t_kv.cpp\<close> and \<^verbatim>\<open>t_kv.h\<close>. The value is stored in the
  meta value itself. The abstract state of a key is \<open>kv_rep m key v\<close> with \<open>v\<close> an optional
  byte string; every command refines the corresponding function on it, together with the
  deadline of the key. The float command \<^verbatim>\<open>incrbyfloat\<close> computes on long doubles and is not
  modelled. \<^verbatim>\<open>time_ms()\<close> is an argument, one per reading of the clock.
\<close>

section \<open>Operations\<close>

definition OBJ_SET_NO_FLAGS :: int where "OBJ_SET_NO_FLAGS = 0"
definition OBJ_SET_NX :: int where "OBJ_SET_NX = 1"
definition OBJ_SET_XX :: int where "OBJ_SET_XX = 2"
definition OBJ_SET_EX :: int where "OBJ_SET_EX = 4"
definition OBJ_SET_PX :: int where "OBJ_SET_PX = 8"

definition GetKvMetaVal :: "('db, 'it) rocksdb \<Rightarrow> 'db ssdb \<Rightarrow> bytes \<Rightarrow> int \<times> KvMetaVal" where
  "GetKvMetaVal R s meta_key =
     (let kv = KvMetaVal_init in
      case db_Get R (ldb s) meta_key of
        GetNotFound \<Rightarrow> (0, kv\<lparr>kv_version := 0, kv_del := KEY_ENABLED_MASK, kv_type := KV\<rparr>)
      | GetError \<Rightarrow> (STORAGE_ERR, kv)
      | GetOk meta_val \<Rightarrow>
          (case KvDecodeMetaVal meta_val False kv of (ret, kv) \<Rightarrow>
             if ret < 0 then (ret, kv)
             else if kv_del kv = KEY_DELETE_MASK then
               (0, kv\<lparr>kv_version := next_version (kv_version kv), kv_del := KEY_ENABLED_MASK,
                      kv_type := KV\<rparr>)
             else (1, kv)))"

definition SetGeneric ::
  "('db, 'it) rocksdb \<Rightarrow> int \<Rightarrow> int \<Rightarrow> 'db ssdb \<Rightarrow> bytes \<Rightarrow> batch \<Rightarrow> bytes \<Rightarrow> int \<Rightarrow> int \<Rightarrow> int \<Rightarrow>
     int \<times> int \<times> batch \<times> 'db ssdb" where
  "SetGeneric R now1 now2 s key batch val flags expire_ms added =
     (if (flags AND OBJ_SET_EX \<noteq> 0 \<or> flags AND OBJ_SET_PX \<noteq> 0) \<and> expire_ms \<le> 0
      then (INVALID_EX_TIME, added, batch, s)
      else
        let meta_key = encode_meta_key key in
        case GetKvMetaVal R s meta_key of (ret, kv) \<Rightarrow>
          if ret < 0 then (ret, added, batch, s)
          else
            let (ret, added, batch) =
                  (if ret = 0 then
                     if flags AND OBJ_SET_XX \<noteq> 0 then (ret, 0, batch)
                     else (1, 1, batch @ [Put meta_key (encode_kv_val val (kv_version kv) KEY_ENABLED_MASK)])
                   else
                     if flags AND OBJ_SET_NX \<noteq> 0 then (ret, 0, batch)
                     else (ret, 1, batch @ [Put meta_key (encode_kv_val val (kv_version kv) KEY_ENABLED_MASK)]));
                (batch, s) =
                  (if flags AND OBJ_SET_EX \<noteq> 0 \<or> flags AND OBJ_SET_PX \<noteq> 0 then
                     if ret = 1 \<and> added = 1 then
                       (case expireAt R now2 s key (expire_ms + now1) batch False of (_, batch, s) \<Rightarrow> (batch, s))
                     else (batch, s)
                   else
                     if added = 1 then
                       (case cancelExpiration R s key batch of (_, batch, s) \<Rightarrow> (batch, s))
                     else (batch, s))
            in (ret, added, batch, s))"

text \<open>
  \<^verbatim>\<open>multi_set\<close> takes keys and values in turn; its result counts the distinct keys, which
  the source collects in the set \<^verbatim>\<open>lock_key\<close>. The request handler has checked that the
  list has an even length. Without an expiry flag no clock is read.
\<close>

fun multi_set_loop ::
  "('db, 'it) rocksdb \<Rightarrow> bytes list \<Rightarrow> bytes list \<Rightarrow> int \<Rightarrow> batch \<Rightarrow> 'db ssdb \<Rightarrow>
     int \<times> int \<times> batch \<times> 'db ssdb" where
  "multi_set_loop R (key # val # kvs) lock_key rval batch s =
     (let (lock_key, rval) =
            (if key \<in> set lock_key then (lock_key, rval) else (List.insert key lock_key, rval + 1))
      in case SetGeneric R 0 0 s key batch val OBJ_SET_NO_FLAGS 0 0 of (ret, _, batch, s) \<Rightarrow>
           if ret < 0 then (ret, rval, batch, s)
           else multi_set_loop R kvs lock_key rval batch s)"
| "multi_set_loop R _ lock_key rval batch s = (0, rval, batch, s)"

definition multi_set ::
  "('db, 'it) rocksdb \<Rightarrow> 'db ssdb \<Rightarrow> bytes list \<Rightarrow> nat \<Rightarrow> int \<times> 'db ssdb" where
  "multi_set R s kvs offset =
     (case multi_set_loop R (drop offset kvs) [] 0 [] s of (ret, rval, batch, s) \<Rightarrow>
        if ret < 0 then (ret, s)
        else (case CommitBatch R s batch of (ok, s) \<Rightarrow>
                if \<not> ok then (STORAGE_ERR, s) else (rval, s)))"

definition quickKv ::
  "('db, 'it) rocksdb \<Rightarrow> int \<Rightarrow> int \<Rightarrow> 'db ssdb \<Rightarrow> bytes \<Rightarrow> bytes \<Rightarrow> bytes \<Rightarrow> bytes \<Rightarrow> int \<Rightarrow> int \<times> 'db ssdb" where
  "quickKv R now1 now2 s key val meta_key meta_val expire_ms =
     (case (if length meta_val > 0 then
              (case KvDecodeMetaVal meta_val True KvMetaVal_init of (ret, kv) \<Rightarrow>
                 if ret < 0 then Inl ret
                 else if kv_del kv = KEY_DELETE_MASK then Inr (next_version (kv_version kv))
                 else Inr 0)
            else Inr 0) of
        Inl ret \<Rightarrow> (ret, s)
      | Inr version \<Rightarrow>
          let batch = [Put meta_key (encode_kv_val val version KEY_ENABLED_MASK)];
              (batch, s) =
                (if expire_ms > 0 then
                   (case expireAt R now2 s key (expire_ms + now1) batch False of (_, batch, s) \<Rightarrow> (batch, s))
                 else (batch, s))
          in case CommitBatch R s batch of (ok, s) \<Rightarrow>
               if \<not> ok then (STORAGE_ERR, s) else (1, s))"

definition setNoLock ::
  "('db, 'it) rocksdb \<Rightarrow> int \<Rightarrow> int \<Rightarrow> 'db ssdb \<Rightarrow> bytes \<Rightarrow> bytes \<Rightarrow> int \<Rightarrow> int \<Rightarrow> int \<Rightarrow> int \<times> int \<times> 'db ssdb" where
  "setNoLock R now1 now2 s key val flags expire_ms added =
     (case SetGeneric R now1 now2 s key [] val flags expire_ms added of (ret, added, batch, s) \<Rightarrow>
        if ret < 0 then (ret, added, s)
        else (case CommitBatch R s batch of (ok, s) \<Rightarrow>
                if \<not> ok then (STORAGE_ERR, added, s)
                else (if added + ret > 0 then 1 else 0, added, s)))"

definition kv_set ::
  "('db, 'it) rocksdb \<Rightarrow> int \<Rightarrow> int \<Rightarrow> 'db ssdb \<Rightarrow> bytes \<Rightarrow> bytes \<Rightarrow> int \<Rightarrow> int \<Rightarrow> int \<Rightarrow> int \<times> int \<times> 'db ssdb" where
  "kv_set R now1 now2 s key val flags expire_ms added =
     setNoLock R now1 now2 s key val flags expire_ms added"

definition getset ::
  "('db, 'it) rocksdb \<Rightarrow> 'db ssdb \<Rightarrow> bytes \<Rightarrow> bytes \<times> bool \<Rightarrow> bytes \<Rightarrow> int \<times> (bytes \<times> bool) \<times> 'db ssdb" where
  "getset R s key val newval =
     (let meta_key = encode_meta_key key in
      case GetKvMetaVal R s meta_key of (ret, kv) \<Rightarrow>
        if ret < 0 then (ret, val, s)
        else
          let meta_val = encode_kv_val newval (kv_version kv) KEY_ENABLED_MASK;
              (val, batch, s) =
                (if ret = 0 then (val, [], s)
                 else (case cancelExpiration R s key [] of (_, batch, s) \<Rightarrow> ((kv_value kv, True), batch, s)))
          in case CommitBatch R s (batch @ [Put meta_key meta_val]) of (ok, s) \<Rightarrow>
               if \<not> ok then (STORAGE_ERR, val, s) else (1, val, s))"

text \<open>
  \<^verbatim>\<open>updateKvCommon\<close> takes the computation as a lambda: from the meta value and whether the
  key exists it gives a result code, the new value and the command's output.
\<close>

definition updateKvCommon ::
  "('db, 'it) rocksdb \<Rightarrow> 'db ssdb \<Rightarrow> bytes \<Rightarrow> (KvMetaVal \<Rightarrow> int \<Rightarrow> int \<times> bytes \<times> 'o) \<Rightarrow> 'o \<Rightarrow>
     int \<times> 'o \<times> 'db ssdb" where
  "updateKvCommon R s key lambda out =
     (let meta_key = encode_meta_key key in
      case GetKvMetaVal R s meta_key of (ret, kv) \<Rightarrow>
        if ret < 0 then (ret, out, s)
        else
          (case lambda kv ret of (ret, new_val, out) \<Rightarrow>
             if ret < 0 then (ret, out, s)
             else
               (case CommitBatch R s [Put meta_key (encode_kv_val new_val (kv_version kv) KEY_ENABLED_MASK)]
                of (ok, s) \<Rightarrow> if \<not> ok then (STORAGE_ERR, out, s) else (1, out, s))))"

definition incr ::
  "('db, 'it) rocksdb \<Rightarrow> 'db ssdb \<Rightarrow> bytes \<Rightarrow> int \<Rightarrow> int \<Rightarrow> int \<times> int \<times> 'db ssdb" where
  "incr R s key by new_val =
     updateKvCommon R s key
       (\<lambda>kv ret.
          if ret = 0 then (ret, str_int64 by, by)
          else
            (case string2ll (kv_value kv) of
               None \<Rightarrow> (INVALID_INT, [], new_val)
             | Some oldvalue \<Rightarrow>
                 if by < 0 \<and> oldvalue < 0 \<and> by < INT64_MIN - oldvalue \<or>
                    by > 0 \<and> oldvalue > 0 \<and> by > INT64_MAX - oldvalue
                 then (INT_OVERFLOW, [], new_val)
                 else (ret, str_int64 (oldvalue + by), oldvalue + by)))
       new_val"

definition kv_get :: "('db, 'it) rocksdb \<Rightarrow> 'db ssdb \<Rightarrow> bytes \<Rightarrow> bytes \<Rightarrow> int \<times> bytes" where
  "kv_get R s key val =
     (case GetKvMetaVal R s (encode_meta_key key) of (ret, kv) \<Rightarrow>
        if ret \<le> 0 then (ret, val) else (1, kv_value kv))"

definition kv_append ::
  "('db, 'it) rocksdb \<Rightarrow> 'db ssdb \<Rightarrow> bytes \<Rightarrow> bytes \<Rightarrow> u64 \<Rightarrow> int \<times> u64 \<times> 'db ssdb" where
  "kv_append R s key val llen =
     updateKvCommon R s key
       (\<lambda>kv ret. let new_str = (if ret = 0 then val else kv_value kv @ val)
                 in (ret, new_str, word_of_nat (length new_str)))
       llen"

text \<open>The request handlers refuse negative bit offsets and values of \<^verbatim>\<open>on\<close> other than 0 and 1.\<close>

definition setbit ::
  "('db, 'it) rocksdb \<Rightarrow> 'db ssdb \<Rightarrow> bytes \<Rightarrow> nat \<Rightarrow> int \<Rightarrow> int \<Rightarrow> int \<times> int \<times> 'db ssdb" where
  "setbit R s key bitoffset on res =
     updateKvCommon R s key
       (\<lambda>kv ret.
          let new_str = (if ret = 0 then [] else kv_value kv);
              len = bitoffset div 8;
              bt = 7 - bitoffset mod 8;
              new_str = (if len \<ge> length new_str
                         then new_str @ replicate (len + 1 - length new_str) 0 else new_str);
              res = uint (new_str ! len AND push_bit bt 1);
              c = (if on = 1 then new_str ! len OR push_bit bt 1
                   else new_str ! len AND NOT (push_bit bt 1))
          in (ret, new_str[len := c], res))
       res"

definition getbit :: "('db, 'it) rocksdb \<Rightarrow> 'db ssdb \<Rightarrow> bytes \<Rightarrow> nat \<Rightarrow> int \<Rightarrow> int \<times> int" where
  "getbit R s key bitoffset res =
     (case kv_get R s key [] of (ret, val) \<Rightarrow>
        if ret < 0 then (ret, res)
        else if ret = 0 then (1, 0)
        else
          let len = bitoffset div 8;
              bt = 7 - bitoffset mod 8
          in if len \<ge> length val then (1, 0)
             else if val ! len AND push_bit bt 1 = 0 then (1, 0) else (1, 1))"

definition setrange ::
  "('db, 'it) rocksdb \<Rightarrow> 'db ssdb \<Rightarrow> bytes \<Rightarrow> nat \<Rightarrow> bytes \<Rightarrow> u64 \<Rightarrow> int \<times> u64 \<times> 'db ssdb" where
  "setrange R s key start val new_len =
     (let meta_key = encode_meta_key key in
      case GetKvMetaVal R s meta_key of (ret, kv) \<Rightarrow>
        if ret < 0 then (ret, new_len, s)
        else
          let old = (if ret = 0 then [] else kv_value kv) in
          if ret = 0 \<and> length val = 0 then (1, 0, s)
          else if start + length val > 512 * 1024 * 1024 then (STRING_OVERMAX, new_len, s)
          else
            let new = (if int start - int (length old) < 0 then
                         take start old @ val @
                         (if start + length val < length old then drop (start + length val) old else [])
                       else old @ replicate (start - length old) 0 @ val);
                new_len = word_of_nat (length new);
                batch = [Put meta_key (encode_kv_val new (kv_version kv) KEY_ENABLED_MASK)]
            in case CommitBatch R s batch of (ok, s) \<Rightarrow>
                 if \<not> ok then (STORAGE_ERR, new_len, s) else (1, new_len, s))"

definition getrange ::
  "('db, 'it) rocksdb \<Rightarrow> 'db ssdb \<Rightarrow> bytes \<Rightarrow> int \<Rightarrow> int \<Rightarrow> bytes \<Rightarrow> int \<times> bytes" where
  "getrange R s key start end res =
     (case kv_get R s key [] of (ret, val) \<Rightarrow>
        if ret < 0 then (ret, res)
        else if start < 0 \<and> end < 0 \<and> start > end then (1, res)
        else
          let strlen = int (length val);
              start = (if start < 0 then strlen + start else start);
              end = (if end < 0 then strlen + end else end);
              start = (if start < 0 then 0 else start);
              end = (if end < 0 then 0 else end);
              end = (if end \<ge> strlen then strlen - 1 else end)
          in if start > end \<or> strlen = 0 then (1, res)
             else (1, take (nat (end - start + 1)) (drop (nat start) val)))"

section \<open>The value of a key\<close>

definition kv_rep :: "contents \<Rightarrow> bytes \<Rightarrow> bytes option \<Rightarrow> bool" where
  "kv_rep m key v \<longleftrightarrow> (case v of None \<Rightarrow> \<exists>w. absent m key w
     | Some x \<Rightarrow> \<exists>w. m (encode_meta_key key) = Some (encode_kv_val x w KEY_ENABLED_MASK))"

text \<open>The state after a command: the value and the deadlines, and nothing else has changed.\<close>

definition kv_becomes ::
  "('db \<Rightarrow> contents) \<Rightarrow> 'db ssdb \<Rightarrow> 'db ssdb \<Rightarrow> bytes \<Rightarrow> bytes option \<Rightarrow> (bytes \<rightharpoonup> int) \<Rightarrow> bool" where
  "kv_becomes view s s' key v D \<longleftrightarrow> kv_rep (view (ldb s')) key v \<and> deadline (view (ldb s')) = D \<and>
     touches_only key (view (ldb s)) (view (ldb s')) \<and> exp_inv (view (ldb s')) s'"

lemma kv_rep_put: "kv_rep (m(encode_meta_key key \<mapsto> encode_kv_val x w KEY_ENABLED_MASK)) key (Some x)"
  by (auto simp: kv_rep_def)

lemma kv_rep_cong: "m (encode_meta_key key) = m' (encode_meta_key key) \<Longrightarrow> kv_rep m key v \<longleftrightarrow> kv_rep m' key v"
proof -
  assume e: "m (encode_meta_key key) = m' (encode_meta_key key)"
  have "absent m key = absent m' key" by (rule ext) (simp only: absent_def e)
  with e show ?thesis by (simp add: kv_rep_def split: option.split)
qed

lemma live_kv: "m (encode_meta_key key) = Some (encode_kv_val x w KEY_ENABLED_MASK) \<Longrightarrow> live m key"
  by (simp add: live_def encode_kv_val_def POS_DEL_def str_pos_del)

lemma live_put_kv:
  "live m k \<Longrightarrow> live (m(encode_meta_key key \<mapsto> encode_kv_val x w KEY_ENABLED_MASK)) k"
  using live_kv [of "m(encode_meta_key key \<mapsto> encode_kv_val x w KEY_ENABLED_MASK)" key x w]
  by (cases "k = key") (auto simp: live_def)

lemma not_live_absent: "absent m key w \<Longrightarrow> \<not> live m key"
  by (auto simp: absent_def live_def POS_DEL_def str_pos_del KEY_DELETE_MASK_def KEY_ENABLED_MASK_def)

lemma exp_inv_put:
  assumes "exp_inv m s"
  shows "exp_inv (m(encode_meta_key key \<mapsto> encode_kv_val x w KEY_ENABLED_MASK)) (s\<lparr>ldb := db\<rparr>)"
proof -
  let ?m = "m(encode_meta_key key \<mapsto> encode_kv_val x w KEY_ENABLED_MASK)"
  have k: "\<And>y. expiry_key y \<Longrightarrow> ?m y = m y"
    by (auto simp: encode_meta_key_def META_def EKEY_def ESCORE_def)
  have "index_ok (deadline m) (s\<lparr>ldb := db\<rparr>)" using exp_invD(3) [OF assms] by (simp add: index_ok_def)
  then show ?thesis
    using exp_invD [OF assms] expiry_wf_cong [of ?m m] escore_wf_cong [of ?m m] k live_put_kv
    by (auto simp: exp_inv_def)
qed

context rocksdb_healthy
begin

lemma GetKvMetaVal_rep:
  assumes "kv_rep (view (ldb s)) key v"
  shows "\<exists>kv. GetKvMetaVal R s (encode_meta_key key) = (if v = None then 0 else 1, kv) \<and>
    (\<forall>x. v = Some x \<longrightarrow> kv_value kv = x)"
proof (cases v)
  case None
  with assms obtain w where "absent (view (ldb s)) key w" by (auto simp: kv_rep_def)
  then show ?thesis using None
    by (auto simp: absent_def GetKvMetaVal_def Get_view KvDecodeMetaVal_deleted)
next
  case (Some x)
  with assms obtain w where "view (ldb s) (encode_meta_key key) = Some (encode_kv_val x w KEY_ENABLED_MASK)"
    by (auto simp: kv_rep_def)
  then show ?thesis using Some
    by (simp add: GetKvMetaVal_def Get_view KvDecodeMetaVal_encode)
qed

lemma commit_put:
  assumes "exp_inv (view (ldb s)) s"
  shows "\<exists>s'. CommitBatch R s [Put (encode_meta_key key) (encode_kv_val x w KEY_ENABLED_MASK)] = (True, s') \<and>
    kv_becomes view s s' key (Some x) (deadline (view (ldb s)))"
proof (intro exI conjI)
  let ?b = "[Put (encode_meta_key key) (encode_kv_val x w KEY_ENABLED_MASK)]"
  let ?s' = "s\<lparr>ldb := snd (db_Write R (ldb s) ?b)\<rparr>"
  show "CommitBatch R s ?b = (True, ?s')" by (rule CommitBatch_view)
  show "kv_becomes view s ?s' key (Some x) (deadline (view (ldb s)))"
    using exp_inv_put [OF assms] touches_only_batch [of ?b key "view (ldb s)"]
    by (simp add: kv_becomes_def Write_view kv_rep_put)
qed

lemma updateKvCommon_rep:
  assumes inv: "exp_inv (view (ldb s)) s" and rep: "kv_rep (view (ldb s)) key v"
    and lam: "\<And>kv. (\<And>x. v = Some x \<Longrightarrow> kv_value kv = x) \<Longrightarrow> lambda kv (if v = None then 0 else 1) = (r, nv, q)"
  shows "if r < 0 then updateKvCommon R s key lambda out = (r, q, s)
    else \<exists>s'. updateKvCommon R s key lambda out = (1, q, s') \<and>
      kv_becomes view s s' key (Some nv) (deadline (view (ldb s)))"
proof -
  from GetKvMetaVal_rep [OF rep] obtain kv where
    kv: "GetKvMetaVal R s (encode_meta_key key) = (if v = None then 0 else 1, kv)"
      "\<And>x. v = Some x \<Longrightarrow> kv_value kv = x" by blast
  have l: "lambda kv (if v = None then 0 else 1) = (r, nv, q)" by (rule lam) (rule kv(2))
  from commit_put [OF inv, of key nv "kv_version kv"] obtain s' where
    "CommitBatch R s [Put (encode_meta_key key) (encode_kv_val nv (kv_version kv) KEY_ENABLED_MASK)] = (True, s')"
    "kv_becomes view s s' key (Some nv) (deadline (view (ldb s)))" by blast
  note s' = this
  define c :: int where "c = (if v = None then 0 else 1)"
  have "updateKvCommon R s key lambda out = (if r < 0 then (r, q, s) else (1, q, s'))"
    using kv(1) l s'(1) unfolding c_def [symmetric]
    by (simp add: updateKvCommon_def) (simp add: c_def)
  with s'(2) show ?thesis by auto
qed

text \<open>Reading and computing a new value.\<close>

lemma kv_get_rep:
  assumes "kv_rep (view (ldb s)) key v"
  shows "kv_get R s key val = (case v of None \<Rightarrow> (0, val) | Some x \<Rightarrow> (1, x))"
proof -
  from GetKvMetaVal_rep [OF assms] obtain kv where
    "GetKvMetaVal R s (encode_meta_key key) = (if v = None then 0 else 1, kv)"
    "\<And>x. v = Some x \<Longrightarrow> kv_value kv = x" by blast
  then show ?thesis by (cases v) (simp_all add: kv_get_def)
qed

lemma incr_rep:
  assumes "exp_inv (view (ldb s)) s" "kv_rep (view (ldb s)) key v" "int64 by"
  shows "case (case v of None \<Rightarrow> Some 0 | Some x \<Rightarrow> string2ll x) of
      None \<Rightarrow> incr R s key by n = (INVALID_INT, n, s)
    | Some old \<Rightarrow>
        if int64 (old + by) then
          \<exists>s'. incr R s key by n = (1, old + by, s') \<and>
            kv_becomes view s s' key (Some (str_int64 (old + by))) (deadline (view (ldb s)))
        else incr R s key by n = (INT_OVERFLOW, n, s)"
proof -
  let ?lam = "\<lambda>kv ret. if ret = 0 then (ret, str_int64 by, by)
    else (case string2ll (kv_value kv) of None \<Rightarrow> (INVALID_INT, [], n)
      | Some oldvalue \<Rightarrow>
          if by < 0 \<and> oldvalue < 0 \<and> by < INT64_MIN - oldvalue \<or> by > 0 \<and> oldvalue > 0 \<and> by > INT64_MAX - oldvalue
          then (INT_OVERFLOW, [], n) else (ret, str_int64 (oldvalue + by), oldvalue + by))"
  note u = updateKvCommon_rep [OF assms(1,2), of ?lam _ _ _ n, folded incr_def]
  have neg: "INVALID_INT < 0" "INT_OVERFLOW < 0" by (simp_all add: INVALID_INT_def INT_OVERFLOW_def)
  show ?thesis
  proof (cases v)
    case None
    then show ?thesis using u [of 0 "str_int64 by" "by"] assms(3) by simp
  next
    case (Some x)
    show ?thesis
    proof (cases "string2ll x")
      case None
      then show ?thesis using u [of INVALID_INT "[]" n] Some neg by simp
    next
      case (Some old)
      then have "int64 old" using string2ll_iff [of x old] by simp
      then have o: "(by < 0 \<and> old < 0 \<and> by < INT64_MIN - old \<or> by > 0 \<and> old > 0 \<and> by > INT64_MAX - old) \<longleftrightarrow>
          \<not> int64 (old + by)" using assms(3) by (auto simp: int64_def)
      show ?thesis
      proof (cases "int64 (old + by)")
        case True
        then show ?thesis using u [of 1 "str_int64 (old + by)" "old + by"] Some \<open>v = Some x\<close> o by simp
      next
        case False
        then show ?thesis using u [of INT_OVERFLOW "[]" n] Some \<open>v = Some x\<close> neg o by simp
      qed
    qed
  qed
qed

lemma updateKvCommon_rep':
  assumes "exp_inv (view (ldb s)) s" "kv_rep (view (ldb s)) key v"
    "\<And>kv. (\<And>x. v = Some x \<Longrightarrow> kv_value kv = x) \<Longrightarrow>
       lambda kv (if v = None then 0 else 1) = (if v = None then 0 else 1, nv, q)"
  shows "\<exists>s'. updateKvCommon R s key lambda out = (1, q, s') \<and>
      kv_becomes view s s' key (Some nv) (deadline (view (ldb s)))"
proof -
  have "\<not> (if v = None then 0 else 1 :: int) < 0" by simp
  from updateKvCommon_rep [where lambda = lambda, OF assms, of out, unfolded if_not_P [OF this]] show ?thesis .
qed

lemma append_rep:
  assumes "exp_inv (view (ldb s)) s" "kv_rep (view (ldb s)) key v"
    "new = (case v of None \<Rightarrow> x | Some old \<Rightarrow> old @ x)"
  shows "\<exists>s'. kv_append R s key x n = (1, word_of_nat (length new), s') \<and>
    kv_becomes view s s' key (Some new) (deadline (view (ldb s)))"
  unfolding kv_append_def
proof (rule updateKvCommon_rep' [OF assms(1,2)])
  fix kv :: KvMetaVal
  assume "\<And>y. v = Some y \<Longrightarrow> kv_value kv = y"
  then show "(let new_str = if (if v = None then 0 else 1 :: int) = 0 then x else kv_value kv @ x
       in (if v = None then 0 else 1, new_str, word_of_nat (length new_str))) =
      (if v = None then 0 else 1, new, word_of_nat (length new))"
    by (cases v) (simp_all add: assms(3))
qed

end

text \<open>Bits of a byte string, counted from the most significant bit of the first byte.\<close>

definition bit_of :: "bytes \<Rightarrow> nat \<Rightarrow> bool" where
  "bit_of x n \<longleftrightarrow> n div 8 < length x \<and> bit (x ! (n div 8)) (7 - n mod 8)"

lemma byte_and_mask: "b < 8 \<Longrightarrow> (w :: byte) AND push_bit b 1 = 0 \<longleftrightarrow> \<not> bit w b"
proof
  assume b: "b < 8" and "w AND push_bit b 1 = 0"
  then have "\<not> bit (w AND push_bit b 1) b" by simp
  with b show "\<not> bit w b" by (simp add: bit_simps)
next
  assume "b < 8" "\<not> bit w b"
  then show "w AND push_bit b 1 = 0" by (intro bit_word_eqI) (auto simp: bit_simps)
qed

lemma uint_mask_zero: "b < 8 \<Longrightarrow> uint ((w :: byte) AND push_bit b 1) = 0 \<longleftrightarrow> \<not> bit w b"
  using byte_and_mask [of b w] by (simp add: uint_0_iff)

lemma bit_position:
  "n div 8 = m div 8 \<Longrightarrow> 7 - n mod 8 = 7 - m mod 8 \<Longrightarrow> n = (m :: nat)"
proof -
  assume d: "n div 8 = m div 8" and e: "7 - n mod 8 = 7 - m mod 8"
  have "n mod 8 < 8" "m mod 8 < 8" by simp_all
  with e have "n mod 8 = m mod 8" by linarith
  with d show ?thesis by (metis div_mult_mod_eq)
qed

text \<open>The string \<^verbatim>\<open>SETBIT\<close> computes.\<close>

definition with_bit :: "bytes \<Rightarrow> nat \<Rightarrow> bool \<Rightarrow> bytes" where
  "with_bit x n on =
     (let len = n div 8; bt = 7 - n mod 8;
          y = (if len \<ge> length x then x @ replicate (len + 1 - length x) 0 else x)
      in y[len := (if on then y ! len OR push_bit bt 1 else y ! len AND NOT (push_bit bt 1))])"

lemma length_with_bit: "length (with_bit x n on) = max (length x) (n div 8 + 1)"
  by (simp add: with_bit_def Let_def)

lemma bit_of_with_bit: "bit_of (with_bit x n on) m \<longleftrightarrow> (if m = n then on else bit_of x m)"
proof -
  define y where "y = (if n div 8 \<ge> length x then x @ replicate (n div 8 + 1 - length x) 0 else x)"
  have ly: "n div 8 < length y" by (simp add: y_def)
  have y: "bit_of y m \<longleftrightarrow> bit_of x m"
    by (auto simp: bit_of_def y_def nth_append)
  have w: "with_bit x n on = y[n div 8 := (if on then y ! (n div 8) OR push_bit (7 - n mod 8) 1
      else y ! (n div 8) AND NOT (push_bit (7 - n mod 8) 1))]"
    by (simp add: with_bit_def y_def Let_def)
  have b: "7 - k mod 8 < 8" for k :: nat by simp
  show ?thesis
  proof (cases "m = n")
    case True
    then show ?thesis using ly by (auto simp: w bit_of_def bit_simps)
  next
    case False
    then have "m div 8 \<noteq> n div 8 \<or> 7 - m mod 8 \<noteq> 7 - n mod 8" using bit_position by blast
    then have "bit_of (with_bit x n on) m \<longleftrightarrow> bit_of y m"
    proof
      assume "m div 8 \<noteq> n div 8"
      then show ?thesis by (simp add: w bit_of_def)
    next
      assume d: "7 - m mod 8 \<noteq> 7 - n mod 8"
      show ?thesis
      proof (cases "m div 8 = n div 8")
        case True
        have "bit (z OR push_bit (7 - n mod 8) 1) (7 - m mod 8) \<longleftrightarrow> bit z (7 - m mod 8)"
          "bit (z AND NOT (push_bit (7 - n mod 8) 1)) (7 - m mod 8) \<longleftrightarrow> bit z (7 - m mod 8)" for z :: byte
          using d b [of m] by (auto simp: bit_simps)
        then show ?thesis unfolding w bit_of_def using True ly by (cases on) simp_all
      qed (simp add: w bit_of_def)
    qed
    with False y show ?thesis by simp
  qed
qed

text \<open>The string \<^verbatim>\<open>SETRANGE\<close> computes.\<close>

definition with_range :: "bytes \<Rightarrow> nat \<Rightarrow> bytes \<Rightarrow> bytes" where
  "with_range x start val =
     (if start < length x then
        take start x @ val @ (if start + length val < length x then drop (start + length val) x else [])
      else x @ replicate (start - length x) 0 @ val)"

lemma length_with_range: "length (with_range x start val) = max (length x) (start + length val)"
  by (auto simp: with_range_def)

lemma nth_with_range:
  assumes "i < length (with_range x start val)"
  shows "with_range x start val ! i =
    (if start \<le> i \<and> i < start + length val then val ! (i - start)
     else if i < length x then x ! i else 0)"
  using assms by (auto simp: with_range_def nth_append)

context rocksdb_healthy
begin

lemma setbit_rep:
  assumes "exp_inv (view (ldb s)) s" "kv_rep (view (ldb s)) key v" "x = (case v of None \<Rightarrow> [] | Some x \<Rightarrow> x)"
  shows "\<exists>s' r. setbit R s key n on res = (1, r, s') \<and> (r \<noteq> 0 \<longleftrightarrow> bit_of x n) \<and>
    kv_becomes view s s' key (Some (with_bit x n (on = 1))) (deadline (view (ldb s)))"
proof -
  let ?y = "if n div 8 \<ge> length x then x @ replicate (n div 8 + 1 - length x) 0 else x"
  let ?r = "uint (?y ! (n div 8) AND push_bit (7 - n mod 8) 1)"
  define lam where "lam = (\<lambda>(kv :: KvMetaVal) (ret :: int).
    let new_str = (if ret = 0 then [] else kv_value kv);
        len = n div 8;
        bt = 7 - n mod 8;
        new_str = (if len \<ge> length new_str then new_str @ replicate (len + 1 - length new_str) 0 else new_str);
        res = uint (new_str ! len AND push_bit bt 1);
        c = (if on = 1 then new_str ! len OR push_bit bt 1 else new_str ! len AND NOT (push_bit bt 1))
    in (ret, new_str[len := c], res))"
  have "?r \<noteq> 0 \<longleftrightarrow> bit_of x n"
    using uint_mask_zero [of "7 - n mod 8" "?y ! (n div 8)"]
    by (simp add: bit_of_def nth_append del: push_bit_of_1)
  moreover have "lam kv (if v = None then 0 else 1) = (if v = None then 0 else 1, with_bit x n (on = 1), ?r)"
    if "\<And>x. v = Some x \<Longrightarrow> kv_value kv = x" for kv
  proof -
    have e: "(if (if v = None then 0 else 1 :: int) = 0 then [] else kv_value kv) = x"
      using that assms(3) by (cases v) simp_all
    show ?thesis unfolding lam_def with_bit_def Let_def e ..
  qed
  from updateKvCommon_rep' [where lambda = lam, OF assms(1,2) this, of res]
  have "\<exists>s'. setbit R s key n on res = (1, ?r, s') \<and>
      kv_becomes view s s' key (Some (with_bit x n (on = 1))) (deadline (view (ldb s)))"
    unfolding setbit_def lam_def .
  ultimately show ?thesis by blast
qed

lemma getbit_rep:
  assumes "kv_rep (view (ldb s)) key v" "x = (case v of None \<Rightarrow> [] | Some x \<Rightarrow> x)"
  shows "getbit R s key n res = (1, if bit_of x n then 1 else 0)"
  using kv_get_rep [OF assms(1), of "[]"] byte_and_mask [of "7 - n mod 8" "x ! (n div 8)"] assms(2)
  by (cases v) (auto simp: getbit_def bit_of_def Let_def simp del: push_bit_of_1)

lemma setrange_rep:
  assumes "exp_inv (view (ldb s)) s" "kv_rep (view (ldb s)) key v" "x = (case v of None \<Rightarrow> [] | Some x \<Rightarrow> x)"
  shows "if v = None \<and> val = [] then setrange R s key start val n = (1, 0, s)
    else if start + length val > 512 * 1024 * 1024 then setrange R s key start val n = (STRING_OVERMAX, n, s)
    else \<exists>s'. setrange R s key start val n = (1, word_of_nat (length (with_range x start val)), s') \<and>
      kv_becomes view s s' key (Some (with_range x start val)) (deadline (view (ldb s)))"
proof -
  from GetKvMetaVal_rep [OF assms(2)] obtain kv where
    kv: "GetKvMetaVal R s (encode_meta_key key) = (if v = None then 0 else 1, kv)"
      "\<And>x. v = Some x \<Longrightarrow> kv_value kv = x" by blast
  define c :: int where "c = (if v = None then 0 else 1)"
  have c: "\<not> c < 0" "c = 0 \<longleftrightarrow> v = None" by (simp_all add: c_def)
  have old: "(if v = None then [] else kv_value kv) = x" using kv(2) assms(3) by (cases v) simp_all
  have g: "GetKvMetaVal R s (encode_meta_key key) = (c, kv)" using kv(1) by (simp add: c_def)
  have wr: "(if int start - int (length x) < 0
     then take start x @ val @ (if start + length val < length x then drop (start + length val) x else [])
     else x @ replicate (start - length x) 0 @ val) = with_range x start val"
    by (simp add: with_range_def)
  from commit_put [OF assms(1), of key "with_range x start val" "kv_version kv"] obtain s' where
    s': "CommitBatch R s [Put (encode_meta_key key) (encode_kv_val (with_range x start val) (kv_version kv) KEY_ENABLED_MASK)]
      = (True, s')" "kv_becomes view s s' key (Some (with_range x start val)) (deadline (view (ldb s)))" by blast
  have "setrange R s key start val n =
    (if v = None \<and> length val = 0 then (1, 0, s)
     else if start + length val > 512 * 1024 * 1024 then (STRING_OVERMAX, n, s)
     else (1, word_of_nat (length (with_range x start val)), s'))"
    unfolding setrange_def Let_def g prod.case if_not_P [OF c(1)] old wr c(2) s'(1) by simp
  with s'(2) show ?thesis by auto
qed

lemma getrange_rep:
  assumes "kv_rep (view (ldb s)) key v" "x = (case v of None \<Rightarrow> [] | Some x \<Rightarrow> x)"
  shows "getrange R s key (int i) (int j) res = (1, if i \<le> j \<and> i < length x then take (Suc j - i) (drop i x) else res)"
proof -
  have g: "kv_get R s key [] = (if v = None then 0 else 1, x)"
    using kv_get_rep [OF assms(1), of "[]"] assms(2) by (cases v) simp_all
  define c :: int where "c = (if v = None then 0 else 1)"
  have c: "\<not> c < 0" by (simp add: c_def)
  define e where "e = (if length x \<le> j then int (length x) - 1 else int j)"
  have "getrange R s key (int i) (int j) res =
    (if int i > e \<or> length x = 0 then (1, res) else (1, take (nat (e - int i + 1)) (drop i x)))"
    unfolding getrange_def g c_def [symmetric] prod.case if_not_P [OF c] Let_def by (simp add: e_def)
  also have "\<dots> = (1, if i \<le> j \<and> i < length x then take (Suc j - i) (drop i x) else res)"
  proof (cases "i \<le> j \<and> i < length x")
    case True
    then have "take (nat (e - int i + 1)) (drop i x) = take (Suc j - i) (drop i x)"
    proof (cases "length x \<le> j")
      case True
      then have "nat (e - int i + 1) = length x - i" by (simp add: e_def)
      then show ?thesis using True by simp
    next
      case False
      then have "nat (e - int i + 1) = Suc j - i" using \<open>i \<le> j \<and> i < length x\<close> by (simp add: e_def)
      then show ?thesis by simp
    qed
    with True show ?thesis by (auto simp: e_def)
  qed (auto simp: e_def)
  finally show ?thesis .
qed

end

section \<open>Setting a value\<close>

definition with_expiry :: "int \<Rightarrow> bool" where
  "with_expiry flags \<longleftrightarrow> flags AND OBJ_SET_EX \<noteq> 0 \<or> flags AND OBJ_SET_PX \<noteq> 0"

definition set_applies :: "int \<Rightarrow> bytes option \<Rightarrow> bool" where
  "set_applies flags v \<longleftrightarrow> (if v = None then flags AND OBJ_SET_XX = 0 else flags AND OBJ_SET_NX = 0)"

context rocksdb_healthy
begin

lemma SetGeneric_cases:
  assumes "kv_rep (view (ldb s)) key v"
  shows "\<exists>w. SetGeneric R now1 now2 s key b x flags ms a =
    (if with_expiry flags \<and> ms \<le> 0 then (INVALID_EX_TIME, a, b, s)
     else if \<not> set_applies flags v then (if v = None then 0 else 1, 0, b, s)
     else
       let b1 = b @ [Put (encode_meta_key key) (encode_kv_val x w KEY_ENABLED_MASK)];
           (b2, s2) = (if with_expiry flags
             then (case expireAt R now2 s key (ms + now1) b1 False of (_, batch, s) \<Rightarrow> (batch, s))
             else (case cancelExpiration R s key b1 of (_, batch, s) \<Rightarrow> (batch, s)))
       in (1, 1, b2, s2))"
proof -
  from GetKvMetaVal_rep [OF assms] obtain kv where
    kv: "GetKvMetaVal R s (encode_meta_key key) = (if v = None then 0 else 1, kv)" by blast
  show ?thesis
    unfolding SetGeneric_def with_expiry_def [symmetric]
    by (rule exI [of _ "kv_version kv"])
      (cases v; cases "with_expiry flags"; simp add: kv set_applies_def Let_def split: prod.split)
qed

lemma SetGeneric_plain:
  assumes "kv_rep (view (ldb s)) key v" "\<not> with_expiry flags" "set_applies flags v"
    "expire_enable s" "expiry_wf (view (ldb s))" "index_ok D s"
  shows "\<exists>w b' s'. SetGeneric R now1 now2 s key b x flags ms a = (1, 1, b', s') \<and> ldb s' = ldb s \<and>
    expire_enable s' \<and> index_ok (D(key := None)) s' \<and>
    (\<forall>m. apply_batch b' m = drop_deadline (view (ldb s)) key
       ((apply_batch b m)(encode_meta_key key \<mapsto> encode_kv_val x w KEY_ENABLED_MASK)))"
proof -
  from SetGeneric_cases [OF assms(1), of now1 now2 b x flags ms a] obtain w where
    g: "SetGeneric R now1 now2 s key b x flags ms a =
      (case cancelExpiration R s key (b @ [Put (encode_meta_key key) (encode_kv_val x w KEY_ENABLED_MASK)])
       of (_, batch, s) \<Rightarrow> (1, 1, batch, s))"
    using assms(2,3) by (auto simp: Let_def split: prod.splits)
  from cancel_effect [OF assms(4-6), of key "b @ [Put (encode_meta_key key) (encode_kv_val x w KEY_ENABLED_MASK)]"]
  obtain r b' s' where c: "cancelExpiration R s key (b @ [Put (encode_meta_key key) (encode_kv_val x w KEY_ENABLED_MASK)]) = (r, b', s')"
    "ldb s' = ldb s" "expire_enable s'" "index_ok (D(key := None)) s'"
    "\<And>m. apply_batch b' m = drop_deadline (view (ldb s)) key
       (apply_batch (b @ [Put (encode_meta_key key) (encode_kv_val x w KEY_ENABLED_MASK)]) m)" by blast
  then have "SetGeneric R now1 now2 s key b x flags ms a = (1, 1, b', s')" using g by simp
  with c show ?thesis by (intro exI [of _ w] exI [of _ b'] exI [of _ s']) simp
qed

lemma touches_drop: "touches_only k m (drop_deadline m0 k m)"
  by (auto simp: touches_only_def drop_deadline_def split: option.splits)

lemma touches_set: "touches_only k m (set_deadline m0 k t m)"
  by (auto simp: touches_only_def set_deadline_def split: option.splits)

lemma touches_put_meta: "touches_only k m (m(encode_meta_key k \<mapsto> x))"
  by (auto simp: touches_only_def)

lemma touches_trans: "touches_only k m m' \<Longrightarrow> touches_only k m' m'' \<Longrightarrow> touches_only k m m''"
  by (simp add: touches_only_def)

lemma kv_set_effect:
  assumes inv: "exp_inv (view (ldb s)) s" and rep: "kv_rep (view (ldb s)) key v"
    and app: "set_applies flags v" and ex: "with_expiry flags \<Longrightarrow> ms > 0 \<and> now2 < ms + now1 \<and> 0 \<le> now1 \<and> ms + now1 < INT64_MAX"
  shows "\<exists>s'. kv_set R now1 now2 s key x flags ms a = (1, 1, s') \<and>
    kv_becomes view s s' key (Some x)
      ((deadline (view (ldb s)))(key := if with_expiry flags then Some (ms + now1) else None))"
proof (cases "with_expiry flags")
  case False
  let ?m = "view (ldb s)"
  note i = exp_invD [OF inv]
  from SetGeneric_plain [OF rep False app i(1-3), of now1 now2 "[]" x ms a] obtain w b s1 where
    g: "SetGeneric R now1 now2 s key [] x flags ms a = (1, 1, b, s1)" "ldb s1 = ldb s" "expire_enable s1"
      "index_ok ((deadline ?m)(key := None)) s1"
      "\<And>m. apply_batch b m = drop_deadline ?m key (m(encode_meta_key key \<mapsto> encode_kv_val x w KEY_ENABLED_MASK))"
    by auto
  define n where "n = ?m(encode_meta_key key \<mapsto> encode_kv_val x w KEY_ENABLED_MASK)"
  have lv: "\<And>k. live ?m k \<Longrightarrow> live n k" unfolding n_def by (rule live_put_kv)
  let ?s' = "snd (CommitBatch R s1 b)"
  have n: "\<And>y. expiry_key y \<Longrightarrow> n y = ?m y"
    by (auto simp: n_def encode_meta_key_def META_def EKEY_def ESCORE_def)
  have v: "view (ldb ?s') = drop_deadline ?m key n" using g(2,5) by (simp add: view_CommitBatch n_def)
  have ix: "index_ok ((deadline ?m)(key := None)) ?s'" "expire_enable ?s'"
    using g(3,4) by (simp_all add: CommitBatch_view index_ok_def)
  have "exp_inv (view (ldb ?s')) ?s'"
    unfolding v by (rule exp_inv_drop [OF inv ix n lv])
  moreover have "deadline (view (ldb ?s')) = (deadline ?m)(key := None)"
    unfolding v by (rule deadline_drop) (simp add: n_def)
  moreover have "kv_rep (view (ldb ?s')) key (Some x)"
    unfolding v using kv_rep_cong [of "drop_deadline ?m key n" key n] kv_rep_put [of ?m key x w, folded n_def]
      drop_deadline_other [of "encode_meta_key key" ?m key n]
    by (auto simp: encode_meta_key_def META_def EKEY_def ESCORE_def)
  moreover have "touches_only key ?m (view (ldb ?s'))"
    unfolding v n_def by (rule touches_trans [OF touches_put_meta touches_drop])
  moreover have "kv_set R now1 now2 s key x flags ms a = (1, 1, ?s')"
    using g(1) by (simp add: kv_set_def setNoLock_def CommitBatch_view)
  ultimately show ?thesis using False by (auto simp: kv_becomes_def)
next
  case True
  let ?m = "view (ldb s)" and ?t = "ms + now1"
  note i = exp_invD [OF inv]
  note t = ex [OF True]
  from SetGeneric_cases [OF rep, of now1 now2 "[]" x flags ms a] obtain w where
    g: "SetGeneric R now1 now2 s key [] x flags ms a =
      (case expireAt R now2 s key ?t [Put (encode_meta_key key) (encode_kv_val x w KEY_ENABLED_MASK)] False
       of (_, batch, s) \<Rightarrow> (1, 1, batch, s))"
    using True app t by (auto simp: Let_def split: prod.splits)
  from expireAt_future [OF inv, of now2 ?t key "[Put (encode_meta_key key) (encode_kv_val x w KEY_ENABLED_MASK)]"] t
  obtain b where b: "expireAt R now2 s key ?t [Put (encode_meta_key key) (encode_kv_val x w KEY_ENABLED_MASK)] False =
      (2, b, insertFastKey s key ?t)"
    "\<And>m. apply_batch b m = set_deadline ?m key ?t (m(encode_meta_key key \<mapsto> encode_kv_val x w KEY_ENABLED_MASK))"
    by auto
  define n where "n = ?m(encode_meta_key key \<mapsto> encode_kv_val x w KEY_ENABLED_MASK)"
  have lv: "\<And>k. live ?m k \<Longrightarrow> live n k" unfolding n_def by (rule live_put_kv)
  let ?s' = "snd (CommitBatch R (insertFastKey s key ?t) b)"
  have n: "\<And>y. expiry_key y \<Longrightarrow> n y = ?m y"
    by (auto simp: n_def encode_meta_key_def META_def EKEY_def ESCORE_def)
  have v: "view (ldb ?s') = set_deadline ?m key ?t n" using b(2) by (simp add: view_CommitBatch n_def)
  have ix: "index_ok ((deadline ?m)(key \<mapsto> ?t)) ?s'" "expire_enable ?s'"
    using index_ok_insert [OF i(3), of key ?t] i(1) by (simp_all add: CommitBatch_view index_ok_def)
  have l: "live n key" by (rule live_kv [of _ _ x w]) (simp add: n_def)
  have "exp_inv (view (ldb ?s')) ?s'"
    unfolding v using t by (intro exp_inv_set [OF inv ix _ _ l n lv]) simp_all
  moreover have "deadline (view (ldb ?s')) = (deadline ?m)(key \<mapsto> ?t)"
    unfolding v using t by (simp add: deadline_set int64_def n_def)
  moreover have "kv_rep (view (ldb ?s')) key (Some x)"
    unfolding v using kv_rep_cong [of "set_deadline ?m key ?t n" key n] kv_rep_put [of ?m key x w, folded n_def]
      set_deadline_other [of "encode_meta_key key" ?m key ?t n]
    by (auto simp: encode_meta_key_def META_def EKEY_def ESCORE_def)
  moreover have "touches_only key ?m (view (ldb ?s'))"
    unfolding v n_def by (rule touches_trans [OF touches_put_meta touches_set])
  moreover have "kv_set R now1 now2 s key x flags ms a = (1, 1, ?s')"
    using g b(1) by (simp add: kv_set_def setNoLock_def CommitBatch_view)
  ultimately show ?thesis using True by (auto simp: kv_becomes_def)
qed

lemma kv_set_skip:
  assumes "exp_inv (view (ldb s)) s" "kv_rep (view (ldb s)) key v" "\<not> set_applies flags v"
    "\<not> (with_expiry flags \<and> ms \<le> 0)"
  shows "\<exists>s'. kv_set R now1 now2 s key x flags ms a = (if v = None then 0 else 1, 0, s') \<and>
    view (ldb s') = view (ldb s) \<and> exp_inv (view (ldb s')) s'"
proof -
  from SetGeneric_cases [OF assms(2), of now1 now2 "[]" x flags ms a] assms(3,4)
  have g: "SetGeneric R now1 now2 s key [] x flags ms a = (if v = None then 0 else 1, 0, [], s)" by auto
  let ?s' = "snd (CommitBatch R s [])"
  have v: "view (ldb ?s') = view (ldb s)" by (simp add: view_CommitBatch)
  moreover have "exp_inv (view (ldb ?s')) ?s'"
    unfolding v using assms(1) by (simp add: exp_inv_def CommitBatch_view index_ok_def)
  moreover have "kv_set R now1 now2 s key x flags ms a = (if v = None then 0 else 1, 0, ?s')"
    using g by (simp add: kv_set_def setNoLock_def CommitBatch_view)
  ultimately show ?thesis by blast
qed

lemma kv_set_late:
  assumes "exp_inv (view (ldb s)) s" "kv_rep (view (ldb s)) key None" "meta_wf (view (ldb s)) key"
    "with_expiry flags" "set_applies flags None" "ms > 0" "ms + now1 \<le> now2"
  shows "\<exists>s'. kv_set R now1 now2 s key x flags ms a = (1, 1, s') \<and>
    kv_becomes view s s' key (Some x) (deadline (view (ldb s)))"
proof -
  let ?m = "view (ldb s)"
  from assms(2) obtain w0 where "absent ?m key w0" by (auto simp: kv_rep_def)
  then have nl: "\<not> live ?m key" by (rule not_live_absent)
  from SetGeneric_cases [OF assms(2), of now1 now2 "[]" x flags ms a] obtain w where
    g: "SetGeneric R now1 now2 s key [] x flags ms a =
      (case expireAt R now2 s key (ms + now1) [Put (encode_meta_key key) (encode_kv_val x w KEY_ENABLED_MASK)] False
       of (_, batch, s) \<Rightarrow> (1, 1, batch, s))"
    using assms(4-6) by (auto simp: Let_def split: prod.splits)
  have e: "expireAt R now2 s key (ms + now1) b False = (2, b, s)" for b
    using del_key_internal_absent [OF nl assms(3), of b] exp_invD(1) [OF assms(1)] assms(7)
    by (simp add: expireAt_def)
  from commit_put [OF assms(1), of key x w] obtain s' where
    "CommitBatch R s [Put (encode_meta_key key) (encode_kv_val x w KEY_ENABLED_MASK)] = (True, s')"
    "kv_becomes view s s' key (Some x) (deadline ?m)" by blast
  with g e show ?thesis by (auto simp: kv_set_def setNoLock_def)
qed

lemma getset_rep:
  assumes inv: "exp_inv (view (ldb s)) s" and rep: "kv_rep (view (ldb s)) key v"
  shows "\<exists>s'. getset R s key old x = (1, case v of None \<Rightarrow> old | Some y \<Rightarrow> (y, True), s') \<and>
    kv_becomes view s s' key (Some x) ((deadline (view (ldb s)))(key := None))"
proof -
  let ?m = "view (ldb s)"
  note i = exp_invD [OF inv]
  from GetKvMetaVal_rep [OF rep] obtain kv where
    kv: "GetKvMetaVal R s (encode_meta_key key) = (if v = None then 0 else 1, kv)"
      "\<And>x. v = Some x \<Longrightarrow> kv_value kv = x" by blast
  define n where "n = ?m(encode_meta_key key \<mapsto> encode_kv_val x (kv_version kv) KEY_ENABLED_MASK)"
  show ?thesis
  proof (cases v)
    case None
    with rep obtain w where "absent ?m key w" by (auto simp: kv_rep_def)
    then have "deadline ?m key = None" using not_live_absent i(7) by (cases "deadline ?m key") blast+
    then have d: "(deadline ?m)(key := None) = deadline ?m" by auto
    from commit_put [OF inv, of key x "kv_version kv"] None kv show ?thesis
      unfolding d by (auto simp: getset_def)
  next
    case (Some y)
    from cancel_effect [OF i(1-3), of key "[]"] obtain r b s1 where
      c: "cancelExpiration R s key [] = (r, b, s1)" "ldb s1 = ldb s" "expire_enable s1"
        "index_ok ((deadline ?m)(key := None)) s1" "\<And>m. apply_batch b m = drop_deadline ?m key m" by auto
    let ?b = "b @ [Put (encode_meta_key key) (encode_kv_val x (kv_version kv) KEY_ENABLED_MASK)]"
    let ?s' = "snd (CommitBatch R s1 ?b)"
    have g: "getset R s key old x = (1, (y, True), ?s')"
      using kv Some c(1) by (simp add: getset_def CommitBatch_view)
    have n: "\<And>z. expiry_key z \<Longrightarrow> n z = ?m z"
      by (auto simp: n_def encode_meta_key_def META_def EKEY_def ESCORE_def)
    have lv: "\<And>k. live ?m k \<Longrightarrow> live n k" unfolding n_def by (rule live_put_kv)
    have v: "view (ldb ?s') = drop_deadline ?m key n"
      using c(2,5) by (auto simp: view_CommitBatch n_def drop_deadline_def fun_upd_twist split: option.splits)
    have ix: "index_ok ((deadline ?m)(key := None)) ?s'" "expire_enable ?s'"
      using c(3,4) by (simp_all add: CommitBatch_view index_ok_def)
    have "exp_inv (view (ldb ?s')) ?s'" unfolding v by (rule exp_inv_drop [OF inv ix n lv])
    moreover have "deadline (view (ldb ?s')) = (deadline ?m)(key := None)"
      unfolding v by (rule deadline_drop) (simp add: n_def)
    moreover have "kv_rep (view (ldb ?s')) key (Some x)"
      unfolding v using kv_rep_cong [of "drop_deadline ?m key n" key n] kv_rep_put [of ?m key x "kv_version kv", folded n_def]
        drop_deadline_other [of "encode_meta_key key" ?m key n]
      by (auto simp: encode_meta_key_def META_def EKEY_def ESCORE_def)
    moreover have "touches_only key ?m (view (ldb ?s'))"
      unfolding v n_def by (rule touches_trans [OF touches_put_meta touches_drop])
    ultimately show ?thesis using g Some by (auto simp: kv_becomes_def)
  qed
qed

end

section \<open>Properties\<close>

text \<open>The store of the examples: the key \<open>k\<close> holds \<open>v\<close> and is due at time 5; \<open>n\<close> does not exist.\<close>

lemma kv_example:
  "kv_rep (map_of (ldb expire_example)) [107] (Some [118])"
  "kv_rep (map_of (ldb expire_example)) [110] None" "meta_wf (map_of (ldb expire_example)) [110]"
proof -
  have m: "map_of (ldb expire_example) = [encode_meta_key [107] \<mapsto> encode_kv_val [118] 0 KEY_ENABLED_MASK,
      encode_eset_key [107] \<mapsto> raw64 5, encode_escore_key [107] 5 \<mapsto> []]"
    by (auto simp: expire_example_def fun_eq_iff)
  show "kv_rep (map_of (ldb expire_example)) [107] (Some [118])"
    unfolding m kv_rep_def by auto
  have "absent (map_of (ldb expire_example)) [110] 0" unfolding m absent_def by simp
  then show "kv_rep (map_of (ldb expire_example)) [110] None" by (auto simp: kv_rep_def)
  show "meta_wf (map_of (ldb expire_example)) [110]"
    unfolding m by (simp add: meta_wf_def)
qed

text \<open>
  C32: SET with its options. A time to live that is not positive is refused. With XX on a
  missing key or NX on an existing one nothing changes and \<^verbatim>\<open>added\<close> is 0. Otherwise the key
  holds the new value; its deadline is the one given, or none when no time to live is given.
  No other key is touched and the index of deadlines stays consistent. When a time to live is given, the theorem
  assumes that the deadline computed from the first reading of the clock fits and is not past at the
  second reading: otherwise the deadline is lost (\<open>kv_set_expiry_lost\<close>).
\<close>

theorem kv_set_correct:
  assumes "rocksdb_healthy R view" "exp_inv (view (ldb s)) s" "kv_rep (view (ldb s)) key v"
    "with_expiry flags \<longrightarrow> now2 < ms + now1 \<and> 0 \<le> now1 \<and> ms + now1 < INT64_MAX"
  shows "if with_expiry flags \<and> ms \<le> 0 then kv_set R now1 now2 s key x flags ms a = (INVALID_EX_TIME, a, s)
    else if set_applies flags v then
      \<exists>s'. kv_set R now1 now2 s key x flags ms a = (1, 1, s') \<and>
        kv_becomes view s s' key (Some x)
          ((deadline (view (ldb s)))(key := if with_expiry flags then Some (ms + now1) else None))
    else \<exists>s'. kv_set R now1 now2 s key x flags ms a = (if v = None then 0 else 1, 0, s') \<and>
        view (ldb s') = view (ldb s) \<and> exp_inv (view (ldb s')) s'"
proof (cases "with_expiry flags \<and> ms \<le> 0")
  case True
  from rocksdb_healthy.SetGeneric_cases [OF assms(1,3), of now1 now2 "[]" x flags ms a] True
  have "SetGeneric R now1 now2 s key [] x flags ms a = (INVALID_EX_TIME, a, [], s)" by simp
  with True show ?thesis by (simp add: kv_set_def setNoLock_def INVALID_EX_TIME_def)
next
  case False
  then show ?thesis
    using rocksdb_healthy.kv_set_effect [OF assms(1-3), of flags ms now2 now1 x a]
      rocksdb_healthy.kv_set_skip [OF assms(1-3), of flags ms now1 now2 x a] assms(4)
    by auto
qed

theorem kv_set_correct_witness:
  "(\<exists>s'. kv_set mem_rocksdb 1 1 expire_example [107] [120] OBJ_SET_EX 9 0 = (1, 1, s') \<and>
      kv_rep (map_of (ldb s')) [107] (Some [120]) \<and> deadline (map_of (ldb s')) [107] = Some 10) \<and>
   (\<exists>s'. kv_set mem_rocksdb 1 1 expire_example [107] [120] OBJ_SET_NX 0 0 = (1, 0, s') \<and>
      map_of (ldb s') = map_of (ldb expire_example))"
  using kv_set_correct [OF mem.rocksdb_healthy_axioms expire_example_inv kv_example(1), of OBJ_SET_EX 1 9 1 "[120]" 0]
    kv_set_correct [OF mem.rocksdb_healthy_axioms expire_example_inv kv_example(1), of OBJ_SET_NX 1 0 1 "[120]" 0]
  by (auto simp: with_expiry_def set_applies_def OBJ_SET_EX_def OBJ_SET_NX_def OBJ_SET_PX_def kv_becomes_def)

text \<open>
  C33: SET with a time to live reads the clock twice. When the second reading has reached the
  deadline computed from the first, the branch that should delete the key looks at the stored
  state, which does not hold the key yet: the value is stored without a deadline and never
  expires.
\<close>

theorem kv_set_expiry_lost:
  assumes "rocksdb_healthy R view" "exp_inv (view (ldb s)) s" "kv_rep (view (ldb s)) key None"
    "meta_wf (view (ldb s)) key" "with_expiry flags" "set_applies flags None" "ms > 0" "ms + now1 \<le> now2"
  shows "\<exists>s'. kv_set R now1 now2 s key x flags ms a = (1, 1, s') \<and>
    kv_rep (view (ldb s')) key (Some x) \<and> deadline (view (ldb s')) key = None"
proof -
  obtain w where "absent (view (ldb s)) key w" using assms(3) by (auto simp: kv_rep_def)
  then have "deadline (view (ldb s)) key = None"
    using not_live_absent exp_invD(7) [OF assms(2), of key] by (cases "deadline (view (ldb s)) key") blast+
  then show ?thesis
    using rocksdb_healthy.kv_set_late [OF assms, of x a] by (auto simp: kv_becomes_def)
qed

theorem kv_set_expiry_lost_witness:
  "\<exists>s'. kv_set mem_rocksdb 10 11 expire_example [110] [120] OBJ_SET_PX 1 0 = (1, 1, s') \<and>
    kv_rep (map_of (ldb s')) [110] (Some [120]) \<and> deadline (map_of (ldb s')) [110] = None"
  by (rule kv_set_expiry_lost [OF mem.rocksdb_healthy_axioms expire_example_inv kv_example(2,3)])
    (simp_all add: with_expiry_def set_applies_def OBJ_SET_PX_def OBJ_SET_XX_def)

text \<open>
  INCRBY. A missing key counts as 0; a value that is not the text of a 64-bit integer or a sum
  that does not fit is refused without any change; otherwise the value becomes the text of
  the exact sum and the deadline is kept.
\<close>

theorem kv_incr_correct:
  assumes "rocksdb_healthy R view" "exp_inv (view (ldb s)) s" "kv_rep (view (ldb s)) key v" "int64 by"
  shows "case (case v of None \<Rightarrow> Some 0 | Some x \<Rightarrow> string2ll x) of
      None \<Rightarrow> incr R s key by n = (INVALID_INT, n, s)
    | Some old \<Rightarrow>
        if int64 (old + by) then
          \<exists>s'. incr R s key by n = (1, old + by, s') \<and>
            kv_becomes view s s' key (Some (str_int64 (old + by))) (deadline (view (ldb s)))
        else incr R s key by n = (INT_OVERFLOW, n, s)"
  by (rule rocksdb_healthy.incr_rep [OF assms])

theorem kv_incr_correct_witness:
  "\<exists>s'. incr mem_rocksdb expire_example [110] 41 0 = (1, 41, s') \<and>
    kv_rep (map_of (ldb s')) [110] (Some (str_int64 41))"
  using kv_incr_correct [OF mem.rocksdb_healthy_axioms expire_example_inv kv_example(2), of 41 0]
  by (auto simp: int64_def kv_becomes_def)

text \<open>
  SETBIT and GETBIT. SETBIT returns the old bit and changes exactly that bit of the value,
  extending it with zero bytes where needed; GETBIT reads the bit, 0 beyond the end.
\<close>

theorem kv_bits_correct:
  assumes "rocksdb_healthy R view" "exp_inv (view (ldb s)) s" "kv_rep (view (ldb s)) key v"
    "x = (case v of None \<Rightarrow> [] | Some x \<Rightarrow> x)"
  shows "(\<exists>s' r y. setbit R s key n on res = (1, r, s') \<and> (r \<noteq> 0 \<longleftrightarrow> bit_of x n) \<and>
      kv_becomes view s s' key (Some y) (deadline (view (ldb s))) \<and>
      length y = max (length x) (n div 8 + 1) \<and>
      (\<forall>m. bit_of y m \<longleftrightarrow> (if m = n then on = 1 else bit_of x m))) \<and>
    getbit R s key m res = (1, if bit_of x m then 1 else 0)"
proof -
  have "\<forall>m. bit_of (with_bit x n (on = 1)) m \<longleftrightarrow> (if m = n then on = 1 else bit_of x m)"
    by (simp add: bit_of_with_bit)
  with rocksdb_healthy.setbit_rep [OF assms, of n on res] rocksdb_healthy.getbit_rep [OF assms(1,3,4), of m res]
    length_with_bit [of x n "on = 1"]
  show ?thesis by blast
qed

theorem kv_bits_correct_witness:
  "(\<exists>s' y. setbit mem_rocksdb expire_example [110] 11 1 0 = (1, 0, s') \<and>
      kv_rep (map_of (ldb s')) [110] (Some y) \<and> length y = 2 \<and> bit_of y 11 \<and> \<not> bit_of y 3) \<and>
   getbit mem_rocksdb expire_example [107] 1 0 = (1, 1)"
proof
  from kv_bits_correct [OF mem.rocksdb_healthy_axioms expire_example_inv kv_example(2), of "[]" 11 1 0 0]
  obtain s' r y where y: "setbit mem_rocksdb expire_example [110] 11 1 0 = (1, r, s')" "r \<noteq> 0 \<longleftrightarrow> bit_of [] 11"
    "kv_becomes map_of expire_example s' [110] (Some y) (deadline (map_of (ldb expire_example)))"
    "length y = max (length ([] :: bytes)) (11 div 8 + 1)"
    "\<forall>m. bit_of y m \<longleftrightarrow> (if m = 11 then 1 = (1 :: int) else bit_of [] m)" unfolding option.case by blast
  then show "\<exists>s' y. setbit mem_rocksdb expire_example [110] 11 1 0 = (1, 0, s') \<and>
      kv_rep (map_of (ldb s')) [110] (Some y) \<and> length y = 2 \<and> bit_of y 11 \<and> \<not> bit_of y 3"
    by (auto simp: kv_becomes_def bit_of_def [of "[]"])
  have "bit_of [118] 1" by (simp add: bit_of_def bit_iff_odd drop_bit_eq_div)
  with kv_bits_correct [OF mem.rocksdb_healthy_axioms expire_example_inv kv_example(1), of "[118]" 0 0 0 1]
  show "getbit mem_rocksdb expire_example [107] 1 0 = (1, 1)" by simp
qed

text \<open>
  SETRANGE and GETRANGE. SETRANGE writes the value at the offset, padding with zero bytes,
  refuses results over 512 megabytes, and leaves a missing key alone when the value is empty;
  GETRANGE with the same range then returns exactly what was written.
\<close>

theorem kv_range_correct:
  assumes "rocksdb_healthy R view" "exp_inv (view (ldb s)) s" "kv_rep (view (ldb s)) key v"
    "x = (case v of None \<Rightarrow> [] | Some x \<Rightarrow> x)" "val \<noteq> []" "start + length val \<le> 536870912"
  shows "\<exists>s' y. setrange R s key start val n = (1, word_of_nat (length y), s') \<and>
    kv_becomes view s s' key (Some y) (deadline (view (ldb s))) \<and>
    length y = max (length x) (start + length val) \<and>
    (\<forall>i < length y. y ! i = (if start \<le> i \<and> i < start + length val then val ! (i - start)
       else if i < length x then x ! i else 0)) \<and>
    getrange R s' key (int start) (int (start + length val) - 1) res = (1, val)"
proof -
  let ?y = "with_range x start val"
  from rocksdb_healthy.setrange_rep [OF assms(1-4), of val start n] assms(5,6) obtain s' where
    s': "setrange R s key start val n = (1, word_of_nat (length ?y), s')"
      "kv_becomes view s s' key (Some ?y) (deadline (view (ldb s)))" by auto
  define j where "j = start + length val - 1"
  have j: "int (start + length val) - 1 = int j" "start \<le> j" "Suc j - start = length val" "start < length ?y"
    using assms(5) by (cases val; simp add: j_def length_with_range)+
  have "take (length val) (drop start ?y) = val"
    by (rule nth_equalityI) (use assms(5) in \<open>auto simp: length_with_range nth_with_range\<close>)
  then have "getrange R s' key (int start) (int j) res = (1, val)"
    using rocksdb_healthy.getrange_rep [OF assms(1), of s' key "Some ?y" ?y start j res] s'(2) j
    by (simp add: kv_becomes_def)
  with s' j(1) show ?thesis
    by (intro exI [of _ s'] exI [of _ ?y]) (simp add: length_with_range nth_with_range)
qed

theorem kv_range_correct_witness:
  "\<exists>s'. setrange mem_rocksdb expire_example [107] 3 [65] 0 = (1, 4, s') \<and>
    getrange mem_rocksdb s' [107] 3 3 [] = (1, [65])"
  using kv_range_correct [OF mem.rocksdb_healthy_axioms expire_example_inv kv_example(1), of "[118]" "[65]" 3 0 "[]"]
  by auto

end
