(* ===== verification/Floats.thy ===== *)
theory Floats
  imports Codec
begin

text \<open>
  IEEE 754 binary64 arithmetic on bit patterns, as far as the sorted sets use it: the tests
  \<^verbatim>\<open>std::isnan\<close> and \<^verbatim>\<open>std::isinf\<close>, the comparisons, and addition and subtraction with
  rounding to nearest, ties to even. A finite double is an integer multiple of the least
  positive double; sums are computed exactly on these integers and then rounded.
\<close>

section \<open>Operations\<close>

abbreviation DBL_INF :: nat where "DBL_INF \<equiv> 9218868437227405312"

definition dbl_neg :: "u64 \<Rightarrow> bool" where
  "dbl_neg w \<longleftrightarrow> 9223372036854775808 \<le> unat w"

definition dbl_mag :: "u64 \<Rightarrow> nat" where
  "dbl_mag w = unat w mod 9223372036854775808"

definition isnan :: "u64 \<Rightarrow> bool" where "isnan w \<longleftrightarrow> dbl_mag w > DBL_INF"

definition isinf :: "u64 \<Rightarrow> bool" where "isinf w \<longleftrightarrow> dbl_mag w = DBL_INF"

definition dbl_key :: "u64 \<Rightarrow> int" where
  "dbl_key w = (if dbl_neg w then - int (dbl_mag w) else int (dbl_mag w))"

definition dbl_eq :: "u64 \<Rightarrow> u64 \<Rightarrow> bool" where
  "dbl_eq a b \<longleftrightarrow> \<not> isnan a \<and> \<not> isnan b \<and> dbl_key a = dbl_key b"

definition dbl_less :: "u64 \<Rightarrow> u64 \<Rightarrow> bool" where
  "dbl_less a b \<longleftrightarrow> \<not> isnan a \<and> \<not> isnan b \<and> dbl_key a < dbl_key b"

definition dbl_le :: "u64 \<Rightarrow> u64 \<Rightarrow> bool" where
  "dbl_le a b \<longleftrightarrow> \<not> isnan a \<and> \<not> isnan b \<and> dbl_key a \<le> dbl_key b"

text \<open>The integer a magnitude stands for, in units of the least positive double.\<close>

definition dbl_units :: "nat \<Rightarrow> nat" where
  "dbl_units mag =
     (let e = mag div 4503599627370496; f = mag mod 4503599627370496
      in if e = 0 then f else (4503599627370496 + f) * 2 ^ (e - 1))"

definition dbl_int :: "u64 \<Rightarrow> int" where
  "dbl_int w = (if dbl_neg w then - int (dbl_units (dbl_mag w)) else int (dbl_units (dbl_mag w)))"

fun bit_length :: "nat \<Rightarrow> nat" where
  "bit_length n = (if n = 0 then 0 else Suc (bit_length (n div 2)))"

declare bit_length.simps [simp del]

text \<open>The magnitude nearest to an integer; from the top of the range on it is infinity.\<close>

definition dbl_round :: "nat \<Rightarrow> nat" where
  "dbl_round n =
     (let e = bit_length n - 53; q = n div 2 ^ e; r = n mod 2 ^ e;
          up = (2 * r > 2 ^ e \<or> 2 * r = 2 ^ e \<and> odd q)
      in min (e * 4503599627370496 + (if up then q + 1 else q)) DBL_INF)"

definition dbl_make :: "bool \<Rightarrow> nat \<Rightarrow> u64" where
  "dbl_make neg mag = word_of_nat (mag + (if neg then 9223372036854775808 else 0))"

definition dbl_add :: "u64 \<Rightarrow> u64 \<Rightarrow> u64" where
  "dbl_add a b =
     (if isnan a \<or> isnan b then dbl_make True 9221120237041090560
      else if isinf a then (if isinf b \<and> dbl_neg a \<noteq> dbl_neg b then dbl_make True 9221120237041090560 else a)
      else if isinf b then b
      else
        let x = dbl_int a + dbl_int b in
        if x = 0 then dbl_make (dbl_neg a \<and> dbl_neg b) 0
        else dbl_make (x < 0) (dbl_round (nat \<bar>x\<bar>)))"

definition dbl_sub :: "u64 \<Rightarrow> u64 \<Rightarrow> u64" where
  "dbl_sub a b = dbl_add a (dbl_make (\<not> dbl_neg b) (dbl_mag b))"

section \<open>Magnitudes and signs\<close>

lemma dbl_make_parts [simp]:
  assumes "mag < 9223372036854775808"
  shows "dbl_mag (dbl_make neg mag) = mag" "dbl_neg (dbl_make neg mag) \<longleftrightarrow> neg"
proof -
  have "unat (dbl_make neg mag) = mag + (if neg then 9223372036854775808 else 0)"
    using assms unfolding dbl_make_def by (subst unat_of_nat) simp
  then show "dbl_mag (dbl_make neg mag) = mag" "dbl_neg (dbl_make neg mag) \<longleftrightarrow> neg"
    using assms by (simp_all add: dbl_mag_def dbl_neg_def)
qed

lemma dbl_mag_less: "dbl_mag w < 9223372036854775808"
  by (simp add: dbl_mag_def)

lemma dbl_make_self: "dbl_make (dbl_neg w) (dbl_mag w) = w"
proof -
  have "unat w < 18446744073709551616" by (rule unat_u64_less)
  then have "dbl_mag w + (if dbl_neg w then 9223372036854775808 else 0) = unat w"
    by (auto simp: dbl_mag_def dbl_neg_def mod_if)
  then show ?thesis by (simp add: dbl_make_def)
qed

lemma dbl_key_order:
  "score_less a b \<Longrightarrow> dbl_key a \<le> dbl_key b" "dbl_key a < dbl_key b \<Longrightarrow> score_less a b"
proof -
  have b: "bit w 63 \<longleftrightarrow> dbl_neg w" for w by (simp add: dbl_neg_def top_bit_le)
  have u: "unat w = dbl_mag w + (if dbl_neg w then 9223372036854775808 else 0)" for w
    using unat_u64_less [of w] by (auto simp: dbl_mag_def dbl_neg_def mod_if)
  show "score_less a b \<Longrightarrow> dbl_key a \<le> dbl_key b" "dbl_key a < dbl_key b \<Longrightarrow> score_less a b"
    using u [of a] u [of b]
    by (auto simp: score_less_def b dbl_key_def word_less_nat_alt split: if_splits)
qed

section \<open>Rounding\<close>

lemma bit_length_pos: "n \<noteq> 0 \<Longrightarrow> 2 ^ (bit_length n - 1) \<le> n \<and> n < 2 ^ bit_length n \<and> bit_length n \<noteq> 0"
proof (induction n rule: bit_length.induct)
  case (1 n)
  show ?case
  proof (cases "n div 2 = 0")
    case True
    with 1(2) have "n = 1" by arith
    then show ?thesis by (simp add: bit_length.simps [of "Suc 0"] bit_length.simps [of 0])
  next
    case False
    from 1(1) [OF 1(2) False] obtain k where k: "bit_length (n div 2) = Suc k"
      "2 ^ k \<le> n div 2" "n div 2 < 2 ^ Suc k" by (cases "bit_length (n div 2)") auto
    then have "2 ^ Suc k \<le> n" "n < 2 ^ Suc (Suc k)" by auto
    then show ?thesis using 1(2) k(1) by (simp add: bit_length.simps [of n])
  qed
qed

lemma bit_length_unique: "2 ^ k \<le> n \<Longrightarrow> n < 2 ^ Suc k \<Longrightarrow> bit_length n = Suc k"
proof -
  assume a: "2 ^ k \<le> n" "n < 2 ^ Suc k"
  then have "n \<noteq> 0" by (metis le_zero_eq power_eq_0_iff zero_neq_numeral)
  from bit_length_pos [OF this] obtain j where j: "bit_length n = Suc j" "2 ^ j \<le> n" "n < 2 ^ Suc j"
    by (cases "bit_length n") auto
  have "(2 :: nat) ^ k < 2 ^ Suc j" "(2 :: nat) ^ j < 2 ^ Suc k" using a j by linarith+
  then have "k < Suc j" "j < Suc k" by (simp_all only: power_strict_increasing_iff [of "2 :: nat"] one_less_numeral_iff semiring_norm)
  with j show ?thesis by simp
qed

lemma bit_length_mono: "m \<le> n \<Longrightarrow> bit_length m \<le> bit_length n"
proof (cases "m = 0")
  case False
  assume "m \<le> n"
  with False have "n \<noteq> 0" by simp
  from bit_length_pos [OF False] bit_length_pos [OF this] \<open>m \<le> n\<close>
  have "(2 :: nat) ^ (bit_length m - 1) < 2 ^ bit_length n" by linarith
  then have "bit_length m - 1 < bit_length n" by simp
  then show ?thesis by simp
qed (simp add: bit_length.simps [of 0])

lemma quotient_bounds:
  assumes "e = bit_length n - 53"
  shows "n div 2 ^ e < 9007199254740992" "e > 0 \<Longrightarrow> 4503599627370496 \<le> n div 2 ^ e"
proof -
  have "n < 2 ^ (53 + e)"
  proof (cases "n = 0")
    case False
    have "n < 2 ^ bit_length n" using bit_length_pos [OF False] by simp
    also have "\<dots> \<le> 2 ^ (53 + e)" by (rule power_increasing) (use assms in simp_all)
    finally show ?thesis .
  qed simp
  then show "n div 2 ^ e < 9007199254740992"
    by (subst less_mult_imp_div_less) (simp_all add: power_add)
  assume e: "e > 0"
  then have "n \<noteq> 0" using assms bit_length.simps [of 0] by (metis diff_0_eq_0 less_numeral_extra(3))
  moreover have "bit_length n - 1 = 52 + e" using e assms by simp
  ultimately have "2 ^ (52 + e) \<le> n" using bit_length_pos [of n] by simp
  then show "4503599627370496 \<le> n div 2 ^ e"
    by (simp add: power_add less_eq_div_iff_mult_less_eq)
qed

text \<open>Rounding is monotone and does not move a representable number.\<close>

lemma dbl_round_mono: "m \<le> n \<Longrightarrow> dbl_round m \<le> dbl_round n"
proof -
  assume mn: "m \<le> n"
  define f where "f k = (let e = bit_length k - 53; q = k div 2 ^ e; r = k mod 2 ^ e
    in e * 4503599627370496 + (if 2 * r > 2 ^ e \<or> 2 * r = 2 ^ e \<and> odd q then q + 1 else q))" for k
  have r: "dbl_round k = min (f k) DBL_INF" for k by (simp add: dbl_round_def f_def Let_def)
  let ?e = "\<lambda>k. bit_length k - 53"
  have le: "?e m \<le> ?e n" using bit_length_mono [OF mn] by simp
  have "f m \<le> f n"
  proof (cases "?e m = ?e n")
    case True
    define e where "e = ?e n"
    consider "m div 2 ^ e = n div 2 ^ e" | "m div 2 ^ e < n div 2 ^ e"
      using div_le_mono [OF mn, of "2 ^ e"] by linarith
    then show ?thesis
    proof cases
      case 1
      then have "m mod 2 ^ e \<le> n mod 2 ^ e" using mn
        by (metis add_le_cancel_left div_mult_mod_eq)
      with 1 True show ?thesis unfolding f_def Let_def True e_def [symmetric] by auto
    next
      case 2
      then show ?thesis unfolding f_def Let_def True e_def [symmetric] by auto
    qed
  next
    case False
    with le have lt: "?e m < ?e n" by simp
    have "f m \<le> ?e m * 4503599627370496 + 9007199254740992"
      using quotient_bounds(1) [of "?e m" m] by (auto simp: f_def Let_def)
    also have "\<dots> = Suc (?e m) * 4503599627370496 + 4503599627370496" by simp
    also have "\<dots> \<le> ?e n * 4503599627370496 + 4503599627370496"
      using lt by (intro add_right_mono mult_right_mono) simp_all
    also have "\<dots> \<le> f n"
    proof -
      have "4503599627370496 \<le> n div 2 ^ ?e n" using quotient_bounds(2) [of "?e n" n] lt by simp
      then show ?thesis unfolding f_def Let_def by auto
    qed
    finally show ?thesis .
  qed
  then show ?thesis by (simp add: r)
qed

lemma dbl_round_units:
  assumes "mag \<le> DBL_INF"
  shows "dbl_round (dbl_units mag) = mag"
proof -
  define e f where "e = mag div 4503599627370496" and "f = mag mod 4503599627370496"
  have f: "f < 4503599627370496" by (simp add: f_def)
  have mag: "mag = e * 4503599627370496 + f" by (simp add: e_def f_def)
  show ?thesis
  proof (cases "e = 0")
    case True
    have u1: "dbl_units mag = f"
      unfolding dbl_units_def Let_def e_def [symmetric] f_def [symmetric] using True by simp
    have u2: "mag = f" using mag unfolding True by simp
    have "bit_length f \<le> 53"
    proof (cases "f = 0")
      case False
      show ?thesis
      proof (rule ccontr)
        assume "\<not> bit_length f \<le> 53"
        then have "(2 :: nat) ^ 52 \<le> 2 ^ (bit_length f - 1)" by (intro power_increasing) simp_all
        also have "\<dots> \<le> f" using bit_length_pos [OF False] by simp
        finally show False using f by simp
      qed
    qed (simp add: bit_length.simps [of 0])
    then show ?thesis using assms unfolding u1 unfolding u2 by (simp add: dbl_round_def Let_def)
  next
    case False
    have u: "dbl_units mag = (4503599627370496 + f) * 2 ^ (e - 1)"
      unfolding dbl_units_def Let_def e_def [symmetric] f_def [symmetric] using False by simp
    have "2 ^ (52 + (e - 1)) \<le> dbl_units mag" "dbl_units mag < 2 ^ Suc (52 + (e - 1))"
      using f unfolding u by (simp_all add: power_add)
    from bit_length_unique [OF this] have b: "bit_length (dbl_units mag) - 53 = e - 1" by simp
    have "dbl_round (dbl_units mag) = min ((e - 1) * 4503599627370496 + (4503599627370496 + f)) DBL_INF"
      unfolding dbl_round_def Let_def b unfolding u by simp
    also have "(e - 1) * 4503599627370496 + (4503599627370496 + f) = mag"
      using False mag by (cases e) simp_all
    finally show ?thesis using assms by simp
  qed
qed

lemma dbl_round_le: "dbl_round n \<le> DBL_INF"
  by (simp add: dbl_round_def Let_def)

lemma dbl_add_parts:
  assumes "dbl_mag a < DBL_INF" "dbl_mag b < DBL_INF" "dbl_int a + dbl_int b \<noteq> 0"
  shows "dbl_mag (dbl_add a b) = dbl_round (nat \<bar>dbl_int a + dbl_int b\<bar>)"
    "dbl_neg (dbl_add a b) \<longleftrightarrow> dbl_int a + dbl_int b < 0"
  using assms dbl_round_le [of "nat \<bar>dbl_int a + dbl_int b\<bar>"]
  by (simp_all add: dbl_add_def isnan_def isinf_def Let_def)

text \<open>A sum that is a double is that double.\<close>

lemma dbl_add_exact:
  assumes "dbl_mag a < DBL_INF" "dbl_mag b < DBL_INF" "dbl_mag c < DBL_INF"
    "dbl_int a + dbl_int b = dbl_int c" "dbl_int c \<noteq> 0"
  shows "dbl_add a b = c"
proof -
  have u: "nat \<bar>dbl_int c\<bar> = dbl_units (dbl_mag c)" "dbl_int c < 0 \<longleftrightarrow> dbl_neg c"
    using assms(5) by (auto simp: dbl_int_def)
  have "dbl_add a b = dbl_make (dbl_int c < 0) (dbl_round (nat \<bar>dbl_int c\<bar>))"
    using assms by (simp add: dbl_add_def isnan_def isinf_def Let_def)
  also have "\<dots> = c" unfolding u using dbl_round_units [of "dbl_mag c"] assms(3) by (simp add: dbl_make_self)
  finally show ?thesis .
qed

text \<open>Adding something that is not negative never goes down.\<close>

lemma dbl_add_ge:
  assumes "dbl_mag a < DBL_INF" "dbl_mag b < DBL_INF" "\<not> dbl_neg b"
  shows "\<not> isnan (dbl_add a b)" "dbl_key a \<le> dbl_key (dbl_add a b)"
proof -
  let ?x = "dbl_int a + dbl_int b"
  have b0: "0 \<le> dbl_int b" using assms(3) by (simp add: dbl_int_def)
  have "\<not> isnan (dbl_add a b) \<and> dbl_key a \<le> dbl_key (dbl_add a b)"
  proof (cases "?x = 0")
    case True
    then have "dbl_int a \<le> 0" using b0 by simp
    then have "dbl_neg a \<or> dbl_units (dbl_mag a) = 0" by (auto simp: dbl_int_def split: if_splits)
    then have "dbl_key a \<le> 0"
    proof
      assume "dbl_units (dbl_mag a) = 0"
      moreover have "dbl_round 0 = 0" by (simp add: dbl_round_def Let_def bit_length.simps [of 0])
      ultimately have "dbl_mag a = 0" using dbl_round_units [of "dbl_mag a"] assms(1) by simp
      then show ?thesis by (simp add: dbl_key_def)
    qed (simp add: dbl_key_def)
    moreover have "dbl_add a b = dbl_make (dbl_neg a \<and> dbl_neg b) 0"
      using True assms by (simp add: dbl_add_def isnan_def isinf_def Let_def)
    ultimately show ?thesis by (simp add: isnan_def dbl_key_def)
  next
    case False
    note p = dbl_add_parts [OF assms(1,2) False]
    have ra: "dbl_round (dbl_units (dbl_mag a)) = dbl_mag a" using dbl_round_units assms(1) by simp
    have "dbl_key a \<le> dbl_key (dbl_add a b)"
    proof (cases "dbl_neg a")
      case neg: True
      show ?thesis
      proof (cases "?x < 0")
        case True
        then have "nat \<bar>?x\<bar> \<le> dbl_units (dbl_mag a)" using neg b0 by (simp add: dbl_int_def)
        from dbl_round_mono [OF this] show ?thesis using p True neg ra by (simp add: dbl_key_def)
      qed (use p neg in \<open>simp add: dbl_key_def\<close>)
    next
      case pos: False
      then have "dbl_units (dbl_mag a) \<le> nat \<bar>?x\<bar>" "\<not> ?x < 0" using b0 by (simp_all add: dbl_int_def)
      from dbl_round_mono [OF this(1)] this(2) show ?thesis using p pos ra by (simp add: dbl_key_def)
    qed
    moreover have "\<not> isnan (dbl_add a b)" using p(1) dbl_round_le by (simp add: isnan_def not_less)
    ultimately show ?thesis by simp
  qed
  then show "\<not> isnan (dbl_add a b)" "dbl_key a \<le> dbl_key (dbl_add a b)" by blast+
qed

text \<open>Changing both signs changes the sign of the sum, so subtracting never goes up.\<close>

definition dbl_flip :: "u64 \<Rightarrow> u64" where
  "dbl_flip w = dbl_make (\<not> dbl_neg w) (dbl_mag w)"

lemma dbl_flip_parts [simp]:
  "dbl_mag (dbl_flip w) = dbl_mag w" "dbl_neg (dbl_flip w) \<longleftrightarrow> \<not> dbl_neg w"
  "dbl_key (dbl_flip w) = - dbl_key w" "dbl_int (dbl_flip w) = - dbl_int w"
  using dbl_mag_less [of w] by (simp_all add: dbl_flip_def dbl_key_def dbl_int_def)

lemma dbl_sub_flip: "dbl_sub a b = dbl_add a (dbl_flip b)"
  by (simp add: dbl_sub_def dbl_flip_def)

lemma dbl_key_add_flip:
  assumes "dbl_mag a < DBL_INF" "dbl_mag b < DBL_INF"
  shows "dbl_key (dbl_add (dbl_flip a) (dbl_flip b)) = - dbl_key (dbl_add a b)"
proof (cases "dbl_int a + dbl_int b = 0")
  case True
  then have z: "dbl_add a b = dbl_make (dbl_neg a \<and> dbl_neg b) 0"
    "dbl_add (dbl_flip a) (dbl_flip b) = dbl_make (\<not> dbl_neg a \<and> \<not> dbl_neg b) 0"
    using assms by (simp_all add: dbl_add_def isnan_def isinf_def Let_def)
  show ?thesis unfolding z by (simp add: dbl_key_def)
next
  case False
  have "dbl_int (dbl_flip a) + dbl_int (dbl_flip b) \<noteq> 0" using False by simp
  from dbl_add_parts [OF assms False] dbl_add_parts [OF _ _ this] assms False
  show ?thesis by (auto simp: dbl_key_def abs_if not_less add.commute)
qed

lemma dbl_sub_le:
  assumes "dbl_mag a < DBL_INF" "dbl_mag b < DBL_INF" "\<not> dbl_neg b"
  shows "dbl_key (dbl_sub a b) \<le> dbl_key a" "\<not> isnan (dbl_sub a b)"
proof -
  have m: "dbl_mag (dbl_flip a) < DBL_INF" "dbl_mag (dbl_flip b) < DBL_INF" using assms by simp_all
  have bb: "dbl_flip (dbl_flip b) = b" using dbl_make_self [of b] by (simp add: dbl_flip_def [of "dbl_flip b"])
  have "dbl_key (dbl_flip a) \<le> dbl_key (dbl_add (dbl_flip a) b)" using dbl_add_ge(2) [OF m(1) assms(2,3)] .
  also have "\<dots> = - dbl_key (dbl_sub a b)"
    using dbl_key_add_flip [OF assms(1) m(2)] bb by (simp add: dbl_sub_flip)
  finally show "dbl_key (dbl_sub a b) \<le> dbl_key a" by simp
  show "\<not> isnan (dbl_sub a b)"
  proof (cases "dbl_int a + dbl_int (dbl_flip b) = 0")
    case True
    then show ?thesis using assms m by (simp add: dbl_sub_flip dbl_add_def isnan_def isinf_def Let_def)
  next
    case False
    from dbl_add_parts(1) [OF assms(1) m(2) False] dbl_round_le show ?thesis
      by (simp add: dbl_sub_flip isnan_def not_less)
  qed
qed

lemma dbl_key_inj:
  assumes "dbl_key a = dbl_key b" "dbl_key a \<noteq> 0"
  shows "a = b"
proof -
  have n: "dbl_neg a = dbl_neg b" and m: "dbl_mag a = dbl_mag b"
    using assms by (auto simp: dbl_key_def split: if_splits)
  have "a = dbl_make (dbl_neg a) (dbl_mag a)" by (rule dbl_make_self [symmetric])
  also have "\<dots> = b" unfolding n m by (rule dbl_make_self)
  finally show ?thesis .
qed

lemma score_less_irrefl: "\<not> score_less a a"
  by (simp add: score_less_def)

text \<open>A summand below half a unit in the last place is lost.\<close>

lemma dbl_add_absorb:
  assumes "dbl_mag a < DBL_INF" "dbl_mag b < DBL_INF" "\<not> dbl_neg a" "\<not> dbl_neg b"
    and normal: "dbl_mag a div 4503599627370496 = Suc e" and small: "2 * dbl_units (dbl_mag b) < 2 ^ e"
  shows "dbl_add a b = a"
proof -
  define f where "f = dbl_mag a mod 4503599627370496"
  have f: "f < 4503599627370496" by (simp add: f_def)
  have mag: "dbl_mag a = Suc e * 4503599627370496 + f"
    using div_mult_mod_eq [of "dbl_mag a" 4503599627370496] unfolding normal f_def by simp
  let ?E = "dbl_units (dbl_mag b)"
  have U: "dbl_units (dbl_mag a) = (4503599627370496 + f) * 2 ^ e"
    unfolding dbl_units_def Let_def normal f_def [symmetric] by simp
  define n where "n = (4503599627370496 + f) * 2 ^ e + ?E"
  have q: "n div 2 ^ e = 4503599627370496 + f" "n mod 2 ^ e = ?E"
    using small by (simp_all add: n_def div_plus_div_distrib_dvd_left)
  have "2 ^ (52 + e) \<le> n" "n < 2 ^ Suc (52 + e)"
  proof -
    show "2 ^ (52 + e) \<le> n" by (simp add: n_def power_add trans_le_add1)
    have "n < (4503599627370496 + f) * 2 ^ e + 2 ^ e" using small by (simp add: n_def)
    also have "\<dots> = (4503599627370497 + f) * 2 ^ e" by (simp add: algebra_simps)
    also have "\<dots> \<le> 9007199254740992 * 2 ^ e" using f by (intro mult_right_mono) simp_all
    finally show "n < 2 ^ Suc (52 + e)" by (simp add: power_add)
  qed
  from bit_length_unique [OF this] have e: "bit_length n - 53 = e" by simp
  have r: "dbl_round n = dbl_mag a"
    using small assms(1) mag unfolding dbl_round_def Let_def e q by simp
  have x: "dbl_int a + dbl_int b = int n"
    using assms(3,4) U by (simp add: dbl_int_def n_def)
  have "n \<noteq> 0" by (simp add: n_def)
  then have "dbl_add a b = dbl_make False (dbl_mag a)"
    using assms(1,2) r by (simp add: dbl_add_def isnan_def isinf_def Let_def x)
  then show ?thesis using dbl_make_self [of a] assms(3) by simp
qed

end
