(* ===== verification/TZset.thy ===== *)
theory TZset
  imports Collection Floats
begin

unbundle bit_operations_syntax

text \<open>
  Sorted sets: the updates and point reads of \<^verbatim>\<open>src/src/storage/t_zset.cpp\<close> and
  \<^verbatim>\<open>t_zset.h\<close>. A member is stored twice: under its name with the bytes of its score, and in
  the score index under the encoded score and the name. The abstract state is a map from
  members to scores (bit patterns of doubles); \<open>zset_rep\<close> ties the counter, the members and
  the index together, and every command keeps the three consistent.
  \<^verbatim>\<open>strtod\<close> of the C library is a parameter: it maps a string to the value, the number of
  bytes used and the error it leaves in \<^verbatim>\<open>errno\<close>.
\<close>

section \<open>Operations\<close>

definition ZADD_NONE :: int where "ZADD_NONE = 0"
definition ZADD_INCR :: int where "ZADD_INCR = 1"
definition ZADD_NX :: int where "ZADD_NX = 2"
definition ZADD_XX :: int where "ZADD_XX = 4"
definition ZADD_NOP :: int where "ZADD_NOP = 8"
definition ZADD_NAN :: int where "ZADD_NAN = 16"
definition ZADD_ADDED :: int where "ZADD_ADDED = 32"
definition ZADD_UPDATED :: int where "ZADD_UPDATED = 64"
definition ZADD_CH :: int where "ZADD_CH = 65536"

lemmas zadd_flags = ZADD_NONE_def ZADD_INCR_def ZADD_NX_def ZADD_XX_def ZADD_NOP_def ZADD_NAN_def
  ZADD_ADDED_def ZADD_UPDATED_def ZADD_CH_def

definition NAN_SCORE :: int where "NAN_SCORE = -17"
definition SYNTAX_ERR :: int where "SYNTAX_ERR = -14"
definition INVALID_DBL :: int where "INVALID_DBL = -9"

datatype errno = E_NONE | E_RANGE | E_INVAL | E_OTHER

type_synonym strtod = "bytes \<Rightarrow> u64 \<times> nat \<times> errno"

definition isspace :: "byte \<Rightarrow> bool" where
  "isspace c \<longleftrightarrow> c = 32 \<or> 9 \<le> c \<and> c \<le> 13"

text \<open>A text of 256 bytes and more gives 0 and leaves \<^verbatim>\<open>errno\<close> as it was.\<close>

definition str_to_double :: "strtod \<Rightarrow> errno \<Rightarrow> bytes \<Rightarrow> u64 \<times> errno" where
  "str_to_double strtod er s =
     (if length s \<ge> 256 then (0, er)
      else
        let buf = s @ [0] in
        case strtod buf of (val, n, er) \<Rightarrow>
          if isspace (buf ! 0) \<or> buf ! n \<noteq> 0 \<or>
             er = E_RANGE \<and> (isinf val \<or> dbl_eq val 0) \<or> er = E_INVAL \<or> isnan val
          then (0, E_INVAL) else (val, er))"

definition GetZSetMetaVal :: "('db, 'it) rocksdb \<Rightarrow> 'db ssdb \<Rightarrow> bytes \<Rightarrow> int \<times> MetaVal" where
  "GetZSetMetaVal R s meta_key =
     (let zv = MetaVal_init in
      case db_Get R (ldb s) meta_key of
        GetNotFound \<Rightarrow>
          (0, zv\<lparr>mv_length := 0, mv_del := KEY_ENABLED_MASK, mv_type := ZSIZE, mv_version := 0\<rparr>)
      | GetError \<Rightarrow> (STORAGE_ERR, zv)
      | GetOk meta_val \<Rightarrow>
          (case DecodeMetaVal meta_val zv of (ret, zv) \<Rightarrow>
             if ret < 0 then (ret, zv)
             else if mv_del zv = KEY_DELETE_MASK then
               (0, zv\<lparr>mv_version := next_version (mv_version zv), mv_length := 0,
                      mv_del := KEY_ENABLED_MASK\<rparr>)
             else if mv_type zv \<noteq> ZSIZE then (WRONG_TYPE_ERR, zv)
             else (1, zv)))"

definition GetZSetItemVal :: "('db, 'it) rocksdb \<Rightarrow> 'db ssdb \<Rightarrow> bytes \<Rightarrow> u64 \<Rightarrow> int \<times> u64" where
  "GetZSetItemVal R s item_key score =
     (case db_Get R (ldb s) item_key of
        GetNotFound \<Rightarrow> (0, score) | GetError \<Rightarrow> (STORAGE_ERR, score)
      | GetOk str_score \<Rightarrow> (1, load64 str_score))"

definition zdel_one ::
  "('db, 'it) rocksdb \<Rightarrow> 'db ssdb \<Rightarrow> batch \<Rightarrow> bytes \<Rightarrow> bytes \<Rightarrow> u16 \<Rightarrow> int \<times> batch" where
  "zdel_one R s batch name key version =
     (case GetZSetItemVal R s (encode_zset_key name key version) 0 of (ret, old_score) \<Rightarrow>
        if ret \<le> 0 then (ret, batch)
        else (1, batch @ [Delete (encode_zscore_key name key old_score version),
                          Delete (encode_zset_key name key version)]))"

definition incr_zsize ::
  "('db, 'it) rocksdb \<Rightarrow> 'db ssdb \<Rightarrow> bytes \<Rightarrow> batch \<Rightarrow> MetaVal \<Rightarrow> int \<Rightarrow> int \<times> batch \<times> 'db ssdb" where
  "incr_zsize R s name batch zv incr =
     (let size_key = encode_meta_key name in
      if mv_length zv = 0 then
        if incr > 0 then
          let meta_val = encode_zset_meta_val (word_of_int incr) (mv_version zv) KEY_ENABLED_MASK
          in (1, batch @ [Put size_key meta_val], s)
        else if incr = 0 then (0, batch, s)
        else (INVALID_INCR_LEN, batch, s)
      else if incr = 0 then (1, batch, s)
      else if incr < 0 \<and> mv_length zv < word_of_int (- incr) then (INVALID_INCR_LEN, batch, s)
      else
        let len = (if incr > 0 then mv_length zv + word_of_int incr
                   else mv_length zv - word_of_int (- incr))
        in if len = 0 then
             let del_key = encode_delete_key name (mv_version zv);
                 meta_val = encode_zset_meta_val (mv_length zv) (mv_version zv) KEY_DELETE_MASK;
                 batch = batch @ [Put del_key [], Put size_key meta_val]
             in case cancelExpiration R s name batch of (_, batch, s) \<Rightarrow> (0, batch, s)
           else
             let meta_val = encode_zset_meta_val len (mv_version zv) KEY_ENABLED_MASK
             in (1, batch @ [Put size_key meta_val], s))"

text \<open>\<^verbatim>\<open>zset_one\<close> returns its result, the batch, the output flags and the new score.\<close>

definition zset_put :: "bytes \<Rightarrow> bytes \<Rightarrow> u64 \<Rightarrow> u16 \<Rightarrow> batch" where
  "zset_put name key score version =
     [Put (encode_zset_key name key version) (raw64 score),
      Put (encode_zscore_key name key score version) []]"

definition zset_one ::
  "('db, 'it) rocksdb \<Rightarrow> 'db ssdb \<Rightarrow> batch \<Rightarrow> bool \<Rightarrow> bytes \<Rightarrow> bytes \<Rightarrow> u64 \<Rightarrow> u16 \<Rightarrow> int \<Rightarrow> u64 \<Rightarrow>
     int \<times> batch \<times> int \<times> u64" where
  "zset_one R s batch needCheck name key score cur_version flags newscore =
     (let incr = (flags AND ZADD_INCR \<noteq> 0);
          nx = (flags AND ZADD_NX \<noteq> 0);
          xx = (flags AND ZADD_XX \<noteq> 0);
          flags = 0
      in if isnan score then (NAN_SCORE, batch, ZADD_NAN, newscore)
         else if needCheck then
           (case GetZSetItemVal R s (encode_zset_key name key cur_version) 0 of (found, old_score) \<Rightarrow>
              if found < 0 then (found, batch, flags, newscore)
              else if found = 0 then
                if \<not> xx then (1, batch @ zset_put name key score cur_version, flags OR ZADD_ADDED, score)
                else (1, batch, flags OR ZADD_NOP, newscore)
              else if found = 1 then
                if nx then (1, batch, flags OR ZADD_NOP, newscore)
                else
                  let score = (if incr then dbl_add score old_score else score)
                  in if incr \<and> isnan score then (NAN_SCORE, batch, flags OR ZADD_NAN, newscore)
                     else
                       let newscore = (if incr then score else newscore)
                       in if dbl_eq old_score score then (1, batch, flags, newscore)
                          else (1, batch @ [Delete (encode_zscore_key name key old_score cur_version)] @
                                     zset_put name key score cur_version,
                                flags OR ZADD_UPDATED, score)
              else (-1, batch, flags, newscore))
         else if \<not> xx then (1, batch @ zset_put name key score cur_version, flags OR ZADD_ADDED, score)
         else (1, batch, flags OR ZADD_NOP, newscore))"

text \<open>The map of members and score texts is a \<^verbatim>\<open>std::map\<close>: an ascending list.\<close>

fun zset_loop ::
  "strtod \<Rightarrow> ('db, 'it) rocksdb \<Rightarrow> 'db ssdb \<Rightarrow> bool \<Rightarrow> bytes \<Rightarrow> u16 \<Rightarrow> int \<Rightarrow> (bytes \<times> bytes) list \<Rightarrow> errno \<Rightarrow>
     u64 \<Rightarrow> int \<Rightarrow> int \<Rightarrow> batch \<Rightarrow> int \<times> int \<times> int \<times> batch" where
  "zset_loop strtod R s needCheck name version flags [] er newscore added updated batch = (0, added, updated, batch)"
| "zset_loop strtod R s needCheck name version flags ((key, val) # kvs) er newscore added updated batch =
     (case str_to_double strtod er val of (score, er) \<Rightarrow>
        if er = E_INVAL then (INVALID_DBL, added, updated, batch)
        else
          (case zset_one R s batch needCheck name key score version flags newscore of
             (retval, batch, retflags, newscore) \<Rightarrow>
               if retval < 0 then (retval, added, updated, batch)
               else
                 zset_loop strtod R s needCheck name version flags kvs er newscore
                   (if retflags AND ZADD_ADDED \<noteq> 0 then added + 1 else added)
                   (if retflags AND ZADD_UPDATED \<noteq> 0 then updated + 1 else updated) batch))"

definition zsetNoLock ::
  "strtod \<Rightarrow> errno \<Rightarrow> ('db, 'it) rocksdb \<Rightarrow> 'db ssdb \<Rightarrow> bytes \<Rightarrow> (bytes \<times> bytes) list \<Rightarrow> int \<Rightarrow> int \<Rightarrow>
     int \<times> int \<times> 'db ssdb" where
  "zsetNoLock strtod er R s name sortedSet flags num =
     (let incr = (flags AND ZADD_INCR \<noteq> 0);
          nx = (flags AND ZADD_NX \<noteq> 0);
          xx = (flags AND ZADD_XX \<noteq> 0);
          ch = (flags AND ZADD_CH \<noteq> 0)
      in if nx \<and> xx then (SYNTAX_ERR, num, s)
         else if incr \<and> length sortedSet > 1 then (SYNTAX_ERR, num, s)
         else
           (case GetZSetMetaVal R s (encode_meta_key name) of (ret, zv) \<Rightarrow>
              if ret < 0 then (ret, num, s)
              else
                let needCheck = (ret \<noteq> 0); ret = (if ret = 0 then 0 else 1) in
                case zset_loop strtod R s needCheck name (mv_version zv) flags sortedSet er 0 0 0 [] of
                  (err, added, updated, batch) \<Rightarrow>
                    if err < 0 then (err, num, s)
                    else
                      (case incr_zsize R s name batch zv added of (iret, batch, s) \<Rightarrow>
                         if iret < 0 then (iret, num, s)
                         else
                           (case CommitBatch R s batch of (ok, s) \<Rightarrow>
                              if \<not> ok then (STORAGE_ERR, num, s)
                              else
                                let num = (if ch then added + updated else added)
                                in (if ret + num > 0 then 1 else 0, num, s)))))"

definition multi_zset ::
  "strtod \<Rightarrow> errno \<Rightarrow> ('db, 'it) rocksdb \<Rightarrow> 'db ssdb \<Rightarrow> bytes \<Rightarrow> (bytes \<times> bytes) list \<Rightarrow> int \<Rightarrow> int \<Rightarrow>
     int \<times> int \<times> 'db ssdb" where
  "multi_zset strtod er R s name sortedSet flags num = zsetNoLock strtod er R s name sortedSet flags num"

fun zdel_loop ::
  "('db, 'it) rocksdb \<Rightarrow> 'db ssdb \<Rightarrow> bytes \<Rightarrow> u16 \<Rightarrow> bytes list \<Rightarrow> int \<Rightarrow> batch \<Rightarrow> int \<times> int \<times> batch" where
  "zdel_loop R s name version [] count batch = (0, count, batch)"
| "zdel_loop R s name version (key # keys) count batch =
     (case zdel_one R s batch name key version of (ret, batch) \<Rightarrow>
        if ret < 0 then (ret, count, batch)
        else zdel_loop R s name version keys (count + ret) batch)"

definition zdelNoLock ::
  "('db, 'it) rocksdb \<Rightarrow> 'db ssdb \<Rightarrow> bytes \<Rightarrow> bytes list \<Rightarrow> int \<Rightarrow> int \<times> int \<times> 'db ssdb" where
  "zdelNoLock R s name keys count =
     (case GetZSetMetaVal R s (encode_meta_key name) of (ret, zv) \<Rightarrow>
        if ret \<le> 0 then (ret, count, s)
        else
          (case zdel_loop R s name (mv_version zv) keys count [] of (err, count, batch) \<Rightarrow>
             if err < 0 then (err, count, s)
             else (case commit_incr R (incr_zsize R s name batch zv (- count)) of
                     (ret, s) \<Rightarrow> (ret, count, s))))"

definition multi_zdel ::
  "('db, 'it) rocksdb \<Rightarrow> 'db ssdb \<Rightarrow> bytes \<Rightarrow> bytes list \<Rightarrow> int \<Rightarrow> int \<times> int \<times> 'db ssdb" where
  "multi_zdel R s name keys count = zdelNoLock R s name keys count"

definition zincr ::
  "('db, 'it) rocksdb \<Rightarrow> 'db ssdb \<Rightarrow> bytes \<Rightarrow> bytes \<Rightarrow> u64 \<Rightarrow> int \<Rightarrow> u64 \<Rightarrow> int \<times> int \<times> u64 \<times> 'db ssdb" where
  "zincr R s name key by flags new_val =
     (case GetZSetMetaVal R s (encode_meta_key name) of (ret, zv) \<Rightarrow>
        if ret < 0 then (ret, flags, new_val, s)
        else
          let needCheck = (ret \<noteq> 0); ret = (if ret = 0 then 0 else 1) in
          case zset_one R s [] needCheck name key by (mv_version zv) flags new_val of
            (retval, batch, flags, new_val) \<Rightarrow>
              if retval < 0 then (retval, flags, new_val, s)
              else
                (case (if flags AND ZADD_ADDED \<noteq> 0 then
                         (case incr_zsize R s name batch zv 1 of (iret, batch, s) \<Rightarrow>
                            if iret < 0 then (iret, iret, batch, s)
                            else (iret, if iret = 0 then 0 else 1, batch, s))
                       else (0, ret, batch, s)) of
                   (iret, ret, batch, s) \<Rightarrow>
                     if iret < 0 then (iret, flags, new_val, s)
                     else (case CommitBatch R s batch of (ok, s) \<Rightarrow>
                             if \<not> ok then (STORAGE_ERR, flags, new_val, s)
                             else (ret, flags, new_val, s))))"

definition zsize :: "('db, 'it) rocksdb \<Rightarrow> 'db ssdb \<Rightarrow> bytes \<Rightarrow> u64 \<Rightarrow> int \<times> u64" where
  "zsize R s name sz =
     (case GetZSetMetaVal R s (encode_meta_key name) of (ret, zv) \<Rightarrow>
        if ret \<le> 0 then (ret, sz) else (1, mv_length zv))"

definition zget :: "('db, 'it) rocksdb \<Rightarrow> 'db ssdb \<Rightarrow> bytes \<Rightarrow> bytes \<Rightarrow> int \<times> u64" where
  "zget R s name key =
     (case GetZSetMetaVal R s (encode_meta_key name) of (ret, zv) \<Rightarrow>
        if ret \<noteq> 1 then (ret, 0)
        else
          (case db_Get R (ldb s) (encode_zset_key name key (mv_version zv)) of
             GetNotFound \<Rightarrow> (0, 0) | GetError \<Rightarrow> (STORAGE_ERR, 0)
           | GetOk str_score \<Rightarrow> (1, load64 str_score)))"

section \<open>Representation\<close>

text \<open>The field of the index under which a member with a score is stored.\<close>

definition score_field :: "u64 \<Rightarrow> bytes \<Rightarrow> bytes" where
  "score_field score key = raw64 (htobe64 (encodeScore score)) @ key"

lemma zscore_key_internal: "encode_zscore_key name key score v = encode_key_internal ZSCORE name (score_field score key) v"
  by (simp add: encode_zscore_key_def encode_key_internal_def score_field_def)

lemma score_field_inj [simp]: "score_field a f = score_field b g \<longleftrightarrow> a = b \<and> f = g"
  by (auto simp: score_field_def)

definition zitems :: "(bytes \<rightharpoonup> u64) \<Rightarrow> contents" where
  "zitems z = (\<lambda>f. map_option raw64 (z f))"

definition zindex :: "(bytes \<rightharpoonup> u64) \<Rightarrow> contents" where
  "zindex z = (\<lambda>g. if \<exists>f x. z f = Some x \<and> g = score_field x f then Some [] else None)"

definition score_map :: "bytes \<Rightarrow> u16 \<Rightarrow> contents \<Rightarrow> contents" where
  "score_map key v m = (\<lambda>g. m (encode_key_internal ZSCORE key g v))"

definition zset_at :: "contents \<Rightarrow> bytes \<Rightarrow> u16 \<Rightarrow> (bytes \<rightharpoonup> u64) \<Rightarrow> bool" where
  "zset_at m key v z \<longleftrightarrow> coll_at ZSIZE m key v (zitems z) \<and> score_map key v m = zindex z \<and>
     (\<forall>f x. z f = Some x \<longrightarrow> \<not> isnan x)"

definition zset_rep :: "contents \<Rightarrow> bytes \<Rightarrow> (bytes \<rightharpoonup> u64) \<Rightarrow> bool" where
  "zset_rep m key z \<longleftrightarrow> z = Map.empty \<and> (\<exists>w. absent m key w) \<or> (\<exists>v. zset_at m key v z)"

text \<open>Nothing is stored under the version a missing key would get next.\<close>

definition zfresh :: "contents \<Rightarrow> bytes \<Rightarrow> bool" where
  "zfresh m key \<longleftrightarrow> (\<forall>w. absent m key w \<longrightarrow> no_items m key w \<and> score_map key w m = Map.empty)"

text \<open>The version in use, with what it holds.\<close>

definition zset_cur :: "contents \<Rightarrow> bytes \<Rightarrow> u16 \<Rightarrow> (bytes \<rightharpoonup> u64) \<Rightarrow> bool" where
  "zset_cur m key v z \<longleftrightarrow> coll_cur ZSIZE m key v (zitems z) \<and> score_map key v m = zindex z \<and>
     (\<forall>f x. z f = Some x \<longrightarrow> \<not> isnan x)"

lemma zitems_simps [simp]:
  "zitems (z(f \<mapsto> x)) = (zitems z)(f \<mapsto> raw64 x)" "zitems (z(f := None)) = (zitems z)(f := None)"
  "zitems Map.empty = Map.empty" "dom (zitems z) = dom z" "zitems z = Map.empty \<longleftrightarrow> z = Map.empty"
  by (auto simp: zitems_def fun_eq_iff dom_def)

lemma zindex_eqI:
  assumes "\<And>x f. m (score_field x f) = (if z f = Some x then Some [] else None)"
    "\<And>g. (\<And>x f. g \<noteq> score_field x f) \<Longrightarrow> m g = None"
  shows "m = zindex z"
proof (rule ext)
  fix g
  show "m g = zindex z g"
  proof (cases "\<exists>x f. g = score_field x f")
    case True
    then show ?thesis using assms(1) by (auto simp: zindex_def)
  next
    case False
    then show ?thesis using assms(2) by (auto simp: zindex_def)
  qed
qed

lemma zindex_simps [simp]:
  "zindex z (score_field x f) = (if z f = Some x then Some [] else None)"
  "zindex Map.empty = Map.empty"
  by (auto simp: zindex_def)

lemma zindex_none: "(\<And>x f. g \<noteq> score_field x f) \<Longrightarrow> zindex z g = None"
  by (simp add: zindex_def)

lemma zindex_new: "z f = None \<Longrightarrow> zindex (z(f \<mapsto> x)) = (zindex z)(score_field x f \<mapsto> [])"
  by (rule sym, rule zindex_eqI) (auto simp: zindex_none)

lemma zindex_del: "z f = Some x \<Longrightarrow> zindex (z(f := None)) = (zindex z)(score_field x f := None)"
  by (rule sym, rule zindex_eqI) (auto simp: zindex_none)

lemma zindex_upd:
  "z f = Some y \<Longrightarrow> zindex (z(f \<mapsto> x)) = (zindex z)(score_field y f := None, score_field x f \<mapsto> [])"
  using zindex_del [of z f y] zindex_new [of "z(f := None)" f x] by simp

lemma score_map_simps [simp]:
  "score_map key v (m(encode_key_internal ZSCORE key g v := x)) = (score_map key v m)(g := x)"
  "score_map key v (m(encode_key_internal ITEM key' g w := x)) = score_map key v m"
  "score_map key v (m(encode_meta_key key' := x)) = score_map key v m"
  by (auto simp: score_map_def)

lemma item_map_zscore [simp]: "item_map key v (m(encode_key_internal ZSCORE key' g w := x)) = item_map key v m"
  by (auto simp: item_map_def)

lemma zset_rep_cur:
  assumes "zset_rep m key z" "z = Map.empty \<longrightarrow> zfresh m key"
  obtains v where "zset_cur m key v z"
proof (cases "\<exists>v. zset_at m key v z")
  case True
  then show ?thesis using that by (auto simp: zset_at_def zset_cur_def coll_cur_def)
next
  case False
  then obtain w where "z = Map.empty" "absent m key w" using assms(1) by (auto simp: zset_rep_def)
  then show ?thesis using that [of w] assms(2) by (auto simp: zset_cur_def coll_cur_def zfresh_def)
qed

lemma zset_at_cur: "zset_at m key v z \<Longrightarrow> zset_cur m key v z"
  by (simp add: zset_at_def zset_cur_def coll_cur_def)

sublocale rocksdb_healthy \<subseteq> zc: collection R view ZSIZE "GetZSetMetaVal R" "incr_zsize R"
proof (unfold_locales, goal_cases)
  case (1 s key w)
  then show ?case
    by (auto simp: absent_def GetZSetMetaVal_def Get_view Let_def coll_meta_def DecodeMetaVal_deleted)
next
  case (2 s key v h)
  then show ?case
    by (auto simp: coll_at_def GetZSetMetaVal_def Get_view Let_def coll_meta_def DecodeMetaVal_encode)
next
  case (3 mv n s key b)
  then show ?case by (simp add: incr_zsize_def encode_zset_meta_val_def)
next
  case (4 s key b mv)
  then show ?case by (simp add: incr_zsize_def)
next
  case (5 mv n s key b)
  from counter_arith [OF 5(4,2,3,5)] 5(1,2) show ?case
    by (simp add: incr_zsize_def encode_zset_meta_val_def Let_def)
next
  case (6 mv n s key b)
  from counter_arith_0 [OF 6] 6 show ?case
    by (auto simp: incr_zsize_def encode_zset_meta_val_def Let_def split: prod.splits)
qed

section \<open>Effect of the operations\<close>

text \<open>A batch turns the stored sorted set into \<open>z\<close>.\<close>

definition zbatch :: "contents \<Rightarrow> bytes \<Rightarrow> u16 \<Rightarrow> batch \<Rightarrow> (bytes \<rightharpoonup> u64) \<Rightarrow> bool" where
  "zbatch m name v b z \<longleftrightarrow> item_batch name v b \<and> item_map name v (apply_batch b m) = zitems z \<and>
     score_map name v (apply_batch b m) = zindex z"

lemma zbatch_Nil: "zset_cur m name v z \<Longrightarrow> zbatch m name v [] z"
  by (auto simp: zbatch_def zset_cur_def dest: coll_curD(3))

lemma zbatch_put_new:
  "zbatch m name v b z \<Longrightarrow> z f = None \<Longrightarrow> zbatch m name v (b @ zset_put name f x v) (z(f \<mapsto> x))"
  by (simp add: zbatch_def zset_put_def zscore_key_internal encode_zset_key_def zindex_new)

lemma zbatch_put_upd:
  "zbatch m name v b z \<Longrightarrow> z f = Some y \<Longrightarrow>
   zbatch m name v (b @ [Delete (encode_zscore_key name f y v)] @ zset_put name f x v) (z(f \<mapsto> x))"
  by (simp add: zbatch_def zset_put_def zscore_key_internal encode_zset_key_def zindex_upd)

lemma zbatch_delete:
  "zbatch m name v b z \<Longrightarrow> z f = Some y \<Longrightarrow>
   zbatch m name v (b @ [Delete (encode_zscore_key name f y v), Delete (encode_zset_key name f v)]) (z(f := None))"
  by (simp add: zbatch_def zscore_key_internal encode_zset_key_def zindex_del)

text \<open>
  The score a member has after an update: \<^verbatim>\<open>NX\<close> keeps a member that is there, \<^verbatim>\<open>XX\<close> adds none,
  \<^verbatim>\<open>INCR\<close> adds to the old score, and an equal score leaves the stored one.
\<close>

definition zscore :: "int \<Rightarrow> u64 \<Rightarrow> u64 option \<Rightarrow> u64 option" where
  "zscore flags x old =
     (case old of
        None \<Rightarrow> if flags AND ZADD_XX \<noteq> 0 then None else Some x
      | Some y \<Rightarrow>
          if flags AND ZADD_NX \<noteq> 0 then Some y
          else
            let x = (if flags AND ZADD_INCR \<noteq> 0 then dbl_add x y else x)
            in if dbl_eq y x then Some y else Some x)"

definition zscore_ok :: "int \<Rightarrow> u64 \<Rightarrow> u64 option \<Rightarrow> bool" where
  "zscore_ok flags x old \<longleftrightarrow> \<not> isnan x \<and>
     (\<forall>y. old = Some y \<longrightarrow> flags AND ZADD_INCR \<noteq> 0 \<longrightarrow> flags AND ZADD_NX = 0 \<longrightarrow> \<not> isnan (dbl_add x y))"

text \<open>
  When a text is a score: it has fewer than 256 bytes and does not start with white space, \<^verbatim>\<open>strtod\<close> stops at its end (or at a zero
  byte in it), and the value is a number that is not out of range. The empty text, of which \<^verbatim>\<open>strtod\<close>
  reads nothing, is among them.
\<close>

definition score_text :: "strtod \<Rightarrow> bytes \<Rightarrow> u64 \<Rightarrow> bool" where
  "score_text strtod t x \<longleftrightarrow> length t < 256 \<and> (t \<noteq> [] \<longrightarrow> hd t \<notin> {9, 10, 11, 12, 13, 32}) \<and>
     (\<exists>n er. strtod (t @ [0]) = (x, n, er) \<and> (t @ [0]) ! n = 0 \<and> \<not> isnan x \<and> er \<noteq> E_INVAL \<and>
        (er = E_RANGE \<longrightarrow> dbl_mag x \<notin> {0, DBL_INF}))"

lemma isspace_iff: "isspace c \<longleftrightarrow> c \<in> {9, 10, 11, 12, 13, 32}"
proof -
  have "unat c \<in> {9..13} \<longleftrightarrow> unat c \<in> {9, 10, 11, 12, 13}" by auto
  then show ?thesis unfolding isspace_def by (auto simp: word_le_nat_alt word_unat_eq_iff)
qed

lemma dbl_eq_zero: "dbl_eq x 0 \<longleftrightarrow> dbl_mag x = 0"
  by (auto simp: dbl_eq_def dbl_key_def isnan_def dbl_mag_def)

lemma str_to_double_reads:
  assumes "length t < 256"
  shows "str_to_double strtod er t = (x, er') \<and> er' \<noteq> E_INVAL \<longleftrightarrow>
    score_text strtod t x \<and> er' = snd (snd (strtod (t @ [0])))"
proof -
  obtain y n e where r: "strtod (t @ [0]) = (y, n, e)" by (metis prod_cases3)
  have "isspace ((t @ [0]) ! 0) \<longleftrightarrow> t \<noteq> [] \<and> hd t \<in> {9, 10, 11, 12, 13, 32}"
    by (cases t) (simp_all add: isspace_iff)
  then show ?thesis using assms by (auto simp: str_to_double_def score_text_def Let_def r isinf_def dbl_eq_zero)
qed

lemma not_score_text:
  assumes "length t < 256" "\<nexists>x. score_text strtod t x"
  shows "snd (str_to_double strtod er t) = E_INVAL"
  using str_to_double_reads [OF assms(1)] assms(2) by (metis prod.collapse)

lemma long_text_score: "256 \<le> length t \<Longrightarrow> str_to_double strtod er t = (0, er)"
  by (simp add: str_to_double_def)

lemma score_text_read:
  assumes "score_text strtod t x"
  obtains er' where "str_to_double strtod er t = (x, er')" "er' \<noteq> E_INVAL" "\<not> isnan x"
proof -
  have "length t < 256" "\<not> isnan x" using assms by (auto simp: score_text_def)
  then show ?thesis using str_to_double_reads [of t strtod er x] assms that by blast
qed

lemma commit_incrE:
  assumes "commit_incr R x = (r, s')" "r \<ge> 0"
  obtains iret b s1 where "x = (iret, b, s1)" "\<not> iret < 0" "CommitBatch R s1 b = (True, s')"
    "r = (if iret = 0 then 0 else 1)"
  using assms by (cases x) (auto simp: commit_incr_def Let_def STORAGE_ERR_def split: if_splits prod.splits)

text \<open>The set after an update with several members and scores.\<close>

definition zupdate :: "int \<Rightarrow> (bytes \<Rightarrow> u64) \<Rightarrow> (bytes \<rightharpoonup> u64) \<Rightarrow> bytes list \<Rightarrow> bytes \<rightharpoonup> u64" where
  "zupdate flags sc z fs = (\<lambda>f. if f \<in> set fs then zscore flags (sc f) (z f) else z f)"

definition zchanged :: "int \<Rightarrow> (bytes \<Rightarrow> u64) \<Rightarrow> (bytes \<rightharpoonup> u64) \<Rightarrow> bytes list \<Rightarrow> bytes list" where
  "zchanged flags sc z fs = filter (\<lambda>f. z f \<noteq> None \<and> zscore flags (sc f) (z f) \<noteq> z f) fs"

definition zadded :: "int \<Rightarrow> (bytes \<Rightarrow> u64) \<Rightarrow> (bytes \<rightharpoonup> u64) \<Rightarrow> bytes list \<Rightarrow> bytes list" where
  "zadded flags sc z fs = filter (\<lambda>f. z f = None \<and> zscore flags (sc f) (z f) \<noteq> None) fs"

lemma zscore_keeps: "z f = Some y \<Longrightarrow> zscore flags x (z f) \<noteq> None"
  by (simp add: zscore_def Let_def)

lemma zupdate_dom:
  assumes "finite (dom z)" "distinct fs"
  shows "finite (dom (zupdate flags sc z fs))"
    "int (length (zadded flags sc z fs)) = int (card (dom (zupdate flags sc z fs))) - int (card (dom z))"
proof -
  have d: "dom (zupdate flags sc z fs) = dom z \<union> set (zadded flags sc z fs)"
    by (auto simp: zupdate_def zadded_def zscore_def Let_def split: if_splits option.splits)
  then show "finite (dom (zupdate flags sc z fs))" using assms(1) by simp
  have "dom z \<inter> set (zadded flags sc z fs) = {}" by (auto simp: zadded_def)
  then have "card (dom (zupdate flags sc z fs)) = card (dom z) + length (zadded flags sc z fs)"
    using assms(1) d distinct_card [of "zadded flags sc z fs"] assms(2)
    by (simp add: card_Un_disjoint) (simp add: zadded_def)
  then show "int (length (zadded flags sc z fs)) = int (card (dom (zupdate flags sc z fs))) - int (card (dom z))"
    by simp
qed

lemma zupdate_nan:
  assumes "\<And>f. f \<in> set fs \<Longrightarrow> zscore_ok flags (sc f) (z f)" "\<And>f x. z f = Some x \<Longrightarrow> \<not> isnan x"
    "zupdate flags sc z fs f = Some x"
  shows "\<not> isnan x"
  using assms(1) [of f] assms(2) [of f] assms(3)
  by (cases "f \<in> set fs"; cases "z f") (auto simp: zupdate_def zscore_def zscore_ok_def Let_def split: if_splits)

context rocksdb_healthy
begin

lemma zset_cur_item:
  "zset_cur (view (ldb s)) name v z \<Longrightarrow> view (ldb s) (encode_zset_key name f v) = map_option raw64 (z f)"
  using coll_curD(3) [of ZSIZE "view (ldb s)" name v "zitems z"]
  by (auto simp: zset_cur_def zitems_def item_map_def encode_zset_key_def fun_eq_iff)

lemma GetZSetItemVal_cur:
  "zset_cur (view (ldb s)) name v z \<Longrightarrow> GetZSetItemVal R s (encode_zset_key name f v) d =
    (case z f of None \<Rightarrow> (0, d) | Some x \<Rightarrow> (1, x))"
  by (auto simp: GetZSetItemVal_def Get_view zset_cur_item split: option.splits)

lemma zset_one_effect:
  assumes cur: "zset_cur (view (ldb s)) name v z0" and same: "z f = z0 f"
    and b: "zbatch (view (ldb s)) name v b z" and ok: "zscore_ok flags x (z f)"
    and chk: "chk \<longleftrightarrow> z0 \<noteq> Map.empty"
  shows "\<exists>b' fl ns'. zset_one R s b chk name f x v flags ns = (1, b', fl, ns') \<and>
    zbatch (view (ldb s)) name v b' (z(f := zscore flags x (z f))) \<and>
    (fl AND ZADD_ADDED \<noteq> 0 \<longleftrightarrow> z f = None \<and> zscore flags x (z f) \<noteq> None) \<and>
    (fl AND ZADD_UPDATED \<noteq> 0 \<longleftrightarrow> z f \<noteq> None \<and> zscore flags x (z f) \<noteq> z f) \<and>
    (flags AND ZADD_INCR \<noteq> 0 \<and> flags AND ZADD_NX = 0 \<and> flags AND ZADD_XX = 0 \<longrightarrow>
      dbl_eq ns' (the (zscore flags x (z f))))"
proof (cases "z f")
  case None
  have nx: "\<not> isnan x" using ok by (simp add: zscore_ok_def)
  have "zset_one R s b chk name f x v flags ns =
    (if flags AND ZADD_XX = 0 then (1, b @ zset_put name f x v, ZADD_ADDED, x) else (1, b, ZADD_NOP, ns))"
    using nx same [symmetric, unfolded None] by (simp add: zset_one_def Let_def GetZSetItemVal_cur [OF cur])
  then show ?thesis
    using None b zbatch_put_new [OF b None, of x] nx
    by (auto simp: zscore_def zadd_flags dbl_eq_def fun_upd_idem)
next
  case (Some y)
  have chk: chk using Some same chk by auto
  have nx: "\<not> isnan x" using ok by (simp add: zscore_ok_def)
  have ny: "\<not> isnan y" using cur same Some by (simp add: zset_cur_def)
  show ?thesis
  proof (cases "flags AND ZADD_NX = 0")
    case False
    then have "zset_one R s b chk name f x v flags ns = (1, b, ZADD_NOP, ns)"
      using nx same [symmetric, unfolded Some] chk by (simp add: zset_one_def Let_def GetZSetItemVal_cur [OF cur])
    then show ?thesis using Some b False by (auto simp: zscore_def zadd_flags fun_upd_idem)
  next
    case True
    define x' where "x' = (if flags AND ZADD_INCR \<noteq> 0 then dbl_add x y else x)"
    have nx': "\<not> isnan x'" using ok Some True nx by (auto simp: zscore_ok_def x'_def)
    have new: "zscore flags x (z f) = (if dbl_eq y x' then Some y else Some x')"
      using Some True by (simp add: zscore_def x'_def Let_def)
    have neq: "\<not> dbl_eq y x' \<Longrightarrow> x' \<noteq> y" using ny by (auto simp: dbl_eq_def)
    have "zset_one R s b chk name f x v flags ns =
      (if dbl_eq y x' then (1, b, 0, if flags AND ZADD_INCR \<noteq> 0 then x' else ns)
       else (1, b @ [Delete (encode_zscore_key name f y v)] @ zset_put name f x' v, ZADD_UPDATED, x'))"
      using nx nx' same [symmetric, unfolded Some] chk True
      by (simp add: zset_one_def Let_def GetZSetItemVal_cur [OF cur] x'_def)
    then show ?thesis
      using Some b new neq zbatch_put_upd [OF b Some, of x'] nx' ny
      by (auto simp: zadd_flags fun_upd_idem dbl_eq_def)
  qed
qed

lemma zset_loop_effect:
  assumes cur: "zset_cur (view (ldb s)) name v z0" and chk: "chk \<longleftrightarrow> z0 \<noteq> Map.empty"
    and rd: "\<And>f t. (f, t) \<in> set kvs \<Longrightarrow> score_text strtod t (sc f)"
    and ok: "\<And>f t. (f, t) \<in> set kvs \<Longrightarrow> zscore_ok flags (sc f) (z0 f)"
    and dist: "distinct (map fst kvs)"
    and b: "zbatch (view (ldb s)) name v b z" and same: "\<And>f t. (f, t) \<in> set kvs \<Longrightarrow> z f = z0 f"
  shows "\<exists>b'. zset_loop strtod R s chk name v flags kvs er ns a u b =
      (0, a + int (length (zadded flags sc z0 (map fst kvs))),
       u + int (length (zchanged flags sc z0 (map fst kvs))), b') \<and>
    zbatch (view (ldb s)) name v b' (zupdate flags sc z (map fst kvs))"
  using rd ok dist b same
proof (induction kvs arbitrary: er ns a u b z)
  case Nil
  then show ?case by (simp add: zadded_def zchanged_def zupdate_def)
next
  case (Cons kv kvs)
  obtain f t where kv: "kv = (f, t)" by (cases kv)
  have rd: "score_text strtod t (sc f)" using Cons.prems(1) kv by simp
  from score_text_read [OF this] obtain er' where er': "str_to_double strtod er t = (sc f, er')"
    "er' \<noteq> E_INVAL" by metis
  have zf: "z f = z0 f" by (rule Cons.prems(5) [of f t]) (simp add: kv)
  have "zscore_ok flags (sc f) (z f)" unfolding zf by (rule Cons.prems(2) [of f t]) (simp add: kv)
  from zset_one_effect [OF cur zf Cons.prems(4) this chk, of ns] obtain b1 fl ns1 where
    one: "zset_one R s b chk name f (sc f) v flags ns = (1, b1, fl, ns1)"
      "zbatch (view (ldb s)) name v b1 (z(f := zscore flags (sc f) (z f)))"
      "fl AND ZADD_ADDED \<noteq> 0 \<longleftrightarrow> z f = None \<and> zscore flags (sc f) (z f) \<noteq> None"
      "fl AND ZADD_UPDATED \<noteq> 0 \<longleftrightarrow> z f \<noteq> None \<and> zscore flags (sc f) (z f) \<noteq> z f"
    by blast
  let ?z = "z(f := zscore flags (sc f) (z f))"
  have nf: "f \<notin> set (map fst kvs)" "distinct (map fst kvs)" using Cons.prems(3) kv by simp_all
  have same: "\<And>g t. (g, t) \<in> set kvs \<Longrightarrow> ?z g = z0 g"
    using Cons.prems(5) nf(1) kv by (auto simp: image_iff)
  have upd: "zupdate flags sc ?z (map fst kvs) = zupdate flags sc z (map fst (kv # kvs))"
    using nf(1) kv by (auto simp: zupdate_def fun_eq_iff)
  have "\<And>a u. \<exists>b'. zset_loop strtod R s chk name v flags kvs er' ns1 a u b1 =
      (0, a + int (length (zadded flags sc z0 (map fst kvs))),
       u + int (length (zchanged flags sc z0 (map fst kvs))), b') \<and>
    zbatch (view (ldb s)) name v b' (zupdate flags sc ?z (map fst kvs))"
    by (rule Cons.IH [OF _ _ nf(2) one(2) same]) (use Cons.prems(1,2) in auto)
  then obtain b' where b': "zset_loop strtod R s chk name v flags kvs er' ns1
      (if fl AND ZADD_ADDED \<noteq> 0 then a + 1 else a) (if fl AND ZADD_UPDATED \<noteq> 0 then u + 1 else u) b1 =
      ((0, (if fl AND ZADD_ADDED \<noteq> 0 then a + 1 else a) + int (length (zadded flags sc z0 (map fst kvs))),
       (if fl AND ZADD_UPDATED \<noteq> 0 then u + 1 else u) + int (length (zchanged flags sc z0 (map fst kvs))), b'))"
    "zbatch (view (ldb s)) name v b' (zupdate flags sc ?z (map fst kvs))" by blast
  have "(if fl AND ZADD_ADDED \<noteq> 0 then a + 1 else a) + int (length (zadded flags sc z0 (map fst kvs))) =
      a + int (length (zadded flags sc z0 (map fst (kv # kvs))))"
    unfolding one(3) using zf kv by (simp add: zadded_def)
  moreover have "(if fl AND ZADD_UPDATED \<noteq> 0 then u + 1 else u) + int (length (zchanged flags sc z0 (map fst kvs))) =
      u + int (length (zchanged flags sc z0 (map fst (kv # kvs))))"
    unfolding one(4) using zf kv by (simp add: zchanged_def)
  ultimately show ?case using b' er' one(1) kv upd by simp
qed

text \<open>Committing a batch that turns the set into \<open>z'\<close>, with the counter moved along.\<close>

lemma zset_commit:
  assumes cur: "zset_cur (view (ldb s)) name v z" and mv: "coll_meta (zitems z) v mv"
    and b: "zbatch (view (ldb s)) name v b z'" and fin: "finite (dom z')" "card (dom z') < 2 ^ 63"
    and n: "n = int (card (dom z')) - int (card (dom z))" and nan: "\<forall>f x. z' f = Some x \<longrightarrow> \<not> isnan x"
  shows "\<exists>s'. commit_incr R (incr_zsize R s name b mv n) = (if z' = Map.empty then 0 else 1, s') \<and>
    zset_rep (view (ldb s')) name z' \<and> touches_only name (view (ldb s)) (view (ldb s'))"
proof -
  have "coll_cur ZSIZE (view (ldb s)) name v (zitems z)" using cur by (simp add: zset_cur_def)
  from zc.commit_incr_at [OF this mv, of b "zitems z'" n] b fin n obtain s' where
    s': "commit_incr R (incr_zsize R s name b mv n) = (if z' = Map.empty then 0 else 1, s')"
      "if z' = Map.empty then \<exists>w. absent (view (ldb s')) name w else coll_at ZSIZE (view (ldb s')) name v (zitems z')"
      "touches_only name (view (ldb s)) (view (ldb s'))"
      "\<forall>x \<in> item_keys name v. view (ldb s') x = apply_batch b (view (ldb s)) x"
    by (auto simp: zbatch_def)
  have "score_map name v (view (ldb s')) = zindex z'"
    using s'(4) b by (simp add: zbatch_def score_map_def)
  then have "zset_rep (view (ldb s')) name z'"
    using s'(2) nan by (auto simp: zset_rep_def zset_at_def split: if_splits)
  with s' show ?thesis by blast
qed

lemma zmeta_cur:
  assumes "zset_cur (view (ldb s)) name v z"
  obtains mv where "GetZSetMetaVal R s (encode_meta_key name) = (if z = Map.empty then 0 else 1, mv)"
    "coll_meta (zitems z) v mv" "mv_version mv = v"
  using zc.get_cur [of s name v "zitems z"] assms by (auto simp: zset_cur_def coll_meta_def)

lemma zsetNoLock_rep:
  assumes rep: "zset_rep (view (ldb s)) name z" "z = Map.empty \<longrightarrow> zfresh (view (ldb s)) name"
    and fl: "flags AND ZADD_NX = 0 \<or> flags AND ZADD_XX = 0" "flags AND ZADD_INCR = 0"
    and rd: "\<And>f t. (f, t) \<in> set kvs \<Longrightarrow> score_text strtod t (sc f)"
    and dist: "distinct (map fst kvs)"
    and card: "card (dom (zupdate flags sc z (map fst kvs))) < 2 ^ 63"
  shows "\<exists>num' s'. zsetNoLock strtod er R s name kvs flags num =
      (if z = Map.empty \<and> num' = 0 then 0 else 1, num', s') \<and>
    num' = int (length (zadded flags sc z (map fst kvs))) +
      (if flags AND ZADD_CH \<noteq> 0 then int (length (zchanged flags sc z (map fst kvs))) else 0) \<and>
    zset_rep (view (ldb s')) name (zupdate flags sc z (map fst kvs)) \<and>
    touches_only name (view (ldb s)) (view (ldb s'))"
proof -
  from zset_rep_cur [OF rep] obtain v where cur: "zset_cur (view (ldb s)) name v z" .
  from zmeta_cur [OF cur] obtain mv where mv: "GetZSetMetaVal R s (encode_meta_key name) =
    (if z = Map.empty then 0 else 1, mv)" "coll_meta (zitems z) v mv" "mv_version mv = v" .
  have ok: "\<And>f t. (f, t) \<in> set kvs \<Longrightarrow> zscore_ok flags (sc f) (z f)"
    using rd fl(2) by (metis score_text_read zscore_ok_def)
  let ?z = "zupdate flags sc z (map fst kvs)"
  let ?a = "int (length (zadded flags sc z (map fst kvs)))"
    and ?u = "int (length (zchanged flags sc z (map fst kvs)))"
  have "\<exists>b. zset_loop strtod R s (z \<noteq> Map.empty) name v flags kvs er 0 0 0 [] = (0, 0 + ?a, 0 + ?u, b) \<and>
      zbatch (view (ldb s)) name v b ?z"
    by (rule zset_loop_effect [OF cur refl rd _ dist zbatch_Nil [OF cur] refl]) (use ok in auto)
  then obtain b where b: "zset_loop strtod R s (z \<noteq> Map.empty) name v flags kvs er 0 0 0 [] = (0, ?a, ?u, b)"
      "zbatch (view (ldb s)) name v b ?z" by auto
  have fin: "finite (dom z)" using coll_curD(1) [of ZSIZE "view (ldb s)" name v "zitems z"] cur
    by (simp add: zset_cur_def)
  note dm = zupdate_dom [OF fin dist, of flags sc]
  have nan: "\<forall>f x. ?z f = Some x \<longrightarrow> \<not> isnan x"
  proof (intro allI impI)
    fix f x
    assume "?z f = Some x"
    then show "\<not> isnan x"
      by (rule zupdate_nan [rotated 2]) (use ok cur in \<open>auto simp: zset_cur_def\<close>)
  qed
  from zset_commit [OF cur mv(2) b(2) dm(1) card dm(2) nan] obtain s' where
    s': "commit_incr R (incr_zsize R s name b mv ?a) = (if ?z = Map.empty then 0 else 1, s')"
      "zset_rep (view (ldb s')) name ?z" "touches_only name (view (ldb s)) (view (ldb s'))" by blast
  have "0 \<le> (if ?z = Map.empty then 0 else 1 :: int)" by simp
  from commit_incrE [OF s'(1) this] obtain iret b' s1 where
    c: "incr_zsize R s name b mv ?a = (iret, b', s1)" "\<not> iret < 0" "CommitBatch R s1 b' = (True, s')" .
  have "zsetNoLock strtod er R s name kvs flags num =
    (let n = (if flags AND ZADD_CH \<noteq> 0 then ?a + ?u else ?a)
     in (if z = Map.empty \<and> n = 0 then 0 else 1, n, s'))"
  proof (cases "z = Map.empty")
    case True
    then show ?thesis using fl mv b(1) c by (auto simp: zsetNoLock_def Let_def)
  next
    case False
    then show ?thesis using fl mv b(1) c by (auto simp: zsetNoLock_def Let_def)
  qed
  then show ?thesis using s' by (auto simp: Let_def)
qed

lemma zset_loop_error:
  assumes cur: "zset_cur (view (ldb s)) name v z0" and chk: "chk \<longleftrightarrow> z0 \<noteq> Map.empty"
    and rd: "\<And>f t. (f, t) \<in> set kvs \<Longrightarrow> score_text strtod t (sc f) \<and> flags AND ZADD_INCR = 0"
    and bad: "\<And>er. snd (str_to_double strtod er t) = E_INVAL"
  shows "\<exists>a' u' b'. zset_loop strtod R s chk name v flags (kvs @ (f, t) # kvs') er ns a u b = (INVALID_DBL, a', u', b')"
  using rd
proof (induction kvs arbitrary: er ns a u b)
  case Nil
  obtain x where "str_to_double strtod er t = (x, E_INVAL)" using bad [of er] by (metis prod.collapse)
  then show ?case by simp
next
  case (Cons kv kvs)
  obtain g w where kv: "kv = (g, w)" by (cases kv)
  have sc: "score_text strtod w (sc g)" "flags AND ZADD_INCR = 0" using Cons.prems [of g w] kv by simp_all
  from score_text_read [OF sc(1)] obtain er' where er': "str_to_double strtod er w = (sc g, er')"
    "er' \<noteq> E_INVAL" "\<not> isnan (sc g)" .
  have "\<not> fst (zset_one R s b chk name g (sc g) v flags ns) < 0"
    using er'(3) sc(2) by (cases "z0 g") (simp_all add: zset_one_def Let_def GetZSetItemVal_cur [OF cur])
  then obtain r b1 fl ns1 where one: "zset_one R s b chk name g (sc g) v flags ns = (r, b1, fl, ns1)" "\<not> r < 0"
    by (cases "zset_one R s b chk name g (sc g) v flags ns") simp
  have ih: "\<exists>a' u' b'. zset_loop strtod R s chk name v flags (kvs @ (f, t) # kvs') er ns a u b = (INVALID_DBL, a', u', b')"
    for er ns a u b by (rule Cons.IH, rule Cons.prems) simp
  show ?case using er' one kv by (simp add: ih)
qed

lemma zset_bad_score:
  assumes rep: "zset_rep (view (ldb s)) name z" "z = Map.empty \<longrightarrow> zfresh (view (ldb s)) name"
    and fl: "flags AND ZADD_NX = 0 \<or> flags AND ZADD_XX = 0" "flags AND ZADD_INCR = 0"
    and rd: "\<And>f t. (f, t) \<in> set kvs \<Longrightarrow> score_text strtod t (sc f)"
    and bad: "\<forall>er. snd (str_to_double strtod er t) = E_INVAL"
  shows "zsetNoLock strtod er R s name (kvs @ (f, t) # kvs') flags num = (INVALID_DBL, num, s)"
proof -
  from zset_rep_cur [OF rep] obtain v where cur: "zset_cur (view (ldb s)) name v z" .
  from zmeta_cur [OF cur] obtain mv where mv: "GetZSetMetaVal R s (encode_meta_key name) =
    (if z = Map.empty then 0 else 1, mv)" "mv_version mv = v" .
  have "\<exists>a u b. zset_loop strtod R s (z \<noteq> Map.empty) name v flags (kvs @ (f, t) # kvs') er 0 0 0 [] = (INVALID_DBL, a, u, b)"
    by (rule zset_loop_error [OF cur refl]) (use rd fl bad in auto)
  moreover have "INVALID_DBL < 0" by (simp add: INVALID_DBL_def)
  ultimately show ?thesis
    using fl mv by (cases "z = Map.empty") (auto simp: zsetNoLock_def Let_def)
qed

lemma zdel_loop_effect:
  assumes cur: "zset_cur (view (ldb s)) name v z0"
    and b: "zbatch (view (ldb s)) name v b z" and dist: "distinct fs"
    and same: "\<And>f. f \<in> set fs \<Longrightarrow> z f = z0 f"
  shows "\<exists>b'. zdel_loop R s name v fs c b = (0, c + int (length (filter (\<lambda>f. z0 f \<noteq> None) fs)), b') \<and>
    zbatch (view (ldb s)) name v b' (z |` (- set fs))"
  using b dist same
proof (induction fs arbitrary: c b z)
  case Nil
  then show ?case by (simp add: restrict_map_def)
next
  case (Cons f fs)
  have zf: "z f = z0 f" using Cons.prems(3) by simp
  have step: "z |` (- set (f # fs)) = (z(f := None)) |` (- set fs)"
    by (auto simp: restrict_map_def fun_eq_iff)
  have one: "zdel_one R s b name f v = (case z f of None \<Rightarrow> (0, b)
    | Some y \<Rightarrow> (1, b @ [Delete (encode_zscore_key name f y v), Delete (encode_zset_key name f v)]))"
    using zf by (simp add: zdel_one_def GetZSetItemVal_cur [OF cur] split: option.splits)
  have same: "\<And>g. g \<in> set fs \<Longrightarrow> (z(f := None)) g = z0 g" using Cons.prems(2,3) by auto
  show ?case
  proof (cases "z f")
    case None
    then have zn: "z(f := None) = z" by auto
    obtain b' where "zdel_loop R s name v fs c b = (0, c + int (length (filter (\<lambda>f. z0 f \<noteq> None) fs)), b')"
      "zbatch (view (ldb s)) name v b' (z |` (- set fs))"
      using Cons.IH [OF Cons.prems(1) _ same [unfolded zn], of c] Cons.prems(2) by auto
    then show ?thesis unfolding step zn using None zf one by simp
  next
    case (Some y)
    let ?b = "b @ [Delete (encode_zscore_key name f y v), Delete (encode_zset_key name f v)]"
    obtain b' where "zdel_loop R s name v fs (c + 1) ?b =
        (0, c + 1 + int (length (filter (\<lambda>f. z0 f \<noteq> None) fs)), b')"
      "zbatch (view (ldb s)) name v b' ((z(f := None)) |` (- set fs))"
      using Cons.IH [OF zbatch_delete [OF Cons.prems(1) Some] _ same, of "c + 1"] Cons.prems(2)
      unfolding distinct.simps by blast
    then show ?thesis unfolding step using Some zf one by simp
  qed
qed

lemma zdelNoLock_rep:
  assumes rep: "zset_rep (view (ldb s)) name z" and dist: "distinct fs"
  shows "\<exists>s'. zdelNoLock R s name fs 0 =
      (if z |` (- set fs) = Map.empty then 0 else 1, int (length (filter (\<lambda>f. z f \<noteq> None) fs)), s') \<and>
    zset_rep (view (ldb s')) name (z |` (- set fs)) \<and> touches_only name (view (ldb s)) (view (ldb s'))"
proof (cases "z = Map.empty")
  case True
  then obtain w where "absent (view (ldb s)) name w"
    using rep by (auto simp: zset_rep_def zset_at_def coll_at_def)
  from zc.get_absent [OF this] obtain mv where "GetZSetMetaVal R s (encode_meta_key name) = (0, mv)" by blast
  then show ?thesis using True rep by (simp add: zdelNoLock_def touches_only_def)
next
  case False
  then obtain v where at: "zset_at (view (ldb s)) name v z" using rep by (auto simp: zset_rep_def)
  note cur = zset_at_cur [OF at]
  from zmeta_cur [OF cur] obtain mv where mv: "GetZSetMetaVal R s (encode_meta_key name) = (1, mv)"
    "coll_meta (zitems z) v mv" "mv_version mv = v" using False by auto
  let ?z = "z |` (- set fs)" and ?n = "int (length (filter (\<lambda>f. z f \<noteq> None) fs))"
  from zdel_loop_effect [OF cur zbatch_Nil [OF cur] dist refl, of 0] obtain b where
    b: "zdel_loop R s name v fs 0 [] = (0, ?n, b)" "zbatch (view (ldb s)) name v b ?z" by auto
  have fin: "finite (dom z)" "card (dom z) < 2 ^ 63" using at by (auto simp: zset_at_def coll_at_def)
  have dm: "dom z = dom ?z \<union> set (filter (\<lambda>f. z f \<noteq> None) fs)" "dom ?z \<inter> set (filter (\<lambda>f. z f \<noteq> None) fs) = {}"
    by auto
  have "card (dom z) = card (dom ?z) + length (filter (\<lambda>f. z f \<noteq> None) fs)"
    using card_Un_disjoint [OF _ _ dm(2)] fin(1) dist dm(1) distinct_card [of "filter (\<lambda>f. z f \<noteq> None) fs"]
    by (metis List.finite_set distinct_filter finite_Un)
  then have n: "- ?n = int (card (dom ?z)) - int (card (dom z))" "card (dom ?z) < 2 ^ 63" "finite (dom ?z)"
    using fin by auto
  have nan: "\<forall>f x. ?z f = Some x \<longrightarrow> \<not> isnan x" using at by (auto simp: zset_at_def restrict_map_def split: if_splits)
  from zset_commit [OF cur mv(2) b(2) n(3,2,1) nan] show ?thesis
    using mv b(1) by (auto simp: zdelNoLock_def)
qed

lemma zincr_rep:
  assumes rep: "zset_rep (view (ldb s)) name z" "z = Map.empty \<longrightarrow> zfresh (view (ldb s)) name"
    and ok: "zscore_ok ZADD_INCR x (z key)" and card: "card (dom (z(key \<mapsto> x))) < 2 ^ 63"
  shows "\<exists>fl ns s'. zincr R s name key x ZADD_INCR d = (1, fl, ns, s') \<and>
    dbl_eq ns (the (zscore ZADD_INCR x (z key))) \<and>
    zset_rep (view (ldb s')) name (z(key := zscore ZADD_INCR x (z key))) \<and>
    touches_only name (view (ldb s)) (view (ldb s'))"
proof -
  from zset_rep_cur [OF rep] obtain v where cur: "zset_cur (view (ldb s)) name v z" .
  from zmeta_cur [OF cur] obtain mv where mv: "GetZSetMetaVal R s (encode_meta_key name) =
    (if z = Map.empty then 0 else 1, mv)" "coll_meta (zitems z) v mv" "mv_version mv = v" .
  let ?z = "z(key := zscore ZADD_INCR x (z key))"
  have fl: "ZADD_INCR AND ZADD_INCR \<noteq> 0" "ZADD_INCR AND ZADD_NX = 0" "ZADD_INCR AND ZADD_XX = 0"
    by (simp_all add: zadd_flags)
  have some: "zscore ZADD_INCR x (z key) \<noteq> None"
    by (simp add: zscore_def Let_def fl split: option.splits)
  from zset_one_effect [OF cur refl zbatch_Nil [OF cur] ok refl, of d] fl some obtain b fl ns where
    one: "zset_one R s [] (z \<noteq> Map.empty) name key x v ZADD_INCR d = (1, b, fl, ns)"
      "zbatch (view (ldb s)) name v b ?z" "fl AND ZADD_ADDED \<noteq> 0 \<longleftrightarrow> z key = None"
      "dbl_eq ns (the (zscore ZADD_INCR x (z key)))" by blast
  have nan: "\<forall>f x. ?z f = Some x \<longrightarrow> \<not> isnan x"
    using ok cur fl by (cases "z key") (auto simp: zset_cur_def zscore_ok_def zscore_def Let_def split: if_splits)
  have dom: "dom ?z = insert key (dom z)" using some by auto
  have fin: "finite (dom z)" using coll_curD(1) [of ZSIZE "view (ldb s)" name v "zitems z"] cur
    by (simp add: zset_cur_def)
  have card': "card (dom ?z) < 2 ^ 63" using card dom by simp
  let ?n = "if z key = None then 1 else 0 :: int"
  have n: "?n = int (card (dom ?z)) - int (card (dom z))"
    using fin dom by (cases "z key") (auto simp: card_insert_if dom_def)
  have ne: "?z \<noteq> Map.empty" using some by (metis fun_upd_same)
  have "finite (dom ?z)" using fin dom by simp
  from zset_commit [OF cur mv(2) one(2) this card' n nan, unfolded if_not_P [OF ne]] obtain s' where
    s': "commit_incr R (incr_zsize R s name b mv ?n) = (1, s')"
      "zset_rep (view (ldb s')) name ?z" "touches_only name (view (ldb s)) (view (ldb s'))"
    by blast
  from commit_incrE [OF s'(1) zero_le_one] obtain iret b' s1 where
    c: "incr_zsize R s name b mv ?n = (iret, b', s1)" "\<not> iret < 0" "CommitBatch R s1 b' = (True, s')"
      "1 = (if iret = 0 then 0 else 1 :: int)" .
  then have c': "iret \<noteq> 0" by (auto split: if_splits)
  have "zincr R s name key x ZADD_INCR d = (1, fl, ns, s')"
  proof (cases "z key")
    case None
    then show ?thesis
      using mv one(1,3) c(1-3) c' by (cases "z = Map.empty") (simp_all add: zincr_def Let_def)
  next
    case (Some y)
    then have "z \<noteq> Map.empty" by auto
    moreover from this have "mv_length mv \<noteq> 0" using mv(2) card_word_0 [of "zitems z"] fin
        coll_curD(2) [of ZSIZE "view (ldb s)" name v "zitems z"] cur
      by (simp add: coll_meta_def zset_cur_def)
    ultimately show ?thesis
      using mv one(1,3) c(1-3) Some by (simp add: zincr_def Let_def incr_zsize_def)
  qed
  then show ?thesis using one(4) s' by blast
qed

lemma zincr_nan:
  assumes rep: "zset_rep (view (ldb s)) name z" "z = Map.empty \<longrightarrow> zfresh (view (ldb s)) name"
    and nan: "\<not> zscore_ok ZADD_INCR x (z key)"
  shows "zincr R s name key x ZADD_INCR d = (NAN_SCORE, ZADD_NAN, d, s)"
proof -
  from zset_rep_cur [OF rep] obtain v where cur: "zset_cur (view (ldb s)) name v z" .
  from zmeta_cur [OF cur] obtain mv where mv: "GetZSetMetaVal R s (encode_meta_key name) =
    (if z = Map.empty then 0 else 1, mv)" "coll_meta (zitems z) v mv" "mv_version mv = v" .
  have "zset_one R s [] (z \<noteq> Map.empty) name key x v ZADD_INCR d = (NAN_SCORE, [], ZADD_NAN, d)"
  proof (cases "z key")
    case None
    then show ?thesis using nan by (simp add: zset_one_def Let_def zscore_ok_def)
  next
    case (Some y)
    then have "z \<noteq> Map.empty" by auto
    then show ?thesis using nan Some
      by (auto simp: zset_one_def Let_def zscore_ok_def GetZSetItemVal_cur [OF cur] zadd_flags)
  qed
  moreover have "NAN_SCORE < 0" by (simp add: NAN_SCORE_def)
  ultimately show ?thesis using mv by (cases "z = Map.empty") (simp_all add: zincr_def Let_def)
qed

lemma zread_rep:
  assumes rep: "zset_rep (view (ldb s)) name z"
  shows "zget R s name key = (case z key of None \<Rightarrow> (0, 0) | Some x \<Rightarrow> (1, x))"
    "zsize R s name 0 = (if z = Map.empty then 0 else 1, word_of_nat (card (dom z)))"
proof -
  have "zget R s name key = (case z key of None \<Rightarrow> (0, 0) | Some x \<Rightarrow> (1, x)) \<and>
    zsize R s name 0 = (if z = Map.empty then 0 else 1, word_of_nat (card (dom z)))"
  proof (cases "z = Map.empty")
    case True
    then obtain w where "absent (view (ldb s)) name w"
      using rep by (auto simp: zset_rep_def zset_at_def coll_at_def)
    from zc.get_absent [OF this] obtain mv where "GetZSetMetaVal R s (encode_meta_key name) = (0, mv)" by blast
    then show ?thesis using True by (simp add: zget_def zsize_def)
  next
    case False
    then obtain v where at: "zset_at (view (ldb s)) name v z" using rep by (auto simp: zset_rep_def)
    note cur = zset_at_cur [OF at]
    from zmeta_cur [OF cur] obtain mv where mv: "GetZSetMetaVal R s (encode_meta_key name) = (1, mv)"
      "coll_meta (zitems z) v mv" "mv_version mv = v" using False by auto
    moreover have "db_Get R (ldb s) (encode_zset_key name key v) =
      (case z key of None \<Rightarrow> GetNotFound | Some x \<Rightarrow> GetOk (raw64 x))"
      by (simp add: Get_view zset_cur_item [OF cur] split: option.splits)
    ultimately show ?thesis using False
      by (auto simp: zget_def zsize_def coll_meta_def split: option.splits)
  qed
  then show "zget R s name key = (case z key of None \<Rightarrow> (0, 0) | Some x \<Rightarrow> (1, x))"
    "zsize R s name 0 = (if z = Map.empty then 0 else 1, word_of_nat (card (dom z)))" by blast+
qed

end

section \<open>An example store\<close>

text \<open>The set \<^verbatim>\<open>z\<close> with the members \<^verbatim>\<open>a\<close> (score 1) and \<^verbatim>\<open>b\<close> (score 2), and a reader of two texts.\<close>

abbreviation dbl_one :: u64 where "dbl_one \<equiv> 4607182418800017408"
abbreviation dbl_two :: u64 where "dbl_two \<equiv> 4611686018427387904"
abbreviation dbl_three :: u64 where "dbl_three \<equiv> 4613937818241073152"

definition zset_example :: "(bytes \<times> bytes) list ssdb" where
  "zset_example = empty_store\<lparr>ldb :=
     [(encode_meta_key [122], encode_zset_meta_val 2 0 KEY_ENABLED_MASK),
      (encode_zset_key [122] [97] 0, raw64 dbl_one), (encode_zscore_key [122] [97] dbl_one 0, []),
      (encode_zset_key [122] [98] 0, raw64 dbl_two), (encode_zscore_key [122] [98] dbl_two 0, [])]\<rparr>"

definition zset_example_map :: "bytes \<rightharpoonup> u64" where
  "zset_example_map = [[97] \<mapsto> dbl_one, [98] \<mapsto> dbl_two]"

definition digit_strtod :: strtod where
  "digit_strtod t =
     (if t = [49, 0] then (dbl_one, 1, E_NONE) else if t = [50, 0] then (dbl_two, 1, E_NONE)
      else if t = [51, 0] then (dbl_three, 1, E_NONE) else (0, 0, E_NONE))"

lemma digit_strtod_text:
  "score_text digit_strtod [49] dbl_one" "score_text digit_strtod [50] dbl_two" "score_text digit_strtod [51] dbl_three"
  by (simp_all add: score_text_def digit_strtod_def isnan_def dbl_mag_def)

lemma zset_example_map:
  "dom zset_example_map = {[97], [98]}" "card (dom zset_example_map) = 2" "zset_example_map \<noteq> Map.empty"
  "zset_example_map [97] = Some dbl_one" "zset_example_map [98] = Some dbl_two" "zset_example_map [99] = None"
proof -
  show "dom zset_example_map = {[97], [98]}" by (auto simp: zset_example_map_def)
  then show "card (dom zset_example_map) = 2" by simp
  show "zset_example_map \<noteq> Map.empty" by (simp add: zset_example_map_def)
qed (simp_all add: zset_example_map_def)

lemma zset_example_rep: "zset_rep (map_of (ldb zset_example)) [122] zset_example_map"
proof -
  let ?m = "map_of (ldb zset_example)"
  have "item_map [122] 0 ?m = zitems zset_example_map"
    by (auto simp: zset_example_def item_map_def encode_zset_key_def zscore_key_internal zitems_def
        zset_example_map_def fun_eq_iff)
  moreover have "score_map [122] 0 ?m = zindex zset_example_map"
    by (rule zindex_eqI)
      (auto simp: zset_example_def score_map_def encode_zset_key_def zscore_key_internal zset_example_map_def)
  ultimately show ?thesis
    using zset_example_map(1-3)
    by (auto simp: zset_rep_def zset_at_def coll_at_def zset_example_def encode_zset_meta_val_def
        zset_example_map_def isnan_def dbl_mag_def intro!: exI [of _ 0])
qed

section \<open>Properties\<close>

lemma long_text_as_zero:
  assumes "256 \<le> length t" "er \<noteq> E_INVAL" "score_text strtod t0 0"
  shows "multi_zset strtod er R s name [(f, t)] flags num = multi_zset strtod er R s name [(f, t0)] flags num"
proof -
  obtain er' where "str_to_double strtod er t0 = (0, er')" "er' \<noteq> E_INVAL" by (rule score_text_read [OF assms(3)])
  then have e: "zset_loop strtod R s chk name v flags [(f, t)] er ns a u b = zset_loop strtod R s chk name v flags [(f, t0)] er ns a u b"
    for chk v ns a u b using assms(2) long_text_score [OF assms(1), of strtod er] by (simp split: prod.split)
  show ?thesis unfolding multi_zset_def zsetNoLock_def e by simp
qed

text \<open>
  C34: Adding members. For a batch of distinct members with readable scores, \<open>multi_zset\<close>
  turns the stored set into the one that the flags prescribe (\<^verbatim>\<open>NX\<close>, \<^verbatim>\<open>XX\<close>), with the members,
  the score index and the counter in step, reports the members added (with \<^verbatim>\<open>CH\<close> also the
  changed ones), and touches no other key. A text of fewer than 256 bytes that is no score, because it starts with white space,
  \<^verbatim>\<open>strtod\<close> does not read all of it, or its value is out of range or not a number, stops the command with
  \<open>INVALID_DBL\<close> before anything is written. A text of 256 bytes or more, however, is not
  parsed at all: it counts as the score 0, whatever it says, unless \<^verbatim>\<open>errno\<close> happens to hold \<^verbatim>\<open>EINVAL\<close> from an earlier call.
\<close>

theorem zset_add_correct:
  assumes "rocksdb_healthy R view" "zset_rep (view (ldb s)) name z" "z = Map.empty \<longrightarrow> zfresh (view (ldb s)) name"
    and "flags AND ZADD_NX = 0 \<or> flags AND ZADD_XX = 0" "flags AND ZADD_INCR = 0"
    and "\<And>f t. (f, t) \<in> set kvs \<Longrightarrow> score_text strtod t (sc f)" "distinct (map fst kvs)"
    and "card (dom (zupdate flags sc z (map fst kvs))) < 2 ^ 63"
  shows "(\<exists>num' s'. multi_zset strtod er R s name kvs flags num =
        (if z = Map.empty \<and> num' = 0 then 0 else 1, num', s') \<and>
      num' = int (length (zadded flags sc z (map fst kvs))) +
        (if flags AND ZADD_CH \<noteq> 0 then int (length (zchanged flags sc z (map fst kvs))) else 0) \<and>
      zset_rep (view (ldb s')) name (zupdate flags sc z (map fst kvs)) \<and>
      touches_only name (view (ldb s)) (view (ldb s'))) \<and>
    (\<forall>t f kvs'. length t < 256 \<longrightarrow> (\<nexists>x. score_text strtod t x) \<longrightarrow>
      multi_zset strtod er R s name (kvs @ (f, t) # kvs') flags num = (INVALID_DBL, num, s)) \<and>
    (\<forall>t t0 f. 256 \<le> length t \<longrightarrow> er \<noteq> E_INVAL \<longrightarrow> score_text strtod t0 0 \<longrightarrow>
      multi_zset strtod er R s name [(f, t)] flags num = multi_zset strtod er R s name [(f, t0)] flags num)"
proof (intro conjI allI impI)
  show "\<exists>num' s'. multi_zset strtod er R s name kvs flags num =
        (if z = Map.empty \<and> num' = 0 then 0 else 1, num', s') \<and>
      num' = int (length (zadded flags sc z (map fst kvs))) +
        (if flags AND ZADD_CH \<noteq> 0 then int (length (zchanged flags sc z (map fst kvs))) else 0) \<and>
      zset_rep (view (ldb s')) name (zupdate flags sc z (map fst kvs)) \<and>
      touches_only name (view (ldb s)) (view (ldb s'))"
    unfolding multi_zset_def by (rule rocksdb_healthy.zsetNoLock_rep [OF assms])
  show "multi_zset strtod er R s name (kvs @ (f, t) # kvs') flags num = (INVALID_DBL, num, s)"
    if "length t < 256" "\<nexists>x. score_text strtod t x" for t f kvs'
    unfolding multi_zset_def
    by (rule rocksdb_healthy.zset_bad_score [OF assms(1-6)]) (use not_score_text [OF that] in simp_all)
qed (rule long_text_as_zero)

theorem zset_add_correct_witness:
  "(\<exists>s'. multi_zset digit_strtod E_NONE mem_rocksdb zset_example [122] [([97], [51]), ([99], [50])] ZADD_CH 0 = (1, 2, s') \<and>
     zset_rep (map_of (ldb s')) [122] (zset_example_map([97] \<mapsto> dbl_three, [99] \<mapsto> dbl_two))) \<and>
   multi_zset digit_strtod E_NONE mem_rocksdb zset_example [122] [([97], [51]), ([99], [50]), ([100], [120])] ZADD_CH 0 =
     (INVALID_DBL, 0, zset_example) \<and>
   multi_zset digit_strtod E_NONE mem_rocksdb zset_example [122] [([97], replicate 256 120)] ZADD_CH 0 =
     multi_zset digit_strtod E_NONE mem_rocksdb zset_example [122] [([97], [])] ZADD_CH 0"
proof -
  define sc :: "bytes \<Rightarrow> u64" where "sc f = (if f = [97] then dbl_three else dbl_two)" for f
  let ?kvs = "[([97], [51]), ([99 :: byte], [50 :: byte])]"
  have z: "zupdate ZADD_CH sc zset_example_map (map fst ?kvs) = zset_example_map([97] \<mapsto> dbl_three, [99] \<mapsto> dbl_two)"
    "length (zadded ZADD_CH sc zset_example_map (map fst ?kvs)) = 1"
    "length (zchanged ZADD_CH sc zset_example_map (map fst ?kvs)) = 1"
    by (auto simp: zupdate_def zadded_def zchanged_def zscore_def zadd_flags zset_example_map sc_def fun_eq_iff
        dbl_eq_def isnan_def dbl_mag_def dbl_key_def dbl_neg_def)
  have rd: "\<And>f t. (f, t) \<in> set ?kvs \<Longrightarrow> score_text digit_strtod t (sc f)"
    using digit_strtod_text by (auto simp: sc_def)
  have bad: "\<nexists>x. score_text digit_strtod [120] x" "score_text digit_strtod [] 0"
    by (simp_all add: score_text_def digit_strtod_def isnan_def dbl_mag_def)
  have d: "distinct (map fst ?kvs)" by simp
  have c: "card (dom (zupdate ZADD_CH sc zset_example_map (map fst ?kvs))) < 2 ^ 63"
    unfolding z by (simp add: zset_example_map card_insert_if)
  have f: "ZADD_CH AND ZADD_NX = 0 \<or> ZADD_CH AND ZADD_XX = 0" "ZADD_CH AND ZADD_INCR = 0" "ZADD_CH AND ZADD_CH \<noteq> 0"
    by (simp_all add: zadd_flags)
  have e: "zset_example_map = Map.empty \<longrightarrow> zfresh (map_of (ldb zset_example)) [122]" by (simp add: zset_example_map)
  note t = zset_add_correct [OF mem.rocksdb_healthy_axioms zset_example_rep e f(1,2) rd d c, where er = E_NONE and num = 0]
  from conjunct1 [OF t] have "\<exists>s'. multi_zset digit_strtod E_NONE mem_rocksdb zset_example [122] ?kvs ZADD_CH 0 = (1, 2, s') \<and>
     zset_rep (map_of (ldb s')) [122] (zset_example_map([97] \<mapsto> dbl_three, [99] \<mapsto> dbl_two))"
    using f(3) unfolding z by auto
  moreover from conjunct1 [OF conjunct2 [OF t], rule_format, of "[120]" "[100]" "[]"] bad(1) have
    "multi_zset digit_strtod E_NONE mem_rocksdb zset_example [122] (?kvs @ [([100], [120])]) ZADD_CH 0 = (INVALID_DBL, 0, zset_example)" by simp
  moreover have "256 \<le> length (replicate 256 (120 :: byte))" by simp
  with conjunct2 [OF conjunct2 [OF t]] bad(2) have
    "multi_zset digit_strtod E_NONE mem_rocksdb zset_example [122] [([97], replicate 256 120)] ZADD_CH 0 =
     multi_zset digit_strtod E_NONE mem_rocksdb zset_example [122] [([97], [])] ZADD_CH 0" by blast
  ultimately show ?thesis by simp
qed

text \<open>
  Removing members. \<open>multi_zdel\<close> removes exactly the given members with their index
  entries, reports how many were there, and deletes the key with its last member.
\<close>

theorem zset_rem_correct:
  assumes "rocksdb_healthy R view" "zset_rep (view (ldb s)) name z" "distinct fs"
  shows "\<exists>s'. multi_zdel R s name fs 0 =
      (if z |` (- set fs) = Map.empty then 0 else 1, int (length (filter (\<lambda>f. z f \<noteq> None) fs)), s') \<and>
    zset_rep (view (ldb s')) name (z |` (- set fs)) \<and> touches_only name (view (ldb s)) (view (ldb s'))"
  unfolding multi_zdel_def by (rule rocksdb_healthy.zdelNoLock_rep [OF assms])

theorem zset_rem_correct_witness:
  "\<exists>s'. multi_zdel mem_rocksdb zset_example [122] [[98], [99]] 0 = (1, 1, s') \<and>
     zset_rep (map_of (ldb s')) [122] (zset_example_map |` (- {[98], [99]}))"
proof -
  have "(zset_example_map |` (- {[98], [99]})) [97] \<noteq> None" by (simp add: zset_example_map)
  then have "zset_example_map |` (- {[98], [99]}) \<noteq> Map.empty" by force
  then show ?thesis
    using zset_rem_correct [OF mem.rocksdb_healthy_axioms zset_example_rep, of "[[98], [99]]"]
    by (auto simp: zset_example_map)
qed

text \<open>
  Incrementing a score. \<open>zincr\<close> with the flag \<^verbatim>\<open>INCR\<close> adds to the score of the member (a new
  member starts with the increment), returns the score it stores, and leaves everything
  alone when the increment or the sum is not a number. \<open>zget\<close> and \<open>zsize\<close> read the score
  and the number of members.
\<close>

theorem zset_incr_correct:
  assumes "rocksdb_healthy R view" "zset_rep (view (ldb s)) name z" "z = Map.empty \<longrightarrow> zfresh (view (ldb s)) name"
    "card (dom (z(key \<mapsto> x))) < 2 ^ 63"
  shows "(if zscore_ok ZADD_INCR x (z key)
    then \<exists>fl ns s'. zincr R s name key x ZADD_INCR d = (1, fl, ns, s') \<and>
      dbl_eq ns (the (zscore ZADD_INCR x (z key))) \<and>
      zset_rep (view (ldb s')) name (z(key := zscore ZADD_INCR x (z key))) \<and>
      touches_only name (view (ldb s)) (view (ldb s'))
    else zincr R s name key x ZADD_INCR d = (NAN_SCORE, ZADD_NAN, d, s)) \<and>
    zget R s name key = (case z key of None \<Rightarrow> (0, 0) | Some x \<Rightarrow> (1, x)) \<and>
    zsize R s name 0 = (if z = Map.empty then 0 else 1, word_of_nat (card (dom z)))"
  using rocksdb_healthy.zincr_rep [OF assms(1-3) _ assms(4), of d] rocksdb_healthy.zincr_nan [OF assms(1-3), of x key d]
    rocksdb_healthy.zread_rep [OF assms(1,2)] by simp

theorem zset_incr_correct_witness:
  "(\<exists>fl ns s'. zincr mem_rocksdb zset_example [122] [97] dbl_one ZADD_INCR 0 = (1, fl, ns, s') \<and> dbl_eq ns dbl_two \<and>
      zset_rep (map_of (ldb s')) [122] (zset_example_map([97] \<mapsto> dbl_two))) \<and>
   zget mem_rocksdb zset_example [122] [97] = (1, dbl_one) \<and> zsize mem_rocksdb zset_example [122] 0 = (1, 2)"
proof -
  have add: "dbl_add dbl_one dbl_one = dbl_two"
    by (rule dbl_add_exact) (simp_all add: dbl_mag_def dbl_int_def dbl_neg_def dbl_units_def Let_def)
  have sc: "zscore ZADD_INCR dbl_one (zset_example_map [97]) = Some dbl_two"
    by (simp add: zscore_def zset_example_map zadd_flags add dbl_eq_def isnan_def dbl_mag_def dbl_key_def dbl_neg_def)
  have ok: "zscore_ok ZADD_INCR dbl_one (zset_example_map [97])"
    by (simp add: zscore_ok_def zset_example_map add isnan_def dbl_mag_def)
  have e: "zset_example_map = Map.empty \<longrightarrow> zfresh (map_of (ldb zset_example)) [122]"
    "card (dom (zset_example_map([97] \<mapsto> dbl_one))) < 2 ^ 63" by (simp_all add: zset_example_map insert_absorb)
  from conjunct1 [OF zset_incr_correct [OF mem.rocksdb_healthy_axioms zset_example_rep e, of 0]] ok sc
  obtain fl ns s' where "zincr mem_rocksdb zset_example [122] [97] dbl_one ZADD_INCR 0 = (1, fl, ns, s')"
    "dbl_eq ns dbl_two" "zset_rep (map_of (ldb s')) [122] (zset_example_map([97] \<mapsto> dbl_two))" by auto
  then show ?thesis
    using conjunct2 [OF zset_incr_correct [OF mem.rocksdb_healthy_axioms zset_example_rep e, of 0]]
    by (simp add: zset_example_map)
qed

end
