(* ===== verification/ZRange.thy ===== *)
theory ZRange
  imports TZset Strings
begin

unbundle bit_operations_syntax

text \<open>
  Sorted sets: ranks and ranges by position and by score (\<^verbatim>\<open>src/src/storage/t_zset.cpp\<close>),
  read from the score index with a forward or a backward iterator. The abstract value is
  \<open>zlist z\<close>, the members in the order of their scores and, for equal scores, of their names;
  every command is proved to return the part of that list it promises. The formatting of a
  double (\<^verbatim>\<open>snprintf\<close> with \<^verbatim>\<open>%.17Lg\<close>) and \<^verbatim>\<open>strtod\<close> are parameters.
\<close>

section \<open>Operations\<close>

definition INVALID_MIN_MAX_DBL :: int where "INVALID_MIN_MAX_DBL = -24"

text \<open>\<^verbatim>\<open>eps\<close> is the double nearest to 1e-15; the two quiet NaNs bound all scores.\<close>

definition eps :: u64 where "eps = 4382569440205035030"

abbreviation quiet_NaN :: u64 where "quiet_NaN \<equiv> 9221120237041090560"
abbreviation minus_quiet_NaN :: u64 where "minus_quiet_NaN \<equiv> 18444492273895866368"

type_synonym dformat = "u64 \<Rightarrow> bytes"

definition ld2string :: "dformat \<Rightarrow> nat \<Rightarrow> u64 \<Rightarrow> bytes" where
  "ld2string fmt len d =
     (if isinf d then
        if len < 5 then [] else if dbl_less 0 d then [105, 110, 102] else [45, 105, 110, 102]
      else let l = fmt d in if length l + 1 > len then [] else l)"

definition str_double :: "dformat \<Rightarrow> u64 \<Rightarrow> bytes" where
  "str_double fmt d = ld2string fmt 128 d"

text \<open>\<^verbatim>\<open>Bytes::Double\<close>; it does not look at \<^verbatim>\<open>errno\<close>.\<close>

definition Bytes_Double :: "strtod \<Rightarrow> bytes \<Rightarrow> u64" where
  "Bytes_Double strtod t = fst (str_to_double strtod E_NONE t)"

definition SSDB_rev_iterator :: "('db, 'it) rocksdb \<Rightarrow> 'db \<Rightarrow> bytes \<Rightarrow> bytes \<Rightarrow> u64 \<Rightarrow> 'it Iterator" where
  "SSDB_rev_iterator R db start end limit =
     (let it = it_Seek R (db_NewIterator R db) start;
          it = (if \<not> it_Valid R it then it_SeekToLast R it
                else if take (length start) (it_key R it) \<noteq> start then it_Prev R it else it)
      in Iterator_init it end limit BACKWARD)"

lemma ZIterator_next_limit:
  "ZIterator_next R h = (True, h') \<Longrightarrow> unat (iter_limit (z_it h')) < unat (iter_limit (z_it h))"
proof (induction R h rule: ZIterator_next.induct)
  case (1 R h)
  obtain ok i where n: "Iterator_next R (z_it h) = (ok, i)" by force
  with 1(2) have ok: "ok" by (cases ok) (auto simp: ZIterator_next.simps [of R h])
  have lim: "unat (iter_limit i) < unat (iter_limit (z_it h))"
    using n ok Iterator_next_limit [of R "z_it h" i] by simp
  from 1 n ok lim show ?case
    by (fastforce simp: ZIterator_next.simps [of R h] Let_def split: if_splits option.splits)
qed

lemmas ZIterator_next_limit' = ZIterator_next_limit [OF sym]

function ZIterator_skip :: "('db, 'it) rocksdb \<Rightarrow> u64 \<Rightarrow> 'it ZIterator \<Rightarrow> bool \<times> 'it ZIterator" where
  "ZIterator_skip R offset z =
     (if offset > 0 then
        (case ZIterator_next R z of
           (False, z) \<Rightarrow> (False, z)
         | (True, z) \<Rightarrow> ZIterator_skip R (offset - 1) z)
      else (True, z))"
  by pat_completeness auto
termination
  by (relation "measure (\<lambda>(R, offset, z). unat offset)") (auto simp: unat_minus_one unat_gt_0 word_neq_0_conv)

definition zscan_internal ::
  "strtod \<Rightarrow> ('db, 'it) rocksdb \<Rightarrow> 'db ssdb \<Rightarrow> bytes \<Rightarrow> bytes \<Rightarrow> bytes \<Rightarrow> u64 \<Rightarrow> Direction \<Rightarrow> u16 \<Rightarrow> 'it ZIterator" where
  "zscan_internal strtod R s name score_start score_end limit direction version =
     (if direction = FORWARD then
        let start = encode_zscore_key name []
              (if score_start = [] then minus_quiet_NaN else Bytes_Double strtod score_start) version;
            end = encode_zscore_key name []
              (if score_end = [] then quiet_NaN else Bytes_Double strtod score_end) version
        in ZIterator_init (SSDB_iterator R (ldb s) start end limit) name version
      else
        let start = encode_zscore_key name []
              (if score_start = [] then quiet_NaN else Bytes_Double strtod score_start) version;
            end = encode_zscore_key name []
              (if score_end = [] then minus_quiet_NaN else Bytes_Double strtod score_end) version
        in ZIterator_init (SSDB_rev_iterator R (ldb s) start end limit) name version)"

function zrank_loop :: "('db, 'it) rocksdb \<Rightarrow> bytes \<Rightarrow> 'it ZIterator \<Rightarrow> u64 \<Rightarrow> bool \<times> u64" where
  "zrank_loop R key it ret =
     (case ZIterator_next R it of
        (False, it) \<Rightarrow> (False, ret)
      | (True, it) \<Rightarrow> if key = z_key it then (True, ret) else zrank_loop R key it (ret + 1))"
  by pat_completeness auto
termination
  by (relation "measure (\<lambda>(R, key, it, ret). unat (iter_limit (z_it it)))") (auto dest: ZIterator_next_limit')

definition INT_MAX :: u64 where "INT_MAX = 2147483647"

definition zrank_dir ::
  "strtod \<Rightarrow> ('db, 'it) rocksdb \<Rightarrow> 'db ssdb \<Rightarrow> bytes \<Rightarrow> bytes \<Rightarrow> int \<Rightarrow> Direction \<Rightarrow> int \<times> int" where
  "zrank_dir strtod R s name key rank dir =
     (case GetZSetMetaVal R s (encode_meta_key name) of (ret, zv) \<Rightarrow>
        if ret \<noteq> 1 then (ret, rank)
        else
          (case zrank_loop R key (zscan_internal strtod R s name [] [] INT_MAX dir (mv_version zv)) 0 of
             (found, ret) \<Rightarrow> (1, if found then sint ret else -1)))"

definition zrank :: "strtod \<Rightarrow> ('db, 'it) rocksdb \<Rightarrow> 'db ssdb \<Rightarrow> bytes \<Rightarrow> bytes \<Rightarrow> int \<Rightarrow> int \<times> int" where
  "zrank strtod R s name key rank = zrank_dir strtod R s name key rank FORWARD"

definition zrrank :: "strtod \<Rightarrow> ('db, 'it) rocksdb \<Rightarrow> 'db ssdb \<Rightarrow> bytes \<Rightarrow> bytes \<Rightarrow> int \<Rightarrow> int \<times> int" where
  "zrrank strtod R s name key rank = zrank_dir strtod R s name key rank BACKWARD"

definition key_score :: "dformat \<Rightarrow> bool \<Rightarrow> bytes \<times> u64 \<Rightarrow> bytes list" where
  "key_score fmt withscore = (\<lambda>(key, score). if withscore then [key, str_double fmt score] else [key])"

function zrange_loop :: "dformat \<Rightarrow> ('db, 'it) rocksdb \<Rightarrow> bool \<Rightarrow> 'it ZIterator \<Rightarrow> bytes list \<Rightarrow> bytes list" where
  "zrange_loop fmt R withscore it acc =
     (case ZIterator_next R it of
        (False, it) \<Rightarrow> acc
      | (True, it) \<Rightarrow> zrange_loop fmt R withscore it (acc @ key_score fmt withscore (z_key it, z_score it)))"
  by pat_completeness auto
termination
  by (relation "measure (\<lambda>(fmt, R, w, it, acc). unat (iter_limit (z_it it)))") (auto dest: ZIterator_next_limit')

text \<open>\<^verbatim>\<open>(int) zv.length\<close> keeps 32 bits of the length, read as a signed number.\<close>

definition zrangeGeneric ::
  "strtod \<Rightarrow> dformat \<Rightarrow> ('db, 'it) rocksdb \<Rightarrow> 'db ssdb \<Rightarrow> bytes \<Rightarrow> bytes \<Rightarrow> bytes \<Rightarrow> bool \<Rightarrow> bool \<Rightarrow> int \<times> bytes list" where
  "zrangeGeneric strtod fmt R s name begin limit withscore reverse =
     (case string2ll begin of
        None \<Rightarrow> (INVALID_INT, [])
      | Some start \<Rightarrow>
          (case string2ll limit of
             None \<Rightarrow> (INVALID_INT, [])
           | Some end \<Rightarrow>
               (case GetZSetMetaVal R s (encode_meta_key name) of (ret, zv) \<Rightarrow>
                  if ret \<le> 0 then (ret, [])
                  else
                    let llen = sint (ucast (mv_length zv) :: 32 word);
                        start = (if start < 0 then llen + start else start);
                        end = (if end < 0 then llen + end else end);
                        start = (if start < 0 then 0 else start)
                    in if start > end \<or> start \<ge> llen then (1, [])
                       else
                         let end = (if end \<ge> llen then llen - 1 else end);
                             it = zscan_internal strtod R s name [] [] (word_of_int (end + 1))
                               (if reverse then BACKWARD else FORWARD) (mv_version zv);
                             (_, it) = ZIterator_skip R (word_of_int start) it
                         in (1, zrange_loop fmt R withscore it []))))"

definition zrange ::
  "strtod \<Rightarrow> dformat \<Rightarrow> ('db, 'it) rocksdb \<Rightarrow> 'db ssdb \<Rightarrow> bytes \<Rightarrow> bytes \<Rightarrow> bytes \<Rightarrow> bool \<Rightarrow> int \<times> bytes list" where
  "zrange strtod fmt R s name begin limit withscore = zrangeGeneric strtod fmt R s name begin limit withscore False"

definition zrrange ::
  "strtod \<Rightarrow> dformat \<Rightarrow> ('db, 'it) rocksdb \<Rightarrow> 'db ssdb \<Rightarrow> bytes \<Rightarrow> bytes \<Rightarrow> bytes \<Rightarrow> bool \<Rightarrow> int \<times> bytes list" where
  "zrrange strtod fmt R s name begin limit withscore = zrangeGeneric strtod fmt R s name begin limit withscore True"

record zrangespec =
  zr_min :: u64
  zr_max :: u64
  zr_minex :: bool
  zr_maxex :: bool

text \<open>One bound: \<^verbatim>\<open>(\<close> opens the interval; the byte after the text is 0.\<close>

definition zslParseBound :: "strtod \<Rightarrow> int \<Rightarrow> bytes \<Rightarrow> int + u64 \<times> bool" where
  "zslParseBound strtod open_nan t =
     (let buf = t @ [0] in
      if buf ! 0 = 40 then
        (case strtod (drop 1 buf) of (val, n, er) \<Rightarrow>
           if isnan val then Inl open_nan
           else if drop 1 buf ! n \<noteq> 0 then Inl INVALID_MIN_MAX_DBL else Inr (val, True))
      else
        (case strtod buf of (val, n, er) \<Rightarrow>
           if isnan val then Inl INVALID_MIN_MAX_DBL
           else if buf ! n \<noteq> 0 then Inl INVALID_MIN_MAX_DBL else Inr (val, False)))"

definition zslParseRange :: "strtod \<Rightarrow> bytes \<Rightarrow> bytes \<Rightarrow> int + zrangespec" where
  "zslParseRange strtod lo hi =
     (case zslParseBound strtod NAN_SCORE lo of
        Inl e \<Rightarrow> Inl e
      | Inr (mn, minex) \<Rightarrow>
          (case zslParseBound strtod INVALID_MIN_MAX_DBL hi of
             Inl e \<Rightarrow> Inl e
           | Inr (mx, maxex) \<Rightarrow> Inr \<lparr>zr_min = mn, zr_max = mx, zr_minex = minex, zr_maxex = maxex\<rparr>))"

definition zslValueGteMin :: "u64 \<Rightarrow> zrangespec \<Rightarrow> bool" where
  "zslValueGteMin val spec = (if zr_minex spec then dbl_less (zr_min spec) val else dbl_le (zr_min spec) val)"

definition zslValueLteMax :: "u64 \<Rightarrow> zrangespec \<Rightarrow> bool" where
  "zslValueLteMax val spec = (if zr_maxex spec then dbl_less val (zr_max spec) else dbl_le val (zr_max spec))"

text \<open>The loops over the scan; \<open>limit\<close> counts down from a negative number for ever.\<close>

function zrangebyscore_loop ::
  "dformat \<Rightarrow> ('db, 'it) rocksdb \<Rightarrow> zrangespec \<Rightarrow> bool \<Rightarrow> bool \<Rightarrow> 'it ZIterator \<Rightarrow> int \<Rightarrow> int \<Rightarrow> bytes list \<Rightarrow> bytes list" where
  "zrangebyscore_loop fmt R spec reverse withscores it offset limit acc =
     (case ZIterator_next R it of
        (False, it) \<Rightarrow> acc
      | (True, it) \<Rightarrow>
          if (if reverse then \<not> zslValueLteMax (z_score it) spec else \<not> zslValueGteMin (z_score it) spec)
          then zrangebyscore_loop fmt R spec reverse withscores it offset limit acc
          else if (if reverse then \<not> zslValueGteMin (z_score it) spec else \<not> zslValueLteMax (z_score it) spec)
          then acc
          else if offset = 0 then
            if limit \<noteq> 0 then
              zrangebyscore_loop fmt R spec reverse withscores it offset (limit - 1)
                (acc @ key_score fmt withscores (z_key it, z_score it))
            else acc
          else zrangebyscore_loop fmt R spec reverse withscores it (offset - 1) limit acc)"
  by pat_completeness auto
termination
  by (relation "measure (\<lambda>(fmt, R, r, d, w, it, a). unat (iter_limit (z_it it)))") (auto dest: ZIterator_next_limit')

definition genericZrangebyscore ::
  "strtod \<Rightarrow> dformat \<Rightarrow> ('db, 'it) rocksdb \<Rightarrow> 'db ssdb \<Rightarrow> bytes \<Rightarrow> bytes \<Rightarrow> bytes \<Rightarrow> bool \<Rightarrow> int \<Rightarrow> int \<Rightarrow> bool \<Rightarrow>
     int \<times> bytes list" where
  "genericZrangebyscore strtod fmt R s name start_score end_score withscores offset limit reverse =
     (case (if reverse then zslParseRange strtod end_score start_score
            else zslParseRange strtod start_score end_score) of
        Inl e \<Rightarrow> (e, [])
      | Inr spec \<Rightarrow>
          let (score_start, score_end) =
            (if reverse then
               (str_double fmt (dbl_add (zr_max spec) eps), str_double fmt (dbl_sub (zr_min spec) eps))
             else
               (str_double fmt (dbl_sub (zr_min spec) eps),
                if isinf (zr_max spec) then [] else str_double fmt (dbl_add (zr_max spec) eps)))
          in case GetZSetMetaVal R s (encode_meta_key name) of (ret, zv) \<Rightarrow>
               if ret \<le> 0 then (ret, [])
               else
                 let it = zscan_internal strtod R s name score_start score_end UINT64_MAX
                            (if reverse then BACKWARD else FORWARD) (mv_version zv)
                 in (1, zrangebyscore_loop fmt R spec reverse withscores it offset limit []))"

definition zrangebyscore ::
  "strtod \<Rightarrow> dformat \<Rightarrow> ('db, 'it) rocksdb \<Rightarrow> 'db ssdb \<Rightarrow> bytes \<Rightarrow> bytes \<Rightarrow> bytes \<Rightarrow> bool \<Rightarrow> int \<Rightarrow> int \<Rightarrow> int \<times> bytes list" where
  "zrangebyscore strtod fmt R s name start_score end_score withscores offset limit =
     genericZrangebyscore strtod fmt R s name start_score end_score withscores offset limit False"

definition zrevrangebyscore ::
  "strtod \<Rightarrow> dformat \<Rightarrow> ('db, 'it) rocksdb \<Rightarrow> 'db ssdb \<Rightarrow> bytes \<Rightarrow> bytes \<Rightarrow> bytes \<Rightarrow> bool \<Rightarrow> int \<Rightarrow> int \<Rightarrow> int \<times> bytes list" where
  "zrevrangebyscore strtod fmt R s name start_score end_score withscores offset limit =
     genericZrangebyscore strtod fmt R s name start_score end_score withscores offset limit True"

function zremrangebyscore_loop ::
  "('db, 'it) rocksdb \<Rightarrow> 'db ssdb \<Rightarrow> bytes \<Rightarrow> zrangespec \<Rightarrow> bool \<Rightarrow> 'it ZIterator \<Rightarrow> int \<Rightarrow> batch \<Rightarrow> int \<times> int \<times> batch" where
  "zremrangebyscore_loop R s name spec remove it count batch =
     (case ZIterator_next R it of
        (False, it) \<Rightarrow> (1, count, batch)
      | (True, it) \<Rightarrow>
          if \<not> zslValueGteMin (z_score it) spec
          then zremrangebyscore_loop R s name spec remove it count batch
          else if \<not> zslValueLteMax (z_score it) spec then (1, count, batch)
          else
            (case (if remove then zdel_one R s batch name (z_key it) (z_version it) else (0, batch)) of
               (dret, batch) \<Rightarrow>
                 if dret < 0 then (dret, count, batch)
                 else zremrangebyscore_loop R s name spec remove it (count + 1) batch))"
  by pat_completeness auto
termination
  by (relation "measure (\<lambda>(R, s, n, r, rm, it, a). unat (iter_limit (z_it it)))") (auto dest: ZIterator_next_limit')

definition zremrangebyscore ::
  "strtod \<Rightarrow> dformat \<Rightarrow> ('db, 'it) rocksdb \<Rightarrow> 'db ssdb \<Rightarrow> bytes \<Rightarrow> bytes \<Rightarrow> bytes \<Rightarrow> bool \<Rightarrow> int \<Rightarrow> int \<times> int \<times> 'db ssdb" where
  "zremrangebyscore strtod fmt R s name score_start score_end remove count =
     (case zslParseRange strtod score_start score_end of
        Inl e \<Rightarrow> (e, count, s)
      | Inr spec \<Rightarrow>
          let start_score = str_double fmt (dbl_sub (zr_min spec) eps);
              end_score = str_double fmt (dbl_add (zr_max spec) eps)
          in case GetZSetMetaVal R s (encode_meta_key name) of (ret, zv) \<Rightarrow>
               if ret \<le> 0 then (ret, count, s)
               else
                 let it = zscan_internal strtod R s name start_score end_score UINT64_MAX FORWARD (mv_version zv)
                 in case zremrangebyscore_loop R s name spec remove it count [] of (ret, count, batch) \<Rightarrow>
                      if ret < 0 then (ret, count, s)
                      else if remove then
                        (case commit_incr R (incr_zsize R s name batch zv (-1 * count)) of
                           (ret, s) \<Rightarrow> (ret, count, s))
                      else (1, count, s))"

lemmas zloops [simp del] = ZIterator_skip.simps zrank_loop.simps zrange_loop.simps
  zrangebyscore_loop.simps zremrangebyscore_loop.simps

section \<open>The list of members\<close>

text \<open>The members in the order of the index, and that order on members and scores.\<close>

definition field_entry :: "bytes \<Rightarrow> bytes \<times> u64" where
  "field_entry g = (drop 8 g, decodeScore (be64toh (load64 g)))"

definition zlist :: "(bytes \<rightharpoonup> u64) \<Rightarrow> (bytes \<times> u64) list" where
  "zlist z = map field_entry (sorted_list_of_set (dom (zindex z)))"

definition zbefore :: "bytes \<times> u64 \<Rightarrow> bytes \<times> u64 \<Rightarrow> bool" where
  "zbefore a b \<longleftrightarrow> score_less (snd a) (snd b) \<or> snd a = snd b \<and> fst a < fst b"

lemma field_entry_score [simp]: "field_entry (score_field x f) = (f, x)"
  by (simp add: field_entry_def score_field_def decode_encodeScore)

lemma score_field_less: "score_field x f < score_field y g \<longleftrightarrow> zbefore (f, x) (g, y)"
  by (simp add: score_field_def raw64_append_less encodeScore_less zbefore_def)

lemma dom_zindex: "dom (zindex z) = (\<lambda>f. score_field (the (z f)) f) ` dom z"
  by (auto simp: zindex_def image_iff dom_def split: if_splits)

lemma finite_dom_zindex: "finite (dom z) \<Longrightarrow> finite (dom (zindex z))"
  by (simp add: dom_zindex)

text \<open>\<open>zlist\<close> holds each member with its score once, in ascending order.\<close>

lemma zlist_facts:
  assumes "finite (dom z)"
  shows "set (zlist z) = {(f, x). z f = Some x}" "sorted_wrt zbefore (zlist z)" "distinct (map fst (zlist z))"
    "length (zlist z) = card (dom z)"
proof -
  let ?gs = "sorted_list_of_set (dom (zindex z))"
  have gs: "g \<in> set ?gs \<longleftrightarrow> (\<exists>f x. z f = Some x \<and> g = score_field x f)" for g
    unfolding set_sorted_list_of_set [OF finite_dom_zindex [OF assms]] by (auto simp: zindex_def split: if_splits)
  show set: "set (zlist z) = {(f, x). z f = Some x}"
  proof (intro set_eqI iffI)
    fix e
    assume "e \<in> set (zlist z)"
    then obtain g where "g \<in> set ?gs" "e = field_entry g" by (auto simp: zlist_def)
    then show "e \<in> {(f, x). z f = Some x}" unfolding gs by auto
  next
    fix e
    assume "e \<in> {(f, x). z f = Some x}"
    then obtain f x where "e = (f, x)" "z f = Some x" by auto
    then have "score_field x f \<in> set ?gs" "e = field_entry (score_field x f)" unfolding gs by auto
    then show "e \<in> set (zlist z)" unfolding zlist_def set_map by blast
  qed
  have "sorted_wrt (\<lambda>a b. zbefore (field_entry a) (field_entry b)) ?gs"
    by (rule sorted_wrt_mono_rel [of _ "(<)"]) (auto simp: gs score_field_less)
  then show "sorted_wrt zbefore (zlist z)" by (simp add: zlist_def sorted_wrt_map)
  have "inj_on (\<lambda>f. score_field (the (z f)) f) (dom z)" by (auto simp: inj_on_def)
  then show len: "length (zlist z) = card (dom z)" by (simp add: zlist_def dom_zindex card_image)
  have "fst ` set (zlist z) = dom z" unfolding set by (auto simp: image_iff)
  then show "distinct (map fst (zlist z))" using len by (intro card_distinct) simp
qed

section \<open>What the scans yield\<close>

fun zscore_scan :: "bytes \<Rightarrow> u16 \<Rightarrow> (bytes \<times> bytes) list \<Rightarrow> (bytes \<times> u64) list" where
  "zscore_scan name v [] = []"
| "zscore_scan name v ((k, x) # es) =
     (case DecodeZScoreItemKey k of
        None \<Rightarrow> zscore_scan name v es
      | Some zk \<Rightarrow>
          if zk_key zk = name \<and> zk_version zk = v then (zk_field zk, zk_score zk) # zscore_scan name v es
          else [])"

text \<open>The iterator \<open>it\<close> has the members \<open>xs\<close> still to come.\<close>

definition z_pending ::
  "Direction \<Rightarrow> ('it \<Rightarrow> (bytes \<times> bytes) list) \<Rightarrow> bytes \<Rightarrow> u16 \<Rightarrow> 'it ZIterator \<Rightarrow> (bytes \<times> u64) list \<Rightarrow> bool" where
  "z_pending d lst name v it xs \<longleftrightarrow> z_name it = name \<and> z_version it = v \<and>
     (\<exists>es. yields d lst (z_it it) es \<and> zscore_scan name v es = xs)"

text \<open>What the loops over a range keep of a scan, and the page of it they return.\<close>

fun range_scan :: "('a \<Rightarrow> bool) \<Rightarrow> ('a \<Rightarrow> bool) \<Rightarrow> 'a list \<Rightarrow> 'a list" where
  "range_scan P Q [] = []"
| "range_scan P Q (x # xs) = (if \<not> P x then range_scan P Q xs else if \<not> Q x then [] else x # range_scan P Q xs)"

definition page :: "int \<Rightarrow> int \<Rightarrow> 'a list \<Rightarrow> 'a list" where
  "page offset limit xs =
     (if offset < 0 then [] else let ys = drop (nat offset) xs in if limit < 0 then ys else take (nat limit) ys)"

lemma page_Nil [simp]: "page offset limit [] = []"
  by (simp add: page_def)

lemma page_Cons:
  "page offset limit (x # xs) =
    (if offset = 0 then if limit = 0 then [] else x # page 0 (limit - 1) xs else page (offset - 1) limit xs)"
proof (cases "offset \<le> 0")
  case True
  have "nat limit = Suc (nat (limit - 1))" if "0 < limit" using that by simp
  then show ?thesis using True by (auto simp: page_def)
next
  case False
  then have "nat offset = Suc (nat (offset - 1))" by simp
  then show ?thesis using False by (simp add: page_def)
qed

lemma page_subset: "set (page offset limit xs) \<subseteq> set xs"
  using subset_trans [OF set_take_subset [of "nat limit" "drop (nat offset) xs"] set_drop_subset [of "nat offset" xs]]
    set_drop_subset [of "nat offset" xs] by (simp add: page_def Let_def)

lemma range_scan_filter:
  assumes "sorted_wrt (\<lambda>x y. Q y \<longrightarrow> Q x) xs"
  shows "range_scan P Q xs = filter (\<lambda>x. P x \<and> Q x) xs"
  using assms by (induction xs) (auto simp: filter_empty_conv)

context iter_walk
begin

lemma z_next:
  assumes "z_pending d lst name v it xs"
  shows "case xs of [] \<Rightarrow> \<exists>it'. ZIterator_next R it = (False, it')
    | (f, x) # r \<Rightarrow> \<exists>it'. ZIterator_next R it = (True, it') \<and> z_key it' = f \<and> z_score it' = x \<and>
        z_version it' = v \<and> z_pending d lst name v it' r"
proof -
  from assms obtain es where es: "z_name it = name" "z_version it = v" "yields d lst (z_it it) es"
    "xs = zscore_scan name v es" by (auto simp: z_pending_def)
  then show ?thesis
  proof (induction es arbitrary: it)
    case Nil
    then show ?case
      using next_yields_Nil [of "z_it it"] by (auto simp: ZIterator_next.simps [of R it])
  next
    case (Cons e es)
    obtain k x where e: "e = (k, x)" by force
    from next_yields_Cons [OF Cons.prems(3)] obtain i' where
      i': "Iterator_next R (z_it it) = (True, i')" "yields d lst i' es" "Iterator_key R i' = k" by (auto simp: e)
    show ?case
    proof (cases "DecodeZScoreItemKey k")
      case None
      with i' have "ZIterator_next R it = ZIterator_next R (it\<lparr>z_it := i'\<rparr>)"
        by (simp add: ZIterator_next.simps [of R it] Let_def)
      then show ?thesis using Cons.IH [of "it\<lparr>z_it := i'\<rparr>"] Cons.prems i' None
        by (simp add: e split: list.splits prod.splits)
    next
      case (Some zk)
      then show ?thesis using i' Cons.prems
        by (auto simp: ZIterator_next.simps [of R it] Let_def e z_pending_def)
    qed
  qed
qed

lemma z_next_Nil: "z_pending d lst name v it [] \<Longrightarrow> \<exists>it'. ZIterator_next R it = (False, it')"
  using z_next [of name v it "[]"] by simp

lemma z_next_Cons:
  assumes "z_pending d lst name v it ((f, x) # xs)"
  obtains it' where "ZIterator_next R it = (True, it')" "z_key it' = f" "z_score it' = x"
    "z_version it' = v" "z_pending d lst name v it' xs"
  using z_next [OF assms] by auto

lemma zrank_loop_scan:
  assumes "z_pending d lst name v it xs"
  shows "zrank_loop R key it n =
    (key \<in> fst ` set xs, n + word_of_nat (length (takeWhile (\<lambda>e. fst e \<noteq> key) xs)))"
  using assms
proof (induction xs arbitrary: it n)
  case Nil
  then show ?case using z_next_Nil [OF Nil] by (auto simp: zrank_loop.simps [of R key it])
next
  case (Cons e xs)
  obtain f x where e: "e = (f, x)" by force
  from z_next_Cons [OF Cons.prems [unfolded e]] obtain it' where
    "ZIterator_next R it = (True, it')" "z_key it' = f" "z_pending d lst name v it' xs" .
  with Cons.IH [of it' "n + 1"] show ?case by (auto simp: zrank_loop.simps [of R key it] e)
qed

lemma ZIterator_skip_scan:
  assumes "z_pending d lst name v it xs" "unat n \<le> length xs"
  shows "\<exists>it'. ZIterator_skip R n it = (True, it') \<and> z_pending d lst name v it' (drop (unat n) xs)"
  using assms
proof (induction xs arbitrary: it n)
  case Nil
  then show ?case by (simp add: ZIterator_skip.simps [of R 0] unat_eq_0)
next
  case (Cons e xs)
  show ?case
  proof (cases "n = 0")
    case True
    then show ?thesis using Cons.prems by (simp add: ZIterator_skip.simps [of R 0])
  next
    case False
    obtain f x where e: "e = (f, x)" by force
    from z_next_Cons [OF Cons.prems(1) [unfolded e]] obtain it' where
      it': "ZIterator_next R it = (True, it')" "z_pending d lst name v it' xs" by metis
    have u: "unat n = Suc (unat (n - 1))" using False by (simp add: unat_minus_one unat_gt_0)
    then show ?thesis
      using Cons.IH [OF it'(2), of "n - 1"] Cons.prems(2) it'(1) False
      by (simp add: ZIterator_skip.simps [of R n it] word_neq_0_conv)
  qed
qed

lemma zrange_loop_scan:
  assumes "z_pending d lst name v it xs"
  shows "zrange_loop fmt R w it acc = acc @ concat (map (key_score fmt w) xs)"
  using assms
proof (induction xs arbitrary: it acc)
  case Nil
  then show ?case using z_next_Nil [OF Nil] by (auto simp: zrange_loop.simps [of fmt R w it])
next
  case (Cons e xs)
  obtain f x where e: "e = (f, x)" by force
  from z_next_Cons [OF Cons.prems [unfolded e]] obtain it' where
    "ZIterator_next R it = (True, it')" "z_key it' = f" "z_score it' = x" "z_pending d lst name v it' xs" .
  with Cons.IH [of it'] show ?case by (simp add: zrange_loop.simps [of fmt R w it] e)
qed

lemma zrangebyscore_loop_scan:
  assumes "z_pending d lst name v it xs"
  shows "zrangebyscore_loop fmt R spec rv w it offset limit acc =
    acc @ concat (map (key_score fmt w) (page offset limit (range_scan
      (\<lambda>e. if rv then zslValueLteMax (snd e) spec else zslValueGteMin (snd e) spec)
      (\<lambda>e. if rv then zslValueGteMin (snd e) spec else zslValueLteMax (snd e) spec) xs)))"
  using assms
proof (induction xs arbitrary: it offset limit acc)
  case Nil
  then show ?case using z_next_Nil [OF Nil] by (auto simp: zrangebyscore_loop.simps [of fmt R spec rv w it])
next
  case (Cons e xs)
  obtain f x where e: "e = (f, x)" by force
  from z_next_Cons [OF Cons.prems [unfolded e]] obtain it' where
    it': "ZIterator_next R it = (True, it')" "z_key it' = f" "z_score it' = x" "z_pending d lst name v it' xs" .
  note IH = Cons.IH [OF it'(4)]
  show ?case using it'(1-3) IH
    by (cases rv) (simp_all add: zrangebyscore_loop.simps [of fmt R spec _ w it] e page_Cons)
qed

end

text \<open>The keys of a sorted set's index form an interval.\<close>

lemma prefix_interval: "p @ a \<le> k \<Longrightarrow> k \<le> p @ b \<Longrightarrow> prefix p (k :: bytes)"
  by (metis lex_above_prefix lex_prefix_le leD order_trans)

lemma filter_strip_prefix:
  assumes "finite D" "\<And>k. k \<in> D \<Longrightarrow> P k \<Longrightarrow> prefix p k"
  shows "filter P (sorted_list_of_set D) = map ((@) p) (filter (\<lambda>g. P (p @ g)) (sorted_list_of_set {g. p @ g \<in> (D :: bytes set)}))"
proof -
  have "filter P (sorted_list_of_set D) = filter P (filter (prefix p) (sorted_list_of_set D))"
    using assms by (auto intro: filter_cong)
  also have "\<dots> = map ((@) p) (filter (\<lambda>g. P (p @ g)) (sorted_list_of_set {g. p @ g \<in> D}))"
    unfolding sorted_strip_prefix [OF assms(1)] by (simp add: filter_map comp_def)
  finally show ?thesis .
qed

lemma takeWhile_sorted: "sorted_wrt (\<lambda>x y. P y \<longrightarrow> P x) xs \<Longrightarrow> takeWhile P xs = filter P xs"
  by (induction xs) (auto simp: filter_empty_conv)

abbreviation index_prefix :: "bytes \<Rightarrow> u16 \<Rightarrow> bytes" where
  "index_prefix name v \<equiv> encode_key_internal ZSCORE name [] v"

lemma zscore_key_prefix: "encode_zscore_key name f x v = index_prefix name v @ score_field x f"
  unfolding zscore_key_internal by (rule encode_key_internal_prefix)

lemma zscore_scan_index:
  assumes "long_enough name" "\<And>g. g \<in> set gs \<Longrightarrow> \<exists>x f. g = score_field x f"
  shows "zscore_scan name v (map (\<lambda>k. (k, y k)) (map ((@) (index_prefix name v)) gs)) = map field_entry gs"
  using assms(2)
proof (induction gs)
  case (Cons g gs)
  obtain x f where g: "g = score_field x f" using Cons.prems [of g] by auto
  have "DecodeZScoreItemKey (index_prefix name v @ g) =
    Some \<lparr>zk_version = v, zk_key = name, zk_field = f, zk_score = x\<rparr>"
    using DecodeZScoreItemKey_encode [OF assms(1), of f x v] by (simp add: g zscore_key_prefix decode_encodeScore)
  then show ?case using Cons by (simp add: g)
qed simp

text \<open>The fields of the index between two positions, as members.\<close>

lemma zlist_filter:
  assumes "finite (dom z)" "\<And>x f. z f = Some x \<Longrightarrow> P (score_field x f) \<longleftrightarrow> Q (f, x)"
  shows "map field_entry (filter P (sorted_list_of_set (dom (zindex z)))) = filter Q (zlist z)"
proof -
  have "filter P (sorted_list_of_set (dom (zindex z))) = filter (\<lambda>g. Q (field_entry g)) (sorted_list_of_set (dom (zindex z)))"
  proof (rule filter_cong [OF refl])
    fix g
    assume "g \<in> set (sorted_list_of_set (dom (zindex z)))"
    then obtain f x where "z f = Some x" "g = score_field x f"
      using finite_dom_zindex [OF assms(1)] by (auto simp: zindex_def split: if_splits)
    then show "P g \<longleftrightarrow> Q (field_entry g)" using assms(2) by simp
  qed
  then show ?thesis by (simp add: zlist_def filter_map comp_def)
qed

lemma index_entries:
  assumes "score_map name v m = zindex z" "finite (dom m)" "long_enough name" "finite (dom z)"
    "\<And>k. P k \<Longrightarrow> prefix (index_prefix name v) k"
    "\<And>x f. z f = Some x \<Longrightarrow> P (encode_zscore_key name f x v) \<longleftrightarrow> Q (f, x)"
  shows "zscore_scan name v (take n (filter (\<lambda>e. P (fst e)) (sorted_entries m))) = take n (filter Q (zlist z))"
    and "zscore_scan name v (take n (rev (filter (\<lambda>e. P (fst e)) (sorted_entries m)))) = take n (rev (filter Q (zlist z)))"
proof -
  let ?p = "index_prefix name v" and ?gs = "sorted_list_of_set (dom (zindex z))"
  let ?fs = "filter (\<lambda>g. P (?p @ g)) ?gs"
  have D: "{g. ?p @ g \<in> dom m} = dom (zindex z)"
    unfolding assms(1) [symmetric] by (auto simp: score_map_def encode_key_internal_prefix [of ZSCORE name _ v, symmetric])
  have "filter P (sorted_list_of_set (dom m)) = map ((@) ?p) ?fs"
    using filter_strip_prefix [OF assms(2), of P ?p] assms(5) unfolding D by blast
  then have es: "filter (\<lambda>e. P (fst e)) (sorted_entries m) = map (\<lambda>k. (k, the (m k))) (map ((@) ?p) ?fs)"
    by (simp add: sorted_entries_def filter_map comp_def)
  have field: "\<exists>x f. g = score_field x f" if "g \<in> set ?gs" for g
    using that finite_dom_zindex [OF assms(4)] by (auto simp: dom_zindex)
  have zl: "map field_entry ?fs = filter Q (zlist z)"
    by (rule zlist_filter [OF assms(4)]) (use assms(6) in \<open>simp add: zscore_key_prefix\<close>)
  show "zscore_scan name v (take n (filter (\<lambda>e. P (fst e)) (sorted_entries m))) = take n (filter Q (zlist z))"
    unfolding es take_map zl [symmetric]
    by (rule zscore_scan_index [OF assms(3)]) (use field in \<open>auto dest: in_set_takeD\<close>)
  show "zscore_scan name v (take n (rev (filter (\<lambda>e. P (fst e)) (sorted_entries m)))) = take n (rev (filter Q (zlist z)))"
    unfolding es rev_map take_map zl [symmetric]
    by (rule zscore_scan_index [OF assms(3)]) (use field in \<open>auto dest!: in_set_takeD\<close>)
qed

lemma zscore_key_zbefore:
  "encode_zscore_key name f x v < encode_zscore_key name g y v \<longleftrightarrow> zbefore (f, x) (g, y)"
  "encode_zscore_key name f x v \<le> encode_zscore_key name g y v \<longleftrightarrow> \<not> zbefore (g, y) (f, x)"
  by (simp_all add: zscore_key_prefix score_field_less not_less [symmetric])

lemma zscore_between_prefix:
  "encode_zscore_key name f x v \<le> k \<Longrightarrow> k \<le> encode_zscore_key name g y v \<Longrightarrow> prefix (index_prefix name v) k"
  unfolding zscore_key_prefix by (rule prefix_interval)

context rocksdb_iter
begin

lemma z_pending_forward:
  assumes "score_map name v (view (ldb s)) = zindex z" "long_enough name" "finite (dom z)"
  shows "z_pending FORWARD fwd name v
    (ZIterator_init (SSDB_iterator R (ldb s) (encode_zscore_key name [] a v) (encode_zscore_key name [] b v) n) name v)
    (take (unat n) (filter (\<lambda>e. \<not> zbefore e ([], a) \<and> \<not> zbefore ([], b) e) (zlist z)))"
proof -
  let ?a = "encode_zscore_key name [] a v" and ?b = "encode_zscore_key name [] b v"
  let ?es = "sorted_entries (view (ldb s))"
  have ne: "?b \<noteq> []" by (simp add: encode_zscore_key_def)
  have "sorted_wrt (\<lambda>x y. fst x \<le> fst y) ?es" by (simp add: sorted_entries_def sorted_wrt_map)
  then have "sorted_wrt (\<lambda>x y. fst y \<le> ?b \<longrightarrow> fst x \<le> ?b) (filter (\<lambda>e. ?a \<le> fst e) ?es)"
    by (intro sorted_wrt_filter) (auto elim!: sorted_wrt_mono_rel [rotated])
  from takeWhile_sorted [OF this] have
    "takeWhile (\<lambda>e. fst e \<le> ?b) (filter (\<lambda>e. ?a \<le> fst e) ?es) = filter (\<lambda>e. ?a \<le> fst e \<and> fst e \<le> ?b) ?es"
    by (simp add: conj_commute)
  then have "yields FORWARD fwd (SSDB_iterator R (ldb s) ?a ?b n)
      (take (unat n) (filter (\<lambda>e. ?a \<le> fst e \<and> fst e \<le> ?b) ?es))"
    using yields_SSDB_iterator [of "ldb s" ?a ?b n] ne by simp
  moreover have "zscore_scan name v (take (unat n) (filter (\<lambda>e. ?a \<le> fst e \<and> fst e \<le> ?b) ?es)) =
    take (unat n) (filter (\<lambda>e. \<not> zbefore e ([], a) \<and> \<not> zbefore ([], b) e) (zlist z))"
    by (rule index_entries(1) [OF assms(1) finite_view assms(2,3)])
      (auto simp: zscore_key_zbefore intro: zscore_between_prefix)
  ultimately show ?thesis by (auto simp: z_pending_def ZIterator_init_def)
qed

end

context rocksdb_rev
begin

text \<open>
  A backward walk starts at the last entry below \<open>start\<close>, or at the first entry that has
  \<open>start\<close> as a prefix.
\<close>

lemma rev_iterator_bwd:
  obtains Q where "bwd (iter_it (SSDB_rev_iterator R db start end n)) = rev (filter (\<lambda>e. Q (fst e)) (sorted_entries (view db)))"
    "\<forall>k. k < start \<longrightarrow> Q k" "\<forall>k. Q k \<longrightarrow> k < start \<or> prefix start k"
proof -
  let ?it = "it_Seek R (db_NewIterator R db) start" and ?es = "sorted_entries (view db)"
  let ?ge = "filter (\<lambda>e. start \<le> fst e) ?es" and ?lt = "filter (\<lambda>e. fst e < start) ?es"
  let ?res = "bwd (iter_it (SSDB_rev_iterator R db start end n))"
  have fw: "fwd ?it = ?ge" by (rule Seek_fwd)
  have part: "?lt @ ?ge = ?es" by (rule partition_sorted_entries)
  consider "?ge = []" | e es where "?ge = e # es" "\<not> prefix start (fst e)"
    | e es where "?ge = e # es" "prefix start (fst e)" by (cases ?ge) auto
  then show ?thesis
  proof cases
    case 1
    then have "\<not> it_Valid R ?it" using fw Valid_fwd by simp
    moreover have "?lt = ?es" using part 1 by simp
    ultimately have "?res = rev ?lt"
      using SeekToLast_bwd [of db start] by (simp add: SSDB_rev_iterator_def Iterator_init_def)
    then show ?thesis using that [of "\<lambda>k. k < start"] by simp
  next
    case (2 e es)
    then have val: "it_Valid R ?it" "it_key R ?it = fst e" using fw Valid_fwd [of ?it] entry_fwd [of ?it] by auto
    have b: "bwd ?it \<noteq> []" "tl (bwd ?it) = rev ?lt" using val(1) Valid_bwd Seek_bwd [OF val(1)] by auto
    have "take (length start) (it_key R ?it) \<noteq> start"
      using val(2) 2(2) by (metis take_is_prefix)
    then have "?res = rev ?lt"
      using val(1) Prev_bwd [OF b(1)] b(2) by (simp add: SSDB_rev_iterator_def Iterator_init_def Let_def)
    then show ?thesis using that [of "\<lambda>k. k < start"] by simp
  next
    case (3 e es)
    then have val: "it_Valid R ?it" "it_key R ?it = fst e" using fw Valid_fwd [of ?it] entry_fwd [of ?it] by auto
    have b: "bwd ?it \<noteq> []" "tl (bwd ?it) = rev ?lt" using val(1) Valid_bwd Seek_bwd [OF val(1)] by auto
    have "hd (bwd ?it) = e" using entry_bwd [OF b(1)] entry_fwd [of ?it] fw 3(1) by auto
    with b have be: "bwd ?it = e # rev ?lt" by (metis list.collapse)
    have "take (length start) (it_key R ?it) = start"
      using val(2) 3(2) by (auto simp: prefix_def)
    then have "?res = e # rev ?lt"
      using val(1) be by (simp add: SSDB_rev_iterator_def Iterator_init_def Let_def)
    moreover let ?Q = "\<lambda>k. k < start \<or> k = fst e"
    have "e \<in> set ?ge" unfolding 3(1) by simp
    then have ge: "start \<le> fst e" by simp
    have "sorted_wrt (<) (map fst ?ge)"
      by (simp add: sorted_entries_def sorted_wrt_map sorted_wrt_filter filter_map comp_def)
    then have "\<forall>d \<in> set es. fst e < fst d" unfolding 3(1) by simp
    with ge have "filter (\<lambda>d. ?Q (fst d)) ?ge = [e]" unfolding 3(1) by (auto simp: filter_empty_conv)
    moreover have "filter (\<lambda>d. ?Q (fst d)) ?lt = ?lt" by (auto intro: filter_cong)
    moreover have "filter (\<lambda>d. ?Q (fst d)) ?es = filter (\<lambda>d. ?Q (fst d)) ?lt @ filter (\<lambda>d. ?Q (fst d)) ?ge"
      using arg_cong [OF part, of "filter (\<lambda>d. ?Q (fst d))"] by (simp only: filter_append)
    ultimately have "?res = rev (filter (\<lambda>d. ?Q (fst d)) ?es)" by (simp only: rev_append) simp
    then show ?thesis using that [of ?Q] 3(2) by auto
  qed
qed

lemma z_pending_backward:
  assumes "score_map name v (view (ldb s)) = zindex z" "long_enough name" "finite (dom z)"
  obtains Q where "z_pending BACKWARD bwd name v
      (ZIterator_init (SSDB_rev_iterator R (ldb s) (encode_zscore_key name [] a v) (encode_zscore_key name [] b v) n) name v)
      (take (unat n) (rev (filter (\<lambda>e. \<not> zbefore e ([], b) \<and> Q e) (zlist z))))"
    "\<forall>e. zbefore e ([], a) \<longrightarrow> Q e" "\<forall>e. Q e \<longrightarrow> zbefore e ([], a) \<or> snd e = a"
proof -
  let ?a = "encode_zscore_key name [] a v" and ?b = "encode_zscore_key name [] b v"
  let ?es = "sorted_entries (view (ldb s))" and ?i = "SSDB_rev_iterator R (ldb s) ?a ?b n"
  obtain P where P: "bwd (iter_it ?i) = rev (filter (\<lambda>e. P (fst e)) ?es)"
    "\<forall>k. k < ?a \<longrightarrow> P k" "\<forall>k. P k \<longrightarrow> k < ?a \<or> prefix ?a k" by (rule rev_iterator_bwd)
  have ne: "?b \<noteq> []" by (simp add: encode_zscore_key_def)
  have "sorted_wrt (\<lambda>x y. fst x \<le> fst y) ?es" by (simp add: sorted_entries_def sorted_wrt_map)
  then have "sorted_wrt (\<lambda>x y. ?b \<le> fst y \<longrightarrow> ?b \<le> fst x) (rev (filter (\<lambda>e. P (fst e)) ?es))"
    unfolding sorted_wrt_rev by (intro sorted_wrt_filter) (auto elim!: sorted_wrt_mono_rel [rotated])
  from takeWhile_sorted [OF this] have
    "takeWhile (\<lambda>e. ?b \<le> fst e) (rev (filter (\<lambda>e. P (fst e)) ?es)) = rev (filter (\<lambda>e. ?b \<le> fst e \<and> P (fst e)) ?es)"
    by (simp add: rev_filter [symmetric] conj_commute)
  then have "yields BACKWARD bwd ?i (take (unat n) (rev (filter (\<lambda>e. ?b \<le> fst e \<and> P (fst e)) ?es)))"
    using ne P(1) by (simp add: yields_def SSDB_rev_iterator_def Iterator_init_def within_end_def Let_def)
  moreover let ?Q = "\<lambda>e. P (encode_zscore_key name (fst e) (snd e) v)"
  have "zscore_scan name v (take (unat n) (rev (filter (\<lambda>e. ?b \<le> fst e \<and> P (fst e)) ?es))) =
    take (unat n) (rev (filter (\<lambda>e. \<not> zbefore e ([], b) \<and> ?Q e) (zlist z)))"
  proof (rule index_entries(2) [OF assms(1) finite_view assms(2,3)])
    fix k
    assume k: "?b \<le> k \<and> P k"
    then consider "k \<le> ?a" | "prefix ?a k" using P(3) by fastforce
    then show "prefix (index_prefix name v) k"
    proof cases
      case 1
      then show ?thesis using k by (auto intro: zscore_between_prefix)
    next
      case 2
      then show ?thesis unfolding zscore_key_prefix by (auto simp: prefix_def)
    qed
  qed (simp add: zscore_key_zbefore)
  ultimately have "z_pending BACKWARD bwd name v (ZIterator_init ?i name v)
      (take (unat n) (rev (filter (\<lambda>e. \<not> zbefore e ([], b) \<and> ?Q e) (zlist z))))"
    by (auto simp: z_pending_def ZIterator_init_def)
  moreover have "?Q e" if "zbefore e ([], a)" for e
    using that P(2) by (simp add: zscore_key_zbefore)
  moreover have "zbefore e ([], a) \<or> snd e = a" if "?Q e" for e
  proof -
    have "snd e = a" if "prefix (score_field a []) (score_field (snd e) (fst e))"
      using that by (auto simp: score_field_def prefix_def append_eq_append_conv)
    then show ?thesis using P(3) [rule_format, OF that] by (auto simp: zscore_key_zbefore) (simp add: zscore_key_prefix)
  qed
  ultimately show ?thesis using that [of ?Q] by blast
qed

end

section \<open>Ranks and ranges by position\<close>

lemma score_bounds:
  assumes "\<not> isnan x"
  shows "score_less x quiet_NaN" "score_less minus_quiet_NaN x" "x \<noteq> quiet_NaN"
    "\<not> score_less quiet_NaN x" "\<not> score_less x minus_quiet_NaN"
proof -
  have k: "dbl_key quiet_NaN = 9221120237041090560" "dbl_key minus_quiet_NaN = - 9221120237041090560"
    by (simp_all add: dbl_key_def dbl_neg_def dbl_mag_def)
  have x: "\<bar>dbl_key x\<bar> \<le> 9218868437227405312" using assms by (auto simp: isnan_def dbl_key_def)
  show "score_less x quiet_NaN" "score_less minus_quiet_NaN x"
    using x k by (auto intro!: dbl_key_order(2))
  show "\<not> score_less quiet_NaN x" "\<not> score_less x minus_quiet_NaN"
    using x k dbl_key_order(1) [of quiet_NaN x] dbl_key_order(1) [of x minus_quiet_NaN] by auto
  show "x \<noteq> quiet_NaN" using assms by (auto simp: isnan_def dbl_mag_def)
qed

lemma zset_atD:
  assumes "zset_at m name v z"
  shows "score_map name v m = zindex z" "finite (dom z)" "e \<in> set (zlist z) \<Longrightarrow> \<not> isnan (snd e)" "z \<noteq> Map.empty"
    "card (dom z) < 2 ^ 63" "item_map name v m = zitems z"
proof -
  show fin: "finite (dom z)" using assms by (auto simp: zset_at_def coll_at_def)
  show "e \<in> set (zlist z) \<Longrightarrow> \<not> isnan (snd e)"
    using assms unfolding zlist_facts(1) [OF fin] by (auto simp: zset_at_def)
qed (use assms in \<open>auto simp: zset_at_def coll_at_def\<close>)

context rocksdb_rev
begin

lemma zscan_full:
  assumes at: "zset_at (view (ldb s)) name v z" and name: "long_enough name"
  shows "z_pending FORWARD fwd name v (zscan_internal strtod R s name [] [] n FORWARD v) (take (unat n) (zlist z))"
    "z_pending BACKWARD bwd name v (zscan_internal strtod R s name [] [] n BACKWARD v) (take (unat n) (rev (zlist z)))"
proof -
  note D = zset_atD [OF at]
  have "filter (\<lambda>e. \<not> zbefore e ([], minus_quiet_NaN) \<and> \<not> zbefore ([], quiet_NaN) e) (zlist z) = zlist z"
    unfolding filter_id_conv using D(3) by (auto simp: zbefore_def score_bounds)
  then show "z_pending FORWARD fwd name v (zscan_internal strtod R s name [] [] n FORWARD v) (take (unat n) (zlist z))"
    using z_pending_forward [OF D(1) name D(2), of minus_quiet_NaN quiet_NaN n]
    by (simp add: zscan_internal_def Let_def)
  have it: "zscan_internal strtod R s name [] [] n BACKWARD v = ZIterator_init (SSDB_rev_iterator R (ldb s)
      (encode_zscore_key name [] quiet_NaN v) (encode_zscore_key name [] minus_quiet_NaN v) n) name v"
    by (simp add: zscan_internal_def)
  from z_pending_backward [OF D(1) name D(2), of quiet_NaN minus_quiet_NaN n, folded it]
  obtain Q where Q: "z_pending BACKWARD bwd name v (zscan_internal strtod R s name [] [] n BACKWARD v)
      (take (unat n) (rev (filter (\<lambda>e. \<not> zbefore e ([], minus_quiet_NaN) \<and> Q e) (zlist z))))"
    "\<forall>e. zbefore e ([], quiet_NaN) \<longrightarrow> Q e" "\<forall>e. Q e \<longrightarrow> zbefore e ([], quiet_NaN) \<or> snd e = quiet_NaN" .
  have "filter (\<lambda>e. \<not> zbefore e ([], minus_quiet_NaN) \<and> Q e) (zlist z) = zlist z"
    unfolding filter_id_conv using D(3) by (auto simp: zbefore_def score_bounds intro!: Q(2) [rule_format])
  with Q(1) show "z_pending BACKWARD bwd name v (zscan_internal strtod R s name [] [] n BACKWARD v) (take (unat n) (rev (zlist z)))"
    by simp
qed

end

text \<open>The position in a sorted list is the number of elements that come before.\<close>

lemma position_card:
  assumes "sorted_wrt r xs" "distinct (map fst xs)" "e \<in> set xs"
    and asym: "\<And>x y :: 'a \<times> 'b. r x y \<Longrightarrow> \<not> r y x"
  shows "length (takeWhile (\<lambda>d. fst d \<noteq> fst e) xs) = card {d \<in> set xs. r d e}"
proof -
  from assms(3) obtain us ws where xs: "xs = us @ e # ws" by (auto simp: in_set_conv_decomp)
  have "takeWhile (\<lambda>d. fst d \<noteq> fst e) xs = us"
    using assms(2) unfolding xs by (subst takeWhile_append2) (auto simp: image_iff)
  moreover have "{d \<in> set xs. r d e} = set us"
    using assms(1) asym [of e] asym [of e e] unfolding xs by (auto simp: sorted_wrt_append)
  moreover have "distinct us" using assms(2) unfolding xs by (simp add: distinct_map)
  ultimately show ?thesis by (simp add: distinct_card)
qed

lemma zbefore_asym: "zbefore a b \<Longrightarrow> \<not> zbefore b a"
proof -
  assume "zbefore a b"
  then have "score_field (snd a) (fst a) < score_field (snd b) (fst b)" by (simp add: score_field_less)
  then have "\<not> score_field (snd b) (fst b) < score_field (snd a) (fst a)" by simp
  then show ?thesis by (simp add: score_field_less)
qed

text \<open>The number of members that come before a member, and after it.\<close>

definition rank_of :: "(bytes \<rightharpoonup> u64) \<Rightarrow> bytes \<Rightarrow> int" where
  "rank_of z key = (case z key of None \<Rightarrow> -1
     | Some x \<Rightarrow> int (card {f. \<exists>y. z f = Some y \<and> zbefore (f, y) (key, x)}))"

definition rev_rank_of :: "(bytes \<rightharpoonup> u64) \<Rightarrow> bytes \<Rightarrow> int" where
  "rev_rank_of z key = (case z key of None \<Rightarrow> -1
     | Some x \<Rightarrow> int (card {f. \<exists>y. z f = Some y \<and> zbefore (key, x) (f, y)}))"

lemma rank_of_position:
  assumes fin: "finite (dom z)" and key: "z key = Some x"
  shows "int (length (takeWhile (\<lambda>e. fst e \<noteq> key) (zlist z))) = rank_of z key"
    "int (length (takeWhile (\<lambda>e. fst e \<noteq> key) (rev (zlist z)))) = rev_rank_of z key"
proof -
  note L = zlist_facts [OF fin]
  have e: "(key, x) \<in> set (zlist z)" "(key, x) \<in> set (rev (zlist z))" using key by (simp_all add: L(1))
  have "inj_on fst {d \<in> set (zlist z). P d}" for P using L(3) by (auto simp: distinct_map inj_on_subset)
  then have card: "card {d \<in> set (zlist z). P d} = card (fst ` {d \<in> set (zlist z). P d})" for P by (simp add: card_image)
  have im: "fst ` {d \<in> set (zlist z). P d} = {f. \<exists>y. z f = Some y \<and> P (f, y)}" for P
    unfolding L(1) by (force simp: image_iff)
  show "int (length (takeWhile (\<lambda>e. fst e \<noteq> key) (zlist z))) = rank_of z key"
    using position_card [OF L(2,3) e(1) zbefore_asym] key card im by (simp add: rank_of_def)
  have "sorted_wrt (\<lambda>a b. zbefore b a) (rev (zlist z))" "distinct (map fst (rev (zlist z)))"
    using L(2,3) by (simp_all add: sorted_wrt_rev rev_map [symmetric])
  from position_card [OF this e(2) zbefore_asym]
  show "int (length (takeWhile (\<lambda>e. fst e \<noteq> key) (rev (zlist z)))) = rev_rank_of z key"
    using key card im by (simp add: rev_rank_of_def)
qed

context rocksdb_rev
begin

lemma zset_rep_cases [consumes 1, case_names empty at]:
  assumes "zset_rep (view (ldb s)) name z"
    "\<And>mv. z = Map.empty \<Longrightarrow> GetZSetMetaVal R s (encode_meta_key name) = (0, mv) \<Longrightarrow> thesis"
    "\<And>v mv. zset_at (view (ldb s)) name v z \<Longrightarrow> GetZSetMetaVal R s (encode_meta_key name) = (1, mv) \<Longrightarrow>
      mv_version mv = v \<Longrightarrow> mv_length mv = word_of_nat (card (dom z)) \<Longrightarrow> coll_meta (zitems z) v mv \<Longrightarrow> thesis"
  shows thesis
proof (cases "\<exists>v. zset_at (view (ldb s)) name v z")
  case True
  then obtain v where at: "zset_at (view (ldb s)) name v z" ..
  then have "coll_at ZSIZE (view (ldb s)) name v (zitems z)" by (simp add: zset_at_def)
  from zc.get_at [OF this] obtain mv where
    "GetZSetMetaVal R s (encode_meta_key name) = (1, mv)" "coll_meta (zitems z) v mv" by blast
  then show ?thesis using assms(3) [OF at] by (simp add: coll_meta_def)
next
  case False
  then obtain w where w: "z = Map.empty" "absent (view (ldb s)) name w" using assms(1) by (auto simp: zset_rep_def)
  from zc.get_absent [OF w(2)] show ?thesis using assms(2) [OF w(1)] by blast
qed

lemma zrank_dir_rep:
  assumes rep: "zset_rep (view (ldb s)) name z" and name: "long_enough name" and card: "card (dom z) < 2 ^ 31"
  shows "zrank_dir strtod R s name key rank dir =
    (if z = Map.empty then (0, rank) else (1, if dir = FORWARD then rank_of z key else rev_rank_of z key))"
  using rep
proof (cases rule: zset_rep_cases)
  case (empty mv)
  then show ?thesis by (simp add: zrank_dir_def)
next
  case (at v mv)
  note D = zset_atD [OF at(1)] and L = zlist_facts [OF zset_atD(2) [OF at(1)]]
  let ?xs = "if dir = FORWARD then zlist z else rev (zlist z)"
  have len: "length (zlist z) \<le> unat INT_MAX" using card L(4) by (simp add: INT_MAX_def)
  have loop: "zrank_loop R key (zscan_internal strtod R s name [] [] INT_MAX dir v) 0 =
      (key \<in> fst ` set ?xs, word_of_nat (length (takeWhile (\<lambda>e. fst e \<noteq> key) ?xs)))"
    using fw.zrank_loop_scan [OF zscan_full(1) [OF at(1) name], of key strtod INT_MAX 0]
      bw.zrank_loop_scan [OF zscan_full(2) [OF at(1) name], of key strtod INT_MAX 0] len
    by (cases dir) simp_all
  have "length (takeWhile (\<lambda>e. fst e \<noteq> key) ?xs) \<le> length ?xs" by (rule length_takeWhile_le)
  then have "int64 (int (length (takeWhile (\<lambda>e. fst e \<noteq> key) ?xs)))"
    using card L(4) by (cases dir) (simp_all add: int64_def)
  from sint_word_of_int64 [OF this] have
    s: "sint (word_of_nat (length (takeWhile (\<lambda>e. fst e \<noteq> key) ?xs)) :: u64) =
      int (length (takeWhile (\<lambda>e. fst e \<noteq> key) ?xs))" by simp
  have mem: "key \<in> fst ` set ?xs \<longleftrightarrow> z key \<noteq> None" using L(1) by (auto simp: image_iff)
  show ?thesis
  proof (cases "z key")
    case None
    then show ?thesis unfolding zrank_dir_def at(2) using D(4) by (simp add: at(3) loop mem rank_of_def rev_rank_of_def)
  next
    case (Some x)
    then have m: "key \<in> fst ` set ?xs" using mem by simp
    have "zrank_dir strtod R s name key rank dir = (1, int (length (takeWhile (\<lambda>e. fst e \<noteq> key) ?xs)))"
      unfolding zrank_dir_def at(2) prod.case at(3) loop s using m by simp
    then show ?thesis using D(4) rank_of_position [OF D(2) Some] by (cases dir) simp_all
  qed
qed

lemma zrangeGeneric_rep:
  assumes rep: "zset_rep (view (ldb s)) name z" and name: "long_enough name" and card: "card (dom z) < 2 ^ 31"
    and idx: "string2ll t = Some i" "string2ll u = Some j"
  shows "zrangeGeneric strtod fmt R s name t u w rv =
    (if z = Map.empty then 0 else 1,
     concat (map (key_score fmt w) (list_slice (if rv then rev (zlist z) else zlist z) i j)))"
  using rep
proof (cases rule: zset_rep_cases)
  case (empty mv)
  then show ?thesis using idx by (simp add: zrangeGeneric_def list_slice_def zlist_def)
next
  case (at v mv)
  note D = zset_atD [OF at(1)] and L = zlist_facts [OF zset_atD(2) [OF at(1)]]
  define n where "n = int (length (zlist z))"
  define a where "a = (let i = (if i < 0 then n + i else i) in if i < 0 then 0 else i)"
  define b where "b = (if j < 0 then n + j else j)"
  define c where "c = (if b \<ge> n then n - 1 else b)"
  let ?xs = "if rv then rev (zlist z) else zlist z"
  have n: "n = int (card (dom z))" "n < 2147483648" "length ?xs = nat n" using L(4) card by (simp_all add: n_def)
  have llen: "sint (ucast (mv_length mv) :: 32 word) = n"
    unfolding at(4) n(1) using card by (simp add: unsigned_of_nat sint_uint signed_take_bit_int_eq_self take_bit_nat_eq_self)
  have sl: "list_slice ?xs i j = take (nat (c - a + 1)) (drop (nat a) ?xs)"
  proof -
    have "a = max 0 (if i < 0 then n + i else i)" "c = min (n - 1) b" by (auto simp: a_def c_def Let_def)
    moreover have "int (length ?xs) = n" by (simp add: n_def)
    ultimately show ?thesis by (simp only: list_slice_def Let_def b_def)
  qed
  show ?thesis
  proof (cases "a > b \<or> a \<ge> n")
    case True
    then have "list_slice ?xs i j = []" unfolding sl c_def using n(3) by auto
    moreover have "zrangeGeneric strtod fmt R s name t u w rv = (1, [])"
      using True unfolding zrangeGeneric_def idx option.case at(2) prod.case llen Let_def
      by (simp add: a_def b_def Let_def)
    ultimately show ?thesis using D(4) by simp
  next
    case False
    then have c: "0 \<le> a" "a \<le> c" "c < n" "c < 2147483648" using n(2) by (auto simp: c_def a_def Let_def)
    have "unat (word_of_int k :: u64) = nat k" if "0 \<le> k" "k \<le> 2147483648" for k
      using that by (simp add: unat_eq_nat_uint uint_word_of_int)
    then have u: "unat (word_of_int (c + 1) :: u64) = nat (c + 1)" "unat (word_of_int a :: u64) = nat a"
      using c by (simp_all only: add_increasing2 zero_le_one)
    let ?it = "zscan_internal strtod R s name [] [] (word_of_int (c + 1)) (if rv then BACKWARD else FORWARD) v"
    have ys: "drop (nat a) (take (nat (c + 1)) ?xs) = list_slice ?xs i j"
    proof -
      have "nat (c + 1) - nat a = nat (c - a + 1)" using c by simp
      then show ?thesis unfolding sl drop_take by simp
    qed
    have len: "unat (word_of_int a :: u64) \<le> length (take (nat (c + 1)) ?xs)" using c n(3) u by simp
    have "\<exists>it'. ZIterator_skip R (word_of_int a) ?it = (True, it') \<and>
        zrange_loop fmt R w it' [] = concat (map (key_score fmt w) (list_slice ?xs i j))"
    proof (cases rv)
      case True
      from bw.ZIterator_skip_scan [OF zscan_full(2) [OF at(1) name, of strtod "word_of_int (c + 1)", unfolded u(1)], of "word_of_int a"]
      show ?thesis using len ys bw.zrange_loop_scan True unfolding u(2) by fastforce
    next
      case False
      from fw.ZIterator_skip_scan [OF zscan_full(1) [OF at(1) name, of strtod "word_of_int (c + 1)", unfolded u(1)], of "word_of_int a"]
      show ?thesis using len ys fw.zrange_loop_scan False unfolding u(2) by fastforce
    qed
    then obtain it' where it': "ZIterator_skip R (word_of_int a) ?it = (True, it')"
      "zrange_loop fmt R w it' [] = concat (map (key_score fmt w) (list_slice ?xs i j))" by blast
    have "zrangeGeneric strtod fmt R s name t u w rv = (1, zrange_loop fmt R w it' [])"
      unfolding zrangeGeneric_def idx option.case at(2) prod.case llen Let_def at(3)
        a_def [unfolded Let_def, symmetric] b_def [symmetric] c_def [symmetric] if_not_P [OF False] it'(1) by simp
    then show ?thesis using D(4) it'(2) by simp
  qed
qed

end

section \<open>Ranges by score\<close>

text \<open>The text of a double is read back as that double; 17 significant digits are enough for that.\<close>

definition double_text :: "strtod \<Rightarrow> dformat \<Rightarrow> bool" where
  "double_text strtod fmt \<longleftrightarrow>
     (\<forall>x. \<not> isnan x \<longrightarrow> str_double fmt x \<noteq> [] \<and> Bytes_Double strtod (str_double fmt x) = x)"

definition in_range :: "zrangespec \<Rightarrow> u64 \<Rightarrow> bool" where
  "in_range spec x \<longleftrightarrow> zslValueGteMin x spec \<and> zslValueLteMax x spec"

lemma eps_parts: "dbl_mag eps = 4382569440205035030" "\<not> dbl_neg eps"
  by (simp_all add: eps_def dbl_mag_def dbl_neg_def)

lemma not_nan_cases: "\<not> isnan x \<Longrightarrow> dbl_mag x < DBL_INF \<or> isinf x"
  by (auto simp: isnan_def isinf_def)

lemma inf_add: "isinf a \<Longrightarrow> dbl_add a eps = a" "isinf a \<Longrightarrow> dbl_sub a eps = a"
  using eps_parts by (simp_all add: dbl_sub_flip dbl_add_def isinf_def isnan_def)

lemma not_nan_eps: "\<not> isnan x \<Longrightarrow> \<not> isnan (dbl_add x eps)" "\<not> isnan x \<Longrightarrow> \<not> isnan (dbl_sub x eps)"
  using not_nan_cases [of x] inf_add [of x] dbl_add_ge(1) [of x eps] dbl_sub_le(2) [of x eps] eps_parts by auto

lemma zero_sub_eps: "dbl_mag x = 0 \<Longrightarrow> dbl_key (dbl_sub x eps) \<noteq> 0"
proof -
  assume x: "dbl_mag x = 0"
  then have i: "dbl_int x = 0" by (simp add: dbl_int_def dbl_units_def)
  have e: "dbl_units 4382569440205035030 \<noteq> 0"
    by (simp add: dbl_units_def Let_def)
  have "dbl_add x (dbl_flip eps) = dbl_flip eps"
    by (rule dbl_add_exact) (use x i e eps_parts in \<open>simp_all add: dbl_int_def\<close>)
  then show ?thesis using eps_parts by (simp add: dbl_sub_flip dbl_key_def)
qed

text \<open>A score at or above the lower bound is not below the start of the scan.\<close>

lemma range_low:
  assumes "\<not> isnan mn" "dbl_le mn x"
  shows "\<not> zbefore (f, x) ([], dbl_sub mn eps)"
proof
  let ?a = "dbl_sub mn eps"
  assume "zbefore (f, x) ([], ?a)"
  then have less: "score_less x ?a" by (simp add: zbefore_def)
  from dbl_key_order(1) [OF this] have "dbl_key x \<le> dbl_key ?a" .
  moreover have "dbl_key ?a \<le> dbl_key mn"
    using not_nan_cases [OF assms(1)] inf_add(2) [of mn] dbl_sub_le(1) [of mn eps] eps_parts by auto
  moreover have "dbl_key mn \<le> dbl_key x" using assms(2) by (simp add: dbl_le_def)
  ultimately have eq: "dbl_key ?a = dbl_key x" "dbl_key mn = dbl_key ?a" by simp_all
  show False
  proof (cases "dbl_key ?a = 0")
    case True
    then have "dbl_mag mn = 0" using eq by (auto simp: dbl_key_def split: if_splits)
    then show False using zero_sub_eps True by blast
  next
    case False
    then show False using dbl_key_inj [OF eq(1)] less score_less_irrefl by simp
  qed
qed

lemma zslValue_le: "zslValueGteMin x spec \<Longrightarrow> dbl_le (zr_min spec) x" "zslValueLteMax x spec \<Longrightarrow> dbl_le x (zr_max spec)"
  by (auto simp: zslValueGteMin_def zslValueLteMax_def dbl_le_def dbl_less_def split: if_splits)

lemma zbefore_key: "zbefore a b \<Longrightarrow> dbl_key (snd a) \<le> dbl_key (snd b)"
  using dbl_key_order(1) by (auto simp: zbefore_def)

text \<open>Along the list the upper test changes from true to false, the lower one from false to true.\<close>

lemma sorted_tests:
  assumes "sorted_wrt zbefore xs" "\<forall>e \<in> set xs. \<not> isnan (snd e)"
  shows "sorted_wrt (\<lambda>x y. zslValueLteMax (snd y) spec \<longrightarrow> zslValueLteMax (snd x) spec) xs"
    "sorted_wrt (\<lambda>x y. zslValueGteMin (snd y) spec \<longrightarrow> zslValueGteMin (snd x) spec) (rev xs)"
proof -
  show "sorted_wrt (\<lambda>x y. zslValueLteMax (snd y) spec \<longrightarrow> zslValueLteMax (snd x) spec) xs"
    by (rule sorted_wrt_mono_rel [OF _ assms(1)])
      (use assms(2) zbefore_key in \<open>fastforce simp: zslValueLteMax_def dbl_le_def dbl_less_def\<close>)
  show "sorted_wrt (\<lambda>x y. zslValueGteMin (snd y) spec \<longrightarrow> zslValueGteMin (snd x) spec) (rev xs)"
    unfolding sorted_wrt_rev
    by (rule sorted_wrt_mono_rel [OF _ assms(1)])
      (use assms(2) zbefore_key in \<open>fastforce simp: zslValueGteMin_def dbl_le_def dbl_less_def\<close>)
qed

lemma zslParseRange_nan:
  "zslParseRange strtod lo hi = Inr spec \<Longrightarrow> \<not> isnan (zr_min spec) \<and> \<not> isnan (zr_max spec)"
  by (auto simp: zslParseRange_def zslParseBound_def Let_def split: sum.splits prod.splits if_splits)

text \<open>The set without the members in a range.\<close>

definition zset_minus :: "(bytes \<rightharpoonup> u64) \<Rightarrow> (u64 \<Rightarrow> bool) \<Rightarrow> bytes \<rightharpoonup> u64" where
  "zset_minus z P = (\<lambda>f. case z f of None \<Rightarrow> None | Some x \<Rightarrow> if P x then None else Some x)"

context rocksdb_rev
begin

text \<open>The members between the two ends of a forward scan.\<close>

lemma zscan_scores:
  assumes at: "zset_at (view (ldb s)) name v z" and name: "long_enough name"
    and rt: "double_text strtod fmt" and nan: "\<not> isnan a" "full \<or> \<not> isnan b"
  shows "z_pending FORWARD fwd name v
      (zscan_internal strtod R s name (str_double fmt a) (if full then [] else str_double fmt b) UINT64_MAX FORWARD v)
      (filter (\<lambda>e. \<not> zbefore e ([], a) \<and> (full \<or> \<not> zbefore ([], b) e)) (zlist z))"
proof -
  note D = zset_atD [OF at]
  let ?b = "if full then quiet_NaN else b"
  have "unat UINT64_MAX \<ge> length (zlist z)" using D(5) zlist_facts(4) [OF D(2)] by simp
  then have len: "take (unat UINT64_MAX) (filter P (zlist z)) = filter P (zlist z)" for P
    by (meson length_filter_le order_trans take_all)
  have "filter (\<lambda>e. \<not> zbefore e ([], a) \<and> \<not> zbefore ([], ?b) e) (zlist z) =
    filter (\<lambda>e. \<not> zbefore e ([], a) \<and> (full \<or> \<not> zbefore ([], b) e)) (zlist z)"
    using D(3) by (intro filter_cong) (auto simp: zbefore_def score_bounds)
  moreover have "zscan_internal strtod R s name (str_double fmt a) (if full then [] else str_double fmt b) UINT64_MAX FORWARD v =
    ZIterator_init (SSDB_iterator R (ldb s) (encode_zscore_key name [] a v) (encode_zscore_key name [] ?b v) UINT64_MAX) name v"
    using rt nan by (auto simp: zscan_internal_def double_text_def)
  ultimately show ?thesis
    using z_pending_forward [OF D(1) name D(2), of a ?b UINT64_MAX] unfolding len by simp
qed

lemma filter_range_low:
  assumes "\<not> isnan (zr_min spec)"
  shows "filter (\<lambda>e. zslValueGteMin (snd e) spec \<and> Q e) (filter (\<lambda>e. \<not> zbefore e ([], dbl_sub (zr_min spec) eps) \<and> P e) xs) =
    filter (\<lambda>e. zslValueGteMin (snd e) spec \<and> P e \<and> Q e) xs"
  using range_low [OF assms] zslValue_le(1) [of _ spec] by (auto intro!: filter_cong)

lemma sorted_tests_zlist:
  assumes "zset_at m name v z"
  shows "sorted_wrt (\<lambda>x y. zslValueLteMax (snd y) spec \<longrightarrow> zslValueLteMax (snd x) spec) (filter P (zlist z))"
    "sorted_wrt (\<lambda>x y. zslValueGteMin (snd y) spec \<longrightarrow> zslValueGteMin (snd x) spec) (rev (filter P (zlist z)))"
  using sorted_tests [of "filter P (zlist z)" spec] zlist_facts(2) [OF zset_atD(2) [OF assms]] zset_atD(3) [OF assms]
  by (auto intro: sorted_wrt_filter)

text \<open>
  What a forward range by score returns exactly: the members in the range that are not
  after the end of the scan.
\<close>

lemma zrangebyscore_exact:
  assumes rep: "zset_rep (view (ldb s)) name z" and name: "long_enough name"
    and spec: "zslParseRange strtod lo hi = Inr spec" and rt: "double_text strtod fmt"
  shows "zrangebyscore strtod fmt R s name lo hi w offset limit = (if z = Map.empty then 0 else 1,
    concat (map (key_score fmt w) (page offset limit (filter (\<lambda>e. in_range spec (snd e) \<and>
      (isinf (zr_max spec) \<or> \<not> zbefore ([], dbl_add (zr_max spec) eps) e)) (zlist z)))))"
  using rep
proof (cases rule: zset_rep_cases)
  case (empty mv)
  then show ?thesis using spec by (simp add: zrangebyscore_def genericZrangebyscore_def zlist_def)
next
  case (at v mv)
  note nan = zslParseRange_nan [OF spec]
  let ?a = "dbl_sub (zr_min spec) eps" and ?b = "dbl_add (zr_max spec) eps"
  let ?xs = "filter (\<lambda>e. \<not> zbefore e ([], ?a) \<and> (isinf (zr_max spec) \<or> \<not> zbefore ([], ?b) e)) (zlist z)"
  have "z_pending FORWARD fwd name v (zscan_internal strtod R s name (str_double fmt ?a)
      (if isinf (zr_max spec) then [] else str_double fmt ?b) UINT64_MAX FORWARD v) ?xs"
    by (rule zscan_scores [OF at(1) name rt]) (use not_nan_eps nan in auto)
  from fw.zrangebyscore_loop_scan [OF this, of fmt spec False w offset limit "[]"]
  have "zrangebyscore strtod fmt R s name lo hi w offset limit =
    (1, concat (map (key_score fmt w) (page offset limit
      (range_scan (\<lambda>e. zslValueGteMin (snd e) spec) (\<lambda>e. zslValueLteMax (snd e) spec) ?xs))))"
    using at(2,3) spec by (simp add: zrangebyscore_def genericZrangebyscore_def)
  also have "range_scan (\<lambda>e. zslValueGteMin (snd e) spec) (\<lambda>e. zslValueLteMax (snd e) spec) ?xs =
    filter (\<lambda>e. in_range spec (snd e) \<and> (isinf (zr_max spec) \<or> \<not> zbefore ([], ?b) e)) (zlist z)"
    unfolding range_scan_filter [OF sorted_tests_zlist(1) [OF at(1)]]
    unfolding filter_range_low [OF conjunct1 [OF nan]] by (rule filter_cong) (simp_all add: in_range_def conj_ac)
  finally show ?thesis using zset_atD(4) [OF at(1)] by simp
qed

text \<open>When \<open>eps\<close> moves the upper bound, every member of the range is returned.\<close>

lemma range_high:
  assumes "dbl_less mx (dbl_add mx eps)" "dbl_le x mx"
  shows "zbefore (f, x) ([], dbl_add mx eps)" "x \<noteq> dbl_add mx eps"
proof -
  have "dbl_key x < dbl_key (dbl_add mx eps)" using assms by (auto simp: dbl_le_def dbl_less_def)
  then show "zbefore (f, x) ([], dbl_add mx eps)" "x \<noteq> dbl_add mx eps"
    using dbl_key_order(2) by (auto simp: zbefore_def)
qed

lemma zrangebyscore_rep:
  assumes "zset_rep (view (ldb s)) name z" "long_enough name"
    "zslParseRange strtod lo hi = Inr spec" "double_text strtod fmt"
    and gap: "isinf (zr_max spec) \<or> dbl_less (zr_max spec) (dbl_add (zr_max spec) eps)"
  shows "zrangebyscore strtod fmt R s name lo hi w offset limit = (if z = Map.empty then 0 else 1,
    concat (map (key_score fmt w) (page offset limit (filter (\<lambda>e. in_range spec (snd e)) (zlist z)))))"
proof -
  have "filter (\<lambda>e. in_range spec (snd e) \<and> (isinf (zr_max spec) \<or> \<not> zbefore ([], dbl_add (zr_max spec) eps) e)) (zlist z) =
    filter (\<lambda>e. in_range spec (snd e)) (zlist z)"
  proof (rule filter_cong [OF refl])
    fix e
    have "isinf (zr_max spec) \<or> \<not> zbefore ([], dbl_add (zr_max spec) eps) e" if "in_range spec (snd e)"
      using that gap range_high(1) [of "zr_max spec" "snd e" "fst e"] zslValue_le(2) [of "snd e" spec]
        zbefore_asym [of e "([], dbl_add (zr_max spec) eps)"] by (auto simp: in_range_def)
    then show "(in_range spec (snd e) \<and> (isinf (zr_max spec) \<or> \<not> zbefore ([], dbl_add (zr_max spec) eps) e)) =
      in_range spec (snd e)" by blast
  qed
  then show ?thesis using zrangebyscore_exact [OF assms(1-4)] by simp
qed

lemma zrevrangebyscore_rep:
  assumes rep: "zset_rep (view (ldb s)) name z" and name: "long_enough name"
    and spec: "zslParseRange strtod lo hi = Inr spec" and rt: "double_text strtod fmt"
    and gap: "dbl_less (zr_max spec) (dbl_add (zr_max spec) eps)"
  shows "zrevrangebyscore strtod fmt R s name hi lo w offset limit = (if z = Map.empty then 0 else 1,
    concat (map (key_score fmt w) (page offset limit (filter (\<lambda>e. in_range spec (snd e)) (rev (zlist z))))))"
  using rep
proof (cases rule: zset_rep_cases)
  case (empty mv)
  then show ?thesis using spec by (simp add: zrevrangebyscore_def genericZrangebyscore_def zlist_def)
next
  case (at v mv)
  note nan = zslParseRange_nan [OF spec] and D = zset_atD [OF at(1)]
  let ?a = "dbl_sub (zr_min spec) eps" and ?b = "dbl_add (zr_max spec) eps"
  let ?it = "zscan_internal strtod R s name (str_double fmt ?b) (str_double fmt ?a) UINT64_MAX BACKWARD v"
  have it: "?it = ZIterator_init (SSDB_rev_iterator R (ldb s) (encode_zscore_key name [] ?b v)
      (encode_zscore_key name [] ?a v) UINT64_MAX) name v"
    using rt [unfolded double_text_def, rule_format, of ?a] rt [unfolded double_text_def, rule_format, of ?b]
      not_nan_eps [of "zr_min spec"] not_nan_eps [of "zr_max spec"] nan by (simp add: zscan_internal_def)
  have "unat UINT64_MAX \<ge> length (zlist z)" using D(5) zlist_facts(4) [OF D(2)] by simp
  then have len: "take (unat UINT64_MAX) (rev (filter P (zlist z))) = rev (filter P (zlist z))" for P
    using order_trans [OF length_filter_le] by (intro take_all) (simp only: length_rev)
  from z_pending_backward [OF D(1) name D(2), of ?b ?a UINT64_MAX, folded it, unfolded len]
  obtain Q where Q: "z_pending BACKWARD bwd name v ?it (rev (filter (\<lambda>e. \<not> zbefore e ([], ?a) \<and> Q e) (zlist z)))"
    "\<forall>e. zbefore e ([], ?b) \<longrightarrow> Q e" "\<forall>e. Q e \<longrightarrow> zbefore e ([], ?b) \<or> snd e = ?b" .
  let ?xs = "rev (filter (\<lambda>e. \<not> zbefore e ([], ?a) \<and> Q e) (zlist z))"
  from bw.zrangebyscore_loop_scan [OF Q(1), of fmt spec True w offset limit "[]"]
  have "zrevrangebyscore strtod fmt R s name hi lo w offset limit =
    (1, concat (map (key_score fmt w) (page offset limit
      (range_scan (\<lambda>e. zslValueLteMax (snd e) spec) (\<lambda>e. zslValueGteMin (snd e) spec) ?xs))))"
    using at(2,3) spec by (simp add: zrevrangebyscore_def genericZrangebyscore_def)
  also have "range_scan (\<lambda>e. zslValueLteMax (snd e) spec) (\<lambda>e. zslValueGteMin (snd e) spec) ?xs =
      rev (filter (\<lambda>e. zslValueLteMax (snd e) spec \<and> zslValueGteMin (snd e) spec)
        (filter (\<lambda>e. \<not> zbefore e ([], ?a) \<and> Q e) (zlist z)))"
    unfolding range_scan_filter [OF sorted_tests_zlist(2) [OF at(1)]] by (simp only: rev_filter)
  also have "\<dots> = filter (\<lambda>e. in_range spec (snd e)) (rev (zlist z))"
    unfolding rev_filter [symmetric] filter_filter
  proof (rule arg_cong [of _ _ rev], rule filter_cong [OF refl])
    fix e
    have "\<not> zbefore e ([], ?a) \<and> Q e" if "in_range spec (snd e)"
      using that range_low [of "zr_min spec" "snd e" "fst e"] range_high(1) [OF gap, of "snd e" "fst e"]
        zslValue_le [of "snd e" spec] nan Q(2) [rule_format, of e] by (simp add: in_range_def)
    then show "((\<not> zbefore e ([], ?a) \<and> Q e) \<and> zslValueLteMax (snd e) spec \<and> zslValueGteMin (snd e) spec) =
      in_range spec (snd e)" by (auto simp: in_range_def)
  qed
  finally show ?thesis using D(4) by simp
qed

lemma zcount_loop_scan:
  assumes "z_pending FORWARD fwd name v it xs"
  shows "zremrangebyscore_loop R s name spec False it c b =
    (1, c + int (length (range_scan (\<lambda>e. zslValueGteMin (snd e) spec) (\<lambda>e. zslValueLteMax (snd e) spec) xs)), b)"
  using assms
proof (induction xs arbitrary: it c)
  case Nil
  then show ?case using fw.z_next_Nil [OF Nil] by (auto simp: zremrangebyscore_loop.simps [of R s name spec False it])
next
  case (Cons e xs)
  obtain f x where e: "e = (f, x)" by force
  from fw.z_next_Cons [OF Cons.prems [unfolded e]] obtain it' where
    "ZIterator_next R it = (True, it')" "z_key it' = f" "z_score it' = x" "z_pending FORWARD fwd name v it' xs" .
  with Cons.IH [of it'] show ?case
    by (simp add: zremrangebyscore_loop.simps [of R s name spec False it] e)
qed

lemma zrem_loop_scan:
  assumes "z_pending FORWARD fwd name v it xs" and cur: "zset_cur (view (ldb s)) name v z0"
    and "zbatch (view (ldb s)) name v b z" "distinct (map fst xs)" "\<forall>e \<in> set xs. z0 (fst e) = Some (snd e) \<and> z (fst e) = Some (snd e)"
  shows "\<exists>b'. zremrangebyscore_loop R s name spec True it c b = (1, c + int (length
      (range_scan (\<lambda>e. zslValueGteMin (snd e) spec) (\<lambda>e. zslValueLteMax (snd e) spec) xs)), b') \<and>
    zbatch (view (ldb s)) name v b' (z |` (- fst ` set
      (range_scan (\<lambda>e. zslValueGteMin (snd e) spec) (\<lambda>e. zslValueLteMax (snd e) spec) xs)))"
  using assms(1,3-)
proof (induction xs arbitrary: it c b z)
  case Nil
  then show ?case using fw.z_next_Nil [OF Nil(1)]
    by (auto simp: zremrangebyscore_loop.simps [of R s name spec True it])
next
  case (Cons e xs)
  obtain f x where e: "e = (f, x)" by force
  from fw.z_next_Cons [OF Cons.prems(1) [unfolded e]] obtain it' where
    it': "ZIterator_next R it = (True, it')" "z_key it' = f" "z_score it' = x" "z_version it' = v"
      "z_pending FORWARD fwd name v it' xs" .
  have zf: "z0 f = Some x" "z f = Some x" using Cons.prems(4) e by auto
  let ?rs = "range_scan (\<lambda>e. zslValueGteMin (snd e) spec) (\<lambda>e. zslValueLteMax (snd e) spec)"
  note step = zremrangebyscore_loop.simps [of R s name spec True it]
  consider "\<not> zslValueGteMin x spec" | "zslValueGteMin x spec" "\<not> zslValueLteMax x spec"
    | "zslValueGteMin x spec" "zslValueLteMax x spec" by blast
  then show ?case
  proof cases
    case 1
    then show ?thesis using Cons.IH [OF it'(5) Cons.prems(2), of c] Cons.prems(3,4) it' by (simp add: step e)
  next
    case 2
    then show ?thesis using Cons.prems(2) it' by (simp add: step e)
  next
    case 3
    let ?b = "b @ [Delete (encode_zscore_key name f x v), Delete (encode_zset_key name f v)]"
    have one: "zdel_one R s b name f v = (1, ?b)"
      using zf(1) by (simp add: zdel_one_def GetZSetItemVal_cur [OF cur])
    have d: "distinct (map fst xs)" "f \<notin> fst ` set xs" using Cons.prems(3) e by auto
    then have "\<forall>e \<in> set xs. z0 (fst e) = Some (snd e) \<and> (z(f := None)) (fst e) = Some (snd e)"
      using Cons.prems(4) by auto
    from Cons.IH [OF it'(5) zbatch_delete [OF Cons.prems(2) zf(2)] d(1) this, of "c + 1"] obtain b' where
      b': "zremrangebyscore_loop R s name spec True it' (c + 1) ?b = (1, c + 1 + int (length (?rs xs)), b')"
        "zbatch (view (ldb s)) name v b' ((z(f := None)) |` (- fst ` set (?rs xs)))" by blast
    have "(z(f := None)) |` (- fst ` set (?rs xs)) = z |` (- fst ` set (?rs (e # xs)))"
      using 3 by (auto simp: restrict_map_def fun_eq_iff e)
    with b' show ?thesis using 3 it' one by (simp add: step e)
  qed
qed

lemma zremrangebyscore_rep:
  assumes rep: "zset_rep (view (ldb s)) name z" and name: "long_enough name"
    and spec: "zslParseRange strtod lo hi = Inr spec" and rt: "double_text strtod fmt"
    and gap: "dbl_less (zr_max spec) (dbl_add (zr_max spec) eps)"
  shows "zremrangebyscore strtod fmt R s name lo hi False 0 =
      (if z = Map.empty then 0 else 1, int (card {f. \<exists>x. z f = Some x \<and> in_range spec x}), s)"
    and "\<exists>s'. zremrangebyscore strtod fmt R s name lo hi True 0 =
        (if zset_minus z (in_range spec) = Map.empty then 0 else 1, int (card {f. \<exists>x. z f = Some x \<and> in_range spec x}), s') \<and>
      zset_rep (view (ldb s')) name (zset_minus z (in_range spec)) \<and> touches_only name (view (ldb s)) (view (ldb s'))"
proof -
  let ?n = "int (card {f. \<exists>x. z f = Some x \<and> in_range spec x})" and ?z = "zset_minus z (in_range spec)"
  have "zremrangebyscore strtod fmt R s name lo hi False 0 = (if z = Map.empty then 0 else 1, ?n, s) \<and>
    (\<exists>s'. zremrangebyscore strtod fmt R s name lo hi True 0 = (if ?z = Map.empty then 0 else 1, ?n, s') \<and>
      zset_rep (view (ldb s')) name ?z \<and> touches_only name (view (ldb s)) (view (ldb s')))"
    using rep
  proof (cases rule: zset_rep_cases)
    case (empty mv)
    then have "?z = Map.empty" by (simp add: zset_minus_def)
    with empty show ?thesis using spec rep by (simp add: zremrangebyscore_def touches_only_def)
  next
    case (at v mv)
    note nan = zslParseRange_nan [OF spec] and D = zset_atD [OF at(1)] and cur = zset_at_cur [OF at(1)]
    note L = zlist_facts [OF D(2)]
    let ?a = "dbl_sub (zr_min spec) eps" and ?b = "dbl_add (zr_max spec) eps"
    let ?it = "zscan_internal strtod R s name (str_double fmt ?a) (str_double fmt ?b) UINT64_MAX FORWARD v"
    let ?xs = "filter (\<lambda>e. \<not> zbefore e ([], ?a) \<and> (False \<or> \<not> zbefore ([], ?b) e)) (zlist z)"
    let ?rs = "range_scan (\<lambda>e. zslValueGteMin (snd e) spec) (\<lambda>e. zslValueLteMax (snd e) spec) ?xs"
    have "z_pending FORWARD fwd name v (zscan_internal strtod R s name (str_double fmt ?a)
        (if False then [] else str_double fmt ?b) UINT64_MAX FORWARD v) ?xs"
      by (rule zscan_scores [OF at(1) name rt]) (use not_nan_eps nan in auto)
    then have pend: "z_pending FORWARD fwd name v ?it ?xs" by simp
    have rs: "?rs = filter (\<lambda>e. in_range spec (snd e)) (zlist z)"
      unfolding range_scan_filter [OF sorted_tests_zlist(1) [OF at(1)]] filter_range_low [OF conjunct1 [OF nan]]
    proof (rule filter_cong [OF refl])
      fix e
      have "\<not> zbefore ([], ?b) e" if "in_range spec (snd e)"
        using that range_high(1) [OF gap, of "snd e" "fst e"] zslValue_le(2) [of "snd e" spec]
          zbefore_asym [of e "([], ?b)"] by (simp add: in_range_def)
      then show "(zslValueGteMin (snd e) spec \<and> (False \<or> \<not> zbefore ([], ?b) e) \<and> zslValueLteMax (snd e) spec) =
        in_range spec (snd e)" by (auto simp: in_range_def)
    qed
    have names: "fst ` set ?rs = {f. \<exists>x. z f = Some x \<and> in_range spec x}"
      unfolding rs using L(1) by (force simp: image_iff)
    have "distinct (map fst ?rs)" unfolding rs using L(3) by (rule distinct_map_filter)
    then have len: "int (length ?rs) = ?n" using distinct_card [of "map fst ?rs"] names by simp
    have ver: "mv_version mv = v" by (rule at(3))
    have 1: "zremrangebyscore strtod fmt R s name lo hi False 0 = (1, ?n, s)"
      unfolding zremrangebyscore_def spec sum.case Let_def at(2) prod.case ver zcount_loop_scan [OF pend] len by simp
    have "distinct (map fst ?xs)" using L(3) by (rule distinct_map_filter)
    moreover have "\<forall>e \<in> set ?xs. z (fst e) = Some (snd e) \<and> z (fst e) = Some (snd e)" using L(1) by auto
    ultimately obtain b where b: "zremrangebyscore_loop R s name spec True ?it 0 [] = (1, 0 + int (length ?rs), b)"
      "zbatch (view (ldb s)) name v b (z |` (- fst ` set ?rs))"
      using zrem_loop_scan [OF pend cur zbatch_Nil [OF cur], of spec 0] by blast
    have zm: "z |` (- fst ` set ?rs) = ?z"
      unfolding names by (auto simp: zset_minus_def restrict_map_def fun_eq_iff split: option.splits)
    have dom: "dom ?z = dom z - fst ` set ?rs" "fst ` set ?rs \<subseteq> dom z"
      unfolding names by (auto simp: zset_minus_def split: option.splits if_splits)
    then have "card (dom ?z) + card (fst ` set ?rs) = card (dom z)"
      using D(2) by (simp add: card_Diff_subset finite_subset card_mono)
    then have n: "- ?n = int (card (dom ?z)) - int (card (dom z))" "card (dom ?z) < 2 ^ 63" "finite (dom ?z)"
      using names D(2,5) dom(1) by simp_all
    have zn: "\<forall>f x. ?z f = Some x \<longrightarrow> \<not> isnan x"
      using at(1) by (auto simp: zset_minus_def zset_at_def split: option.splits if_splits)
    from zset_commit [OF cur at(5) b(2) [unfolded zm] n(3,2,1) zn] obtain s' where
      s': "commit_incr R (incr_zsize R s name b mv (- ?n)) = (if ?z = Map.empty then 0 else 1, s')"
      "zset_rep (view (ldb s')) name ?z" "touches_only name (view (ldb s)) (view (ldb s'))" by blast
    have "zremrangebyscore strtod fmt R s name lo hi True 0 = (if ?z = Map.empty then 0 else 1, ?n, s')"
      unfolding zremrangebyscore_def spec sum.case Let_def at(2) prod.case ver b(1) len using s'(1) by simp
    with 1 s' show ?thesis using D(4) by simp
  qed
  then show "zremrangebyscore strtod fmt R s name lo hi False 0 = (if z = Map.empty then 0 else 1, ?n, s)"
    "\<exists>s'. zremrangebyscore strtod fmt R s name lo hi True 0 = (if ?z = Map.empty then 0 else 1, ?n, s') \<and>
      zset_rep (view (ldb s')) name ?z \<and> touches_only name (view (ldb s)) (view (ldb s'))" by blast+
qed

end

section \<open>Large scores\<close>

text \<open>From 16 on, half the distance to the next double is more than \<open>eps\<close>.\<close>

lemma eps_absorbed:
  assumes "4625196817309499392 \<le> dbl_mag x" "dbl_mag x < DBL_INF" "\<not> dbl_neg x"
  shows "dbl_add x eps = x"
proof -
  have "1027 \<le> dbl_mag x div 4503599627370496" using div_le_mono [OF assms(1), of 4503599627370496] by simp
  then obtain e where e: "dbl_mag x div 4503599627370496 = Suc e" "1026 \<le> e"
    by (cases "dbl_mag x div 4503599627370496") auto
  have "2 * dbl_units (dbl_mag eps) < 2 ^ 1026" by (simp add: eps_parts dbl_units_def Let_def)
  also have "\<dots> \<le> 2 ^ e" using e(2) by (rule power_increasing) simp
  finally show ?thesis using dbl_add_absorb [OF assms(2) _ assms(3) eps_parts(2) e(1)] eps_parts(1) by simp
qed

context rocksdb_rev
begin

lemma boundary_lost:
  assumes rep: "zset_rep (view (ldb s)) name z" "long_enough name"
    "zslParseRange strtod lo hi = Inr spec" "double_text strtod fmt"
    and x: "4625196817309499392 \<le> dbl_mag (zr_max spec)" "dbl_mag (zr_max spec) < DBL_INF" "\<not> dbl_neg (zr_max spec)"
    and f: "z f = Some (zr_max spec)" "f \<noteq> []"
  shows "f \<notin> set (snd (zrangebyscore strtod fmt R s name lo hi False offset limit))"
proof -
  let ?xs = "filter (\<lambda>e. in_range spec (snd e) \<and>
    (isinf (zr_max spec) \<or> \<not> zbefore ([], dbl_add (zr_max spec) eps) e)) (zlist z)"
  obtain v where "zset_at (view (ldb s)) name v z" using rep(1) f(1) by (auto simp: zset_rep_def)
  note L = zlist_facts [OF zset_atD(2) [OF this]]
  have "set (page offset limit ?xs) \<subseteq> set ?xs"
    by (rule page_subset)
  moreover have "f \<notin> fst ` set ?xs"
  proof
    assume "f \<in> fst ` set ?xs"
    then obtain e where "e \<in> set ?xs" "f = fst e" by blast
    then have y: "(f, snd e) \<in> set ?xs" by simp
    then have "snd e = zr_max spec" using L(1) f(1) by auto
    moreover have "zbefore ([], zr_max spec) (f, zr_max spec)" using f(2) by (cases f) (simp_all add: zbefore_def)
    moreover have "\<not> isinf (zr_max spec)" using x(2) by (simp add: isinf_def)
    with y have "\<not> zbefore ([], dbl_add (zr_max spec) eps) (f, snd e)" by simp
    ultimately show False unfolding eps_absorbed [OF x] by simp
  qed
  moreover have "snd (zrangebyscore strtod fmt R s name lo hi False offset limit) = map fst (page offset limit ?xs)"
    unfolding zrangebyscore_exact [OF rep] by (simp add: key_score_def case_prod_unfold)
  ultimately show ?thesis by auto
qed

end

section \<open>An example\<close>

text \<open>Texts of 64 binary digits, least significant first, and the two infinities.\<close>

definition bits_format :: dformat where
  "bits_format x = map (\<lambda>i. if bit x i then 49 else 48) [0..<64]"

definition bits_strtod :: strtod where
  "bits_strtod buf =
     (if buf = [105, 110, 102, 0] then (9218868437227405312, 3, E_NONE)
      else if buf = [45, 105, 110, 102, 0] then (18442240474082181120, 4, E_NONE)
      else (horner_sum of_bool 2 (map (\<lambda>c. c = 49) (take 64 buf)), min 64 (length buf - 1), E_NONE))"

lemma bits_read: "bits_strtod (bits_format x @ [0]) = (x, 64, E_NONE)"
proof -
  have "map (\<lambda>c. c = (49 :: byte)) (bits_format x) = map (bit x) [0..<64]" by (simp add: bits_format_def)
  moreover have "length (bits_format x) = 64" by (simp add: bits_format_def)
  ultimately show ?thesis
    by (auto simp: bits_strtod_def horner_sum_bit_eq_take_bit take_bit_word_eq_self dest: arg_cong [of _ _ length])
qed

lemma bits_first: "bits_format x ! 0 = 48 \<or> bits_format x ! 0 = 49" "length (bits_format x) = 64"
  by (auto simp: bits_format_def)

lemma isinf_bits: "isinf x \<Longrightarrow> x = (if dbl_neg x then 18442240474082181120 else 9218868437227405312)"
  using dbl_make_self [of x] by (auto simp: isinf_def dbl_make_def)

lemma bits_text: "double_text bits_strtod bits_format"
  unfolding double_text_def
proof (intro allI impI)
  fix x
  assume nan: "\<not> isnan x"
  show "str_double bits_format x \<noteq> [] \<and> Bytes_Double bits_strtod (str_double bits_format x) = x"
  proof (cases "isinf x")
    case True
    show ?thesis
    proof (cases "dbl_neg x")
      case neg: True
      then have x: "x = 18442240474082181120" using isinf_bits [OF True] by simp
      show ?thesis unfolding x by (simp add: str_double_def ld2string_def isinf_def dbl_mag_def dbl_less_def dbl_key_def
            dbl_neg_def isnan_def Bytes_Double_def str_to_double_def bits_strtod_def isspace_def)
    next
      case pos: False
      then have x: "x = 9218868437227405312" using isinf_bits [OF True] by simp
      show ?thesis unfolding x by (simp add: str_double_def ld2string_def isinf_def dbl_mag_def dbl_less_def dbl_key_def
            dbl_neg_def isnan_def Bytes_Double_def str_to_double_def bits_strtod_def isspace_def)
    qed
  next
    case False
    then have s: "str_double bits_format x = bits_format x" using bits_first(2) [of x]
      by (simp add: str_double_def ld2string_def)
    have "bits_format x \<noteq> []" using bits_first(2) [of x] by auto
    then show ?thesis unfolding s using bits_first [of x] nan
      by (auto simp: Bytes_Double_def str_to_double_def bits_read isspace_def nth_append)
  qed
qed

section \<open>Properties\<close>

text \<open>
  \<open>zrank\<close> and \<open>zrrank\<close> return the number of members that come before the member, in
  the order of the scores and, for equal scores, of the names, respectively after it; -1 when
  it is no member.
\<close>

theorem zset_rank_correct:
  assumes "rocksdb_rev R view fwd bwd" "zset_rep (view (ldb s)) name z" "long_enough name" "card (dom z) < 2 ^ 31"
  shows "zrank strtod R s name key rank = (if z = Map.empty then (0, rank) else (1, rank_of z key)) \<and>
    zrrank strtod R s name key rank = (if z = Map.empty then (0, rank) else (1, rev_rank_of z key))"
  using rocksdb_rev.zrank_dir_rep [OF assms] by (simp add: zrank_def zrrank_def)

text \<open>
  C35: \<open>zrange\<close> and \<open>zrrange\<close> return the members at the positions from the first to the last,
  both inclusive and counted from the end when negative, in ascending respectively descending
  order, with their scores when asked for.
\<close>

theorem zset_range_correct:
  assumes "rocksdb_rev R view fwd bwd" "zset_rep (view (ldb s)) name z" "long_enough name" "card (dom z) < 2 ^ 31"
    "string2ll t = Some i" "string2ll u = Some j"
  shows "zrange strtod fmt R s name t u w =
      (if z = Map.empty then 0 else 1, concat (map (key_score fmt w) (list_slice (zlist z) i j))) \<and>
    zrrange strtod fmt R s name t u w =
      (if z = Map.empty then 0 else 1, concat (map (key_score fmt w) (list_slice (rev (zlist z)) i j))) \<and>
    set (zlist z) = {(f, x). z f = Some x} \<and> sorted_wrt zbefore (zlist z)"
proof -
  have "finite (dom z)" using assms(2) by (auto simp: zset_rep_def dest: zset_atD(2))
  then show ?thesis
    using rocksdb_rev.zrangeGeneric_rep [OF assms] zlist_facts(1,2) by (simp add: zrange_def zrrange_def)
qed

text \<open>
  Ranges by score. When \<open>eps\<close> moves the upper bound (or, for the ascending form, the bound is
  infinite), \<open>zrangebyscore\<close> and \<open>zrevrangebyscore\<close> return exactly the members whose scores lie
  in the interval, open ends excluded, in order and cut to the requested page.
\<close>

theorem zset_rangebyscore_correct:
  assumes "rocksdb_rev R view fwd bwd" "zset_rep (view (ldb s)) name z" "long_enough name"
    "zslParseRange strtod lo hi = Inr spec" "double_text strtod fmt"
    "dbl_less (zr_max spec) (dbl_add (zr_max spec) eps)"
  shows "zrangebyscore strtod fmt R s name lo hi w offset limit = (if z = Map.empty then 0 else 1,
      concat (map (key_score fmt w) (page offset limit (filter (\<lambda>e. in_range spec (snd e)) (zlist z))))) \<and>
    zrevrangebyscore strtod fmt R s name hi lo w offset limit = (if z = Map.empty then 0 else 1,
      concat (map (key_score fmt w) (page offset limit (filter (\<lambda>e. in_range spec (snd e)) (rev (zlist z))))))"
  using rocksdb_rev.zrangebyscore_rep [OF assms(1-5) disjI2 [OF assms(6)]]
    rocksdb_rev.zrevrangebyscore_rep [OF assms] by simp

text \<open>
  \<open>zremrangebyscore\<close> counts the members with a score in the interval, and when asked to
  removes exactly these, with members, index and counter in step.
\<close>

theorem zset_remrangebyscore_correct:
  assumes "rocksdb_rev R view fwd bwd" "zset_rep (view (ldb s)) name z" "long_enough name"
    "zslParseRange strtod lo hi = Inr spec" "double_text strtod fmt"
    "dbl_less (zr_max spec) (dbl_add (zr_max spec) eps)"
  shows "zremrangebyscore strtod fmt R s name lo hi False 0 =
      (if z = Map.empty then 0 else 1, int (card {f. \<exists>x. z f = Some x \<and> in_range spec x}), s) \<and>
    (\<exists>s'. zremrangebyscore strtod fmt R s name lo hi True 0 =
        (if zset_minus z (in_range spec) = Map.empty then 0 else 1, int (card {f. \<exists>x. z f = Some x \<and> in_range spec x}), s') \<and>
      zset_rep (view (ldb s')) name (zset_minus z (in_range spec)) \<and> touches_only name (view (ldb s)) (view (ldb s')))"
  using rocksdb_rev.zremrangebyscore_rep [OF assms] by blast

text \<open>
  C36: From 16 on \<open>eps\<close> is lost in the rounding of the upper bound, and the scan ends before the
  members whose score is the bound itself: \<open>zrangebyscore\<close> never returns a member with a score
  equal to the upper bound of its closed interval, although the interval contains it.
\<close>

theorem zset_rangebyscore_boundary_lost:
  assumes "rocksdb_rev R view fwd bwd" "zset_rep (view (ldb s)) name z" "long_enough name"
    "zslParseRange strtod lo hi = Inr spec" "double_text strtod fmt"
    "4625196817309499392 \<le> dbl_mag (zr_max spec)" "dbl_mag (zr_max spec) < DBL_INF" "\<not> dbl_neg (zr_max spec)"
    "z f = Some (zr_max spec)" "f \<noteq> []"
  shows "f \<notin> set (snd (zrangebyscore strtod fmt R s name lo hi False offset limit))"
  by (rule rocksdb_rev.boundary_lost [OF assms])

section \<open>Witnesses\<close>

lemma zset_example_zlist: "zlist zset_example_map = [([97], dbl_one), ([98], dbl_two)]"
proof -
  have b: "zbefore ([97], dbl_one) ([98], dbl_two)" by (simp add: zbefore_def score_less_def)
  have d: "dom (zindex zset_example_map) = {score_field dbl_one [97], score_field dbl_two [98]}"
    by (simp add: dom_zindex zset_example_map)
  have "sorted_list_of_set (dom (zindex zset_example_map)) = [score_field dbl_one [97], score_field dbl_two [98]]"
    unfolding d using b by (simp add: score_field_less [symmetric] insort_key.simps less_imp_le)
  then show ?thesis by (simp add: zlist_def)
qed

theorem zset_rank_correct_witness:
  "zrank bits_strtod mem_rocksdb zset_example [122] [98] 0 = (1, 1) \<and>
   zrrank bits_strtod mem_rocksdb zset_example [122] [98] 0 = (1, 0)"
proof -
  have r: "rank_of zset_example_map [98] = 1" "rev_rank_of zset_example_map [98] = 0"
    using rank_of_position [of zset_example_map "[98]" dbl_two] by (simp_all add: zset_example_zlist zset_example_map)
  show ?thesis
    using zset_rank_correct [OF memr.rocksdb_rev_axioms zset_example_rep, of bits_strtod "[98]" 0] r
    by (simp add: zset_example_map)
qed

theorem zset_range_correct_witness:
  "zrange bits_strtod bits_format mem_rocksdb zset_example [122] [48] [45, 49] False = (1, [[97], [98]]) \<and>
   zrrange bits_strtod bits_format mem_rocksdb zset_example [122] [48] [48] False = (1, [[98]])"
proof -
  have s: "string2ll [48] = Some 0" "string2ll [45, 49] = Some (- 1)" by code_simp+
  show ?thesis
    using zset_range_correct [OF memr.rocksdb_rev_axioms zset_example_rep _ _ s, of bits_strtod bits_format False]
      zset_range_correct [OF memr.rocksdb_rev_axioms zset_example_rep _ _ s(1) s(1), of bits_strtod bits_format False]
    by (simp add: zset_example_map zset_example_zlist list_slice_def key_score_def)
qed

lemma bits_bound: "\<not> isnan x \<Longrightarrow> zslParseBound bits_strtod e (bits_format x) = Inr (x, False)"
proof -
  assume nan: "\<not> isnan x"
  have "(bits_format x @ [0]) ! 0 \<noteq> 40" "(bits_format x @ [0]) ! 64 = 0" using bits_first [of x] by (auto simp: nth_append)
  then show ?thesis using nan unfolding zslParseBound_def Let_def bits_read by simp
qed

lemma bits_range: "\<not> isnan x \<Longrightarrow> \<not> isnan y \<Longrightarrow> zslParseRange bits_strtod (bits_format x) (bits_format y) =
  Inr \<lparr>zr_min = x, zr_max = y, zr_minex = False, zr_maxex = False\<rparr>"
  by (simp add: zslParseRange_def bits_bound)

text \<open>A summand of a unit in the last place or more moves the sum.\<close>

lemma dbl_add_above:
  assumes "Suc (dbl_mag a) < DBL_INF" "dbl_mag b < DBL_INF" "\<not> dbl_neg a" "\<not> dbl_neg b"
    and big: "dbl_units (Suc (dbl_mag a)) \<le> dbl_units (dbl_mag a) + dbl_units (dbl_mag b)"
  shows "dbl_less a (dbl_add a b)"
proof -
  let ?n = "dbl_units (dbl_mag a) + dbl_units (dbl_mag b)"
  have r: "Suc (dbl_mag a) \<le> dbl_round ?n"
    using dbl_round_mono [OF big] dbl_round_units [of "Suc (dbl_mag a)"] assms(1) by simp
  have "dbl_round 0 = 0" by (simp add: dbl_round_def Let_def bit_length.simps [of 0])
  then have "?n \<noteq> 0" using r by (intro notI) simp
  have i: "dbl_int a + dbl_int b = int ?n" using assms(3,4) by (simp add: dbl_int_def)
  have "dbl_int a + dbl_int b \<noteq> 0" unfolding i using \<open>?n \<noteq> 0\<close> by linarith
  note p = dbl_add_parts [OF _ assms(2) this, unfolded i abs_of_nat nat_int]
  show ?thesis using p r assms(1,3) dbl_round_le [of ?n] by (simp add: dbl_less_def isnan_def dbl_key_def)
qed

lemma one_plus_eps: "dbl_less dbl_one (dbl_add dbl_one eps)"
proof (rule dbl_add_above)
  show "dbl_units (Suc (dbl_mag dbl_one)) \<le> dbl_units (dbl_mag dbl_one) + dbl_units (dbl_mag eps)"
    unfolding eps_parts by (simp add: dbl_mag_def dbl_units_def Let_def)
qed (simp_all add: eps_parts, simp_all add: dbl_mag_def dbl_neg_def)

lemma example_in_range:
  "in_range \<lparr>zr_min = dbl_one, zr_max = dbl_one, zr_minex = False, zr_maxex = False\<rparr> = (\<lambda>x. dbl_eq x dbl_one)"
  by (rule ext) (auto simp: in_range_def zslValueGteMin_def zslValueLteMax_def dbl_le_def dbl_eq_def)

lemma example_not_nan: "\<not> isnan dbl_one" "\<not> dbl_eq dbl_two dbl_one" "dbl_eq dbl_one dbl_one"
  by (simp_all add: isnan_def dbl_mag_def dbl_eq_def dbl_key_def dbl_neg_def)

theorem zset_rangebyscore_correct_witness:
  "zrangebyscore bits_strtod bits_format mem_rocksdb zset_example [122] (bits_format dbl_one) (bits_format dbl_one)
     False 0 (- 1) = (1, [[97]])"
  using zset_rangebyscore_correct [OF memr.rocksdb_rev_axioms zset_example_rep _
      bits_range [OF example_not_nan(1,1)] bits_text, of False 0 "- 1"] one_plus_eps
  by (simp add: zset_example_map zset_example_zlist page_def key_score_def example_in_range example_not_nan)

theorem zset_remrangebyscore_correct_witness:
  "zremrangebyscore bits_strtod bits_format mem_rocksdb zset_example [122] (bits_format dbl_one) (bits_format dbl_one)
     False 0 = (1, 1, zset_example) \<and>
   (\<exists>s'. zremrangebyscore bits_strtod bits_format mem_rocksdb zset_example [122] (bits_format dbl_one) (bits_format dbl_one)
     True 0 = (1, 1, s'))"
proof -
  have m: "{f. \<exists>x. zset_example_map f = Some x \<and> dbl_eq x dbl_one} = {[97]}"
    using example_not_nan by (auto simp: zset_example_map_def split: if_splits)
  have "zset_minus zset_example_map (\<lambda>x. dbl_eq x dbl_one) [98] \<noteq> None"
    using example_not_nan by (simp add: zset_minus_def zset_example_map)
  then have "zset_minus zset_example_map (\<lambda>x. dbl_eq x dbl_one) \<noteq> Map.empty" by force
  then show ?thesis
    using zset_remrangebyscore_correct [OF memr.rocksdb_rev_axioms zset_example_rep _
        bits_range [OF example_not_nan(1,1)] bits_text] one_plus_eps m
    by (auto simp: zset_example_map example_in_range)
qed

text \<open>A set with one member of score 16.\<close>

abbreviation dbl_sixteen :: u64 where "dbl_sixteen \<equiv> 4625196817309499392"

definition sixteen_example :: "(bytes \<times> bytes) list ssdb" where
  "sixteen_example = empty_store\<lparr>ldb :=
     [(encode_meta_key [122], encode_zset_meta_val 1 0 KEY_ENABLED_MASK),
      (encode_zset_key [122] [97] 0, raw64 dbl_sixteen), (encode_zscore_key [122] [97] dbl_sixteen 0, [])]\<rparr>"

lemma sixteen_example_rep: "zset_rep (map_of (ldb sixteen_example)) [122] [[97] \<mapsto> dbl_sixteen]"
proof -
  let ?m = "map_of (ldb sixteen_example)"
  have "item_map [122] 0 ?m = zitems [[97] \<mapsto> dbl_sixteen]"
    by (auto simp: sixteen_example_def item_map_def encode_zset_key_def zscore_key_internal zitems_def fun_eq_iff)
  moreover have "score_map [122] 0 ?m = zindex [[97] \<mapsto> dbl_sixteen]"
    by (rule zindex_eqI)
      (auto simp: sixteen_example_def score_map_def encode_zset_key_def zscore_key_internal)
  ultimately show ?thesis
    by (auto simp: zset_rep_def zset_at_def coll_at_def sixteen_example_def encode_zset_meta_val_def
        isnan_def dbl_mag_def intro!: exI [of _ 0])
qed

theorem zset_rangebyscore_boundary_lost_witness:
  "[97] \<notin> set (snd (zrangebyscore bits_strtod bits_format mem_rocksdb sixteen_example [122]
     (bits_format dbl_sixteen) (bits_format dbl_sixteen) False 0 (- 1)))"
proof -
  have nan: "\<not> isnan dbl_sixteen" by (simp add: isnan_def dbl_mag_def)
  show ?thesis
    using zset_rangebyscore_boundary_lost [OF memr.rocksdb_rev_axioms sixteen_example_rep _
      bits_range [OF nan nan] bits_text, of "[97]" 0 "- 1"] by (simp add: dbl_mag_def dbl_neg_def)
qed

end
