(* ===== verification/ZLex.thy ===== *)
theory ZLex
  imports ZRange
begin

text \<open>
  Sorted sets: ranges by the names of the members (\<^verbatim>\<open>ZRANGEBYLEX\<close> and its relatives in
  \<^verbatim>\<open>src/src/storage/t_zset.cpp\<close>), read with a lexicographic iterator from the member entries.
  Every command is proved to return the members in the interval its two arguments describe.
\<close>

section \<open>Operations\<close>

definition ZSET_INVALID_STR :: int where "ZSET_INVALID_STR = -19"

record 'it ZIteratorByLex =
  x_it :: "'it Iterator"
  x_name :: bytes
  x_key :: bytes
  x_version :: u16

definition ZIteratorByLex_init :: "'it Iterator \<Rightarrow> bytes \<Rightarrow> u16 \<Rightarrow> 'it ZIteratorByLex" where
  "ZIteratorByLex_init i name version = \<lparr>x_it = i, x_name = name, x_key = [], x_version = version\<rparr>"

function ZIteratorByLex_next :: "('db, 'it) rocksdb \<Rightarrow> 'it ZIteratorByLex \<Rightarrow> bool \<times> 'it ZIteratorByLex" where
  "ZIteratorByLex_next R x =
     (case Iterator_next R (x_it x) of
        (False, i) \<Rightarrow> (False, x\<lparr>x_it := i\<rparr>)
      | (True, i) \<Rightarrow>
          let x = x\<lparr>x_it := i\<rparr>; ks = Iterator_key R i in
          (case DecodeItemKey ks of
             None \<Rightarrow> ZIteratorByLex_next R x
           | Some zk \<Rightarrow>
               if ik_key zk \<noteq> x_name x \<or> ik_version zk \<noteq> x_version x then (False, x)
               else (True, x\<lparr>x_key := ik_field zk\<rparr>)))"
  by pat_completeness auto
termination
  by (relation "measure (\<lambda>(R, x). unat (iter_limit (x_it x)))") (auto dest: Iterator_next_limit')

declare ZIteratorByLex_next.simps [simp del]

lemma ZIteratorByLex_next_limit:
  "ZIteratorByLex_next R h = (True, h') \<Longrightarrow> unat (iter_limit (x_it h')) < unat (iter_limit (x_it h))"
proof (induction R h rule: ZIteratorByLex_next.induct)
  case (1 R h)
  obtain ok i where n: "Iterator_next R (x_it h) = (ok, i)" by force
  with 1(2) have ok: "ok" by (cases ok) (auto simp: ZIteratorByLex_next.simps [of R h])
  have lim: "unat (iter_limit i) < unat (iter_limit (x_it h))"
    using n ok Iterator_next_limit [of R "x_it h" i] by simp
  from 1 n ok lim show ?case
    by (fastforce simp: ZIteratorByLex_next.simps [of R h] Let_def split: if_splits option.splits)
qed

lemmas ZIteratorByLex_next_limit' = ZIteratorByLex_next_limit [OF sym]

function ZIteratorByLex_skip :: "('db, 'it) rocksdb \<Rightarrow> u64 \<Rightarrow> 'it ZIteratorByLex \<Rightarrow> bool \<times> 'it ZIteratorByLex" where
  "ZIteratorByLex_skip R offset z =
     (if offset > 0 then
        (case ZIteratorByLex_next R z of
           (False, z) \<Rightarrow> (False, z)
         | (True, z) \<Rightarrow> ZIteratorByLex_skip R (offset - 1) z)
      else (True, z))"
  by pat_completeness auto
termination
  by (relation "measure (\<lambda>(R, offset, z). unat offset)") (auto simp: unat_minus_one unat_gt_0 word_neq_0_conv)

definition zscanbylex_internal ::
  "('db, 'it) rocksdb \<Rightarrow> 'db ssdb \<Rightarrow> bytes \<Rightarrow> bytes \<Rightarrow> bytes \<Rightarrow> u64 \<Rightarrow> Direction \<Rightarrow> u16 \<Rightarrow> 'it ZIteratorByLex" where
  "zscanbylex_internal R s name key_start key_end limit direction version =
     (let start = encode_zset_key name key_start version;
          end = (if key_end \<noteq> [] then encode_zset_key name key_end version else [])
      in if direction = FORWARD
         then ZIteratorByLex_init (SSDB_iterator R (ldb s) start end limit) name version
         else ZIteratorByLex_init (SSDB_rev_iterator R (ldb s) start end limit) name version)"

record zlexrangespec =
  zl_min :: bytes
  zl_max :: bytes
  zl_minex :: bool
  zl_maxex :: bool

text \<open>
  The text of a bound. Taking the rest of an empty text builds a \<^verbatim>\<open>std::string\<close> of length
  -1, which throws \<^verbatim>\<open>std::length_error\<close>: the result is \<open>None\<close>. Otherwise it is an error
  (\<open>Inl\<close>) or the bound with the sign of exclusion. The byte after the text is 0.
\<close>

definition zslParseLexRangeItem :: "bytes \<Rightarrow> (int + bytes \<times> bool) option" where
  "zslParseLexRangeItem item =
     (if item = [] then None
      else
        let tmp = tl item; c = hd item in
        Some (if c = 43 \<or> c = 45 then
                if (item @ [0]) ! 1 \<noteq> 0 then Inl (-1) else Inr ([], False)
              else if c = 40 then Inr (tmp, True)
              else if c = 91 then Inr (tmp, False)
              else Inl (-1)))"

definition zslParseLexRange :: "bytes \<Rightarrow> bytes \<Rightarrow> (int + zlexrangespec) option" where
  "zslParseLexRange lo hi =
     (case zslParseLexRangeItem lo of
        None \<Rightarrow> None
      | Some (Inl _) \<Rightarrow> Some (Inl SYNTAX_ERR)
      | Some (Inr (mn, minex)) \<Rightarrow>
          (case zslParseLexRangeItem hi of
             None \<Rightarrow> None
           | Some (Inl _) \<Rightarrow> Some (Inl SYNTAX_ERR)
           | Some (Inr (mx, maxex)) \<Rightarrow>
               Some (Inr \<lparr>zl_min = mn, zl_max = mx, zl_minex = minex, zl_maxex = maxex\<rparr>)))"

definition zslLexValueGteMin :: "bytes \<Rightarrow> zlexrangespec \<Rightarrow> bool" where
  "zslLexValueGteMin val spec = (if zl_minex spec then val > zl_min spec else val \<ge> zl_min spec)"

definition zslLexValueLteMax :: "bytes \<Rightarrow> zlexrangespec \<Rightarrow> bool" where
  "zslLexValueLteMax val spec =
     (if zl_max spec = [] then True else if zl_maxex spec then val < zl_max spec else val \<le> zl_max spec)"

text \<open>The test all commands share: the interval of \<open>lo\<close> and \<open>hi\<close> is empty.\<close>

definition lex_range_empty :: "bytes \<Rightarrow> bytes \<Rightarrow> zlexrangespec \<Rightarrow> bool" where
  "lex_range_empty lo hi spec \<longleftrightarrow>
     hd lo = 43 \<or> hd hi = 45 \<or> (zl_min spec > zl_max spec \<and> hd hi \<noteq> 43) \<or>
     (zl_min spec = [] \<and> zl_max spec = [] \<and> hd hi \<noteq> 43) \<or>
     (zl_min spec = zl_max spec \<and> zl_max spec \<noteq> [] \<and> (zl_minex spec \<or> zl_maxex spec))"

function zrangebylex_loop ::
  "('db, 'it) rocksdb \<Rightarrow> zlexrangespec \<Rightarrow> bool \<Rightarrow> 'it ZIteratorByLex \<Rightarrow> int \<Rightarrow> int \<Rightarrow> int \<Rightarrow> bytes list \<Rightarrow> int \<times> bytes list" where
  "zrangebylex_loop R spec save it offset limit count keys =
     (case ZIteratorByLex_next R it of
        (False, it) \<Rightarrow> (count, keys)
      | (True, it) \<Rightarrow>
          if \<not> zslLexValueGteMin (x_key it) spec then zrangebylex_loop R spec save it offset limit count keys
          else if \<not> zslLexValueLteMax (x_key it) spec then (count, keys)
          else if save then
            if offset = 0 then
              if limit \<noteq> 0 then zrangebylex_loop R spec save it offset (limit - 1) (count + 1) (keys @ [x_key it])
              else (count + 1, keys)
            else zrangebylex_loop R spec save it (offset - 1) limit (count + 1) keys
          else zrangebylex_loop R spec save it offset limit (count + 1) keys)"
  by pat_completeness auto
termination
  by (relation "measure (\<lambda>(R, spec, save, it, a). unat (iter_limit (x_it it)))") (auto dest: ZIteratorByLex_next_limit')

text \<open>\<open>None\<close>: the exception of an empty bound.\<close>

definition genericZrangebylex ::
  "('db, 'it) rocksdb \<Rightarrow> 'db ssdb \<Rightarrow> bytes \<Rightarrow> bytes \<Rightarrow> bytes \<Rightarrow> bytes list \<Rightarrow> int \<Rightarrow> int \<Rightarrow> bool \<Rightarrow> int \<Rightarrow>
     (int \<times> int \<times> bytes list) option" where
  "genericZrangebylex R s name key_start key_end keys offset limit save count =
     (case zslParseLexRange key_start key_end of
        None \<Rightarrow> None
      | Some (Inl _) \<Rightarrow> Some (ZSET_INVALID_STR, count, keys)
      | Some (Inr spec) \<Rightarrow>
          if lex_range_empty key_start key_end spec then Some (1, count, keys)
          else
            (case GetZSetMetaVal R s (encode_meta_key name) of (ret, zv) \<Rightarrow>
               if ret \<le> 0 then Some (ret, count, keys)
               else
                 let it = zscanbylex_internal R s name (zl_min spec) (zl_max spec) UINT64_MAX FORWARD (mv_version zv)
                 in Some (1, zrangebylex_loop R spec save it offset limit count keys)))"

definition zlexcount ::
  "('db, 'it) rocksdb \<Rightarrow> 'db ssdb \<Rightarrow> bytes \<Rightarrow> bytes \<Rightarrow> bytes \<Rightarrow> int \<Rightarrow> (int \<times> int) option" where
  "zlexcount R s name key_start key_end count =
     map_option (\<lambda>(ret, count, keys). (ret, count)) (genericZrangebylex R s name key_start key_end [] 0 (-1) False count)"

definition zrangebylex ::
  "('db, 'it) rocksdb \<Rightarrow> 'db ssdb \<Rightarrow> bytes \<Rightarrow> bytes \<Rightarrow> bytes \<Rightarrow> bytes list \<Rightarrow> int \<Rightarrow> int \<Rightarrow> (int \<times> bytes list) option" where
  "zrangebylex R s name key_start key_end keys offset limit =
     map_option (\<lambda>(ret, count, keys). (ret, keys)) (genericZrangebylex R s name key_start key_end keys offset limit True 0)"

function zremrangebylex_loop ::
  "('db, 'it) rocksdb \<Rightarrow> 'db ssdb \<Rightarrow> bytes \<Rightarrow> zlexrangespec \<Rightarrow> 'it ZIteratorByLex \<Rightarrow> int \<Rightarrow> int \<Rightarrow> batch \<Rightarrow> int \<times> int \<times> batch" where
  "zremrangebylex_loop R s name spec it ret count batch =
     (case ZIteratorByLex_next R it of
        (False, it) \<Rightarrow> (ret, count, batch)
      | (True, it) \<Rightarrow>
          if zslLexValueGteMin (x_key it) spec then
            if zslLexValueLteMax (x_key it) spec then
              (case zdel_one R s batch name (x_key it) (x_version it) of (ret, batch) \<Rightarrow>
                 if ret < 0 then (ret, count + 1, batch)
                 else zremrangebylex_loop R s name spec it ret (count + 1) batch)
            else (ret, count, batch)
          else zremrangebylex_loop R s name spec it ret count batch)"
  by pat_completeness auto
termination
  by (relation "measure (\<lambda>(R, s, n, spec, it, a). unat (iter_limit (x_it it)))") (auto dest: ZIteratorByLex_next_limit')

definition zremrangebylex ::
  "('db, 'it) rocksdb \<Rightarrow> 'db ssdb \<Rightarrow> bytes \<Rightarrow> bytes \<Rightarrow> bytes \<Rightarrow> int \<Rightarrow> (int \<times> int \<times> 'db ssdb) option" where
  "zremrangebylex R s name key_start key_end count =
     (case zslParseLexRange key_start key_end of
        None \<Rightarrow> None
      | Some (Inl _) \<Rightarrow> Some (SYNTAX_ERR, count, s)
      | Some (Inr spec) \<Rightarrow>
          if lex_range_empty key_start key_end spec then Some (1, count, s)
          else
            (case GetZSetMetaVal R s (encode_meta_key name) of (ret, zv) \<Rightarrow>
               if ret \<le> 0 then Some (ret, count, s)
               else
                 let it = zscanbylex_internal R s name (zl_min spec) (zl_max spec) UINT64_MAX FORWARD (mv_version zv)
                 in case zremrangebylex_loop R s name spec it ret count [] of (ret, count, batch) \<Rightarrow>
                      if ret < 0 then Some (ret, count, s)
                      else (case commit_incr R (incr_zsize R s name batch zv (-1 * count)) of
                              (ret, s) \<Rightarrow> Some (ret, count, s))))"

function zrevrangebylex_loop ::
  "('db, 'it) rocksdb \<Rightarrow> zlexrangespec \<Rightarrow> 'it ZIteratorByLex \<Rightarrow> bytes list \<Rightarrow> bytes list" where
  "zrevrangebylex_loop R spec it tmp_stack =
     (case ZIteratorByLex_next R it of
        (False, it) \<Rightarrow> tmp_stack
      | (True, it) \<Rightarrow>
          if zslLexValueGteMin (x_key it) spec then
            if zslLexValueLteMax (x_key it) spec then zrevrangebylex_loop R spec it (x_key it # tmp_stack)
            else tmp_stack
          else zrevrangebylex_loop R spec it tmp_stack)"
  by pat_completeness auto
termination
  by (relation "measure (\<lambda>(R, spec, it, a). unat (iter_limit (x_it it)))") (auto dest: ZIteratorByLex_next_limit')

fun zrevrangebylex_pop :: "bytes list \<Rightarrow> int \<Rightarrow> int \<Rightarrow> bytes list \<Rightarrow> bytes list" where
  "zrevrangebylex_pop [] offset limit keys = keys"
| "zrevrangebylex_pop (e # tmp_stack) offset limit keys =
     (if offset = 0 then
        if limit \<noteq> 0 then zrevrangebylex_pop tmp_stack offset (limit - 1) (keys @ [e]) else keys
      else zrevrangebylex_pop tmp_stack (offset - 1) limit keys)"

definition zrevrangebylex ::
  "('db, 'it) rocksdb \<Rightarrow> 'db ssdb \<Rightarrow> bytes \<Rightarrow> bytes \<Rightarrow> bytes \<Rightarrow> bytes list \<Rightarrow> int \<Rightarrow> int \<Rightarrow> (int \<times> bytes list) option" where
  "zrevrangebylex R s name key_start key_end keys offset limit =
     (case zslParseLexRange key_end key_start of
        None \<Rightarrow> None
      | Some (Inl _) \<Rightarrow> Some (ZSET_INVALID_STR, keys)
      | Some (Inr spec) \<Rightarrow>
          if lex_range_empty key_end key_start spec then Some (1, keys)
          else
            (case GetZSetMetaVal R s (encode_meta_key name) of (ret, zv) \<Rightarrow>
               if ret \<le> 0 then Some (ret, keys)
               else
                 let it = zscanbylex_internal R s name (zl_min spec) (zl_max spec) UINT64_MAX FORWARD (mv_version zv)
                 in Some (1, zrevrangebylex_pop (zrevrangebylex_loop R spec it []) offset limit keys)))"

lemmas lex_loops [simp del] = ZIteratorByLex_skip.simps zrangebylex_loop.simps
  zremrangebylex_loop.simps zrevrangebylex_loop.simps

section \<open>What the scan yields\<close>

definition x_pending ::
  "Direction \<Rightarrow> ('it \<Rightarrow> (bytes \<times> bytes) list) \<Rightarrow> bytes \<Rightarrow> u16 \<Rightarrow> 'it ZIteratorByLex \<Rightarrow> bytes list \<Rightarrow> bool" where
  "x_pending d lst name v it fs \<longleftrightarrow> x_name it = name \<and> x_version it = v \<and>
     (\<exists>es. yields d lst (x_it it) es \<and> map fst (item_scan name v es) = fs)"

abbreviation lex_scan :: "zlexrangespec \<Rightarrow> bytes list \<Rightarrow> bytes list" where
  "lex_scan spec \<equiv> range_scan (\<lambda>f. zslLexValueGteMin f spec) (\<lambda>f. zslLexValueLteMax f spec)"

context iter_walk
begin

lemma x_next:
  assumes "x_pending d lst name v it fs"
  shows "case fs of [] \<Rightarrow> \<exists>it'. ZIteratorByLex_next R it = (False, it')
    | f # r \<Rightarrow> \<exists>it'. ZIteratorByLex_next R it = (True, it') \<and> x_key it' = f \<and> x_version it' = v \<and>
        x_pending d lst name v it' r"
proof -
  from assms obtain es where "x_name it = name" "x_version it = v" "yields d lst (x_it it) es"
    "fs = map fst (item_scan name v es)" by (auto simp: x_pending_def)
  then show ?thesis
  proof (induction es arbitrary: it)
    case Nil
    then show ?case
      using next_yields_Nil [of "x_it it"] by (auto simp: ZIteratorByLex_next.simps [of R it])
  next
    case (Cons e es)
    obtain k x where e: "e = (k, x)" by force
    from next_yields_Cons [OF Cons.prems(3)] obtain i' where
      i': "Iterator_next R (x_it it) = (True, i')" "yields d lst i' es" "Iterator_key R i' = k" by (auto simp: e)
    show ?case
    proof (cases "DecodeItemKey k")
      case None
      with i' have eq: "ZIteratorByLex_next R it = ZIteratorByLex_next R (it\<lparr>x_it := i'\<rparr>)"
        by (simp add: ZIteratorByLex_next.simps [of R it] Let_def)
      have "fs = map fst (item_scan name v es)" using Cons.prems(4) None by (simp add: e)
      then show ?thesis unfolding eq using Cons.prems i' by (intro Cons.IH) simp_all
    next
      case (Some zk)
      then show ?thesis using i' Cons.prems
        by (auto simp: ZIteratorByLex_next.simps [of R it] Let_def e x_pending_def)
    qed
  qed
qed

lemma x_next_Nil: "x_pending d lst name v it [] \<Longrightarrow> \<exists>it'. ZIteratorByLex_next R it = (False, it')"
  using x_next [of name v it "[]"] by simp

lemma x_next_Cons:
  assumes "x_pending d lst name v it (f # fs)"
  obtains it' where "ZIteratorByLex_next R it = (True, it')" "x_key it' = f" "x_version it' = v"
    "x_pending d lst name v it' fs"
  using x_next [OF assms] by auto

lemma zrangebylex_loop_scan:
  assumes "x_pending d lst name v it fs"
  shows "snd (zrangebylex_loop R spec True it offset limit c keys) = keys @ page offset limit (lex_scan spec fs)"
    "zrangebylex_loop R spec False it offset limit c keys = (c + int (length (lex_scan spec fs)), keys)"
  using assms
proof (induction fs arbitrary: it offset limit c keys)
  case Nil
  {
    case 1
    then show ?case using x_next_Nil [OF 1] by (auto simp: zrangebylex_loop.simps [of R spec True it])
  next
    case 2
    then show ?case using x_next_Nil [OF 2] by (auto simp: zrangebylex_loop.simps [of R spec False it])
  }
next
  case (Cons f fs)
  {
    case 1
    from x_next_Cons [OF 1] obtain it' where
      it': "ZIteratorByLex_next R it = (True, it')" "x_key it' = f" "x_pending d lst name v it' fs" .
    show ?case using it' Cons.IH(1) [OF it'(3)]
      by (simp add: zrangebylex_loop.simps [of R spec True it] page_Cons)
  next
    case 2
    from x_next_Cons [OF 2] obtain it' where
      it': "ZIteratorByLex_next R it = (True, it')" "x_key it' = f" "x_pending d lst name v it' fs" .
    show ?case using it' Cons.IH(2) [OF it'(3)]
      by (simp add: zrangebylex_loop.simps [of R spec False it])
  }
qed

lemma zrevrangebylex_loop_scan:
  assumes "x_pending d lst name v it fs"
  shows "zrevrangebylex_loop R spec it st = rev (lex_scan spec fs) @ st"
  using assms
proof (induction fs arbitrary: it st)
  case Nil
  then show ?case using x_next_Nil [OF Nil] by (auto simp: zrevrangebylex_loop.simps [of R spec it])
next
  case (Cons f fs)
  from x_next_Cons [OF Cons.prems] obtain it' where
    it': "ZIteratorByLex_next R it = (True, it')" "x_key it' = f" "x_pending d lst name v it' fs" .
  show ?case using it' Cons.IH [OF it'(3)] by (simp add: zrevrangebylex_loop.simps [of R spec it])
qed

end

lemma zrevrangebylex_pop_page: "zrevrangebylex_pop st offset limit keys = keys @ page offset limit st"
  by (induction st arbitrary: offset limit keys) (simp_all add: page_Cons)

lemma takeWhile_append_none: "takeWhile P ys = [] \<Longrightarrow> takeWhile P (xs @ ys) = takeWhile P xs"
  by (induction xs) auto

text \<open>
  The scan from the lower bound to the upper one, or without an end, meets the members
  between them in ascending order.
\<close>

lemma item_scan_between:
  assumes name: "long_enough name" and fin: "finite (dom m)"
  shows "map fst (item_scan name v (takeWhile (\<lambda>e. b = [] \<or> fst e \<le> encode_key_internal ITEM name b v)
      (filter (\<lambda>e. encode_key_internal ITEM name a v \<le> fst e) (sorted_entries m)))) =
    filter (\<lambda>f. a \<le> f \<and> (b = [] \<or> f \<le> b)) (sorted_list_of_set (dom (\<lambda>f. m (encode_key_internal ITEM name f v))))"
proof -
  let ?k = "\<lambda>f. encode_key_internal ITEM name f v" and ?es = "sorted_entries m"
  let ?F = "sorted_list_of_set (dom (\<lambda>f. m (?k f)))"
  let ?g = "\<lambda>f. (?k f, the (m (?k f)))"
  have k: "?k f = ?k [] @ f" for f by (rule encode_key_internal_prefix)
  have le: "?k f \<le> ?k g \<longleftrightarrow> f \<le> g" for f g unfolding k [of f] k [of g] by simp
  from entries_from_prefix [OF fin, of name v] obtain rest where
    eq: "filter (\<lambda>e. ?k [] \<le> fst e) ?es = map ?g ?F @ rest"
    and rest: "\<forall>e \<in> set rest. \<not> prefix (?k []) (fst e) \<and> ?k [] \<le> fst e" .
  have above: "?k f < fst e" if "e \<in> set rest" for e f
    unfolding k [of f] using rest that by (intro lex_above_prefix) auto
  have "filter (\<lambda>e. ?k a \<le> fst e) ?es = filter (\<lambda>e. ?k a \<le> fst e) (filter (\<lambda>e. ?k [] \<le> fst e) ?es)"
    using le [of "[]" a] by (auto intro!: filter_cong dest: order_trans)
  also have "\<dots> = map ?g (filter (\<lambda>f. a \<le> f) ?F) @ rest"
    unfolding eq using above by (auto simp: filter_map comp_def le less_imp_le intro!: filter_True)
  finally have from_a: "filter (\<lambda>e. ?k a \<le> fst e) ?es = map ?g (filter (\<lambda>f. a \<le> f) ?F) @ rest" .
  have foreign: "item_scan name v rest = []" by (rule item_scan_foreign) (use rest in auto)
  have scan: "map fst (item_scan name v (map ?g fs @ es)) = fs @ map fst (item_scan name v es)" for fs es
    unfolding item_scan_append_prefix [OF name] by (simp add: comp_def)
  show ?thesis
  proof (cases "b = []")
    case True
    have tw: "takeWhile (\<lambda>e. True) xs = xs" for xs :: "(bytes \<times> bytes) list" by (simp add: takeWhile_eq_all_conv)
    show ?thesis unfolding from_a using True foreign by (simp add: tw scan)
  next
    case False
    have "sorted_wrt (\<lambda>x y. y \<le> b \<longrightarrow> x \<le> b) (filter (\<lambda>f. a \<le> f) ?F)"
      by (rule sorted_wrt_mono_rel [of _ "(\<le>)"]) (auto intro: sorted_wrt_filter order_trans)
    from takeWhile_sorted [OF this] have tw: "takeWhile (\<lambda>e. fst e \<le> ?k b) (map ?g (filter (\<lambda>f. a \<le> f) ?F)) =
      map ?g (filter (\<lambda>f. f \<le> b) (filter (\<lambda>f. a \<le> f) ?F))"
      by (simp add: takeWhile_map comp_def le)
    have none: "takeWhile (\<lambda>e. fst e \<le> ?k b) rest = []"
      using above by (cases rest) (auto simp: not_le)
    have "takeWhile (\<lambda>e. fst e \<le> ?k b) (map ?g (filter (\<lambda>f. a \<le> f) ?F) @ rest) =
      map ?g (filter (\<lambda>f. f \<le> b) (filter (\<lambda>f. a \<le> f) ?F))"
    proof -
      let ?xs = "map ?g (filter (\<lambda>f. a \<le> f) ?F)"
      have "takeWhile (\<lambda>e. fst e \<le> ?k b) (?xs @ rest) = takeWhile (\<lambda>e. fst e \<le> ?k b) ?xs"
        by (rule takeWhile_append_none [OF none])
      then show ?thesis unfolding tw .
    qed
    then show ?thesis unfolding from_a using False scan [of _ "[]"] by (simp add: conj_commute)
  qed
qed

section \<open>Ranges by name\<close>

text \<open>What a bound means for a name.\<close>

definition lex_lower :: "bytes \<Rightarrow> bytes \<Rightarrow> bool" where
  "lex_lower lo f \<longleftrightarrow> (if hd lo = 45 then True else if hd lo = 43 then False
     else if hd lo = 40 then tl lo < f else tl lo \<le> f)"

definition lex_upper :: "bytes \<Rightarrow> bytes \<Rightarrow> bool" where
  "lex_upper hi f \<longleftrightarrow> (if hd hi = 43 then True else if hd hi = 45 then False
     else if hd hi = 40 then f < tl hi else f \<le> tl hi)"

definition lex_members :: "(bytes \<rightharpoonup> u64) \<Rightarrow> bytes \<Rightarrow> bytes \<Rightarrow> bytes list" where
  "lex_members z lo hi = filter (\<lambda>f. lex_lower lo f \<and> lex_upper hi f) (sorted_list_of_set (dom z))"

lemma parse_item:
  assumes "zslParseLexRangeItem t = Some (Inr (b, ex))"
  shows "t \<noteq> [] \<and> (hd t = 43 \<and> b = [] \<and> \<not> ex \<or> hd t = 45 \<and> b = [] \<and> \<not> ex \<or>
    hd t = 40 \<and> b = tl t \<and> ex \<or> hd t = 91 \<and> b = tl t \<and> \<not> ex)"
  using assms by (auto simp: zslParseLexRangeItem_def Let_def split: if_splits)

lemma parse_range:
  assumes "zslParseLexRange lo hi = Some (Inr spec)"
  shows "zslParseLexRangeItem lo = Some (Inr (zl_min spec, zl_minex spec))"
    "zslParseLexRangeItem hi = Some (Inr (zl_max spec, zl_maxex spec))"
  using assms by (auto simp: zslParseLexRange_def split: option.splits sum.splits prod.splits)

lemma lex_lower_spec:
  assumes "zslParseLexRange lo hi = Some (Inr spec)"
  shows "lex_lower lo f \<longleftrightarrow> hd lo \<noteq> 43 \<and> zslLexValueGteMin f spec"
  using parse_item [OF parse_range(1) [OF assms]]
  by (elim conjE disjE) (simp_all add: lex_lower_def zslLexValueGteMin_def)

lemma lex_upper_spec:
  assumes "zslParseLexRange lo hi = Some (Inr spec)"
  shows "lex_upper hi f \<longleftrightarrow> hd hi = 43 \<or>
    hd hi \<noteq> 45 \<and> (if zl_maxex spec then f < zl_max spec else f \<le> zl_max spec)"
  using parse_item [OF parse_range(2) [OF assms]]
  by (elim conjE disjE) (simp_all add: lex_upper_def)

text \<open>
  The test for an empty interval is right, and otherwise the two tests of the loops are the
  meaning of the bounds. The upper bound \<^verbatim>\<open>[\<close> with nothing after it is an exception: it
  admits the empty name, which the test does not see.
\<close>

lemma lex_range_empty:
  assumes p: "zslParseLexRange lo hi = Some (Inr spec)" and e: "lex_range_empty lo hi spec"
    and f: "f = [] \<longrightarrow> hi \<noteq> [91]"
  shows "\<not> (lex_lower lo f \<and> lex_upper hi f)"
proof
  note hi = parse_item [OF parse_range(2) [OF p]]
  assume "lex_lower lo f \<and> lex_upper hi f"
  then have in_r: "hd lo \<noteq> 43" "zslLexValueGteMin f spec"
    "hd hi = 43 \<or> hd hi \<noteq> 45 \<and> (if zl_maxex spec then f < zl_max spec else f \<le> zl_max spec)"
    using lex_lower_spec [OF p] lex_upper_spec [OF p] by blast+
  from in_r(2) have ge: "zl_min spec \<le> f" "zl_minex spec \<Longrightarrow> zl_min spec < f"
    by (auto simp: zslLexValueGteMin_def split: if_splits)
  have le: "f \<le> zl_max spec" "zl_maxex spec \<Longrightarrow> f < zl_max spec" if "hd hi \<noteq> 43"
    using in_r(3) that by (auto split: if_splits)
  have max43: "zl_max spec = []" if "hd hi = 43" using hi that by auto
  consider "hd hi = 45" | "zl_min spec > zl_max spec" "hd hi \<noteq> 43"
    | "zl_min spec = []" "zl_max spec = []" "hd hi \<noteq> 43" "hd hi \<noteq> 45"
    | "zl_min spec = zl_max spec" "zl_max spec \<noteq> []" "zl_minex spec \<or> zl_maxex spec"
    using e in_r(1) unfolding lex_range_empty_def by blast
  then show False
  proof cases
    case 1
    then show False using in_r(3) by auto
  next
    case 2
    then show False using ge(1) le(1) by simp
  next
    case 3
    then have f: "f = []" "\<not> zl_maxex spec" using le by auto
    then have "hi = [91]" using hi 3 by (cases hi) auto
    then show False using \<open>f = [] \<longrightarrow> hi \<noteq> [91]\<close> f by simp
  next
    case 4
    then have "hd hi \<noteq> 43" using max43 by auto
    then show False using 4 ge le by auto
  qed
qed

lemma lex_range_tests:
  assumes p: "zslParseLexRange lo hi = Some (Inr spec)" and e: "\<not> lex_range_empty lo hi spec"
  shows "zslLexValueGteMin f spec \<longleftrightarrow> lex_lower lo f" "zslLexValueLteMax f spec \<longleftrightarrow> lex_upper hi f"
    "lex_lower lo f \<Longrightarrow> zl_min spec \<le> f" "lex_upper hi f \<Longrightarrow> zl_max spec = [] \<or> f \<le> zl_max spec"
proof -
  have h: "hd lo \<noteq> 43" "hd hi \<noteq> 45" using e by (simp_all add: lex_range_empty_def)
  show "zslLexValueGteMin f spec \<longleftrightarrow> lex_lower lo f" using lex_lower_spec [OF p] h by simp
  then show "lex_lower lo f \<Longrightarrow> zl_min spec \<le> f" by (auto simp: zslLexValueGteMin_def split: if_splits)
  have max43: "hd hi = 43 \<Longrightarrow> zl_max spec = []" using parse_item [OF parse_range(2) [OF p]] by auto
  have "hd hi \<noteq> 43 \<Longrightarrow> zl_max spec \<noteq> []" using e by (cases "zl_min spec") (auto simp: lex_range_empty_def)
  with max43 show "zslLexValueLteMax f spec \<longleftrightarrow> lex_upper hi f" "lex_upper hi f \<Longrightarrow> zl_max spec = [] \<or> f \<le> zl_max spec"
    using lex_upper_spec [OF p, of f] h by (auto simp: zslLexValueLteMax_def split: if_splits)
qed

lemma lex_scan_members:
  assumes p: "zslParseLexRange lo hi = Some (Inr spec)" and e: "\<not> lex_range_empty lo hi spec"
  shows "lex_scan spec (filter (\<lambda>f. zl_min spec \<le> f \<and> (zl_max spec = [] \<or> f \<le> zl_max spec)) (sorted_list_of_set (dom z))) =
    lex_members z lo hi"
proof -
  note t = lex_range_tests [OF p e]
  have "lex_upper hi y \<Longrightarrow> x \<le> y \<Longrightarrow> lex_upper hi x" for x y by (auto simp: lex_upper_def split: if_splits)
  then have "sorted_wrt (\<lambda>x y. zslLexValueLteMax y spec \<longrightarrow> zslLexValueLteMax x spec)
    (filter (\<lambda>f. zl_min spec \<le> f \<and> (zl_max spec = [] \<or> f \<le> zl_max spec)) (sorted_list_of_set (dom z)))"
    unfolding t(2) by (intro sorted_wrt_filter, intro sorted_wrt_mono_rel [OF _ sorted_sorted_list_of_set]) blast
  from range_scan_filter [OF this, of "\<lambda>f. zslLexValueGteMin f spec"] show ?thesis
    using t by (auto simp: lex_members_def intro!: filter_cong)
qed

context rocksdb_rev
begin

lemma x_pending_scan:
  assumes at: "zset_at (view (ldb s)) name v z" and name: "long_enough name"
    and size: "card (dom (view (ldb s))) < 2 ^ 64"
  shows "x_pending FORWARD fwd name v (zscanbylex_internal R s name a b UINT64_MAX FORWARD v)
    (filter (\<lambda>f. a \<le> f \<and> (b = [] \<or> f \<le> b)) (sorted_list_of_set (dom z)))"
proof -
  let ?a = "encode_key_internal ITEM name a v"
  let ?b = "if b = [] then [] else encode_key_internal ITEM name b v"
  let ?es = "takeWhile (\<lambda>e. ?b = [] \<or> fst e \<le> ?b) (filter (\<lambda>e. ?a \<le> fst e) (sorted_entries (view (ldb s))))"
  have "length ?es \<le> length (sorted_entries (view (ldb s)))"
    by (rule order_trans [OF length_takeWhile_le length_filter_le])
  then have "length ?es \<le> unat UINT64_MAX" using size by (simp add: sorted_entries_def)
  then have "yields FORWARD fwd (SSDB_iterator R (ldb s) ?a ?b UINT64_MAX) ?es"
    using yields_SSDB_iterator [of "ldb s" ?a ?b UINT64_MAX] by (simp only: take_all)
  moreover have ne: "encode_key_internal ITEM name b v \<noteq> []" by (simp add: encode_key_internal_def)
  have "?es = takeWhile (\<lambda>e. b = [] \<or> fst e \<le> encode_key_internal ITEM name b v)
      (filter (\<lambda>e. ?a \<le> fst e) (sorted_entries (view (ldb s))))" using ne by simp
  moreover have "dom (\<lambda>f. view (ldb s) (encode_key_internal ITEM name f v)) = dom z"
  proof -
    have "dom (item_map name v (view (ldb s))) = dom z" unfolding zset_atD(6) [OF at] by simp
    then show ?thesis by (simp add: item_map_def)
  qed
  ultimately show ?thesis
    using item_scan_between [OF name finite_view, of v b a "ldb s"]
    by (auto simp: x_pending_def zscanbylex_internal_def ZIteratorByLex_init_def encode_zset_key_def)
qed

lemma lex_members_empty:
  assumes "zslParseLexRange lo hi = Some (Inr spec)" "lex_range_empty lo hi spec"
    "[] \<in> dom z \<longrightarrow> hi \<noteq> [91]" "finite (dom z)"
  shows "lex_members z lo hi = []"
proof -
  have "\<not> (lex_lower lo f \<and> lex_upper hi f)" if "f \<in> dom z" for f
    using lex_range_empty [OF assms(1,2), of f] that assms(3) by blast
  then show ?thesis using assms(4) by (auto simp: lex_members_def filter_empty_conv)
qed

lemma zset_rep_finite: "zset_rep (view (ldb s)) name z \<Longrightarrow> finite (dom z)"
  by (auto simp: zset_rep_def dest: zset_atD(2))

lemma zbylex_rep:
  assumes rep: "zset_rep (view (ldb s)) name z" and name: "long_enough name"
    and size: "card (dom (view (ldb s))) < 2 ^ 64"
    and p: "zslParseLexRange lo hi = Some (Inr spec)" and nil: "[] \<in> dom z \<longrightarrow> hi \<noteq> [91]"
  shows "\<exists>r. r \<ge> 0 \<and> zrangebylex R s name lo hi [] offset limit = Some (r, page offset limit (lex_members z lo hi)) \<and>
    zrevrangebylex R s name hi lo [] offset limit = Some (r, page offset limit (rev (lex_members z lo hi))) \<and>
    zlexcount R s name lo hi 0 = Some (r, int (length (lex_members z lo hi)))"
proof (cases "lex_range_empty lo hi spec")
  case True
  then have "lex_members z lo hi = []" using lex_members_empty [OF p True nil] zset_rep_finite [OF rep] by simp
  then show ?thesis using p True
    by (simp add: zrangebylex_def zrevrangebylex_def zlexcount_def genericZrangebylex_def)
next
  case False
  show ?thesis
    using rep
  proof (cases rule: zset_rep_cases)
    case (empty mv)
    then show ?thesis using p False
      by (simp add: zrangebylex_def zrevrangebylex_def zlexcount_def genericZrangebylex_def lex_members_def)
  next
    case (at v mv)
    let ?it = "zscanbylex_internal R s name (zl_min spec) (zl_max spec) UINT64_MAX FORWARD v"
    note scan = x_pending_scan [OF at(1) name size, of "zl_min spec" "zl_max spec"]
    note loops = fw.zrangebylex_loop_scan [OF scan, where spec = spec, unfolded lex_scan_members [OF p False]]
      fw.zrevrangebylex_loop_scan [OF scan, where spec = spec, unfolded lex_scan_members [OF p False]]
    have "zrangebylex R s name lo hi [] offset limit = Some (1, page offset limit (lex_members z lo hi))"
      using p False at(2,3) loops(1) [of offset limit 0 "[]"]
      by (simp add: zrangebylex_def genericZrangebylex_def case_prod_unfold)
    moreover have "zrevrangebylex R s name hi lo [] offset limit = Some (1, page offset limit (rev (lex_members z lo hi)))"
      using p False at(2,3) loops(3) [of "[]"] by (simp add: zrevrangebylex_def zrevrangebylex_pop_page)
    moreover have "zlexcount R s name lo hi 0 = Some (1, int (length (lex_members z lo hi)))"
      using p False at(2,3) loops(2) [of 0 "-1" 0 "[]"]
      by (simp add: zlexcount_def genericZrangebylex_def)
    ultimately show ?thesis by simp
  qed
qed

lemma zremrangebylex_loop_scan:
  assumes "x_pending FORWARD fwd name v it fs" and cur: "zset_cur (view (ldb s)) name v z0"
    and "zbatch (view (ldb s)) name v b z" "distinct fs" "\<forall>f \<in> set fs. z0 f \<noteq> None \<and> z f = z0 f" "\<not> r < 0"
  shows "\<exists>r' b'. zremrangebylex_loop R s name spec it r c b = (r', c + int (length (lex_scan spec fs)), b') \<and> \<not> r' < 0 \<and>
    zbatch (view (ldb s)) name v b' (z |` (- set (lex_scan spec fs)))"
  using assms(1,3-)
proof (induction fs arbitrary: it r c b z)
  case Nil
  then show ?case using fw.x_next_Nil [OF Nil(1)]
    by (auto simp: zremrangebylex_loop.simps [of R s name spec it])
next
  case (Cons f fs)
  from fw.x_next_Cons [OF Cons.prems(1)] obtain it' where
    it': "ZIteratorByLex_next R it = (True, it')" "x_key it' = f" "x_version it' = v"
      "x_pending FORWARD fwd name v it' fs" .
  obtain x where zf: "z0 f = Some x" "z f = Some x" using Cons.prems(4) by auto
  note step = zremrangebylex_loop.simps [of R s name spec it]
  consider "\<not> zslLexValueGteMin f spec" | "zslLexValueGteMin f spec" "\<not> zslLexValueLteMax f spec"
    | "zslLexValueGteMin f spec" "zslLexValueLteMax f spec" by blast
  then show ?case
  proof cases
    case 1
    then show ?thesis using Cons.IH [OF it'(4) Cons.prems(2), of r c] Cons.prems(3-) it' by (simp add: step)
  next
    case 2
    then show ?thesis using Cons.prems(2,5) it' by (simp add: step)
  next
    case 3
    let ?b = "b @ [Delete (encode_zscore_key name f x v), Delete (encode_zset_key name f v)]"
    have one: "zdel_one R s b name f v = (1, ?b)"
      using zf(1) by (simp add: zdel_one_def GetZSetItemVal_cur [OF cur])
    have d: "distinct fs" "f \<notin> set fs" using Cons.prems(3) by auto
    then have "\<forall>g \<in> set fs. z0 g \<noteq> None \<and> (z(f := None)) g = z0 g" using Cons.prems(4) by auto
    from Cons.IH [OF it'(4) zbatch_delete [OF Cons.prems(2) zf(2)] d(1) this, of 1 "c + 1"] obtain r' b' where
      b': "zremrangebylex_loop R s name spec it' 1 (c + 1) ?b = (r', c + 1 + int (length (lex_scan spec fs)), b')" "\<not> r' < 0"
        "zbatch (view (ldb s)) name v b' ((z(f := None)) |` (- set (lex_scan spec fs)))" using zero_less_one by (metis less_asym')
    have "(z(f := None)) |` (- set (lex_scan spec fs)) = z |` (- set (lex_scan spec (f # fs)))"
      using 3 by (auto simp: restrict_map_def fun_eq_iff)
    with b' show ?thesis using 3 it' one by (simp add: step)
  qed
qed

lemma zremrangebylex_rep:
  assumes rep: "zset_rep (view (ldb s)) name z" and name: "long_enough name"
    and size: "card (dom (view (ldb s))) < 2 ^ 64"
    and p: "zslParseLexRange lo hi = Some (Inr spec)" and nil: "[] \<in> dom z \<longrightarrow> hi \<noteq> [91]"
  shows "\<exists>r s'. r \<ge> 0 \<and> zremrangebylex R s name lo hi 0 = Some (r, int (length (lex_members z lo hi)), s') \<and>
    zset_rep (view (ldb s')) name (z |` (- set (lex_members z lo hi))) \<and> touches_only name (view (ldb s)) (view (ldb s'))"
proof (cases "lex_range_empty lo hi spec")
  case True
  then have "lex_members z lo hi = []" using lex_members_empty [OF p True nil] zset_rep_finite [OF rep] by simp
  then show ?thesis using p True rep by (auto simp: zremrangebylex_def touches_only_def restrict_map_def)
next
  case False
  show ?thesis
    using rep
  proof (cases rule: zset_rep_cases)
    case (empty mv)
    then show ?thesis using p False rep by (auto simp: zremrangebylex_def lex_members_def touches_only_def)
  next
    case (at v mv)
    note D = zset_atD [OF at(1)] and cur = zset_at_cur [OF at(1)]
    let ?fs = "filter (\<lambda>f. zl_min spec \<le> f \<and> (zl_max spec = [] \<or> f \<le> zl_max spec)) (sorted_list_of_set (dom z))"
    let ?ms = "lex_members z lo hi" and ?z = "z |` (- set (lex_members z lo hi))"
    have "distinct ?fs" "\<forall>f \<in> set ?fs. z f \<noteq> None \<and> z f = z f" using D(2) by auto
    from zremrangebylex_loop_scan [OF x_pending_scan [OF at(1) name size] cur zbatch_Nil [OF cur] this, of 1 spec 0,
        unfolded lex_scan_members [OF p False]]
    obtain r b where b: "zremrangebylex_loop R s name spec
        (zscanbylex_internal R s name (zl_min spec) (zl_max spec) UINT64_MAX FORWARD v) 1 0 [] =
        (r, int (length ?ms), b)" "\<not> r < 0" "zbatch (view (ldb s)) name v b ?z" by auto
    have ms: "distinct ?ms" "set ?ms \<subseteq> dom z" using D(2) by (auto simp: lex_members_def)
    have "dom ?z = dom z - set ?ms" by auto
    then have "card (dom ?z) + length ?ms = card (dom z)"
      using D(2) ms by (simp add: card_Diff_subset distinct_card card_mono finite_subset)
        (metis card_mono distinct_card le_add_diff_inverse2)
    then have n: "- int (length ?ms) = int (card (dom ?z)) - int (card (dom z))" "card (dom ?z) < 2 ^ 63" "finite (dom ?z)"
      using D(2,5) by auto
    have zn: "\<forall>f x. ?z f = Some x \<longrightarrow> \<not> isnan x"
      using at(1) by (auto simp: restrict_map_def zset_at_def split: if_splits)
    from zset_commit [OF cur at(5) b(3) n(3,2,1) zn] obtain s' where
      s': "commit_incr R (incr_zsize R s name b mv (- int (length ?ms))) = (if ?z = Map.empty then 0 else 1, s')"
      "zset_rep (view (ldb s')) name ?z" "touches_only name (view (ldb s)) (view (ldb s'))" by blast
    have "zremrangebylex R s name lo hi 0 = Some (if ?z = Map.empty then 0 else 1, int (length ?ms), s')"
      using p False at(2,3) b(1,2) s'(1) by (simp add: zremrangebylex_def)
    then show ?thesis using s' by auto
  qed
qed

end

section \<open>Properties\<close>

text \<open>
  C37: Ranges by name. \<open>zrangebylex\<close>, \<open>zrevrangebylex\<close> and \<open>zlexcount\<close> answer for exactly the
  members whose names lie between the two bounds, in ascending and descending order and as a
  number; \<open>zremrangebylex\<close> removes these and no others. The one exception is the empty name
  with the upper bound \<^verbatim>\<open>[\<close>.
\<close>

theorem zset_bylex_correct:
  assumes "rocksdb_rev R view fwd bwd" "zset_rep (view (ldb s)) name z" "long_enough name"
    "card (dom (view (ldb s))) < 2 ^ 64" "zslParseLexRange lo hi = Some (Inr spec)" "[] \<in> dom z \<longrightarrow> hi \<noteq> [91]"
  shows "(\<exists>r \<ge> 0. zrangebylex R s name lo hi [] offset limit = Some (r, page offset limit (lex_members z lo hi)) \<and>
      zrevrangebylex R s name hi lo [] offset limit = Some (r, page offset limit (rev (lex_members z lo hi))) \<and>
      zlexcount R s name lo hi 0 = Some (r, int (length (lex_members z lo hi)))) \<and>
    (\<exists>r s'. r \<ge> 0 \<and> zremrangebylex R s name lo hi 0 = Some (r, int (length (lex_members z lo hi)), s') \<and>
      zset_rep (view (ldb s')) name (z |` (- set (lex_members z lo hi))) \<and> touches_only name (view (ldb s)) (view (ldb s')))"
  using rocksdb_rev.zbylex_rep [OF assms] rocksdb_rev.zremrangebylex_rep [OF assms] by blast

lemma zset_example_size: "card (dom (map_of (ldb zset_example))) < 2 ^ 64"
proof -
  have "card (dom (map_of (ldb zset_example))) \<le> 5"
    using card_image_le [of "set (ldb zset_example)" fst] card_length [of "ldb zset_example"]
    by (simp add: dom_map_of_conv_image_fst zset_example_def)
  then show ?thesis by simp
qed

theorem zset_bylex_correct_witness:
  "(\<exists>r. zrangebylex mem_rocksdb zset_example [122] [45] [91, 97] [] 0 (- 1) = Some (r, [[97]])) \<and>
   (\<exists>r s'. zremrangebylex mem_rocksdb zset_example [122] [45] [91, 97] 0 = Some (r, 1, s'))"
proof -
  have p: "zslParseLexRange [45] [91, 97] = Some (Inr \<lparr>zl_min = [], zl_max = [97], zl_minex = False, zl_maxex = False\<rparr>)"
    by (simp add: zslParseLexRange_def zslParseLexRangeItem_def)
  have "sorted_list_of_set {[97], [98 :: byte]} = [[97], [98]]"
    by (simp add: insort_key.simps)
  then have m: "lex_members zset_example_map [45] [91, 97] = [[97]]"
    by (simp add: lex_members_def zset_example_map lex_lower_def lex_upper_def)
  have n: "[] \<in> dom zset_example_map \<longrightarrow> [91, 97] \<noteq> [91 :: byte]" by simp
  show ?thesis
    using zset_bylex_correct [OF memr.rocksdb_rev_axioms zset_example_rep _ zset_example_size p n, of 0 "- 1"]
    unfolding m by (auto simp: page_def)
qed

end
