(* ===== verification/BgDelete.thy ===== *)
theory BgDelete
  imports Collection
begin

text \<open>
  Background deletion (\<^verbatim>\<open>src/src/storage/ssdb_impl.cpp\<close>). A deleted key keeps its items
  and a meta value marked as deleted; a delete key names it and its version. The
  background thread takes the delete keys from a queue, which it fills from the database,
  scans the items and the score entries of that version without a lock, and then, under the
  lock of the key, removes them together with the delete key and, when no younger version
  has been written, the meta value.
\<close>

section \<open>Definitions\<close>

subsection \<open>The queue of delete keys\<close>

text \<open>\<^verbatim>\<open>std::string::operator[]\<close> gives the terminating zero at the end of the string.\<close>

function load_delete_loop :: "('db, 'it) rocksdb \<Rightarrow> 'it Iterator \<Rightarrow> bytes list \<Rightarrow> bytes list" where
  "load_delete_loop R it queue =
     (case Iterator_next R it of
        (False, _) \<Rightarrow> queue
      | (True, it) \<Rightarrow>
          if (Iterator_key R it @ [0]) ! 0 \<noteq> DELETE then queue
          else load_delete_loop R it (queue @ [Iterator_key R it]))"
  by pat_completeness auto
termination
  by (relation "measure (\<lambda>(R, it, queue). unat (iter_limit it))") (auto dest: Iterator_next_limit')

definition load_delete_keys_from_db :: "('db, 'it) rocksdb \<Rightarrow> 'db ssdb \<Rightarrow> nat \<Rightarrow> 'db ssdb" where
  "load_delete_keys_from_db R s num =
     s\<lparr>tasks := load_delete_loop R (SSDB_iterator R (ldb s) [DELETE] [] (word_of_nat num)) (tasks s)\<rparr>"

subsection \<open>Deleting one version of a key\<close>

definition delete_meta_key :: "('db, 'it) rocksdb \<Rightarrow> 'db ssdb \<Rightarrow> DeleteKey \<Rightarrow> batch \<Rightarrow> int \<times> batch" where
  "delete_meta_key R s dk batch =
     (let meta_key = encode_meta_key (dk_key dk) in
      case db_Get R (ldb s) meta_key of
        GetError \<Rightarrow> (-1, batch)
      | GetNotFound \<Rightarrow> (0, batch)
      | GetOk meta_val \<Rightarrow>
          (case Decoder_skip 1 meta_val of None \<Rightarrow> (-1, batch)
           | Some d \<Rightarrow>
          (case read_uint16 d of None \<Rightarrow> (-1, batch)
           | Some (version, _) \<Rightarrow>
               let version = be16toh version; del = (meta_val @ [0]) ! 3
               in if del = KEY_DELETE_MASK \<and> version = dk_version dk
                  then (0, batch @ [Delete meta_key]) else (0, batch))))"

function gc_item_loop :: "('db, 'it) rocksdb \<Rightarrow> DeleteKey \<Rightarrow> 'it Iterator \<Rightarrow> batch \<Rightarrow> batch" where
  "gc_item_loop R dk it batch =
     (case Iterator_next R it of
        (False, _) \<Rightarrow> batch
      | (True, it) \<Rightarrow>
          let item_key = Iterator_key R it in
          if item_key = [] \<or> item_key ! 0 \<noteq> ITEM then batch
          else (case DecodeItemKey item_key of
                  None \<Rightarrow> batch
                | Some ik \<Rightarrow>
                    if ik_key ik = dk_key dk \<and> ik_version ik = dk_version dk
                    then gc_item_loop R dk it (batch @ [Delete item_key])
                    else batch))"
  by pat_completeness auto
termination
  by (relation "measure (\<lambda>(R, dk, it, batch). unat (iter_limit it))") (auto dest: Iterator_next_limit')

function gc_zscore_loop :: "('db, 'it) rocksdb \<Rightarrow> DeleteKey \<Rightarrow> 'it Iterator \<Rightarrow> batch \<Rightarrow> batch" where
  "gc_zscore_loop R dk zit batch =
     (case Iterator_next R zit of
        (False, _) \<Rightarrow> batch
      | (True, zit) \<Rightarrow>
          let item_key = Iterator_key R zit in
          if item_key = [] \<or> item_key ! 0 \<noteq> ZSCORE then batch
          else (case DecodeZScoreItemKey item_key of
                  None \<Rightarrow> batch
                | Some zk \<Rightarrow>
                    if zk_key zk = dk_key dk \<and> zk_version zk = dk_version dk
                    then gc_zscore_loop R dk zit (batch @ [Delete item_key])
                    else batch))"
  by pat_completeness auto
termination
  by (relation "measure (\<lambda>(R, dk, zit, batch). unat (iter_limit zit))") (auto dest: Iterator_next_limit')

lemmas gc_loops [simp del] = load_delete_loop.simps gc_item_loop.simps gc_zscore_loop.simps

text \<open>
  The three stages of \<^verbatim>\<open>delete_key_loop\<close>: the scan of the items, the scan of the score
  entries, each over its own view of the database, and the part under the lock.
\<close>

definition gc_scan_items :: "('db, 'it) rocksdb \<Rightarrow> 'db ssdb \<Rightarrow> DeleteKey \<Rightarrow> batch" where
  "gc_scan_items R s dk =
     gc_item_loop R dk (SSDB_iterator R (ldb s) (encode_hash_key (dk_key dk) [] (dk_version dk)) [] UINT64_MAX) []"

definition gc_scan_scores :: "('db, 'it) rocksdb \<Rightarrow> 'db ssdb \<Rightarrow> DeleteKey \<Rightarrow> batch \<Rightarrow> batch" where
  "gc_scan_scores R s dk batch =
     gc_zscore_loop R dk (SSDB_iterator R (ldb s) (encode_zscore_prefix (dk_key dk) (dk_version dk)) [] UINT64_MAX) batch"

definition gc_commit :: "('db, 'it) rocksdb \<Rightarrow> 'db ssdb \<Rightarrow> bytes \<Rightarrow> DeleteKey \<Rightarrow> batch \<Rightarrow> 'db ssdb" where
  "gc_commit R s del_key dk batch =
     (let batch = batch @ [Delete del_key] in
      case delete_meta_key R s dk batch of (ret, batch) \<Rightarrow>
        if ret = -1 then s else s\<lparr>ldb := snd (db_Write R (ldb s) batch)\<rparr>)"

definition delete_key_loop :: "('db, 'it) rocksdb \<Rightarrow> 'db ssdb \<Rightarrow> bytes \<Rightarrow> 'db ssdb" where
  "delete_key_loop R s del_key =
     (case DecodeDeleteKey del_key of
        None \<Rightarrow> s
      | Some dk \<Rightarrow> gc_commit R s del_key dk (gc_scan_scores R s dk (gc_scan_items R s dk)))"

text \<open>One turn of the loop of \<^verbatim>\<open>runBGTask\<close>, first the part under the mutex of the queue.\<close>

definition bg_take :: "('db, 'it) rocksdb \<Rightarrow> 'db ssdb \<Rightarrow> bytes \<times> 'db ssdb" where
  "bg_take R s =
     (let s = (if tasks s = [] then load_delete_keys_from_db R s 1000 else s) in
      case tasks s of [] \<Rightarrow> ([], s) | del_key # rest \<Rightarrow> (del_key, s\<lparr>tasks := rest\<rparr>))"

definition runBGTask_turn :: "('db, 'it) rocksdb \<Rightarrow> 'db ssdb \<Rightarrow> 'db ssdb" where
  "runBGTask_turn R s =
     (case bg_take R s of (del_key, s) \<Rightarrow> if del_key \<noteq> [] then delete_key_loop R s del_key else s)"

text \<open>When the thread is told to stop it drops the queue; the delete keys stay in the database.\<close>

definition runBGTask_quit :: "'db ssdb \<Rightarrow> 'db ssdb" where
  "runBGTask_quit s = s\<lparr>tasks := []\<rparr>"

section \<open>What the scans collect\<close>

lemma takeWhile_filter_append: "takeWhile P (filter P xs @ filter (\<lambda>x. \<not> P x) ys) = filter P xs"
proof -
  have "takeWhile P (filter (\<lambda>x. \<not> P x) ys) = []" by (induction ys) auto
  then show ?thesis by (subst takeWhile_append2) auto
qed

lemma takeWhile_prefix:
  assumes "sorted xs"
  shows "takeWhile (prefix p) (filter (\<lambda>x. p \<le> x) xs) = filter (prefix p) (xs :: bytes list)"
proof -
  let ?ys = "filter (\<lambda>x. p \<le> x) xs"
  have eq: "filter (prefix p) ?ys = filter (prefix p) xs"
    by (auto simp: prefix_def intro!: filter_cong)
  have "sorted ?ys" using assms by (rule sorted_wrt_filter)
  then have split: "?ys = filter (prefix p) ?ys @ filter (\<lambda>x. \<not> prefix p x) ?ys"
    by (rule sorted_prefix_split) simp
  have "takeWhile (prefix p) ?ys = filter (prefix p) ?ys"
    by (subst split) (rule takeWhile_filter_append)
  then show ?thesis by (simp only: eq)
qed

lemma internal_key_nth0 [simp]: "encode_key_internal t k f v ! 0 = t"
  by (simp add: encode_key_internal_def)

definition item_prefix :: "DeleteKey \<Rightarrow> bytes" where
  "item_prefix dk = encode_key_internal ITEM (dk_key dk) [] (dk_version dk)"

definition score_prefix :: "DeleteKey \<Rightarrow> bytes" where
  "score_prefix dk = encode_key_internal ZSCORE (dk_key dk) [] (dk_version dk)"

definition gc_item :: "DeleteKey \<Rightarrow> bytes \<Rightarrow> bool" where
  "gc_item dk k \<longleftrightarrow> k \<noteq> [] \<and> k ! 0 = ITEM \<and>
     (\<exists>ik. DecodeItemKey k = Some ik \<and> ik_key ik = dk_key dk \<and> ik_version ik = dk_version dk)"

definition gc_score :: "DeleteKey \<Rightarrow> bytes \<Rightarrow> bool" where
  "gc_score dk k \<longleftrightarrow> k \<noteq> [] \<and> k ! 0 = ZSCORE \<and>
     (\<exists>zk. DecodeZScoreItemKey k = Some zk \<and> zk_key zk = dk_key dk \<and> zk_version zk = dk_version dk)"

lemma gc_item_prefix:
  assumes "long_enough (dk_key dk)"
  shows "gc_item dk k \<longleftrightarrow> prefix (item_prefix dk) k"
proof
  assume "gc_item dk k"
  then show "prefix (item_prefix dk) k"
    by (metis DecodeItemKey_Some encode_key_internal_prefix gc_item_def item_prefix_def prefixI)
next
  assume "prefix (item_prefix dk) k"
  then obtain f where "k = encode_key_internal ITEM (dk_key dk) f (dk_version dk)"
    by (metis encode_key_internal_prefix item_prefix_def prefixE)
  with assms show "gc_item dk k"
    by (simp add: gc_item_def internal_key_nth0)
qed

text \<open>Every score entry holds at least the eight bytes of its score.\<close>

definition scores_wf :: "contents \<Rightarrow> bool" where
  "scores_wf m \<longleftrightarrow> (\<forall>k f v. long_enough k \<longrightarrow> m (encode_key_internal ZSCORE k f v) \<noteq> None \<longrightarrow> length f \<ge> 8)"

lemma gc_score_prefix:
  assumes "long_enough (dk_key dk)" "scores_wf m" "m k \<noteq> None"
  shows "gc_score dk k \<longleftrightarrow> prefix (score_prefix dk) k"
proof
  assume "gc_score dk k"
  then obtain zk where zk: "k \<noteq> []" "k ! 0 = ZSCORE" "DecodeZScoreItemKey k = Some zk"
    "zk_key zk = dk_key dk" "zk_version zk = dk_version dk" by (auto simp: gc_score_def)
  then obtain d version d' where
    d: "read_16_data (drop 1 k) = Some (dk_key dk, d)"
    "read_uint16 d = Some (version, d')" "dk_version dk = be16toh version"
    by (auto simp: DecodeZScoreItemKey_def Decoder_skip_def split: option.splits if_splits prod.splits)
  then have "raw16 (htobe16 (dk_version dk)) @ d' = d"
    using raw16_htobe16_be16toh_load16 [of d] by (auto simp: read_uint16_def split: if_splits)
  moreover have "k = ZSCORE # drop 1 k" using zk(1,2) by (cases k) auto
  ultimately have "k = encode_key_internal ZSCORE (dk_key dk) d' (dk_version dk)"
    using read_16_data_Some [OF d(1)] by (simp add: encode_key_internal_def)
  then show "prefix (score_prefix dk) k"
    by (metis encode_key_internal_prefix prefixI score_prefix_def)
next
  assume "prefix (score_prefix dk) k"
  then obtain f where k: "k = encode_key_internal ZSCORE (dk_key dk) f (dk_version dk)"
    by (metis encode_key_internal_prefix score_prefix_def prefixE)
  have "length f \<ge> 8" using assms unfolding scores_wf_def k by blast
  with assms(1) show "gc_score dk k"
    by (simp add: gc_score_def k DecodeZScoreItemKey_def encode_key_internal_def
        decoder_simps read_uint64_def)
qed

context rocksdb_iter
begin

lemma gc_item_loop_yields:
  "yields FORWARD fwd it es \<Longrightarrow>
   gc_item_loop R dk it b = b @ map Delete (takeWhile (gc_item dk) (map fst es))"
proof (induction es arbitrary: it b)
  case Nil
  then show ?case using fw.next_yields_Nil [of it] by (auto simp: gc_item_loop.simps [of R dk it])
next
  case (Cons e es)
  from fw.next_yields_Cons [OF Cons.prems] obtain it' where
    it': "Iterator_next R it = (True, it')" "yields FORWARD fwd it' es" "Iterator_key R it' = fst e" by auto
  show ?case
    using Cons.IH [OF it'(2)] it'(1,3)
    by (auto simp: gc_item_loop.simps [of R dk it] gc_item_def Let_def split: option.splits)
qed

lemma gc_zscore_loop_yields:
  "yields FORWARD fwd it es \<Longrightarrow>
   gc_zscore_loop R dk it b = b @ map Delete (takeWhile (gc_score dk) (map fst es))"
proof (induction es arbitrary: it b)
  case Nil
  then show ?case using fw.next_yields_Nil [of it] by (auto simp: gc_zscore_loop.simps [of R dk it])
next
  case (Cons e es)
  from fw.next_yields_Cons [OF Cons.prems] obtain it' where
    it': "Iterator_next R it = (True, it')" "yields FORWARD fwd it' es" "Iterator_key R it' = fst e" by auto
  show ?case
    using Cons.IH [OF it'(2)] it'(1,3)
    by (auto simp: gc_zscore_loop.simps [of R dk it] gc_score_def Let_def split: option.splits)
qed

lemma load_delete_loop_yields:
  "yields FORWARD fwd it es \<Longrightarrow>
   load_delete_loop R it ts = ts @ takeWhile (\<lambda>k. (k @ [0]) ! 0 = DELETE) (map fst es)"
proof (induction es arbitrary: it ts)
  case Nil
  then show ?case using fw.next_yields_Nil [of it] by (auto simp: load_delete_loop.simps [of R it])
next
  case (Cons e es)
  from fw.next_yields_Cons [OF Cons.prems] obtain it' where
    it': "Iterator_next R it = (True, it')" "yields FORWARD fwd it' es" "Iterator_key R it' = fst e" by auto
  show ?case
    using Cons.IH [OF it'(2)] it'(1,3) by (auto simp: load_delete_loop.simps [of R it])
qed

text \<open>The keys of the entries from a prefix on.\<close>

lemma keys_from: "map fst (filter (\<lambda>e. p \<le> fst e) (sorted_entries m)) =
  filter (\<lambda>k. p \<le> k) (sorted_list_of_set (dom m))"
  by (simp add: sorted_entries_def filter_map comp_def)

lemma gc_scan_items_eq:
  assumes "card (dom (view (ldb s))) < 2 ^ 64" "long_enough (dk_key dk)"
  shows "gc_scan_items R s dk =
    map Delete (filter (prefix (item_prefix dk)) (sorted_list_of_set (dom (view (ldb s)))))"
proof -
  have "gc_item dk = prefix (item_prefix dk)" using gc_item_prefix [OF assms(2)] by blast
  then show ?thesis
    using takeWhile_prefix [of "sorted_list_of_set (dom (view (ldb s)))" "item_prefix dk"]
      gc_item_loop_yields [OF yields_iterator [OF assms(1)], of dk "item_prefix dk" "[]"]
    by (simp add: gc_scan_items_def encode_hash_key_def item_prefix_def keys_from)
qed

lemma gc_scan_scores_eq:
  assumes "card (dom (view (ldb s))) < 2 ^ 64" "long_enough (dk_key dk)" "scores_wf (view (ldb s))"
  shows "gc_scan_scores R s dk b =
    b @ map Delete (filter (prefix (score_prefix dk)) (sorted_list_of_set (dom (view (ldb s)))))"
proof -
  let ?D = "sorted_list_of_set (dom (view (ldb s)))"
  have "takeWhile (gc_score dk) (filter (\<lambda>k. score_prefix dk \<le> k) ?D) =
    takeWhile (prefix (score_prefix dk)) (filter (\<lambda>k. score_prefix dk \<le> k) ?D)"
    using gc_score_prefix [OF assms(2,3)] finite_view by (intro takeWhile_cong) auto
  then show ?thesis
    using takeWhile_prefix [of ?D "score_prefix dk"]
      gc_zscore_loop_yields [OF yields_iterator [OF assms(1)], of dk "score_prefix dk" b]
    by (simp add: gc_scan_scores_def encode_zscore_prefix_def score_prefix_def keys_from)
qed

end

section \<open>The effect of a deletion\<close>

text \<open>\<open>meta_is m key d v\<close>: the meta value of the key carries the mark \<open>d\<close> and the version \<open>v\<close>.\<close>

definition meta_is :: "contents \<Rightarrow> bytes \<Rightarrow> byte \<Rightarrow> u16 \<Rightarrow> bool" where
  "meta_is m key d v \<longleftrightarrow> (\<exists>t r. m (encode_meta_key key) = Some (t # raw16 (htobe16 v) @ d # r))"

lemma meta_is_unique: "meta_is m key d v \<Longrightarrow> meta_is m key d' v' \<Longrightarrow> d = d' \<and> v = v'"
  by (auto simp: meta_is_def)

lemma meta_split:
  assumes "length mv \<ge> 4"
  shows "mv = mv ! 0 # raw16 (htobe16 (meta_version mv)) @ mv ! 3 # drop 4 mv"
proof -
  from assms obtain a b c d r where mv: "mv = a # b # c # d # r"
    by (auto simp: numeral_eq_Suc Suc_le_length_iff)
  have "raw16 (htobe16 (meta_version mv)) = [b, c]"
    unfolding meta_version_def using raw16_htobe16_be16toh_load16 [of "drop 1 mv"] by (simp add: mv)
  then show ?thesis by (simp add: mv numeral_3_eq_3)
qed

lemma meta_wf_cases:
  assumes "meta_wf m key"
  obtains "m (encode_meta_key key) = None" "\<forall>d v. \<not> meta_is m key d v"
  | v where "meta_is m key KEY_ENABLED_MASK v" | v where "meta_is m key KEY_DELETE_MASK v"
proof (cases "m (encode_meta_key key)")
  case None
  then show ?thesis by (intro that(1)) (simp_all add: meta_is_def)
next
  case (Some mv)
  then have "length mv \<ge> 4" "mv ! 3 = KEY_ENABLED_MASK \<or> mv ! 3 = KEY_DELETE_MASK"
    using assms by (auto simp: meta_wf_def POS_DEL_def)
  then show ?thesis using that(2,3) Some meta_split [of mv] unfolding meta_is_def by metis
qed

definition gc_effect :: "bytes \<Rightarrow> u16 \<Rightarrow> contents \<Rightarrow> contents" where
  "gc_effect key v m = (\<lambda>x.
     if prefix (encode_key_internal ITEM key [] v) x \<or> prefix (encode_key_internal ZSCORE key [] v) x \<or>
        x = encode_delete_key key v \<or> x = encode_meta_key key \<and> meta_is m key KEY_DELETE_MASK v
     then None else m x)"

definition delete_key_of :: "bytes \<Rightarrow> u16 \<Rightarrow> DeleteKey" where
  "delete_key_of key v = \<lparr>dk_type = KEY_DELETE_MASK, dk_version = v, dk_key = key\<rparr>"

lemma delete_key_of_simps [simp]:
  "dk_key (delete_key_of key v) = key" "dk_version (delete_key_of key v) = v"
  "long_enough key \<Longrightarrow> DecodeDeleteKey (encode_delete_key key v) = Some (delete_key_of key v)"
  by (simp_all add: delete_key_of_def)

context rocksdb_healthy
begin

lemma delete_meta_key_view:
  assumes "meta_wf (view (ldb s)) key"
  shows "delete_meta_key R s (delete_key_of key v) b =
    (0, b @ (if meta_is (view (ldb s)) key KEY_DELETE_MASK v then [Delete (encode_meta_key key)] else []))"
  using assms
proof (cases rule: meta_wf_cases)
  case 1
  then show ?thesis by (simp add: delete_meta_key_def Get_view meta_is_def)
next
  case (2 w)
  then show ?thesis
    by (auto simp: delete_meta_key_def Get_view meta_is_def decoder_simps Let_def nth_append numeral_3_eq_3)
next
  case (3 w)
  then show ?thesis
    by (auto simp: delete_meta_key_def Get_view meta_is_def decoder_simps Let_def nth_append numeral_3_eq_3)
qed

lemma gc_commit_view:
  assumes "meta_wf (view (ldb s)) key"
  shows "view (ldb (gc_commit R s del_key (delete_key_of key v) b)) =
      apply_batch (b @ Delete del_key # (if meta_is (view (ldb s)) key KEY_DELETE_MASK v
        then [Delete (encode_meta_key key)] else [])) (view (ldb s))"
    "tasks (gc_commit R s del_key (delete_key_of key v) b) = tasks s"
  using delete_meta_key_view [OF assms, of v "b @ [Delete del_key]"]
  by (simp_all add: gc_commit_def Write_view)

text \<open>Committing the deletion of all entries under the two prefixes.\<close>

lemma gc_commit_effect:
  assumes "meta_wf (view (ldb s)) key" "long_enough key"
    and "set ks = {x \<in> dom (view (ldb s)). prefix (encode_key_internal ITEM key [] v) x \<or>
      prefix (encode_key_internal ZSCORE key [] v) x}"
  shows "view (ldb (gc_commit R s (encode_delete_key key v) (delete_key_of key v) (map Delete ks))) =
    gc_effect key v (view (ldb s))"
proof -
  have "x \<in> set ks \<longleftrightarrow> view (ldb s) x \<noteq> None \<and> (prefix (encode_key_internal ITEM key [] v) x \<or>
      prefix (encode_key_internal ZSCORE key [] v) x)" for x
    using assms(3) by auto
  then show ?thesis
    unfolding gc_commit_view [OF assms(1)] gc_effect_def fun_eq_iff
    by (auto simp: apply_batch_deletes)
qed

end

context rocksdb_iter
begin

lemma delete_key_loop_effect:
  assumes "card (dom (view (ldb s))) < 2 ^ 64" "long_enough key" "scores_wf (view (ldb s))"
    "meta_wf (view (ldb s)) key"
  shows "view (ldb (delete_key_loop R s (encode_delete_key key v))) = gc_effect key v (view (ldb s))"
    "tasks (delete_key_loop R s (encode_delete_key key v)) = tasks s"
proof -
  let ?dk = "delete_key_of key v" and ?D = "sorted_list_of_set (dom (view (ldb s)))"
  have b: "gc_scan_scores R s ?dk (gc_scan_items R s ?dk) =
    map Delete (filter (prefix (item_prefix ?dk)) ?D @ filter (prefix (score_prefix ?dk)) ?D)"
    using gc_scan_items_eq [OF assms(1), of ?dk] gc_scan_scores_eq [OF assms(1) _ assms(3), of ?dk] assms(2)
    by simp
  show "view (ldb (delete_key_loop R s (encode_delete_key key v))) = gc_effect key v (view (ldb s))"
    unfolding delete_key_loop_def delete_key_of_simps(3) [OF assms(2)] option.case b
    by (rule gc_commit_effect [OF assms(4,2)])
      (use finite_view in \<open>auto simp: item_prefix_def score_prefix_def\<close>)
  show "tasks (delete_key_loop R s (encode_delete_key key v)) = tasks s"
    unfolding delete_key_loop_def delete_key_of_simps(3) [OF assms(2)] option.case
    by (rule gc_commit_view(2) [OF assms(4)])
qed

end

end
