(* ===== verification/Reclaim.thy ===== *)
theory Reclaim
  imports BgDelete
begin

text \<open>
  The invariant of background deletion. The thread of \<^verbatim>\<open>runBGTask\<close> is a state machine
  whose steps are the critical sections and scans of \<^verbatim>\<open>delete_key_loop\<close>. The invariant says that a delete key
  never names the version that is alive, that every stored item belongs to the live version of its key or to
  a version with a delete key, and that the queue holds delete keys in such an order that
  the meta value of a key goes with its last delete key. The thread keeps it, and so does any change of the store that is a
  \<open>client_step\<close>, which is what all writing commands have in common; \<open>Lifecycle\<close> and \<open>ClientSteps\<close> prove this of the
  commands, and \<open>Interleave\<close> puts both together.
\<close>

section \<open>Definitions\<close>

definition pending :: "contents \<Rightarrow> bytes \<Rightarrow> u16 \<Rightarrow> bool" where
  "pending m key v \<longleftrightarrow> m (encode_delete_key key v) \<noteq> None"

datatype gc_phase = Idle | Taken bytes | ItemsScanned bytes DeleteKey batch | ScoresScanned bytes DeleteKey batch

text \<open>
  What the writing commands have in common, as a relation between the store before and after: a command works on one version of its key, the live one or
  the next one of a key that does not exist. It writes items of that version and either
  leaves the key alive at it, or deletes the key and adds its delete key, or leaves the meta
  value alone, and then adds no items to a key that does not exist.
\<close>

definition work_keys :: "bytes \<Rightarrow> u16 \<Rightarrow> bytes set" where
  "work_keys key w = {encode_meta_key key, encode_eset_key key, encode_delete_key key w} \<union>
     range (encode_escore_key key) \<union> range (\<lambda>f. encode_key_internal ITEM key f w) \<union>
     {encode_key_internal ZSCORE key f w | f. length f \<ge> 8}"

definition client_step :: "bytes \<Rightarrow> u16 \<Rightarrow> contents \<Rightarrow> contents \<Rightarrow> bool" where
  "client_step key w m m' \<longleftrightarrow> long_enough key \<and>
     (meta_is m key KEY_ENABLED_MASK w \<or> absent m key w) \<and>
     (\<forall>x. x \<notin> work_keys key w \<longrightarrow> m' x = m x) \<and>
     (meta_is m' key KEY_ENABLED_MASK w \<and> m' (encode_delete_key key w) = m (encode_delete_key key w) \<or>
      meta_is m key KEY_ENABLED_MASK w \<and> meta_is m' key KEY_DELETE_MASK w \<and> pending m' key w \<or>
      m' (encode_meta_key key) = m (encode_meta_key key) \<and>
      m' (encode_delete_key key w) = m (encode_delete_key key w) \<and>
      (absent m key w \<longrightarrow> (\<forall>t f. t = ITEM \<or> t = ZSCORE \<longrightarrow>
         m' (encode_key_internal t key f w) \<noteq> None \<longrightarrow> m (encode_key_internal t key f w) \<noteq> None)))"

text \<open>The steps of the thread.\<close>

inductive bg_step ::
  "('db, 'it) rocksdb \<Rightarrow> ('db \<Rightarrow> contents) \<Rightarrow> 'db ssdb \<times> gc_phase \<Rightarrow> 'db ssdb \<times> gc_phase \<Rightarrow> bool"
  for R :: "('db, 'it) rocksdb" and view :: "'db \<Rightarrow> contents" where
  take_idle: "bg_take R s = ([], s') \<Longrightarrow> bg_step R view (s, Idle) (s', Idle)"
| take_task: "bg_take R s = (del_key, s') \<Longrightarrow> del_key \<noteq> [] \<Longrightarrow> bg_step R view (s, Idle) (s', Taken del_key)"
| bad_key: "DecodeDeleteKey del_key = None \<Longrightarrow> bg_step R view (s, Taken del_key) (s, Idle)"
| scan_items: "DecodeDeleteKey del_key = Some dk \<Longrightarrow> card (dom (view (ldb s))) < 2 ^ 64 \<Longrightarrow>
    bg_step R view (s, Taken del_key) (s, ItemsScanned del_key dk (gc_scan_items R s dk))"
| scan_scores: "card (dom (view (ldb s))) < 2 ^ 64 \<Longrightarrow>
    bg_step R view (s, ItemsScanned del_key dk b) (s, ScoresScanned del_key dk (gc_scan_scores R s dk b))"
| commit: "bg_step R view (s, ScoresScanned del_key dk b) (gc_commit R s del_key dk b, Idle)"
| quit: "bg_step R view (s, Idle) (runBGTask_quit s, Idle)"

inductive_cases bg_stepE: "bg_step R view (s, p) (s', p')"

section \<open>The invariant\<close>

definition reclaim_ok :: "contents \<Rightarrow> bytes \<Rightarrow> bool" where
  "reclaim_ok m key \<longleftrightarrow> meta_wf m key \<and>
     (\<forall>v. pending m key v \<longrightarrow> (\<exists>c. meta_is m key KEY_ENABLED_MASK c \<and> v < c \<or>
        meta_is m key KEY_DELETE_MASK c \<and> v \<le> c)) \<and>
     (\<forall>t f v. t = ITEM \<or> t = ZSCORE \<longrightarrow> m (encode_key_internal t key f v) \<noteq> None \<longrightarrow>
        meta_is m key KEY_ENABLED_MASK v \<or> pending m key v) \<and>
     (\<forall>c. meta_is m key KEY_DELETE_MASK c \<longrightarrow> pending m key c)"

definition keys_wf :: "contents \<Rightarrow> bool" where
  "keys_wf m \<longleftrightarrow> scores_wf m \<and> (\<forall>x. m x \<noteq> None \<longrightarrow> x \<noteq> [] \<longrightarrow> hd x = DELETE \<longrightarrow>
     (\<exists>k v. long_enough k \<and> x = encode_delete_key k v))"

definition queue_ok :: "contents \<Rightarrow> bytes list \<Rightarrow> bool" where
  "queue_ok m q \<longleftrightarrow> sorted_wrt (<) q \<and>
     (\<forall>x \<in> set q. \<exists>k v. long_enough k \<and> x = encode_delete_key k v \<and> pending m k v) \<and>
     (\<forall>k v u. long_enough k \<longrightarrow> encode_delete_key k v \<in> set q \<longrightarrow> pending m k u \<longrightarrow> u < v \<longrightarrow>
        encode_delete_key k u \<in> set q)"

fun gc_queue :: "gc_phase \<Rightarrow> bytes list \<Rightarrow> bytes list" where
  "gc_queue Idle q = q"
| "gc_queue (Taken x) q = x # q"
| "gc_queue (ItemsScanned x dk b) q = x # q"
| "gc_queue (ScoresScanned x dk b) q = x # q"

definition collected :: "contents \<Rightarrow> byte \<Rightarrow> bytes \<Rightarrow> u16 \<Rightarrow> bytes set" where
  "collected m t key v = {x \<in> dom m. prefix (encode_key_internal t key [] v) x}"

fun phase_ok :: "contents \<Rightarrow> gc_phase \<Rightarrow> bool" where
  "phase_ok m Idle = True"
| "phase_ok m (Taken x) = True"
| "phase_ok m (ItemsScanned x dk b) = (\<exists>k v ks. long_enough k \<and> x = encode_delete_key k v \<and>
     dk = delete_key_of k v \<and> b = map Delete ks \<and> set ks = collected m ITEM k v)"
| "phase_ok m (ScoresScanned x dk b) = (\<exists>k v ks. long_enough k \<and> x = encode_delete_key k v \<and>
     dk = delete_key_of k v \<and> b = map Delete ks \<and> set ks = collected m ITEM k v \<union> collected m ZSCORE k v)"

definition gc_inv :: "('db \<Rightarrow> contents) \<Rightarrow> 'db ssdb \<times> gc_phase \<Rightarrow> bool" where
  "gc_inv view = (\<lambda>(s, p). (\<forall>key. long_enough key \<longrightarrow> reclaim_ok (view (ldb s)) key) \<and>
     keys_wf (view (ldb s)) \<and> queue_ok (view (ldb s)) (gc_queue p (tasks s)) \<and>
     phase_ok (view (ldb s)) p)"

section \<open>Keys\<close>

lemma encode_delete_key_less: "encode_delete_key k u < encode_delete_key k v \<longleftrightarrow> u < v"
  by (simp add: encode_delete_key_def raw16_htobe16 be_encode_less unat_u16_less word_less_nat_alt)

lemma encode_delete_key_inj:
  "long_enough k \<Longrightarrow> long_enough k' \<Longrightarrow> encode_delete_key k v = encode_delete_key k' v' \<longleftrightarrow> k = k' \<and> v = v'"
  by (simp add: delete_key_is_internal_key encode_key_internal_inj)

lemma prefix_internal_key:
  assumes "long_enough k" "long_enough k'"
  shows "prefix (encode_key_internal t k [] v) (encode_key_internal t' k' f v') \<longleftrightarrow>
    t = t' \<and> k = k' \<and> v = v'"
proof
  assume "prefix (encode_key_internal t k [] v) (encode_key_internal t' k' f v')"
  then obtain g where "encode_key_internal t' k' f v' = encode_key_internal t k g v"
    by (metis encode_key_internal_prefix prefixE)
  then show "t = t' \<and> k = k' \<and> v = v'" using encode_key_internal_inj [OF assms] by metis
next
  assume "t = t' \<and> k = k' \<and> v = v'"
  then show "prefix (encode_key_internal t k [] v) (encode_key_internal t' k' f v')"
    by (metis encode_key_internal_prefix prefixI)
qed

lemma collected_iff: "x \<in> collected m t key v \<longleftrightarrow> (\<exists>f. x = encode_key_internal t key f v \<and> m x \<noteq> None)"
  unfolding collected_def by (metis (mono_tags, lifting) domD domIff encode_key_internal_prefix
      mem_Collect_eq prefixE prefixI)

lemma collected_cong:
  "(\<And>f. m' (encode_key_internal t key f v) = m (encode_key_internal t key f v)) \<Longrightarrow>
   collected m' t key v = collected m t key v"
  by (auto simp: collected_iff)

text \<open>The invariant of one key only depends on the keys it owns.\<close>

lemma reclaim_ok_cong:
  assumes "\<And>x. x \<in> own_keys key \<Longrightarrow> m' x = m x" "reclaim_ok m key"
  shows "reclaim_ok m' key"
proof -
  have "pending m' key = pending m key" "meta_is m' key = meta_is m key" "meta_wf m' key = meta_wf m key"
    using assms(1) by (auto simp: pending_def meta_is_def meta_wf_def fun_eq_iff)
  moreover have "t = ITEM \<or> t = ZSCORE \<Longrightarrow> m' (encode_key_internal t key f v) = m (encode_key_internal t key f v)" for t f v
    using assms(1) [of "encode_key_internal t key f v"] by auto
  ultimately show ?thesis using assms(2) unfolding reclaim_ok_def by metis
qed

lemma work_keys_owned: "work_keys key w \<subseteq> own_keys key"
  by (auto simp: work_keys_def)

lemma work_keys_iff:
  assumes "long_enough key" "long_enough k"
  shows "encode_delete_key k v \<in> work_keys key w \<longleftrightarrow> k = key \<and> v = w"
    "encode_key_internal ITEM k f v \<in> work_keys key w \<longleftrightarrow> k = key \<and> v = w"
    "encode_key_internal ZSCORE k f v \<in> work_keys key w \<longleftrightarrow> k = key \<and> v = w \<and> length f \<ge> 8"
  using assms by (auto simp: work_keys_def encode_delete_key_inj encode_key_internal_inj)

section \<open>Commands keep the invariant\<close>

lemma next_version_greater: "v \<noteq> UINT16_MAX \<Longrightarrow> v < next_version v"
proof -
  assume v: "v \<noteq> UINT16_MAX"
  then have "v + 1 \<noteq> 0" by (metis add.commute add_eq_0_iff add.inverse_inverse)
  then show ?thesis using unatSuc [of v] by (simp add: next_version_succ word_less_nat_alt add.commute)
qed

lemma absent_meta:
  "absent m key w \<longleftrightarrow> m (encode_meta_key key) = None \<and> w = 0 \<or>
     (\<exists>v. meta_is m key KEY_DELETE_MASK v \<and> w = next_version v)"
  by (auto simp: absent_def meta_is_def)

lemma meta_is_absent: "meta_is m key KEY_ENABLED_MASK v \<Longrightarrow> \<not> absent m key w"
  by (auto simp: absent_meta meta_is_def)

text \<open>The version a command works on is younger than all that wait for deletion.\<close>

lemma work_version:
  assumes "reclaim_ok m key" "meta_is m key KEY_ENABLED_MASK w \<or> absent m key w"
    "\<not> meta_is m key KEY_DELETE_MASK UINT16_MAX" "pending m key v"
  shows "v < w"
proof -
  from assms(1,4) consider c where "meta_is m key KEY_ENABLED_MASK c" "v < c"
    | c where "meta_is m key KEY_DELETE_MASK c" "v \<le> c"
    unfolding reclaim_ok_def by blast
  then show ?thesis
  proof cases
    case 1
    with assms(2) show ?thesis using meta_is_unique meta_is_absent by blast
  next
    case 2
    have "\<not> meta_is m key KEY_ENABLED_MASK w" "m (encode_meta_key key) \<noteq> None"
      using meta_is_unique [OF 2(1), of KEY_ENABLED_MASK w] 2(1) by (auto simp: meta_is_def)
    then obtain d where "meta_is m key KEY_DELETE_MASK d" "w = next_version d"
      using assms(2) unfolding absent_meta by metis
    with 2(1) have "w = next_version c" using meta_is_unique by blast
    with 2 assms(3) show ?thesis using next_version_greater [of c] by force
  qed
qed

lemma reclaim_ok_item:
  "reclaim_ok m key \<Longrightarrow> t = ITEM \<or> t = ZSCORE \<Longrightarrow> m (encode_key_internal t key f v) \<noteq> None \<Longrightarrow>
   meta_is m key KEY_ENABLED_MASK v \<or> pending m key v"
  unfolding reclaim_ok_def by metis

text \<open>A new version of a key starts without items.\<close>

lemma reclaim_fresh:
  assumes "reclaim_ok m key" "\<not> meta_is m key KEY_DELETE_MASK UINT16_MAX" "absent m key w" "t = ITEM \<or> t = ZSCORE"
  shows "m (encode_key_internal t key f w) = None"
proof (rule ccontr)
  assume "m (encode_key_internal t key f w) \<noteq> None"
  then have "pending m key w"
    using reclaim_ok_item [OF assms(1,4)] meta_is_absent assms(3) by metis
  with work_version [of m key w w] assms show False by simp
qed

lemma client_reclaim_ok:
  assumes ok: "reclaim_ok m key" and step: "client_step key w m m'"
    and nowrap: "\<not> meta_is m key KEY_DELETE_MASK UINT16_MAX"
  shows "reclaim_ok m' key"
proof -
  have long: "long_enough key" and at: "meta_is m key KEY_ENABLED_MASK w \<or> absent m key w"
    and frame: "\<And>x. x \<notin> work_keys key w \<Longrightarrow> m' x = m x"
    using step unfolding client_step_def by blast+
  note less = work_version [OF ok at nowrap] and keys = work_keys_iff [OF long long]
  have pend: "pending m' key v \<longleftrightarrow> pending m key v" if "v \<noteq> w" for v
    using frame [of "encode_delete_key key v"] that keys(1) [of v w] by (simp add: pending_def)
  have items: "m' (encode_key_internal t key f v) = m (encode_key_internal t key f v)"
    if "t = ITEM \<or> t = ZSCORE" "v \<noteq> w" for t f v
    using that frame [of "encode_key_internal t key f v"] keys(2,3) [of f v w] by auto
  have old: "pending m key v" if "t = ITEM \<or> t = ZSCORE" "m (encode_key_internal t key f v) \<noteq> None" "v \<noteq> w" for t f v
    using ok that at meta_is_unique meta_is_absent unfolding reclaim_ok_def by metis
  have not_w: "\<not> pending m key w" using less by blast
  from step consider
    (written) "meta_is m' key KEY_ENABLED_MASK w" "pending m' key w = pending m key w"
  | (deleted) "meta_is m' key KEY_DELETE_MASK w" "pending m' key w"
  | (same) "m' (encode_meta_key key) = m (encode_meta_key key)" "pending m' key w = pending m key w"
      "absent m key w \<longrightarrow> (\<forall>t f. t = ITEM \<or> t = ZSCORE \<longrightarrow>
        m' (encode_key_internal t key f w) \<noteq> None \<longrightarrow> m (encode_key_internal t key f w) \<noteq> None)"
    unfolding client_step_def pending_def by metis
  then show ?thesis
  proof cases
    case written
    have "meta_wf m' key" using written(1) by (auto simp: meta_is_def meta_wf_def POS_DEL_def str_pos_del)
    moreover have "v < w" if "pending m' key v" for v using that written(2) not_w pend less by metis
    moreover have "v = w \<or> pending m' key v"
      if "t = ITEM \<or> t = ZSCORE" "m' (encode_key_internal t key f v) \<noteq> None" for t f v
      using that old items pend by metis
    ultimately show ?thesis using written(1) meta_is_unique unfolding reclaim_ok_def
      by (metis masks_differ(1))
  next
    case deleted
    have "meta_wf m' key" using deleted(1) by (auto simp: meta_is_def meta_wf_def POS_DEL_def str_pos_del)
    moreover have "v \<le> w" if "pending m' key v" for v using that pend less by (metis order.refl less_imp_le)
    moreover have "pending m' key v"
      if "t = ITEM \<or> t = ZSCORE" "m' (encode_key_internal t key f v) \<noteq> None" for t f v
      using that old items pend deleted(2) by metis
    ultimately show ?thesis using deleted meta_is_unique unfolding reclaim_ok_def by metis
  next
    case same
    have p: "pending m' key = pending m key" by (rule ext) (metis pend same(2))
    have mi: "meta_is m' key = meta_is m key" "meta_wf m' key = meta_wf m key"
      using same(1) by (auto simp: meta_is_def meta_wf_def fun_eq_iff)
    have "meta_is m key KEY_ENABLED_MASK v \<or> pending m key v"
      if "t = ITEM \<or> t = ZSCORE" "m' (encode_key_internal t key f v) \<noteq> None" for t f v
    proof (cases "v = w")
      case True
      then show ?thesis using that same(3) at ok unfolding reclaim_ok_def by metis
    next
      case False
      then show ?thesis using that items old by metis
    qed
    with ok show ?thesis unfolding reclaim_ok_def p mi by blast
  qed
qed

lemma client_other:
  assumes "client_step key w m m'" "long_enough k" "k \<noteq> key" "x \<in> own_keys k"
  shows "m' x = m x"
proof -
  have "long_enough key" and f: "x \<notin> work_keys key w \<Longrightarrow> m' x = m x" using assms(1) by (simp_all add: client_step_def)
  then have "x \<notin> own_keys key" using own_keys_disjoint [of key k] assms(2-4) by blast
  then show ?thesis using f work_keys_owned by blast
qed

lemma client_reclaim:
  assumes "\<forall>k. long_enough k \<longrightarrow> reclaim_ok m k" "client_step key w m m'"
    "\<not> meta_is m key KEY_DELETE_MASK UINT16_MAX" "long_enough k"
  shows "reclaim_ok m' k"
proof (cases "k = key")
  case True
  then show ?thesis using client_reclaim_ok [OF _ assms(2,3)] assms(1,4) by simp
next
  case False
  from client_other [OF assms(2,4) False] show ?thesis
    by (rule reclaim_ok_cong) (simp_all add: assms(1,4))
qed

lemma client_keys_wf:
  assumes "keys_wf m" "client_step key w m m'"
  shows "keys_wf m'"
proof -
  have long: "long_enough key" and frame: "\<And>x. x \<notin> work_keys key w \<Longrightarrow> m' x = m x"
    using assms(2) by (simp_all add: client_step_def)
  have wf: "\<And>k f v. long_enough k \<Longrightarrow> m (encode_key_internal ZSCORE k f v) \<noteq> None \<Longrightarrow> length f \<ge> 8"
    "\<And>x. m x \<noteq> None \<Longrightarrow> x \<noteq> [] \<Longrightarrow> hd x = DELETE \<Longrightarrow> \<exists>k v. long_enough k \<and> x = encode_delete_key k v"
    using assms(1) unfolding keys_wf_def scores_wf_def by metis+
  have "length f \<ge> 8" if "long_enough k" "m' (encode_key_internal ZSCORE k f v) \<noteq> None" for k f v
  proof (cases "encode_key_internal ZSCORE k f v \<in> work_keys key w")
    case True
    then show ?thesis using work_keys_iff(3) [OF long that(1)] by blast
  next
    case False
    then show ?thesis using frame that wf(1) by metis
  qed
  moreover have "\<exists>k v. long_enough k \<and> x = encode_delete_key k v" if "m' x \<noteq> None" "x \<noteq> []" "hd x = DELETE" for x
  proof (cases "x \<in> work_keys key w")
    case True
    with that(3) have "x = encode_delete_key key w" by (auto simp: work_keys_def delete_key_is_internal_key)
    then show ?thesis using long by blast
  next
    case False
    then show ?thesis using frame that wf(2) by metis
  qed
  ultimately show ?thesis unfolding keys_wf_def scores_wf_def by blast
qed

text \<open>Versions that wait for deletion are out of reach for commands.\<close>

lemma client_pending:
  assumes "\<forall>k. long_enough k \<longrightarrow> reclaim_ok m k" "client_step key w m m'"
    "\<not> meta_is m key KEY_DELETE_MASK UINT16_MAX" "long_enough k" "pending m k v"
  shows "pending m' k v" "t = ITEM \<or> t = ZSCORE \<Longrightarrow> collected m' t k v = collected m t k v"
proof -
  have long: "long_enough key" and at: "meta_is m key KEY_ENABLED_MASK w \<or> absent m key w"
    and frame: "\<And>x. x \<notin> work_keys key w \<Longrightarrow> m' x = m x"
    using assms(2) unfolding client_step_def by blast+
  have ne: "\<not> (k = key \<and> v = w)"
    using work_version [OF _ at assms(3)] assms(1,4,5) by blast
  then show "pending m' k v"
    using frame [of "encode_delete_key k v"] work_keys_iff(1) [OF long assms(4), of v w] assms(5) by (simp add: pending_def)
  show "collected m' t k v = collected m t k v" if "t = ITEM \<or> t = ZSCORE"
    by (rule collected_cong, rule frame) (use work_keys_iff(2,3) [OF long assms(4)] that ne in blast)
qed

lemma client_new_pending:
  assumes "client_step key w m m'" "long_enough k" "pending m' k u" "\<not> pending m k u"
  shows "k = key \<and> u = w"
proof (rule ccontr)
  assume "\<not> (k = key \<and> u = w)"
  then have "m' (encode_delete_key k u) = m (encode_delete_key k u)"
    using assms(1) work_keys_iff(1) [OF _ assms(2), of key u w] unfolding client_step_def by blast
  with assms(3,4) show False by (simp add: pending_def)
qed

lemma client_queue_ok:
  assumes rec: "\<forall>k. long_enough k \<longrightarrow> reclaim_ok m k" and step: "client_step key w m m'"
    and nowrap: "\<not> meta_is m key KEY_DELETE_MASK UINT16_MAX" and q: "queue_ok m q"
  shows "queue_ok m' q"
proof -
  have el: "\<forall>x \<in> set q. \<exists>k v. long_enough k \<and> x = encode_delete_key k v \<and> pending m k v" and s: "sorted_wrt (<) q"
    and down: "\<And>k v u. long_enough k \<Longrightarrow> encode_delete_key k v \<in> set q \<Longrightarrow> pending m k u \<Longrightarrow> u < v \<Longrightarrow>
      encode_delete_key k u \<in> set q"
    using q unfolding queue_ok_def by blast+
  have at: "meta_is m key KEY_ENABLED_MASK w \<or> absent m key w" using step unfolding client_step_def by blast
  have inq: "pending m k v" if "long_enough k" "encode_delete_key k v \<in> set q" for k v
    using el that encode_delete_key_inj by metis
  have "encode_delete_key k u \<in> set q"
    if "long_enough k" "encode_delete_key k v \<in> set q" "pending m' k u" "u < v" for k v u
  proof (cases "pending m k u")
    case True
    then show ?thesis using down that by blast
  next
    case False
    then have "k = key" "u = w" using client_new_pending [OF step that(1,3)] by simp_all
    then have "v < u" using work_version [OF _ at nowrap] inq [OF that(1,2)] rec that(1) by blast
    with that(4) show ?thesis by simp
  qed
  moreover have "\<forall>x \<in> set q. \<exists>k v. long_enough k \<and> x = encode_delete_key k v \<and> pending m' k v"
    using el client_pending(1) [OF rec step nowrap] by metis
  ultimately show ?thesis using s unfolding queue_ok_def by blast
qed

lemma client_phase_ok:
  assumes rec: "\<forall>k. long_enough k \<longrightarrow> reclaim_ok m k" and step: "client_step key w m m'"
    and nowrap: "\<not> meta_is m key KEY_DELETE_MASK UINT16_MAX"
    and q: "queue_ok m (gc_queue p q)" and p: "phase_ok m p"
  shows "phase_ok m' p"
proof -
  have inq: "pending m k v" if "long_enough k" "encode_delete_key k v \<in> set (gc_queue p q)" for k v
    using q that encode_delete_key_inj unfolding queue_ok_def by metis
  note eq = client_pending(2) [OF rec step nowrap]
  show ?thesis
  proof (cases p)
    case (ItemsScanned x dk b)
    with p obtain k v ks where d: "long_enough k" "x = encode_delete_key k v" "dk = delete_key_of k v"
      "b = map Delete ks" "set ks = collected m ITEM k v" by auto
    have "pending m k v" using inq [OF d(1)] ItemsScanned d(2) by simp
    with eq [OF d(1), of v ITEM] d show ?thesis unfolding ItemsScanned phase_ok.simps by metis
  next
    case (ScoresScanned x dk b)
    with p obtain k v ks where d: "long_enough k" "x = encode_delete_key k v" "dk = delete_key_of k v"
      "b = map Delete ks" "set ks = collected m ITEM k v \<union> collected m ZSCORE k v" by auto
    have "pending m k v" using inq [OF d(1)] ScoresScanned d(2) by simp
    with eq [OF d(1), of v ITEM] eq [OF d(1), of v ZSCORE] d show ?thesis
      unfolding ScoresScanned phase_ok.simps by metis
  qed simp_all
qed

section \<open>The thread keeps the invariant\<close>

lemma take_downward:
  assumes "sorted_wrt (<) xs" "x \<in> set (take n xs)" "y \<in> set xs" "y < (x :: 'a :: linorder)"
  shows "y \<in> set (take n xs)"
proof (rule ccontr)
  assume "y \<notin> set (take n xs)"
  then have "y \<in> set (drop n xs)" using assms(3) by (metis Un_iff append_take_drop_id set_append)
  moreover have "sorted_wrt (<) (take n xs @ drop n xs)" using assms(1) by simp
  ultimately have "x < y" using assms(2) unfolding sorted_wrt_append by blast
  with assms(4) show False by simp
qed

lemma takeWhile_take: "takeWhile P (take n xs) = take n (takeWhile P xs)"
proof (induction xs arbitrary: n)
  case (Cons x xs)
  then show ?case by (cases n) auto
qed simp

lemma delete_kind: "(k @ [0]) ! 0 = DELETE \<longleftrightarrow> prefix [DELETE] k"
  by (cases k) (auto simp: DELETE_def KEY_DELETE_MASK_def)

lemma gc_effect_owned:
  assumes "x \<notin> own_keys key"
  shows "gc_effect key v m x = m x"
proof -
  have "\<not> prefix (encode_key_internal t key [] v) x" if "t = ITEM \<or> t = ZSCORE" for t
    using assms that encode_key_internal_prefix own_keysI(4) by (metis prefixE)
  moreover have "x \<noteq> encode_delete_key key v" "x \<noteq> encode_meta_key key" using assms by auto
  ultimately show ?thesis by (simp add: gc_effect_def)
qed

lemma gc_effect_keys:
  assumes "long_enough key" "long_enough k"
  shows "gc_effect key v m (encode_delete_key k u) = (if k = key \<and> u = v then None else m (encode_delete_key k u))"
    "t = ITEM \<or> t = ZSCORE \<Longrightarrow> gc_effect key v m (encode_key_internal t k f u) =
       (if k = key \<and> u = v then None else m (encode_key_internal t k f u))"
    "gc_effect key v m (encode_meta_key k) =
       (if k = key \<and> meta_is m key KEY_DELETE_MASK v then None else m (encode_meta_key k))"
proof -
  have np: "\<not> prefix (encode_key_internal t key [] v) (encode_meta_key k)"
    "\<not> prefix (encode_key_internal t key [] v) (encode_delete_key k u)" if "t = ITEM \<or> t = ZSCORE" for t
    using that keys_disjoint(7) delete_key_disjoint(1)
    by (metis encode_key_internal_prefix prefixE kinds_differ)+
  show "gc_effect key v m (encode_delete_key k u) = (if k = key \<and> u = v then None else m (encode_delete_key k u))"
    using np(2) encode_delete_key_inj [OF assms(2,1), of u v] by (simp add: gc_effect_def)
  show "gc_effect key v m (encode_key_internal t k f u) =
       (if k = key \<and> u = v then None else m (encode_key_internal t k f u))" if "t = ITEM \<or> t = ZSCORE"
    using that by (auto simp: gc_effect_def prefix_internal_key [OF assms])
  show "gc_effect key v m (encode_meta_key k) =
       (if k = key \<and> meta_is m key KEY_DELETE_MASK v then None else m (encode_meta_key k))"
    using np(1) by (simp add: gc_effect_def)
qed

lemma gc_effect_pending:
  "long_enough key \<Longrightarrow> long_enough k \<Longrightarrow>
   pending (gc_effect key v m) k u \<longleftrightarrow> pending m k u \<and> \<not> (k = key \<and> u = v)"
  by (simp add: pending_def gc_effect_keys)

text \<open>
  Deleting a version that is first in the queue: when its meta value goes, no older
  version is left.
\<close>

lemma gc_first:
  assumes "queue_ok m (encode_delete_key key v # q)" "long_enough key" "pending m key u" "u < v"
  shows False
proof -
  have "encode_delete_key key u \<in> set (encode_delete_key key v # q)"
    using assms unfolding queue_ok_def by (metis list.set_intros(1))
  moreover have "sorted_wrt (<) (encode_delete_key key v # q)" using assms(1) by (simp add: queue_ok_def)
  moreover have "encode_delete_key key u < encode_delete_key key v" using assms(4) by (simp add: encode_delete_key_less)
  ultimately show False by (auto dest: order.asym)
qed

lemma queue_head_pending:
  "queue_ok m (encode_delete_key key v # q) \<Longrightarrow> long_enough key \<Longrightarrow> pending m key v"
  using encode_delete_key_inj unfolding queue_ok_def by (metis list.set_intros(1))

lemma gc_reclaim_key:
  assumes ok: "reclaim_ok m key" and long: "long_enough key"
    and q: "queue_ok m (encode_delete_key key v # q)"
  shows "reclaim_ok (gc_effect key v m) key"
proof -
  let ?m = "gc_effect key v m"
  note keys = gc_effect_keys [OF long long] and pend = gc_effect_pending [OF long long]
  have items: "u \<noteq> v \<and> (meta_is m key KEY_ENABLED_MASK u \<or> pending m key u)"
    if "t = ITEM \<or> t = ZSCORE" "?m (encode_key_internal t key f u) \<noteq> None" for t f u
    using that keys(2) reclaim_ok_item [OF ok] by metis
  show ?thesis
  proof (cases "meta_is m key KEY_DELETE_MASK v")
    case True
    have none: "?m (encode_meta_key key) = None" using True keys(3) by simp
    then have mi: "\<not> meta_is ?m key d u" "meta_wf ?m key" for d u by (simp_all add: meta_is_def meta_wf_def)
    have "\<not> pending m key u" if "u \<noteq> v" for u
    proof
      assume p: "pending m key u"
      then have "u \<le> v" using ok True meta_is_unique unfolding reclaim_ok_def by (metis masks_differ(1))
      with that gc_first [OF q long p] show False by (metis order.not_eq_order_implies_strict)
    qed
    then have "\<not> pending ?m key u" "t = ITEM \<or> t = ZSCORE \<Longrightarrow> ?m (encode_key_internal t key f u) = None" for t f u
      using pend items True meta_is_unique by (metis masks_differ(1))+
    with mi show ?thesis unfolding reclaim_ok_def by metis
  next
    case False
    then have "?m (encode_meta_key key) = m (encode_meta_key key)" using keys(3) by simp
    then have mi: "meta_is ?m key = meta_is m key" "meta_wf ?m key = meta_wf m key"
      by (auto simp: meta_is_def meta_wf_def fun_eq_iff)
    have "meta_wf m key" "\<And>u. pending m key u \<Longrightarrow> \<exists>c. meta_is m key KEY_ENABLED_MASK c \<and> u < c \<or>
        meta_is m key KEY_DELETE_MASK c \<and> u \<le> c" "\<And>c. meta_is m key KEY_DELETE_MASK c \<Longrightarrow> pending m key c"
      using ok unfolding reclaim_ok_def by blast+
    with mi False items show ?thesis unfolding reclaim_ok_def mi pend by metis
  qed
qed

lemma gc_reclaim:
  assumes "\<forall>k. long_enough k \<longrightarrow> reclaim_ok m k" "long_enough key"
    "queue_ok m (encode_delete_key key v # q)" "long_enough k"
  shows "reclaim_ok (gc_effect key v m) k"
proof (cases "k = key")
  case True
  then show ?thesis using gc_reclaim_key [OF _ assms(2,3)] assms(1,2) by simp
next
  case False
  have "gc_effect key v m x = m x" if "x \<in> own_keys k" for x
    using own_keys_disjoint [OF False assms(4,2)] that by (intro gc_effect_owned) blast
  then show ?thesis by (rule reclaim_ok_cong) (simp_all add: assms(1,4))
qed

lemma gc_effect_some: "gc_effect key v m x \<noteq> None \<Longrightarrow> m x \<noteq> None"
  by (auto simp: gc_effect_def split: if_splits)

lemma gc_keys_wf: "keys_wf m \<Longrightarrow> keys_wf (gc_effect key v m)"
  using gc_effect_some [of key v m] unfolding keys_wf_def scores_wf_def by metis

lemma gc_queue_ok:
  assumes "queue_ok m (encode_delete_key key v # q)" "long_enough key"
  shows "queue_ok (gc_effect key v m) q"
proof -
  let ?x = "encode_delete_key key v"
  have s: "sorted_wrt (<) q" "?x \<notin> set q" using assms(1) by (auto simp: queue_ok_def)
  have el: "\<forall>x \<in> set q. \<exists>k v. long_enough k \<and> x = encode_delete_key k v \<and> pending m k v"
    and down: "\<And>k v' u. long_enough k \<Longrightarrow> encode_delete_key k v' \<in> set q \<Longrightarrow> pending m k u \<Longrightarrow> u < v' \<Longrightarrow>
      encode_delete_key k u \<in> set (?x # q)"
    using assms(1) unfolding queue_ok_def by (meson list.set_intros(2))+
  have "\<forall>x \<in> set q. \<exists>k v'. long_enough k \<and> x = encode_delete_key k v' \<and> pending (gc_effect key v m) k v'"
    using el s(2) gc_effect_pending [OF assms(2)] by metis
  moreover have "encode_delete_key k u \<in> set q"
    if "long_enough k" "encode_delete_key k v' \<in> set q" "pending (gc_effect key v m) k u" "u < v'" for k v' u
    using down [OF that(1,2) _ that(4)] that(3) gc_effect_pending [OF assms(2) that(1)]
      encode_delete_key_inj [OF that(1) assms(2)] by auto
  ultimately show ?thesis using s(1) unfolding queue_ok_def by blast
qed

lemma gc_take_queue_ok:
  assumes "keys_wf m" "finite (dom m)"
  shows "queue_ok m (take n (filter (prefix [DELETE]) (sorted_list_of_set (dom m))))"
proof -
  let ?xs = "filter (prefix [DELETE]) (sorted_list_of_set (dom m))"
  have s: "sorted_wrt (<) ?xs" by (rule sorted_wrt_filter) simp
  have set: "x \<in> set ?xs \<longleftrightarrow> m x \<noteq> None \<and> prefix [DELETE] x" for x using assms(2) by auto
  have "\<exists>k v. long_enough k \<and> x = encode_delete_key k v \<and> pending m k v" if "x \<in> set ?xs" for x
  proof -
    have x: "m x \<noteq> None" "x \<noteq> []" "hd x = DELETE"
      using that unfolding set by (auto simp: prefix_def)
    then obtain k v where "long_enough k" "x = encode_delete_key k v" using assms(1) unfolding keys_wf_def by metis
    with x(1) show ?thesis unfolding pending_def by blast
  qed
  moreover have "encode_delete_key k u \<in> set (take n ?xs)"
    if "encode_delete_key k v \<in> set (take n ?xs)" "pending m k u" "u < v" for k v u
  proof (rule take_downward [OF s that(1)])
    show "encode_delete_key k u \<in> set ?xs"
      using that(2) set [of "encode_delete_key k u"] by (simp add: pending_def encode_delete_key_def DELETE_def)
  qed (simp add: encode_delete_key_less that(3))
  moreover have "sorted_wrt (<) (take n ?xs)" using s by (rule sorted_wrt_take)
  ultimately show ?thesis unfolding queue_ok_def using in_set_takeD [of _ n ?xs] by blast
qed

context rocksdb_iter
begin

lemma load_delete_eq:
  assumes "n < 2 ^ 64"
  shows "load_delete_keys_from_db R s n =
    s\<lparr>tasks := tasks s @ take n (filter (prefix [DELETE]) (sorted_list_of_set (dom (view (ldb s)))))\<rparr>"
proof -
  let ?D = "sorted_list_of_set (dom (view (ldb s)))"
  have k: "(\<lambda>k. (k @ [0]) ! 0 = DELETE) = prefix [DELETE]" using delete_kind by blast
  have n: "unat (word_of_nat n :: u64) = n" using assms by (simp add: unat_of_nat)
  have t: "takeWhile (\<lambda>e. True) xs = xs" for xs :: "(bytes \<times> bytes) list" by (induction xs) auto
  have "map fst (take n (filter (\<lambda>e. [DELETE] \<le> fst e) (sorted_entries (view (ldb s))))) =
    take n (filter (\<lambda>k. [DELETE] \<le> k) ?D)"
    unfolding take_map [symmetric] keys_from by simp
  then have "takeWhile (prefix [DELETE]) (map fst (take n (filter (\<lambda>e. [DELETE] \<le> fst e) (sorted_entries (view (ldb s)))))) =
    take n (filter (prefix [DELETE]) ?D)"
    by (simp add: takeWhile_take takeWhile_prefix)
  then show ?thesis
    using load_delete_loop_yields [OF yields_SSDB_iterator [of "ldb s" "[DELETE]" "[]" "word_of_nat n"], of "tasks s"]
    by (simp add: load_delete_keys_from_db_def k n t)
qed

lemma bg_take_spec:
  assumes "keys_wf (view (ldb s))" "queue_ok (view (ldb s)) (tasks s)" "bg_take R s = (x, s')"
  shows "ldb s' = ldb s" "queue_ok (view (ldb s)) (if x = [] then tasks s' else x # tasks s')"
proof -
  define s1 where "s1 = (if tasks s = [] then load_delete_keys_from_db R s 1000 else s)"
  have s1: "ldb s1 = ldb s" "queue_ok (view (ldb s)) (tasks s1)"
    using assms(2) gc_take_queue_ok [OF assms(1) finite_view, of 1000] load_delete_eq [of 1000 s]
    by (simp_all add: s1_def)
  have ne: "y \<noteq> []" if "y \<in> set (tasks s1)" for y
    using s1(2) that unfolding queue_ok_def delete_key_is_internal_key by auto
  have "bg_take R s = (case tasks s1 of [] \<Rightarrow> ([], s1) | del_key # rest \<Rightarrow> (del_key, s1\<lparr>tasks := rest\<rparr>))"
    unfolding bg_take_def Let_def s1_def [symmetric] ..
  then show "ldb s' = ldb s" "queue_ok (view (ldb s)) (if x = [] then tasks s' else x # tasks s')"
    using assms(3) s1 ne by (cases "tasks s1"; auto)+
qed

lemma gc_commit_inv:
  assumes "gc_inv view (s, ScoresScanned x dk b)"
  shows "gc_inv view (gc_commit R s x dk b, Idle)"
    "\<exists>key v. long_enough key \<and> x = encode_delete_key key v \<and> pending (view (ldb s)) key v \<and>
      view (ldb (gc_commit R s x dk b)) = gc_effect key v (view (ldb s))"
proof -
  let ?m = "view (ldb s)"
  have inv: "\<forall>k. long_enough k \<longrightarrow> reclaim_ok ?m k" "keys_wf ?m" "queue_ok ?m (x # tasks s)"
    using assms by (simp_all add: gc_inv_def)
  from assms obtain key v ks where d: "long_enough key" "x = encode_delete_key key v" "dk = delete_key_of key v"
    "b = map Delete ks" "set ks = collected ?m ITEM key v \<union> collected ?m ZSCORE key v"
    by (auto simp: gc_inv_def)
  have mw: "meta_wf ?m key" using inv(1) d(1) by (simp add: reclaim_ok_def)
  have ks: "set ks = {x \<in> dom ?m. prefix (encode_key_internal ITEM key [] v) x \<or>
      prefix (encode_key_internal ZSCORE key [] v) x}"
    unfolding d(5) collected_def by auto
  from gc_commit_effect [OF mw d(1) ks] have
    eff: "view (ldb (gc_commit R s x dk b)) = gc_effect key v ?m" unfolding d(2-4) .
  have t: "tasks (gc_commit R s x dk b) = tasks s" unfolding d(2-4) by (rule gc_commit_view(2) [OF mw])
  note q = inv(3) [unfolded d(2)]
  show "gc_inv view (gc_commit R s x dk b, Idle)"
    using gc_reclaim [OF inv(1) d(1) q] gc_keys_wf [OF inv(2)] gc_queue_ok [OF q d(1)]
    by (simp add: gc_inv_def eff t)
  have "pending ?m key v" using q d(1) by (rule queue_head_pending)
  with d eff show "\<exists>key v. long_enough key \<and> x = encode_delete_key key v \<and> pending ?m key v \<and>
      view (ldb (gc_commit R s x dk b)) = gc_effect key v ?m" by blast
qed

lemma taken_decode:
  assumes "gc_inv view (s, Taken x)"
  shows "\<exists>key v. long_enough key \<and> x = encode_delete_key key v \<and> DecodeDeleteKey x = Some (delete_key_of key v)"
proof -
  have "queue_ok (view (ldb s)) (x # tasks s)" using assms by (simp add: gc_inv_def)
  then obtain k v where "long_enough k" "x = encode_delete_key k v"
    unfolding queue_ok_def by (meson list.set_intros(1))
  then show ?thesis by (intro exI [of _ k] exI [of _ v]) (simp add: delete_key_of_def)
qed

lemma gc_scan_items_inv:
  assumes "gc_inv view (s, Taken x)" "DecodeDeleteKey x = Some dk" "card (dom (view (ldb s))) < 2 ^ 64"
  shows "gc_inv view (s, ItemsScanned x dk (gc_scan_items R s dk))"
proof -
  from taken_decode [OF assms(1)] assms(2) obtain key v where
    k: "long_enough key" "x = encode_delete_key key v" "dk = delete_key_of key v" by (metis option.inject)
  let ?ks = "filter (prefix (item_prefix dk)) (sorted_list_of_set (dom (view (ldb s))))"
  have "gc_scan_items R s dk = map Delete ?ks" using gc_scan_items_eq [OF assms(3)] k by simp
  moreover have "set ?ks = collected (view (ldb s)) ITEM key v"
    using finite_view by (auto simp: collected_def item_prefix_def k(3))
  ultimately have "phase_ok (view (ldb s)) (ItemsScanned x dk (gc_scan_items R s dk))"
    using k unfolding phase_ok.simps by blast
  then show ?thesis using assms(1) by (simp add: gc_inv_def)
qed

lemma gc_scan_scores_inv:
  assumes "gc_inv view (s, ItemsScanned x dk b)" "card (dom (view (ldb s))) < 2 ^ 64"
  shows "gc_inv view (s, ScoresScanned x dk (gc_scan_scores R s dk b))"
proof -
  have sw: "scores_wf (view (ldb s))" using assms(1) by (simp add: gc_inv_def keys_wf_def)
  from assms(1) obtain key v ks where
    k: "long_enough key" "x = encode_delete_key key v" "dk = delete_key_of key v"
    "b = map Delete ks" "set ks = collected (view (ldb s)) ITEM key v" by (auto simp: gc_inv_def)
  let ?ks = "filter (prefix (score_prefix dk)) (sorted_list_of_set (dom (view (ldb s))))"
  have "gc_scan_scores R s dk b = map Delete (ks @ ?ks)"
    using gc_scan_scores_eq [OF assms(2) _ sw, of dk b] k by simp
  moreover have "set (ks @ ?ks) = collected (view (ldb s)) ITEM key v \<union> collected (view (ldb s)) ZSCORE key v"
    using finite_view k(5) by (auto simp: collected_def score_prefix_def k(3))
  ultimately have "phase_ok (view (ldb s)) (ScoresScanned x dk (gc_scan_scores R s dk b))"
    using k unfolding phase_ok.simps by blast
  then show ?thesis using assms(1) by (simp add: gc_inv_def)
qed

lemma bg_step_inv: "bg_step R view c c' \<Longrightarrow> gc_inv view c \<Longrightarrow> gc_inv view c'"
proof (induction rule: bg_step.induct)
  case (take_idle s s')
  then show ?case using bg_take_spec [of s "[]" s'] by (simp add: gc_inv_def)
next
  case (take_task s x s')
  then show ?case using bg_take_spec [of s x s'] by (simp add: gc_inv_def)
next
  case (bad_key x s)
  then show ?case using taken_decode [of s x] by (metis option.distinct(1))
next
  case (scan_items x dk s)
  then show ?case using gc_scan_items_inv by blast
next
  case (scan_scores s x dk b)
  then show ?case using gc_scan_scores_inv by blast
next
  case (commit s x dk b)
  then show ?case using gc_commit_inv(1) by blast
next
  case (quit s)
  then show ?case by (simp add: gc_inv_def runBGTask_quit_def queue_ok_def)
qed

text \<open>A client step keeps the invariant wherever the thread stands.\<close>

lemma client_inv:
  assumes "gc_inv view (s, p)" and client: "client_step key w (view (ldb s)) (view (ldb s'))" "tasks s' = tasks s"
    "\<not> meta_is (view (ldb s)) key KEY_DELETE_MASK UINT16_MAX"
  shows "gc_inv view (s', p)"
proof -
  from assms(1) have inv: "\<forall>k. long_enough k \<longrightarrow> reclaim_ok (view (ldb s)) k" "keys_wf (view (ldb s))"
    "queue_ok (view (ldb s)) (gc_queue p (tasks s))" "phase_ok (view (ldb s)) p"
    by (simp_all add: gc_inv_def)
  note r = inv(1) client(1,3)
  have "\<forall>k. long_enough k \<longrightarrow> reclaim_ok (view (ldb s')) k" using client_reclaim [OF r] by blast
  then show ?thesis
    using client_keys_wf [OF inv(2) client(1)] client_queue_ok [OF r inv(3)] client_phase_ok [OF r inv(3,4)] client(2)
    by (simp add: gc_inv_def)
qed

end

lemma gc_inv_empty: "view (ldb s) = Map.empty \<Longrightarrow> tasks s = [] \<Longrightarrow> gc_inv view (s, Idle)"
  by (simp add: gc_inv_def reclaim_ok_def keys_wf_def scores_wf_def queue_ok_def meta_wf_def meta_is_def pending_def)

section \<open>Progress\<close>

text \<open>The delete keys in the store.\<close>

definition delete_keys :: "contents \<Rightarrow> bytes set" where
  "delete_keys m = {x \<in> dom m. prefix [DELETE] x}"

lemma pending_delete_keys: "pending m k v \<longleftrightarrow> encode_delete_key k v \<in> delete_keys m"
  by (auto simp: pending_def delete_keys_def encode_delete_key_def DELETE_def)

lemma delete_keys_gc_effect:
  assumes "keys_wf m" "long_enough key"
  shows "delete_keys (gc_effect key v m) = delete_keys m - {encode_delete_key key v}"
proof (rule set_eqI)
  fix x
  have "\<exists>k u. long_enough k \<and> x = encode_delete_key k u" if "x \<in> delete_keys m"
  proof -
    have "m x \<noteq> None" "x \<noteq> []" "hd x = DELETE" using that by (auto simp: delete_keys_def prefix_def)
    then show ?thesis using assms(1) unfolding keys_wf_def by metis
  qed
  moreover have "x \<in> delete_keys m" if "x \<in> delete_keys (gc_effect key v m)"
    using that gc_effect_some [of key v m x] by (auto simp: delete_keys_def)
  moreover have "x \<in> delete_keys (gc_effect key v m) \<longleftrightarrow> x \<noteq> encode_delete_key key v"
    if "long_enough k" "x = encode_delete_key k u" "x \<in> delete_keys m" for k u
    using that gc_effect_keys(1) [OF assms(2) that(1), of v m u] encode_delete_key_inj [OF that(1) assms(2)]
    by (auto simp: delete_keys_def)
  ultimately show "x \<in> delete_keys (gc_effect key v m) \<longleftrightarrow> x \<in> delete_keys m - {encode_delete_key key v}"
    by blast
qed

context rocksdb_iter
begin

lemma bg_take_Nil:
  assumes "keys_wf (view (ldb s))" "bg_take R s = ([], s')" "queue_ok (view (ldb s)) (tasks s)"
  shows "delete_keys (view (ldb s)) = {} \<and> s' = s"
proof -
  have ne: "y \<noteq> []" if "y \<in> set q" "queue_ok (view (ldb s)) q" for y q
    using that unfolding queue_ok_def delete_key_is_internal_key by auto
  let ?q = "take 1000 (filter (prefix [DELETE]) (sorted_list_of_set (dom (view (ldb s)))))"
  have "tasks s = []"
    using assms(2,3) ne [of "hd (tasks s)" "tasks s"] by (cases "tasks s") (auto simp: bg_take_def)
  then have b: "bg_take R s = (case ?q of [] \<Rightarrow> ([], s\<lparr>tasks := ?q\<rparr>) | x # q \<Rightarrow> (x, s\<lparr>tasks := q\<rparr>))"
    using load_delete_eq [of 1000 s] by (cases ?q) (simp_all add: bg_take_def Let_def)
  have q: "?q = []"
    using assms(2) b ne [of "hd ?q" ?q] gc_take_queue_ok [OF assms(1) finite_view, of 1000]
    by (cases ?q) auto
  then have "filter (prefix [DELETE]) (sorted_list_of_set (dom (view (ldb s)))) = []" by simp
  then have "\<forall>x \<in> dom (view (ldb s)). \<not> prefix [DELETE] x"
    using finite_view by (simp only: filter_empty_conv set_sorted_list_of_set)
  then have "delete_keys (view (ldb s)) = {}" by (auto simp: delete_keys_def)
  moreover have "s\<lparr>tasks := []\<rparr> = s" using \<open>tasks s = []\<close> by (cases s) simp
  then have "s' = s" using assms(2) b q by simp
  ultimately show ?thesis ..
qed

lemma runBGTask_turn_inv:
  assumes "gc_inv view (s, Idle)" "card (dom (view (ldb s))) < 2 ^ 64"
  shows "gc_inv view (runBGTask_turn R s, Idle)"
    "view (ldb (runBGTask_turn R s)) \<subseteq>\<^sub>m view (ldb s)"
    "card (delete_keys (view (ldb (runBGTask_turn R s)))) = card (delete_keys (view (ldb s))) - 1"
proof -
  let ?m = "view (ldb s)"
  have inv: "keys_wf ?m" "queue_ok ?m (tasks s)" "\<forall>k. long_enough k \<longrightarrow> reclaim_ok ?m k"
    using assms(1) by (simp_all add: gc_inv_def)
  obtain x s' where t: "bg_take R s = (x, s')" by force
  note spec = bg_take_spec [OF inv(1,2) t]
  have fin: "finite (delete_keys ?m)" using finite_view by (simp add: delete_keys_def)
  have "gc_inv view (runBGTask_turn R s, Idle) \<and> view (ldb (runBGTask_turn R s)) \<subseteq>\<^sub>m ?m \<and>
    card (delete_keys (view (ldb (runBGTask_turn R s)))) = card (delete_keys ?m) - 1"
  proof (cases "x = []")
    case True
    then have "delete_keys ?m = {}" "runBGTask_turn R s = s"
      using bg_take_Nil [OF inv(1) _ inv(2)] t by (simp_all add: runBGTask_turn_def)
    then show ?thesis using assms(1) by simp
  next
    case False
    then have tk: "gc_inv view (s', Taken x)" using inv spec by (simp add: gc_inv_def)
    from taken_decode [OF this] obtain key v where
      k: "long_enough key" "x = encode_delete_key key v" by blast
    have q: "queue_ok ?m (encode_delete_key key v # tasks s')" using spec(2) False k(2) by simp
    have p: "pending ?m key v" using q k(1) by (rule queue_head_pending)
    have turn: "runBGTask_turn R s = delete_key_loop R s' x" using t False by (simp add: runBGTask_turn_def)
    have pre: "card (dom (view (ldb s'))) < 2 ^ 64" "scores_wf (view (ldb s'))" "meta_wf (view (ldb s')) key"
      using assms(2) inv k(1) spec(1) by (simp_all add: keys_wf_def reclaim_ok_def)
    note eff = delete_key_loop_effect [OF pre(1) k(1) pre(2,3), of v, folded k(2), unfolded spec(1)]
    have "gc_inv view (runBGTask_turn R s, Idle)"
      unfolding turn using gc_reclaim [OF inv(3) k(1) q] gc_keys_wf [OF inv(1)] gc_queue_ok [OF q k(1)]
      by (simp add: gc_inv_def eff)
    moreover have "view (ldb (runBGTask_turn R s)) \<subseteq>\<^sub>m ?m"
      unfolding turn eff by (auto simp: map_le_def gc_effect_def split: if_splits)
    moreover have "encode_delete_key key v \<in> delete_keys ?m" using p pending_delete_keys by blast
    then have "card (delete_keys (view (ldb (runBGTask_turn R s)))) = card (delete_keys ?m) - 1"
      unfolding turn eff delete_keys_gc_effect [OF inv(1) k(1)] using fin by simp
    ultimately show ?thesis by blast
  qed
  then show "gc_inv view (runBGTask_turn R s, Idle)"
    "view (ldb (runBGTask_turn R s)) \<subseteq>\<^sub>m ?m"
    "card (delete_keys (view (ldb (runBGTask_turn R s)))) = card (delete_keys ?m) - 1" by blast+
qed

lemma runBGTask_turns:
  assumes "gc_inv view (s, Idle)" "card (dom (view (ldb s))) < 2 ^ 64"
  shows "gc_inv view ((runBGTask_turn R ^^ n) s, Idle) \<and>
    card (dom (view (ldb ((runBGTask_turn R ^^ n) s)))) < 2 ^ 64 \<and>
    card (delete_keys (view (ldb ((runBGTask_turn R ^^ n) s)))) = card (delete_keys (view (ldb s))) - n"
proof (induction n)
  case (Suc n)
  let ?s = "(runBGTask_turn R ^^ n) s"
  from Suc have t: "gc_inv view (?s, Idle)" "card (dom (view (ldb ?s))) < 2 ^ 64" by blast+
  note turn = runBGTask_turn_inv [OF t]
  have "card (dom (view (ldb (runBGTask_turn R ?s)))) \<le> card (dom (view (ldb ?s)))"
    using map_le_implies_dom_le [OF turn(2)] finite_view by (rule card_mono [rotated])
  with turn Suc show ?case by simp
qed (use assms in simp)

lemma runBGTask_turns_sub:
  assumes "gc_inv view (s, Idle)" "card (dom (view (ldb s))) < 2 ^ 64"
  shows "view (ldb ((runBGTask_turn R ^^ n) s)) \<subseteq>\<^sub>m view (ldb s)"
proof (induction n)
  case (Suc n)
  have t: "gc_inv view ((runBGTask_turn R ^^ n) s, Idle)" "card (dom (view (ldb ((runBGTask_turn R ^^ n) s)))) < 2 ^ 64"
    using runBGTask_turns [OF assms, of n] by blast+
  from map_le_trans [OF runBGTask_turn_inv(2) [OF t] Suc] show ?case by simp
qed simp

end

text \<open>Without delete keys there is no garbage: every entry belongs to a key that is alive.\<close>

lemma no_delete_keys:
  assumes "reclaim_ok m key" "delete_keys m = {}"
  shows "m (encode_meta_key key) \<noteq> None \<longrightarrow> live m key"
    "t = ITEM \<or> t = ZSCORE \<Longrightarrow> m (encode_key_internal t key f v) \<noteq> None \<Longrightarrow> meta_is m key KEY_ENABLED_MASK v"
proof -
  have np: "\<not> pending m key u" for u using assms(2) pending_delete_keys by blast
  then have nd: "\<not> meta_is m key KEY_DELETE_MASK u" for u using assms(1) unfolding reclaim_ok_def by blast
  have "meta_wf m key" using assms(1) by (simp add: reclaim_ok_def)
  then show "m (encode_meta_key key) \<noteq> None \<longrightarrow> live m key"
    by (cases rule: meta_wf_cases) (use nd in \<open>auto simp: live_def meta_is_def POS_DEL_def str_pos_del\<close>)
  show "meta_is m key KEY_ENABLED_MASK v" if "t = ITEM \<or> t = ZSCORE" "m (encode_key_internal t key f v) \<noteq> None"
    using reclaim_ok_item [OF assms(1) that] np by blast
qed

section \<open>Commands that are client steps\<close>

context expiration_canceller
begin

lemma cancel_frame_own:
  assumes "x \<noteq> encode_eset_key k" "x \<notin> range (encode_escore_key k)"
  shows "apply_batch (fst (snd (cancel s k b))) m x = apply_batch b m x"
proof -
  from cancel_appends [of s k b] obtain dels where
    d: "fst (snd (cancel s k b)) = b @ map Delete dels"
      "set dels \<subseteq> insert (encode_eset_key k) (range (encode_escore_key k))" by blast
  with assms have "x \<notin> set dels" by blast
  with d show ?thesis by (simp add: apply_batch_deletes)
qed

end

lemma cancel_tasks: "cancelExpiration R s key b = (x, b', s') \<Longrightarrow> tasks s' = tasks s"
  by (auto simp: cancelExpiration_def Let_def split: if_splits prod.splits)

lemma not_escore [simp]:
  "encode_meta_key k \<notin> range (encode_escore_key key)" "encode_delete_key k v \<notin> range (encode_escore_key key)"
  "t \<noteq> ESCORE \<Longrightarrow> encode_key_internal t k f v \<notin> range (encode_escore_key key)"
  by auto

text \<open>Marking a key as deleted, in a batch that writes items of the live version as well.\<close>

lemma delete_client_step:
  assumes "long_enough key" "meta_is m key KEY_ENABLED_MASK v"
    "\<And>x. x \<notin> work_keys key v \<Longrightarrow> m' x = m x"
    "meta_is m' key KEY_DELETE_MASK v" "m' (encode_delete_key key v) \<noteq> None"
  shows "client_step key v m m'"
  using assms unfolding client_step_def pending_def by blast

lemma work_keys_expiry:
  "x \<notin> work_keys key v \<Longrightarrow> x \<noteq> encode_eset_key key \<and> x \<notin> range (encode_escore_key key) \<and>
     x \<noteq> encode_meta_key key \<and> x \<noteq> encode_delete_key key v"
  by (simp add: work_keys_def)

lemma meta_is_deleted:
  assumes "length mv \<ge> 4" "m' (encode_meta_key key) = Some (mv[POS_DEL := d])"
  shows "meta_is m' key d (meta_version mv)"
proof -
  let ?mv = "mv[POS_DEL := d]"
  have "length ?mv \<ge> 4" "?mv ! 3 = d" using assms(1) by (simp_all add: POS_DEL_def)
  with meta_split [of ?mv] meta_version_upd [OF assms(1), of d]
  have "?mv = ?mv ! 0 # raw16 (htobe16 (meta_version mv)) @ d # drop 4 ?mv" by metis
  with assms(2) show ?thesis unfolding meta_is_def by metis
qed

context rocksdb_healthy
begin

lemma del_client_step:
  assumes "long_enough key" "meta_is (view (ldb s)) key KEY_ENABLED_MASK v" "del R s key = (r, s')"
  shows "r = 1 \<and> client_step key v (view (ldb s)) (view (ldb s')) \<and> tasks s' = tasks s"
proof -
  let ?m = "view (ldb s)"
  from assms(2) obtain t q where mv0: "?m (encode_meta_key key) = Some (t # raw16 (htobe16 v) @ KEY_ENABLED_MASK # q)"
    unfolding meta_is_def by blast
  define mv where "mv = t # raw16 (htobe16 v) @ KEY_ENABLED_MASK # q"
  have mv: "?m (encode_meta_key key) = Some mv" "length mv \<ge> 4" "mv ! POS_DEL = KEY_ENABLED_MASK" "meta_version mv = v"
    using mv0 by (simp_all add: mv_def POS_DEL_def str_pos_del meta_version_def)
  let ?b = "[Put (encode_meta_key key) (mv[POS_DEL := KEY_DELETE_MASK]), Put (encode_delete_key key v) []]"
  obtain x b' s1 where c: "cancelExpiration R s key ?b = (x, b', s1)" by (metis prod_cases3)
  have s1: "ldb s1 = ldb s" "tasks s1 = tasks s"
    using ce.cancel_db [of R s key ?b] cancel_tasks [OF c] c by simp_all
  have "del_key_internal R s key [] = (1, b', s1)"
    using mv c meta_version_upd [OF mv(2), of KEY_DELETE_MASK]
    by (simp add: del_key_internal_def Get_view mark_key_deleted_def Let_def meta_version_def)
  then have res: "r = 1" "view (ldb s') = apply_batch b' ?m" "tasks s' = tasks s"
    using assms(3) s1 by (auto simp: del_def CommitBatch_view Write_view)
  have frame: "view (ldb s') x = apply_batch ?b ?m x"
    if "x \<noteq> encode_eset_key key" "x \<notin> range (encode_escore_key key)" for x
    using ce.cancel_frame_own [OF that, of R s ?b ?m] c by (simp add: res(2))
  have "view (ldb s') (encode_meta_key key) = Some (mv[POS_DEL := KEY_DELETE_MASK])"
    using frame [of "encode_meta_key key"] by auto
  then have "meta_is (view (ldb s')) key KEY_DELETE_MASK v" using meta_is_deleted [OF mv(2)] mv(4) by simp
  moreover have "view (ldb s') (encode_delete_key key v) \<noteq> None"
    using frame [of "encode_delete_key key v"] by auto
  moreover have "view (ldb s') x = ?m x" if "x \<notin> work_keys key v" for x
    using frame [of x] work_keys_expiry [OF that] by auto
  ultimately show ?thesis using delete_client_step [OF assms(1,2)] res by blast
qed

end

text \<open>
  Every writer of hashes, sets and sorted sets ends in an update of the counter and a commit:
  the contract of the collections makes all of them client steps.
\<close>

definition work_batch :: "bytes \<Rightarrow> u16 \<Rightarrow> batch \<Rightarrow> bool" where
  "work_batch key v b \<longleftrightarrow> op_key ` set b \<subseteq> range (\<lambda>f. encode_key_internal ITEM key f v) \<union>
     {encode_key_internal ZSCORE key f v | f. length f \<ge> 8}"

lemma work_batch_item: "work_batch key v b \<Longrightarrow> item_batch key v b"
  by (force simp: work_batch_def item_batch_def item_keys_def)

lemma work_batch_frame:
  assumes "work_batch key v b"
  shows "x \<notin> work_keys key v \<Longrightarrow> apply_batch b m x = m x"
    "apply_batch b m (encode_meta_key key) = m (encode_meta_key key)"
    "apply_batch b m (encode_delete_key key v) = m (encode_delete_key key v)"
  using assms by (auto simp: work_batch_def work_keys_def intro!: apply_batch_other)

lemma apply_deletes_some:
  assumes "\<forall>op \<in> set b. \<exists>k. op = Delete k" "apply_batch b m x \<noteq> None"
  shows "m x \<noteq> None"
proof -
  from assms(1) obtain ks where "b = map Delete ks" by (metis ex_map_conv)
  with assms(2) show ?thesis by (auto simp: apply_batch_deletes split: if_splits)
qed

context collection
begin

lemma commit_incr_client:
  assumes long: "long_enough key" and cur: "coll_cur tag (view (ldb s)) key v h" and mv: "coll_meta h v mv"
    and wb: "work_batch key v b" and h': "item_map key v (apply_batch b (view (ldb s))) = h'"
    and fin: "finite (dom h')" "card (dom h') < 2 ^ 63"
    and n: "n = int (card (dom h')) - int (card (dom h))"
    and del: "h' = Map.empty \<longrightarrow> (\<forall>f. apply_batch b (view (ldb s)) (encode_key_internal ZSCORE key f v) \<noteq> None \<longrightarrow>
      view (ldb s) (encode_key_internal ZSCORE key f v) \<noteq> None)"
    and res: "commit_incr R (incr s key b mv n) = (r, s')"
  shows "client_step key v (view (ldb s)) (view (ldb s')) \<and> tasks s' = tasks s"
proof -
  let ?m = "view (ldb s)" and ?k = "encode_meta_key key"
  note hD = coll_curD [OF cur]
  have len: "mv_length mv = 0 \<longleftrightarrow> h = Map.empty" "sint (mv_length mv) = int (card (dom h))"
    and ver: "mv_version mv = v"
    using mv card_word_0 [OF hD(1,2)] sint_card [OF hD(2)] by (auto simp: coll_meta_def)
  have card0: "card (dom h) = 0 \<longleftrightarrow> h = Map.empty" "card (dom h') = 0 \<longleftrightarrow> h' = Map.empty"
    using hD(1) fin(1) by auto
  have at: "meta_is ?m key KEY_ENABLED_MASK v \<and> h \<noteq> Map.empty \<or> absent ?m key v \<and> h = Map.empty"
    using cur by (auto simp: coll_cur_def coll_at_def meta_is_def encode_meta_val_internal_def)
  note frame = work_batch_frame [OF wb]
  have put: ?thesis
    if "incr s key b mv n = (1, b @ [Put ?k (encode_meta_val_internal tag l v KEY_ENABLED_MASK)], s)" for l
  proof -
    have m': "view (ldb s') = (apply_batch b ?m)(?k \<mapsto> encode_meta_val_internal tag l v KEY_ENABLED_MASK)"
      using res that by (auto simp: commit_incr_def CommitBatch_view Let_def Write_view)
    have "meta_is (view (ldb s')) key KEY_ENABLED_MASK v" by (simp add: m' meta_is_def encode_meta_val_internal_def)
    moreover have "view (ldb s') (encode_delete_key key v) = ?m (encode_delete_key key v)" by (simp add: m' frame(3))
    moreover have "view (ldb s') x = ?m x" if "x \<notin> work_keys key v" for x
      using frame(1) [OF that] work_keys_expiry [OF that] by (simp add: m')
    moreover have "tasks s' = tasks s"
      using res that by (auto simp: commit_incr_def CommitBatch_view Let_def)
    ultimately show ?thesis using long at unfolding client_step_def by blast
  qed
  consider "n = 0" | "n \<noteq> 0" "h = Map.empty" | "n \<noteq> 0" "h \<noteq> Map.empty" "h' \<noteq> Map.empty"
    | "n \<noteq> 0" "h \<noteq> Map.empty" "h' = Map.empty" by blast
  then show ?thesis
  proof cases
    case 1
    then have m': "view (ldb s') = apply_batch b ?m" "tasks s' = tasks s"
      using res by (auto simp: commit_incr_def CommitBatch_view Let_def Write_view incr_same split: if_splits)
    have "h' = Map.empty" if "absent ?m key v" using that 1 n card0 at meta_is_absent by fastforce
    then have "\<forall>t f. t = ITEM \<or> t = ZSCORE \<longrightarrow> view (ldb s') (encode_key_internal t key f v) \<noteq> None \<longrightarrow>
      ?m (encode_key_internal t key f v) \<noteq> None" if "absent ?m key v"
      using that del h' unfolding m' by (auto simp: item_map_def fun_eq_iff)
    then show ?thesis using long at frame m'(2) unfolding client_step_def m'(1) by metis
  next
    case 2
    then have "0 < n" using n card0 by auto
    then show ?thesis using put incr_first [of mv n s key b] len 2 ver by simp
  next
    case 3
    then have "card (dom h') > 0" "card (dom h) > 0" using card0 by auto
    then show ?thesis using put incr_more [of mv n s key b] 3 len fin(2) n ver by (simp add: int64_def)
  next
    case 4
    then have "n = - sint (mv_length mv)" "0 < sint (mv_length mv)" using n len card0 by auto
    note last = incr_last [OF this(2,1), of s key b]
    let ?b = "b @ [Put (encode_delete_key key v) [],
      Put ?k (encode_meta_val_internal tag (mv_length mv) v KEY_DELETE_MASK)]"
    from last obtain x b' s1 where c: "cancelExpiration R s key ?b = (x, b', s1)"
      "incr s key b mv n = (0, b', s1)" using ver by auto
    have "ldb s1 = ldb s" "tasks s1 = tasks s" using ce.cancel_db [of R s key ?b] cancel_tasks [OF c(1)] c(1) by simp_all
    then have m': "view (ldb s') = apply_batch b' ?m" and t: "tasks s' = tasks s"
      using res c(2) by (auto simp: commit_incr_def CommitBatch_view Let_def Write_view)
    have fr: "view (ldb s') x = apply_batch ?b ?m x"
      if "x \<noteq> encode_eset_key key" "x \<notin> range (encode_escore_key key)" for x
      using ce.cancel_frame_own [OF that, of R s ?b ?m] c(1) by (simp add: m')
    have "meta_is (view (ldb s')) key KEY_DELETE_MASK v" "view (ldb s') (encode_delete_key key v) \<noteq> None"
      using fr [of ?k] fr [of "encode_delete_key key v"] by (simp_all add: meta_is_def encode_meta_val_internal_def)
    moreover have "view (ldb s') x = ?m x" if "x \<notin> work_keys key v" for x
      using fr [of x] work_keys_expiry [OF that] frame(1) [OF that] by simp
    ultimately show ?thesis using at 4 t delete_client_step [OF long] by blast
  qed
qed

lemma commit_incr_client_step:
  assumes "long_enough key" "coll_cur tag (view (ldb s)) key v h" "coll_meta h v mv" "work_batch key v b"
    "item_map key v (apply_batch b (view (ldb s))) = h'" "finite (dom h')" "card (dom h') < 2 ^ 63"
    "n = int (card (dom h')) - int (card (dom h))" "h' = Map.empty \<longrightarrow> (\<forall>op \<in> set b. \<exists>k. op = Delete k)"
    "commit_incr R (incr s key b mv n) = (r, s')"
  shows "client_step key v (view (ldb s)) (view (ldb s')) \<and> tasks s' = tasks s"
  using apply_deletes_some assms(9) by (intro commit_incr_client [OF assms(1-8) _ assms(10)]) blast

end

section \<open>Live data\<close>

text \<open>Two stores agree on a version of a key.\<close>

definition same_version :: "bytes \<Rightarrow> u16 \<Rightarrow> contents \<Rightarrow> contents \<Rightarrow> bool" where
  "same_version key v m m' \<longleftrightarrow> m' (encode_meta_key key) = m (encode_meta_key key) \<and>
     (\<forall>t f. t = ITEM \<or> t = ZSCORE \<longrightarrow> m' (encode_key_internal t key f v) = m (encode_key_internal t key f v))"

lemma live_not_pending:
  assumes "reclaim_ok m key" "meta_is m key KEY_ENABLED_MASK v"
  shows "\<not> pending m key v"
proof
  assume "pending m key v"
  then have "v < v" using assms meta_is_unique unfolding reclaim_ok_def by (metis masks_differ(1))
  then show False by simp
qed

lemma gc_effect_live:
  assumes "reclaim_ok m key" "long_enough key" "long_enough k" "pending m k u" "meta_is m key KEY_ENABLED_MASK v"
  shows "same_version key v m (gc_effect k u m)"
proof -
  have ne: "\<not> (key = k \<and> v = u)" using live_not_pending [OF assms(1,5)] assms(4) by blast
  have "\<not> (key = k \<and> meta_is m k KEY_DELETE_MASK u)" using assms(5) meta_is_unique by (metis masks_differ(1))
  then show ?thesis
    unfolding same_version_def gc_effect_keys(3) [OF assms(3,2)] using gc_effect_keys(2) [OF assms(3,2)] ne by metis
qed

context rocksdb_iter
begin

lemma runBGTask_turn_live:
  assumes "gc_inv view (s, Idle)" "card (dom (view (ldb s))) < 2 ^ 64" "long_enough key"
    "meta_is (view (ldb s)) key KEY_ENABLED_MASK v"
  shows "same_version key v (view (ldb s)) (view (ldb (runBGTask_turn R s)))"
proof -
  let ?m = "view (ldb s)"
  have inv: "keys_wf ?m" "queue_ok ?m (tasks s)" "\<forall>k. long_enough k \<longrightarrow> reclaim_ok ?m k"
    using assms(1) by (simp_all add: gc_inv_def)
  obtain x s' where t: "bg_take R s = (x, s')" by force
  note spec = bg_take_spec [OF inv(1,2) t]
  show ?thesis
  proof (cases "x = []")
    case True
    then show ?thesis using t spec(1) by (simp add: runBGTask_turn_def same_version_def)
  next
    case False
    then have "gc_inv view (s', Taken x)" using inv spec by (simp add: gc_inv_def)
    from taken_decode [OF this] obtain k u where k: "long_enough k" "x = encode_delete_key k u" by blast
    have q: "queue_ok ?m (encode_delete_key k u # tasks s')" using spec(2) False k(2) by simp
    have pre: "card (dom (view (ldb s'))) < 2 ^ 64" "scores_wf (view (ldb s'))" "meta_wf (view (ldb s')) k"
      using assms(2) inv k(1) spec(1) by (simp_all add: keys_wf_def reclaim_ok_def)
    have "view (ldb (runBGTask_turn R s)) = gc_effect k u ?m"
      using delete_key_loop_effect(1) [OF pre(1) k(1) pre(2,3), of u] t False k(2) spec(1)
      by (simp add: runBGTask_turn_def)
    then show ?thesis
      using gc_effect_live [OF _ assms(3) k(1) queue_head_pending [OF q k(1)] assms(4)] inv(3) assms(3) by simp
  qed
qed

lemma runBGTask_turns_live:
  assumes "gc_inv view (s, Idle)" "card (dom (view (ldb s))) < 2 ^ 64" "long_enough key"
    "meta_is (view (ldb s)) key KEY_ENABLED_MASK v"
  shows "same_version key v (view (ldb s)) (view (ldb ((runBGTask_turn R ^^ n) s)))"
proof (induction n)
  case (Suc n)
  let ?s = "(runBGTask_turn R ^^ n) s"
  note t = runBGTask_turns [OF assms(1,2), of n]
  have "meta_is (view (ldb ?s)) key KEY_ENABLED_MASK v"
    using Suc assms(4) unfolding same_version_def meta_is_def by metis
  then have "same_version key v (view (ldb ?s)) (view (ldb (runBGTask_turn R ?s)))"
    using runBGTask_turn_live [of ?s] t assms(3) by blast
  with Suc show ?case unfolding same_version_def by simp
qed (simp add: same_version_def)

end

section \<open>An example run\<close>

text \<open>An example run: two hashes are written, one is deleted, the thread scans it.\<close>

definition run_hash :: "bytes \<Rightarrow> (bytes \<times> bytes) list" where
  "run_hash key = [(encode_meta_key key, encode_hash_meta_val 1 0 KEY_ENABLED_MASK), (encode_hash_key key [102] 0, [120])]"

definition run_written :: "(bytes \<times> bytes) list ssdb" where
  "run_written = empty_store\<lparr>ldb := run_hash [108] @ run_hash [107]\<rparr>"

definition run_deleted :: "(bytes \<times> bytes) list ssdb" where
  "run_deleted = snd (del mem_rocksdb run_written [107])"


lemma run_client_step:
  assumes "m (encode_meta_key [k]) = None"
  shows "client_step [k] 0 m (m ++ map_of (run_hash [k]))"
proof -
  have "(m ++ map_of (run_hash [k])) x = m x" if "x \<notin> work_keys [k] 0" for x
    using that by (auto simp: run_hash_def work_keys_def encode_hash_key_def map_add_def)
  moreover have "meta_is (m ++ map_of (run_hash [k])) [k] KEY_ENABLED_MASK 0"
    by (simp add: meta_is_def run_hash_def encode_hash_meta_val_def encode_meta_val_internal_def)
  moreover have "(m ++ map_of (run_hash [k])) (encode_delete_key [k] 0) = m (encode_delete_key [k] 0)"
    by (simp add: run_hash_def map_add_def encode_hash_key_def)
  ultimately show ?thesis using assms unfolding client_step_def absent_def by simp
qed

lemma run_written_inv: "gc_inv map_of (run_written, Idle)"
proof -
  let ?s = "empty_store\<lparr>ldb := run_hash [107]\<rparr>"
  have 0: "gc_inv map_of (empty_store, Idle)" by (rule gc_inv_empty) (simp_all add: empty_store_def)
  have 1: "gc_inv map_of (?s, Idle)"
    using run_client_step [of Map.empty 107]
    by (intro mem.client_inv [OF 0, where key = "[107]" and w = 0]) (simp_all add: empty_store_def meta_is_def)
  show ?thesis
    using run_client_step [of "map_of (run_hash [107])" 108]
    by (intro mem.client_inv [OF 1, where key = "[108]" and w = 0])
      (simp_all add: empty_store_def meta_is_def run_written_def run_hash_def encode_hash_key_def)
qed

lemma run_written_meta: "meta_is (map_of (ldb run_written)) [107] KEY_ENABLED_MASK 0"
  by (simp add: meta_is_def run_written_def run_hash_def encode_hash_key_def encode_hash_meta_val_def encode_meta_val_internal_def)

lemma run_deleted_inv: "gc_inv map_of (run_deleted, Idle)"
proof -
  note m = run_written_meta
  obtain r where "del mem_rocksdb run_written [107] = (r, run_deleted)"
    unfolding run_deleted_def by (metis prod.collapse)
  from mem.del_client_step [OF _ m this] have
    "client_step [107] 0 (map_of (ldb run_written)) (map_of (ldb run_deleted))" "tasks run_deleted = tasks run_written" by simp_all
  moreover have "\<not> meta_is (map_of (ldb run_written)) [107] KEY_DELETE_MASK UINT16_MAX"
    using meta_is_unique [OF m, of KEY_DELETE_MASK UINT16_MAX] by auto
  ultimately show ?thesis by (intro mem.client_inv [OF run_written_inv, where key = "[107]" and w = 0])
qed

lemma run_deleted_store:
  "run_deleted = run_written\<lparr>ldb := AList.update (encode_delete_key [107] 0) []
     (AList.update (encode_meta_key [107]) (encode_hash_meta_val 1 0 KEY_DELETE_MASK) (run_hash [108] @ run_hash [107]))\<rparr>"
  by (simp add: run_deleted_def run_written_def del_def del_key_internal_def mem_rocksdb_def
    mark_key_deleted_def empty_store_def cancelExpiration_def edel_one_def eget_def CommitBatch_def
    run_hash_def Let_def encode_hash_key_def encode_hash_meta_val_def encode_meta_val_internal_def
    POS_DEL_def str_pos_del SS_del_def SS_init_def list_update_append)

lemma run_deleted_facts:
  "tasks run_deleted = []" "delete_keys (map_of (ldb run_deleted)) = {encode_delete_key [107] 0}"
  "card (dom (map_of (ldb run_deleted))) < 2 ^ 64"
  "meta_is (map_of (ldb run_deleted)) [108] KEY_ENABLED_MASK 0"
  "meta_is (map_of (ldb run_deleted)) [107] KEY_DELETE_MASK 0"
proof -
  let ?h = "map_of (run_hash [108] @ run_hash [107])"
  have m: "map_of (ldb run_deleted) = ?h(encode_meta_key [107] \<mapsto> encode_hash_meta_val 1 0 KEY_DELETE_MASK,
      encode_delete_key [107] 0 \<mapsto> [])"
    by (simp add: run_deleted_store update_conv')
  have dom: "dom ?h = {encode_meta_key [108], encode_hash_key [108] [102] 0, encode_meta_key [107], encode_hash_key [107] [102] 0}"
    by (auto simp: run_hash_def split: if_splits)
  then have dom': "dom (map_of (ldb run_deleted)) = {encode_meta_key [108], encode_hash_key [108] [102] 0,
      encode_meta_key [107], encode_hash_key [107] [102] 0, encode_delete_key [107] 0}"
    unfolding m by auto
  show "tasks run_deleted = []" by (simp add: run_deleted_store run_written_def empty_store_def)
  have "\<not> prefix [DELETE] (encode_meta_key k)" "\<not> prefix [DELETE] (encode_hash_key k f 0)"
    "prefix [DELETE] (encode_delete_key k 0)" for k f
    by (simp_all add: encode_meta_key_def encode_hash_key_def encode_key_internal_def encode_delete_key_def tags)
  then show "delete_keys (map_of (ldb run_deleted)) = {encode_delete_key [107] 0}"
    unfolding delete_keys_def dom' by blast
  have "card (dom (map_of (ldb run_deleted))) \<le> 5"
    using card_length [of "[encode_meta_key [108], encode_hash_key [108] [102] 0, encode_meta_key [107],
      encode_hash_key [107] [102] 0, encode_delete_key [107] 0]"] unfolding dom' by simp
  then show "card (dom (map_of (ldb run_deleted))) < 2 ^ 64" by simp
  show "meta_is (map_of (ldb run_deleted)) [108] KEY_ENABLED_MASK 0"
    "meta_is (map_of (ldb run_deleted)) [107] KEY_DELETE_MASK 0"
    unfolding m by (simp_all add: meta_is_def run_hash_def encode_hash_meta_val_def encode_meta_val_internal_def)
qed

section \<open>Properties\<close>

text \<open>
  C10: Background deletion comes to an end. As many turns of the thread as there are delete
  keys leave no delete key and no garbage: every meta value, item and score entry
  that remains belongs to a live key and its live version, and what was live is unchanged.
\<close>

theorem reclaim_complete:
  assumes "rocksdb_iter R view fwd" "gc_inv view (s, Idle)" "card (dom (view (ldb s))) < 2 ^ 64"
    "(runBGTask_turn R ^^ card (delete_keys (view (ldb s)))) s = s'"
  shows "delete_keys (view (ldb s')) = {} \<and> gc_inv view (s', Idle) \<and>
    (\<forall>key. long_enough key \<longrightarrow> (view (ldb s') (encode_meta_key key) \<noteq> None \<longrightarrow> live (view (ldb s')) key) \<and>
      (\<forall>t f v. t = ITEM \<or> t = ZSCORE \<longrightarrow> view (ldb s') (encode_key_internal t key f v) \<noteq> None \<longrightarrow>
         meta_is (view (ldb s')) key KEY_ENABLED_MASK v) \<and>
      (\<forall>v. meta_is (view (ldb s)) key KEY_ENABLED_MASK v \<longrightarrow> same_version key v (view (ldb s)) (view (ldb s'))))"
proof -
  note t = rocksdb_iter.runBGTask_turns [OF assms(1-3), of "card (delete_keys (view (ldb s)))", unfolded assms(4)]
  have "finite (delete_keys (view (ldb s')))"
    using rocksdb_iter.finite_view [OF assms(1)] by (simp add: delete_keys_def)
  then have d: "delete_keys (view (ldb s')) = {}" using t by simp
  have ok: "reclaim_ok (view (ldb s')) key" if "long_enough key" for key
    using t that by (simp add: gc_inv_def)
  show ?thesis
    using d t no_delete_keys [OF ok d] rocksdb_iter.runBGTask_turns_live [OF assms(1-3), where n = "card (delete_keys (view (ldb s)))", unfolded assms(4)]
    by metis
qed

theorem reclaim_complete_witness:
  "delete_keys (map_of (ldb ((runBGTask_turn mem_rocksdb ^^ 1) run_deleted))) = {}"
  using reclaim_complete [OF mem.rocksdb_iter_axioms run_deleted_inv run_deleted_facts(3) refl]
  by (simp add: run_deleted_facts(2))

end
