(* ===== verification/Lzf.thy ===== *)
theory Lzf
  imports Prelude
begin

text \<open>
  The LZF compression (\<^verbatim>\<open>src/src/redis/lzf_c.c\<close>, \<^verbatim>\<open>lzf_d.c\<close>, with the settings of \<^verbatim>\<open>lzfP.h\<close>:
  \<^verbatim>\<open>VERY_FAST\<close>, \<^verbatim>\<open>CHECK_INPUT\<close>, a hash table of offsets that is not initialised). Pointers into
  the input are positions; the output is the list of bytes written so far, so that its
  length is the output pointer. The slot reserved for the length of a literal run is written as 0
  until the run ends. The contents of the uninitialised hash table are an argument. The main
  result is that decompression inverts compression, whatever the table contains.
\<close>

section \<open>Compression\<close>

definition HLOG :: nat where "HLOG = 16"
definition MAX_LIT :: nat where "MAX_LIT = 32"
definition MAX_OFF :: nat where "MAX_OFF = 8192"
definition MAX_REF :: nat where "MAX_REF = 264"

definition FRST :: "bytes \<Rightarrow> nat \<Rightarrow> 32 word" where
  "FRST inp p = push_bit 8 (ucast (inp ! p)) OR ucast (inp ! (p + 1))"

definition NEXT :: "bytes \<Rightarrow> 32 word \<Rightarrow> nat \<Rightarrow> 32 word" where
  "NEXT inp v p = push_bit 8 v OR ucast (inp ! (p + 2))"

definition IDX :: "32 word \<Rightarrow> nat" where
  "IDX h = unat ((drop_bit (3 * 8 - HLOG) h - h * 5) AND 65535)"

text \<open>
  The length of a match: sixteen unrolled comparisons when there is room for them, and then a
  loop. The result of the first is whether a comparison failed.
\<close>

fun match_unrolled :: "bytes \<Rightarrow> nat \<Rightarrow> nat \<Rightarrow> nat \<Rightarrow> nat \<Rightarrow> bool \<times> nat" where
  "match_unrolled inp ref ip 0 len = (False, len)"
| "match_unrolled inp ref ip (Suc k) len =
     (let len = len + 1 in
      if inp ! (ref + len) \<noteq> inp ! (ip + len) then (True, len) else match_unrolled inp ref ip k len)"

function match_do :: "bytes \<Rightarrow> nat \<Rightarrow> nat \<Rightarrow> nat \<Rightarrow> nat \<Rightarrow> nat" where
  "match_do inp ref ip maxlen len =
     (let len = len + 1 in
      if len < maxlen \<and> inp ! (ref + len) = inp ! (ip + len) then match_do inp ref ip maxlen len else len)"
  by pat_completeness auto
termination
  by (relation "measure (\<lambda>(inp, ref, ip, maxlen, len). maxlen - len)") auto

declare match_do.simps [simp del]

definition match_len :: "bytes \<Rightarrow> nat \<Rightarrow> nat \<Rightarrow> nat" where
  "match_len inp ref ip =
     (let len = 2;
          maxlen = length inp - ip - len;
          maxlen = (if maxlen > MAX_REF then MAX_REF else maxlen);
          (stop, len) = (if maxlen > 16 then match_unrolled inp ref ip 16 len else (False, len))
      in if stop then len else match_do inp ref ip maxlen len)"

text \<open>Ending a run of literals and starting the next one.\<close>

definition stop_run :: "nat \<Rightarrow> bytes \<Rightarrow> bytes" where
  "stop_run lit out = out[length out - lit - 1 := word_of_int (int lit - 1)]"

definition undo_run :: "nat \<Rightarrow> bytes \<Rightarrow> bytes" where
  "undo_run lit out = (if lit = 0 then butlast out else out)"

definition start_run :: "bytes \<Rightarrow> bytes" where
  "start_run out = out @ [0]"

definition put_literal :: "byte \<Rightarrow> nat \<Rightarrow> bytes \<Rightarrow> nat \<times> bytes" where
  "put_literal b lit out =
     (let lit = lit + 1; out = out @ [b] in
      if lit = MAX_LIT then (0, start_run (stop_run lit out)) else (lit, out))"

definition put_match :: "nat \<Rightarrow> nat \<Rightarrow> bytes \<Rightarrow> bytes" where
  "put_match off len out =
     (if len < 7 then out @ [word_of_nat (off div 256 + len * 32)]
      else out @ [word_of_nat (off div 256 + 7 * 32), word_of_nat (len - 7)]) @ [word_of_nat off]"

definition lzf_found :: "bytes \<Rightarrow> nat \<Rightarrow> nat \<Rightarrow> bool" where
  "lzf_found inp ref ip \<longleftrightarrow> ref < ip \<and> ip - ref - 1 < MAX_OFF \<and> ref > 0 \<and>
     inp ! (ref + 2) = inp ! (ip + 2) \<and> inp ! ref = inp ! ip \<and> inp ! (ref + 1) = inp ! (ip + 1)"

lemma match_do_ge: "len < match_do inp ref ip maxlen len"
proof (induction inp ref ip maxlen len rule: match_do.induct)
  case (1 inp ref ip maxlen len)
  then show ?case by (auto simp: match_do.simps [of inp ref ip maxlen len] Let_def)
qed

lemma match_unrolled_ge: "len \<le> snd (match_unrolled inp ref ip k len) \<and>
  (fst (match_unrolled inp ref ip k len) \<longrightarrow> len < snd (match_unrolled inp ref ip k len))"
proof (induction k arbitrary: len)
  case (Suc k)
  from Suc [of "Suc len"] show ?case by (auto simp: Let_def)
qed simp

lemma match_len_ge: "3 \<le> match_len inp ref ip"
proof -
  have "3 \<le> match_do inp ref ip m n" if "2 \<le> n" for m n
    using match_do_ge [of n inp ref ip m] that by linarith
  moreover obtain stop n where "match_unrolled inp ref ip 16 2 = (stop, n)" by force
  ultimately show ?thesis
    using match_unrolled_ge [of 2 inp ref ip 16] by (auto simp: match_len_def Let_def)
qed

text \<open>
  The main loop. It returns the position, the output and the length of the open run when it ends, and
  nothing when the output buffer of \<open>out_len\<close> bytes is full.
\<close>

function lzf_main :: "bytes \<Rightarrow> nat \<Rightarrow> nat \<Rightarrow> bytes \<Rightarrow> nat \<Rightarrow> 32 word \<Rightarrow> (nat \<Rightarrow> nat) \<Rightarrow> (nat \<times> bytes \<times> nat) option" where
  "lzf_main inp out_len ip out lit hval htab =
     (if ip + 2 < length inp then
        let hval = NEXT inp hval ip;
            ref = htab (IDX hval);
            htab = htab(IDX hval := ip)
        in if lzf_found inp ref ip then
             let off = ip - ref - 1 in
             if length out + 3 + 1 \<ge> out_len \<and> length out - (if lit = 0 then 1 else 0) + 3 + 1 \<ge> out_len then None
             else
               let out = undo_run lit (stop_run lit out);
                   len = match_len inp ref ip - 2;
                   out = start_run (put_match off len out);
                   ip = ip + len + 2
               in if ip + 2 \<ge> length inp then Some (ip, out, 0)
                  else
                    let p = ip - 2;
                        hval = NEXT inp (FRST inp p) p;
                        htab = htab(IDX hval := p);
                        hval = NEXT inp hval (p + 1);
                        htab = htab(IDX hval := p + 1)
                    in lzf_main inp out_len ip out 0 hval htab
           else if length out \<ge> out_len then None
           else case put_literal (inp ! ip) lit out of (lit, out) \<Rightarrow>
                  lzf_main inp out_len (ip + 1) out lit hval htab
      else Some (ip, out, lit))"
  by pat_completeness auto
termination
  by (relation "measure (\<lambda>(inp, out_len, ip, out, lit, hval, htab). length inp - ip)") auto

declare lzf_main.simps [simp del]

fun lzf_rest :: "bytes \<Rightarrow> nat \<Rightarrow> bytes \<Rightarrow> nat \<times> bytes" where
  "lzf_rest [] lit out = (lit, out)"
| "lzf_rest (b # bs) lit out = (case put_literal b lit out of (lit, out) \<Rightarrow> lzf_rest bs lit out)"

text \<open>The compressed bytes, or nothing where the function returns 0.\<close>

definition lzf_compress :: "(nat \<Rightarrow> nat) \<Rightarrow> bytes \<Rightarrow> nat \<Rightarrow> bytes option" where
  "lzf_compress htab inp out_len =
     (if inp = [] \<or> out_len = 0 then None
      else
        (case lzf_main inp out_len 0 (start_run []) 0 (FRST inp 0) htab of
           None \<Rightarrow> None
         | Some (ip, out, lit) \<Rightarrow>
             if length out + 3 > out_len then None
             else (case lzf_rest (drop ip inp) lit out of (lit, out) \<Rightarrow>
                     let out = undo_run lit (stop_run lit out)
                     in if out = [] then None else Some out)))"

section \<open>Decompression\<close>

text \<open>Copying octet by octet: the source may overlap what is being written.\<close>

fun copy_octets :: "nat \<Rightarrow> nat \<Rightarrow> bytes \<Rightarrow> bytes" where
  "copy_octets ref 0 out = out"
| "copy_octets ref (Suc n) out = copy_octets (ref + 1) n (out @ [out ! ref])"

definition copy_match :: "nat \<Rightarrow> nat \<Rightarrow> bytes \<Rightarrow> bytes" where
  "copy_match ref len out =
     (if len > 9 \<and> length out \<ge> ref + (len + 2) then out @ take (len + 2) (drop ref out)
      else copy_octets ref (len + 2) out)"

function lzf_loop :: "nat \<Rightarrow> bytes \<Rightarrow> bytes \<Rightarrow> bytes option" where
  "lzf_loop out_len [] out = Some out"
| "lzf_loop out_len (c # ip) out =
     (let ctrl = unat c in
      if ctrl < 32 then
        let ctrl = ctrl + 1 in
        if length out + ctrl > out_len then None
        else if ctrl > length ip then None
        else lzf_loop out_len (drop ctrl ip) (out @ take ctrl ip)
      else
        let len = ctrl div 32;
            ref = int (length out) - int ((ctrl mod 32) * 256) - 1
        in if ip = [] then None
           else
             let (len, ip) = (if len = 7 then (len + unat (hd ip), tl ip) else (len, ip)) in
             if ip = [] then None
             else
               let ref = ref - uint (hd ip); ip = tl ip in
               if length out + len + 2 > out_len then None
               else if ref < 0 then None
               else lzf_loop out_len ip (copy_match (nat ref) len out))"
  by pat_completeness auto
termination
  by (relation "measure (\<lambda>(out_len, ip, out). length ip)") (auto simp: less_Suc_eq_le split: if_splits)

text \<open>
  The decompressed bytes, or nothing where the function returns 0. The loop is entered before the
  input is tested, so that an empty input is read out of bounds; the model gives nothing there.
\<close>

definition lzf_decompress :: "bytes \<Rightarrow> nat \<Rightarrow> bytes option" where
  "lzf_decompress inp out_len =
     (if inp = [] then None
      else case lzf_loop out_len inp [] of None \<Rightarrow> None | Some out \<Rightarrow> if out = [] then None else Some out)"

section \<open>Matches\<close>

definition agree :: "bytes \<Rightarrow> nat \<Rightarrow> nat \<Rightarrow> nat \<Rightarrow> bool" where
  "agree inp ref ip n \<longleftrightarrow> (\<forall>i < n. inp ! (ref + i) = inp ! (ip + i))"

lemma agree_Suc: "agree inp ref ip (Suc n) \<longleftrightarrow> agree inp ref ip n \<and> inp ! (ref + n) = inp ! (ip + n)"
  by (auto simp: agree_def less_Suc_eq)

lemma match_do_agree:
  assumes "agree inp ref ip (Suc len)"
  shows "agree inp ref ip (match_do inp ref ip maxlen len) \<and> match_do inp ref ip maxlen len \<le> max maxlen (Suc len)"
  using assms
proof (induction inp ref ip maxlen len rule: match_do.induct)
  case (1 inp ref ip maxlen len)
  show ?case
  proof (cases "Suc len < maxlen \<and> inp ! (ref + Suc len) = inp ! (ip + Suc len)")
    case True
    then have "agree inp ref ip (Suc (Suc len))" using 1(2) agree_Suc by blast
    with 1(1) [of "len + 1"] True show ?thesis by (simp add: match_do.simps [of inp ref ip maxlen len])
  next
    case False
    then have "match_do inp ref ip maxlen len = Suc len"
      by (subst match_do.simps) (auto simp: Let_def)
    then show ?thesis using 1(2) by simp
  qed
qed

lemma match_unrolled_agree:
  assumes "agree inp ref ip (Suc len)" "match_unrolled inp ref ip k len = (stop, n)"
  shows "n \<le> len + k \<and> agree inp ref ip n \<and> (\<not> stop \<longrightarrow> n = len + k \<and> agree inp ref ip (Suc n))"
  using assms
proof (induction k arbitrary: len)
  case 0
  then show ?case by (auto simp: agree_Suc)
next
  case (Suc k)
  show ?case
  proof (cases "inp ! (ref + Suc len) = inp ! (ip + Suc len)")
    case True
    then have "agree inp ref ip (Suc (Suc len))" using Suc.prems(1) agree_Suc by blast
    from Suc.IH [OF this] True Suc.prems(2) show ?thesis by (auto simp: Let_def)
  next
    case False
    then show ?thesis using Suc.prems by (auto simp: Let_def)
  qed
qed

lemma match_len_agree:
  assumes "lzf_found inp ref ip" "ip + 2 < length inp"
  shows "agree inp ref ip (match_len inp ref ip)" "ip + match_len inp ref ip \<le> length inp"
    "match_len inp ref ip \<le> 264"
proof -
  define maxlen where "maxlen = (if length inp - ip - 2 > MAX_REF then MAX_REF else length inp - ip - 2)"
  have m: "maxlen \<le> 264" "maxlen \<le> length inp - ip - 2" by (auto simp: maxlen_def MAX_REF_def)
  have 3: "agree inp ref ip (Suc 2)"
    using assms(1) by (auto simp: lzf_found_def agree_def less_Suc_eq numeral_2_eq_2)
  have "agree inp ref ip (match_len inp ref ip) \<and> match_len inp ref ip \<le> max maxlen (if maxlen > 16 then 19 else 3)"
  proof (cases "maxlen > 16")
    case True
    obtain stop n where u: "match_unrolled inp ref ip 16 2 = (stop, n)" by force
    have len: "match_len inp ref ip = (if stop then n else match_do inp ref ip maxlen n)"
      using True u unfolding match_len_def Let_def maxlen_def [symmetric] by simp
    show ?thesis
      using match_unrolled_agree [OF 3 u] match_do_agree [of inp ref ip n maxlen] True unfolding len by auto
  next
    case False
    then have len: "match_len inp ref ip = match_do inp ref ip maxlen 2"
      unfolding match_len_def Let_def maxlen_def [symmetric] by simp
    show ?thesis using match_do_agree [OF 3, of maxlen] False unfolding len by simp
  qed
  then show "agree inp ref ip (match_len inp ref ip)" "ip + match_len inp ref ip \<le> length inp"
    "match_len inp ref ip \<le> 264"
    using m assms(2) by (auto split: if_splits)
qed

lemma copy_octets_agree:
  "agree inp ref ip n \<Longrightarrow> ref < ip \<Longrightarrow> ip + n \<le> length inp \<Longrightarrow> copy_octets ref n (take ip inp) = take (ip + n) inp"
proof (induction n arbitrary: ref ip)
  case (Suc n)
  have "inp ! ref = inp ! ip" using Suc.prems(1) unfolding agree_def by force
  then have "take ip inp @ [take ip inp ! ref] = take (Suc ip) inp"
    using Suc.prems(2,3) by (simp add: take_Suc_conv_app_nth)
  moreover have "agree inp (Suc ref) (Suc ip) n" using Suc.prems(1) unfolding agree_def by force
  ultimately show ?case using Suc.IH [of "Suc ref" "Suc ip"] Suc.prems(2,3) by simp
qed simp

lemma copy_match_agree:
  assumes "agree inp ref ip (len + 2)" "ref < ip" "ip + (len + 2) \<le> length inp"
  shows "copy_match ref len (take ip inp) = take (ip + (len + 2)) inp"
proof (cases "len > 9 \<and> ip \<ge> ref + (len + 2)")
  case True
  have "take (len + 2) (drop ref (take ip inp)) = take (len + 2) (drop ip inp)"
    using assms True by (intro nth_equalityI) (auto simp: agree_def)
  then show ?thesis
    using True assms(3) take_add [of ip "len + 2" inp] by (simp add: copy_match_def)
next
  case False
  then show ?thesis using copy_octets_agree [OF assms] assms(3) by (auto simp: copy_match_def)
qed

section \<open>Decompressing one instruction\<close>

declare lzf_loop.simps(2) [simp del]

lemma byte_of_nat: "n < 256 \<Longrightarrow> unat (word_of_nat n :: byte) = n"
  by (simp add: unat_of_nat)

lemma lzf_loop_literal:
  assumes "length l = Suc n" "n < 32" "length out + Suc n \<le> out_len"
  shows "lzf_loop out_len (word_of_nat n # l @ rest) out = lzf_loop out_len rest (out @ l)"
proof -
  have "unat (word_of_nat n :: byte) = n" using assms(2) by (simp add: unat_of_nat)
  then show ?thesis using assms by (simp add: lzf_loop.simps(2) Let_def)
qed

lemma lzf_loop_match:
  assumes "0 < len" "len \<le> 262" "off < 8192" "length out = ref + off + 1" "length out + len + 2 \<le> out_len"
  shows "lzf_loop out_len (put_match off len [] @ rest) out = lzf_loop out_len rest (copy_match ref len out)"
proof -
  have o: "off div 256 < 32" "off div 256 * 256 + off mod 256 = off" using assms(3) by auto
  have "unat (word_of_nat off :: byte) = off mod 256" by (simp add: unat_of_nat)
  then have b: "uint (word_of_nat off :: byte) = int (off mod 256)" by (metis uint_nat)
  have r: "int (length out) - int (off div 256 * 256) - 1 - int (off mod 256) = int ref"
    using assms(4) o(2) by linarith
  show ?thesis
  proof (cases "len < 7")
    case True
    have c: "unat (word_of_nat (off div 256 + len * 32) :: byte) = off div 256 + len * 32"
      by (rule byte_of_nat) (use True o(1) in simp)
    have "(off div 256 + len * 32) div 32 = len" "(off div 256 + len * 32) mod 32 = off div 256"
      using o(1) by auto
    then show ?thesis
      using True assms(1,5) b r c by (simp add: put_match_def lzf_loop.simps(2) Let_def)
  next
    case False
    have c: "unat (word_of_nat (off div 256 + 7 * 32) :: byte) = off div 256 + 7 * 32"
      by (rule byte_of_nat) (use o(1) in simp)
    have l: "unat (word_of_nat (len - 7) :: byte) = len - 7" using assms(2) by (simp add: unat_of_nat)
    have "(off div 256 + 7 * 32) div 32 = 7" "(off div 256 + 7 * 32) mod 32 = off div 256"
      using o(1) mod_mult_self1 [of "off div 256" 7 32] div_mult_self1 [of 32 "off div 256" 7] by simp_all
    then show ?thesis
      using False assms(5) b r c l by (simp add: put_match_def lzf_loop.simps(2) Let_def)
  qed
qed

section \<open>Decompression inverts compression\<close>

text \<open>\<open>decodes inp a k\<close>: the finished part \<open>a\<close> of the output decompresses to the first \<open>k\<close> bytes.\<close>

definition decodes :: "bytes \<Rightarrow> bytes \<Rightarrow> nat \<Rightarrow> bool" where
  "decodes inp a k \<longleftrightarrow> (\<forall>rest. lzf_loop (length inp) (a @ rest) [] = lzf_loop (length inp) rest (take k inp))"

definition run_inv :: "bytes \<Rightarrow> nat \<Rightarrow> bytes \<Rightarrow> nat \<Rightarrow> bool" where
  "run_inv inp ip out lit \<longleftrightarrow> lit \<le> 32 \<and> lit \<le> ip \<and> ip \<le> length inp \<and>
     (\<exists>a. out = a @ 0 # take lit (drop (ip - lit) inp) \<and> decodes inp a (ip - lit))"

lemma run_inv_start: "decodes inp a ip \<Longrightarrow> ip \<le> length inp \<Longrightarrow> run_inv inp ip (start_run a) 0"
  by (simp add: run_inv_def start_run_def)

lemma stop_run_append: "length xs = lit \<Longrightarrow> stop_run lit (a @ x # xs) = a @ word_of_int (int lit - 1) # xs"
  by (simp add: stop_run_def list_update_append)

lemma close_run:
  assumes "run_inv inp ip out lit"
  shows "decodes inp (undo_run lit (stop_run lit out)) ip"
proof -
  from assms obtain a where l: "lit \<le> 32" "lit \<le> ip" "ip \<le> length inp"
    and a: "out = a @ 0 # take lit (drop (ip - lit) inp)" "decodes inp a (ip - lit)"
    unfolding run_inv_def by blast
  let ?l = "take lit (drop (ip - lit) inp)"
  have len: "length ?l = lit" using l by simp
  show ?thesis
  proof (cases "lit = 0")
    case True
    then have "undo_run lit (stop_run lit out) = a" by (simp add: a(1) undo_run_def stop_run_def butlast_append)
    then show ?thesis using a(2) True by simp
  next
    case False
    then have c: "word_of_int (int lit - 1) = (word_of_nat (lit - 1) :: byte)" by (simp add: of_nat_diff)
    have out: "undo_run lit (stop_run lit out) = a @ word_of_nat (lit - 1) # ?l"
      using False stop_run_append [OF len, of a 0] unfolding c by (simp add: undo_run_def a(1))
    have "take (ip - lit) inp @ ?l = take ip inp" using l(2) by (metis le_add_diff_inverse2 take_add)
    then have "lzf_loop (length inp) (word_of_nat (lit - 1) # ?l @ rest) (take (ip - lit) inp) =
        lzf_loop (length inp) rest (take ip inp)" for rest
      using lzf_loop_literal [of ?l "lit - 1" "take (ip - lit) inp" "length inp" rest] l False len by simp
    then show ?thesis using a(2) unfolding decodes_def out by simp
  qed
qed

lemma run_inv_literal:
  assumes "run_inv inp ip out lit" "lit < 32" "ip < length inp" "put_literal (inp ! ip) lit out = (lit', out')"
  shows "run_inv inp (ip + 1) out' lit' \<and> lit' < 32"
proof -
  from assms(1) obtain a where l: "lit \<le> ip" "ip \<le> length inp"
    and a: "out = a @ 0 # take lit (drop (ip - lit) inp)" "decodes inp a (ip - lit)"
    unfolding run_inv_def by blast
  have "take lit (drop (ip - lit) inp) @ [inp ! ip] = take (Suc lit) (drop (Suc ip - Suc lit) inp)"
    using l(1) assms(3) by (simp add: take_Suc_conv_app_nth)
  then have i: "run_inv inp (Suc ip) (out @ [inp ! ip]) (Suc lit)"
    using a l assms(2,3) unfolding run_inv_def by auto
  show ?thesis
  proof (cases "Suc lit = MAX_LIT")
    case True
    from close_run [OF i] have "decodes inp (stop_run (Suc lit) (out @ [inp ! ip])) (Suc ip)" by (simp add: undo_run_def)
    from run_inv_start [OF this] True assms(3,4) show ?thesis by (auto simp: put_literal_def Let_def)
  next
    case False
    then show ?thesis using i assms(2,4) by (auto simp: put_literal_def Let_def MAX_LIT_def)
  qed
qed

lemma put_match_append: "put_match off len out = out @ put_match off len []"
  by (simp add: put_match_def)

lemma decodes_match:
  assumes "decodes inp a ip" "lzf_found inp ref ip" "ip + 2 < length inp"
  shows "decodes inp (put_match (ip - ref - 1) (match_len inp ref ip - 2) a) (ip + (match_len inp ref ip - 2) + 2)"
proof -
  let ?n = "match_len inp ref ip - 2" and ?o = "ip - ref - 1"
  note m = match_len_agree [OF assms(2,3)] and n3 = match_len_ge [of inp ref ip]
  have f: "ref < ip" "?o < 8192" using assms(2) by (simp_all add: lzf_found_def MAX_OFF_def)
  have n: "0 < ?n" "?n \<le> 262" "?n + 2 = match_len inp ref ip" using n3 m(3) by linarith+
  have c: "copy_match ref ?n (take ip inp) = take (ip + ?n + 2) inp"
    using copy_match_agree [of inp ref ip ?n] m(1,2) f(1) unfolding add.assoc n(3) by simp
  have "lzf_loop (length inp) (put_match ?o ?n [] @ rest) (take ip inp) =
      lzf_loop (length inp) rest (take (ip + ?n + 2) inp)" for rest
    unfolding c [symmetric] using n f m(2) assms(3) by (intro lzf_loop_match) auto
  then show ?thesis using assms(1) unfolding decodes_def put_match_append [of ?o ?n a] by simp
qed

lemma lzf_main_inv:
  assumes "run_inv inp ip out lit" "lit < 32" "lzf_main inp out_len ip out lit hval htab = Some (ip', out', lit')"
  shows "run_inv inp ip' out' lit' \<and> lit' < 32"
  using assms
proof (induction "length inp - ip" arbitrary: ip out lit hval htab rule: less_induct)
  case less
  define h where "h = NEXT inp hval ip"
  define ref where "ref = htab (IDX h)"
  define tab where "tab = htab(IDX h := ip)"
  note simps = lzf_main.simps [of inp out_len ip out lit hval htab, unfolded Let_def, folded h_def, folded ref_def tab_def]
  show ?case
  proof (cases "ip + 2 < length inp")
    case False
    then show ?thesis using less.prems by (simp add: simps)
  next
    case more: True
    show ?thesis
    proof (cases "lzf_found inp ref ip")
      case False
      obtain l o' where p: "put_literal (inp ! ip) lit out = (l, o')" by force
      from run_inv_literal [OF less.prems(1,2) _ p] more have i: "run_inv inp (ip + 1) o' l" "l < 32" by simp_all
      have "lzf_main inp out_len (ip + 1) o' l h tab = Some (ip', out', lit')"
        using less.prems(3) more False p by (simp add: simps split: if_splits)
      with less.hyps [of "ip + 1"] i more show ?thesis by simp
    next
      case True
      let ?n = "match_len inp ref ip - 2"
      let ?o = "put_match (ip - ref - 1) ?n (undo_run lit (stop_run lit out))"
      have d: "decodes inp ?o (ip + ?n + 2)" by (rule decodes_match [OF close_run [OF less.prems(1)] True more])
      have le: "ip + ?n + 2 \<le> length inp"
        using match_len_agree(2) [OF True more] match_len_ge [of inp ref ip] by linarith
      note r = run_inv_start [OF d le]
      have full: "\<not> (length out + 3 + 1 \<ge> out_len \<and> length out - (if lit = 0 then 1 else 0) + 3 + 1 \<ge> out_len)"
      proof
        assume "length out + 3 + 1 \<ge> out_len \<and> length out - (if lit = 0 then 1 else 0) + 3 + 1 \<ge> out_len"
        with less.prems(3) more True show False unfolding simps by simp
      qed
      note eq = less.prems(3) [unfolded simps if_P [OF more] if_P [OF True] if_not_P [OF full]]
      show ?thesis
      proof (cases "ip + ?n + 2 + 2 \<ge> length inp")
        case stop: True
        then have "ip' = ip + ?n + 2" "out' = start_run ?o" "lit' = 0"
          using eq [unfolded if_P [OF stop]] by simp_all
        then show ?thesis using r by simp
      next
        case False
        have "length inp - (ip + ?n + 2) < length inp - ip" using more by simp
        from less.hyps [OF this r _ eq [unfolded if_not_P [OF False]]] show ?thesis by simp
      qed
    qed
  qed
qed

lemma lzf_rest_inv:
  assumes "run_inv inp ip out lit" "lit < 32" "lzf_rest (drop ip inp) lit out = (lit', out')"
  shows "run_inv inp (length inp) out' lit'"
  using assms
proof (induction "length inp - ip" arbitrary: ip out lit)
  case 0
  then have "ip = length inp" unfolding run_inv_def by simp
  with 0 show ?case by simp
next
  case (Suc n)
  then have ip: "ip < length inp" by simp
  obtain l o' where p: "put_literal (inp ! ip) lit out = (l, o')" by force
  from run_inv_literal [OF Suc.prems(1,2) ip p] have i: "run_inv inp (ip + 1) o' l" "l < 32" by simp_all
  have "lzf_rest (drop (ip + 1) inp) l o' = (lit', out')"
    using Suc.prems(3) p ip by (simp add: Cons_nth_drop_Suc [symmetric])
  with Suc.hyps(1) [of "ip + 1"] Suc.hyps(2) i show ?case by simp
qed

lemma lzf_roundtrip:
  assumes "lzf_compress htab inp out_len = Some c"
  shows "lzf_decompress c (length inp) = Some inp" "c \<noteq> []" "inp \<noteq> []"
proof -
  from assms have ne: "inp \<noteq> []" "out_len \<noteq> 0" by (auto simp: lzf_compress_def split: if_splits)
  from assms ne obtain ip out lit lit' out' where
    m: "lzf_main inp out_len 0 (start_run []) 0 (FRST inp 0) htab = Some (ip, out, lit)"
    and r: "lzf_rest (drop ip inp) lit out = (lit', out')"
    and c: "c = undo_run lit' (stop_run lit' out')" "c \<noteq> []"
    by (auto simp: lzf_compress_def Let_def split: option.splits if_splits prod.splits)
  have "decodes inp [] 0" by (simp add: decodes_def)
  from run_inv_start [OF this] have "run_inv inp 0 (start_run []) 0" by simp
  from lzf_main_inv [OF this _ m] have "run_inv inp ip out lit" "lit < 32" by simp_all
  from close_run [OF lzf_rest_inv [OF this r]] have "decodes inp c (length inp)" using c(1) by simp
  then have "lzf_loop (length inp) c [] = Some inp" unfolding decodes_def by (metis append_Nil2 lzf_loop.simps(1) order.refl take_all)
  then show "lzf_decompress c (length inp) = Some inp" using c(2) ne(1) by (simp add: lzf_decompress_def)
  show "c \<noteq> []" "inp \<noteq> []" by (fact c(2), fact ne(1))
qed

section \<open>Bounds\<close>

lemma lzf_main_end:
  "lzf_main inp out_len ip out lit hval htab = Some (ip', out', lit') \<Longrightarrow> length inp \<le> ip' + 2"
proof (induction "length inp - ip" arbitrary: ip out lit hval htab rule: less_induct)
  case less
  show ?case
  proof (cases "ip + 2 < length inp")
    case False
    then show ?thesis using less.prems by (simp add: lzf_main.simps [of inp out_len ip])
  next
    case True
    have IH: "length inp \<le> ip' + 2"
      if "ip < j" "lzf_main inp out_len j o1 l1 h1 t1 = Some (ip', out', lit')" for j o1 l1 h1 t1
      using less.hyps [of j] that True by simp
    obtain l o' where p: "put_literal (inp ! ip) lit out = (l, o')" by force
    show ?thesis
      using less.prems True p
      by (subst (asm) lzf_main.simps) (auto simp: Let_def split: if_splits dest: IH [rotated])
  qed
qed

lemma length_put_literal:
  "put_literal b lit out = (lit', out') \<Longrightarrow> length out' = length out + (if lit + 1 = 32 then 2 else 1) \<and>
     lit' = (if lit + 1 = 32 then 0 else lit + 1)"
  by (auto simp: put_literal_def Let_def start_run_def stop_run_def MAX_LIT_def split: if_splits)

lemma length_lzf_rest:
  assumes "length bs \<le> 2" "lzf_rest bs lit out = (lit', out')"
  shows "length out' \<le> length out + 3"
proof -
  consider "bs = []" | b where "bs = [b]" | b c where "bs = [b, c]"
    using assms(1) by (cases bs; cases "tl bs") (auto simp: le_Suc_eq)
  then show ?thesis
    using assms(2) by cases (auto split: prod.splits dest!: length_put_literal split: if_splits)
qed

lemma length_lzf_compress: "lzf_compress htab inp out_len = Some c \<Longrightarrow> length c \<le> out_len"
proof -
  assume a: "lzf_compress htab inp out_len = Some c"
  then obtain ip out lit lit' out' where
    m: "lzf_main inp out_len 0 (start_run []) 0 (FRST inp 0) htab = Some (ip, out, lit)" "length out + 3 \<le> out_len"
    and r: "lzf_rest (drop ip inp) lit out = (lit', out')"
    and c: "c = undo_run lit' (stop_run lit' out')"
    by (auto simp: lzf_compress_def Let_def split: option.splits if_splits prod.splits)
  have "length c \<le> length out'" by (simp add: c undo_run_def stop_run_def)
  also have "\<dots> \<le> length out + 3" using length_lzf_rest [OF _ r] lzf_main_end [OF m(1)] by simp
  finally show ?thesis using m(2) by simp
qed

section \<open>Properties\<close>

lemmas lzf_eval = lzf_compress_def FRST_def NEXT_def IDX_def HLOG_def lzf_found_def put_literal_def MAX_LIT_def
  start_run_def stop_run_def undo_run_def Let_def MAX_OFF_def match_len_def MAX_REF_def match_do.simps put_match_def

lemma lzf_compress_example:
  "lzf_compress (\<lambda>_. 0) [97, 97, 97, 97, 97, 97, 97, 97] 20 = Some [1, 97, 97, 64, 0, 1, 97, 97]"
  by (simp add: lzf_eval lzf_main.simps [of _ _ 0] lzf_main.simps [of _ _ "Suc 0"] lzf_main.simps [of _ _ 2]
      lzf_main.simps [of _ _ "Suc (Suc 0)"])

text \<open>
  C23: Decompression inverts compression, whatever the uninitialised hash table contains: if
  \<open>lzf_compress\<close> succeeds, its result fits into the output buffer and \<open>lzf_decompress\<close>
  gives back the input exactly.
\<close>

theorem lzf_correct:
  assumes "lzf_compress htab inp out_len = Some c"
  shows "length c \<le> out_len \<and> lzf_decompress c (length inp) = Some inp"
  using length_lzf_compress [OF assms] lzf_roundtrip(1) [OF assms] by simp

theorem lzf_correct_witness:
  "length [1, 97, 97, 64, 0, 1, 97, 97 :: byte] \<le> 20 \<and>
   lzf_decompress [1, 97, 97, 64, 0, 1, 97, 97] 8 = Some [97, 97, 97, 97, 97, 97, 97, 97]"
  using lzf_correct [OF lzf_compress_example] by (simp add: eval_nat_numeral)

end
