(* ===== verification/Rdb.thy ===== *)
theory Rdb
  imports Codec Strings Floats Lzf
begin

text \<open>
  The RDB serialisation of values (\<^verbatim>\<open>src/src/codec/rdb\<close>, constants of \<^verbatim>\<open>src/src/redis/rdb.h\<close>):
  the encoder writes through the virtual function \<^verbatim>\<open>rdbWriteRaw\<close>, here an argument \<open>wr\<close>
  that takes the state of the writer and returns \<^verbatim>\<open>-1\<close> or the number of bytes written; the contract of
  a writer is the locale \<open>rdb_writer\<close>, which \<^verbatim>\<open>DumpEncoder\<close> provides. The decoder reads from
  the bytes that remain. Where the source ends abnormally (it builds a \<^verbatim>\<open>std::string\<close> from a null
  pointer, which throws, or it calls \<^verbatim>\<open>rdbExitReportCorruptRDB\<close>, which ends the process) the
  model returns an \<open>rdb_abort\<close>. The checksum \<^verbatim>\<open>crc64_fast\<close> belongs to a library
  that is not part of the repository and is an argument.
\<close>

section \<open>Constants\<close>

definition RDB_VERSION :: nat where "RDB_VERSION = 8"
definition RDB_6BITLEN :: byte where "RDB_6BITLEN = 0"
definition RDB_14BITLEN :: byte where "RDB_14BITLEN = 1"
definition RDB_32BITLEN :: byte where "RDB_32BITLEN = 128"
definition RDB_64BITLEN :: byte where "RDB_64BITLEN = 129"
definition RDB_ENCVAL :: byte where "RDB_ENCVAL = 3"
definition RDB_LENERR :: u64 where "RDB_LENERR = UINT64_MAX"
definition RDB_ENC_INT8 :: byte where "RDB_ENC_INT8 = 0"
definition RDB_ENC_INT16 :: byte where "RDB_ENC_INT16 = 1"
definition RDB_ENC_INT32 :: byte where "RDB_ENC_INT32 = 2"
definition RDB_ENC_LZF :: byte where "RDB_ENC_LZF = 3"
definition RDB_TYPE_STRING :: int where "RDB_TYPE_STRING = 0"
definition RDB_TYPE_LIST :: int where "RDB_TYPE_LIST = 1"
definition RDB_TYPE_SET :: int where "RDB_TYPE_SET = 2"
definition RDB_TYPE_ZSET :: int where "RDB_TYPE_ZSET = 3"
definition RDB_TYPE_HASH :: int where "RDB_TYPE_HASH = 4"
definition RDB_TYPE_ZSET_2 :: int where "RDB_TYPE_ZSET_2 = 5"
definition RDB_TYPE_HASH_ZIPMAP :: int where "RDB_TYPE_HASH_ZIPMAP = 9"
definition RDB_TYPE_LIST_ZIPLIST :: int where "RDB_TYPE_LIST_ZIPLIST = 10"
definition RDB_TYPE_SET_INTSET :: int where "RDB_TYPE_SET_INTSET = 11"
definition RDB_TYPE_ZSET_ZIPLIST :: int where "RDB_TYPE_ZSET_ZIPLIST = 12"
definition RDB_TYPE_HASH_ZIPLIST :: int where "RDB_TYPE_HASH_ZIPLIST = 13"
definition RDB_TYPE_LIST_QUICKLIST :: int where "RDB_TYPE_LIST_QUICKLIST = 14"
definition RDB_OPCODE_AUX :: byte where "RDB_OPCODE_AUX = 250"

definition rdbIsObjectType :: "int \<Rightarrow> bool" where
  "rdbIsObjectType t \<longleftrightarrow> t \<ge> 0 \<and> t \<le> 6 \<or> t \<ge> 9 \<and> t \<le> 14"

lemmas rdb_len_consts = RDB_6BITLEN_def RDB_14BITLEN_def RDB_32BITLEN_def RDB_64BITLEN_def RDB_ENCVAL_def
lemmas rdb_enc_consts = RDB_ENCVAL_def RDB_ENC_INT8_def RDB_ENC_INT16_def RDB_ENC_INT32_def RDB_ENC_LZF_def
lemmas rdb_types = RDB_TYPE_STRING_def RDB_TYPE_LIST_def RDB_TYPE_SET_def RDB_TYPE_ZSET_def RDB_TYPE_HASH_def
  RDB_TYPE_ZSET_2_def RDB_TYPE_HASH_ZIPMAP_def RDB_TYPE_LIST_ZIPLIST_def RDB_TYPE_SET_INTSET_def
  RDB_TYPE_ZSET_ZIPLIST_def RDB_TYPE_HASH_ZIPLIST_def RDB_TYPE_LIST_QUICKLIST_def

section \<open>Integers in texts\<close>

text \<open>
  \<^verbatim>\<open>strtoll\<close> in base 10: the value, saturated, and the number of bytes used. A byte of zero ends
  the text, as it is neither a space nor a digit.
\<close>

definition is_space :: "byte \<Rightarrow> bool" where
  "is_space c \<longleftrightarrow> c = 32 \<or> 9 \<le> c \<and> c \<le> 13"

definition strtoll :: "bytes \<Rightarrow> int \<times> nat" where
  "strtoll s =
     (let sp = length (takeWhile is_space s);
          t = drop sp s;
          (neg, sg) = (if t \<noteq> [] \<and> hd t = 45 then (True, 1) else if t \<noteq> [] \<and> hd t = 43 then (False, 1) else (False, 0));
          ds = takeWhile digit (drop sg t);
          v = int (dval 0 ds)
      in if ds = [] then (0, 0)
         else (if neg then max INT64_MIN (- v) else min INT64_MAX v, sp + sg + length ds))"

text \<open>The value and whether \<^verbatim>\<open>errno\<close> is set afterwards; an overflow does not set it.\<close>

definition str_to_int64 :: "bytes \<Rightarrow> int \<times> bool" where
  "str_to_int64 s = (case strtoll s of (ret, n) \<Rightarrow> (ret, n \<noteq> length s))"

section \<open>Encoder\<close>

type_synonym 'w writer = "'w \<Rightarrow> bytes \<Rightarrow> int \<times> 'w"

definition rdbSaveLen :: "'w writer \<Rightarrow> 'w \<Rightarrow> u64 \<Rightarrow> int \<times> 'w" where
  "rdbSaveLen wr w len =
     (if len < 64 then
        case wr w [ucast (len AND 255) OR push_bit 6 RDB_6BITLEN] of (r, w) \<Rightarrow>
          if r = -1 then (-1, w) else (1, w)
      else if len < 16384 then
        case wr w [ucast (drop_bit 8 len AND 255) OR push_bit 6 RDB_14BITLEN, ucast (len AND 255)] of (r, w) \<Rightarrow>
          if r = -1 then (-1, w) else (2, w)
      else if len \<le> 4294967295 then
        case wr w [RDB_32BITLEN] of (r, w) \<Rightarrow>
          if r = -1 then (-1, w)
          else (case wr w (be_encode 4 (unat len)) of (r, w) \<Rightarrow> if r = -1 then (-1, w) else (5, w))
      else
        case wr w [RDB_64BITLEN] of (r, w) \<Rightarrow>
          if r = -1 then (-1, w)
          else (case wr w (raw64 (htobe64 len)) of (r, w) \<Rightarrow> if r = -1 then (-1, w) else (9, w)))"

definition rdbSaveType :: "'w writer \<Rightarrow> 'w \<Rightarrow> byte \<Rightarrow> int \<times> 'w" where
  "rdbSaveType wr w type = wr w [type]"

definition rdbSaveMillisecondTime :: "'w writer \<Rightarrow> 'w \<Rightarrow> int \<Rightarrow> int \<times> 'w" where
  "rdbSaveMillisecondTime wr w t = wr w (raw64 (word_of_int t))"

definition rdbSaveObjectType :: "'w writer \<Rightarrow> 'w \<Rightarrow> byte \<Rightarrow> int \<times> 'w" where
  "rdbSaveObjectType wr w dtype =
     (if dtype = KV then rdbSaveType wr w (word_of_int RDB_TYPE_STRING)
      else if dtype = HSIZE then rdbSaveType wr w (word_of_int RDB_TYPE_HASH)
      else if dtype = SSIZE then rdbSaveType wr w (word_of_int RDB_TYPE_SET)
      else if dtype = ZSIZE then rdbSaveType wr w (word_of_int RDB_TYPE_ZSET_2)
      else if dtype = LSIZE then rdbSaveType wr w (word_of_int RDB_TYPE_LIST)
      else (-1, w))"

text \<open>The bytes of the encoding; none where the function returns 0.\<close>

definition rdbEncodeInteger :: "int \<Rightarrow> bytes" where
  "rdbEncodeInteger value =
     (if value \<ge> -128 \<and> value \<le> 127 then
        [push_bit 6 RDB_ENCVAL OR RDB_ENC_INT8, word_of_int value]
      else if value \<ge> -32768 \<and> value \<le> 32767 then
        [push_bit 6 RDB_ENCVAL OR RDB_ENC_INT16, word_of_int value, word_of_int (drop_bit 8 value)]
      else if value \<ge> -2147483648 \<and> value \<le> 2147483647 then
        [push_bit 6 RDB_ENCVAL OR RDB_ENC_INT32, word_of_int value, word_of_int (drop_bit 8 value),
         word_of_int (drop_bit 16 value), word_of_int (drop_bit 24 value)]
      else [])"

definition rdbTryIntegerEncoding :: "bytes \<Rightarrow> bytes" where
  "rdbTryIntegerEncoding s =
     (case str_to_int64 s of (value, err) \<Rightarrow>
        if err then []
        else
          let newValue = str_int64 value in
          if length newValue \<noteq> length s \<or> newValue \<noteq> s then [] else rdbEncodeInteger value)"

definition rdbSaveLzfBlob :: "'w writer \<Rightarrow> 'w \<Rightarrow> bytes \<Rightarrow> nat \<Rightarrow> int \<times> 'w" where
  "rdbSaveLzfBlob wr w data original_len =
     (case wr w [push_bit 6 RDB_ENCVAL OR RDB_ENC_LZF] of (n1, w) \<Rightarrow>
        if n1 = -1 then (-1, w)
        else (case rdbSaveLen wr w (word_of_nat (length data)) of (n2, w) \<Rightarrow>
          if n2 = -1 then (-1, w)
          else (case rdbSaveLen wr w (word_of_nat original_len) of (n3, w) \<Rightarrow>
            if n3 = -1 then (-1, w)
            else (case wr w data of (n4, w) \<Rightarrow>
              if n4 = -1 then (-1, w) else (n1 + n2 + n3 + n4, w)))))"

text \<open>\<open>htab\<close> is the contents of the uninitialised hash table of the compressor.\<close>

definition rdbSaveLzfStringObject :: "'w writer \<Rightarrow> (nat \<Rightarrow> nat) \<Rightarrow> 'w \<Rightarrow> bytes \<Rightarrow> int \<times> 'w" where
  "rdbSaveLzfStringObject wr htab w s =
     (let len = length s in
      if len \<le> 4 then (0, w)
      else
        (case lzf_compress htab s (len - 4) of
           None \<Rightarrow> (0, w)
         | Some out \<Rightarrow> rdbSaveLzfBlob wr w out len))"

definition rdbSaveRawString :: "'w writer \<Rightarrow> (nat \<Rightarrow> nat) \<Rightarrow> bool \<Rightarrow> 'w \<Rightarrow> bytes \<Rightarrow> int \<times> 'w" where
  "rdbSaveRawString wr htab rdb_compression w s =
     (let len = length s;
          buf = (if len \<le> 11 then rdbTryIntegerEncoding s else [])
      in if len \<le> 11 \<and> length buf > 0 then
           (case wr w buf of (r, w) \<Rightarrow> if r = -1 then (-1, w) else (int (length buf), w))
         else
           (case (if rdb_compression \<and> len > 20 then rdbSaveLzfStringObject wr htab w s else (0, w)) of (n, w) \<Rightarrow>
              if n = -1 then (-1, w)
              else if n > 0 then (n, w)
              else
                (case rdbSaveLen wr w (word_of_nat len) of (n, w) \<Rightarrow>
                   if n = -1 then (-1, w)
                   else if len > 0 then
                     (case wr w s of (r, w) \<Rightarrow> if r = -1 then (-1, w) else (n + int len, w))
                   else (n, w))))"

text \<open>The results of the writer are ignored here.\<close>

definition saveRawString :: "'w writer \<Rightarrow> 'w \<Rightarrow> bytes \<Rightarrow> int \<times> 'w" where
  "saveRawString wr w s =
     (case rdbSaveLen wr w (word_of_nat (length s)) of (_, w) \<Rightarrow>
        case wr w s of (_, w) \<Rightarrow> (int (length s), w))"

definition rdbSaveAuxField :: "'w writer \<Rightarrow> (nat \<Rightarrow> nat) \<Rightarrow> bool \<Rightarrow> 'w \<Rightarrow> bytes \<Rightarrow> bytes \<Rightarrow> int \<times> 'w" where
  "rdbSaveAuxField wr htab c w key val =
     (case rdbSaveType wr w RDB_OPCODE_AUX of (r, w) \<Rightarrow>
        if r = -1 then (-1, w)
        else (case rdbSaveRawString wr htab c w key of (r, w) \<Rightarrow>
          if r = -1 then (-1, w)
          else (case rdbSaveRawString wr htab c w val of (r, w) \<Rightarrow>
            if r = -1 then (-1, w) else (1, w))))"

definition rdbSaveBinaryDoubleValue :: "'w writer \<Rightarrow> 'w \<Rightarrow> u64 \<Rightarrow> int \<times> 'w" where
  "rdbSaveBinaryDoubleValue wr w val = wr w (raw64 val)"

section \<open>The encoder of DUMP\<close>

text \<open>The number of bytes is returned as an \<^verbatim>\<open>int\<close>.\<close>

definition dump_write :: "bytes writer" where
  "dump_write w p = (sint (word_of_nat (length p) :: 32 word), w @ p)"

definition encodeFooter :: "(bytes \<Rightarrow> u64) \<Rightarrow> bytes \<Rightarrow> int \<times> bytes" where
  "encodeFooter crc64_fast w =
     (case dump_write w [word_of_nat (RDB_VERSION mod 256), word_of_nat (RDB_VERSION div 256 mod 256)] of (r, w) \<Rightarrow>
        if r = -1 then (-1, w)
        else (case dump_write w (raw64 (crc64_fast w)) of (r, w) \<Rightarrow> if r = -1 then (-1, w) else (0, w)))"

section \<open>Decoder\<close>

datatype rdb_abort = LogicError | CorruptExit | OutOfBounds

text \<open>The result of a read is 0 when there are not enough bytes, and also when none are asked for.\<close>

definition rioRead :: "nat \<Rightarrow> bytes \<Rightarrow> nat \<times> bytes \<times> bytes" where
  "rioRead len d = (if len > length d then (0, [], d) else (len, take len d, drop len d))"

text \<open>Whether the length is an encoding, the length (nothing where the function returns \<^verbatim>\<open>-1\<close>) and the rest.\<close>

definition rdbLoadLenByRef :: "bytes \<Rightarrow> rdb_abort + (bool \<times> u64 option \<times> bytes)" where
  "rdbLoadLenByRef d =
     (case rioRead 1 d of (n, buf, d) \<Rightarrow>
        if n = 0 then Inr (False, None, d)
        else
          let b0 = buf ! 0; type = drop_bit 6 (b0 AND 192) in
          if type = RDB_ENCVAL then Inr (True, Some (ucast (b0 AND 63)), d)
          else if type = RDB_6BITLEN then Inr (False, Some (ucast (b0 AND 63)), d)
          else if type = RDB_14BITLEN then
            (case rioRead 1 d of (n, buf, d) \<Rightarrow>
               if n = 0 then Inr (False, None, d)
               else Inr (False, Some (push_bit 8 (ucast (b0 AND 63)) OR ucast (buf ! 0)), d))
          else if b0 = RDB_32BITLEN then
            (case rioRead 4 d of (n, buf, d) \<Rightarrow>
               if n = 0 then Inr (False, None, d) else Inr (False, Some (word_of_nat (be_decode buf)), d))
          else if b0 = RDB_64BITLEN then
            (case rioRead 8 d of (n, buf, d) \<Rightarrow>
               if n = 0 then Inr (False, None, d) else Inr (False, Some (be64toh (load64 buf)), d))
          else Inl CorruptExit)"

definition rdbLoadLen :: "bytes \<Rightarrow> rdb_abort + (bool \<times> u64 \<times> bytes)" where
  "rdbLoadLen d =
     (case rdbLoadLenByRef d of
        Inl e \<Rightarrow> Inl e
      | Inr (enc, None, d) \<Rightarrow> Inr (enc, RDB_LENERR, d)
      | Inr (enc, Some len, d) \<Rightarrow> Inr (enc, len, d))"

text \<open>The text and the rest; the variable \<^verbatim>\<open>*ret\<close> of the caller is not written.\<close>

definition rdbLoadIntegerObject :: "byte \<Rightarrow> bytes \<Rightarrow> rdb_abort + (bytes \<times> bytes)" where
  "rdbLoadIntegerObject enctype d =
     (if enctype = RDB_ENC_INT8 then
        (case rioRead 1 d of (n, enc, d) \<Rightarrow>
           if n = 0 then Inl LogicError else Inr (str_int64 (sint (enc ! 0)), d))
      else if enctype = RDB_ENC_INT16 then
        (case rioRead 2 d of (n, enc, d) \<Rightarrow>
           if n = 0 then Inl LogicError
           else let v = ucast (enc ! 0) OR push_bit 8 (ucast (enc ! 1)) :: 16 word in Inr (str_int64 (sint v), d))
      else if enctype = RDB_ENC_INT32 then
        (case rioRead 4 d of (n, enc, d) \<Rightarrow>
           if n = 0 then Inl LogicError
           else
             let v = ucast (enc ! 0) OR push_bit 8 (ucast (enc ! 1)) OR push_bit 16 (ucast (enc ! 2)) OR
                       push_bit 24 (ucast (enc ! 3)) :: 32 word
             in Inr (str_int64 (sint v), d))
      else Inl CorruptExit)"

text \<open>
  \<open>mem n\<close> is the contents of a buffer of \<open>n\<close> bytes fresh from \<^verbatim>\<open>malloc\<close>, which is taken to
  succeed: when the decompressed text is shorter than the length announced, the rest of the
  buffer becomes part of the value.
\<close>

definition rdbLoadLzfStringObject :: "(nat \<Rightarrow> bytes) \<Rightarrow> bytes \<Rightarrow> rdb_abort + (int \<times> bytes \<times> bytes)" where
  "rdbLoadLzfStringObject mem d =
     (case rdbLoadLen d of
        Inl e \<Rightarrow> Inl e
      | Inr (_, clen, d) \<Rightarrow>
          if clen = RDB_LENERR then Inl LogicError
          else
            (case rdbLoadLen d of
               Inl e \<Rightarrow> Inl e
             | Inr (_, len, d) \<Rightarrow>
                 if len = RDB_LENERR then Inl LogicError
                 else
                   (case rioRead (unat clen) d of (n, tmp_c, d) \<Rightarrow>
                      if n = 0 then Inr (-1, [], d)
                      else
                        (case lzf_decompress tmp_c (unat len) of
                           None \<Rightarrow> Inr (-1, [], d)
                         | Some out \<Rightarrow> Inr (0, take (unat len) (out @ drop (length out) (mem (unat len))), d)))))"

definition rdbGenericLoadStringObject :: "(nat \<Rightarrow> bytes) \<Rightarrow> int \<Rightarrow> bytes \<Rightarrow> rdb_abort + (int \<times> bytes \<times> bytes)" where
  "rdbGenericLoadStringObject mem ret d =
     (case rdbLoadLen d of
        Inl e \<Rightarrow> Inl e
      | Inr (isencoded, len, d) \<Rightarrow>
          if isencoded then
            if len = ucast RDB_ENC_INT8 \<or> len = ucast RDB_ENC_INT16 \<or> len = ucast RDB_ENC_INT32 then
              (case rdbLoadIntegerObject (ucast len) d of Inl e \<Rightarrow> Inl e | Inr (s, d) \<Rightarrow> Inr (ret, s, d))
            else if len = ucast RDB_ENC_LZF then rdbLoadLzfStringObject mem d
            else Inl CorruptExit
          else if len = RDB_LENERR then Inr (-1, [], d)
          else
            (case rioRead (unat len) d of (n, tmp, d) \<Rightarrow>
               if len \<noteq> 0 \<and> n = 0 then Inr (-1, [], d) else Inr (0, tmp, d)))"

text \<open>The version is read through signed characters.\<close>

definition verifyDumpPayload :: "(bytes \<Rightarrow> u64) \<Rightarrow> bytes \<Rightarrow> bool \<times> bytes" where
  "verifyDumpPayload crc64_fast p =
     (let remain_size = length p in
      if remain_size < 10 then (False, p)
      else
        let footer = drop (remain_size - 10) p;
            rdbver = push_bit 8 (scast (footer ! 1)) OR scast (footer ! 0) :: u16
        in if rdbver > word_of_nat RDB_VERSION then (False, p)
           else
             let crc = crc64_fast (take (remain_size - 8) p)
             in (raw64 crc = take 8 (drop 2 footer), take (remain_size - 10) p))"

definition rdbLoadType :: "bytes \<Rightarrow> int \<times> bytes" where
  "rdbLoadType d = (case rioRead 1 d of (n, buf, d) \<Rightarrow> if n = 0 then (-1, d) else (uint (buf ! 0), d))"

definition rdbLoadObjectType :: "bytes \<Rightarrow> int \<times> bytes" where
  "rdbLoadObjectType d =
     (case rdbLoadType d of (type, d) \<Rightarrow>
        if type = -1 then (-1, d) else if \<not> rdbIsObjectType type then (-1, d) else (type, d))"

definition rdbLoadBinaryDoubleValue :: "u64 \<Rightarrow> bytes \<Rightarrow> int \<times> u64 \<times> bytes" where
  "rdbLoadBinaryDoubleValue val d =
     (case rioRead 8 d of (n, buf, d) \<Rightarrow> if n = 0 then (-1, val, d) else (0, load64 buf, d))"

text \<open>
  A score as text; \<open>scan_lg\<close> is \<^verbatim>\<open>sscanf\<close> with \<^verbatim>\<open>%lg\<close>, which leaves the variable as it was when
  there is no number. The NaN is the one the processor makes of 0 divided by 0.
\<close>

definition rdbLoadDoubleValue :: "(bytes \<Rightarrow> u64 option) \<Rightarrow> u64 \<Rightarrow> bytes \<Rightarrow> int \<times> u64 \<times> bytes" where
  "rdbLoadDoubleValue scan_lg val d =
     (case rioRead 1 d of (n, buf, d) \<Rightarrow>
        if n = 0 then (-1, val, d)
        else
          let len = unat (buf ! 0) in
          if len = 255 then (0, dbl_make True DBL_INF, d)
          else if len = 254 then (0, dbl_make False DBL_INF, d)
          else if len = 253 then (0, dbl_make True 9221120237041090560, d)
          else
            (case rioRead len d of (n, buf, d) \<Rightarrow>
               if n = 0 then (-1, val, d)
               else (0, (case scan_lg buf of None \<Rightarrow> val | Some x \<Rightarrow> x), d)))"

section \<open>Lengths\<close>

text \<open>The bytes a length is stored as.\<close>

definition len_bytes :: "u64 \<Rightarrow> bytes" where
  "len_bytes len =
     (let n = unat len in
      if n < 64 then [word_of_nat n]
      else if n < 16384 then [word_of_nat (64 + n div 256), word_of_nat (n mod 256)]
      else if n < 4294967296 then 128 # be_encode 4 n
      else 129 # raw64 (htobe64 len))"

lemma unat_and_63: "unat ((b :: byte) AND 63) = unat b mod 64"
proof -
  have "b AND 63 = b mod 64" by (simp add: take_bit_eq_mask mask_eq_exp_minus_1 flip: take_bit_eq_mod [of 6, simplified])
  then show ?thesis by (simp add: unat_mod_distrib)
qed

lemma byte_low6: "(ucast ((b :: byte) AND 63) :: u64) = word_of_nat (unat b mod 64)"
  using unat_and_63 [of b] by (metis of_nat_unat)

lemma byte_top2: "drop_bit 6 ((b :: byte) AND 192) = word_of_nat (unat b div 64)"
proof -
  have "unat b < 256" using unsigned_less [of b] by simp
  then have l: "unat (word_of_nat (unat b div 64) :: byte) = unat b div 64" by (simp add: unat_of_nat)
  have "drop_bit 6 (b AND 192) = drop_bit 6 b AND mask 2" by (simp add: mask_eq_exp_minus_1)
  also have "\<dots> = drop_bit 6 b mod 4" by (simp flip: take_bit_eq_mask add: take_bit_eq_mod)
  finally have "unat (drop_bit 6 (b AND 192)) = unat b div 64 mod 4"
    by (simp only: unat_mod_distrib unat_drop_bit_eq drop_bit_eq_div) (simp add: unat_div_distrib)
  then show ?thesis using l \<open>unat b < 256\<close> by (simp only: word_unat_eq_iff) simp
qed

lemma or_shift: "push_bit 8 (word_of_nat m) OR ucast (c :: byte) = (word_of_nat (m * 256 + unat c) :: u64)"
proof -
  have "push_bit 8 (word_of_nat m :: u64) AND ucast c = 0"
    by (rule bit_word_eqI) (auto simp: bit_simps dest: bit_imp_le_length)
  then have "push_bit 8 (word_of_nat m :: u64) OR ucast c = push_bit 8 (word_of_nat m) + ucast c"
    by (simp only: disjunctive_add_eq_or)
  also have "\<dots> = word_of_nat (m * 256 + unat c)" by (simp add: push_bit_eq_mult mult.commute)
  finally show ?thesis .
qed

lemmas load_len_defs = rdbLoadLenByRef_def rioRead_def Let_def byte_top2 byte_low6

lemma load_len_byte:
  "unat b < 64 \<Longrightarrow> rdbLoadLenByRef (b # d) = Inr (False, Some (word_of_nat (unat b)), d)"
  "unat b = 64 + n \<Longrightarrow> n < 64 \<Longrightarrow> rdbLoadLenByRef (b # c # d) = Inr (False, Some (word_of_nat (n * 256 + unat c)), d)"
  "unat b = 192 + n \<Longrightarrow> n < 64 \<Longrightarrow> rdbLoadLenByRef (b # d) = Inr (True, Some (word_of_nat n), d)"
proof -
  show "rdbLoadLenByRef (b # d) = Inr (False, Some (word_of_nat (unat b)), d)" if "unat b < 64"
    using that unfolding load_len_defs by (simp add: rdb_len_consts)
  show "rdbLoadLenByRef (b # c # d) = Inr (False, Some (word_of_nat (n * 256 + unat c)), d)"
    if "unat b = 64 + n" "n < 64"
  proof -
    have "(64 + n) div 64 = 1" "(64 + n) mod 64 = n" using that by auto
    then show ?thesis using that or_shift [of n c] unfolding load_len_defs by (simp add: rdb_len_consts)
  qed
  show "rdbLoadLenByRef (b # d) = Inr (True, Some (word_of_nat n), d)" if "unat b = 192 + n" "n < 64"
  proof -
    have "(192 + n) div 64 = 3" "(192 + n) mod 64 = n"
      using that mod_mult_self2 [of n 64 3] by (auto simp: add.commute)
    then show ?thesis using that unfolding load_len_defs by (simp add: rdb_len_consts)
  qed
qed

lemma load_len: "rdbLoadLen (len_bytes len @ d) = Inr (False, len, d)"
proof -
  let ?n = "unat len"
  have dq: "?n div 256 * 256 + ?n mod 256 = ?n" by simp
  have c: "unat (word_of_nat (?n mod 256) :: byte) = ?n mod 256" by (rule byte_of_nat) simp
  consider "?n < 64" | "64 \<le> ?n" "?n < 16384" | "16384 \<le> ?n" "?n < 4294967296" | "4294967296 \<le> ?n" by linarith
  then have "rdbLoadLenByRef (len_bytes len @ d) = Inr (False, Some len, d)"
  proof cases
    case 1
    then have "unat (word_of_nat ?n :: byte) = ?n" by (intro byte_of_nat) simp
    then show ?thesis using load_len_byte(1) [of "word_of_nat ?n" d] 1 by (simp add: len_bytes_def)
  next
    case 2
    then have n: "?n div 256 < 64" by simp
    then have "unat (word_of_nat (64 + ?n div 256) :: byte) = 64 + ?n div 256" by (intro byte_of_nat) simp
    from load_len_byte(2) [OF this n, of "word_of_nat (?n mod 256)" d] show ?thesis
      unfolding c dq using 2 by (simp add: len_bytes_def Let_def)
  next
    case 3
    have "rdbLoadLenByRef (128 # be_encode 4 ?n @ d) = Inr (False, Some (word_of_nat (be_decode (be_encode 4 ?n))), d)"
      unfolding load_len_defs by (simp add: rdb_len_consts)
    moreover have "be_decode (be_encode 4 ?n) = ?n" unfolding be_decode_encode using 3 by simp
    ultimately show ?thesis using 3 by (simp add: len_bytes_def)
  next
    case 4
    have "rdbLoadLenByRef (129 # raw64 (htobe64 len) @ d) = Inr (False, Some (be64toh (load64 (raw64 (htobe64 len) @ []))), d)"
      unfolding load_len_defs by (simp add: rdb_len_consts)
    then show ?thesis using 4 by (simp only: be64toh_load64_encode) (simp add: len_bytes_def)
  qed
  then show ?thesis by (simp add: rdbLoadLen_def)
qed

lemma load_len_enc: "unat b = 192 + n \<Longrightarrow> n < 64 \<Longrightarrow> rdbLoadLen (b # d) = Inr (True, word_of_nat n, d)"
  by (simp only: rdbLoadLen_def load_len_byte(3)) simp

lemma length_len_bytes: "0 < length (len_bytes len)" "length (len_bytes len) \<le> 9"
  by (simp_all add: len_bytes_def Let_def)

section \<open>Stored texts\<close>

text \<open>\<open>stores p s\<close>: reading at \<open>p\<close> gives the text \<open>s\<close> and stops at the end of \<open>p\<close>.\<close>

definition stores :: "bytes \<Rightarrow> bytes \<Rightarrow> bool" where
  "stores p s \<longleftrightarrow> p \<noteq> [] \<and> (\<forall>mem rest. rdbGenericLoadStringObject mem 0 (p @ rest) = Inr (0, s, rest))"

lemma join_bytes:
  "ucast (word_of_int v :: byte) OR push_bit 8 (ucast (word_of_int (drop_bit 8 v) :: byte)) = (word_of_int v :: 16 word)"
  "ucast (word_of_int v :: byte) OR push_bit 8 (ucast (word_of_int (drop_bit 8 v) :: byte)) OR
     push_bit 16 (ucast (word_of_int (drop_bit 16 v) :: byte)) OR
     push_bit 24 (ucast (word_of_int (drop_bit 24 v) :: byte)) = (word_of_int v :: 32 word)"
  subgoal by (rule bit_word_eqI) (auto simp: bit_simps not_less)
  subgoal by (rule bit_word_eqI, rename_tac n, case_tac "n < 24"; case_tac "n < 16") (auto simp: bit_simps not_less)
  done

lemma sint_widths:
  "-128 \<le> v \<Longrightarrow> v \<le> 127 \<Longrightarrow> sint (word_of_int v :: byte) = v"
  "-32768 \<le> v \<Longrightarrow> v \<le> 32767 \<Longrightarrow> sint (word_of_int v :: 16 word) = v"
  "-2147483648 \<le> v \<Longrightarrow> v \<le> 2147483647 \<Longrightarrow> sint (word_of_int v :: 32 word) = v"
  by (simp_all add: sint_sbintrunc' signed_take_bit_int_eq_self)

lemma stores_integer:
  assumes "rdbEncodeInteger v \<noteq> []"
  shows "stores (rdbEncodeInteger v) (str_int64 v)"
proof -
  have e: "rdbLoadLen (192 # d) = Inr (True, 0, d)" "rdbLoadLen (193 # d) = Inr (True, 1, d)"
    "rdbLoadLen (194 # d) = Inr (True, 2, d)" for d
    using load_len_enc [of 192 0] load_len_enc [of 193 1] load_len_enc [of 194 2] by simp_all
  have "rdbLoadIntegerObject 0 (word_of_int v # d) = Inr (str_int64 v, d)" if "-128 \<le> v" "v \<le> 127" for d
    using that by (simp add: rdbLoadIntegerObject_def rioRead_def rdb_enc_consts sint_widths)
  moreover have "rdbLoadIntegerObject 1 (word_of_int v # word_of_int (drop_bit 8 v) # d) = Inr (str_int64 v, d)"
    if "-32768 \<le> v" "v \<le> 32767" for d
    unfolding rdbLoadIntegerObject_def rioRead_def rdb_enc_consts Let_def
    using that join_bytes(1) [of v] by (simp add: sint_widths)
  moreover have "rdbLoadIntegerObject 2 (word_of_int v # word_of_int (drop_bit 8 v) # word_of_int (drop_bit 16 v) #
      word_of_int (drop_bit 24 v) # d) = Inr (str_int64 v, d)"
    if "-2147483648 \<le> v" "v \<le> 2147483647" for d
    unfolding rdbLoadIntegerObject_def rioRead_def rdb_enc_consts Let_def
    using that join_bytes(2) [of v] by (simp add: sint_widths numeral_eq_Suc)
  moreover consider "-128 \<le> v \<and> v \<le> 127" | "\<not> (-128 \<le> v \<and> v \<le> 127)" "-32768 \<le> v \<and> v \<le> 32767"
    | "\<not> (-128 \<le> v \<and> v \<le> 127)" "\<not> (-32768 \<le> v \<and> v \<le> 32767)" "-2147483648 \<le> v \<and> v \<le> 2147483647"
    using assms unfolding rdbEncodeInteger_def by (metis (full_types))
  ultimately show ?thesis
    unfolding stores_def rdbEncodeInteger_def rdbGenericLoadStringObject_def
    by cases (auto simp: rdb_enc_consts e)
qed

lemma small_len:
  assumes "m < 2147483648"
  shows "unat (word_of_nat m :: u64) = m" "word_of_nat m \<noteq> RDB_LENERR"
proof -
  show u: "unat (word_of_nat m :: u64) = m" using assms by (simp add: unat_of_nat)
  show "word_of_nat m \<noteq> RDB_LENERR"
  proof
    assume "word_of_nat m = RDB_LENERR"
    then have "m = unat RDB_LENERR" using u by simp
    then show False using assms by (simp add: RDB_LENERR_def)
  qed
qed

lemma stores_plain:
  assumes "length s < 2147483648"
  shows "stores (len_bytes (word_of_nat (length s)) @ s) s"
  using small_len [OF assms] length_len_bytes(1) [of "word_of_nat (length s)"]
  by (auto simp: stores_def rdbGenericLoadStringObject_def load_len rioRead_def)

lemma stores_lzf:
  assumes "lzf_compress htab s n = Some c" "length s < 2147483648" "n < 2147483648"
  shows "stores (195 # len_bytes (word_of_nat (length c)) @ len_bytes (word_of_nat (length s)) @ c) s"
proof -
  have e: "rdbLoadLen (195 # d) = Inr (True, 3, d)" for d using load_len_enc [of 195 3] by simp
  have c: "lzf_decompress c (length s) = Some s" "c \<noteq> []" using lzf_roundtrip [OF assms(1)] by simp_all
  have l: "length c < 2147483648" using length_lzf_compress [OF assms(1)] assms(3) by simp
  show ?thesis
    using small_len [OF l] small_len [OF assms(2)] c
    by (simp add: stores_def rdbGenericLoadStringObject_def e load_len rioRead_def rdb_enc_consts rdbLoadLzfStringObject_def)
qed

section \<open>The contract of a writer\<close>

lemma byte_and_255: "(ucast ((w :: u64) AND 255) :: byte) = word_of_nat (unat w mod 256)"
proof -
  have "w AND 255 = take_bit 8 w" by (simp add: take_bit_eq_mask mask_eq_exp_minus_1)
  moreover have "(ucast (take_bit 8 w) :: byte) = ucast w" by (rule bit_word_eqI) (simp add: bit_simps)
  moreover have "(ucast w :: byte) = word_of_nat (unat w mod 256)" 
    by (simp add: word_unat_eq_iff unat_of_nat unsigned_ucast_eq take_bit_eq_mod)
  ultimately show ?thesis by simp
qed

lemma byte_or_64: "m < 64 \<Longrightarrow> (word_of_nat m :: byte) OR push_bit 6 1 = word_of_nat (64 + m)"
proof -
  assume m: "m < 64"
  let ?x = "word_of_nat m :: byte"
  have "?x AND 63 = take_bit 6 ?x" by (simp add: take_bit_eq_mask mask_eq_exp_minus_1)
  also have "\<dots> = ?x" using m by (simp add: word_unat_eq_iff unat_of_nat unat_mod_distrib take_bit_eq_mod)
  finally have "?x AND 64 = ?x AND (63 AND 64)" by (metis and.assoc)
  then have "?x AND 64 = 0" by simp
  then have "?x OR 64 = ?x + 64" by (simp only: disjunctive_add_eq_or)
  then show ?thesis by simp
qed

locale rdb_writer =
  fixes wr :: "'w writer" and out :: "'w \<Rightarrow> bytes"
  assumes wr_out: "length p < 2147483648 \<Longrightarrow> \<exists>w'. wr w p = (int (length p), w') \<and> out w' = out w @ p"
begin

lemma wr_cases:
  assumes "length p < 2147483648"
  obtains w' where "wr w p = (int (length p), w')" "out w' = out w @ p"
  using wr_out [OF assms] by blast

lemma save_len: "\<exists>w'. rdbSaveLen wr w len = (int (length (len_bytes len)), w') \<and> out w' = out w @ len_bytes len"
proof -
  let ?n = "unat len"
  consider "?n < 64" | "64 \<le> ?n" "?n < 16384" | "16384 \<le> ?n" "?n < 4294967296" | "4294967296 \<le> ?n" by linarith
  then show ?thesis
  proof cases
    case 1
    have "[ucast (len AND 255) OR push_bit 6 RDB_6BITLEN] = len_bytes len"
      using 1 by (simp add: byte_and_255 rdb_len_consts len_bytes_def)
    moreover have "length (len_bytes len) = 1" using 1 by (simp add: len_bytes_def)
    ultimately show ?thesis
      using 1 wr_out [of "len_bytes len" w] by (auto simp: rdbSaveLen_def word_less_nat_alt)
  next
    case 2
    have d: "unat (drop_bit 8 len) = ?n div 256" by (simp only: unat_drop_bit_eq) (simp add: drop_bit_eq_div)
    have "[ucast (drop_bit 8 len AND 255) OR push_bit 6 RDB_14BITLEN, ucast (len AND 255)] = len_bytes len"
      using 2 byte_or_64 [of "?n div 256"] unfolding byte_and_255 d by (simp add: rdb_len_consts len_bytes_def Let_def)
    moreover have "length (len_bytes len) = 2" using 2 by (simp add: len_bytes_def Let_def)
    ultimately show ?thesis
      using 2 wr_out [of "len_bytes len" w] by (auto simp: rdbSaveLen_def word_less_nat_alt)
  next
    case 3
    obtain w1 where w1: "wr w [RDB_32BITLEN] = (1, w1)" "out w1 = out w @ [RDB_32BITLEN]"
      using wr_out [of "[RDB_32BITLEN]" w] by auto
    obtain w2 where "wr w1 (be_encode 4 ?n) = (4, w2)" "out w2 = out w1 @ be_encode 4 ?n"
      using wr_out [of "be_encode 4 ?n" w1] by auto
    with w1 3 show ?thesis
      by (auto simp: rdbSaveLen_def word_less_nat_alt word_le_nat_alt len_bytes_def Let_def RDB_32BITLEN_def)
  next
    case 4
    obtain w1 where w1: "wr w [RDB_64BITLEN] = (1, w1)" "out w1 = out w @ [RDB_64BITLEN]"
      using wr_out [of "[RDB_64BITLEN]" w] by auto
    obtain w2 where "wr w1 (raw64 (htobe64 len)) = (8, w2)" "out w2 = out w1 @ raw64 (htobe64 len)"
      using wr_out [of "raw64 (htobe64 len)" w1] by auto
    with w1 4 show ?thesis
      by (auto simp: rdbSaveLen_def word_less_nat_alt word_le_nat_alt len_bytes_def Let_def RDB_64BITLEN_def)
  qed
qed

lemma save_integer:
  assumes "rdbTryIntegerEncoding s = p" "p \<noteq> []"
  shows "stores p s" "length p \<le> 5"
proof -
  obtain v err where v: "str_to_int64 s = (v, err)" by force
  with assms have p: "p = rdbEncodeInteger v" "str_int64 v = s"
    by (auto simp: rdbTryIntegerEncoding_def Let_def split: if_splits)
  then show "stores p s" using stores_integer [of v] assms(2) by simp
  show "length p \<le> 5" by (simp add: p(1) rdbEncodeInteger_def)
qed

lemma save_lzf:
  assumes "length s < 2147483648" "rdbSaveLzfStringObject wr htab w s = (n, w')"
  shows "n = 0 \<and> w' = w \<or> (\<exists>p. n = int (length p) \<and> out w' = out w @ p \<and> stores p s)"
proof (cases "lzf_compress htab s (length s - 4)")
  case None
  with assms(2) show ?thesis by (auto simp: rdbSaveLzfStringObject_def Let_def split: if_splits)
next
  case (Some c)
  let ?b1 = "[195 :: byte]" and ?b2 = "len_bytes (word_of_nat (length c))" and ?b3 = "len_bytes (word_of_nat (length s))"
  have c: "length c < 2147483648" using length_lzf_compress [OF Some] assms(1) by simp
  obtain w1 where w1: "wr w ?b1 = (1, w1)" "out w1 = out w @ ?b1" using wr_out [of ?b1 w] by auto
  obtain w2 where w2: "rdbSaveLen wr w1 (word_of_nat (length c)) = (int (length ?b2), w2)" "out w2 = out w1 @ ?b2"
    using save_len by blast
  obtain w3 where w3: "rdbSaveLen wr w2 (word_of_nat (length s)) = (int (length ?b3), w3)" "out w3 = out w2 @ ?b3"
    using save_len by blast
  obtain w4 where w4: "wr w3 c = (int (length c), w4)" "out w4 = out w3 @ c" using wr_cases [OF c] .
  show ?thesis
  proof (cases "length s \<le> 4")
    case True
    then show ?thesis using assms(2) by (simp add: rdbSaveLzfStringObject_def)
  next
    case False
    with Some assms(2) w1(1) w2(1) w3(1) w4(1)
    have "n = int (length (195 # ?b2 @ ?b3 @ c))" "w' = w4"
      by (simp_all add: rdbSaveLzfStringObject_def rdbSaveLzfBlob_def Let_def rdb_enc_consts)
    moreover have "stores (195 # ?b2 @ ?b3 @ c) s" using stores_lzf [OF Some assms(1)] assms(1) by simp
    ultimately show ?thesis using w1(2) w2(2) w3(2) w4(2) by fastforce
  qed
qed

lemma save_raw_string:
  assumes "length s < 2147483648"
  shows "\<exists>p w'. rdbSaveRawString wr htab c w s = (int (length p), w') \<and> out w' = out w @ p \<and> stores p s"
proof (cases "length s \<le> 11 \<and> rdbTryIntegerEncoding s \<noteq> []")
  case True
  let ?p = "rdbTryIntegerEncoding s"
  have p: "stores ?p s" "length ?p < 2147483648" using save_integer [of s ?p] True by simp_all
  obtain w' where "wr w ?p = (int (length ?p), w')" "out w' = out w @ ?p" using wr_cases [OF p(2)] .
  with p True show ?thesis by (auto simp: rdbSaveRawString_def Let_def)
next
  case False
  let ?b = "len_bytes (word_of_nat (length s))"
  obtain n w1 where l: "(if c \<and> length s > 20 then rdbSaveLzfStringObject wr htab w s else (0, w)) = (n, w1)" by force
  then have n: "n = 0 \<and> w1 = w \<or> (\<exists>p. n = int (length p) \<and> out w1 = out w @ p \<and> stores p s)"
    using save_lzf [OF assms, of htab w] by (auto split: if_splits)
  have eq: "rdbSaveRawString wr htab c w s = (if n = -1 then (-1, w1) else if n > 0 then (n, w1)
      else (case rdbSaveLen wr w1 (word_of_nat (length s)) of (n, w) \<Rightarrow>
         if n = -1 then (-1, w)
         else if length s > 0 then (case wr w s of (r, w) \<Rightarrow> if r = -1 then (-1, w) else (n + int (length s), w))
         else (n, w)))"
    using False l by (auto simp: rdbSaveRawString_def Let_def)
  from n show ?thesis
  proof
    assume "\<exists>p. n = int (length p) \<and> out w1 = out w @ p \<and> stores p s"
    then obtain p where p: "n = int (length p)" "out w1 = out w @ p" "stores p s" by blast
    then have "p \<noteq> []" by (simp add: stores_def)
    with p eq show ?thesis by auto
  next
    assume z: "n = 0 \<and> w1 = w"
    obtain w2 where w2: "rdbSaveLen wr w (word_of_nat (length s)) = (int (length ?b), w2)" "out w2 = out w @ ?b"
      using save_len by blast
    obtain w3 where w3: "wr w2 s = (int (length s), w3)" "out w3 = out w2 @ s" using wr_cases [OF assms] .
    have "stores (?b @ s) s" by (rule stores_plain [OF assms])
    then show ?thesis using eq z w2 w3 by (cases "s = []") (fastforce, fastforce)
  qed
qed

lemma save_plain_string:
  assumes "length s < 2147483648"
  shows "\<exists>p w'. saveRawString wr w s = (int (length s), w') \<and> out w' = out w @ p \<and> stores p s"
proof -
  let ?b = "len_bytes (word_of_nat (length s))"
  obtain w2 where w2: "rdbSaveLen wr w (word_of_nat (length s)) = (int (length ?b), w2)" "out w2 = out w @ ?b"
    using save_len by blast
  obtain w3 where w3: "wr w2 s = (int (length s), w3)" "out w3 = out w2 @ s" using wr_cases [OF assms] .
  have "stores (?b @ s) s" by (rule stores_plain [OF assms])
  then show ?thesis using w2 w3 by (fastforce simp: saveRawString_def)
qed

end

interpretation dump: rdb_writer dump_write "\<lambda>w. w"
proof
  fix p w :: bytes
  assume "length p < 2147483648"
  then have "sint (word_of_int (int (length p)) :: 32 word) = int (length p)" by (intro sint_widths) simp_all
  then show "\<exists>w'. dump_write w p = (int (length p), w') \<and> w' = w @ p" by (simp add: dump_write_def)
qed

section \<open>Type and footer\<close>

lemma dump_write_eq [simp]: "length p < 2147483648 \<Longrightarrow> dump_write w p = (int (length p), w @ p)"
  using dump.wr_out [of p w] by auto

lemma encodeFooter_eq: "encodeFooter crc w = (0, w @ [8, 0] @ raw64 (crc (w @ [8, 0])))"
  by (simp add: encodeFooter_def RDB_VERSION_def)

lemma verify_footer: "verifyDumpPayload crc (w @ [8, 0] @ raw64 (crc (w @ [8, 0]))) = (True, w)"
  by (simp add: verifyDumpPayload_def Let_def RDB_VERSION_def)

definition rdb_type :: "byte \<Rightarrow> int" where
  "rdb_type dtype = (if dtype = KV then 0 else if dtype = HSIZE then 4 else if dtype = SSIZE then 2
     else if dtype = ZSIZE then 5 else 1)"

lemma save_type:
  assumes "dtype \<in> {KV, HSIZE, SSIZE, ZSIZE, LSIZE}"
  shows "rdbSaveObjectType dump_write w dtype = (1, w @ [word_of_int (rdb_type dtype)])"
  using assms by (auto simp: rdbSaveObjectType_def rdbSaveType_def rdb_type_def rdb_types)

lemma load_type: "rdbLoadObjectType (word_of_int (rdb_type dtype) # d) = (rdb_type dtype, d)"
  by (simp add: rdbLoadObjectType_def rdbLoadType_def rioRead_def rdbIsObjectType_def rdb_type_def)

section \<open>Properties\<close>

text \<open>
  Reading back what the encoder of DUMP wrote: every length up to 64 bits, and every text of
  less than two gigabytes, in whichever of its forms (integer, compressed, verbatim) it was saved. The reader
  stops exactly at the end of what was written.
\<close>

theorem rdb_roundtrip:
  assumes "length s < 2147483648"
  shows "(\<exists>p. rdbSaveLen dump_write w len = (int (length p), w @ p) \<and> rdbLoadLen (p @ rest) = Inr (False, len, rest)) \<and>
    (\<exists>p. rdbSaveRawString dump_write htab compress w s = (int (length p), w @ p) \<and>
      rdbGenericLoadStringObject mem 0 (p @ rest) = Inr (0, s, rest)) \<and>
    (\<exists>p. saveRawString dump_write w s = (int (length s), w @ p) \<and>
      rdbGenericLoadStringObject mem 0 (p @ rest) = Inr (0, s, rest))"
proof (intro conjI)
  show "\<exists>p. rdbSaveLen dump_write w len = (int (length p), w @ p) \<and> rdbLoadLen (p @ rest) = Inr (False, len, rest)"
    using dump.save_len [of w len] load_len [of len rest] by auto
  show "\<exists>p. rdbSaveRawString dump_write htab compress w s = (int (length p), w @ p) \<and>
      rdbGenericLoadStringObject mem 0 (p @ rest) = Inr (0, s, rest)"
    using dump.save_raw_string [OF assms, of htab compress w] unfolding stores_def by auto
  show "\<exists>p. saveRawString dump_write w s = (int (length s), w @ p) \<and>
      rdbGenericLoadStringObject mem 0 (p @ rest) = Inr (0, s, rest)"
    using dump.save_plain_string [OF assms, of w] unfolding stores_def by auto
qed

theorem rdb_roundtrip_witness:
  "rdbSaveRawString dump_write (\<lambda>_. 0) True [] [45, 49] = (2, [192, 255]) \<and>
   rdbGenericLoadStringObject (\<lambda>n. []) 0 ([192, 255] @ [7]) = Inr (0, [45, 49], [7])"
proof -
  have e: "rdbSaveRawString dump_write (\<lambda>_. 0) True [] [45, 49] = (2, [192, 255])"
    by (simp add: rdbSaveRawString_def rdbTryIntegerEncoding_def str_to_int64_def strtoll_def is_space_def digit_def
      str_int64_def dec_digits.simps rdbEncodeInteger_def rdb_enc_consts Let_def)
  have "\<exists>p. rdbSaveRawString dump_write (\<lambda>_. 0) True [] [45, 49] = (int (length p), [] @ p) \<and>
      rdbGenericLoadStringObject (\<lambda>n. []) 0 (p @ [7]) = Inr (0, [45, 49], [7])"
    using rdb_roundtrip [of "[45, 49]" "[]" 0 "[7]" "\<lambda>_. 0" True "\<lambda>n. []"] by simp
  with e show ?thesis by auto
qed

end
