(* ===== verification/Glob.thy ===== *)
theory Glob
  imports Rdb
begin

text \<open>
  The pattern matcher of KEYS and SCAN, \<^verbatim>\<open>stringmatchlen\<close> (\<^verbatim>\<open>src/src/util/strings.h\<close>). The pattern ends with a
  zero byte, the text does not: it points into a key of the store. A step behind the text or a read behind the
  zero byte is the error \<open>OutOfBounds\<close>. The theorem shows that on patterns without brackets the
  matcher decides the usual meaning of \<^verbatim>\<open>*\<close>, \<^verbatim>\<open>?\<close> and the backslash.
\<close>

section \<open>Definitions\<close>

definition tolower :: "byte \<Rightarrow> byte" where
  "tolower c = (if 65 \<le> c \<and> c \<le> 90 then c + 32 else c)"

definition fold_case :: "bool \<Rightarrow> byte \<Rightarrow> byte" where
  "fold_case nocase c = (if nocase then tolower c else c)"

text \<open>
  The loop over a set in brackets: whether it has the first byte of the text, and the pattern behind it. Ranges
  compare bytes as signed numbers.
\<close>

fun match_class :: "bool \<Rightarrow> bytes \<Rightarrow> bool \<Rightarrow> bytes \<Rightarrow> rdb_abort + bool \<times> bytes" where
  "match_class nocase s m [] = Inr (m, [])"
| "match_class nocase s m [a] =
     (if a = 93 then Inr (m, [])
      else if a = 92 \<or> s = [] then Inl OutOfBounds
      else match_class nocase s (m \<or> fold_case nocase a = fold_case nocase (hd s)) [])"
| "match_class nocase s m [a, b] =
     (if a = 93 then Inr (m, [b])
      else if s = [] then Inl OutOfBounds
      else if a = 92 then match_class nocase s (m \<or> b = hd s) []
      else match_class nocase s (m \<or> fold_case nocase a = fold_case nocase (hd s)) [b])"
| "match_class nocase s m (a # b # c # p) =
     (if a = 93 then Inr (m, b # c # p)
      else if s = [] then Inl OutOfBounds
      else if a = 92 then match_class nocase s (m \<or> b = hd s) (c # p)
      else if b = 45 then
        let lo = (if sint a > sint c then c else a); hi = (if sint a > sint c then a else c);
            x = fold_case nocase (hd s)
        in match_class nocase s (m \<or> sint (fold_case nocase lo) \<le> sint x \<and> sint x \<le> sint (fold_case nocase hi)) p
      else match_class nocase s (m \<or> fold_case nocase a = fold_case nocase (hd s)) (b # c # p))"

lemma match_class_shorter: "match_class nocase s m p = Inr (m', p') \<Longrightarrow> length p' \<le> length p"
proof (induction nocase s m p arbitrary: m' rule: match_class.induct)
  case (4 nocase s m a b c p)
  then show ?case by (fastforce simp: Let_def split: if_splits)
qed (fastforce split: if_splits)+

text \<open>The star tries the rest of the pattern at each place of the text but not at its end.\<close>

function stringmatchlen :: "bool \<Rightarrow> bytes \<Rightarrow> bytes \<Rightarrow> rdb_abort + bool"
  and match_star :: "bool \<Rightarrow> bytes \<Rightarrow> bytes \<Rightarrow> rdb_abort + bool" where
  "stringmatchlen nocase [] s = Inr (s = [])"
| "stringmatchlen nocase (c # p) s =
     (if c = 42 then
        let p = dropWhile (\<lambda>c. c = 42) p in if p = [] then Inr True else match_star nocase p s
      else
        let step =
          (if c = 63 then if s = [] then Inr None else Inr (Some p)
           else if c = 91 then
             let no_t = (p \<noteq> [] \<and> hd p = 94) in
             (case match_class nocase s False (if no_t then tl p else p) of
                Inl e \<Rightarrow> Inl e
              | Inr (m, p) \<Rightarrow> if m = no_t then Inr None else if s = [] then Inl OutOfBounds else Inr (Some p))
           else
             let (c, p) = (if c = 92 \<and> p \<noteq> [] then (hd p, tl p) else (c, p)) in
             if s = [] then Inl OutOfBounds
             else if fold_case nocase c \<noteq> fold_case nocase (hd s) then Inr None else Inr (Some p))
        in (case step of
              Inl e \<Rightarrow> Inl e
            | Inr None \<Rightarrow> Inr False
            | Inr (Some p) \<Rightarrow>
                if tl s = [] then Inr (dropWhile (\<lambda>c. c = 42) p = []) else stringmatchlen nocase p (tl s)))"
| "match_star nocase p [] = Inr False"
| "match_star nocase p (x # s) =
     (case stringmatchlen nocase p (x # s) of
        Inl e \<Rightarrow> Inl e
      | Inr True \<Rightarrow> Inr True
      | Inr False \<Rightarrow> match_star nocase p s)"
  by pat_completeness auto
termination
proof (relation "measures [\<lambda>x. case x of Inl (_, p, _) \<Rightarrow> length p | Inr (_, p, _) \<Rightarrow> length p,
    \<lambda>x. case x of Inl (_, _, s) \<Rightarrow> length s | Inr (_, _, s) \<Rightarrow> length s, \<lambda>x. case x of Inl _ \<Rightarrow> 0 | Inr _ \<Rightarrow> 1]", goal_cases)
  case (2 nocase c p s)
  then show ?case by (simp add: le_imp_less_Suc length_dropWhile_le)
next
  case (3 nocase c p s x y z)
  then show ?case
    by (auto simp: Let_def split: if_splits sum.splits dest!: match_class_shorter)
qed auto

declare stringmatchlen.simps(2) [simp del]

section \<open>The meaning of a pattern\<close>

fun glob_match :: "bytes \<Rightarrow> bytes \<Rightarrow> bool" where
  "glob_match [] s \<longleftrightarrow> s = []"
| "glob_match (c # p) s \<longleftrightarrow>
     (if c = 42 then \<exists>k \<le> length s. glob_match p (drop k s)
      else if c = 63 then s \<noteq> [] \<and> glob_match p (tl s)
      else if c = 92 \<and> p \<noteq> [] then s \<noteq> [] \<and> hd s = hd p \<and> glob_match (tl p) (tl s)
      else s \<noteq> [] \<and> hd s = c \<and> glob_match p (tl s))"

declare glob_match.simps(2) [simp del]

lemma glob_star: "glob_match (42 # p) s \<longleftrightarrow> (\<exists>k \<le> length s. glob_match p (drop k s))"
  by (simp add: glob_match.simps)

lemma glob_all: "glob_match [42] s"
  by (auto simp: glob_star)

lemma glob_stars: "glob_match (42 # p) s \<longleftrightarrow> glob_match (42 # dropWhile (\<lambda>c. c = 42) p) s"
proof (induction p arbitrary: s)
  case (Cons c p)
  show ?case
  proof (cases "c = 42")
    case True
    have "glob_match (42 # 42 # p) s \<longleftrightarrow> glob_match (42 # p) s"
    proof
      assume "glob_match (42 # 42 # p) s"
      then obtain k j where "k \<le> length s" "j \<le> length s - k" "glob_match p (drop (j + k) s)"
        by (auto simp: glob_star)
      then show "glob_match (42 # p) s" unfolding glob_star by (intro exI [of _ "j + k"]) simp
    next
      assume "glob_match (42 # p) s"
      then show "glob_match (42 # 42 # p) s" unfolding glob_star [of "42 # p"] by (intro exI [of _ 0]) simp
    qed
    with Cons True show ?thesis by simp
  qed simp
qed simp

lemma glob_Nil: "glob_match p [] \<longleftrightarrow> dropWhile (\<lambda>c. c = 42) p = []"
  by (induction p) (auto simp: glob_match.simps)

lemma match_star_glob:
  assumes "p \<noteq> []" "hd p \<noteq> 42" "\<And>s. s \<noteq> [] \<Longrightarrow> stringmatchlen False p s = Inr (glob_match p s)"
  shows "match_star False p s = Inr (glob_match (42 # p) s)"
proof (induction s)
  case Nil
  have "dropWhile (\<lambda>c. c = 42) p = p" using assms(1,2) by (cases p) auto
  then show ?case using assms(1) by (simp add: glob_star glob_Nil)
next
  case (Cons x s)
  have "glob_match (42 # p) (x # s) \<longleftrightarrow> glob_match p (x # s) \<or> glob_match (42 # p) s"
  proof
    assume "glob_match (42 # p) (x # s)"
    then obtain k where "k \<le> Suc (length s)" "glob_match p (drop k (x # s))" by (auto simp: glob_star)
    then show "glob_match p (x # s) \<or> glob_match (42 # p) s" unfolding glob_star by (cases k) auto
  next
    assume "glob_match p (x # s) \<or> glob_match (42 # p) s"
    then show "glob_match (42 # p) (x # s)" unfolding glob_star
      by (metis Suc_le_mono drop0 drop_Suc_Cons length_Cons zero_le)
  qed
  then show ?case using Cons assms(3) [of "x # s"] by (cases "glob_match p (x # s)") simp_all
qed

lemma stringmatch_glob:
  assumes "91 \<notin> set p" "s \<noteq> []"
  shows "stringmatchlen False p s = Inr (glob_match p s)"
  using assms
proof (induction "length p" arbitrary: p s rule: less_induct)
  case less
  show ?case
  proof (cases p)
    case (Cons c q)
    have rest: "(if tl s = [] then Inr (dropWhile (\<lambda>c. c = 42) r = []) else stringmatchlen False r (tl s)) = Inr (glob_match r (tl s))"
      if "length r < length p" "91 \<notin> set r" for r
      using less(1) [of r "tl s"] that by (auto simp: glob_Nil)
    have q: "91 \<notin> set q" "length q < length p" using less.prems(1) Cons by auto
    consider "c = 42" | "c = 63" | "c = 92" "q \<noteq> []" | "c \<noteq> 42" "c \<noteq> 63" "c \<noteq> 92 \<or> q = []" by blast
    then show ?thesis
    proof cases
      case 1
      let ?q = "dropWhile (\<lambda>c. c = 42) q"
      have r: "length ?q < length p" "91 \<notin> set ?q"
        using less.prems(1) Cons by (auto simp: le_imp_less_Suc length_dropWhile_le dest: set_dropWhileD)
      show ?thesis
      proof (cases "?q = []")
        case True
        have "glob_match (42 # q) s" unfolding glob_stars [of q s] True by (rule glob_all)
        with True show ?thesis using 1 by (simp add: Cons stringmatchlen.simps)
      next
        case False
        moreover from this have "hd ?q \<noteq> 42" using hd_dropWhile [of "\<lambda>c. c = 42" q] by simp
        ultimately show ?thesis
          using match_star_glob [of ?q s] less(1) [OF r] glob_stars [of q s] 1 by (auto simp: Cons stringmatchlen.simps)
      qed
    next
      case 2
      then show ?thesis using less.prems(2) rest [OF q(2,1)] Cons by (auto simp: stringmatchlen.simps glob_match.simps Let_def)
    next
      case 3
      have "length (tl q) < length p" "91 \<notin> set (tl q)" using q 3(2) by (auto dest: list.set_sel(2) [rotated])
      with 3 show ?thesis using less.prems(2) rest [of "tl q"] Cons
        by (auto simp: stringmatchlen.simps glob_match.simps Let_def fold_case_def)
    next
      case 4
      then show ?thesis using less.prems rest [OF q(2,1)] Cons
        by (auto simp: stringmatchlen.simps glob_match.simps Let_def fold_case_def)
    qed
  qed simp
qed

text \<open>
  C18: On a pattern without brackets and a text that is not empty, \<^verbatim>\<open>stringmatchlen\<close> stays within the pattern and the
  text and answers whether the text has the form the pattern describes: a star stands for any bytes, a
  question mark for one, a backslash makes the next byte stand for itself.
\<close>

theorem glob_correct:
  assumes "91 \<notin> set p" "s \<noteq> []"
  shows "stringmatchlen False p s = Inr (glob_match p s)"
  using assms by (rule stringmatch_glob)

theorem glob_correct_witness:
  "stringmatchlen False [97, 42, 63, 99] [97, 98, 98, 99] = Inr (glob_match [97, 42, 63, 99] [97, 98, 98, 99])"
  using glob_correct [of "[97, 42, 63, 99]" "[97, 98, 98, 99]"] by simp

text \<open>
  An empty text, such as an empty field of a hash, and a literal pattern read the byte behind the text; a set in
  brackets that ends with a backslash reads behind the pattern.
\<close>

lemma glob_out_of_bounds:
  "stringmatchlen False [97] [] = Inl OutOfBounds" "stringmatchlen False [91, 92] [97] = Inl OutOfBounds"
  by (simp_all add: stringmatchlen.simps)

end
