(* ===== verification/TScan.thy ===== *)
theory TScan
  imports Glob THash TSet ZRange
begin

text \<open>
  The cursors and the scans: \<^verbatim>\<open>RedisCursorService\<close> (\<^verbatim>\<open>src/src/storage/t_cursor.cpp\<close>), \<^verbatim>\<open>doScanGeneric\<close>
  (\<^verbatim>\<open>t_scan.h\<close>) and the commands SCAN, HSCAN, SSCAN and ZSCAN, which return a page of the elements and
  a cursor for the next page. A cursor is a number; the service remembers the place in the store it
  stands for. The main result is that the pages of a collection that does not change contain every element that
  matches exactly once.
\<close>

section \<open>Cursors\<close>

record RedisCursor =
  element :: bytes
  ts :: int
  cursor :: u64

text \<open>\<^verbatim>\<open>std::map\<close> by ascending number; \<^verbatim>\<open>insert\<close> keeps an entry that is there already.\<close>

type_synonym RedisCursorTable = "(u64 \<times> RedisCursor) list"

fun table_insert :: "u64 \<Rightarrow> RedisCursor \<Rightarrow> RedisCursorTable \<Rightarrow> RedisCursorTable" where
  "table_insert k c [] = [(k, c)]"
| "table_insert k c ((k', c') # t) =
     (if k < k' then (k, c) # (k', c') # t else if k = k' then (k', c') # t else (k', c') # table_insert k c t)"

definition scan_cursor_expire_after :: int where
  "scan_cursor_expire_after = 60 * 1000"

text \<open>The clock \<open>now\<close> is \<^verbatim>\<open>time(NULL)\<close>, in seconds.\<close>

definition GetNewRedisCursor :: "int \<Rightarrow> bytes \<Rightarrow> RedisCursorTable \<Rightarrow> u64 \<times> RedisCursorTable" where
  "GetNewRedisCursor now elem t =
     (let n = (if t = [] then 1 else cursor (snd (last t)) + 1)
      in (n, table_insert n \<lparr>element = elem, ts = now, cursor = n\<rparr> t))"

text \<open>
  \<^verbatim>\<open>strtoull\<close> in base 10 with the number of bytes used and whether the value does not fit; \<^verbatim>\<open>str_to_uint64\<close> sets
  \<^verbatim>\<open>errno\<close> to \<^verbatim>\<open>EINVAL\<close> when bytes are left over and nothing else is wrong.
\<close>

definition strtoull :: "bytes \<Rightarrow> u64 \<times> nat \<times> bool" where
  "strtoull s =
     (let sp = length (takeWhile is_space s);
          t = drop sp s;
          (neg, sg) = (if t \<noteq> [] \<and> hd t = 45 then (True, 1) else if t \<noteq> [] \<and> hd t = 43 then (False, 1) else (False, 0));
          ds = takeWhile digit (drop sg t);
          v = dval 0 ds
      in if ds = [] then (0, 0, False)
         else if v \<ge> 2 ^ 64 then (UINT64_MAX, sp + sg + length ds, True)
         else (if neg then - word_of_nat v else word_of_nat v, sp + sg + length ds, False))"

definition str_to_uint64 :: "bytes \<Rightarrow> u64 \<times> bool" where
  "str_to_uint64 s = (case strtoull s of (ret, n, overflow) \<Rightarrow> (ret, n \<noteq> length s \<and> \<not> overflow))"

definition str_uint64 :: "u64 \<Rightarrow> bytes" where
  "str_uint64 v = dec_digits (unat v)"

definition FindElementByRedisCursor :: "bytes \<Rightarrow> RedisCursorTable \<Rightarrow> bytes option" where
  "FindElementByRedisCursor c t =
     (case str_to_uint64 c of (n, invalid) \<Rightarrow>
        if invalid then None else map_option element (map_of t n))"

fun ClearExpireRedisCursor :: "int \<Rightarrow> RedisCursorTable \<Rightarrow> RedisCursorTable" where
  "ClearExpireRedisCursor now [] = []"
| "ClearExpireRedisCursor now ((k, c) # t) =
     (if now - ts c \<ge> scan_cursor_expire_after then ClearExpireRedisCursor now t else (k, c) # t)"

definition ClearAllCursor :: "RedisCursorTable \<Rightarrow> RedisCursorTable" where
  "ClearAllCursor t = []"

section \<open>Scans\<close>

text \<open>
  \<^verbatim>\<open>doScanGeneric\<close> is a template over the iterator: \<open>nxt\<close> is its \<^verbatim>\<open>next\<close>, \<open>key\<close> the key it stands on and
  \<open>out\<close> what \<^verbatim>\<open>ScanResultProcessor\<close> adds to the response.
\<close>

definition scan_match :: "bytes \<Rightarrow> bytes \<Rightarrow> rdb_abort + bool" where
  "scan_match pattern k = (if pattern = [42] then Inr True else stringmatchlen False pattern k)"

function scan_loop ::
  "('i \<Rightarrow> bool \<times> 'i) \<Rightarrow> ('i \<Rightarrow> bytes) \<Rightarrow> ('i \<Rightarrow> bytes list) \<Rightarrow> bytes \<Rightarrow> u64 \<Rightarrow> bytes list \<Rightarrow> 'i \<Rightarrow>
     rdb_abort + u64 \<times> bytes list \<times> 'i" where
  "scan_loop nxt key out pattern limit resp mit =
     (case nxt mit of
        (False, mit) \<Rightarrow> Inr (limit, resp, mit)
      | (True, mit) \<Rightarrow>
          if limit = 0 then Inr (limit, resp, mit)
          else
            (case scan_match pattern (key mit) of
               Inl e \<Rightarrow> Inl e
             | Inr b \<Rightarrow>
                 let resp = (if b then resp @ out mit else resp); limit = limit - 1 in
                 if limit = 0 then Inr (limit, resp, mit) else scan_loop nxt key out pattern limit resp mit))"
  by pat_completeness auto
termination
  by (relation "measure (\<lambda>(nxt, key, out, pattern, limit, resp, mit). unat limit)")
    (auto simp: unat_minus_one unat_gt_0 word_neq_0_conv)

declare scan_loop.simps [simp del]

definition doScanGeneric ::
  "('i \<Rightarrow> bool \<times> 'i) \<Rightarrow> ('i \<Rightarrow> bytes) \<Rightarrow> ('i \<Rightarrow> bytes list) \<Rightarrow> 'i \<Rightarrow> bytes \<Rightarrow> u64 \<Rightarrow> bytes list \<Rightarrow>
     rdb_abort + bool \<times> bytes list \<times> 'i" where
  "doScanGeneric nxt key out mit pattern limit resp =
     (case scan_loop nxt key out pattern limit resp mit of
        Inl e \<Rightarrow> Inl e
      | Inr (limit, resp, mit) \<Rightarrow>
          (case nxt mit of (ok, mit) \<Rightarrow> Inr (\<not> ok \<or> limit \<noteq> 0, resp, mit)))"

text \<open>
  The end of the four commands: when the scan has not reached the end, the key the iterator stands on is
  remembered under a new cursor, which replaces the 0 at the head of the response.
\<close>

definition scan_reply ::
  "('db, 'it) rocksdb \<Rightarrow> int \<Rightarrow> ('i \<Rightarrow> 'it Iterator) \<Rightarrow> RedisCursorTable \<Rightarrow> rdb_abort + bool \<times> bytes list \<times> 'i \<Rightarrow>
     rdb_abort + int \<times> bytes list \<times> RedisCursorTable" where
  "scan_reply R now it t r =
     (case r of
        Inl e \<Rightarrow> Inl e
      | Inr (end, resp, mit) \<Rightarrow>
          if \<not> end then
            (case GetNewRedisCursor now (Iterator_key R (it mit)) t of (tCursor, t) \<Rightarrow>
               Inr (1, resp[0 := str_uint64 tCursor], t))
          else Inr (1, resp, t))"

text \<open>The place to start from; an unknown cursor leaves it empty, which is the beginning of the store.\<close>

definition scan_start :: "bytes \<Rightarrow> bytes \<Rightarrow> RedisCursorTable \<Rightarrow> bytes" where
  "scan_start first c t =
     (if c = [48] then first else case FindElementByRedisCursor c t of Some start \<Rightarrow> start | None \<Rightarrow> [])"

definition scan ::
  "('db, 'it) rocksdb \<Rightarrow> int \<Rightarrow> 'db ssdb \<Rightarrow> bytes \<Rightarrow> bytes \<Rightarrow> u64 \<Rightarrow> RedisCursorTable \<Rightarrow>
     rdb_abort + int \<times> bytes list \<times> RedisCursorTable" where
  "scan R now s c pattern limit t =
     (let mit = MIterator_init (SSDB_iterator R (ldb s) (scan_start [META] c t) [] (-1))
      in scan_reply R now m_it t
           (doScanGeneric (MIterator_next R) m_key (\<lambda>m. [m_key m]) mit pattern limit [[48]]))"

definition hscan ::
  "('db, 'it) rocksdb \<Rightarrow> int \<Rightarrow> 'db ssdb \<Rightarrow> bytes \<Rightarrow> bytes \<Rightarrow> bytes \<Rightarrow> u64 \<Rightarrow> RedisCursorTable \<Rightarrow>
     rdb_abort + int \<times> bytes list \<times> RedisCursorTable" where
  "hscan R now s name c pattern limit t =
     (case GetHashMetaVal R s (encode_meta_key name) of (ret, hv) \<Rightarrow>
        if ret \<noteq> 1 then Inr (ret, [], t)
        else
          let start = scan_start (encode_hash_key name [] (mv_version hv)) c t;
              mit = HIterator_init (SSDB_iterator R (ldb s) start [] (-1)) name (mv_version hv)
          in scan_reply R now h_it t
               (doScanGeneric (HIterator_next R) h_key (\<lambda>h. [h_key h, h_val h]) mit pattern limit [[48]]))"

definition sscan ::
  "('db, 'it) rocksdb \<Rightarrow> int \<Rightarrow> 'db ssdb \<Rightarrow> bytes \<Rightarrow> bytes \<Rightarrow> bytes \<Rightarrow> u64 \<Rightarrow> RedisCursorTable \<Rightarrow>
     rdb_abort + int \<times> bytes list \<times> RedisCursorTable" where
  "sscan R now s name c pattern limit t =
     (case GetSetMetaVal R s (encode_meta_key name) of (ret, sv) \<Rightarrow>
        if ret \<noteq> 1 then Inr (ret, [], t)
        else
          let start = scan_start (encode_set_key name [] (mv_version sv)) c t;
              mit = SIterator_init (SSDB_iterator R (ldb s) start [] (-1)) name (mv_version sv)
          in scan_reply R now s_it t
               (doScanGeneric (SIterator_next R) s_key (\<lambda>h. [s_key h]) mit pattern limit [[48]]))"

text \<open>The text of a score is printed by the C library.\<close>

definition zscan ::
  "(u64 \<Rightarrow> bytes) \<Rightarrow> ('db, 'it) rocksdb \<Rightarrow> int \<Rightarrow> 'db ssdb \<Rightarrow> bytes \<Rightarrow> bytes \<Rightarrow> bytes \<Rightarrow> u64 \<Rightarrow> RedisCursorTable \<Rightarrow>
     rdb_abort + int \<times> bytes list \<times> RedisCursorTable" where
  "zscan fmt R now s name c pattern limit t =
     (case GetZSetMetaVal R s (encode_meta_key name) of (ret, zv) \<Rightarrow>
        if ret \<noteq> 1 then Inr (ret, [], t)
        else
          let start = scan_start (encode_zscore_prefix name (mv_version zv)) c t;
              mit = ZIterator_init (SSDB_iterator R (ldb s) start [] (-1)) name (mv_version zv)
          in scan_reply R now z_it t
               (doScanGeneric (ZIterator_next R) z_key (\<lambda>z. [z_key z, str_double fmt (z_score z)]) mit pattern limit [[48]]))"

section \<open>One page\<close>

text \<open>
  What the scans need of an iterator: \<open>gives i es\<close> says that the calls of \<^verbatim>\<open>next\<close> from \<open>i\<close> on will report the
  elements \<open>es\<close> and then the end, and \<open>at i e\<close> that the iterator stands on the element \<open>e\<close>.
\<close>

locale scan_source =
  fixes nxt :: "'i \<Rightarrow> bool \<times> 'i" and key :: "'i \<Rightarrow> bytes" and out :: "'i \<Rightarrow> bytes list"
    and gives :: "'i \<Rightarrow> 'e list \<Rightarrow> bool" and at :: "'i \<Rightarrow> 'e \<Rightarrow> bool"
    and e_key :: "'e \<Rightarrow> bytes" and e_out :: "'e \<Rightarrow> bytes list"
  assumes gives_Nil: "gives i [] \<Longrightarrow> \<not> fst (nxt i)"
    and gives_Cons: "gives i (e # es) \<Longrightarrow> \<exists>i'. nxt i = (True, i') \<and> at i' e \<and> gives i' es"
    and at_key: "at i e \<Longrightarrow> key i = e_key e" and at_out: "at i e \<Longrightarrow> out i = e_out e"
begin

lemma scan_loop_page:
  assumes "gives i es" "limit \<noteq> 0" "\<forall>e \<in> set es. scan_match pattern (e_key e) = Inr (M e)"
  shows "\<exists>limit' i'. scan_loop nxt key out pattern limit resp i =
      Inr (limit', resp @ concat (map e_out (filter M (take (unat limit) es))), i') \<and>
    (if length es < unat limit then limit' \<noteq> 0 else limit' = 0 \<and> gives i' (drop (unat limit) es))"
  using assms
proof (induction es arbitrary: i limit resp)
  case Nil
  obtain i' where "nxt i = (False, i')" using gives_Nil [OF Nil(1)] by (cases "nxt i") auto
  then show ?case using Nil(2) by (simp add: scan_loop.simps [of nxt] unat_gt_0)
next
  case (Cons e es)
  obtain i' where i': "nxt i = (True, i')" "at i' e" "gives i' es" using gives_Cons [OF Cons.prems(1)] by blast
  have m: "scan_match pattern (key i') = Inr (M e)" using Cons.prems(3) at_key [OF i'(2)] by simp
  let ?resp = "if M e then resp @ out i' else resp"
  have n: "unat limit = Suc (unat (limit - 1))" using Cons.prems(2) by (simp add: unat_minus_one unat_gt_0)
  have eq: "scan_loop nxt key out pattern limit resp i =
      (if limit - 1 = 0 then Inr (limit - 1, ?resp, i') else scan_loop nxt key out pattern (limit - 1) ?resp i')"
    using i'(1) m Cons.prems(2) by (subst scan_loop.simps) (simp add: Let_def)
  show ?case
  proof (cases "limit - 1 = 0")
    case True
    then show ?thesis using i'(3) n at_out [OF i'(2)] unfolding eq by simp
  next
    case False
    from Cons.IH [OF i'(3) False, of ?resp] Cons.prems(3) obtain limit' i'' where
      "scan_loop nxt key out pattern (limit - 1) ?resp i' =
        Inr (limit', ?resp @ concat (map e_out (filter M (take (unat (limit - 1)) es))), i'')"
      "if length es < unat (limit - 1) then limit' \<noteq> 0 else limit' = 0 \<and> gives i'' (drop (unat (limit - 1)) es)" by auto
    with False show ?thesis unfolding eq using n at_out [OF i'(2)] by auto
  qed
qed

lemma scan_page:
  assumes "gives i es" "limit \<noteq> 0" "\<forall>e \<in> set es. scan_match pattern (e_key e) = Inr (M e)"
  shows "\<exists>i'. doScanGeneric nxt key out i pattern limit resp =
      Inr (length es \<le> unat limit, resp @ concat (map e_out (filter M (take (unat limit) es))), i') \<and>
    (unat limit < length es \<longrightarrow> at i' (es ! unat limit))"
proof -
  obtain limit' i' where l: "scan_loop nxt key out pattern limit resp i =
      Inr (limit', resp @ concat (map e_out (filter M (take (unat limit) es))), i')"
    "if length es < unat limit then limit' \<noteq> 0 else limit' = 0 \<and> gives i' (drop (unat limit) es)"
    using scan_loop_page [OF assms] by blast
  obtain ok i'' where n: "nxt i' = (ok, i'')" by force
  consider "length es < unat limit" | "length es = unat limit" | "unat limit < length es" by linarith
  then show ?thesis
  proof cases
    case 1
    then show ?thesis using l n by (simp add: doScanGeneric_def)
  next
    case 2
    then show ?thesis using l n gives_Nil [of i'] by (simp add: doScanGeneric_def)
  next
    case 3
    then have "drop (unat limit) es = es ! unat limit # drop (Suc (unat limit)) es" by (rule Cons_nth_drop_Suc [symmetric])
    with 3 l(2) obtain i3 where "nxt i' = (True, i3)" "at i3 (es ! unat limit)" using gives_Cons [of i'] by auto
    with 3 l show ?thesis by (simp add: doScanGeneric_def)
  qed
qed

text \<open>
  A page of size 0 is empty, but the iterator has moved twice: the cursor of the reply stands for the second element and the
  first one is not seen any more.
\<close>

lemma scan_zero_skips:
  assumes "gives i (e # e' # es)"
  shows "\<exists>i'. doScanGeneric nxt key out i pattern 0 resp = Inr (False, resp, i') \<and> at i' e'"
proof -
  obtain i' where i': "nxt i = (True, i')" "gives i' (e' # es)" using gives_Cons [OF assms] by blast
  obtain i'' where "nxt i' = (True, i'')" "at i'' e'" using gives_Cons [OF i'(2)] by blast
  with i'(1) show ?thesis by (simp add: doScanGeneric_def scan_loop.simps [of nxt])
qed

end

section \<open>The cursor table\<close>

definition table_ok :: "RedisCursorTable \<Rightarrow> bool" where
  "table_ok t \<longleftrightarrow> sorted_wrt (<) (map fst t) \<and> (\<forall>(k, c) \<in> set t. cursor c = k)"

definition top_cursor :: "RedisCursorTable \<Rightarrow> nat" where
  "top_cursor t = (if t = [] then 0 else unat (fst (last t)))"

lemma table_insert_above: "\<forall>k' \<in> fst ` set t. k' < k \<Longrightarrow> table_insert k c t = t @ [(k, c)]"
  by (induction t) auto

lemma dval_dec_digits: "dval 0 (dec_digits n) = n"
  using dec_digits_canonical [of n] by auto

lemma str_to_uint64_str: "str_to_uint64 (str_uint64 n) = (n, False)"
proof -
  obtain c cs where d: "dec_digits (unat n) = c # cs" "digit c" "\<forall>c \<in> set cs. digit c"
    using dec_digits_canonical [of "unat n"] by auto
  have "takeWhile is_space (c # cs) = []" "c \<noteq> 45" "c \<noteq> 43" using d(2) by (auto simp: digit_def is_space_def word_le_nat_alt)
  moreover have ds: "takeWhile digit (c # cs) = c # cs" using d(2,3) by (simp add: takeWhile_eq_all_conv)
  moreover have "dval 0 (c # cs) = unat n" using dval_dec_digits [of "unat n"] d(1) by simp
  moreover have "unat n < 2 ^ 64" using unsigned_less [of n] by simp
  ultimately show ?thesis using d(1,2)
    by (simp add: ds str_to_uint64_def strtoull_def str_uint64_def Let_def del: takeWhile.simps dval_simps)
qed

lemma new_cursor:
  assumes "table_ok t" "Suc (top_cursor t) < 2 ^ 64" "GetNewRedisCursor now x t = (k, t')"
  shows "table_ok t' \<and> top_cursor t' = Suc (top_cursor t) \<and> str_uint64 k \<noteq> [48] \<and>
    FindElementByRedisCursor (str_uint64 k) t' = Some x"
proof -
  let ?c = "\<lparr>element = x, ts = now, cursor = k\<rparr>"
  have k: "unat k = Suc (top_cursor t)" and t': "t' = table_insert k ?c t"
  proof -
    have "k = word_of_nat (Suc (top_cursor t))"
    proof (cases "t = []")
      case False
      then have "cursor (snd (last t)) = fst (last t)"
        using assms(1) last_in_set [OF False] by (auto simp: table_ok_def split_def)
      with False assms(3) show ?thesis by (simp add: GetNewRedisCursor_def Let_def top_cursor_def add.commute)
    qed (use assms(3) in \<open>simp add: GetNewRedisCursor_def top_cursor_def\<close>)
    then show "unat k = Suc (top_cursor t)" using assms(2) by (simp del: of_nat_Suc add: unat_of_nat)
    show "t' = table_insert k ?c t" using assms(3) by (auto simp: GetNewRedisCursor_def Let_def)
  qed
  have above: "\<forall>k' \<in> fst ` set t. k' < k"
  proof
    fix k' assume "k' \<in> fst ` set t"
    then have "t \<noteq> []" "k' \<in> set (map fst t)" by auto
    then have "k' \<le> fst (last t)"
      using assms(1) sorted_wrt_append [of "(<)" "butlast (map fst t)" "[last (map fst t)]"]
      by (cases t rule: rev_cases) (auto simp: table_ok_def sorted_wrt_append less_imp_le)
    then show "k' < k" using k \<open>t \<noteq> []\<close> by (simp add: top_cursor_def word_less_nat_alt word_le_nat_alt)
  qed
  have t'': "t' = t @ [(k, ?c)]" unfolding t' by (rule table_insert_above [OF above])
  have "map_of t k = None" using above by (force simp: map_of_eq_None_iff)
  then have "map_of t' k = Some ?c" by (simp add: t'' map_add_def)
  moreover have "str_uint64 k \<noteq> [48]"
    using k dval_dec_digits [of "unat k"] by (auto simp: str_uint64_def)
  moreover have "table_ok t'" using assms(1) above by (auto simp: t'' table_ok_def sorted_wrt_append)
  ultimately show ?thesis using k str_to_uint64_str [of k] by (simp add: FindElementByRedisCursor_def t'' top_cursor_def)
qed

section \<open>All pages\<close>

text \<open>A client that follows the cursors until it gets 0, at most \<open>n\<close> times, and collects the pages.\<close>

fun follow ::
  "(bytes \<Rightarrow> RedisCursorTable \<Rightarrow> rdb_abort + int \<times> bytes list \<times> RedisCursorTable) \<Rightarrow> nat \<Rightarrow> bytes \<Rightarrow> RedisCursorTable \<Rightarrow>
     bytes list option" where
  "follow call 0 c t = None"
| "follow call (Suc n) c t =
     (case call c t of
        Inr (ret, c' # resp, t') \<Rightarrow>
          if ret \<noteq> 1 then None
          else if c' = [48] then Some resp else map_option ((@) resp) (follow call n c' t')
      | _ \<Rightarrow> None)"

text \<open>A cursor stands for a place in the elements: 0 for the first one, another one for the element it remembers.\<close>

definition stands_for :: "('e \<Rightarrow> bytes) \<Rightarrow> 'e list \<Rightarrow> bytes \<Rightarrow> RedisCursorTable \<Rightarrow> nat \<Rightarrow> bool" where
  "stands_for place es c t n \<longleftrightarrow> c = [48] \<and> n = 0 \<or>
     c \<noteq> [48] \<and> n < length es \<and> FindElementByRedisCursor c t = Some (place (es ! n))"

definition page_reply ::
  "int \<Rightarrow> ('e \<Rightarrow> bytes) \<Rightarrow> ('e \<Rightarrow> bytes list) \<Rightarrow> ('e \<Rightarrow> bool) \<Rightarrow> nat \<Rightarrow> 'e list \<Rightarrow> nat \<Rightarrow> RedisCursorTable \<Rightarrow>
     rdb_abort + int \<times> bytes list \<times> RedisCursorTable" where
  "page_reply now place e_out M limit es n t =
     (let page = concat (map e_out (filter M (take limit (drop n es)))) in
      if length es - n \<le> limit then Inr (1, [48] # page, t)
      else (case GetNewRedisCursor now (place (es ! (n + limit))) t of (k, t') \<Rightarrow> Inr (1, str_uint64 k # page, t')))"

lemma follow_all:
  assumes page: "\<forall>c t n. stands_for place es c t n \<longrightarrow> call c t = page_reply now place e_out M limit es n t"
    and "limit > 0" "stands_for place es c t n" "table_ok t" "top_cursor t + (length es - n) < 2 ^ 64" "length es - n < fuel"
  shows "follow call fuel c t = Some (concat (map e_out (filter M (drop n es))))"
  using assms(3-)
proof (induction fuel arbitrary: c t n)
  case (Suc fuel)
  let ?page = "concat (map e_out (filter M (take limit (drop n es))))"
  show ?case
  proof (cases "length es - n \<le> limit")
    case True
    then show ?thesis using page Suc.prems(1) by (simp add: page_reply_def)
  next
    case False
    obtain k t' where g: "GetNewRedisCursor now (place (es ! (n + limit))) t = (k, t')" by force
    have t': "table_ok t'" "top_cursor t' = Suc (top_cursor t)" "str_uint64 k \<noteq> [48]"
      "FindElementByRedisCursor (str_uint64 k) t' = Some (place (es ! (n + limit)))"
      using new_cursor [OF Suc.prems(2) _ g] Suc.prems(3) False by auto
    have "stands_for place es (str_uint64 k) t' (n + limit)" using t'(3,4) False by (simp add: stands_for_def)
    from Suc.IH [OF this t'(1)] have "follow call fuel (str_uint64 k) t' = Some (concat (map e_out (filter M (drop (n + limit) es))))"
      using t'(2) Suc.prems(3,4) False \<open>limit > 0\<close> by simp
    moreover have "concat (map e_out (filter M (drop n es))) = ?page @ concat (map e_out (filter M (drop (n + limit) es)))"
      using append_take_drop_id [of limit "drop n es"] by (metis concat_append filter_append map_append drop_drop add.commute)
    ultimately show ?thesis using page Suc.prems(1) False g t'(3) by (simp add: page_reply_def)
  qed
qed simp

text \<open>An iterator started at the place of an element continues with this element.\<close>

lemma entries_resume:
  fixes L :: "(bytes \<times> bytes) list"
  assumes "finite (dom m)" "L = filter (\<lambda>e. p \<le> fst e) (sorted_entries m)" "n < length L"
  shows "filter (\<lambda>e. fst (L ! n) \<le> fst e) (sorted_entries m) = drop n L"
proof -
  have sorted: "sorted_wrt (\<lambda>a b. fst a < fst b) L"
    using assms(2) by (simp add: sorted_entries_def sorted_wrt_filter sorted_wrt_map)
  have "L ! n \<in> set L" using assms(3) by simp
  then have "p \<le> fst (L ! n)" unfolding assms(2) set_filter by blast
  then have "filter (\<lambda>e. fst (L ! n) \<le> fst e) (sorted_entries m) = filter (\<lambda>e. fst (L ! n) \<le> fst e) L"
    unfolding assms(2) filter_filter by (intro filter_cong) auto
  also have "\<dots> = filter (\<lambda>e. fst (L ! n) \<le> fst e) (take n L) @ filter (\<lambda>e. fst (L ! n) \<le> fst e) (drop n L)"
    by (metis append_take_drop_id filter_append)
  also have "filter (\<lambda>e. fst (L ! n) \<le> fst e) (take n L) = []"
  proof (unfold filter_empty_conv, intro ballI)
    fix e assume "e \<in> set (take n L)"
    then obtain i where "i < n" "e = L ! i" by (auto simp: in_set_conv_nth)
    with sorted assms(3) show "\<not> fst (L ! n) \<le> fst e" by (simp add: sorted_wrt_iff_nth_less not_le)
  qed
  also have "filter (\<lambda>e. fst (L ! n) \<le> fst e) (drop n L) = drop n L"
  proof (unfold filter_id_conv, intro ballI)
    fix e assume "e \<in> set (drop n L)"
    then obtain i where "i < length L - n" "e = L ! (n + i)" by (auto simp: in_set_conv_nth)
    then have "n + i < length L" "e = L ! (n + i)" by simp_all
    with sorted show "fst (L ! n) \<le> fst e"
      by (cases i) (auto simp: sorted_wrt_iff_nth_less less_imp_le)
  qed
  finally show ?thesis by simp
qed

section \<open>The commands\<close>

definition hgives ::
  "('it \<Rightarrow> (bytes \<times> bytes) list) \<Rightarrow> bytes \<Rightarrow> u16 \<Rightarrow> 'it HIterator \<Rightarrow> (bytes \<times> bytes) list \<Rightarrow> bool" where
  "hgives fwd name v h l \<longleftrightarrow> long_enough name \<and> h_name h = name \<and> h_version h = v \<and> h_return_val h \<and>
     (\<exists>rest. yields FORWARD fwd (h_it h) (map (\<lambda>(f, x). (encode_key_internal ITEM name f v, x)) l @ rest) \<and>
        item_scan name v rest = [])"

definition hat :: "('db, 'it) rocksdb \<Rightarrow> bytes \<Rightarrow> u16 \<Rightarrow> 'it HIterator \<Rightarrow> bytes \<times> bytes \<Rightarrow> bool" where
  "hat R name v h e \<longleftrightarrow> h_key h = fst e \<and> h_val h = snd e \<and>
     Iterator_key R (h_it h) = encode_key_internal ITEM name (fst e) v"

definition sgives ::
  "('it \<Rightarrow> (bytes \<times> bytes) list) \<Rightarrow> bytes \<Rightarrow> u16 \<Rightarrow> 'it SIterator \<Rightarrow> (bytes \<times> bytes) list \<Rightarrow> bool" where
  "sgives fwd name v h l \<longleftrightarrow> long_enough name \<and> s_name h = name \<and> s_version h = v \<and>
     (\<exists>rest. yields FORWARD fwd (s_it h) (map (\<lambda>(f, x). (encode_key_internal ITEM name f v, x)) l @ rest) \<and>
        item_scan name v rest = [])"

definition sat :: "('db, 'it) rocksdb \<Rightarrow> bytes \<Rightarrow> u16 \<Rightarrow> 'it SIterator \<Rightarrow> bytes \<times> bytes \<Rightarrow> bool" where
  "sat R name v h e \<longleftrightarrow> s_key h = fst e \<and> Iterator_key R (s_it h) = encode_key_internal ITEM name (fst e) v"

text \<open>The iterator over all keys stops at the first entry that is not a meta value.\<close>

definition mgives :: "('it \<Rightarrow> (bytes \<times> bytes) list) \<Rightarrow> 'it MIterator \<Rightarrow> (bytes \<times> bytes) list \<Rightarrow> bool" where
  "mgives fwd h l \<longleftrightarrow>
     (\<exists>rest. yields FORWARD fwd (m_it h) (map (\<lambda>(k, x). (encode_meta_key k, x)) l @ rest) \<and>
        (\<forall>e \<in> set rest. fst e ! 0 \<noteq> META))"

definition mat :: "('db, 'it) rocksdb \<Rightarrow> 'it MIterator \<Rightarrow> bytes \<times> bytes \<Rightarrow> bool" where
  "mat R h e \<longleftrightarrow> m_key h = fst e \<and> Iterator_key R (m_it h) = encode_meta_key (fst e)"

sublocale rocksdb_iter \<subseteq> hs: scan_source "HIterator_next R" h_key "\<lambda>h. [h_key h, h_val h]"
    "hgives fwd name v" "hat R name v" fst "\<lambda>(f, x). [f, x]" for name v
proof (unfold_locales, goal_cases)
  case (1 i)
  then show ?case using fw.HIterator_next_scan [of i] by (fastforce simp: hgives_def)
next
  case (2 i e es)
  obtain f x where e: "e = (f, x)" by force
  from 2 obtain rest where y: "yields FORWARD fwd (h_it i) ((encode_key_internal ITEM name f v, x) #
      map (\<lambda>(f, x). (encode_key_internal ITEM name f v, x)) es @ rest)" "item_scan name v rest = []"
    "long_enough name" "h_name i = name" "h_version i = v" "h_return_val i" by (auto simp: hgives_def e)
  from fw.next_yields_Cons [OF y(1)] obtain i' where "Iterator_next R (h_it i) = (True, i')"
    "yields FORWARD fwd i' (map (\<lambda>(f, x). (encode_key_internal ITEM name f v, x)) es @ rest)"
    "Iterator_key R i' = encode_key_internal ITEM name f v" "Iterator_val R i' = x" by auto
  with y(2-) show ?case by (subst HIterator_next.simps) (auto simp: hgives_def hat_def e Let_def)
qed (auto simp: hat_def)

sublocale rocksdb_iter \<subseteq> ss: scan_source "SIterator_next R" s_key "\<lambda>h. [s_key h]"
    "sgives fwd name v" "sat R name v" fst "\<lambda>(f, x). [f]" for name v
proof (unfold_locales, goal_cases)
  case (1 i)
  then show ?case using fw.SIterator_next_scan [of i] by (fastforce simp: sgives_def)
next
  case (2 i e es)
  obtain f x where e: "e = (f, x)" by force
  from 2 obtain rest where y: "yields FORWARD fwd (s_it i) ((encode_key_internal ITEM name f v, x) #
      map (\<lambda>(f, x). (encode_key_internal ITEM name f v, x)) es @ rest)" "item_scan name v rest = []"
    "long_enough name" "s_name i = name" "s_version i = v" by (auto simp: sgives_def e)
  from fw.next_yields_Cons [OF y(1)] obtain i' where "Iterator_next R (s_it i) = (True, i')"
    "yields FORWARD fwd i' (map (\<lambda>(f, x). (encode_key_internal ITEM name f v, x)) es @ rest)"
    "Iterator_key R i' = encode_key_internal ITEM name f v" by auto
  with y(2-) show ?case by (subst SIterator_next.simps) (auto simp: sgives_def sat_def e Let_def)
qed (auto simp: sat_def)

sublocale rocksdb_iter \<subseteq> ms: scan_source "MIterator_next R" m_key "\<lambda>h. [m_key h]"
    "mgives fwd" "mat R" fst "\<lambda>(k, x). [k]"
proof (unfold_locales, goal_cases)
  case (1 i)
  then obtain rest where y: "yields FORWARD fwd (m_it i) rest" "\<forall>e \<in> set rest. fst e ! 0 \<noteq> META" by (auto simp: mgives_def)
  show ?case
  proof (cases rest)
    case Nil
    then show ?thesis using fw.next_yields_Nil [of "m_it i"] y(1) by (auto simp: MIterator_next.simps [of R i])
  next
    case (Cons e es)
    from fw.next_yields_Cons [of "m_it i" e es] y(1) Cons obtain i' where "Iterator_next R (m_it i) = (True, i')"
      "Iterator_key R i' = fst e" by auto
    with y(2) Cons show ?thesis by (auto simp: MIterator_next.simps [of R i] Let_def)
  qed
next
  case (2 i e es)
  obtain f x where e: "e = (f, x)" by force
  from 2 obtain rest where y: "yields FORWARD fwd (m_it i) ((encode_meta_key f, x) #
      map (\<lambda>(k, x). (encode_meta_key k, x)) es @ rest)" "\<forall>e \<in> set rest. fst e ! 0 \<noteq> META" by (auto simp: mgives_def e)
  from fw.next_yields_Cons [OF y(1)] obtain i' where i': "Iterator_next R (m_it i) = (True, i')"
    "yields FORWARD fwd i' (map (\<lambda>(k, x). (encode_meta_key k, x)) es @ rest)"
    "Iterator_key R i' = encode_meta_key f" by auto
  have "encode_meta_key f ! 0 = META" by (simp add: encode_meta_key_def)
  with i' y(2) show ?case by (subst MIterator_next.simps) (auto simp: mgives_def mat_def e Let_def)
qed (auto simp: mat_def)


lemma prefix_entries_resume:
  fixes m :: contents and p :: bytes
  defines "es \<equiv> sorted_entries (\<lambda>f. m (p @ f))"
  assumes "finite (dom m)" "start = p \<and> n = 0 \<or> n < length es \<and> start = p @ fst (es ! n)"
  shows "\<exists>rest. filter (\<lambda>e. start \<le> fst e) (sorted_entries m) = map (\<lambda>(f, x). (p @ f, x)) (drop n es) @ rest \<and>
    (\<forall>e \<in> set rest. \<not> prefix p (fst e) \<and> p \<le> fst e)"
proof -
  obtain rest where rest: "filter (\<lambda>e. p \<le> fst e) (sorted_entries m) =
      map (\<lambda>f. (p @ f, the (m (p @ f)))) (sorted_list_of_set {f. p @ f \<in> dom m}) @ rest"
    "\<forall>e \<in> set rest. \<not> prefix p (fst e) \<and> p \<le> fst e"
    using prefix_entries [OF assms(2), of p] by blast
  define L where "L = filter (\<lambda>e. p \<le> fst e) (sorted_entries m)"
  have "{f. p @ f \<in> dom m} = dom (\<lambda>f. m (p @ f))" by auto
  then have L: "L = map (\<lambda>(f, x). (p @ f, x)) es @ rest"
    unfolding L_def rest(1) by (simp add: es_def sorted_entries_def split_def comp_def)
  show ?thesis
  proof (cases "start = p \<and> n = 0")
    case True
    then show ?thesis using L rest(2) by (auto simp: L_def)
  next
    case False
    with assms(3) have n: "n < length es" "start = p @ fst (es ! n)" by auto
    then have "fst (L ! n) = start" "n < length L" by (simp_all add: L nth_append split_def)
    with entries_resume [OF assms(2) L_def, of n] have "filter (\<lambda>e. start \<le> fst e) (sorted_entries m) = drop n L" by simp
    also have "\<dots> = map (\<lambda>(f, x). (p @ f, x)) (drop n es) @ rest" using n(1) by (simp add: L drop_map)
    finally show ?thesis using rest(2) by blast
  qed
qed

lemma item_entries_resume:
  assumes "finite (dom m)" "item_map name v m = h"
    and "start = encode_key_internal ITEM name [] v \<and> n = 0 \<or>
      n < length (sorted_entries h) \<and> start = encode_key_internal ITEM name (fst (sorted_entries h ! n)) v"
  shows "\<exists>rest. filter (\<lambda>e. start \<le> fst e) (sorted_entries m) =
      map (\<lambda>(f, x). (encode_key_internal ITEM name f v, x)) (drop n (sorted_entries h)) @ rest \<and>
    item_scan name v rest = []"
proof -
  let ?p = "encode_key_internal ITEM name [] v"
  have p: "?p @ f = encode_key_internal ITEM name f v" for f by (rule encode_key_internal_prefix [symmetric])
  have h: "(\<lambda>f. m (encode_key_internal ITEM name f v)) = h" using assms(2) by (simp add: item_map_def)
  obtain rest where rest: "filter (\<lambda>e. start \<le> fst e) (sorted_entries m) =
      map (\<lambda>(f, x). (?p @ f, x)) (drop n (sorted_entries h)) @ rest" "\<forall>e \<in> set rest. \<not> prefix ?p (fst e) \<and> ?p \<le> fst e"
    using prefix_entries_resume [OF assms(1), of start ?p n] assms(3) unfolding p h by blast
  have "item_scan name v rest = []" by (rule item_scan_foreign) (use rest(2) in auto)
  with rest(1) show ?thesis unfolding p by blast
qed

text \<open>The place a command starts from when its cursor stands for an element.\<close>

lemma scan_start_stands:
  "stands_for place es c t n \<Longrightarrow>
     scan_start first c t = first \<and> n = 0 \<or> n < length es \<and> scan_start first c t = place (es ! n)"
  by (auto simp: stands_for_def scan_start_def)

lemma scan_reply_page:
  assumes "unat limit < length (drop n es) \<longrightarrow> Iterator_key R (it i) = place (drop n es ! unat limit)"
  shows "scan_reply R now it t
      (Inr (length (drop n es) \<le> unat limit, [48] # concat (map e_out (filter M (take (unat limit) (drop n es)))), i)) =
    page_reply now place e_out M (unat limit) es n t"
  using assms by (auto simp: scan_reply_def page_reply_def Let_def split: prod.splits)

context rocksdb_iter
begin

lemma hscan_page:
  assumes "hash_rep (view (ldb s)) name h" "long_enough name" "card (dom (view (ldb s))) < 2 ^ 64" "h \<noteq> Map.empty"
    and "limit \<noteq> 0" "\<forall>f \<in> dom h. scan_match pattern f = Inr (M f)"
  shows "\<exists>v. \<forall>c t n. stands_for (\<lambda>e. encode_key_internal ITEM name (fst e) v) (sorted_entries h) c t n \<longrightarrow>
    hscan R now s name c pattern limit t =
      page_reply now (\<lambda>e. encode_key_internal ITEM name (fst e) v) (\<lambda>(f, x). [f, x]) (M \<circ> fst) (unat limit) (sorted_entries h) n t"
  using assms(1)
proof (rule hash_rep_cases)
  fix v hv
  assume A: "coll_meta h v hv" "item_map name v (view (ldb s)) = h" "coll_at HSIZE (view (ldb s)) name v h"
    "GetHashMetaVal R s (encode_meta_key name) = (1, hv)"
  let ?es = "sorted_entries h" and ?place = "\<lambda>e :: bytes \<times> bytes. encode_key_internal ITEM name (fst e) v"
  have "hscan R now s name c pattern limit t =
      page_reply now ?place (\<lambda>(f, x). [f, x]) (M \<circ> fst) (unat limit) ?es n t" if st: "stands_for ?place ?es c t n" for c t n
  proof -
    let ?start = "scan_start (encode_key_internal ITEM name [] v) c t"
    let ?it = "HIterator_init (SSDB_iterator R (ldb s) ?start [] (-1)) name v"
    obtain rest where "filter (\<lambda>e. ?start \<le> fst e) (sorted_entries (view (ldb s))) =
        map (\<lambda>(f, x). (encode_key_internal ITEM name f v, x)) (drop n ?es) @ rest" "item_scan name v rest = []"
      using item_entries_resume [OF finite_view A(2), of ?start n] scan_start_stands [OF st] by auto
    then have "hgives fwd name v ?it (drop n ?es)"
      using yields_iterator [OF assms(3), of ?start] assms(2) by (auto simp: hgives_def HIterator_init_def)
    moreover have "\<forall>e \<in> set (drop n ?es). scan_match pattern (fst e) = Inr ((M \<circ> fst) e)"
      using assms(6) A(3) by (auto dest!: in_set_dropD simp: set_sorted_entries coll_at_def)
    ultimately obtain i where i: "doScanGeneric (HIterator_next R) h_key (\<lambda>h. [h_key h, h_val h]) ?it pattern limit [[48]] =
        Inr (length (drop n ?es) \<le> unat limit,
          [[48]] @ concat (map (\<lambda>(f, x). [f, x]) (filter (M \<circ> fst) (take (unat limit) (drop n ?es)))), i)"
      "unat limit < length (drop n ?es) \<longrightarrow> hat R name v i (drop n ?es ! unat limit)"
      using hs.scan_page [OF _ assms(5), of name v ?it "drop n ?es" pattern "M \<circ> fst" "[[48]]"] by blast
    have "mv_version hv = v" using A(1) by (simp add: coll_meta_def)
    then have "hscan R now s name c pattern limit t =
        scan_reply R now h_it t (doScanGeneric (HIterator_next R) h_key (\<lambda>h. [h_key h, h_val h]) ?it pattern limit [[48]])"
      using A(4) by (simp add: hscan_def encode_hash_key_def Let_def)
    also have "\<dots> = page_reply now ?place (\<lambda>(f, x). [f, x]) (M \<circ> fst) (unat limit) ?es n t"
      using scan_reply_page [of limit n ?es R h_it i ?place now t "\<lambda>(f, x). [f, x]" "M \<circ> fst"] i(2) unfolding i(1)
      by (simp add: hat_def)
    finally show ?thesis .
  qed
  then show ?thesis by blast
qed (use assms(4) in simp)

lemma sscan_page:
  assumes "set_rep (view (ldb s)) name S" "long_enough name" "card (dom (view (ldb s))) < 2 ^ 64" "S \<noteq> {}"
    and "limit \<noteq> 0" "\<forall>f \<in> S. scan_match pattern f = Inr (M f)"
  shows "\<exists>v. \<forall>c t n. stands_for (\<lambda>e. encode_key_internal ITEM name (fst e) v) (sorted_entries (chi S)) c t n \<longrightarrow>
    sscan R now s name c pattern limit t =
      page_reply now (\<lambda>e. encode_key_internal ITEM name (fst e) v) (\<lambda>(f, x). [f]) (M \<circ> fst) (unat limit) (sorted_entries (chi S)) n t"
  using assms(1)
proof (rule set_rep_cases)
  fix v sv
  assume A: "coll_meta (chi S) v sv" "coll_cur SSIZE (view (ldb s)) name v (chi S)"
    "GetSetMetaVal R s (encode_meta_key name) = (1, sv)"
  let ?es = "sorted_entries (chi S)" and ?place = "\<lambda>e :: bytes \<times> bytes. encode_key_internal ITEM name (fst e) v"
  have "sscan R now s name c pattern limit t =
      page_reply now ?place (\<lambda>(f, x). [f]) (M \<circ> fst) (unat limit) ?es n t" if st: "stands_for ?place ?es c t n" for c t n
  proof -
    let ?start = "scan_start (encode_key_internal ITEM name [] v) c t"
    let ?it = "SIterator_init (SSDB_iterator R (ldb s) ?start [] (-1)) name v"
    obtain rest where "filter (\<lambda>e. ?start \<le> fst e) (sorted_entries (view (ldb s))) =
        map (\<lambda>(f, x). (encode_key_internal ITEM name f v, x)) (drop n ?es) @ rest" "item_scan name v rest = []"
      using item_entries_resume [OF finite_view coll_curD(3) [OF A(2)], of ?start n] scan_start_stands [OF st] by auto
    then have "sgives fwd name v ?it (drop n ?es)"
      using yields_iterator [OF assms(3), of ?start] assms(2) by (auto simp: sgives_def SIterator_init_def)
    moreover have "\<forall>e \<in> set (drop n ?es). scan_match pattern (fst e) = Inr ((M \<circ> fst) e)"
      using assms(6) coll_curD(1) [OF A(2)] by (auto dest!: in_set_dropD simp: set_sorted_entries chi_def split: if_splits)
    ultimately obtain i where i: "doScanGeneric (SIterator_next R) s_key (\<lambda>h. [s_key h]) ?it pattern limit [[48]] =
        Inr (length (drop n ?es) \<le> unat limit,
          [[48]] @ concat (map (\<lambda>(f, x). [f]) (filter (M \<circ> fst) (take (unat limit) (drop n ?es)))), i)"
      "unat limit < length (drop n ?es) \<longrightarrow> sat R name v i (drop n ?es ! unat limit)"
      using ss.scan_page [OF _ assms(5), of name v ?it "drop n ?es" pattern "M \<circ> fst" "[[48]]"] by blast
    have "mv_version sv = v" using A(1) by (simp add: coll_meta_def)
    then have "sscan R now s name c pattern limit t =
        scan_reply R now s_it t (doScanGeneric (SIterator_next R) s_key (\<lambda>h. [s_key h]) ?it pattern limit [[48]])"
      using A(3) by (simp add: sscan_def encode_set_key_def Let_def)
    also have "\<dots> = page_reply now ?place (\<lambda>(f, x). [f]) (M \<circ> fst) (unat limit) ?es n t"
      using scan_reply_page [of limit n ?es R s_it i ?place now t "\<lambda>(f, x). [f]" "M \<circ> fst"] i(2) unfolding i(1)
      by (simp add: sat_def)
    finally show ?thesis .
  qed
  then show ?thesis by blast
qed (use assms(4) in simp)

text \<open>SCAN walks over the meta entries of the whole store, whatever they say.\<close>

lemma scan_page_all:
  fixes s :: "'db ssdb"
  defines "es \<equiv> sorted_entries (\<lambda>k. view (ldb s) (encode_meta_key k))"
  assumes "card (dom (view (ldb s))) < 2 ^ 64" "limit \<noteq> 0" "\<forall>e \<in> set es. scan_match pattern (fst e) = Inr (M (fst e))"
    and st: "stands_for (\<lambda>e. encode_meta_key (fst e)) es c t n"
  shows "scan R now s c pattern limit t =
    page_reply now (\<lambda>e. encode_meta_key (fst e)) (\<lambda>(k, x). [k]) (M \<circ> fst) (unat limit) es n t"
proof -
  let ?start = "scan_start [META] c t"
  let ?it = "MIterator_init (SSDB_iterator R (ldb s) ?start [] (-1))"
  have p: "[META] @ k = encode_meta_key k" for k by (simp add: encode_meta_key_def)
  obtain rest where "filter (\<lambda>e. ?start \<le> fst e) (sorted_entries (view (ldb s))) =
      map (\<lambda>(f, x). (encode_meta_key f, x)) (drop n es) @ rest" and rest: "\<forall>e \<in> set rest. \<not> prefix [META] (fst e) \<and> [META] \<le> fst e"
    using prefix_entries_resume [OF finite_view, of ?start "[META]" n "ldb s"] scan_start_stands [OF st]
    unfolding p es_def by auto
  moreover have "fst e ! 0 \<noteq> META" if "e \<in> set rest" for e
    using rest that by (cases "fst e") (force simp: prefix_def)+
  ultimately have "mgives fwd ?it (drop n es)"
    using yields_iterator [OF assms(2), of ?start] by (auto simp: mgives_def MIterator_init_def)
  moreover have "\<forall>e \<in> set (drop n es). scan_match pattern (fst e) = Inr ((M \<circ> fst) e)"
    using assms(4) by (auto dest: in_set_dropD)
  ultimately obtain i where i: "doScanGeneric (MIterator_next R) m_key (\<lambda>m. [m_key m]) ?it pattern limit [[48]] =
      Inr (length (drop n es) \<le> unat limit,
        [[48]] @ concat (map (\<lambda>(k, x). [k]) (filter (M \<circ> fst) (take (unat limit) (drop n es)))), i)"
    "unat limit < length (drop n es) \<longrightarrow> mat R i (drop n es ! unat limit)"
    using ms.scan_page [OF _ assms(3), of ?it "drop n es" pattern "M \<circ> fst" "[[48]]"] by blast
  have "scan R now s c pattern limit t =
      scan_reply R now m_it t (doScanGeneric (MIterator_next R) m_key (\<lambda>m. [m_key m]) ?it pattern limit [[48]])"
    by (simp add: scan_def)
  also have "\<dots> = page_reply now (\<lambda>e. encode_meta_key (fst e)) (\<lambda>(k, x). [k]) (M \<circ> fst) (unat limit) es n t"
    using scan_reply_page [of limit n es R m_it i "\<lambda>e. encode_meta_key (fst e)" now t "\<lambda>(k, x). [k]" "M \<circ> fst"] i(2)
    unfolding i(1) by (simp add: mat_def)
  finally show ?thesis .
qed

end

lemma scan_match_glob: "91 \<notin> set pattern \<Longrightarrow> k \<noteq> [] \<Longrightarrow> scan_match pattern k = Inr (glob_match pattern k)"
  by (auto simp: scan_match_def stringmatch_glob glob_all)

lemma hash_example_card: "card (dom (map_of (ldb hash_example))) \<le> 3"
  using card_image_le [of "set (ldb hash_example)" fst] card_length [of "ldb hash_example"]
  by (simp add: dom_map_of_conv_image_fst hash_example_def)

text \<open>
  C16: HSCAN is complete: a client that starts with cursor 0 and follows the cursors it gets, on a hash that does not change in
  between, receives every field that matches the pattern with its value exactly once, in ascending order of the fields, whatever the
  size of the pages (at least 1), and gets to cursor 0 after at most as many calls as the hash has fields, plus one.
\<close>

theorem hscan_complete:
  assumes "rocksdb_iter R view fwd" "hash_rep (view (ldb s)) name h" "long_enough name" "card (dom (view (ldb s))) < 2 ^ 64"
    and "h \<noteq> Map.empty" "limit \<noteq> 0" "91 \<notin> set pattern" "h [] = None"
    and "table_ok t" "top_cursor t + card (dom h) < 2 ^ 64" "card (dom h) < calls"
  shows "follow (\<lambda>c t. hscan R now s name c pattern limit t) calls [48] t =
    Some (concat (map (\<lambda>(f, x). [f, x]) (filter (\<lambda>(f, x). glob_match pattern f) (sorted_entries h))))"
proof -
  have "\<forall>f \<in> dom h. scan_match pattern f = Inr (glob_match pattern f)"
    using assms(7,8) by (metis domIff scan_match_glob)
  from rocksdb_iter.hscan_page [OF assms(1-6) this, of now] obtain v where
    page: "\<forall>c t n. stands_for (\<lambda>e. encode_key_internal ITEM name (fst e) v) (sorted_entries h) c t n \<longrightarrow>
      hscan R now s name c pattern limit t = page_reply now (\<lambda>e. encode_key_internal ITEM name (fst e) v)
        (\<lambda>(f, x). [f, x]) (glob_match pattern \<circ> fst) (unat limit) (sorted_entries h) n t" by blast
  have "length (sorted_entries h) = card (dom h)" by (simp add: sorted_entries_def)
  then show ?thesis
    using follow_all [OF page, of "[48]" t 0 calls] assms(6,9-) by (simp add: unat_gt_0 stands_for_def split_def comp_def)
qed

theorem hscan_complete_witness:
  "follow (\<lambda>c t. hscan mem_rocksdb 0 hash_example [104] c [42] 1 t) 3 [48] [] = Some [[102], [55], [103], [120]]"
proof -
  have "sorted_list_of_set {[102], [103 :: byte]} = [[102], [103]]"
    by (simp add: sorted_list_of_set_insert insort_key.simps)
  then have e: "sorted_entries hash_example_map = [([102], [55]), ([103], [120])]"
    by (simp add: sorted_entries_def hash_example_map)
  moreover have "hash_example_map [] = None" by (simp add: hash_example_map_def)
  ultimately show ?thesis
    using hash_example_card hscan_complete [OF mem.rocksdb_iter_axioms hash_example_rep, of 1 "[42]" "[]" 3 0] hash_example_map
    by (simp add: table_ok_def top_cursor_def glob_all)
qed

theorem sscan_complete:
  assumes "rocksdb_iter R view fwd" "set_rep (view (ldb s)) name S" "long_enough name" "card (dom (view (ldb s))) < 2 ^ 64"
    and "S \<noteq> {}" "limit \<noteq> 0" "91 \<notin> set pattern" "[] \<notin> S"
    and "table_ok t" "top_cursor t + card S < 2 ^ 64" "card S < calls" "finite S"
  shows "follow (\<lambda>c t. sscan R now s name c pattern limit t) calls [48] t =
    Some (filter (glob_match pattern) (sorted_list_of_set S))"
proof -
  have "\<forall>f \<in> S. scan_match pattern f = Inr (glob_match pattern f)"
    using assms(7,8) by (metis scan_match_glob)
  from rocksdb_iter.sscan_page [OF assms(1-6) this, of now] obtain v where
    page: "\<forall>c t n. stands_for (\<lambda>e. encode_key_internal ITEM name (fst e) v) (sorted_entries (chi S)) c t n \<longrightarrow>
      sscan R now s name c pattern limit t = page_reply now (\<lambda>e. encode_key_internal ITEM name (fst e) v)
        (\<lambda>(f, x). [f]) (glob_match pattern \<circ> fst) (unat limit) (sorted_entries (chi S)) n t" by blast
  have es: "sorted_entries (chi S) = map (\<lambda>x. (x, the (chi S x))) (sorted_list_of_set S)" "length (sorted_entries (chi S)) = card S"
    by (simp_all add: sorted_entries_def chi_simps)
  have "concat (map (\<lambda>(f, x). [f]) (filter (glob_match pattern \<circ> fst) (sorted_entries (chi S)))) =
      filter (glob_match pattern) (sorted_list_of_set S)"
    unfolding es(1) by (induction "sorted_list_of_set S") (simp_all add: filter_map comp_def split_def)
  with follow_all [OF page, of "[48]" t 0 calls] assms(6,9-) es(2) show ?thesis by (simp add: unat_gt_0 stands_for_def)
qed

lemma scan_all:
  assumes "rocksdb_iter R view fwd" "card (dom (view (ldb s))) < 2 ^ 64"
    and "K = {k. encode_meta_key k \<in> dom (view (ldb s))}"
    and "limit \<noteq> 0" "91 \<notin> set pattern" "[] \<notin> K" "table_ok t" "top_cursor t + card K < 2 ^ 64" "card K < calls"
  shows "follow (\<lambda>c t. scan R now s c pattern limit t) calls [48] t =
    Some (filter (glob_match pattern) (sorted_list_of_set K))"
proof -
  let ?es = "sorted_entries (\<lambda>k. view (ldb s) (encode_meta_key k))"
  have K: "dom (\<lambda>k. view (ldb s) (encode_meta_key k)) = K" using assms(3) by auto
  have "finite (encode_meta_key ` K)"
    by (rule finite_subset [OF _ rocksdb_iter.finite_view [OF assms(1), of "ldb s"]]) (use assms(3) in auto)
  then have fin: "finite K" by (rule finite_imageD) (auto intro: inj_onI)
  have es: "?es = map (\<lambda>k. (k, the (view (ldb s) (encode_meta_key k)))) (sorted_list_of_set K)" "length ?es = card K"
    by (simp_all add: sorted_entries_def K)
  have m: "\<forall>e \<in> set ?es. scan_match pattern (fst e) = Inr (glob_match pattern (fst e))"
    using assms(5,6) fin by (auto simp: es(1)) (metis scan_match_glob)
  have "concat (map (\<lambda>(f, x). [f]) (filter (glob_match pattern \<circ> fst) ?es)) =
      filter (glob_match pattern) (sorted_list_of_set K)"
    unfolding es(1) by (induction "sorted_list_of_set K") (simp_all add: filter_map comp_def split_def)
  with follow_all [of "\<lambda>e. encode_meta_key (fst e)" ?es "\<lambda>c t. scan R now s c pattern limit t" now "\<lambda>(f, x). [f]"
      "glob_match pattern \<circ> fst" "unat limit" "[48]" t 0 calls] rocksdb_iter.scan_page_all [OF assms(1,2,4) m, of _ _ _ now] assms(4,7-) es(2)
  show ?thesis by (simp add: unat_gt_0 stands_for_def)
qed

text \<open>
  C17: SCAN is complete: following the cursors from 0 lists every key with a meta entry that matches the pattern exactly once. That
  includes the keys that are deleted and wait for the background thread to remove their items: the scan does not look at the mark.
\<close>

theorem scan_complete:
  assumes "rocksdb_iter R view fwd" "card (dom (view (ldb s))) < 2 ^ 64"
    and "K = {k. encode_meta_key k \<in> dom (view (ldb s))}"
    and "limit \<noteq> 0" "91 \<notin> set pattern" "[] \<notin> K" "table_ok t" "top_cursor t + card K < 2 ^ 64" "card K < calls"
  shows "follow (\<lambda>c t. scan R now s c pattern limit t) calls [48] t =
    Some (filter (glob_match pattern) (sorted_list_of_set K))"
  by (rule scan_all [OF assms])

theorem scan_complete_witness:
  "follow (\<lambda>c t. scan mem_rocksdb 0 hash_example c [104, 42] 5 t) 2 [48] [] = Some [[104]]"
proof -
  have K: "{k. encode_meta_key k \<in> dom (map_of (ldb hash_example))} = {[104]}"
    by (auto simp: dom_map_of_conv_image_fst hash_example_def encode_hash_key_def)
  then show ?thesis
    using hash_example_card scan_complete [OF mem.rocksdb_iter_axioms _ K [symmetric], of 5 "[104, 42]" "[]" 2 0]
    by (simp add: table_ok_def top_cursor_def glob_match.simps)
qed

text \<open>A key that is marked as deleted is absent for HLEN and in the list of SCAN.\<close>

definition deleted_example :: "(bytes \<times> bytes) list ssdb" where
  "deleted_example = empty_store\<lparr>ldb := [(encode_meta_key [107], encode_hash_meta_val 1 0 KEY_DELETE_MASK)]\<rparr>"

lemma scan_lists_deleted:
  "fst (hsize mem_rocksdb deleted_example [107] 0) = 0"
  "follow (\<lambda>c t. scan mem_rocksdb 0 deleted_example c [42] 10 t) 2 [48] [] = Some [[107]]"
proof -
  have "absent (map_of (ldb deleted_example)) [107] (next_version 0)"
    by (simp add: absent_def deleted_example_def encode_hash_meta_val_def encode_meta_val_internal_def)
  then have "hash_rep (map_of (ldb deleted_example)) [107] Map.empty" by (auto simp: coll_rep_def)
  from mem.hsize_rep [OF this] show "fst (hsize mem_rocksdb deleted_example [107] 0) = 0" by simp
  have K: "{k. encode_meta_key k \<in> dom (map_of (ldb deleted_example))} = {[107]}"
    by (auto simp: deleted_example_def)
  have "card (dom (map_of (ldb deleted_example))) = 1" unfolding dom_map_of_conv_image_fst by (simp add: deleted_example_def)
  then show "follow (\<lambda>c t. scan mem_rocksdb 0 deleted_example c [42] 10 t) 2 [48] [] = Some [[107]]"
    using scan_all [OF mem.rocksdb_iter_axioms _ K [symmetric], of 10 "[42]" "[]" 2 0]
    by (simp add: table_ok_def top_cursor_def glob_all)
qed

end
