(* ===== verification/Lifecycle.thy ===== *)
theory Lifecycle
  imports THash Reclaim TScan
begin

text \<open>
  Commands, background deletion and \<^verbatim>\<open>FLUSHDB\<close> together. The hash commands keep the
  invariant of background deletion and need no assumption of fresh versions under it; a deleted
  key disappears entirely. \<^verbatim>\<open>flushdb\<close> empties the database and forgets the cursors, but keeps the queue of delete
  keys and the set of deadlines in memory, and the last properties show what that does to keys that
  are written after it.
\<close>

section \<open>Hash commands are client steps\<close>

lemma work_batch_simps [simp]:
  "work_batch key v []" "work_batch key v (b @ c) \<longleftrightarrow> work_batch key v b \<and> work_batch key v c"
  "work_batch key v (Put (encode_key_internal ITEM key f v) x # b) \<longleftrightarrow> work_batch key v b"
  "work_batch key v (Delete (encode_key_internal ITEM key f v) # b) \<longleftrightarrow> work_batch key v b"
  by (auto simp: work_batch_def)

lemma hdel_loop_batch:
  assumes "mv_version hv = v" "work_batch name v b" "\<forall>op \<in> set b. \<exists>k. op = Delete k"
    "hdel_loop R s hv name flds n b = (err, n', b')"
  shows "work_batch name v b' \<and> (\<forall>op \<in> set b'. \<exists>k. op = Delete k)"
  using assms(2-4)
proof (induction flds arbitrary: n b)
  case (Cons f flds)
  obtain ret x where g: "GetHashItemValInternal R s (encode_hash_key name f v) = (ret, x)" by force
  have "work_batch name v (b @ [Delete (encode_hash_key name f v)])"
    "\<forall>op \<in> set (b @ [Delete (encode_hash_key name f v)]). \<exists>k. op = Delete k"
    using Cons.prems(1,2) by (auto simp: encode_hash_key_def)
  note IH = Cons.IH [of "b @ [Delete (encode_hash_key name f v)]", OF this] Cons.IH [OF Cons.prems(1,2)]
  consider "ret < 0" | "ret = 1" | "\<not> ret < 0" "ret \<noteq> 1" by linarith
  then show ?case
  proof cases
    case 1
    then show ?thesis using Cons.prems assms(1) g by (simp add: Let_def)
  next
    case 2
    then show ?thesis using IH(1) Cons.prems(3) assms(1) g by (simp add: Let_def)
  next
    case 3
    then show ?thesis using IH(2) Cons.prems(3) assms(1) g by (simp add: Let_def)
  qed
qed auto

context rocksdb_healthy
begin

lemma hset_client_step:
  assumes rep: "hash_rep (view (ldb s)) name h" "h = Map.empty \<longrightarrow> fresh (view (ldb s)) name"
    and len: "Suc (card (dom h)) < 2 ^ 63" and long: "long_enough name"
    and res: "hset R s name f x a = (r, c, s')"
  shows "\<exists>v. client_step name v (view (ldb s)) (view (ldb s')) \<and> tasks s' = tasks s"
proof -
  obtain v where cur: "coll_cur HSIZE (view (ldb s)) name v h"
    using coll_rep_cur [OF rep] by blast
  note hD = coll_curD [OF cur]
  from hc.get_cur [OF cur] obtain hv where
    hv: "GetHashMetaVal R s (encode_meta_key name) = (if h = Map.empty then 0 else 1, hv)"
      "coll_meta h v hv" by blast
  then have ver: "mv_version hv = v" by (simp add: coll_meta_def)
  let ?n = "if f \<in> dom h then 0 else 1 :: int"
  from hset_one_item [OF ver, of name "[]" s f True x] hD(3) obtain b where
    b: "hset_one R s [] hv True name f x = (?n, b)"
      "item_map name v (apply_batch b (view (ldb s))) = h(f \<mapsto> x)" by auto
  have wb: "work_batch name v b"
    using b(1) ver by (auto simp: hset_one_def Let_def encode_hash_key_def split: if_splits prod.splits)
  have n: "?n = int (card (dom (h(f \<mapsto> x)))) - int (card (dom h))"
    using hD(1) by (auto simp: card_insert_if)
  have fin: "finite (dom (h(f \<mapsto> x)))" "card (dom (h(f \<mapsto> x))) < 2 ^ 63"
    using hD(1) len by (auto simp: card_insert_if)
  obtain r0 s0 where "commit_incr R (incr_hsize R s name b (encode_meta_key name) hv ?n) = (r0, s0)" by force
  with res b(1) hv(1) have "commit_incr R (incr_hsize R s name b (encode_meta_key name) hv ?n) = (r, s')"
    by (cases "h = Map.empty") (simp_all add: hset_def hsetCommon_def)
  from hc.commit_incr_client_step [OF long cur hv(2) wb b(2) fin n _ this] show ?thesis by auto
qed

lemma hdel_client_step:
  assumes rep: "hash_rep (view (ldb s)) name h" and flds: "distinct flds" and ne: "h \<noteq> Map.empty"
    and long: "long_enough name" and res: "hdel R s name flds 0 = (r, c, s')"
  shows "\<exists>v. client_step name v (view (ldb s)) (view (ldb s')) \<and> tasks s' = tasks s"
proof -
  from rep ne obtain v where at: "coll_at HSIZE (view (ldb s)) name v h"
    using coll_rep_nonempty by blast
  then have cur: "coll_cur HSIZE (view (ldb s)) name v h" by (simp add: coll_cur_def)
  note hD = coll_curD [OF cur]
  from hc.get_at [OF at] obtain hv where
    hv: "GetHashMetaVal R s (encode_meta_key name) = (1, hv)" "coll_meta h v hv" by blast
  then have ver: "mv_version hv = v" by (simp add: coll_meta_def)
  have h0: "item_map name v (apply_batch [] (view (ldb s))) = h" using hD(3) by simp
  let ?h = "h |` (- (set flds \<inter> dom h))"
  from hdel_loop_items [OF ver hD(3) flds _ h0, of 0] obtain b where
    b: "hdel_loop R s hv name flds 0 [] = (0, int (card (set flds \<inter> dom h)), b)"
      "item_map name v (apply_batch b (view (ldb s))) = ?h" by auto
  from hdel_loop_batch [OF ver _ _ b(1)] have wb: "work_batch name v b" "\<forall>op \<in> set b. \<exists>k. op = Delete k"
    by simp_all
  have dom: "dom ?h = dom h - (set flds \<inter> dom h)" by auto
  have "card (dom h - (set flds \<inter> dom h)) = card (dom h) - card (set flds \<inter> dom h)"
    using hD(1) by (intro card_Diff_subset) auto
  moreover have "card (set flds \<inter> dom h) \<le> card (dom h)" using hD(1) by (intro card_mono) auto
  ultimately have n: "- int (card (set flds \<inter> dom h)) = int (card (dom ?h)) - int (card (dom h))"
    by (simp only: dom)
  have fin: "finite (dom ?h)" "card (dom ?h) < 2 ^ 63" using hD(1,2) n by auto
  let ?c = "commit_incr R (incr_hsize R s name b (encode_meta_key name) hv (- int (card (set flds \<inter> dom h))))"
  obtain r0 s0 where "?c = (r0, s0)" by force
  with res b(1) hv(1) have "?c = (r, s')" by (simp add: hdel_def)
  from hc.commit_incr_client_step [OF long cur hv(2) wb(1) b(2) fin n _ this] wb(2) show ?thesis by blast
qed

end

section \<open>Under the invariant\<close>

lemma live_meta_is: "live m key \<longleftrightarrow> (\<exists>v. meta_is m key KEY_ENABLED_MASK v)"
proof
  assume "live m key"
  then obtain mv where "m (encode_meta_key key) = Some mv" "length mv \<ge> 4" "mv ! 3 = KEY_ENABLED_MASK"
    by (auto simp: live_def POS_DEL_def)
  then show "\<exists>v. meta_is m key KEY_ENABLED_MASK v" using meta_split [of mv] unfolding meta_is_def by metis
next
  assume "\<exists>v. meta_is m key KEY_ENABLED_MASK v"
  then show "live m key" by (auto simp: live_def meta_is_def POS_DEL_def str_pos_del)
qed

lemma gc_inv_fresh:
  assumes "gc_inv view (s, p)" "long_enough key" "\<not> meta_is (view (ldb s)) key KEY_DELETE_MASK UINT16_MAX"
  shows "fresh (view (ldb s)) key"
proof -
  have "reclaim_ok (view (ldb s)) key" using assms(1,2) by (simp add: gc_inv_def)
  from reclaim_fresh [OF this assms(3)] show ?thesis unfolding fresh_def no_items_def by blast
qed

context rocksdb_iter
begin

lemma del_inv:
  assumes "gc_inv view (s, p)" "long_enough key" "del R s key = (r, s')"
  shows "gc_inv view (s', p)"
proof -
  have mw: "meta_wf (view (ldb s)) key" using assms(1,2) by (simp add: gc_inv_def reclaim_ok_def)
  show ?thesis
  proof (cases "\<exists>v. meta_is (view (ldb s)) key KEY_ENABLED_MASK v")
    case True
    then obtain v where v: "meta_is (view (ldb s)) key KEY_ENABLED_MASK v" by blast
    then have "\<not> meta_is (view (ldb s)) key KEY_DELETE_MASK UINT16_MAX" using meta_is_unique by fastforce
    then show ?thesis using client_inv [OF assms(1)] del_client_step [OF assms(2) v assms(3)] by blast
  next
    case False
    then have "\<not> live (view (ldb s)) key" by (simp add: live_meta_is)
    from del_absent [OF this mw] assms show ?thesis by simp
  qed
qed

end

section \<open>Properties of the hash commands and deletion\<close>

text \<open>
  C11: Under the invariant of background deletion, at any point of the thread, \<open>hset\<close> and
  \<open>hdel\<close> do what they promise without any assumption on left-over items, and keep
  the invariant; the only exception is a key whose 16-bit version counter is exhausted.
\<close>

theorem hash_life:
  assumes "rocksdb_iter R view fwd" "gc_inv view (s, p)" "hash_rep (view (ldb s)) name h" "long_enough name"
    "Suc (card (dom h)) < 2 ^ 63" "\<not> meta_is (view (ldb s)) name KEY_DELETE_MASK UINT16_MAX" "distinct flds"
  shows "(\<exists>s'. hset R s name f x a = (1, if f \<in> dom h then 0 else 1, s') \<and>
      hash_rep (view (ldb s')) name (h(f \<mapsto> x)) \<and> gc_inv view (s', p)) \<and>
    (\<exists>r s'. hdel R s name flds 0 = (r, int (card (set flds \<inter> dom h)), s') \<and>
      hash_rep (view (ldb s')) name (h |` (- set flds)) \<and> gc_inv view (s', p))"
proof -
  have H: "rocksdb_healthy R view" using assms(1) by (simp add: rocksdb_iter_def)
  have fr: "fresh (view (ldb s)) name" by (rule gc_inv_fresh [of view, OF assms(2,4,6)])
  from rocksdb_healthy.hset_rep [OF H assms(3) _ assms(5), of False f x a] fr obtain s1 where
    s1: "hset R s name f x a = (1, if f \<in> dom h then 0 else 1, s1)" "hash_rep (view (ldb s1)) name (h(f \<mapsto> x))"
    by (auto simp: hset_def)
  have i1: "gc_inv view (s1, p)"
    using rocksdb_healthy.hset_client_step [OF H assms(3) _ assms(5,4) s1(1)] fr
      rocksdb_iter.client_inv [OF assms(1,2) _ _ assms(6)] by blast
  obtain r c s2 where d: "hdel R s name flds 0 = (r, c, s2)" by (metis prod_cases3)
  have "hdel R s name flds 0 = (r, int (card (set flds \<inter> dom h)), s2) \<and>
      hash_rep (view (ldb s2)) name (h |` (- set flds)) \<and> gc_inv view (s2, p)"
  proof (cases "h = Map.empty")
    case True
    then show ?thesis using rocksdb_healthy.hdel_rep [OF H assms(3,7)] d assms(2,3) by simp
  next
    case False
    then show ?thesis
      using rocksdb_healthy.hdel_rep [OF H assms(3,7)] d rocksdb_iter.client_inv [OF assms(1,2) _ _ assms(6)]
        rocksdb_healthy.hdel_client_step [OF H assms(3,7) False assms(4) d] by auto
  qed
  with s1 i1 show ?thesis by blast
qed

theorem hash_life_witness:
  "\<exists>s'. hset mem_rocksdb run_deleted [107] [102] [121] 0 = (1, 1, s') \<and>
     hash_rep (map_of (ldb s')) [107] [[102] \<mapsto> [121]] \<and> gc_inv map_of (s', Idle)"
proof -
  have "hash_rep (map_of (ldb run_deleted)) [107] Map.empty"
    using run_deleted_facts(5) unfolding coll_rep_def absent_meta by blast
  moreover have "\<not> meta_is (map_of (ldb run_deleted)) [107] KEY_DELETE_MASK UINT16_MAX"
    using meta_is_unique [OF run_deleted_facts(5), of KEY_DELETE_MASK UINT16_MAX] by auto
  ultimately show ?thesis
    using hash_life [OF mem.rocksdb_iter_axioms run_deleted_inv, of "[107]" Map.empty "[]" "[102]" "[121]" 0]
    by simp
qed

text \<open>
  A deleted key disappears. After \<open>del\<close> and enough turns of the background thread nothing
  of the key is left: neither its meta value nor an item, a score entry or a delete key
  of any version.
\<close>

theorem deleted_key_reclaimed:
  assumes "rocksdb_iter R view fwd" "gc_inv view (s, Idle)" "long_enough key" "live (view (ldb s)) key"
    "del R s key = (r, s1)" "card (dom (view (ldb s1))) < 2 ^ 64"
    "(runBGTask_turn R ^^ card (delete_keys (view (ldb s1)))) s1 = s2"
    "x \<in> own_keys key" "\<not> expiry_key x"
  shows "r = 1 \<and> view (ldb s2) x = None"
proof -
  have H: "rocksdb_healthy R view" using assms(1) by (simp add: rocksdb_iter_def)
  from assms(4) obtain v where v: "meta_is (view (ldb s)) key KEY_ENABLED_MASK v" by (auto simp: live_meta_is)
  note d = rocksdb_healthy.del_client_step [OF H assms(3) v assms(5)]
  have inv: "gc_inv view (s1, Idle)" by (rule rocksdb_iter.del_inv [OF assms(1,2,3,5)])
  let ?n = "card (delete_keys (view (ldb s1)))" and ?m = "view (ldb s2)"
  have turns: "gc_inv view (s2, Idle)" "card (delete_keys ?m) = 0" "?m \<subseteq>\<^sub>m view (ldb s1)"
    using rocksdb_iter.runBGTask_turns [OF assms(1) inv assms(6), of ?n]
      rocksdb_iter.runBGTask_turns_sub [OF assms(1) inv assms(6), of ?n] unfolding assms(7) by simp_all
  have "finite (delete_keys ?m)" using rocksdb_iter.finite_view [OF assms(1)] by (simp add: delete_keys_def)
  then have none: "delete_keys ?m = {}" using turns(2) by simp
  have ok: "reclaim_ok ?m key" using turns(1) assms(3) by (simp add: gc_inv_def)
  from assms(4) obtain mv where mv: "view (ldb s) (encode_meta_key key) = Some mv" "length mv \<ge> 4"
    "mv ! POS_DEL = KEY_ENABLED_MASK" unfolding live_def by blast
  from rocksdb_healthy.del_live [OF H mv] assms(5) have
    dead: "view (ldb s1) (encode_meta_key key) = Some (mv[POS_DEL := KEY_DELETE_MASK])" by auto
  have meta: "?m (encode_meta_key key) = None"
  proof (rule ccontr)
    assume some: "?m (encode_meta_key key) \<noteq> None"
    then have "?m (encode_meta_key key) = Some (mv[POS_DEL := KEY_DELETE_MASK])"
      using turns(3) dead unfolding map_le_def by (metis domIff)
    moreover have "live ?m key" using no_delete_keys(1) [OF ok none] some by blast
    ultimately show False using mv(2) by (simp add: live_def POS_DEL_def)
  qed
  then have items: "?m (encode_key_internal t key f u) = None" if "t = ITEM \<or> t = ZSCORE" for t f u
    using no_delete_keys(2) [OF ok none that] unfolding meta_is_def by (metis option.distinct(1))
  have dels: "?m (encode_key_internal DELETE key f u) = None" for f u
  proof (rule ccontr)
    assume "?m (encode_key_internal DELETE key f u) \<noteq> None"
    then have "encode_key_internal DELETE key f u \<in> delete_keys ?m"
      by (auto simp: delete_keys_def encode_key_internal_def)
    with none show False by blast
  qed
  have "?m x = None"
    using assms(8,9) meta items dels unfolding own_keys_def by auto
  with d show ?thesis by blast
qed

theorem deleted_key_reclaimed_witness:
  "map_of (ldb ((runBGTask_turn mem_rocksdb ^^ 1) run_deleted)) (encode_hash_key [107] [102] 0) = None"
proof -
  have live: "live (map_of (ldb run_written)) [107]" using run_written_meta live_meta_is by blast
  obtain r where del: "del mem_rocksdb run_written [107] = (r, run_deleted)"
    unfolding run_deleted_def by (metis prod.collapse)
  have "encode_hash_key [107] [102] 0 \<in> own_keys [107]" "\<not> expiry_key (encode_hash_key [107] [102] 0)"
    by (simp_all add: encode_hash_key_def)
  then show ?thesis
    using deleted_key_reclaimed [OF mem.rocksdb_iter_axioms run_written_inv _ live del run_deleted_facts(3) refl,
        of "encode_hash_key [107] [102] 0"] by (simp add: run_deleted_facts(2))
qed

section \<open>FLUSHDB\<close>

text \<open>
  \<^verbatim>\<open>SSDBImpl::flushdb\<close>: after the two range deletions it deletes what an iterator still
  finds, 100000 keys per batch, until the iterator is exhausted or a write fails. The outer loop
  ends only if the iterator does. \<^verbatim>\<open>Flush\<close> moves data to files and keeps the contents.
\<close>

fun flush_fill :: "('db, 'it) rocksdb \<Rightarrow> nat \<Rightarrow> 'it \<Rightarrow> batch \<Rightarrow> bool \<times> 'it \<times> batch" where
  "flush_fill R 0 it writeBatch = (False, it, writeBatch)"
| "flush_fill R (Suc n) it writeBatch =
     (if \<not> it_Valid R it then (True, it, writeBatch)
      else flush_fill R n (it_Next R it) (writeBatch @ [Delete (it_key R it)]))"

partial_function (option) flush_loop :: "('db, 'it) rocksdb \<Rightarrow> 'it \<Rightarrow> 'db \<Rightarrow> (int \<times> 'db) option" where
  "flush_loop R it db =
     (case flush_fill R 100000 it [] of (stop, it, writeBatch) \<Rightarrow>
        case db_Write R db writeBatch of (ok, db) \<Rightarrow>
          if \<not> ok then Some (-1, db) else if stop then Some (1, db) else flush_loop R it db)"

definition flushdb ::
  "('db, 'it) rocksdb \<Rightarrow> nat \<Rightarrow> 'db ssdb \<Rightarrow> RedisCursorTable \<Rightarrow> (int \<times> 'db ssdb \<times> RedisCursorTable) option" where
  "flushdb R rocksdb_major s cursors =
     (let cursors = ClearAllCursor cursors;
          db = db_DeleteFilesInRange R (ldb s) [48] [126];
          db = (if rocksdb_major \<ge> 5 then db_DeleteRange R db [48] [126] else db);
          it = it_SeekToFirst R (db_NewIterator R db)
      in case flush_loop R it db of
           None \<Rightarrow> None
         | Some (ret, db) \<Rightarrow>
             (case CommitBatch R (s\<lparr>ldb := db\<rparr>) [] of (ok, s) \<Rightarrow> Some (if \<not> ok then -1 else ret, s, cursors)))"

declare flush_fill.simps [simp del]

context rocksdb_range
begin

lemma flush_fill_fwd:
  "\<exists>it'. flush_fill R n it b = (length (fwd it) < n, it', b @ map Delete (map fst (take n (fwd it)))) \<and>
     fwd it' = drop n (fwd it)"
proof (induction n arbitrary: it b)
  case 0
  then show ?case by (simp add: flush_fill.simps)
next
  case (Suc n)
  show ?case
  proof (cases "fwd it")
    case Nil
    then show ?thesis by (simp add: flush_fill.simps Valid_fwd)
  next
    case (Cons e es)
    then have "fwd (it_Next R it) = es" "it_Valid R it" "it_key R it = fst e"
      using Next_fwd [of it] Valid_fwd [of it] entry_fwd [of it] by (auto simp: prod_eq_iff)
    with Suc.IH [of "it_Next R it" "b @ [Delete (it_key R it)]"] Cons show ?thesis
      by (simp add: flush_fill.simps)
  qed
qed

lemma flush_loop_fwd:
  "\<exists>db'. flush_loop R it db = Some (1, db') \<and>
     view db' = (\<lambda>k. if k \<in> fst ` set (fwd it) then None else view db k)"
proof (induction "length (fwd it)" arbitrary: it db rule: less_induct)
  case less
  from flush_fill_fwd [of 100000 it "[]"] obtain it' where
    f: "flush_fill R 100000 it [] = (length (fwd it) < 100000, it', map Delete (map fst (take 100000 (fwd it))))"
    "fwd it' = drop 100000 (fwd it)" by auto
  let ?b = "map Delete (map fst (take 100000 (fwd it)))" and ?ks = "fst ` set (take 100000 (fwd it))"
  obtain db1 where w: "db_Write R db ?b = (True, db1)" using Write_no_error [of db ?b] by (metis prod.collapse)
  have v: "view db1 = (\<lambda>k. if k \<in> ?ks then None else view db k)"
    using Write_ok [OF w] apply_batch_deletes [of "map fst (take 100000 (fwd it))"] by (auto simp: fun_eq_iff)
  show ?case
  proof (cases "length (fwd it) < 100000")
    case True
    then have "flush_loop R it db = Some (1, db1)" using f(1) w by (simp add: flush_loop.simps [of R it db])
    with v True show ?thesis by simp
  next
    case False
    then have eq: "flush_loop R it db = flush_loop R it' db1" using f(1) w by (simp add: flush_loop.simps [of R it db])
    have "length (fwd it') < length (fwd it)" using False f(2) by simp
    from less [OF this, of db1] obtain db' where
      d: "flush_loop R it' db1 = Some (1, db')" "view db' = (\<lambda>k. if k \<in> fst ` set (fwd it') then None else view db1 k)" by blast
    have "set (fwd it) = set (take 100000 (fwd it)) \<union> set (fwd it')"
      unfolding f(2) by (metis append_take_drop_id set_append)
    then have "view db' = (\<lambda>k. if k \<in> fst ` set (fwd it) then None else view db k)"
      unfolding d(2) v by (auto simp: fun_eq_iff)
    with eq d(1) show ?thesis by simp
  qed
qed

lemma flushdb_view:
  "\<exists>db. flushdb R major s cs = Some (1, s\<lparr>ldb := db\<rparr>, []) \<and> view db = Map.empty"
proof -
  define db where "db = (let db = db_DeleteFilesInRange R (ldb s) [48] [126] in
    if major \<ge> 5 then db_DeleteRange R db [48] [126] else db)"
  let ?it = "it_SeekToFirst R (db_NewIterator R db)"
  from flush_loop_fwd [of ?it db] obtain db' where
    d: "flush_loop R ?it db = Some (1, db')" "view db' = (\<lambda>k. if k \<in> fst ` set (fwd ?it) then None else view db k)" by blast
  have "fst ` set (fwd ?it) = dom (view db)"
    unfolding SeekToFirst_fwd set_map [symmetric] map_fst_sorted_entries using finite_view by simp
  then have e: "view db' = Map.empty" unfolding d(2) by (auto simp: fun_eq_iff domIff)
  let ?s = "s\<lparr>ldb := snd (db_Write R db' [])\<rparr>"
  have "flushdb R major s cs = Some (1, ?s, [])"
    using d(1) CommitBatch_view [of "s\<lparr>ldb := db'\<rparr>" "[]"]
    by (simp add: flushdb_def ClearAllCursor_def Let_def db_def [unfolded Let_def])
  moreover have "view (snd (db_Write R db' [])) = Map.empty" by (simp add: Write_view e)
  ultimately show ?thesis by blast
qed

end

text \<open>The first hash after \<^verbatim>\<open>FLUSHDB\<close>.\<close>

definition first_hash :: "bytes \<Rightarrow> bytes \<Rightarrow> bytes \<Rightarrow> contents" where
  "first_hash key f x = [encode_hash_key key f 0 \<mapsto> x, encode_meta_key key \<mapsto> encode_hash_meta_val 1 0 KEY_ENABLED_MASK]"

lemma first_hash_rep: "hash_rep (first_hash key f x) key [f \<mapsto> x]"
proof -
  have "item_map key 0 (first_hash key f x) = [f \<mapsto> x]"
    by (auto simp: item_map_def first_hash_def encode_hash_key_def)
  then have "coll_at HSIZE (first_hash key f x) key 0 [f \<mapsto> x]"
    by (simp add: coll_at_def first_hash_def encode_hash_meta_val_def)
  then show ?thesis unfolding coll_rep_def by blast
qed

context rocksdb_healthy
begin

lemma hset_first:
  assumes "view (ldb s) = Map.empty"
  obtains db where "hset R s key f x 0 = (1, 1, s\<lparr>ldb := db\<rparr>)" "view db = first_hash key f x"
proof -
  let ?b = "[Put (encode_hash_key key f 0) x, Put (encode_meta_key key) (encode_hash_meta_val 1 0 KEY_ENABLED_MASK)]"
  have "absent (view (ldb s)) key 0" using assms by (simp add: absent_def)
  from hc.get_absent [OF this] obtain hv where hv: "GetHashMetaVal R s (encode_meta_key key) = (0, hv)"
    "mv_length hv = 0" "mv_version hv = 0" by (auto simp: coll_meta_def)
  have "GetHashItemValInternal R s (encode_hash_key key f 0) = (0, [])"
    by (simp add: GetHashItemValInternal_def Get_view assms)
  then have "hset R s key f x 0 = (1, 1, s\<lparr>ldb := snd (db_Write R (ldb s) ?b)\<rparr>)"
    using hv hc.incr_first [of hv 1 s key "[Put (encode_hash_key key f 0) x]"]
    by (simp add: hset_def hsetCommon_def hset_one_def Let_def commit_incr_def CommitBatch_view encode_hash_meta_val_def)
  moreover have "view (snd (db_Write R (ldb s) ?b)) = first_hash key f x"
    by (simp add: Write_view assms first_hash_def)
  ultimately show thesis using that by blast
qed

end

text \<open>
  C12: \<open>flushdb\<close> returns, with success, and leaves an empty database, whatever its range
  deletions left to its loop, and no cursor of a scan. It changes nothing else: the queue of delete keys and the deadlines
  in memory stay.
\<close>

theorem flushdb_correct:
  assumes "rocksdb_range R view fwd"
  shows "\<exists>db. flushdb R major s cs = Some (1, s\<lparr>ldb := db\<rparr>, []) \<and> view db = Map.empty"
  by (rule rocksdb_range.flushdb_view [OF assms])

theorem flushdb_correct_witness:
  "\<exists>db. flushdb mem_rocksdb 4 run_deleted [(1, \<lparr>element = [107], ts = 0, cursor = 1\<rparr>)] = Some (1, run_deleted\<lparr>ldb := db\<rparr>, []) \<and> map_of db = Map.empty"
  by (rule flushdb_correct [OF memd.rocksdb_range_axioms])

text \<open>
  C13: The queue of delete keys outlives \<open>flushdb\<close>. When it holds the delete key of a key at
  version 0, a hash written under that key after the flush loses its fields at the next turn of
  the background thread, while its size stays.
\<close>

theorem flush_stale_task:
  assumes "rocksdb_range R view fwd" "tasks s = encode_delete_key key 0 # rest" "long_enough key"
    "flushdb R major s cs = Some (1, s1, cs1)" "hset R s1 key f x 0 = (1, 1, s2)"
  shows "hget R s2 key f ([], False) = (1, x, True) \<and>
    hget R (runBGTask_turn R s2) key f ([], False) = (1, [], False) \<and>
    hsize R (runBGTask_turn R s2) key 0 = (1, 1)"
proof -
  have I: "rocksdb_iter R view fwd" using assms(1) by (simp add: rocksdb_range_def)
  then have H: "rocksdb_healthy R view" by (simp add: rocksdb_iter_def)
  from rocksdb_range.flushdb_view [OF assms(1), of major s cs] assms(4) have
    s1: "view (ldb s1) = Map.empty" "tasks s1 = tasks s" by auto
  from rocksdb_healthy.hset_first [OF H s1(1), of key f x] obtain db where
    "hset R s1 key f x 0 = (1, 1, s1\<lparr>ldb := db\<rparr>)" "view db = first_hash key f x" .
  with assms(5) have s2: "view (ldb s2) = first_hash key f x" "tasks s2 = tasks s" using s1(2) by auto
  let ?s = "runBGTask_turn R s2" and ?s' = "s2\<lparr>tasks := rest\<rparr>"
  have ne: "encode_delete_key key 0 \<noteq> []" by (simp add: encode_delete_key_def)
  have turn: "?s = delete_key_loop R ?s' (encode_delete_key key 0)"
    using s2(2) assms(2) ne by (simp add: runBGTask_turn_def bg_take_def Let_def)
  have dom: "dom (view (ldb s2)) = {encode_hash_key key f 0, encode_meta_key key}"
    unfolding s2(1) by (auto simp: first_hash_def)
  have "card (dom (view (ldb ?s'))) \<le> 2"
    using card_length [of "[encode_hash_key key f 0, encode_meta_key key]"] dom by simp
  then have c: "card (dom (view (ldb ?s'))) < 2 ^ 64" by simp
  have w: "scores_wf (view (ldb ?s'))" "meta_wf (view (ldb ?s')) key"
    unfolding scores_wf_def meta_wf_def
    by (auto simp: s2(1) first_hash_def encode_hash_key_def encode_hash_meta_val_def encode_meta_val_internal_def
        POS_DEL_def str_pos_del)
  from rocksdb_iter.delete_key_loop_effect(1) [OF I c assms(3) w, of 0] have
    eff: "view (ldb ?s) = gc_effect key 0 (first_hash key f x)" unfolding turn using s2(1) by simp
  have "\<not> meta_is (first_hash key f x) key KEY_DELETE_MASK 0"
    by (simp add: meta_is_def first_hash_def encode_hash_meta_val_def encode_meta_val_internal_def)
  then have v: "view (ldb ?s) (encode_meta_key key) = Some (encode_hash_meta_val 1 0 KEY_ENABLED_MASK)"
    "view (ldb ?s) (encode_hash_key key f 0) = None"
    unfolding eff encode_hash_key_def using gc_effect_keys [OF assms(3,3), where v = 0 and m = "first_hash key f x"]
    by (simp_all add: first_hash_def)
  have g: "\<exists>hv. GetHashMetaVal R ?s (encode_meta_key key) = (1, hv) \<and> mv_length hv = 1 \<and> mv_version hv = 0"
    using v(1) by (simp add: GetHashMetaVal_def rocksdb_healthy.Get_view [OF H] encode_hash_meta_val_def
        DecodeMetaVal_encode Let_def)
  have "hget R ?s key f ([], False) = (1, [], False)" "hsize R ?s key 0 = (1, 1)"
    using g v(2) by (auto simp: hget_def hsize_def GetHashItemValInternal_def rocksdb_healthy.Get_view [OF H])
  moreover have "hget R s2 key f ([], False) = (1, x, True)"
    using rocksdb_healthy.hget_rep [OF H, of s2 key "[f \<mapsto> x]" f] first_hash_rep [of key f x] s2(1) by simp
  ultimately show ?thesis by blast
qed

theorem flush_stale_task_witness:
  "\<exists>s1 s2. flushdb mem_rocksdb 5 (run_deleted\<lparr>tasks := [encode_delete_key [107] 0]\<rparr>) [] = Some (1, s1, []) \<and>
     hset mem_rocksdb s1 [107] [102] [120] 0 = (1, 1, s2) \<and>
     hget mem_rocksdb (runBGTask_turn mem_rocksdb s2) [107] [102] ([], False) = (1, [], False)"
proof -
  let ?s = "run_deleted\<lparr>tasks := [encode_delete_key [107] 0]\<rparr>"
  from memd.flushdb_view [of 5 ?s "[]"] obtain db where
    f: "flushdb mem_rocksdb 5 ?s [] = Some (1, ?s\<lparr>ldb := db\<rparr>, [])" "map_of db = Map.empty" by blast
  from mem.hset_first [of "?s\<lparr>ldb := db\<rparr>" "[107]" "[102]" "[120]"] f(2) obtain db' where
    h: "hset mem_rocksdb (?s\<lparr>ldb := db\<rparr>) [107] [102] [120] 0 = (1, 1, ?s\<lparr>ldb := db\<rparr>\<lparr>ldb := db'\<rparr>)" by auto
  from flush_stale_task [OF memd.rocksdb_range_axioms _ _ f(1) h] f(1) h show ?thesis by auto
qed

lemma expire_collect_single:
  assumes "fast_keys s = snd (SS_add SS_init key t)" "t \<le> clock 1"
  shows "\<exists>s'. expire_collect clock 0 [] s = ([key], s') \<and> ldb s' = ldb s"
proof -
  let ?s = "s\<lparr>first_timeout := t, fast_keys := snd (SS_pop_front (fast_keys s))\<rparr>"
  have "SS_front (fast_keys s) = Some (key, t)" "SS_front (fast_keys ?s) = None"
    using assms(1) by (simp_all add: SS_add_def SS_init_def SS_front_def SS_pop_front_def)
  then have "expire_collect clock 0 [] s = ([key], ?s)"
    using assms(2) expire_collect.simps [of clock 0 "[]" s] expire_collect.simps [of clock 1 "[key]" ?s]
    by (simp add: insort_insert_key_def)
  then show ?thesis by auto
qed

text \<open>
  So do the deadlines in memory. A key whose deadline was held there is deleted when that
  deadline comes, even if it was written again after the flush and has no deadline.
\<close>

theorem flush_stale_deadline:
  assumes "rocksdb_range R view fwd" "fast_keys s = snd (SS_add SS_init key t)" "expire_enable s"
    "flushdb R major s cs = Some (1, s1, cs1)" "hset R s1 key f x 0 = (1, 1, s2)" "t \<le> clock 1"
  shows "hget R s2 key f ([], False) = (1, x, True) \<and> pttl R now s2 key Millisecond = -1 \<and>
    hget R (expire_loop R clock s2) key f ([], False) = (0, [], False)"
proof -
  have H: "rocksdb_healthy R view" using assms(1) by (simp add: rocksdb_range_def rocksdb_iter_def)
  note get = rocksdb_healthy.Get_view [OF H]
  from rocksdb_range.flushdb_view [OF assms(1), of major s cs] assms(4) have
    s1: "view (ldb s1) = Map.empty" "fast_keys s1 = fast_keys s" "expire_enable s1" using assms(3) by auto
  from rocksdb_healthy.hset_first [OF H s1(1), of key f x] obtain db where
    "hset R s1 key f x 0 = (1, 1, s1\<lparr>ldb := db\<rparr>)" "view db = first_hash key f x" .
  with assms(5) have s2: "view (ldb s2) = first_hash key f x" "fast_keys s2 = fast_keys s" "expire_enable s2"
    using s1 by auto
  have "hget R s2 key f ([], False) = (1, x, True)"
    using rocksdb_healthy.hget_rep [OF H, of s2 key "[f \<mapsto> x]" f] first_hash_rep [of key f x] s2(1) by simp
  moreover have "pttl R now s2 key Millisecond = -1"
    using s2(3) by (simp add: pttl_def check_meta_key_def eget_def get s2(1) first_hash_def encode_hash_key_def
        encode_hash_meta_val_def encode_meta_val_internal_def str_pos_del numeral_3_eq_3)
  moreover have "hget R (expire_loop R clock s2) key f ([], False) = (0, [], False)"
  proof -
    from expire_collect_single [of s2 key t clock] s2(2) assms(2,6) obtain s3 where
      c: "expire_collect clock 0 [] s2 = ([key], s3)" "ldb s3 = ldb s2" by auto
    let ?mv = "encode_hash_meta_val 1 0 KEY_ENABLED_MASK"
    have mv: "view (ldb s3) (encode_meta_key key) = Some ?mv" "length ?mv \<ge> 4" "?mv ! POS_DEL = KEY_ENABLED_MASK"
      using c(2) s2(1) by (simp_all add: first_hash_def encode_hash_meta_val_def encode_meta_val_internal_def POS_DEL_def str_pos_del)
    from rocksdb_healthy.del_key_internal_live [OF H mv, of "[]"] obtain b s4 where
      d: "del_key_internal R s3 key [] = (1, b, s4)" "ldb s4 = ldb s3"
      "\<And>m k. \<not> expiry_key k \<Longrightarrow> apply_batch b m k = (m(encode_meta_key key \<mapsto> ?mv[POS_DEL := KEY_DELETE_MASK],
         encode_delete_key key (meta_version ?mv) \<mapsto> [])) k" by auto
    have "\<not> SS_empty (fast_keys s2)" using s2(2) assms(2) by (simp add: SS_empty_def SS_size_def SS_add_def SS_init_def)
    then have e: "expire_loop R clock s2 = snd (CommitBatch R s4 b)"
      using c d(1) by (simp add: expire_loop_def multi_del_def rocksdb_healthy.CommitBatch_view [OF H])
    have "view (ldb (expire_loop R clock s2)) (encode_meta_key key) = Some (?mv[POS_DEL := KEY_DELETE_MASK])"
      unfolding e rocksdb_healthy.view_CommitBatch [OF H] using d(3) [of "encode_meta_key key"] by simp
    moreover have "?mv[POS_DEL := KEY_DELETE_MASK] = HSIZE # raw16 (htobe16 0) @ KEY_DELETE_MASK # raw64 (htobe64 1)"
      by (simp add: encode_hash_meta_val_def encode_meta_val_internal_def POS_DEL_def list_update_append)
    ultimately show ?thesis
      by (simp add: hget_def GetHashMetaVal_def get DecodeMetaVal_deleted Let_def)
  qed
  ultimately show ?thesis by blast
qed

theorem flush_stale_deadline_witness:
  "\<exists>s1 s2. flushdb mem_rocksdb 5 (empty_store\<lparr>fast_keys := snd (SS_add SS_init [107] 7)\<rparr>) [] = Some (1, s1, []) \<and>
     hset mem_rocksdb s1 [107] [102] [120] 0 = (1, 1, s2) \<and>
     hget mem_rocksdb (expire_loop mem_rocksdb (\<lambda>_. 8) s2) [107] [102] ([], False) = (0, [], False)"
proof -
  let ?s = "empty_store\<lparr>fast_keys := snd (SS_add SS_init [107] 7)\<rparr>"
  from memd.flushdb_view [of 5 ?s "[]"] obtain db where
    f: "flushdb mem_rocksdb 5 ?s [] = Some (1, ?s\<lparr>ldb := db\<rparr>, [])" "map_of db = Map.empty" by blast
  from mem.hset_first [of "?s\<lparr>ldb := db\<rparr>" "[107]" "[102]" "[120]"] f(2) obtain db' where
    h: "hset mem_rocksdb (?s\<lparr>ldb := db\<rparr>) [107] [102] [120] 0 = (1, 1, ?s\<lparr>ldb := db\<rparr>\<lparr>ldb := db'\<rparr>)" by auto
  have "expire_enable ?s" by (simp add: empty_store_def)
  from flush_stale_deadline [OF memd.rocksdb_range_axioms _ this f(1) h, of 7 "\<lambda>_. 8"] f(1) h show ?thesis by auto
qed

end
