(* ===== verification/ClientSteps.thy ===== *)
theory ClientSteps
  imports Lifecycle TSet TKv TZset TList
begin

text \<open>
  The writing commands of sets, string values, sorted sets and lists, seen from the background deletion:
  each works on one version of its key, as \<open>client_step\<close> says. \<open>Lifecycle\<close> has the same for hashes. They are
  what the runs of \<open>Interleave\<close> need of the commands.
\<close>

section \<open>Sets\<close>


lemma sadd_loop_batch:
  assumes "mv_version sv = v" "work_batch key v b" "sadd_loop R s sv key ret ms n b = (err, n', b')"
  shows "work_batch key v b'"
  using assms(2,3)
proof (induction ms arbitrary: n b)
  case (Cons x ms)
  have w: "work_batch key v (b @ [Put (encode_set_key key x v) []])"
    using Cons.prems(1) by (simp add: encode_set_key_def)
  show ?case
    using Cons.prems Cons.IH [OF Cons.prems(1)] Cons.IH [OF w] assms(1) by (auto simp: Let_def split: if_splits)
qed simp

lemma srem_loop_batch:
  assumes "mv_version sv = v" "work_batch key v b" "\<forall>op \<in> set b. \<exists>k. op = Delete k"
    "srem_loop R s sv key ms n b = (err, n', b')"
  shows "work_batch key v b' \<and> (\<forall>op \<in> set b'. \<exists>k. op = Delete k)"
  using assms(2-4)
proof (induction ms arbitrary: n b)
  case (Cons x ms)
  let ?b = "b @ [Delete (encode_set_key key x v)]"
  have w: "work_batch key v ?b" "\<forall>op \<in> set ?b. \<exists>k. op = Delete k"
    using Cons.prems(1,2) by (auto simp: encode_set_key_def)
  show ?case
    using Cons.prems Cons.IH [OF Cons.prems(1,2)] Cons.IH [OF w] assms(1) by (auto simp: Let_def split: if_splits)
qed simp

context rocksdb_healthy
begin

lemma sadd_client_step:
  assumes rep: "set_rep (view (ldb s)) key S" "S = {} \<longrightarrow> fresh (view (ldb s)) key"
    and ms: "distinct ms" and len: "card S + length ms < 2 ^ 63" and long: "long_enough key"
    and res: "sadd R s key ms a = (r, c, s')"
  shows "\<exists>v. client_step key v (view (ldb s)) (view (ldb s')) \<and> tasks s' = tasks s"
proof -
  obtain v where cur: "coll_cur SSIZE (view (ldb s)) key v (chi S)"
    using set_rep_cur [OF rep] by blast
  note hD = coll_curD [OF cur, unfolded chi_simps]
  from sc.get_cur [OF cur] obtain sv where
    sv: "GetSetMetaVal R s (encode_meta_key key) = (if S = {} then 0 else 1, sv)" "coll_meta (chi S) v sv"
    by auto
  then have ver: "mv_version sv = v" by (simp add: coll_meta_def)
  let ?r = "if S = {} then 0 else 1 :: int"
  have r: "?r = 0 \<longrightarrow> S = {}" and e: "S \<union> (set ms - S) = S \<union> set ms" by auto
  have h0: "item_map key v (apply_batch [] (view (ldb s))) = chi S" using hD(3) by simp
  obtain b where
    b: "sadd_loop R s sv key ?r ms 0 [] = (0, 0 + int (card (set ms - S)), b)"
      "item_map key v (apply_batch b (view (ldb s))) = chi (S \<union> set ms)"
    using sadd_loop_items [OF ver hD(3) r ms _ h0, of 0] unfolding e by auto
  have wb: "work_batch key v b" using sadd_loop_batch [OF ver _ b(1)] by simp
  have del: "chi (S \<union> set ms) = Map.empty \<longrightarrow> (\<forall>op \<in> set b. \<exists>k. op = Delete k)"
    using b(1) by auto
  have "card (S \<union> set ms) = card S + card (set ms - S)"
    using card_Un_disjoint [of S "set ms - S"] hD(1) by simp
  moreover have "card (set ms - S) \<le> length ms"
    using card_mono [of "set ms" "set ms - S"] card_length [of ms] by simp
  ultimately have fin: "finite (dom (chi (S \<union> set ms)))" "card (dom (chi (S \<union> set ms))) < 2 ^ 63"
    "int (card (set ms - S)) = int (card (dom (chi (S \<union> set ms)))) - int (card (dom (chi S)))"
    using hD(1) len by auto
  let ?c = "commit_incr R (incr_ssize R s key b sv (encode_meta_key key) (int (card (set ms - S))))"
  obtain r0 s0 where "?c = (r0, s0)" by force
  with res b(1) sv(1) have "?c = (r, s')" by (auto simp: sadd_def saddNoLock_def Let_def split: if_splits)
  from sc.commit_incr_client_step [OF long cur sv(2) wb b(2) fin del this] show ?thesis by blast
qed

lemma srem_client_step:
  assumes rep: "set_rep (view (ldb s)) key S" and ms: "distinct (drop 2 args)" and ne: "S \<noteq> {}"
    and long: "long_enough key" and res: "srem R s key args = (r, c, s')"
  shows "\<exists>v. client_step key v (view (ldb s)) (view (ldb s')) \<and> tasks s' = tasks s"
proof -
  from set_rep_cases [OF rep] ne obtain v sv where
    A: "coll_cur SSIZE (view (ldb s)) key v (chi S)" "coll_meta (chi S) v sv"
      "GetSetMetaVal R s (encode_meta_key key) = (1, sv)" by metis
  let ?ms = "drop 2 args"
  note hD = coll_curD [OF A(1), unfolded chi_simps]
  have ver: "mv_version sv = v" using A(2) by (simp add: coll_meta_def)
  have h0: "item_map key v (apply_batch [] (view (ldb s))) = chi S" using hD(3) by simp
  obtain b where
    b: "srem_loop R s sv key ?ms 0 [] = (0, 0 + int (card (set ?ms \<inter> S)), b)"
      "item_map key v (apply_batch b (view (ldb s))) = chi (S - (set ?ms \<inter> S))"
    using srem_loop_items [OF ver hD(3) ms _ h0, of 0] by auto
  from srem_loop_batch [OF ver _ _ b(1)] have wb: "work_batch key v b" "\<forall>op \<in> set b. \<exists>k. op = Delete k"
    by simp_all
  note card = set_remove_card [OF hD(1,2) Int_lower2 [of "set ?ms" S]]
  let ?c = "commit_incr R (incr_ssize R s key b sv (encode_meta_key key) (- int (card (set ?ms \<inter> S))))"
  obtain r0 s0 where "?c = (r0, s0)" by force
  with res b(1) A(3) have "?c = (r, s')" by (simp add: srem_def Let_def)
  from sc.commit_incr_client_step [OF long A(1,2) wb(1) b(2) _ _ _ _ this] card wb(2) show ?thesis by auto
qed

text \<open>String values: \<^verbatim>\<open>SET\<close> without options.\<close>

lemma GetKvMetaVal_version:
  assumes "kv_rep (view (ldb s)) key v"
  shows "\<exists>kv. GetKvMetaVal R s (encode_meta_key key) = (if v = None then 0 else 1, kv) \<and>
    (meta_is (view (ldb s)) key KEY_ENABLED_MASK (kv_version kv) \<or> absent (view (ldb s)) key (kv_version kv))"
proof (cases v)
  case None
  with assms obtain w where "absent (view (ldb s)) key w" by (auto simp: kv_rep_def)
  then show ?thesis using None
    by (auto simp: absent_def GetKvMetaVal_def Get_view KvDecodeMetaVal_deleted)
next
  case (Some x)
  with assms obtain w where w: "view (ldb s) (encode_meta_key key) = Some (encode_kv_val x w KEY_ENABLED_MASK)"
    by (auto simp: kv_rep_def)
  then have "meta_is (view (ldb s)) key KEY_ENABLED_MASK w" by (simp add: meta_is_def encode_kv_val_def)
  with Some w show ?thesis by (simp add: GetKvMetaVal_def Get_view KvDecodeMetaVal_encode)
qed

lemma kv_set_client_step:
  assumes rep: "kv_rep (view (ldb s)) key v" and long: "long_enough key"
    and res: "kv_set R now1 now2 s key x OBJ_SET_NO_FLAGS ms a = (r, c, s')"
  shows "\<exists>w. client_step key w (view (ldb s)) (view (ldb s')) \<and> tasks s' = tasks s"
proof -
  from GetKvMetaVal_version [OF rep] obtain kv where
    kv: "GetKvMetaVal R s (encode_meta_key key) = (if v = None then 0 else 1, kv)"
      "meta_is (view (ldb s)) key KEY_ENABLED_MASK (kv_version kv) \<or> absent (view (ldb s)) key (kv_version kv)" by blast
  let ?w = "kv_version kv" and ?k = "encode_meta_key key" and ?m = "view (ldb s)"
  let ?b = "[Put ?k (encode_kv_val x ?w KEY_ENABLED_MASK)]"
  obtain y b' s1 where c: "cancelExpiration R s key ?b = (y, b', s1)" by (metis prod_cases3)
  have s1: "ldb s1 = ldb s" "tasks s1 = tasks s"
    using ce.cancel_db [of R s key ?b] cancel_tasks [OF c] c by simp_all
  have "SetGeneric R now1 now2 s key [] x OBJ_SET_NO_FLAGS ms a = (1, 1, b', s1)"
    using kv(1) c by (simp add: SetGeneric_def OBJ_SET_NO_FLAGS_def Let_def)
  then have s': "s' = snd (CommitBatch R s1 b')"
    using res by (simp add: kv_set_def setNoLock_def CommitBatch_view)
  have m': "view (ldb s') = apply_batch b' ?m" "tasks s' = tasks s"
    using s1 by (simp_all add: s' CommitBatch_view Write_view)
  have fr: "view (ldb s') z = apply_batch ?b ?m z"
    if "z \<noteq> encode_eset_key key" "z \<notin> range (encode_escore_key key)" for z
    using ce.cancel_frame_own [OF that, of R s ?b ?m] c by (simp add: m')
  have "meta_is (view (ldb s')) key KEY_ENABLED_MASK ?w"
    using fr [of ?k] by (simp add: meta_is_def encode_kv_val_def)
  moreover have "view (ldb s') (encode_delete_key key ?w) = ?m (encode_delete_key key ?w)"
    using fr [of "encode_delete_key key ?w"] by simp
  moreover have "view (ldb s') z = ?m z" if "z \<notin> work_keys key ?w" for z
    using fr [of z] work_keys_expiry [OF that] by simp
  ultimately show ?thesis using kv(2) long m'(2) unfolding client_step_def by blast
qed

end

section \<open>Sorted sets and lists\<close>

lemma zset_put_batch: "work_batch name v (zset_put name f x v)"
  by (auto simp: work_batch_def zset_put_def encode_zset_key_def zscore_key_internal score_field_def)

lemma work_batch_zscore [simp]:
  "work_batch key v (Delete (encode_zscore_key key f x v) # b) \<longleftrightarrow> work_batch key v b"
  by (auto simp: work_batch_def zscore_key_internal score_field_def)

lemma zset_one_batch:
  assumes "work_batch name v b" "zset_one R s b chk name f x v flags ns = (r, b', fl, ns')"
  shows "work_batch name v b'"
  using assms zset_put_batch [of name v]
  by (auto simp: zset_one_def Let_def split: if_splits prod.splits)

lemma zset_loop_batch:
  "work_batch name v b \<Longrightarrow> zset_loop strtod R s chk name v flags kvs er ns a u b = (err, a', u', b') \<Longrightarrow>
   work_batch name v b'"
proof (induction kvs arbitrary: b er ns a u)
  case (Cons kv kvs)
  obtain f t where kv: "kv = (f, t)" by force
  obtain x er' where x: "str_to_double strtod er t = (x, er')" by force
  obtain r b1 fl ns' where one: "zset_one R s b chk name f x v flags ns = (r, b1, fl, ns')" by (metis prod_cases4)
  note w = zset_one_batch [OF Cons.prems(1) one]
  show ?case using Cons.prems Cons.IH [OF w] w by (auto simp: kv x one split: if_splits)
qed simp

lemma zdel_loop_batch:
  "work_batch name v b \<Longrightarrow> zdel_loop R s name v fs c b = (err, c', b') \<Longrightarrow> work_batch name v b'"
proof (induction fs arbitrary: b c)
  case (Cons f fs)
  obtain r b1 where one: "zdel_one R s b name f v = (r, b1)" by force
  have w: "work_batch name v b1"
    using one Cons.prems(1) by (auto simp: zdel_one_def encode_zset_key_def split: if_splits prod.splits)
  show ?case using Cons.prems Cons.IH [OF w] w by (auto simp: one split: if_splits)
qed simp

lemma list_push_loop_batch:
  "work_batch key v b \<Longrightarrow> list_push_loop key v lp vals q b = (q', b') \<Longrightarrow> work_batch key v b'"
proof (induction vals arbitrary: q b)
  case (Cons x vals)
  show ?case
    by (rule Cons.IH [OF _ Cons.prems(2) [unfolded list_push_loop.simps Let_def]])
      (use Cons.prems(1) in \<open>simp add: list_key_is_item_key\<close>)
qed simp

lemma list_meta_mark: "m (encode_meta_key key) = Some (EncodeValueListMeta lv) \<Longrightarrow> meta_is m key (mv_del lv) (mv_version lv)"
  by (simp add: meta_is_def EncodeValueListMeta_def encode_list_meta_val_def)

context rocksdb_healthy
begin

lemma zset_commit_client:
  assumes long: "long_enough name" and cur: "zset_cur (view (ldb s)) name v z" and mv: "coll_meta (zitems z) v mv"
    and b: "zbatch (view (ldb s)) name v b z'" "work_batch name v b" and fin: "finite (dom z')" "card (dom z') < 2 ^ 63"
    and n: "n = int (card (dom z')) - int (card (dom z))"
    and res: "commit_incr R (incr_zsize R s name b mv n) = (r, s')"
  shows "client_step name v (view (ldb s)) (view (ldb s')) \<and> tasks s' = tasks s"
proof (rule zc.commit_incr_client [OF long _ mv b(2) _ _ _ _ _ res])
  show "coll_cur ZSIZE (view (ldb s)) name v (zitems z)" using cur by (simp add: zset_cur_def)
  show "item_map name v (apply_batch b (view (ldb s))) = zitems z'" using b(1) by (simp add: zbatch_def)
  show "zitems z' = Map.empty \<longrightarrow> (\<forall>f. apply_batch b (view (ldb s)) (encode_key_internal ZSCORE name f v) \<noteq> None \<longrightarrow>
      view (ldb s) (encode_key_internal ZSCORE name f v) \<noteq> None)"
    using b(1) by (auto simp: zbatch_def score_map_def fun_eq_iff zitems_def zindex_def)
qed (use fin n in simp_all)

lemma zset_client_step:
  assumes rep: "zset_rep (view (ldb s)) name z" "z = Map.empty \<longrightarrow> zfresh (view (ldb s)) name" and long: "long_enough name"
    and fl: "flags AND ZADD_NX = 0 \<or> flags AND ZADD_XX = 0" "flags AND ZADD_INCR = 0"
    and rd: "\<And>f t. (f, t) \<in> set kvs \<Longrightarrow> score_text strtod t (sc f)" and dist: "distinct (map fst kvs)"
    and card: "card (dom z) + length kvs < 2 ^ 63"
    and res: "multi_zset strtod er R s name kvs flags num = (r, c, s')"
  shows "\<exists>v. client_step name v (view (ldb s)) (view (ldb s')) \<and> tasks s' = tasks s"
proof -
  from zset_rep_cur [OF rep] obtain v where cur: "zset_cur (view (ldb s)) name v z" .
  from zmeta_cur [OF cur] obtain mv where mv: "GetZSetMetaVal R s (encode_meta_key name) =
    (if z = Map.empty then 0 else 1, mv)" "coll_meta (zitems z) v mv" "mv_version mv = v" .
  have ok: "\<And>f t. (f, t) \<in> set kvs \<Longrightarrow> zscore_ok flags (sc f) (z f)"
    using rd fl(2) by (metis score_text_read zscore_ok_def)
  let ?z = "zupdate flags sc z (map fst kvs)"
  let ?a = "int (length (zadded flags sc z (map fst kvs)))" and ?u = "int (length (zchanged flags sc z (map fst kvs)))"
  have "\<exists>b. zset_loop strtod R s (z \<noteq> Map.empty) name v flags kvs er 0 0 0 [] = (0, 0 + ?a, 0 + ?u, b) \<and>
      zbatch (view (ldb s)) name v b ?z"
    by (rule zset_loop_effect [OF cur refl rd _ dist zbatch_Nil [OF cur] refl]) (use ok in auto)
  then obtain b where b: "zset_loop strtod R s (z \<noteq> Map.empty) name v flags kvs er 0 0 0 [] = (0, ?a, ?u, b)"
      "zbatch (view (ldb s)) name v b ?z" by auto
  have wb: "work_batch name v b" by (rule zset_loop_batch [OF _ b(1)]) simp
  have fin: "finite (dom z)" using coll_curD(1) [of ZSIZE "view (ldb s)" name v "zitems z"] cur
    by (simp add: zset_cur_def)
  note dm = zupdate_dom [OF fin dist, of flags sc]
  have "length (zadded flags sc z (map fst kvs)) \<le> length kvs"
    using length_filter_le [of _ "map fst kvs"] by (simp add: zadded_def)
  then have c: "card (dom ?z) < 2 ^ 63" using dm(2) card by linarith
  have nan: "\<forall>f x. ?z f = Some x \<longrightarrow> \<not> isnan x"
  proof (intro allI impI)
    fix f x
    assume "?z f = Some x"
    then show "\<not> isnan x"
      by (rule zupdate_nan [rotated 2]) (use ok cur in \<open>auto simp: zset_cur_def\<close>)
  qed
  from zset_commit [OF cur mv(2) b(2) dm(1) c dm(2) nan] obtain s2 where
    ci: "commit_incr R (incr_zsize R s name b mv ?a) = (if ?z = Map.empty then 0 else 1, s2)" by blast
  note step = zset_commit_client [OF long cur mv(2) b(2) wb dm(1) c dm(2) ci]
  have "0 \<le> (if ?z = Map.empty then 0 else 1 :: int)" by simp
  from commit_incrE [OF ci this] obtain iret b' s1 where
    i: "incr_zsize R s name b mv ?a = (iret, b', s1)" "\<not> iret < 0" "CommitBatch R s1 b' = (True, s2)" .
  have "snd (snd (multi_zset strtod er R s name kvs flags num)) = s2"
  proof (cases "z = Map.empty")
    case True
    then show ?thesis using fl mv b(1) i by (auto simp: multi_zset_def zsetNoLock_def Let_def)
  next
    case False
    then show ?thesis using fl mv b(1) i by (auto simp: multi_zset_def zsetNoLock_def Let_def)
  qed
  then have "s' = s2" using res by simp
  then show ?thesis using step by blast
qed

lemma zdel_client_step:
  assumes rep: "zset_rep (view (ldb s)) name z" and ne: "z \<noteq> Map.empty" and dist: "distinct fs" and long: "long_enough name"
    and res: "multi_zdel R s name fs 0 = (r, c, s')"
  shows "\<exists>v. client_step name v (view (ldb s)) (view (ldb s')) \<and> tasks s' = tasks s"
proof -
  from rep ne obtain v where at: "zset_at (view (ldb s)) name v z" by (auto simp: zset_rep_def)
  note cur = zset_at_cur [OF at]
  from zmeta_cur [OF cur] obtain mv where mv: "GetZSetMetaVal R s (encode_meta_key name) = (1, mv)"
    "coll_meta (zitems z) v mv" "mv_version mv = v" using ne by auto
  let ?z = "z |` (- set fs)" and ?n = "int (length (filter (\<lambda>f. z f \<noteq> None) fs))"
  from zdel_loop_effect [OF cur zbatch_Nil [OF cur] dist refl, of 0] obtain b where
    b: "zdel_loop R s name v fs 0 [] = (0, ?n, b)" "zbatch (view (ldb s)) name v b ?z" by auto
  have wb: "work_batch name v b" by (rule zdel_loop_batch [OF _ b(1)]) simp
  have fin: "finite (dom z)" "card (dom z) < 2 ^ 63" using at by (auto simp: zset_at_def coll_at_def)
  have dm: "dom z = dom ?z \<union> set (filter (\<lambda>f. z f \<noteq> None) fs)" "dom ?z \<inter> set (filter (\<lambda>f. z f \<noteq> None) fs) = {}"
    by auto
  have "card (dom z) = card (dom ?z) + length (filter (\<lambda>f. z f \<noteq> None) fs)"
    using card_Un_disjoint [OF _ _ dm(2)] fin(1) dist dm(1) distinct_card [of "filter (\<lambda>f. z f \<noteq> None) fs"]
    by (metis List.finite_set distinct_filter finite_Un)
  then have n: "- ?n = int (card (dom ?z)) - int (card (dom z))" "card (dom ?z) < 2 ^ 63" "finite (dom ?z)"
    using fin by auto
  obtain r2 s2 where ci: "commit_incr R (incr_zsize R s name b mv (- ?n)) = (r2, s2)" by force
  then have "s' = s2" using mv b(1) res by (simp add: multi_zdel_def zdelNoLock_def)
  then show ?thesis using zset_commit_client [OF long cur mv(2) b(2) wb n(3,2,1) ci] by blast
qed

text \<open>Pushing to a list and popping from it.\<close>

lemma list_push_client_step:
  assumes rep: "list_rep (view (ldb s)) key xs" and long: "long_enough key"
    and res: "list_push_end lp R s key vals offset = (r, c, s')"
  shows "s' = s \<or> (\<exists>v. client_step key v (view (ldb s)) (view (ldb s')) \<and> tasks s' = tasks s)"
proof -
  let ?m = "view (ldb s)" and ?k = "encode_meta_key key"
  obtain lv ret v where lv: "GetListMetaVal R s ?k = (ret, lv)" "mv_version lv = v" "mv_del lv = KEY_ENABLED_MASK"
    "meta_is ?m key KEY_ENABLED_MASK v \<or> absent ?m key v"
  proof (cases "\<exists>v l. list_at ?m key v l xs")
    case True
    then obtain v l where at: "list_at ?m key v l xs" by blast
    then have "meta_is ?m key KEY_ENABLED_MASK v" by (auto simp: list_at_def meta_is_def encode_list_meta_val_def)
    with GetListMetaVal_at [OF at] show ?thesis by (auto simp: list_meta_def intro: that)
  next
    case False
    with rep obtain w where "absent ?m key w" by (auto simp: list_rep_def)
    with GetListMetaVal_absent [OF this] show ?thesis by (auto simp: list_meta_def intro: that)
  qed
  obtain ret' lv' where d: "doListPush R s key [] vals offset ?k lv lp = (ret', lv', s') \<or> s' = s"
    using res lv(1) by (auto simp: list_push_end_def Let_def split: if_splits prod.splits)
  obtain q b where loop: "list_push_loop key v lp (drop offset vals) (case lp of HEAD \<Rightarrow> left_seq lv | TAIL \<Rightarrow> right_seq lv) [] = (q, b)"
    by fastforce
  have wb: "work_batch key v b" by (rule list_push_loop_batch [OF _ loop]) simp
  from d loop lv(2) consider "s' = s"
    | lv2 where "s' = s\<lparr>ldb := snd (db_Write R (ldb s) (b @ [Put ?k (EncodeValueListMeta lv2)]))\<rparr>"
      "mv_version lv2 = v" "mv_del lv2 = KEY_ENABLED_MASK"
    using lv(3) by (cases lp) (auto simp: doListPush_def Let_def CommitBatch_view split: if_splits)
  then show ?thesis
  proof cases
    case 2
    let ?m' = "(apply_batch b ?m)(?k \<mapsto> EncodeValueListMeta lv2)"
    have m': "view (ldb s') = ?m'" by (simp add: 2(1) Write_view)
    have "meta_is (view (ldb s')) key KEY_ENABLED_MASK v"
      unfolding m' using list_meta_mark [of ?m' key lv2] 2(2,3) by simp
    moreover have "view (ldb s') (encode_delete_key key v) = ?m (encode_delete_key key v)"
      unfolding m' using work_batch_frame(3) [OF wb] by simp
    moreover have "view (ldb s') x = ?m x" if "x \<notin> work_keys key v" for x
      unfolding m' using work_batch_frame(1) [OF wb that] work_keys_expiry [OF that] by simp
    moreover have "tasks s' = tasks s" by (simp add: 2(1))
    ultimately show ?thesis using lv(4) long unfolding client_step_def by blast
  qed simp
qed

lemma list_pop_client_step:
  assumes at: "list_at (view (ldb s)) key v l xs" and long: "long_enough key"
    and res: "list_pop_end lp R s key = (r, c, s')"
  shows "client_step key v (view (ldb s)) (view (ldb s')) \<and> tasks s' = tasks s"
proof -
  let ?m = "view (ldb s)" and ?k = "encode_meta_key key" and ?q = "end_seq lp (length xs) l" and ?n = "length xs - 1"
  let ?i = "encode_key_internal ITEM key (seq_bytes ?q) v"
  from GetListMetaVal_at [OF at] obtain lv where
    lv: "GetListMetaVal R s ?k = (1, lv)" "list_meta (length xs) l v lv" by blast
  have xs: "xs \<noteq> []" "length xs < 2 ^ 63 - 1" and win: "item_map key v ?m = list_window l xs"
    using at by (auto simp: list_at_def)
  note pop = list_window_pop [OF xs, of l lp]
  have e: "(case lp of HEAD \<Rightarrow> left_seq lv | TAIL \<Rightarrow> right_seq lv) = ?q"
    using lv by (cases lp) (auto simp: list_metaD)
  have get: "GetListItemValInternal R s (encode_list_key key ?q v) = (1, popped lp xs)"
    by (simp add: GetListItemVal_view win pop(1))
  have len: "mv_length lv - 1 = word_of_nat ?n"
    using lv xs by (simp add: list_metaD of_nat_diff Suc_leI)
  have len0: "word_of_nat ?n = (0 :: u64) \<longleftrightarrow> length xs = 1"
    using xs by (cases xs) (auto simp: word_of_nat_eq_0_iff dest!: dvd_imp_le)
  have "word_of_nat (length xs) \<noteq> (0 :: u64)"
    using xs by (auto simp: word_of_nat_eq_0_iff dest!: dvd_imp_le)
  then have nz: "mv_length lv \<noteq> 0" using lv(2) by (simp add: list_metaD)
  have pe: "list_pop_end lp R s key = doListPop R s key [] lv ?k lp"
    using lv(1) nz by (simp add: list_pop_end_def Let_def)
  have meta: "meta_is ?m key KEY_ENABLED_MASK v" using at by (auto simp: list_at_def meta_is_def encode_list_meta_val_def)
  let ?lv = "case lp of HEAD \<Rightarrow> lv\<lparr>left_seq := ?q + 1\<rparr> | TAIL \<Rightarrow> lv\<lparr>right_seq := ?q - 1\<rparr>"
  have ver: "mv_version ?lv = v" "mv_version lv = v" "mv_length ?lv = mv_length lv" "mv_del ?lv = KEY_ENABLED_MASK"
    using lv by (cases lp; simp add: list_metaD)+
  have i: "?i \<in> work_keys key v" by (auto simp: work_keys_def)
  show ?thesis
  proof (cases "length xs = 1")
    case True
    let ?b = "[Delete ?i, Put ?k (encode_list_meta_val (mv_length lv) 0 0 v KEY_DELETE_MASK),
      Put (encode_delete_key key v) []]"
    obtain y b s1 where c: "cancelExpiration R s key ?b = (y, b, s1)" by (metis prod_cases3)
    have s1: "ldb s1 = ldb s" "tasks s1 = tasks s"
      using ce.cancel_db [of R s key ?b] cancel_tasks [OF c] c by simp_all
    have s': "s' = s1\<lparr>ldb := snd (db_Write R (ldb s1) b)\<rparr>"
      using res True c unfolding pe doListPop_def Let_def e ver get next_seq prev_seq len len0
      by (simp add: list_key_is_item_key ver CommitBatch_view)
    have fr: "view (ldb s') x = apply_batch ?b ?m x"
      if "x \<noteq> encode_eset_key key" "x \<notin> range (encode_escore_key key)" for x
      using ce.cancel_frame_own [OF that, of R s ?b ?m] c s1 by (simp add: s' Write_view)
    have "meta_is (view (ldb s')) key KEY_DELETE_MASK v" "view (ldb s') (encode_delete_key key v) \<noteq> None"
      using fr [of ?k] fr [of "encode_delete_key key v"] by (simp_all add: meta_is_def encode_list_meta_val_def)
    moreover have "view (ldb s') x = ?m x" if "x \<notin> work_keys key v" for x
      using fr [of x] work_keys_expiry [OF that] i that by auto
    ultimately show ?thesis using delete_client_step [OF long meta] s1(2) s' by simp
  next
    case False
    let ?lv' = "?lv\<lparr>mv_length := word_of_nat ?n\<rparr>"
    let ?b = "[Put ?k (EncodeValueListMeta ?lv'), Delete ?i]"
    have s': "s' = s\<lparr>ldb := snd (db_Write R (ldb s) ?b)\<rparr>"
      using res False unfolding pe doListPop_def Let_def e ver get next_seq prev_seq len len0
      by (simp add: list_key_is_item_key ver CommitBatch_view)
    let ?m' = "(?m(?k \<mapsto> EncodeValueListMeta ?lv'))(?i := None)"
    have m': "view (ldb s') = ?m'" by (simp add: s' Write_view)
    have "meta_is (view (ldb s')) key KEY_ENABLED_MASK v"
      unfolding m' using list_meta_mark [of ?m' key ?lv'] ver by simp
    moreover have "view (ldb s') (encode_delete_key key v) = ?m (encode_delete_key key v)" unfolding m' by simp
    moreover have "view (ldb s') x = ?m x" if "x \<notin> work_keys key v" for x
      unfolding m' using work_keys_expiry [OF that] i that by auto
    moreover have "tasks s' = tasks s" by (simp add: s')
    ultimately show ?thesis using meta long unfolding client_step_def by blast
  qed
qed

end

end
