(* ===== verification/Interleave.thy ===== *)
theory Interleave
  imports ClientSteps
begin

text \<open>
  Runs of the background deletion beside clients. The commands are the actual operations of the five data
  types; DEL and the expiration come in the two halves that no lock holds together, reading and committing; the
  background thread goes from phase to phase. In every such run in which no two commands overlap on a key, the invariant
  of \<open>Reclaim\<close> holds. The last property shows what an overlap does.
\<close>

section \<open>DEL in two halves\<close>

text \<open>
  What the reading half of \<open>multi_del\<close> leaves to the commit: for every key that was alive, its meta
  value marked as deleted, its delete key, and the removal of its deadline.
\<close>

inductive del_batch :: "contents \<Rightarrow> bytes list \<Rightarrow> batch \<Rightarrow> bool" for m :: contents where
  none: "del_batch m [] []"
| mark: "del_batch m ks b \<Longrightarrow> long_enough k \<Longrightarrow> k \<notin> set ks \<Longrightarrow> m (encode_meta_key k) = Some mv \<Longrightarrow>
    length mv \<ge> 4 \<Longrightarrow> mv ! POS_DEL = KEY_ENABLED_MASK \<Longrightarrow>
    set dels \<subseteq> insert (encode_eset_key k) (range (encode_escore_key k)) \<Longrightarrow>
    del_batch m (k # ks) (b @ [Put (encode_meta_key k) (mv[POS_DEL := KEY_DELETE_MASK]),
      Put (encode_delete_key k (meta_version mv)) []] @ map Delete dels)"

lemma del_batch_cong:
  assumes "del_batch m ks b" "\<And>k. k \<in> set ks \<Longrightarrow> long_enough k \<Longrightarrow> live m k \<Longrightarrow> m' (encode_meta_key k) = m (encode_meta_key k)"
  shows "del_batch m' ks b"
  using assms
proof (induction rule: del_batch.induct)
  case (mark ks b k mv dels)
  have "live m k" using mark.hyps(4-6) by (auto simp: live_def)
  then have "m' (encode_meta_key k) = Some mv" using mark.prems [of k] mark.hyps(2,4) by simp
  with mark show ?case by (intro del_batch.mark) auto
qed (rule del_batch.none)

lemma del_batch_frame:
  assumes "del_batch m ks b" "long_enough k" "k \<notin> set ks" "x \<in> own_keys k"
  shows "apply_batch b n x = n x"
  using assms
proof (induction arbitrary: n rule: del_batch.induct)
  case (mark ks b k' mv dels)
  have "x \<notin> own_keys k'" using own_keys_disjoint [of k k'] mark.prems mark.hyps(2) by auto
  then have "x \<noteq> encode_meta_key k'" "x \<noteq> encode_delete_key k' (meta_version mv)" "x \<notin> set dels"
    using mark.hyps(7) by auto
  then show ?case using mark.IH [of n] mark.prems by (simp add: apply_batch_deletes)
qed simp

text \<open>The writes for one key are a client step.\<close>

lemma mark_client_step:
  assumes "long_enough k" "m (encode_meta_key k) = Some mv" "length mv \<ge> 4" "mv ! POS_DEL = KEY_ENABLED_MASK"
    "set dels \<subseteq> insert (encode_eset_key k) (range (encode_escore_key k))"
    "c = [Put (encode_meta_key k) (mv[POS_DEL := KEY_DELETE_MASK]), Put (encode_delete_key k (meta_version mv)) []] @ map Delete dels"
  shows "meta_is m k KEY_ENABLED_MASK (meta_version mv)" "client_step k (meta_version mv) m (apply_batch c m)"
proof -
  let ?v = "meta_version mv"
  show at: "meta_is m k KEY_ENABLED_MASK ?v"
    using meta_split [OF assms(3)] assms(2,4) by (auto simp: meta_is_def POS_DEL_def)
  have m': "apply_batch c m x = (if x \<in> set dels then None else
    (m(encode_meta_key k \<mapsto> mv[POS_DEL := KEY_DELETE_MASK], encode_delete_key k ?v \<mapsto> [])) x)" for x
    by (simp add: assms(6) apply_batch_deletes)
  have nd: "encode_meta_key k \<notin> set dels" "encode_delete_key k ?v \<notin> set dels" using assms(5) by auto
  have "meta_is (apply_batch c m) k KEY_DELETE_MASK ?v"
    by (rule meta_is_deleted [OF assms(3)]) (simp add: m' nd)
  moreover have "apply_batch c m (encode_delete_key k ?v) \<noteq> None" by (simp add: m' nd)
  moreover have "apply_batch c m x = m x" if "x \<notin> work_keys k ?v" for x
    using work_keys_expiry [OF that] assms(5) by (auto simp: m')
  ultimately show "client_step k ?v m (apply_batch c m)" by (rule delete_client_step [OF assms(1) at, rotated])
qed

lemma gc_inv_cong:
  "gc_inv view (s, p) \<Longrightarrow> view (ldb s') = view (ldb s) \<Longrightarrow> tasks s' = tasks s \<Longrightarrow> gc_inv view (s', p)"
  by (simp add: gc_inv_def)

context rocksdb_iter
begin

lemma del_batch_commit:
  assumes "del_batch (view (ldb s)) ks b" "gc_inv view (s, p)"
  shows "gc_inv view (s\<lparr>ldb := snd (db_Write R (ldb s) b)\<rparr>, p)"
  using assms
proof (induction rule: del_batch.induct)
  case none
  then show ?case by (rule gc_inv_cong) (simp_all add: Write_view)
next
  case (mark ks b k mv dels)
  let ?m = "view (ldb s)" and ?s = "s\<lparr>ldb := snd (db_Write R (ldb s) b)\<rparr>"
  define c where "c = [Put (encode_meta_key k) (mv[POS_DEL := KEY_DELETE_MASK]),
    Put (encode_delete_key k (meta_version mv)) []] @ map Delete dels"
  let ?s' = "s\<lparr>ldb := snd (db_Write R (ldb s) (b @ c))\<rparr>"
  have v: "view (ldb ?s) = apply_batch b ?m" "view (ldb ?s') = apply_batch c (apply_batch b ?m)"
    by (simp_all add: Write_view)
  have meta: "view (ldb ?s) (encode_meta_key k) = Some mv"
    using del_batch_frame [OF mark.hyps(1-3), of "encode_meta_key k" ?m] mark.hyps(4) by (simp add: Write_view)
  note step = mark_client_step [where m = "view (ldb ?s)", OF mark.hyps(2) meta mark.hyps(5-7) c_def]
  have "\<not> meta_is (view (ldb ?s)) k KEY_DELETE_MASK UINT16_MAX" using meta_is_unique [OF step(1)] by fastforce
  then have "gc_inv view (?s', p)"
    using client_inv [OF mark.IH [OF mark.prems], of k "meta_version mv" ?s'] step(2) by (simp add: Write_view)
  then show ?case unfolding c_def .
qed

lemma multi_del_loop_batch:
  assumes "multi_del_loop R ks b n s = (r, b', n', s')" "del_batch (view (ldb s)) ks0 b" "distinct ks"
    "set ks \<inter> set ks0 = {}" "\<forall>k \<in> set ks. long_enough k"
  shows "ldb s' = ldb s \<and> tasks s' = tasks s \<and> (\<exists>ks'. set ks' \<subseteq> set ks \<union> set ks0 \<and> del_batch (view (ldb s)) ks' b')"
  using assms
proof (induction ks arbitrary: b n s ks0)
  case Nil
  then show ?case by auto
next
  case (Cons k ks)
  obtain i b1 s1 where d: "del_key_internal R s k b = (i, b1, s1)" by (metis prod_cases3)
  let ?m = "view (ldb s)"
  have step: "ldb s1 = ldb s \<and> tasks s1 = tasks s \<and> (\<exists>ks1. set ks1 \<subseteq> insert k (set ks0) \<and> del_batch ?m ks1 b1)"
  proof (cases "live ?m k")
    case True
    then obtain mv where mv: "?m (encode_meta_key k) = Some mv" "length mv \<ge> 4" "mv ! POS_DEL = KEY_ENABLED_MASK"
      by (auto simp: live_def)
    let ?b = "b @ [Put (encode_meta_key k) (mv[POS_DEL := KEY_DELETE_MASK]), Put (encode_delete_key k (meta_version mv)) []]"
    obtain y b2 s2 where c: "cancelExpiration R s k ?b = (y, b2, s2)" by (metis prod_cases3)
    have s2: "ldb s2 = ldb s" "tasks s2 = tasks s"
      using ce.cancel_db [of R s k ?b] cancel_tasks [OF c] c by simp_all
    from ce.cancel_appends [of R s k ?b] c obtain dels where
      b2: "b2 = ?b @ map Delete dels" "set dels \<subseteq> insert (encode_eset_key k) (range (encode_escore_key k))" by auto
    have "del_key_internal R s k b = (1, b2, s2)"
      using mv c meta_version_upd [OF mv(2), of KEY_DELETE_MASK]
      by (simp add: del_key_internal_def Get_view mark_key_deleted_def Let_def meta_version_def)
    then have e: "b1 = b2" "s1 = s2" using d by simp_all
    have "del_batch ?m (k # ks0) b2"
      using del_batch.mark [OF Cons.prems(2) _ _ mv b2(2)] Cons.prems(4,5) b2(1) by simp
    then show ?thesis using s2 unfolding e by (intro conjI exI [of _ "k # ks0"]) auto
  next
    case False
    then have "b1 = b" "s1 = s"
      using d by (auto simp: del_key_internal_def Get_view live_def mark_key_deleted_def Let_def split: option.splits if_splits)
    then show ?thesis using Cons.prems(2) by auto
  qed
  then obtain ks1 where s1: "ldb s1 = ldb s" "tasks s1 = tasks s" "set ks1 \<subseteq> insert k (set ks0)" "del_batch ?m ks1 b1" by blast
  show ?case
  proof (cases "i < 0")
    case True
    then show ?thesis using Cons.prems(1) d s1 by auto
  next
    case False
    have "ldb s' = ldb s1 \<and> tasks s' = tasks s1 \<and> (\<exists>ks'. set ks' \<subseteq> set ks \<union> set ks1 \<and> del_batch (view (ldb s1)) ks' b')"
      by (rule Cons.IH [of b1 "n + i" s1 ks1]) (use Cons.prems False d s1 in auto)
    then show ?thesis using s1 by auto
  qed
qed

end

section \<open>Runs\<close>

text \<open>
  The commands on one key. Each holds the lock of its key from its reads to its commit, so it is one
  step. They meet a key of their own type or a key that does not exist.
\<close>

inductive data_command ::
  "('db, 'it) rocksdb \<Rightarrow> ('db \<Rightarrow> contents) \<Rightarrow> bytes \<Rightarrow> 'db ssdb \<Rightarrow> 'db ssdb \<Rightarrow> bool"
  for R :: "('db, 'it) rocksdb" and view :: "'db \<Rightarrow> contents" and key :: bytes where
  do_hset: "hset R s key f x a = (r, c, s') \<Longrightarrow> hash_rep (view (ldb s)) key h \<Longrightarrow> Suc (card (dom h)) < 2 ^ 63 \<Longrightarrow>
    data_command R view key s s'"
| do_hdel: "hdel R s key flds 0 = (r, c, s') \<Longrightarrow> hash_rep (view (ldb s)) key h \<Longrightarrow> distinct flds \<Longrightarrow>
    data_command R view key s s'"
| do_sadd: "sadd R s key ms a = (r, c, s') \<Longrightarrow> set_rep (view (ldb s)) key S \<Longrightarrow> distinct ms \<Longrightarrow>
    card S + length ms < 2 ^ 63 \<Longrightarrow> data_command R view key s s'"
| do_srem: "srem R s key args = (r, c, s') \<Longrightarrow> set_rep (view (ldb s)) key S \<Longrightarrow> distinct (drop 2 args) \<Longrightarrow>
    data_command R view key s s'"
| do_set: "kv_set R now1 now2 s key x OBJ_SET_NO_FLAGS ms a = (r, c, s') \<Longrightarrow> kv_rep (view (ldb s)) key v \<Longrightarrow>
    data_command R view key s s'"
| do_zadd: "multi_zset strtod er R s key kvs flags num = (r, c, s') \<Longrightarrow> zset_rep (view (ldb s)) key z \<Longrightarrow>
    flags AND ZADD_NX = 0 \<or> flags AND ZADD_XX = 0 \<Longrightarrow> flags AND ZADD_INCR = 0 \<Longrightarrow>
    \<forall>(f, t) \<in> set kvs. score_text strtod t (sc f) \<Longrightarrow> distinct (map fst kvs) \<Longrightarrow>
    card (dom z) + length kvs < 2 ^ 63 \<Longrightarrow> data_command R view key s s'"
| do_zrem: "multi_zdel R s key fs 0 = (r, c, s') \<Longrightarrow> zset_rep (view (ldb s)) key z \<Longrightarrow> distinct fs \<Longrightarrow>
    data_command R view key s s'"
| do_push: "list_push_end lp R s key vals offset = (r, c, s') \<Longrightarrow> list_rep (view (ldb s)) key xs \<Longrightarrow>
    data_command R view key s s'"
| do_pop: "list_pop_end lp R s key = (r, c, s') \<Longrightarrow> list_rep (view (ldb s)) key xs \<Longrightarrow> data_command R view key s s'"

text \<open>
  A run. Its state is the store, the phase of the background thread, and the DELs and expirations that have
  read but not committed, each with its keys and its batch. These take no lock: between their reads and their
  commit any other step may come, but for a command or a DEL on one of their keys. A flush comes when
  nothing else is under way and no delete key is queued.
\<close>

definition unused :: "bytes \<Rightarrow> (bytes list \<times> batch) list \<Rightarrow> bool" where
  "unused key ds \<longleftrightarrow> (\<forall>d \<in> set ds. key \<notin> set (fst d))"

inductive run_step ::
  "('db, 'it) rocksdb \<Rightarrow> ('db \<Rightarrow> contents) \<Rightarrow> 'db ssdb \<times> gc_phase \<times> (bytes list \<times> batch) list \<Rightarrow>
     'db ssdb \<times> gc_phase \<times> (bytes list \<times> batch) list \<Rightarrow> bool"
  for R :: "('db, 'it) rocksdb" and view :: "'db \<Rightarrow> contents" where
  thread: "bg_step R view (s, p) (s', p') \<Longrightarrow> run_step R view (s, p, ds) (s', p', ds)"
| data_command: "data_command R view key s s' \<Longrightarrow> long_enough key \<Longrightarrow>
    \<not> meta_is (view (ldb s)) key KEY_DELETE_MASK UINT16_MAX \<Longrightarrow> unused key ds \<Longrightarrow>
    run_step R view (s, p, ds) (s', p, ds)"
| del_read: "multi_del_loop R ks [] 0 s = (r, b, n, s') \<Longrightarrow> distinct ks \<Longrightarrow> \<forall>k \<in> set ks. long_enough k \<and> unused k ds \<Longrightarrow>
    run_step R view (s, p, ds) (s', p, if r < 0 then ds else (ks, b) # ds)"
| expire_read: "s1 = (if SS_empty (fast_keys s) then load_expiration_keys_from_db R s BATCH_SIZE else s) \<Longrightarrow>
    \<not> SS_empty (fast_keys s1) \<Longrightarrow> expire_collect clock 0 [] s1 = (ks, s2) \<Longrightarrow>
    \<forall>k \<in> set ks. long_enough k \<and> unused k ds \<Longrightarrow> multi_del_loop R ks [] 0 s2 = (r, b, n, s') \<Longrightarrow>
    run_step R view (s, p, ds) (s', p, if r < 0 then ds else (ks, b) # ds)"
| del_commit: "CommitBatch R s b = (ok, s') \<Longrightarrow> run_step R view (s, p, ds @ (ks, b) # es) (s', p, ds @ es)"
| flush: "flushdb R major s cs = Some (r, s', cs') \<Longrightarrow> tasks s = [] \<Longrightarrow>
    run_step R view (s, Idle, []) (s', Idle, [])"

inductive_cases run_stepE: "run_step R view (s, p, ds) c"

text \<open>The two halves of a DEL and of an expiration are what the code does in one go.\<close>

lemma multi_del_halves:
  "multi_del_loop R ks [] 0 s = (r, b, n, s1) \<Longrightarrow>
   multi_del R s ks 0 = (if r < 0 then (r, n, s1)
     else case CommitBatch R s1 b of (ok, s2) \<Rightarrow> if \<not> ok then (STORAGE_ERR, n, s2) else (1, n, s2))"
  by (simp add: multi_del_def)

text \<open>The invariant of runs.\<close>

definition run_inv ::
  "('db \<Rightarrow> contents) \<Rightarrow> 'db ssdb \<times> gc_phase \<times> (bytes list \<times> batch) list \<Rightarrow> bool" where
  "run_inv view = (\<lambda>(s, p, ds). gc_inv view (s, p) \<and>
     (\<forall>d \<in> set ds. \<exists>ks. set ks \<subseteq> set (fst d) \<and> del_batch (view (ldb s)) ks (snd d)) \<and>
     sorted_wrt (\<lambda>d e. set (fst d) \<inter> set (fst e) = {}) ds)"

lemma expire_collect_frame:
  "expire_collect clock n ks s = (ks', s') \<Longrightarrow> distinct ks \<Longrightarrow> distinct ks' \<and> ldb s' = ldb s \<and> tasks s' = tasks s"
proof (induction clock n ks s rule: expire_collect.induct)
  case (1 clock count keys s)
  show ?case
  proof (cases "SS_front (fast_keys s)")
    case None
    then show ?thesis using 1(2,3) by (simp add: expire_collect.simps [of clock count keys s])
  next
    case (Some e)
    obtain key score where e: "e = (key, score)" by force
    let ?s = "s\<lparr>first_timeout := score\<rparr>" and ?s' = "s\<lparr>first_timeout := score, fast_keys := snd (SS_pop_front (fast_keys s))\<rparr>"
    have d: "distinct (List.insort_insert key keys)" using 1(3) by (rule distinct_insort_insert)
    consider "clock (Suc count) - score < 0" | "clock (Suc count) - score \<ge> 0" "Suc count > 101"
      | "clock (Suc count) - score \<ge> 0" "\<not> Suc count > 101" by linarith
    then show ?thesis
    proof cases
      case 3
      then have "expire_collect clock (Suc count) (List.insort_insert key keys) ?s' = (ks', s')"
        using 1(2) Some e by (simp add: expire_collect.simps [of clock count keys s])
      with 1(1) [OF Some e [symmetric] refl refl refl _ refl refl _ _ d] 3 show ?thesis by simp
    qed (use 1(2,3) Some e d in \<open>auto simp: expire_collect.simps [of clock count keys s]\<close>)
  qed
qed

text \<open>A new version has neither items nor score entries.\<close>

lemma gc_inv_zfresh:
  assumes "gc_inv view (s, p)" "long_enough key" "\<not> meta_is (view (ldb s)) key KEY_DELETE_MASK UINT16_MAX"
  shows "zfresh (view (ldb s)) key"
proof -
  have "reclaim_ok (view (ldb s)) key" using assms(1,2) by (simp add: gc_inv_def)
  from reclaim_fresh [OF this assms(3)] show ?thesis
    unfolding zfresh_def no_items_def score_map_def by (intro allI impI conjI ext) blast+
qed

text \<open>A command is a client step: the invariant gives it a version without items.\<close>

context rocksdb_iter
begin

lemma zdel_absent:
  assumes "zset_rep (view (ldb s)) key Map.empty" "multi_zdel R s key fs 0 = (r, c, s')"
  shows "s' = s"
proof -
  from assms(1) obtain w where "absent (view (ldb s)) key w"
    by (auto simp: zset_rep_def zset_at_def coll_at_def)
  from zc.get_absent [OF this] assms(2) show ?thesis by (auto simp: multi_zdel_def zdelNoLock_def)
qed

lemma data_command_client_step:
  assumes "data_command R view key s s'" "long_enough key" "fresh (view (ldb s)) key"
    "zfresh (view (ldb s)) key"
  shows "s' = s \<or> (\<exists>v. client_step key v (view (ldb s)) (view (ldb s')) \<and> tasks s' = tasks s)"
  using assms(1)
proof cases
  case (do_hset f x a r c h)
  then show ?thesis using hset_client_step [OF _ _ _ assms(2)] assms(3) by blast
next
  case (do_hdel flds r c h)
  then show ?thesis
    using hdel_client_step [OF _ _ _ assms(2)] hdel_rep [of s key h flds] by (cases "h = Map.empty") auto
next
  case (do_sadd ms a r c S)
  then show ?thesis using sadd_client_step [OF _ _ _ _ assms(2)] assms(3) by blast
next
  case (do_srem args r c S)
  then show ?thesis
    using srem_client_step [OF _ _ _ assms(2)] srem_rep [of s key S args] by (cases "S = {}") auto
next
  case (do_set now1 now2 x ms a r c v)
  then show ?thesis using kv_set_client_step [OF _ assms(2)] by blast
next
  case (do_zadd strtod er kvs flags num r c z sc)
  have "score_text strtod t (sc f)" if "(f, t) \<in> set kvs" for f t using do_zadd(5) that by blast
  then show ?thesis
    using zset_client_step [OF do_zadd(2) _ assms(2) do_zadd(3,4) _ do_zadd(6,7,1)] assms(4) by blast
next
  case (do_zrem fs r c z)
  then show ?thesis
    using zdel_client_step [OF _ _ _ assms(2)] zdel_absent by (cases "z = Map.empty") blast+
next
  case (do_push lp vals offset r c xs)
  then show ?thesis using list_push_client_step [OF _ assms(2)] by blast
next
  case (do_pop lp r c xs)
  show ?thesis
  proof (cases "\<exists>v l. list_at (view (ldb s)) key v l xs")
    case True
    then show ?thesis using list_pop_client_step [OF _ assms(2) do_pop(1)] by blast
  next
    case False
    then have "xs = []" using do_pop(2) by (simp add: list_rep_def)
    then show ?thesis using list_pop_end_rep [OF do_pop(2), of lp] do_pop(1) by simp
  qed
qed

lemma bg_step_live:
  assumes "bg_step R view (s, p) (s', p')" "gc_inv view (s, p)" "long_enough k" "live (view (ldb s)) k"
  shows "view (ldb s') (encode_meta_key k) = view (ldb s) (encode_meta_key k)"
proof -
  have ok: "reclaim_ok (view (ldb s)) k" using assms(2,3) by (simp add: gc_inv_def)
  have take: "ldb s' = ldb s" if "bg_take R s = (x, s')" "p = Idle" for x
    using bg_take_spec(1) [OF _ _ that(1)] assms(2) that(2) by (simp add: gc_inv_def)
  from assms(1) show ?thesis
  proof cases
    case (commit del_key dk b)
    from assms(4) obtain v where v: "meta_is (view (ldb s)) k KEY_ENABLED_MASK v" by (auto simp: live_meta_is)
    have "gc_inv view (s, ScoresScanned del_key dk b)" using assms(2) commit by simp
    from gc_commit_inv(2) [OF this] obtain key u where
      g: "long_enough key" "pending (view (ldb s)) key u" "view (ldb (gc_commit R s del_key dk b)) = gc_effect key u (view (ldb s))" by blast
    show ?thesis using gc_effect_live [OF ok assms(3) g(1,2) v] g(3) commit by (simp add: same_version_def)
  qed (auto simp: take runBGTask_quit_def)
qed

text \<open>The DELs under way keep their batches valid while the meta values of their keys stay.\<close>

lemma del_batches_keep:
  assumes "\<forall>d \<in> set ds. \<exists>ks. set ks \<subseteq> set (fst d) \<and> del_batch m ks (snd d)"
    "\<And>d k. d \<in> set ds \<Longrightarrow> k \<in> set (fst d) \<Longrightarrow> long_enough k \<Longrightarrow> live m k \<Longrightarrow> m' (encode_meta_key k) = m (encode_meta_key k)"
  shows "\<forall>d \<in> set ds. \<exists>ks. set ks \<subseteq> set (fst d) \<and> del_batch m' ks (snd d)"
proof
  fix d
  assume d: "d \<in> set ds"
  with assms(1) obtain ks where "set ks \<subseteq> set (fst d)" "del_batch m ks (snd d)" by blast
  then show "\<exists>ks. set ks \<subseteq> set (fst d) \<and> del_batch m' ks (snd d)"
    using del_batch_cong [of m ks "snd d" m'] assms(2) [OF d] by blast
qed

lemma del_read_inv:
  assumes "run_inv view (s, p, ds)" "ldb s1 = ldb s" "tasks s1 = tasks s"
    "multi_del_loop R ks [] 0 s1 = (r, b, n, s')" "distinct ks" "\<forall>k \<in> set ks. long_enough k \<and> unused k ds"
  shows "run_inv view (s', p, if r < 0 then ds else (ks, b) # ds)"
proof -
  have l: "ldb s' = ldb s" "tasks s' = tasks s" "\<exists>ks'. set ks' \<subseteq> set ks \<and> del_batch (view (ldb s)) ks' b"
    using multi_del_loop_batch [OF assms(4) del_batch.none assms(5)] assms(2,3,6) by auto
  have "\<forall>e \<in> set ds. set ks \<inter> set (fst e) = {}" using assms(6) by (auto simp: unused_def)
  with assms(1) l show ?thesis
    unfolding run_inv_def by (auto intro: gc_inv_cong)
qed

end

context rocksdb_range
begin

lemma del_commit_inv:
  assumes "run_inv view (s, p, ds @ (ks, b) # es)" "CommitBatch R s b = (ok, s')"
  shows "run_inv view (s', p, ds @ es)"
proof -
  from assms(1) have g: "gc_inv view (s, p)"
    and d: "\<forall>d \<in> set (ds @ (ks, b) # es). \<exists>ks. set ks \<subseteq> set (fst d) \<and> del_batch (view (ldb s)) ks (snd d)"
    and w: "sorted_wrt (\<lambda>d e. set (fst d) \<inter> set (fst e) = {}) (ds @ (ks, b) # es)"
    unfolding run_inv_def by blast+
  have s': "s' = s\<lparr>ldb := snd (db_Write R (ldb s) b)\<rparr>" using assms(2) by (simp add: CommitBatch_view)
  from d obtain ks' where b: "set ks' \<subseteq> set ks" "del_batch (view (ldb s)) ks' b" by auto
  have v: "view (ldb s') = apply_batch b (view (ldb s))" by (simp add: s' Write_view)
  have "\<forall>d \<in> set (ds @ es). \<exists>ks. set ks \<subseteq> set (fst d) \<and> del_batch (view (ldb s')) ks (snd d)"
  proof (rule del_batches_keep)
    show "\<forall>d \<in> set (ds @ es). \<exists>ks. set ks \<subseteq> set (fst d) \<and> del_batch (view (ldb s)) ks (snd d)" using d by auto
    fix d k
    assume "d \<in> set (ds @ es)" "k \<in> set (fst d)" "long_enough k"
    then have "k \<notin> set ks'" using w b(1) by (auto simp: sorted_wrt_append)
    then show "view (ldb s') (encode_meta_key k) = view (ldb s) (encode_meta_key k)"
      unfolding v by (rule del_batch_frame [OF b(2) \<open>long_enough k\<close>]) simp
  qed
  moreover have "gc_inv view (s', p)" unfolding s' by (rule del_batch_commit [OF b(2) g])
  ultimately show ?thesis using w unfolding run_inv_def by (auto simp: sorted_wrt_append)
qed

lemma data_command_inv:
  assumes "run_inv view (s, p, ds)" "data_command R view key s s'" "long_enough key"
    "\<not> meta_is (view (ldb s)) key KEY_DELETE_MASK UINT16_MAX" "unused key ds"
  shows "run_inv view (s', p, ds)"
proof -
  from assms(1) have g: "gc_inv view (s, p)"
    and d: "\<forall>d \<in> set ds. \<exists>ks. set ks \<subseteq> set (fst d) \<and> del_batch (view (ldb s)) ks (snd d)"
    unfolding run_inv_def by blast+
  note fr = gc_inv_fresh [of view, OF g assms(3,4)] gc_inv_zfresh [of view, OF g assms(3,4)]
  from data_command_client_step [OF assms(2,3) fr] consider "s' = s"
    | v where "client_step key v (view (ldb s)) (view (ldb s'))" "tasks s' = tasks s" by blast
  then show ?thesis
  proof cases
    case 2
    have "\<forall>d \<in> set ds. \<exists>ks. set ks \<subseteq> set (fst d) \<and> del_batch (view (ldb s')) ks (snd d)"
    proof (rule del_batches_keep [OF d])
      fix d k
      assume "d \<in> set ds" "k \<in> set (fst d)" "long_enough k"
      then show "view (ldb s') (encode_meta_key k) = view (ldb s) (encode_meta_key k)"
        using assms(5) by (intro client_other [OF 2(1)]) (auto simp: unused_def)
    qed
    then show ?thesis using client_inv [OF g 2 assms(4)] assms(1) unfolding run_inv_def by blast
  qed (use assms(1) in simp)
qed

lemma run_step_inv: "run_step R view c c' \<Longrightarrow> run_inv view c \<Longrightarrow> run_inv view c'"
proof (induction rule: run_step.induct)
  case (thread s p s' p' ds)
  then have g: "gc_inv view (s, p)"
    and d: "\<forall>d \<in> set ds. \<exists>ks. set ks \<subseteq> set (fst d) \<and> del_batch (view (ldb s)) ks (snd d)"
    unfolding run_inv_def by blast+
  have "\<forall>d \<in> set ds. \<exists>ks. set ks \<subseteq> set (fst d) \<and> del_batch (view (ldb s')) ks (snd d)"
    by (rule del_batches_keep [OF d]) (rule bg_step_live [OF thread(1) g])
  then show ?case using bg_step_inv [OF thread(1) g] thread(2) unfolding run_inv_def by blast
next
  case (data_command key s s' ds p)
  then show ?case using data_command_inv by blast
next
  case (del_read ks s r b n s' ds p)
  then show ?case using del_read_inv [OF _ refl refl] by blast
next
  case (expire_read s1 s clock ks s2 ds r b n s' p)
  have s1: "ldb s1 = ldb s" "tasks s1 = tasks s"
    using expire_read(1) by (simp_all add: load_expiration_keys_from_db_def Let_def)
  have "distinct ks" "ldb s2 = ldb s" "tasks s2 = tasks s" using expire_collect_frame [OF expire_read(3)] s1 by simp_all
  then show ?case using del_read_inv expire_read(4-6) by blast
next
  case (del_commit s b ok s' p ds ks es)
  then show ?case using del_commit_inv by blast
next
  case (flush major s cs r s' cs')
  with flushdb_view [of major s cs] have "view (ldb s') = Map.empty" "tasks s' = []" by auto
  then show ?case using gc_inv_empty [of view s'] by (simp add: run_inv_def)
qed

lemma runs_inv: "(run_step R view)\<^sup>*\<^sup>* c c' \<Longrightarrow> run_inv view c \<Longrightarrow> run_inv view c'"
  by (induction rule: rtranclp_induct) (auto intro: run_step_inv)

end

lemma run_inv_empty: "view (ldb s) = Map.empty \<Longrightarrow> tasks s = [] \<Longrightarrow> run_inv view (s, Idle, [])"
  using gc_inv_empty [of view s] by (simp add: run_inv_def)

section \<open>An example run\<close>

context rocksdb_healthy
begin

text \<open>A hash set of a key that does not exist.\<close>

lemma hset_absent:
  assumes "absent (view (ldb s)) key w" "view (ldb s) (encode_hash_key key f w) = None"
  obtains db where "hset R s key f x 0 = (1, 1, s\<lparr>ldb := db\<rparr>)"
    "view db = (view (ldb s))(encode_hash_key key f w \<mapsto> x, encode_meta_key key \<mapsto> encode_hash_meta_val 1 w KEY_ENABLED_MASK)"
proof -
  let ?b = "[Put (encode_hash_key key f w) x, Put (encode_meta_key key) (encode_hash_meta_val 1 w KEY_ENABLED_MASK)]"
  from hc.get_absent [OF assms(1)] obtain hv where hv: "GetHashMetaVal R s (encode_meta_key key) = (0, hv)"
    "mv_length hv = 0" "mv_version hv = w" by (auto simp: coll_meta_def)
  have "GetHashItemValInternal R s (encode_hash_key key f w) = (0, [])"
    by (simp add: GetHashItemValInternal_def Get_view assms(2))
  then have "hset R s key f x 0 = (1, 1, s\<lparr>ldb := snd (db_Write R (ldb s) ?b)\<rparr>)"
    using hv hc.incr_first [of hv 1 s key "[Put (encode_hash_key key f w) x]"]
    by (simp add: hset_def hsetCommon_def hset_one_def Let_def commit_incr_def CommitBatch_view encode_hash_meta_val_def)
  moreover have "view (snd (db_Write R (ldb s) ?b)) = (view (ldb s))(encode_hash_key key f w \<mapsto> x,
      encode_meta_key key \<mapsto> encode_hash_meta_val 1 w KEY_ENABLED_MASK)"
    by (simp add: Write_view)
  ultimately show thesis using that by blast
qed

text \<open>The reading half of a DEL of one key.\<close>

lemma multi_del_loop_one:
  assumes "meta_is (view (ldb s)) key KEY_ENABLED_MASK v"
  obtains b s' mv where "multi_del_loop R [key] [] 0 s = (1, b, 1, s')" "ldb s' = ldb s" "tasks s' = tasks s"
    "\<forall>m. meta_is (apply_batch b m) key KEY_DELETE_MASK v"
    "\<forall>m x. \<not> expiry_key x \<longrightarrow> apply_batch b m x = (m(encode_meta_key key \<mapsto> mv, encode_delete_key key v \<mapsto> [])) x"
    "\<forall>m x. expiry_key x \<longrightarrow> m x = None \<longrightarrow> apply_batch b m x = None"
proof -
  let ?k = "encode_meta_key key"
  from assms obtain t q where mv0: "view (ldb s) ?k = Some (t # raw16 (htobe16 v) @ KEY_ENABLED_MASK # q)"
    unfolding meta_is_def by blast
  define mv where "mv = t # raw16 (htobe16 v) @ KEY_ENABLED_MASK # q"
  define mv' where "mv' = mv[POS_DEL := KEY_DELETE_MASK]"
  have mv: "view (ldb s) ?k = Some mv" "length mv \<ge> 4" "mv ! POS_DEL = KEY_ENABLED_MASK" "meta_version mv = v"
    using mv0 by (simp_all add: mv_def POS_DEL_def str_pos_del meta_version_def)
  let ?b = "[Put ?k mv', Put (encode_delete_key key v) []]"
  obtain y b s1 where c: "cancelExpiration R s key ?b = (y, b, s1)" by (metis prod_cases3)
  have s1: "ldb s1 = ldb s" "tasks s1 = tasks s"
    using ce.cancel_db [of R s key ?b] cancel_tasks [OF c] c by simp_all
  from ce.cancel_appends [of R s key ?b] c obtain dels where
    b: "b = ?b @ map Delete dels" "set dels \<subseteq> insert (encode_eset_key key) (range (encode_escore_key key))" by auto
  have d: "multi_del_loop R [key] [] 0 s = (1, b, 1, s1)"
    using mv c meta_version_upd [OF mv(2), of KEY_DELETE_MASK]
    by (simp add: del_key_internal_def Get_view mark_key_deleted_def Let_def meta_version_def mv'_def)
  have ap: "apply_batch b m x = (if x \<in> set dels then None else (m(?k \<mapsto> mv', encode_delete_key key v \<mapsto> [])) x)" for m x
    by (simp add: b(1) apply_batch_deletes)
  have ex: "expiry_key x" if "x \<in> set dels" for x using that b(2) by auto
  have ne: "x \<notin> set dels" if "\<not> expiry_key x" for x using ex that by blast
  have "meta_is (apply_batch b m) key KEY_DELETE_MASK v" for m
    using meta_is_deleted [OF mv(2), of "apply_batch b m" key KEY_DELETE_MASK] mv(4) ne [of ?k] by (simp add: ap mv'_def)
  moreover have "apply_batch b m x = None" if "expiry_key x" "m x = None" for m x
    using that by (auto simp: ap encode_delete_key_def DELETE_def KEY_DELETE_MASK_def EKEY_def ESCORE_def META_def encode_meta_key_def)
  ultimately show thesis using that [OF d s1] ne ap by simp
qed

end

lemma first_hash_meta: "meta_is (first_hash key f x) key KEY_ENABLED_MASK 0"
  by (simp add: meta_is_def first_hash_def encode_hash_meta_val_def encode_meta_val_internal_def)

text \<open>
  A hash is written and deleted, the thread takes its delete key and scans, and then the key is
  written again, all in the memory database.
\<close>

lemma example_run:
  "\<exists>s1 b s2 s3 x dk c s4 s5. hset mem_rocksdb empty_store [107] [102] [120] 0 = (1, 1, s1) \<and>
     multi_del_loop mem_rocksdb [[107]] [] 0 s1 = (1, b, 1, s2) \<and> CommitBatch mem_rocksdb s2 b = (True, s3) \<and>
     (run_step mem_rocksdb map_of)\<^sup>*\<^sup>* (empty_store, Idle, []) (s3, Idle, []) \<and>
     meta_is (map_of (ldb s3)) [107] KEY_DELETE_MASK 0 \<and>
     (run_step mem_rocksdb map_of)\<^sup>*\<^sup>* (s3, Idle, []) (s4, ScoresScanned x dk c, []) \<and>
     hset mem_rocksdb s4 [107] [102] [121] 0 = (1, 1, s5) \<and> meta_is (map_of (ldb s5)) [107] KEY_ENABLED_MASK 1 \<and>
     (run_step mem_rocksdb map_of)\<^sup>*\<^sup>* (s3, Idle, []) (s5, ScoresScanned x dk c, [])"
proof -
  let ?R = mem_rocksdb and ?k = "[107] :: bytes" and ?step = "run_step mem_rocksdb map_of"
  have e: "map_of (ldb empty_store) = Map.empty" "tasks empty_store = []" by (simp_all add: empty_store_def)
  from mem.hset_first [OF e(1), of ?k "[102]" "[120]"] obtain db1 where
    1: "hset ?R empty_store ?k [102] [120] 0 = (1, 1, empty_store\<lparr>ldb := db1\<rparr>)" "map_of db1 = first_hash ?k [102] [120]" .
  let ?s1 = "empty_store\<lparr>ldb := db1\<rparr>"
  have no_meta: "\<not> meta_is Map.empty ?k d v" for d v by (simp add: meta_is_def)
  have c1: "?step (empty_store, Idle, []) (?s1, Idle, [])"
    by (rule run_step.data_command [OF do_hset [where h = Map.empty, OF 1(1)]])
      (simp_all add: e no_meta unused_def coll_rep_def absent_def)
  have m1: "meta_is (map_of (ldb ?s1)) ?k KEY_ENABLED_MASK 0" using first_hash_meta 1(2) by simp
  from mem.multi_del_loop_one [OF m1] obtain b s2 mv where
    d: "multi_del_loop ?R [?k] [] 0 ?s1 = (1, b, 1, s2)" "ldb s2 = ldb ?s1" "tasks s2 = tasks ?s1"
      "\<forall>m. meta_is (apply_batch b m) ?k KEY_DELETE_MASK 0"
      "\<forall>m x. \<not> expiry_key x \<longrightarrow> apply_batch b m x = (m(encode_meta_key ?k \<mapsto> mv, encode_delete_key ?k 0 \<mapsto> [])) x"
      "\<forall>m x. expiry_key x \<longrightarrow> m x = None \<longrightarrow> apply_batch b m x = None" .
  have "ldb s2 = db1" "tasks s2 = []" using d(2,3) e(2) by simp_all
  note 2 = d(1) this d(4-6) [rule_format]
  have c2: "?step (?s1, Idle, []) (s2, Idle, [([?k], b)])"
    using run_step.del_read [OF 2(1), of "[]" map_of Idle] by (simp add: unused_def)
  let ?s3 = "s2\<lparr>ldb := snd (db_Write ?R db1 b)\<rparr>"
  have 3: "CommitBatch ?R s2 b = (True, ?s3)" using mem.CommitBatch_view [of s2 b] 2(2) by simp
  have c3: "?step (s2, Idle, [([?k], b)]) (?s3, Idle, [])"
    using run_step.del_commit [OF 3, of map_of Idle "[]" "[?k]" "[]"] by simp
  have v3: "map_of (ldb ?s3) = apply_batch b (first_hash ?k [102] [120])" using mem.Write_view [of db1 b] 1(2) by simp
  have m3: "meta_is (map_of (ldb ?s3)) ?k KEY_DELETE_MASK 0" unfolding v3 by (rule 2(4))
  have r3: "?step\<^sup>*\<^sup>* (empty_store, Idle, []) (?s3, Idle, [])"
    using c1 c2 c3 by (meson rtranclp.rtrancl_into_rtrancl rtranclp.rtrancl_refl)
  have inv: "run_inv map_of (?s3, Idle, [])" by (rule memd.runs_inv [OF r3 run_inv_empty]) (simp_all add: e)
  then have g3: "gc_inv map_of (?s3, Idle)" by (simp add: run_inv_def)
  have dom: "dom (map_of (ldb ?s3)) \<subseteq> {encode_meta_key ?k, encode_hash_key ?k [102] 0, encode_delete_key ?k 0}"
  proof
    fix x
    assume x: "x \<in> dom (map_of (ldb ?s3))"
    show "x \<in> {encode_meta_key ?k, encode_hash_key ?k [102] 0, encode_delete_key ?k 0}"
    proof (rule ccontr)
      assume n: "x \<notin> {encode_meta_key ?k, encode_hash_key ?k [102] 0, encode_delete_key ?k 0}"
      then have "first_hash ?k [102] [120] x = None" by (simp add: first_hash_def)
      then have "apply_batch b (first_hash ?k [102] [120]) x = None"
        using n 2(5) [of x "first_hash ?k [102] [120]"] 2(6) [of x "first_hash ?k [102] [120]"]
        by (cases "expiry_key x") auto
      with x show False unfolding v3 domIff by simp
    qed
  qed
  have "card (dom (map_of (ldb ?s3))) \<le> card {encode_meta_key ?k, encode_hash_key ?k [102] 0, encode_delete_key ?k 0}"
    by (rule card_mono [OF _ dom]) simp
  also have "\<dots> \<le> 3" using card_length [of "[encode_meta_key ?k, encode_hash_key ?k [102] 0, encode_delete_key ?k 0]"] by simp
  finally have card: "card (dom (map_of (ldb ?s3))) < 2 ^ 64" by simp
  have i3: "keys_wf (map_of (ldb ?s3))" "queue_ok (map_of (ldb ?s3)) (tasks ?s3)" "reclaim_ok (map_of (ldb ?s3)) ?k"
    using g3 by (simp_all add: gc_inv_def)
  have "pending (map_of (ldb ?s3)) ?k 0" using i3(3) m3 unfolding reclaim_ok_def by blast
  then have dk: "delete_keys (map_of (ldb ?s3)) \<noteq> {}" using pending_delete_keys by blast
  obtain x s4 where t: "bg_take ?R ?s3 = (x, s4)" by force
  note spec = mem.bg_take_spec [OF i3(1,2) t]
  have ne: "x \<noteq> []" using mem.bg_take_Nil [OF i3(1) _ i3(2)] t dk by auto
  then have "gc_inv map_of (s4, Taken x)" using g3 spec by (simp add: gc_inv_def)
  from mem.taken_decode [OF this] obtain dk where dk: "DecodeDeleteKey x = Some dk" by blast
  let ?c = "gc_scan_scores ?R s4 dk (gc_scan_items ?R s4 dk)"
  have card4: "card (dom (map_of (ldb s4))) < 2 ^ 64" using card spec(1) by simp
  have r4: "?step\<^sup>*\<^sup>* (?s3, Idle, []) (s4, ScoresScanned x dk ?c, [])"
    using run_step.thread [OF take_task [OF t ne]] run_step.thread [OF scan_items [where view = map_of, OF dk card4]]
      run_step.thread [OF scan_scores [where view = map_of, OF card4]]
    by (meson rtranclp.rtrancl_into_rtrancl rtranclp.rtrancl_refl)
  have m4: "meta_is (map_of (ldb s4)) ?k KEY_DELETE_MASK 0" using m3 spec(1) by simp
  then have ab: "absent (map_of (ldb s4)) ?k 1" unfolding absent_meta by (intro disjI2 exI [of _ 0]) (simp add: next_version_def)
  have no: "\<not> meta_is (map_of (ldb s4)) ?k KEY_DELETE_MASK UINT16_MAX" using meta_is_unique [OF m4] by fastforce
  have "run_inv map_of (s4, ScoresScanned x dk ?c, [])" by (rule memd.runs_inv [OF r4 inv])
  then have g4: "gc_inv map_of (s4, ScoresScanned x dk ?c)" by (simp add: run_inv_def)
  have "fresh (map_of (ldb s4)) ?k" by (rule gc_inv_fresh [of map_of, OF g4 _ no]) simp
  then have "map_of (ldb s4) (encode_hash_key ?k [102] 1) = None"
    using ab unfolding fresh_def no_items_def encode_hash_key_def by blast
  from mem.hset_absent [OF ab this, of "[121]"] obtain db5 where
    5: "hset ?R s4 ?k [102] [121] 0 = (1, 1, s4\<lparr>ldb := db5\<rparr>)"
      "map_of db5 = (map_of (ldb s4))(encode_hash_key ?k [102] 1 \<mapsto> [121],
         encode_meta_key ?k \<mapsto> encode_hash_meta_val 1 1 KEY_ENABLED_MASK)" .
  have rep: "hash_rep (map_of (ldb s4)) ?k Map.empty" using ab by (auto simp: coll_rep_def)
  have c5: "?step (s4, ScoresScanned x dk ?c, []) (s4\<lparr>ldb := db5\<rparr>, ScoresScanned x dk ?c, [])"
    by (rule run_step.data_command [OF do_hset [where view = map_of, OF 5(1) rep] _ no]) (simp_all add: unused_def)
  have m5: "meta_is (map_of (ldb (s4\<lparr>ldb := db5\<rparr>))) ?k KEY_ENABLED_MASK 1"
    using 5(2) by (simp add: meta_is_def encode_hash_meta_val_def encode_meta_val_internal_def)
  show ?thesis
    using 1(1) 2(1) 3 r3 m3 r4 5(1) m5 rtranclp.rtrancl_into_rtrancl [OF r4 c5] by blast
qed

section \<open>Properties\<close>





text \<open>
  C15: DELs take no lock, and two of them that overlap lose what is written between them. A DEL reads a live
  key; a second DEL of the key completes; a client writes a hash under the key, with success, and reads it
  back; then the first DEL commits what it read. Both DELs count the key. The
  new hash is gone, its fields stay in the store without a delete key, so that the invariant of
  deletion is broken, and the next hash written under the key contains the lost field, which its size
  does not count.
\<close>

theorem multi_del_race:
  assumes "rocksdb_healthy R view" "gc_inv view (s, p)" "long_enough key"
    "meta_is (view (ldb s)) key KEY_ENABLED_MASK v" "v \<noteq> UINT16_MAX" "f \<noteq> g"
  shows "\<exists>b s1 s2 s3 s4 s5. multi_del_loop R [key] [] 0 s = (1, b, 1, s1) \<and> multi_del R s1 [key] 0 = (1, 1, s2) \<and>
    hset R s2 key f x 0 = (1, 1, s3) \<and> hget R s3 key f ([], False) = (1, x, True) \<and>
    CommitBatch R s3 b = (True, s4) \<and> hget R s4 key f ([], False) = (0, [], False) \<and>
    \<not> reclaim_ok (view (ldb s4)) key \<and> hset R s4 key g y 0 = (1, 1, s5) \<and>
    hsize R s5 key 0 = (1, 1) \<and> hget R s5 key f ([], False) = (1, x, True)"
proof -
  let ?k = "encode_meta_key key" and ?w = "next_version v"
  let ?f = "encode_hash_key key f ?w" and ?g = "encode_hash_key key g ?w" and ?d = "encode_delete_key key ?w"
  have ok: "reclaim_ok (view (ldb s)) key" using assms(2,3) by (simp add: gc_inv_def)
  have less: "v < ?w" using next_version_greater [OF assms(5)] .
  have np: "\<not> pending (view (ldb s)) key ?w"
    using ok assms(4) less meta_is_unique unfolding reclaim_ok_def by (metis masks_differ(1) order_less_asym)
  have nm: "\<not> meta_is (view (ldb s)) key KEY_ENABLED_MASK ?w"
  proof
    assume "meta_is (view (ldb s)) key KEY_ENABLED_MASK ?w"
    from meta_is_unique [OF assms(4) this] have "v = ?w" by simp
    with less show False by (metis order.irrefl)
  qed
  have none: "view (ldb s) (encode_hash_key key h ?w) = None" for h
    using reclaim_ok_item [OF ok, of ITEM h ?w] np nm unfolding encode_hash_key_def by blast
  note one = rocksdb_healthy.multi_del_loop_one [OF assms(1)]
  from one [OF assms(4)] obtain b s1 mv where
    d1: "multi_del_loop R [key] [] 0 s = (1, b, 1, s1)" "ldb s1 = ldb s"
      "\<forall>m. meta_is (apply_batch b m) key KEY_DELETE_MASK v"
      "\<forall>m x. \<not> expiry_key x \<longrightarrow> apply_batch b m x = (m(?k \<mapsto> mv, encode_delete_key key v \<mapsto> [])) x" .
  note 1 = d1(1,2) d1(3,4) [rule_format]
  have "meta_is (view (ldb s1)) key KEY_ENABLED_MASK v" using assms(4) 1(2) by simp
  from one [OF this] obtain b' s1' mv' where
    d2: "multi_del_loop R [key] [] 0 s1 = (1, b', 1, s1')" "ldb s1' = ldb s1"
      "\<forall>m. meta_is (apply_batch b' m) key KEY_DELETE_MASK v"
      "\<forall>m x. \<not> expiry_key x \<longrightarrow> apply_batch b' m x = (m(?k \<mapsto> mv', encode_delete_key key v \<mapsto> [])) x" .
  note 2 = d2(1,2) d2(3,4) [rule_format]
  define s2 where "s2 = snd (CommitBatch R s1' b')"
  have del2: "multi_del R s1 [key] 0 = (1, 1, s2)"
    using 2(1) by (simp add: multi_del_def s2_def rocksdb_healthy.CommitBatch_view [OF assms(1)])
  have v2: "view (ldb s2) = apply_batch b' (view (ldb s))"
    using 1(2) 2(2) by (simp add: s2_def rocksdb_healthy.view_CommitBatch [OF assms(1)])
  have abs: "absent m key ?w" if "meta_is m key KEY_DELETE_MASK v" for m using that unfolding absent_meta by blast
  have a2: "absent (view (ldb s2)) key ?w" unfolding v2 by (rule abs [OF 2(3)])
  have "view (ldb s2) ?f = None" unfolding v2 using 2(4) [of ?f] none by (simp add: encode_hash_key_def)
  from rocksdb_healthy.hset_absent [OF assms(1) a2 this, of x] obtain db3 where
    3: "hset R s2 key f x 0 = (1, 1, s2\<lparr>ldb := db3\<rparr>)"
      "view db3 = (view (ldb s2))(?f \<mapsto> x, ?k \<mapsto> encode_hash_meta_val 1 ?w KEY_ENABLED_MASK)" .
  let ?s3 = "s2\<lparr>ldb := db3\<rparr>"
  define s4 where "s4 = snd (CommitBatch R ?s3 b)"
  have c4: "CommitBatch R ?s3 b = (True, s4)"
    by (simp add: s4_def rocksdb_healthy.CommitBatch_view [OF assms(1)])
  have v4: "view (ldb s4) = apply_batch b (view db3)"
    by (simp add: s4_def rocksdb_healthy.view_CommitBatch [OF assms(1)])
  have m4: "meta_is (view (ldb s4)) key KEY_DELETE_MASK v" unfolding v4 by (rule 1(3))
  have f4: "view (ldb s4) ?f = Some x" unfolding v4 using 1(4) [of ?f] 3(2) by (simp add: encode_hash_key_def)
  have g4: "view (ldb s4) ?g = None"
    unfolding v4 using 1(4) [of ?g] 2(4) [of ?g] 3(2) none [of g] assms(6) by (simp add: encode_hash_key_def v2)
  have nd: "?w \<noteq> v" using less by (metis order.irrefl)
  have ne: "\<not> expiry_key ?d" by (simp add: encode_delete_key_def DELETE_def KEY_DELETE_MASK_def EKEY_def ESCORE_def)
  have "view (ldb s4) ?d = None"
    unfolding v4 1(4) [OF ne] using 2(4) [OF ne] 3(2) np nd encode_delete_key_inj [OF assms(3,3)]
    by (simp add: encode_hash_key_def v2 pending_def)
  then have broken: "\<not> reclaim_ok (view (ldb s4)) key"
    using reclaim_ok_item [of "view (ldb s4)" key ITEM f ?w] f4 meta_is_unique [OF m4, of KEY_ENABLED_MASK ?w]
    unfolding pending_def encode_hash_key_def by auto
  from rocksdb_healthy.hset_absent [OF assms(1) abs [OF m4] g4, of y] obtain db5 where
    5: "hset R s4 key g y 0 = (1, 1, s4\<lparr>ldb := db5\<rparr>)"
      "view db5 = (view (ldb s4))(?g \<mapsto> y, ?k \<mapsto> encode_hash_meta_val 1 ?w KEY_ENABLED_MASK)" .
  let ?s5 = "s4\<lparr>ldb := db5\<rparr>"
  have get: "hget R s' key f ([], False) = (1, x, True) \<and> hsize R s' key 0 = (1, 1)"
    if "view (ldb s') ?k = Some (encode_hash_meta_val 1 ?w KEY_ENABLED_MASK)" "view (ldb s') ?f = Some x" for s'
    using that by (simp add: hget_def hsize_def GetHashMetaVal_def GetHashItemValInternal_def
        rocksdb_healthy.Get_view [OF assms(1)] encode_hash_meta_val_def DecodeMetaVal_encode Let_def)
  have "hget R ?s3 key f ([], False) = (1, x, True)" using get [of ?s3] 3(2) by (simp add: encode_hash_key_def)
  moreover have "hget R ?s5 key f ([], False) = (1, x, True) \<and> hsize R ?s5 key 0 = (1, 1)"
    using get [of ?s5] 5(2) f4 assms(6) by (simp add: encode_hash_key_def)
  moreover have "hget R s4 key f ([], False) = (0, [], False)"
    using m4 by (auto simp: meta_is_def hget_def GetHashMetaVal_def rocksdb_healthy.Get_view [OF assms(1)]
        DecodeMetaVal_deleted Let_def)
  ultimately show ?thesis using 1(1) del2 3(1) c4 broken 5(1) by blast
qed

theorem multi_del_race_witness:
  "\<exists>s1 b s2 s3 s4 s5. multi_del_loop mem_rocksdb [[107]] [] 0 run_written = (1, b, 1, s1) \<and>
     multi_del mem_rocksdb s1 [[107]] 0 = (1, 1, s2) \<and> hset mem_rocksdb s2 [107] [102] [121] 0 = (1, 1, s3) \<and>
     CommitBatch mem_rocksdb s3 b = (True, s4) \<and> hset mem_rocksdb s4 [107] [103] [122] 0 = (1, 1, s5) \<and>
     hsize mem_rocksdb s5 [107] 0 = (1, 1) \<and> hget mem_rocksdb s5 [107] [102] ([], False) = (1, [121], True)"
  using multi_del_race [OF mem.rocksdb_healthy_axioms run_written_inv _ run_written_meta, of "[102]" "[103]" "[121]" "[122]"]
  by auto

end
