(* ===== verification/Ziplist.thy ===== *)
theory Ziplist
  imports Rdb
begin

text \<open>
  The compact encodings RESTORE reads: ziplists (\<^verbatim>\<open>src/src/redis/ziplist.c\<close>, the functions that encode and
  decode entries and walk over them) and sets of integers (\<^verbatim>\<open>src/src/redis/intset.c\<close>), with
  \<^verbatim>\<open>getNextString\<close> of \<^verbatim>\<open>src/src/storage/t_keys.cpp\<close>. The memory of a blob is its bytes and the zero byte
  that \<^verbatim>\<open>std::string\<close> puts behind them; a read outside is an \<open>OutOfBounds\<close> result, and a
  failed \<^verbatim>\<open>assert\<close>, which ends the process, is \<open>CorruptExit\<close>. Pointers are positions; the functions
  that decode one entry take the bytes from the entry on.
\<close>

section \<open>Reading memory\<close>

fun sbind :: "'e + 'a \<Rightarrow> ('a \<Rightarrow> 'e + 'b) \<Rightarrow> 'e + 'b" where
  "sbind (Inl e) f = Inl e"
| "sbind (Inr x) f = f x"

definition byte_at :: "bytes \<Rightarrow> nat \<Rightarrow> rdb_abort + byte" where
  "byte_at q i = (if i < length q then Inr (q ! i) else Inl OutOfBounds)"

definition bytes_at :: "bytes \<Rightarrow> nat \<Rightarrow> nat \<Rightarrow> rdb_abort + bytes" where
  "bytes_at q i n = (if i + n \<le> length q then Inr (take n (drop i q)) else Inl OutOfBounds)"

section \<open>Ziplist entries\<close>

definition ZIP_END :: byte where "ZIP_END = 255"
definition ZIP_BIGLEN :: byte where "ZIP_BIGLEN = 254"
definition ZIP_STR_MASK :: byte where "ZIP_STR_MASK = 192"
definition ZIP_STR_06B :: byte where "ZIP_STR_06B = 0"
definition ZIP_STR_14B :: byte where "ZIP_STR_14B = 64"
definition ZIP_STR_32B :: byte where "ZIP_STR_32B = 128"
definition ZIP_INT_16B :: byte where "ZIP_INT_16B = 192"
definition ZIP_INT_32B :: byte where "ZIP_INT_32B = 208"
definition ZIP_INT_64B :: byte where "ZIP_INT_64B = 224"
definition ZIP_INT_24B :: byte where "ZIP_INT_24B = 240"
definition ZIP_INT_8B :: byte where "ZIP_INT_8B = 254"
definition ZIP_INT_IMM_MASK :: byte where "ZIP_INT_IMM_MASK = 15"
definition ZIP_INT_IMM_MIN :: byte where "ZIP_INT_IMM_MIN = 241"
definition ZIP_INT_IMM_MAX :: byte where "ZIP_INT_IMM_MAX = 253"
definition ZIPLIST_HEADER_SIZE :: nat where "ZIPLIST_HEADER_SIZE = 10"

lemmas zip_consts = ZIP_END_def ZIP_BIGLEN_def ZIP_STR_MASK_def ZIP_STR_06B_def ZIP_STR_14B_def ZIP_STR_32B_def
  ZIP_INT_16B_def ZIP_INT_32B_def ZIP_INT_64B_def ZIP_INT_24B_def ZIP_INT_8B_def ZIP_INT_IMM_MASK_def
  ZIP_INT_IMM_MIN_def ZIP_INT_IMM_MAX_def

definition ZIP_IS_STR :: "byte \<Rightarrow> bool" where
  "ZIP_IS_STR enc \<longleftrightarrow> enc AND ZIP_STR_MASK < ZIP_STR_MASK"

definition ZIP_ENTRY_ENCODING :: "byte \<Rightarrow> byte" where
  "ZIP_ENTRY_ENCODING b = (if b < ZIP_STR_MASK then b AND ZIP_STR_MASK else b)"

definition zipIntSize :: "byte \<Rightarrow> nat" where
  "zipIntSize encoding =
     (if encoding = ZIP_INT_8B then 1 else if encoding = ZIP_INT_16B then 2 else if encoding = ZIP_INT_24B then 3
      else if encoding = ZIP_INT_32B then 4 else if encoding = ZIP_INT_64B then 8 else 0)"

text \<open>Encoders of the parts of an entry; the bytes they store.\<close>

definition zipEncodeLength :: "byte \<Rightarrow> nat \<Rightarrow> bytes" where
  "zipEncodeLength encoding rawlen =
     (if ZIP_IS_STR encoding then
        if rawlen \<le> 63 then [ZIP_STR_06B OR word_of_nat rawlen]
        else if rawlen \<le> 16383 then [ZIP_STR_14B OR (word_of_nat (rawlen div 256) AND 63), word_of_nat (rawlen mod 256)]
        else [ZIP_STR_32B, word_of_nat (rawlen div 16777216 mod 256), word_of_nat (rawlen div 65536 mod 256),
              word_of_nat (rawlen div 256 mod 256), word_of_nat (rawlen mod 256)]
      else [encoding])"

definition zipPrevEncodeLength :: "nat \<Rightarrow> bytes" where
  "zipPrevEncodeLength len = (if len < 254 then [word_of_nat len] else ZIP_BIGLEN # le_encode 4 len)"

definition zipTryEncoding :: "bytes \<Rightarrow> (int \<times> byte) option" where
  "zipTryEncoding entry =
     (if length entry \<ge> 32 \<or> length entry = 0 then None
      else
        (case string2ll entry of
           None \<Rightarrow> None
         | Some v \<Rightarrow> Some (v,
             if v \<ge> 0 \<and> v \<le> 12 then ZIP_INT_IMM_MIN + word_of_int v
             else if v \<ge> -128 \<and> v \<le> 127 then ZIP_INT_8B
             else if v \<ge> -32768 \<and> v \<le> 32767 then ZIP_INT_16B
             else if v \<ge> -8388608 \<and> v \<le> 8388607 then ZIP_INT_24B
             else if v \<ge> -2147483648 \<and> v \<le> 2147483647 then ZIP_INT_32B
             else ZIP_INT_64B)))"

definition zipSaveInteger :: "int \<Rightarrow> byte \<Rightarrow> rdb_abort + bytes" where
  "zipSaveInteger v encoding =
     (if encoding = ZIP_INT_8B then Inr [word_of_int v]
      else if encoding = ZIP_INT_16B then Inr (le_encode 2 (unat (word_of_int v :: 16 word)))
      else if encoding = ZIP_INT_24B then Inr (drop 1 (le_encode 4 (unat (push_bit 8 (word_of_int v :: 32 word)))))
      else if encoding = ZIP_INT_32B then Inr (le_encode 4 (unat (word_of_int v :: 32 word)))
      else if encoding = ZIP_INT_64B then Inr (raw64 (word_of_int v))
      else if encoding \<ge> ZIP_INT_IMM_MIN \<and> encoding \<le> ZIP_INT_IMM_MAX then Inr []
      else Inl CorruptExit)"

text \<open>Decoders. \<open>q\<close> is the memory from the entry, or the part of it, on.\<close>

definition ZIP_DECODE_PREVLENSIZE :: "bytes \<Rightarrow> rdb_abort + nat" where
  "ZIP_DECODE_PREVLENSIZE q = sbind (byte_at q 0) (\<lambda>b. Inr (if b < ZIP_BIGLEN then 1 else 5))"

definition ZIP_DECODE_PREVLEN :: "bytes \<Rightarrow> rdb_abort + (nat \<times> nat)" where
  "ZIP_DECODE_PREVLEN q =
     sbind (ZIP_DECODE_PREVLENSIZE q) (\<lambda>size.
       if size = 1 then sbind (byte_at q 0) (\<lambda>b. Inr (size, unat b))
       else sbind (bytes_at q 1 4) (\<lambda>bs. Inr (size, le_decode bs)))"

definition ZIP_DECODE_LENGTH :: "bytes \<Rightarrow> rdb_abort + (byte \<times> nat \<times> nat)" where
  "ZIP_DECODE_LENGTH q =
     sbind (byte_at q 0) (\<lambda>b.
       let encoding = ZIP_ENTRY_ENCODING b in
       if encoding < ZIP_STR_MASK then
         if encoding = ZIP_STR_06B then Inr (encoding, 1, unat (b AND 63))
         else if encoding = ZIP_STR_14B then
           sbind (byte_at q 1) (\<lambda>c. Inr (encoding, 2, unat (b AND 63) * 256 + unat c))
         else if encoding = ZIP_STR_32B then sbind (bytes_at q 1 4) (\<lambda>bs. Inr (encoding, 5, be_decode bs))
         else Inl CorruptExit
       else Inr (encoding, 1, zipIntSize encoding))"

text \<open>The length of an entry is an \<^verbatim>\<open>unsigned int\<close>.\<close>

definition zipRawEntryLength :: "bytes \<Rightarrow> rdb_abort + nat" where
  "zipRawEntryLength q =
     sbind (ZIP_DECODE_PREVLENSIZE q) (\<lambda>prevlensize.
       sbind (ZIP_DECODE_LENGTH (drop prevlensize q)) (\<lambda>(encoding, lensize, len).
         Inr ((prevlensize + lensize + len) mod 4294967296)))"

definition zipLoadInteger :: "bytes \<Rightarrow> byte \<Rightarrow> rdb_abort + int" where
  "zipLoadInteger q encoding =
     (if encoding = ZIP_INT_8B then sbind (byte_at q 0) (\<lambda>b. Inr (sint b))
      else if encoding = ZIP_INT_16B then
        sbind (bytes_at q 0 2) (\<lambda>bs. Inr (sint (word_of_nat (le_decode bs) :: 16 word)))
      else if encoding = ZIP_INT_32B then
        sbind (bytes_at q 0 4) (\<lambda>bs. Inr (sint (word_of_nat (le_decode bs) :: 32 word)))
      else if encoding = ZIP_INT_24B then
        sbind (bytes_at q 0 3) (\<lambda>bs. Inr (drop_bit 8 (sint (word_of_nat (le_decode (0 # bs)) :: 32 word))))
      else if encoding = ZIP_INT_64B then
        sbind (bytes_at q 0 8) (\<lambda>bs. Inr (sint (load64 bs)))
      else if encoding \<ge> ZIP_INT_IMM_MIN \<and> encoding \<le> ZIP_INT_IMM_MAX then
        Inr (uint (encoding AND ZIP_INT_IMM_MASK) - 1)
      else Inl CorruptExit)"

record zlentry =
  prevrawlensize :: nat
  prevrawlen :: nat
  lensize :: nat
  ze_len :: nat
  headersize :: nat
  ze_encoding :: byte

definition zipEntry :: "bytes \<Rightarrow> rdb_abort + zlentry" where
  "zipEntry q =
     sbind (ZIP_DECODE_PREVLEN q) (\<lambda>(ps, pl).
       sbind (ZIP_DECODE_LENGTH (drop ps q)) (\<lambda>(enc, ls, len).
         Inr \<lparr>prevrawlensize = ps, prevrawlen = pl, lensize = ls, ze_len = len, headersize = ps + ls, ze_encoding = enc\<rparr>))"

section \<open>Walking over a ziplist\<close>

text \<open>\<^verbatim>\<open>ziplistIndex\<close> for an index that is not negative, the only use the program makes of it.\<close>

fun ziplist_skip :: "bytes \<Rightarrow> nat \<Rightarrow> nat \<Rightarrow> rdb_abort + nat \<times> int" where
  "ziplist_skip zl p index =
     sbind (byte_at zl p) (\<lambda>b.
       if b = ZIP_END then Inr (p, int index)
       else (case index of
               0 \<Rightarrow> Inr (p, -1)
             | Suc i \<Rightarrow> sbind (zipRawEntryLength (drop p zl)) (\<lambda>n. ziplist_skip zl (p + n) i)))"

declare ziplist_skip.simps [simp del]

definition ziplistIndex :: "bytes \<Rightarrow> nat \<Rightarrow> rdb_abort + nat option" where
  "ziplistIndex zl index =
     sbind (ziplist_skip zl ZIPLIST_HEADER_SIZE index) (\<lambda>(p, index).
       sbind (byte_at zl p) (\<lambda>b. Inr (if b = ZIP_END \<or> index > 0 then None else Some p)))"

definition ziplistNext :: "bytes \<Rightarrow> nat \<Rightarrow> rdb_abort + nat option" where
  "ziplistNext zl p =
     sbind (byte_at zl p) (\<lambda>b.
       if b = ZIP_END then Inr None
       else
         sbind (zipRawEntryLength (drop p zl)) (\<lambda>n.
           sbind (byte_at zl (p + n)) (\<lambda>b. Inr (if b = ZIP_END then None else Some (p + n)))))"

text \<open>Nothing where the function returns 0; otherwise the position and length of a text, or an integer.\<close>

definition ziplistGet :: "bytes \<Rightarrow> nat option \<Rightarrow> rdb_abort + ((nat \<times> nat) + int) option" where
  "ziplistGet zl p =
     (case p of
        None \<Rightarrow> Inr None
      | Some p \<Rightarrow>
          sbind (byte_at zl p) (\<lambda>b.
            if b = ZIP_END then Inr None
            else
              sbind (zipEntry (drop p zl)) (\<lambda>entry.
                if ZIP_IS_STR (ze_encoding entry) then Inr (Some (Inl (p + headersize entry, ze_len entry)))
                else sbind (zipLoadInteger (drop (p + headersize entry) zl) (ze_encoding entry)) (\<lambda>v. Inr (Some (Inr v))))))"

text \<open>The text of the entry and the next position, or nothing at the end.\<close>

definition getNextString :: "bytes \<Rightarrow> nat option \<Rightarrow> rdb_abort + (bytes \<times> nat option) option" where
  "getNextString zl p =
     sbind (ziplistGet zl p) (\<lambda>r.
       case r of
         None \<Rightarrow> Inr None
       | Some v \<Rightarrow>
           sbind (case v of Inl (pos, sz) \<Rightarrow> bytes_at zl pos sz | Inr longval \<Rightarrow> Inr (str_int64 longval)) (\<lambda>ret_res.
             sbind (ziplistNext zl (the p)) (\<lambda>p. Inr (Some (ret_res, p)))))"

section \<open>Sets of integers\<close>

definition intsetLen :: "bytes \<Rightarrow> rdb_abort + nat" where
  "intsetLen is = sbind (bytes_at is 4 4) (\<lambda>bs. Inr (le_decode bs))"

text \<open>The encoding is read as 32 bits and passed on as a \<^verbatim>\<open>uint8_t\<close>; a position is an \<^verbatim>\<open>int\<close>.\<close>

definition intsetGetEncoded :: "bytes \<Rightarrow> nat \<Rightarrow> nat \<Rightarrow> rdb_abort + int" where
  "intsetGetEncoded is pos enc =
     (if enc = 8 then sbind (bytes_at is (8 + pos * 8) 8) (\<lambda>bs. Inr (sint (load64 bs)))
      else if enc = 4 then sbind (bytes_at is (8 + pos * 4) 4) (\<lambda>bs. Inr (sint (word_of_nat (le_decode bs) :: 32 word)))
      else sbind (bytes_at is (8 + pos * 2) 2) (\<lambda>bs. Inr (sint (word_of_nat (le_decode bs) :: 16 word))))"

definition intsetGet :: "bytes \<Rightarrow> nat \<Rightarrow> rdb_abort + int option" where
  "intsetGet is pos =
     sbind (intsetLen is) (\<lambda>len.
       if pos < len then
         sbind (bytes_at is 0 4) (\<lambda>e.
           sbind (intsetGetEncoded is pos (le_decode e mod 256)) (\<lambda>v. Inr (Some v)))
       else Inr None)"

section \<open>Reading entries back\<close>

text \<open>An entry as \<^verbatim>\<open>__ziplistInsert\<close> writes it behind an entry of length \<open>prevlen\<close>.\<close>

definition ziplist_entry :: "nat \<Rightarrow> bytes \<Rightarrow> bytes" where
  "ziplist_entry prevlen s =
     zipPrevEncodeLength prevlen @
     (case zipTryEncoding s of
        Some (v, encoding) \<Rightarrow>
          zipEncodeLength encoding (length s) @ (case zipSaveInteger v encoding of Inl _ \<Rightarrow> [] | Inr bs \<Rightarrow> bs)
      | None \<Rightarrow> zipEncodeLength 0 (length s) @ s)"

fun ziplist_entries :: "nat \<Rightarrow> bytes list \<Rightarrow> bytes" where
  "ziplist_entries prevlen [] = [ZIP_END]"
| "ziplist_entries prevlen (s # ss) =
     (let e = ziplist_entry prevlen s in e @ ziplist_entries (length e) ss)"

lemma byte_and_192: "(b :: byte) AND 192 = word_of_nat (unat b div 64 * 64)"
proof -
  have "b AND NOT (mask 6) = push_bit 6 (drop_bit 6 b)" by (auto intro!: bit_word_eqI simp: bit_simps)
  moreover have "NOT (mask 6) = (192 :: byte)" by (simp add: mask_eq_exp_minus_1)
  ultimately have "b AND 192 = push_bit 6 (drop_bit 6 b)" by simp
  moreover have "unat (drop_bit 6 b) = unat b div 64" by (simp only: unat_drop_bit_eq) (simp add: drop_bit_eq_div)
  then have "drop_bit 6 b = word_of_nat (unat b div 64)" by (metis of_nat_unat ucast_id)
  ultimately have "b AND 192 = push_bit 6 (word_of_nat (unat b div 64))" by (simp only:)
  then show ?thesis by (simp add: push_bit_eq_mult)
qed

lemma unat_and_15: "unat ((b :: byte) AND 15) = unat b mod 16"
proof -
  have "b AND 15 = b mod 16" by (simp add: take_bit_eq_mask mask_eq_exp_minus_1 flip: take_bit_eq_mod [of 4, simplified])
  then show ?thesis by (simp add: unat_mod_distrib)
qed

lemma decode_prevlen:
  assumes "len < 4294967296"
  shows "ZIP_DECODE_PREVLENSIZE (zipPrevEncodeLength len @ r) = Inr (length (zipPrevEncodeLength len))"
    "ZIP_DECODE_PREVLEN (zipPrevEncodeLength len @ r) = Inr (length (zipPrevEncodeLength len), len)"
    "byte_at (zipPrevEncodeLength len @ r) 0 \<noteq> Inr ZIP_END" "length (zipPrevEncodeLength len) \<le> 5"
proof -
  have b: "unat (word_of_nat len :: byte) = len" if "len < 254" using that by (intro byte_of_nat) simp
  have l: "word_of_nat len < (254 :: byte) \<longleftrightarrow> True" if "len < 254" using b [OF that] that by (simp add: word_less_nat_alt)
  have d: "le_decode (le_encode 4 len) = len" unfolding le_decode_encode using assms by simp
  show "ZIP_DECODE_PREVLENSIZE (zipPrevEncodeLength len @ r) = Inr (length (zipPrevEncodeLength len))"
    using l by (simp add: ZIP_DECODE_PREVLENSIZE_def zipPrevEncodeLength_def byte_at_def ZIP_BIGLEN_def)
  then show "ZIP_DECODE_PREVLEN (zipPrevEncodeLength len @ r) = Inr (length (zipPrevEncodeLength len), len)"
    using b d by (auto simp: ZIP_DECODE_PREVLEN_def zipPrevEncodeLength_def byte_at_def bytes_at_def)
  show "byte_at (zipPrevEncodeLength len @ r) 0 \<noteq> Inr ZIP_END"
    using l by (auto simp: zipPrevEncodeLength_def byte_at_def zip_consts)
  show "length (zipPrevEncodeLength len) \<le> 5" by (simp add: zipPrevEncodeLength_def)
qed

lemma decode_string_length:
  assumes "n < 4294967296"
  obtains enc where "ZIP_DECODE_LENGTH (zipEncodeLength 0 n @ r) = Inr (enc, length (zipEncodeLength 0 n), n)"
    "ZIP_IS_STR enc" "length (zipEncodeLength 0 n) \<le> 5"
proof -
  have z: "ZIP_IS_STR 0" "ZIP_IS_STR 64" "ZIP_IS_STR 128" by (simp_all add: ZIP_IS_STR_def zip_consts)
  consider "n \<le> 63" | "63 < n" "n \<le> 16383" | "16383 < n" by linarith
  then have "\<exists>enc. ZIP_DECODE_LENGTH (zipEncodeLength 0 n @ r) = Inr (enc, length (zipEncodeLength 0 n), n) \<and> ZIP_IS_STR enc"
  proof cases
    case 1
    then have u: "unat (word_of_nat n :: byte) = n" by (intro byte_of_nat) simp
    have "(word_of_nat n :: byte) < 192" using 1 u by (simp add: word_less_nat_alt)
    moreover have "(word_of_nat n :: byte) AND 192 = 0" unfolding byte_and_192 u using 1 by simp
    ultimately have "ZIP_DECODE_LENGTH (word_of_nat n # r) = Inr (0, 1, n)"
      using 1 u unat_and_63 [of "word_of_nat n"] by (simp add: ZIP_DECODE_LENGTH_def byte_at_def ZIP_ENTRY_ENCODING_def Let_def zip_consts)
    then show ?thesis using 1 z by (simp add: zipEncodeLength_def zip_consts)
  next
    case 2
    let ?m = "n div 256"
    have m: "?m < 64" using 2 by simp
    have u: "unat (word_of_nat ?m :: byte) = ?m" "unat (word_of_nat (64 + ?m) :: byte) = 64 + ?m"
      "unat (word_of_nat (n mod 256) :: byte) = n mod 256" by (rule byte_of_nat, use m in simp)+
    have "word_of_nat ?m AND 63 = (word_of_nat ?m :: byte)"
      using unat_and_63 [of "word_of_nat ?m"] m u(1) by (simp only: word_unat_eq_iff) simp
    then have e: "64 OR (word_of_nat ?m AND 63) = (word_of_nat (64 + ?m) :: byte)"
      using byte_or_64 [OF m] by (simp add: or.commute)
    have "word_of_nat (64 + ?m) < (192 :: byte)" unfolding word_less_nat_alt u(2) using m by simp
    moreover have "(64 + ?m) div 64 = 1" using m by auto
    then have "word_of_nat (64 + ?m) AND 192 = (64 :: byte)" unfolding byte_and_192 u(2) by simp
    moreover have "unat (word_of_nat (64 + ?m) AND 63 :: byte) = ?m" unfolding unat_and_63 u(2) using m by simp
    ultimately have "ZIP_DECODE_LENGTH (word_of_nat (64 + ?m) # word_of_nat (n mod 256) # r) = Inr (64, 2, ?m * 256 + n mod 256)"
      unfolding ZIP_DECODE_LENGTH_def byte_at_def ZIP_ENTRY_ENCODING_def Let_def zip_consts using u(3) by simp
    then show ?thesis using 2 z e by (simp add: zipEncodeLength_def zip_consts)
  next
    case 3
    have b: "[word_of_nat (n div 16777216 mod 256), word_of_nat (n div 65536 mod 256), word_of_nat (n div 256 mod 256),
        word_of_nat (n mod 256)] = be_encode 4 n"
    proof -
      have "(4 :: nat) = Suc (Suc (Suc (Suc 0)))" by simp
      then show ?thesis by (simp only: be_encode.simps append.simps div_mult2_eq [symmetric]) simp
    qed
    have "(128 :: byte) AND 192 = 128" by simp
    then have "ZIP_DECODE_LENGTH (128 # be_encode 4 n @ r) = Inr (128, 5, be_decode (be_encode 4 n))"
      by (simp add: ZIP_DECODE_LENGTH_def byte_at_def bytes_at_def ZIP_ENTRY_ENCODING_def Let_def zip_consts)
    moreover have "be_decode (be_encode 4 n) = n" unfolding be_decode_encode using assms by simp
    moreover have "zipEncodeLength 0 n = 128 # be_encode 4 n" unfolding b [symmetric] using 3 z by (simp add: zipEncodeLength_def zip_consts)
    ultimately show ?thesis using z by simp
  qed
  moreover have "length (zipEncodeLength 0 n) \<le> 5" by (simp add: zipEncodeLength_def)
  ultimately show ?thesis using that by blast
qed

lemma le_word_roundtrip:
  "bytes_at (le_encode 2 (unat (w :: 16 word)) @ r) 0 2 = Inr (le_encode 2 (unat w))"
  "word_of_nat (le_decode (le_encode 2 (unat w))) = w"
  "bytes_at (le_encode 4 (unat (x :: 32 word)) @ r) 0 4 = Inr (le_encode 4 (unat x))"
  "word_of_nat (le_decode (le_encode 4 (unat x))) = x"
  using unsigned_less [of w, where 'a = nat] unsigned_less [of x, where 'a = nat] by (simp_all add: bytes_at_def le_decode_encode)

lemma load_24:
  assumes "-8388608 \<le> v" "v \<le> 8388607"
  shows "zipLoadInteger (drop 1 (le_encode 4 (unat (push_bit 8 (word_of_int v :: 32 word)))) @ r) ZIP_INT_24B = Inr v"
proof -
  let ?x = "push_bit 8 (word_of_int v :: 32 word)"
  have x: "?x = word_of_int (v * 256)" by (simp add: push_bit_eq_mult mult.commute)
  have "unat ?x mod 256 = 0"
    by (simp add: push_bit_eq_mult unat_word_ariths mod_mod_cancel)
  moreover have "le_encode (Suc 3) (unat ?x) ! 0 = word_of_nat (unat ?x mod 256)"
    by (simp only: le_encode_def be_encode.simps rev_append rev.simps append.simps nth_Cons_0)
  ultimately have "le_encode 4 (unat ?x) ! 0 = 0" by simp
  then have "0 # drop 1 (le_encode 4 (unat ?x)) = le_encode 4 (unat ?x)"
    by (metis Cons_nth_drop_Suc One_nat_def drop0 length_le_encode zero_less_numeral)
  moreover have "sint ?x = v * 256" unfolding x by (rule sint_widths) (use assms in simp_all)
  moreover have "drop_bit 8 (v * 256) = v" by (simp add: drop_bit_eq_div)
  ultimately show ?thesis
    using le_word_roundtrip(4) [of ?x] by (simp add: zipLoadInteger_def zip_consts bytes_at_def)
qed

lemma load_integer:
  assumes "zipTryEncoding s = Some (v, enc)"
  obtains bs where "zipSaveInteger v enc = Inr bs" "length bs = zipIntSize enc" "\<not> ZIP_IS_STR enc" "enc \<ge> 192"
    "\<forall>r. zipLoadInteger (bs @ r) enc = Inr v" "str_int64 v = s"
proof -
  from assms have s: "string2ll s = Some v" and enc: "enc = (if v \<ge> 0 \<and> v \<le> 12 then ZIP_INT_IMM_MIN + word_of_int v
             else if v \<ge> -128 \<and> v \<le> 127 then ZIP_INT_8B
             else if v \<ge> -32768 \<and> v \<le> 32767 then ZIP_INT_16B
             else if v \<ge> -8388608 \<and> v \<le> 8388607 then ZIP_INT_24B
             else if v \<ge> -2147483648 \<and> v \<le> 2147483647 then ZIP_INT_32B
             else ZIP_INT_64B)"
    by (auto simp: zipTryEncoding_def split: if_splits option.splits)
  from s have v: "int64 v" "str_int64 v = s" by (simp_all add: string2ll_iff)
  consider "0 \<le> v \<and> v \<le> 12" | "enc = ZIP_INT_8B" "-128 \<le> v" "v \<le> 127" | "enc = ZIP_INT_16B" "-32768 \<le> v" "v \<le> 32767"
    | "enc = ZIP_INT_24B" "-8388608 \<le> v" "v \<le> 8388607" | "enc = ZIP_INT_32B" "-2147483648 \<le> v" "v \<le> 2147483647"
    | "enc = ZIP_INT_64B" using enc by (auto split: if_splits)
  then have "\<exists>bs. zipSaveInteger v enc = Inr bs \<and> length bs = zipIntSize enc \<and> \<not> ZIP_IS_STR enc \<and> enc \<ge> 192 \<and>
      (\<forall>r. zipLoadInteger (bs @ r) enc = Inr v)"
  proof cases
    case 1
    define n where "n = nat v"
    have n: "n \<le> 12" "v = int n" unfolding n_def using 1 by linarith+
    then have e: "enc = word_of_nat (241 + n)" using 1 enc by (simp add: zip_consts)
    have u: "unat enc = 241 + n" unfolding e by (rule byte_of_nat) (use n in simp)
    have d: "(241 + n) mod 16 = n + 1" "(241 + n) div 64 = 3" using n mod_mult_self2 [of "n + 1" 16 15] by auto
    have "unat (enc AND 15) = n + 1" unfolding unat_and_15 u by (rule d(1))
    then have i: "uint (enc AND 15) - 1 = v" using n(2) by (simp only: uint_nat)
    have "enc \<noteq> 254" "enc \<noteq> 192" "enc \<noteq> 240" "enc \<noteq> 208" "enc \<noteq> 224" "enc \<ge> 241" "enc \<le> 253" "enc \<ge> 192"
      using u n(1) by (auto simp: word_le_nat_alt)
    moreover have "enc AND 192 = 192" unfolding byte_and_192 u d by simp
    ultimately show ?thesis using i
      by (simp add: zipSaveInteger_def zipIntSize_def ZIP_IS_STR_def zipLoadInteger_def zip_consts)
  next
    case 2
    then show ?thesis
      by (auto simp: zipSaveInteger_def zipIntSize_def ZIP_IS_STR_def zipLoadInteger_def zip_consts byte_at_def sint_widths)
  next
    case 3
    then show ?thesis using le_word_roundtrip(1,2) sint_widths(2) [of v]
      by (auto simp: zipSaveInteger_def zipIntSize_def ZIP_IS_STR_def zipLoadInteger_def zip_consts)
  next
    case 4
    then show ?thesis using load_24 [of v]
      by (auto simp: zipSaveInteger_def zipIntSize_def ZIP_IS_STR_def zip_consts)
  next
    case 5
    then show ?thesis using le_word_roundtrip(3,4) sint_widths(3) [of v]
      by (auto simp: zipSaveInteger_def zipIntSize_def ZIP_IS_STR_def zipLoadInteger_def zip_consts)
  next
    case 6
    then show ?thesis using sint_word_of_int64 [OF v(1)]
      by (auto simp: zipSaveInteger_def zipIntSize_def ZIP_IS_STR_def zipLoadInteger_def zip_consts bytes_at_def)
  qed
  then show ?thesis using v(2) that by blast
qed

text \<open>One entry: its parts, its length and its text.\<close>

lemma entry_parts:
  assumes "prev < 4294967296" "length s < 2147483648"
  obtains ps enc ls len where
    "ZIP_DECODE_PREVLENSIZE (ziplist_entry prev s @ r) = Inr ps"
    "ZIP_DECODE_PREVLEN (ziplist_entry prev s @ r) = Inr (ps, prev)"
    "ZIP_DECODE_LENGTH (drop ps (ziplist_entry prev s @ r)) = Inr (enc, ls, len)"
    "length (ziplist_entry prev s) = ps + ls + len" "ps \<le> 5" "ls \<le> 5" "len < 2147483648"
    "if ZIP_IS_STR enc then len = length s \<and> take len (drop (ps + ls) (ziplist_entry prev s @ r)) = s
     else \<exists>v. zipLoadInteger (drop (ps + ls) (ziplist_entry prev s @ r)) enc = Inr v \<and> str_int64 v = s"
proof -
  let ?p = "zipPrevEncodeLength prev"
  note p = decode_prevlen [OF assms(1)]
  show ?thesis
  proof (cases "zipTryEncoding s")
    case None
    let ?l = "zipEncodeLength 0 (length s)"
    obtain enc where "ZIP_DECODE_LENGTH (?l @ s @ r) = Inr (enc, length ?l, length s)" "ZIP_IS_STR enc" "length ?l \<le> 5"
      using decode_string_length [of "length s" "s @ r"] assms(2) by auto
    moreover have "ziplist_entry prev s = ?p @ ?l @ s" using None by (simp add: ziplist_entry_def)
    ultimately show ?thesis using p(1-3) [of "?l @ s @ r"] p(4) assms(2) that [of "length ?p" enc "length ?l" "length s"] by simp
  next
    case (Some ve)
    obtain v enc where ve: "ve = (v, enc)" by force
    from load_integer [OF Some [unfolded ve]] obtain bs where bs: "zipSaveInteger v enc = Inr bs"
      "length bs = zipIntSize enc" "\<not> ZIP_IS_STR enc" "enc \<ge> 192" "\<forall>r. zipLoadInteger (bs @ r) enc = Inr v" "str_int64 v = s" by metis
    have e: "ziplist_entry prev s = ?p @ enc # bs" using Some ve bs(1,3) by (simp add: ziplist_entry_def zipEncodeLength_def)
    have "ZIP_DECODE_LENGTH (enc # bs @ r) = Inr (enc, 1, zipIntSize enc)"
      using bs(4) [unfolded linorder_not_less [symmetric]]
      by (simp add: ZIP_DECODE_LENGTH_def byte_at_def ZIP_ENTRY_ENCODING_def ZIP_STR_MASK_def)
    moreover have "zipIntSize enc \<le> 8" by (simp add: zipIntSize_def)
    ultimately show ?thesis
      using p(1-3) [of "enc # bs @ r"] p(4) bs e that [of "length ?p" enc 1 "zipIntSize enc"] by simp
  qed
qed

lemma read_entry:
  assumes "prev < 4294967296" "length s < 2147483648" "rest \<noteq> []"
  defines "e \<equiv> ziplist_entry prev s"
  shows "getNextString (pre @ e @ rest) (Some (length pre)) =
      Inr (Some (s, if hd rest = ZIP_END then None else Some (length pre + length e)))"
    "byte_at (pre @ e @ rest) (length pre) \<noteq> Inr ZIP_END" "length e < 4294967296"
proof -
  let ?zl = "pre @ e @ rest"
  obtain ps enc ls len where parts:
    "ZIP_DECODE_PREVLENSIZE (e @ rest) = Inr ps" "ZIP_DECODE_PREVLEN (e @ rest) = Inr (ps, prev)"
    "ZIP_DECODE_LENGTH (drop ps (e @ rest)) = Inr (enc, ls, len)"
    "length e = ps + ls + len" "ps \<le> 5" "ls \<le> 5" "len < 2147483648"
    and val: "if ZIP_IS_STR enc then len = length s \<and> take len (drop (ps + ls) (e @ rest)) = s
       else \<exists>v. zipLoadInteger (drop (ps + ls) (e @ rest)) enc = Inr v \<and> str_int64 v = s"
    using entry_parts [OF assms(1,2), of rest] unfolding e_def by metis
  show "length e < 4294967296" using parts(4-7) by simp
  have "byte_at (e @ rest) 0 \<noteq> Inr ZIP_END"
    unfolding e_def ziplist_entry_def append_assoc by (rule decode_prevlen(3) [OF assms(1)])
  moreover have b: "byte_at ?zl (length pre) = byte_at (e @ rest) 0" using assms(3) by (simp add: byte_at_def nth_append)
  ultimately show nz: "byte_at ?zl (length pre) \<noteq> Inr ZIP_END" by simp
  obtain x where x: "byte_at ?zl (length pre) = Inr x" "x \<noteq> ZIP_END"
    using nz b assms(3) by (cases "byte_at (e @ rest) 0") (auto simp: byte_at_def split: if_splits)
  have d: "drop (length pre) ?zl = e @ rest" "drop (length pre + m) ?zl = drop m (e @ rest)" for m by simp_all
  have len: "zipRawEntryLength (e @ rest) = Inr (length e)"
    using parts by (simp add: zipRawEntryLength_def)
  have "byte_at ?zl (length pre + length e) = Inr (hd rest)"
    using assms(3) by (simp add: byte_at_def nth_append hd_conv_nth)
  then have nx: "ziplistNext ?zl (length pre) = Inr (if hd rest = ZIP_END then None else Some (length pre + length e))"
    using x len by (simp add: ziplistNext_def d(1))
  have g: "ziplistGet ?zl (Some (length pre)) = (if ZIP_IS_STR enc then Inr (Some (Inl (length pre + (ps + ls), len)))
      else sbind (zipLoadInteger (drop (ps + ls) (e @ rest)) enc) (\<lambda>v. Inr (Some (Inr v))))"
    unfolding ziplistGet_def zipEntry_def option.case d(1) x(1) parts(2) sbind.simps prod.case parts(3) if_not_P [OF x(2)]
    by (simp only: zlentry.simps d(2))
  show "getNextString ?zl (Some (length pre)) =
      Inr (Some (s, if hd rest = ZIP_END then None else Some (length pre + length e)))"
  proof (cases "ZIP_IS_STR enc")
    case True
    from val [unfolded if_P [OF True]] have "len = length s" "take len (drop (ps + ls) (e @ rest)) = s" by blast+
    then have "bytes_at ?zl (length pre + (ps + ls)) len = Inr s"
      using parts(4) unfolding bytes_at_def d(2) by simp
    then show ?thesis using g True nx by (simp add: getNextString_def)
  next
    case False
    then show ?thesis using val g nx by (auto simp: getNextString_def)
  qed
qed

text \<open>\<open>zl_reads zl p ss\<close>: the calls of \<^verbatim>\<open>getNextString\<close> from \<open>p\<close> on give the texts \<open>ss\<close> and then the end.\<close>

fun zl_reads :: "bytes \<Rightarrow> nat option \<Rightarrow> bytes list \<Rightarrow> bool" where
  "zl_reads zl p [] \<longleftrightarrow> getNextString zl p = Inr None"
| "zl_reads zl p (s # ss) \<longleftrightarrow> (\<exists>p'. getNextString zl p = Inr (Some (s, p')) \<and> zl_reads zl p' ss)"

lemma zl_reads_None: "zl_reads zl None []"
  by (simp add: getNextString_def ziplistGet_def)

lemma ziplist_entries_neq [simp]: "ziplist_entries prev ss \<noteq> []"
  by (induction ss arbitrary: prev) (simp_all add: Let_def)

lemma hd_entries:
  assumes "prev < 4294967296"
  shows "hd (ziplist_entries prev ss) = ZIP_END \<longleftrightarrow> ss = []"
proof (cases ss)
  case (Cons s ts)
  have "byte_at (ziplist_entry prev s @ ziplist_entries (length (ziplist_entry prev s)) ts) 0 \<noteq> Inr ZIP_END"
    unfolding ziplist_entry_def append_assoc by (rule decode_prevlen(3) [OF assms])
  then show ?thesis using Cons by (simp add: Let_def byte_at_def hd_conv_nth)
qed simp

lemma read_entries:
  assumes "prev < 4294967296" "\<forall>s \<in> set ss. length s < 2147483648"
  shows "zl_reads (pre @ ziplist_entries prev ss @ r) (if ss = [] then None else Some (length pre)) ss"
  using assms
proof (induction ss arbitrary: prev pre)
  case Nil
  then show ?case using zl_reads_None by simp
next
  case (Cons s ss)
  let ?e = "ziplist_entry prev s"
  let ?rest = "ziplist_entries (length ?e) ss @ r"
  have s: "length s < 2147483648" using Cons.prems(2) by simp
  note e = read_entry(1) [OF Cons.prems(1) s, of ?rest pre]
  have l: "length ?e < 4294967296" using read_entry(3) [OF Cons.prems(1) s, of ?rest] by simp
  have "hd ?rest = ZIP_END \<longleftrightarrow> ss = []" using hd_entries [OF l, of ss] by (simp add: hd_append)
  then have "getNextString (pre @ ?e @ ?rest) (Some (length pre)) =
      Inr (Some (s, if ss = [] then None else Some (length (pre @ ?e))))"
    using e by simp
  moreover have "zl_reads ((pre @ ?e) @ ziplist_entries (length ?e) ss @ r) (if ss = [] then None else Some (length (pre @ ?e))) ss"
    by (rule Cons.IH [OF l]) (use Cons.prems(2) in simp)
  ultimately show ?case by (simp add: Let_def)
qed

lemma ziplist_index_0:
  assumes "length h = 10"
  shows "ziplistIndex (h @ ziplist_entries 0 ss @ r) 0 = Inr (if ss = [] then None else Some 10)"
proof -
  let ?zl = "h @ ziplist_entries 0 ss @ r"
  have b: "byte_at ?zl 10 = Inr (hd (ziplist_entries 0 ss))"
    using assms by (simp add: byte_at_def nth_append hd_conv_nth)
  then have "ziplist_skip ?zl 10 0 = Inr (10, if ss = [] then 0 else -1)"
    using hd_entries [of 0 ss] by (simp add: ziplist_skip.simps)
  then show ?thesis using b hd_entries [of 0 ss] by (simp add: ziplistIndex_def ZIPLIST_HEADER_SIZE_def)
qed

section \<open>Reading sets of integers back\<close>

definition intset_bytes :: "nat \<Rightarrow> int list \<Rightarrow> bytes" where
  "intset_bytes enc vs =
     le_encode 4 enc @ le_encode 4 (length vs) @ concat (map (\<lambda>v. le_encode enc (nat (v mod 2 ^ (8 * enc)))) vs)"

definition fits :: "nat \<Rightarrow> int \<Rightarrow> bool" where
  "fits enc v \<longleftrightarrow> - (2 ^ (8 * enc - 1)) \<le> v \<and> v < 2 ^ (8 * enc - 1)"

lemma concat_nth_block:
  "\<forall>x \<in> set xs. length (f x) = k \<Longrightarrow> i < length xs \<Longrightarrow> take k (drop (i * k) (concat (map f xs) @ r)) = f (xs ! i)"
proof (induction xs arbitrary: i)
  case (Cons x xs)
  then show ?case by (cases i) simp_all
qed simp

lemma intset_read:
  assumes "enc \<in> {2, 4, 8}" "length vs < 4294967296" "\<forall>v \<in> set vs. fits enc v"
  shows "intsetLen (intset_bytes enc vs @ r) = Inr (length vs)"
    "i < length vs \<Longrightarrow> intsetGet (intset_bytes enc vs @ r) i = Inr (Some (vs ! i))"
proof -
  let ?is = "intset_bytes enc vs @ r" and ?f = "\<lambda>v. le_encode enc (nat (v mod 2 ^ (8 * enc)))"
  have "le_decode (le_encode 4 (length vs)) = length vs" unfolding le_decode_encode using assms(2) by simp
  then show len: "intsetLen ?is = Inr (length vs)" by (simp add: intsetLen_def bytes_at_def intset_bytes_def)
  assume i: "i < length vs"
  have enc: "bytes_at ?is 0 4 = Inr (le_encode 4 enc)" "le_decode (le_encode 4 enc) mod 256 = enc"
    using assms(1) by (auto simp: bytes_at_def intset_bytes_def le_decode_encode)
  have "length (concat (map ?f vs)) = length vs * enc" by (induction vs) simp_all
  moreover have "i * enc + enc \<le> length vs * enc" using i by (metis Suc_leI add.commute mult_Suc mult_le_mono1)
  ultimately have b: "bytes_at ?is (8 + i * enc) enc = Inr (?f (vs ! i))"
    using concat_nth_block [of vs ?f enc i r] i by (simp add: bytes_at_def intset_bytes_def)
  define v where "v = vs ! i"
  have v: "fits enc v" using assms(3) i by (simp add: v_def)
  have d: "le_decode (le_encode enc (nat (v mod 2 ^ (8 * enc)))) = nat (v mod 2 ^ (8 * enc))"
    using pos_mod_bound [of "2 ^ (8 * enc)" v] assms(1) by (auto simp: le_decode_encode)
  have w: "word_of_nat (nat (v mod 65536)) = (word_of_int v :: 16 word)"
    "word_of_nat (nat (v mod 4294967296)) = (word_of_int v :: 32 word)"
    "word_of_nat (nat (v mod 18446744073709551616)) = (word_of_int v :: u64)"
    by (simp_all add: of_nat_nat word_of_int_eq_iff take_bit_eq_mod)
  consider "enc = 2" | "enc = 4" | "enc = 8" using assms(1) by blast
  then have "intsetGetEncoded ?is i enc = Inr v"
  proof cases
    case 1
    then show ?thesis using b d w(1) v sint_widths(2) [of v] by (simp add: intsetGetEncoded_def fits_def v_def [symmetric])
  next
    case 2
    then show ?thesis using b d w(2) v sint_widths(3) [of v] by (simp add: intsetGetEncoded_def fits_def v_def [symmetric])
  next
    case 3
    then show ?thesis using b d w(3) v sint_word_of_int64 [of v]
      by (simp add: intsetGetEncoded_def fits_def int64_def load64_def v_def [symmetric])
  qed
  then show "intsetGet ?is i = Inr (Some (vs ! i))" using len i enc v_def by (simp add: intsetGet_def)
qed

section \<open>Properties\<close>

text \<open>
  Walking over a ziplist gives back the texts its entries were made of, in order and then the end:
  for texts stored as they are with each form of the length, for texts that are integers in each of
  the six integer forms, and for previous entries of any size. A set of integers in each of its
  three widths gives back its length and each of its members. No read leaves the memory of the
  blob.
\<close>

theorem ziplist_intset_correct:
  assumes "length h = 10" "\<forall>s \<in> set ss. length s < 2147483648"
    and "enc \<in> {2, 4, 8}" "length vs < 4294967296" "\<forall>v \<in> set vs. fits enc v"
  shows "(\<exists>p. ziplistIndex (h @ ziplist_entries 0 ss @ [0]) 0 = Inr p \<and> zl_reads (h @ ziplist_entries 0 ss @ [0]) p ss) \<and>
    intsetLen (intset_bytes enc vs @ [0]) = Inr (length vs) \<and>
    (\<forall>i < length vs. intsetGet (intset_bytes enc vs @ [0]) i = Inr (Some (vs ! i)))"
proof (intro conjI)
  show "\<exists>p. ziplistIndex (h @ ziplist_entries 0 ss @ [0]) 0 = Inr p \<and> zl_reads (h @ ziplist_entries 0 ss @ [0]) p ss"
    using ziplist_index_0 [OF assms(1)] read_entries [of 0 ss h "[0]"] assms(1,2) by auto
  show "intsetLen (intset_bytes enc vs @ [0]) = Inr (length vs)"
    "\<forall>i < length vs. intsetGet (intset_bytes enc vs @ [0]) i = Inr (Some (vs ! i))"
    using intset_read [OF assms(3-5)] by blast+
qed

theorem ziplist_intset_correct_witness:
  "ziplistIndex (replicate 10 1 @ ziplist_entries 0 [[97, 98], [45, 53]] @ [0]) 0 = Inr (Some 10) \<and>
   zl_reads (replicate 10 1 @ ziplist_entries 0 [[97, 98], [45, 53]] @ [0]) (Some 10) [[97, 98], [45, 53]] \<and>
   intsetGet (intset_bytes 2 [-3, 300] @ [0]) 0 = Inr (Some (-3))"
proof -
  have i: "ziplistIndex (replicate 10 1 @ ziplist_entries 0 [[97, 98], [45, 53]] @ [0]) 0 = Inr (Some 10)"
    using ziplist_index_0 [of "replicate 10 1" "[[97, 98], [45, 53]]" "[0]"] by simp
  have f: "\<forall>v \<in> set [-3, 300]. fits 2 v" by (simp add: fits_def)
  have "length (replicate 10 (1 :: byte)) = 10" "\<forall>s \<in> set [[97, 98], [45, 53 :: byte]]. length s < 2147483648"
    "(2 :: nat) \<in> {2, 4, 8}" "length [-3, 300 :: int] < 4294967296" by simp_all
  note c = ziplist_intset_correct [OF this f]
  from c obtain p where "ziplistIndex (replicate 10 1 @ ziplist_entries 0 [[97, 98], [45, 53]] @ [0]) 0 = Inr p"
    "zl_reads (replicate 10 1 @ ziplist_entries 0 [[97, 98], [45, 53]] @ [0]) p [[97, 98], [45, 53]]" by blast
  moreover from c have "intsetGet (intset_bytes 2 [-3, 300] @ [0]) 0 = Inr (Some (-3))" by force
  ultimately show ?thesis using i by simp
qed

end
