(* ===== verification/Quick.thy ===== *)
theory Quick
  imports TList THash TSet TZset TKv Ziplist
begin

text \<open>
  The writers of RESTORE: \<^verbatim>\<open>quickHash\<close>, \<^verbatim>\<open>quickSet\<close>, \<^verbatim>\<open>quickZset\<close> and \<^verbatim>\<open>quickList\<close>
  (\<^verbatim>\<open>src/src/storage/t_hash.h\<close>, \<^verbatim>\<open>t_set.h\<close>, \<^verbatim>\<open>t_zset.h\<close>, \<^verbatim>\<open>t_list.h\<close>). Each takes a
  callback that supplies the next item: a negative result is an error, 0 is the end, 1 is an item, and
  for lists 2 asks for another call. A callback is a function on its own state \<open>c\<close> (the rest of
  the payload), which may also end the process. The loop calls it until it ends, so it is
  a partial function: no value where the callback never ends. The writers do not read the
  items that are there already; the lemmas show that on a key that does not exist they store
  exactly what the callback supplies.
\<close>

section \<open>Definitions\<close>

type_synonym ('c, 'i) supplier = "'c \<Rightarrow> rdb_abort + int \<times> 'i \<times> 'c"

partial_function (option) quick_loop ::
  "bool \<Rightarrow> ('c, 'i) supplier \<Rightarrow> ('i \<Rightarrow> 's \<Rightarrow> 's) \<Rightarrow> 'c \<Rightarrow> 's \<Rightarrow> (rdb_abort + int \<times> 's) option" where
  "quick_loop retry lambda body c st =
     (case lambda c of
        Inl e \<Rightarrow> Some (Inl e)
      | Inr (n, item, c) \<Rightarrow>
          if n < 0 then Some (Inr (n, st))
          else if n = 0 then Some (Inr (0, st))
          else if retry \<and> n = 2 then quick_loop retry lambda body c st
          else quick_loop retry lambda body c (body item st))"

text \<open>
  The meta value the new one starts from: a deleted key gets the next version. Nothing tests that a key
  that was not deleted has the right type; RESTORE only comes here when the key is missing or
  deleted.
\<close>

definition quick_meta :: "byte \<Rightarrow> bytes \<Rightarrow> int + MetaVal" where
  "quick_meta type meta_val =
     (if length meta_val > 0 then
        (case DecodeMetaVal meta_val MetaVal_init of (ret, mv) \<Rightarrow>
           if ret < 0 then Inl ret
           else
             let mv = (if mv_del mv = KEY_DELETE_MASK
                       then mv\<lparr>mv_version := next_version (mv_version mv), mv_length := 0, mv_del := KEY_ENABLED_MASK\<rparr>
                       else mv)
             in Inr (mv\<lparr>mv_type := type\<rparr>))
      else Inr (MetaVal_init\<lparr>mv_type := type\<rparr>))"

definition quickHash ::
  "('db, 'it) rocksdb \<Rightarrow> 'db ssdb \<Rightarrow> bytes \<Rightarrow> bytes \<Rightarrow> bytes \<Rightarrow> ('c, bytes \<times> bytes) supplier \<Rightarrow> 'c \<Rightarrow>
     ((rdb_abort + int) \<times> 'db ssdb) option" where
  "quickHash R s name meta_key meta_val lambda c =
     (case quick_meta HSIZE meta_val of
        Inl ret \<Rightarrow> Some (Inr ret, s)
      | Inr hv \<Rightarrow>
          Option.bind
            (quick_loop False lambda
               (\<lambda>(key, val) (cnt, batch). (cnt + 1, batch @ [Put (encode_hash_key name key (mv_version hv)) val])) c (0 :: int, []))
            (\<lambda>r. case r of
               Inl e \<Rightarrow> Some (Inl e, s)
             | Inr (n, cnt, batch) \<Rightarrow>
                 if n < 0 then Some (Inr n, s)
                 else (case commit_incr R (incr_hsize R s name batch meta_key hv cnt) of (ret, s) \<Rightarrow> Some (Inr ret, s))))"

definition quickSet ::
  "('db, 'it) rocksdb \<Rightarrow> 'db ssdb \<Rightarrow> bytes \<Rightarrow> bytes \<Rightarrow> bytes \<Rightarrow> ('c, bytes) supplier \<Rightarrow> 'c \<Rightarrow>
     ((rdb_abort + int) \<times> 'db ssdb) option" where
  "quickSet R s key meta_key meta_val lambda c =
     (case quick_meta SSIZE meta_val of
        Inl ret \<Rightarrow> Some (Inr ret, s)
      | Inr sv \<Rightarrow>
          Option.bind
            (quick_loop False lambda
               (\<lambda>current (num, batch). (num + 1, batch @ [Put (encode_set_key key current (mv_version sv)) []])) c (0 :: int, []))
            (\<lambda>r. case r of
               Inl e \<Rightarrow> Some (Inl e, s)
             | Inr (n, num, batch) \<Rightarrow>
                 if n < 0 then Some (Inr n, s)
                 else (case commit_incr R (incr_ssize R s key batch sv meta_key num) of (ret, s) \<Rightarrow> Some (Inr ret, s))))"

definition quickZset ::
  "('db, 'it) rocksdb \<Rightarrow> 'db ssdb \<Rightarrow> bytes \<Rightarrow> bytes \<Rightarrow> bytes \<Rightarrow> ('c, bytes \<times> u64) supplier \<Rightarrow> 'c \<Rightarrow>
     ((rdb_abort + int) \<times> 'db ssdb) option" where
  "quickZset R s name meta_key meta_val lambda c =
     (case quick_meta ZSIZE meta_val of
        Inl ret \<Rightarrow> Some (Inr ret, s)
      | Inr zv \<Rightarrow>
          Option.bind
            (quick_loop False lambda
               (\<lambda>(key, score) (cnt, batch). (cnt + 1, batch @
                  [Put (encode_zset_key name key (mv_version zv)) (raw64 score),
                   Put (encode_zscore_key name key score (mv_version zv)) []])) c (0 :: int, []))
            (\<lambda>r. case r of
               Inl e \<Rightarrow> Some (Inl e, s)
             | Inr (n, cnt, batch) \<Rightarrow>
                 if n < 0 then Some (Inr n, s)
                 else
                   (case incr_zsize R s name batch zv cnt of (iret, batch, s) \<Rightarrow>
                      if iret < 0 then Some (Inr iret, s)
                      else (case CommitBatch R s batch of (ok, s) \<Rightarrow>
                              Some (Inr (if \<not> ok then STORAGE_ERR else 1), s)))))"

definition quick_list_meta :: "bytes \<Rightarrow> int + ListMetaVal" where
  "quick_list_meta meta_val =
     (if length meta_val > 0 then
        (case ListDecodeMetaVal meta_val ListMetaVal_init of (ret, lv) \<Rightarrow>
           if ret < 0 then Inl ret
           else
             let lv = (if mv_del lv = KEY_DELETE_MASK
                       then lv\<lparr>mv_version := next_version (mv_version lv), mv_del := KEY_ENABLED_MASK\<rparr> else lv)
             in Inr (lv\<lparr>mv_type := LSIZE\<rparr>))
      else Inr (ListMetaVal_init\<lparr>mv_type := LSIZE\<rparr>))"

definition quick_list_item :: "bytes \<Rightarrow> u16 \<Rightarrow> bytes \<Rightarrow> u64 \<times> u64 \<times> batch \<Rightarrow> u64 \<times> u64 \<times> batch" where
  "quick_list_item name version current = (\<lambda>(item_seq, length, batch).
     let item_seq = (if item_seq < UINT64_MAX then item_seq + 1 else 0)
     in (item_seq, length + 1, batch @ [Put (encode_list_key name item_seq version) current]))"

definition quickList ::
  "('db, 'it) rocksdb \<Rightarrow> 'db ssdb \<Rightarrow> bytes \<Rightarrow> bytes \<Rightarrow> bytes \<Rightarrow> ('c, bytes) supplier \<Rightarrow> 'c \<Rightarrow>
     ((rdb_abort + int) \<times> 'db ssdb) option" where
  "quickList R s name meta_key meta_val lambda c =
     (case quick_list_meta meta_val of
        Inl ret \<Rightarrow> Some (Inr ret, s)
      | Inr lv \<Rightarrow>
          Option.bind
            (quick_loop True lambda (quick_list_item name (mv_version lv)) c (right_seq lv, mv_length lv, []))
            (\<lambda>r. case r of
               Inl e \<Rightarrow> Some (Inl e, s)
             | Inr (n, item_seq, len, batch) \<Rightarrow>
                 if n < 0 then Some (Inr n, s)
                 else
                   let new_meta_val = encode_list_meta_val len (left_seq lv) item_seq (mv_version lv) (mv_del lv)
                   in (case CommitBatch R s (batch @ [Put meta_key new_meta_val]) of (ok, s) \<Rightarrow>
                         Some (Inr (if \<not> ok then STORAGE_ERR else 1), s))))"

section \<open>Callbacks that end\<close>

inductive supplies :: "bool \<Rightarrow> ('c, 'i) supplier \<Rightarrow> 'c \<Rightarrow> 'i list \<Rightarrow> bool" for retry lambda where
  finish: "lambda c = Inr (0, item, c') \<Longrightarrow> supplies retry lambda c []"
| deliver: "lambda c = Inr (1, item, c') \<Longrightarrow> supplies retry lambda c' items \<Longrightarrow> supplies retry lambda c (item # items)"
| again: "retry \<Longrightarrow> lambda c = Inr (2, item, c') \<Longrightarrow> supplies retry lambda c' items \<Longrightarrow> supplies retry lambda c items"

lemma quick_loop_supplies:
  "supplies retry lambda c items \<Longrightarrow> quick_loop retry lambda body c st = Some (Inr (0, fold body items st))"
proof (induction arbitrary: st rule: supplies.induct)
  case (finish c item c')
  then show ?case by (subst quick_loop.simps) simp
next
  case (deliver c item c' items)
  then show ?case by (subst quick_loop.simps) simp
next
  case (again c item c' items)
  then show ?case by (subst quick_loop.simps) simp
qed

section \<open>Effect on a key that does not exist\<close>

text \<open>The meta value RESTORE passes on: empty when there is none.\<close>

abbreviation stored_meta :: "contents \<Rightarrow> bytes \<Rightarrow> bytes" where
  "stored_meta m key \<equiv> (case m (encode_meta_key key) of None \<Rightarrow> [] | Some x \<Rightarrow> x)"

lemma quick_meta_absent:
  assumes "absent m key w"
  obtains mv where "quick_meta tag (stored_meta m key) = Inr mv" "coll_meta Map.empty w mv"
  using assms by (auto simp: absent_def quick_meta_def DecodeMetaVal_deleted coll_meta_def MetaVal_init_def)

lemma quick_list_meta_absent:
  assumes "absent m key w"
  obtains lv where "quick_list_meta (stored_meta m key) = Inr lv" "list_meta 0 0 w lv"
  using assms by (auto simp: absent_def quick_list_meta_def ListDecodeMetaVal_deleted list_meta_def ListMetaVal_init_def)

lemma hash_batch:
  assumes "distinct (map fst kvs)" "item_batch name v b" "item_map name v (apply_batch b m) = g"
  shows "\<exists>b'. fold (\<lambda>(key, val) (cnt, batch). (cnt + 1, batch @ [Put (encode_hash_key name key v) val])) kvs (n, b) =
      (n + int (length kvs), b') \<and> item_batch name v b' \<and> item_map name v (apply_batch b' m) = g ++ map_of kvs"
  using assms
proof (induction kvs arbitrary: n b g)
  case (Cons kv kvs)
  obtain f x where kv: "kv = (f, x)" by force
  have "map_of kvs f = None" using Cons.prems(1) by (simp add: kv map_of_eq_None_iff)
  then have e: "g(f \<mapsto> x) ++ map_of kvs = g ++ map_of (kv # kvs)"
    by (auto simp: kv map_add_def fun_eq_iff split: option.splits)
  have "item_batch name v (b @ [Put (encode_hash_key name f v) x])"
    "item_map name v (apply_batch (b @ [Put (encode_hash_key name f v) x]) m) = g(f \<mapsto> x)" using Cons.prems(2,3) by simp_all
  from Cons.IH [OF _ this, of "n + 1", unfolded e] Cons.prems(1) show ?case
    by (simp add: kv del: map_of.simps) (metis add.assoc add.commute)
qed simp

lemma set_batch:
  assumes "item_batch name v b" "item_map name v (apply_batch b m) = chi S"
  shows "\<exists>b'. fold (\<lambda>current (num, batch). (num + 1, batch @ [Put (encode_set_key name current v) []])) xs (n, b) =
      (n + int (length xs), b') \<and> item_batch name v b' \<and> item_map name v (apply_batch b' m) = chi (S \<union> set xs)"
  using assms
proof (induction xs arbitrary: n b S)
  case (Cons x xs)
  have "item_batch name v (b @ [Put (encode_set_key name x v) []])"
    "item_map name v (apply_batch (b @ [Put (encode_set_key name x v) []]) m) = chi (insert x S)" using Cons.prems by simp_all
  from Cons.IH [OF this, of "n + 1"] show ?case by auto
qed simp

lemma zset_batch:
  assumes "distinct (map fst kvs)" "zbatch m name v b z" "\<forall>k \<in> fst ` set kvs. z k = None"
  shows "\<exists>b'. fold (\<lambda>(key, score) (cnt, batch). (cnt + 1, batch @
        [Put (encode_zset_key name key v) (raw64 score), Put (encode_zscore_key name key score v) []])) kvs (n, b) =
      (n + int (length kvs), b') \<and> zbatch m name v b' (z ++ map_of kvs)"
  using assms
proof (induction kvs arbitrary: n b z)
  case (Cons kv kvs)
  obtain f x where kv: "kv = (f, x)" by force
  have "map_of kvs f = None" using Cons.prems(1) by (simp add: kv map_of_eq_None_iff)
  then have e: "z(f \<mapsto> x) ++ map_of kvs = z ++ map_of (kv # kvs)"
    by (auto simp: kv map_add_def fun_eq_iff split: option.splits)
  have zb: "zbatch m name v (b @ zset_put name f x v) (z(f \<mapsto> x))"
    using Cons.prems(2,3) by (intro zbatch_put_new) (auto simp: kv)
  have zn: "\<forall>k \<in> fst ` set kvs. (z(f \<mapsto> x)) k = None" using Cons.prems(1,3) by (auto simp: kv)
  have zd: "distinct (map fst kvs)" using Cons.prems(1) by simp
  from Cons.IH [OF zd zb zn, of "n + 1", unfolded e] show ?case
    by (simp add: kv zset_put_def add.assoc del: map_of.simps)
qed simp

context rocksdb_healthy
begin

lemma quickHash_rep:
  assumes "absent (view (ldb s)) key w" "no_items (view (ldb s)) key w"
    and "supplies False lambda c kvs" "distinct (map fst kvs)" "kvs \<noteq> []" "length kvs < 2 ^ 63"
  shows "\<exists>s'. quickHash R s key (encode_meta_key key) (stored_meta (view (ldb s)) key) lambda c = Some (Inr 1, s') \<and>
    hash_rep (view (ldb s')) key (map_of kvs) \<and> touches_only key (view (ldb s)) (view (ldb s'))"
proof -
  obtain hv where hv: "quick_meta HSIZE (stored_meta (view (ldb s)) key) = Inr hv" "coll_meta Map.empty w hv"
    using quick_meta_absent [OF assms(1)] .
  then have ver: "mv_version hv = w" by (simp add: coll_meta_def)
  have cur: "coll_cur HSIZE (view (ldb s)) key w Map.empty" using assms(1,2) by (simp add: coll_cur_def)
  obtain b where b: "fold (\<lambda>(k, val) (cnt, batch). (cnt + 1, batch @ [Put (encode_hash_key key k w) val])) kvs (0, []) =
      (int (length kvs), b)" "item_batch key w b" "item_map key w (apply_batch b (view (ldb s))) = map_of kvs"
    using hash_batch [OF assms(4), of key w "[]" "view (ldb s)" Map.empty 0] assms(2) by (auto simp: no_items_item_map)
  have dom: "card (dom (map_of kvs)) = length kvs"
    using distinct_card [OF assms(4)] by (simp add: dom_map_of_conv_image_fst)
  have ne: "map_of kvs \<noteq> Map.empty" using assms(5) by (simp add: map_of_eq_empty_iff)
  from hc.commit_incr_rep [OF cur hv(2) b(2,3)] dom assms(6) ne obtain s' where
    "commit_incr R (incr_hsize R s key b (encode_meta_key key) hv (int (length kvs))) = (1, s')"
    "hash_rep (view (ldb s')) key (map_of kvs)" "touches_only key (view (ldb s)) (view (ldb s'))"
    by (auto simp: finite_dom_map_of)
  then show ?thesis
    unfolding quickHash_def hv(1) sum.case ver quick_loop_supplies [OF assms(3)] b(1) by simp
qed

lemma quickSet_rep:
  assumes "absent (view (ldb s)) key w" "no_items (view (ldb s)) key w"
    and "supplies False lambda c xs" "distinct xs" "xs \<noteq> []" "length xs < 2 ^ 63"
  shows "\<exists>s'. quickSet R s key (encode_meta_key key) (stored_meta (view (ldb s)) key) lambda c = Some (Inr 1, s') \<and>
    set_rep (view (ldb s')) key (set xs) \<and> touches_only key (view (ldb s)) (view (ldb s'))"
proof -
  obtain sv where sv: "quick_meta SSIZE (stored_meta (view (ldb s)) key) = Inr sv" "coll_meta Map.empty w sv"
    using quick_meta_absent [OF assms(1)] .
  then have ver: "mv_version sv = w" by (simp add: coll_meta_def)
  have cur: "coll_cur SSIZE (view (ldb s)) key w Map.empty" using assms(1,2) by (simp add: coll_cur_def)
  obtain b where b: "fold (\<lambda>k (num, batch). (num + 1, batch @ [Put (encode_set_key key k w) []])) xs (0, []) =
      (int (length xs), b)" "item_batch key w b" "item_map key w (apply_batch b (view (ldb s))) = chi (set xs)"
    using set_batch [of key w "[]" "view (ldb s)" "{}" xs 0] assms(2) by (auto simp: no_items_item_map chi_empty)
  from sc.commit_incr_rep [OF cur sv(2) b(2,3)] distinct_card [OF assms(4)] assms(5,6) obtain s' where
    "commit_incr R (incr_ssize R s key b sv (encode_meta_key key) (int (length xs))) = (1, s')"
    "set_rep (view (ldb s')) key (set xs)" "touches_only key (view (ldb s)) (view (ldb s'))"
    by (auto simp: set_rep_def)
  then show ?thesis
    unfolding quickSet_def sv(1) sum.case ver quick_loop_supplies [OF assms(3)] b(1) by simp
qed

lemma quickZset_rep:
  assumes "absent (view (ldb s)) key w" "no_items (view (ldb s)) key w" "score_map key w (view (ldb s)) = Map.empty"
    and "supplies False lambda c kvs" "distinct (map fst kvs)" "kvs \<noteq> []" "length kvs < 2 ^ 63"
    and "\<forall>(k, x) \<in> set kvs. \<not> isnan x"
  shows "\<exists>s'. quickZset R s key (encode_meta_key key) (stored_meta (view (ldb s)) key) lambda c = Some (Inr 1, s') \<and>
    zset_rep (view (ldb s')) key (map_of kvs) \<and> touches_only key (view (ldb s)) (view (ldb s'))"
proof -
  let ?m = "view (ldb s)"
  obtain zv where zv: "quick_meta ZSIZE (stored_meta ?m key) = Inr zv" "coll_meta Map.empty w zv"
    using quick_meta_absent [OF assms(1)] .
  then have ver: "mv_version zv = w" by (simp add: coll_meta_def)
  have cur: "coll_cur ZSIZE ?m key w Map.empty" using assms(1,2) by (simp add: coll_cur_def)
  have z0: "zbatch ?m key w [] Map.empty" using assms(2,3) by (simp add: zbatch_def no_items_item_map)
  obtain b where b: "fold (\<lambda>(k, score) (cnt, batch). (cnt + 1, batch @
        [Put (encode_zset_key key k w) (raw64 score), Put (encode_zscore_key key k score w) []])) kvs (0, []) =
      (int (length kvs), b)" "zbatch ?m key w b (map_of kvs)"
    using zset_batch [OF assms(5) z0, of 0] by auto
  have "card (dom (map_of kvs)) = length kvs"
    using distinct_card [OF assms(5)] by (simp add: dom_map_of_conv_image_fst)
  moreover have ne: "map_of kvs \<noteq> Map.empty" using assms(6) by (simp add: map_of_eq_empty_iff)
  ultimately obtain s' where s': "commit_incr R (incr_zsize R s key b zv (int (length kvs))) = (1, s')"
    "coll_at ZSIZE (view (ldb s')) key w (zitems (map_of kvs))" "touches_only key ?m (view (ldb s'))"
    "\<forall>x \<in> item_keys key w. view (ldb s') x = apply_batch b ?m x"
    using zc.commit_incr_at [OF cur zv(2), of b "zitems (map_of kvs)" "int (length kvs)"] b(2) assms(7)
    by (auto simp: zbatch_def finite_dom_map_of)
  have "score_map key w (view (ldb s')) = zindex (map_of kvs)"
    using s'(4) b(2) by (auto simp: zbatch_def score_map_def fun_eq_iff)
  then have "zset_at (view (ldb s')) key w (map_of kvs)"
    using s'(2) assms(8) by (auto simp: zset_at_def dest!: map_of_SomeD)
  moreover have "(case incr_zsize R s key b zv (int (length kvs)) of (iret, batch, s) \<Rightarrow>
      if iret < 0 then Some (Inr iret, s)
      else (case CommitBatch R s batch of (ok, s) \<Rightarrow> Some (Inr (if \<not> ok then STORAGE_ERR else 1), s))) = Some (Inr 1 :: rdb_abort + int, s')"
    using s'(1) by (auto simp: commit_incr_def Let_def split: prod.splits if_splits)
  ultimately show ?thesis
    unfolding quickZset_def zv(1) sum.case ver quick_loop_supplies [OF assms(4)] b(1)
    using s'(3) by (auto simp: zset_rep_def)
qed

lemma quick_list_fold:
  assumes "item_map key v (apply_batch b m) = list_window l ys" "length ys + length xs < 2 ^ 63"
    "op_key ` set b \<subseteq> own_keys key"
  shows "\<exists>b'. fold (quick_list_item key v) xs (l + word_of_nat (length ys) - 1, word_of_nat (length ys), b) =
      (l + word_of_nat (length ys + length xs) - 1, word_of_nat (length ys + length xs), b') \<and>
    item_map key v (apply_batch b' m) = list_window l (ys @ xs) \<and> op_key ` set b' \<subseteq> own_keys key"
  using assms
proof (induction xs arbitrary: ys b)
  case (Cons x xs)
  let ?q = "l + word_of_nat (length ys)"
  have "?q - 1 < UINT64_MAX \<or> ?q = 0" using word_order.not_eq_extremum [of "?q - 1"] by auto
  then have q: "quick_list_item key v x (?q - 1, word_of_nat (length ys), b) =
      (l + word_of_nat (length (ys @ [x])) - 1, word_of_nat (length (ys @ [x])), b @ [Put (encode_list_key key ?q v) x])"
    by (auto simp: quick_list_item_def Let_def)
  have win: "item_map key v (apply_batch (b @ [Put (encode_list_key key ?q v) x]) m) = list_window l (ys @ [x])"
    using Cons.prems(2) by (simp add: list_key_is_item_key list_window_snoc Cons.prems(1))
  have own: "op_key ` set (b @ [Put (encode_list_key key ?q v) x]) \<subseteq> own_keys key"
    using Cons.prems(3) by (simp add: list_key_is_item_key)
  from Cons.IH [OF win _ own] Cons.prems(2) q show ?case by simp
qed simp

lemma quickList_rep:
  assumes "absent (view (ldb s)) key w" "no_items (view (ldb s)) key w"
    and "supplies True lambda c xs" "xs \<noteq> []" "length xs < 2 ^ 63 - 1"
  shows "\<exists>s'. quickList R s key (encode_meta_key key) (stored_meta (view (ldb s)) key) lambda c = Some (Inr 1, s') \<and>
    list_rep (view (ldb s')) key xs \<and> touches_only key (view (ldb s)) (view (ldb s'))"
proof -
  let ?m = "view (ldb s)"
  obtain lv where lv: "quick_list_meta (stored_meta ?m key) = Inr lv" "list_meta 0 0 w lv"
    using quick_list_meta_absent [OF assms(1)] .
  note lvD = list_metaD [OF lv(2)]
  have "item_map key w (apply_batch [] ?m) = list_window 0 []" using assms(2) by (simp add: no_items_item_map)
  from quick_list_fold [OF this, of xs] assms(5) obtain b where
    b: "fold (quick_list_item key w) xs (-1, 0, []) = (word_of_nat (length xs) - 1, word_of_nat (length xs), b)"
      "item_map key w (apply_batch b ?m) = list_window 0 xs" "op_key ` set b \<subseteq> own_keys key"
    by auto
  let ?b = "b @ [Put (encode_meta_key key) (encode_list_meta_val (word_of_nat (length xs)) 0
      (word_of_nat (length xs) - 1) w KEY_ENABLED_MASK)]"
  let ?s = "s\<lparr>ldb := snd (db_Write R (ldb s) ?b)\<rparr>"
  have "list_at (view (ldb ?s)) key w 0 xs" using assms(4,5) b(2) by (simp add: list_at_def Write_view)
  moreover have "touches_only key ?m (view (ldb ?s))"
    using touches_only_batch [of ?b key ?m] b(3) by (simp add: Write_view)
  moreover have "quickList R s key (encode_meta_key key) (stored_meta ?m key) lambda c = Some (Inr 1, ?s)"
    unfolding quickList_def lv(1) sum.case quick_loop_supplies [OF assms(3)]
    using b(1) lvD by (simp add: CommitBatch_view Let_def)
  ultimately show ?thesis by (auto simp: list_rep_def)
qed

end

end
