(* ===== verification/Dump.thy ===== *)
theory Dump
  imports Quick ZRange Deadlines
begin

text \<open>
  The commands on keys of any type (\<^verbatim>\<open>src/src/storage/t_keys.cpp\<close>): DUMP with \<^verbatim>\<open>rdbSaveObject\<close>, RESTORE
  with its thirteen encodings, TYPE, EXISTS and the bulk load of a replica. A callback that RESTORE passes to
  the writers of \<open>Quick\<close> is a function on the variables it captures. DUMP reads through a snapshot
  taken under the lock of the key; the commands of the model run one after another, so that the
  snapshot is the store itself.
\<close>

section \<open>DUMP\<close>

definition BUSY_KEY_EXISTS :: int where "BUSY_KEY_EXISTS = -20"
definition INVALID_DUMP_STR :: int where "INVALID_DUMP_STR = -21"

abbreviation text_none :: bytes where "text_none \<equiv> [110, 111, 110, 101]"
abbreviation text_OK :: bytes where "text_OK \<equiv> [79, 75]"

text \<open>The loops over the items: the return value, the number of items and the writer.\<close>

function save_hash_loop :: "'w writer \<Rightarrow> ('db, 'it) rocksdb \<Rightarrow> 'it HIterator \<Rightarrow> 'w \<Rightarrow> u64 \<Rightarrow> int \<times> u64 \<times> 'w" where
  "save_hash_loop wr R it w cnt =
     (case HIterator_next R it of
        (False, _) \<Rightarrow> (0, cnt, w)
      | (True, it) \<Rightarrow>
          (case saveRawString wr w (h_key it) of (r, w) \<Rightarrow>
             if r = -1 then (-1, cnt, w)
             else
               (case saveRawString wr w (h_val it) of (r, w) \<Rightarrow>
                  if r = -1 then (-1, cnt, w) else save_hash_loop wr R it w (cnt + 1))))"
  by pat_completeness auto
termination
  by (relation "measure (\<lambda>(wr, R, it, _, _). unat (iter_limit (h_it it)))") (auto dest: HIterator_next_limit [OF sym])

function save_set_loop :: "'w writer \<Rightarrow> ('db, 'it) rocksdb \<Rightarrow> 'it SIterator \<Rightarrow> 'w \<Rightarrow> u64 \<Rightarrow> int \<times> u64 \<times> 'w" where
  "save_set_loop wr R it w cnt =
     (case SIterator_next R it of
        (False, _) \<Rightarrow> (0, cnt, w)
      | (True, it) \<Rightarrow>
          (case saveRawString wr w (s_key it) of (r, w) \<Rightarrow>
             if r = -1 then (-1, cnt, w) else save_set_loop wr R it w (cnt + 1)))"
  by pat_completeness auto
termination
  by (relation "measure (\<lambda>(wr, R, it, _, _). unat (iter_limit (s_it it)))") (auto dest: SIterator_next_limit [OF sym])

function save_zset_loop :: "'w writer \<Rightarrow> ('db, 'it) rocksdb \<Rightarrow> 'it ZIterator \<Rightarrow> 'w \<Rightarrow> u64 \<Rightarrow> int \<times> u64 \<times> 'w" where
  "save_zset_loop wr R it w cnt =
     (case ZIterator_next R it of
        (False, _) \<Rightarrow> (0, cnt, w)
      | (True, it) \<Rightarrow>
          (case saveRawString wr w (z_key it) of (r, w) \<Rightarrow>
             if r = -1 then (-1, cnt, w)
             else
               (case rdbSaveBinaryDoubleValue wr w (z_score it) of (r, w) \<Rightarrow>
                  if r = -1 then (-1, cnt, w) else save_zset_loop wr R it w (cnt + 1))))"
  by pat_completeness auto
termination
  by (relation "measure (\<lambda>(wr, R, it, _, _). unat (iter_limit (z_it it)))") (auto dest: ZIterator_next_limit [OF sym])

declare save_hash_loop.simps [simp del] save_set_loop.simps [simp del] save_zset_loop.simps [simp del]

fun save_list_loop ::
  "'w writer \<Rightarrow> (nat \<Rightarrow> nat) \<Rightarrow> bool \<Rightarrow> ('db, 'it) rocksdb \<Rightarrow> 'db ssdb \<Rightarrow> bytes \<Rightarrow> u16 \<Rightarrow> nat \<Rightarrow> u64 \<Rightarrow> 'w \<Rightarrow> int \<times> 'w" where
  "save_list_loop wr htab c R s key version 0 cur_seq w = (1, w)"
| "save_list_loop wr htab c R s key version (Suc rangelen) cur_seq w =
     (case GetListItemValInternal R s (encode_list_key key cur_seq version) of (ret, item_val) \<Rightarrow>
        if ret \<noteq> 1 then (-1, w)
        else
          (case rdbSaveRawString wr htab c w item_val of (r, w) \<Rightarrow>
             if r = -1 then (-1, w)
             else save_list_loop wr htab c R s key version rangelen
                    (if cur_seq = UINT64_MAX then 0 else cur_seq + 1) w))"

text \<open>\<open>c\<close> is the flag for compression and \<open>htab\<close> the uninitialised table of the compressor.\<close>

definition rdbSaveObject ::
  "strtod \<Rightarrow> 'w writer \<Rightarrow> (nat \<Rightarrow> nat) \<Rightarrow> bool \<Rightarrow> ('db, 'it) rocksdb \<Rightarrow> 'db ssdb \<Rightarrow> bytes \<Rightarrow> byte \<Rightarrow> bytes \<Rightarrow> 'w \<Rightarrow> int \<times> 'w" where
  "rdbSaveObject strtod wr htab c R s key dtype meta_val w =
     (if dtype = KV then
        (case KvDecodeMetaVal meta_val False KvMetaVal_init of (ret, kv) \<Rightarrow>
           if ret < 0 then (ret, w)
           else (case rdbSaveRawString wr htab c w (kv_value kv) of (r, w) \<Rightarrow> if r = -1 then (-1, w) else (1, w)))
      else if dtype = HSIZE then
        (case DecodeMetaVal meta_val MetaVal_init of (ret, hv) \<Rightarrow>
           if ret < 0 then (ret, w)
           else (case rdbSaveLen wr w (mv_length hv) of (r, w) \<Rightarrow>
             if r = -1 then (-1, w)
             else (case save_hash_loop wr R (hscan_internal R s key (mv_version hv)) w 0 of (r, cnt, w) \<Rightarrow>
               if r = -1 then (-1, w) else if cnt \<noteq> mv_length hv then (MKEY_DECODEC_ERR, w) else (1, w))))
      else if dtype = SSIZE then
        (case DecodeMetaVal meta_val MetaVal_init of (ret, sv) \<Rightarrow>
           if ret < 0 then (ret, w)
           else (case rdbSaveLen wr w (mv_length sv) of (r, w) \<Rightarrow>
             if r = -1 then (-1, w)
             else (case save_set_loop wr R (sscan_internal R s key (mv_version sv)) w 0 of (r, cnt, w) \<Rightarrow>
               if r = -1 then (-1, w) else if cnt \<noteq> mv_length sv then (MKEY_DECODEC_ERR, w) else (1, w))))
      else if dtype = ZSIZE then
        (case DecodeMetaVal meta_val MetaVal_init of (ret, zv) \<Rightarrow>
           if ret < 0 then (ret, w)
           else (case rdbSaveLen wr w (mv_length zv) of (r, w) \<Rightarrow>
             if r = -1 then (-1, w)
             else (case save_zset_loop wr R (zscan_internal strtod R s key [] [] UINT64_MAX FORWARD (mv_version zv)) w 0 of (r, cnt, w) \<Rightarrow>
               if r = -1 then (-1, w) else if cnt \<noteq> mv_length zv then (MKEY_DECODEC_ERR, w) else (1, w))))
      else if dtype = LSIZE then
        (case ListDecodeMetaVal meta_val ListMetaVal_init of (ret, lv) \<Rightarrow>
           if ret < 0 then (ret, w)
           else (case rdbSaveLen wr w (mv_length lv) of (r, w) \<Rightarrow>
             if r = -1 then (-1, w)
             else save_list_loop wr htab c R s key (mv_version lv) (unat (mv_length lv)) (getSeqByIndex 0 lv) w))
      else (INVALID_METAVAL, w))"

text \<open>
  The result, the payload and the remaining time, which is only read when \<open>want_pttl\<close> says that
  the caller passed a pointer.
\<close>

definition dump ::
  "strtod \<Rightarrow> ('db, 'it) rocksdb \<Rightarrow> (bytes \<Rightarrow> u64) \<Rightarrow> (nat \<Rightarrow> nat) \<Rightarrow> int \<Rightarrow> 'db ssdb \<Rightarrow> bytes \<Rightarrow> bool \<Rightarrow> int \<Rightarrow> bool \<Rightarrow>
     int \<times> bytes \<times> int" where
  "dump strtod R crc64_fast htab now s key want_pttl remain compress =
     (case db_Get R (ldb s) (encode_meta_key key) of
        GetNotFound \<Rightarrow> (0, text_none, remain)
      | GetError \<Rightarrow> (STORAGE_ERR, text_none, remain)
      | GetOk meta_val \<Rightarrow>
          if length meta_val < 4 then (INVALID_METAVAL, text_none, remain)
          else if meta_val ! POS_DEL \<noteq> KEY_ENABLED_MASK then (0, text_none, remain)
          else
            let dtype = meta_val ! 0;
                rest = (\<lambda>remain.
                  case rdbSaveObjectType dump_write [] dtype of (r, w) \<Rightarrow>
                    if r < 0 then (-1, text_none, remain)
                    else (case rdbSaveObject strtod dump_write htab compress R s key dtype meta_val w of (r, w) \<Rightarrow>
                      if r < 0 then (-1, text_none, remain)
                      else (case encodeFooter crc64_fast w of (r, w) \<Rightarrow>
                        if r = -1 then (-1, text_none, remain) else (1, w, remain))))
            in if want_pttl then
                 (case eget R s key of (ret, ex) \<Rightarrow>
                    if ret < 0 then (ret, text_none, remain)
                    else if ret = 1 \<and> ex - now < 0 then (0, text_none, remain)
                    else rest (if ret = 1 then ex - now else 0))
               else rest remain)"

section \<open>The callbacks of RESTORE\<close>

type_synonym allocator = "nat \<Rightarrow> bytes"

definition next_string :: "allocator \<Rightarrow> (u64 \<times> bytes, bytes) supplier" where
  "next_string mem = (\<lambda>(len, d).
     if len > 0 then
       (case rdbGenericLoadStringObject mem 0 d of
          Inl e \<Rightarrow> Inl e
        | Inr (t_ret, current, d) \<Rightarrow> Inr (if t_ret \<noteq> 0 then -1 else 1, current, len - 1, d))
     else Inr (0, [], len - 1, d))"

definition next_pair :: "allocator \<Rightarrow> (u64 \<times> bytes, bytes \<times> bytes) supplier" where
  "next_pair mem = (\<lambda>(len, d).
     if len > 0 then
       (case rdbGenericLoadStringObject mem 0 d of
          Inl e \<Rightarrow> Inl e
        | Inr (t_ret, t_key, d) \<Rightarrow>
            if t_ret \<noteq> 0 then Inr (-1, (t_key, []), len - 1, d)
            else
              (case rdbGenericLoadStringObject mem t_ret d of
                 Inl e \<Rightarrow> Inl e
               | Inr (t_ret, t_val, d) \<Rightarrow> Inr (if t_ret \<noteq> 0 then -1 else 1, (t_key, t_val), len - 1, d)))
     else Inr (0, ([], []), len - 1, d))"

text \<open>The variable of the score keeps its value between the calls.\<close>

definition next_member :: "allocator \<Rightarrow> (bytes \<Rightarrow> u64 option) \<Rightarrow> int \<Rightarrow> (u64 \<times> u64 \<times> bytes, bytes \<times> u64) supplier" where
  "next_member mem scan_lg rdbtype = (\<lambda>(len, score, d).
     if len > 0 then
       (case rdbGenericLoadStringObject mem 0 d of
          Inl e \<Rightarrow> Inl e
        | Inr (t_ret, t_key, d) \<Rightarrow>
            if t_ret \<noteq> 0 then Inr (-1, (t_key, score), len - 1, score, d)
            else
              (case (if rdbtype = RDB_TYPE_ZSET_2 then rdbLoadBinaryDoubleValue score d
                     else rdbLoadDoubleValue scan_lg score d) of (r, score, d) \<Rightarrow>
                 Inr (if r = -1 then -1 else 1, (t_key, score), len - 1, score, d)))
     else Inr (0, ([], score), len - 1, score, d))"

text \<open>The callback for a list in one ziplist takes the first text and returns 0 in every case.\<close>

definition next_ziplist_first :: "bytes \<Rightarrow> (nat option, bytes) supplier" where
  "next_ziplist_first zl p =
     (case getNextString zl p of
        Inl e \<Rightarrow> Inl e
      | Inr None \<Rightarrow> Inr (0, [], p)
      | Inr (Some (t_key, p)) \<Rightarrow> Inr (0, t_key, p))"

definition next_quicklist :: "allocator \<Rightarrow> (u64 \<times> bytes \<times> nat option \<times> bytes, bytes) supplier" where
  "next_quicklist mem = (\<lambda>(len, zl, p, d).
     case getNextString zl p of
       Inl e \<Rightarrow> Inl e
     | Inr (Some (current, p)) \<Rightarrow> Inr (1, current, len, zl, p, d)
     | Inr None \<Rightarrow>
         if len > 0 then
           (case rdbGenericLoadStringObject mem 0 d of
              Inl e \<Rightarrow> Inl e
            | Inr (t_ret, zipListStr, d) \<Rightarrow>
                if t_ret \<noteq> 0 then Inr (-1, [], len, zl, p, d)
                else
                  (case ziplistIndex (zipListStr @ [0]) 0 of
                     Inl e \<Rightarrow> Inl e
                   | Inr p \<Rightarrow> Inr (2, [], len - 1, zipListStr @ [0], p, d)))
         else Inr (0, [], len, zl, p, d))"

definition next_intset :: "bytes \<Rightarrow> nat \<Rightarrow> (nat, bytes) supplier" where
  "next_intset is len j =
     (if j < len then
        (case intsetGet is j of
           Inl e \<Rightarrow> Inl e
         | Inr None \<Rightarrow> Inr (-1, [], j + 1)
         | Inr (Some t_value) \<Rightarrow> Inr (1, str_int64 t_value, j + 1))
      else Inr (0, [], j))"

definition next_zl_pair :: "bytes \<Rightarrow> (nat option, bytes \<times> bytes) supplier" where
  "next_zl_pair zl p =
     (case getNextString zl p of
        Inl e \<Rightarrow> Inl e
      | Inr None \<Rightarrow> Inr (0, ([], []), p)
      | Inr (Some (t_key, p)) \<Rightarrow>
          (case getNextString zl p of
             Inl e \<Rightarrow> Inl e
           | Inr None \<Rightarrow> Inr (-1, (t_key, []), p)
           | Inr (Some (t_val, p)) \<Rightarrow> Inr (1, (t_key, t_val), p)))"

definition next_zl_member :: "strtod \<Rightarrow> bytes \<Rightarrow> (nat option \<times> errno, bytes \<times> u64) supplier" where
  "next_zl_member strtod zl = (\<lambda>(p, er).
     case getNextString zl p of
       Inl e \<Rightarrow> Inl e
     | Inr None \<Rightarrow> Inr (0, ([], 0), p, er)
     | Inr (Some (t_key, p)) \<Rightarrow>
         (case getNextString zl p of
            Inl e \<Rightarrow> Inl e
          | Inr None \<Rightarrow> Inr (-1, (t_key, 0), p, er)
          | Inr (Some (t_val, p)) \<Rightarrow>
              (case str_to_double strtod er t_val of (score, er) \<Rightarrow>
                 Inr (if er = E_INVAL then INVALID_DBL else 1, (t_key, score), p, er))))"

section \<open>RESTORE\<close>

text \<open>
  The environment of RESTORE: the store library, the C library functions for floating point numbers,
  the checksum, the memory, \<^verbatim>\<open>errno\<close> at the beginning and the two readings of the clock.
\<close>

record ('db, 'it) restore_env =
  re_db :: "('db, 'it) rocksdb"
  re_strtod :: strtod
  re_scan :: "bytes \<Rightarrow> u64 option"
  re_crc :: "bytes \<Rightarrow> u64"
  re_mem :: allocator
  re_errno :: errno
  re_now1 :: int
  re_now2 :: int

text \<open>
  The branches on the encoding: the process ends, or the function returns at once (\<open>Inl\<close>), or it goes
  on with a result (\<open>Inr\<close>).
\<close>

definition go_on :: "((rdb_abort + int) \<times> 'db ssdb) option \<Rightarrow> ((rdb_abort + (int + int)) \<times> 'db ssdb) option" where
  "go_on = map_option (\<lambda>(r, s). (case r of Inl e \<Rightarrow> Inl e | Inr ret \<Rightarrow> Inr (Inr ret), s))"

definition load_blob ::
  "allocator \<Rightarrow> bytes \<Rightarrow> 'db ssdb \<Rightarrow> (bytes \<Rightarrow> bytes \<Rightarrow> ((rdb_abort + (int + int)) \<times> 'db ssdb) option) \<Rightarrow>
     ((rdb_abort + (int + int)) \<times> 'db ssdb) option" where
  "load_blob mem d s f =
     (case rdbGenericLoadStringObject mem 0 d of
        Inl e \<Rightarrow> Some (Inl e, s)
      | Inr (ret, str, d) \<Rightarrow> if ret \<noteq> 0 then Some (Inr (Inl (-1)), s) else f str d)"

definition load_ziplist ::
  "allocator \<Rightarrow> bytes \<Rightarrow> 'db ssdb \<Rightarrow> (bytes \<Rightarrow> nat option \<Rightarrow> bytes \<Rightarrow> ((rdb_abort + (int + int)) \<times> 'db ssdb) option) \<Rightarrow>
     ((rdb_abort + (int + int)) \<times> 'db ssdb) option" where
  "load_ziplist mem d s f =
     load_blob mem d s (\<lambda>str d.
       case ziplistIndex (str @ [0]) 0 of Inl e \<Rightarrow> Some (Inl e, s) | Inr p \<Rightarrow> f (str @ [0]) p d)"

definition load_count ::
  "bytes \<Rightarrow> 'db ssdb \<Rightarrow> (u64 \<Rightarrow> bytes \<Rightarrow> ((rdb_abort + (int + int)) \<times> 'db ssdb) option) \<Rightarrow>
     ((rdb_abort + (int + int)) \<times> 'db ssdb) option" where
  "load_count d s f =
     (case rdbLoadLen d of
        Inl e \<Rightarrow> Some (Inl e, s)
      | Inr (_, len, d) \<Rightarrow> if len = RDB_LENERR then Some (Inr (Inl (-1)), s) else f len d)"

definition restore_value ::
  "('db, 'it) restore_env \<Rightarrow> 'db ssdb \<Rightarrow> bytes \<Rightarrow> int \<Rightarrow> bytes \<Rightarrow> bytes \<Rightarrow> int \<Rightarrow> bytes \<Rightarrow>
     ((rdb_abort + (int + int)) \<times> 'db ssdb) option" where
  "restore_value E s key ttl meta_key meta_val rdbtype d =
     (let R = re_db E; mem = re_mem E in
      if rdbtype = RDB_TYPE_STRING then
        load_blob mem d s (\<lambda>r d.
          case quickKv R (re_now1 E) (re_now2 E) s key r meta_key meta_val ttl of (ret, s) \<Rightarrow> Some (Inr (Inr ret), s))
      else if rdbtype = RDB_TYPE_LIST then
        load_count d s (\<lambda>len d. go_on (quickList R s key meta_key meta_val (next_string mem) (len, d)))
      else if rdbtype = RDB_TYPE_LIST_ZIPLIST then
        load_ziplist mem d s (\<lambda>zl p d. go_on (quickList R s key meta_key meta_val (next_ziplist_first zl) p))
      else if rdbtype = RDB_TYPE_LIST_QUICKLIST then
        load_count d s (\<lambda>len d. load_ziplist mem d s (\<lambda>zl p d.
          go_on (quickList R s key meta_key meta_val (next_quicklist mem) (len - 1, zl, p, d))))
      else if rdbtype = RDB_TYPE_SET then
        load_count d s (\<lambda>len d. go_on (quickSet R s key meta_key meta_val (next_string mem) (len, d)))
      else if rdbtype = RDB_TYPE_SET_INTSET then
        load_blob mem d s (\<lambda>str d.
          case intsetLen (str @ [0]) of
            Inl e \<Rightarrow> Some (Inl e, s)
          | Inr len \<Rightarrow> go_on (quickSet R s key meta_key meta_val (next_intset (str @ [0]) len) 0))
      else if rdbtype = RDB_TYPE_ZSET_2 \<or> rdbtype = RDB_TYPE_ZSET then
        load_count d s (\<lambda>len d.
          go_on (quickZset R s key meta_key meta_val (next_member mem (re_scan E) rdbtype) (len, 0, d)))
      else if rdbtype = RDB_TYPE_ZSET_ZIPLIST then
        load_ziplist mem d s (\<lambda>zl p d.
          go_on (quickZset R s key meta_key meta_val (next_zl_member (re_strtod E) zl) (p, re_errno E)))
      else if rdbtype = RDB_TYPE_HASH then
        load_count d s (\<lambda>len d. go_on (quickHash R s key meta_key meta_val (next_pair mem) (len, d)))
      else if rdbtype = RDB_TYPE_HASH_ZIPLIST then
        load_ziplist mem d s (\<lambda>zl p d. go_on (quickHash R s key meta_key meta_val (next_zl_pair zl) p))
      else Some (Inr (Inl (-1)), s))"

text \<open>The deadline is set for every result of the branch, also for an error.\<close>

definition restore_expire ::
  "('db, 'it) restore_env \<Rightarrow> 'db ssdb \<Rightarrow> bytes \<Rightarrow> int \<Rightarrow> int \<Rightarrow> int \<Rightarrow> int \<times> bytes \<times> 'db ssdb" where
  "restore_expire E s key ttl rdbtype ret =
     (if ttl > 0 \<and> rdbtype \<noteq> RDB_TYPE_STRING then
        (case expireAt (re_db E) (re_now2 E) s key (ttl + re_now1 E) [] False of (_, batch, s) \<Rightarrow>
           (case CommitBatch (re_db E) s batch of (ok, s) \<Rightarrow>
              if \<not> ok then (STORAGE_ERR, text_none, s) else (ret, text_OK, s)))
      else (ret, text_OK, s))"

definition restore_payload ::
  "('db, 'it) restore_env \<Rightarrow> 'db ssdb \<Rightarrow> bytes \<Rightarrow> int \<Rightarrow> bytes \<Rightarrow> bytes \<Rightarrow> bytes \<Rightarrow>
     ((rdb_abort + int \<times> bytes) \<times> 'db ssdb) option" where
  "restore_payload E s key ttl data meta_key meta_val =
     (case verifyDumpPayload (re_crc E) data of (ok, d) \<Rightarrow>
        if \<not> ok then Some (Inr (INVALID_DUMP_STR, text_none), s)
        else
          (case rdbLoadObjectType d of (rdbtype, d) \<Rightarrow>
             map_option (\<lambda>(r, s).
               case r of
                 Inl e \<Rightarrow> (Inl e, s)
               | Inr (Inl ret) \<Rightarrow> (Inr (ret, text_none), s)
               | Inr (Inr ret) \<Rightarrow>
                   (case restore_expire E s key ttl rdbtype ret of (ret, res, s) \<Rightarrow> (Inr (ret, res), s)))
             (restore_value E s key ttl meta_key meta_val rdbtype d)))"

definition restore ::
  "('db, 'it) restore_env \<Rightarrow> 'db ssdb \<Rightarrow> bytes \<Rightarrow> int \<Rightarrow> bytes \<Rightarrow> bool \<Rightarrow>
     ((rdb_abort + int \<times> bytes) \<times> 'db ssdb) option" where
  "restore E s key ttl data replace =
     (if ttl < 0 then Some (Inr (INVALID_EX_TIME, text_none), s)
      else
        let R = re_db E; meta_key = encode_meta_key key in
        (case db_Get R (ldb s) meta_key of
           GetError \<Rightarrow> Some (Inr (STORAGE_ERR, text_none), s)
         | GetNotFound \<Rightarrow> restore_payload E s key ttl data meta_key []
         | GetOk meta_val \<Rightarrow>
             if length meta_val < 4 then Some (Inr (INVALID_METAVAL, text_none), s)
             else if meta_val ! POS_DEL = KEY_ENABLED_MASK then
               if \<not> replace then Some (Inr (BUSY_KEY_EXISTS, text_none), s)
               else
                 (case mark_key_deleted R s key [] meta_key meta_val of (_, batch, meta_val, s) \<Rightarrow>
                    (case CommitBatch R s batch of (ok, s) \<Rightarrow>
                       if \<not> ok then Some (Inr (STORAGE_ERR, text_none), s)
                       else restore_payload E s key ttl data meta_key (meta_val[POS_DEL := KEY_DELETE_MASK])))
             else restore_payload E s key ttl data meta_key meta_val))"

section \<open>Other commands on keys\<close>

definition type_cmd :: "('db, 'it) rocksdb \<Rightarrow> 'db ssdb \<Rightarrow> bytes \<Rightarrow> int \<times> string" where
  "type_cmd R s key =
     (case db_Get R (ldb s) (encode_meta_key key) of
        GetNotFound \<Rightarrow> (0, ''none'')
      | GetError \<Rightarrow> (STORAGE_ERR, ''none'')
      | GetOk meta_val \<Rightarrow>
          if length meta_val < 4 then (INVALID_METAVAL, ''none'')
          else if meta_val ! POS_DEL \<noteq> KEY_ENABLED_MASK then (0, ''none'')
          else
            let mtype = meta_val ! POS_TYPE in
            if mtype = KV then (1, ''string'') else if mtype = HSIZE then (1, ''hash'')
            else if mtype = SSIZE then (1, ''set'') else if mtype = ZSIZE then (1, ''zset'')
            else if mtype = LSIZE then (1, ''list'') else (MKEY_DECODEC_ERR, ''none''))"

text \<open>The length of the meta value is not tested; every value written has at least four bytes.\<close>

definition exists_cmd :: "('db, 'it) rocksdb \<Rightarrow> 'db ssdb \<Rightarrow> bytes \<Rightarrow> int" where
  "exists_cmd R s key =
     (case db_Get R (ldb s) (encode_meta_key key) of
        GetNotFound \<Rightarrow> 0
      | GetError \<Rightarrow> STORAGE_ERR
      | GetOk meta_val \<Rightarrow>
          if meta_val ! POS_DEL = KEY_ENABLED_MASK then 1
          else if meta_val ! POS_DEL = KEY_DELETE_MASK then 0 else MKEY_DECODEC_ERR)"

fun replic_batch :: "bytes list \<Rightarrow> batch" where
  "replic_batch (key # val # kvs) = Put key val # replic_batch kvs"
| "replic_batch kvs = []"

definition parse_replic :: "('db, 'it) rocksdb \<Rightarrow> 'db ssdb \<Rightarrow> bytes list \<Rightarrow> int \<times> 'db ssdb" where
  "parse_replic R s kvs =
     (if length kvs mod 2 \<noteq> 0 then (-1, s)
      else (case CommitBatch R s (replic_batch kvs) of (ok, s) \<Rightarrow> if \<not> ok then (-1, s) else (0, s)))"

end
