(* ===== verification/DumpRestore.thy ===== *)
theory DumpRestore
  imports Dump
begin

text \<open>
  DUMP and RESTORE are inverse to each other. A key holds a \<open>value\<close> of one of the five types; \<open>body_of\<close> describes
  the payloads that stand for a value. The lemmas show that DUMP produces such a payload and
  that RESTORE of such a payload stores the value, for each type.
\<close>

section \<open>Values\<close>

datatype "value" =
  VString bytes | VList "bytes list" | VHash contents | VSet "bytes set" | VZset "bytes \<rightharpoonup> u64"

fun value_rep :: "contents \<Rightarrow> bytes \<Rightarrow> value \<Rightarrow> bool" where
  "value_rep m key (VString x) \<longleftrightarrow> kv_rep m key (Some x)"
| "value_rep m key (VList xs) \<longleftrightarrow> xs \<noteq> [] \<and> list_rep m key xs"
| "value_rep m key (VHash h) \<longleftrightarrow> h \<noteq> Map.empty \<and> hash_rep m key h"
| "value_rep m key (VSet S) \<longleftrightarrow> S \<noteq> {} \<and> set_rep m key S"
| "value_rep m key (VZset z) \<longleftrightarrow> z \<noteq> Map.empty \<and> zset_rep m key z"

text \<open>The texts of a value; DUMP handles texts of less than two gigabytes.\<close>

fun texts :: "value \<Rightarrow> bytes set" where
  "texts (VString x) = {x}"
| "texts (VList xs) = set xs"
| "texts (VHash h) = dom h \<union> ran h"
| "texts (VSet S) = S"
| "texts (VZset z) = dom z"

fun value_tag :: "value \<Rightarrow> byte" where
  "value_tag (VString _) = KV"
| "value_tag (VList _) = LSIZE"
| "value_tag (VHash _) = HSIZE"
| "value_tag (VSet _) = SSIZE"
| "value_tag (VZset _) = ZSIZE"

fun type_name :: "value \<Rightarrow> string" where
  "type_name (VString _) = ''string''"
| "type_name (VList _) = ''list''"
| "type_name (VHash _) = ''hash''"
| "type_name (VSet _) = ''set''"
| "type_name (VZset _) = ''zset''"

section \<open>Payloads\<close>

text \<open>A sequence of items, each in a form that \<open>P\<close> accepts.\<close>

fun seq :: "('i \<Rightarrow> bytes \<Rightarrow> bool) \<Rightarrow> 'i list \<Rightarrow> bytes \<Rightarrow> bool" where
  "seq P [] p \<longleftrightarrow> p = []"
| "seq P (i # is) p \<longleftrightarrow> (\<exists>q r. p = q @ r \<and> P i q \<and> seq P is r)"

definition text_item :: "bytes \<Rightarrow> bytes \<Rightarrow> bool" where
  "text_item s q \<longleftrightarrow> stores q s"

definition pair_item :: "bytes \<times> bytes \<Rightarrow> bytes \<Rightarrow> bool" where
  "pair_item = (\<lambda>(k, x) q. \<exists>a b. q = a @ b \<and> stores a k \<and> stores b x)"

definition member_item :: "bytes \<times> u64 \<Rightarrow> bytes \<Rightarrow> bool" where
  "member_item = (\<lambda>(k, x) q. \<exists>a. q = a @ raw64 x \<and> stores a k)"

fun body_of :: "value \<Rightarrow> bytes \<Rightarrow> bool" where
  "body_of (VString x) d \<longleftrightarrow> stores d x"
| "body_of (VList xs) d \<longleftrightarrow> xs \<noteq> [] \<and> length xs < 2 ^ 63 - 1 \<and>
     (\<exists>b. d = len_bytes (word_of_nat (length xs)) @ b \<and> seq text_item xs b)"
| "body_of (VHash h) d \<longleftrightarrow> (\<exists>kvs b. h = map_of kvs \<and> distinct (map fst kvs) \<and> kvs \<noteq> [] \<and> length kvs < 2 ^ 63 \<and>
     d = len_bytes (word_of_nat (length kvs)) @ b \<and> seq pair_item kvs b)"
| "body_of (VSet S) d \<longleftrightarrow> (\<exists>xs b. S = set xs \<and> distinct xs \<and> xs \<noteq> [] \<and> length xs < 2 ^ 63 \<and>
     d = len_bytes (word_of_nat (length xs)) @ b \<and> seq text_item xs b)"
| "body_of (VZset z) d \<longleftrightarrow> (\<exists>kvs b. z = map_of kvs \<and> distinct (map fst kvs) \<and> kvs \<noteq> [] \<and> length kvs < 2 ^ 63 \<and>
     (\<forall>(k, x) \<in> set kvs. \<not> isnan x) \<and>
     d = len_bytes (word_of_nat (length kvs)) @ b \<and> seq member_item kvs b)"

section \<open>RESTORE stores what the payload says\<close>

lemma len_step: "n < 2 ^ 63 \<Longrightarrow> (word_of_nat (Suc n) :: u64) > 0 \<and> word_of_nat (Suc n) - 1 = (word_of_nat n :: u64)"
  by (simp add: word_gt_0 word_of_nat_eq_0_iff del: of_nat_Suc) (auto dest!: dvd_imp_le)

lemma stores_load: "stores q s \<Longrightarrow> rdbGenericLoadStringObject mem 0 (q @ r) = Inr (0, s, r)"
  by (simp add: stores_def)

lemma next_string_supplies:
  "seq text_item xs b \<Longrightarrow> length xs < 2 ^ 63 \<Longrightarrow> supplies retry (next_string mem) (word_of_nat (length xs), b) xs"
proof (induction xs arbitrary: b)
  case Nil
  then show ?case by (auto simp: next_string_def intro!: supplies.finish)
next
  case (Cons x xs)
  from Cons.prems(1) obtain q r where b: "b = q @ r" "stores q x" "seq text_item xs r"
    by (auto simp: text_item_def [of x])
  have "next_string mem (word_of_nat (length (x # xs)), b) = Inr (1, x, word_of_nat (length xs), r)"
    using len_step [of "length xs"] Cons.prems(2) stores_load [OF b(2)] by (simp add: next_string_def b(1) del: of_nat_Suc)
  then show ?case by (rule supplies.deliver) (use Cons.IH [OF b(3)] Cons.prems(2) in simp)
qed

lemma next_pair_supplies:
  "seq pair_item kvs b \<Longrightarrow> length kvs < 2 ^ 63 \<Longrightarrow> supplies retry (next_pair mem) (word_of_nat (length kvs), b) kvs"
proof (induction kvs arbitrary: b)
  case Nil
  then show ?case by (auto simp: next_pair_def intro!: supplies.finish)
next
  case (Cons kv kvs)
  obtain k x where kv: "kv = (k, x)" by force
  from Cons.prems obtain p q r where b: "b = p @ q @ r" "stores p k" "stores q x" "seq pair_item kvs r"
    by (auto simp: pair_item_def kv)
  have "next_pair mem (word_of_nat (length (kv # kvs)), b) = Inr (1, kv, word_of_nat (length kvs), r)"
    using len_step [of "length kvs"] Cons.prems(2) stores_load [OF b(2)] stores_load [OF b(3)]
    by (simp add: next_pair_def b(1) kv del: of_nat_Suc)
  then show ?case by (rule supplies.deliver) (use Cons.IH [OF b(4)] Cons.prems(2) in simp)
qed

lemma next_member_supplies:
  "seq member_item kvs b \<Longrightarrow> length kvs < 2 ^ 63 \<Longrightarrow>
   supplies retry (next_member mem scan RDB_TYPE_ZSET_2) (word_of_nat (length kvs), sc, b) kvs"
proof (induction kvs arbitrary: b sc)
  case Nil
  then show ?case by (auto simp: next_member_def intro!: supplies.finish)
next
  case (Cons kv kvs)
  obtain k x where kv: "kv = (k, x)" by force
  from Cons.prems obtain p r where b: "b = p @ raw64 x @ r" "stores p k" "seq member_item kvs r"
    by (auto simp: member_item_def kv)
  have "next_member mem scan RDB_TYPE_ZSET_2 (word_of_nat (length (kv # kvs)), sc, b) = Inr (1, kv, word_of_nat (length kvs), x, r)"
    using len_step [of "length kvs"] Cons.prems(2) stores_load [OF b(2)]
    by (simp add: next_member_def b(1) kv rdbLoadBinaryDoubleValue_def rioRead_def del: of_nat_Suc)
  then show ?case by (rule supplies.deliver) (use Cons.IH [OF b(3)] Cons.prems(2) in simp)
qed

text \<open>A payload: the type, the body, the version of the format and the checksum.\<close>

definition framed :: "(bytes \<Rightarrow> u64) \<Rightarrow> int \<Rightarrow> bytes \<Rightarrow> bytes" where
  "framed crc t d = (let w = word_of_int t # d in w @ [8, 0] @ raw64 (crc (w @ [8, 0])))"

definition payload :: "(bytes \<Rightarrow> u64) \<Rightarrow> value \<Rightarrow> bytes \<Rightarrow> bool" where
  "payload crc v data \<longleftrightarrow> (\<exists>d. body_of v d \<and> data = framed crc (rdb_type (value_tag v)) d)"

text \<open>Nothing is stored under the version the key would get next.\<close>

definition vacant :: "contents \<Rightarrow> bytes \<Rightarrow> bool" where
  "vacant m key \<longleftrightarrow> (\<exists>w. absent m key w \<and> no_items m key w \<and> score_map key w m = Map.empty)"

lemma load_count_len:
  assumes "n < 2 ^ 63"
  shows "load_count (len_bytes (word_of_nat n) @ b) s f = f (word_of_nat n) b"
proof -
  have "unat (word_of_nat n :: u64) = n" using assms by (simp add: unat_of_nat)
  then have "word_of_nat n \<noteq> RDB_LENERR" unfolding RDB_LENERR_def using assms by auto
  then show ?thesis by (simp add: load_count_def load_len)
qed

lemma go_on_Some [simp]: "go_on (Some (Inr ret, s)) = Some (Inr (Inr ret), s)"
  by (simp add: go_on_def)

text \<open>The keys RESTORE can write to without \<open>REPLACE\<close>, and with it.\<close>

definition replaceable :: "contents \<Rightarrow> bytes \<Rightarrow> bool" where
  "replaceable m key \<longleftrightarrow> (\<exists>t ver r. m (encode_meta_key key) = Some (t # raw16 (htobe16 ver) @ KEY_ENABLED_MASK # r) \<and>
     no_items m key (next_version ver) \<and> score_map key (next_version ver) m = Map.empty)"

context rocksdb_healthy
begin

lemma quickKv_absent:
  assumes "absent (view (ldb s)) key w"
  shows "\<exists>s'. quickKv R now1 now2 s key x (encode_meta_key key) (stored_meta (view (ldb s)) key) 0 = (1, s') \<and>
    kv_rep (view (ldb s')) key (Some x) \<and> touches_only key (view (ldb s)) (view (ldb s'))"
proof -
  let ?b = "\<lambda>v. [Put (encode_meta_key key) (encode_kv_val x v KEY_ENABLED_MASK)]"
  obtain v where "quickKv R now1 now2 s key x (encode_meta_key key) (stored_meta (view (ldb s)) key) 0 =
      (1, s\<lparr>ldb := snd (db_Write R (ldb s) (?b v))\<rparr>)"
    using assms by (auto simp: absent_def quickKv_def KvDecodeMetaVal_deleted KvMetaVal_init_def CommitBatch_view Let_def)
  moreover have "touches_only key (view (ldb s)) (view (snd (db_Write R (ldb s) (?b v))))"
    using touches_only_batch [of "?b v" key "view (ldb s)"] by (simp add: Write_view)
  ultimately show ?thesis by (auto simp: kv_rep_def Write_view)
qed

lemma restore_value_body:
  assumes E: "re_db E = R" and vac: "vacant (view (ldb s)) key" and body: "body_of v d"
  shows "\<exists>s'. restore_value E s key 0 (encode_meta_key key) (stored_meta (view (ldb s)) key) (rdb_type (value_tag v)) d =
      Some (Inr (Inr 1), s') \<and> value_rep (view (ldb s')) key v \<and> touches_only key (view (ldb s)) (view (ldb s'))"
proof -
  obtain w where w: "absent (view (ldb s)) key w" "no_items (view (ldb s)) key w"
    "score_map key w (view (ldb s)) = Map.empty" using vac by (auto simp: vacant_def)
  let ?f = "\<lambda>t. restore_value E s key 0 (encode_meta_key key) (stored_meta (view (ldb s)) key) t d"
  show ?thesis
  proof (cases v)
    case (VString x)
    then have "rdbGenericLoadStringObject (re_mem E) 0 (d @ []) = Inr (0, x, [])"
      using body stores_load [of d x "re_mem E" "[]"] by simp
    with quickKv_absent [OF w(1), of "re_now1 E" "re_now2 E" x] E VString show ?thesis
      by (auto simp: restore_value_def rdb_types rdb_type_def load_blob_def Let_def)
  next
    case (VList xs)
    then obtain b where b: "xs \<noteq> []" "length xs < 2 ^ 63 - 1" "d = len_bytes (word_of_nat (length xs)) @ b" "seq text_item xs b"
      using body by auto
    have l: "length xs < 2 ^ 63" using b(2) by simp
    from quickList_rep [OF w(1,2) next_string_supplies [OF b(4) l] b(1,2), of "re_mem E"] load_count_len [OF l, of _ s] E VList b(1,3)
    show ?thesis by (auto simp: restore_value_def rdb_types rdb_type_def Let_def)
  next
    case (VHash h)
    then obtain kvs b where b: "h = map_of kvs" "distinct (map fst kvs)" "kvs \<noteq> []" "length kvs < 2 ^ 63"
      "d = len_bytes (word_of_nat (length kvs)) @ b" "seq pair_item kvs b" using body by auto
    have "map_of kvs \<noteq> Map.empty" using b(3) by (simp add: map_of_eq_empty_iff)
    with quickHash_rep [OF w(1,2) next_pair_supplies [OF b(6,4)] b(2-4), of "re_mem E"] load_count_len [OF b(4), of _ s] E VHash b(1,5)
    show ?thesis by (auto simp: restore_value_def rdb_types rdb_type_def Let_def)
  next
    case (VSet S)
    then obtain xs b where b: "S = set xs" "distinct xs" "xs \<noteq> []" "length xs < 2 ^ 63"
      "d = len_bytes (word_of_nat (length xs)) @ b" "seq text_item xs b" using body by auto
    from quickSet_rep [OF w(1,2) next_string_supplies [OF b(6,4)] b(2-4), of "re_mem E"] load_count_len [OF b(4), of _ s] E VSet b(1,3,5)
    show ?thesis by (auto simp: restore_value_def rdb_types rdb_type_def Let_def)
  next
    case (VZset z)
    then obtain kvs b where b: "z = map_of kvs" "distinct (map fst kvs)" "kvs \<noteq> []" "length kvs < 2 ^ 63"
      "\<forall>(k, x) \<in> set kvs. \<not> isnan x" "d = len_bytes (word_of_nat (length kvs)) @ b" "seq member_item kvs b" using body by auto
    have "map_of kvs \<noteq> Map.empty" using b(3) by (simp add: map_of_eq_empty_iff)
    with quickZset_rep [OF w next_member_supplies [OF b(7,4)] b(2-5), of "re_mem E" "re_scan E" 0] load_count_len [OF b(4), of _ s] E VZset b(1,6)
    show ?thesis by (auto simp: restore_value_def rdb_types rdb_type_def Let_def)
  qed
qed

lemma restore_payload_vacant:
  assumes "rdbLoadObjectType (word_of_int t # d) = (t, d)"
    and "restore_value E s key 0 meta_key meta_val t d = Some (Inr (Inr 1), s')"
  shows "restore_payload E s key 0 (framed (re_crc E) t d) meta_key meta_val = Some (Inr (1, text_OK), s')"
  using assms unfolding restore_payload_def framed_def Let_def verify_footer prod.case by (simp add: restore_expire_def)

lemma restore_absent:
  assumes "re_db E = R" "absent (view (ldb s)) key w" "0 \<le> ttl"
  shows "restore E s key ttl data replace =
    restore_payload E s key ttl data (encode_meta_key key) (stored_meta (view (ldb s)) key)"
  using assms by (auto simp: absent_def restore_def Let_def Get_view POS_DEL_def str_pos_del)

text \<open>With \<^verbatim>\<open>REPLACE\<close> a key that exists is deleted first.\<close>

lemma restore_replace:
  assumes E: "re_db E = R" and ttl: "0 \<le> ttl"
    and live: "view (ldb s) (encode_meta_key key) = Some (t # raw16 (htobe16 ver) @ KEY_ENABLED_MASK # r)"
  obtains s1 where "restore E s key ttl data True =
      restore_payload E s1 key ttl data (encode_meta_key key) (stored_meta (view (ldb s1)) key)"
    "absent (view (ldb s1)) key (next_version ver)" "touches_only key (view (ldb s)) (view (ldb s1))"
    "\<forall>x. x \<in> item_keys key (next_version ver) \<longrightarrow> view (ldb s1) x = view (ldb s) x"
proof -
  let ?m = "view (ldb s)" and ?k = "encode_meta_key key"
  let ?mv = "t # raw16 (htobe16 ver) @ KEY_ENABLED_MASK # r" and ?dv = "t # raw16 (htobe16 ver) @ KEY_DELETE_MASK # r"
  let ?b = "[Put ?k ?dv, Put (encode_delete_key key ver) []]"
  obtain x b' s0 where c: "cancelExpiration R s key ?b = (x, b', s0)" by (metis prod_cases3)
  have upd: "?mv[POS_DEL := KEY_DELETE_MASK] = ?dv" "?dv[POS_DEL := KEY_DELETE_MASK] = ?dv"
    by (simp_all add: POS_DEL_def list_update_append numeral_3_eq_3)
  have ver: "be16toh (load16 (drop 1 ?dv)) = ver" by simp
  have m: "mark_key_deleted R s key [] ?k ?mv = (1, b', ?dv, s0)"
    unfolding mark_key_deleted_def using c upd ver by (simp add: POS_DEL_def str_pos_del Let_def)
  note del = cancel_deleted [OF c, of ?m t ver r]
  have s0: "ldb s0 = ldb s" using del(1) by simp
  let ?s1 = "s0\<lparr>ldb := snd (db_Write R (ldb s0) b')\<rparr>"
  have v: "view (ldb ?s1) = apply_batch b' ?m" by (simp add: Write_view s0)
  have fr: "apply_batch b' ?m y = apply_batch ?b ?m y" if "\<not> expiry_key y" for y
    using ce.cancel_frame [OF that, of R s key ?b ?m] c by simp
  have "restore E s key ttl data True = restore_payload E ?s1 key ttl data ?k ?dv"
    using E ttl live m upd(2) by (simp add: restore_def Let_def Get_view POS_DEL_def str_pos_del CommitBatch_view)
  moreover have "stored_meta (view (ldb ?s1)) key = ?dv" unfolding v using fr [of ?k] by simp
  moreover have "view (ldb ?s1) y = ?m y" if "y \<in> item_keys key (next_version ver)" for y
    using fr [of y] that unfolding v by (auto simp: item_keys_def)
  moreover have "absent (view (ldb ?s1)) key (next_version ver)" "touches_only key ?m (view (ldb ?s1))"
    unfolding v using del(2,3) by simp_all
  ultimately show ?thesis using that [of ?s1] by simp
qed

text \<open>What the branch of a type does to every key that is free, RESTORE does to a key that is free or replaced.\<close>

lemma restore_accepts:
  assumes "re_db E = R" "vacant (view (ldb s)) key \<or> replace \<and> replaceable (view (ldb s)) key"
    and type: "rdbLoadObjectType (word_of_int t # d) = (t, d)"
    and val: "\<forall>s. vacant (view (ldb s)) key \<longrightarrow> (\<exists>s'. restore_value E s key 0 (encode_meta_key key)
      (stored_meta (view (ldb s)) key) t d = Some (Inr (Inr 1), s') \<and> P (view (ldb s')) \<and>
      touches_only key (view (ldb s)) (view (ldb s')))"
  shows "\<exists>s'. restore E s key 0 (framed (re_crc E) t d) replace = Some (Inr (1, text_OK), s') \<and>
    P (view (ldb s')) \<and> touches_only key (view (ldb s)) (view (ldb s'))"
  using assms(2)
proof
  assume vac: "vacant (view (ldb s)) key"
  then obtain w where "absent (view (ldb s)) key w" by (auto simp: vacant_def)
  from restore_absent [OF assms(1) this] restore_payload_vacant [OF type] val vac show ?thesis by fastforce
next
  let ?data = "framed (re_crc E) t d"
  assume "replace \<and> replaceable (view (ldb s)) key"
  then obtain tag ver r where replace and live: "view (ldb s) (encode_meta_key key) = Some (tag # raw16 (htobe16 ver) @ KEY_ENABLED_MASK # r)"
    and free: "no_items (view (ldb s)) key (next_version ver)" "score_map key (next_version ver) (view (ldb s)) = Map.empty"
    by (auto simp: replaceable_def)
  obtain s1 where s1: "restore E s key 0 ?data True =
      restore_payload E s1 key 0 ?data (encode_meta_key key) (stored_meta (view (ldb s1)) key)"
    "absent (view (ldb s1)) key (next_version ver)" "touches_only key (view (ldb s)) (view (ldb s1))"
    "\<forall>x. x \<in> item_keys key (next_version ver) \<longrightarrow> view (ldb s1) x = view (ldb s) x"
    using restore_replace [OF assms(1) _ live, of 0 ?data] by blast
  have "vacant (view (ldb s1)) key"
    using s1(2,4) free by (auto simp: vacant_def no_items_def score_map_def fun_eq_iff intro!: exI [of _ "next_version ver"])
  with val obtain s' where "restore_value E s1 key 0 (encode_meta_key key) (stored_meta (view (ldb s1)) key) t d = Some (Inr (Inr 1), s')"
    "P (view (ldb s'))" "touches_only key (view (ldb s1)) (view (ldb s'))" by blast
  with restore_payload_vacant [OF type this(1)] s1(1,3) \<open>replace\<close> show ?thesis by (fastforce simp: touches_only_def)
qed

lemma restore_rep:
  assumes "re_db E = R" "vacant (view (ldb s)) key \<or> replace \<and> replaceable (view (ldb s)) key" "payload (re_crc E) v data"
  shows "\<exists>s'. restore E s key 0 data replace = Some (Inr (1, text_OK), s') \<and>
    value_rep (view (ldb s')) key v \<and> touches_only key (view (ldb s)) (view (ldb s'))"
proof -
  from assms(3) obtain d where d: "body_of v d" "data = framed (re_crc E) (rdb_type (value_tag v)) d"
    by (auto simp: payload_def)
  show ?thesis unfolding d(2) by (rule restore_accepts [OF assms(1,2) load_type]) (use restore_value_body [OF assms(1) _ d(1)] in blast)
qed

end

section \<open>DUMP writes such a payload\<close>

lemma seq_Cons_append: "P i q \<Longrightarrow> seq P is r \<Longrightarrow> seq P (i # is) (q @ r)"
  by auto

lemma save_text:
  assumes "length s < 2147483648"
  obtains p where "saveRawString dump_write w s = (int (length s), w @ p)" "stores p s"
  using dump.save_plain_string [OF assms, of w] by auto

text \<open>The meta value and what \<^verbatim>\<open>rdbSaveObject\<close> appends for a value.\<close>

definition saved ::
  "strtod \<Rightarrow> (nat \<Rightarrow> nat) \<Rightarrow> bool \<Rightarrow> ('db, 'it) rocksdb \<Rightarrow> contents \<Rightarrow> 'db ssdb \<Rightarrow> bytes \<Rightarrow> value \<Rightarrow> bytes \<Rightarrow> bool" where
  "saved strtod htab c R m s key v w \<longleftrightarrow> (\<exists>ver r d.
     m (encode_meta_key key) = Some (value_tag v # raw16 (htobe16 ver) @ KEY_ENABLED_MASK # r) \<and>
     rdbSaveObject strtod dump_write htab c R s key (value_tag v)
       (value_tag v # raw16 (htobe16 ver) @ KEY_ENABLED_MASK # r) w = (1, w @ d) \<and> body_of v d)"

lemma savedI:
  assumes "m (encode_meta_key key) = Some mv" "rdbSaveObject strtod dump_write htab c R s key (value_tag v) mv w = (1, w @ d)"
    "body_of v d" "\<exists>ver r. mv = value_tag v # raw16 (htobe16 ver) @ KEY_ENABLED_MASK # r"
  shows "saved strtod htab c R m s key v w"
  using assms by (auto simp: saved_def)

lemma meta_val_layout:
  "\<exists>ver r. encode_meta_val_internal t n v KEY_ENABLED_MASK = t # raw16 (htobe16 ver) @ KEY_ENABLED_MASK # r"
  "\<exists>ver r. encode_list_meta_val n a b v KEY_ENABLED_MASK = LSIZE # raw16 (htobe16 ver) @ KEY_ENABLED_MASK # r"
  "\<exists>ver r. encode_kv_val x v KEY_ENABLED_MASK = KV # raw16 (htobe16 ver) @ KEY_ENABLED_MASK # r"
  by (auto simp: encode_meta_val_internal_def encode_list_meta_val_def encode_kv_val_def)

lemma map_of_listing:
  assumes "distinct (map fst l)" "set l = {(f, x). z f = Some x}"
  shows "map_of l = z"
proof
  fix f
  show "map_of l f = z f" using assms(2) map_of_eq_Some_iff [OF assms(1), of f] by (cases "z f"; cases "map_of l f") auto
qed

context rocksdb_rev
begin

lemma save_hash_loop_scan:
  assumes "yields FORWARD fwd (h_it it) es" "h_return_val it" "item_scan (h_name it) (h_version it) es = l"
    and "\<forall>(k, x) \<in> set l. length k < 2147483648 \<and> length x < 2147483648"
  shows "\<exists>p. save_hash_loop dump_write R it w n = (0, n + word_of_nat (length l), w @ p) \<and> seq pair_item l p"
  using assms
proof (induction l arbitrary: it es w n)
  case Nil
  with fw.HIterator_next_scan [OF Nil(1,2)] show ?case by (auto simp: save_hash_loop.simps [of dump_write R it])
next
  case (Cons e l)
  obtain f x where e: "e = (f, x)" by force
  from fw.HIterator_next_scan [OF Cons.prems(1,2)] Cons.prems(3) obtain it' es' where
    it': "HIterator_next R it = (True, it')" "h_key it' = f" "h_val it' = x"
    "h_name it' = h_name it" "h_version it' = h_version it" "h_return_val it'"
    "yields FORWARD fwd (h_it it') es'" "item_scan (h_name it) (h_version it) es' = l"
    by (auto simp: e)
  have len: "length f < 2147483648" "length x < 2147483648" using Cons.prems(4) by (auto simp: e)
  obtain p where p: "saveRawString dump_write w f = (int (length f), w @ p)" "stores p f" using save_text [OF len(1)] .
  obtain q where q: "saveRawString dump_write (w @ p) x = (int (length x), (w @ p) @ q)" "stores q x" using save_text [OF len(2)] .
  from Cons.IH [OF it'(7,6), of "(w @ p) @ q" "n + 1"] it' Cons.prems(4) obtain r where
    r: "save_hash_loop dump_write R it' ((w @ p) @ q) (n + 1) = (0, n + 1 + word_of_nat (length l), ((w @ p) @ q) @ r)"
      "seq pair_item l r" by auto
  have "pair_item e (p @ q)" using p(2) q(2) by (auto simp: pair_item_def e)
  from seq_Cons_append [OF this r(2)] r(1) p(1) q(1) it'(1-3) show ?case
    by (auto simp: save_hash_loop.simps [of dump_write R it] add.assoc)
qed

lemma save_set_loop_scan:
  assumes "yields FORWARD fwd (s_it it) es" "item_scan (s_name it) (s_version it) es = l"
    and "\<forall>e \<in> set l. length (fst e) < 2147483648"
  shows "\<exists>p. save_set_loop dump_write R it w n = (0, n + word_of_nat (length l), w @ p) \<and> seq text_item (map fst l) p"
  using assms
proof (induction l arbitrary: it es w n)
  case Nil
  with fw.SIterator_next_scan [OF Nil(1)] show ?case by (auto simp: save_set_loop.simps [of dump_write R it])
next
  case (Cons e l)
  obtain f x where e: "e = (f, x)" by force
  from fw.SIterator_next_scan [OF Cons.prems(1)] Cons.prems(2) obtain it' es' where
    it': "SIterator_next R it = (True, it')" "s_key it' = f" "s_name it' = s_name it"
    "s_version it' = s_version it" "yields FORWARD fwd (s_it it') es'"
    "item_scan (s_name it) (s_version it) es' = l"
    by (auto simp: e)
  have len: "length f < 2147483648" using Cons.prems(3) by (auto simp: e)
  obtain p where p: "saveRawString dump_write w f = (int (length f), w @ p)" "stores p f" using save_text [OF len] .
  from Cons.IH [OF it'(5), of "w @ p" "n + 1"] it' Cons.prems(3) obtain r where
    r: "save_set_loop dump_write R it' (w @ p) (n + 1) = (0, n + 1 + word_of_nat (length l), (w @ p) @ r)"
      "seq text_item (map fst l) r" by auto
  have "text_item f p" using p(2) by (simp add: text_item_def)
  from seq_Cons_append [OF this r(2)] r(1) p(1) it'(1-3) show ?case
    by (auto simp: save_set_loop.simps [of dump_write R it] e add.assoc)
qed

lemma save_zset_loop_scan:
  assumes "z_pending FORWARD fwd name v it l" "\<forall>e \<in> set l. length (fst e) < 2147483648"
  shows "\<exists>p. save_zset_loop dump_write R it w n = (0, n + word_of_nat (length l), w @ p) \<and> seq member_item l p"
  using assms
proof (induction l arbitrary: it w n)
  case Nil
  then show ?case using fw.z_next_Nil [OF Nil(1)] by (auto simp: save_zset_loop.simps [of dump_write R it])
next
  case (Cons e l)
  obtain f x where e: "e = (f, x)" by force
  from fw.z_next_Cons [OF Cons.prems(1) [unfolded e]] obtain it' where
    it': "ZIterator_next R it = (True, it')" "z_key it' = f" "z_score it' = x" "z_pending FORWARD fwd name v it' l" .
  have len: "length f < 2147483648" using Cons.prems(2) by (auto simp: e)
  obtain p where p: "saveRawString dump_write w f = (int (length f), w @ p)" "stores p f" using save_text [OF len] .
  from Cons.IH [OF it'(4), of "w @ p @ raw64 x" "n + 1"] Cons.prems(2) obtain r where
    r: "save_zset_loop dump_write R it' (w @ p @ raw64 x) (n + 1) = (0, n + 1 + word_of_nat (length l), (w @ p @ raw64 x) @ r)"
      "seq member_item l r" by auto
  have "member_item e (p @ raw64 x)" using p(2) by (auto simp: member_item_def e)
  from seq_Cons_append [OF this r(2)] r(1) p(1) it'(1-3) show ?case
    by (auto simp: save_zset_loop.simps [of dump_write R it] rdbSaveBinaryDoubleValue_def add.assoc)
qed

lemma save_list_loop_window:
  assumes "item_map key v (view (ldb s)) = list_window l xs" "length xs < 2 ^ 63 - 1"
    "i + n \<le> length xs" "\<forall>x \<in> set xs. length x < 2147483648"
  shows "\<exists>p. save_list_loop dump_write htab c R s key v n (l + word_of_nat i) w = (1, w @ p) \<and>
    seq text_item (take n (drop i xs)) p"
  using assms(3)
proof (induction n arbitrary: i w)
  case (Suc n)
  from Suc.prems assms(2) have "unat (word_of_nat i :: u64) = i" by (simp add: unat_of_nat)
  with Suc.prems assms(1,2) have it: "GetListItemValInternal R s (encode_list_key key (l + word_of_nat i) v) = (1, xs ! i)"
    by (simp add: GetListItemVal_view list_window_nth)
  have t: "take (Suc n) (drop i xs) = xs ! i # take n (drop (Suc i) xs)"
    using Suc.prems by (simp add: Cons_nth_drop_Suc [symmetric])
  have "length (xs ! i) < 2147483648" using Suc.prems assms(4) by simp
  from dump.save_raw_string [OF this, of htab c w] obtain p where
    p: "rdbSaveRawString dump_write htab c w (xs ! i) = (int (length p), w @ p)" "stores p (xs ! i)" by blast
  have nx: "(if l + word_of_nat i = UINT64_MAX then 0 else l + word_of_nat i + 1) = l + word_of_nat (Suc i)"
    by (simp add: algebra_simps)
  from Suc.IH [of "Suc i" "w @ p"] Suc.prems obtain r where
    r: "save_list_loop dump_write htab c R s key v n (l + word_of_nat (Suc i)) (w @ p) = (1, (w @ p) @ r)"
      "seq text_item (take n (drop (Suc i) xs)) r" by auto
  have "text_item (xs ! i) p" using p(2) by (simp add: text_item_def)
  from seq_Cons_append [OF this r(2)] r(1) p(1) it show ?case unfolding t by (auto simp: nx)
qed simp

lemma save_object_string:
  assumes rep: "value_rep (view (ldb s)) key (VString x)" and key: "long_enough key" and card: "card (dom (view (ldb s))) < 2 ^ 64"
    and small: "\<forall>t \<in> texts (VString x). length t < 2147483648"
  shows "saved strtod htab c R (view (ldb s)) s key (VString x) w"
proof -
  from rep obtain ver where m: "view (ldb s) (encode_meta_key key) = Some (encode_kv_val x ver KEY_ENABLED_MASK)"
    by (auto simp: kv_rep_def)
  obtain p where "rdbSaveRawString dump_write htab c w x = (int (length p), w @ p)" "stores p x"
    using dump.save_raw_string [of x htab c w] small by auto
  then have "rdbSaveObject strtod dump_write htab c R s key KV (encode_kv_val x ver KEY_ENABLED_MASK) w = (1, w @ p)"
    by (simp add: rdbSaveObject_def KvDecodeMetaVal_encode)
  then show ?thesis using m \<open>stores p x\<close> meta_val_layout(3) by (intro savedI) simp_all
qed

lemma save_object_list:
  assumes rep: "value_rep (view (ldb s)) key (VList xs)" and key: "long_enough key" and card: "card (dom (view (ldb s))) < 2 ^ 64"
    and small: "\<forall>t \<in> texts (VList xs). length t < 2147483648"
  shows "saved strtod htab c R (view (ldb s)) s key (VList xs) w"
proof -
  from rep obtain ver l where at: "list_at (view (ldb s)) key ver l xs" by (auto simp: list_rep_def)
  let ?n = "word_of_nat (length xs) :: u64"
  let ?mv = "encode_list_meta_val ?n l (l + ?n - 1) ver KEY_ENABLED_MASK"
  have xs: "xs \<noteq> []" "length xs < 2 ^ 63 - 1" "view (ldb s) (encode_meta_key key) = Some ?mv"
    "item_map key ver (view (ldb s)) = list_window l xs" using at by (auto simp: list_at_def)
  have "unat ?n = length xs" using xs(2) by (simp add: unat_of_nat)
  moreover obtain p where "save_list_loop dump_write htab c R s key ver (length xs) (l + word_of_nat 0) (w @ len_bytes ?n) =
      (1, (w @ len_bytes ?n) @ p)" "seq text_item (take (length xs) (drop 0 xs)) p"
    using save_list_loop_window [OF xs(4,2), of 0 "length xs" htab c "w @ len_bytes ?n"] small by auto
  ultimately have "rdbSaveObject strtod dump_write htab c R s key LSIZE ?mv w = (1, w @ len_bytes ?n @ p)" "seq text_item xs p"
    using dump.save_len [of w ?n] by (auto simp: rdbSaveObject_def ListDecodeMetaVal_encode getSeqByIndex_eq)
  moreover from this have "body_of (VList xs) (len_bytes ?n @ p)" using xs by auto
  ultimately show ?thesis using xs meta_val_layout(2) by (intro savedI) (simp_all del: body_of.simps)
qed

lemma save_object_hash:
  assumes rep: "value_rep (view (ldb s)) key (VHash h)" and key: "long_enough key" and card: "card (dom (view (ldb s))) < 2 ^ 64"
    and small: "\<forall>t \<in> texts (VHash h). length t < 2147483648"
  shows "saved strtod htab c R (view (ldb s)) s key (VHash h) w"
proof -
  from rep obtain ver where at: "coll_at HSIZE (view (ldb s)) key ver h" using coll_rep_nonempty [of HSIZE "view (ldb s)" key h] by auto
  let ?l = "sorted_entries h" and ?n = "word_of_nat (card (dom h)) :: u64"
  let ?mv = "encode_meta_val_internal HSIZE ?n ver KEY_ENABLED_MASK" and ?it = "hscan_internal R s key ver"
  have h: "finite (dom h)" "card (dom h) < 2 ^ 63" "item_map key ver (view (ldb s)) = h"
    "view (ldb s) (encode_meta_key key) = Some ?mv" using at by (auto simp: coll_at_def)
  let ?p = "encode_key_internal ITEM key [] ver"
  let ?es = "filter (\<lambda>e. ?p \<le> fst e) (sorted_entries (view (ldb s)))"
  have "yields FORWARD fwd (h_it ?it) ?es"
    using yields_iterator [OF card, of ?p] by (simp add: hscan_internal_def HIterator_init_def encode_hash_key_def)
  moreover have "item_scan key ver ?es = ?l"
    using item_scan_fields [OF key finite_view, of ver "ldb s"] h(3) by (simp add: item_map_def)
  moreover have "\<forall>(k, x) \<in> set ?l. length k < 2147483648 \<and> length x < 2147483648"
    using small unfolding set_sorted_entries [OF h(1)] by (auto simp: ran_def)
  ultimately obtain p where "save_hash_loop dump_write R ?it (w @ len_bytes ?n) 0 = (0, word_of_nat (length ?l), (w @ len_bytes ?n) @ p)"
    "seq pair_item ?l p"
    using save_hash_loop_scan [of ?it ?es ?l "w @ len_bytes ?n" 0] by (auto simp: hscan_internal_def HIterator_init_def)
  moreover have l: "length ?l = card (dom h)" "distinct (map fst ?l)"
    by (simp add: sorted_entries_def) (simp add: map_fst_sorted_entries)
  ultimately have save: "rdbSaveObject strtod dump_write htab c R s key HSIZE ?mv w = (1, w @ len_bytes ?n @ p)" "seq pair_item ?l p"
    using dump.save_len [of w ?n] by (auto simp: rdbSaveObject_def DecodeMetaVal_encode Let_def)
  moreover have "map_of ?l = h" by (rule map_of_listing [OF l(2) set_sorted_entries [OF h(1)]])
  moreover from this have "?l \<noteq> []" using rep by auto
  ultimately have "body_of (VHash h) (len_bytes ?n @ p)" using l h(2) by (simp, intro exI [of _ ?l]) simp
  then show ?thesis using h(4) save meta_val_layout(1) by (intro savedI) simp_all
qed

lemma save_object_set:
  assumes rep: "value_rep (view (ldb s)) key (VSet S)" and key: "long_enough key" and card: "card (dom (view (ldb s))) < 2 ^ 64"
    and small: "\<forall>t \<in> texts (VSet S). length t < 2147483648"
  shows "saved strtod htab c R (view (ldb s)) s key (VSet S) w"
proof -
  from rep obtain ver where at: "coll_at SSIZE (view (ldb s)) key ver (chi S)"
    using coll_rep_nonempty [of SSIZE "view (ldb s)" key "chi S"] by (auto simp: set_rep_def)
  let ?l = "sorted_list_of_set S" and ?n = "word_of_nat (card S) :: u64"
  let ?mv = "encode_meta_val_internal SSIZE ?n ver KEY_ENABLED_MASK" and ?it = "sscan_internal R s key ver"
  have S: "finite S" "card S < 2 ^ 63" "item_map key ver (view (ldb s)) = chi S"
    "view (ldb s) (encode_meta_key key) = Some ?mv" using at by (auto simp: coll_at_def)
  obtain es where es: "yields FORWARD fwd (s_it ?it) es" "item_scan key ver es = map (\<lambda>x. (x, [])) ?l"
    using sscan_items [OF S(3) key card] by blast
  have "\<forall>e \<in> set (map (\<lambda>x. (x, [])) ?l). length (fst e) < 2147483648" using small S(1) by auto
  then obtain p where "save_set_loop dump_write R ?it (w @ len_bytes ?n) 0 = (0, word_of_nat (length ?l), (w @ len_bytes ?n) @ p)"
    "seq text_item ?l p"
    using save_set_loop_scan [OF es(1), of "map (\<lambda>x. (x, [])) ?l" "w @ len_bytes ?n" 0] es(2) sscan_items(2,3) [OF S(3) key card]
    by (auto simp: comp_def)
  then have save: "rdbSaveObject strtod dump_write htab c R s key SSIZE ?mv w = (1, w @ len_bytes ?n @ p)" "seq text_item ?l p"
    using dump.save_len [of w ?n] by (auto simp: rdbSaveObject_def DecodeMetaVal_encode Let_def)
  moreover have "?l \<noteq> []" "set ?l = S" "length ?l = card S" "distinct ?l" using S(1) rep by auto
  ultimately have "body_of (VSet S) (len_bytes ?n @ p)" using S(2) by (simp, intro exI [of _ ?l]) simp
  then show ?thesis using S(4) save meta_val_layout(1) by (intro savedI) simp_all
qed

lemma save_object_zset:
  assumes rep: "value_rep (view (ldb s)) key (VZset z)" and key: "long_enough key" and card: "card (dom (view (ldb s))) < 2 ^ 64"
    and small: "\<forall>t \<in> texts (VZset z). length t < 2147483648"
  shows "saved strtod htab c R (view (ldb s)) s key (VZset z) w"
proof -
  from rep obtain ver where at: "zset_at (view (ldb s)) key ver z" by (auto simp: zset_rep_def)
  note D = zset_atD [OF at]
  note L = zlist_facts [OF D(2)]
  let ?l = "zlist z" and ?n = "word_of_nat (card (dom z)) :: u64"
  let ?mv = "encode_meta_val_internal ZSIZE ?n ver KEY_ENABLED_MASK"
  let ?it = "zscan_internal strtod R s key [] [] UINT64_MAX FORWARD ver"
  have m: "view (ldb s) (encode_meta_key key) = Some ?mv" using at by (auto simp: zset_at_def coll_at_def)
  have "take (unat UINT64_MAX) ?l = ?l" using L(4) D(5) by simp
  with zscan_full(1) [OF at key, of strtod UINT64_MAX] have "z_pending FORWARD fwd key ver ?it ?l" by simp
  moreover have "\<forall>e \<in> set ?l. length (fst e) < 2147483648" using small L(1) by (auto simp: dom_def)
  ultimately obtain p where "save_zset_loop dump_write R ?it (w @ len_bytes ?n) 0 = (0, word_of_nat (length ?l), (w @ len_bytes ?n) @ p)"
    "seq member_item ?l p"
    using save_zset_loop_scan [of key ver ?it ?l "w @ len_bytes ?n" 0] by auto
  then have save: "rdbSaveObject strtod dump_write htab c R s key ZSIZE ?mv w = (1, w @ len_bytes ?n @ p)" "seq member_item ?l p"
    using dump.save_len [of w ?n] L(4) by (auto simp: rdbSaveObject_def DecodeMetaVal_encode Let_def)
  moreover have "map_of ?l = z" by (rule map_of_listing [OF L(3,1)])
  moreover from this have "?l \<noteq> []" using D(4) by auto
  moreover have "\<forall>(k, x) \<in> set ?l. \<not> isnan x" using D(3) by auto
  ultimately have "body_of (VZset z) (len_bytes ?n @ p)" using L(3,4) D(5) by (simp, intro exI [of _ ?l]) simp
  then show ?thesis using m save meta_val_layout(1) by (intro savedI) simp_all
qed

lemma save_object_rep:
  assumes "value_rep (view (ldb s)) key v" "long_enough key" "card (dom (view (ldb s))) < 2 ^ 64"
    "\<forall>t \<in> texts v. length t < 2147483648"
  shows "saved strtod htab c R (view (ldb s)) s key v w"
proof (cases v)
  case (VString x)
  then show ?thesis using save_object_string assms by simp
next
  case (VList xs)
  then show ?thesis using save_object_list assms by simp
next
  case (VHash h)
  then show ?thesis using save_object_hash assms by simp
next
  case (VSet S)
  then show ?thesis using save_object_set assms by simp
next
  case (VZset z)
  then show ?thesis using save_object_zset assms by simp
qed

lemma dump_rep:
  assumes "value_rep (view (ldb s)) key v" "long_enough key" "card (dom (view (ldb s))) < 2 ^ 64"
    "\<forall>t \<in> texts v. length t < 2147483648"
  shows "\<exists>data. dump strtod R crc htab now s key False r c = (1, data, r) \<and> payload crc v data"
proof -
  let ?w = "[word_of_int (rdb_type (value_tag v))]"
  obtain ver q d where q: "view (ldb s) (encode_meta_key key) = Some (value_tag v # raw16 (htobe16 ver) @ KEY_ENABLED_MASK # q)"
    "rdbSaveObject strtod dump_write htab c R s key (value_tag v)
      (value_tag v # raw16 (htobe16 ver) @ KEY_ENABLED_MASK # q) ?w = (1, ?w @ d)" "body_of v d"
    using save_object_rep [OF assms, of strtod htab c ?w] unfolding saved_def by blast
  have "value_tag v \<in> {KV, HSIZE, SSIZE, ZSIZE, LSIZE}" by (cases v) simp_all
  from save_type [OF this, of "[]"] q(1,2) have "dump strtod R crc htab now s key False r c =
      (1, (?w @ d) @ [8, 0] @ raw64 (crc ((?w @ d) @ [8, 0])), r)"
    by (simp add: dump_def Get_view POS_DEL_def str_pos_del encodeFooter_eq Let_def)
  then show ?thesis using q(3) by (auto simp: payload_def framed_def Let_def)
qed

end

end
