(* ===== verification/Compact.thy ===== *)
theory Compact
  imports DumpRestore
begin

text \<open>
  The compact encodings that Redis uses in dumps of small keys: a hash or a sorted set in one ziplist, a
  list in a quicklist of ziplists and a set of integers in an intset. VCDB never writes them, but RESTORE
  reads them. The relation \<open>compact\<close> says which bodies stand for which values; the lemmas show that
  the callbacks of RESTORE supply exactly the elements.
\<close>

definition ziplist_blob :: "bytes list \<Rightarrow> bytes \<Rightarrow> bool" where
  "ziplist_blob ss d \<longleftrightarrow> (\<forall>t \<in> set ss. length t < 2147483648) \<and> (\<exists>h. length h = 10 \<and> stores d (h @ ziplist_entries 0 ss))"

definition flat_pairs :: "(bytes \<times> bytes) list \<Rightarrow> bytes list" where
  "flat_pairs kvs = concat (map (\<lambda>(k, x). [k, x]) kvs)"

inductive compact :: "strtod \<Rightarrow> int \<Rightarrow> value \<Rightarrow> bytes \<Rightarrow> bool" for strtod where
  hash: "ziplist_blob (flat_pairs kvs) d \<Longrightarrow> distinct (map fst kvs) \<Longrightarrow> kvs \<noteq> [] \<Longrightarrow> length kvs < 2 ^ 63 \<Longrightarrow>
    compact strtod RDB_TYPE_HASH_ZIPLIST (VHash (map_of kvs)) d"
| intset: "stores d (intset_bytes enc vs) \<Longrightarrow> enc \<in> {2, 4, 8} \<Longrightarrow> length vs < 4294967296 \<Longrightarrow>
    \<forall>v \<in> set vs. fits enc v \<Longrightarrow> distinct vs \<Longrightarrow> vs \<noteq> [] \<Longrightarrow>
    compact strtod RDB_TYPE_SET_INTSET (VSet (str_int64 ` set vs)) d"
| zset: "ziplist_blob (flat_pairs ms) d \<Longrightarrow> distinct (map fst ms) \<Longrightarrow> ms \<noteq> [] \<Longrightarrow> length ms < 2 ^ 63 \<Longrightarrow>
    \<forall>(k, t) \<in> set ms. score_text strtod t (sc t) \<Longrightarrow>
    compact strtod RDB_TYPE_ZSET_ZIPLIST (VZset (map_of (map (\<lambda>(k, t). (k, sc t)) ms))) d"
| quicklist: "seq ziplist_blob xss b \<Longrightarrow> concat xss \<noteq> [] \<Longrightarrow> length xss < 2 ^ 63 \<Longrightarrow> length (concat xss) < 2 ^ 63 - 1 \<Longrightarrow>
    compact strtod RDB_TYPE_LIST_QUICKLIST (VList (concat xss)) (len_bytes (word_of_nat (length xss)) @ b)"

section \<open>What the callbacks supply\<close>

lemma flat_pairs_simps [simp]: "flat_pairs [] = []" "flat_pairs ((k, x) # kvs) = k # x # flat_pairs kvs"
  by (simp_all add: flat_pairs_def)

lemma zl_pair_supplies: "zl_reads zl p (flat_pairs kvs) \<Longrightarrow> supplies retry (next_zl_pair zl) p kvs"
proof (induction kvs arbitrary: p)
  case Nil
  then show ?case by (auto simp: next_zl_pair_def intro!: supplies.finish)
next
  case (Cons kv kvs)
  obtain k x where kv: "kv = (k, x)" by force
  with Cons.prems obtain p1 p2 where p: "getNextString zl p = Inr (Some (k, p1))" "getNextString zl p1 = Inr (Some (x, p2))"
    "zl_reads zl p2 (flat_pairs kvs)" by auto
  have "next_zl_pair zl p = Inr (1, kv, p2)" by (simp add: next_zl_pair_def p kv)
  then show ?case by (rule supplies.deliver) (rule Cons.IH [OF p(3)])
qed

lemma zl_member_supplies:
  assumes "\<forall>(k, t) \<in> set ms. score_text strtod t (sc t)" "zl_reads zl p (flat_pairs ms)"
  shows "supplies retry (next_zl_member strtod zl) (p, er) (map (\<lambda>(k, t). (k, sc t)) ms)"
  using assms
proof (induction ms arbitrary: p er)
  case Nil
  then show ?case by (auto simp: next_zl_member_def intro!: supplies.finish)
next
  case (Cons m ms)
  obtain k t where m: "m = (k, t)" by force
  with Cons.prems obtain p1 p2 where p: "getNextString zl p = Inr (Some (k, p1))" "getNextString zl p1 = Inr (Some (t, p2))"
    "zl_reads zl p2 (flat_pairs ms)" by auto
  obtain er' where e: "str_to_double strtod er t = (sc t, er')" "er' \<noteq> E_INVAL"
    using score_text_read [of strtod t "sc t" er] Cons.prems(1) m by auto
  have "next_zl_member strtod zl (p, er) = Inr (1, (k, sc t), (p2, er'))" by (simp add: next_zl_member_def p e)
  then have "supplies retry (next_zl_member strtod zl) (p, er) ((k, sc t) # map (\<lambda>(k, t). (k, sc t)) ms)"
    by (rule supplies.deliver) (use Cons in \<open>auto intro: Cons.IH [OF _ p(3)]\<close>)
  then show ?case by (simp add: m)
qed

lemma str_int64_inj:
  assumes "enc \<in> {2, 4, 8}" "\<forall>v \<in> set vs. fits enc v"
  shows "inj_on str_int64 (set vs)"
proof (rule inj_onI)
  fix x y assume "x \<in> set vs" "y \<in> set vs" and eq: "str_int64 x = str_int64 y"
  with assms have "int64 x" "int64 y" by (auto simp: fits_def int64_def)
  with eq have "string2ll (str_int64 x) = Some x" "string2ll (str_int64 x) = Some y" by (simp_all add: string2ll_iff)
  then show "x = y" by simp
qed

lemma intset_supplies:
  assumes "\<forall>i < length vs. intsetGet is i = Inr (Some (vs ! i))" "j \<le> length vs"
  shows "supplies retry (next_intset is (length vs)) j (map str_int64 (drop j vs))"
  using assms(2)
proof (induction "length vs - j" arbitrary: j)
  case 0
  then show ?case by (auto simp: next_intset_def intro!: supplies.finish)
next
  case (Suc n)
  then have j: "j < length vs" by simp
  have "next_intset is (length vs) j = Inr (1, str_int64 (vs ! j), j + 1)" using assms(1) j by (simp add: next_intset_def)
  then have "supplies retry (next_intset is (length vs)) j (str_int64 (vs ! j) # map str_int64 (drop (j + 1) vs))"
    by (rule supplies.deliver) (use Suc in simp)
  then show ?case using j by (simp add: Cons_nth_drop_Suc [symmetric])
qed

text \<open>Loading a blob that holds a ziplist.\<close>

lemma ziplist_blob_load:
  assumes "ziplist_blob ss q"
  shows "\<exists>zl p. rdbGenericLoadStringObject mem 0 (q @ r) = Inr (0, zl, r) \<and>
    ziplistIndex (zl @ [0]) 0 = Inr p \<and> zl_reads (zl @ [0]) p ss"
proof -
  from assms obtain h where h: "length h = 10" "stores q (h @ ziplist_entries 0 ss)" "\<forall>t \<in> set ss. length t < 2147483648"
    by (auto simp: ziplist_blob_def)
  show ?thesis
    using stores_load [OF h(2)] ziplist_index_0 [OF h(1), of ss "[0]"] read_entries [of 0 ss h "[0]"] h(1,3) by auto
qed

lemma load_ziplist_blob:
  assumes "ziplist_blob ss q"
  shows "\<exists>zl p. load_ziplist mem (q @ r) s f = f zl p r \<and> zl_reads zl p ss"
  proof -
  obtain zl p where "rdbGenericLoadStringObject mem 0 (q @ r) = Inr (0, zl, r)" "ziplistIndex (zl @ [0]) 0 = Inr p"
    "zl_reads (zl @ [0]) p ss" using ziplist_blob_load [OF assms] by blast
  then show ?thesis by (intro exI [of _ "zl @ [0]"] exI [of _ p]) (simp add: load_ziplist_def load_blob_def)
qed

lemma quicklist_walk:
  assumes "zl_reads zl p xs" "\<And>p'. zl_reads zl p' [] \<Longrightarrow> supplies True (next_quicklist mem) (n, zl, p', d) ys"
  shows "supplies True (next_quicklist mem) (n, zl, p, d) (xs @ ys)"
  using assms(1)
proof (induction xs arbitrary: p)
  case (Cons x xs)
  then obtain p' where p: "getNextString zl p = Inr (Some (x, p'))" "zl_reads zl p' xs" by auto
  have "next_quicklist mem (n, zl, p, d) = Inr (1, x, n, zl, p', d)" by (simp add: next_quicklist_def p)
  then have "supplies True (next_quicklist mem) (n, zl, p, d) (x # xs @ ys)"
    by (rule supplies.deliver) (rule Cons.IH [OF p(2)])
  then show ?case by simp
qed (use assms(2) in simp)

lemma quicklist_supplies:
  "seq ziplist_blob xss d \<Longrightarrow> length xss < 2 ^ 63 \<Longrightarrow> zl_reads zl p xs \<Longrightarrow>
   supplies True (next_quicklist mem) (word_of_nat (length xss), zl, p, d) (xs @ concat xss)"
proof (induction xss arbitrary: d zl p xs)
  case Nil
  show ?case by (rule quicklist_walk [OF Nil(3)]) (auto simp: next_quicklist_def intro!: supplies.finish)
next
  case (Cons ys xss)
  from Cons.prems(1) obtain q r where d: "d = q @ r" "ziplist_blob ys q" "seq ziplist_blob xss r" by auto
  obtain zl' p' where z: "rdbGenericLoadStringObject mem 0 (q @ r) = Inr (0, zl', r)"
    "ziplistIndex (zl' @ [0]) 0 = Inr p'" "zl_reads (zl' @ [0]) p' ys" using ziplist_blob_load [OF d(2)] by blast
  show ?case
  proof (rule quicklist_walk [OF Cons.prems(3)])
    fix p assume "zl_reads zl p []"
    then have "next_quicklist mem (word_of_nat (length (ys # xss)), zl, p, d) =
        Inr (2, [], word_of_nat (length xss), zl' @ [0], p', r)"
      using len_step [of "length xss"] Cons.prems(2) by (simp add: next_quicklist_def d(1) z del: of_nat_Suc)
    then show "supplies True (next_quicklist mem) (word_of_nat (length (ys # xss)), zl, p, d) (concat (ys # xss))"
      by (rule supplies.again [rotated]) (use Cons.IH [OF d(3) _ z(3)] Cons.prems(2) in simp_all)
  qed
qed

section \<open>What RESTORE stores\<close>

context rocksdb_healthy
begin

lemma restore_value_compact:
  assumes E: "re_db E = R" and vac: "vacant (view (ldb s)) key" and body: "compact (re_strtod E) t v d"
  shows "\<exists>s'. restore_value E s key 0 (encode_meta_key key) (stored_meta (view (ldb s)) key) t d = Some (Inr (Inr 1), s') \<and>
    value_rep (view (ldb s')) key v \<and> touches_only key (view (ldb s)) (view (ldb s'))"
proof -
  obtain w where w: "absent (view (ldb s)) key w" "no_items (view (ldb s)) key w"
    "score_map key w (view (ldb s)) = Map.empty" using vac by (auto simp: vacant_def)
  from body show ?thesis
  proof cases
    case (hash kvs)
    let ?f = "\<lambda>zl p d. go_on (quickHash R s key (encode_meta_key key) (stored_meta (view (ldb s)) key) (next_zl_pair zl) p)"
    obtain zl p where z: "load_ziplist (re_mem E) d s ?f = ?f zl p []" "zl_reads zl p (flat_pairs kvs)"
      using load_ziplist_blob [OF hash(3), of "re_mem E" "[]" s ?f] by auto
    have "map_of kvs \<noteq> Map.empty" using hash(5) by (simp add: map_of_eq_empty_iff)
    with quickHash_rep [OF w(1,2) zl_pair_supplies [OF z(2)] hash(4-6)] z(1) E hash(1,2) show ?thesis
      by (auto simp: restore_value_def rdb_types Let_def)
  next
    case (intset enc vs)
    have get: "intsetLen (intset_bytes enc vs @ [0]) = Inr (length vs)"
      "\<forall>i < length vs. intsetGet (intset_bytes enc vs @ [0]) i = Inr (Some (vs ! i))"
      using intset_read [OF intset(4-6)] by blast+
    have "distinct (map str_int64 vs)" using intset(7) str_int64_inj [OF intset(4,6)] by (simp add: distinct_map)
    from quickSet_rep [OF w(1,2) intset_supplies [OF get(2)], of 0] this intset E get(1) stores_load [OF intset(3), of "re_mem E" "[]"]
    show ?thesis by (auto simp: restore_value_def rdb_types load_blob_def Let_def)
  next
    case (zset ms sc)
    let ?f = "\<lambda>zl p d. go_on (quickZset R s key (encode_meta_key key) (stored_meta (view (ldb s)) key)
      (next_zl_member (re_strtod E) zl) (p, re_errno E))"
    obtain zl p where z: "load_ziplist (re_mem E) d s ?f = ?f zl p []" "zl_reads zl p (flat_pairs ms)"
      using load_ziplist_blob [OF zset(3), of "re_mem E" "[]" s ?f] by auto
    have "\<forall>(k, x) \<in> set (map (\<lambda>(k, t). (k, sc t)) ms). \<not> isnan x"
    proof (clarify, simp, clarify)
      fix k t assume "(k, t) \<in> set ms" "isnan (sc t)"
      moreover then have "score_text (re_strtod E) t (sc t)" using zset(7) by auto
      ultimately show False using score_text_read [of "re_strtod E" t "sc t" E_NONE] by auto
    qed
    moreover have "distinct (map fst (map (\<lambda>(k, t). (k, sc t)) ms))" using zset(4) by (simp add: comp_def split_def)
    moreover have "map_of (map (\<lambda>(k, t). (k, sc t)) ms) \<noteq> Map.empty" using zset(5) by (simp add: map_of_eq_empty_iff)
    ultimately show ?thesis
      using quickZset_rep [OF w zl_member_supplies [OF zset(7) z(2)], of "re_errno E"] z(1) E zset(1,2,5,6)
      by (auto simp: restore_value_def rdb_types Let_def)
  next
    case (quicklist xss b)
    then obtain ys yss where xss: "xss = ys # yss" by (cases xss) auto
    with quicklist(4) obtain q r where b: "b = q @ r" "ziplist_blob ys q" "seq ziplist_blob yss r" by auto
    let ?f = "\<lambda>zl p d. go_on (quickList R s key (encode_meta_key key) (stored_meta (view (ldb s)) key)
      (next_quicklist (re_mem E)) (word_of_nat (length yss), zl, p, d))"
    obtain zl p where z: "load_ziplist (re_mem E) b s ?f = ?f zl p r" "zl_reads zl p ys"
      using load_ziplist_blob [OF b(2), of "re_mem E" r s ?f] b(1) by auto
    have l: "length yss < 2 ^ 63" "length (ys @ concat yss) < 2 ^ 63 - 1" "ys @ concat yss \<noteq> []" using quicklist(5-7) xss by auto
    have "restore_value E s key 0 (encode_meta_key key) (stored_meta (view (ldb s)) key) t d = ?f zl p r"
      unfolding quicklist(1,3) using load_count_len [OF quicklist(6), of b s] len_step [OF l(1)] z(1) E xss
      by (simp add: restore_value_def rdb_types Let_def del: of_nat_Suc)
    with quickList_rep [OF w(1,2) quicklist_supplies [OF b(3) l(1) z(2)] l(3,2), of "re_mem E"] quicklist(2,5) xss show ?thesis by auto
  qed
qed

end

end
