(* ===== verification/KeySpace.thy ===== *)
theory KeySpace
  imports Compact ZLex TScan
begin

text \<open>
  Properties of the commands on whole keys: DUMP and RESTORE are inverse, the commands respect the type
  of a key, and RESTORE has two ways to lose data.
\<close>

section \<open>An example\<close>

text \<open>RESTORE on the store of lists, with a checksum that is always 0 and a clock that stands still.\<close>

definition example_env :: "((bytes \<times> bytes) list, (bytes \<times> bytes) list \<times> (bytes \<times> bytes) list) restore_env" where
  "example_env = \<lparr>re_db = mem_rocksdb, re_strtod = bits_strtod, re_scan = (\<lambda>_. None), re_crc = (\<lambda>_. 0),
     re_mem = (\<lambda>n. replicate n 0), re_errno = E_NONE, re_now1 = 1, re_now2 = 1\<rparr>"

lemma example_env_simps [simp]:
  "re_db example_env = mem_rocksdb" "re_crc example_env = (\<lambda>_. 0)" "re_strtod example_env = bits_strtod"
  by (simp_all add: example_env_def)

lemma vacant_empty: "vacant (map_of (ldb empty_store)) key"
  by (auto simp: vacant_def absent_def no_items_def score_map_def empty_store_def intro!: exI [of _ 0])

lemma list_example_value: "value_rep (map_of (ldb list_example)) [107] (VList [[97], [98]])"
  using list_example_rep by simp

section \<open>The round trip\<close>

text \<open>
  C20: The payload that DUMP makes of a stored value of any type, given to RESTORE for any key that is
  free, or that exists and is replaced, on any server, is accepted, and the key then holds that value
  and no other key of the second server has changed. The checksum function is the same on both sides.
\<close>

theorem dump_restore_correct:
  assumes "rocksdb_rev R view fwd bwd" "rocksdb_healthy (re_db E) view'"
    and "value_rep (view (ldb s)) key v" "long_enough key" "card (dom (view (ldb s))) < 2 ^ 64"
    and "\<forall>t \<in> texts v. length t < 2147483648"
    and "vacant (view' (ldb t)) key' \<or> replace \<and> replaceable (view' (ldb t)) key'"
  shows "\<exists>data t'. dump strtod R (re_crc E) htab now s key False r c = (1, data, r) \<and>
    restore E t key' 0 data replace = Some (Inr (1, text_OK), t') \<and>
    value_rep (view' (ldb t')) key' v \<and> touches_only key' (view' (ldb t)) (view' (ldb t'))"
proof -
  obtain data where d: "dump strtod R (re_crc E) htab now s key False r c = (1, data, r)" "payload (re_crc E) v data"
    using rocksdb_rev.dump_rep [OF assms(1,3-6)] by blast
  from rocksdb_healthy.restore_rep [OF assms(2) refl assms(7) d(2)] d(1) show ?thesis by blast
qed

theorem dump_restore_correct_witness:
  "\<exists>data t'. dump bits_strtod mem_rocksdb (\<lambda>_. 0) (\<lambda>_. 0) 1 list_example [107] False 0 True = (1, data, 0) \<and>
    restore example_env empty_store [110] 0 data False = Some (Inr (1, text_OK), t') \<and>
    list_rep (map_of (ldb t')) [110] [[97], [98]]"
proof -
  have small: "card (dom (map_of (ldb list_example))) < 2 ^ 64"
    using card_length [of "map fst (ldb list_example)"]
    by (simp add: list_example_def dom_map_of_conv_image_fst del: distinct_card)
  show ?thesis
    using dump_restore_correct [of mem_rocksdb map_of snd mem_bwd example_env map_of list_example "[107]" "VList [[97], [98]]"
        empty_store "[110]" False bits_strtod "\<lambda>_. 0" 1 0 True, OF memr.rocksdb_rev_axioms _ list_example_value _ small]
      mem.rocksdb_healthy_axioms vacant_empty by auto
qed

section \<open>Types\<close>

lemma value_meta:
  assumes "value_rep m key v"
  obtains ver r where "m (encode_meta_key key) = Some (value_tag v # raw16 (htobe16 ver) @ KEY_ENABLED_MASK # r)"
proof (cases v)
  case (VString x)
  with assms meta_val_layout(3) that show ?thesis by (fastforce simp: kv_rep_def)
next
  case (VList xs)
  with assms meta_val_layout(2) that show ?thesis by (fastforce simp: list_rep_def list_at_def)
next
  case (VHash h)
  with assms meta_val_layout(1) that show ?thesis by (fastforce simp: coll_rep_def coll_at_def)
next
  case (VSet S)
  with assms meta_val_layout(1) that show ?thesis by (fastforce simp: set_rep_def coll_rep_def coll_at_def)
next
  case (VZset z)
  with assms meta_val_layout(1) that show ?thesis by (fastforce simp: zset_rep_def zset_at_def coll_at_def)
qed


text \<open>The decoders of meta values look at the type before the length.\<close>

lemma decode_wrong_type:
  "t \<notin> {HSIZE, SSIZE, ZSIZE} \<Longrightarrow> fst (DecodeMetaVal (t # raw16 (htobe16 ver) @ KEY_ENABLED_MASK # r) mv) = WRONG_TYPE_ERR"
  "t \<noteq> LSIZE \<Longrightarrow> fst (ListDecodeMetaVal (t # raw16 (htobe16 ver) @ KEY_ENABLED_MASK # r) lv) = WRONG_TYPE_ERR"
  "t \<noteq> KV \<Longrightarrow> fst (KvDecodeMetaVal (t # raw16 (htobe16 ver) @ KEY_ENABLED_MASK # r) b kv) = WRONG_TYPE_ERR"
  by (simp_all add: DecodeMetaVal_def ListDecodeMetaVal_def KvDecodeMetaVal_def decoder_simps str_pos_del Let_def)

lemma value_coll_meta:
  assumes "value_rep m key v" "value_tag v \<in> {HSIZE, SSIZE, ZSIZE}"
  obtains n ver where "m (encode_meta_key key) = Some (encode_meta_val_internal (value_tag v) n ver KEY_ENABLED_MASK)"
  using assms by (cases v) (auto simp: coll_rep_def coll_at_def set_rep_def zset_rep_def zset_at_def)

context rocksdb_healthy
begin

lemma wrong_type:
  assumes "value_rep (view (ldb s)) key v"
  shows "value_tag v \<noteq> HSIZE \<Longrightarrow> fst (GetHashMetaVal R s (encode_meta_key key)) = WRONG_TYPE_ERR"
    and "value_tag v \<noteq> SSIZE \<Longrightarrow> fst (GetSetMetaVal R s (encode_meta_key key)) = WRONG_TYPE_ERR"
    and "value_tag v \<noteq> ZSIZE \<Longrightarrow> fst (GetZSetMetaVal R s (encode_meta_key key)) = WRONG_TYPE_ERR"
    and "value_tag v \<noteq> LSIZE \<Longrightarrow> fst (GetListMetaVal R s (encode_meta_key key)) = WRONG_TYPE_ERR"
    and "value_tag v \<noteq> KV \<Longrightarrow> fst (GetKvMetaVal R s (encode_meta_key key)) = WRONG_TYPE_ERR"
proof -
  obtain ver r where live: "view (ldb s) (encode_meta_key key) = Some (value_tag v # raw16 (htobe16 ver) @ KEY_ENABLED_MASK # r)"
    using value_meta [OF assms] by blast
  note dec = decode_wrong_type [of "value_tag v" ver r]
  note [simp] = GetHashMetaVal_def GetSetMetaVal_def GetZSetMetaVal_def Get_view Let_def WRONG_TYPE_ERR_def
  show "value_tag v \<noteq> LSIZE \<Longrightarrow> fst (GetListMetaVal R s (encode_meta_key key)) = WRONG_TYPE_ERR"
    "value_tag v \<noteq> KV \<Longrightarrow> fst (GetKvMetaVal R s (encode_meta_key key)) = WRONG_TYPE_ERR"
    using dec(2) [of ListMetaVal_init] dec(3) [of False KvMetaVal_init]
    by (auto simp: GetListMetaVal_def GetKvMetaVal_def live split: prod.splits)
  show "value_tag v \<noteq> HSIZE \<Longrightarrow> fst (GetHashMetaVal R s (encode_meta_key key)) = WRONG_TYPE_ERR"
    "value_tag v \<noteq> SSIZE \<Longrightarrow> fst (GetSetMetaVal R s (encode_meta_key key)) = WRONG_TYPE_ERR"
    "value_tag v \<noteq> ZSIZE \<Longrightarrow> fst (GetZSetMetaVal R s (encode_meta_key key)) = WRONG_TYPE_ERR"
  proof (atomize (full), cases "value_tag v \<in> {HSIZE, SSIZE, ZSIZE}")
    case True
    then obtain n ver' where "view (ldb s) (encode_meta_key key) = Some (encode_meta_val_internal (value_tag v) n ver' KEY_ENABLED_MASK)"
      using value_coll_meta [OF assms] by blast
    with True show "(value_tag v \<noteq> HSIZE \<longrightarrow> fst (GetHashMetaVal R s (encode_meta_key key)) = WRONG_TYPE_ERR) \<and>
      (value_tag v \<noteq> SSIZE \<longrightarrow> fst (GetSetMetaVal R s (encode_meta_key key)) = WRONG_TYPE_ERR) \<and>
      (value_tag v \<noteq> ZSIZE \<longrightarrow> fst (GetZSetMetaVal R s (encode_meta_key key)) = WRONG_TYPE_ERR)"
      by (auto simp: DecodeMetaVal_encode)
  next
    case False
    then show "(value_tag v \<noteq> HSIZE \<longrightarrow> fst (GetHashMetaVal R s (encode_meta_key key)) = WRONG_TYPE_ERR) \<and>
      (value_tag v \<noteq> SSIZE \<longrightarrow> fst (GetSetMetaVal R s (encode_meta_key key)) = WRONG_TYPE_ERR) \<and>
      (value_tag v \<noteq> ZSIZE \<longrightarrow> fst (GetZSetMetaVal R s (encode_meta_key key)) = WRONG_TYPE_ERR)"
      using dec(1) [OF False, of MetaVal_init] by (auto simp: live split: prod.splits)
  qed
qed

lemma type_of_value:
  assumes "value_rep (view (ldb s)) key v"
  shows "type_cmd R s key = (1, type_name v)" "exists_cmd R s key = 1"
proof -
  obtain ver r where live: "view (ldb s) (encode_meta_key key) = Some (value_tag v # raw16 (htobe16 ver) @ KEY_ENABLED_MASK # r)"
    using value_meta [OF assms] by blast
  show "type_cmd R s key = (1, type_name v)"
    by (cases v) (simp_all add: type_cmd_def Get_view live POS_DEL_def POS_TYPE_def str_pos_del)
  show "exists_cmd R s key = 1" by (simp add: exists_cmd_def Get_view live POS_DEL_def str_pos_del)
qed

end

text \<open>
  The operations on strings, hashes, sets, sorted sets and lists that the handlers call, and what it means that they refuse a key: they
  return \<^verbatim>\<open>WRONG_TYPE_ERR\<close>, leave the output parameters and the state as they were and return no element. Where arguments are tested before
  the type, only those are quantified that pass the tests.
\<close>

definition refuses_string :: "('db, 'it) rocksdb \<Rightarrow> 'db ssdb \<Rightarrow> bytes \<Rightarrow> bool" where
  "refuses_string R s key \<longleftrightarrow>
     (\<forall>x. kv_get R s key x = (WRONG_TYPE_ERR, x)) \<and> (\<forall>x y. getset R s key y x = (WRONG_TYPE_ERR, y, s)) \<and>
     (\<forall>now1 now2 x flags ms a. kv_set R now1 now2 s key x flags ms a =
        (if with_expiry flags \<and> ms \<le> 0 then INVALID_EX_TIME else WRONG_TYPE_ERR, a, s)) \<and>
     (\<forall>kvs n x rest. drop n kvs = key # x # rest \<longrightarrow> multi_set R s kvs n = (WRONG_TYPE_ERR, s)) \<and>
     (\<forall>by a. incr R s key by a = (WRONG_TYPE_ERR, a, s)) \<and> (\<forall>x n. kv_append R s key x n = (WRONG_TYPE_ERR, n, s)) \<and>
     (\<forall>off on a. setbit R s key off on a = (WRONG_TYPE_ERR, a, s)) \<and> (\<forall>off a. getbit R s key off a = (WRONG_TYPE_ERR, a)) \<and>
     (\<forall>off x n. setrange R s key off x n = (WRONG_TYPE_ERR, n, s)) \<and> (\<forall>i j x. getrange R s key i j x = (WRONG_TYPE_ERR, x))"

definition refuses_hash :: "('db, 'it) rocksdb \<Rightarrow> 'db ssdb \<Rightarrow> bytes \<Rightarrow> bool" where
  "refuses_hash R s key \<longleftrightarrow>
     (\<forall>f x a. hset R s key f x a = (WRONG_TYPE_ERR, a, s)) \<and> (\<forall>f x a. hsetnx R s key f x a = (WRONG_TYPE_ERR, a, s)) \<and>
     (\<forall>kvs. hmset R s key kvs = (WRONG_TYPE_ERR, s)) \<and> (\<forall>fs a. hdel R s key fs a = (WRONG_TYPE_ERR, a, s)) \<and>
     (\<forall>f by a. hincr R s key f by a = (WRONG_TYPE_ERR, a, s)) \<and> (\<forall>f y. hget R s key f y = (WRONG_TYPE_ERR, y)) \<and>
     (\<forall>fs m. hmget R s key fs m = (WRONG_TYPE_ERR, m)) \<and> (\<forall>n. hsize R s key n = (WRONG_TYPE_ERR, n)) \<and>
     (\<forall>b1 b2. hgetall R s key b1 b2 = (WRONG_TYPE_ERR, [])) \<and>
     (\<forall>now c pat lim t. hscan R now s key c pat lim t = Inr (WRONG_TYPE_ERR, [], t))"

definition refuses_set :: "('db, 'it) rocksdb \<Rightarrow> 'db ssdb \<Rightarrow> bytes \<Rightarrow> bool" where
  "refuses_set R s key \<longleftrightarrow>
     (\<forall>fs a. sadd R s key fs a = (WRONG_TYPE_ERR, a, s)) \<and> (\<forall>fs. srem R s key fs = (WRONG_TYPE_ERR, 0, s)) \<and>
     scard R s key = (WRONG_TYPE_ERR, 0) \<and> (\<forall>f b. sismember R s key f b = (WRONG_TYPE_ERR, b)) \<and>
     smembers R s key = (WRONG_TYPE_ERR, []) \<and> (\<forall>rnd n. spop R rnd s key n = (WRONG_TYPE_ERR, [], s)) \<and>
     (\<forall>rnd n. srandmember R rnd s key n = (WRONG_TYPE_ERR, [])) \<and>
     (\<forall>now c pat lim t. sscan R now s key c pat lim t = Inr (WRONG_TYPE_ERR, [], t))"

definition refuses_zset :: "strtod \<Rightarrow> dformat \<Rightarrow> ('db, 'it) rocksdb \<Rightarrow> 'db ssdb \<Rightarrow> bytes \<Rightarrow> bool" where
  "refuses_zset strtod fmt R s key \<longleftrightarrow>
     (\<forall>er kvs flags a. (flags AND ZADD_NX = 0 \<or> flags AND ZADD_XX = 0) \<and> (flags AND ZADD_INCR = 0 \<or> length kvs \<le> 1) \<longrightarrow>
        multi_zset strtod er R s key kvs flags a = (WRONG_TYPE_ERR, a, s)) \<and>
     (\<forall>fs a. multi_zdel R s key fs a = (WRONG_TYPE_ERR, a, s)) \<and>
     (\<forall>f w a w'. zincr R s key f w a w' = (WRONG_TYPE_ERR, a, w', s)) \<and> (\<forall>f. zget R s key f = (WRONG_TYPE_ERR, 0)) \<and>
     (\<forall>n. zsize R s key n = (WRONG_TYPE_ERR, n)) \<and> (\<forall>f r. zrank strtod R s key f r = (WRONG_TYPE_ERR, r)) \<and>
     (\<forall>f r. zrrank strtod R s key f r = (WRONG_TYPE_ERR, r)) \<and>
     (\<forall>i j b. string2ll i \<noteq> None \<and> string2ll j \<noteq> None \<longrightarrow>
        zrange strtod fmt R s key i j b = (WRONG_TYPE_ERR, []) \<and> zrrange strtod fmt R s key i j b = (WRONG_TYPE_ERR, [])) \<and>
     (\<forall>lo hi spec b o' l n. zslParseRange strtod lo hi = Inr spec \<longrightarrow>
        zrangebyscore strtod fmt R s key lo hi b o' l = (WRONG_TYPE_ERR, []) \<and>
        zrevrangebyscore strtod fmt R s key hi lo b o' l = (WRONG_TYPE_ERR, []) \<and>
        zremrangebyscore strtod fmt R s key lo hi b n = (WRONG_TYPE_ERR, n, s)) \<and>
     (\<forall>lo hi spec ks o' l n. zslParseLexRange lo hi = Some (Inr spec) \<and> \<not> lex_range_empty lo hi spec \<longrightarrow>
        zrangebylex R s key lo hi ks o' l = Some (WRONG_TYPE_ERR, ks) \<and> zlexcount R s key lo hi n = Some (WRONG_TYPE_ERR, n) \<and>
        zrevrangebylex R s key hi lo ks o' l = Some (WRONG_TYPE_ERR, ks) \<and>
        zremrangebylex R s key lo hi n = Some (WRONG_TYPE_ERR, n, s)) \<and>
     (\<forall>now c pat lim t. zscan fmt R now s key c pat lim t = Inr (WRONG_TYPE_ERR, [], t))"

definition refuses_list :: "('db, 'it) rocksdb \<Rightarrow> 'db ssdb \<Rightarrow> bytes \<Rightarrow> bool" where
  "refuses_list R s key \<longleftrightarrow>
     (\<forall>xs n. LPush R s key xs n = (WRONG_TYPE_ERR, 0, s)) \<and> (\<forall>xs n. RPush R s key xs n = (WRONG_TYPE_ERR, 0, s)) \<and>
     (\<forall>xs n. LPushX R s key xs n = (WRONG_TYPE_ERR, 0, s)) \<and> (\<forall>xs n. RPushX R s key xs n = (WRONG_TYPE_ERR, 0, s)) \<and>
     LPop R s key = (WRONG_TYPE_ERR, ([], False), s) \<and> RPop R s key = (WRONG_TYPE_ERR, ([], False), s) \<and>
     (\<forall>i x. LSet R s key i x = (WRONG_TYPE_ERR, s)) \<and> (\<forall>i j. ltrim R s key i j = (WRONG_TYPE_ERR, s)) \<and>
     (\<forall>i j. lrange R s key i j = (WRONG_TYPE_ERR, [])) \<and> LLen R s key = (WRONG_TYPE_ERR, 0) \<and>
     (\<forall>i. LIndex R s key i = (WRONG_TYPE_ERR, [], False))"

text \<open>A command whose reading of the meta value fails with this error returns it at once.\<close>

lemma kv_wrong_type:
  assumes "fst (GetKvMetaVal R s (encode_meta_key key)) = WRONG_TYPE_ERR"
  shows "refuses_string R s key"
proof -
  obtain kv where kv: "GetKvMetaVal R s (encode_meta_key key) = (WRONG_TYPE_ERR, kv)" using assms by (metis prod.collapse)
  have neg: "WRONG_TYPE_ERR < 0" by (simp add: WRONG_TYPE_ERR_def)
  have get: "kv_get R s key x = (WRONG_TYPE_ERR, x)" for x using neg by (simp add: kv_get_def kv)
  have generic: "SetGeneric R now1 now2 s key b x flags ms a =
      (if with_expiry flags \<and> ms \<le> 0 then INVALID_EX_TIME else WRONG_TYPE_ERR, a, b, s)" for now1 now2 b x flags ms a
    using neg by (auto simp: SetGeneric_def with_expiry_def kv Let_def)
  then have "kv_set R now1 now2 s key x flags ms a =
      (if with_expiry flags \<and> ms \<le> 0 then INVALID_EX_TIME else WRONG_TYPE_ERR, a, s)" for now1 now2 x flags ms a
    using neg by (simp add: kv_set_def setNoLock_def INVALID_EX_TIME_def)
  moreover have "multi_set R s kvs n = (WRONG_TYPE_ERR, s)" if "drop n kvs = key # x # rest" for kvs n x rest
    using that neg generic [of 0 0 "[]" x OBJ_SET_NO_FLAGS 0 0]
    by (simp add: multi_set_def Let_def with_expiry_def OBJ_SET_NO_FLAGS_def split: if_split)
  ultimately show ?thesis
    using get neg unfolding refuses_string_def
    by (simp add: getset_def incr_def kv_append_def setbit_def getbit_def setrange_def getrange_def updateKvCommon_def kv Let_def)
qed

lemma hash_wrong_type:
  assumes "fst (GetHashMetaVal R s (encode_meta_key key)) = WRONG_TYPE_ERR"
  shows "refuses_hash R s key"
  using assms by (cases "GetHashMetaVal R s (encode_meta_key key)"; simp add: refuses_hash_def hset_def hsetnx_def hsetCommon_def
      hmset_def hmsetNoLock_def hdel_def hincr_def hincrCommon_def hget_def hmget_def hsize_def hgetall_def hscan_def
      WRONG_TYPE_ERR_def Let_def)

lemma set_wrong_type:
  assumes "fst (GetSetMetaVal R s (encode_meta_key key)) = WRONG_TYPE_ERR"
  shows "refuses_set R s key"
  using assms by (cases "GetSetMetaVal R s (encode_meta_key key)"; simp add: refuses_set_def sadd_def saddNoLock_def srem_def
      scard_def sismember_def smembers_def spop_def srandmember_def sscan_def WRONG_TYPE_ERR_def Let_def)

lemma zset_wrong_type:
  assumes "fst (GetZSetMetaVal R s (encode_meta_key key)) = WRONG_TYPE_ERR"
  shows "refuses_zset strtod fmt R s key"
proof -
  obtain zv where zv: "GetZSetMetaVal R s (encode_meta_key key) = (WRONG_TYPE_ERR, zv)" using assms by (metis prod.collapse)
  have neg: "WRONG_TYPE_ERR < 0" by (simp add: WRONG_TYPE_ERR_def)
  have add: "multi_zset strtod er R s key kvs flags a = (WRONG_TYPE_ERR, a, s)"
    if "flags AND ZADD_NX = 0 \<or> flags AND ZADD_XX = 0" "flags AND ZADD_INCR = 0 \<or> length kvs \<le> 1" for er kvs flags a
    using that neg by (auto simp: multi_zset_def zsetNoLock_def zv Let_def)
  have single: "multi_zdel R s key fs a = (WRONG_TYPE_ERR, a, s)" "zincr R s key f w a w' = (WRONG_TYPE_ERR, a, w', s)"
    "zget R s key f = (WRONG_TYPE_ERR, 0)" "zsize R s key n = (WRONG_TYPE_ERR, n)"
    "zrank strtod R s key f a = (WRONG_TYPE_ERR, a)" "zrrank strtod R s key f a = (WRONG_TYPE_ERR, a)"
    "zscan fmt R now s key c pat lim t = Inr (WRONG_TYPE_ERR, [], t)" for fs a f w w' n now c pat lim t
    using neg by (simp_all add: multi_zdel_def zdelNoLock_def zincr_def zget_def zsize_def zrank_def zrrank_def zrank_dir_def zscan_def zv)
  have ranges: "zrange strtod fmt R s key i j b = (WRONG_TYPE_ERR, []) \<and> zrrange strtod fmt R s key i j b = (WRONG_TYPE_ERR, [])"
    if "string2ll i \<noteq> None" "string2ll j \<noteq> None" for i j b
    using that neg by (auto simp: zrange_def zrrange_def zrangeGeneric_def zv)
  have scores: "zrangebyscore strtod fmt R s key lo hi b o' l = (WRONG_TYPE_ERR, []) \<and>
      zrevrangebyscore strtod fmt R s key hi lo b o' l = (WRONG_TYPE_ERR, []) \<and>
      zremrangebyscore strtod fmt R s key lo hi b n = (WRONG_TYPE_ERR, n, s)"
    if "zslParseRange strtod lo hi = Inr spec" for lo hi spec b o' l n
    using that neg by (simp add: zrangebyscore_def zrevrangebyscore_def genericZrangebyscore_def zremrangebyscore_def zv Let_def)
  have lex: "zrangebylex R s key lo hi ks o' l = Some (WRONG_TYPE_ERR, ks) \<and> zlexcount R s key lo hi n = Some (WRONG_TYPE_ERR, n) \<and>
      zrevrangebylex R s key hi lo ks o' l = Some (WRONG_TYPE_ERR, ks) \<and>
      zremrangebylex R s key lo hi n = Some (WRONG_TYPE_ERR, n, s)"
    if "zslParseLexRange lo hi = Some (Inr spec)" "\<not> lex_range_empty lo hi spec" for lo hi spec ks o' l n
    using that neg by (simp add: zrangebylex_def zlexcount_def zrevrangebylex_def zremrangebylex_def genericZrangebylex_def zv Let_def)
  show ?thesis unfolding refuses_zset_def
    by (intro conjI allI impI; (elim conjE)?; rule single add ranges [THEN conjunct1] ranges [THEN conjunct2] scores [THEN conjunct1]
        scores [THEN conjunct2, THEN conjunct1] scores [THEN conjunct2, THEN conjunct2] lex [THEN conjunct1]
        lex [THEN conjunct2, THEN conjunct1] lex [THEN conjunct2, THEN conjunct2, THEN conjunct1]
        lex [THEN conjunct2, THEN conjunct2, THEN conjunct2]; assumption)
qed

lemma list_wrong_type:
  assumes "fst (GetListMetaVal R s (encode_meta_key key)) = WRONG_TYPE_ERR"
  shows "refuses_list R s key"
  using assms by (cases "GetListMetaVal R s (encode_meta_key key)"; simp add: refuses_list_def LPush_def RPush_def list_push_end_def
      LPushX_def RPushX_def list_pushx_end_def LPop_def RPop_def list_pop_end_def LSet_def ltrim_def lrange_def LLen_def LIndex_def
      WRONG_TYPE_ERR_def Let_def)

text \<open>
  C22: TYPE answers the type of the stored value, EXISTS answers 1, and every operation on one of the five types that the handlers call is
  refused with \<^verbatim>\<open>WRONG_TYPE_ERR\<close> when the key holds another type, and leaves the database, the deadlines and the
  cursors as they are: the operations listed in \<open>refuses_string\<close> (SET with any options included, which in Redis replaces a
  key of any type), \<open>refuses_hash\<close>, \<open>refuses_set\<close>, \<open>refuses_zset\<close> and \<open>refuses_list\<close>. For MSET the key is the first one of
  the request. Arguments that are refused before the type is looked at are not covered, nor are MGET, whose handler answers nil where \<open>kv_get\<close>
  returns the error, and the commands on keys of all types (DEL, DUMP, RESTORE and those on deadlines).
\<close>

theorem type_safety:
  assumes "rocksdb_healthy R view" "value_rep (view (ldb s)) key v"
  shows "type_cmd R s key = (1, type_name v) \<and> exists_cmd R s key = 1 \<and>
    (type_name v \<noteq> ''string'' \<longrightarrow> refuses_string R s key) \<and> (type_name v \<noteq> ''hash'' \<longrightarrow> refuses_hash R s key) \<and>
    (type_name v \<noteq> ''set'' \<longrightarrow> refuses_set R s key) \<and> (type_name v \<noteq> ''zset'' \<longrightarrow> refuses_zset strtod fmt R s key) \<and>
    (type_name v \<noteq> ''list'' \<longrightarrow> refuses_list R s key)"
proof -
  have tag: "type_name v = ''string'' \<longleftrightarrow> value_tag v = KV" "type_name v = ''hash'' \<longleftrightarrow> value_tag v = HSIZE"
    "type_name v = ''set'' \<longleftrightarrow> value_tag v = SSIZE" "type_name v = ''zset'' \<longleftrightarrow> value_tag v = ZSIZE"
    "type_name v = ''list'' \<longleftrightarrow> value_tag v = LSIZE"
    by (cases v; simp)+
  note w = rocksdb_healthy.wrong_type [OF assms]
  show ?thesis
    using rocksdb_healthy.type_of_value [OF assms] kv_wrong_type [OF w(5)] hash_wrong_type [OF w(1)] set_wrong_type [OF w(2)]
      zset_wrong_type [OF w(3)] list_wrong_type [OF w(4)] unfolding tag by (intro conjI impI; simp)
qed

theorem type_safety_witness:
  "type_cmd mem_rocksdb list_example [107] = (1, ''list'') \<and>
   hset mem_rocksdb list_example [107] [102] [49] 0 = (WRONG_TYPE_ERR, 0, list_example) \<and>
   sadd mem_rocksdb list_example [107] [[102]] 0 = (WRONG_TYPE_ERR, 0, list_example) \<and>
   kv_set mem_rocksdb 1 1 list_example [107] [49] 0 0 0 = (WRONG_TYPE_ERR, 0, list_example)"
  using type_safety [OF mem.rocksdb_healthy_axioms list_example_value, of bits_strtod bits_format]
  by (simp add: refuses_string_def refuses_hash_def refuses_set_def with_expiry_def)

section \<open>RESTORE\<close>

text \<open>
  C21: RESTORE reads the compact encodings of Redis: a hash or a sorted set in one ziplist, a list in
  a quicklist and a set of integers in an intset, with the correct version and checksum, is
  accepted for a key that is free or replaced, and the key then holds exactly the elements.
\<close>

theorem restore_compact_correct:
  assumes "rocksdb_healthy (re_db E) view" "compact (re_strtod E) t v d"
    and "vacant (view (ldb s)) key \<or> replace \<and> replaceable (view (ldb s)) key"
  shows "\<exists>s'. restore E s key 0 (framed (re_crc E) t d) replace = Some (Inr (1, text_OK), s') \<and>
    value_rep (view (ldb s')) key v \<and> touches_only key (view (ldb s)) (view (ldb s'))"
proof (rule rocksdb_healthy.restore_accepts [OF assms(1) refl assms(3)])
  show "rdbLoadObjectType (word_of_int t # d) = (t, d)"
    using assms(2) by cases (simp_all add: rdbLoadObjectType_def rdbLoadType_def rioRead_def rdbIsObjectType_def rdb_types)
qed (use rocksdb_healthy.restore_value_compact [OF assms(1) refl _ assms(2)] in blast)

theorem restore_compact_correct_witness:
  "\<exists>s'. restore example_env empty_store [107] 0 (framed (\<lambda>_. 0) RDB_TYPE_SET_INTSET ([10] @ [2, 0, 0, 0, 1, 0, 0, 0, 3, 0])) False =
      Some (Inr (1, text_OK), s') \<and> set_rep (map_of (ldb s')) [107] {[51]}"
proof -
  have i: "intset_bytes 2 [3] = [2, 0, 0, 0, 1, 0, 0, 0, 3, 0]" by code_simp
  have "len_bytes (word_of_nat 10) = [10]" by (simp add: len_bytes_def)
  with stores_plain [of "intset_bytes 2 [3]"] have "stores ([10] @ intset_bytes 2 [3]) (intset_bytes 2 [3])" by (simp add: i)
  from compact.intset [OF this, of bits_strtod]
  have "compact bits_strtod RDB_TYPE_SET_INTSET (VSet (str_int64 ` set [3])) ([10] @ intset_bytes 2 [3])"
    by (simp add: fits_def)
  moreover have "str_int64 ` set [3] = {[51]}" by (simp add: str_int64_def dec_digits.simps)
  ultimately have "compact (re_strtod example_env) RDB_TYPE_SET_INTSET (VSet {[51]}) ([10] @ intset_bytes 2 [3])" by simp
  from restore_compact_correct [of example_env map_of, OF _ this, of empty_store "[107]" False] i
    mem.rocksdb_healthy_axioms vacant_empty show ?thesis by auto
qed

text \<open>
  C25: RESTORE with \<^verbatim>\<open>REPLACE\<close> deletes the key before it looks at the payload: when the payload is then
  refused, for its version or its checksum, the command reports an error and the old value is lost.
\<close>

theorem restore_replace_loses:
  assumes "rocksdb_healthy (re_db E) view" "value_rep (view (ldb s)) key v" "0 \<le> ttl"
    and "\<not> fst (verifyDumpPayload (re_crc E) data)"
  shows "\<exists>s'. restore E s key ttl data True = Some (Inr (INVALID_DUMP_STR, text_none), s') \<and>
    type_cmd (re_db E) s key = (1, type_name v) \<and> type_cmd (re_db E) s' key = (0, ''none'')"
proof -
  obtain ver r where live: "view (ldb s) (encode_meta_key key) = Some (value_tag v # raw16 (htobe16 ver) @ KEY_ENABLED_MASK # r)"
    using value_meta [OF assms(2)] by blast
  obtain s1 where s1: "restore E s key ttl data True =
      restore_payload E s1 key ttl data (encode_meta_key key) (stored_meta (view (ldb s1)) key)"
    "absent (view (ldb s1)) key (next_version ver)"
    using rocksdb_healthy.restore_replace [OF assms(1) refl assms(3) live] by metis
  have "restore E s key ttl data True = Some (Inr (INVALID_DUMP_STR, text_none), s1)"
    using assms(4) unfolding s1(1) restore_payload_def by (cases "verifyDumpPayload (re_crc E) data") simp
  moreover have "type_cmd (re_db E) s1 key = (0, ''none'')"
    using s1(2) by (auto simp: absent_def type_cmd_def rocksdb_healthy.Get_view [OF assms(1)] POS_DEL_def str_pos_del)
  ultimately show ?thesis using rocksdb_healthy.type_of_value(1) [OF assms(1,2)] by blast
qed

theorem restore_replace_loses_witness:
  "\<exists>s'. restore example_env list_example [107] 0 [1, 2, 3] True = Some (Inr (INVALID_DUMP_STR, text_none), s') \<and>
    type_cmd mem_rocksdb list_example [107] = (1, ''list'') \<and> type_cmd mem_rocksdb s' [107] = (0, ''none'')"
  using restore_replace_loses [of example_env map_of list_example "[107]" "VList [[97], [98]]" 0 "[1, 2, 3]"]
    mem.rocksdb_healthy_axioms list_example_value by (simp add: verifyDumpPayload_def)

lemma load_ziplist_list_type: "rdbLoadObjectType (word_of_int RDB_TYPE_LIST_ZIPLIST # d) = (RDB_TYPE_LIST_ZIPLIST, d)"
  by (simp add: rdbLoadObjectType_def rdbLoadType_def rioRead_def rdbIsObjectType_def rdb_types)

lemma next_ziplist_first_supplies: "zl_reads zl p xs \<Longrightarrow> supplies retry (next_ziplist_first zl) p []"
  by (cases xs) (auto simp: next_ziplist_first_def intro: supplies.finish)

context rocksdb_healthy
begin

lemma quickList_nothing:
  assumes "absent (view (ldb s)) key w" "supplies True lambda c []"
  shows "\<exists>s'. quickList R s key (encode_meta_key key) (stored_meta (view (ldb s)) key) lambda c = Some (Inr 1, s') \<and>
    view (ldb s') (encode_meta_key key) = Some (encode_list_meta_val 0 0 UINT64_MAX w KEY_ENABLED_MASK) \<and>
    touches_only key (view (ldb s)) (view (ldb s'))"
proof -
  obtain lv where lv: "quick_list_meta (stored_meta (view (ldb s)) key) = Inr lv" "list_meta 0 0 w lv"
    using quick_list_meta_absent [OF assms(1)] .
  let ?b = "[Put (encode_meta_key key) (encode_list_meta_val 0 0 UINT64_MAX w KEY_ENABLED_MASK)]"
  have "quickList R s key (encode_meta_key key) (stored_meta (view (ldb s)) key) lambda c =
      Some (Inr 1, s\<lparr>ldb := snd (db_Write R (ldb s) ?b)\<rparr>)"
    unfolding quickList_def lv(1) sum.case quick_loop_supplies [OF assms(2)]
    using list_metaD [OF lv(2)] by (simp add: CommitBatch_view Let_def)
  then show ?thesis using touches_only_batch [of ?b key "view (ldb s)"] by (simp add: Write_view)
qed

end

text \<open>
  C26: A list in the older form of a single ziplist (\<^verbatim>\<open>RDB_TYPE_LIST_ZIPLIST\<close>) is lost: the callback for it
  returns 0 for every element, which the writer takes for the end. RESTORE answers OK for a well-formed payload
  and stores a list of length 0.
\<close>

theorem restore_ziplist_list_lost:
  assumes "rocksdb_healthy (re_db E) view" "ziplist_blob xs d"
    and "vacant (view (ldb s)) key \<or> replace \<and> replaceable (view (ldb s)) key"
  shows "\<exists>s'. restore E s key 0 (framed (re_crc E) RDB_TYPE_LIST_ZIPLIST d) replace = Some (Inr (1, text_OK), s') \<and>
    type_cmd (re_db E) s' key = (1, ''list'') \<and> LLen (re_db E) s' key = (1, 0)"
proof -
  let ?P = "\<lambda>m. \<exists>w. m (encode_meta_key key) = Some (encode_list_meta_val 0 0 UINT64_MAX w KEY_ENABLED_MASK)"
  have "\<exists>s'. restore E s key 0 (framed (re_crc E) RDB_TYPE_LIST_ZIPLIST d) replace = Some (Inr (1, text_OK), s') \<and>
      ?P (view (ldb s')) \<and> touches_only key (view (ldb s)) (view (ldb s'))"
  proof (rule rocksdb_healthy.restore_accepts [OF assms(1) refl assms(3) load_ziplist_list_type], intro allI impI)
    fix s :: "'a ssdb"
    let ?mv = "stored_meta (view (ldb s)) key"
    let ?f = "\<lambda>zl p d. go_on (quickList (re_db E) s key (encode_meta_key key) ?mv (next_ziplist_first zl) p)"
    assume "vacant (view (ldb s)) key"
    then obtain w where w: "absent (view (ldb s)) key w" by (auto simp: vacant_def)
    obtain zl p where z: "load_ziplist (re_mem E) (d @ []) s ?f = ?f zl p []" "zl_reads zl p xs"
      using load_ziplist_blob [OF assms(2), of "re_mem E" "[]" s ?f] by blast
    from rocksdb_healthy.quickList_nothing [OF assms(1) w next_ziplist_first_supplies [OF z(2)]] z(1)
    show "\<exists>s'. restore_value E s key 0 (encode_meta_key key) ?mv RDB_TYPE_LIST_ZIPLIST d = Some (Inr (Inr 1), s') \<and>
        ?P (view (ldb s')) \<and> touches_only key (view (ldb s)) (view (ldb s'))"
      by (auto simp: restore_value_def rdb_types Let_def)
  qed
  then obtain s' w where s': "restore E s key 0 (framed (re_crc E) RDB_TYPE_LIST_ZIPLIST d) replace = Some (Inr (1, text_OK), s')"
    "view (ldb s') (encode_meta_key key) = Some (encode_list_meta_val 0 0 UINT64_MAX w KEY_ENABLED_MASK)" by blast
  note get = rocksdb_healthy.Get_view [OF assms(1)]
  have "LLen (re_db E) s' key = (1, 0)"
    using s'(2) by (simp add: LLen_def GetListMetaVal_def get ListDecodeMetaVal_encode Let_def)
  moreover have "type_cmd (re_db E) s' key = (1, ''list'')"
    using s'(2) by (simp add: type_cmd_def get encode_list_meta_val_def POS_DEL_def POS_TYPE_def str_pos_del)
  ultimately show ?thesis using s'(1) by blast
qed

theorem restore_ziplist_list_lost_witness:
  "\<exists>d s'. ziplist_blob [[97], [98]] d \<and>
     restore example_env empty_store [107] 0 (framed (\<lambda>_. 0) RDB_TYPE_LIST_ZIPLIST d) False = Some (Inr (1, text_OK), s') \<and>
     LLen mem_rocksdb s' [107] = (1, 0)"
proof -
  let ?zl = "replicate 10 0 @ ziplist_entries 0 [[97], [98]]"
  have "length ?zl = 17" by code_simp
  then have b: "ziplist_blob [[97], [98]] (len_bytes (word_of_nat (length ?zl)) @ ?zl)"
    using stores_plain [of ?zl] unfolding ziplist_blob_def by (intro conjI exI [of _ "replicate 10 0"]) auto
  from restore_ziplist_list_lost [of example_env map_of, OF _ b, of empty_store "[107]" False] b
    mem.rocksdb_healthy_axioms vacant_empty show ?thesis by auto
qed

end
