(* ===== verification/Locks.thy ===== *)
theory Locks
  imports Prelude
begin

text \<open>
  The locks on keys (\<^verbatim>\<open>src/src/util/thread.h\<close>). \<^verbatim>\<open>RecordMutex\<close> keeps one reference-counted
  mutex per key in use. A command on one key holds a \<^verbatim>\<open>RecordLock\<close>, FLUSHDB takes the whole \<^verbatim>\<open>RecordMutex\<close>, and
  \<^verbatim>\<open>multi_del\<close>, the body of DEL and of the expiration, has a \<^verbatim>\<open>RecordLocks\<close> object. The threads are a step relation: each
  step is one critical section of \<^verbatim>\<open>mutex_\<close>, one acquisition of a mutex, or one operation on the
  gate \<^verbatim>\<open>g_mutex_\<close>; any thread may take the next step. An access to a mutex that has been freed
  ends in the state \<open>None\<close>.

  The constructor of \<^verbatim>\<open>RecordLocks\<close> locks nothing, nothing in the program calls its method \<^verbatim>\<open>Lock\<close>, and its destructor unlocks
  every key. So \<^verbatim>\<open>multi_del\<close> takes no lock and at its end releases locks of others; these steps are a second relation.
  The invariant shows that without them a key has at most one holder, that no freed mutex is touched and none is
  leaked, and that the threads never block each other for ever; with them the locks do not exclude each other and
  freed mutexes are used. The global lock does
  not keep out a thread that is between the gate and its mutex.
\<close>

section \<open>Definitions\<close>

type_synonym tid = nat
type_synonym addr = nat

text \<open>\<^verbatim>\<open>RefMutex\<close>: the mutex, by its holder, and the number of references.\<close>

record refmutex =
  mu_owner :: "tid option"
  refs :: int

record rec_mutex =
  records :: "bytes \<rightharpoonup> addr"
  mutexes :: "addr \<rightharpoonup> refmutex"
  charge :: int
  g_mutex :: "tid option"

text \<open>The sizes of \<^verbatim>\<open>std::string\<close>, of a pointer and of a pair of both with the compiler of the build.\<close>

definition kEstimatePairSize :: int where
  "kEstimatePairSize = 32 + 8 + 40"

definition RecordMutex_init :: rec_mutex where
  "RecordMutex_init = \<lparr>records = Map.empty, mutexes = Map.empty, charge = 0, g_mutex = None\<rparr>"

definition GetUsage :: "rec_mutex \<Rightarrow> int" where
  "GetUsage m = charge m"

text \<open>
  The critical section of \<^verbatim>\<open>lockKeyInternal\<close>: a reference to the mutex of the key, which \<^verbatim>\<open>new\<close> puts
  at the free address \<open>a\<close> if there is none.
\<close>

definition lockKeyInternal :: "addr \<Rightarrow> bytes \<Rightarrow> rec_mutex \<Rightarrow> (addr \<times> rec_mutex) option" where
  "lockKeyInternal a key m =
     (case records m key of
        Some r \<Rightarrow>
          (case mutexes m r of
             None \<Rightarrow> None
           | Some x \<Rightarrow> Some (r, m\<lparr>mutexes := (mutexes m)(r \<mapsto> x\<lparr>refs := refs x + 1\<rparr>)\<rparr>))
      | None \<Rightarrow>
          Some (a, m\<lparr>records := (records m)(key \<mapsto> a), mutexes := (mutexes m)(a \<mapsto> \<lparr>mu_owner = None, refs = 1\<rparr>),
                     charge := charge m + (kEstimatePairSize + int (length key))\<rparr>))"

text \<open>Waiting for the mutex: the outer option is the access to the memory, the inner one whether it is free.\<close>

definition RefMutex_Lock :: "tid \<Rightarrow> addr \<Rightarrow> rec_mutex \<Rightarrow> rec_mutex option option" where
  "RefMutex_Lock t r m =
     (case mutexes m r of
        None \<Rightarrow> None
      | Some x \<Rightarrow>
          Some (if mu_owner x = None then Some (m\<lparr>mutexes := (mutexes m)(r \<mapsto> x\<lparr>mu_owner := Some t\<rparr>)\<rparr>) else None))"

definition RecordMutex_Unlock :: "bytes \<Rightarrow> rec_mutex \<Rightarrow> rec_mutex option" where
  "RecordMutex_Unlock key m =
     (case records m key of
        None \<Rightarrow> Some m
      | Some r \<Rightarrow>
          (case mutexes m r of
             None \<Rightarrow> None
           | Some x \<Rightarrow>
               let m = (if refs x = 1
                        then m\<lparr>charge := charge m - (kEstimatePairSize + int (length key)),
                               records := (records m)(key := None)\<rparr>
                        else m);
                   x = x\<lparr>mu_owner := None\<rparr>;
                   x = x\<lparr>refs := refs x - 1\<rparr>
               in Some (m\<lparr>mutexes := (mutexes m)(r := if refs x = 0 then None else Some x)\<rparr>)))"

text \<open>
  Where a thread is: in \<^verbatim>\<open>Lock\<close> of one key (at the gate, past the gate, with a reference to the mutex),
  holding it; in \<^verbatim>\<open>lock\<close> of the whole \<^verbatim>\<open>RecordMutex\<close>, or holding that; or in the destructor of \<^verbatim>\<open>RecordLocks\<close>, with the
  keys that it still has to unlock.
\<close>

datatype pc =
  Idle
| AtGate bytes | PastGate bytes | Waiting bytes addr | Held bytes
| GlobalWaiting | GlobalHeld
| Unlocking "bytes list"

text \<open>\<^verbatim>\<open>RecordLock\<close> and \<^verbatim>\<open>Locking<RecordMutex>\<close>.\<close>

inductive lock_step :: "tid \<Rightarrow> rec_mutex \<times> (tid \<Rightarrow> pc) \<Rightarrow> (rec_mutex \<times> (tid \<Rightarrow> pc)) option \<Rightarrow> bool" where
  gate: "pcs t = Idle \<Longrightarrow> g_mutex m = None \<Longrightarrow>
    lock_step t (m, pcs) (Some (m\<lparr>g_mutex := Some t\<rparr>, pcs(t := AtGate k)))"
| pass: "pcs t = AtGate k \<Longrightarrow> lock_step t (m, pcs) (Some (m\<lparr>g_mutex := None\<rparr>, pcs(t := PastGate k)))"
| enter: "pcs t = PastGate k \<Longrightarrow> mutexes m a = None \<Longrightarrow>
    lock_step t (m, pcs) (map_option (\<lambda>(r, m). (m, pcs(t := Waiting k r))) (lockKeyInternal a k m))"
| take: "pcs t = Waiting k r \<Longrightarrow> RefMutex_Lock t r m = Some (Some m') \<Longrightarrow>
    lock_step t (m, pcs) (Some (m', pcs(t := Held k)))"
| take_freed: "pcs t = Waiting k r \<Longrightarrow> RefMutex_Lock t r m = None \<Longrightarrow> lock_step t (m, pcs) None"
| release: "pcs t = Held k \<Longrightarrow>
    lock_step t (m, pcs) (map_option (\<lambda>m. (m, pcs(t := Idle))) (RecordMutex_Unlock k m))"
| global_gate: "pcs t = Idle \<Longrightarrow> g_mutex m = None \<Longrightarrow>
    lock_step t (m, pcs) (Some (m\<lparr>g_mutex := Some t\<rparr>, pcs(t := GlobalWaiting)))"
| global_take: "pcs t = GlobalWaiting \<Longrightarrow> \<not> GetUsage m > 0 \<Longrightarrow> lock_step t (m, pcs) (Some (m, pcs(t := GlobalHeld)))"
| global_release: "pcs t = GlobalHeld \<Longrightarrow>
    lock_step t (m, pcs) (Some (m\<lparr>g_mutex := None\<rparr>, pcs(t := Idle)))"

text \<open>The end of \<^verbatim>\<open>multi_del\<close>: \<^verbatim>\<open>~RecordLocks\<close> unlocks the keys of a \<^verbatim>\<open>std::set\<close>, none of which it has locked.
  Unlocking a mutex that another thread has locked makes it free.\<close>

inductive del_step :: "tid \<Rightarrow> rec_mutex \<times> (tid \<Rightarrow> pc) \<Rightarrow> (rec_mutex \<times> (tid \<Rightarrow> pc)) option \<Rightarrow> bool" where
  del_ends: "pcs t = Idle \<Longrightarrow> sorted_wrt (<) ks \<Longrightarrow> del_step t (m, pcs) (Some (m, pcs(t := Unlocking ks)))"
| del_unlock: "pcs t = Unlocking (k # ks) \<Longrightarrow>
    del_step t (m, pcs) (map_option (\<lambda>m. (m, pcs(t := Unlocking ks))) (RecordMutex_Unlock k m))"
| del_done: "pcs t = Unlocking [] \<Longrightarrow> del_step t (m, pcs) (Some (m, pcs(t := Idle)))"

text \<open>The states of runs in which no \<^verbatim>\<open>multi_del\<close> ends, and of all runs.\<close>

inductive lock_reachable :: "(rec_mutex \<times> (tid \<Rightarrow> pc)) option \<Rightarrow> bool" where
  start: "lock_reachable (Some (RecordMutex_init, \<lambda>_. Idle))"
| step: "lock_reachable (Some s) \<Longrightarrow> lock_step t s s' \<Longrightarrow> lock_reachable s'"

inductive server_reachable :: "(rec_mutex \<times> (tid \<Rightarrow> pc)) option \<Rightarrow> bool" where
  server_start: "server_reachable (Some (RecordMutex_init, \<lambda>_. Idle))"
| server_lock: "server_reachable (Some s) \<Longrightarrow> lock_step t s s' \<Longrightarrow> server_reachable s'"
| server_del: "server_reachable (Some s) \<Longrightarrow> del_step t s s' \<Longrightarrow> server_reachable s'"

section \<open>The invariant\<close>

text \<open>The keys a thread holds, the mutex it waits for, and whether it has the gate.\<close>

fun holds :: "pc \<Rightarrow> bytes set" where
  "holds (Held k) = {k}"
| "holds _ = {}"

fun waits :: "pc \<Rightarrow> (bytes \<times> addr) option" where
  "waits (Waiting k r) = Some (k, r)"
| "waits _ = None"

fun has_gate :: "pc \<Rightarrow> bool" where
  "has_gate (AtGate k) = True"
| "has_gate GlobalWaiting = True"
| "has_gate GlobalHeld = True"
| "has_gate _ = False"

definition uses :: "pc \<Rightarrow> bytes set" where
  "uses p = holds p \<union> fst ` set_option (waits p)"

definition users :: "(tid \<Rightarrow> pc) \<Rightarrow> bytes \<Rightarrow> tid set" where
  "users pcs k = {t. k \<in> uses (pcs t)}"

text \<open>The mutex of a key exists while the key is in use, counts its users and has the right holder.\<close>

definition entry_ok :: "rec_mutex \<Rightarrow> (tid \<Rightarrow> pc) \<Rightarrow> bytes \<Rightarrow> bool" where
  "entry_ok m pcs k \<longleftrightarrow>
     (case records m k of
        None \<Rightarrow> users pcs k = {}
      | Some r \<Rightarrow> users pcs k \<noteq> {} \<and>
          (\<exists>x. mutexes m r = Some x \<and> refs x = int (card (users pcs k)) \<and>
             (\<forall>t. mu_owner x = Some t \<longleftrightarrow> k \<in> holds (pcs t))) \<and>
          (\<forall>t a. waits (pcs t) = Some (k, a) \<longrightarrow> a = r))"

definition mutex_ok :: "rec_mutex \<Rightarrow> bool" where
  "mutex_ok m \<longleftrightarrow> finite (dom (records m)) \<and> inj_on (records m) (dom (records m)) \<and>
     dom (mutexes m) = ran (records m) \<and>
     charge m = (\<Sum>k \<in> dom (records m). kEstimatePairSize + int (length k))"

definition lock_inv :: "rec_mutex \<times> (tid \<Rightarrow> pc) \<Rightarrow> bool" where
  "lock_inv = (\<lambda>(m, pcs). mutex_ok m \<and> (\<forall>k. entry_ok m pcs k) \<and> finite {t. pcs t \<noteq> Idle} \<and>
     (\<forall>t ks. pcs t \<noteq> Unlocking ks) \<and> (\<forall>t. g_mutex m = Some t \<longleftrightarrow> has_gate (pcs t)))"


lemma lock_invI:
  assumes "mutex_ok m'" "\<And>k. entry_ok m' (pcs(t := p)) k" "finite {t. pcs t \<noteq> Idle}"
    "\<forall>t ks. pcs t \<noteq> Unlocking ks" "\<forall>ks. p \<noteq> Unlocking ks" "\<forall>t'. g_mutex m' = Some t' \<longleftrightarrow> has_gate ((pcs(t := p)) t')"
  shows "lock_inv (m', pcs(t := p))"
proof -
  have "{t'. (pcs(t := p)) t' \<noteq> Idle} \<subseteq> insert t {t. pcs t \<noteq> Idle}" by auto
  then have "finite {t'. (pcs(t := p)) t' \<noteq> Idle}" using assms(3) finite_subset by blast
  with assms show ?thesis by (auto simp: lock_inv_def)
qed

lemma lock_invD:
  assumes "lock_inv (m, pcs)"
  shows "mutex_ok m" "entry_ok m pcs k" "finite {t. pcs t \<noteq> Idle}" "\<forall>t ks. pcs t \<noteq> Unlocking ks"
    "g_mutex m = Some t \<longleftrightarrow> has_gate (pcs t)"
  using assms by (simp_all add: lock_inv_def)

lemma users_upd: "users (pcs(t := p)) k = (if k \<in> uses p then insert t (users pcs k) else users pcs k - {t})"
  by (auto simp: users_def)

lemma in_uses: "k \<in> uses p \<longleftrightarrow> k \<in> holds p \<or> (\<exists>a. waits p = Some (k, a))"
  by (force simp: uses_def)

lemma finite_users: "finite {t. pcs t \<noteq> Idle} \<Longrightarrow> finite (users pcs k)"
  by (rule finite_subset [of _ "{t. pcs t \<noteq> Idle}"]) (auto simp: users_def in_uses)

text \<open>A step that does not change what the thread has of a key, nor the mutex of the key.\<close>

lemma entry_ok_frame:
  assumes "records m' k = records m k" "\<forall>r. records m k = Some r \<longrightarrow> mutexes m' r = mutexes m r"
    and "k \<in> holds p \<longleftrightarrow> k \<in> holds (pcs t)" "\<forall>a. waits p = Some (k, a) \<longleftrightarrow> waits (pcs t) = Some (k, a)"
    and "entry_ok m pcs k"
  shows "entry_ok m' (pcs(t := p)) k"
proof -
  have "k \<in> uses p \<longleftrightarrow> k \<in> uses (pcs t)" using assms(3,4) by (simp add: in_uses)
  then have "users (pcs(t := p)) k = users pcs k" by (auto simp: users_def)
  with assms show ?thesis by (auto simp: entry_ok_def split: option.splits)
qed

lemma entry_okI:
  assumes "records m k = Some r" "mutexes m r = Some x" "users pcs k \<noteq> {}" "refs x = int (card (users pcs k))"
    "\<And>t. mu_owner x = Some t \<longleftrightarrow> k \<in> holds (pcs t)" "\<And>t a. waits (pcs t) = Some (k, a) \<Longrightarrow> a = r"
  shows "entry_ok m pcs k"
  using assms by (auto simp: entry_ok_def)

lemma entry_okD:
  assumes "entry_ok m pcs k" "t \<in> users pcs k"
  shows "\<exists>r x. records m k = Some r \<and> mutexes m r = Some x \<and> refs x = int (card (users pcs k)) \<and>
    (\<forall>t. mu_owner x = Some t \<longleftrightarrow> k \<in> holds (pcs t)) \<and> (\<forall>t a. waits (pcs t) = Some (k, a) \<longrightarrow> a = r)"
proof (cases "records m k")
  case None
  with assms show ?thesis by (auto simp: entry_ok_def)
next
  case (Some r)
  from assms(1) show ?thesis unfolding entry_ok_def Some option.case by blast
qed

lemma mutex_ok_inj: "mutex_ok m \<Longrightarrow> records m k = Some r \<Longrightarrow> records m k' = Some r \<Longrightarrow> k = k'"
  by (metis domI inj_onD mutex_ok_def)

lemma ran_remove:
  assumes "mutex_ok m" "records m k = Some r"
  shows "ran ((records m)(k := None)) = ran (records m) - {r}"
proof (intro set_eqI iffI)
  fix v assume "v \<in> ran ((records m)(k := None))"
  then obtain k' where "k' \<noteq> k" "records m k' = Some v" by (auto simp: ran_def split: if_splits)
  then show "v \<in> ran (records m) - {r}" using mutex_ok_inj [OF assms, of k'] by (auto intro: ranI)
next
  fix v assume "v \<in> ran (records m) - {r}"
  then obtain k' where "records m k' = Some v" "v \<noteq> r" by (auto simp: ran_def)
  then have "((records m)(k := None)) k' = Some v" using assms(2) by auto
  then show "v \<in> ran ((records m)(k := None))" by (rule ranI)
qed

text \<open>A reference to the mutex of a key.\<close>

lemma enter_ok:
  assumes inv: "lock_inv (m, pcs)" and a: "mutexes m a = None" and k: "k \<notin> uses (pcs t)" "waits (pcs t) = None"
  shows "\<exists>r m'. lockKeyInternal a k m = Some (r, m') \<and> mutex_ok m' \<and> g_mutex m' = g_mutex m \<and>
    (\<forall>p k'. waits p = Some (k, r) \<longrightarrow> holds p = holds (pcs t) \<longrightarrow> entry_ok m' (pcs(t := p)) k')"
proof (cases "records m k")
  case (Some r)
  note D = lock_invD [OF inv]
  from D(2) [of k] obtain x where x: "mutexes m r = Some x" "refs x = int (card (users pcs k))"
    "\<forall>t. mu_owner x = Some t \<longleftrightarrow> k \<in> holds (pcs t)" "\<forall>t a. waits (pcs t) = Some (k, a) \<longrightarrow> a = r"
    by (auto simp: entry_ok_def Some)
  let ?m = "m\<lparr>mutexes := (mutexes m)(r \<mapsto> x\<lparr>refs := refs x + 1\<rparr>)\<rparr>"
  have "mutex_ok ?m" using D(1) x(1) by (auto simp: mutex_ok_def)
  moreover have "entry_ok ?m (pcs(t := p)) k'" if p: "waits p = Some (k, r)" "holds p = holds (pcs t)" for p k'
  proof (cases "k' = k")
    case True
    have "card (insert t (users pcs k)) = Suc (card (users pcs k))"
      using k(1) finite_users [OF D(3)] by (intro card_insert_disjoint) (auto simp: users_def)
    moreover have "k \<in> uses p" using p(1) by (simp add: in_uses)
    ultimately show ?thesis unfolding True using x p by (auto simp: entry_ok_def Some users_upd)
  next
    case False
    then show ?thesis
      using p k(2) mutex_ok_inj [OF D(1) Some, of k'] by (intro entry_ok_frame [OF _ _ _ _ D(2)]) auto
  qed
  ultimately show ?thesis by (auto simp: lockKeyInternal_def Some x(1))
next
  case None
  note D = lock_invD [OF inv]
  let ?m = "m\<lparr>records := (records m)(k \<mapsto> a), mutexes := (mutexes m)(a \<mapsto> \<lparr>mu_owner = None, refs = 1\<rparr>),
     charge := charge m + (kEstimatePairSize + int (length k))\<rparr>"
  have a': "a \<notin> ran (records m)" using D(1) a by (auto simp: mutex_ok_def)
  have u: "users pcs k = {}" using D(2) [of k] None by (simp add: entry_ok_def)
  have "mutex_ok ?m"
  proof -
    have "inj_on (records ?m) (dom (records ?m))"
      using D(1) a' by (auto simp: mutex_ok_def inj_on_def ran_def split: if_splits)
    moreover have "dom (mutexes ?m) = ran (records ?m)" using D(1) None by (simp add: mutex_ok_def)
    moreover have "k \<notin> dom (records m)" using None by auto
    ultimately show ?thesis using D(1) by (simp add: mutex_ok_def)
  qed
  moreover have "entry_ok ?m (pcs(t := p)) k'" if p: "waits p = Some (k, a)" "holds p = holds (pcs t)" for p k'
  proof (cases "k' = k")
    case True
    have "k \<in> uses p" using p(1) by (simp add: in_uses)
    moreover have "k \<notin> holds (pcs t')" "waits (pcs t') \<noteq> Some (k, a')" for t' a'
      using u by (auto simp: users_def in_uses)
    ultimately show ?thesis unfolding True using p u by (auto simp: entry_ok_def users_upd)
  next
    case False
    then show ?thesis using p k(2) a' by (intro entry_ok_frame [OF _ _ _ _ D(2)]) (auto simp: ran_def)
  qed
  ultimately show ?thesis by (auto simp: lockKeyInternal_def None)
qed

text \<open>Waiting for the mutex: the memory is there, and the mutex is free or has a holder.\<close>

lemma wait_ok:
  assumes inv: "lock_inv (m, pcs)" and w: "waits (pcs t) = Some (k, r)"
  shows "RefMutex_Lock t r m \<noteq> None \<and> (RefMutex_Lock t r m = Some None \<longrightarrow> (\<exists>t'. k \<in> holds (pcs t')))"
proof -
  have "t \<in> users pcs k" using w by (simp add: users_def in_uses)
  from entry_okD [OF lock_invD(2) [OF inv] this] w obtain x where "mutexes m r = Some x"
    "\<forall>t. mu_owner x = Some t \<longleftrightarrow> k \<in> holds (pcs t)" by blast
  then show ?thesis by (cases "mu_owner x") (auto simp: RefMutex_Lock_def)
qed

lemma take_ok:
  assumes inv: "lock_inv (m, pcs)" and w: "waits (pcs t) = Some (k, r)" and m': "RefMutex_Lock t r m = Some (Some m')"
  shows "mutex_ok m' \<and> g_mutex m' = g_mutex m \<and>
    (\<forall>p k'. waits p = None \<longrightarrow> holds p = insert k (holds (pcs t)) \<longrightarrow> entry_ok m' (pcs(t := p)) k')"
proof -
  note D = lock_invD [OF inv]
  have t: "t \<in> users pcs k" using w by (simp add: users_def in_uses)
  from entry_okD [OF D(2) t] w obtain x where x: "records m k = Some r" "mutexes m r = Some x" "refs x = int (card (users pcs k))"
    "\<forall>t. mu_owner x = Some t \<longleftrightarrow> k \<in> holds (pcs t)" "\<forall>t a. waits (pcs t) = Some (k, a) \<longrightarrow> a = r"
    by blast
  from m' x(2) have free: "mu_owner x = None" and m': "m' = m\<lparr>mutexes := (mutexes m)(r \<mapsto> x\<lparr>mu_owner := Some t\<rparr>)\<rparr>"
    by (auto simp: RefMutex_Lock_def split: if_splits)
  have "mutex_ok m'" using D(1) x(2) unfolding m' by (auto simp: mutex_ok_def)
  moreover have "entry_ok m' (pcs(t := p)) k'" if p: "waits p = None" "holds p = insert k (holds (pcs t))" for p k'
  proof (cases "k' = k")
    case True
    have "users (pcs(t := p)) k = users pcs k" using t p by (auto simp: users_upd in_uses)
    moreover have "Some t = Some t' \<longleftrightarrow> k \<in> holds ((pcs(t := p)) t')" for t' using x(4) free p(2) by auto
    moreover have "waits ((pcs(t := p)) t') = Some (k, a) \<Longrightarrow> a = r" for t' a using x(5) p(1) by (auto split: if_splits)
    ultimately show ?thesis unfolding True m' using x(1,3) t by (intro entry_okI [where r = r and x = "x\<lparr>mu_owner := Some t\<rparr>"]) auto
  next
    case False
    then show ?thesis
      using p w mutex_ok_inj [OF D(1) x(1), of k'] unfolding m' by (intro entry_ok_frame [OF _ _ _ _ D(2)]) auto
  qed
  ultimately show ?thesis by (simp add: m')
qed

lemma unlock_ok:
  assumes inv: "lock_inv (m, pcs)" and k: "k \<in> holds (pcs t)" "waits (pcs t) = None"
  shows "\<exists>m'. RecordMutex_Unlock k m = Some m' \<and> mutex_ok m' \<and> g_mutex m' = g_mutex m \<and>
    (\<forall>p k'. waits p = None \<longrightarrow> holds p = holds (pcs t) - {k} \<longrightarrow> entry_ok m' (pcs(t := p)) k')"
proof -
  note D = lock_invD [OF inv]
  have t: "t \<in> users pcs k" using k by (simp add: users_def in_uses)
  from entry_okD [OF D(2) t] obtain r x where x: "records m k = Some r" "mutexes m r = Some x" "refs x = int (card (users pcs k))"
    "\<forall>t. mu_owner x = Some t \<longleftrightarrow> k \<in> holds (pcs t)" "\<forall>t a. waits (pcs t) = Some (k, a) \<longrightarrow> a = r"
    by blast
  have own: "k \<in> holds (pcs t') \<longleftrightarrow> t' = t" for t' using x(4) k(1) by (metis option.inject)
  have users: "users (pcs(t := p)) k = users pcs k - {t}" if "waits p = None" "holds p = holds (pcs t) - {k}" for p
    using that by (auto simp: users_upd in_uses)
  have card: "card (users pcs k) = Suc (card (users pcs k - {t}))"
    using t finite_users [OF D(3)] by (metis card_Suc_Diff1)
  show ?thesis
  proof (cases "refs x = 1")
    case True
    let ?m = "m\<lparr>charge := charge m - (kEstimatePairSize + int (length k)), records := (records m)(k := None),
      mutexes := (mutexes m)(r := None)\<rparr>"
    have only: "users pcs k - {t} = {}" using True x(3) card finite_users [OF D(3), of k] by simp
    have "mutex_ok ?m"
    proof -
      have "ran ((records m)(k := None)) = ran (records m) - {r}" by (rule ran_remove [OF D(1) x(1)])
      moreover have "charge m = (kEstimatePairSize + int (length k)) +
          (\<Sum>k \<in> dom (records m) - {k}. kEstimatePairSize + int (length k))"
        using D(1) x(1) sum.remove [of "dom (records m)" k] by (auto simp: mutex_ok_def)
      ultimately show ?thesis using D(1) by (auto simp: mutex_ok_def inj_on_def)
    qed
    moreover have "entry_ok ?m (pcs(t := p)) k'" if p: "waits p = None" "holds p = holds (pcs t) - {k}" for p k'
    proof (cases "k' = k")
      case True
      then show ?thesis using users [OF p] only by (simp add: entry_ok_def)
    next
      case False
      then show ?thesis
        using p k(2) mutex_ok_inj [OF D(1) x(1), of k'] by (intro entry_ok_frame [OF _ _ _ _ D(2)]) auto
    qed
    ultimately show ?thesis using True x by (auto simp: RecordMutex_Unlock_def Let_def)
  next
    case False
    let ?m = "m\<lparr>mutexes := (mutexes m)(r \<mapsto> x\<lparr>mu_owner := None, refs := refs x - 1\<rparr>)\<rparr>"
    have "mutex_ok ?m" using D(1) x(2) by (auto simp: mutex_ok_def)
    moreover have "entry_ok ?m (pcs(t := p)) k'" if p: "waits p = None" "holds p = holds (pcs t) - {k}" for p k'
    proof (cases "k' = k")
      case True
      have "users pcs k - {t} \<noteq> {}" using False x(3) card by (auto simp: card_eq_0_iff)
      moreover have "k \<notin> holds ((pcs(t := p)) t')" for t' using own p(2) by auto
      moreover have "waits ((pcs(t := p)) t') = Some (k, a) \<Longrightarrow> a = r" for t' a using x(5) p(1) by (auto split: if_splits)
      ultimately show ?thesis unfolding True using users [OF p] x(1,3) card
        by (intro entry_okI [where r = r and x = "x\<lparr>mu_owner := None, refs := refs x - 1\<rparr>"]) simp_all
    next
      case False
      then show ?thesis
        using p k(2) mutex_ok_inj [OF D(1) x(1), of k'] by (intro entry_ok_frame [OF _ _ _ _ D(2)]) auto
    qed
    ultimately show ?thesis using False x by (auto simp: RecordMutex_Unlock_def Let_def)
  qed
qed

section \<open>Every step keeps the invariant\<close>

lemma lock_inv_init: "lock_inv (RecordMutex_init, \<lambda>_. Idle)"
  by (simp add: lock_inv_def mutex_ok_def entry_ok_def RecordMutex_init_def users_def uses_def)

text \<open>Steps that only move the gate.\<close>

lemma gate_ok:
  assumes inv: "lock_inv (m, pcs)" and p: "\<forall>ks. p \<noteq> Unlocking ks" "holds p = holds (pcs t)" "waits p = None" "waits (pcs t) = None"
    and g: "g = g_mutex m \<and> has_gate p = has_gate (pcs t) \<or> g = Some t \<and> g_mutex m = None \<and> has_gate p \<or>
      g = None \<and> has_gate (pcs t) \<and> \<not> has_gate p"
  shows "lock_inv (m\<lparr>g_mutex := g\<rparr>, pcs(t := p))"
proof -
  note D = lock_invD [OF inv]
  have "\<forall>t'. g_mutex (m\<lparr>g_mutex := g\<rparr>) = Some t' \<longleftrightarrow> has_gate ((pcs(t := p)) t')"
    using g D(5) by (auto split: if_splits) (metis option.inject option.distinct(1))+
  moreover have "mutex_ok (m\<lparr>g_mutex := g\<rparr>)" using D(1) by (simp add: mutex_ok_def)
  moreover have "entry_ok (m\<lparr>g_mutex := g\<rparr>) (pcs(t := p)) k" for k
    using p by (intro entry_ok_frame [OF _ _ _ _ D(2)]) auto
  ultimately show ?thesis using D(3,4) p(1) by (intro lock_invI) auto
qed

lemma enter_inv:
  assumes inv: "lock_inv (m, pcs)" and a: "mutexes m a = None" "k \<notin> uses (pcs t)" "waits (pcs t) = None"
    and p: "\<forall>r. waits (p r) = Some (k, r) \<and> holds (p r) = holds (pcs t) \<and> has_gate (p r) = has_gate (pcs t) \<and> (\<forall>ks. p r \<noteq> Unlocking ks)"
  shows "\<exists>s. map_option (\<lambda>(r, m). (m, pcs(t := p r))) (lockKeyInternal a k m) = Some s \<and> lock_inv s"
proof -
  note D = lock_invD [OF inv]
  obtain r m' where r: "lockKeyInternal a k m = Some (r, m')" "mutex_ok m'" "g_mutex m' = g_mutex m"
    "\<forall>p k'. waits p = Some (k, r) \<longrightarrow> holds p = holds (pcs t) \<longrightarrow> entry_ok m' (pcs(t := p)) k'"
    using enter_ok [OF inv a] by blast
  have "lock_inv (m', pcs(t := p r))"
    using r(2,3,4) p D(3,4,5) by (intro lock_invI) auto
  then show ?thesis by (simp add: r(1))
qed

lemma take_inv:
  assumes inv: "lock_inv (m, pcs)" and w: "waits (pcs t) = Some (k, r)" "RefMutex_Lock t r m = Some (Some m')"
    and p: "waits p = None" "holds p = insert k (holds (pcs t))" "has_gate p = has_gate (pcs t)" "\<forall>ks. p \<noteq> Unlocking ks"
  shows "lock_inv (m', pcs(t := p))"
  using take_ok [OF inv w] p lock_invD(3-5) [OF inv] by (intro lock_invI) auto

lemma unlock_inv:
  assumes inv: "lock_inv (m, pcs)" and k: "k \<in> holds (pcs t)" "waits (pcs t) = None"
    and p: "waits p = None" "holds p = holds (pcs t) - {k}" "has_gate p = has_gate (pcs t)" "\<forall>ks. p \<noteq> Unlocking ks"
  shows "\<exists>s. map_option (\<lambda>m. (m, pcs(t := p))) (RecordMutex_Unlock k m) = Some s \<and> lock_inv s"
proof -
  obtain m' where m': "RecordMutex_Unlock k m = Some m'" "mutex_ok m'" "g_mutex m' = g_mutex m"
    "\<forall>p k'. waits p = None \<longrightarrow> holds p = holds (pcs t) - {k} \<longrightarrow> entry_ok m' (pcs(t := p)) k'"
    using unlock_ok [OF inv k] by blast
  have "lock_inv (m', pcs(t := p))" using m'(2-4) p lock_invD(3-5) [OF inv] by (intro lock_invI) auto
  then show ?thesis by (simp add: m'(1))
qed

lemma lock_step_inv:
  assumes "lock_step t s s'" "lock_inv s"
  shows "\<exists>s1. s' = Some s1 \<and> lock_inv s1"
  using assms
proof (cases rule: lock_step.cases)
  case (gate pcs m k)
  then show ?thesis using gate_ok [of m pcs "AtGate k" t "Some t"] assms(2) by simp
next
  case (pass pcs k m)
  then show ?thesis using gate_ok [of m pcs "PastGate k" t None] assms(2) by simp
next
  case (enter pcs k m a)
  then show ?thesis using enter_inv [of m pcs a k t "Waiting k"] assms(2) by (simp add: uses_def)
next
  case (take pcs k r m m')
  then show ?thesis using take_inv [of m pcs t k r m' "Held k"] assms(2) by simp
next
  case (take_freed pcs k r m)
  then show ?thesis using wait_ok [of m pcs t k r] assms(2) by simp
next
  case (release pcs k m)
  then show ?thesis using unlock_inv [of m pcs k t Idle] assms(2) by simp
next
  case (global_gate pcs m)
  then show ?thesis using gate_ok [of m pcs GlobalWaiting t "Some t"] assms(2) by simp
next
  case (global_take pcs m)
  then show ?thesis using gate_ok [of m pcs GlobalHeld t "g_mutex m"] assms(2) by simp
next
  case (global_release pcs m)
  then show ?thesis using gate_ok [of m pcs Idle t None] assms(2) by simp
qed

lemma lock_reachable_inv: "lock_reachable s \<Longrightarrow> \<exists>s1. s = Some s1 \<and> lock_inv s1"
proof (induction rule: lock_reachable.induct)
  case start
  then show ?case using lock_inv_init by simp
next
  case (step s t s')
  then show ?case using lock_step_inv by blast
qed

section \<open>Runs\<close>

text \<open>
  Thread 0 passes the gate to lock the key \<open>k\<close>, thread 1 takes the whole table, which is still empty, and thread 0
  goes on and locks the key.
\<close>

definition race_state :: "rec_mutex \<times> (tid \<Rightarrow> pc)" where
  "race_state = (\<lparr>records = [[107] \<mapsto> 0], mutexes = [0 \<mapsto> \<lparr>mu_owner = Some 0, refs = 1\<rparr>], charge = kEstimatePairSize + 1,
     g_mutex = Some 1\<rparr>, (\<lambda>_. Idle)(0 := Held [107], 1 := GlobalHeld))"

lemma race_reachable: "lock_reachable (Some race_state)"
proof -
  let ?m = "RecordMutex_init" and ?p = "\<lambda>_. Idle :: pc"
  have 1: "lock_reachable (Some (?m\<lparr>g_mutex := Some 0\<rparr>, ?p(0 := AtGate [107])))"
    by (rule lock_reachable.step [OF lock_reachable.start lock_step.gate]) (simp_all add: RecordMutex_init_def)
  have 2: "lock_reachable (Some (?m, ?p(0 := PastGate [107])))"
    using lock_reachable.step [OF 1 lock_step.pass, of 0 "[107]"] by (simp add: RecordMutex_init_def)
  have 3: "lock_reachable (Some (?m\<lparr>g_mutex := Some 1\<rparr>, ?p(0 := PastGate [107], 1 := GlobalWaiting)))"
    using lock_reachable.step [OF 2 lock_step.global_gate, of 1] by (simp add: RecordMutex_init_def)
  have 4: "lock_reachable (Some (?m\<lparr>g_mutex := Some 1\<rparr>, ?p(0 := PastGate [107], 1 := GlobalHeld)))"
    using lock_reachable.step [OF 3 lock_step.global_take, of 1] by (simp add: RecordMutex_init_def GetUsage_def)
  have 5: "lock_reachable (Some (?m\<lparr>records := [[107] \<mapsto> 0], mutexes := [0 \<mapsto> \<lparr>mu_owner = None, refs = 1\<rparr>],
      charge := kEstimatePairSize + 1, g_mutex := Some 1\<rparr>, ?p(0 := Waiting [107] 0, 1 := GlobalHeld)))"
    using lock_reachable.step [OF 4 lock_step.enter, of 0 "[107]" 0]
    by (simp add: RecordMutex_init_def lockKeyInternal_def fun_upd_twist)
  show ?thesis
    using lock_reachable.step [OF 5 lock_step.take, of 0 "[107]" 0]
    by (simp add: RecordMutex_init_def RefMutex_Lock_def race_state_def fun_upd_twist)
qed

text \<open>
  With \<^verbatim>\<open>multi_del\<close>: thread 0 holds the key \<open>k\<close>; thread 2 ends a DEL of that key, which unlocks the key and frees its mutex; thread 1
  finds no entry, makes a new one and holds the key as well.
\<close>

lemma server_takes_key:
  assumes "server_reachable (Some (m, pcs))" "pcs t = Idle" "g_mutex m = None" "mutexes m a = None" "records m k = None"
  shows "server_reachable (Some (m\<lparr>g_mutex := None, records := (records m)(k \<mapsto> a),
    charge := charge m + (kEstimatePairSize + int (length k)), mutexes := (mutexes m)(a \<mapsto> \<lparr>mu_owner = Some t, refs = 1\<rparr>)\<rparr>, pcs(t := Held k)))"
proof -
  let ?m = "m\<lparr>g_mutex := None, records := (records m)(k \<mapsto> a), mutexes := (mutexes m)(a \<mapsto> \<lparr>mu_owner = None, refs = 1\<rparr>),
    charge := charge m + (kEstimatePairSize + int (length k))\<rparr>"
  have 1: "server_reachable (Some (m\<lparr>g_mutex := Some t\<rparr>, pcs(t := AtGate k)))"
    by (rule server_lock [OF assms(1) lock_step.gate]) (use assms(2,3) in simp_all)
  have 2: "server_reachable (Some (m\<lparr>g_mutex := None\<rparr>, pcs(t := PastGate k)))"
    using server_lock [OF 1 lock_step.pass, of t k] by simp
  have 3: "server_reachable (Some (?m, pcs(t := Waiting k a)))"
    using server_lock [OF 2 lock_step.enter, of t k a] assms(4,5) by (simp add: lockKeyInternal_def)
  show ?thesis using server_lock [OF 3 lock_step.take, of t k a] by (simp add: RefMutex_Lock_def)
qed

text \<open>Thread 1 asks for the key while thread 0 holds it.\<close>

definition key_held :: rec_mutex where
  "key_held = \<lparr>records = [[107] \<mapsto> 0], mutexes = [0 \<mapsto> \<lparr>mu_owner = Some 0, refs = 1\<rparr>], charge = kEstimatePairSize + 1, g_mutex = None\<rparr>"

lemma key_held_reachable: "server_reachable (Some (key_held, (\<lambda>_. Idle)(0 := Held [107])))"
  using server_takes_key [OF server_start, where t = 0 and a = 0 and k = "[107]"] by (simp add: RecordMutex_init_def key_held_def)

lemma two_holders: "\<exists>m. server_reachable (Some (m, (\<lambda>_. Idle)(0 := Held [107], 1 := Held [107])))"
proof -
  let ?p = "(\<lambda>_. Idle)(0 := Held [107])"
  have 1: "server_reachable (Some (key_held, ?p(2 := Unlocking [[107]])))"
    by (rule server_del [OF key_held_reachable del_ends]) simp_all
  have 2: "server_reachable (Some (RecordMutex_init, ?p(2 := Unlocking [])))"
    using server_del [OF 1 del_unlock, of 2 "[107]" "[]"]
    by (simp add: RecordMutex_Unlock_def key_held_def RecordMutex_init_def Let_def)
  have 3: "server_reachable (Some (RecordMutex_init, ?p))"
    using server_del [OF 2 del_done, of 2] by (simp add: fun_upd_idem)
  show ?thesis using server_takes_key [OF 3, where t = 1 and a = 0 and k = "[107]"] by (auto simp: RecordMutex_init_def)
qed

text \<open>
  Thread 1 waits for the mutex that thread 0 holds; the DEL of thread 2 takes one of the two references away; thread 0 releases
  the key, which frees the mutex, and thread 1 goes on with it.
\<close>

lemma freed_mutex_used: "server_reachable None"
proof -
  let ?p = "(\<lambda>_. Idle)(0 := Held [107])" and ?m = "key_held\<lparr>mutexes := [0 \<mapsto> \<lparr>mu_owner = Some 0, refs = 2\<rparr>]\<rparr>"
  have 1: "server_reachable (Some (key_held\<lparr>g_mutex := Some 1\<rparr>, ?p(1 := AtGate [107])))"
    by (rule server_lock [OF key_held_reachable lock_step.gate]) (simp_all add: key_held_def)
  have 2: "server_reachable (Some (key_held, ?p(1 := PastGate [107])))"
    using server_lock [OF 1 lock_step.pass, of 1 "[107]"] by (simp add: key_held_def)
  have 3: "server_reachable (Some (?m, ?p(1 := Waiting [107] 0)))"
    using server_lock [OF 2 lock_step.enter, of 1 "[107]" 1] by (simp add: lockKeyInternal_def key_held_def)
  have 4: "server_reachable (Some (?m, ?p(1 := Waiting [107] 0, 2 := Unlocking [[107]])))"
    by (rule server_del [OF 3 del_ends]) simp_all
  have 5: "server_reachable (Some (key_held\<lparr>mutexes := [0 \<mapsto> \<lparr>mu_owner = None, refs = 1\<rparr>]\<rparr>,
      ?p(1 := Waiting [107] 0, 2 := Unlocking [])))"
    using server_del [OF 4 del_unlock, of 2 "[107]" "[]"] by (simp add: RecordMutex_Unlock_def key_held_def Let_def)
  have idle: "(\<lambda>_. Idle)(0 := Idle, 2 := p, Suc 0 := q) = (\<lambda>_. Idle)(2 := p, Suc 0 := q)" for p q by auto
  have 6: "server_reachable (Some (RecordMutex_init, (\<lambda>_. Idle)(1 := Waiting [107] 0, 2 := Unlocking [])))"
    using server_lock [OF 5 lock_step.release, of 0 "[107]"]
    by (simp add: RecordMutex_Unlock_def key_held_def RecordMutex_init_def Let_def fun_upd_twist idle)
  show ?thesis
    by (rule server_lock [OF 6 lock_step.take_freed, of 1 "[107]" 0]) (simp_all add: RefMutex_Lock_def RecordMutex_init_def)
qed

section \<open>Properties\<close>

lemma holder_unique: "lock_inv (m, pcs) \<Longrightarrow> k \<in> holds (pcs t) \<Longrightarrow> k \<in> holds (pcs t') \<Longrightarrow> t = t'"
  using entry_okD [of m pcs k t] lock_invD(2) [of m pcs k]
  by (metis (mono_tags, lifting) in_uses mem_Collect_eq option.inject users_def)

text \<open>
  C14: The locks on keys, without and with \<^verbatim>\<open>multi_del\<close>. In every state that any number of threads reach by locking single keys and the
  whole table, in any order of their steps, as long as no \<^verbatim>\<open>multi_del\<close> ends: no thread has touched a mutex that was freed, each key has at
  most one holder, a thread that waits for a key has the address of the mutex in the
  table, the mutexes that exist are exactly those of the keys in use, and the memory the table accounts for
  is what its entries need. The end of \<^verbatim>\<open>multi_del\<close>, that is of every DEL and every expiration, breaks this: it unlocks keys
  that it has not locked, so that two threads can hold the same key, and a thread can use a mutex that has been freed.
\<close>

theorem record_lock_correct:
  "(\<forall>s. lock_reachable s \<longrightarrow> (\<exists>m pcs. s = Some (m, pcs) \<and>
      (\<forall>k t t'. k \<in> holds (pcs t) \<longrightarrow> k \<in> holds (pcs t') \<longrightarrow> t = t') \<and>
      (\<forall>t t'. has_gate (pcs t) \<longrightarrow> has_gate (pcs t') \<longrightarrow> t = t') \<and>
      (\<forall>k t r. waits (pcs t) = Some (k, r) \<longrightarrow> records m k = Some r) \<and>
      (\<forall>k. records m k = None \<longleftrightarrow> users pcs k = {}) \<and>
      dom (mutexes m) = ran (records m) \<and>
      GetUsage m = (\<Sum>k \<in> dom (records m). kEstimatePairSize + int (length k)))) \<and>
   (\<exists>m pcs t t' k. server_reachable (Some (m, pcs)) \<and> t \<noteq> t' \<and> k \<in> holds (pcs t) \<and> k \<in> holds (pcs t')) \<and>
   server_reachable None"
proof (intro conjI allI impI)
  fix s
  assume reach: "lock_reachable s"
  obtain m pcs where s: "s = Some (m, pcs)" and inv: "lock_inv (m, pcs)"
    using lock_reachable_inv [OF reach] by auto
  note D = lock_invD [OF inv]
  have "records m k = Some r" if "waits (pcs t) = Some (k, r)" for k t r
  proof -
    have "t \<in> users pcs k" using that by (simp add: users_def in_uses)
    from entry_okD [OF D(2) this] that show ?thesis by blast
  qed
  moreover have "records m k = None \<longleftrightarrow> users pcs k = {}" for k
    using D(2) [of k] by (auto simp: entry_ok_def split: option.splits)
  moreover have "has_gate (pcs t) \<Longrightarrow> has_gate (pcs t') \<Longrightarrow> t = t'" for t t'
    using D(5) by (metis option.inject)
  ultimately show "\<exists>m pcs. s = Some (m, pcs) \<and>
      (\<forall>k t t'. k \<in> holds (pcs t) \<longrightarrow> k \<in> holds (pcs t') \<longrightarrow> t = t') \<and>
      (\<forall>t t'. has_gate (pcs t) \<longrightarrow> has_gate (pcs t') \<longrightarrow> t = t') \<and>
      (\<forall>k t r. waits (pcs t) = Some (k, r) \<longrightarrow> records m k = Some r) \<and>
      (\<forall>k. records m k = None \<longleftrightarrow> users pcs k = {}) \<and>
      dom (mutexes m) = ran (records m) \<and>
      GetUsage m = (\<Sum>k \<in> dom (records m). kEstimatePairSize + int (length k))"
    using s holder_unique [OF inv] D(1) by (auto simp: mutex_ok_def GetUsage_def)
next
  obtain m where "server_reachable (Some (m, (\<lambda>_. Idle)(0 := Held [107], 1 := Held [107])))" using two_holders by blast
  then show "\<exists>m pcs t t' k. server_reachable (Some (m, pcs)) \<and> t \<noteq> t' \<and> k \<in> holds (pcs t) \<and> k \<in> holds (pcs t')"
    by (intro exI [of _ m] exI [of _ "(\<lambda>_. Idle)(0 := Held [107], 1 := Held [107])"] exI [of _ 0] exI [of _ 1] exI [of _ "[107]"]) auto
qed (rule freed_mutex_used)

theorem record_lock_correct_witness:
  "GetUsage (fst race_state) = (\<Sum>k \<in> dom (records (fst race_state)). kEstimatePairSize + int (length k)) \<and>
   dom (mutexes (fst race_state)) = ran (records (fst race_state))"
proof -
  obtain m pcs where r: "race_state = (m, pcs)" "dom (mutexes m) = ran (records m)"
    "GetUsage m = (\<Sum>k \<in> dom (records m). kEstimatePairSize + int (length k))"
    using record_lock_correct [THEN conjunct1, rule_format, OF race_reachable] by blast
  show ?thesis unfolding r(1) fst_conv using r(2,3) by blast
qed

lemma no_records_usage: "mutex_ok m \<Longrightarrow> (\<And>k. records m k = None) \<Longrightarrow> \<not> GetUsage m > 0"
  by (simp add: mutex_ok_def GetUsage_def dom_def)

lemma free_addr: "mutex_ok m \<Longrightarrow> \<exists>a. mutexes m a = None"
proof -
  assume ok: "mutex_ok m"
  then have "finite (dom (mutexes m))" by (simp add: mutex_ok_def finite_ran)
  then obtain a where "a \<notin> dom (mutexes m)" using ex_new_if_finite infinite_UNIV_nat by blast
  then show ?thesis by auto
qed

text \<open>
  Without \<^verbatim>\<open>multi_del\<close> the threads never block each other for ever: in every reachable state in which some thread is
  not idle, a thread that is not idle can make a step.
\<close>

lemma record_lock_progress:
  assumes "lock_reachable (Some (m, pcs))" "pcs t \<noteq> Idle"
  shows "\<exists>t' s'. pcs t' \<noteq> Idle \<and> lock_step t' (m, pcs) s'"
proof (rule ccontr)
  assume "\<not> ?thesis"
  then have stuck: "\<nexists>s'. lock_step t' (m, pcs) s'" if "pcs t' \<noteq> Idle" for t' using that by blast
  have inv: "lock_inv (m, pcs)" using lock_reachable_inv [OF assms(1)] by simp
  note D = lock_invD [OF inv]
  obtain a where a: "mutexes m a = None" using free_addr [OF D(1)] by blast
  have blocked: "(\<exists>k r. pcs t' = Waiting k r) \<or> pcs t' = GlobalWaiting" if "pcs t' \<noteq> Idle" for t'
    using stuck [OF that] that D(4) a by (cases "pcs t'") (auto intro: lock_step.intros)
  have none: "holds (pcs t') = {}" for t' using blocked [of t'] by (cases "pcs t'") auto
  have "waits (pcs t') = None" for t'
  proof (rule ccontr)
    assume "waits (pcs t') \<noteq> None"
    then obtain k r where w: "pcs t' = Waiting k r" by (cases "pcs t'") auto
    then obtain m' where "RefMutex_Lock t' r m = Some (Some m')" using wait_ok [OF inv, of t' k r] none by fastforce
    with w stuck [of t'] lock_step.take show False by fastforce
  qed
  then have "users pcs k = {}" for k using none by (simp add: users_def in_uses)
  then have "records m k = None" for k using D(2) [of k] by (auto simp: entry_ok_def split: option.splits)
  then have "\<not> GetUsage m > 0" using no_records_usage [OF D(1)] by blast
  moreover have "pcs t = GlobalWaiting" using blocked [OF assms(2)] \<open>waits (pcs t) = None\<close> by auto
  ultimately show False using stuck [OF assms(2)] lock_step.global_take by blast
qed

text \<open>
  C19: The lock on the whole table does not exclude the locks on single keys: a thread that has passed the
  gate but has not yet entered its key in the table is overlooked, so the table can be locked as a
  whole, as FLUSHDB does, while another thread holds a key.
\<close>

theorem global_lock_race:
  "\<exists>m pcs. lock_reachable (Some (m, pcs)) \<and> pcs 0 = Held [107] \<and> pcs 1 = GlobalHeld"
  by (rule exI [of _ "fst race_state"], rule exI [of _ "snd race_state"])
    (use race_reachable in \<open>simp add: race_state_def\<close>)

end
