(* ===== verification/Reply.thy ===== *)
theory Reply
  imports Rdb
begin

text \<open>
  Replies: the class \<^verbatim>\<open>Response\<close> (\<^verbatim>\<open>src/src/common/Response.cpp\<close>, \<^verbatim>\<open>src/include/Response.h\<close>), the texts of the error
  codes (\<^verbatim>\<open>src/src/codec/internal_error.cpp\<close>), the checks of \<^verbatim>\<open>src/src/proc/proc_common.h\<close> and the numbers in
  requests. A reply of the protocol is a value of the type \<open>reply\<close>, \<open>enc\<close> is its text, and the text of
  a reply determines it, also when more bytes follow.
\<close>

section \<open>Text\<close>

definition ascii :: "string \<Rightarrow> bytes" where
  "ascii s = map of_char s"

abbreviation crlf :: bytes where
  "crlf \<equiv> [13, 10]"

text \<open>\<^verbatim>\<open>%d\<close> of a size that is cast to a 32-bit integer.\<close>

definition fmt_size :: "nat \<Rightarrow> bytes" where
  "fmt_size n = str_int64 (sint (word_of_nat n :: 32 word))"

section \<open>Error codes\<close>

text \<open>\<^verbatim>\<open>errMap\<close>, with the codes as \<^verbatim>\<open>codec/error.h\<close> numbers them.\<close>

definition errMap :: "(int \<times> string) list" where
  "errMap = [(0, ''success''), (-2, ''ERR STORAGE_ERR      ''),
     (-3, ''WRONGTYPE Operation against a key holding the wrong kind of value''),
     (-4, ''ERR MKEY_DECODEC_ERR ''), (-5, ''ERR MKEY_RESIZE_ERR  ''), (-13, ''ERR invalid MetaVal''),
     (-6, ''ERR increment or decrement would overflow''), (-7, ''ERR increment or decrement would overflow''),
     (-8, ''ERR value is not an integer or out of range''), (-9, ''ERR value is not a valid float''),
     (-24, ''ERR min or max is not a float''), (-10, ''ERR INVALID_INCR     ''),
     (-11, ''ERR string exceeds maximum allowed size (512MB)''), (-12, ''ERR index out of range''),
     (-23, ''ERR value is out of range''), (-14, ''ERR syntax error''), (-15, ''ERR invalid expire time''),
     (-16, ''ERR increment would produce NaN or Infinity''), (-17, ''ERR resulting score is not a number (NaN)''),
     (-19, ''ERR min or max not valid string range item''), (-20, ''BUSYKEY Target key name already exists.''),
     (-21, ''ERR DUMP payload version or checksum are wrong''), (-22, ''ERR wrong number of arguments'')]"

definition GetErrorInfo :: "int \<Rightarrow> bytes" where
  "GetErrorInfo ret =
     (case map_of errMap ret of
        None \<Rightarrow> ascii ''ERR server error with error code : '' @ str_int64 ret
      | Some t \<Rightarrow> ascii t)"

section \<open>Responses\<close>

record Response =
  reply_output :: bytes
  reply_status :: int
  resp_arr :: "bytes list"

definition RESP_ERR :: int where "RESP_ERR = 1"
definition RESP_NIL :: int where "RESP_NIL = 2"
definition RESP_STATUS :: int where "RESP_STATUS = 4"
definition RESP_STRING :: int where "RESP_STRING = 8"
definition RESP_INT :: int where "RESP_INT = 16"
definition RESP_ARRAY :: int where "RESP_ARRAY = 32"

text \<open>Appending to the output and marking the kind of reply, the two steps of every method.\<close>

definition emit :: "bytes \<Rightarrow> int \<Rightarrow> Response \<Rightarrow> Response" where
  "emit bs kind resp = resp\<lparr>reply_output := reply_output resp @ bs, reply_status := or (reply_status resp) kind\<rparr>"

definition addReplyError :: "bytes \<Rightarrow> Response \<Rightarrow> Response" where
  "addReplyError err_msg = emit (45 # err_msg @ crlf) RESP_ERR"

definition addReplyNil :: "Response \<Rightarrow> Response" where
  "addReplyNil = emit (ascii ''$-1'' @ crlf) RESP_NIL"

definition addReplyStatus :: "bytes \<Rightarrow> Response \<Rightarrow> Response" where
  "addReplyStatus msg = emit (43 # msg @ crlf) RESP_STATUS"

definition addReplyStatusOK :: "Response \<Rightarrow> Response" where
  "addReplyStatusOK = emit (ascii ''+OK'' @ crlf) RESP_STATUS"

definition bulk :: "bytes \<Rightarrow> bytes" where
  "bulk msg = 36 # fmt_size (length msg) @ crlf @ msg @ crlf"

definition addReplyString :: "bytes \<Rightarrow> Response \<Rightarrow> Response" where
  "addReplyString msg = emit (bulk msg) RESP_STRING"

definition addReplyInt_u64 :: "u64 \<Rightarrow> Response \<Rightarrow> Response" where
  "addReplyInt_u64 i = emit (58 # dec_digits (unat i) @ crlf) RESP_INT"

definition addReplyInt :: "int \<Rightarrow> Response \<Rightarrow> Response" where
  "addReplyInt i = emit (58 # str_int64 i @ crlf) RESP_INT"

definition addReplyListEmpty :: "Response \<Rightarrow> Response" where
  "addReplyListEmpty = emit (ascii ''*0'' @ crlf) RESP_ARRAY"

definition addReplyListHead :: "nat \<Rightarrow> Response \<Rightarrow> Response" where
  "addReplyListHead n = emit (42 # fmt_size n @ crlf) RESP_ARRAY"

definition convertReplyToList :: "Response \<Rightarrow> Response" where
  "convertReplyToList resp =
     emit (42 # fmt_size (length (resp_arr resp)) @ crlf @ concat (map bulk (resp_arr resp))) RESP_ARRAY resp"

text \<open>Without a first element, \<^verbatim>\<open>resp_arr[0]\<close> is read out of bounds.\<close>

definition convertReplyToScanResult :: "Response \<Rightarrow> rdb_abort + Response" where
  "convertReplyToScanResult resp =
     (case resp_arr resp of
        [] \<Rightarrow> Inl OutOfBounds
      | c # rest \<Rightarrow>
          Inr (emit (42 # fmt_size (length rest) @ crlf @ concat (map bulk rest)) RESP_ARRAY
            (addReplyString c (addReplyListHead 2 resp))))"

definition addReplyErrorCode :: "int \<Rightarrow> Response \<Rightarrow> Response" where
  "addReplyErrorCode n = addReplyError (GetErrorInfo n)"

definition wrong_params :: "Response \<Rightarrow> Response" where
  "wrong_params = addReplyError (ascii ''ERR wrong number of arguments'')"

section \<open>Numbers and words of a request\<close>

text \<open>
  \<^verbatim>\<open>Bytes::Int64\<close> and whether \<^verbatim>\<open>errno\<close> is \<^verbatim>\<open>EINVAL\<close> afterwards. A number that does not fit sets \<^verbatim>\<open>ERANGE\<close>
  instead, which the handlers do not look at.
\<close>

definition strtoll_overflow :: "bytes \<Rightarrow> bool" where
  "strtoll_overflow s =
     (let t = dropWhile is_space s;
          neg = (t \<noteq> [] \<and> hd t = 45);
          ds = takeWhile digit (if t \<noteq> [] \<and> (hd t = 45 \<or> hd t = 43) then tl t else t);
          v = int (dval 0 ds)
      in if neg then - v < INT64_MIN else v > INT64_MAX)"

definition Bytes_Int64 :: "bytes \<Rightarrow> int \<times> bool" where
  "Bytes_Int64 s = (case str_to_int64 s of (v, err) \<Rightarrow> (v, err \<and> \<not> strtoll_overflow s))"

text \<open>\<^verbatim>\<open>std::map<Bytes, Bytes>\<close> and \<^verbatim>\<open>std::set<Bytes>\<close> as ordered lists: \<^verbatim>\<open>kvs[key] = val\<close> and \<^verbatim>\<open>insert\<close>.\<close>

fun map_put :: "bytes \<Rightarrow> bytes \<Rightarrow> (bytes \<times> bytes) list \<Rightarrow> (bytes \<times> bytes) list" where
  "map_put k v [] = [(k, v)]"
| "map_put k v ((k', v') # m) =
     (if k < k' then (k, v) # (k', v') # m else if k = k' then (k, v) # m else (k', v') # map_put k v m)"

fun set_put :: "bytes \<Rightarrow> bytes list \<Rightarrow> bytes list" where
  "set_put x [] = [x]"
| "set_put x (y # m) = (if x < y then x # y # m else if x = y then y # m else y # set_put x m)"

lemma map_put_props: "sorted_wrt (<) (map fst m) \<Longrightarrow> sorted_wrt (<) (map fst (map_put k v m)) \<and>
   fst ` set (map_put k v m) = insert k (fst ` set m) \<and> map_of (map_put k v m) = (map_of m)(k \<mapsto> v)"
  by (induction m) (force simp: fun_eq_iff)+

lemma set_put_props: "sorted_wrt (<) m \<Longrightarrow> sorted_wrt (<) (set_put x m) \<and> set (set_put x m) = insert x (set m)"
  by (induction m) auto

section \<open>The protocol\<close>

datatype reply = RError bytes | RNil | RStatus bytes | RString bytes | RInt int | RArray "reply list"

fun enc :: "reply \<Rightarrow> bytes" where
  "enc (RError t) = 45 # t @ crlf"
| "enc RNil = [36, 45, 49, 13, 10]"
| "enc (RStatus t) = 43 # t @ crlf"
| "enc (RString b) = 36 # dec_digits (length b) @ crlf @ b @ crlf"
| "enc (RInt i) = 58 # str_int64 i @ crlf"
| "enc (RArray rs) = 42 # dec_digits (length rs) @ crlf @ concat (map enc rs)"

fun wf_reply :: "reply \<Rightarrow> bool" where
  "wf_reply (RError t) \<longleftrightarrow> 13 \<notin> set t"
| "wf_reply (RStatus t) \<longleftrightarrow> 13 \<notin> set t"
| "wf_reply (RArray rs) \<longleftrightarrow> (\<forall>r \<in> set rs. wf_reply r)"
| "wf_reply _ \<longleftrightarrow> True"

lemma line_split:
  assumes "a @ 13 # x = b @ 13 # y" "13 \<notin> set a" "13 \<notin> set b"
  shows "a = b \<and> x = y"
  using assms
proof (induction a arbitrary: b)
  case Nil
  then show ?case by (cases b) auto
next
  case (Cons c a)
  then show ?case by (cases b) auto
qed

lemma dec_digits_facts: "13 \<notin> set (dec_digits n)" "45 \<notin> set (dec_digits n)" "dec_digits n \<noteq> []"
  "dec_digits n = dec_digits m \<longleftrightarrow> n = m"
proof -
  obtain c cs where d: "dec_digits n = c # cs" "digit c" "\<forall>c \<in> set cs. digit c"
    using dec_digits_canonical [of n] by auto
  then show "13 \<notin> set (dec_digits n)" "45 \<notin> set (dec_digits n)" "dec_digits n \<noteq> []" by (auto simp: digit_def)
  show "dec_digits n = dec_digits m \<longleftrightarrow> n = m" 
  proof -
    have "dval (unat (hd (dec_digits n)) - 48) (tl (dec_digits n)) = n" for n using dec_digits_canonical [of n] by auto
    then show ?thesis by metis
  qed
qed

lemma str_int64_facts: "13 \<notin> set (str_int64 i)" "str_int64 i = str_int64 j \<longleftrightarrow> i = j"
proof -
  show "13 \<notin> set (str_int64 i)" by (simp add: str_int64_def dec_digits_facts)
  have neg: "45 # dec_digits n \<noteq> dec_digits m" for n m using dec_digits_facts(2) [of m] by (metis list.set_intros(1))
  show "str_int64 i = str_int64 j \<longleftrightarrow> i = j"
    by (auto simp: str_int64_def dec_digits_facts neg neg [symmetric] split: if_splits)
qed

lemma length_concat_enc: "length rs \<le> length (concat (map enc rs))"
proof (induction rs)
  case (Cons r rs)
  have "enc r \<noteq> []" by (cases r) auto
  then have "length (enc r) \<ge> 1" by (simp add: Suc_leI)
  with Cons show ?case by simp
qed simp

text \<open>The text of a reply determines the reply, whatever follows.\<close>

theorem enc_unambiguous:
  assumes "wf_reply r" "wf_reply r'" "enc r @ x = enc r' @ y"
  shows "r = r' \<and> x = y"
  using assms
proof (induction r arbitrary: r' x y rule: enc.induct)
  case (1 t)
  then show ?case by (cases r') (auto dest: line_split)
next
  case 2
  have "dec_digits n @ z \<noteq> 45 # w" for n z w using dec_digits_facts(2,3) [of n] by (cases "dec_digits n") auto
  with 2 show ?case by (cases r') (auto dest: sym)
next
  case (3 t)
  then show ?case by (cases r') (auto dest: line_split)
next
  case (4 b)
  have "dec_digits n @ z \<noteq> 45 # w" for n z w using dec_digits_facts(2,3) [of n] by (cases "dec_digits n") auto
  with 4(3) obtain b' where r': "r' = RString b'" by (cases r') auto
  with 4(3) have "length b = length b'" "b @ crlf @ x = b' @ crlf @ y"
    using line_split [of "dec_digits (length b)" "10 # b @ crlf @ x" "dec_digits (length b')" "10 # b' @ crlf @ y"]
    by (auto simp: dec_digits_facts)
  with r' show ?case by simp
next
  case (5 i)
  then show ?case by (cases r') (auto dest!: line_split simp: str_int64_facts)
next
  case (6 rs)
  then obtain rs' where r': "r' = RArray rs'" by (cases r') auto
  with 6(4) have e: "length rs = length rs'" "concat (map enc rs) @ x = concat (map enc rs') @ y"
    by (auto dest!: line_split simp: dec_digits_facts)
  have all: "rs = rs' \<and> x = y" if "length rs = length rs'" "concat (map enc rs) @ x = concat (map enc rs') @ y"
    "\<forall>r \<in> set rs. wf_reply r" "\<forall>r \<in> set rs'. wf_reply r"
    "\<And>r r' x y. r \<in> set rs \<Longrightarrow> wf_reply r \<Longrightarrow> wf_reply r' \<Longrightarrow> enc r @ x = enc r' @ y \<Longrightarrow> r = r' \<and> x = y" for rs rs'
    using that
  proof (induction rs rs' rule: list_induct2)
    case (Cons r rs r' rs')
    have "r = r' \<and> concat (map enc rs) @ x = concat (map enc rs') @ y"
      using Cons.prems(1-3) by (intro Cons.prems(4)) auto
    with Cons show ?case by (metis list.set_intros(2))
  qed simp
  have w: "\<forall>r \<in> set rs. wf_reply r" "\<forall>r \<in> set rs'. wf_reply r" using 6(2,3) r' by auto
  from all [OF e w 6(1)] show ?case unfolding r' by blast
qed

lemma sint_of_nat_small: "n < 2 ^ 31 \<Longrightarrow> sint (word_of_nat n :: 32 word) = int n"
  by (simp add: signed_of_nat signed_take_bit_int_eq_self)

lemma fmt_size_dec: "n < 2 ^ 31 \<Longrightarrow> fmt_size n = dec_digits n"
  by (simp add: fmt_size_def sint_of_nat_small str_int64_def)

lemma dec_digits_str: "dec_digits (unat i) = str_int64 (uint i)"
  by (simp add: str_int64_def)

section \<open>What the methods append\<close>

definition small_texts :: "bytes list \<Rightarrow> bool" where
  "small_texts xs \<longleftrightarrow> length xs < 2 ^ 31 \<and> (\<forall>x \<in> set xs. length x < 2 ^ 31)"

lemma bulk_enc: "length x < 2 ^ 31 \<Longrightarrow> bulk x = enc (RString x)"
  by (simp add: bulk_def fmt_size_dec)

lemma concat_bulk: "\<forall>x \<in> set xs. length x < 2 ^ 31 \<Longrightarrow> concat (map bulk xs) = concat (map (enc \<circ> RString) xs)"
  by (induction xs) (simp_all add: bulk_enc)

lemma reply_emits [simp]:
  "reply_output (addReplyError t resp) = reply_output resp @ enc (RError t)"
  "reply_output (addReplyErrorCode n resp) = reply_output resp @ enc (RError (GetErrorInfo n))"
  "reply_output (addReplyNil resp) = reply_output resp @ enc RNil"
  "reply_output (addReplyStatus t resp) = reply_output resp @ enc (RStatus t)"
  "reply_output (addReplyStatusOK resp) = reply_output resp @ enc (RStatus (ascii ''OK''))"
  "reply_output (addReplyInt i resp) = reply_output resp @ enc (RInt i)"
  "reply_output (addReplyInt_u64 w resp) = reply_output resp @ enc (RInt (uint w))"
  "reply_output (addReplyListEmpty resp) = reply_output resp @ enc (RArray [])"
  "length x < 2 ^ 31 \<Longrightarrow> reply_output (addReplyString x resp) = reply_output resp @ enc (RString x)"
  "small_texts (resp_arr resp) \<Longrightarrow>
     reply_output (convertReplyToList resp) = reply_output resp @ enc (RArray (map RString (resp_arr resp)))"
  by (simp_all add: emit_def addReplyError_def addReplyErrorCode_def addReplyNil_def addReplyStatus_def addReplyStatusOK_def
      addReplyInt_def addReplyInt_u64_def addReplyListEmpty_def addReplyString_def convertReplyToList_def ascii_def of_char_def
      dec_digits.simps [of 0] dec_digits_str bulk_enc small_texts_def fmt_size_dec concat_bulk comp_def)

lemma reply_keeps_arr [simp]:
  "resp_arr (addReplyListHead n resp) = resp_arr resp" "resp_arr (addReplyString x resp) = resp_arr resp"
  "resp_arr (addReplyNil resp) = resp_arr resp"
  by (simp_all add: emit_def addReplyListHead_def addReplyString_def addReplyNil_def)

lemma list_head_output: "n < 2 ^ 31 \<Longrightarrow> reply_output (addReplyListHead n resp) = reply_output resp @ 42 # dec_digits n @ crlf"
  by (simp add: emit_def addReplyListHead_def fmt_size_dec)

lemma scan_result_output:
  assumes "resp_arr resp = c # rest" "small_texts (c # rest)"
  shows "\<exists>resp'. convertReplyToScanResult resp = Inr resp' \<and>
    reply_output resp' = reply_output resp @ enc (RArray [RString c, RArray (map RString rest)])"
proof -
  have "Suc (Suc 0) = 2" by simp
  note two = this
  show ?thesis using assms
    by (simp add: two convertReplyToScanResult_def small_texts_def list_head_output emit_def fmt_size_dec concat_bulk comp_def)
qed

text \<open>Every error text is one line.\<close>

lemma ascii_line: "13 \<in> set (ascii t) \<longleftrightarrow> CHR 0x0D \<in> set t"
proof -
  have "of_char c = (13 :: byte) \<longleftrightarrow> c = CHR 0x0D" for c :: char
  proof
    assume "of_char c = (13 :: byte)"
    then have "word_of_nat (of_char c) = (13 :: byte)" by (simp only: of_nat_of_char)
    then have "unat (word_of_nat (of_char c) :: byte) = 13" by simp
    then have "of_char c = (13 :: nat)" by (simp add: unat_of_nat)
    then have "c = char_of (13 :: nat)" by (metis char_of_char)
    then show "c = CHR 0x0D" by (simp add: char_of_def bit_Suc_0_iff)
  qed (simp add: of_char_def)
  then show ?thesis by (force simp: ascii_def)
qed

lemma GetErrorInfo_line: "13 \<notin> set (GetErrorInfo n)"
proof (cases "map_of errMap n")
  case None
  then show ?thesis by (simp add: GetErrorInfo_def str_int64_facts ascii_line)
next
  case (Some t)
  have "\<forall>(k, t) \<in> set errMap. 13 \<notin> set (ascii t)"
    by (simp add: errMap_def ascii_line)
  with Some show ?thesis using map_of_SomeD [OF Some] by (auto simp: GetErrorInfo_def)
qed

lemma Bytes_Int64_range: "int64 (fst (Bytes_Int64 s))"
  by (auto simp: Bytes_Int64_def str_to_int64_def strtoll_def Let_def split_def int64_def)

section \<open>Commands that keep a promise\<close>

text \<open>
  A group of commands and what they promise on an abstract value: \<open>run\<close> gives the request of a command to its handler, \<open>spec\<close> is
  the promised reply and the value afterwards, \<open>pre\<close> says that the state holds a value on which the command is defined, and \<open>post\<close>
  relates the state before, the state after and the value it holds then.
\<close>

locale commands =
  fixes run :: "'s \<Rightarrow> 'c \<Rightarrow> Response \<Rightarrow> Response \<times> 's" and spec :: "'c \<Rightarrow> 'a \<Rightarrow> reply \<times> 'a"
    and pre :: "'s \<Rightarrow> 'a \<Rightarrow> 'c \<Rightarrow> bool" and post :: "'s \<Rightarrow> 's \<Rightarrow> 'a \<Rightarrow> bool"
  assumes promise: "pre s a c \<Longrightarrow> resp_arr resp = [] \<Longrightarrow>
      \<exists>resp' s'. run s c resp = (resp', s') \<and> reply_output resp' = reply_output resp @ enc (fst (spec c a)) \<and> post s s' (snd (spec c a))"
    and one_line: "wf_reply (fst (spec c a))"
begin

text \<open>The client reads the promised reply and cannot read another one.\<close>

lemma client_reads:
  assumes "pre s a c" "resp_arr resp = []"
  shows "\<exists>resp' s'. run s c resp = (resp', s') \<and> reply_output resp' = reply_output resp @ enc (fst (spec c a)) \<and>
    (\<forall>r x. wf_reply r \<and> reply_output resp' = reply_output resp @ enc r @ x \<longrightarrow> r = fst (spec c a) \<and> x = []) \<and>
    post s s' (snd (spec c a))"
proof -
  obtain resp' s' where o: "run s c resp = (resp', s')" "reply_output resp' = reply_output resp @ enc (fst (spec c a))"
    "post s s' (snd (spec c a))" using promise [OF assms] by blast
  have "r = fst (spec c a) \<and> x = []" if "wf_reply r" "reply_output resp' = reply_output resp @ enc r @ x" for r x
    using enc_unambiguous [OF that(1) one_line, of x c a "[]"] that(2) o(2) by simp
  with o show ?thesis by blast
qed

end

end
