(* ===== verification/Numbers.thy ===== *)
theory Numbers
  imports Reply
begin

text \<open>
  What the texts of a request mean as numbers. The handlers read them with \<^verbatim>\<open>Bytes::Int64\<close> (\<^verbatim>\<open>src/src/util/strings.h\<close>); here the
  meaning is said declaratively, by the way a text is built, and the reader is shown to follow it, with the texts it accepts although
  they are no numbers.
\<close>

text \<open>
  What a text says as a number: after blanks and a sign, the value of its first digits, and the rest behind them. This is the
  number as such; what does not fit in 64 bits is cut to the nearest number that does.
\<close>

definition number_in :: "bytes \<Rightarrow> int \<Rightarrow> bytes \<Rightarrow> bool" where
  "number_in t v rest \<longleftrightarrow> (\<exists>blanks sign ds. t = blanks @ sign @ ds @ rest \<and> (\<forall>c \<in> set blanks. c \<in> {9, 10, 11, 12, 13, 32}) \<and>
     sign \<in> {[], ascii ''+'', ascii ''-''} \<and> ds \<noteq> [] \<and> (\<forall>c \<in> set ds. digit c) \<and> (rest \<noteq> [] \<longrightarrow> \<not> digit (hd rest)) \<and>
     v = (if sign = ascii ''-'' then - int (dval 0 ds) else int (dval 0 ds)))"

definition clamp64 :: "int \<Rightarrow> int" where
  "clamp64 v = max (- (2 ^ 63)) (min (2 ^ 63 - 1) v)"

lemma sign_texts: "ascii ''+'' = [43]" "ascii ''-'' = [45]"
  by (simp_all add: ascii_def of_char_def)

lemma is_space_iff: "is_space c \<longleftrightarrow> c \<in> {9, 10, 11, 12, 13, 32}"
proof -
  have "unat c \<in> {9..13} \<longleftrightarrow> unat c \<in> {9, 10, 11, 12, 13}" by auto
  then show ?thesis unfolding is_space_def by (auto simp: word_le_nat_alt word_unat_eq_iff)
qed

lemma not_space: "digit c \<Longrightarrow> \<not> is_space c" "\<not> is_space 43" "\<not> is_space 45" "digit c \<Longrightarrow> c \<noteq> 43" "digit c \<Longrightarrow> c \<noteq> 45"
  by (auto simp: digit_def is_space_iff)

lemma number_in_parts:
  assumes "number_in t v rest"
  obtains blanks sign ds where "t = blanks @ sign @ ds @ rest" "takeWhile is_space t = blanks" "dropWhile is_space t = sign @ ds @ rest"
    "sign = [] \<and> hd (ds @ rest) \<noteq> 43 \<and> hd (ds @ rest) \<noteq> 45 \<or> sign = [43] \<or> sign = [45]" "ds \<noteq> []" "takeWhile digit (ds @ rest) = ds"
    "v = (if sign = [45] then - int (dval 0 ds) else int (dval 0 ds))"
proof -
  from assms obtain blanks sign ds where p: "t = blanks @ sign @ ds @ rest" "\<forall>c \<in> set blanks. is_space c"
    "sign \<in> {[], [43], [45]}" "ds \<noteq> []" "\<forall>c \<in> set ds. digit c" "rest \<noteq> [] \<longrightarrow> \<not> digit (hd rest)"
    "v = (if sign = [45] then - int (dval 0 ds) else int (dval 0 ds))"
    unfolding number_in_def sign_texts is_space_iff by blast
  obtain d ds' where d: "ds = d # ds'" "digit d" using p(4,5) by (cases ds) auto
  have h: "\<not> is_space (hd (sign @ ds @ rest))" "sign @ ds @ rest \<noteq> []" using p(3) d not_space by auto
  then have "takeWhile is_space (sign @ ds @ rest) = []" "dropWhile is_space (sign @ ds @ rest) = sign @ ds @ rest"
    by (cases "sign @ ds @ rest"; simp)+
  then have tw: "takeWhile is_space t = blanks" "dropWhile is_space t = sign @ ds @ rest"
    unfolding p(1) using p(2) by (simp_all add: takeWhile_append2 dropWhile_append2)
  have "takeWhile digit rest = []" using p(6) by (cases rest) auto
  then have "takeWhile digit (ds @ rest) = ds" using p(5) by (simp add: takeWhile_append2)
  moreover have "sign = [] \<and> hd (ds @ rest) \<noteq> 43 \<and> hd (ds @ rest) \<noteq> 45 \<or> sign = [43] \<or> sign = [45]"
    using p(3) d not_space(4,5) by auto
  ultimately show thesis using that [OF p(1) tw _ p(4) _ p(7)] by blast
qed

lemma strtoll_number:
  assumes "number_in t v rest"
  shows "strtoll t = (clamp64 v, length t - length rest)" "strtoll_overflow t \<longleftrightarrow> \<not> int64 v"
proof -
  obtain blanks sign ds where p: "t = blanks @ sign @ ds @ rest" "takeWhile is_space t = blanks" "dropWhile is_space t = sign @ ds @ rest"
    "sign = [] \<and> hd (ds @ rest) \<noteq> 43 \<and> hd (ds @ rest) \<noteq> 45 \<or> sign = [43] \<or> sign = [45]" "ds \<noteq> []" "takeWhile digit (ds @ rest) = ds"
    "v = (if sign = [45] then - int (dval 0 ds) else int (dval 0 ds))"
    by (rule number_in_parts [OF assms])
  have dr: "drop (length blanks) t = sign @ ds @ rest" by (simp add: p(1))
  have len: "length t - length rest = length blanks + length sign + length ds" by (simp add: p(1))
  have ne: "ds @ rest \<noteq> []" using p(5) by simp
  show "strtoll t = (clamp64 v, length t - length rest)"
    unfolding len strtoll_def p(2) Let_def dr
    using p(4) ne p(5,6,7) by (elim disjE) (simp_all add: clamp64_def del: takeWhile_append)
  show "strtoll_overflow t \<longleftrightarrow> \<not> int64 v"
    unfolding strtoll_overflow_def p(3) Let_def
    using p(4) ne p(5,6,7) by (elim disjE) (auto simp: int64_def)
qed

lemma strtoll_no_number:
  assumes "\<nexists>v rest. number_in t v rest"
  shows "strtoll t = (0, 0)" "\<not> strtoll_overflow t"
proof -
  define u where "u = dropWhile is_space t"
  define sign where "sign = (if u \<noteq> [] \<and> (hd u = 45 \<or> hd u = 43) then [hd u] else [])"
  define w where "w = (if u \<noteq> [] \<and> (hd u = 45 \<or> hd u = 43) then tl u else u)"
  have u: "u = sign @ w" by (cases u) (auto simp: sign_def w_def)
  have t: "t = takeWhile is_space t @ sign @ takeWhile digit w @ dropWhile digit w"
    using u takeWhile_dropWhile_id [of is_space t] by (simp add: u_def)
  have b: "\<forall>c \<in> set (takeWhile is_space t). c \<in> {9, 10, 11, 12, 13, 32}"
    using is_space_iff by (blast dest: set_takeWhileD)
  have hw: "dropWhile digit w \<noteq> [] \<longrightarrow> \<not> digit (hd (dropWhile digit w))" using hd_dropWhile by blast
  have "number_in t (if sign = ascii ''-'' then - int (dval 0 (takeWhile digit w)) else int (dval 0 (takeWhile digit w))) (dropWhile digit w)"
    if "takeWhile digit w \<noteq> []"
  proof -
    have "sign \<in> {[], ascii ''+'', ascii ''-''}" by (auto simp: sign_def sign_texts)
    moreover have "\<forall>c \<in> set (takeWhile digit w). digit c" by (blast dest: set_takeWhileD)
    ultimately show ?thesis unfolding number_in_def using t b that hw
      by (intro exI [of _ "takeWhile is_space t"] exI [of _ sign] exI [of _ "takeWhile digit w"] conjI refl) assumption+
  qed
  with assms have e: "takeWhile digit w = []" by metis
  have d: "drop (length (takeWhile is_space t)) t = u" by (simp add: u_def dropWhile_eq_drop)
  have w': "drop (length sign) u = w" by (simp add: u)
  show "\<not> strtoll_overflow t"
    unfolding strtoll_overflow_def u_def [symmetric] Let_def w_def [symmetric] e by simp
  show "strtoll t = (0, 0)"
    unfolding strtoll_def Let_def d
    using e w' unfolding sign_def by (cases "u \<noteq> [] \<and> hd u = 45"; cases "u \<noteq> [] \<and> hd u = 43") (auto split: if_splits)
qed

lemma number_in_unique:
  assumes "number_in t v rest" "number_in t v' rest'"
  shows "v' = v \<and> rest' = rest"
proof -
  obtain b s d where p: "t = b @ s @ d @ rest" "takeWhile is_space t = b" "dropWhile is_space t = s @ d @ rest"
    "s = [] \<and> hd (d @ rest) \<noteq> 43 \<and> hd (d @ rest) \<noteq> 45 \<or> s = [43] \<or> s = [45]" "d \<noteq> []" "takeWhile digit (d @ rest) = d"
    "v = (if s = [45] then - int (dval 0 d) else int (dval 0 d))"
    by (rule number_in_parts [OF assms(1)])
  obtain b' s' d' where p': "t = b' @ s' @ d' @ rest'" "takeWhile is_space t = b'" "dropWhile is_space t = s' @ d' @ rest'"
    "s' = [] \<and> hd (d' @ rest') \<noteq> 43 \<and> hd (d' @ rest') \<noteq> 45 \<or> s' = [43] \<or> s' = [45]" "d' \<noteq> []" "takeWhile digit (d' @ rest') = d'"
    "v' = (if s' = [45] then - int (dval 0 d') else int (dval 0 d'))"
    by (rule number_in_parts [OF assms(2)])
  have e: "s @ d @ rest = s' @ d' @ rest'" using p(3) p'(3) by simp
  then have s: "s = s'" using p(4) p'(4) by (elim disjE conjE) (auto simp: append_eq_Cons_conv Cons_eq_append_conv)
  with e have "d @ rest = d' @ rest'" by simp
  with p(6) p'(6) have "d = d'" "rest = rest'" by auto
  with s p(7) p'(7) show ?thesis by simp
qed

text \<open>
  Which texts the handlers accept as a number: the empty text, as 0; blanks, a sign and digits; and, when the digits do not fit in 64
  bits, the same with anything behind them.
\<close>

definition reads_number :: "bytes \<Rightarrow> int \<Rightarrow> bool" where
  "reads_number t n \<longleftrightarrow> t = [] \<and> n = 0 \<or> (\<exists>v rest. number_in t v rest \<and> (rest = [] \<or> \<not> int64 v) \<and> n = clamp64 v)"

definition text_number :: "bytes \<Rightarrow> int option" where
  "text_number t = (if \<exists>n. reads_number t n then Some (THE n. reads_number t n) else None)"

text \<open>The number at the beginning of a text, 0 if there is none.\<close>

definition leading_number :: "bytes \<Rightarrow> int" where
  "leading_number t = (if \<exists>v rest. number_in t v rest then clamp64 (THE v. \<exists>rest. number_in t v rest) else 0)"

lemma leading_number_in: "number_in t v rest \<Longrightarrow> leading_number t = clamp64 v"
proof -
  assume n: "number_in t v rest"
  have "(THE v. \<exists>rest. number_in t v rest) = v" by (rule the_equality) (use n number_in_unique [OF n] in blast)+
  then show ?thesis unfolding leading_number_def using n by (metis (no_types, lifting))
qed

lemma fst_Bytes_Int64: "fst (Bytes_Int64 t) = leading_number t"
proof (cases "\<exists>v rest. number_in t v rest")
  case True
  then obtain v rest where v: "number_in t v rest" by blast
  then show ?thesis by (simp add: Bytes_Int64_def str_to_int64_def strtoll_number(1) leading_number_in)
next
  case False
  then show ?thesis by (simp add: Bytes_Int64_def str_to_int64_def strtoll_no_number(1) leading_number_def split: prod.split)
qed

lemma not_number_in_Nil: "\<not> number_in [] v rest"
  by (simp add: number_in_def)

lemma Bytes_Int64_reads: "Bytes_Int64 t = (n, False) \<longleftrightarrow> reads_number t n"
proof (cases "\<exists>v rest. number_in t v rest")
  case True
  then obtain v rest where v: "number_in t v rest" by blast
  then have r: "length t - length rest = length t \<longleftrightarrow> rest = []" and ne: "t \<noteq> []"
    using not_number_in_Nil by (auto simp: number_in_def)
  have "reads_number t n \<longleftrightarrow> (rest = [] \<or> \<not> int64 v) \<and> n = clamp64 v"
    unfolding reads_number_def using v ne number_in_unique [OF v] by metis
  then show ?thesis using r by (auto simp: Bytes_Int64_def str_to_int64_def strtoll_number [OF v])
next
  case False
  then show ?thesis using strtoll_no_number [of t] by (auto simp: Bytes_Int64_def str_to_int64_def reads_number_def)
qed

lemma reads_number_unique: "reads_number t n \<Longrightarrow> reads_number t n' \<Longrightarrow> n' = n"
  unfolding Bytes_Int64_reads [symmetric] by simp

lemma text_number_Some: "text_number t = Some n \<longleftrightarrow> reads_number t n"
proof
  assume n: "reads_number t n"
  have "(THE n. reads_number t n) = n" by (rule the_equality [where P = "reads_number t", OF n]) (rule reads_number_unique [OF n])
  with n show "text_number t = Some n" unfolding text_number_def by auto
next
  assume "text_number t = Some n"
  then have "\<exists>m. reads_number t m" "n = (THE n. reads_number t n)" unfolding text_number_def by (auto split: if_splits)
  then obtain m where m: "reads_number t m" by blast
  have "(THE n. reads_number t n) = m" by (rule the_equality [where P = "reads_number t", OF m]) (rule reads_number_unique [OF m])
  with m \<open>n = _\<close> show "reads_number t n" by simp
qed

lemma Bytes_Int64_number: "Bytes_Int64 t = (case text_number t of None \<Rightarrow> (leading_number t, True) | Some n \<Rightarrow> (n, False))"
proof (cases "text_number t")
  case None
  obtain n e where b: "Bytes_Int64 t = (n, e)" by force
  have "e"
  proof (rule ccontr)
    assume "\<not> e"
    then have "Bytes_Int64 t = (n, False)" using b by simp
    then have "text_number t = Some n" unfolding Bytes_Int64_reads text_number_Some .
    with None show False by simp
  qed
  with b None fst_Bytes_Int64 [of t] show ?thesis by simp
next
  case (Some n)
  then have "Bytes_Int64 t = (n, False)" unfolding Bytes_Int64_reads text_number_Some .
  with Some show ?thesis by simp
qed

end
