(* ===== verification/StrUtil.thy ===== *)
theory StrUtil
  imports Reply
begin

text \<open>
  Text helpers of \<^verbatim>\<open>src/src/util/strings.h\<close> and \<^verbatim>\<open>src/include/Request.h\<close>: the number of digits of a number, the
  optimised printer \<^verbatim>\<open>ll2string\<close> that fills a buffer from its end two digits at a time, the escaping of bytes for the log and for error
  replies and its inverse, and the two texts of a request. \<^verbatim>\<open>ll2string\<close> is proved equal to plain decimal printing,
  and escaping is proved to be undone by \<^verbatim>\<open>str_unescape\<close>.
\<close>

unbundle bit_operations_syntax

section \<open>Printing numbers\<close>

definition b01 :: "bool \<Rightarrow> nat" where
  "b01 b = (if b then 1 else 0)"

function digits10 :: "u64 \<Rightarrow> nat" where
  "digits10 v =
     (if v < 10 then 1
      else if v < 100 then 2
      else if v < 1000 then 3
      else if v < 1000000000000 then
        if v < 100000000 then
          if v < 1000000 then
            if v < 10000 then 4 else 5 + b01 (v \<ge> 100000)
          else 7 + b01 (v \<ge> 10000000)
        else if v < 10000000000 then 9 + b01 (v \<ge> 1000000000)
        else 11 + b01 (v \<ge> 100000000000)
      else 12 + digits10 (v div 1000000000000))"
  by pat_completeness auto
termination
  by (relation "measure unat") (auto simp: word_less_nat_alt unat_div)

declare digits10.simps [simp del]

definition LLONG_abs :: "int \<Rightarrow> u64" where
  "LLONG_abs v = (if v \<noteq> INT64_MIN then word_of_int (- v) else word_of_int INT64_MAX + 1)"

definition sdigits10 :: "int \<Rightarrow> nat" where
  "sdigits10 v = (if v < 0 then digits10 (LLONG_abs v) + 1 else digits10 (word_of_int v))"

text \<open>The table with the two digits of every number below 100.\<close>

definition digit_pairs :: bytes where
  "digit_pairs = ascii (''0001020304050607080910111213141516171819'' @
     ''2021222324252627282930313233343536373839'' @
     ''4041424344454647484950515253545556575859'' @
     ''6061626364656667686970717273747576777879'' @
     ''8081828384858687888990919293949596979899'')"

definition put_pair :: "bytes \<Rightarrow> nat \<Rightarrow> nat \<Rightarrow> bytes" where
  "put_pair dst next i = dst[next := digit_pairs ! (i + 1), next - 1 := digit_pairs ! i]"

text \<open>The main loop and the last one or two digits.\<close>

function ll2string_loop :: "bytes \<Rightarrow> u64 \<Rightarrow> nat \<Rightarrow> bytes" where
  "ll2string_loop dst value next =
     (if value \<ge> 100 then
        let i = unat (value mod 100) * 2 in ll2string_loop (put_pair dst next i) (value div 100) (next - 2)
      else if value < 10 then dst[next := 48 + ucast value]
      else put_pair dst next (unat value * 2))"
  by pat_completeness auto
termination
  by (relation "measure (\<lambda>(dst, value, next). unat value)") (auto simp: word_less_nat_alt unat_div word_le_nat_alt)

declare ll2string_loop.simps [simp del]

text \<open>The buffer is the list of its bytes; the result is the length of the text and the buffer.\<close>

definition ll2string :: "bytes \<Rightarrow> int \<Rightarrow> nat \<times> bytes" where
  "ll2string dst svalue =
     (let negative = (svalue < 0);
          value = (if negative then LLONG_abs svalue else word_of_int svalue);
          len = digits10 value + b01 negative
      in if len \<ge> length dst then (0, dst)
         else
           let dst = ll2string_loop (dst[len := 0]) value (len - 1)
           in (len, if negative then dst[0 := 45] else dst))"

section \<open>Escaping\<close>

definition hex_int :: "byte \<Rightarrow> int" where
  "hex_int c = (if 48 \<le> c \<and> c \<le> 57 then sint c - 48 else sint c - 97 + 10)"

definition hex_digits :: bytes where
  "hex_digits = ascii ''0123456789abcdef''"

fun str_unescape :: "bytes \<Rightarrow> bytes" where
  "str_unescape [] = []"
| "str_unescape (c # s) =
     (if c \<noteq> 92 then c # str_unescape s
      else
        (case s of
           [] \<Rightarrow> []
         | c2 # s2 \<Rightarrow>
             if c2 = 97 then 7 # str_unescape s2
             else if c2 = 98 then 8 # str_unescape s2
             else if c2 = 102 then 12 # str_unescape s2
             else if c2 = 118 then 11 # str_unescape s2
             else if c2 = 114 then 13 # str_unescape s2
             else if c2 = 110 then 10 # str_unescape s2
             else if c2 = 116 then 9 # str_unescape s2
             else if c2 = 92 then 92 # str_unescape s2
             else if c2 = 120 then
               (case s2 of
                  c3 # c4 # s4 \<Rightarrow> word_of_int (hex_int c3 * 16 + hex_int c4) # str_unescape s4
                | _ \<Rightarrow> str_unescape s2)
             else c2 # str_unescape s2))"

definition escape_char :: "byte \<Rightarrow> bytes" where
  "escape_char c =
     (if c = 13 then [92, 114]
      else if c = 10 then [92, 110]
      else if c = 9 then [92, 116]
      else if c = 92 then [92, 92]
      else if c = 32 then [c]
      else if 33 \<le> c \<and> c \<le> 126 then [c]
      else [92, 120, hex_digits ! unat (drop_bit 4 c), hex_digits ! unat (c AND 15)])"

definition str_escape :: "bytes \<Rightarrow> bytes" where
  "str_escape s = concat (map escape_char s)"

definition hexmem :: "bytes \<Rightarrow> bytes" where
  "hexmem p = str_escape p"

section \<open>The texts of a request\<close>

definition RestoreRequest :: "bytes list \<Rightarrow> bytes" where
  "RestoreRequest req =
     42 # str_int64 (int (length req)) @ crlf @
       concat (map (\<lambda>s. 36 # str_int64 (int (length s)) @ crlf @ s @ crlf) req)"

text \<open>From the element at index \<open>i\<close> on; at most five elements and the last one are shown, long ones by their size.\<close>

fun serialize_from :: "bytes list \<Rightarrow> nat \<Rightarrow> bytes list \<Rightarrow> bytes" where
  "serialize_from req i [] = []"
| "serialize_from req i (x # rest) =
     (if i \<ge> 5 \<and> i < length req - 1 then 91 # fmt_size (length req - i) @ ascii '' more...]''
      else
        (if (req ! 0 = ascii ''get'' \<or> req ! 0 = ascii ''set'') \<and> i = 1 \<or> length x < 50
         then if length x = 0 then [34, 34] else hexmem x
         else 91 # fmt_size (length x) @ [93]) @
        (if i < length req - 1 then [32] else []) @ serialize_from req (Suc i) rest)"

definition SerializeRequest :: "bytes list \<Rightarrow> bytes" where
  "SerializeRequest req = serialize_from req 0 req"

section \<open>Numbers of digits\<close>

lemma length_dec_digits_1: "n < 10 \<Longrightarrow> length (dec_digits n) = 1"
  by (simp add: dec_digits.simps [of n])

lemma length_dec_digits: "10 ^ k \<le> n \<Longrightarrow> length (dec_digits n) = k + length (dec_digits (n div 10 ^ k))"
proof (induction k arbitrary: n)
  case (Suc k)
  have "(10 :: nat) ^ k \<ge> 1" by simp
  moreover have "10 * 10 ^ k \<le> n" using Suc.prems by simp
  ultimately have "10 \<le> n" by linarith
  have "10 ^ k \<le> n div 10" using Suc.prems by (simp add: less_eq_div_iff_mult_less_eq mult.commute)
  from Suc.IH [OF this] \<open>10 \<le> n\<close> show ?case
    by (subst dec_digits.simps) (simp add: div_mult2_eq)
qed simp

lemma digits_between:
  assumes "10 ^ k \<le> n" "n < 10 ^ Suc k"
  shows "length (dec_digits n) = Suc k"
proof -
  have "n div 10 ^ k < 10" using assms(2) by (simp add: less_mult_imp_div_less)
  with length_dec_digits [OF assms(1)] length_dec_digits_1 show ?thesis by simp
qed

lemma digits10_dec: "digits10 v = length (dec_digits (unat v))"
proof (induction v rule: digits10.induct)
  case (1 v)
  let ?n = "unat v"
  consider "?n < 10" | "10 \<le> ?n" "?n < 100" | "100 \<le> ?n" "?n < 1000" | "1000 \<le> ?n" "?n < 10000" | "10000 \<le> ?n" "?n < 100000"
    | "100000 \<le> ?n" "?n < 1000000" | "1000000 \<le> ?n" "?n < 10000000" | "10000000 \<le> ?n" "?n < 100000000"
    | "100000000 \<le> ?n" "?n < 1000000000" | "1000000000 \<le> ?n" "?n < 10000000000" | "10000000000 \<le> ?n" "?n < 100000000000"
    | "100000000000 \<le> ?n" "?n < 1000000000000" | "1000000000000 \<le> ?n" by (meson not_le)
  then show ?case
  proof cases
    case 1
    then show ?thesis by (simp add: digits10.simps [of v] word_less_nat_alt length_dec_digits_1)
  next
    case 13
    then have "\<not> v < 10" "\<not> v < 100" "\<not> v < 1000" "\<not> v < 1000000000000" by (simp_all add: word_less_nat_alt)
    then have "digits10 v = 12 + digits10 (v div 1000000000000)" by (simp add: digits10.simps [of v])
    moreover have "digits10 (v div 1000000000000) = length (dec_digits (?n div 1000000000000))"
      using 1 13 by (simp add: word_less_nat_alt unat_div)
    ultimately show ?thesis using length_dec_digits [of 12 ?n] 13 by simp
  qed (use digits_between [of 1 ?n] digits_between [of 2 ?n] digits_between [of 3 ?n] digits_between [of 4 ?n] digits_between [of 5 ?n] digits_between [of 6 ?n] digits_between [of 7 ?n] digits_between [of 8 ?n] digits_between [of 9 ?n] digits_between [of 10 ?n] digits_between [of 11 ?n] in \<open>simp add: digits10.simps [of v] word_less_nat_alt word_le_nat_alt b01_def; fail\<close>)+
qed

lemma nth_pairs: "k < length xs \<Longrightarrow> concat (map (\<lambda>k. [f k, g k]) xs) ! (k * 2) = f (xs ! k) \<and>
   concat (map (\<lambda>k. [f k, g k]) xs) ! Suc (k * 2) = g (xs ! k)"
proof (induction xs arbitrary: k)
  case (Cons x xs)
  then show ?case by (cases k) auto
qed simp

lemma digit_pairs_eq: "digit_pairs = concat (map (\<lambda>k. [48 + word_of_nat (k div 10), 48 + word_of_nat (k mod 10)]) [0..<100])"
  by (simp add: digit_pairs_def ascii_def of_char_def upt_conv_Cons)

lemma digit_pairs_nth: "k < 100 \<Longrightarrow>
  digit_pairs ! (k * 2) = 48 + word_of_nat (k div 10) \<and> digit_pairs ! Suc (k * 2) = 48 + word_of_nat (k mod 10)"
  using nth_pairs [of k "[0..<100]"] unfolding digit_pairs_eq by simp

lemma dec_digits_100: "100 \<le> n \<Longrightarrow>
  dec_digits n = dec_digits (n div 100) @ [48 + word_of_nat (n mod 100 div 10), 48 + word_of_nat (n mod 100 mod 10)]"
proof -
  assume n: "100 \<le> n"
  have "n mod 100 = 10 * (n div 10 mod 10) + n mod 10" using mod_mult2_eq [of n 10 10] by simp
  then have "n div 10 mod 10 = n mod 100 div 10" "n mod 100 mod 10 = n mod 10" by simp_all
  moreover have "n div 10 div 10 = n div 100" by (simp add: div_mult2_eq [symmetric])
  moreover have "\<not> n < 10" "\<not> n div 10 < 10" using n by linarith+
  ultimately show ?thesis by (simp add: dec_digits.simps [of n] dec_digits.simps [of "n div 10"])
qed

lemma write_pair: "a @ x # y # rest = (a @ p # q # rest)[Suc (length a) := y, length a := x]"
  by (simp add: list_update_append)

text \<open>The loop writes the digits of the number up to \<open>next\<close> and leaves the rest of the buffer as it is.\<close>

lemma ll2string_loop_writes:
  "Suc nx = length pre + length (dec_digits (unat val)) \<Longrightarrow> length mid = length (dec_digits (unat val)) \<Longrightarrow>
   ll2string_loop (pre @ mid @ rest) val nx = pre @ dec_digits (unat val) @ rest"
proof (induction "pre @ mid @ rest" val nx arbitrary: mid rest rule: ll2string_loop.induct)
  case (1 val nx)
  let ?n = "unat val"
  consider (many) "100 \<le> ?n" | (one) "?n < 10" | (two) "10 \<le> ?n" "?n < 100" by linarith
  then show ?case
  proof cases
    case many
    let ?k = "?n mod 100"
    have d: "dec_digits ?n = dec_digits (?n div 100) @ [48 + word_of_nat (?k div 10), 48 + word_of_nat (?k mod 10)]"
      by (rule dec_digits_100 [OF many])
    obtain m p q where mid: "mid = m @ [p, q]" "length m = length (dec_digits (?n div 100))"
    proof -
      have len: "length mid = length (dec_digits (?n div 100)) + 2" using 1(3) d by simp
      then have "mid = take (length (dec_digits (?n div 100))) mid @ [mid ! length (dec_digits (?n div 100)), mid ! Suc (length (dec_digits (?n div 100)))]"
        by (intro nth_equalityI) (auto simp: nth_append less_Suc_eq)
      then show thesis using that len by (metis length_take min.absorb2 le_add1)
    qed
    have nxt: "nx = Suc (length (pre @ m))" using 1(2) mid d by simp
    have put: "put_pair (pre @ mid @ rest) nx (?k * 2) = pre @ m @ (48 + word_of_nat (?k div 10)) # (48 + word_of_nat (?k mod 10)) # rest"
      using digit_pairs_nth [of ?k] write_pair [of "pre @ m" "48 + word_of_nat (?k div 10)" "48 + word_of_nat (?k mod 10)" rest p q]
      by (simp add: put_pair_def nxt mid)
    have u: "unat (val mod 100) = ?k" "unat (val div 100) = ?n div 100" by (simp_all add: unat_mod unat_div)
    have "ll2string_loop (pre @ mid @ rest) val nx = ll2string_loop (pre @ m @ (48 + word_of_nat (?k div 10)) # (48 + word_of_nat (?k mod 10)) # rest) (val div 100) (nx - 2)"
      using many put by (subst ll2string_loop.simps) (simp add: word_le_nat_alt u Let_def)
    also have "\<dots> = pre @ dec_digits ?n @ rest"
      using 1(1) [of "unat (val mod 100) * 2" m "(48 + word_of_nat (?k div 10)) # (48 + word_of_nat (?k mod 10)) # rest"] many mid nxt put
        dec_digits_facts(3) [of "?n div 100"]
      by (cases "dec_digits (?n div 100)") (simp_all add: u d word_le_nat_alt)
    finally show ?thesis .
  next
    case one
    then have d: "dec_digits ?n = [48 + word_of_nat ?n]" by (simp add: dec_digits.simps [of ?n])
    with 1(3) obtain p where "mid = [p]" by (cases mid) auto
    moreover have "nx = length pre" using 1(2) d by simp
    ultimately show ?thesis using one d
      by (subst ll2string_loop.simps) (simp add: word_le_nat_alt word_less_nat_alt list_update_append)
  next
    case two
    then have d: "dec_digits ?n = [48 + word_of_nat (?n div 10), 48 + word_of_nat (?n mod 10)]"
      by (simp add: dec_digits.simps [of ?n] dec_digits.simps [of "?n div 10"])
    with 1(3) obtain p q where "mid = [p, q]" by (cases mid; cases "tl mid") auto
    moreover have "nx = Suc (length pre)" using 1(2) d by simp
    ultimately show ?thesis
      using two d digit_pairs_nth [of ?n] write_pair [of pre "48 + word_of_nat (?n div 10)" "48 + word_of_nat (?n mod 10)" rest p q]
      by (subst ll2string_loop.simps) (simp add: word_le_nat_alt word_less_nat_alt put_pair_def)
  qed
qed

lemma unat_of_int: "0 \<le> v \<Longrightarrow> v < 2 ^ 64 \<Longrightarrow> unat (word_of_int v :: u64) = nat v"
  by (simp add: unat_eq_nat_uint uint_word_of_int take_bit_int_eq_self)

lemma LLONG_abs_unat: "int64 v \<Longrightarrow> v < 0 \<Longrightarrow> unat (LLONG_abs v) = nat (- v)"
  using unat_of_int [of "- v"] by (auto simp: LLONG_abs_def int64_def)

section \<open>Printing is decimal\<close>

lemma int64_word: "int64 v \<Longrightarrow> 0 \<le> v \<Longrightarrow> unat (word_of_int v :: u64) = nat v"
  by (rule unat_of_int) (auto simp: int64_def)

lemma sdigits10_str: "int64 v \<Longrightarrow> sdigits10 v = length (str_int64 v)"
  by (simp add: sdigits10_def str_int64_def digits10_dec LLONG_abs_unat int64_word)

text \<open>
  C38: The optimised printer is decimal printing: in a buffer with room for the text and a final zero byte \<^verbatim>\<open>ll2string\<close> writes exactly the
  decimal text of the number, the smallest number included, and the zero byte, leaves the bytes behind as they are, and returns
  the length; in a smaller buffer it writes nothing and returns 0. \<^verbatim>\<open>sdigits10\<close> is that length.
\<close>

theorem ll2string_correct:
  assumes "int64 v"
  shows "sdigits10 v = length (str_int64 v) \<and>
    ll2string dst v =
      (if length (str_int64 v) < length dst
       then (length (str_int64 v), str_int64 v @ 0 # drop (Suc (length (str_int64 v))) dst)
       else (0, dst))"
proof (cases "length (str_int64 v) < length dst")
  case room: True
  let ?val = "if v < 0 then LLONG_abs v else word_of_int v"
  let ?d = "dec_digits (unat ?val)" and ?k = "b01 (v < 0)"
  have len: "digits10 ?val + ?k = length (str_int64 v)" "?d = dec_digits (nat \<bar>v\<bar>)"
    using assms by (auto simp: str_int64_def digits10_dec b01_def LLONG_abs_unat int64_word)
  then have n: "length (str_int64 v) = ?k + length ?d" by (simp add: digits10_dec)
  let ?n = "length (str_int64 v)"
  have pos: "length ?d > 0" by (simp add: dec_digits_facts)
  have dst: "dst[?n := 0] = take ?k dst @ take (length ?d) (drop ?k dst) @ 0 # drop (Suc ?n) dst"
    using room n by (simp add: upd_conv_take_nth_drop take_add [symmetric] add.commute)
  have "ll2string_loop (dst[?n := 0]) ?val (?n - 1) = take ?k dst @ ?d @ 0 # drop (Suc ?n) dst"
    unfolding dst using room n pos by (intro ll2string_loop_writes) auto
  moreover have "(take ?k dst @ ?d @ 0 # drop (Suc ?n) dst)[0 := 45] = str_int64 v @ 0 # drop (Suc ?n) dst" if "v < 0"
    using that room len(2) by (cases dst) (auto simp: b01_def str_int64_def)
  moreover have "take ?k dst @ ?d = str_int64 v" if "\<not> v < 0" using that len(2) by (simp add: b01_def str_int64_def)
  ultimately show ?thesis using assms room len(1) sdigits10_str [OF assms]
    by (auto simp: ll2string_def Let_def)
next
  case False
  then show ?thesis using assms sdigits10_str [OF assms]
    by (auto simp: ll2string_def Let_def str_int64_def digits10_dec b01_def LLONG_abs_unat int64_word)
qed

theorem ll2string_correct_witness:
  "ll2string (replicate 21 7) (- 9223372036854775808) = (20, ascii ''-9223372036854775808'' @ [0])"
proof -
  have "int64 (- 9223372036854775808)" by (simp add: int64_def)
  moreover have "str_int64 (- 9223372036854775808) = ascii ''-9223372036854775808''"
    by (simp add: str_int64_def dec_digits.simps ascii_def of_char_def)
  ultimately show ?thesis using ll2string_correct [of "- 9223372036854775808" "replicate 21 7"] by (simp add: ascii_def)
qed

section \<open>Escaping is undone\<close>

lemma hex_nibbles: "k < 16 \<Longrightarrow> hex_int (hex_digits ! k) = int k \<and> hex_digits ! k \<in> {32..126}"
proof -
  assume "k < 16"
  then have "k \<in> set [0..<16]" by simp
  then show ?thesis
    by (simp add: upt_conv_Cons hex_digits_def ascii_def of_char_def hex_int_def) (elim disjE; simp)
qed

lemma nibble_unat: "unat (drop_bit 4 (c :: byte)) = unat c div 16" "unat (c AND 15) = unat c mod 16"
proof -
  show "unat (drop_bit 4 c) = unat c div 16" by (simp add: drop_bit_eq_div unat_div)
  have "c AND 15 = take_bit 4 c" by (simp add: take_bit_eq_mask mask_eq_exp_minus_1)
  then show "unat (c AND 15) = unat c mod 16" by (simp add: take_bit_eq_mod unat_mod)
qed

lemma nibbles: "word_of_int (int (unat (drop_bit 4 c)) * 16 + int (unat (c AND 15))) = (c :: byte)"
proof -
  have "int (unat c div 16 * 16 + unat c mod 16) = uint c" by (simp only: div_mult_mod_eq) simp
  then have "int (unat c div 16) * 16 + int (unat c mod 16) = uint c" by (simp only: of_nat_add of_nat_mult of_nat_numeral)
  then show ?thesis by (simp only: nibble_unat) simp
qed

lemma nibble_bounds: "unat (drop_bit 4 (c :: byte)) < 16" "unat (c AND 15) < 16"
  using unsigned_less [where 'a = nat, of c] by (simp_all add: nibble_unat less_mult_imp_div_less)

lemma unescape_char: "str_unescape (escape_char c @ s) = c # str_unescape s"
  using hex_nibbles [OF nibble_bounds(1) [of c]] hex_nibbles [OF nibble_bounds(2) [of c]] nibbles [of c]
  by (auto simp: escape_char_def)

lemma escape_char_visible: "set (escape_char c) \<subseteq> {32..126}"
  using hex_nibbles [OF nibble_bounds(1) [of c]] hex_nibbles [OF nibble_bounds(2) [of c]]
  by (auto simp: escape_char_def word_le_nat_alt)

text \<open>
  C39: Escaped text is visible and loses nothing: \<^verbatim>\<open>str_escape\<close> produces only the characters from blank to tilde, whatever the bytes are, so
  that it fits in one line of a log or of an error reply, and \<^verbatim>\<open>str_unescape\<close> gives the bytes back.
\<close>

theorem escape_correct: "str_unescape (str_escape s) = s \<and> set (str_escape s) \<subseteq> {32..126}"
proof (induction s)
  case (Cons c s)
  then show ?case using escape_char_visible [of c] by (simp add: str_escape_def unescape_char)
qed (simp add: str_escape_def)

section \<open>Requests\<close>

lemma RestoreRequest_enc: "RestoreRequest req = enc (RArray (map RString req))"
  by (simp add: RestoreRequest_def str_int64_def comp_def)

text \<open>The text of a request is an array of strings; it determines the request.\<close>

lemma RestoreRequest_inj: "RestoreRequest a @ x = RestoreRequest b @ y \<Longrightarrow> a = b \<and> x = y"
proof -
  assume "RestoreRequest a @ x = RestoreRequest b @ y"
  moreover have "wf_reply (RArray (map RString a))" "wf_reply (RArray (map RString b))" by auto
  ultimately have "RArray (map RString a) = RArray (map RString b) \<and> x = y"
    unfolding RestoreRequest_enc using enc_unambiguous by blast
  then show ?thesis by (simp add: inj_map_eq_map inj_def)
qed

lemma serialize_line: "13 \<notin> set (serialize_from req i xs)"
proof (induction req i xs rule: serialize_from.induct)
  case (2 req i x rest)
  have "13 \<notin> set (hexmem x)" "13 \<notin> set (fmt_size n)" for n
    using escape_correct [of x] by (auto simp: hexmem_def fmt_size_def str_int64_facts)
  with 2 show ?case by (auto simp: ascii_line)
qed simp

end
