(* ===== verification/ProcHash.thy ===== *)
theory ProcHash
  imports Reply THash
begin

text \<open>
  The handlers of the commands on hashes (\<^verbatim>\<open>src/src/proc/proc_hash.cpp\<close>). A handler gets the request, a vector of byte
  strings with the name of the command first, checks it, calls the storage operation and appends the reply. The
  main result puts all of them together: what a client sends and reads is what the command promises of a map.
\<close>

section \<open>Handlers\<close>

definition proc_hexists :: "('db, 'it) rocksdb \<Rightarrow> 'db ssdb \<Rightarrow> bytes list \<Rightarrow> Response \<Rightarrow> Response" where
  "proc_hexists R s req resp =
     (if length req < 3 then wrong_params resp
      else (case hget R s (req ! 1) (req ! 2) ([], False) of (ret, val) \<Rightarrow>
        if ret < 0 then addReplyErrorCode ret resp
        else if ret = 0 then addReplyInt 0 resp
        else if snd val then addReplyInt 1 resp else addReplyInt 0 resp))"

text \<open>The loop over the pairs of a request; the number of arguments is even.\<close>

fun collect_kvs :: "bytes list \<Rightarrow> (bytes \<times> bytes) list \<Rightarrow> (bytes \<times> bytes) list" where
  "collect_kvs (key # val # rest) kvs = collect_kvs rest (map_put key val kvs)"
| "collect_kvs _ kvs = kvs"

definition proc_hmset :: "('db, 'it) rocksdb \<Rightarrow> 'db ssdb \<Rightarrow> bytes list \<Rightarrow> Response \<Rightarrow> Response \<times> 'db ssdb" where
  "proc_hmset R s req resp =
     (if length req < 4 \<or> odd (length req) then
        (addReplyError (ascii (''ERR wrong number of arguments for '' @ CHR 0x27 # ''hmset'' @ CHR 0x27 # '' command'')) resp, s)
      else (case hmset R s (req ! 1) (collect_kvs (drop 2 req) []) of (ret, s) \<Rightarrow>
        if ret < 0 then (addReplyErrorCode ret resp, s) else (addReplyStatusOK resp, s)))"

definition proc_hdel :: "('db, 'it) rocksdb \<Rightarrow> 'db ssdb \<Rightarrow> bytes list \<Rightarrow> Response \<Rightarrow> Response \<times> 'db ssdb" where
  "proc_hdel R s req resp =
     (if length req < 3 then (wrong_params resp, s)
      else (case hdel R s (req ! 1) (fold set_put (drop 2 req) []) 0 of (ret, deleted, s) \<Rightarrow>
        if ret < 0 then (addReplyErrorCode ret resp, s) else (addReplyInt deleted resp, s)))"

definition proc_hmget :: "('db, 'it) rocksdb \<Rightarrow> 'db ssdb \<Rightarrow> bytes list \<Rightarrow> Response \<Rightarrow> Response" where
  "proc_hmget R s req resp =
     (if length req < 3 then wrong_params resp
      else
        let reqKeys = drop 2 req in
        (case hmget R s (req ! 1) reqKeys Map.empty of (ret, resMap) \<Rightarrow>
           if ret < 0 then addReplyErrorCode ret resp
           else fold (\<lambda>reqKey resp. case resMap reqKey of None \<Rightarrow> addReplyNil resp | Some v \<Rightarrow> addReplyString v resp)
                  reqKeys (addReplyListHead (length reqKeys) resp)))"

definition proc_hlen :: "('db, 'it) rocksdb \<Rightarrow> 'db ssdb \<Rightarrow> bytes list \<Rightarrow> Response \<Rightarrow> Response" where
  "proc_hlen R s req resp =
     (if length req < 2 then wrong_params resp
      else (case hsize R s (req ! 1) 0 of (ret, sz) \<Rightarrow>
        if ret < 0 then addReplyErrorCode ret resp else addReplyInt_u64 sz resp))"

definition reply_added :: "int \<times> int \<times> 'db ssdb \<Rightarrow> Response \<Rightarrow> Response \<times> 'db ssdb" where
  "reply_added r resp =
     (case r of (ret, added, s) \<Rightarrow>
        if ret < 0 then (addReplyErrorCode ret resp, s)
        else if ret = 0 then (addReplyInt 0 resp, s) else (addReplyInt added resp, s))"

definition proc_hset :: "('db, 'it) rocksdb \<Rightarrow> 'db ssdb \<Rightarrow> bytes list \<Rightarrow> Response \<Rightarrow> Response \<times> 'db ssdb" where
  "proc_hset R s req resp =
     (if length req < 4 then (wrong_params resp, s)
      else reply_added (hset R s (req ! 1) (req ! 2) (req ! 3) 0) resp)"

definition proc_hsetnx :: "('db, 'it) rocksdb \<Rightarrow> 'db ssdb \<Rightarrow> bytes list \<Rightarrow> Response \<Rightarrow> Response \<times> 'db ssdb" where
  "proc_hsetnx R s req resp =
     (if length req < 4 then (wrong_params resp, s)
      else reply_added (hsetnx R s (req ! 1) (req ! 2) (req ! 3) 0) resp)"

definition proc_hget :: "('db, 'it) rocksdb \<Rightarrow> 'db ssdb \<Rightarrow> bytes list \<Rightarrow> Response \<Rightarrow> Response" where
  "proc_hget R s req resp =
     (if length req < 3 then wrong_params resp
      else (case hget R s (req ! 1) (req ! 2) ([], False) of (ret, val) \<Rightarrow>
        if ret < 0 then addReplyErrorCode ret resp
        else if snd val then addReplyString (fst val) resp else addReplyNil resp))"

text \<open>\<^verbatim>\<open>proc_hgetall\<close>, \<^verbatim>\<open>proc_hkeys\<close> and \<^verbatim>\<open>proc_hvals\<close> differ in what they ask \<^verbatim>\<open>hgetall\<close> to save.\<close>

definition hgetall_reply :: "bool \<Rightarrow> bool \<Rightarrow> ('db, 'it) rocksdb \<Rightarrow> 'db ssdb \<Rightarrow> bytes list \<Rightarrow> Response \<Rightarrow> Response" where
  "hgetall_reply save_key save_value R s req resp =
     (if length req < 2 then wrong_params resp
      else (case hgetall R s (req ! 1) save_key save_value of (ret, list) \<Rightarrow>
        if ret < 0 then addReplyErrorCode ret resp
        else if ret = 0 then addReplyListEmpty resp
        else convertReplyToList (resp\<lparr>resp_arr := resp_arr resp @ list\<rparr>)))"

definition proc_hgetall :: "('db, 'it) rocksdb \<Rightarrow> 'db ssdb \<Rightarrow> bytes list \<Rightarrow> Response \<Rightarrow> Response" where
  "proc_hgetall = hgetall_reply True True"

definition proc_hkeys :: "('db, 'it) rocksdb \<Rightarrow> 'db ssdb \<Rightarrow> bytes list \<Rightarrow> Response \<Rightarrow> Response" where
  "proc_hkeys = hgetall_reply True False"

definition proc_hvals :: "('db, 'it) rocksdb \<Rightarrow> 'db ssdb \<Rightarrow> bytes list \<Rightarrow> Response \<Rightarrow> Response" where
  "proc_hvals = hgetall_reply False True"

definition proc_hincrby :: "('db, 'it) rocksdb \<Rightarrow> 'db ssdb \<Rightarrow> bytes list \<Rightarrow> Response \<Rightarrow> Response \<times> 'db ssdb" where
  "proc_hincrby R s req resp =
     (if length req < 4 then (wrong_params resp, s)
      else (case Bytes_Int64 (req ! 3) of (n, einval) \<Rightarrow>
        if einval then (addReplyErrorCode INVALID_INT resp, s)
        else (case hincr R s (req ! 1) (req ! 2) n 0 of (ret, new_val, s) \<Rightarrow>
          if ret < 0 then (addReplyErrorCode ret resp, s) else (addReplyInt new_val resp, s))))"

section \<open>What a client asks and is told\<close>

datatype hash_cmd =
  HEXISTS bytes | HMSET "(bytes \<times> bytes) list" | HDEL "bytes list" | HMGET "bytes list" | HLEN
| HSET bytes bytes | HSETNX bytes bytes | HGET bytes | HGETALL | HKEYS | HVALS | HINCRBY bytes bytes

text \<open>The request of a command and the handler it is given to.\<close>

fun hash_run :: "('db, 'it) rocksdb \<Rightarrow> 'db ssdb \<Rightarrow> bytes \<Rightarrow> hash_cmd \<Rightarrow> Response \<Rightarrow> Response \<times> 'db ssdb" where
  "hash_run R s key (HEXISTS f) resp = (proc_hexists R s [ascii ''hexists'', key, f] resp, s)"
| "hash_run R s key (HMSET kvs) resp = proc_hmset R s (ascii ''hmset'' # key # concat (map (\<lambda>(f, x). [f, x]) kvs)) resp"
| "hash_run R s key (HDEL fs) resp = proc_hdel R s (ascii ''hdel'' # key # fs) resp"
| "hash_run R s key (HMGET fs) resp = (proc_hmget R s (ascii ''hmget'' # key # fs) resp, s)"
| "hash_run R s key HLEN resp = (proc_hlen R s [ascii ''hlen'', key] resp, s)"
| "hash_run R s key (HSET f x) resp = proc_hset R s [ascii ''hset'', key, f, x] resp"
| "hash_run R s key (HSETNX f x) resp = proc_hsetnx R s [ascii ''hsetnx'', key, f, x] resp"
| "hash_run R s key (HGET f) resp = (proc_hget R s [ascii ''hget'', key, f] resp, s)"
| "hash_run R s key HGETALL resp = (proc_hgetall R s [ascii ''hgetall'', key] resp, s)"
| "hash_run R s key HKEYS resp = (proc_hkeys R s [ascii ''hkeys'', key] resp, s)"
| "hash_run R s key HVALS resp = (proc_hvals R s [ascii ''hvals'', key] resp, s)"
| "hash_run R s key (HINCRBY f t) resp = proc_hincrby R s [ascii ''hincrby'', key, f, t] resp"

text \<open>The reply a command promises on a map, and the map afterwards.\<close>

definition hash_number :: "contents \<Rightarrow> bytes \<Rightarrow> int option" where
  "hash_number h f = (case h f of None \<Rightarrow> Some 0 | Some x \<Rightarrow> string2ll x)"

fun hash_spec :: "hash_cmd \<Rightarrow> contents \<Rightarrow> reply \<times> contents" where
  "hash_spec (HEXISTS f) h = (RInt (if h f = None then 0 else 1), h)"
| "hash_spec (HMSET kvs) h = (RStatus (ascii ''OK''), h ++ map_of (rev kvs))"
| "hash_spec (HDEL fs) h = (RInt (int (card (set fs \<inter> dom h))), h |` (- set fs))"
| "hash_spec (HMGET fs) h = (RArray (map (\<lambda>f. case h f of None \<Rightarrow> RNil | Some x \<Rightarrow> RString x) fs), h)"
| "hash_spec HLEN h = (RInt (int (card (dom h))), h)"
| "hash_spec (HSET f x) h = (RInt (if h f = None then 1 else 0), h(f \<mapsto> x))"
| "hash_spec (HSETNX f x) h = (if h f = None then (RInt 1, h(f \<mapsto> x)) else (RInt 0, h))"
| "hash_spec (HGET f) h = (case h f of None \<Rightarrow> RNil | Some x \<Rightarrow> RString x, h)"
| "hash_spec HGETALL h = (RArray (concat (map (\<lambda>(f, x). [RString f, RString x]) (sorted_entries h))), h)"
| "hash_spec HKEYS h = (RArray (map (\<lambda>(f, x). RString f) (sorted_entries h)), h)"
| "hash_spec HVALS h = (RArray (map (\<lambda>(f, x). RString x) (sorted_entries h)), h)"
| "hash_spec (HINCRBY f t) h =
     (if snd (Bytes_Int64 t) then (RError (GetErrorInfo INVALID_INT), h)
      else (case hash_number h f of
        None \<Rightarrow> (RError (GetErrorInfo INVALID_INT), h)
      | Some n \<Rightarrow>
          if \<not> int64 (n + fst (Bytes_Int64 t)) then (RError (GetErrorInfo INT_OVERFLOW), h)
          else (RInt (n + fst (Bytes_Int64 t)), h(f \<mapsto> str_int64 (n + fst (Bytes_Int64 t))))))"

text \<open>The sizes that the 32-bit lengths of replies and the 63-bit counters can hold; commands with a list name at least one.\<close>

fun hash_cmd_ok :: "hash_cmd \<Rightarrow> contents \<Rightarrow> bool" where
  "hash_cmd_ok (HMSET kvs) h \<longleftrightarrow> kvs \<noteq> [] \<and> card (dom h) + length kvs < 2 ^ 63"
| "hash_cmd_ok (HDEL fs) h \<longleftrightarrow> fs \<noteq> []"
| "hash_cmd_ok (HMGET fs) h \<longleftrightarrow> fs \<noteq> [] \<and> length fs < 2 ^ 31"
| "hash_cmd_ok _ h \<longleftrightarrow> True"

definition hash_small :: "contents \<Rightarrow> bool" where
  "hash_small h \<longleftrightarrow> card (dom h) < 2 ^ 30 \<and> (\<forall>f x. h f = Some x \<longrightarrow> length f < 2 ^ 31 \<and> length x < 2 ^ 31)"

section \<open>Correctness\<close>

lemma collect_kvs_map:
  assumes "sorted_wrt (<) (map fst m)"
  shows "sorted_wrt (<) (map fst (collect_kvs (concat (map (\<lambda>(f, x). [f, x]) kvs)) m)) \<and>
    map_of (collect_kvs (concat (map (\<lambda>(f, x). [f, x]) kvs)) m) = map_of m ++ map_of (rev kvs) \<and>
    length (collect_kvs (concat (map (\<lambda>(f, x). [f, x]) kvs)) m) \<le> length m + length kvs"
  using assms
proof (induction kvs arbitrary: m)
  case (Cons kv kvs)
  obtain f x where kv: "kv = (f, x)" by force
  have len: "length (map_put f x m) \<le> Suc (length m)" by (induction m) auto
  note p = map_put_props [OF Cons.prems, of f x]
  let ?l = "collect_kvs (concat (map (\<lambda>(f, x). [f, x]) kvs)) (map_put f x m)"
  have m: "map_of (map_put f x m) ++ map_of (rev kvs) = map_of m ++ map_of (rev (kv # kvs))"
    using p by (simp add: kv fun_eq_iff map_add_def split: option.splits)
  have l: "collect_kvs (concat (map (\<lambda>(f, x). [f, x]) (kv # kvs))) m = ?l" by (simp add: kv)
  note IH = Cons.IH [OF conjunct1 [OF p]]
  have "length ?l \<le> length m + length (kv # kvs)" using IH len by simp
  with IH show ?case unfolding l m [symmetric] by blast
qed simp

lemma fold_set_put: "sorted_wrt (<) m \<Longrightarrow> sorted_wrt (<) (fold set_put xs m) \<and> set (fold set_put xs m) = set xs \<union> set m"
  by (induction xs arbitrary: m) (auto simp: set_put_props)

lemma strict_keys_distinct: "sorted_wrt (<) (xs :: bytes list) \<Longrightarrow> distinct xs"
  by (simp add: strict_sorted_iff)

lemma hmget_replies:
  assumes "\<forall>f x. m f = Some x \<longrightarrow> length x < 2 ^ 31"
  shows "reply_output (fold (\<lambda>k resp. case m k of None \<Rightarrow> addReplyNil resp | Some v \<Rightarrow> addReplyString v resp) ks resp) =
    reply_output resp @ concat (map (\<lambda>k. enc (case m k of None \<Rightarrow> RNil | Some x \<Rightarrow> RString x)) ks)"
proof (induction ks arbitrary: resp)
  case (Cons k ks)
  then show ?case using assms by (cases "m k") auto
qed simp

lemma touches_only_refl: "touches_only key m m"
  by (simp add: touches_only_def)

lemma hash_small_texts:
  assumes "hash_small h" "finite (dom h)"
  shows "small_texts (concat (map (\<lambda>(f, x). (if sk then [f] else []) @ (if sv then [x] else [])) (sorted_entries h)))"
proof -
  let ?l = "concat (map (\<lambda>(f, x). (if sk then [f] else []) @ (if sv then [x] else [])) (sorted_entries h))"
  have "length (concat (map (\<lambda>(f, x). (if sk then [f] else []) @ (if sv then [x] else [])) es)) \<le> 2 * length es"
    for es :: "(bytes \<times> bytes) list" by (induction es) auto
  from this [of "sorted_entries h"] have "length ?l \<le> 2 * card (dom h)" by (simp add: sorted_entries_def)
  moreover have "card (dom h) < 2 ^ 30" using assms(1) by (simp add: hash_small_def)
  ultimately have "length ?l < 2 ^ 31" by simp
  moreover have "\<forall>x \<in> set ?l. length x < 2 ^ 31"
    using assms by (auto simp: set_sorted_entries hash_small_def split: if_splits)
  ultimately show ?thesis by (simp only: small_texts_def)
qed

context rocksdb_iter
begin

lemma hash_run_read:
  assumes rep: "hash_rep (view (ldb s)) key h" and small: "hash_small h" and resp: "resp_arr resp = []"
    and long: "long_enough key" "card (dom (view (ldb s))) < 2 ^ 64"
  shows "reply_output (proc_hexists R s [c, key, f] resp) = reply_output resp @ enc (fst (hash_spec (HEXISTS f) h))"
    "reply_output (proc_hget R s [c, key, f] resp) = reply_output resp @ enc (fst (hash_spec (HGET f) h))"
    "reply_output (proc_hlen R s [c, key] resp) = reply_output resp @ enc (fst (hash_spec HLEN h))"
    "fs \<noteq> [] \<Longrightarrow> length fs < 2 ^ 31 \<Longrightarrow>
       reply_output (proc_hmget R s (c # key # fs) resp) = reply_output resp @ enc (fst (hash_spec (HMGET fs) h))"
    "reply_output (hgetall_reply sk sv R s [c, key] resp) =
       reply_output resp @ enc (RArray (map RString (concat (map (\<lambda>(f, x). (if sk then [f] else []) @ (if sv then [x] else [])) (sorted_entries h)))))"
proof -
  have fin: "finite (dom h)" and card: "card (dom h) < 2 ^ 63"
    using rep by (auto simp: coll_rep_def coll_at_def)
  have x: "h f = Some x \<Longrightarrow> length x < 2 ^ 31" for f x using small by (simp add: hash_small_def)
  show "reply_output (proc_hexists R s [c, key, f] resp) = reply_output resp @ enc (fst (hash_spec (HEXISTS f) h))"
    using hget_rep [OF rep, of f] by (auto simp: proc_hexists_def split: option.splits)
  show "reply_output (proc_hget R s [c, key, f] resp) = reply_output resp @ enc (fst (hash_spec (HGET f) h))"
    using hget_rep [OF rep, of f] x [of f] by (auto simp: proc_hget_def split: option.splits)
  show "reply_output (proc_hlen R s [c, key] resp) = reply_output resp @ enc (fst (hash_spec HLEN h))"
    using hsize_rep [OF rep] card by (simp add: proc_hlen_def uint_nat unat_of_nat)
  show "reply_output (proc_hmget R s (c # key # fs) resp) = reply_output resp @ enc (fst (hash_spec (HMGET fs) h))"
    if "fs \<noteq> []" "length fs < 2 ^ 31"
  proof -
    have "\<forall>f y. (h |` set fs) f = Some y \<longrightarrow> length y < 2 ^ 31" using x by (simp add: restrict_map_def)
    note m = hmget_replies [OF this]
    have "\<not> length (c # key # fs) < 3" using that(1) by (cases fs) auto
    then show ?thesis using that hmget_rep [OF rep, of fs]
      by (simp add: proc_hmget_def Let_def m list_head_output comp_def cong: map_cong)
  qed
  show "reply_output (hgetall_reply sk sv R s [c, key] resp) =
       reply_output resp @ enc (RArray (map RString (concat (map (\<lambda>(f, x). (if sk then [f] else []) @ (if sv then [x] else [])) (sorted_entries h)))))"
    using hgetall_rep [OF rep long, of sk sv] hash_small_texts [OF small fin, of sk sv] resp
    by (simp add: hgetall_reply_def sorted_entries_def)
qed

lemma hash_run_write:
  assumes rep: "hash_rep (view (ldb s)) key h" "h = Map.empty \<longrightarrow> fresh (view (ldb s)) key" and small: "hash_small h"
    and cmd: "cmd \<in> {HSET f x, HSETNX f x, HMSET kvs, HDEL fs, HINCRBY f t}" "hash_cmd_ok cmd h"
  shows "\<exists>resp' s'. hash_run R s key cmd resp = (resp', s') \<and>
    reply_output resp' = reply_output resp @ enc (fst (hash_spec cmd h)) \<and>
    hash_rep (view (ldb s')) key (snd (hash_spec cmd h)) \<and> touches_only key (view (ldb s)) (view (ldb s'))"
proof -
  have len: "Suc (card (dom h)) < 2 ^ 63" using small by (simp add: hash_small_def)
  from cmd(1) consider "cmd = HSET f x" | "cmd = HSETNX f x" | "cmd = HMSET kvs" | "cmd = HDEL fs" | "cmd = HINCRBY f t" by auto
  then show ?thesis
  proof cases
    case 1
    then show ?thesis using hset_rep [OF rep len, of False f x 0] 
      by (auto simp: proc_hset_def hset_def reply_added_def domIff)
  next
    case 2
    show ?thesis
    proof (cases "h f")
      case None
      then have "f \<notin> dom h" by auto
      with None show ?thesis using 2 hset_rep [OF rep len, of True f x 0]
        by (auto simp: proc_hsetnx_def hsetnx_def reply_added_def)
    next
      case (Some y)
      then have "hsetnx R s key f x 0 = (1, 0, s)" using hsetnx_existing [OF rep(1)] by (simp add: hsetnx_def domIff)
      with Some 2 show ?thesis using rep(1) touches_only_refl by (simp add: proc_hsetnx_def reply_added_def)
    qed
  next
    case 3
    let ?kvs = "collect_kvs (concat (map (\<lambda>(f, x). [f, x]) kvs)) []"
    have k: "distinct (map fst ?kvs)" "map_of ?kvs = map_of (rev kvs)" "length ?kvs \<le> length kvs"
      using collect_kvs_map [of "[]" kvs] by (auto intro: strict_keys_distinct)
    have "length (concat (map (\<lambda>(f, x). [f, x]) kvs)) = 2 * length kvs" for kvs :: "(bytes \<times> bytes) list"
      by (induction kvs) auto
    moreover have "length kvs > 0" "card (dom h) + length ?kvs < 2 ^ 63" using cmd(2) 3 k(3) by auto
    ultimately show ?thesis using 3 hmset_rep [OF rep k(1)] by (auto simp: proc_hmset_def k(2) split: if_splits)
  next
    case 4
    let ?fs = "fold set_put fs []"
    have "distinct ?fs" "set ?fs = set fs" using fold_set_put [of "[]" fs] by (auto intro: strict_keys_distinct)
    moreover have "fs \<noteq> []" using cmd(2) 4 by simp
    moreover have "touches_only key (view (ldb s)) (view (ldb s))" by (rule touches_only_refl)
    ultimately show ?thesis using 4 hdel_rep [OF rep(1), of ?fs] rep(1)
      by (cases fs) (auto simp: proc_hdel_def split: if_splits)
  next
    case 5
    obtain n e where n: "Bytes_Int64 t = (n, e)" "int64 n" using Bytes_Int64_range [of t] by (cases "Bytes_Int64 t") auto
    have err: "INVALID_INT < 0" "INT_OVERFLOW < 0" by (simp_all add: INVALID_INT_def INT_OVERFLOW_def)
    show ?thesis
      using 5 n(1) hincr_rep [OF rep len n(2), of f 0] err rep(1) touches_only_refl [of key "view (ldb s)"]
      by (auto simp: proc_hincrby_def hash_number_def split: option.splits if_splits)
  qed
qed

end

lemma hash_spec_wf: "wf_reply (fst (hash_spec cmd h))"
  by (cases cmd) (auto simp: GetErrorInfo_line ascii_line split: option.splits)

definition hash_pre :: "('db \<Rightarrow> contents) \<Rightarrow> bytes \<Rightarrow> 'db ssdb \<Rightarrow> contents \<Rightarrow> hash_cmd \<Rightarrow> bool" where
  "hash_pre view key s h cmd \<longleftrightarrow> hash_rep (view (ldb s)) key h \<and> (h = Map.empty \<longrightarrow> fresh (view (ldb s)) key) \<and>
     long_enough key \<and> card (dom (view (ldb s))) < 2 ^ 64 \<and> hash_small h \<and> hash_cmd_ok cmd h"

definition hash_post :: "('db \<Rightarrow> contents) \<Rightarrow> bytes \<Rightarrow> 'db ssdb \<Rightarrow> 'db ssdb \<Rightarrow> contents \<Rightarrow> bool" where
  "hash_post view key s s' h \<longleftrightarrow> hash_rep (view (ldb s')) key h \<and> touches_only key (view (ldb s)) (view (ldb s'))"

sublocale rocksdb_iter \<subseteq> hcmd: commands "\<lambda>s. hash_run R s key" hash_spec "hash_pre view key" "hash_post view key" for key
proof (unfold_locales, goal_cases)
  case (1 s h cmd resp)
  then have pre: "hash_rep (view (ldb s)) key h" "h = Map.empty \<longrightarrow> fresh (view (ldb s)) key" "hash_small h" "resp_arr resp = []"
    "long_enough key" "card (dom (view (ldb s))) < 2 ^ 64" "hash_cmd_ok cmd h" by (simp_all add: hash_pre_def)
  note w = hash_run_write [OF pre(1-3)] and r = hash_run_read [OF pre(1,3-6)]
  have pairs: "map RString (concat (map (\<lambda>(f, x). [f, x]) es)) = concat (map (\<lambda>(f, x). [RString f, RString x]) es)"
    "map RString (concat (map (\<lambda>(f, x). [f]) es)) = map (\<lambda>(f, x). RString f) es"
    "map RString (concat (map (\<lambda>(f, x). [x]) es)) = map (\<lambda>(f, x). RString x) es" for es :: "(bytes \<times> bytes) list"
    by (induction es) auto
  show ?case
    unfolding hash_post_def using pre(1,7)
    by (cases cmd)
      (auto simp: r touches_only_refl proc_hgetall_def proc_hkeys_def proc_hvals_def pairs
        simp del: hash_run.simps(2,3,6,7,12) hash_spec.simps(2,3,6,7,12) enc.simps intro!: w)
next
  case (2 cmd h)
  show ?case by (rule hash_spec_wf)
qed

context rocksdb_iter
begin

lemmas hash_client_reads = hcmd.client_reads

end

text \<open>
  C2: The commands on hashes keep their promise to the client: for each of HSET, HSETNX, HMSET, HDEL, HINCRBY, HGET,
  HMGET, HEXISTS, HLEN, HGETALL, HKEYS and HVALS, on a key that holds a hash (or nothing), the bytes the server appends are the text of
  the one reply the command promises on the abstract map, with the errors of HINCRBY included; this text determines the reply.
  Afterwards the key holds the map the command promises and nothing else has changed.
\<close>

theorem hash_commands_correct:
  assumes "rocksdb_iter R view fwd" "hash_rep (view (ldb s)) key h" "h = Map.empty \<longrightarrow> fresh (view (ldb s)) key"
    and "long_enough key" "card (dom (view (ldb s))) < 2 ^ 64" "hash_small h" "hash_cmd_ok cmd h" "resp_arr resp = []"
  shows "\<exists>resp' s'. hash_run R s key cmd resp = (resp', s') \<and>
    reply_output resp' = reply_output resp @ enc (fst (hash_spec cmd h)) \<and>
    (\<forall>r x. wf_reply r \<and> reply_output resp' = reply_output resp @ enc r @ x \<longrightarrow> r = fst (hash_spec cmd h) \<and> x = []) \<and>
    hash_rep (view (ldb s')) key (snd (hash_spec cmd h)) \<and> touches_only key (view (ldb s)) (view (ldb s'))"
  using rocksdb_iter.hash_client_reads [OF assms(1), of key s h cmd resp] assms(2-) unfolding hash_pre_def hash_post_def by blast

theorem hash_commands_correct_witness:
  "\<exists>resp' s'. hash_run mem_rocksdb hash_example [104] (HINCRBY [102] [53]) \<lparr>reply_output = [], reply_status = 0, resp_arr = []\<rparr> = (resp', s') \<and>
    reply_output resp' = [58, 49, 50, 13, 10] \<and> hash_rep (map_of (ldb s')) [104] (hash_example_map([102] \<mapsto> [49, 50]))"
proof -
  have "Bytes_Int64 [53] = (5, False)" "string2ll [55] = Some 7" "str_int64 12 = [49, 50]" by code_simp+
  then have spec: "hash_spec (HINCRBY [102] [53]) hash_example_map = (RInt 12, hash_example_map([102] \<mapsto> [49, 50]))"
    "enc (RInt 12) = [58, 49, 50, 13, 10]"
    using hash_example_map by (simp_all add: hash_number_def int64_def)
  have "card (dom (map_of (ldb hash_example))) \<le> 3"
    using card_image_le [of "set (ldb hash_example)" fst] card_length [of "ldb hash_example"]
    by (simp add: dom_map_of_conv_image_fst hash_example_def)
  moreover have "hash_small hash_example_map"
    using hash_example_map by (auto simp: hash_small_def hash_example_map_def split: if_splits)
  ultimately show ?thesis
    using hash_commands_correct [OF mem.rocksdb_iter_axioms hash_example_rep, of "HINCRBY [102] [53]"
        "\<lparr>reply_output = [], reply_status = 0, resp_arr = []\<rparr>"] hash_example_map spec
    by fastforce
qed

text \<open>
  A number that does not fit is cut to the nearest one that does and used: \<^verbatim>\<open>str_to_int64\<close> clears \<^verbatim>\<open>errno\<close> when the whole text
  is digits, and nothing else reports the overflow.
\<close>

lemma hincrby_saturates: "Bytes_Int64 (replicate 20 57) = (INT64_MAX, False)"
proof -
  have r: "replicate 20 (57 :: byte) = [57, 57, 57, 57, 57, 57, 57, 57, 57, 57, 57, 57, 57, 57, 57, 57, 57, 57, 57, 57]"
    by (simp add: numeral_eq_Suc)
  have "dval 0 (replicate 20 (57 :: byte)) = 99999999999999999999" unfolding r by simp
  moreover have "takeWhile digit (replicate 20 57) = replicate 20 57" "\<not> is_space 57"
    by (auto simp: digit_def is_space_def takeWhile_eq_all_conv)
  moreover have "replicate 20 (57 :: byte) = 57 # replicate 19 57" by (simp add: numeral_eq_Suc)
  ultimately show ?thesis
    by (simp add: Bytes_Int64_def str_to_int64_def strtoll_def strtoll_overflow_def Let_def)
qed

end
