(* ===== verification/ProcSet.thy ===== *)
theory ProcSet
  imports ProcHash TSet TList
begin

text \<open>
  The handlers of the commands on sets and lists (\<^verbatim>\<open>src/src/proc/proc_set.cpp\<close>, \<^verbatim>\<open>src/src/proc/proc_list.cpp\<close>) and what they promise
  to a client.
\<close>

section \<open>Sets\<close>

definition proc_sadd :: "('db, 'it) rocksdb \<Rightarrow> 'db ssdb \<Rightarrow> bytes list \<Rightarrow> Response \<Rightarrow> Response \<times> 'db ssdb" where
  "proc_sadd R s req resp =
     (if length req < 3 then (wrong_params resp, s)
      else (case sadd R s (req ! 1) (fold set_put (drop 2 req) []) 0 of (ret, num, s) \<Rightarrow>
        if ret < 0 then (addReplyErrorCode ret resp, s) else (addReplyInt num resp, s)))"

text \<open>\<^verbatim>\<open>srem\<close> gets the whole request and skips its first two elements.\<close>

definition proc_srem :: "('db, 'it) rocksdb \<Rightarrow> 'db ssdb \<Rightarrow> bytes list \<Rightarrow> Response \<Rightarrow> Response \<times> 'db ssdb" where
  "proc_srem R s req resp =
     (if length req < 3 then (wrong_params resp, s)
      else (case srem R s (req ! 1) req of (ret, num, s) \<Rightarrow>
        if ret < 0 then (addReplyErrorCode ret resp, s) else (addReplyInt num resp, s)))"

definition proc_scard :: "('db, 'it) rocksdb \<Rightarrow> 'db ssdb \<Rightarrow> bytes list \<Rightarrow> Response \<Rightarrow> Response" where
  "proc_scard R s req resp =
     (if length req < 2 then wrong_params resp
      else (case scard R s (req ! 1) of (ret, len) \<Rightarrow>
        if ret < 0 then addReplyErrorCode ret resp else addReplyInt_u64 len resp))"

definition proc_sismember :: "('db, 'it) rocksdb \<Rightarrow> 'db ssdb \<Rightarrow> bytes list \<Rightarrow> Response \<Rightarrow> Response" where
  "proc_sismember R s req resp =
     (if length req < 3 then wrong_params resp
      else (case sismember R s (req ! 1) (req ! 2) False of (ret, ismember) \<Rightarrow>
        if ret < 0 then addReplyErrorCode ret resp
        else if ret = 0 then addReplyInt 0 resp
        else addReplyInt (if ismember then 1 else 0) resp))"

definition proc_smembers :: "('db, 'it) rocksdb \<Rightarrow> 'db ssdb \<Rightarrow> bytes list \<Rightarrow> Response \<Rightarrow> Response" where
  "proc_smembers R s req resp =
     (if length req < 2 then wrong_params resp
      else (case smembers R s (req ! 1) of (ret, members) \<Rightarrow>
        if ret < 0 then addReplyErrorCode ret (resp\<lparr>resp_arr := []\<rparr>)
        else convertReplyToList (resp\<lparr>resp_arr := resp_arr resp @ members\<rparr>)))"

text \<open>The optional count of \<^verbatim>\<open>SPOP\<close> and \<^verbatim>\<open>SRANDMEMBER\<close>.\<close>

definition count_arg :: "bytes list \<Rightarrow> int \<times> bool" where
  "count_arg req = (if length req > 2 then Bytes_Int64 (req ! 2) else (1, False))"

definition proc_spop :: "('db, 'it) rocksdb \<Rightarrow> nat \<Rightarrow> 'db ssdb \<Rightarrow> bytes list \<Rightarrow> Response \<Rightarrow> Response \<times> 'db ssdb" where
  "proc_spop R rnd s req resp =
     (if length req < 2 then (wrong_params resp, s)
      else (case count_arg req of (pop_count, einval) \<Rightarrow>
        if einval then (addReplyErrorCode INVALID_INT resp, s)
        else (case spop R rnd s (req ! 1) pop_count of (ret, members, s) \<Rightarrow>
          if ret < 0 then (addReplyErrorCode ret (resp\<lparr>resp_arr := resp_arr resp @ members\<rparr>), s)
          else (convertReplyToList (resp\<lparr>resp_arr := resp_arr resp @ members\<rparr>), s))))"

definition proc_srandmember :: "('db, 'it) rocksdb \<Rightarrow> nat \<Rightarrow> 'db ssdb \<Rightarrow> bytes list \<Rightarrow> Response \<Rightarrow> Response" where
  "proc_srandmember R rnd s req resp =
     (if length req < 2 then wrong_params resp
      else (case count_arg req of (cnt, einval) \<Rightarrow>
        if einval then addReplyErrorCode INVALID_INT resp
        else (case srandmember R rnd s (req ! 1) cnt of (ret, members) \<Rightarrow>
          if ret < 0 then addReplyErrorCode ret (resp\<lparr>resp_arr := []\<rparr>)
          else convertReplyToList (resp\<lparr>resp_arr := resp_arr resp @ members\<rparr>))))"

section \<open>Lists\<close>

definition proc_llen :: "('db, 'it) rocksdb \<Rightarrow> 'db ssdb \<Rightarrow> bytes list \<Rightarrow> Response \<Rightarrow> Response" where
  "proc_llen R s req resp =
     (if length req < 2 then wrong_params resp
      else (case LLen R s (req ! 1) of (ret, len) \<Rightarrow>
        if ret < 0 then addReplyErrorCode ret resp else addReplyInt_u64 len resp))"

text \<open>The four push handlers differ in the operation they call.\<close>

definition push_reply ::
  "('db ssdb \<Rightarrow> bytes \<Rightarrow> bytes list \<Rightarrow> nat \<Rightarrow> int \<times> u64 \<times> 'db ssdb) \<Rightarrow> 'db ssdb \<Rightarrow> bytes list \<Rightarrow> Response \<Rightarrow> Response \<times> 'db ssdb" where
  "push_reply push s req resp =
     (if length req < 3 then (wrong_params resp, s)
      else (case push s (req ! 1) req 2 of (ret, len, s) \<Rightarrow>
        if ret < 0 then (addReplyErrorCode ret resp, s) else (addReplyInt_u64 len resp, s)))"

definition proc_lpushx :: "('db, 'it) rocksdb \<Rightarrow> 'db ssdb \<Rightarrow> bytes list \<Rightarrow> Response \<Rightarrow> Response \<times> 'db ssdb" where
  "proc_lpushx R = push_reply (LPushX R)"

definition proc_lpush :: "('db, 'it) rocksdb \<Rightarrow> 'db ssdb \<Rightarrow> bytes list \<Rightarrow> Response \<Rightarrow> Response \<times> 'db ssdb" where
  "proc_lpush R = push_reply (LPush R)"

definition proc_rpushx :: "('db, 'it) rocksdb \<Rightarrow> 'db ssdb \<Rightarrow> bytes list \<Rightarrow> Response \<Rightarrow> Response \<times> 'db ssdb" where
  "proc_rpushx R = push_reply (RPushX R)"

definition proc_rpush :: "('db, 'it) rocksdb \<Rightarrow> 'db ssdb \<Rightarrow> bytes list \<Rightarrow> Response \<Rightarrow> Response \<times> 'db ssdb" where
  "proc_rpush R = push_reply (RPush R)"

definition pop_reply ::
  "('db ssdb \<Rightarrow> bytes \<Rightarrow> int \<times> (bytes \<times> bool) \<times> 'db ssdb) \<Rightarrow> 'db ssdb \<Rightarrow> bytes list \<Rightarrow> Response \<Rightarrow> Response \<times> 'db ssdb" where
  "pop_reply pop s req resp =
     (if length req < 2 then (wrong_params resp, s)
      else (case pop s (req ! 1) of (ret, val, s) \<Rightarrow>
        if ret < 0 then (addReplyErrorCode ret resp, s)
        else if snd val then (addReplyString (fst val) resp, s) else (addReplyNil resp, s)))"

definition proc_lpop :: "('db, 'it) rocksdb \<Rightarrow> 'db ssdb \<Rightarrow> bytes list \<Rightarrow> Response \<Rightarrow> Response \<times> 'db ssdb" where
  "proc_lpop R = pop_reply (LPop R)"

definition proc_rpop :: "('db, 'it) rocksdb \<Rightarrow> 'db ssdb \<Rightarrow> bytes list \<Rightarrow> Response \<Rightarrow> Response \<times> 'db ssdb" where
  "proc_rpop R = pop_reply (RPop R)"

definition proc_ltrim :: "('db, 'it) rocksdb \<Rightarrow> 'db ssdb \<Rightarrow> bytes list \<Rightarrow> Response \<Rightarrow> Response \<times> 'db ssdb" where
  "proc_ltrim R s req resp =
     (if length req < 4 then (wrong_params resp, s)
      else (case Bytes_Int64 (req ! 2) of (start, einval) \<Rightarrow>
        if einval then (addReplyErrorCode INVALID_INT resp, s)
        else (case Bytes_Int64 (req ! 3) of (stop, einval) \<Rightarrow>
          if einval then (addReplyErrorCode INVALID_INT resp, s)
          else (case ltrim R s (req ! 1) start stop of (ret, s) \<Rightarrow>
            if ret < 0 then (addReplyErrorCode ret (resp\<lparr>resp_arr := []\<rparr>), s) else (addReplyStatusOK resp, s)))))"

definition proc_lrange :: "('db, 'it) rocksdb \<Rightarrow> 'db ssdb \<Rightarrow> bytes list \<Rightarrow> Response \<Rightarrow> Response" where
  "proc_lrange R s req resp =
     (if length req < 4 then wrong_params resp
      else (case Bytes_Int64 (req ! 2) of (start, einval) \<Rightarrow>
        if einval then addReplyErrorCode INVALID_INT resp
        else (case Bytes_Int64 (req ! 3) of (stop, einval) \<Rightarrow>
          if einval then addReplyErrorCode INVALID_INT resp
          else (case lrange R s (req ! 1) start stop of (ret, list) \<Rightarrow>
            if ret < 0 then addReplyErrorCode ret (resp\<lparr>resp_arr := resp_arr resp @ list\<rparr>)
            else convertReplyToList (resp\<lparr>resp_arr := resp_arr resp @ list\<rparr>)))))"

definition proc_lindex :: "('db, 'it) rocksdb \<Rightarrow> 'db ssdb \<Rightarrow> bytes list \<Rightarrow> Response \<Rightarrow> Response" where
  "proc_lindex R s req resp =
     (if length req < 3 then wrong_params resp
      else (case Bytes_Int64 (req ! 2) of (index, einval) \<Rightarrow>
        if einval then addReplyErrorCode INVALID_INT resp
        else (case LIndex R s (req ! 1) index of (ret, val) \<Rightarrow>
          if ret < 0 then addReplyErrorCode ret resp
          else if snd val then addReplyString (fst val) resp else addReplyNil resp)))"

definition proc_lset :: "('db, 'it) rocksdb \<Rightarrow> 'db ssdb \<Rightarrow> bytes list \<Rightarrow> Response \<Rightarrow> Response \<times> 'db ssdb" where
  "proc_lset R s req resp =
     (if length req < 4 then (wrong_params resp, s)
      else (case Bytes_Int64 (req ! 2) of (index, einval) \<Rightarrow>
        if einval then (addReplyErrorCode INVALID_INT resp, s)
        else (case LSet R s (req ! 1) index (req ! 3) of (ret, s) \<Rightarrow>
          if ret < 0 then (addReplyErrorCode ret resp, s)
          else if ret = 0 then (addReplyError (ascii ''ERR no such key'') resp, s)
          else (addReplyStatusOK resp, s))))"

section \<open>The promises of the set commands\<close>

datatype set_cmd = SADD "bytes list" | SREM "bytes list" | SCARD | SISMEMBER bytes | SMEMBERS

fun set_run :: "('db, 'it) rocksdb \<Rightarrow> 'db ssdb \<Rightarrow> bytes \<Rightarrow> set_cmd \<Rightarrow> Response \<Rightarrow> Response \<times> 'db ssdb" where
  "set_run R s key (SADD ms) resp = proc_sadd R s (ascii ''sadd'' # key # ms) resp"
| "set_run R s key (SREM ms) resp = proc_srem R s (ascii ''srem'' # key # ms) resp"
| "set_run R s key SCARD resp = (proc_scard R s [ascii ''scard'', key] resp, s)"
| "set_run R s key (SISMEMBER x) resp = (proc_sismember R s [ascii ''sismember'', key, x] resp, s)"
| "set_run R s key SMEMBERS resp = (proc_smembers R s [ascii ''smembers'', key] resp, s)"

fun set_spec :: "set_cmd \<Rightarrow> bytes set \<Rightarrow> reply \<times> bytes set" where
  "set_spec (SADD ms) S = (RInt (int (card (set ms - S))), S \<union> set ms)"
| "set_spec (SREM ms) S = (RInt (int (card (set ms \<inter> S))), S - set ms)"
| "set_spec SCARD S = (RInt (int (card S)), S)"
| "set_spec (SISMEMBER x) S = (RInt (if x \<in> S then 1 else 0), S)"
| "set_spec SMEMBERS S = (RArray (map RString (sorted_list_of_set S)), S)"

text \<open>\<^verbatim>\<open>SREM\<close> keeps its promise for members that are named once.\<close>

fun set_cmd_ok :: "set_cmd \<Rightarrow> bytes set \<Rightarrow> bool" where
  "set_cmd_ok (SADD ms) S \<longleftrightarrow> ms \<noteq> [] \<and> card S + length ms < 2 ^ 63"
| "set_cmd_ok (SREM ms) S \<longleftrightarrow> ms \<noteq> [] \<and> distinct ms"
| "set_cmd_ok _ S \<longleftrightarrow> True"

definition set_small :: "bytes set \<Rightarrow> bool" where
  "set_small S \<longleftrightarrow> card S < 2 ^ 31 \<and> (\<forall>x \<in> S. length x < 2 ^ 31)"

definition set_pre :: "('db \<Rightarrow> contents) \<Rightarrow> bytes \<Rightarrow> 'db ssdb \<Rightarrow> bytes set \<Rightarrow> set_cmd \<Rightarrow> bool" where
  "set_pre view key s S cmd \<longleftrightarrow> set_rep (view (ldb s)) key S \<and> (S = {} \<longrightarrow> fresh (view (ldb s)) key) \<and>
     long_enough key \<and> card (dom (view (ldb s))) < 2 ^ 64 \<and> set_small S \<and> set_cmd_ok cmd S"

definition set_post :: "('db \<Rightarrow> contents) \<Rightarrow> bytes \<Rightarrow> 'db ssdb \<Rightarrow> 'db ssdb \<Rightarrow> bytes set \<Rightarrow> bool" where
  "set_post view key s s' S \<longleftrightarrow> set_rep (view (ldb s')) key S \<and> touches_only key (view (ldb s)) (view (ldb s'))"

lemma length_fold_set_put: "length (fold set_put xs m) \<le> length m + length xs"
proof (induction xs arbitrary: m)
  case (Cons x xs)
  have "length (set_put x m) \<le> Suc (length m)" by (induction m) auto
  with Cons [of "set_put x m"] show ?case by simp
qed simp

sublocale rocksdb_iter \<subseteq> scmd: commands "\<lambda>s. set_run R s key" set_spec "set_pre view key" "set_post view key" for key
proof (unfold_locales, goal_cases)
  case (1 s S cmd resp)
  then have pre: "set_rep (view (ldb s)) key S" "S = {} \<longrightarrow> fresh (view (ldb s)) key" "long_enough key"
    "card (dom (view (ldb s))) < 2 ^ 64" "set_small S" "set_cmd_ok cmd S" "resp_arr resp = []" by (simp_all add: set_pre_def)
  note refl = touches_only_refl [of key "view (ldb s)"]
  have fin: "finite S" and card: "card S < 2 ^ 63"
    using pre(1) by (auto simp: set_rep_def coll_rep_def coll_at_def)
  show ?case
  proof (cases cmd)
    case (SADD ms)
    let ?ms = "fold set_put ms []"
    have m: "distinct ?ms" "set ?ms = set ms" using fold_set_put [of "[]" ms] by (auto intro: strict_keys_distinct)
    have "card S + length ?ms < 2 ^ 63" using pre(6) SADD length_fold_set_put [of ms "[]"] by simp
    from sadd_rep [OF pre(1,2) m(1) this, of 0] SADD pre(6) show ?thesis unfolding m(2)
      by (cases ms) (auto simp: proc_sadd_def set_post_def)
  next
    case (SREM ms)
    then show ?thesis using srem_rep [OF pre(1), of "ascii ''srem'' # key # ms"] pre(1,6) refl
      by (cases ms) (auto simp: proc_srem_def set_post_def split: if_splits)
  next
    case SCARD
    then show ?thesis using scard_rep [OF pre(1)] card pre(1) refl
      by (simp add: proc_scard_def set_post_def uint_nat unat_of_nat)
  next
    case (SISMEMBER x)
    then show ?thesis using sismember_rep [OF pre(1), of x False] pre(1) refl by (simp add: proc_sismember_def set_post_def)
  next
    case SMEMBERS
    have "small_texts (sorted_list_of_set S)" using pre(5) fin by (simp add: small_texts_def set_small_def)
    with SMEMBERS show ?thesis using smembers_rep [OF pre(1,3,4)] pre(1,7) refl by (simp add: proc_smembers_def set_post_def)
  qed
next
  case (2 cmd S)
  show ?case by (cases cmd) auto
qed

section \<open>The promises of the list commands\<close>

datatype list_cmd =
  LLEN | LPUSH "bytes list" | RPUSH "bytes list" | LPUSHX "bytes list" | RPUSHX "bytes list" | LPOP | RPOP
| LTRIM bytes bytes | LRANGE bytes bytes | LINDEX bytes | LSET bytes bytes

fun list_run :: "('db, 'it) rocksdb \<Rightarrow> 'db ssdb \<Rightarrow> bytes \<Rightarrow> list_cmd \<Rightarrow> Response \<Rightarrow> Response \<times> 'db ssdb" where
  "list_run R s key LLEN resp = (proc_llen R s [ascii ''llen'', key] resp, s)"
| "list_run R s key (LPUSH vs) resp = proc_lpush R s (ascii ''lpush'' # key # vs) resp"
| "list_run R s key (RPUSH vs) resp = proc_rpush R s (ascii ''rpush'' # key # vs) resp"
| "list_run R s key (LPUSHX vs) resp = proc_lpushx R s (ascii ''lpushx'' # key # vs) resp"
| "list_run R s key (RPUSHX vs) resp = proc_rpushx R s (ascii ''rpushx'' # key # vs) resp"
| "list_run R s key LPOP resp = proc_lpop R s [ascii ''lpop'', key] resp"
| "list_run R s key RPOP resp = proc_rpop R s [ascii ''rpop'', key] resp"
| "list_run R s key (LTRIM a b) resp = proc_ltrim R s [ascii ''ltrim'', key, a, b] resp"
| "list_run R s key (LRANGE a b) resp = (proc_lrange R s [ascii ''lrange'', key, a, b] resp, s)"
| "list_run R s key (LINDEX i) resp = (proc_lindex R s [ascii ''lindex'', key, i] resp, s)"
| "list_run R s key (LSET i x) resp = proc_lset R s [ascii ''lset'', key, i, x] resp"

text \<open>A reply that depends on numbers in the request, or the error for a text that is none.\<close>

definition with_ints :: "bytes list \<Rightarrow> reply \<times> 'a \<Rightarrow> 'a \<Rightarrow> reply \<times> 'a" where
  "with_ints ts r a = (if \<exists>t \<in> set ts. snd (Bytes_Int64 t) then (RError (GetErrorInfo INVALID_INT), a) else r)"

fun list_spec :: "list_cmd \<Rightarrow> bytes list \<Rightarrow> reply \<times> bytes list" where
  "list_spec LLEN xs = (RInt (int (length xs)), xs)"
| "list_spec (LPUSH vs) xs = (RInt (int (length xs + length vs)), rev vs @ xs)"
| "list_spec (RPUSH vs) xs = (RInt (int (length xs + length vs)), xs @ vs)"
| "list_spec (LPUSHX vs) xs = (if xs = [] then (RInt 0, []) else (RInt (int (length xs + length vs)), rev vs @ xs))"
| "list_spec (RPUSHX vs) xs = (if xs = [] then (RInt 0, []) else (RInt (int (length xs + length vs)), xs @ vs))"
| "list_spec LPOP xs = (if xs = [] then (RNil, []) else (RString (hd xs), tl xs))"
| "list_spec RPOP xs = (if xs = [] then (RNil, []) else (RString (last xs), butlast xs))"
| "list_spec (LTRIM a b) xs = with_ints [a, b] (RStatus (ascii ''OK''), list_slice xs (fst (Bytes_Int64 a)) (fst (Bytes_Int64 b))) xs"
| "list_spec (LRANGE a b) xs =
     with_ints [a, b] (RArray (map RString (list_slice xs (fst (Bytes_Int64 a)) (fst (Bytes_Int64 b)))), xs) xs"
| "list_spec (LINDEX i) xs =
     with_ints [i] (case list_index xs (fst (Bytes_Int64 i)) of None \<Rightarrow> (RNil, xs) | Some j \<Rightarrow> (RString (xs ! j), xs)) xs"
| "list_spec (LSET i x) xs =
     with_ints [i] (if xs = [] then (RError (ascii ''ERR no such key''), [])
       else case list_index xs (fst (Bytes_Int64 i)) of
              None \<Rightarrow> (RError (GetErrorInfo INDEX_OUT_OF_RANGE), xs)
            | Some j \<Rightarrow> (RStatus (ascii ''OK''), xs[j := x])) xs"

fun list_cmd_ok :: "list_cmd \<Rightarrow> bytes list \<Rightarrow> bool" where
  "list_cmd_ok (LPUSH vs) xs \<longleftrightarrow> vs \<noteq> [] \<and> length xs + length vs < 2 ^ 63 - 1"
| "list_cmd_ok (RPUSH vs) xs \<longleftrightarrow> vs \<noteq> [] \<and> length xs + length vs < 2 ^ 63 - 1"
| "list_cmd_ok (LPUSHX vs) xs \<longleftrightarrow> vs \<noteq> [] \<and> length xs + length vs < 2 ^ 63 - 1"
| "list_cmd_ok (RPUSHX vs) xs \<longleftrightarrow> vs \<noteq> [] \<and> length xs + length vs < 2 ^ 63 - 1"
| "list_cmd_ok _ xs \<longleftrightarrow> True"

definition list_pre :: "('db \<Rightarrow> contents) \<Rightarrow> bytes \<Rightarrow> 'db ssdb \<Rightarrow> bytes list \<Rightarrow> list_cmd \<Rightarrow> bool" where
  "list_pre view key s xs cmd \<longleftrightarrow> list_rep (view (ldb s)) key xs \<and> (xs = [] \<longrightarrow> fresh (view (ldb s)) key) \<and>
     small_texts xs \<and> list_cmd_ok cmd xs"

definition list_post :: "('db \<Rightarrow> contents) \<Rightarrow> bytes \<Rightarrow> 'db ssdb \<Rightarrow> 'db ssdb \<Rightarrow> bytes list \<Rightarrow> bool" where
  "list_post view key s s' xs \<longleftrightarrow> list_rep (view (ldb s')) key xs \<and> touches_only key (view (ldb s)) (view (ldb s'))"

lemma list_slice_subset: "set (list_slice xs a b) \<subseteq> set xs" "length (list_slice xs a b) \<le> length xs"
  by (auto simp: list_slice_def Let_def dest: in_set_takeD in_set_dropD)

lemma list_index_lt: "list_index xs i = Some j \<Longrightarrow> j < length xs"
  by (auto simp: list_index_def Let_def split: if_splits)

lemma list_spec_wf: "wf_reply (fst (list_spec cmd xs))"
  by (cases cmd) (auto simp: with_ints_def GetErrorInfo_line ascii_line split: option.splits)

context rocksdb_iter
begin

lemma push_reply_rep:
  assumes "list_rep (view (ldb s)) key xs" "xs = [] \<longrightarrow> fresh (view (ldb s)) key" "vs \<noteq> []" "length xs + length vs < 2 ^ 63 - 1"
  shows "\<exists>resp' s'. push_reply (list_push_end lp R) s (c # key # vs) resp = (resp', s') \<and>
    reply_output resp' = reply_output resp @ enc (RInt (int (length xs + length vs))) \<and>
    list_post view key s s' (push_side lp vs xs)"
proof -
  have "2 < length (c # key # vs)" "length xs + (length (c # key # vs) - 2) < 2 ^ 63 - 1" using assms(3,4) by (cases vs; simp)+
  from list_push_end_rep [OF assms(1,2) this, of lp] assms(3,4) show ?thesis
    by (cases vs) (auto simp: push_reply_def list_post_def uint_nat unat_of_nat simp del: of_nat_add of_nat_Suc)
qed

lemma pushx_reply_rep:
  assumes "list_rep (view (ldb s)) key xs" "vs \<noteq> []" "length xs + length vs < 2 ^ 63 - 1"
  shows "\<exists>resp' s'. push_reply (list_pushx_end lp R) s (c # key # vs) resp = (resp', s') \<and>
    reply_output resp' = reply_output resp @ enc (RInt (if xs = [] then 0 else int (length xs + length vs))) \<and>
    list_post view key s s' (if xs = [] then [] else push_side lp vs xs)"
proof (cases "xs = []")
  case True
  then show ?thesis
    using list_pushx_end_rep [OF assms(1), of 2 "c # key # vs" lp] assms touches_only_refl
    by (cases vs) (auto simp: push_reply_def list_post_def)
next
  case False
  have "push_reply (list_pushx_end lp R) s (c # key # vs) resp = push_reply (list_push_end lp R) s (c # key # vs) resp"
    using list_pushx_end_rep [OF assms(1), of 2 "c # key # vs" lp] assms(2,3) False by (cases vs) (auto simp: push_reply_def)
  with push_reply_rep [OF assms(1) _ assms(2,3), of lp c resp] False show ?thesis by simp
qed

lemma pop_reply_rep:
  assumes "list_rep (view (ldb s)) key xs" "small_texts xs"
  shows "\<exists>resp' s'. pop_reply (list_pop_end lp R) s [c, key] resp = (resp', s') \<and>
    reply_output resp' = reply_output resp @ enc (if xs = [] then RNil else RString (popped lp xs)) \<and>
    list_post view key s s' (if xs = [] then [] else pop_rest lp xs)"
proof (cases "xs = []")
  case True
  then show ?thesis using list_pop_end_rep [OF assms(1), of lp] assms(1) touches_only_refl by (simp add: pop_reply_def list_post_def)
next
  case False
  then have "length (popped lp xs) < 2 ^ 31" using assms(2) by (cases lp) (auto simp: small_texts_def)
  with False show ?thesis using list_pop_end_rep [OF assms(1), of lp] by (auto simp: pop_reply_def list_post_def)
qed

end

lemmas push_pop_defs = proc_lpush_def proc_rpush_def proc_lpushx_def proc_rpushx_def proc_lpop_def proc_rpop_def
  LPush_def [abs_def] RPush_def [abs_def] LPushX_def [abs_def] RPushX_def [abs_def] LPop_def [abs_def] RPop_def [abs_def]

sublocale rocksdb_iter \<subseteq> lcmd: commands "\<lambda>s. list_run R s key" list_spec "list_pre view key" "list_post view key" for key
proof (unfold_locales, goal_cases)
  case (1 s xs cmd resp)
  then have pre: "list_rep (view (ldb s)) key xs" "xs = [] \<longrightarrow> fresh (view (ldb s)) key" "small_texts xs" "list_cmd_ok cmd xs"
    "resp_arr resp = []" by (simp_all add: list_pre_def)
  note refl = touches_only_refl [of key "view (ldb s)"]
  have idx: "int64 i" "int64 j" if "Bytes_Int64 a = (i, e)" "Bytes_Int64 b = (j, e')" for a b i j e e'
    using Bytes_Int64_range [of a] Bytes_Int64_range [of b] that by simp_all
  show ?case
  proof (cases cmd)
    case LLEN
    have "length xs < 2 ^ 31" using pre(3) by (simp add: small_texts_def)
    with LLEN show ?thesis using LLen_rep [OF pre(1)] pre(1) refl by (simp add: proc_llen_def list_post_def uint_nat unat_of_nat)
  next
    case (LPUSH vs)
    then show ?thesis using push_reply_rep [OF pre(1,2), of vs HEAD] pre(4) by (simp add: push_pop_defs)
  next
    case (RPUSH vs)
    then show ?thesis using push_reply_rep [OF pre(1,2), of vs TAIL] pre(4) by (simp add: push_pop_defs)
  next
    case (LPUSHX vs)
    then show ?thesis using pushx_reply_rep [OF pre(1), of vs HEAD] pre(4) by (auto simp: push_pop_defs)
  next
    case (RPUSHX vs)
    then show ?thesis using pushx_reply_rep [OF pre(1), of vs TAIL] pre(4) by (auto simp: push_pop_defs)
  next
    case LPOP
    then show ?thesis using pop_reply_rep [OF pre(1,3), of HEAD] by (auto simp: push_pop_defs)
  next
    case RPOP
    then show ?thesis using pop_reply_rep [OF pre(1,3), of TAIL] by (auto simp: push_pop_defs)
  next
    case (LTRIM a b)
    obtain i e j e' where i: "Bytes_Int64 a = (i, e)" "Bytes_Int64 b = (j, e')" by force
    have "\<exists>ret s'. ltrim R s key i j = (ret, s') \<and> 0 \<le> ret \<and> list_post view key s s' (list_slice xs i j)"
    proof (cases "xs = []")
      case True
      then have "list_slice xs i j = xs" by (simp add: list_slice_def)
      with True show ?thesis using ltrim_rep [OF pre(1), of i j] pre(1) refl by (simp add: list_post_def)
    next
      case False
      then show ?thesis using ltrim_rep [OF pre(1), of i j] by (auto simp: list_post_def)
    qed
    then obtain ret s' where t: "ltrim R s key i j = (ret, s')" "0 \<le> ret" "list_post view key s s' (list_slice xs i j)" by blast
    with LTRIM i pre(1) refl show ?thesis by (cases e; cases e') (simp_all add: proc_ltrim_def list_post_def with_ints_def)
  next
    case (LRANGE a b)
    have "small_texts (list_slice xs i j)" for i j
      using pre(3) list_slice_subset [of xs i j] by (auto simp: small_texts_def)
    with LRANGE show ?thesis
      using lrange_rep [OF pre(1)] pre(1,5) refl
      by (auto simp: proc_lrange_def list_post_def with_ints_def split: prod.splits)
  next
    case (LINDEX a)
    obtain i e where i: "Bytes_Int64 a = (i, e)" by force
    have "length (xs ! j) < 2 ^ 31" if "list_index xs i = Some j" for j
      using pre(3) list_index_lt [OF that] by (simp add: small_texts_def)
    with LINDEX i show ?thesis
      using LIndex_rep [OF pre(1) idx(1) [OF i i]] pre(1) refl
      by (auto simp: proc_lindex_def list_post_def with_ints_def split: option.splits)
  next
    case (LSET a x)
    obtain i e where i: "Bytes_Int64 a = (i, e)" by force
    have err: "INDEX_OUT_OF_RANGE < 0" by (simp add: INDEX_OUT_OF_RANGE_def)
    show ?thesis
      using LSET i err LSet_rep [OF pre(1) idx(1) [OF i i], of x] pre(1) refl
      by (auto simp: proc_lset_def list_post_def with_ints_def split: option.splits if_splits)
  qed
next
  case (2 cmd xs)
  show ?case by (rule list_spec_wf)
qed

context rocksdb_iter
begin

lemmas set_client_reads = scmd.client_reads
lemmas list_client_reads = lcmd.client_reads

end

text \<open>
  The set commands keep their promise to the client: the reply and the set afterwards are those of the abstract set.
\<close>

theorem set_commands_correct:
  assumes "rocksdb_iter R view fwd" "set_rep (view (ldb s)) key S" "S = {} \<longrightarrow> fresh (view (ldb s)) key"
    and "long_enough key" "card (dom (view (ldb s))) < 2 ^ 64" "set_small S" "set_cmd_ok cmd S" "resp_arr resp = []"
  shows "\<exists>resp' s'. set_run R s key cmd resp = (resp', s') \<and>
    reply_output resp' = reply_output resp @ enc (fst (set_spec cmd S)) \<and>
    (\<forall>r x. wf_reply r \<and> reply_output resp' = reply_output resp @ enc r @ x \<longrightarrow> r = fst (set_spec cmd S) \<and> x = []) \<and>
    set_rep (view (ldb s')) key (snd (set_spec cmd S)) \<and> touches_only key (view (ldb s)) (view (ldb s'))"
  using rocksdb_iter.set_client_reads [OF assms(1), of key s S cmd resp] assms(2-) unfolding set_pre_def set_post_def by blast

text \<open>
  C3: The list commands keep their promise to the client: for each of LPUSH, RPUSH, LPUSHX, RPUSHX, LPOP, RPOP, LLEN,
  LINDEX, LRANGE, LSET and LTRIM, on a key that holds a list (or nothing), the bytes the server appends are the text of
  the one reply the command promises on the abstract list, for numbers that cannot be read and indexes out of range the right error; this text determines the reply.
  Afterwards the key holds the list the command promises and nothing else has changed.
\<close>

theorem list_commands_correct:
  assumes "rocksdb_iter R view fwd" "list_rep (view (ldb s)) key xs" "xs = [] \<longrightarrow> fresh (view (ldb s)) key"
    and "small_texts xs" "list_cmd_ok cmd xs" "resp_arr resp = []"
  shows "\<exists>resp' s'. list_run R s key cmd resp = (resp', s') \<and>
    reply_output resp' = reply_output resp @ enc (fst (list_spec cmd xs)) \<and>
    (\<forall>r x. wf_reply r \<and> reply_output resp' = reply_output resp @ enc r @ x \<longrightarrow> r = fst (list_spec cmd xs) \<and> x = []) \<and>
    list_rep (view (ldb s')) key (snd (list_spec cmd xs)) \<and> touches_only key (view (ldb s)) (view (ldb s'))"
  using rocksdb_iter.list_client_reads [OF assms(1), of key s xs cmd resp] assms(2-) unfolding list_pre_def list_post_def by blast

theorem list_commands_correct_witness:
  "\<exists>resp' s'. list_run mem_rocksdb list_example [107] (LSET [45, 49] [99]) \<lparr>reply_output = [], reply_status = 0, resp_arr = []\<rparr> = (resp', s') \<and>
    reply_output resp' = enc (RStatus (ascii ''OK'')) \<and> list_rep (map_of (ldb s')) [107] [[97], [99]]"
proof -
  have "Bytes_Int64 [45, 49] = (-1, False)" by code_simp
  then have spec: "list_spec (LSET [45, 49] [99]) [[97], [98]] = (RStatus (ascii ''OK''), [[97], [99]])"
    by (simp add: with_ints_def list_index_def)
  then show ?thesis
    using list_commands_correct [OF mem.rocksdb_iter_axioms list_example_rep, of "LSET [45, 49] [99]"
        "\<lparr>reply_output = [], reply_status = 0, resp_arr = []\<rparr>"]
    by (auto simp: small_texts_def simp del: list_spec.simps list_run.simps)
qed

end
