(* ===== verification/ProcScan.thy ===== *)
theory ProcScan
  imports ProcSet TScan
begin

text \<open>
  The handlers of SCAN, HSCAN, SSCAN and ZSCAN (\<^verbatim>\<open>src/src/proc/proc_kv.cpp\<close>, \<^verbatim>\<open>proc_hash.cpp\<close>, \<^verbatim>\<open>proc_set.cpp\<close>, \<^verbatim>\<open>proc_zset.cpp\<close>) and
  the options of a scan (\<^verbatim>\<open>src/src/proc/proc_common.h\<close>).
\<close>

record ScanParams =
  sp_pattern :: bytes
  sp_limit :: u64

definition ScanParams_init :: ScanParams where
  "ScanParams_init = \<lparr>sp_pattern = [42], sp_limit = 10\<rparr>"

definition strtolower :: "bytes \<Rightarrow> bytes" where
  "strtolower s = map tolower s"

text \<open>
  The loop advances by two and compares with the end of the request: an option without a value reads the element behind
  the last one.
\<close>

fun prepareForScanParams :: "bytes list \<Rightarrow> ScanParams \<Rightarrow> rdb_abort + int \<times> ScanParams" where
  "prepareForScanParams [] p = Inr (0, p)"
| "prepareForScanParams [key] p =
     (if strtolower key = ascii ''match'' \<or> strtolower key = ascii ''count'' then Inl OutOfBounds else Inr (SYNTAX_ERR, p))"
| "prepareForScanParams (key # x # rest) p =
     (if strtolower key = ascii ''match'' then prepareForScanParams rest (p\<lparr>sp_pattern := x\<rparr>)
      else if strtolower key = ascii ''count'' then
        (case str_to_uint64 x of (n, einval) \<Rightarrow>
           let p = p\<lparr>sp_limit := n\<rparr> in if einval then Inr (INVALID_INT, p) else prepareForScanParams rest p)
      else Inr (SYNTAX_ERR, p))"

text \<open>What the four handlers have in common: the cursor and the options, then the scan, then the reply.\<close>

definition scan_handler ::
  "nat \<Rightarrow> bool \<Rightarrow> (bytes \<Rightarrow> bytes \<Rightarrow> u64 \<Rightarrow> rdb_abort + int \<times> bytes list \<times> RedisCursorTable) \<Rightarrow> RedisCursorTable \<Rightarrow> bytes list \<Rightarrow> Response \<Rightarrow>
     rdb_abort + Response \<times> RedisCursorTable" where
  "scan_handler cursorIndex clear_arr op t req resp =
     (if length req < Suc cursorIndex then Inr (wrong_params resp, t)
      else if snd (str_to_uint64 (req ! cursorIndex)) then Inr (addReplyErrorCode INVALID_INT resp, t)
      else
        (case prepareForScanParams (drop (Suc cursorIndex) req) ScanParams_init of
           Inl e \<Rightarrow> Inl e
         | Inr (ret, p) \<Rightarrow>
             if ret < 0 then Inr (addReplyErrorCode ret resp, t)
             else
               (case op (req ! cursorIndex) (sp_pattern p) (sp_limit p) of
                  Inl e \<Rightarrow> Inl e
                | Inr (ret, list, t) \<Rightarrow>
                    let resp = resp\<lparr>resp_arr := resp_arr resp @ list\<rparr> in
                    if ret < 0 then Inr (addReplyErrorCode ret (if clear_arr then resp\<lparr>resp_arr := []\<rparr> else resp), t)
                    else (case convertReplyToScanResult resp of Inl e \<Rightarrow> Inl e | Inr resp \<Rightarrow> Inr (resp, t)))))"

definition proc_scan ::
  "('db, 'it) rocksdb \<Rightarrow> int \<Rightarrow> 'db ssdb \<Rightarrow> RedisCursorTable \<Rightarrow> bytes list \<Rightarrow> Response \<Rightarrow> rdb_abort + Response \<times> RedisCursorTable" where
  "proc_scan R now s t req resp =
     scan_handler 1 False (\<lambda>c p n. scan R now s c p n t) t req resp"

definition proc_hscan ::
  "('db, 'it) rocksdb \<Rightarrow> int \<Rightarrow> 'db ssdb \<Rightarrow> RedisCursorTable \<Rightarrow> bytes list \<Rightarrow> Response \<Rightarrow> rdb_abort + Response \<times> RedisCursorTable" where
  "proc_hscan R now s t req resp =
     scan_handler 2 False (\<lambda>c p n. hscan R now s (req ! 1) c p n t) t req resp"

definition proc_sscan ::
  "('db, 'it) rocksdb \<Rightarrow> int \<Rightarrow> 'db ssdb \<Rightarrow> RedisCursorTable \<Rightarrow> bytes list \<Rightarrow> Response \<Rightarrow> rdb_abort + Response \<times> RedisCursorTable" where
  "proc_sscan R now s t req resp =
     scan_handler 2 True (\<lambda>c p n. sscan R now s (req ! 1) c p n t) t req resp"

definition proc_zscan ::
  "(u64 \<Rightarrow> bytes) \<Rightarrow> ('db, 'it) rocksdb \<Rightarrow> int \<Rightarrow> 'db ssdb \<Rightarrow> RedisCursorTable \<Rightarrow> bytes list \<Rightarrow> Response \<Rightarrow>
     rdb_abort + Response \<times> RedisCursorTable" where
  "proc_zscan fmt R now s t req resp =
     scan_handler 2 True (\<lambda>c p n. zscan fmt R now s (req ! 1) c p n t) t req resp"

section \<open>Options\<close>

text \<open>With an odd number of options nothing good happens: the request is refused or read out of bounds.\<close>

lemma scan_options_odd:
  "odd (length opts) \<Longrightarrow> prepareForScanParams opts p = Inl OutOfBounds \<or> (\<exists>e p'. prepareForScanParams opts p = Inr (e, p') \<and> e < 0)"
  by (induction opts p rule: prepareForScanParams.induct) (auto simp: SYNTAX_ERR_def INVALID_INT_def Let_def split: prod.splits)

lemma scan_options_even: "even (length opts) \<Longrightarrow> \<exists>r. prepareForScanParams opts p = Inr r"
  by (induction opts p rule: prepareForScanParams.induct) (auto simp: Let_def split: prod.splits)

lemma cursor_zero: "str_to_uint64 [48] = (0, False)"
  using str_to_uint64_str [of 0] by (simp add: str_uint64_def dec_digits.simps)

context rocksdb_healthy
begin

lemma scan_absent:
  assumes "absent (view (ldb s)) key w" "resp_arr resp = []"
  shows "proc_hscan R now s t [c, key, [48]] resp = Inl OutOfBounds \<and>
    proc_sscan R now s t [c, key, [48]] resp = Inl OutOfBounds \<and>
    proc_zscan fmt R now s t [c, key, [48]] resp = Inl OutOfBounds"
proof -
  obtain hv sv zv where "GetHashMetaVal R s (encode_meta_key key) = (0, hv)" "GetSetMetaVal R s (encode_meta_key key) = (0, sv)"
    "GetZSetMetaVal R s (encode_meta_key key) = (0, zv)"
    using hc.get_absent [OF assms(1)] sc.get_absent [OF assms(1)] zc.get_absent [OF assms(1)] by blast
  then show ?thesis using assms(2)
    by (simp add: proc_hscan_def proc_sscan_def proc_zscan_def scan_handler_def hscan_def sscan_def zscan_def convertReplyToScanResult_def cursor_zero)
qed

end

text \<open>
  C24: HSCAN, SSCAN and ZSCAN read out of bounds on a key that does not exist: the storage operation returns 0 without
  the cursor at the head of the response, and the handler takes the first element of the empty response.
\<close>

theorem scan_missing_key:
  assumes "rocksdb_healthy R view" "absent (view (ldb s)) key w" "resp_arr resp = []"
  shows "proc_hscan R now s t [c, key, [48]] resp = Inl OutOfBounds \<and>
    proc_sscan R now s t [c, key, [48]] resp = Inl OutOfBounds \<and>
    proc_zscan fmt R now s t [c, key, [48]] resp = Inl OutOfBounds"
  by (rule rocksdb_healthy.scan_absent [OF assms])

theorem scan_missing_key_witness:
  "proc_hscan mem_rocksdb 0 empty_store [] [[], [107], [48]] \<lparr>reply_output = [], reply_status = 0, resp_arr = []\<rparr> = Inl OutOfBounds"
proof -
  have "absent (map_of (ldb empty_store)) [107] 0" by (simp add: absent_def empty_store_def)
  from scan_missing_key [OF mem.rocksdb_healthy_axioms this, of "\<lparr>reply_output = [], reply_status = 0, resp_arr = []\<rparr>" 0 "[]" "[]"]
  show ?thesis by simp
qed

end
