(* ===== verification/ProcKv.thy ===== *)
theory ProcKv
  imports ProcScan TKv Dump Numbers
begin

text \<open>
  The handlers of the commands on strings, bitmaps, deadlines and keys (\<^verbatim>\<open>src/src/proc/proc_kv.cpp\<close>) with the helpers they use
  (\<^verbatim>\<open>src/src/util/strings.h\<close>), and what the string commands promise to a client.
\<close>

unbundle bit_operations_syntax

section \<open>Helpers\<close>

text \<open>\<^verbatim>\<open>str_to_int\<close>: the number is cut to 32 bits without notice.\<close>

definition Bytes_Int :: "bytes \<Rightarrow> int \<times> bool" where
  "Bytes_Int s = (case Bytes_Int64 s of (v, einval) \<Rightarrow> (sint (word_of_int v :: 32 word), einval))"

definition i32 :: "int \<Rightarrow> int" where
  "i32 v = sint (word_of_int v :: 32 word)"

definition cpp_substr :: "bytes \<Rightarrow> int \<Rightarrow> int \<Rightarrow> bytes" where
  "cpp_substr str start sz = take (nat sz) (drop (nat start) str)"

definition substr :: "bytes \<Rightarrow> int \<Rightarrow> int \<Rightarrow> bytes" where
  "substr str start sz =
     (let n = i32 (int (length str));
          start = (if start < 0 then i32 (n + start) else start);
          sz = (if sz < 0 then i32 (i32 (n + sz) - start) else sz)
      in if start < 0 \<or> nat start \<ge> length str \<or> sz < 0 then [] else cpp_substr str start sz)"

definition str_slice :: "bytes \<Rightarrow> int \<Rightarrow> int \<Rightarrow> bytes" where
  "str_slice str start end =
     (let n = i32 (int (length str));
          start = (if start < 0 then i32 (n + start) else start);
          sz = (if end < 0 then i32 (n + end + 1 - start) else i32 (end - start + 1))
      in if start < 0 \<or> nat start \<ge> length str \<or> sz < 0 then [] else cpp_substr str start sz)"

function bits_of_byte :: "byte \<Rightarrow> int \<Rightarrow> int" where
  "bits_of_byte c n = (if c = 0 then n else bits_of_byte (drop_bit 1 c) (n + uint (c AND 1)))"
  by pat_completeness auto
termination
  by (relation "measure (\<lambda>(c, n). unat c)")
    (auto simp: drop_bit_eq_div unat_div unat_gt_0)

declare bits_of_byte.simps [simp del]

definition bitcount :: "bytes \<Rightarrow> int" where
  "bitcount p = fold bits_of_byte p 0"

definition MAX_PACKET_SIZE :: int where
  "MAX_PACKET_SIZE = 128 * 1024 * 1024"

section \<open>Handlers\<close>

definition proc_type :: "('db, 'it) rocksdb \<Rightarrow> 'db ssdb \<Rightarrow> bytes list \<Rightarrow> Response \<Rightarrow> Response" where
  "proc_type R s req resp =
     (if length req < 2 then wrong_params resp
      else (case type_cmd R s (req ! 1) of (ret, val) \<Rightarrow>
        if ret < 0 then addReplyErrorCode ret resp else addReplyStatus (ascii val) resp))"

definition proc_get :: "('db, 'it) rocksdb \<Rightarrow> 'db ssdb \<Rightarrow> bytes list \<Rightarrow> Response \<Rightarrow> Response" where
  "proc_get R s req resp =
     (if length req < 2 then wrong_params resp
      else (case kv_get R s (req ! 1) [] of (ret, val) \<Rightarrow>
        if ret < 0 then addReplyErrorCode ret resp
        else if ret = 0 then addReplyNil resp else addReplyString val resp))"

definition proc_getset :: "('db, 'it) rocksdb \<Rightarrow> 'db ssdb \<Rightarrow> bytes list \<Rightarrow> Response \<Rightarrow> Response \<times> 'db ssdb" where
  "proc_getset R s req resp =
     (if length req < 3 then (wrong_params resp, s)
      else (case getset R s (req ! 1) ([], False) (req ! 2) of (ret, val, s) \<Rightarrow>
        if ret < 0 then (addReplyErrorCode ret resp, s)
        else if snd val then (addReplyString (fst val) resp, s) else (addReplyNil resp, s)))"

definition proc_append :: "('db, 'it) rocksdb \<Rightarrow> 'db ssdb \<Rightarrow> bytes list \<Rightarrow> Response \<Rightarrow> Response \<times> 'db ssdb" where
  "proc_append R s req resp =
     (if length req < 3 then (wrong_params resp, s)
      else (case kv_append R s (req ! 1) (req ! 2) 0 of (ret, newlen, s) \<Rightarrow>
        if ret < 0 then (addReplyErrorCode ret resp, s) else (addReplyInt_u64 newlen resp, s)))"

text \<open>The options of SET: flags, unit and time to live, or the error code of the reply.\<close>

fun set_options :: "bytes list \<Rightarrow> int \<Rightarrow> TimeUnit \<Rightarrow> int \<Rightarrow> int + int \<times> TimeUnit \<times> int" where
  "set_options [] flags tu ttl = Inr (flags, tu, ttl)"
| "set_options (o1 # rest) flags tu ttl =
     (let key = strtolower o1 in
      if key = ascii ''nx'' \<and> flags AND OBJ_SET_XX = 0 then set_options rest (flags OR OBJ_SET_NX) tu ttl
      else if key = ascii ''xx'' \<and> flags AND OBJ_SET_NX = 0 then set_options rest (flags OR OBJ_SET_XX) tu ttl
      else if key = ascii ''ex'' \<and> flags AND OBJ_SET_PX = 0 \<or> key = ascii ''px'' \<and> flags AND OBJ_SET_EX = 0 then
        (case rest of
           [] \<Rightarrow> Inl SYNTAX_ERR
         | t # rest' \<Rightarrow>
             (case Bytes_Int64 t of (ttl, einval) \<Rightarrow>
                if einval then Inl INVALID_INT
                else if ttl \<le> 0 then Inl INVALID_EX_TIME
                else if key = ascii ''ex'' then set_options rest' (flags OR OBJ_SET_EX) Second ttl
                else set_options rest' (flags OR OBJ_SET_PX) Millisecond ttl))
      else Inl SYNTAX_ERR)"

definition proc_set ::
  "('db, 'it) rocksdb \<Rightarrow> int \<Rightarrow> int \<Rightarrow> 'db ssdb \<Rightarrow> bytes list \<Rightarrow> Response \<Rightarrow> Response \<times> 'db ssdb" where
  "proc_set R now1 now2 s req resp =
     (if length req < 3 then (wrong_params resp, s)
      else (case set_options (drop 3 req) OBJ_SET_NO_FLAGS Second 0 of
        Inl e \<Rightarrow> (addReplyErrorCode e resp, s)
      | Inr (flags, tu, ttl) \<Rightarrow>
          (case convert2ms ttl tu of (t_ret, ttl) \<Rightarrow>
             if t_ret < 0 then (addReplyErrorCode t_ret resp, s)
             else (case kv_set R now1 now2 s (req ! 1) (req ! 2) flags ttl 0 of (ret, added, s) \<Rightarrow>
               if ret < 0 then (addReplyErrorCode ret resp, s)
               else if (flags AND OBJ_SET_NX \<noteq> 0 \<or> flags AND OBJ_SET_XX \<noteq> 0) \<and> added = 0 then (addReplyNil resp, s)
               else (addReplyStatusOK resp, s)))))"

definition proc_setnx ::
  "('db, 'it) rocksdb \<Rightarrow> int \<Rightarrow> int \<Rightarrow> 'db ssdb \<Rightarrow> bytes list \<Rightarrow> Response \<Rightarrow> Response \<times> 'db ssdb" where
  "proc_setnx R now1 now2 s req resp =
     (if length req < 3 then (wrong_params resp, s)
      else (case kv_set R now1 now2 s (req ! 1) (req ! 2) OBJ_SET_NX 0 0 of (ret, added, s) \<Rightarrow>
        if ret < 0 then (addReplyErrorCode ret resp, s) else (addReplyInt added resp, s)))"

text \<open>\<^verbatim>\<open>proc_setex\<close> and \<^verbatim>\<open>proc_psetex\<close> differ in the flag and the unit.\<close>

definition setex_reply ::
  "int \<Rightarrow> TimeUnit \<Rightarrow> ('db, 'it) rocksdb \<Rightarrow> int \<Rightarrow> int \<Rightarrow> 'db ssdb \<Rightarrow> bytes list \<Rightarrow> Response \<Rightarrow> Response \<times> 'db ssdb" where
  "setex_reply flag tu R now1 now2 s req resp =
     (if length req < 4 then (wrong_params resp, s)
      else (case Bytes_Int64 (req ! 2) of (ttl, einval) \<Rightarrow>
        if einval then (addReplyErrorCode INVALID_INT resp, s)
        else if ttl \<le> 0 then (addReplyErrorCode INVALID_EX_TIME resp, s)
        else (case convert2ms ttl tu of (t_ret, ttl) \<Rightarrow>
          if t_ret < 0 then (addReplyErrorCode t_ret resp, s)
          else (case kv_set R now1 now2 s (req ! 1) (req ! 3) flag ttl 0 of (ret, added, s) \<Rightarrow>
            if ret < 0 then (addReplyErrorCode ret resp, s) else (addReplyStatusOK resp, s)))))"

definition proc_setex ::
  "('db, 'it) rocksdb \<Rightarrow> int \<Rightarrow> int \<Rightarrow> 'db ssdb \<Rightarrow> bytes list \<Rightarrow> Response \<Rightarrow> Response \<times> 'db ssdb" where
  "proc_setex = setex_reply OBJ_SET_EX Second"

definition proc_psetex ::
  "('db, 'it) rocksdb \<Rightarrow> int \<Rightarrow> int \<Rightarrow> 'db ssdb \<Rightarrow> bytes list \<Rightarrow> Response \<Rightarrow> Response \<times> 'db ssdb" where
  "proc_psetex = setex_reply OBJ_SET_PX Millisecond"

definition proc_pttl :: "('db, 'it) rocksdb \<Rightarrow> int \<Rightarrow> 'db ssdb \<Rightarrow> bytes list \<Rightarrow> Response \<Rightarrow> Response" where
  "proc_pttl R now s req resp =
     (if length req < 2 then wrong_params resp else addReplyInt (pttl R now s (req ! 1) Millisecond) resp)"

definition proc_ttl :: "('db, 'it) rocksdb \<Rightarrow> int \<Rightarrow> 'db ssdb \<Rightarrow> bytes list \<Rightarrow> Response \<Rightarrow> Response" where
  "proc_ttl R now s req resp =
     (if length req < 2 then wrong_params resp else addReplyInt (pttl R now s (req ! 1) Second) resp)"

text \<open>The four commands that set a deadline read a number, call the operation and reply its result.\<close>

definition deadline_reply ::
  "(int \<Rightarrow> int \<times> 'db ssdb) \<Rightarrow> (int \<Rightarrow> int) \<Rightarrow> 'db ssdb \<Rightarrow> bytes list \<Rightarrow> Response \<Rightarrow> Response \<times> 'db ssdb" where
  "deadline_reply op norm s req resp =
     (if length req < 3 then (wrong_params resp, s)
      else (case string2ll (req ! 2) of
        None \<Rightarrow> (addReplyErrorCode INVALID_INT resp, s)
      | Some when \<Rightarrow>
          (case op when of (ret, s) \<Rightarrow>
             if ret < 0 then (addReplyErrorCode ret resp, s) else (addReplyInt (norm ret) resp, s))))"

definition proc_pexpire ::
  "('db, 'it) rocksdb \<Rightarrow> int \<Rightarrow> int \<Rightarrow> 'db ssdb \<Rightarrow> bytes list \<Rightarrow> Response \<Rightarrow> Response \<times> 'db ssdb" where
  "proc_pexpire R now1 now2 s req = deadline_reply (\<lambda>when. expire R now1 now2 s (req ! 1) when Millisecond) (\<lambda>r. r) s req"

definition proc_expire ::
  "('db, 'it) rocksdb \<Rightarrow> int \<Rightarrow> int \<Rightarrow> 'db ssdb \<Rightarrow> bytes list \<Rightarrow> Response \<Rightarrow> Response \<times> 'db ssdb" where
  "proc_expire R now1 now2 s req =
     deadline_reply (\<lambda>when. expire R now1 now2 s (req ! 1) when Second) (\<lambda>r. if r = 0 then 0 else 1) s req"

text \<open>The multiplication wraps.\<close>

definition proc_expireat :: "('db, 'it) rocksdb \<Rightarrow> int \<Rightarrow> 'db ssdb \<Rightarrow> bytes list \<Rightarrow> Response \<Rightarrow> Response \<times> 'db ssdb" where
  "proc_expireat R now s req =
     deadline_reply (\<lambda>ts. case expireAt R now s (req ! 1) (sint (word_of_int (ts * 1000) :: u64)) [] True of (ret, _, s) \<Rightarrow> (ret, s))
       (\<lambda>r. r) s req"

definition proc_pexpireat :: "('db, 'it) rocksdb \<Rightarrow> int \<Rightarrow> 'db ssdb \<Rightarrow> bytes list \<Rightarrow> Response \<Rightarrow> Response \<times> 'db ssdb" where
  "proc_pexpireat R now s req =
     deadline_reply (\<lambda>ts_ms. case expireAt R now s (req ! 1) ts_ms [] True of (ret, _, s) \<Rightarrow> (ret, s)) (\<lambda>r. r) s req"

definition proc_persist :: "('db, 'it) rocksdb \<Rightarrow> 'db ssdb \<Rightarrow> bytes list \<Rightarrow> Response \<Rightarrow> Response \<times> 'db ssdb" where
  "proc_persist R s req resp =
     (if length req < 2 then (wrong_params resp, s)
      else (case persist R s (req ! 1) of (ret, s) \<Rightarrow>
        if ret < 0 then (addReplyErrorCode ret resp, s) else (addReplyInt ret resp, s)))"

definition proc_exists :: "('db, 'it) rocksdb \<Rightarrow> 'db ssdb \<Rightarrow> bytes list \<Rightarrow> Response \<Rightarrow> Response" where
  "proc_exists R s req resp =
     (if length req < 2 then wrong_params resp
      else addReplyInt_u64 (fold (\<lambda>key n. if exists_cmd R s key = 1 then n + 1 else n) (drop 1 req) 0) resp)"

definition proc_mset :: "('db, 'it) rocksdb \<Rightarrow> 'db ssdb \<Rightarrow> bytes list \<Rightarrow> Response \<Rightarrow> Response \<times> 'db ssdb" where
  "proc_mset R s req resp =
     (if length req < 3 \<or> even (length req) then (addReplyError (ascii ''ERR wrong number of arguments for MSET'') resp, s)
      else (case multi_set R s req 1 of (ret, s) \<Rightarrow>
        if ret < 0 then (addReplyErrorCode ret resp, s) else (addReplyInt_u64 (word_of_int ret) resp, s)))"

definition proc_del :: "('db, 'it) rocksdb \<Rightarrow> 'db ssdb \<Rightarrow> bytes list \<Rightarrow> Response \<Rightarrow> Response \<times> 'db ssdb" where
  "proc_del R s req resp =
     (if length req < 2 then (wrong_params resp, s)
      else (case multi_del R s (fold set_put (drop 1 req) []) 0 of (ret, num, s) \<Rightarrow>
        if ret < 0 then (addReplyErrorCode ret resp, s) else (addReplyInt num resp, s)))"

definition proc_mget :: "('db, 'it) rocksdb \<Rightarrow> 'db ssdb \<Rightarrow> bytes list \<Rightarrow> Response \<Rightarrow> Response" where
  "proc_mget R s req resp =
     (if length req < 2 then wrong_params resp
      else fold (\<lambda>key resp. case kv_get R s key [] of (ret, val) \<Rightarrow> if ret < 1 then addReplyNil resp else addReplyString val resp)
             (drop 1 req) (addReplyListHead (length req - 1) resp))"

text \<open>The loops over all keys: DBSIZE counts the meta entries, KEYS lists those that match.\<close>

function dbsize_loop :: "('db, 'it) rocksdb \<Rightarrow> 'it Iterator \<Rightarrow> u64 \<Rightarrow> u64" where
  "dbsize_loop R it n =
     (case Iterator_next R it of
        (False, it) \<Rightarrow> n
      | (True, it) \<Rightarrow> if Iterator_key R it ! 0 \<noteq> META then n else dbsize_loop R it (n + 1))"
  by pat_completeness auto
termination
  by (relation "measure (\<lambda>(R, it, n). unat (iter_limit it))") (auto dest: Iterator_next_limit')

declare dbsize_loop.simps [simp del]

definition proc_ssdb_dbsize :: "('db, 'it) rocksdb \<Rightarrow> 'db ssdb \<Rightarrow> Response \<Rightarrow> Response" where
  "proc_ssdb_dbsize R s resp = addReplyInt_u64 (dbsize_loop R (SSDB_iterator R (ldb s) [META] [] (-1)) 0) resp"

lemma MIterator_next_limit:
  "MIterator_next R m = (True, m') \<Longrightarrow> unat (iter_limit (m_it m')) < unat (iter_limit (m_it m))"
proof (induction R m rule: MIterator_next.induct)
  case (1 R m)
  obtain ok i where n: "Iterator_next R (m_it m) = (ok, i)" by force
  with 1(2) have ok: "ok" by (cases ok) (auto simp: MIterator_next.simps [of R m])
  have lim: "unat (iter_limit i) < unat (iter_limit (m_it m))"
    using n ok Iterator_next_limit [of R "m_it m" i] by simp
  from 1 n ok lim show ?case
    by (fastforce simp: MIterator_next.simps [of R m] Let_def split: if_splits option.splits)
qed

function keys_loop :: "('db, 'it) rocksdb \<Rightarrow> bytes \<Rightarrow> 'it MIterator \<Rightarrow> bytes list \<Rightarrow> rdb_abort + bytes list" where
  "keys_loop R pattern mit arr =
     (case MIterator_next R mit of
        (False, mit) \<Rightarrow> Inr arr
      | (True, mit) \<Rightarrow>
          (case scan_match pattern (m_key mit) of
             Inl e \<Rightarrow> Inl e
           | Inr b \<Rightarrow> keys_loop R pattern mit (if b then arr @ [m_key mit] else arr)))"
  by pat_completeness auto
termination
  by (relation "measure (\<lambda>(R, pattern, mit, arr). unat (iter_limit (m_it mit)))") (auto dest: MIterator_next_limit [OF sym])

declare keys_loop.simps [simp del]

definition proc_keys :: "('db, 'it) rocksdb \<Rightarrow> 'db ssdb \<Rightarrow> bytes list \<Rightarrow> Response \<Rightarrow> rdb_abort + Response" where
  "proc_keys R s req resp =
     (case keys_loop R (if length req > 1 then req ! 1 else [42]) (MIterator_init (SSDB_iterator R (ldb s) [META] [] (-1))) (resp_arr resp) of
        Inl e \<Rightarrow> Inl e
      | Inr arr \<Rightarrow> Inr (convertReplyToList (resp\<lparr>resp_arr := arr\<rparr>)))"

text \<open>\<^verbatim>\<open>_incr\<close>; the product with the direction wraps.\<close>

definition incr_reply :: "int \<Rightarrow> ('db, 'it) rocksdb \<Rightarrow> 'db ssdb \<Rightarrow> bytes list \<Rightarrow> Response \<Rightarrow> Response \<times> 'db ssdb" where
  "incr_reply dir R s req resp =
     (if length req < 2 then (wrong_params resp, s)
      else (case (if length req > 2 then Bytes_Int64 (req ! 2) else (1, False)) of (n, einval) \<Rightarrow>
        if einval then (addReplyErrorCode INVALID_INT resp, s)
        else (case incr R s (req ! 1) (sint (word_of_int (dir * n) :: u64)) 0 of (ret, new_val, s) \<Rightarrow>
          if ret < 0 then (addReplyErrorCode ret resp, s) else (addReplyInt new_val resp, s))))"

definition proc_incr :: "('db, 'it) rocksdb \<Rightarrow> 'db ssdb \<Rightarrow> bytes list \<Rightarrow> Response \<Rightarrow> Response \<times> 'db ssdb" where
  "proc_incr = incr_reply 1"

definition proc_decr :: "('db, 'it) rocksdb \<Rightarrow> 'db ssdb \<Rightarrow> bytes list \<Rightarrow> Response \<Rightarrow> Response \<times> 'db ssdb" where
  "proc_decr = incr_reply (- 1)"

text \<open>A text that is no number leaves the offset at 0.\<close>

definition bit_offset :: "bytes \<Rightarrow> int" where
  "bit_offset t = (case string2ll t of None \<Rightarrow> 0 | Some n \<Rightarrow> n)"

definition offset_out_of_range :: "int \<Rightarrow> bool" where
  "offset_out_of_range n \<longleftrightarrow> n < 0 \<or> n div 8 \<ge> MAX_PACKET_SIZE * 4"

definition proc_getbit :: "('db, 'it) rocksdb \<Rightarrow> 'db ssdb \<Rightarrow> bytes list \<Rightarrow> Response \<Rightarrow> Response" where
  "proc_getbit R s req resp =
     (if length req < 3 then wrong_params resp
      else
        let offset = bit_offset (req ! 2) in
        if offset_out_of_range offset then addReplyError (ascii ''ERR offset is is not an integer or out of range'') resp
        else (case getbit R s (req ! 1) (nat offset) 0 of (ret, res) \<Rightarrow>
          if ret < 0 then addReplyErrorCode ret resp else addReplyInt res resp))"

definition proc_setbit :: "('db, 'it) rocksdb \<Rightarrow> 'db ssdb \<Rightarrow> bytes list \<Rightarrow> Response \<Rightarrow> Response \<times> 'db ssdb" where
  "proc_setbit R s req resp =
     (if length req < 4 then (wrong_params resp, s)
      else
        let offset = bit_offset (req ! 2); on = fst (Bytes_Int (req ! 3)) in
        if on AND NOT 1 \<noteq> 0 then (addReplyError (ascii ''ERR bit is not an integer or out of range'') resp, s)
        else if offset_out_of_range offset then (addReplyError (ascii ''ERR offset is out of range [0, 4294967296)'') resp, s)
        else (case setbit R s (req ! 1) (nat offset) on 0 of (ret, res, s) \<Rightarrow>
          if ret < 0 then (addReplyErrorCode ret resp, s)
          else if res = 0 then (addReplyInt 0 resp, s) else (addReplyInt 1 resp, s)))"

text \<open>The first number of \<^verbatim>\<open>proc_countbit\<close> is used whatever it is.\<close>

definition proc_countbit :: "('db, 'it) rocksdb \<Rightarrow> 'db ssdb \<Rightarrow> bytes list \<Rightarrow> Response \<Rightarrow> Response" where
  "proc_countbit R s req resp =
     (if length req < 2 then wrong_params resp
      else
        let start = (if length req > 2 then fst (Bytes_Int (req ! 2)) else 0) in
        (case kv_get R s (req ! 1) [] of (ret, val) \<Rightarrow>
           if ret < 0 then addReplyErrorCode ret resp
           else if length req > 3 then
             (case Bytes_Int (req ! 3) of (sz, einval) \<Rightarrow>
                if einval then addReplyErrorCode INVALID_INT resp
                else addReplyInt_u64 (word_of_int (bitcount (substr val start sz))) resp)
           else addReplyInt_u64 (word_of_int (bitcount (substr val start (i32 (int (length val)))))) resp))"

definition proc_bitcount :: "('db, 'it) rocksdb \<Rightarrow> 'db ssdb \<Rightarrow> bytes list \<Rightarrow> Response \<Rightarrow> Response" where
  "proc_bitcount R s req resp =
     (if length req < 2 then wrong_params resp
      else (case (if length req > 2 then Bytes_Int (req ! 2) else (0, False)) of (start, einval) \<Rightarrow>
        if einval then addReplyErrorCode INVALID_INT resp
        else (case (if length req > 3 then Bytes_Int (req ! 3) else (-1, False)) of (end, einval) \<Rightarrow>
          if einval then addReplyErrorCode INVALID_INT resp
          else (case kv_get R s (req ! 1) [] of (ret, val) \<Rightarrow>
            if ret < 0 then addReplyErrorCode ret resp
            else addReplyInt (bitcount (str_slice val start end)) resp))))"

definition proc_getrange :: "('db, 'it) rocksdb \<Rightarrow> 'db ssdb \<Rightarrow> bytes list \<Rightarrow> Response \<Rightarrow> Response" where
  "proc_getrange R s req resp =
     (if length req < 4 then wrong_params resp
      else (case Bytes_Int64 (req ! 2) of (start, einval) \<Rightarrow>
        if einval then addReplyErrorCode INVALID_INT resp
        else (case Bytes_Int64 (req ! 3) of (end, einval) \<Rightarrow>
          if einval then addReplyErrorCode INVALID_INT resp
          else (case getrange R s (req ! 1) start end [] of (ret, val) \<Rightarrow>
            if ret < 0 then addReplyErrorCode ret resp else addReplyString val resp))))"

definition proc_substr :: "('db, 'it) rocksdb \<Rightarrow> 'db ssdb \<Rightarrow> bytes list \<Rightarrow> Response \<Rightarrow> Response" where
  "proc_substr = proc_getrange"

definition proc_setrange :: "('db, 'it) rocksdb \<Rightarrow> 'db ssdb \<Rightarrow> bytes list \<Rightarrow> Response \<Rightarrow> Response \<times> 'db ssdb" where
  "proc_setrange R s req resp =
     (if length req < 4 then (wrong_params resp, s)
      else (case Bytes_Int64 (req ! 2) of (start, einval) \<Rightarrow>
        if einval then (addReplyErrorCode INVALID_INT resp, s)
        else if start < 0 then (addReplyErrorCode INDEX_OUT_OF_RANGE resp, s)
        else (case setrange R s (req ! 1) (nat start) (req ! 3) 0 of (ret, new_len, s) \<Rightarrow>
          if ret < 0 then (addReplyErrorCode ret resp, s) else (addReplyInt_u64 new_len resp, s))))"

definition proc_strlen :: "('db, 'it) rocksdb \<Rightarrow> 'db ssdb \<Rightarrow> bytes list \<Rightarrow> Response \<Rightarrow> Response" where
  "proc_strlen R s req resp =
     (if length req < 2 then wrong_params resp
      else (case kv_get R s (req ! 1) [] of (ret, val) \<Rightarrow>
        if ret < 0 then addReplyErrorCode ret resp else addReplyInt (int (length val)) resp))"

section \<open>The promises of the string commands\<close>

datatype kv_cmd =
  GET | STRLEN | GETBIT bytes | SET bytes "bytes list" | GETSET bytes | APPEND bytes | INCRBY bytes | DECRBY bytes
| SETBIT bytes bytes | SETRANGE bytes bytes

text \<open>\<open>now1\<close> and \<open>now2\<close> are the two readings of the clock by SET with a time to live.\<close>

fun kv_run :: "('db, 'it) rocksdb \<Rightarrow> int \<Rightarrow> int \<Rightarrow> bytes \<Rightarrow> 'db ssdb \<Rightarrow> kv_cmd \<Rightarrow> Response \<Rightarrow> Response \<times> 'db ssdb" where
  "kv_run R now1 now2 key s GET resp = (proc_get R s [ascii ''get'', key] resp, s)"
| "kv_run R now1 now2 key s STRLEN resp = (proc_strlen R s [ascii ''strlen'', key] resp, s)"
| "kv_run R now1 now2 key s (GETBIT n) resp = (proc_getbit R s [ascii ''getbit'', key, n] resp, s)"
| "kv_run R now1 now2 key s (SET x opts) resp = proc_set R now1 now2 s (ascii ''set'' # key # x # opts) resp"
| "kv_run R now1 now2 key s (GETSET x) resp = proc_getset R s [ascii ''getset'', key, x] resp"
| "kv_run R now1 now2 key s (APPEND x) resp = proc_append R s [ascii ''append'', key, x] resp"
| "kv_run R now1 now2 key s (INCRBY t) resp = proc_incr R s [ascii ''incrby'', key, t] resp"
| "kv_run R now1 now2 key s (DECRBY t) resp = proc_decr R s [ascii ''decrby'', key, t] resp"
| "kv_run R now1 now2 key s (SETBIT n b) resp = proc_setbit R s [ascii ''setbit'', key, n, b] resp"
| "kv_run R now1 now2 key s (SETRANGE n x) resp = proc_setrange R s [ascii ''setrange'', key, n, x] resp"

text \<open>The abstract state: the string under the key, if there is one, and the deadlines of all keys.\<close>

type_synonym kv_state = "bytes option \<times> (bytes \<rightharpoonup> int)"

definition text_of :: "bytes option \<Rightarrow> bytes" where
  "text_of v = (case v of None \<Rightarrow> [] | Some x \<Rightarrow> x)"

definition kv_add :: "bytes option \<Rightarrow> int option \<Rightarrow> (bytes \<rightharpoonup> int) \<Rightarrow> reply \<times> kv_state" where
  "kv_add v n D =
     (case n of
        None \<Rightarrow> (RError (GetErrorInfo INVALID_INT), v, D)
      | Some n \<Rightarrow>
          (case (case v of None \<Rightarrow> Some 0 | Some x \<Rightarrow> string2ll x) of
             None \<Rightarrow> (RError (GetErrorInfo INVALID_INT), v, D)
           | Some old \<Rightarrow>
               if int64 (old + n) then (RInt (old + n), Some (str_int64 (old + n)), D)
               else (RError (GetErrorInfo INT_OVERFLOW), v, D)))"

text \<open>
  An offset is a number as \<^verbatim>\<open>str\<close> prints it. Every other text counts as the offset 0, instead of being refused. Offsets go up to two to
  the 32.
\<close>

definition offset_number :: "bytes \<Rightarrow> int" where
  "offset_number t = (if \<exists>n. int64 n \<and> t = str_int64 n then THE n. int64 n \<and> t = str_int64 n else 0)"

definition offset_refused :: "bytes \<Rightarrow> bool" where
  "offset_refused t \<longleftrightarrow> offset_number t < 0 \<or> offset_number t \<ge> 2 ^ 32"

text \<open>
  The bit of SETBIT is the number at the beginning of its text, without its bits above the lowest 32; a text without a number counts
  as 0.
\<close>

definition bit_number :: "bytes \<Rightarrow> int" where
  "bit_number t = leading_number t mod 2 ^ 32"

text \<open>
  The options of SET, in any letter case. An option is at fault because of its own text or because of an earlier option that
  excludes it, and the first fault decides the error. Of several times to live the last one counts.
\<close>

datatype set_opt = Only_if_new | Only_if_there | Seconds bytes | Milliseconds bytes | Bad_option

fun set_items :: "bytes list \<Rightarrow> set_opt list" where
  "set_items [] = []"
| "set_items (w # rest) =
     (if strtolower w = ascii ''nx'' then Only_if_new # set_items rest
      else if strtolower w = ascii ''xx'' then Only_if_there # set_items rest
      else if strtolower w = ascii ''ex'' \<and> rest \<noteq> [] then Seconds (hd rest) # set_items (tl rest)
      else if strtolower w = ascii ''px'' \<and> rest \<noteq> [] then Milliseconds (hd rest) # set_items (tl rest)
      else [Bad_option])"

definition time_fault :: "bytes \<Rightarrow> int option" where
  "time_fault t = (case text_number t of None \<Rightarrow> Some INVALID_INT | Some n \<Rightarrow> if n \<le> 0 then Some INVALID_EX_TIME else None)"

fun fault :: "set_opt list \<Rightarrow> set_opt \<Rightarrow> int option" where
  "fault earlier Only_if_new = (if Only_if_there \<in> set earlier then Some SYNTAX_ERR else None)"
| "fault earlier Only_if_there = (if Only_if_new \<in> set earlier then Some SYNTAX_ERR else None)"
| "fault earlier (Seconds t) = (if \<exists>u. Milliseconds u \<in> set earlier then Some SYNTAX_ERR else time_fault t)"
| "fault earlier (Milliseconds t) = (if \<exists>u. Seconds u \<in> set earlier then Some SYNTAX_ERR else time_fault t)"
| "fault earlier Bad_option = Some SYNTAX_ERR"

fun first_fault :: "set_opt list \<Rightarrow> set_opt list \<Rightarrow> int option" where
  "first_fault earlier [] = None"
| "first_fault earlier (opt # opts) = (case fault earlier opt of Some e \<Rightarrow> Some e | None \<Rightarrow> first_fault (earlier @ [opt]) opts)"

fun time_of :: "set_opt \<Rightarrow> (int \<times> TimeUnit) option" where
  "time_of (Seconds t) = map_option (\<lambda>n. (n, Second)) (text_number t)"
| "time_of (Milliseconds t) = map_option (\<lambda>n. (n, Millisecond)) (text_number t)"
| "time_of _ = None"

definition time_to_live :: "set_opt list \<Rightarrow> (int \<times> TimeUnit) option" where
  "time_to_live opts = fold (\<lambda>opt t. case time_of opt of None \<Rightarrow> t | Some u \<Rightarrow> Some u) opts None"

fun kv_spec :: "int \<Rightarrow> bytes \<Rightarrow> kv_cmd \<Rightarrow> kv_state \<Rightarrow> reply \<times> kv_state" where
  "kv_spec now key GET (v, D) = (case v of None \<Rightarrow> RNil | Some x \<Rightarrow> RString x, v, D)"
| "kv_spec now key STRLEN (v, D) = (RInt (int (length (text_of v))), v, D)"
| "kv_spec now key (GETBIT n) (v, D) =
     (if offset_refused n then RError (ascii ''ERR offset is is not an integer or out of range'')
      else RInt (if bit_of (text_of v) (nat (offset_number n)) then 1 else 0), v, D)"
| "kv_spec now key (SET x opts) (v, D) =
     (let opts = set_items opts; t = time_to_live opts in
      case first_fault [] opts of
        Some e \<Rightarrow> (RError (GetErrorInfo e), v, D)
      | None \<Rightarrow>
          if \<exists>n u. t = Some (n, u) \<and> ttl_refused n u then (RError (GetErrorInfo INVALID_EX_TIME), v, D)
          else if Only_if_new \<in> set opts \<and> v \<noteq> None \<or> Only_if_there \<in> set opts \<and> v = None then (RNil, v, D)
          else (RStatus (ascii ''OK''), Some x, D(key := map_option (\<lambda>(n, u). ttl_millis n u + now) t)))"
| "kv_spec now key (GETSET x) (v, D) = (case v of None \<Rightarrow> RNil | Some y \<Rightarrow> RString y, Some x, D(key := None))"
| "kv_spec now key (APPEND x) (v, D) = (RInt (int (length (text_of v @ x))), Some (text_of v @ x), D)"
| "kv_spec now key (INCRBY t) (v, D) = kv_add v (text_number t) D"
| "kv_spec now key (DECRBY t) (v, D) = kv_add v (map_option uminus (text_number t)) D"
| "kv_spec now key (SETBIT n b) (v, D) =
     (if bit_number b \<notin> {0, 1} then (RError (ascii ''ERR bit is not an integer or out of range''), v, D)
      else if offset_refused n then (RError (ascii ''ERR offset is out of range [0, 4294967296)''), v, D)
      else (RInt (if bit_of (text_of v) (nat (offset_number n)) then 1 else 0),
            Some (with_bit (text_of v) (nat (offset_number n)) (bit_number b = 1)), D))"
| "kv_spec now key (SETRANGE t x) (v, D) =
     (case text_number t of
        None \<Rightarrow> (RError (GetErrorInfo INVALID_INT), v, D)
      | Some n \<Rightarrow>
          if n < 0 then (RError (GetErrorInfo INDEX_OUT_OF_RANGE), v, D)
          else if v = None \<and> x = [] then (RInt 0, v, D)
          else if nat n + length x > 512 * 1024 * 1024 then (RError (GetErrorInfo STRING_OVERMAX), v, D)
          else (RInt (int (length (with_range (text_of v) (nat n) x))), Some (with_range (text_of v) (nat n) x), D))"

text \<open>
  When SET is given a time to live, the deadline computed from the first reading of the clock fits and is not past at the second
  reading; \<open>DECRBY\<close> is not given the smallest number, which has no opposite; and the string stays below the size of a value.
\<close>

fun kv_cmd_ok :: "int \<Rightarrow> int \<Rightarrow> kv_cmd \<Rightarrow> bool" where
  "kv_cmd_ok now1 now2 (SET x opts) \<longleftrightarrow>
     (\<forall>n u. first_fault [] (set_items opts) = None \<and> time_to_live (set_items opts) = Some (n, u) \<and> \<not> ttl_refused n u \<longrightarrow>
        now2 < ttl_millis n u + now1 \<and> 0 \<le> now1 \<and> ttl_millis n u + now1 < 2 ^ 63 - 1)"
| "kv_cmd_ok now1 now2 (DECRBY t) \<longleftrightarrow> text_number t \<noteq> Some (- (2 ^ 63))"
| "kv_cmd_ok now1 now2 (APPEND x) \<longleftrightarrow> length x < 2 ^ 31"
| "kv_cmd_ok now1 now2 _ \<longleftrightarrow> True"

definition kv_pre :: "('db \<Rightarrow> contents) \<Rightarrow> int \<Rightarrow> int \<Rightarrow> bytes \<Rightarrow> 'db ssdb \<Rightarrow> kv_state \<Rightarrow> kv_cmd \<Rightarrow> bool" where
  "kv_pre view now1 now2 key s = (\<lambda>(v, D) cmd. exp_inv (view (ldb s)) s \<and> kv_rep (view (ldb s)) key v \<and>
     deadline (view (ldb s)) = D \<and> length (text_of v) < 2 ^ 31 \<and> kv_cmd_ok now1 now2 cmd)"

definition kv_post :: "('db \<Rightarrow> contents) \<Rightarrow> bytes \<Rightarrow> 'db ssdb \<Rightarrow> 'db ssdb \<Rightarrow> kv_state \<Rightarrow> bool" where
  "kv_post view key s s' = (\<lambda>(v, D). kv_becomes view s s' key v D)"

text \<open>The readers of the handlers follow these meanings.\<close>

lemma bit_offset_number: "bit_offset t = offset_number t"
proof (cases "string2ll t")
  case None
  then have "\<nexists>n. int64 n \<and> t = str_int64 n" using string2ll_iff by (metis option.distinct(1))
  with None show ?thesis unfolding bit_offset_def offset_number_def by auto
next
  case (Some n)
  then have n: "int64 n \<and> t = str_int64 n" using string2ll_iff by blast
  have "(THE n. int64 n \<and> t = str_int64 n) = n"
    by (rule the_equality [where P = "\<lambda>n. int64 n \<and> t = str_int64 n", OF n]) (use Some string2ll_iff in \<open>metis option.inject\<close>)
  with n Some show ?thesis by (auto simp: bit_offset_def offset_number_def)
qed

lemma offset_refused_iff: "offset_out_of_range (offset_number t) \<longleftrightarrow> offset_refused t"
  by (auto simp: offset_out_of_range_def offset_refused_def MAX_PACKET_SIZE_def)

lemma Bytes_Int_bit:
  "fst (Bytes_Int t) AND - 2 = 0 \<longleftrightarrow> bit_number t \<in> {0, 1}" "bit_number t \<in> {0, 1} \<Longrightarrow> fst (Bytes_Int t) = bit_number t"
proof -
  let ?w = "word_of_int (leading_number t) :: 32 word"
  have f: "fst (Bytes_Int t) = sint ?w" by (simp add: Bytes_Int_def split_def fst_Bytes_Int64)
  have u: "uint ?w = bit_number t" by (simp add: uint_word_of_int bit_number_def)
  have a: "x AND - 2 = 0 \<longleftrightarrow> x \<in> {0, 1}" for x :: int
  proof -
    have "x AND - 2 = 2 * (x div 2)" using unset_bit_eq_and_not [of 0 x] by (simp add: unset_bit_0)
    then show ?thesis by auto
  qed
  have b: "sint ?w = uint ?w" if "uint ?w \<in> {0, 1}"
  proof -
    from that have "?w = 0 \<or> ?w = 1" by (metis insertE singletonD uint_0_eq uint_1_eq word_uint_eqI)
    then show ?thesis by auto
  qed
  have c: "uint ?w = sint ?w" if "sint ?w \<in> {0, 1}"
  proof -
    have "?w = word_of_int (sint ?w)" by simp
    with that have "?w = 0 \<or> ?w = 1" by (metis insertE singletonD word_of_int_0 word_of_int_1)
    then show ?thesis by auto
  qed
  show "fst (Bytes_Int t) AND - 2 = 0 \<longleftrightarrow> bit_number t \<in> {0, 1}" unfolding f a using b c u by metis
  show "bit_number t \<in> {0, 1} \<Longrightarrow> fst (Bytes_Int t) = bit_number t" unfolding f using b u by metis
qed

text \<open>The flags, the unit and the time to live of the handler stand for the options it has read.\<close>

definition stands_for_options :: "int \<Rightarrow> TimeUnit \<Rightarrow> int \<Rightarrow> set_opt list \<Rightarrow> bool" where
  "stands_for_options flags tu ttl opts \<longleftrightarrow>
     (flags AND OBJ_SET_NX \<noteq> 0 \<longleftrightarrow> Only_if_new \<in> set opts) \<and> (flags AND OBJ_SET_XX \<noteq> 0 \<longleftrightarrow> Only_if_there \<in> set opts) \<and>
     (flags AND OBJ_SET_EX \<noteq> 0 \<longleftrightarrow> (\<exists>t. Seconds t \<in> set opts)) \<and> (flags AND OBJ_SET_PX \<noteq> 0 \<longleftrightarrow> (\<exists>t. Milliseconds t \<in> set opts)) \<and>
     (with_expiry flags \<longleftrightarrow> time_to_live opts \<noteq> None) \<and>
     (case time_to_live opts of None \<Rightarrow> tu = Second \<and> ttl = 0 | Some (n, u) \<Rightarrow> ttl = n \<and> tu = u \<and> 0 < n)"

lemma flag_bits:
  "(f OR OBJ_SET_NX) AND OBJ_SET_NX \<noteq> 0" "(f OR OBJ_SET_XX) AND OBJ_SET_XX \<noteq> 0"
  "(f OR OBJ_SET_EX) AND OBJ_SET_EX \<noteq> 0" "(f OR OBJ_SET_PX) AND OBJ_SET_PX \<noteq> 0"
  "(f OR OBJ_SET_NX) AND OBJ_SET_XX = f AND OBJ_SET_XX" "(f OR OBJ_SET_NX) AND OBJ_SET_EX = f AND OBJ_SET_EX"
  "(f OR OBJ_SET_NX) AND OBJ_SET_PX = f AND OBJ_SET_PX" "(f OR OBJ_SET_XX) AND OBJ_SET_NX = f AND OBJ_SET_NX"
  "(f OR OBJ_SET_XX) AND OBJ_SET_EX = f AND OBJ_SET_EX" "(f OR OBJ_SET_XX) AND OBJ_SET_PX = f AND OBJ_SET_PX"
  "(f OR OBJ_SET_EX) AND OBJ_SET_NX = f AND OBJ_SET_NX" "(f OR OBJ_SET_EX) AND OBJ_SET_XX = f AND OBJ_SET_XX"
  "(f OR OBJ_SET_EX) AND OBJ_SET_PX = f AND OBJ_SET_PX" "(f OR OBJ_SET_PX) AND OBJ_SET_NX = f AND OBJ_SET_NX"
  "(f OR OBJ_SET_PX) AND OBJ_SET_XX = f AND OBJ_SET_XX" "(f OR OBJ_SET_PX) AND OBJ_SET_EX = f AND OBJ_SET_EX"
proof -
  have "(f OR m) AND m = m" for m :: int by (simp add: bit_eq_iff bit_and_iff bit_or_iff) blast
  then show "(f OR OBJ_SET_NX) AND OBJ_SET_NX \<noteq> 0" "(f OR OBJ_SET_XX) AND OBJ_SET_XX \<noteq> 0"
    "(f OR OBJ_SET_EX) AND OBJ_SET_EX \<noteq> 0" "(f OR OBJ_SET_PX) AND OBJ_SET_PX \<noteq> 0"
    by (simp_all add: OBJ_SET_NX_def OBJ_SET_XX_def OBJ_SET_EX_def OBJ_SET_PX_def)
qed (simp_all add: OBJ_SET_NX_def OBJ_SET_XX_def OBJ_SET_EX_def OBJ_SET_PX_def bit.conj_disj_distrib2)

lemma time_to_live_snoc:
  "time_to_live (opts @ [opt]) = (case time_of opt of None \<Rightarrow> time_to_live opts | Some u \<Rightarrow> Some u)"
  unfolding time_to_live_def by simp

lemma stands_for_step:
  assumes "stands_for_options flags tu ttl opts"
  shows "stands_for_options (flags OR OBJ_SET_NX) tu ttl (opts @ [Only_if_new])"
    "stands_for_options (flags OR OBJ_SET_XX) tu ttl (opts @ [Only_if_there])"
    "text_number t = Some n \<Longrightarrow> 0 < n \<Longrightarrow> stands_for_options (flags OR OBJ_SET_EX) Second n (opts @ [Seconds t])"
    "text_number t = Some n \<Longrightarrow> 0 < n \<Longrightarrow> stands_for_options (flags OR OBJ_SET_PX) Millisecond n (opts @ [Milliseconds t])"
  using assms by (auto simp: stands_for_options_def flag_bits with_expiry_def time_to_live_snoc)

lemma stands_for_none: "stands_for_options OBJ_SET_NO_FLAGS Second 0 []"
  by (simp add: stands_for_options_def OBJ_SET_NO_FLAGS_def with_expiry_def time_to_live_def)

lemma stands_for_means:
  assumes "stands_for_options flags tu ttl opts"
  shows "set_applies flags v \<longleftrightarrow> \<not> (Only_if_new \<in> set opts \<and> v \<noteq> None \<or> Only_if_there \<in> set opts \<and> v = None)"
    "ttl_refused ttl tu \<longleftrightarrow> (\<exists>n u. time_to_live opts = Some (n, u) \<and> ttl_refused n u)"
    "with_expiry flags \<Longrightarrow> time_to_live opts = Some (ttl, tu) \<and> 0 < ttl"
    "\<not> with_expiry flags \<Longrightarrow> time_to_live opts = None"
proof -
  show "set_applies flags v \<longleftrightarrow> \<not> (Only_if_new \<in> set opts \<and> v \<noteq> None \<or> Only_if_there \<in> set opts \<and> v = None)"
    using assms by (auto simp: stands_for_options_def set_applies_def)
  show "ttl_refused ttl tu \<longleftrightarrow> (\<exists>n u. time_to_live opts = Some (n, u) \<and> ttl_refused n u)"
    "with_expiry flags \<Longrightarrow> time_to_live opts = Some (ttl, tu) \<and> 0 < ttl" "\<not> with_expiry flags \<Longrightarrow> time_to_live opts = None"
    using assms by (cases "time_to_live opts"; auto simp: stands_for_options_def ttl_refused_def)+
qed

lemma set_options_items:
  assumes "stands_for_options flags tu ttl earlier"
  shows "(\<forall>e. first_fault earlier (set_items opts) = Some e \<longrightarrow> set_options opts flags tu ttl = Inl e) \<and>
    (first_fault earlier (set_items opts) = None \<longrightarrow>
       (\<exists>flags' tu' ttl'. set_options opts flags tu ttl = Inr (flags', tu', ttl') \<and>
         stands_for_options flags' tu' ttl' (earlier @ set_items opts)))"
  using assms
proof (induction opts arbitrary: flags tu ttl earlier rule: set_items.induct)
  case 1
  then show ?case by simp
next
  case (2 w rest)
  note st = 2(5)
  have fl: "flags AND OBJ_SET_NX \<noteq> 0 \<longleftrightarrow> Only_if_new \<in> set earlier" "flags AND OBJ_SET_XX \<noteq> 0 \<longleftrightarrow> Only_if_there \<in> set earlier"
    "flags AND OBJ_SET_EX \<noteq> 0 \<longleftrightarrow> (\<exists>t. Seconds t \<in> set earlier)" "flags AND OBJ_SET_PX \<noteq> 0 \<longleftrightarrow> (\<exists>t. Milliseconds t \<in> set earlier)"
    using st by (auto simp: stands_for_options_def)
  have words: "ascii ''nx'' \<noteq> ascii ''xx''" "ascii ''nx'' \<noteq> ascii ''ex''" "ascii ''nx'' \<noteq> ascii ''px''" "ascii ''xx'' \<noteq> ascii ''ex''"
    "ascii ''xx'' \<noteq> ascii ''px''" "ascii ''ex'' \<noteq> ascii ''px''"
    by (simp_all add: ascii_def of_char_def)
  consider (nx) "strtolower w = ascii ''nx''" | (xx) "strtolower w = ascii ''xx''"
    | (ex) t rest' where "strtolower w = ascii ''ex''" "rest = t # rest'" | (px) t rest' where "strtolower w = ascii ''px''" "rest = t # rest'"
    | (bad) "strtolower w \<noteq> ascii ''nx''" "strtolower w \<noteq> ascii ''xx''" "strtolower w \<noteq> ascii ''ex'' \<and> strtolower w \<noteq> ascii ''px'' \<or> rest = []"
    by (cases rest) auto
  then show ?case
  proof cases
    case nx
    then show ?thesis using 2(1) [OF nx stands_for_step(1) [OF st]] fl words by (auto simp: Let_def)
  next
    case xx
    then show ?thesis using 2(2) [OF _ xx stands_for_step(2) [OF st]] fl words by (auto simp: Let_def)
  next
    case (ex t rest')
    show ?thesis
    proof (cases "\<exists>n. text_number t = Some n \<and> 0 < n")
      case True
      then obtain n where n: "text_number t = Some n" "0 < n" by blast
      from 2(3) [OF _ _ _ stands_for_step(3) [OF st n]] ex n fl words show ?thesis
        by (auto simp: Let_def time_fault_def Bytes_Int64_number)
    next
      case False
      then show ?thesis using ex fl words by (auto simp: Let_def time_fault_def Bytes_Int64_number split: option.split)
    qed
  next
    case (px t rest')
    show ?thesis
    proof (cases "\<exists>n. text_number t = Some n \<and> 0 < n")
      case True
      then obtain n where n: "text_number t = Some n" "0 < n" by blast
      from 2(4) [OF _ _ _ _ stands_for_step(4) [OF st n]] px n fl words show ?thesis
        by (auto simp: Let_def time_fault_def Bytes_Int64_number)
    next
      case False
      then show ?thesis using px fl words by (auto simp: Let_def time_fault_def Bytes_Int64_number split: option.split)
    qed
  next
    case bad
    then show ?thesis by (auto simp: Let_def split: list.split)
  qed
qed

lemma kv_spec_wf: "wf_reply (fst (kv_spec now key cmd (v, D)))"
  by (cases cmd) (auto simp: kv_add_def Let_def GetErrorInfo_line ascii_line split: option.splits sum.splits prod.splits)

lemma skip_flags: "\<not> set_applies flags v \<Longrightarrow> flags AND OBJ_SET_NX \<noteq> 0 \<or> flags AND OBJ_SET_XX \<noteq> 0"
  by (auto simp: set_applies_def split: if_splits)

lemma length_with_range_u64: "n + length x \<le> 512 * 1024 * 1024 \<Longrightarrow> length y < 2 ^ 31 \<Longrightarrow>
    uint (word_of_nat (length (with_range y n x)) :: u64) = int (length (with_range y n x))"
  by (simp add: length_with_range uint_nat unat_of_nat)

lemma text_number_int64: "text_number t = Some n \<Longrightarrow> int64 n"
  using Bytes_Int64_range [of t] by (simp add: Bytes_Int64_number)

context rocksdb_iter
begin

lemma kv_becomes_refl:
  "exp_inv (view (ldb s)) s \<Longrightarrow> kv_rep (view (ldb s)) key v \<Longrightarrow> kv_becomes view s s key v (deadline (view (ldb s)))"
  by (simp add: kv_becomes_def touches_only_refl)

lemma proc_set_rep:
  assumes pre: "exp_inv (view (ldb s)) s" "kv_rep (view (ldb s)) key v" "kv_cmd_ok now1 now2 (SET x opts)"
  shows "\<exists>resp' s'. kv_run R now1 now2 key s (SET x opts) resp = (resp', s') \<and>
    reply_output resp' = reply_output resp @ enc (fst (kv_spec now1 key (SET x opts) (v, deadline (view (ldb s))))) \<and>
    kv_post view key s s' (snd (kv_spec now1 key (SET x opts) (v, deadline (view (ldb s)))))"
proof (cases "first_fault [] (set_items opts)")
  case (Some e)
  then have "set_options opts OBJ_SET_NO_FLAGS Second 0 = Inl e" using set_options_items [OF stands_for_none, of opts] by simp
  with Some show ?thesis using kv_becomes_refl [OF pre(1,2)] by (simp add: proc_set_def kv_post_def)
next
  case None
  define items where "items = set_items opts"
  obtain flags tu ttl where o: "set_options opts OBJ_SET_NO_FLAGS Second 0 = Inr (flags, tu, ttl)" "stands_for_options flags tu ttl items"
    using set_options_items [OF stands_for_none, of opts] None by (auto simp: items_def)
  note m = stands_for_means [OF o(2)]
  show ?thesis
  proof (cases "ttl_refused ttl tu")
    case True
    then have "\<exists>n u. time_to_live items = Some (n, u) \<and> ttl_refused n u" using m(2) by blast
    with True None o(1) show ?thesis using kv_becomes_refl [OF pre(1,2)]
      by (simp add: proc_set_def kv_post_def convert2ms_spec items_def INVALID_EX_TIME_def Let_def)
  next
    case ok: False
    then have ref: "\<not> (\<exists>n u. time_to_live items = Some (n, u) \<and> ttl_refused n u)" using m(2) by blast
    let ?ms = "ttl_millis ttl tu"
    have c: "convert2ms ttl tu = (1, ?ms)" using ok by (simp add: convert2ms_spec)
    have exp: "?ms > 0 \<and> now2 < ?ms + now1 \<and> 0 \<le> now1 \<and> ?ms + now1 < INT64_MAX" if "with_expiry flags"
    proof -
      from that m(3,4) have "time_to_live items = Some (ttl, tu)" "0 < ttl" by auto
      with pre(3) None ok show ?thesis by (cases tu) (auto simp: items_def ttl_millis_def)
    qed
    show ?thesis
    proof (cases "set_applies flags v")
      case True
      then have nx: "\<not> (Only_if_new \<in> set items \<and> v \<noteq> None \<or> Only_if_there \<in> set items \<and> v = None)" using m(1) [of v] by blast
      have "map_option (\<lambda>(n, u). ttl_millis n u + now1) (time_to_live items) = (if with_expiry flags then Some (?ms + now1) else None)"
        using m(3,4) by auto
      then have "kv_spec now1 key (SET x opts) (v, D) =
          (RStatus (ascii ''OK''), Some x, D(key := if with_expiry flags then Some (?ms + now1) else None))" for D
        using None ref nx by (simp add: items_def Let_def)
      with kv_set_effect [OF pre(1,2) True exp, of x 0] True o(1) c show ?thesis
        by (auto simp: proc_set_def kv_post_def simp del: kv_spec.simps)
    next
      case skip: False
      then have nx: "Only_if_new \<in> set items \<and> v \<noteq> None \<or> Only_if_there \<in> set items \<and> v = None" using m(1) [of v] by blast
      then have sp: "kv_spec now1 key (SET x opts) (v, D) = (RNil, v, D)" for D using None ref nx by (simp add: items_def Let_def)
      have "\<not> (with_expiry flags \<and> ?ms \<le> 0)" using exp by auto
      from kv_set_skip [OF pre(1,2) skip this, of now1 now2 x 0] obtain s' where
        s': "kv_set R now1 now2 s key x flags ?ms 0 = (if v = None then 0 else 1, 0, s')"
        "view (ldb s') = view (ldb s)" "exp_inv (view (ldb s')) s'" by blast
      then have "kv_becomes view s s' key v (deadline (view (ldb s)))" using pre(2) by (simp add: kv_becomes_def touches_only_refl)
      with s'(1) skip o(1) c skip_flags [OF skip] show ?thesis by (auto simp: proc_set_def kv_post_def sp simp del: kv_spec.simps)
    qed
  qed
qed

lemma proc_incr_rep:
  assumes pre: "exp_inv (view (ldb s)) s" "kv_rep (view (ldb s)) key v"
    and n: "\<And>m. text_number t = Some m \<Longrightarrow> sint (word_of_int (dir * m) :: u64) = f m \<and> int64 (f m)"
  shows "\<exists>resp' s'. incr_reply dir R s [c, key, t] resp = (resp', s') \<and>
    reply_output resp' = reply_output resp @ enc (fst (kv_add v (map_option f (text_number t)) (deadline (view (ldb s))))) \<and>
    kv_post view key s s' (snd (kv_add v (map_option f (text_number t)) (deadline (view (ldb s)))))"
proof -
  have err: "INVALID_INT < 0" "INT_OVERFLOW < 0" by (simp_all add: INVALID_INT_def INT_OVERFLOW_def)
  show ?thesis
  proof (cases "text_number t")
    case None
    then show ?thesis using kv_becomes_refl [OF pre] by (simp add: incr_reply_def kv_add_def kv_post_def Bytes_Int64_number)
  next
    case (Some m)
    then show ?thesis
      using n [OF Some] incr_rep [OF pre, of "f m" 0] err kv_becomes_refl [OF pre]
      by (auto simp: incr_reply_def kv_add_def kv_post_def Bytes_Int64_number split: option.splits if_splits)
  qed
qed

end

sublocale rocksdb_iter \<subseteq> kcmd: commands "kv_run R now1 now2 key" "kv_spec now1 key" "kv_pre view now1 now2 key" "kv_post view key"
  for now1 now2 key
proof (unfold_locales, goal_cases)
  case (1 s a cmd resp)
  obtain v D where a: "a = (v, D)" by force
  from 1 have pre: "exp_inv (view (ldb s)) s" "kv_rep (view (ldb s)) key v" "length (text_of v) < 2 ^ 31" "kv_cmd_ok now1 now2 cmd"
    and D: "D = deadline (view (ldb s))" by (auto simp: a kv_pre_def)
  note refl = kv_becomes_refl [OF pre(1,2)] and x = text_of_def [of v]
  have g: "kv_get R s key [] = (if v = None then 0 else 1, text_of v)"
    using kv_get_rep [OF pre(2), of "[]"] by (simp add: x split: option.splits)
  show ?case
  proof (cases cmd)
    case GET
    then show ?thesis unfolding a D using g refl pre(3) by (cases v) (simp_all add: proc_get_def kv_post_def text_of_def)
  next
    case STRLEN
    then show ?thesis unfolding a D using g refl by (simp add: proc_strlen_def kv_post_def)
  next
    case (GETBIT n)
    then show ?thesis unfolding a D using getbit_rep [OF pre(2) x, of "nat (offset_number n)" 0] refl
      by (simp add: proc_getbit_def Let_def kv_post_def offset_refused_iff bit_offset_number)
  next
    case (SET y opts)
    then show ?thesis unfolding a D using proc_set_rep [OF pre(1,2)] pre(4) by blast
  next
    case (GETSET y)
    then show ?thesis unfolding a D using getset_rep [OF pre(1,2), of "([], False)" y] pre(3)
      by (cases v) (auto simp: proc_getset_def kv_post_def text_of_def)
  next
    case (APPEND y)
    have new: "text_of v @ y = (case v of None \<Rightarrow> y | Some old \<Rightarrow> old @ y)" by (simp add: x split: option.splits)
    have "uint (word_of_nat (length (text_of v @ y)) :: u64) = int (length (text_of v @ y))"
      using pre(3,4) APPEND by (simp add: uint_nat unat_of_nat del: of_nat_add)
    with APPEND append_rep [OF pre(1,2) new, of 0] show ?thesis unfolding a D
      by (auto simp: proc_append_def kv_post_def simp del: length_append of_nat_add)
  next
    case (INCRBY t)
    then show ?thesis unfolding a D using proc_incr_rep [OF pre(1,2), of t 1 "\<lambda>n. n"] text_number_int64 [of t]
      by (simp add: proc_incr_def sint_word_of_int64 option.map_ident)
  next
    case (DECRBY t)
    have "int64 (- n)" if "text_number t = Some n" for n
      using text_number_int64 [OF that] that pre(4) DECRBY by (auto simp: int64_def)
    with DECRBY show ?thesis unfolding a D using proc_incr_rep [OF pre(1,2), of t "- 1" uminus]
      by (simp add: proc_decr_def sint_word_of_int64 del: of_int_minus)
  next
    case (SETBIT n b)
    let ?i = "nat (offset_number n)"
    consider "bit_number b \<notin> {0, 1}" | "bit_number b \<in> {0, 1}" "offset_refused n" | "bit_number b \<in> {0, 1}" "\<not> offset_refused n" by blast
    then show ?thesis
    proof cases
      case 3
      with SETBIT setbit_rep [OF pre(1,2) x, of ?i "bit_number b" 0] show ?thesis unfolding a D
        by (auto simp: proc_setbit_def Let_def kv_post_def offset_refused_iff Bytes_Int_bit bit_offset_number)
    qed (use SETBIT refl in \<open>simp_all add: a D proc_setbit_def Let_def kv_post_def offset_refused_iff bit_offset_number Bytes_Int_bit(1)\<close>)
  next
    case (SETRANGE t y)
    have err: "STRING_OVERMAX < 0" by (simp add: STRING_OVERMAX_def)
    show ?thesis
    proof (cases "text_number t")
      case None
      with SETRANGE refl show ?thesis unfolding a D by (simp add: proc_setrange_def kv_post_def Bytes_Int64_number)
    next
      case (Some i)
      then show ?thesis unfolding a D
        using SETRANGE err setrange_rep [OF pre(1,2) x, of y "nat i" 0] refl length_with_range_u64 [of "nat i" y "text_of v"] pre(3)
        by (cases "i < 0"; cases "v = None \<and> y = []"; cases "nat i + length y > 512 * 1024 * 1024")
          (auto simp: proc_setrange_def kv_post_def Bytes_Int64_number)
    qed
  qed
next
  case (2 cmd a)
  then show ?case using kv_spec_wf by (cases a) simp
qed

context rocksdb_iter
begin

lemmas kv_client_reads = kcmd.client_reads

end

text \<open>
  C4: The string commands keep their promise to the client: for each of GET, STRLEN, GETBIT, SET with its options, GETSET, APPEND,
  INCRBY, DECRBY, SETBIT and SETRANGE, on a key that holds a string (or nothing), the bytes the server appends are the text of the one
  reply the command promises, and this text determines the reply. The errors are said by the meaning of the texts, not by the readers of the
  handlers: options of SET that are unknown or exclude each other (\<open>fault\<close>), texts that are no number (\<open>text_number\<close>), times to live that are not
  positive or do not fit (\<open>ttl_refused\<close>), offsets from two to the 32 on. Where the program takes a text that is no offset for 0, or the
  beginning of a text for a bit, the meaning says so (\<open>offset_number\<close>, \<open>bit_number\<close>).
  Afterwards the key holds the promised string, its deadline is set, kept or removed as promised, and no other key has changed. The
  assumption \<open>kv_cmd_ok\<close> excludes a SET whose deadline is past already at the second reading of the clock, or does not fit, and DECRBY of
  the smallest number.
\<close>

theorem string_commands_correct:
  assumes "rocksdb_iter R view fwd" "exp_inv (view (ldb s)) s" "kv_rep (view (ldb s)) key v" "length (text_of v) < 2 ^ 31"
    and "kv_cmd_ok now1 now2 cmd" "resp_arr resp = []" "kv_spec now1 key cmd (v, deadline (view (ldb s))) = (r, v', D')"
  shows "\<exists>resp' s'. kv_run R now1 now2 key s cmd resp = (resp', s') \<and> reply_output resp' = reply_output resp @ enc r \<and>
    (\<forall>r' x. wf_reply r' \<and> reply_output resp' = reply_output resp @ enc r' @ x \<longrightarrow> r' = r \<and> x = []) \<and>
    kv_rep (view (ldb s')) key v' \<and> deadline (view (ldb s')) = D' \<and>
    touches_only key (view (ldb s)) (view (ldb s')) \<and> exp_inv (view (ldb s')) s'"
  using rocksdb_iter.kv_client_reads [OF assms(1), of now1 now2 key s "(v, deadline (view (ldb s)))" cmd resp] assms(2-)
  by (simp add: kv_pre_def kv_post_def kv_becomes_def)

theorem string_commands_correct_witness:
  "\<exists>resp' s'. kv_run mem_rocksdb 100 100 [107] expire_example (SET [119] [ascii ''XX'', ascii ''EX'', [55]])
      \<lparr>reply_output = [], reply_status = 0, resp_arr = []\<rparr> = (resp', s') \<and>
    reply_output resp' = enc (RStatus (ascii ''OK'')) \<and> kv_rep (map_of (ldb s')) [107] (Some [119]) \<and>
    deadline (map_of (ldb s')) [107] = Some 7100"
proof -
  have "Bytes_Int64 [55] = (7, False)" by code_simp
  then have n: "text_number [55] = Some 7" unfolding Bytes_Int64_reads text_number_Some .
  have o: "set_items [ascii ''XX'', ascii ''EX'', [55]] = [Only_if_there, Seconds [55]]"
    by (simp add: strtolower_def tolower_def ascii_def of_char_def)
  have t: "time_to_live [Only_if_there, Seconds [55]] = Some (7, Second)" "\<not> ttl_refused 7 Second" "ttl_millis 7 Second = 7000"
    "first_fault [] [Only_if_there, Seconds [55]] = None"
    by (simp_all add: time_to_live_def n ttl_refused_def ttl_millis_def time_fault_def)
  have "kv_spec 100 [107] (SET [119] [ascii ''XX'', ascii ''EX'', [55]]) (Some [118], deadline (map_of (ldb expire_example))) =
      (RStatus (ascii ''OK''), Some [119], (deadline (map_of (ldb expire_example)))([107] := Some 7100))"
    using t unfolding kv_spec.simps o by (simp add: Let_def)
  moreover have "kv_cmd_ok 100 100 (SET [119] [ascii ''XX'', ascii ''EX'', [55]])" using t unfolding kv_cmd_ok.simps o by simp
  ultimately show ?thesis
    using string_commands_correct [OF mem.rocksdb_iter_axioms expire_example_inv kv_example(1), of 100 100
        "SET [119] [ascii ''XX'', ascii ''EX'', [55]]" "\<lparr>reply_output = [], reply_status = 0, resp_arr = []\<rparr>"]
    by (fastforce simp: text_of_def simp del: kv_run.simps kv_spec.simps enc.simps)
qed

text \<open>
  Two numbers that are read wrongly: an offset that is no number is taken for 0, so that \<^verbatim>\<open>SETBIT k x 1\<close> sets the first bit, and the
  opposite of the smallest number is itself, so that \<^verbatim>\<open>DECRBY k -9223372036854775808\<close> adds it instead of subtracting it.
\<close>

lemma setbit_not_a_number: "offset_number (ascii ''x'') = 0 \<and> \<not> offset_refused (ascii ''x'')"
proof -
  have "string2ll (ascii ''x'') = None" by code_simp
  then have "bit_offset (ascii ''x'') = 0" by (simp add: bit_offset_def)
  then show ?thesis by (simp add: bit_offset_number offset_refused_def)
qed

lemma decrby_smallest: "sint (word_of_int (- 1 * INT64_MIN) :: u64) = INT64_MIN"
  by simp

end
