(* ===== verification/ProcZset.thy ===== *)
theory ProcZset
  imports ProcScan ZLex
begin

text \<open>
  The handlers of the commands on sorted sets (\<^verbatim>\<open>src/src/proc/proc_zset.cpp\<close>). Parameters are \<^verbatim>\<open>strtod\<close>, \<^verbatim>\<open>errno\<close> before the call
  (\<open>er\<close>) and the text the C library prints for a double (\<open>fmt\<close>).
\<close>

unbundle bit_operations_syntax

section \<open>Replies and options\<close>

definition addReplyDouble :: "dformat \<Rightarrow> u64 \<Rightarrow> Response \<Rightarrow> Response" where
  "addReplyDouble fmt d = emit (bulk (ld2string fmt 128 d)) RESP_STRING"

text \<open>\<^verbatim>\<open>strcasecmp\<close> with a word in lower case; the elements of a request end with a zero byte.\<close>

definition same_word :: "bytes \<Rightarrow> string \<Rightarrow> bool" where
  "same_word t w \<longleftrightarrow> strtolower (takeWhile (\<lambda>c. c \<noteq> 0) t) = ascii w"

text \<open>The options in front of the scores: the flags and the rest of the request.\<close>

fun zadd_options :: "bytes list \<Rightarrow> int \<Rightarrow> int \<times> bytes list" where
  "zadd_options [] flags = (flags, [])"
| "zadd_options (t # rest) flags =
     (let key = strtolower t in
      if key = ascii ''nx'' then zadd_options rest (flags OR ZADD_NX)
      else if key = ascii ''xx'' then zadd_options rest (flags OR ZADD_XX)
      else if key = ascii ''ch'' then zadd_options rest (flags OR ZADD_CH)
      else if key = ascii ''incr'' then zadd_options rest (flags OR ZADD_INCR)
      else (flags, t # rest))"

text \<open>\<^verbatim>\<open>std::map::insert\<close> keeps the value of a key that is there.\<close>

fun map_insert :: "bytes \<Rightarrow> bytes \<Rightarrow> (bytes \<times> bytes) list \<Rightarrow> (bytes \<times> bytes) list" where
  "map_insert k v [] = [(k, v)]"
| "map_insert k v ((k', v') # m) =
     (if k < k' then (k, v) # (k', v') # m else if k = k' then (k', v') # m else (k', v') # map_insert k v m)"

fun collect_scores :: "bool \<Rightarrow> bytes list \<Rightarrow> (bytes \<times> bytes) list \<Rightarrow> (bytes \<times> bytes) list" where
  "collect_scores nx (val # key # rest) m = collect_scores nx rest (if nx then map_insert key val m else map_put key val m)"
| "collect_scores nx _ m = m"

definition zadd_incr ::
  "strtod \<Rightarrow> errno \<Rightarrow> dformat \<Rightarrow> ('db, 'it) rocksdb \<Rightarrow> 'db ssdb \<Rightarrow> bytes \<Rightarrow> bytes list \<Rightarrow> int \<Rightarrow> Response \<Rightarrow> Response \<times> 'db ssdb" where
  "zadd_incr strtod er fmt R s name args flags resp =
     (case str_to_double strtod er (args ! 0) of (score, er) \<Rightarrow>
        if er = E_INVAL then (addReplyErrorCode INVALID_DBL resp, s)
        else (case zincr R s name (args ! 1) score flags 0 of (ret, flags, new_val, s) \<Rightarrow>
          if ret < 0 then (addReplyErrorCode ret resp, s)
          else if flags AND ZADD_NOP = 0 then (addReplyDouble fmt new_val resp, s) else (addReplyNil resp, s)))"

definition proc_zadd ::
  "strtod \<Rightarrow> errno \<Rightarrow> dformat \<Rightarrow> ('db, 'it) rocksdb \<Rightarrow> 'db ssdb \<Rightarrow> bytes list \<Rightarrow> Response \<Rightarrow> Response \<times> 'db ssdb" where
  "proc_zadd strtod er fmt R s req resp =
     (if length req < 4 then (wrong_params resp, s)
      else
        (case zadd_options (drop 2 req) ZADD_NONE of (flags, args) \<Rightarrow>
           let elements = length args div 2;
               incr = flags AND ZADD_INCR \<noteq> 0; nx = flags AND ZADD_NX \<noteq> 0; xx = flags AND ZADD_XX \<noteq> 0 in
           if args = [] \<or> odd (length args) then (addReplyErrorCode SYNTAX_ERR resp, s)
           else if nx \<and> xx then (addReplyError (ascii ''ERR XX and NX options at the same time are not compatible'') resp, s)
           else if incr \<and> elements > 1 then
             (addReplyError (ascii ''ERR INCR option supports a single increment-element pair'') resp, s)
           else if incr then zadd_incr strtod er fmt R s (req ! 1) args flags resp
           else (case multi_zset strtod er R s (req ! 1) (collect_scores nx args []) flags 0 of (ret, num, s) \<Rightarrow>
             if ret < 0 then (addReplyErrorCode ret resp, s) else (addReplyInt num resp, s))))"

section \<open>Members and ranks\<close>

definition proc_zrem :: "('db, 'it) rocksdb \<Rightarrow> 'db ssdb \<Rightarrow> bytes list \<Rightarrow> Response \<Rightarrow> Response \<times> 'db ssdb" where
  "proc_zrem R s req resp =
     (if length req < 3 then (wrong_params resp, s)
      else (case multi_zdel R s (req ! 1) (fold set_put (drop 2 req) []) 0 of (ret, count, s) \<Rightarrow>
        if ret < 0 then (addReplyErrorCode ret resp, s) else (addReplyInt count resp, s)))"

definition proc_zcard :: "('db, 'it) rocksdb \<Rightarrow> 'db ssdb \<Rightarrow> bytes list \<Rightarrow> Response \<Rightarrow> Response" where
  "proc_zcard R s req resp =
     (if length req < 2 then wrong_params resp
      else (case zsize R s (req ! 1) 0 of (ret, sz) \<Rightarrow>
        if ret < 0 then addReplyErrorCode ret resp else addReplyInt_u64 sz resp))"

definition proc_zscore :: "dformat \<Rightarrow> ('db, 'it) rocksdb \<Rightarrow> 'db ssdb \<Rightarrow> bytes list \<Rightarrow> Response \<Rightarrow> Response" where
  "proc_zscore fmt R s req resp =
     (if length req < 3 then wrong_params resp
      else (case zget R s (req ! 1) (req ! 2) of (ret, score) \<Rightarrow>
        if ret < 0 then addReplyErrorCode ret resp
        else if ret = 0 then addReplyNil resp else addReplyDouble fmt score resp))"

definition rank_reply :: "(bytes \<Rightarrow> bytes \<Rightarrow> int \<Rightarrow> int \<times> int) \<Rightarrow> bytes list \<Rightarrow> Response \<Rightarrow> Response" where
  "rank_reply op req resp =
     (if length req < 3 then wrong_params resp
      else (case op (req ! 1) (req ! 2) 0 of (ret, rank) \<Rightarrow>
        if ret < 0 then addReplyErrorCode ret resp
        else if ret = 0 \<or> rank = -1 then addReplyNil resp else addReplyInt rank resp))"

definition proc_zrank :: "strtod \<Rightarrow> ('db, 'it) rocksdb \<Rightarrow> 'db ssdb \<Rightarrow> bytes list \<Rightarrow> Response \<Rightarrow> Response" where
  "proc_zrank strtod R s = rank_reply (zrank strtod R s)"

definition proc_zrevrank :: "strtod \<Rightarrow> ('db, 'it) rocksdb \<Rightarrow> 'db ssdb \<Rightarrow> bytes list \<Rightarrow> Response \<Rightarrow> Response" where
  "proc_zrevrank strtod R s = rank_reply (zrrank strtod R s)"

section \<open>Ranges\<close>

text \<open>Replies with an array, as most ranges do.\<close>

definition array_reply :: "int \<times> bytes list \<Rightarrow> Response \<Rightarrow> Response" where
  "array_reply r resp =
     (case r of (ret, list) \<Rightarrow>
        let resp = resp\<lparr>resp_arr := resp_arr resp @ list\<rparr> in
        if ret < 0 then addReplyErrorCode ret resp else convertReplyToList resp)"

definition zrange_reply ::
  "(bytes \<Rightarrow> bytes \<Rightarrow> bytes \<Rightarrow> bool \<Rightarrow> int \<times> bytes list) \<Rightarrow> bytes list \<Rightarrow> Response \<Rightarrow> Response" where
  "zrange_reply op req resp =
     (if length req < 4 then wrong_params resp
      else
        let withscore = (length req = 5 \<and> strtolower (req ! 4) = ascii ''withscores'') in
        array_reply (op (req ! 1) (req ! 2) (req ! 3) withscore) resp)"

definition proc_zrange :: "strtod \<Rightarrow> dformat \<Rightarrow> ('db, 'it) rocksdb \<Rightarrow> 'db ssdb \<Rightarrow> bytes list \<Rightarrow> Response \<Rightarrow> Response" where
  "proc_zrange strtod fmt R s = zrange_reply (zrange strtod fmt R s)"

definition proc_zrevrange :: "strtod \<Rightarrow> dformat \<Rightarrow> ('db, 'it) rocksdb \<Rightarrow> 'db ssdb \<Rightarrow> bytes list \<Rightarrow> Response \<Rightarrow> Response" where
  "proc_zrevrange strtod fmt R s = zrange_reply (zrrange strtod fmt R s)"

text \<open>\<^verbatim>\<open>string2ld\<close> of this file reads a \<^verbatim>\<open>long\<close>, which has the range of \<^verbatim>\<open>long long\<close>.\<close>

definition string2ld :: "bytes \<Rightarrow> int + int" where
  "string2ld s = (case string2ll s of None \<Rightarrow> Inl NAN_SCORE | Some v \<Rightarrow> if v < INT64_MIN \<or> v > INT64_MAX then Inl NAN_SCORE else Inr v)"

text \<open>
  The options of the ranges by score and by name: whether scores are wanted, offset and limit, or the text of the error.
  \<open>scores\<close> says whether \<^verbatim>\<open>WITHSCORES\<close> is allowed, \<open>bad\<close> is the error for a bad number.
\<close>

fun range_options :: "bool \<Rightarrow> bytes \<Rightarrow> bytes list \<Rightarrow> bool \<times> int \<times> int \<Rightarrow> bytes + bool \<times> int \<times> int" where
  "range_options scores bad [] acc = Inr acc"
| "range_options scores bad (t # rest) (withscores, offset, limit) =
     (if scores \<and> same_word t ''withscores'' then range_options scores bad rest (True, offset, limit)
      else
        (case rest of
           a # b # rest' \<Rightarrow>
             if same_word t ''limit'' then
               (case string2ld a of
                  Inl _ \<Rightarrow> Inl bad
                | Inr offset \<Rightarrow>
                    (case string2ld b of
                       Inl _ \<Rightarrow> Inl bad
                     | Inr limit \<Rightarrow> range_options scores bad rest' (withscores, offset, limit)))
             else Inl (GetErrorInfo SYNTAX_ERR)
         | _ \<Rightarrow> Inl (GetErrorInfo SYNTAX_ERR)))"

definition zrangebyscore_reply ::
  "strtod \<Rightarrow> dformat \<Rightarrow> ('db, 'it) rocksdb \<Rightarrow> 'db ssdb \<Rightarrow> bool \<Rightarrow> bytes list \<Rightarrow> Response \<Rightarrow> Response" where
  "zrangebyscore_reply strtod fmt R s reverse req resp =
     (if length req < 4 then wrong_params resp
      else (case range_options True (ascii ''ERR min or max is not a float'') (drop 4 req) (False, 0, -1) of
        Inl e \<Rightarrow> addReplyError e resp
      | Inr (withscores, offset, limit) \<Rightarrow>
          array_reply
            (if reverse then zrevrangebyscore strtod fmt R s (req ! 1) (req ! 2) (req ! 3) withscores offset limit
             else zrangebyscore strtod fmt R s (req ! 1) (req ! 2) (req ! 3) withscores offset limit) resp))"

definition proc_zrangebyscore :: "strtod \<Rightarrow> dformat \<Rightarrow> ('db, 'it) rocksdb \<Rightarrow> 'db ssdb \<Rightarrow> bytes list \<Rightarrow> Response \<Rightarrow> Response" where
  "proc_zrangebyscore strtod fmt R s = zrangebyscore_reply strtod fmt R s False"

definition proc_zrevrangebyscore :: "strtod \<Rightarrow> dformat \<Rightarrow> ('db, 'it) rocksdb \<Rightarrow> 'db ssdb \<Rightarrow> bytes list \<Rightarrow> Response \<Rightarrow> Response" where
  "proc_zrevrangebyscore strtod fmt R s = zrangebyscore_reply strtod fmt R s True"

definition proc_zincrby ::
  "strtod \<Rightarrow> errno \<Rightarrow> dformat \<Rightarrow> ('db, 'it) rocksdb \<Rightarrow> 'db ssdb \<Rightarrow> bytes list \<Rightarrow> Response \<Rightarrow> Response \<times> 'db ssdb" where
  "proc_zincrby strtod er fmt R s req resp =
     (if length req < 4 \<or> length req > 4 then (wrong_params resp, s)
      else (case str_to_double strtod er (req ! 2) of (score, er) \<Rightarrow>
        if er = E_INVAL then (addReplyErrorCode INVALID_DBL resp, s)
        else (case zincr R s (req ! 1) (req ! 3) score (ZADD_NONE OR ZADD_INCR) 0 of (ret, _, new_val, s) \<Rightarrow>
          if ret < 0 then (addReplyErrorCode ret resp, s) else (addReplyDouble fmt new_val resp, s))))"

definition count_reply :: "int \<times> int \<times> 'db ssdb \<Rightarrow> Response \<Rightarrow> Response \<times> 'db ssdb" where
  "count_reply r resp =
     (case r of (ret, count, s) \<Rightarrow> if ret < 0 then (addReplyErrorCode ret resp, s) else (addReplyInt count resp, s))"

definition proc_zcount ::
  "strtod \<Rightarrow> dformat \<Rightarrow> ('db, 'it) rocksdb \<Rightarrow> 'db ssdb \<Rightarrow> bytes list \<Rightarrow> Response \<Rightarrow> Response \<times> 'db ssdb" where
  "proc_zcount strtod fmt R s req resp =
     (if length req < 4 then (wrong_params resp, s)
      else count_reply (zremrangebyscore strtod fmt R s (req ! 1) (req ! 2) (req ! 3) False 0) resp)"

definition proc_zremrangebyscore ::
  "strtod \<Rightarrow> dformat \<Rightarrow> ('db, 'it) rocksdb \<Rightarrow> 'db ssdb \<Rightarrow> bytes list \<Rightarrow> Response \<Rightarrow> Response \<times> 'db ssdb" where
  "proc_zremrangebyscore strtod fmt R s req resp =
     (if length req < 4 then (wrong_params resp, s)
      else count_reply (zremrangebyscore strtod fmt R s (req ! 1) (req ! 2) (req ! 3) True 0) resp)"

text \<open>The range is read and then removed, in two critical sections.\<close>

definition proc_zremrangebyrank ::
  "strtod \<Rightarrow> dformat \<Rightarrow> ('db, 'it) rocksdb \<Rightarrow> 'db ssdb \<Rightarrow> bytes list \<Rightarrow> Response \<Rightarrow> Response \<times> 'db ssdb" where
  "proc_zremrangebyrank strtod fmt R s req resp =
     (if length req < 4 then (wrong_params resp, s)
      else (case zrange strtod fmt R s (req ! 1) (req ! 2) (req ! 3) False of (ret, members) \<Rightarrow>
        if ret < 0 then (addReplyErrorCode ret resp, s)
        else if ret = 0 then (addReplyInt ret resp, s)
        else count_reply (multi_zdel R s (req ! 1) (fold set_put members []) 0) resp))"

text \<open>A lexicographic bound that ends the process is the result \<open>None\<close> of the storage operation.\<close>

definition zrangebylex_reply :: "('db, 'it) rocksdb \<Rightarrow> 'db ssdb \<Rightarrow> bool \<Rightarrow> bytes list \<Rightarrow> Response \<Rightarrow> Response option" where
  "zrangebylex_reply R s backward req resp =
     (if length req < 4 then Some (wrong_params resp)
      else (case range_options False (GetErrorInfo NAN_SCORE) (drop 4 req) (False, 0, -1) of
        Inl e \<Rightarrow> Some (addReplyError e resp)
      | Inr (_, offset, limit) \<Rightarrow>
          map_option (\<lambda>(ret, arr). let resp = resp\<lparr>resp_arr := arr\<rparr> in
              if ret < 0 then addReplyErrorCode ret resp else convertReplyToList resp)
            (if backward then zrevrangebylex R s (req ! 1) (req ! 2) (req ! 3) (resp_arr resp) offset limit
             else zrangebylex R s (req ! 1) (req ! 2) (req ! 3) (resp_arr resp) offset limit)))"

definition proc_zrangebylex :: "('db, 'it) rocksdb \<Rightarrow> 'db ssdb \<Rightarrow> bytes list \<Rightarrow> Response \<Rightarrow> Response option" where
  "proc_zrangebylex R s = zrangebylex_reply R s False"

definition proc_zrevrangebylex :: "('db, 'it) rocksdb \<Rightarrow> 'db ssdb \<Rightarrow> bytes list \<Rightarrow> Response \<Rightarrow> Response option" where
  "proc_zrevrangebylex R s = zrangebylex_reply R s True"

definition proc_zremrangebylex :: "('db, 'it) rocksdb \<Rightarrow> 'db ssdb \<Rightarrow> bytes list \<Rightarrow> Response \<Rightarrow> (Response \<times> 'db ssdb) option" where
  "proc_zremrangebylex R s req resp =
     (if length req < 4 then Some (wrong_params resp, s)
      else map_option (\<lambda>r. count_reply r resp) (zremrangebylex R s (req ! 1) (req ! 2) (req ! 3) 0))"

text \<open>Every error of \<^verbatim>\<open>zlexcount\<close> becomes a syntax error.\<close>

definition proc_zlexcount :: "('db, 'it) rocksdb \<Rightarrow> 'db ssdb \<Rightarrow> bytes list \<Rightarrow> Response \<Rightarrow> Response option" where
  "proc_zlexcount R s req resp =
     (if length req < 4 then Some (wrong_params resp)
      else map_option (\<lambda>(ret, count). if ret < 0 then addReplyErrorCode SYNTAX_ERR resp else addReplyInt count resp)
             (zlexcount R s (req ! 1) (req ! 2) (req ! 3) 0))"

section \<open>The promises of the commands\<close>

datatype zset_cmd = ZADD "(bytes \<times> bytes) list" | ZREM "bytes list" | ZCARD | ZSCORE bytes

text \<open>ZADD is given pairs of the text of a score and a member, without options.\<close>

fun zset_run :: "strtod \<Rightarrow> errno \<Rightarrow> dformat \<Rightarrow> ('db, 'it) rocksdb \<Rightarrow> bytes \<Rightarrow> 'db ssdb \<Rightarrow> zset_cmd \<Rightarrow> Response \<Rightarrow> Response \<times> 'db ssdb" where
  "zset_run strtod er fmt R key s (ZADD ps) resp =
     proc_zadd strtod er fmt R s (ascii ''zadd'' # key # concat (map (\<lambda>(t, f). [t, f]) ps)) resp"
| "zset_run strtod er fmt R key s (ZREM fs) resp = proc_zrem R s (ascii ''zrem'' # key # fs) resp"
| "zset_run strtod er fmt R key s ZCARD resp = (proc_zcard R s [ascii ''zcard'', key] resp, s)"
| "zset_run strtod er fmt R key s (ZSCORE f) resp = (proc_zscore fmt R s [ascii ''zscore'', key, f] resp, s)"

definition given_score :: "strtod \<Rightarrow> (bytes \<times> bytes) list \<Rightarrow> bytes \<Rightarrow> u64" where
  "given_score strtod ps f = fst (str_to_double strtod E_NONE (the (map_of (rev (map (\<lambda>(t, f). (f, t)) ps)) f)))"

fun zset_spec :: "strtod \<Rightarrow> dformat \<Rightarrow> zset_cmd \<Rightarrow> (bytes \<rightharpoonup> u64) \<Rightarrow> reply \<times> (bytes \<rightharpoonup> u64)" where
  "zset_spec strtod fmt (ZADD ps) z =
     (RInt (int (card (snd ` set ps - dom z))), zupdate ZADD_NONE (given_score strtod ps) z (map snd ps))"
| "zset_spec strtod fmt (ZREM fs) z = (RInt (int (card (set fs \<inter> dom z))), z |` (- set fs))"
| "zset_spec strtod fmt ZCARD z = (RInt (int (card (dom z))), z)"
| "zset_spec strtod fmt (ZSCORE f) z = (case z f of None \<Rightarrow> RNil | Some x \<Rightarrow> RString (ld2string fmt 128 x), z)"

fun zset_cmd_ok :: "strtod \<Rightarrow> zset_cmd \<Rightarrow> (bytes \<rightharpoonup> u64) \<Rightarrow> bool" where
  "zset_cmd_ok strtod (ZADD ps) z \<longleftrightarrow> ps \<noteq> [] \<and> (\<forall>(t, f) \<in> set ps. \<exists>x. score_text strtod t x) \<and>
     strtolower (fst (hd ps)) \<notin> {ascii ''nx'', ascii ''xx'', ascii ''ch'', ascii ''incr''} \<and> card (dom z) + length ps < 2 ^ 63"
| "zset_cmd_ok strtod (ZREM fs) z \<longleftrightarrow> fs \<noteq> []"
| "zset_cmd_ok strtod _ z \<longleftrightarrow> True"

definition zset_pre :: "('db \<Rightarrow> contents) \<Rightarrow> strtod \<Rightarrow> bytes \<Rightarrow> 'db ssdb \<Rightarrow> (bytes \<rightharpoonup> u64) \<Rightarrow> zset_cmd \<Rightarrow> bool" where
  "zset_pre view strtod key s z cmd \<longleftrightarrow> zset_rep (view (ldb s)) key z \<and> (z = Map.empty \<longrightarrow> zfresh (view (ldb s)) key) \<and>
     finite (dom z) \<and> card (dom z) < 2 ^ 63 \<and> zset_cmd_ok strtod cmd z"

definition zset_post :: "('db \<Rightarrow> contents) \<Rightarrow> bytes \<Rightarrow> 'db ssdb \<Rightarrow> 'db ssdb \<Rightarrow> (bytes \<rightharpoonup> u64) \<Rightarrow> bool" where
  "zset_post view key s s' z \<longleftrightarrow> zset_rep (view (ldb s')) key z \<and> touches_only key (view (ldb s)) (view (ldb s'))"

lemma ld2string_short: "length (ld2string fmt 128 x) < 2 ^ 31"
  by (simp add: ld2string_def Let_def)

lemma collect_scores_kvs:
  "collect_scores False (concat (map (\<lambda>(t, f). [t, f]) ps)) m = collect_kvs (concat (map (\<lambda>(f, t). [f, t]) (map (\<lambda>(t, f). (f, t)) ps))) m"
  by (induction ps arbitrary: m) auto

context rocksdb_iter
begin

lemma zadd_plain:
  assumes rep: "zset_rep (view (ldb s)) key z" "z = Map.empty \<longrightarrow> zfresh (view (ldb s)) key" "finite (dom z)"
    and ok: "zset_cmd_ok strtod (ZADD ps) z"
  shows "\<exists>resp' s'. zset_run strtod er fmt R key s (ZADD ps) resp = (resp', s') \<and>
    reply_output resp' = reply_output resp @ enc (fst (zset_spec strtod fmt (ZADD ps) z)) \<and>
    zset_post view key s s' (snd (zset_spec strtod fmt (ZADD ps) z))"
proof -
  let ?args = "concat (map (\<lambda>(t, f). [t, f]) ps)" and ?qs = "map (\<lambda>(t, f). (f, t)) ps"
  let ?kvs = "collect_scores False ?args []" and ?sc = "given_score strtod ps"
  obtain t f ps' where ps: "ps = (t, f) # ps'" using ok by (cases ps) auto
  have opts: "zadd_options ?args ZADD_NONE = (ZADD_NONE, ?args)" using ok by (simp add: ps Let_def)
  have len: "length (concat (map (\<lambda>(t, f). [t, f]) ps)) = 2 * length ps" for ps :: "(bytes \<times> bytes) list"
    by (induction ps) auto
  have kvs: "sorted_wrt (<) (map fst ?kvs)" "map_of ?kvs = map_of (rev ?qs)" "length ?kvs \<le> length ps"
    unfolding collect_scores_kvs using collect_kvs_map [of "[]" ?qs] by auto
  have dist: "distinct (map fst ?kvs)" by (rule strict_keys_distinct [OF kvs(1)])
  have members: "fst ` set ?kvs = snd ` set ps"
    unfolding dom_map_of_conv_image_fst [symmetric] kvs(2) by (force simp: dom_map_of_conv_image_fst)
  have texts: "score_text strtod t' (?sc f')" if "(f', t') \<in> set ?kvs" for f' t'
  proof -
    have m: "map_of (rev ?qs) f' = Some t'" using that dist kvs(2) by (metis map_of_is_SomeI)
    then have "(t', f') \<in> set ps" by (auto dest: map_of_SomeD)
    with ok obtain x where "score_text strtod t' x" by auto
    moreover from this have "?sc f' = x" using m
      by (auto simp: given_score_def elim: score_text_read [of strtod t' x E_NONE])
    ultimately show ?thesis by simp
  qed
  have upd: "zupdate ZADD_NONE ?sc z (map fst ?kvs) = zupdate ZADD_NONE ?sc z (map snd ps)"
    by (simp add: zupdate_def members)
  have new: "zadded ZADD_NONE ?sc z (map fst ?kvs) = filter (\<lambda>f. z f = None) (map fst ?kvs)"
    by (auto simp: zadded_def zscore_def zadd_flags intro!: filter_cong split: option.splits)
  have "set (filter (\<lambda>f. z f = None) (map fst ?kvs)) = snd ` set ps - dom z" using members by auto
  then have cnt: "length (zadded ZADD_NONE ?sc z (map fst ?kvs)) = card (snd ` set ps - dom z)"
    unfolding new using distinct_card [OF distinct_filter [OF dist]] by metis
  have "dom (zupdate ZADD_NONE ?sc z (map fst ?kvs)) \<subseteq> dom z \<union> set (map fst ?kvs)" by (auto simp: zupdate_def split: if_splits)
  from card_mono [OF _ this] have "card (dom (zupdate ZADD_NONE ?sc z (map fst ?kvs))) \<le> card (dom z) + length ?kvs"
    using rep(3) card_Un_le [of "dom z" "set (map fst ?kvs)"] card_length [of "map fst ?kvs"] by simp
  then have card: "card (dom (zupdate ZADD_NONE ?sc z (map fst ?kvs))) < 2 ^ 63" using kvs(3) ok by simp
  have fl: "ZADD_NONE AND ZADD_NX = 0 \<or> ZADD_NONE AND ZADD_XX = 0" "ZADD_NONE AND ZADD_INCR = 0" "ZADD_NONE AND ZADD_NX = 0"
    "ZADD_NONE AND ZADD_CH = 0" by (simp_all add: zadd_flags)
  from zsetNoLock_rep [OF rep(1,2) fl(1,2) texts dist card, of er 0] obtain s' where
    s': "multi_zset strtod er R s key ?kvs ZADD_NONE 0 = (if z = Map.empty \<and> int (card (snd ` set ps - dom z)) = 0 then 0 else 1, int (card (snd ` set ps - dom z)), s')"
    "zset_post view key s s' (zupdate ZADD_NONE ?sc z (map snd ps))"
    unfolding multi_zset_def cnt upd using fl(4) by (auto simp: zset_post_def)
  have "\<not> length (ascii ''zadd'' # key # ?args) < 4" "?args \<noteq> []" "even (length ?args)" using len [of ps] ps by auto
  moreover define args where "args = ?args"
  ultimately have "zset_run strtod er fmt R key s (ZADD ps) resp = (addReplyInt (int (card (snd ` set ps - dom z))) resp, s')"
    using s'(1) fl opts unfolding zset_run.simps args_def [symmetric] by (simp add: proc_zadd_def Let_def)
  with s'(2) show ?thesis by simp
qed

end

sublocale rocksdb_iter \<subseteq> zcmd: commands "zset_run strtod er fmt R key" "zset_spec strtod fmt" "zset_pre view strtod key" "zset_post view key"
  for strtod er fmt key
proof (unfold_locales, goal_cases)
  case (1 s z cmd resp)
  then have pre: "zset_rep (view (ldb s)) key z" "z = Map.empty \<longrightarrow> zfresh (view (ldb s)) key" "finite (dom z)"
    "card (dom z) < 2 ^ 63" "zset_cmd_ok strtod cmd z" by (simp_all add: zset_pre_def)
  note refl = touches_only_refl [of key "view (ldb s)"]
  show ?case
  proof (cases cmd)
    case (ZADD ps)
    then show ?thesis using zadd_plain [OF pre(1-3)] pre(5) by blast
  next
    case (ZREM fs)
    let ?fs = "fold set_put fs []"
    have f: "distinct ?fs" "set ?fs = set fs" using fold_set_put [of "[]" fs] by (auto intro: strict_keys_distinct)
    have "set (filter (\<lambda>f. z f \<noteq> None) ?fs) = set fs \<inter> dom z" using f(2) by auto
    then have "length (filter (\<lambda>f. z f \<noteq> None) ?fs) = card (set fs \<inter> dom z)" using distinct_card [OF distinct_filter [OF f(1)]] by metis
    with ZREM zdelNoLock_rep [OF pre(1) f(1)] pre(5) f(2) show ?thesis
      by (cases fs) (auto simp: proc_zrem_def multi_zdel_def zset_post_def split: if_splits)
  next
    case ZCARD
    then show ?thesis using zread_rep(2) [OF pre(1)] pre(1,4) refl by (simp add: proc_zcard_def zset_post_def uint_nat unat_of_nat)
  next
    case (ZSCORE f)
    then show ?thesis using zread_rep(1) [OF pre(1), of f] pre(1) refl bulk_enc [OF ld2string_short]
      by (cases "z f") (auto simp: proc_zscore_def zset_post_def addReplyDouble_def emit_def)
  qed
next
  case (2 cmd z)
  show ?case by (cases cmd) (auto split: option.splits)
qed

context rocksdb_iter
begin

lemmas zset_client_reads = zcmd.client_reads

end

text \<open>The commands on sorted sets keep their promise to the client, like those on hashes.\<close>

theorem zset_commands_correct:
  assumes "rocksdb_iter R view fwd" "zset_rep (view (ldb s)) key z" "z = Map.empty \<longrightarrow> zfresh (view (ldb s)) key"
    and "finite (dom z)" "card (dom z) < 2 ^ 63" "zset_cmd_ok strtod cmd z" "resp_arr resp = []"
  shows "\<exists>resp' s'. zset_run strtod er fmt R key s cmd resp = (resp', s') \<and>
    reply_output resp' = reply_output resp @ enc (fst (zset_spec strtod fmt cmd z)) \<and>
    (\<forall>r x. wf_reply r \<and> reply_output resp' = reply_output resp @ enc r @ x \<longrightarrow> r = fst (zset_spec strtod fmt cmd z) \<and> x = []) \<and>
    zset_rep (view (ldb s')) key (snd (zset_spec strtod fmt cmd z)) \<and> touches_only key (view (ldb s)) (view (ldb s'))"
  using rocksdb_iter.zset_client_reads [OF assms(1), of strtod key s z cmd resp er fmt] assms(2-)
  unfolding zset_pre_def zset_post_def by blast

end
