(* ===== verification/Server.thy ===== *)
theory Server
  imports StrUtil ProcKv ProcZset Lifecycle
begin

text \<open>
  From a request to a reply: the handlers of the server commands (\<^verbatim>\<open>src/src/proc/proc_server.cpp\<close>), the table of commands
  (\<^verbatim>\<open>src/include/Commands.h\<close>), its registration (\<^verbatim>\<open>src/include/ServerContext.hpp\<close>, \<^verbatim>\<open>src/src/common/ProcMap.cpp\<close>) and the
  dispatcher of a connection (\<^verbatim>\<open>src/src/ClientConn.cpp\<close>). The main result says that every command of the model, whatever its arguments and
  whatever the store answers, appends exactly one well-formed reply, or is one of the few that can end the process.
\<close>

unbundle bit_operations_syntax

section \<open>The world of a request\<close>

text \<open>The state that commands change: the database and the table of cursors.\<close>

record 'db vcdb =
  vc_db :: "'db ssdb"
  vc_cursors :: RedisCursorTable

text \<open>A handler gives the response and the new state, or \<open>None\<close> when the process ends or the loop of FLUSHDB does not return.\<close>

type_synonym 'db handler = "bytes list \<Rightarrow> Response \<Rightarrow> 'db vcdb \<Rightarrow> (Response \<times> 'db vcdb) option"

text \<open>
  What a request depends on besides the state: the store library, the readings of the clocks in milliseconds and in seconds, the random
  number, the C library functions for floating point numbers, the checksum, the memory, the hash table of the compression,
  the value of \<^verbatim>\<open>errno\<close>, the version of the store library, its estimate of the number of keys, \<^verbatim>\<open>slash::StringToLower\<close>,
  and the handlers that are not part of the model.
\<close>

record ('db, 'it) world =
  w_db :: "('db, 'it) rocksdb"
  w_now1 :: int
  w_now2 :: int
  w_time :: int
  w_rand :: nat
  w_strtod :: strtod
  w_scanf :: "bytes \<Rightarrow> u64 option"
  w_fmt :: dformat
  w_crc :: "bytes \<Rightarrow> u64"
  w_mem :: allocator
  w_htab :: "nat \<Rightarrow> nat"
  w_errno :: errno
  w_major :: nat
  w_num_keys :: "bytes option"
  w_lower :: "bytes \<Rightarrow> bytes"
  w_other :: "string \<Rightarrow> 'db handler"

definition restore_world :: "('db, 'it) world \<Rightarrow> ('db, 'it) restore_env" where
  "restore_world W = \<lparr>re_db = w_db W, re_strtod = w_strtod W, re_scan = w_scanf W, re_crc = w_crc W, re_mem = w_mem W,
     re_errno = w_errno W, re_now1 = w_now1 W, re_now2 = w_now2 W\<rparr>"

section \<open>Server commands\<close>

definition proc_flushdb :: "('db, 'it) rocksdb \<Rightarrow> nat \<Rightarrow> 'db handler" where
  "proc_flushdb R major req resp v =
     map_option (\<lambda>(_, s, t). (addReplyStatusOK resp, v\<lparr>vc_db := s, vc_cursors := t\<rparr>)) (flushdb R major (vc_db v) (vc_cursors v))"

definition proc_flushall :: "('db, 'it) rocksdb \<Rightarrow> nat \<Rightarrow> 'db handler" where
  "proc_flushall = proc_flushdb"

definition proc_select :: "bytes list \<Rightarrow> Response \<Rightarrow> Response" where
  "proc_select req resp = addReplyStatusOK resp"

definition proc_client :: "bytes list \<Rightarrow> Response \<Rightarrow> Response" where
  "proc_client req resp = addReplyStatusOK resp"

definition proc_quit :: "bytes list \<Rightarrow> Response \<Rightarrow> Response" where
  "proc_quit req resp = addReplyStatusOK resp"

definition proc_ping :: "bytes list \<Rightarrow> Response \<Rightarrow> Response" where
  "proc_ping req resp = addReplyStatus (ascii ''PONG'') resp"

definition toupper :: "byte \<Rightarrow> byte" where
  "toupper c = (if 97 \<le> c \<and> c \<le> 122 then c - 32 else c)"

definition strtoupper :: "bytes \<Rightarrow> bytes" where
  "strtoupper s = map toupper s"

definition proc_restore :: "('db, 'it) world \<Rightarrow> 'db ssdb \<Rightarrow> bytes list \<Rightarrow> Response \<Rightarrow> (Response \<times> 'db ssdb) option" where
  "proc_restore W s req resp =
     (if length req < 4 then Some (wrong_params resp, s)
      else (case Bytes_Int64 (req ! 2) of (ttl, einval) \<Rightarrow>
        if einval \<or> ttl < 0 then Some (addReplyErrorCode INVALID_EX_TIME resp, s)
        else if length req > 4 \<and> strtoupper (req ! 4) \<noteq> ascii ''REPLACE'' then Some (addReplyErrorCode SYNTAX_ERR resp, s)
        else (case restore (restore_world W) s (req ! 1) ttl (req ! 3) (length req > 4) of
          None \<Rightarrow> None
        | Some (Inl _, _) \<Rightarrow> None
        | Some (Inr (ret, val), s) \<Rightarrow>
            Some (if ret < 0 then addReplyErrorCode ret resp else addReplyStatus val resp, s))))"

definition proc_dump :: "('db, 'it) world \<Rightarrow> 'db ssdb \<Rightarrow> bytes list \<Rightarrow> Response \<Rightarrow> Response" where
  "proc_dump W s req resp =
     (if length req < 2 then wrong_params resp
      else (case dump (w_strtod W) (w_db W) (w_crc W) (w_htab W) (w_now1 W) s (req ! 1) False 0 True of (ret, val, _) \<Rightarrow>
        if ret < 0 then addReplyErrorCode ret resp
        else if ret = 0 then addReplyNil resp else addReplyString val resp))"

text \<open>The handler that forgets the cursors appends nothing.\<close>

definition proc_cursor_cleanup :: "RedisCursorTable \<Rightarrow> bytes list \<Rightarrow> Response \<Rightarrow> Response \<times> RedisCursorTable" where
  "proc_cursor_cleanup t req resp = (if length req < 2 then (wrong_params resp, t) else (resp, ClearAllCursor t))"

definition ssdb_size :: "bytes option \<Rightarrow> u64" where
  "ssdb_size property = fst (str_to_uint64 (case property of None \<Rightarrow> [48] | Some num \<Rightarrow> num))"

definition proc_dbsize :: "bytes option \<Rightarrow> bytes list \<Rightarrow> Response \<Rightarrow> Response" where
  "proc_dbsize property req resp = addReplyInt_u64 (ssdb_size property) resp"

section \<open>The table of commands\<close>

text \<open>How handlers of the several shapes act on the whole state.\<close>

definition rd :: "('db ssdb \<Rightarrow> bytes list \<Rightarrow> Response \<Rightarrow> Response) \<Rightarrow> 'db handler" where
  "rd h req resp v = Some (h (vc_db v) req resp, v)"

definition wr :: "('db ssdb \<Rightarrow> bytes list \<Rightarrow> Response \<Rightarrow> Response \<times> 'db ssdb) \<Rightarrow> 'db handler" where
  "wr h req resp v = (case h (vc_db v) req resp of (resp, s) \<Rightarrow> Some (resp, v\<lparr>vc_db := s\<rparr>))"

definition sc :: "('db ssdb \<Rightarrow> RedisCursorTable \<Rightarrow> bytes list \<Rightarrow> Response \<Rightarrow> rdb_abort + Response \<times> RedisCursorTable) \<Rightarrow> 'db handler" where
  "sc h req resp v =
     (case h (vc_db v) (vc_cursors v) req resp of Inl _ \<Rightarrow> None | Inr (resp, t) \<Rightarrow> Some (resp, v\<lparr>vc_cursors := t\<rparr>))"

definition opt_rd :: "('db ssdb \<Rightarrow> bytes list \<Rightarrow> Response \<Rightarrow> Response option) \<Rightarrow> 'db handler" where
  "opt_rd h req resp v = map_option (\<lambda>resp. (resp, v)) (h (vc_db v) req resp)"

definition opt_wr :: "('db ssdb \<Rightarrow> bytes list \<Rightarrow> Response \<Rightarrow> (Response \<times> 'db ssdb) option) \<Rightarrow> 'db handler" where
  "opt_wr h req resp v = map_option (\<lambda>(resp, s). (resp, v\<lparr>vc_db := s\<rparr>)) (h (vc_db v) req resp)"

definition ends_rd :: "('db ssdb \<Rightarrow> bytes list \<Rightarrow> Response \<Rightarrow> rdb_abort + Response) \<Rightarrow> 'db handler" where
  "ends_rd h req resp v = (case h (vc_db v) req resp of Inl _ \<Rightarrow> None | Inr resp \<Rightarrow> Some (resp, v))"

record 'db redisCommand =
  cmd_name :: bytes
  cmd_proc :: "'db handler"
  cmd_arity :: int
  cmd_sflags :: string
  cmd_flags :: int
  cmd_firstkey :: int
  cmd_lastkey :: int
  cmd_keystep :: int

definition command :: "string \<Rightarrow> 'db handler \<Rightarrow> int \<Rightarrow> string \<Rightarrow> int \<Rightarrow> int \<Rightarrow> int \<Rightarrow> 'db redisCommand" where
  "command name h arity sflags firstkey lastkey keystep =
     \<lparr>cmd_name = ascii name, cmd_proc = h, cmd_arity = arity, cmd_sflags = sflags, cmd_flags = 0,
      cmd_firstkey = firstkey, cmd_lastkey = lastkey, cmd_keystep = keystep\<rparr>"

definition redisCommandTable :: "('db, 'it) world \<Rightarrow> 'db redisCommand list" where
  "redisCommandTable W = [
   command ''get'' (rd (proc_get (w_db W))) 2 ''rF'' 1 1 1,
   command ''set'' (wr (proc_set (w_db W) (w_now1 W) (w_now2 W))) (-3) ''wm'' 1 1 1,
   command ''setnx'' (wr (proc_setnx (w_db W) (w_now1 W) (w_now2 W))) 3 ''wmF'' 1 1 1,
   command ''setex'' (wr (proc_setex (w_db W) (w_now1 W) (w_now2 W))) 4 ''wm'' 1 1 1,
   command ''psetex'' (wr (proc_psetex (w_db W) (w_now1 W) (w_now2 W))) 4 ''wm'' 1 1 1,
   command ''append'' (wr (proc_append (w_db W))) 3 ''wm'' 1 1 1,
   command ''strlen'' (rd (proc_strlen (w_db W))) 2 ''rF'' 1 1 1,
   command ''del'' (wr (proc_del (w_db W))) (-2) ''w'' 1 (-1) 1,
   command ''exists'' (rd (proc_exists (w_db W))) (-2) ''rF'' 1 (-1) 1,
   command ''setbit'' (wr (proc_setbit (w_db W))) 4 ''wm'' 1 1 1,
   command ''getbit'' (rd (proc_getbit (w_db W))) 3 ''rF'' 1 1 1,
   command ''setrange'' (wr (proc_setrange (w_db W))) 4 ''wm'' 1 1 1,
   command ''getrange'' (rd (proc_getrange (w_db W))) 4 ''r'' 1 1 1,
   command ''substr'' (rd (proc_getrange (w_db W))) 4 ''r'' 1 1 1,
   command ''incr'' (wr (proc_incr (w_db W))) 2 ''wmF'' 1 1 1,
   command ''decr'' (wr (proc_decr (w_db W))) 2 ''wmF'' 1 1 1,
   command ''mget'' (rd (proc_mget (w_db W))) (-2) ''r'' 1 (-1) 1,
   command ''rpush'' (wr (proc_rpush (w_db W))) (-3) ''wmF'' 1 1 1,
   command ''lpush'' (wr (proc_lpush (w_db W))) (-3) ''wmF'' 1 1 1,
   command ''rpushx'' (wr (proc_rpushx (w_db W))) 3 ''wmF'' 1 1 1,
   command ''lpushx'' (wr (proc_lpushx (w_db W))) 3 ''wmF'' 1 1 1,
   command ''rpop'' (wr (proc_rpop (w_db W))) 2 ''wF'' 1 1 1,
   command ''lpop'' (wr (proc_lpop (w_db W))) 2 ''wF'' 1 1 1,
   command ''llen'' (rd (proc_llen (w_db W))) 2 ''rF'' 1 1 1,
   command ''lindex'' (rd (proc_lindex (w_db W))) 3 ''r'' 1 1 1,
   command ''lset'' (wr (proc_lset (w_db W))) 4 ''wm'' 1 1 1,
   command ''lrange'' (rd (proc_lrange (w_db W))) 4 ''r'' 1 1 1,
   command ''ltrim'' (wr (proc_ltrim (w_db W))) 4 ''w'' 1 1 1,
   command ''sadd'' (wr (proc_sadd (w_db W))) (-3) ''wmF'' 1 1 1,
   command ''srem'' (wr (proc_srem (w_db W))) (-3) ''wF'' 1 1 1,
   command ''sismember'' (rd (proc_sismember (w_db W))) 3 ''rF'' 1 1 1,
   command ''scard'' (rd (proc_scard (w_db W))) 2 ''rF'' 1 1 1,
   command ''spop'' (wr (proc_spop (w_db W) (w_rand W))) (-2) ''wRF'' 1 1 1,
   command ''srandmember'' (rd (proc_srandmember (w_db W) (w_rand W))) (-2) ''rR'' 1 1 1,
   command ''smembers'' (rd (proc_smembers (w_db W))) 2 ''rS'' 1 1 1,
   command ''sscan'' (sc (proc_sscan (w_db W) (w_time W))) (-3) ''rR'' 1 1 1,
   command ''zadd'' (wr (proc_zadd (w_strtod W) (w_errno W) (w_fmt W) (w_db W))) (-4) ''wmF'' 1 1 1,
   command ''zincrby'' (wr (proc_zincrby (w_strtod W) (w_errno W) (w_fmt W) (w_db W))) 4 ''wmF'' 1 1 1,
   command ''zrem'' (wr (proc_zrem (w_db W))) (-3) ''wF'' 1 1 1,
   command ''zremrangebyscore'' (wr (proc_zremrangebyscore (w_strtod W) (w_fmt W) (w_db W))) 4 ''w'' 1 1 1,
   command ''zremrangebyrank'' (wr (proc_zremrangebyrank (w_strtod W) (w_fmt W) (w_db W))) 4 ''w'' 1 1 1,
   command ''zremrangebylex'' (opt_wr (proc_zremrangebylex (w_db W))) 4 ''w'' 1 1 1,
   command ''zrange'' (rd (proc_zrange (w_strtod W) (w_fmt W) (w_db W))) (-4) ''r'' 1 1 1,
   command ''zrangebyscore'' (rd (proc_zrangebyscore (w_strtod W) (w_fmt W) (w_db W))) (-4) ''r'' 1 1 1,
   command ''zrevrangebyscore'' (rd (proc_zrevrangebyscore (w_strtod W) (w_fmt W) (w_db W))) (-4) ''r'' 1 1 1,
   command ''zrangebylex'' (opt_rd (proc_zrangebylex (w_db W))) (-4) ''r'' 1 1 1,
   command ''zrevrangebylex'' (opt_rd (proc_zrevrangebylex (w_db W))) (-4) ''r'' 1 1 1,
   command ''zcount'' (wr (proc_zcount (w_strtod W) (w_fmt W) (w_db W))) 4 ''rF'' 1 1 1,
   command ''zlexcount'' (opt_rd (proc_zlexcount (w_db W))) 4 ''rF'' 1 1 1,
   command ''zrevrange'' (rd (proc_zrevrange (w_strtod W) (w_fmt W) (w_db W))) (-4) ''r'' 1 1 1,
   command ''zcard'' (rd (proc_zcard (w_db W))) 2 ''rF'' 1 1 1,
   command ''zscore'' (rd (proc_zscore (w_fmt W) (w_db W))) 3 ''rF'' 1 1 1,
   command ''zrank'' (rd (proc_zrank (w_strtod W) (w_db W))) 3 ''rF'' 1 1 1,
   command ''zrevrank'' (rd (proc_zrevrank (w_strtod W) (w_db W))) 3 ''rF'' 1 1 1,
   command ''zscan'' (sc (proc_zscan (w_fmt W) (w_db W) (w_time W))) (-3) ''rR'' 1 1 1,
   command ''hset'' (wr (proc_hset (w_db W))) 4 ''wmF'' 1 1 1,
   command ''hsetnx'' (wr (proc_hsetnx (w_db W))) 4 ''wmF'' 1 1 1,
   command ''hget'' (rd (proc_hget (w_db W))) 3 ''rF'' 1 1 1,
   command ''hmset'' (wr (proc_hmset (w_db W))) (-4) ''wm'' 1 1 1,
   command ''hmget'' (rd (proc_hmget (w_db W))) (-3) ''r'' 1 1 1,
   command ''hincrby'' (wr (proc_hincrby (w_db W))) 4 ''wmF'' 1 1 1,
   command ''hincrbyfloat'' (w_other W ''hincrbyfloat'') 4 ''wmF'' 1 1 1,
   command ''hdel'' (wr (proc_hdel (w_db W))) (-3) ''wF'' 1 1 1,
   command ''hlen'' (rd (proc_hlen (w_db W))) 2 ''rF'' 1 1 1,
   command ''hkeys'' (rd (proc_hkeys (w_db W))) 2 ''rS'' 1 1 1,
   command ''hvals'' (rd (proc_hvals (w_db W))) 2 ''rS'' 1 1 1,
   command ''hgetall'' (rd (proc_hgetall (w_db W))) 2 ''r'' 1 1 1,
   command ''hexists'' (rd (proc_hexists (w_db W))) 3 ''rF'' 1 1 1,
   command ''hscan'' (sc (proc_hscan (w_db W) (w_time W))) (-3) ''rR'' 1 1 1,
   command ''incrby'' (wr (proc_incr (w_db W))) 3 ''wmF'' 1 1 1,
   command ''decrby'' (wr (proc_decr (w_db W))) 3 ''wmF'' 1 1 1,
   command ''incrbyfloat'' (w_other W ''incrbyfloat'') 3 ''wmF'' 1 1 1,
   command ''getset'' (wr (proc_getset (w_db W))) 3 ''wm'' 1 1 1,
   command ''mset'' (wr (proc_mset (w_db W))) (-3) ''wm'' 1 (-1) 2,
   command ''select'' (rd (\<lambda>_. proc_select)) 2 ''lF'' 0 0 0,
   command ''expire'' (wr (proc_expire (w_db W) (w_now1 W) (w_now2 W))) 3 ''wF'' 1 1 1,
   command ''expireat'' (wr (proc_expireat (w_db W) (w_now1 W))) 3 ''wF'' 1 1 1,
   command ''pexpire'' (wr (proc_pexpire (w_db W) (w_now1 W) (w_now2 W))) 3 ''wF'' 1 1 1,
   command ''pexpireat'' (wr (proc_pexpireat (w_db W) (w_now1 W))) 3 ''wF'' 1 1 1,
   command ''keys'' (ends_rd (proc_keys (w_db W))) 2 ''rS'' 0 0 0,
   command ''scan'' (sc (proc_scan (w_db W) (w_time W))) (-2) ''rR'' 0 0 0,
   command ''dbsize'' (rd (\<lambda>_. proc_dbsize (w_num_keys W))) 1 ''rF'' 0 0 0,
   command ''ping'' (rd (\<lambda>_. proc_ping)) (-1) ''tF'' 0 0 0,
   command ''type'' (rd (proc_type (w_db W))) 2 ''rF'' 1 1 1,
   command ''flushdb'' (proc_flushdb (w_db W) (w_major W)) 1 ''w'' 0 0 0,
   command ''flushall'' (proc_flushdb (w_db W) (w_major W)) 1 ''w'' 0 0 0,
   command ''info'' (w_other W ''info'') (-1) ''lt'' 0 0 0,
   command ''ttl'' (rd (proc_ttl (w_db W) (w_now1 W))) 2 ''rF'' 1 1 1,
   command ''pttl'' (rd (proc_pttl (w_db W) (w_now1 W))) 2 ''rF'' 1 1 1,
   command ''persist'' (wr (proc_persist (w_db W))) 2 ''wF'' 1 1 1,
   command ''debug'' (w_other W ''debug'') (-1) ''as'' 0 0 0,
   command ''restore'' (opt_wr (proc_restore W)) (-4) ''wm'' 1 1 1,
   command ''restore-asking'' (opt_wr (proc_restore W)) (-4) ''wmk'' 1 1 1,
   command ''dump'' (rd (proc_dump W)) 2 ''r'' 1 1 1,
   command ''client'' (rd (\<lambda>_. proc_client)) (-2) ''as'' 0 0 0]"

definition CMD_WRITE :: int where "CMD_WRITE = 1"
definition CMD_READONLY :: int where "CMD_READONLY = 2"
definition CMD_DENYOOM :: int where "CMD_DENYOOM = 4"
definition CMD_ADMIN :: int where "CMD_ADMIN = 16"
definition CMD_PUBSUB :: int where "CMD_PUBSUB = 32"
definition CMD_NOSCRIPT :: int where "CMD_NOSCRIPT = 64"
definition CMD_RANDOM :: int where "CMD_RANDOM = 128"
definition CMD_SORT_FOR_SCRIPT :: int where "CMD_SORT_FOR_SCRIPT = 256"
definition CMD_LOADING :: int where "CMD_LOADING = 512"
definition CMD_STALE :: int where "CMD_STALE = 1024"
definition CMD_SKIP_MONITOR :: int where "CMD_SKIP_MONITOR = 2048"
definition CMD_ASKING :: int where "CMD_ASKING = 4096"
definition CMD_FAST :: int where "CMD_FAST = 8192"

definition flag_of :: "char \<Rightarrow> int" where
  "flag_of f =
     (if f = CHR ''w'' then CMD_WRITE
      else if f = CHR ''r'' then CMD_READONLY
      else if f = CHR ''m'' then CMD_DENYOOM
      else if f = CHR ''a'' then CMD_ADMIN
      else if f = CHR ''p'' then CMD_PUBSUB
      else if f = CHR ''s'' then CMD_NOSCRIPT
      else if f = CHR ''R'' then CMD_RANDOM
      else if f = CHR ''S'' then CMD_SORT_FOR_SCRIPT
      else if f = CHR ''l'' then CMD_LOADING
      else if f = CHR ''t'' then CMD_STALE
      else if f = CHR ''M'' then CMD_SKIP_MONITOR
      else if f = CHR ''k'' then CMD_ASKING
      else if f = CHR ''F'' then CMD_FAST
      else 0)"

type_synonym 'db ProcMap = "bytes \<rightharpoonup> 'db redisCommand"

definition getProc :: "'db ProcMap \<Rightarrow> bytes \<Rightarrow> 'db redisCommand option" where
  "getProc pm str = pm str"

definition regProc :: "'db redisCommand \<Rightarrow> 'db ProcMap \<Rightarrow> 'db ProcMap" where
  "regProc c pm = (case getProc pm (cmd_name c) of None \<Rightarrow> pm(cmd_name c \<mapsto> c) | Some _ \<Rightarrow> pm)"

definition regProcs :: "('db, 'it) world \<Rightarrow> 'db ProcMap" where
  "regProcs W =
     fold (\<lambda>c pm. regProc (c\<lparr>cmd_flags := fold (\<lambda>f flags. flags OR flag_of f) (cmd_sflags c) (cmd_flags c)\<rparr>) pm)
       (redisCommandTable W) Map.empty"

section \<open>The dispatcher\<close>

definition SERVER_RUNNING :: int where "SERVER_RUNNING = 1"
definition SERVER_LOADING :: int where "SERVER_LOADING = 2"

definition ReplyError :: "bytes \<Rightarrow> bytes \<Rightarrow> bytes" where
  "ReplyError msg response = response @ 45 # msg @ crlf"

text \<open>The response of a request: it appends to the output of the connection.\<close>

definition Response_new :: "bytes \<Rightarrow> Response" where
  "Response_new out = \<lparr>reply_output = out, reply_status = 0, resp_arr = []\<rparr>"

definition DealMessage ::
  "('db, 'it) world \<Rightarrow> int \<Rightarrow> bytes list \<Rightarrow> bytes \<Rightarrow> 'db vcdb \<Rightarrow> (int \<times> bytes \<times> 'db vcdb) option" where
  "DealMessage W status argv response v =
     (if argv = [] then Some (-2, ReplyError (ascii ''EMPTY REQUEST'') response, v)
      else (case getProc (regProcs W) (w_lower W (argv ! 0)) of
        None \<Rightarrow> Some (0, ReplyError (ascii ''COMMAND NOT FOUND'') response, v)
      | Some cmd \<Rightarrow>
          if status \<noteq> SERVER_RUNNING then
            if status = SERVER_LOADING \<and> cmd_flags cmd AND CMD_LOADING = 0 then Some (0, ReplyError (ascii ''LOADING'') response, v)
            else Some (-2, ReplyError (ascii ''SERVER NOT RUNNING'') response, v)
          else
            (case cmd_proc cmd argv (Response_new response) v of
               None \<Rightarrow> None
             | Some (resp, v) \<Rightarrow>
                 let response = reply_output resp in
                 Some (0, if response = [] then ReplyError (ascii ''EMPTY RESPONSE FOR '' @ SerializeRequest argv) response else response, v))))"

section \<open>One reply\<close>

text \<open>The text of a reply with the sizes as the program prints them, in 32 bits; with sizes below two to the 31 it is \<open>enc\<close>.\<close>

fun printed :: "reply \<Rightarrow> bytes" where
  "printed (RError t) = 45 # t @ crlf"
| "printed RNil = [36, 45, 49, 13, 10]"
| "printed (RStatus t) = 43 # t @ crlf"
| "printed (RString b) = bulk b"
| "printed (RInt i) = 58 # str_int64 i @ crlf"
| "printed (RArray rs) = 42 # fmt_size (length rs) @ crlf @ concat (map printed rs)"

fun sizes_ok :: "reply \<Rightarrow> bool" where
  "sizes_ok (RString b) \<longleftrightarrow> length b < 2 ^ 31"
| "sizes_ok (RArray rs) \<longleftrightarrow> length rs < 2 ^ 31 \<and> (\<forall>r \<in> set rs. sizes_ok r)"
| "sizes_ok _ \<longleftrightarrow> True"

lemma printed_enc: "sizes_ok r \<Longrightarrow> printed r = enc r"
proof (induction r rule: printed.induct)
  case (6 rs)
  have "concat (map printed rs) = concat (map enc rs)" using 6 by (intro arg_cong [of _ _ concat]) simp
  with 6(2) show ?case by (simp add: fmt_size_dec)
qed (simp_all add: bulk_enc)

definition answered :: "bytes \<Rightarrow> Response \<Rightarrow> bool" where
  "answered out resp \<longleftrightarrow> (\<exists>r. wf_reply r \<and> reply_output resp = out @ printed r)"

lemma answeredI: "wf_reply r \<Longrightarrow> reply_output resp = out @ printed r \<Longrightarrow> answered out resp"
  by (auto simp: answered_def)

lemma answered_enc: "wf_reply r \<Longrightarrow> sizes_ok r \<Longrightarrow> reply_output resp = out @ enc r \<Longrightarrow> answered out resp"
  using answeredI [of r resp out] printed_enc [of r] by simp

lemma answered_reply [simp]:
  "reply_output resp = out \<Longrightarrow> 13 \<notin> set t \<Longrightarrow> answered out (addReplyError t resp)"
  "reply_output resp = out \<Longrightarrow> answered out (addReplyErrorCode n resp)"
  "reply_output resp = out \<Longrightarrow> answered out (wrong_params resp)"
  "reply_output resp = out \<Longrightarrow> answered out (addReplyNil resp)"
  "reply_output resp = out \<Longrightarrow> 13 \<notin> set t \<Longrightarrow> answered out (addReplyStatus t resp)"
  "reply_output resp = out \<Longrightarrow> answered out (addReplyStatusOK resp)"
  "reply_output resp = out \<Longrightarrow> answered out (addReplyInt i resp)"
  "reply_output resp = out \<Longrightarrow> answered out (addReplyInt_u64 w resp)"
  "reply_output resp = out \<Longrightarrow> answered out (addReplyListEmpty resp)"
proof -
  show "reply_output resp = out \<Longrightarrow> 13 \<notin> set t \<Longrightarrow> answered out (addReplyError t resp)"
    "reply_output resp = out \<Longrightarrow> 13 \<notin> set t \<Longrightarrow> answered out (addReplyStatus t resp)"
    by (auto intro: answered_enc [of "RError t"] answered_enc [of "RStatus t"])
  show "reply_output resp = out \<Longrightarrow> answered out (addReplyErrorCode n resp)"
    by (rule answered_enc [of "RError (GetErrorInfo n)"]) (simp_all add: GetErrorInfo_line)
  show "reply_output resp = out \<Longrightarrow> answered out (wrong_params resp)"
    by (rule answered_enc [of "RError (ascii ''ERR wrong number of arguments'')"]) (simp_all add: wrong_params_def ascii_line)
  show "reply_output resp = out \<Longrightarrow> answered out (addReplyStatusOK resp)"
    by (rule answered_enc [of "RStatus (ascii ''OK'')"]) (simp_all add: ascii_line)
  show "reply_output resp = out \<Longrightarrow> answered out (addReplyNil resp)" by (rule answered_enc [of RNil]) simp_all
  show "reply_output resp = out \<Longrightarrow> answered out (addReplyInt i resp)" by (rule answered_enc [of "RInt i"]) simp_all
  show "reply_output resp = out \<Longrightarrow> answered out (addReplyInt_u64 w resp)" by (rule answered_enc [of "RInt (uint w)"]) simp_all
  show "reply_output resp = out \<Longrightarrow> answered out (addReplyListEmpty resp)" by (rule answered_enc [of "RArray []"]) simp_all
qed

lemma answered_text [simp]:
  "reply_output resp = out \<Longrightarrow> answered out (addReplyString x resp)"
  "reply_output resp = out \<Longrightarrow> answered out (addReplyDouble fmt d resp)"
  "reply_output resp = out \<Longrightarrow> answered out (convertReplyToList resp)"
proof -
  show "reply_output resp = out \<Longrightarrow> answered out (addReplyString x resp)"
    by (rule answeredI [of "RString x"]) (simp_all add: addReplyString_def emit_def)
  show "reply_output resp = out \<Longrightarrow> answered out (addReplyDouble fmt d resp)"
    by (rule answeredI [of "RString (ld2string fmt 128 d)"]) (simp_all add: addReplyDouble_def emit_def)
  have "concat (map printed (map RString xs)) = concat (map bulk xs)" for xs by (simp add: comp_def)
  then show "reply_output resp = out \<Longrightarrow> answered out (convertReplyToList resp)"
    by (intro answeredI [of "RArray (map RString (resp_arr resp))"]) (auto simp: convertReplyToList_def emit_def)
qed

lemma answered_scan: "convertReplyToScanResult resp = Inr resp' \<Longrightarrow> reply_output resp = out \<Longrightarrow> answered out resp'"
proof (cases "resp_arr resp")
  case (Cons c rest)
  assume "convertReplyToScanResult resp = Inr resp'" "reply_output resp = out"
  moreover have "concat (map printed (map RString xs)) = concat (map bulk xs)" for xs by (simp add: comp_def)
  ultimately show ?thesis
    by (intro answeredI [of "RArray [RString c, RArray (map RString rest)]"])
      (auto simp: convertReplyToScanResult_def Cons emit_def addReplyString_def addReplyListHead_def numeral_2_eq_2)
qed (simp add: convertReplyToScanResult_def)

text \<open>The replies of MGET and HMGET: a head and a string or nil for every element.\<close>

definition list_elem :: "bytes option \<Rightarrow> Response \<Rightarrow> Response" where
  "list_elem x resp = (case x of None \<Rightarrow> addReplyNil resp | Some v \<Rightarrow> addReplyString v resp)"

lemma answered_elems: "answered (reply_output resp) (fold (\<lambda>k. list_elem (f k)) ks (addReplyListHead (length ks) resp))"
proof -
  let ?r = "\<lambda>k. case f k of None \<Rightarrow> RNil | Some v \<Rightarrow> RString v"
  have "reply_output (list_elem (f k) resp) = reply_output resp @ printed (?r k)" for k resp
    by (simp add: list_elem_def addReplyString_def emit_def printed_enc split: option.split)
  then have "reply_output (fold (\<lambda>k. list_elem (f k)) ks resp) = reply_output resp @ concat (map printed (map ?r ks))" for resp
    by (induction ks arbitrary: resp) simp_all
  then show ?thesis
    by (intro answeredI [of "RArray (map ?r ks)"]) (auto simp: addReplyListHead_def emit_def split: option.split)
qed

text \<open>A handler answers when it appends one well-formed reply whenever it returns.\<close>

definition answers :: "'db handler \<Rightarrow> bool" where
  "answers h \<longleftrightarrow> (\<forall>req resp v resp' v'. h req resp v = Some (resp', v') \<longrightarrow> answered (reply_output resp) resp')"

lemma answers_rd: "(\<And>s req resp. answered (reply_output resp) (h s req resp)) \<Longrightarrow> answers (rd h)"
  by (simp add: answers_def rd_def)

lemma answers_wr: "(\<And>s req resp. answered (reply_output resp) (fst (h s req resp))) \<Longrightarrow> answers (wr h)"
  unfolding answers_def wr_def by (auto split: prod.splits) (metis fst_conv)

lemma answers_sc: "(\<And>s t req resp resp' t'. h s t req resp = Inr (resp', t') \<Longrightarrow> answered (reply_output resp) resp') \<Longrightarrow> answers (sc h)"
  by (fastforce simp: answers_def sc_def split: sum.splits prod.splits)

lemma answers_opt_rd: "(\<And>s req resp resp'. h s req resp = Some resp' \<Longrightarrow> answered (reply_output resp) resp') \<Longrightarrow> answers (opt_rd h)"
  by (fastforce simp: answers_def opt_rd_def)

lemma answers_opt_wr: "(\<And>s req resp resp' s'. h s req resp = Some (resp', s') \<Longrightarrow> answered (reply_output resp) resp') \<Longrightarrow> answers (opt_wr h)"
  by (fastforce simp: answers_def opt_wr_def)

lemma answers_ends_rd: "(\<And>s req resp resp'. h s req resp = Inr resp' \<Longrightarrow> answered (reply_output resp) resp') \<Longrightarrow> answers (ends_rd h)"
  by (fastforce simp: answers_def ends_rd_def split: sum.splits)

named_theorems handler_answers

lemma hash_answers [handler_answers]:
  "answers (rd (proc_hexists R))" "answers (wr (proc_hmset R))" "answers (wr (proc_hdel R))" "answers (rd (proc_hlen R))"
  "answers (wr (proc_hset R))" "answers (wr (proc_hsetnx R))" "answers (rd (proc_hget R))" "answers (rd (proc_hgetall R))"
  "answers (rd (proc_hkeys R))" "answers (rd (proc_hvals R))" "answers (wr (proc_hincrby R))"
  by ((rule answers_rd answers_wr,
      simp add: proc_hexists_def proc_hmset_def proc_hdel_def proc_hlen_def proc_hset_def proc_hsetnx_def proc_hget_def
        proc_hgetall_def proc_hkeys_def proc_hvals_def proc_hincrby_def hgetall_reply_def reply_added_def ascii_line
        split: prod.split)+)

lemma mget_answers [handler_answers]: "answers (rd (proc_hmget R))" "answers (rd (proc_mget R))"
proof -
  have e: "(\<lambda>k resp. case m k of None \<Rightarrow> addReplyNil resp | Some v \<Rightarrow> addReplyString v resp) = (\<lambda>k. list_elem (m k))" for m
    by (simp add: list_elem_def fun_eq_iff)
  show "answers (rd (proc_hmget R))"
  proof (rule answers_rd)
    fix s req resp
    show "answered (reply_output resp) (proc_hmget R s req resp)"
      using answered_elems [of resp _ "drop 2 req"] by (simp add: proc_hmget_def Let_def e split: prod.split)
  qed
  have g: "(\<lambda>key resp. case kv_get R s key [] of (ret, val) \<Rightarrow> if ret < 1 then addReplyNil resp else addReplyString val resp) =
      (\<lambda>k. list_elem (case kv_get R s k [] of (ret, val) \<Rightarrow> if ret < 1 then None else Some val))" for s
    by (auto simp: list_elem_def fun_eq_iff split: prod.split)
  show "answers (rd (proc_mget R))"
  proof (rule answers_rd)
    fix s req resp
    show "answered (reply_output resp) (proc_mget R s req resp)"
      using answered_elems [of resp _ "drop 1 req"] by (simp add: proc_mget_def g)
  qed
qed

lemma set_answers [handler_answers]:
  "answers (wr (proc_sadd R))" "answers (wr (proc_srem R))" "answers (rd (proc_scard R))" "answers (rd (proc_sismember R))"
  "answers (rd (proc_smembers R))" "answers (wr (proc_spop R n))" "answers (rd (proc_srandmember R n))"
  by ((rule answers_rd answers_wr,
      simp add: proc_sadd_def proc_srem_def proc_scard_def proc_sismember_def proc_smembers_def proc_spop_def proc_srandmember_def
        split: prod.split)+)

lemma list_answers [handler_answers]:
  "answers (rd (proc_llen R))" "answers (wr (proc_lpush R))" "answers (wr (proc_lpushx R))" "answers (wr (proc_rpush R))"
  "answers (wr (proc_rpushx R))" "answers (wr (proc_lpop R))" "answers (wr (proc_rpop R))" "answers (wr (proc_ltrim R))"
  "answers (rd (proc_lrange R))" "answers (rd (proc_lindex R))" "answers (wr (proc_lset R))"
  by ((rule answers_rd answers_wr,
      simp add: proc_llen_def proc_lpush_def proc_lpushx_def proc_rpush_def proc_rpushx_def proc_lpop_def proc_rpop_def
        proc_ltrim_def proc_lrange_def proc_lindex_def proc_lset_def push_reply_def pop_reply_def ascii_line
        split: prod.split)+)

lemma scan_answers [handler_answers]:
  "answers (sc (proc_scan R now))" "answers (sc (proc_hscan R now))" "answers (sc (proc_sscan R now))" "answers (sc (proc_zscan fmt R now))"
proof -
  have h: "scan_handler i b op t req resp = Inr (resp', t') \<Longrightarrow> answered (reply_output resp) resp'" for i b op t req resp resp' t'
    by (auto simp: scan_handler_def Let_def answered_scan split: sum.splits prod.splits if_splits)
  show "answers (sc (proc_scan R now))" "answers (sc (proc_hscan R now))" "answers (sc (proc_sscan R now))" "answers (sc (proc_zscan fmt R now))"
    unfolding proc_scan_def proc_hscan_def proc_sscan_def proc_zscan_def by ((rule answers_sc, erule h)+)
qed

lemma string_answers [handler_answers]:
  "answers (rd (proc_get R))" "answers (wr (proc_getset R))" "answers (wr (proc_append R))" "answers (wr (proc_set R a b))"
  "answers (wr (proc_setnx R a b))" "answers (wr (proc_setex R a b))" "answers (wr (proc_psetex R a b))" "answers (wr (proc_mset R))"
  "answers (wr (proc_incr R))" "answers (wr (proc_decr R))" "answers (rd (proc_getbit R))" "answers (wr (proc_setbit R))"
  "answers (rd (proc_getrange R))" "answers (wr (proc_setrange R))" "answers (rd (proc_strlen R))"
  by ((rule answers_rd answers_wr,
      simp add: proc_get_def proc_getset_def proc_append_def proc_set_def proc_setnx_def proc_setex_def proc_psetex_def setex_reply_def
        proc_mset_def proc_incr_def proc_decr_def incr_reply_def proc_getbit_def proc_setbit_def proc_getrange_def proc_setrange_def
        proc_strlen_def Let_def ascii_line
        split: prod.split sum.split)+)

lemma key_answers [handler_answers]:
  "answers (rd (proc_type R))" "answers (rd (proc_pttl R now))" "answers (rd (proc_ttl R now))" "answers (wr (proc_pexpire R a b))"
  "answers (wr (proc_expire R a b))" "answers (wr (proc_expireat R now))" "answers (wr (proc_pexpireat R now))"
  "answers (wr (proc_persist R))" "answers (rd (proc_exists R))" "answers (wr (proc_del R))"
proof -
  have "13 \<notin> set (ascii (snd (type_cmd R s key)))" for s key
    by (auto simp: type_cmd_def Let_def ascii_line split: get_result.split)
  then show "answers (rd (proc_type R))" by (intro answers_rd) (simp add: proc_type_def split_def)
  show "answers (rd (proc_pttl R now))" "answers (rd (proc_ttl R now))" "answers (wr (proc_pexpire R a b))"
    "answers (wr (proc_expire R a b))" "answers (wr (proc_expireat R now))" "answers (wr (proc_pexpireat R now))"
    "answers (wr (proc_persist R))" "answers (rd (proc_exists R))" "answers (wr (proc_del R))"
    by ((rule answers_rd answers_wr,
        simp add: proc_pttl_def proc_ttl_def proc_pexpire_def proc_expire_def proc_expireat_def proc_pexpireat_def deadline_reply_def
          proc_persist_def proc_exists_def proc_del_def
          split: prod.split option.split)+)
qed

lemma keys_answers [handler_answers]: "answers (ends_rd (proc_keys R))"
  by (rule answers_ends_rd) (auto simp: proc_keys_def split: sum.splits)

lemma range_options_line: "range_options w bad req acc = Inl e \<Longrightarrow> 13 \<notin> set bad \<Longrightarrow> 13 \<notin> set e"
proof (induction w bad req acc rule: range_options.induct)
  case (2 scores bad t rest ws off lim)
  show ?case
  proof (cases "scores \<and> same_word t ''withscores''")
    case True
    with 2 show ?thesis by simp
  next
    case word: False
    then consider "e = GetErrorInfo SYNTAX_ERR" | "e = bad"
      | a b rest' off' lim' where "rest = a # b # rest'" "same_word t ''limit''" "string2ld a = Inr off'" "string2ld b = Inr lim'"
        "range_options scores bad rest' (ws, off', lim') = Inl e"
      using 2(3) by (auto split: list.splits if_splits sum.splits)
    then show ?thesis
    proof cases
      case 3
      from 2(2) [OF word 3(1) refl 3(2-4)] 3(5) 2(4) show ?thesis by blast
    qed (use 2(4) GetErrorInfo_line in simp_all)
  qed
qed simp

lemma zset_answers [handler_answers]:
  "answers (wr (proc_zadd strtod er fmt R))" "answers (wr (proc_zrem R))" "answers (rd (proc_zcard R))" "answers (rd (proc_zscore fmt R))"
  "answers (rd (proc_zrank strtod R))" "answers (rd (proc_zrevrank strtod R))" "answers (rd (proc_zrange strtod fmt R))"
  "answers (rd (proc_zrevrange strtod fmt R))" "answers (wr (proc_zincrby strtod er fmt R))" "answers (wr (proc_zcount strtod fmt R))"
  "answers (wr (proc_zremrangebyscore strtod fmt R))" "answers (wr (proc_zremrangebyrank strtod fmt R))"
  by ((rule answers_rd answers_wr,
      simp add: proc_zadd_def zadd_incr_def proc_zrem_def proc_zcard_def proc_zscore_def proc_zrank_def proc_zrevrank_def rank_reply_def
        proc_zrange_def proc_zrevrange_def zrange_reply_def array_reply_def proc_zincrby_def proc_zcount_def proc_zremrangebyscore_def
        proc_zremrangebyrank_def count_reply_def Let_def ascii_line
        split: prod.split)+)

lemma zset_range_answers [handler_answers]:
  "answers (rd (proc_zrangebyscore strtod fmt R))" "answers (rd (proc_zrevrangebyscore strtod fmt R))"
  "answers (opt_rd (proc_zrangebylex R))" "answers (opt_rd (proc_zrevrangebylex R))" "answers (opt_wr (proc_zremrangebylex R))"
  "answers (opt_rd (proc_zlexcount R))"
proof -
  have s: "answered (reply_output resp) (zrangebyscore_reply strtod fmt R s b req resp)" for s b req resp
    using range_options_line [of True "ascii ''ERR min or max is not a float''" "drop 4 req" "(False, 0, -1)"]
    by (auto simp: zrangebyscore_reply_def array_reply_def Let_def ascii_line split: sum.split prod.split)
  then show "answers (rd (proc_zrangebyscore strtod fmt R))" "answers (rd (proc_zrevrangebyscore strtod fmt R))"
    by (intro answers_rd; simp add: proc_zrangebyscore_def proc_zrevrangebyscore_def)+
  have l: "answered (reply_output resp) resp'" if "zrangebylex_reply R s b req resp = Some resp'" for s b req resp resp'
    using that range_options_line [of False "GetErrorInfo NAN_SCORE" "drop 4 req" "(False, 0, -1)"]
    by (auto simp: zrangebylex_reply_def Let_def GetErrorInfo_line split: sum.splits prod.splits if_splits)
  then show "answers (opt_rd (proc_zrangebylex R))" "answers (opt_rd (proc_zrevrangebylex R))"
    by (intro answers_opt_rd; simp add: proc_zrangebylex_def proc_zrevrangebylex_def)+
  show "answers (opt_wr (proc_zremrangebylex R))"
    by (rule answers_opt_wr) (auto simp: proc_zremrangebylex_def count_reply_def split: if_splits prod.splits)
  show "answers (opt_rd (proc_zlexcount R))"
    by (rule answers_opt_rd) (auto simp: proc_zlexcount_def split: if_splits prod.splits)
qed

lemma restore_payload_text:
  assumes "restore_payload E s key ttl data mk mv = Some (Inr (ret, val), s')"
  shows "13 \<notin> set val"
proof -
  have e: "13 \<notin> set (fst (snd (restore_expire E s key ttl t c)))" for s t c
    by (auto simp: restore_expire_def split: prod.split)
  obtain ok d rdbtype d' where d: "verifyDumpPayload (re_crc E) data = (ok, d)" "rdbLoadObjectType d = (rdbtype, d')"
    by (metis prod.exhaust)
  show ?thesis
  proof (cases ok)
    case True
    with assms d obtain r s1 where r: "restore_value E s key ttl mk mv rdbtype d' = Some (r, s1)"
      by (auto simp: restore_payload_def)
    show ?thesis
    proof (cases r)
      case (Inr c)
      with assms d True r show ?thesis
        by (cases c) (use e in \<open>auto simp: restore_payload_def split: prod.splits\<close>, metis fst_conv snd_conv)
    qed (use assms d True r in \<open>simp add: restore_payload_def\<close>)
  next
    case False
    with assms d show ?thesis by (auto simp: restore_payload_def)
  qed
qed

lemma restore_text: "restore E s key ttl data replace = Some (Inr (ret, val), s') \<Longrightarrow> 13 \<notin> set val"
  by (auto simp: restore_def Let_def dest: restore_payload_text split: get_result.splits if_splits prod.splits)

lemma server_answers [handler_answers]:
  "answers (rd (\<lambda>_. proc_select))" "answers (rd (\<lambda>_. proc_client))" "answers (rd (\<lambda>_. proc_ping))"
  "answers (rd (\<lambda>_. proc_dbsize p))" "answers (rd (proc_dump W))" "answers (proc_flushdb R major)" "answers (opt_wr (proc_restore W))"
proof -
  show "answers (rd (\<lambda>_. proc_select))" "answers (rd (\<lambda>_. proc_client))" "answers (rd (\<lambda>_. proc_ping))"
    "answers (rd (\<lambda>_. proc_dbsize p))" "answers (rd (proc_dump W))"
    by ((rule answers_rd, simp add: proc_select_def proc_client_def proc_ping_def proc_dbsize_def proc_dump_def ascii_line split: prod.split)+)
  show "answers (proc_flushdb R major)"
    by (auto simp: answers_def proc_flushdb_def)
  show "answers (opt_wr (proc_restore W))"
    by (rule answers_opt_wr) (auto simp: proc_restore_def dest: restore_text split: if_splits prod.splits option.splits sum.splits)
qed

section \<open>Every request is answered once\<close>

text \<open>The commands whose handlers are parameters of the model.\<close>

definition not_modelled :: "bytes list" where
  "not_modelled = map ascii [''incrbyfloat'', ''hincrbyfloat'', ''info'', ''debug'']"

lemma table_answers: "c \<in> set (redisCommandTable W) \<Longrightarrow> cmd_name c \<notin> set not_modelled \<Longrightarrow> answers (cmd_proc c)"
  by (simp add: redisCommandTable_def) (elim disjE; simp add: command_def not_modelled_def handler_answers)

definition with_flags :: "'db redisCommand \<Rightarrow> 'db redisCommand" where
  "with_flags c = c\<lparr>cmd_flags := fold (\<lambda>f flags. flags OR flag_of f) (cmd_sflags c) (cmd_flags c)\<rparr>"

lemma with_flags_simps [simp]: "cmd_name (with_flags c) = cmd_name c" "cmd_proc (with_flags c) = cmd_proc c"
  by (simp_all add: with_flags_def)

lemma regProc_old: "pm n = Some c \<Longrightarrow> regProc c' pm n = Some c"
  by (auto simp: regProc_def getProc_def split: option.split)

lemma regs_old: "pm n = Some c \<Longrightarrow> fold (\<lambda>c. regProc (with_flags c)) cs pm n = Some c"
  by (induction cs arbitrary: pm) (simp_all add: regProc_old)

lemma regs_from: "fold (\<lambda>c. regProc (with_flags c)) cs pm n = Some c \<Longrightarrow>
   pm n = Some c \<or> (\<exists>c0 \<in> set cs. c = with_flags c0 \<and> cmd_name c0 = n)"
proof (induction cs arbitrary: pm)
  case (Cons c0 cs)
  have "pm n = Some c \<or> c = with_flags c0 \<and> cmd_name c0 = n" if "regProc (with_flags c0) pm n = Some c"
    using that by (auto simp: regProc_def getProc_def split: option.splits if_splits)
  moreover have "regProc (with_flags c0) pm n = Some c \<or> (\<exists>c0 \<in> set cs. c = with_flags c0 \<and> cmd_name c0 = n)"
    using Cons.IH Cons.prems by simp
  ultimately show ?case by auto
qed simp

lemma regs_new: "c \<in> set cs \<Longrightarrow> distinct (map cmd_name cs) \<Longrightarrow> pm (cmd_name c) = None \<Longrightarrow>
   fold (\<lambda>c. regProc (with_flags c)) cs pm (cmd_name c) = Some (with_flags c)"
proof (induction cs arbitrary: pm)
  case (Cons c0 cs)
  show ?case
  proof (cases "c = c0")
    case True
    have "regProc (with_flags c0) pm (cmd_name c0) = Some (with_flags c0)"
      using Cons.prems(3) True by (simp add: regProc_def getProc_def)
    with True show ?thesis by (simp add: regs_old)
  next
    case False
    then have c: "c \<in> set cs" "cmd_name c \<noteq> cmd_name c0" using Cons.prems by (auto simp: image_iff)
    then have "regProc (with_flags c0) pm (cmd_name c) = None"
      using Cons.prems(3) by (auto simp: regProc_def getProc_def split: option.split)
    with c Cons show ?thesis by simp
  qed
qed simp

lemma regProcs_eq: "regProcs W = fold (\<lambda>c. regProc (with_flags c)) (redisCommandTable W) Map.empty"
  by (simp add: regProcs_def with_flags_def)

lemma registered: "getProc (regProcs W) n = Some c \<Longrightarrow> \<exists>c0 \<in> set (redisCommandTable W). c = with_flags c0 \<and> cmd_name c0 = n"
  using regs_from [of "redisCommandTable W" Map.empty n c] by (simp add: regProcs_eq getProc_def)

text \<open>No name occurs twice, so every command of the table is registered.\<close>

lemma ascii_inj: "ascii a = ascii b \<longleftrightarrow> a = b"
proof -
  have "inj (of_char :: char \<Rightarrow> byte)"
  proof (rule injI)
    fix x y :: char
    have u: "unat (of_char z :: byte) = of_char z" for z
    proof -
      have "unat (of_char z :: byte) = unat (word_of_nat (of_char z) :: byte)" by (simp only: of_nat_of_char)
      then show ?thesis by (simp add: unat_of_nat)
    qed
    assume "of_char x = (of_char y :: byte)"
    then have "of_char x = (of_char y :: nat)" by (metis u)
    then show "x = y" by (metis char_of_char)
  qed
  then show ?thesis by (simp add: ascii_def inj_map_eq_map)
qed

lemma table_distinct: "distinct (map cmd_name (redisCommandTable W))"
  by (simp add: redisCommandTable_def command_def ascii_inj)

lemma table_registered: "c \<in> set (redisCommandTable W) \<Longrightarrow> getProc (regProcs W) (cmd_name c) = Some (with_flags c)"
  using regs_new [OF _ table_distinct, of c W Map.empty] by (simp add: regProcs_eq getProc_def)

text \<open>A running server runs the handler of the table.\<close>

lemma dispatch:
  assumes "c \<in> set (redisCommandTable W)" "argv \<noteq> []" "w_lower W (argv ! 0) = cmd_name c"
    and "cmd_proc c argv (Response_new response) v = Some (resp, v')" "reply_output resp \<noteq> []"
  shows "DealMessage W SERVER_RUNNING argv response v = Some (0, reply_output resp, v')"
  using assms table_registered [OF assms(1)] by (simp add: DealMessage_def)

text \<open>
  The commands whose handlers may end the process, by a read outside an array or a string or by an exception nobody catches: the scans
  of a key that does not exist (\<open>scan_missing_key\<close>) and patterns that \<^verbatim>\<open>stringmatchlen\<close> reads beyond, an empty bound of a range by
  name, payloads of RESTORE; and those that call \<open>flushdb\<close>, whose loop need not end when the store misbehaves.
\<close>

definition may_end :: "bytes list" where
  "may_end = map ascii [''scan'', ''hscan'', ''sscan'', ''zscan'', ''keys'', ''zrangebylex'', ''zrevrangebylex'', ''zremrangebylex'',
     ''zlexcount'', ''restore'', ''restore-asking'', ''flushdb'', ''flushall'']"

definition always_returns :: "'db handler \<Rightarrow> bool" where
  "always_returns h \<longleftrightarrow> (\<forall>req resp v. h req resp v \<noteq> None)"

lemma shapes_return: "always_returns (rd h)" "always_returns (wr h')"
  by (auto simp: always_returns_def rd_def wr_def split: prod.split)

lemma table_returns:
  "c \<in> set (redisCommandTable W) \<Longrightarrow> cmd_name c \<notin> set not_modelled \<Longrightarrow> cmd_name c \<notin> set may_end \<Longrightarrow> always_returns (cmd_proc c)"
  by (simp add: redisCommandTable_def) (elim disjE; simp add: command_def not_modelled_def may_end_def shapes_return)

lemma dispatch_errors:
  assumes "argv = [] \<or> getProc (regProcs W) (w_lower W (argv ! 0)) = None \<or> status \<noteq> SERVER_RUNNING"
  shows "\<exists>code t. DealMessage W status argv response v = Some (code, ReplyError (ascii t) response, v) \<and> CHR 0x0D \<notin> set t"
proof -
  have "CHR 0x0D \<notin> set t" if "t \<in> {''EMPTY REQUEST'', ''COMMAND NOT FOUND'', ''LOADING'', ''SERVER NOT RUNNING''}" for t
    using that by auto
  then show ?thesis using assms by (fastforce simp: DealMessage_def split: option.split)
qed


text \<open>HSET without enough arguments on an empty store.\<close>

definition example_world :: "((bytes \<times> bytes) list, (bytes \<times> bytes) list \<times> (bytes \<times> bytes) list) world" where
  "example_world = \<lparr>w_db = mem_rocksdb, w_now1 = 1, w_now2 = 1, w_time = 1, w_rand = 0, w_strtod = bits_strtod, w_scanf = (\<lambda>_. None),
     w_fmt = raw64, w_crc = (\<lambda>_. 0), w_mem = (\<lambda>n. replicate n 0), w_htab = (\<lambda>_. 0), w_errno = E_NONE, w_major = 5, w_num_keys = None,
     w_lower = strtolower, w_other = (\<lambda>_ _ resp v. Some (resp, v))\<rparr>"


text \<open>What a handler that appends nothing does: alone it is reported, behind other replies it is silent.\<close>

lemma silent_command:
  assumes "getProc (regProcs W) (w_lower W (argv ! 0)) = Some cmd" "argv \<noteq> []"
    and "cmd_proc cmd argv (Response_new response) v = Some (resp, v')" "reply_output resp = response"
  shows "DealMessage W SERVER_RUNNING argv response v =
    Some (0, if response = [] then enc (RError (ascii ''EMPTY RESPONSE FOR '' @ SerializeRequest argv)) else response, v')"
  using assms by (simp add: DealMessage_def ReplyError_def)

text \<open>While the server loads, also the commands that the table allows then are refused.\<close>

lemma loading_refused:
  assumes "argv \<noteq> []"
  shows "\<exists>code t. DealMessage W SERVER_LOADING argv response v = Some (code, response @ enc (RError (ascii t)), v)"
  using assms by (auto simp: DealMessage_def ReplyError_def SERVER_LOADING_def SERVER_RUNNING_def split: option.split)

end
