(* ===== verification/Spec2Isabelle.thy ===== *)
theory Spec2Isabelle
  imports THash TSet TList Strings Deadlines TKv ZLex Lifecycle Interleave KeySpace Locks TScan Numbers Server
begin

text \<open>
  \<^bold>\<open>A verification of the storage engine of VCDB.\<close>

  VCDB is a server that speaks the Redis protocol and keeps its data in RocksDB. Its core is
  the class \<^verbatim>\<open>SSDBImpl\<close> under \<^verbatim>\<open>src/src/storage/\<close>: it maps the strings, hashes, lists,
  sets and sorted sets of Redis to the ordered byte strings of one RocksDB database. Above it stand
  the handlers of the commands under \<^verbatim>\<open>src/src/proc/\<close>, the class \<^verbatim>\<open>Response\<close> and the dispatcher of a
  connection, \<^verbatim>\<open>ClientConn.cpp\<close>; beside it the RDB serialisation of \<^verbatim>\<open>DUMP\<close> and \<^verbatim>\<open>RESTORE\<close> with the Redis data
  structures it reads. This development models them operation by operation, and proves that the operations
  do to abstract maps, lists and sets what the commands promise, from the request to the bytes of the
  reply.

  \<^bold>\<open>How the program works.\<close> A key has one meta value, which holds the type, a
  16-bit version, a mark (enabled or deleted) and the size or the string itself. The elements are
  entries of their own under the key, the version and the field. A sorted set has a second
  family of entries ordered by score. Deleting a key marks the meta value and writes a
  delete key; a background thread removes the entries of the old version later, and a key
  that is written again continues with the next version. Deadlines are kept in two more families
  of entries, by key and by time, and the next ones in memory, where a second thread looks
  for keys that are due.

  \<^bold>\<open>The theories.\<close>

  \<^item> \<open>Prelude\<close>: bytes and machine words, big- and little-endian coding, the lexicographic order
    of byte strings.
  \<^item> \<open>RocksDB\<close>: the engine as a parameter, a record of the operations the sources call, with
    its documented behaviour in the locales \<open>rocksdb_laws\<close>, \<open>rocksdb_healthy\<close>, \<open>rocksdb_iter\<close>,
    \<open>rocksdb_rev\<close> and \<open>rocksdb_range\<close>. An in-memory engine interprets all of them; the
    witnesses run on it.
  \<^item> \<open>Codec\<close> (\<^verbatim>\<open>codec/kv/encode.cpp\<close>, \<^verbatim>\<open>decode.cpp\<close>, \<^verbatim>\<open>codec/util.h\<close>, \<^verbatim>\<open>util/bytes.h\<close>): every
    encoder and decoder of keys and meta values and the coding of scores. Decoding inverts
    encoding, keys of different kinds and owners differ, and the byte order of score keys is the
    numeric order of the scores.
  \<^item> \<open>Strings\<close> (\<^verbatim>\<open>util/strings.h\<close>): decimal text of 64-bit integers, printed and parsed.
  \<^item> \<open>Floats\<close>: the arithmetic of IEEE doubles that sorted sets use, on 64-bit words.
  \<^item> \<open>SortedSet\<close> (\<^verbatim>\<open>util/sorted_set.h\<close>): the ordered set of deadlines in memory.
  \<^item> \<open>Iterators\<close> (\<^verbatim>\<open>storage/iterator.cpp\<close>): the bounded iterator in both directions and the
    typed iterators; started at the prefix of a key they yield exactly its fields in order.
  \<^item> \<open>Store\<close> (\<^verbatim>\<open>storage/ssdb_impl.cpp\<close>, \<^verbatim>\<open>t_eset.cpp\<close>): the state of \<^verbatim>\<open>SSDBImpl\<close>, batch commit and
    the entries of deadlines.
  \<^item> \<open>Expiration\<close> and \<open>Deadlines\<close> (\<^verbatim>\<open>storage/ttl.cpp\<close>, deletion in \<^verbatim>\<open>t_kv.cpp\<close>): the expiration
    handler, the turn of its thread and the deletion of keys; the index of deadlines stays
    consistent and every due key is deleted.
  \<^item> \<open>Collection\<close>: the contract of the types with a counter, hashes, sets and sorted sets, as
    the locale \<open>collection\<close>, interpreted by each of them.
  \<^item> \<open>THash\<close>, \<open>TSet\<close>, \<open>TList\<close>, \<open>TKv\<close> (\<^verbatim>\<open>storage/t_hash.cpp\<close>, \<^verbatim>\<open>t_set.cpp\<close>, \<^verbatim>\<open>t_list.cpp\<close>,
    \<^verbatim>\<open>t_kv.cpp\<close> and their headers): the commands on hashes, sets, lists, strings and bitmaps. The
    predicates \<open>hash_rep\<close>, \<open>set_rep\<close>, \<open>list_rep\<close> and \<open>kv_rep\<close> relate the stored bytes to a map, a
    set, a list or a string; each command refines its abstract counterpart.
  \<^item> \<open>TZset\<close>, \<open>ZRange\<close>, \<open>ZLex\<close> (\<^verbatim>\<open>storage/t_zset.cpp\<close>, \<^verbatim>\<open>t_zset.h\<close>): sorted sets; updates, ranks and
    ranges by position, by score and by name.
  \<^item> \<open>BgDelete\<close>, \<open>Reclaim\<close> (\<^verbatim>\<open>storage/ssdb_impl.cpp\<close>): background deletion, its thread as the step relation \<open>bg_step\<close>, and the
    invariant \<open>gc_inv\<close> that the thread keeps, and with it every change of the store that works on one version of a key
    (\<open>client_step\<close>).
  \<^item> \<open>Lifecycle\<close>, \<open>ClientSteps\<close>: the writing commands of hashes, sets, string values, sorted sets and lists make such changes; \<^verbatim>\<open>FLUSHDB\<close>, and what it
    leaves behind in memory.
  \<^item> \<open>Interleave\<close>: runs of the thread beside these commands and beside DEL and the expiration, which take no lock and come in two halves.
    The invariant holds in every run in which nothing touches a key between the two halves of its deletion; \<open>multi_del_race\<close> shows
    that it is lost otherwise.
  \<^item> \<open>Lzf\<close>, \<open>Rdb\<close>, \<open>Ziplist\<close> (\<^verbatim>\<open>redis/lzf_c.c\<close>, \<^verbatim>\<open>lzf_d.c\<close>, \<^verbatim>\<open>ziplist.c\<close>, \<^verbatim>\<open>intset.c\<close>, \<^verbatim>\<open>codec/rdb/\<close>): compression and
    decompression, the encoder and decoder of the RDB format, and the reading of ziplists and intsets, with their
    round trips.
  \<^item> \<open>Quick\<close>, \<open>Dump\<close>, \<open>DumpRestore\<close>, \<open>Compact\<close>, \<open>KeySpace\<close> (\<^verbatim>\<open>storage/t_keys.cpp\<close> and the writers in the headers of the types):
    \<^verbatim>\<open>DUMP\<close>, \<^verbatim>\<open>RESTORE\<close>, \<^verbatim>\<open>TYPE\<close> and \<^verbatim>\<open>EXISTS\<close>. A dumped value of any type is restored as it was, compact encodings are restored to
    their elements, and the operations of a type refuse values of another type.
  \<^item> \<open>Locks\<close> (\<^verbatim>\<open>util/thread.h\<close>): the table of record locks as a step relation of any number of threads. The locks on single keys exclude each
    other, use no freed memory and make progress as long as no \<^verbatim>\<open>multi_del\<close> ends; its \<^verbatim>\<open>RecordLocks\<close> object locks nothing and unlocks
    everything, which breaks all of that. The global lock has a race of its own.
  \<^item> \<open>Glob\<close>, \<open>TScan\<close> (\<^verbatim>\<open>util/strings.h\<close>, \<^verbatim>\<open>storage/t_scan.h\<close>, \<^verbatim>\<open>t_cursor.cpp\<close>): the pattern matcher against the declarative meaning of
    patterns, and \<^verbatim>\<open>SCAN\<close>, \<^verbatim>\<open>HSCAN\<close>, \<^verbatim>\<open>SSCAN\<close>, \<^verbatim>\<open>ZSCAN\<close> with their cursors: following the cursors lists every element once.
  \<^item> \<open>Reply\<close>, \<open>StrUtil\<close> (\<^verbatim>\<open>common/Response.cpp\<close>, \<^verbatim>\<open>codec/internal_error.cpp\<close>, \<^verbatim>\<open>util/strings.h\<close>, \<^verbatim>\<open>src/include/Request.h\<close>): replies and
    their texts, which determine the replies; the locale \<open>commands\<close>, a group of commands and what they promise to a client; printing of
    numbers and escaping.
  \<^item> \<open>Numbers\<close> (\<^verbatim>\<open>util/strings.h\<close>): which texts the readers of the handlers take for a number, and for which.
  \<^item> \<open>ProcHash\<close>, \<open>ProcSet\<close>, \<open>ProcKv\<close>, \<open>ProcZset\<close>, \<open>ProcScan\<close> (\<^verbatim>\<open>src/src/proc/\<close>): the handlers. For hashes, sets, lists, strings and sorted sets
    \<open>commands\<close> is interpreted by the handlers on the store, so that the bytes a client reads are the promised reply.
  \<^item> \<open>Server\<close> (\<^verbatim>\<open>proc_server.cpp\<close>, \<^verbatim>\<open>Commands.h\<close>, \<^verbatim>\<open>ServerContext.hpp\<close>, \<^verbatim>\<open>ProcMap.cpp\<close>, \<^verbatim>\<open>ClientConn.cpp\<close>): the server commands, the
    table of commands and the dispatcher; every request gets exactly one well-formed reply, but for the commands of \<open>may_end\<close>, which
    can end the process.

  \<^bold>\<open>Conventions.\<close> Operations take the engine \<open>R\<close> and the state \<open>s\<close> of type \<open>'db ssdb\<close> and return
  the C++ return code, the output parameters and the new state. Return codes are the integers of
  \<^verbatim>\<open>codec/error.h\<close>. Machine integers are words where they can wrap, and \<open>int\<close> with the range
  predicate \<open>int64\<close> where the code checks for overflow. An operation on one key corresponds to one critical
  section under the record lock of its key, so that the properties about single operations speak of operations that no other one on the same key
  overlaps. The operations on several keys are an exception: \<^verbatim>\<open>multi_del\<close> takes no lock, and \<^verbatim>\<open>multi_set\<close> releases its locks before it commits;
  their definitions say what they do when they run alone, and \<open>Interleave\<close> takes the two halves of \<open>multi_del\<close> apart. Where the source uses
  several critical sections, as the two threads do, the model has one definition for each, and the properties about
  interleaving compose them. Loops over an iterator terminate because every step uses up one unit
  of the iterator's 64-bit limit; \<open>-1\<close> is the largest limit, and the theorems about scans assume
  fewer than \<open>2 ^ 64\<close> entries. The loop of \<^verbatim>\<open>flushdb\<close> has no such bound and is a partial function,
  for which termination is proved. A scan is followed for a given number of calls, of which the theorems prove that
  there are enough. Ends of the process and reads out of bounds are values (\<open>rdb_abort\<close>, \<open>None\<close>). No definition uses fuel.

  \<^bold>\<open>Parameters.\<close> Besides RocksDB: the clock (one argument per reading), the random numbers
  of \<^verbatim>\<open>SPOP\<close> and \<^verbatim>\<open>SRANDMEMBER\<close>, \<^verbatim>\<open>strtod\<close> and the text \<^verbatim>\<open>snprintf\<close> gives for a double, the checksum
  of \<^verbatim>\<open>crcspeed\<close>, fresh memory, the uninitialised hash table of the compression, and \<^verbatim>\<open>slash::StringToLower\<close>. The record
  \<open>world\<close> of \<open>Server\<close> collects them for a request.

  \<^bold>\<open>Assumptions of the properties.\<close> Keys are shorter than 65536 bytes, since longer ones
  share item keys (\<open>long_key_collision\<close>); a key that does not exist has no left-over items at its
  next version (\<open>fresh\<close>), which \<open>Interleave\<close> proves for the states of its runs in which the
  version counter of the key has not wrapped; a deadline that is set fits in 64 bits; properties about results other than errors assume an engine
  without I/O errors.

  \<^bold>\<open>Not modelled.\<close> \<^verbatim>\<open>INCRBYFLOAT\<close> and \<^verbatim>\<open>HINCRBYFLOAT\<close>, which compute on 80-bit long doubles, and their handlers;
  \<^verbatim>\<open>DEBUG\<close> with the digest and \<^verbatim>\<open>INFO\<close>, which read process statistics and engine properties; the raw scan of the
  database; the writers of ziplists and intsets, which nothing outside \<^verbatim>\<open>src/src/redis/\<close> calls, SHA-1 and the
  allocator; the worker pool and the queues of \<^verbatim>\<open>util/thread.h\<close>; and the parts without storage logic: sockets, configuration,
  logging, process set-up and thread start-up.
\<close>

end
